(* ===== verification/Prelude.thy ===== *)
theory Prelude
  imports Main "HOL-Library.Word"
begin

unbundle bit_operations_syntax

section \<open>Prelude: machine types, outcomes of kernel code, shared lemmas\<close>

text \<open>
  What every component shares: the integer types of \<^verbatim>\<open>kernel/type.h\<close>, the outcome of
  a call of the kernel, the operations from which the handlers are composed, the error
  pointers (\<open>ERR_PTR\<close>, \<open>IS_ERR\<close>, \<open>PTR_ERR\<close>), and a Hoare-style predicate \<open>kspec\<close> with
  the rules that the components use.

  A call of a kernel function from a state \<open>s\<close> has three kinds of outcome:
  \<^item> \<open>None\<close>: the call runs forever (a list walk on a cyclic list, say);
  \<^item> \<open>Some (Inl msg)\<close>: the call reaches \<open>panic(msg)\<close>, which never returns;
  \<^item> \<open>Some (Inr (x, t))\<close>: the call returns \<open>x\<close> and leaves the state \<open>t\<close>.
\<close>

subsection \<open>Machine integers (type.h)\<close>

type_synonym u8 = "8 word"
type_synonym u32 = "32 word"
type_synonym u64 = "64 word"

text \<open>The collections of the development: layout constants, and facts about loads and stores.\<close>

named_theorems layout \<open>the constants of memlayout.h and mmdefs.h\<close>
named_theorems mem_simps \<open>what loads return after stores, and which stores do not interfere\<close>
named_theorems kspec_intros \<open>rules for the specifications of kernel calls\<close>

text \<open>A counter below a bound: the measure of the loops \<open>for (i = 0; i < n; ++i)\<close>.\<close>

lemma unat_Suc_less: "(i :: u64) < n \<Longrightarrow> unat (i + 1) = Suc (unat i)"
proof -
  assume "i < n"
  then have "unat i + 1 < 2 ^ 64" using unsigned_less [where ?'a = nat, of n] by (simp add: word_less_nat_alt)
  then show ?thesis by (subst unat_add_lem [THEN iffD1]) simp_all
qed

lemma loop_measure: "(i :: u64) < n \<Longrightarrow> unat n - unat (i + 1) < unat n - unat i"
  by (simp add: unat_Suc_less word_less_nat_alt)

subsection \<open>Error pointers (type.h)\<close>

definition ERR_PTR :: "u64 \<Rightarrow> u64" where
  "ERR_PTR err = - err"

definition IS_ERR :: "u64 \<Rightarrow> bool" where
  "IS_ERR ptr \<longleftrightarrow> sint ptr < 0"

definition PTR_ERR :: "u64 \<Rightarrow> u64" where
  "PTR_ERR ptr = ptr"

lemma unat_neg_u64: "(x :: u64) \<noteq> 0 \<Longrightarrow> unat (- x) = 2 ^ 64 - unat x"
  using unat_sub_if' [of 0 x] by (simp add: unat_eq_zero)

text \<open>A byte that is widened and narrowed again.\<close>

lemma byte_widened [simp]:
  "ucast (ucast c :: u64) = (c :: u8)" "ucast (ucast c :: u32) = (c :: u8)"
  by (rule bit_word_eqI, simp add: bit_simps)+

lemma sint_neg_iff: "sint (x :: u64) < 0 \<longleftrightarrow> 0x8000000000000000 \<le> x"
proof -
  have "sint x < 0 \<longleftrightarrow> bit x 63" using bit_last_iff [of x] by simp
  also have "\<dots> \<longleftrightarrow> odd (uint x div 2 ^ 63)" by (simp only: bit_iff_odd [symmetric] bit_uint_iff) simp
  also have "\<dots> \<longleftrightarrow> 2 ^ 63 \<le> uint x"
  proof -
    have "uint x < 2 * 2 ^ 63" "0 \<le> uint x" using unsigned_less [where ?'a = int, of x] by simp_all
    then have "uint x div 2 ^ 63 = (if 2 ^ 63 \<le> uint x then 1 else 0)"
      by (auto intro: int_div_pos_eq)
    then show ?thesis by simp
  qed
  finally show ?thesis by (simp add: word_le_def)
qed

lemma sint_small:
  assumes "unat (x :: u64) < 2 ^ 63"
  shows "sint x = int (unat x)"
proof -
  have "uint x < 2 ^ 63"
    unfolding uint_nat using assms of_nat_less_iff [of "unat x" "2 ^ 63", where ?'a = int] by simp
  moreover have "- (2 ^ 63) \<le> uint x" by (rule order_trans [of _ 0]) simp_all
  ultimately have "signed_take_bit 63 (uint x) = uint x" by (intro signed_take_bit_int_eq_self) simp_all
  then show "sint x = int (unat x)" by (simp add: sint_uint)
qed

text \<open>\<open>size_t\<close> is a signed type in this program: its comparisons, and its loops.\<close>

lemma sless_small:
  assumes "unat (a :: u64) < 2 ^ 63" and "unat b < 2 ^ 63"
  shows "a <s b \<longleftrightarrow> a < b" and "a <=s b \<longleftrightarrow> a \<le> b"
  using assms by (simp_all only: word_sless_alt word_sle_eq sint_small word_less_nat_alt word_le_nat_alt
    of_nat_less_iff of_nat_le_iff)

lemma nonneg_iff: "0 <=s (n :: u64) \<longleftrightarrow> unat n < 2 ^ 63"
  using sint_neg_iff [of n] by (auto simp: word_sle_eq word_le_nat_alt)

lemma sint_Suc_less: "(i :: u64) <s n \<Longrightarrow> sint (i + 1) = sint i + 1"
proof -
  assume "i <s n"
  then have "sint i < sint n" by (simp add: word_sless_alt)
  moreover have "sint n < 2 ^ 63" "- (2 ^ 63) \<le> sint i" using sint_lt [of n] sint_ge [of i] by simp_all
  ultimately have "signed_take_bit 63 (sint i + 1) = sint i + 1"
    by (intro signed_take_bit_int_eq_self) simp_all
  then show ?thesis by (simp add: sint_word_ariths)
qed

lemma sloop_measure: "(i :: u64) <s n \<Longrightarrow> sint i < sint n \<and> sint i < sint (i + 1)"
  by (simp add: sint_Suc_less word_sless_alt)

lemma sloop_less: "0 <=s (n :: u64) \<Longrightarrow> i \<le> n \<Longrightarrow> i <s n \<longleftrightarrow> i < n"
  by (rule sless_small) (simp_all add: nonneg_iff word_le_nat_alt)

subsection \<open>Error numbers (errno.h)\<close>

definition ENOENT :: int where "ENOENT = 2"
definition E2BIG :: int where "E2BIG = 7"
definition ENOMEM :: int where "ENOMEM = 12"
definition EFAULT :: int where "EFAULT = 14"
definition EINVAL :: int where "EINVAL = 22"
definition ENOSYS :: int where "ENOSYS = 38"

subsection \<open>Outcomes and their composition\<close>

type_synonym 'a outcome = "(string + 'a) option"
type_synonym ('s, 'a) kern = "'s \<Rightarrow> (string + 'a \<times> 's) option"

definition kreturn :: "'a \<Rightarrow> ('s, 'a) kern" where
  "kreturn x s = Some (Inr (x, s))"

definition kpanic :: "string \<Rightarrow> ('s, 'a) kern" where
  "kpanic msg s = Some (Inl msg)"

definition kbind :: "('s, 'a) kern \<Rightarrow> ('a \<Rightarrow> ('s, 'b) kern) \<Rightarrow> ('s, 'b) kern" where
  "kbind m f s =
     (case m s of
        None \<Rightarrow> None
      | Some (Inl msg) \<Rightarrow> Some (Inl msg)
      | Some (Inr (x, t)) \<Rightarrow> f x t)"

definition kthen :: "('s, 'a) kern \<Rightarrow> ('s, 'b) kern \<Rightarrow> ('s, 'b) kern" where
  "kthen m n = kbind m (\<lambda>_. n)"

definition kgets :: "('s \<Rightarrow> 'a) \<Rightarrow> ('s, 'a) kern" where
  "kgets f s = Some (Inr (f s, s))"

definition kmodify :: "('s \<Rightarrow> 's) \<Rightarrow> ('s, unit) kern" where
  "kmodify f s = Some (Inr ((), f s))"

definition kassert :: "bool \<Rightarrow> string \<Rightarrow> ('s, unit) kern" where
  "kassert c msg = (if c then kreturn () else kpanic msg)"

definition kwhen :: "bool \<Rightarrow> ('s, unit) kern \<Rightarrow> ('s, unit) kern" where
  "kwhen c m = (if c then m else kreturn ())"

text \<open>A pure walk that may not end (an \<open>option\<close>) inside a kernel call.\<close>

definition kwalk :: "('s \<Rightarrow> 'a option) \<Rightarrow> ('s, 'a) kern" where
  "kwalk f s = (case f s of None \<Rightarrow> None | Some x \<Rightarrow> Some (Inr (x, s)))"

lemma kreturn_apply [simp]: "kreturn x s = Some (Inr (x, s))"
  by (simp add: kreturn_def)

lemma kpanic_apply [simp]: "kpanic msg s = Some (Inl msg)"
  by (simp add: kpanic_def)

lemma kgets_apply [simp]: "kgets f s = Some (Inr (f s, s))"
  by (simp add: kgets_def)

lemma kmodify_apply [simp]: "kmodify f s = Some (Inr ((), f s))"
  by (simp add: kmodify_def)

lemma kassert_True [simp]: "kassert True msg = kreturn ()"
  and kassert_False [simp]: "kassert False msg = kpanic msg"
  by (simp_all add: kassert_def)

lemma kwhen_True [simp]: "kwhen True m = m"
  and kwhen_False [simp]: "kwhen False m = kreturn ()"
  by (simp_all add: kwhen_def)

lemma kbind_None: "m s = None \<Longrightarrow> kbind m f s = None"
  and kbind_Inl: "m s = Some (Inl msg) \<Longrightarrow> kbind m f s = Some (Inl msg)"
  and kbind_Inr: "m s = Some (Inr (x, t)) \<Longrightarrow> kbind m f s = f x t"
  by (simp_all add: kbind_def)

lemma kthen_None: "m s = None \<Longrightarrow> kthen m n s = None"
  and kthen_Inl: "m s = Some (Inl msg) \<Longrightarrow> kthen m n s = Some (Inl msg)"
  and kthen_Inr: "m s = Some (Inr (x, t)) \<Longrightarrow> kthen m n s = n t"
  by (simp_all add: kthen_def kbind_def)

lemmas kstep = kbind_None kbind_Inl kbind_Inr kthen_None kthen_Inl kthen_Inr

lemma kwalk_Some: "f s = Some x \<Longrightarrow> kwalk f s = Some (Inr (x, s))"
  and kwalk_None: "f s = None \<Longrightarrow> kwalk f s = None"
  by (simp_all add: kwalk_def)

text \<open>
  Composition is monotone, so a loop over the kernel's state may be a
  \<^theory_text>\<open>partial_function (option)\<close>.
\<close>

lemma kbind_mono [partial_function_mono]:
  fixes B :: "('g \<Rightarrow> 'h option) \<Rightarrow> ('s, 'a) kern"
    and C :: "('g \<Rightarrow> 'h option) \<Rightarrow> 'a \<Rightarrow> ('s, 'b) kern"
  assumes m: "\<And>s. mono_option (\<lambda>g. B g s)"
    and f: "\<And>x s. mono_option (\<lambda>g. C g x s)"
  shows "mono_option (\<lambda>g. kbind (B g) (C g) s)"
proof (rule monotoneI)
  fix g h :: "'g \<Rightarrow> 'h option"
  assume le: "fun_ord option_ord g h"
  from m have "option_ord (B g s) (B h s)"
    using le by (auto simp: monotone_def)
  then consider "B g s = None" | "B h s = B g s"
    by (auto simp: flat_ord_def)
  moreover have C: "option_ord (C g x t) (C h x t)" for x t
    using f le by (auto simp: monotone_def)
  ultimately show "option_ord (kbind (B g) (C g) s) (kbind (B h) (C h) s)"
  proof cases
    case 1
    then show ?thesis by (simp add: kbind_def flat_ord_def)
  next
    case 2
    with C show ?thesis
      by (auto simp: kbind_def flat_ord_def split: option.split sum.split)
  qed
qed

lemma kthen_mono [partial_function_mono]:
  assumes "\<And>s. mono_option (\<lambda>g. B g s)" and "\<And>s. mono_option (\<lambda>g. C g s)"
  shows "mono_option (\<lambda>g. kthen (B g) (C g) s)"
  unfolding kthen_def by (rule kbind_mono) (use assms in auto)

subsection \<open>Specifications of kernel calls\<close>

text \<open>
  \<open>kspec P m Q X\<close>: from every state in \<open>P\<close> the call \<open>m\<close> stops; if it returns, its result
  and the state satisfy \<open>Q\<close>; if it panics, the message satisfies \<open>X\<close>.
\<close>

definition kspec ::
  "('s \<Rightarrow> bool) \<Rightarrow> ('s, 'a) kern \<Rightarrow> ('a \<Rightarrow> 's \<Rightarrow> bool) \<Rightarrow> (string \<Rightarrow> bool) \<Rightarrow> bool" where
  "kspec P m Q X \<longleftrightarrow>
     (\<forall>s. P s \<longrightarrow>
       (case m s of
          None \<Rightarrow> False
        | Some (Inl msg) \<Rightarrow> X msg
        | Some (Inr (x, t)) \<Rightarrow> Q x t))"

lemma kspecI:
  assumes "\<And>s. P s \<Longrightarrow> (\<exists>msg. m s = Some (Inl msg) \<and> X msg) \<or>
             (\<exists>x t. m s = Some (Inr (x, t)) \<and> Q x t)"
  shows "kspec P m Q X"
  unfolding kspec_def using assms by (fastforce split: option.splits sum.splits)

lemma kspecE:
  assumes "kspec P m Q X" and "P s"
  obtains (panics) msg where "m s = Some (Inl msg)" and "X msg"
  | (returns) x t where "m s = Some (Inr (x, t))" and "Q x t"
proof -
  from assms have r: "case m s of None \<Rightarrow> False | Some (Inl msg) \<Rightarrow> X msg | Some (Inr (x, t)) \<Rightarrow> Q x t"
    by (simp add: kspec_def)
  show thesis
  proof (cases "m s")
    case None
    with r show thesis by simp
  next
    case (Some z)
    with r show thesis
      by (cases z) (auto intro: panics returns)
  qed
qed

lemma kspec_bind [kspec_intros]:
  assumes m: "kspec P m R X" and f: "\<And>x. kspec (R x) (f x) Q X"
  shows "kspec P (kbind m f) Q X"
proof (rule kspecI)
  fix s assume "P s"
  with m show "(\<exists>msg. kbind m f s = Some (Inl msg) \<and> X msg) \<or>
      (\<exists>x t. kbind m f s = Some (Inr (x, t)) \<and> Q x t)"
  proof (cases rule: kspecE)
    case (panics msg)
    then show ?thesis by (simp add: kbind_Inl)
  next
    case (returns x t)
    from f[of x] \<open>R x t\<close> show ?thesis
      by (cases rule: kspecE) (use returns in \<open>simp_all add: kbind_Inr\<close>)
  qed
qed

lemma kspec_then [kspec_intros]:
  "kspec P m (\<lambda>_. R) X \<Longrightarrow> kspec R n Q X \<Longrightarrow> kspec P (kthen m n) Q X"
  unfolding kthen_def by (rule kspec_bind)

lemma kspec_weaken:
  assumes "kspec P' m Q' X'" and "\<And>s. P s \<Longrightarrow> P' s"
    and "\<And>x s. Q' x s \<Longrightarrow> Q x s" and "\<And>msg. X' msg \<Longrightarrow> X msg"
  shows "kspec P m Q X"
  using assms unfolding kspec_def by (fastforce split: option.splits sum.splits)

lemma kspec_pure:
  "(\<And>s. P s \<Longrightarrow> Q x s) \<Longrightarrow> kspec P (kreturn x) Q X"
  "(\<And>s. P s \<Longrightarrow> Q (f s) s) \<Longrightarrow> kspec P (kgets f) Q X"
  "(\<And>s. P s \<Longrightarrow> Q () (g s)) \<Longrightarrow> kspec P (kmodify g) Q X"
  "X msg \<Longrightarrow> kspec P (kpanic msg) Q X"
  by (simp_all add: kspec_def)

text \<open>\<open>kresult m R\<close>: whatever state the call starts in, the result that it returns satisfies \<open>R\<close>.\<close>

definition kresult :: "('s, 'a) kern \<Rightarrow> ('a \<Rightarrow> bool) \<Rightarrow> bool" where
  "kresult m R \<longleftrightarrow> (\<forall>s x t. m s = Some (Inr (x, t)) \<longrightarrow> R x)"

lemma kresult_rules:
  "R x \<Longrightarrow> kresult (kreturn x) R"
  "(\<And>y. kresult (f y) R) \<Longrightarrow> kresult (kbind m f) R"
  "kresult n R \<Longrightarrow> kresult (kthen m n) R"
  by (auto simp: kresult_def kbind_def kthen_def split: option.splits sum.splits)

end
