(* ===== verification/Memory.thy ===== *)
theory Memory
  imports Prelude
begin

section \<open>Memory: bytes, loads and stores\<close>

text \<open>
  The kernel's memory is one array of bytes addressed by 64-bit words, little-endian as on
  RISC-V. Every pointer access of the C code is a load or a store of 1, 4 or 8 bytes, so
  aliasing between a free area, a page table, a list node and the header of a \<open>kmalloc\<close>
  block is visible to the model. \<open>span a n\<close> is the set of the \<open>n\<close> addresses from
  \<open>a\<close> on; accesses to disjoint spans do not interfere.
\<close>

type_synonym memory = "u64 \<Rightarrow> u8"

subsection \<open>Spans of addresses\<close>

definition span :: "u64 \<Rightarrow> nat \<Rightarrow> u64 set" where
  "span a n = {x. unat (x - a) < n}"

lemma span_iff: "x \<in> span a n \<longleftrightarrow> unat (x - a) < n"
  by (simp add: span_def)

lemma span_0 [simp]: "span a 0 = {}"
  by (simp add: span_def)

lemma span_self [simp]: "0 < n \<Longrightarrow> a \<in> span a n"
  by (simp add: span_def)

lemma span_mono: "m \<le> n \<Longrightarrow> span a m \<subseteq> span a n"
  by (auto simp: span_def)

lemma span_split: "unat i = n \<Longrightarrow> span a (n + k) \<subseteq> span a n \<union> span (a + i) k"
proof
  fix x assume i: "unat i = n" and "x \<in> span a (n + k)"
  then have x: "unat (x - a) < n + k" by (simp add: span_iff)
  show "x \<in> span a n \<union> span (a + i) k"
  proof (cases "unat (x - a) < n")
    case False
    then have "unat (x - a - i) = unat (x - a) - n" using i by (intro unat_sub [THEN trans]) (simp_all add: word_le_nat_alt)
    then have "unat (x - (a + i)) < k" using x False by (simp add: diff_diff_eq)
    then show ?thesis by (simp add: span_iff)
  qed (simp add: span_iff)
qed

lemma span_shift_subset:
  assumes "unat i + m \<le> n"
  shows "span (a + i) m \<subseteq> span a n"
proof
  fix x assume "x \<in> span (a + i) m"
  then have d: "unat (x - (a + i)) < m" by (simp add: span_iff)
  have "x - a = (x - (a + i)) + i" by simp
  then have "unat (x - a) \<le> unat (x - (a + i)) + unat i"
    by (metis mod_less_eq_dividend unat_word_ariths(1))
  with d assms show "x \<in> span a n" by (simp add: span_iff)
qed

lemma span_disjoint:
  assumes "n \<le> unat (b - a)" and "m \<le> unat (a - b)"
  shows "span a n \<inter> span b m = {}"
proof (rule ccontr)
  assume "span a n \<inter> span b m \<noteq> {}"
  then obtain x where x: "unat (x - a) < n" "unat (x - b) < m"
    by (auto simp: span_iff)
  with assms have "unat (x - a) < unat (b - a)" "unat (x - b) < unat (a - b)" by simp_all
  then have lt: "x - a < b - a" "x - b < a - b" by (simp_all add: word_less_nat_alt)
  have "b - a = (x - a) - (x - b)" "a - b = (x - b) - (x - a)" by simp_all
  with lt have "x - a < (x - a) - (x - b)" and "x - b < (x - b) - (x - a)" by metis+
  then show False by (metis word_less_nat_alt unat_sub_if' diff_le_self leD nat_le_linear word_le_nat_alt)
qed

lemma span_Suc: "span a (Suc n) = insert (a + of_nat n) (span a n)" if "n < 2 ^ 64"
proof -
  have u: "unat (of_nat n :: u64) = n" using that by (simp add: unat_of_nat)
  show ?thesis
  proof (rule set_eqI)
    fix x
    have "unat (x - a) = n \<longleftrightarrow> x = a + of_nat n"
    proof
      assume "unat (x - a) = n"
      then have "x - a = of_nat n" by (simp add: word_unat_eq_iff u)
      then show "x = a + of_nat n" by (simp add: algebra_simps)
    next
      assume "x = a + of_nat n"
      then show "unat (x - a) = n" by (simp add: u)
    qed
    then show "x \<in> span a (Suc n) \<longleftrightarrow> x \<in> insert (a + of_nat n) (span a n)"
      by (auto simp: span_iff less_Suc_eq)
  qed
qed

lemma span_Suc_left: "span a (Suc n) = insert a (span (a + 1) n)" if "n < 2 ^ 64"
proof (rule set_eqI)
  fix x
  show "x \<in> span a (Suc n) \<longleftrightarrow> x \<in> insert a (span (a + 1) n)"
  proof (cases "x = a")
    case True then show ?thesis by simp
  next
    case False
    then have "x - a \<noteq> 0" by simp
    then have "unat (x - a - 1) = unat (x - a) - 1"
      by (simp add: unat_minus_one)
    then have "unat (x - (a + 1)) = unat (x - a) - 1"
      by (simp only: diff_diff_add)
    moreover have "0 < unat (x - a)" using \<open>x - a \<noteq> 0\<close> by (simp add: unat_gt_0)
    ultimately show ?thesis using False by (auto simp: span_iff)
  qed
qed

lemma finite_span [simp]: "finite (span a n)"
  by simp

lemma mem_notin_span: "a \<in> span a n" if "n \<noteq> 0"
  using that by simp

subsection \<open>Little-endian loads and stores\<close>

primrec load_le :: "nat \<Rightarrow> memory \<Rightarrow> u64 \<Rightarrow> u64" where
  "load_le 0 m a = 0"
| "load_le (Suc n) m a = ucast (m a) OR push_bit 8 (load_le n m (a + 1))"

primrec store_le :: "nat \<Rightarrow> memory \<Rightarrow> u64 \<Rightarrow> u64 \<Rightarrow> memory" where
  "store_le 0 m a v = m"
| "store_le (Suc n) m a v = store_le n (m(a := ucast v)) (a + 1) (drop_bit 8 v)"

definition load64 :: "memory \<Rightarrow> u64 \<Rightarrow> u64" where
  "load64 m a = load_le 8 m a"

definition store64 :: "memory \<Rightarrow> u64 \<Rightarrow> u64 \<Rightarrow> memory" where
  "store64 m a v = store_le 8 m a v"

definition load32 :: "memory \<Rightarrow> u64 \<Rightarrow> u32" where
  "load32 m a = ucast (load_le 4 m a)"

definition store32 :: "memory \<Rightarrow> u64 \<Rightarrow> u32 \<Rightarrow> memory" where
  "store32 m a v = store_le 4 m a (ucast v)"

definition store8 :: "memory \<Rightarrow> u64 \<Rightarrow> u8 \<Rightarrow> memory" where
  "store8 m a v = m(a := v)"

subsection \<open>Frames\<close>

text \<open>Two memories agree on a set of addresses.\<close>

definition agree :: "u64 set \<Rightarrow> memory \<Rightarrow> memory \<Rightarrow> bool" where
  "agree A m m' \<longleftrightarrow> (\<forall>x\<in>A. m x = m' x)"

lemma agree_refl [simp]: "agree A m m"
  by (simp add: agree_def)

lemma agree_sym: "agree A m m' \<Longrightarrow> agree A m' m"
  by (simp add: agree_def)

lemma agree_trans: "agree A m m' \<Longrightarrow> agree A m' m'' \<Longrightarrow> agree A m m''"
  by (simp add: agree_def)

lemma agree_mono: "agree A m m' \<Longrightarrow> B \<subseteq> A \<Longrightarrow> agree B m m'"
  by (auto simp: agree_def)

lemma agree_Un [simp]: "agree (A \<union> B) m m' \<longleftrightarrow> agree A m m' \<and> agree B m m'"
  by (auto simp: agree_def)

lemma load_le_cong:
  "agree (span a n) m m' \<Longrightarrow> n \<le> 2 ^ 64 \<Longrightarrow> load_le n m a = load_le n m' a"
proof (induction n arbitrary: a)
  case 0
  then show ?case by simp
next
  case (Suc n)
  from Suc.prems have "agree (span (a + 1) n) m m'" and "m a = m' a"
    by (simp_all add: span_Suc_left agree_def)
  with Suc.IH Suc.prems show ?case by simp
qed

lemma store_le_outside:
  "x \<notin> span a n \<Longrightarrow> n \<le> 2 ^ 64 \<Longrightarrow> store_le n m a v x = m x"
  by (induction n arbitrary: m a v) (simp_all add: span_Suc_left)

lemma store_le_inside:
  "n \<le> 8 \<Longrightarrow> load_le n (store_le n m a v) a = take_bit (8 * n) v"
proof (induction n arbitrary: m a v)
  case 0
  then show ?case by simp
next
  case (Suc n)
  have "unat (- 1 :: u64) = 2 ^ 64 - 1"
    by (simp add: unsigned_minus_1_eq_mask mask_eq_exp_minus_1)
  then have out: "a \<notin> span (a + 1) n"
    using Suc.prems by (simp add: span_iff)
  from Suc have "load_le n (store_le n (m(a := ucast v)) (a + 1) (drop_bit 8 v)) (a + 1)
      = take_bit (8 * n) (drop_bit 8 v)" by simp
  moreover have "store_le n (m(a := ucast v)) (a + 1) (drop_bit 8 v) a = ucast v"
    using out Suc.prems by (simp add: store_le_outside)
  moreover have "ucast (ucast v :: u8) OR push_bit 8 (take_bit (8 * n) (drop_bit 8 v))
      = take_bit (8 * Suc n) v"
    by (rule bit_word_eqI) (use Suc.prems in \<open>auto simp: bit_simps\<close>)
  ultimately show ?case by simp
qed

lemma load_le_store_le_other:
  "span a n \<inter> span b k = {} \<Longrightarrow> n \<le> 2 ^ 64 \<Longrightarrow> k \<le> 2 ^ 64 \<Longrightarrow>
   load_le k (store_le n m a v) b = load_le k m b"
  by (rule load_le_cong) (auto simp: agree_def intro!: store_le_outside)

lemma agree_store_le:
  "span a n \<inter> A = {} \<Longrightarrow> n \<le> 2 ^ 64 \<Longrightarrow> agree A (store_le n m a v) m"
  by (auto simp: agree_def intro!: store_le_outside)

subsection \<open>The rules the components use\<close>

lemma load64_store64 [simp, mem_simps]: "load64 (store64 m a v) a = v"
proof -
  have "take_bit 64 v = v"
    by (rule bit_word_eqI) (simp add: bit_simps)
  then show ?thesis
    by (simp add: load64_def store64_def store_le_inside)
qed

lemma load32_store32 [simp, mem_simps]: "load32 (store32 m a v) a = v"
proof -
  have "ucast (take_bit 32 (ucast v :: u64)) = v"
    by (rule bit_word_eqI) (simp add: bit_simps)
  then show ?thesis
    by (simp add: load32_def store32_def store_le_inside)
qed

lemma store8_same [simp, mem_simps]: "store8 m a v a = v"
  by (simp add: store8_def)

lemma store8_other [mem_simps]: "b \<noteq> a \<Longrightarrow> store8 m a v b = m b"
  by (simp add: store8_def)

lemma load64_store64_other [mem_simps]:
  "span a 8 \<inter> span b 8 = {} \<Longrightarrow> load64 (store64 m a v) b = load64 m b"
  by (simp add: load64_def store64_def load_le_store_le_other)

lemma load64_store32_other [mem_simps]:
  "span a 4 \<inter> span b 8 = {} \<Longrightarrow> load64 (store32 m a v) b = load64 m b"
  by (simp add: load64_def store32_def load_le_store_le_other)

lemma load32_store64_other [mem_simps]:
  "span a 8 \<inter> span b 4 = {} \<Longrightarrow> load32 (store64 m a v) b = load32 m b"
  by (simp add: load32_def store64_def load_le_store_le_other)

lemma load32_store32_other [mem_simps]:
  "span a 4 \<inter> span b 4 = {} \<Longrightarrow> load32 (store32 m a v) b = load32 m b"
  by (simp add: load32_def store32_def load_le_store_le_other)

lemma load64_store8_other [mem_simps]:
  "a \<notin> span b 8 \<Longrightarrow> load64 (store8 m a v) b = load64 m b"
  unfolding load64_def by (rule load_le_cong) (auto simp: agree_def store8_def)

lemma load32_store8_other [mem_simps]:
  "b \<notin> span a 4 \<Longrightarrow> load32 (store8 m b v) a = load32 m a"
  unfolding load32_def by (rule arg_cong [of _ _ ucast], rule load_le_cong) (auto simp: agree_def store8_def)

lemma agree_load64: "agree A m m' \<Longrightarrow> span a 8 \<subseteq> A \<Longrightarrow> load64 m a = load64 m' a"
  unfolding load64_def by (rule load_le_cong) (auto intro: agree_mono)

lemma agree_load32: "agree A m m' \<Longrightarrow> span a 4 \<subseteq> A \<Longrightarrow> load32 m a = load32 m' a"
  unfolding load32_def by (rule arg_cong [where f = ucast], rule load_le_cong) (auto intro: agree_mono)

lemma agree_store64: "span a 8 \<inter> A = {} \<Longrightarrow> agree A (store64 m a v) m"
  by (simp add: store64_def agree_store_le)

lemma agree_store64_iff:
  "span a 8 \<inter> A = {} \<Longrightarrow> agree A (store64 m a v) m' \<longleftrightarrow> agree A m m'"
  using agree_store64 agree_trans agree_sym by metis

lemma agree_store32: "span a 4 \<inter> A = {} \<Longrightarrow> agree A (store32 m a v) m"
  by (simp add: store32_def agree_store_le)

lemma agree_store8: "a \<notin> A \<Longrightarrow> agree A (store8 m a v) m"
  by (auto simp: agree_def store8_def)

text \<open>Two places of one object: the offsets decide.\<close>

lemma span_disjoint_offsets:
  "n \<le> unat (j - i) \<Longrightarrow> m \<le> unat (i - j) \<Longrightarrow> span (a + i) n \<inter> span (a + j) m = {}"
  by (rule span_disjoint) simp_all

lemma span_disjoint_base:
  "n \<le> unat j \<Longrightarrow> m \<le> unat (- j) \<Longrightarrow> span a n \<inter> span (a + j) m = {}"
  "n \<le> unat (- j) \<Longrightarrow> m \<le> unat j \<Longrightarrow> span (a + j) n \<inter> span a m = {}"
  by (rule span_disjoint; simp)+

subsection \<open>Aligned areas\<close>

definition aligned :: "nat \<Rightarrow> u64 \<Rightarrow> bool" where
  "aligned n a \<longleftrightarrow> take_bit n a = 0"

lemma bit_u64_less: "bit (a :: u64) i \<Longrightarrow> i < 64"
  using bit_imp_le_length [of a i] by simp

lemma aligned_bit: "aligned n a \<longleftrightarrow> (\<forall>i<n. \<not> bit a i)"
proof
  assume "aligned n a"
  then have "\<not> bit (take_bit n a) i" for i by (simp add: aligned_def)
  then show "\<forall>i<n. \<not> bit a i" by (simp add: bit_simps)
next
  assume "\<forall>i<n. \<not> bit a i"
  then show "aligned n a" unfolding aligned_def by (auto intro!: bit_word_eqI simp: bit_simps)
qed

lemma unat_less_drop_bit: "unat (d :: u64) < 2 ^ n \<longleftrightarrow> drop_bit n d = 0"
proof -
  have "drop_bit n d = 0 \<longleftrightarrow> unat (drop_bit n d) = 0" by (simp add: unat_eq_zero)
  also have "\<dots> \<longleftrightarrow> unat d div 2 ^ n = 0"
    unfolding unat_drop_bit_eq by (simp only: drop_bit_eq_div)
  also have "\<dots> \<longleftrightarrow> unat d < 2 ^ n" by (simp add: div_eq_0_iff)
  finally show ?thesis by simp
qed

lemma span_aligned: 
  assumes "aligned n a"
  shows "x \<in> span a (2 ^ n) \<longleftrightarrow> drop_bit n x = drop_bit n a"
proof
  assume "x \<in> span a (2 ^ n)"
  then have d: "drop_bit n (x - a) = 0" by (simp add: span_iff unat_less_drop_bit)
  then have dis: "\<not> bit a i \<or> \<not> bit (x - a) i" for i
  proof (cases "i < n")
    case True with assms show ?thesis by (simp add: aligned_bit)
  next
    case False
    then have "bit (x - a) i = bit (drop_bit n (x - a)) (i - n)" by (simp add: bit_simps)
    with d show ?thesis by simp
  qed
  have "x = a + (x - a)" by simp
  also have "\<dots> = a OR (x - a)" using dis by (rule disjunctive_add)
  finally have "x = a OR (x - a)" .
  then have "drop_bit n x = drop_bit n (a OR (x - a))" by simp
  then show "drop_bit n x = drop_bit n a" using d by (simp only: drop_bit_or) simp
next
  assume eq: "drop_bit n x = drop_bit n a"
  have b: "bit x i = bit a i" if "n \<le> i" for i
  proof -
    have "bit x i = bit (drop_bit n x) (i - n)" "bit a i = bit (drop_bit n a) (i - n)"
      using that by (simp_all add: bit_simps)
    with eq show ?thesis by simp
  qed
  have "x = a OR take_bit n x"
    using b assms by (intro bit_word_eqI) (metis aligned_bit bit_or_iff bit_take_bit_iff linorder_not_less)
  also have "\<dots> = a + take_bit n x"
    using assms by (intro disjunctive_add [symmetric]) (auto simp: bit_simps aligned_bit)
  finally have "x - a = take_bit n x" by (metis add_diff_cancel_left')
  then show "x \<in> span a (2 ^ n)"
    by (simp add: span_iff unat_less_drop_bit) (auto intro!: bit_word_eqI simp: bit_simps)
qed


lemma bit_exp: "bit (2 ^ n :: u64) i \<longleftrightarrow> i = n \<and> n < 64"
  by (auto simp: bit_exp_iff)

lemma aligned_mono: "aligned n a \<Longrightarrow> m \<le> n \<Longrightarrow> aligned m a"
  by (auto simp: aligned_bit)

lemma drop_bit_eq_iff:
  "drop_bit n x = drop_bit n (y :: u64) \<longleftrightarrow> (\<forall>i\<ge>n. bit x i = bit y i)"
proof
  assume eq: "drop_bit n x = drop_bit n y"
  show "\<forall>i\<ge>n. bit x i = bit y i"
  proof (intro allI impI)
    fix i assume "n \<le> i"
    then have "bit x i = bit (drop_bit n x) (i - n)" "bit y i = bit (drop_bit n y) (i - n)"
      by (simp_all add: bit_simps)
    with eq show "bit x i = bit y i" by simp
  qed
next
  assume "\<forall>i\<ge>n. bit x i = bit y i"
  then show "drop_bit n x = drop_bit n y"
    by (intro bit_word_eqI) (simp add: bit_simps)
qed

lemma aligned_add_exp:
  assumes "aligned (Suc n) a"
  shows "a + 2 ^ n = a OR 2 ^ n"
  using assms by (intro disjunctive_add) (auto simp: aligned_bit bit_exp)

lemma aligned_area_split:
  assumes "aligned (Suc n) a" and "n < 64"
  shows "span a (2 ^ Suc n) = span a (2 ^ n) \<union> span (a + 2 ^ n) (2 ^ n)"
    and "span a (2 ^ n) \<inter> span (a + 2 ^ n) (2 ^ n) = {}"
    and "aligned n a" and "aligned n (a + 2 ^ n)"
proof -
  show al: "aligned n a" using assms by (auto intro: aligned_mono)
  show al2: "aligned n (a + 2 ^ n)"
    using assms by (auto simp: aligned_add_exp aligned_bit bit_or_iff bit_exp)
  have x1: "x \<in> span a (2 ^ Suc n) \<longleftrightarrow> (\<forall>i\<ge>Suc n. bit x i = bit a i)" for x
    using assms by (simp only: span_aligned drop_bit_eq_iff)
  have x2: "x \<in> span a (2 ^ n) \<longleftrightarrow> (\<forall>i\<ge>n. bit x i = bit a i)" for x
    using al by (simp only: span_aligned drop_bit_eq_iff)
  have x3: "x \<in> span (a + 2 ^ n) (2 ^ n) \<longleftrightarrow> (\<forall>i\<ge>n. bit x i = (bit a i \<or> i = n))" for x
    using assms by (simp only: span_aligned [OF al2] drop_bit_eq_iff)
      (simp add: aligned_add_exp bit_or_iff bit_exp)
  have na: "\<not> bit a n" using assms by (simp add: aligned_bit)
  show "span a (2 ^ Suc n) = span a (2 ^ n) \<union> span (a + 2 ^ n) (2 ^ n)"
    unfolding set_eq_iff Un_iff x1 x2 x3 using na by (metis Suc_leI Suc_leD Suc_n_not_le_n le_neq_implies_less)
  show "span a (2 ^ n) \<inter> span (a + 2 ^ n) (2 ^ n) = {}"
    unfolding set_eq_iff Int_iff x2 x3 using na by auto
qed

text \<open>The buddy of an aligned area, and the area they form together.\<close>

lemma aligned_buddy:
  assumes "aligned n a" and "n < 64"
  shows "aligned n (a XOR 2 ^ n)" and "aligned (Suc n) (a AND NOT (2 ^ n))"
    and "span (a AND NOT (2 ^ n)) (2 ^ Suc n) = span a (2 ^ n) \<union> span (a XOR 2 ^ n) (2 ^ n)"
    and "span a (2 ^ n) \<inter> span (a XOR 2 ^ n) (2 ^ n) = {}"
proof -
  show al: "aligned n (a XOR 2 ^ n)"
    using assms by (auto simp: aligned_bit bit_xor_iff bit_exp)
  show al2: "aligned (Suc n) (a AND NOT (2 ^ n))"
    using assms by (auto simp: aligned_bit bit_and_iff bit_not_iff bit_exp less_Suc_eq)
  have x1: "x \<in> span a (2 ^ n) \<longleftrightarrow> (\<forall>i\<ge>n. bit x i = bit a i)" for x
    using assms by (simp only: span_aligned drop_bit_eq_iff)
  have x2: "x \<in> span (a XOR 2 ^ n) (2 ^ n) \<longleftrightarrow> (\<forall>i\<ge>n. bit x i = (bit a i \<noteq> (i = n)))" for x
    using assms by (simp only: span_aligned [OF al] drop_bit_eq_iff) (simp add: bit_xor_iff bit_exp)
  have x3: "x \<in> span (a AND NOT (2 ^ n)) (2 ^ Suc n) \<longleftrightarrow> (\<forall>i\<ge>Suc n. bit x i = bit a i)" for x
    by (simp only: span_aligned [OF al2] drop_bit_eq_iff)
      (auto simp: bit_and_iff bit_not_iff bit_exp dest: bit_u64_less)
  show "span (a AND NOT (2 ^ n)) (2 ^ Suc n) = span a (2 ^ n) \<union> span (a XOR 2 ^ n) (2 ^ n)"
    unfolding set_eq_iff Un_iff x1 x2 x3 by (metis Suc_leI Suc_leD Suc_n_not_le_n le_neq_implies_less)
  show "span a (2 ^ n) \<inter> span (a XOR 2 ^ n) (2 ^ n) = {}"
    unfolding set_eq_iff Int_iff x1 x2 by auto
qed

text \<open>An offset inside an aligned area.\<close>

lemma aligned_offset:
  assumes "aligned n a" and "unat d < 2 ^ n"
  shows "a + d = a OR d" and "take_bit n (a + d) = (d :: u64)"
proof -
  have d: "drop_bit n d = 0" using assms(2) by (simp only: unat_less_drop_bit)
  have high: "\<not> bit d i" if "n \<le> i" for i
    using arg_cong [OF d, of "\<lambda>v. bit v (i - n)"] that by (simp add: bit_simps)
  have "\<not> bit a i \<or> \<not> bit d i" for i
    using high [of i] assms(1) by (cases "i < n") (auto simp: aligned_bit)
  then show or: "a + d = a OR d" by (rule disjunctive_add)
  show "take_bit n (a + d) = d"
    unfolding or using high assms(1)
    by (intro bit_word_eqI) (auto simp: bit_simps aligned_bit not_le [symmetric])
qed

lemma store_le_inside_eq:
  "x \<in> span a n \<Longrightarrow> n \<le> 8 \<Longrightarrow> store_le n m a v x = store_le n m' a v x"
proof (induction n arbitrary: m m' a v)
  case 0
  then show ?case by simp
next
  case (Suc n)
  show ?case
  proof (cases "x \<in> span (a + 1) n")
    case True
    with Suc show ?thesis by (simp add: Suc.IH[of "a + 1" "m(a := ucast v)" _ "m'(a := ucast v)"])
  next
    case False
    with Suc.prems have "x = a" by (simp add: span_Suc_left)
    with False Suc.prems show ?thesis by (simp add: store_le_outside)
  qed
qed

lemma store64_commute:
  assumes "span a 8 \<inter> span b 8 = {}"
  shows "store64 (store64 m a v) b w = store64 (store64 m b w) a v"
proof (rule ext)
  fix x
  consider "x \<in> span a 8" "x \<notin> span b 8" | "x \<notin> span a 8" "x \<in> span b 8"
    | "x \<notin> span a 8" "x \<notin> span b 8" using assms by blast
  then show "store64 (store64 m a v) b w x = store64 (store64 m b w) a v x"
    by cases (simp_all add: store64_def store_le_outside store_le_inside_eq [of x _ 8])
qed

lemma load_le_offset:
  "\<forall>j<n. m (a + of_nat j) = m' (b + of_nat j) \<Longrightarrow> load_le n m a = load_le n m' b"
proof (induction n arbitrary: a b)
  case (Suc n)
  have "m (a + 1 + of_nat j) = m' (b + 1 + of_nat j)" if "j < n" for j
    using Suc.prems [rule_format, of "Suc j"] that by (simp add: add.assoc)
  then have "load_le n m (a + 1) = load_le n m' (b + 1)" by (intro Suc.IH) blast
  then show ?case using Suc.prems [rule_format, of 0] by simp
qed simp

lemma take_bit_load_le: "k \<le> n \<Longrightarrow> take_bit (8 * k) (load_le n m a) = load_le k m a"
proof (induction n arbitrary: k a)
  case (Suc n)
  show ?case
  proof (cases k)
    case (Suc j)
    with Suc.IH [of j "a + 1"] Suc.prems have e: "load_le j m (a + 1) = take_bit (8 * j) (load_le n m (a + 1))" by simp
    show ?thesis unfolding Suc load_le.simps e
      by (rule bit_word_eqI) (auto simp: bit_simps dest: bit_imp_le_length)
  qed simp
qed simp

lemma load32_low: "load32 m a = ucast (load64 m a)"
proof -
  have e: "load_le 4 m a = take_bit 32 (load64 m a)" using take_bit_load_le [of 4 8 m a] by (simp add: load64_def)
  show ?thesis unfolding load32_def e by (rule bit_word_eqI) (simp add: bit_simps)
qed

subsection \<open>Concrete memories\<close>

text \<open>A memory of a few 64-bit words, zero elsewhere.\<close>

definition words_at :: "(u64 \<times> u64) list \<Rightarrow> memory" where
  "words_at ws = foldr (\<lambda>(a, v) m. store64 m a v) ws (\<lambda>_. 0)"

lemma aligned_spans_disjoint:
  assumes "aligned 3 a" and "aligned 3 b" and "a \<noteq> b"
  shows "span a 8 \<inter> span b 8 = {}"
proof -
  have "span a 8 = {x. drop_bit 3 x = drop_bit 3 a}" "span b 8 = {x. drop_bit 3 x = drop_bit 3 b}"
    using span_aligned [OF assms(1)] span_aligned [OF assms(2)] by auto
  moreover have "drop_bit 3 a \<noteq> drop_bit 3 b"
  proof
    assume d: "drop_bit 3 a = drop_bit 3 b"
    have "bit a i = bit b i" for i
      using assms(1,2) d by (cases "i < 3") (simp_all add: aligned_bit drop_bit_eq_iff)
    then show False using assms(3) by (simp add: bit_eq_iff)
  qed
  ultimately show ?thesis by auto
qed

lemma load64_words_at:
  assumes "aligned 3 a" and "\<forall>w\<in>set ws. aligned 3 (fst w)"
  shows "load64 (words_at ws) a = (case map_of ws a of Some v \<Rightarrow> v | None \<Rightarrow> 0)"
  using assms(2)
proof (induction ws)
  case Nil
  then show ?case by (simp add: words_at_def load64_def eval_nat_numeral)
next
  case (Cons w ws)
  then have "load64 (store64 (words_at ws) b v) a = load64 (words_at ws) a" if "w = (b, v)" "a \<noteq> b" for b v
    using that aligned_spans_disjoint [OF _ assms(1), of b] by (intro load64_store64_other) simp
  then show ?case using Cons by (cases w) (auto simp: words_at_def)
qed

lemma words_at_outside: "\<forall>w\<in>set ws. x \<notin> span (fst w) 8 \<Longrightarrow> words_at ws x = 0"
  by (induction ws) (auto simp: words_at_def store64_def store_le_outside)

end
