(* ===== verification/Layout.thy ===== *)
theory Layout
  imports Memory
begin

section \<open>Address-space layout and Sv39 bit fields\<close>

text \<open>
  The constants of \<^verbatim>\<open>kernel/memlayout.h\<close>, the conversions between the kernel's
  virtual and physical addresses (\<open>_PA\<close>, \<open>_VA\<close>, and \<open>PA\<close>, \<open>VA\<close> of
  \<^verbatim>\<open>kernel/mm.h\<close>), and the unions of \<^verbatim>\<open>kernel/mmdefs.h\<close>. A packed bit field
  of \<open>w\<close> bits that starts at bit \<open>lo\<close> is read with \<open>field lo w\<close> and written with
  \<open>set_field lo w\<close>; each union is its 64-bit \<open>value\<close> with one reader per member.
\<close>

subsection \<open>memlayout.h\<close>

definition PAGE_INDEX_BITS :: nat where [simp, layout]: "PAGE_INDEX_BITS = 12"
definition PAGE_SIZE :: u64 where [simp, layout]: "PAGE_SIZE = 4096"
definition MAX_ORDER :: nat where [simp, layout]: "MAX_ORDER = 10"
definition SKIP_ORDER :: nat where [simp, layout]: "SKIP_ORDER = 8"

definition UART0 :: u64 where [simp, layout]: "UART0 = 0x10000000"
definition UART0_IRQ :: u32 where [simp, layout]: "UART0_IRQ = 10"

definition PHYBASE :: u64 where [simp, layout]: "PHYBASE = 0x80000000"
definition PHYSIZE :: u64 where [simp, layout]: "PHYSIZE = 128 * 1024 * 1024"
definition PHYSTOP :: u64 where [simp, layout]: "PHYSTOP = 0x88000000"

definition SPLIT :: u64 where [simp, layout]: "SPLIT = 0x3f00000000"
definition KERNPHY :: u64 where [simp, layout]: "KERNPHY = 0x80000000"
definition KERNBASE :: u64 where [simp, layout]: "KERNBASE = 0x3f00000000"
definition KERNSTOP :: u64 where [simp, layout]: "KERNSTOP = 0x3f40000000"
definition KERN_PHYBASE :: u64 where [simp, layout]: "KERN_PHYBASE = 0x3f00000000"
definition KERN_PHYSTOP :: u64 where [simp, layout]: "KERN_PHYSTOP = 0x3f08000000"
definition MMIOPHY :: u64 where [simp, layout]: "MMIOPHY = 0"
definition MMIOBASE :: u64 where [simp, layout]: "MMIOBASE = 0x3f40000000"
definition MMIOSTOP :: u64 where [simp, layout]: "MMIOSTOP = 0x3f80000000"
definition USERSTACK :: u64 where [simp, layout]: "USERSTACK = 0x3ef0000000"
definition USERSTACKMIN :: u64 where [simp, layout]: "USERSTACKMIN = 0x3ee0000000"
definition PLIC :: u64 where [simp, layout]: "PLIC = 0x3f4c000000"

definition PLIC_SENABLE :: "u64 \<Rightarrow> u64" where
  "PLIC_SENABLE hart = PLIC + 0x2080 + hart * 0x100"

definition PLIC_SPRIORITY :: "u64 \<Rightarrow> u64" where
  "PLIC_SPRIORITY hart = PLIC + 0x201000 + hart * 0x2000"

definition PLIC_SCLAIM :: "u64 \<Rightarrow> u64" where
  "PLIC_SCLAIM hart = PLIC + 0x201004 + hart * 0x2000"

definition PA_of :: "u64 \<Rightarrow> u64" where
  "PA_of x = x - KERNBASE + KERNPHY"

definition VA_of :: "u64 \<Rightarrow> u64" where
  "VA_of x = x + KERNBASE - KERNPHY"

subsection \<open>Bit fields\<close>

definition field :: "nat \<Rightarrow> nat \<Rightarrow> u64 \<Rightarrow> u64" where
  "field lo w v = take_bit w (drop_bit lo v)"

definition set_field :: "nat \<Rightarrow> nat \<Rightarrow> u64 \<Rightarrow> u64 \<Rightarrow> u64" where
  "set_field lo w x v = (v AND NOT (push_bit lo (mask w))) OR push_bit lo (take_bit w x)"

lemma bit_field_iff: "bit (field lo w v) n \<longleftrightarrow> n < w \<and> bit v (lo + n)"
  by (simp add: field_def bit_simps)

lemma bit_set_field_iff:
  "lo + w \<le> 64 \<Longrightarrow>
   bit (set_field lo w x v) n \<longleftrightarrow>
     (if lo \<le> n \<and> n < lo + w then bit x (n - lo) else bit v n)"
  by (auto simp: set_field_def bit_simps dest: bit_imp_le_length)

lemma field_set_field_same [simp]:
  "lo + w \<le> 64 \<Longrightarrow> field lo w (set_field lo w x v) = take_bit w x"
  by (rule bit_word_eqI) (auto simp: bit_field_iff bit_set_field_iff bit_simps)

lemma field_set_field_other [simp]:
  "lo + w \<le> 64 \<Longrightarrow> lo + w \<le> lo' \<or> lo' + w' \<le> lo \<Longrightarrow>
   field lo' w' (set_field lo w x v) = field lo' w' v"
  by (rule bit_word_eqI) (auto simp: bit_field_iff bit_set_field_iff)

lemma take_bit_field [simp]: "w \<le> w' \<Longrightarrow> take_bit w' (field lo w v) = field lo w v"
  by (rule bit_word_eqI) (auto simp: bit_field_iff bit_simps)

lemma unat_field_less: "w < 64 \<Longrightarrow> unat (field lo w v) < 2 ^ w"
  by (simp add: field_def unsigned_take_bit_eq)

subsection \<open>The unions of mmdefs.h\<close>

definition va_off :: "u64 \<Rightarrow> u64" where "va_off v = field 0 12 v"
definition va_vpn0 :: "u64 \<Rightarrow> u64" where "va_vpn0 v = field 12 9 v"
definition va_vpn1 :: "u64 \<Rightarrow> u64" where "va_vpn1 v = field 21 9 v"
definition va_vpn2 :: "u64 \<Rightarrow> u64" where "va_vpn2 v = field 30 9 v"
definition va_vpn :: "u64 \<Rightarrow> u64" where "va_vpn v = field 12 27 v"

definition pa_off :: "u64 \<Rightarrow> u64" where "pa_off v = field 0 12 v"
definition pa_ppn0 :: "u64 \<Rightarrow> u64" where "pa_ppn0 v = field 12 9 v"
definition pa_ppn1 :: "u64 \<Rightarrow> u64" where "pa_ppn1 v = field 21 9 v"
definition pa_ppn2 :: "u64 \<Rightarrow> u64" where "pa_ppn2 v = field 30 26 v"
definition pa_ppn :: "u64 \<Rightarrow> u64" where "pa_ppn v = field 12 44 v"

definition pa_from_ppn :: "u64 \<Rightarrow> u64" where
  "pa_from_ppn ppn = push_bit PAGE_INDEX_BITS ppn"

definition PTE_VALID :: u32 where [simp, layout]: "PTE_VALID = 1"
definition PTE_READ :: u32 where [simp, layout]: "PTE_READ = 2"
definition PTE_WRITE :: u32 where [simp, layout]: "PTE_WRITE = 4"
definition PTE_EXEC :: u32 where [simp, layout]: "PTE_EXEC = 8"
definition PTE_USER :: u32 where [simp, layout]: "PTE_USER = 16"
definition PTE_GLOBAL :: u32 where [simp, layout]: "PTE_GLOBAL = 32"

definition pte_flags :: "u64 \<Rightarrow> u32" where "pte_flags v = ucast (field 0 8 v)"
definition pte_ppn0 :: "u64 \<Rightarrow> u64" where "pte_ppn0 v = field 10 9 v"
definition pte_ppn1 :: "u64 \<Rightarrow> u64" where "pte_ppn1 v = field 19 9 v"
definition pte_ppn2 :: "u64 \<Rightarrow> u64" where "pte_ppn2 v = field 28 26 v"
definition pte_ppn :: "u64 \<Rightarrow> u64" where "pte_ppn v = field 10 44 v"

definition pte_is_leaf :: "u32 \<Rightarrow> bool" where
  "pte_is_leaf flags \<longleftrightarrow> flags AND (PTE_READ OR PTE_WRITE OR PTE_EXEC) \<noteq> 0"

definition pte_invalid_or_leaf :: "u64 \<Rightarrow> bool" where
  "pte_invalid_or_leaf pte \<longleftrightarrow>
     \<not> (pte_flags pte AND PTE_VALID \<noteq> 0) \<or> pte_is_leaf (pte_flags pte)"

definition subtable_from_pte :: "u64 \<Rightarrow> u64" where
  "subtable_from_pte pte = VA_of (pa_from_ppn (pte_ppn pte))"

definition MM_SV39 :: u64 where [simp, layout]: "MM_SV39 = 8"

text \<open>
  \<open>PA\<close> is the identity while the kernel runs at its physical address (\<open>early\<close>).
  \<open>satp_from_table\<close> panics on a misaligned table, otherwise returns the register's value:
  \<open>mode\<close> in bits 60 to 63, \<open>asid\<close> 0, \<open>ppn\<close> in bits 0 to 43.
\<close>

definition PA :: "bool \<Rightarrow> u64 \<Rightarrow> u64" where
  "PA is_early ptr = (if is_early then ptr else PA_of ptr)"

definition satp_from_table :: "bool \<Rightarrow> u64 \<Rightarrow> string + u64" where
  "satp_from_table is_early table =
     (let pa = PA is_early table in
      if pa_off pa \<noteq> 0 then Inl ''misaligned page table''
      else Inr (set_field 60 4 MM_SV39 (set_field 44 16 0 (set_field 0 44 (pa_ppn pa) 0))))"

subsection \<open>Facts about addresses and fields\<close>

lemma VA_of_PA_of [simp]: "VA_of (PA_of x) = x"
  and PA_of_VA_of [simp]: "PA_of (VA_of x) = x"
  by (simp_all add: VA_of_def PA_of_def)

end
