(* ===== verification/Buddy.thy ===== *)
theory Buddy
  imports Layout
begin

section \<open>The buddy allocator (mm.c)\<close>

text \<open>
  \<open>split_area\<close>, \<open>page_allocator_init\<close>, \<open>alloc_pages\<close>, \<open>free_pages\<close>, \<open>dump_buddy\<close>,
  \<open>kmalloc\<close> and \<open>kfree\<close> of \<^verbatim>\<open>kernel/mm.c\<close>. The free areas of an order are
  a linked list through the first eight bytes of each area, headed by \<open>buddy_pages\<close>.
  The state is a record that later components extend; \<open>early\<close> is the flag of
  \<^verbatim>\<open>kernel/main.c\<close> that \<open>PA\<close> reads. A \<open>u32 order\<close> is a \<open>nat\<close>: every use
  is guarded by a comparison with \<open>MAX_ORDER\<close>, so the 32-bit width never matters.
\<close>

subsection \<open>State and data\<close>

record mm_state =
  mem :: memory
  early :: bool
  buddy_pages :: "u64 list"

record page =
  address :: u64
  order :: nat

text \<open>\<open>PAGE_SIZE << order\<close>\<close>

definition area_size :: "nat \<Rightarrow> u64" where
  "area_size k = push_bit k PAGE_SIZE"

subsection \<open>Initialisation\<close>

text \<open>\<open>while (page < KERN_PHYSTOP)\<close>: link every area of the top order to the next one.\<close>

function link_areas :: "u64 \<Rightarrow> memory \<Rightarrow> memory" where
  "link_areas page m =
     (if page < KERN_PHYSTOP then
        (let next_page = page + area_size (MAX_ORDER - 1)
         in link_areas next_page (store64 m page next_page))
      else m)"
  by pat_completeness auto
termination
proof (relation "measure (\<lambda>(page, m). unat KERN_PHYSTOP - unat page)")
  fix page :: u64 and m :: memory and next_page
  assume lt: "page < KERN_PHYSTOP" and n: "next_page = page + area_size (MAX_ORDER - 1)"
  have p: "unat page < 0x3f08000000" using lt by (simp add: word_less_nat_alt)
  then have "unat (page + 0x200000) = unat page + 0x200000"
    by (subst unat_add_lem [THEN iffD1]) simp_all
  with p show "((next_page, store64 m page next_page), page, m)
      \<in> measure (\<lambda>(page, m). unat KERN_PHYSTOP - unat page)"
    by (simp add: n area_size_def push_bit_eq_mult)
qed simp

declare link_areas.simps [simp del]

text \<open>\<open>while (order >= SKIP_ORDER)\<close>: one area for each order down to \<open>SKIP_ORDER\<close>.\<close>

fun seed_orders :: "nat \<Rightarrow> u64 list \<Rightarrow> memory \<Rightarrow> u64 list \<times> memory" where
  "seed_orders k bp m =
     (if SKIP_ORDER \<le> k then
        (let page = KERN_PHYBASE + area_size k
         in seed_orders (k - 1) (bp[k := page]) (store64 m page 0))
      else (bp, m))"

declare seed_orders.simps [simp del]

definition page_allocator_init :: "('a mm_state_scheme, unit) kern" where
  "page_allocator_init s =
     (let bp = replicate MAX_ORDER 0;
          k = MAX_ORDER - 1;
          page = KERN_PHYBASE + area_size k;
          bp = bp[k := page];
          m = link_areas page (mem s);
          m = store64 m (KERN_PHYSTOP - area_size k) 0;
          (bp, m) = seed_orders k bp m
      in Some (Inr ((), s\<lparr>mem := m, buddy_pages := bp\<rparr>)))"

subsection \<open>Allocation\<close>

definition split_area :: "nat \<Rightarrow> ('a mm_state_scheme, unit) kern" where
  "split_area k s =
     (let area1 = buddy_pages s ! k in
      if area1 = 0 then Some (Inl ''invalid split_area - no pages of order'')
      else
        (let bp = (buddy_pages s)[k := load64 (mem s) area1];
             area2 = area1 + area_size (k - 1);
             m = store64 (mem s) area1 area2;
             m = store64 m area2 (bp ! (k - 1));
             bp = bp[k - 1 := area1]
         in Some (Inr ((), s\<lparr>mem := m, buddy_pages := bp\<rparr>))))"

text \<open>\<open>while (promoted_order < MAX_ORDER && buddy_pages[promoted_order] == NULL)\<close>\<close>

function promote :: "u64 list \<Rightarrow> nat \<Rightarrow> nat" where
  "promote bp k = (if k < MAX_ORDER \<and> bp ! k = 0 then promote bp (Suc k) else k)"
  by pat_completeness auto
termination
  by (relation "measure (\<lambda>(bp, k). MAX_ORDER - k)") auto

declare promote.simps [simp del]

text \<open>\<open>while (promoted_order > order)\<close>\<close>

fun split_down :: "nat \<Rightarrow> nat \<Rightarrow> ('a mm_state_scheme, unit) kern" where
  "split_down promoted k =
     (if k < promoted then kthen (split_area promoted) (split_down (promoted - 1) k)
      else kreturn ())"

declare split_down.simps [simp del]

definition take_page :: "nat \<Rightarrow> ('a mm_state_scheme, page) kern" where
  "take_page k s =
     (let page = buddy_pages s ! k
      in Some (Inr (\<lparr>address = page, order = k\<rparr>,
           s\<lparr>buddy_pages := (buddy_pages s)[k := load64 (mem s) page]\<rparr>)))"

definition alloc_pages :: "nat \<Rightarrow> ('a mm_state_scheme, page) kern" where
  "alloc_pages k s =
     (if MAX_ORDER \<le> k then Some (Inl ''bad alloc_pages'')
      else
        (let promoted = promote (buddy_pages s) k in
         if promoted = MAX_ORDER then Some (Inl ''out of memory'')
         else kthen (split_down promoted k) (take_page k) s))"

subsection \<open>Release\<close>

text \<open>
  \<open>void **prev\<close> points either at a slot of the array \<open>buddy_pages\<close> or at the first word
  of a free area.
\<close>

datatype link_ref = Slot nat | Cell u64

fun write_link :: "link_ref \<Rightarrow> u64 \<Rightarrow> 'a mm_state_scheme \<Rightarrow> 'a mm_state_scheme" where
  "write_link (Slot k) v s = s\<lparr>buddy_pages := (buddy_pages s)[k := v]\<rparr>"
| "write_link (Cell a) v s = s\<lparr>mem := store64 (mem s) a v\<rparr>"

text \<open>\<open>while (free != NULL)\<close>: the walk for the buddy; it does not end on a cyclic list.\<close>

partial_function (option) scan_free ::
  "memory \<Rightarrow> u64 \<Rightarrow> link_ref \<Rightarrow> u64 \<Rightarrow> (link_ref \<times> u64) option" where
  "scan_free m buddy prev free =
     (if free \<noteq> 0 then
        (if free = buddy then Some (prev, free)
         else scan_free m buddy (Cell free) (load64 m free))
      else Some (prev, free))"

definition push_free :: "page \<Rightarrow> ('a mm_state_scheme, unit) kern" where
  "push_free p s =
     Some (Inr ((), s\<lparr>mem := store64 (mem s) (address p) (buddy_pages s ! order p),
                      buddy_pages := (buddy_pages s)[order p := address p]\<rparr>))"

function free_pages :: "page \<Rightarrow> ('a mm_state_scheme, unit) kern" where
  "free_pages p s =
     (if MAX_ORDER \<le> order p then Some (Inl ''bad free_pages'')
      else if order p = MAX_ORDER - 1 then push_free p s
      else
        (let sz = area_size (order p);
             buddy = address p XOR sz
         in case scan_free (mem s) buddy (Slot (order p)) (buddy_pages s ! order p) of
              None \<Rightarrow> None
            | Some (prev, free) \<Rightarrow>
                (if free = buddy then
                   free_pages \<lparr>address = address p AND NOT sz, order = Suc (order p)\<rparr>
                     (write_link prev (load64 (mem s) free) s)
                 else push_free p s)))"
  by pat_completeness auto
termination
  by (relation "measure (\<lambda>(p, s). MAX_ORDER - order p)") auto

declare free_pages.simps [simp del]

subsection \<open>Statistics\<close>

text \<open>The count that \<open>dump_buddy\<close> prints for each order.\<close>

partial_function (option) count_areas :: "memory \<Rightarrow> u64 \<Rightarrow> nat \<Rightarrow> nat option" where
  "count_areas m page count =
     (if page \<noteq> 0 then count_areas m (load64 m page) (Suc count) else Some count)"

function dump_buddy_from :: "nat \<Rightarrow> 'a mm_state_scheme \<Rightarrow> (nat \<times> nat) list option" where
  "dump_buddy_from k s =
     (if k < MAX_ORDER then
        (case count_areas (mem s) (buddy_pages s ! k) 0 of
           None \<Rightarrow> None
         | Some n \<Rightarrow> map_option ((#) (k, n)) (dump_buddy_from (Suc k) s))
      else Some [])"
  by pat_completeness auto
termination
  by (relation "measure (\<lambda>(k, s). MAX_ORDER - k)") auto

declare dump_buddy_from.simps [simp del]

definition dump_buddy :: "'a mm_state_scheme \<Rightarrow> (nat \<times> nat) list option" where
  "dump_buddy s = dump_buddy_from 0 s"

subsection \<open>kmalloc and kfree\<close>

text \<open>\<open>while (pages > 1) { ++order; pages /= 2; }\<close>\<close>

function kmalloc_order :: "u64 \<Rightarrow> nat \<Rightarrow> nat" where
  "kmalloc_order pages k = (if 1 < pages then kmalloc_order (pages div 2) (Suc k) else k)"
  by pat_completeness auto
termination
  by (relation "measure (\<lambda>(pages, k). unat pages)") (auto simp: word_less_nat_alt unat_div)

declare kmalloc_order.simps [simp del]

definition kmalloc_pages :: "u64 \<Rightarrow> u64" where
  "kmalloc_pages sz = (sz + PAGE_SIZE - 1 + 4) div PAGE_SIZE"

definition kmalloc :: "u64 \<Rightarrow> ('a mm_state_scheme, u64) kern" where
  "kmalloc sz =
     (let k = kmalloc_order (kmalloc_pages sz) 0 in
      kbind (alloc_pages k) (\<lambda>p.
      kthen (kmodify (\<lambda>s. s\<lparr>mem := store32 (mem s) (address p) (of_nat k)\<rparr>))
            (kreturn (address p + 4))))"

definition kfree :: "u64 \<Rightarrow> ('a mm_state_scheme, unit) kern" where
  "kfree buf =
     (let page = buf - 4 in
      kbind (kgets (\<lambda>s. unat (load32 (mem s) page))) (\<lambda>k.
      free_pages \<lparr>address = page, order = k\<rparr>))"

end
