(* ===== verification/Buddy_Correct.thy ===== *)
theory Buddy_Correct imports Buddy begin

section \<open>Correctness of the buddy allocator\<close>

subsection \<open>Free lists and the areas they hold\<close>

primrec fchain :: "memory \<Rightarrow> u64 \<Rightarrow> u64 list \<Rightarrow> bool" where
  "fchain m p [] \<longleftrightarrow> p = 0"
| "fchain m p (x # xs) \<longleftrightarrow> p = x \<and> x \<noteq> 0 \<and> fchain m (load64 m x) xs"

definition area :: "nat \<Rightarrow> u64 \<Rightarrow> u64 set" where
  "area k a = span a (2 ^ (12 + k))"

definition ram :: "u64 set" where
  "ram = {x. KERN_PHYBASE \<le> x \<and> x < KERN_PHYSTOP}"

definition area_ok :: "nat \<Rightarrow> u64 \<Rightarrow> bool" where
  "area_ok k a \<longleftrightarrow> k < MAX_ORDER \<and> aligned (12 + k) a \<and> area k a \<subseteq> ram"

definition areas :: "(nat \<Rightarrow> u64 list) \<Rightarrow> (nat \<times> u64) set" where
  "areas L = {(k, a). k < MAX_ORDER \<and> a \<in> set (L k)}"

definition cover :: "(nat \<times> u64) set \<Rightarrow> u64 set" where
  "cover A = (\<Union>(k, a)\<in>A. area k a)"

definition areas_disjoint :: "(nat \<times> u64) set \<Rightarrow> bool" where
  "areas_disjoint A \<longleftrightarrow>
     (\<forall>k a j b. (k, a) \<in> A \<longrightarrow> (j, b) \<in> A \<longrightarrow> (k, a) \<noteq> (j, b) \<longrightarrow>
        area k a \<inter> area j b = {})"

definition buddy_ok :: "(nat \<Rightarrow> u64 list) \<Rightarrow> 'a mm_state_scheme \<Rightarrow> bool" where
  "buddy_ok L s \<longleftrightarrow>
     length (buddy_pages s) = MAX_ORDER \<and>
     (\<forall>k<MAX_ORDER. fchain (mem s) (buddy_pages s ! k) (L k) \<and> distinct (L k)) \<and>
     (\<forall>k a. (k, a) \<in> areas L \<longrightarrow> area_ok k a) \<and>
     areas_disjoint (areas L)"

subsection \<open>Areas\<close>

lemma area_size_exp: "area_size k = 2 ^ (12 + k)"
  by (simp add: area_size_def push_bit_eq_mult power_add)

lemma cell_subset_area: "span a 8 \<subseteq> area k a"
proof -
  have "(8::nat) \<le> 2 ^ 3" by simp
  also have "(2::nat) ^ 3 \<le> 2 ^ (12 + k)" by (rule power_increasing) simp_all
  finally show ?thesis unfolding area_def by (rule span_mono)
qed

lemma self_in_area [simp]: "a \<in> area k a"
  by (simp add: area_def)

lemma area_ok_nonzero: "area_ok k a \<Longrightarrow> a \<noteq> 0"
proof -
  assume "area_ok k a"
  then have "a \<in> ram" using self_in_area [of a k] by (auto simp: area_ok_def)
  then show ?thesis by (auto simp: ram_def)
qed

text \<open>
  The allocator writes at most the first eight bytes of a page: the rest of a freed block
  keeps its contents, which \<open>list_destroy\<close> relies on.
\<close>

definition page_bodies :: "u64 set" where
  "page_bodies = {x. 8 \<le> unat (take_bit 12 x)}"

lemma cell_page_bodies:
  assumes "area_ok k a"
  shows "span a 8 \<inter> page_bodies = {}"
proof -
  have al: "aligned 12 a"
    using assms aligned_mono [of "12 + k" a 12] by (simp add: area_ok_def)
  have "unat (take_bit 12 x) < 8" if x: "x \<in> span a 8" for x
    using aligned_offset(2) [OF al, of "x - a"] x by (simp add: span_iff)
  then show ?thesis by (force simp: page_bodies_def)
qed

lemma page_bodies_inside:
  assumes "area_ok k a" and "8 \<le> unat i" and "unat i + n \<le> 4096"
  shows "span (a + i) n \<subseteq> page_bodies"
proof
  fix x assume x: "x \<in> span (a + i) n"
  have al: "aligned 12 a"
    using assms aligned_mono [of "12 + k" a 12] by (simp add: area_ok_def)
  have u: "unat (x - (a + i)) < n" using x by (simp add: span_iff)
  moreover have "x - a = i + (x - (a + i))" by simp
  ultimately have "unat (x - a) = unat i + unat (x - (a + i))"
    using assms(3) by (simp only:) (subst unat_add_lem [THEN iffD1]; simp)
  with u show "x \<in> page_bodies"
    using aligned_offset(2) [OF al, of "x - a"] assms by (simp add: page_bodies_def)
qed

lemma pages_disjoint:
  assumes "area_ok 0 a" and "area_ok 0 b" and "a \<noteq> b"
  shows "area 0 a \<inter> area 0 b = {}"
proof (rule ccontr)
  assume "area 0 a \<inter> area 0 b \<noteq> {}"
  then obtain z where z: "z \<in> area 0 a" "z \<in> area 0 b" by blast
  have al: "aligned 12 a" "aligned 12 b" using assms by (simp_all add: area_ok_def)
  have "drop_bit 12 z = drop_bit 12 a" "drop_bit 12 z = drop_bit 12 b"
    using z span_aligned [OF al(1), of z] span_aligned [OF al(2), of z] by (simp_all add: area_def)
  then have "\<forall>i\<ge>12. bit a i = bit b i" using drop_bit_eq_iff by metis
  then have "a = b"
    using al by (intro bit_word_eqI) (metis aligned_bit linorder_not_le)
  with assms(3) show False by simp
qed

lemma area_nonempty [simp]: "area k a \<noteq> {}"
  using self_in_area [of a k] by blast

lemma area_split:
  assumes "aligned (13 + k) a" and "k < 40"
  shows "area (Suc k) a = area k a \<union> area k (a + area_size k)"
    and "area k a \<inter> area k (a + area_size k) = {}"
    and "aligned (12 + k) a" and "aligned (12 + k) (a + area_size k)"
  using aligned_area_split [of "12 + k" a] assms by (simp_all add: area_def area_size_exp)

lemma area_merge:
  assumes "aligned (12 + k) a" and "k < 40"
  shows "aligned (12 + k) (a XOR area_size k)"
    and "aligned (13 + k) (a AND NOT (area_size k))"
    and "area (Suc k) (a AND NOT (area_size k)) = area k a \<union> area k (a XOR area_size k)"
    and "area k a \<inter> area k (a XOR area_size k) = {}"
  using aligned_buddy [of "12 + k" a] assms by (simp_all add: area_def area_size_exp)

lemma area_ok_split:
  assumes "area_ok (Suc k) a"
  shows "area_ok k a" and "area_ok k (a + area_size k)"
  using assms area_split [of k a] by (auto simp: area_ok_def)

lemma cover_insert [simp]: "cover (insert (k, a) A) = area k a \<union> cover A"
  by (simp add: cover_def)

lemma cover_empty [simp]: "cover {} = {}"
  by (simp add: cover_def)

lemma area_subset_cover: "(k, a) \<in> A \<Longrightarrow> area k a \<subseteq> cover A"
  by (auto simp: cover_def)

lemma areas_disjoint_subset: "areas_disjoint A \<Longrightarrow> B \<subseteq> A \<Longrightarrow> areas_disjoint B"
  unfolding areas_disjoint_def by blast

lemma areas_disjoint_insert:
  assumes "areas_disjoint A" and "area k a \<inter> cover A = {}"
  shows "areas_disjoint (insert (k, a) A)"
proof -
  have "area k a \<inter> area j b = {}" if "(j, b) \<in> A" for j b
    using assms(2) area_subset_cover [OF that] by blast
  with assms(1) show ?thesis unfolding areas_disjoint_def by (simp add: Int_commute)
qed

lemma cover_remove:
  assumes "areas_disjoint A" and "(k, a) \<in> A"
  shows "cover (A - {(k, a)}) = cover A - area k a"
proof -
  have "area j b \<inter> area k a = {}" if "(j, b) \<in> A - {(k, a)}" for j b
    using assms that unfolding areas_disjoint_def by blast
  then have "cover (A - {(k, a)}) \<inter> area k a = {}" by (auto simp: cover_def)
  moreover have "cover A = cover (A - {(k, a)}) \<union> area k a"
    using assms(2) by (auto simp: cover_def)
  ultimately show ?thesis by blast
qed

lemma areas_Cons: "k < MAX_ORDER \<Longrightarrow> areas (L(k := a # L k)) = insert (k, a) (areas L)"
  by (auto simp: areas_def split: if_splits)

lemma areas_remove:
  assumes "k < MAX_ORDER" and "L k = xs @ a # ys" and "distinct (L k)"
  shows "areas (L(k := xs @ ys)) = areas L - {(k, a)}"
  using assms by (auto simp: areas_def split: if_splits)

subsection \<open>Chains\<close>

lemma fchain_frame:
  assumes "agree (- W) m m'" and "\<forall>x\<in>set xs. span x 8 \<inter> W = {}"
  shows "fchain m p xs = fchain m' p xs"
  using assms(2)
proof (induction xs arbitrary: p)
  case (Cons x xs)
  then have "load64 m x = load64 m' x"
    by (intro agree_load64 [OF assms(1)]) auto
  with Cons show ?case by simp
qed simp

lemma fchain_unlink:
  assumes "fchain m p (xs @ b # ys)" and "distinct (xs @ b # ys)" and "xs \<noteq> []"
    and "\<forall>x\<in>set (xs @ b # ys). \<forall>y\<in>set (xs @ b # ys). x \<noteq> y \<longrightarrow> span x 8 \<inter> span y 8 = {}"
  shows "fchain (store64 m (last xs) (load64 m b)) p (xs @ ys)"
  using assms
proof (induction xs arbitrary: p)
  case (Cons x xs)
  let ?m = "store64 m (last (x # xs)) (load64 m b)"
  show ?case
  proof (cases "xs = []")
    case True
    with Cons.prems have "fchain m (load64 m b) ys" and p: "p = x" "x \<noteq> 0" by auto
    moreover have "fchain m (load64 m b) ys = fchain ?m (load64 m b) ys"
    proof (rule fchain_frame [where W = "span x 8"])
      show "agree (- span x 8) m ?m"
        using True by (auto intro!: agree_sym [OF agree_store64])
      show "\<forall>y\<in>set ys. span y 8 \<inter> span x 8 = {}" using Cons.prems by auto
    qed
    ultimately show ?thesis using True by simp
  next
    case False
    have "last xs \<in> set xs" using False by simp
    then have "last xs \<noteq> x" "span (last xs) 8 \<inter> span x 8 = {}" using Cons.prems by auto
    then have "load64 ?m x = load64 m x" using False by (simp add: mem_simps)
    moreover have "fchain (store64 m (last xs) (load64 m b)) (load64 m x) (xs @ ys)"
      using Cons False by simp
    ultimately show ?thesis using False Cons.prems by simp
  qed
qed simp

lemma scan_free_found:
  assumes "fchain m p (xs @ b # ys)" and "b \<notin> set xs"
  shows "scan_free m b prev p = Some (if xs = [] then prev else Cell (last xs), b)"
  using assms
proof (induction xs arbitrary: p prev)
  case Nil
  then show ?case by (simp add: scan_free.simps)
next
  case (Cons x xs)
  then show ?case by (auto simp: scan_free.simps [of m b prev x])
qed

lemma scan_free_missing:
  assumes "fchain m p xs" and "b \<notin> set xs"
  shows "\<exists>prev'. scan_free m b prev p = Some (prev', 0)"
  using assms
proof (induction xs arbitrary: p prev)
  case Nil
  then show ?case by (simp add: scan_free.simps)
next
  case (Cons x xs)
  then show ?case by (auto simp: scan_free.simps [of m b prev x])
qed

subsection \<open>The invariant under single steps\<close>

lemma buddy_okD:
  assumes "buddy_ok L s"
  shows "length (buddy_pages s) = 10"
    and "k < 10 \<Longrightarrow> fchain (mem s) (buddy_pages s ! k) (L k)"
    and "k < 10 \<Longrightarrow> distinct (L k)"
    and "k < 10 \<Longrightarrow> a \<in> set (L k) \<Longrightarrow> area_ok k a"
    and "areas_disjoint (areas L)"
  using assms by (auto simp: buddy_ok_def areas_def)

lemma areas_separate:
  assumes "buddy_ok L s" and "k < 10" "j < 10" and "a \<in> set (L k)" "b \<in> set (L j)"
    and "(k, a) \<noteq> (j, b)"
  shows "area k a \<inter> area j b = {}"
  using buddy_okD(5) [OF assms(1)] assms(2-) by (auto simp: areas_disjoint_def areas_def)

lemma cells_separate:
  assumes "buddy_ok L s" and "k < 10" "j < 10" and "a \<in> set (L k)" "b \<in> set (L j)"
    and "(k, a) \<noteq> (j, b)"
  shows "span a 8 \<inter> span b 8 = {}"
  using areas_separate [OF assms] cell_subset_area [of a k] cell_subset_area [of b j] by blast

text \<open>A store that keeps every free area leaves the free lists as they are.\<close>

lemma buddy_ok_frame:
  assumes ok: "buddy_ok L s" and ag: "agree (cover (areas L)) (mem s) (mem t)"
    and bp: "buddy_pages t = buddy_pages s"
  shows "buddy_ok L t"
proof -
  have "fchain (mem t) (buddy_pages t ! k) (L k)" if "k < 10" for k
  proof -
    have "fchain (mem s) (buddy_pages s ! k) (L k) = fchain (mem t) (buddy_pages s ! k) (L k)"
    proof (rule fchain_frame [where W = "- cover (areas L)"])
      show "agree (- (- cover (areas L))) (mem s) (mem t)" using ag by simp
      show "\<forall>x\<in>set (L k). span x 8 \<inter> - cover (areas L) = {}"
      proof
        fix x assume "x \<in> set (L k)"
        then have "area k x \<subseteq> cover (areas L)"
          using that by (intro area_subset_cover) (simp add: areas_def)
        then show "span x 8 \<inter> - cover (areas L) = {}" using cell_subset_area [of x k] by blast
      qed
    qed
    with that bp show ?thesis using buddy_okD(2) [OF ok] by simp
  qed
  with ok bp show ?thesis by (simp add: buddy_ok_def)
qed

lemma buddy_ok_take:
  assumes ok: "buddy_ok L s" and k: "k < 10" and L: "L k = a # as"
  shows "buddy_pages s ! k = a" and "a \<noteq> 0"
    and "buddy_ok (L(k := as)) (s\<lparr>buddy_pages := (buddy_pages s)[k := load64 (mem s) a]\<rparr>)"
    and "areas (L(k := as)) = areas L - {(k, a)}"
proof -
  note D = buddy_okD [OF ok]
  have f: "fchain (mem s) (buddy_pages s ! k) (a # as)" using D(2) [OF k] L by simp
  then show "buddy_pages s ! k = a" "a \<noteq> 0" by auto
  show A: "areas (L(k := as)) = areas L - {(k, a)}"
    using areas_remove [of k L "[]" a as] k L D(3) [OF k] by simp
  have "areas_disjoint (areas (L(k := as)))"
    using D(5) unfolding A by (rule areas_disjoint_subset) blast
  moreover have "fchain (mem s) ((buddy_pages s)[k := load64 (mem s) a] ! j) ((L(k := as)) j)
      \<and> distinct ((L(k := as)) j)" if "j < 10" for j
    using D(1) D(2) [of j] D(3) [of j] f L D(3) [OF k] k that by (auto simp: nth_list_update)
  moreover have "area_ok j b" if "(j, b) \<in> areas (L(k := as))" for j b
    using that D(4) [of j b] unfolding A by (simp add: areas_def)
  ultimately show
    "buddy_ok (L(k := as)) (s\<lparr>buddy_pages := (buddy_pages s)[k := load64 (mem s) a]\<rparr>)"
    using D(1) by (simp add: buddy_ok_def)
qed

lemma buddy_ok_push:
  assumes ok: "buddy_ok L s" and a: "area_ok k a" and new: "area k a \<inter> cover (areas L) = {}"
  shows "buddy_ok (L(k := a # L k))
      (s\<lparr>mem := store64 (mem s) a (buddy_pages s ! k),
         buddy_pages := (buddy_pages s)[k := a]\<rparr>)"
proof -
  note D = buddy_okD [OF ok]
  have k: "k < 10" using a by (simp add: area_ok_def)
  let ?m = "store64 (mem s) a (buddy_pages s ! k)"
  have A: "areas (L(k := a # L k)) = insert (k, a) (areas L)" using k by (simp add: areas_Cons)
  have ok': "buddy_ok L (s\<lparr>mem := ?m\<rparr>)"
  proof (rule buddy_ok_frame [OF ok])
    have "span a 8 \<inter> cover (areas L) = {}" using new cell_subset_area [of a k] by blast
    then show "agree (cover (areas L)) (mem s) (mem (s\<lparr>mem := ?m\<rparr>))"
      by (simp add: agree_sym agree_store64)
  qed simp
  have "a \<notin> set (L k)"
  proof
    assume "a \<in> set (L k)"
    then have "area k a \<subseteq> cover (areas L)"
      using k by (intro area_subset_cover) (simp add: areas_def)
    with new self_in_area [of a k] show False by blast
  qed
  moreover have "fchain ?m (buddy_pages s ! j) (L j)" if "j < 10" for j
    using buddy_okD(2) [OF ok' that] by simp
  ultimately have "fchain ?m ((buddy_pages s)[k := a] ! j) ((L(k := a # L k)) j)
      \<and> distinct ((L(k := a # L k)) j)" if "j < 10" for j
    using D(1) D(3) [of j] k that area_ok_nonzero [OF a] by (auto simp: nth_list_update)
  moreover have "areas_disjoint (areas (L(k := a # L k)))"
    unfolding A by (rule areas_disjoint_insert [OF D(5) new])
  moreover have "area_ok j b" if "(j, b) \<in> areas (L(k := a # L k))" for j b
    using that D(4) [of j b] a unfolding A by (auto simp: areas_def)
  ultimately show ?thesis using D(1) by (simp add: buddy_ok_def)
qed

lemma buddy_ok_unlink:
  assumes ok: "buddy_ok L s" and k: "k < 10" and L: "L k = xs @ b # ys"
  defines "prev \<equiv> (if xs = [] then Slot k else Cell (last xs))"
  shows "buddy_ok (L(k := xs @ ys)) (write_link prev (load64 (mem s) b) s)"
    and "areas (L(k := xs @ ys)) = areas L - {(k, b)}"
    and "agree (- cover (areas L) \<union> page_bodies) (mem (write_link prev (load64 (mem s) b) s)) (mem s)"
proof -
  note D = buddy_okD [OF ok]
  show A: "areas (L(k := xs @ ys)) = areas L - {(k, b)}"
    using areas_remove [of k L xs b ys] k L D(3) [OF k] by simp
  have "buddy_ok (L(k := xs @ ys)) (write_link prev (load64 (mem s) b) s) \<and>
     agree (- cover (areas L) \<union> page_bodies) (mem (write_link prev (load64 (mem s) b) s)) (mem s)"
  proof (cases "xs = []")
    case True
    with buddy_ok_take(3) [OF ok k, of b ys] L show ?thesis by (simp add: prev_def)
  next
    case False
    let ?a = "last xs"
    let ?m = "store64 (mem s) ?a (load64 (mem s) b)"
    have a: "?a \<in> set (L k)" using False L by simp
    have fr: "agree (- span ?a 8) (mem s) ?m" by (auto intro!: agree_sym [OF agree_store64])
    have "fchain ?m (buddy_pages s ! k) (xs @ ys)"
      using D(2,3) [OF k] L False cells_separate [OF ok k k]
      by (intro fchain_unlink) simp_all
    moreover have "fchain ?m (buddy_pages s ! j) (L j)" if "j < 10" "j \<noteq> k" for j
    proof -
      have "fchain (mem s) (buddy_pages s ! j) (L j) = fchain ?m (buddy_pages s ! j) (L j)"
        using cells_separate [OF ok that(1) k _ a] that
        by (intro fchain_frame [OF fr]) auto
      then show ?thesis using D(2) [OF that(1)] by simp
    qed
    ultimately have "fchain ?m (buddy_pages s ! j) ((L(k := xs @ ys)) j)
        \<and> distinct ((L(k := xs @ ys)) j)" if "j < 10" for j
      using D(3) [of j] D(3) [OF k] L that by auto
    moreover have "areas_disjoint (areas (L(k := xs @ ys)))"
      using D(5) unfolding A by (rule areas_disjoint_subset) blast
    moreover have "area_ok j c" if "(j, c) \<in> areas (L(k := xs @ ys))" for j c
      using that D(4) [of j c] unfolding A by (simp add: areas_def)
    moreover have "span ?a 8 \<inter> - cover (areas L) = {}"
      using area_subset_cover [of k ?a "areas L"] a k cell_subset_area [of ?a k]
      by (auto simp: areas_def)
    moreover have "span ?a 8 \<inter> page_bodies = {}"
      using cell_page_bodies buddy_okD(4) [OF ok k a] by blast
    ultimately show ?thesis using False D(1)
      by (simp add: prev_def buddy_ok_def agree_store64)
  qed
  then show "buddy_ok (L(k := xs @ ys)) (write_link prev (load64 (mem s) b) s)"
    and "agree (- cover (areas L) \<union> page_bodies) (mem (write_link prev (load64 (mem s) b) s)) (mem s)"
    by simp_all
qed

subsection \<open>Coalescing and the allocator's invariant\<close>

text \<open>No two free areas of one order are buddies of each other.\<close>

definition coalesced :: "(nat \<Rightarrow> u64 list) \<Rightarrow> bool" where
  "coalesced L \<longleftrightarrow>
     (\<forall>k a. Suc k < MAX_ORDER \<longrightarrow> a \<in> set (L k) \<longrightarrow> a XOR area_size k \<notin> set (L k))"

text \<open>
  \<open>allocator F s\<close>: the free lists of \<open>s\<close> are well formed and coalesced, and \<open>F\<close> is the
  set of the addresses that they hold.
\<close>

definition allocator :: "u64 set \<Rightarrow> 'a mm_state_scheme \<Rightarrow> bool" where
  "allocator F s \<longleftrightarrow> (\<exists>L. buddy_ok L s \<and> coalesced L \<and> F = cover (areas L))"

text \<open>Two states that differ in the memory and the free lists only.\<close>

definition same_rest :: "'a mm_state_scheme \<Rightarrow> 'a mm_state_scheme \<Rightarrow> bool" where
  "same_rest s t \<longleftrightarrow> t = s\<lparr>mem := mem t, buddy_pages := buddy_pages t\<rparr>"

lemma same_rest_refl [simp]: "same_rest s s"
  by (simp add: same_rest_def)

lemma same_rest_upd [simp]: "same_rest s (s\<lparr>mem := m, buddy_pages := bp\<rparr>)"
  "same_rest s (s\<lparr>mem := m\<rparr>)" "same_rest s (s\<lparr>buddy_pages := bp\<rparr>)"
  by (simp_all add: same_rest_def)

lemma same_rest_trans: "same_rest s t \<Longrightarrow> same_rest t u \<Longrightarrow> same_rest s u"
  unfolding same_rest_def
  by (metis (no_types, lifting) mm_state.select_convs(1,3) mm_state.surjective mm_state.update_convs(1,3))

lemma same_rest_write_link [simp]: "same_rest s (write_link r v s)"
  by (cases r) simp_all

lemma coalesced_remove: "coalesced L \<Longrightarrow> set as \<subseteq> set (L k) \<Longrightarrow> coalesced (L(k := as))"
  unfolding coalesced_def by (auto split: if_splits)

lemma coalesced_insert:
  assumes "coalesced L" and "Suc k < 10 \<Longrightarrow> a XOR area_size k \<notin> set (L k)"
  shows "coalesced (L(k := a # L k))"
  unfolding coalesced_def
proof (intro allI impI)
  fix j b assume j: "Suc j < MAX_ORDER" and b: "b \<in> set ((L(k := a # L k)) j)"
  have flip: "(c XOR area_size j) XOR area_size j = c" for c by (simp add: xor.assoc)
  have ne: "c XOR area_size j \<noteq> c" for c
  proof
    assume "c XOR area_size j = c"
    moreover have "area_size j = c XOR (c XOR area_size j)" by (simp flip: xor.assoc)
    ultimately have "area_size j = 0" by simp
    moreover have "bit (area_size j) (12 + j)" using j by (simp add: area_size_exp bit_exp)
    ultimately show False by simp
  qed
  show "b XOR area_size j \<notin> set ((L(k := a # L k)) j)"
  proof (cases "j = k")
    case False
    with b j assms(1) show ?thesis by (simp add: coalesced_def)
  next
    case True
    with b have "b = a \<or> b \<in> set (L k)" by simp
    then show ?thesis
    proof
      assume "b = a"
      with True j assms(2) ne [of a] show ?thesis by simp
    next
      assume bL: "b \<in> set (L k)"
      have "b XOR area_size k \<noteq> a"
      proof
        assume "b XOR area_size k = a"
        then have "a XOR area_size k = b" using flip [of b] True by simp
        with assms(2) j True bL show False by simp
      qed
      with bL assms(1) True j show ?thesis by (simp add: coalesced_def)
    qed
  qed
qed

lemma allocator_ram: "allocator F s \<Longrightarrow> F \<subseteq> ram"
  unfolding allocator_def cover_def buddy_ok_def area_ok_def by blast

lemma allocator_frame:
  assumes "allocator F s" and "agree F (mem s) (mem t)" and "buddy_pages t = buddy_pages s"
  shows "allocator F t"
  using assms buddy_ok_frame unfolding allocator_def by blast

subsection \<open>Splitting\<close>

lemma split_area_steps:
  assumes "buddy_pages s ! Suc k \<noteq> 0" and "Suc k < length (buddy_pages s)"
    and "span (buddy_pages s ! Suc k) 8 \<inter> span (buddy_pages s ! Suc k + area_size k) 8 = {}"
  defines "a \<equiv> buddy_pages s ! Suc k"
  defines "s1 \<equiv> s\<lparr>buddy_pages := (buddy_pages s)[Suc k := load64 (mem s) a]\<rparr>"
  defines "s2 \<equiv> s1\<lparr>mem := store64 (mem s1) (a + area_size k) (buddy_pages s1 ! k),
                   buddy_pages := (buddy_pages s1)[k := a + area_size k]\<rparr>"
  shows "split_area (Suc k) s =
    Some (Inr ((), s2\<lparr>mem := store64 (mem s2) a (buddy_pages s2 ! k),
                      buddy_pages := (buddy_pages s2)[k := a]\<rparr>))"
  using assms(1-3) unfolding s2_def s1_def a_def split_area_def
  by (simp add: Let_def store64_commute)

lemma split_area_ok:
  assumes ok: "buddy_ok L s" and k: "Suc k < 10" and L: "L (Suc k) = a # as"
  defines "L' \<equiv> L(Suc k := as, k := a # (a + area_size k) # L k)"
  shows "\<exists>t. split_area (Suc k) s = Some (Inr ((), t)) \<and> buddy_ok L' t \<and>
      cover (areas L') = cover (areas L) \<and> agree (- cover (areas L)) (mem s) (mem t) \<and> same_rest s t"
proof -
  define s1 where "s1 = s\<lparr>buddy_pages := (buddy_pages s)[Suc k := load64 (mem s) a]\<rparr>"
  define b where "b = a + area_size k"
  define s2 where "s2 = s1\<lparr>mem := store64 (mem s1) b (buddy_pages s1 ! k),
                           buddy_pages := (buddy_pages s1)[k := b]\<rparr>"
  define t where "t = s2\<lparr>mem := store64 (mem s2) a (buddy_pages s2 ! k),
                           buddy_pages := (buddy_pages s2)[k := a]\<rparr>"
  let ?L1 = "L(Suc k := as)"
  let ?L2 = "?L1(k := b # ?L1 k)"
  have aok: "area_ok (Suc k) a" using buddy_okD(4) [OF ok k] L by simp
  note T = buddy_ok_take [where k = "Suc k", OF ok k L]
  have al: "aligned (13 + k) a" using aok by (simp add: area_ok_def)
  note S = area_split [OF al, folded b_def] area_ok_split [OF aok, folded b_def]
  have k40: "k < 40" using k by simp
  have ok1: "buddy_ok ?L1 s1" using T(3) by (simp add: s1_def)
  have c1: "cover (areas ?L1) = cover (areas L) - area (Suc k) a"
    unfolding T(4) using buddy_okD(5) [OF ok] k L by (intro cover_remove) (auto simp: areas_def)
  have ok2: "buddy_ok ?L2 s2"
    unfolding s2_def using S k40 c1 by (intro buddy_ok_push [OF ok1]) auto
  have c2: "cover (areas ?L2) = area k b \<union> cover (areas ?L1)"
    using k by (simp add: areas_Cons del: fun_upd_apply)
  have ok3: "buddy_ok (?L2(k := a # ?L2 k)) t"
    unfolding t_def using S k40 c1 c2 by (intro buddy_ok_push [OF ok2]) auto
  have c3: "cover (areas (?L2(k := a # ?L2 k))) = area k a \<union> cover (areas ?L2)"
    using k by (simp only: areas_Cons MAX_ORDER_def cover_insert)
  have L'eq: "?L2(k := a # ?L2 k) = L'" by (simp add: L'_def b_def fun_eq_iff)
  have sub: "area (Suc k) a \<subseteq> cover (areas L)"
    using k L by (intro area_subset_cover) (simp add: areas_def)
  have disj: "span a 8 \<inter> span b 8 = {}"
    using S(2) k40 cell_subset_area [of a k] cell_subset_area [of b k] by blast
  have "split_area (Suc k) s = Some (Inr ((), t))"
    using split_area_steps [of s k] T(1,2) disj buddy_okD(1) [OF ok] k
    by (simp add: t_def s2_def s1_def b_def)
  moreover have "agree (- cover (areas L)) (mem s) (mem t)"
  proof -
    have "span a 8 \<inter> - cover (areas L) = {}" "span b 8 \<inter> - cover (areas L) = {}"
      using S(1) k40 sub cell_subset_area [of a k] cell_subset_area [of b k] by auto
    then show ?thesis unfolding t_def s2_def s1_def
      by (auto intro: agree_trans [OF agree_sym [OF agree_store64] agree_sym [OF agree_store64]])
  qed
  moreover have "same_rest s t" unfolding t_def s2_def s1_def by simp
  moreover have "cover (areas L') = cover (areas L)"
    using c1 c2 c3 S(1) k40 sub unfolding L'eq by auto
  ultimately show ?thesis using ok3 unfolding L'eq by blast
qed

lemma split_area_coalesced:
  assumes ok: "buddy_ok L s" and k: "Suc k < 10" and L: "L (Suc k) = a # as"
    and co: "coalesced (L(Suc k := as))"
  shows "coalesced ((L(Suc k := as, k := a # (a + area_size k) # L k))(k := (a + area_size k) # L k))"
proof -
  let ?L1 = "L(Suc k := as)"
  have aok: "area_ok (Suc k) a" using buddy_okD(4) [OF ok k] L by simp
  then have al: "aligned (13 + k) a" by (simp add: area_ok_def)
  have x: "(a + area_size k) XOR area_size k = a"
    using aligned_add_exp [of "12 + k" a] al
    by (intro bit_word_eqI) (auto simp: area_size_exp bit_xor_iff bit_or_iff bit_exp aligned_bit)
  have "a \<notin> set (L k)"
  proof
    assume "a \<in> set (L k)"
    then have "area k a \<inter> area (Suc k) a = {}"
      using areas_separate [OF ok, of k "Suc k" a a] k L by simp
    with self_in_area [of a k] self_in_area [of a "Suc k"] show False by blast
  qed
  with x have "coalesced (?L1(k := (a + area_size k) # ?L1 k))"
    by (intro coalesced_insert [OF co]) simp
  then show ?thesis by simp
qed

subsection \<open>Allocation\<close>

lemma promote_spec:
  "k \<le> 10 \<Longrightarrow> k \<le> promote bp k \<and> promote bp k \<le> 10 \<and>
     (\<forall>j. k \<le> j \<and> j < promote bp k \<longrightarrow> bp ! j = 0) \<and>
     (promote bp k < 10 \<longrightarrow> bp ! promote bp k \<noteq> 0)"
proof (induction bp k rule: promote.induct)
  case (1 bp k)
  show ?case
  proof (cases "k < MAX_ORDER \<and> bp ! k = 0")
    case True
    then have "promote bp k = promote bp (Suc k)" by (subst promote.simps) simp
    with 1 True have IH: "Suc k \<le> promote bp k" "promote bp k \<le> 10"
      "\<forall>j. Suc k \<le> j \<and> j < promote bp k \<longrightarrow> bp ! j = 0"
      "promote bp k < 10 \<longrightarrow> bp ! promote bp k \<noteq> 0" by auto
    moreover have "bp ! j = 0" if "k \<le> j" "j < promote bp k" for j
      using that True IH(3) by (cases "j = k") auto
    ultimately show ?thesis by auto
  next
    case False
    then have "promote bp k = k" by (subst promote.simps) auto
    with 1 False show ?thesis by auto
  qed
qed

lemma split_down_ok:
  "buddy_ok L s \<Longrightarrow> k \<le> p \<Longrightarrow> p < 10 \<Longrightarrow> L p \<noteq> [] \<Longrightarrow> coalesced (L(p := tl (L p))) \<Longrightarrow>
   \<exists>L' t. split_down p k s = Some (Inr ((), t)) \<and> buddy_ok L' t \<and> L' k \<noteq> [] \<and>
      coalesced (L'(k := tl (L' k))) \<and>
      cover (areas L') = cover (areas L) \<and> agree (- cover (areas L)) (mem s) (mem t) \<and> same_rest s t"
proof (induction p arbitrary: L s)
  case 0
  then have "split_down 0 k s = Some (Inr ((), s))" by (subst split_down.simps) simp
  with 0 show ?case by (intro exI [of _ L] exI [of _ s]) simp
next
  case (Suc p)
  show ?case
  proof (cases "k = Suc p")
    case True
    then have "split_down (Suc p) k s = Some (Inr ((), s))" by (subst split_down.simps) simp
    with Suc.prems True show ?thesis by (intro exI [of _ L] exI [of _ s]) simp
  next
    case False
    from Suc.prems obtain a as where La: "L (Suc p) = a # as" by (cases "L (Suc p)") auto
    let ?L = "L(Suc p := as, p := a # (a + area_size p) # L p)"
    from split_area_ok [where k = p, OF Suc.prems(1) Suc.prems(3) La]
    obtain t where t: "split_area (Suc p) s = Some (Inr ((), t))" "buddy_ok ?L t"
      "cover (areas ?L) = cover (areas L)" "agree (- cover (areas L)) (mem s) (mem t)" "same_rest s t"
      by blast
    have "coalesced (L(Suc p := as))" using Suc.prems(5) by (simp only: La list.sel)
    then have "coalesced (?L(p := tl (?L p)))"
      using split_area_coalesced [where k = p, OF Suc.prems(1) Suc.prems(3) La] by simp
    moreover have kp: "k \<le> p" "p < 10" "?L p \<noteq> []" using Suc.prems(2,3) False by auto
    ultimately obtain L' u where u: "split_down p k t = Some (Inr ((), u))" "buddy_ok L' u" "L' k \<noteq> []"
      "coalesced (L'(k := tl (L' k)))" "cover (areas L') = cover (areas ?L)"
      "agree (- cover (areas ?L)) (mem t) (mem u)" "same_rest t u"
      using Suc.IH [OF t(2)] kp by (auto simp del: fun_upd_apply)
    have "split_down (Suc p) k s = Some (Inr ((), u))"
      using t(1) u(1) False Suc.prems(2) by (subst split_down.simps) (simp add: kthen_Inr)
    moreover have "agree (- cover (areas L)) (mem s) (mem u)"
      using t(3,4) u(6) by (simp add: agree_trans)
    moreover have "same_rest s u" by (rule same_rest_trans [OF t(5) u(7)])
    moreover have "cover (areas L') = cover (areas L)" using t(3) u(5) by simp
    ultimately show ?thesis using u(2,3,4) by blast
  qed
qed

lemma fchain_head: "fchain m p xs \<Longrightarrow> (p = 0 \<longleftrightarrow> xs = [])"
  by (cases xs) auto

lemma allocator_empty:
  assumes "allocator F s" and "\<not> (\<exists>j. 0 \<le> j \<and> j < 10 \<and> buddy_pages s ! j \<noteq> 0)"
  shows "F = {}"
proof -
  obtain L where L: "buddy_ok L s" "F = cover (areas L)" using assms(1) by (auto simp: allocator_def)
  have "L k = []" if "k < 10" for k
    using buddy_okD(2) [OF L(1) that] assms(2) that fchain_head [of "mem s" 0 "L k"] by force
  then show ?thesis by (auto simp: L(2) areas_def cover_def)
qed

text \<open>What an allocation promises: an aligned area out of \<open>F\<close>, and the rest of \<open>F\<close>.\<close>

definition allocated ::
  "nat \<Rightarrow> u64 set \<Rightarrow> 'a mm_state_scheme \<Rightarrow> page \<Rightarrow> 'a mm_state_scheme \<Rightarrow> bool" where
  "allocated k F s p t \<longleftrightarrow>
     order p = k \<and> area_ok k (address p) \<and> area k (address p) \<subseteq> F \<and>
     allocator (F - area k (address p)) t \<and> agree (- F) (mem s) (mem t) \<and> same_rest s t"

lemma alloc_pages_returns:
  assumes al: "allocator F s" and k: "k < 10" and ne: "\<exists>j. k \<le> j \<and> j < 10 \<and> buddy_pages s ! j \<noteq> 0"
  shows "\<exists>p t. alloc_pages k s = Some (Inr (p, t)) \<and> allocated k F s p t"
proof -
  from al obtain L where ok: "buddy_ok L s" and co: "coalesced L" and F: "F = cover (areas L)"
    by (auto simp: allocator_def)
  let ?p = "promote (buddy_pages s) k"
  have P: "k \<le> ?p" "?p \<le> 10" "?p < 10 \<longrightarrow> buddy_pages s ! ?p \<noteq> 0"
    "\<forall>j. k \<le> j \<and> j < ?p \<longrightarrow> buddy_pages s ! j = 0"
    using promote_spec [of k "buddy_pages s"] k by auto
  with ne have p: "?p < 10" by (metis le_neq_implies_less linorder_not_le)
  then have "L ?p \<noteq> []" using P(3) fchain_head buddy_okD(2) [OF ok] by blast
  moreover have "coalesced (L(?p := tl (L ?p)))"
    by (rule coalesced_remove [OF co]) (cases "L ?p"; auto)
  ultimately obtain L' t where t: "split_down ?p k s = Some (Inr ((), t))" "buddy_ok L' t" "L' k \<noteq> []"
      "coalesced (L'(k := tl (L' k)))" "cover (areas L') = F"
      "agree (- F) (mem s) (mem t)" "same_rest s t"
    using split_down_ok [OF ok P(1) p] unfolding F by blast
  then obtain a as where a: "L' k = a # as" by (cases "L' k") auto
  note T = buddy_ok_take [OF t(2) k a]
  let ?u = "t\<lparr>buddy_pages := (buddy_pages t)[k := load64 (mem t) a]\<rparr>"
  have "alloc_pages k s = Some (Inr (\<lparr>address = a, order = k\<rparr>, ?u))"
    using t(1) k p T(1) by (simp add: alloc_pages_def kthen_Inr take_page_def Let_def)
  moreover have "allocator (F - area k a) ?u"
    unfolding allocator_def
  proof (intro exI conjI)
    show "buddy_ok (L'(k := as)) ?u" by (rule T(3))
    show "coalesced (L'(k := as))" using t(4) a by simp
    show "F - area k a = cover (areas (L'(k := as)))"
      unfolding T(4) using buddy_okD(5) [OF t(2)] a k t(5)
      by (subst cover_remove) (auto simp: areas_def)
  qed
  moreover have "area_ok k a" using buddy_okD(4) [OF t(2) k] a by simp
  moreover have "area k a \<subseteq> F"
    using a k t(5) area_subset_cover [of k a "areas L'"] by (auto simp: areas_def)
  moreover have "same_rest s ?u" using same_rest_trans [OF t(7)] by simp
  ultimately show ?thesis using t(6) by (auto simp: allocated_def)
qed

lemma alloc_pages_empty:
  assumes "k < 10" and "\<forall>j. k \<le> j \<and> j < 10 \<longrightarrow> buddy_pages s ! j = 0"
  shows "alloc_pages k s = Some (Inl ''out of memory'')"
  using promote_spec [of k "buddy_pages s"] assms
  by (auto simp: alloc_pages_def Let_def le_less)

lemma alloc_pages_bad: "10 \<le> k \<Longrightarrow> alloc_pages k s = Some (Inl ''bad alloc_pages'')"
  by (simp add: alloc_pages_def)

subsection \<open>Release\<close>

lemma push_free_ok:
  assumes ok: "buddy_ok L s" and co: "coalesced L" and a: "area_ok k a"
    and new: "area k a \<inter> cover (areas L) = {}"
    and nb: "Suc k < 10 \<Longrightarrow> a XOR area_size k \<notin> set (L k)"
  shows "\<exists>t. push_free \<lparr>address = a, order = k\<rparr> s = Some (Inr ((), t)) \<and>
     allocator (cover (areas L) \<union> area k a) t \<and>
     agree (- area k a \<union> page_bodies) (mem s) (mem t) \<and> same_rest s t"
proof -
  let ?t = "s\<lparr>mem := store64 (mem s) a (buddy_pages s ! k), buddy_pages := (buddy_pages s)[k := a]\<rparr>"
  have "push_free \<lparr>address = a, order = k\<rparr> s = Some (Inr ((), ?t))"
    by (simp add: push_free_def)
  moreover have "allocator (cover (areas L) \<union> area k a) ?t"
    unfolding allocator_def
  proof (intro exI conjI)
    show "buddy_ok (L(k := a # L k)) ?t" by (rule buddy_ok_push [OF ok a new])
    show "coalesced (L(k := a # L k))" by (rule coalesced_insert [OF co nb])
    show "cover (areas L) \<union> area k a = cover (areas (L(k := a # L k)))"
      using a by (auto simp: area_ok_def areas_Cons simp del: fun_upd_apply)
  qed
  moreover have "agree (- area k a \<union> page_bodies) (mem s) (mem ?t)"
    using cell_subset_area [of a k] cell_page_bodies [OF a] by (auto intro!: agree_sym [OF agree_store64])
  moreover have "same_rest s ?t" by simp
  ultimately show ?thesis by blast
qed

lemma area_size_small:
  assumes "k < 10"
  shows "area_size k < KERN_PHYBASE"
proof -
  have "\<forall>k\<in>set [0..<10]. area_size k < KERN_PHYBASE"
    by (simp add: area_size_def upt_rec)
  with assms show ?thesis by simp
qed

lemma buddy_nonzero:
  assumes "area_ok k a"
  shows "a XOR area_size k \<noteq> 0"
proof
  assume "a XOR area_size k = 0"
  moreover have "a = (a XOR area_size k) XOR area_size k" by (simp add: xor.assoc)
  ultimately have "a = area_size k" by simp
  moreover have "a \<in> ram" using assms self_in_area [of a k] by (auto simp: area_ok_def)
  ultimately show False
    using area_size_small [of k] assms by (auto simp: ram_def area_ok_def)
qed

text \<open>
  What a release promises: the area joins \<open>F\<close>, and only links of free areas change.
\<close>

definition released ::
  "nat \<Rightarrow> u64 \<Rightarrow> u64 set \<Rightarrow> 'a mm_state_scheme \<Rightarrow> 'a mm_state_scheme \<Rightarrow> bool" where
  "released k a F s t \<longleftrightarrow>
     allocator (F \<union> area k a) t \<and>
     agree (- (F \<union> area k a) \<union> page_bodies) (mem s) (mem t) \<and> same_rest s t"

lemma free_pages_top:
  assumes "allocator F s" and "area_ok k a" and "area k a \<inter> F = {}" and "k = 9"
  shows "\<exists>t. free_pages \<lparr>address = a, order = k\<rparr> s = Some (Inr ((), t)) \<and> released k a F s t"
proof -
  from assms(1) obtain L where ok: "buddy_ok L s" and co: "coalesced L" and F: "F = cover (areas L)"
    by (auto simp: allocator_def)
  have "free_pages \<lparr>address = a, order = k\<rparr> s = push_free \<lparr>address = a, order = k\<rparr> s"
    using assms(4) by (subst free_pages.simps) simp
  with push_free_ok [OF ok co assms(2)] assms(3,4) show ?thesis
    unfolding F released_def by (auto intro: agree_mono)
qed

lemma free_pages_ok:
  assumes "allocator F s" and "area_ok k a" and "area k a \<inter> F = {}"
  shows "\<exists>t. free_pages \<lparr>address = a, order = k\<rparr> s = Some (Inr ((), t)) \<and> released k a F s t"
  using assms
proof (induction "10 - k" arbitrary: k a F s)
  case 0
  then show ?case by (simp add: area_ok_def)
next
  case (Suc n)
  note prems = Suc.prems
  have k: "k < 10" using prems(2) by (simp add: area_ok_def)
  show ?case
  proof (cases "k = 9")
    case True
    then show ?thesis by (rule free_pages_top [OF prems])
  next
    case False
    with k have k9: "Suc k < 10" by simp
    from prems(1) obtain L where ok: "buddy_ok L s" and co: "coalesced L"
      and F: "F = cover (areas L)" by (auto simp: allocator_def)
    let ?b = "a XOR area_size k"
    let ?c = "a AND NOT (area_size k)"
    have al: "aligned (12 + k) a" using prems(2) by (simp add: area_ok_def)
    have k40: "k < 40" using k by simp
    note M = area_merge [OF al k40]
    note chain = buddy_okD(2) [OF ok k]
    show ?thesis
    proof (cases "?b \<in> set (L k)")
      case True
      then obtain xs ys where L: "L k = xs @ ?b # ys" by (meson split_list)
      let ?prev = "if xs = [] then Slot k else Cell (last xs)"
      let ?s = "write_link ?prev (load64 (mem s) ?b) s"
      note U = buddy_ok_unlink [OF ok k L]
      have scan: "scan_free (mem s) ?b (Slot k) (buddy_pages s ! k) = Some (?prev, ?b)"
        using chain buddy_okD(3) [OF ok k] unfolding L by (intro scan_free_found) auto
      have bF: "area k ?b \<subseteq> F" unfolding F
        using True k by (intro area_subset_cover) (simp add: areas_def)
      have F': "cover (areas (L(k := xs @ ys))) = F - area k ?b"
        unfolding U(2) F using buddy_okD(5) [OF ok] True k
        by (intro cover_remove) (auto simp: areas_def)
      have "coalesced (L(k := xs @ ys))" by (rule coalesced_remove [OF co]) (auto simp: L)
      with U(1) F' have inv: "allocator (F - area k ?b) ?s" by (auto simp: allocator_def)
      have "area_ok k ?b" using buddy_okD(4) [OF ok k True] .
      then have cok: "area_ok (Suc k) ?c" using M k9 prems(2) by (auto simp: area_ok_def)
      have "n = 10 - Suc k" using Suc.hyps(2) by simp
      moreover have "area (Suc k) ?c \<inter> (F - area k ?b) = {}" using M prems(3) by auto
      ultimately obtain t where t: "free_pages \<lparr>address = ?c, order = Suc k\<rparr> ?s = Some (Inr ((), t))"
        and r: "released (Suc k) ?c (F - area k ?b) ?s t"
        using Suc.hyps(1) [OF _ inv cok] by blast
      have "free_pages \<lparr>address = a, order = k\<rparr> s = free_pages \<lparr>address = ?c, order = Suc k\<rparr> ?s"
        using k9 scan by (subst free_pages.simps) (simp add: Let_def)
      moreover have FU: "(F - area k ?b) \<union> area (Suc k) ?c = F \<union> area k a"
        using M(3) bF by auto
      moreover have "agree (- (F \<union> area k a) \<union> page_bodies) (mem s) (mem t)"
      proof (rule agree_trans)
        show "agree (- (F \<union> area k a) \<union> page_bodies) (mem s) (mem ?s)"
          by (rule agree_sym [OF agree_mono [OF U(3)]]) (auto simp: F)
        show "agree (- (F \<union> area k a) \<union> page_bodies) (mem ?s) (mem t)"
          using r unfolding released_def FU by blast
      qed
      moreover have "same_rest s t"
        using r same_rest_trans [OF same_rest_write_link] unfolding released_def by blast
      ultimately show ?thesis using t r unfolding released_def by simp
    next
      case False
      then obtain prev where scan: "scan_free (mem s) ?b (Slot k) (buddy_pages s ! k) = Some (prev, 0)"
        using scan_free_missing [OF chain] by blast
      then have "free_pages \<lparr>address = a, order = k\<rparr> s = push_free \<lparr>address = a, order = k\<rparr> s"
        using k9 buddy_nonzero [OF prems(2)] by (subst free_pages.simps) (simp add: Let_def)
      with push_free_ok [OF ok co prems(2)] prems(3) False show ?thesis
        unfolding F released_def by (auto intro: agree_mono)
    qed
  qed
qed

subsection \<open>The state after initialisation\<close>

lemma area_interval:
  assumes "unat a + 2 ^ (12 + k) \<le> 2 ^ 64"
  shows "x \<in> area k a \<longleftrightarrow> a \<le> x \<and> unat x < unat a + 2 ^ (12 + k)"
proof (cases "a \<le> x")
  case True
  then have "unat (x - a) = unat x - unat a" by (simp add: unat_sub)
  with True show ?thesis by (auto simp: area_def span_iff word_le_nat_alt)
next
  case False
  then have "unat x < unat a" by (simp add: word_le_nat_alt)
  then have "unat (x - a) = unat x + 2 ^ 64 - unat a"
    by (simp add: unat_sub_if' word_le_nat_alt)
  with False assms show ?thesis by (simp add: area_def span_iff)
qed

lemma area_ok_compute:
  assumes "k < 10" and "take_bit (12 + k) a = 0" and "0x3f00000000 \<le> a"
    and "unat a + 2 ^ (12 + k) \<le> 0x3f08000000"
  shows "area_ok k a"
proof -
  have "x \<in> ram" if "x \<in> area k a" for x
    using that assms area_interval [of a k x] by (auto simp: ram_def word_less_nat_alt word_le_nat_alt)
  with assms show ?thesis by (auto simp: area_ok_def aligned_def)
qed

definition initial_lists :: "nat \<Rightarrow> u64 list" where
  "initial_lists = (\<lambda>_. [])(9 := [KERN_PHYBASE + 0x200000], 8 := [KERN_PHYBASE + 0x100000])"

definition initial_free :: "u64 set" where
  "initial_free = {x. KERN_PHYBASE + 0x100000 \<le> x \<and> x < KERN_PHYBASE + 0x400000}"

lemma areas_initial:
  "areas initial_lists = {(9, KERN_PHYBASE + 0x200000), (8, KERN_PHYBASE + 0x100000)}"
  by (auto simp: areas_def initial_lists_def split: if_splits)

lemma cover_initial: "cover (areas initial_lists) = initial_free"
  unfolding areas_initial cover_insert cover_empty
  by (auto simp: initial_free_def area_interval word_le_nat_alt word_less_nat_alt)

lemma page_allocator_init_eq:
  "\<exists>m. page_allocator_init s =
     Some (Inr ((), s\<lparr>mem := store64 (store64 m (KERN_PHYBASE + 0x200000) 0)
                                  (KERN_PHYBASE + 0x100000) 0,
                      buddy_pages := [0, 0, 0, 0, 0, 0, 0, 0, 0x3f00100000, 0x3f00200000]\<rparr>))"
  by (rule exI [of _ "store64 (link_areas (KERN_PHYBASE + 0x200000) (mem s))
                        (KERN_PHYSTOP - 0x200000) 0"])
    (simp add: page_allocator_init_def seed_orders.simps area_size_def Let_def numeral_eq_Suc)

lemma page_allocator_init_ok:
  "\<exists>t. page_allocator_init s = Some (Inr ((), t)) \<and> allocator initial_free t \<and> same_rest s t"
proof -
  from page_allocator_init_eq [of s] obtain m where
    init: "page_allocator_init s =
     Some (Inr ((), s\<lparr>mem := store64 (store64 m (KERN_PHYBASE + 0x200000) 0)
                                  (KERN_PHYBASE + 0x100000) 0,
                      buddy_pages := [0, 0, 0, 0, 0, 0, 0, 0, 0x3f00100000, 0x3f00200000]\<rparr>))"
    (is "_ = Some (Inr ((), ?t))") by blast
  have chains: "fchain (mem ?t) (buddy_pages ?t ! k) (initial_lists k) \<and> distinct (initial_lists k)"
    if "k < 10" for k
  proof -
    have "\<forall>k\<in>set [0..<10]. fchain (mem ?t) (buddy_pages ?t ! k) (initial_lists k)"
      by (simp add: upt_rec initial_lists_def mem_simps span_disjoint)
    with that show ?thesis by (simp add: initial_lists_def)
  qed
  have "area_ok k a" if "(k, a) \<in> areas initial_lists" for k a
    using that unfolding areas_initial by (auto intro!: area_ok_compute)
  moreover have "areas_disjoint (areas initial_lists)"
  proof -
    have "area 9 (KERN_PHYBASE + 0x200000) \<inter> area 8 (KERN_PHYBASE + 0x100000) = {}"
      by (auto simp: area_interval word_le_nat_alt)
    then show ?thesis unfolding areas_initial by (auto simp: areas_disjoint_def)
  qed
  ultimately have "buddy_ok initial_lists ?t"
    using chains by (simp add: buddy_ok_def)
  moreover have "coalesced initial_lists"
    by (auto simp: coalesced_def initial_lists_def area_size_def)
  ultimately have "allocator initial_free ?t"
    unfolding allocator_def cover_initial [symmetric] by blast
  with init show ?thesis by auto
qed


subsection \<open>kmalloc and kfree\<close>

lemma kmalloc_order_bounds:
  "0 < pages \<Longrightarrow> \<exists>e. kmalloc_order pages k = k + e \<and> 2 ^ e \<le> unat pages \<and> unat pages < 2 ^ Suc e"
proof (induction pages k rule: kmalloc_order.induct)
  case (1 pages k)
  show ?case
  proof (cases "1 < pages")
    case True
    then have "0 < pages div 2" by (simp add: word_less_nat_alt unat_div)
    with 1 True obtain e where e: "kmalloc_order (pages div 2) (Suc k) = Suc k + e"
      "2 ^ e \<le> unat (pages div 2)" "unat (pages div 2) < 2 ^ Suc e" by blast
    then have "kmalloc_order pages k = k + Suc e" using True by (subst kmalloc_order.simps) simp
    moreover have "2 ^ Suc e \<le> unat pages" "unat pages < 2 ^ Suc (Suc e)"
      using e(2,3) by (simp_all add: unat_div)
    ultimately show ?thesis by blast
  next
    case False
    then have "unat pages = 1" using 1 by (simp add: word_less_nat_alt)
    moreover have "kmalloc_order pages k = k" using False by (subst kmalloc_order.simps) simp
    ultimately show ?thesis by (intro exI [of _ 0]) simp
  qed
qed

lemma kmalloc_order_0 [simp]: "kmalloc_order 0 k = k" "kmalloc_order 1 k = k"
  by (subst kmalloc_order.simps, simp)+

lemma kmalloc_order_floor_log:
  assumes "0 < pages"
  shows "2 ^ kmalloc_order pages 0 \<le> unat pages" and "unat pages < 2 ^ Suc (kmalloc_order pages 0)"
  using kmalloc_order_bounds [OF assms, of 0] by auto

lemma kmalloc_pages_unat:
  assumes "unat sz < 2 ^ 62"
  shows "unat (kmalloc_pages sz) = (unat sz + 4 + 4095) div 4096"
proof -
  have "unat (sz + 4099) = unat sz + 4099"
    using assms by (subst unat_add_lem [THEN iffD1]) simp_all
  moreover have "kmalloc_pages sz = (sz + 4099) div 4096" by (simp add: kmalloc_pages_def add.commute)
  ultimately show ?thesis by (simp only: unat_div) simp
qed

lemma kmalloc_returns:
  assumes "allocator F s" and "kmalloc_order (kmalloc_pages sz) 0 = k" and "k < 10"
    and "\<exists>j. k \<le> j \<and> j < 10 \<and> buddy_pages s ! j \<noteq> 0"
  shows "\<exists>a t. kmalloc sz s = Some (Inr (a + 4, t)) \<and> area_ok k a \<and> area k a \<subseteq> F \<and>
     load32 (mem t) a = of_nat k \<and> allocator (F - area k a) t \<and> agree (- F) (mem s) (mem t) \<and> same_rest s t"
proof -
  from alloc_pages_returns [OF assms(1,3,4)] obtain p t where
    p: "alloc_pages k s = Some (Inr (p, t))" "allocated k F s p t" by blast
  let ?a = "address p"
  let ?u = "t\<lparr>mem := store32 (mem t) ?a (of_nat k)\<rparr>"
  have sub: "span ?a 4 \<subseteq> area k ?a"
    using cell_subset_area [of ?a k] span_mono [of 4 8 ?a] by simp
  have "kmalloc sz s = Some (Inr (?a + 4, ?u))"
    using p(1) assms(2) by (simp add: kmalloc_def kbind_Inr kthen_Inr)
  moreover have "allocator (F - area k ?a) ?u"
    using p(2) sub unfolding allocated_def
    by (elim conjE, intro allocator_frame [of _ t ?u]) (auto intro!: agree_sym [OF agree_store32])
  moreover have "agree (- F) (mem s) (mem ?u)"
    using p(2) sub unfolding allocated_def
    by (auto intro!: agree_trans [of _ "mem s" "mem t"] agree_sym [OF agree_store32])
  moreover have "same_rest s ?u"
    using p(2) same_rest_trans [of s t ?u] unfolding allocated_def by simp
  ultimately show ?thesis using p(2) unfolding allocated_def
    by (intro exI [of _ ?a] exI [of _ ?u]) simp
qed

lemma kfree_releases:
  assumes "allocator F s" and "area_ok k a" and "area k a \<inter> F = {}" and "load32 (mem s) a = of_nat k"
  shows "\<exists>t. kfree (a + 4) s = Some (Inr ((), t)) \<and> released k a F s t"
proof -
  have "k < 10" using assms(2) by (simp add: area_ok_def)
  then have "unat (of_nat k :: u32) = k" by (simp add: unat_of_nat)
  then have "kfree (a + 4) s = free_pages \<lparr>address = a, order = k\<rparr> s"
    using assms(4) by (simp add: kfree_def kbind_Inr)
  with free_pages_ok [OF assms(1-3)] show ?thesis by simp
qed

subsection \<open>A concrete state\<close>

text \<open>The state that \<open>page_allocator_init\<close> leaves, on a memory of zeros.\<close>

definition boot_state :: mm_state where
  "boot_state = \<lparr>mem = (\<lambda>_. 0), early = False,
     buddy_pages = [0, 0, 0, 0, 0, 0, 0, 0, 0x3f00100000, 0x3f00200000]\<rparr>"

lemma load_zero [simp]: "load64 (\<lambda>_. 0) a = 0"
  by (simp add: load64_def numeral_eq_Suc)

lemma boot_state_allocator: "allocator initial_free boot_state"
proof -
  have chains: "fchain (mem boot_state) (buddy_pages boot_state ! k) (initial_lists k)
      \<and> distinct (initial_lists k)" if "k < 10" for k
  proof -
    have "\<forall>k\<in>set [0..<10]. fchain (mem boot_state) (buddy_pages boot_state ! k) (initial_lists k)"
      by (simp add: upt_rec initial_lists_def boot_state_def)
    with that show ?thesis by (simp add: initial_lists_def)
  qed
  from page_allocator_init_ok obtain t :: mm_state where "allocator initial_free t" by blast
  then have "area_ok k a" if "(k, a) \<in> areas initial_lists" for k a
    using that unfolding areas_initial by (auto intro!: area_ok_compute)
  moreover have "areas_disjoint (areas initial_lists)"
    by (auto simp: areas_initial areas_disjoint_def area_interval word_le_nat_alt)
  moreover have "length (buddy_pages boot_state) = 10" by (simp add: boot_state_def)
  ultimately have "buddy_ok initial_lists boot_state"
    using chains by (simp add: buddy_ok_def)
  moreover have "coalesced initial_lists"
    by (auto simp: coalesced_def initial_lists_def area_size_def)
  ultimately show ?thesis unfolding allocator_def cover_initial [symmetric] by blast
qed

subsection \<open>Properties\<close>

text \<open>
  Property C9. From a well-formed allocator that holds the free addresses \<open>F\<close>, a request of
  an order below \<open>MAX_ORDER\<close> either panics with ``out of memory'', exactly when every free
  list from that order on is empty, or returns an aligned area of that order out of \<open>F\<close>;
  the allocator then holds the rest of \<open>F\<close>, no byte outside \<open>F\<close> has changed, and neither
  has any other part of the state.
\<close>

theorem alloc_pages_correct:
  assumes "allocator F s" and "k < MAX_ORDER"
  shows "if \<exists>j. k \<le> j \<and> j < MAX_ORDER \<and> buddy_pages s ! j \<noteq> 0
    then \<exists>p t. alloc_pages k s = Some (Inr (p, t)) \<and> allocated k F s p t
    else alloc_pages k s = Some (Inl ''out of memory'')"
  using alloc_pages_returns [OF assms(1)] alloc_pages_empty [of k s] assms(2) by auto

lemma alloc_pages_correct_witness:
  "\<exists>p t. alloc_pages 3 boot_state = Some (Inr (p, t)) \<and> allocated 3 initial_free boot_state p t"
proof -
  have "\<exists>j. (3::nat) \<le> j \<and> j < MAX_ORDER \<and> buddy_pages boot_state ! j \<noteq> 0"
    by (intro exI [of _ 8]) (simp add: boot_state_def)
  with alloc_pages_correct [OF boot_state_allocator, of 3] show ?thesis by simp
qed

text \<open>
  Property C6. Releasing an aligned area of RAM that is not free returns; the area joins the
  free addresses, the free lists are well formed and maximally coalesced again, and nothing
  has changed but the first eight bytes of free pages.
\<close>

theorem free_pages_correct:
  assumes "allocator F s" and "area_ok k a" and "area k a \<inter> F = {}"
  shows "\<exists>t. free_pages \<lparr>address = a, order = k\<rparr> s = Some (Inr ((), t)) \<and> released k a F s t"
  by (rule free_pages_ok [OF assms])

lemma free_pages_correct_witness:
  "\<exists>t. free_pages \<lparr>address = 0x3f00400000, order = 2\<rparr> boot_state = Some (Inr ((), t)) \<and>
     released 2 0x3f00400000 initial_free boot_state t"
proof -
  have "area_ok 2 0x3f00400000" by (rule area_ok_compute) simp_all
  moreover have "area 2 0x3f00400000 \<inter> initial_free = {}"
    by (auto simp: area_interval initial_free_def word_less_nat_alt word_le_nat_alt)
  ultimately show ?thesis by (rule free_pages_correct [OF boot_state_allocator])
qed

text \<open>
  Releasing what was just allocated gives back the same set of free addresses.
\<close>

theorem alloc_free_roundtrip:
  assumes "allocator F s" and "alloc_pages k s = Some (Inr (p, t))"
  shows "\<exists>u. free_pages p t = Some (Inr ((), u)) \<and> allocator F u \<and> agree (- F) (mem s) (mem u)"
proof -
  have k: "k < 10" using alloc_pages_bad [of k s] assms(2) by (cases "k < 10") auto
  have "\<exists>j. k \<le> j \<and> j < 10 \<and> buddy_pages s ! j \<noteq> 0"
    using alloc_pages_empty [OF k, of s] assms(2) by auto
  with alloc_pages_returns [OF assms(1) k] assms(2) have al: "allocated k F s p t" by auto
  define a where "a = address p"
  have p: "p = \<lparr>address = a, order = k\<rparr>" and sub: "area k a \<subseteq> F"
    using al by (simp_all add: allocated_def a_def)
  have "allocator (F - area k a) t" "area_ok k a" "area k a \<inter> (F - area k a) = {}"
    using al by (auto simp: allocated_def a_def)
  from free_pages_ok [OF this] obtain u where
    u: "free_pages p t = Some (Inr ((), u))" "released k a (F - area k a) t u" unfolding p by blast
  have FU: "F - area k a \<union> area k a = F" using sub by blast
  have r: "allocator F u" "agree (- F) (mem t) (mem u)"
    using u(2) unfolding released_def FU agree_Un by blast+
  moreover have "agree (- F) (mem s) (mem t)" using al by (simp add: allocated_def)
  ultimately show ?thesis using u(1) by (blast intro: agree_trans)
qed

lemma alloc_free_roundtrip_witness:
  "\<exists>p t u. alloc_pages 9 boot_state = Some (Inr (p, t)) \<and> address p = 0x3f00200000 \<and>
     free_pages p t = Some (Inr ((), u)) \<and> allocator initial_free u"
proof -
  have "\<exists>t. alloc_pages 9 boot_state = Some (Inr (\<lparr>address = 0x3f00200000, order = 9\<rparr>, t))"
    by (simp add: alloc_pages_def boot_state_def promote.simps split_down.simps take_page_def
        kthen_Inr Let_def)
  then obtain t where "alloc_pages 9 boot_state = Some (Inr (\<lparr>address = 0x3f00200000, order = 9\<rparr>, t))"
    by blast
  with alloc_free_roundtrip [OF boot_state_allocator this] show ?thesis by force
qed

text \<open>
  After \<open>page_allocator_init\<close> the free lists are well formed and hold the three
  MiB from \<open>KERN_PHYBASE\<close> + 1 MiB on, and nothing else: the loop that seeds the orders
  \<open>MAX_ORDER - 1\<close> down to \<open>SKIP_ORDER\<close> starts at the top order and replaces the list of
  63 areas that the first loop has linked, so 124 of the 128 MiB are never handed out.
\<close>

theorem page_allocator_init_free:
  "\<exists>t. page_allocator_init s = Some (Inr ((), t)) \<and> allocator initial_free t \<and> same_rest s t \<and>
     initial_free \<inter> {x. KERN_PHYBASE + 0x400000 \<le> x \<and> x < KERN_PHYSTOP} = {}"
proof -
  have "initial_free \<inter> {x. KERN_PHYBASE + 0x400000 \<le> x \<and> x < KERN_PHYSTOP} = {}"
    by (auto simp: initial_free_def)
  with page_allocator_init_ok [of s] show ?thesis by blast
qed

text \<open>
  A block of \<open>kmalloc\<close> holds its four-byte header and the \<open>sz\<close> bytes asked
  for exactly when the number of pages is a power of two: the order is rounded down.
\<close>

theorem kmalloc_block_fits:
  assumes "unat sz < 2 ^ 62"
  shows "unat sz + 4 \<le> 2 ^ (12 + kmalloc_order (kmalloc_pages sz) 0) \<longleftrightarrow>
    (\<exists>e. unat (kmalloc_pages sz) = 2 ^ e)"
proof -
  let ?n = "unat (kmalloc_pages sz)"
  let ?k = "kmalloc_order (kmalloc_pages sz) 0"
  have n: "?n = (unat sz + 4 + 4095) div 4096" by (rule kmalloc_pages_unat [OF assms])
  then have "0 < ?n" by simp
  then have b: "2 ^ ?k \<le> ?n" "?n < 2 ^ Suc ?k"
    using kmalloc_order_floor_log [of "kmalloc_pages sz"] by (simp_all add: word_less_nat_alt)
  have "unat sz + 4 \<le> 2 ^ (12 + ?k) \<longleftrightarrow> ?n \<le> 2 ^ ?k"
    unfolding n by (simp add: power_add) linarith
  also have "\<dots> \<longleftrightarrow> (\<exists>e. ?n = 2 ^ e)"
  proof
    assume "?n \<le> 2 ^ ?k" with b(1) show "\<exists>e. ?n = 2 ^ e" by (metis le_antisym)
  next
    assume "\<exists>e. ?n = 2 ^ e"
    then obtain e where e: "?n = 2 ^ e" ..
    with b(2) have "e < Suc ?k" by (metis power_less_imp_less_exp one_less_numeral_iff semiring_norm(76))
    with e show "?n \<le> 2 ^ ?k" by simp
  qed
  finally show ?thesis .
qed

lemma kmalloc_block_fits_witness:
  "\<not> (unat (8192 :: u64) + 4 \<le> 2 ^ (12 + kmalloc_order (kmalloc_pages 8192) 0))"
proof -
  have "unat (kmalloc_pages 8192) = 3" by (simp add: kmalloc_pages_def)
  moreover have "(3::nat) \<noteq> 2 ^ e" for e by (cases e) (simp_all, presburger)
  ultimately show ?thesis using kmalloc_block_fits [of 8192] by auto
qed

text \<open>
  Property C26. Every block that \<open>kmalloc\<close> returns can be given back to \<open>kfree\<close>: whatever
  the owner has stored in the block behind its header, \<open>kfree\<close> returns and the free
  addresses are what they were before the allocation.
\<close>

theorem kmalloc_kfree_roundtrip:
  assumes "allocator F s" and "kmalloc sz s = Some (Inr (buf, t))"
  shows "\<exists>k a. buf = a + 4 \<and> area_ok k a \<and> area k a \<subseteq> F \<and> allocator (F - area k a) t \<and>
    (\<forall>u. buddy_pages u = buddy_pages t \<longrightarrow> agree (span a 4 \<union> (F - area k a)) (mem t) (mem u) \<longrightarrow>
      (\<exists>v. kfree buf u = Some (Inr ((), v)) \<and> allocator F v))"
proof -
  let ?k = "kmalloc_order (kmalloc_pages sz) 0"
  have k: "?k < 10"
    using alloc_pages_bad [of ?k s] assms(2) by (cases "?k < 10") (auto simp: kmalloc_def kbind_Inl Let_def)
  have ne: "\<exists>j. ?k \<le> j \<and> j < 10 \<and> buddy_pages s ! j \<noteq> 0"
  proof (rule ccontr)
    assume "\<not> ?thesis"
    then have "alloc_pages ?k s = Some (Inl ''out of memory'')"
      by (intro alloc_pages_empty [OF k]) blast
    with assms(2) show False by (simp add: kmalloc_def kbind_Inl Let_def)
  qed
  from kmalloc_returns [OF assms(1) refl k ne] assms(2) obtain a where
    a: "buf = a + 4" "area_ok ?k a" "area ?k a \<subseteq> F" "load32 (mem t) a = of_nat ?k"
      "allocator (F - area ?k a) t" by auto
  have "\<exists>v. kfree buf u = Some (Inr ((), v)) \<and> allocator F v"
    if bp: "buddy_pages u = buddy_pages t"
      and ag: "agree (span a 4 \<union> (F - area ?k a)) (mem t) (mem u)" for u
  proof -
    have "allocator (F - area ?k a) u" using allocator_frame [OF a(5) _ bp] ag by simp
    moreover have "load32 (mem u) a = of_nat ?k"
      using a(4) ag agree_load32 [of "span a 4" "mem t" "mem u" a] by simp
    ultimately obtain v where "kfree (a + 4) u = Some (Inr ((), v))" "released ?k a (F - area ?k a) u v"
      using kfree_releases [OF _ a(2), of "F - area ?k a" u] by blast
    moreover have "F - area ?k a \<union> area ?k a = F" using a(3) by blast
    ultimately show ?thesis using a(1) by (auto simp: released_def)
  qed
  with a show ?thesis by blast
qed

lemma kmalloc_kfree_roundtrip_witness:
  "\<exists>buf t v. kmalloc 40 boot_state = Some (Inr (buf, t)) \<and> kfree buf t = Some (Inr ((), v)) \<and>
     allocator initial_free v"
proof -
  have k: "kmalloc_order (kmalloc_pages 40) 0 = 0" by (simp add: kmalloc_pages_def)
  have "\<exists>j. (0::nat) \<le> j \<and> j < 10 \<and> buddy_pages boot_state ! j \<noteq> 0"
    by (intro exI [of _ 8]) (simp add: boot_state_def)
  from kmalloc_returns [OF boot_state_allocator k _ this] obtain a t where
    t: "kmalloc 40 boot_state = Some (Inr (a + 4, t))" by auto
  from kmalloc_kfree_roundtrip [OF boot_state_allocator t] obtain v where
    "kfree (a + 4) t = Some (Inr ((), v))" "allocator initial_free v" by (metis agree_refl)
  with t show ?thesis by blast
qed

subsection \<open>Small blocks\<close>

text \<open>A request of at most 4092 bytes gets one page.\<close>

lemma kmalloc_small:
  assumes al: "allocator F s" and sz: "unat sz \<le> 4092"
  shows "F = {} \<and> kmalloc sz s = Some (Inl ''out of memory'') \<or>
    (\<exists>a t. kmalloc sz s = Some (Inr (a + 4, t)) \<and> area_ok 0 a \<and> area 0 a \<subseteq> F \<and>
       load32 (mem t) a = 0 \<and> allocator (F - area 0 a) t \<and> agree (- F) (mem s) (mem t) \<and> same_rest s t)"
proof -
  have "unat (kmalloc_pages sz) = (unat sz + 4 + 4095) div 4096" by (rule kmalloc_pages_unat) (use sz in simp)
  then have "unat (kmalloc_pages sz) = 1" using sz by simp
  then have "kmalloc_pages sz = 1" by (simp add: word_unat_eq_iff)
  then have k: "kmalloc_order (kmalloc_pages sz) 0 = 0" by simp
  show ?thesis
  proof (cases "\<exists>j. 0 \<le> j \<and> j < 10 \<and> buddy_pages s ! j \<noteq> 0")
    case True
    from kmalloc_returns [OF al k _ True] show ?thesis by simp
  next
    case False
    then have "alloc_pages 0 s = Some (Inl ''out of memory'')" by (intro alloc_pages_empty) auto
    then have "kmalloc sz s = Some (Inl ''out of memory'')" unfolding kmalloc_def k by (simp add: kbind_Inl)
    with allocator_empty [OF al False] show ?thesis by blast
  qed
qed

lemma block_address:
  assumes "area_ok 0 a" and "unat j < 4096"
  shows "\<not> a + j < SPLIT" and "a + j \<noteq> 0"
proof -
  have "a + j \<in> area 0 a" using assms(2) by (simp add: area_def span_iff)
  then have "a + j \<in> ram" using assms(1) by (auto simp: area_ok_def)
  then show "\<not> a + j < SPLIT" "a + j \<noteq> 0" by (auto simp: ram_def)
qed

end
