(* ===== verification/Queue.thy ===== *)
theory Queue
  imports Main
begin

section \<open>Interfaces: first-in first-out queues\<close>

text \<open>
  Two parts of the kernel keep a queue: the intrusive lists (run queue, wait groups) and the
  ring buffers of the UART driver. The locales state what their clients rely on; the
  components interpret them on their own operations. \<open>rep h xs\<close> says that the state \<open>h\<close>
  holds the queue \<open>xs\<close>, and \<open>ready h xs e\<close> that \<open>e\<close> can be pushed.
\<close>

primrec drain :: "('h \<Rightarrow> 'e \<times> 'h) \<Rightarrow> nat \<Rightarrow> 'h \<Rightarrow> 'e list \<times> 'h" where
  "drain shift 0 h = ([], h)"
| "drain shift (Suc n) h =
     (let (e, h1) = shift h; (es, h2) = drain shift n h1 in (e # es, h2))"

definition rotate_once :: "('e \<Rightarrow> 'h \<Rightarrow> 'h) \<Rightarrow> ('h \<Rightarrow> 'e \<times> 'h) \<Rightarrow> 'h \<Rightarrow> 'h" where
  "rotate_once push shift h = (let (e, h1) = shift h in push e h1)"

locale fifo =
  fixes rep :: "'h \<Rightarrow> 'e list \<Rightarrow> bool"
    and ready :: "'h \<Rightarrow> 'e list \<Rightarrow> 'e \<Rightarrow> bool"
    and push :: "'e \<Rightarrow> 'h \<Rightarrow> 'h"
    and shift :: "'h \<Rightarrow> 'e \<times> 'h"
  assumes push_rep: "rep h xs \<Longrightarrow> ready h xs e \<Longrightarrow> rep (push e h) (xs @ [e])"
    and shift_rep: "rep h (x # xs) \<Longrightarrow> fst (shift h) = x \<and> rep (snd (shift h)) xs"
begin

lemma drain_rep:
  "rep h (xs @ ys) \<Longrightarrow> fst (drain shift (length xs) h) = xs \<and> rep (snd (drain shift (length xs) h)) ys"
proof (induction xs arbitrary: h)
  case Nil
  then show ?case by simp
next
  case (Cons x xs)
  then have "fst (shift h) = x" "rep (snd (shift h)) (xs @ ys)"
    using shift_rep [of h x "xs @ ys"] by simp_all
  with Cons.IH [of "snd (shift h)"] show ?case by (simp add: split_def Let_def)
qed

lemma push_then_drain:
  assumes "rep h xs" and "ready h xs e"
  shows "fst (drain shift (Suc (length xs)) (push e h)) = xs @ [e]"
  using drain_rep [of "push e h" "xs @ [e]" "[]"] push_rep [OF assms] by simp

end

locale round_robin = fifo +
  assumes recycle: "rep h (x # xs) \<Longrightarrow> ready (snd (shift h)) xs x"
begin

lemma rotate_once_rep: "rep h (x # xs) \<Longrightarrow> rep (rotate_once push shift h) (xs @ [x])"
  using shift_rep [of h x xs] recycle [of h x xs] push_rep [of "snd (shift h)" xs x]
  by (simp add: rotate_once_def split_def Let_def)

lemma rotate_rep:
  assumes "rep h xs" and "xs \<noteq> []"
  shows "rep ((rotate_once push shift ^^ k) h) (rotate k xs)"
proof (induction k)
  case 0
  then show ?case using assms(1) by simp
next
  case (Suc k)
  from assms(2) obtain y ys where y: "rotate k xs = y # ys"
    by (cases "rotate k xs") auto
  with Suc rotate_once_rep have "rep (rotate_once push shift ((rotate_once push shift ^^ k) h)) (ys @ [y])"
    by simp
  with y show ?case by (simp add: rotate_def)
qed

lemma served:
  assumes "rep h xs" and "i < length xs"
  shows "fst (shift ((rotate_once push shift ^^ i) h)) = xs ! i"
proof -
  from assms(2) have "rotate i xs = xs ! i # drop (Suc i) xs @ take i xs"
    by (simp add: rotate_drop_take Cons_nth_drop_Suc [symmetric])
  moreover have "rep ((rotate_once push shift ^^ i) h) (rotate i xs)"
    using assms by (intro rotate_rep) auto
  ultimately show ?thesis using shift_rep by metis
qed

end

end
