(* ===== verification/Klist.thy ===== *)
theory Klist
  imports Buddy_Correct Queue
begin

section \<open>Doubly linked lists (list.h)\<close>

text \<open>
  The intrusive lists of \<^verbatim>\<open>kernel/list.h\<close>, on the bytes of the memory. A
  \<open>struct list_node\<close> has its fields at the offsets 0, 8, 16 and 24, a \<open>struct list\<close>
  at 0 and 8. The pointer operations are functions on the memory; those that allocate or
  free are kernel calls. Then the representation predicate \<open>list_rep\<close>, what every
  operation does to the list it represents, and the interface \<open>node_queue\<close> on which the
  scheduler's queues rest.
\<close>

subsection \<open>Fields\<close>

definition n_value :: "memory \<Rightarrow> u64 \<Rightarrow> u64" where "n_value m n = load64 m n"
definition n_list :: "memory \<Rightarrow> u64 \<Rightarrow> u64" where "n_list m n = load64 m (n + 8)"
definition n_prev :: "memory \<Rightarrow> u64 \<Rightarrow> u64" where "n_prev m n = load64 m (n + 16)"
definition n_next :: "memory \<Rightarrow> u64 \<Rightarrow> u64" where "n_next m n = load64 m (n + 24)"
definition l_first :: "memory \<Rightarrow> u64 \<Rightarrow> u64" where "l_first m l = load64 m l"
definition l_last :: "memory \<Rightarrow> u64 \<Rightarrow> u64" where "l_last m l = load64 m (l + 8)"

definition set_value :: "u64 \<Rightarrow> u64 \<Rightarrow> memory \<Rightarrow> memory" where "set_value n v m = store64 m n v"
definition set_list :: "u64 \<Rightarrow> u64 \<Rightarrow> memory \<Rightarrow> memory" where "set_list n v m = store64 m (n + 8) v"
definition set_prev :: "u64 \<Rightarrow> u64 \<Rightarrow> memory \<Rightarrow> memory" where "set_prev n v m = store64 m (n + 16) v"
definition set_next :: "u64 \<Rightarrow> u64 \<Rightarrow> memory \<Rightarrow> memory" where "set_next n v m = store64 m (n + 24) v"
definition set_first :: "u64 \<Rightarrow> u64 \<Rightarrow> memory \<Rightarrow> memory" where "set_first l v m = store64 m l v"
definition set_last :: "u64 \<Rightarrow> u64 \<Rightarrow> memory \<Rightarrow> memory" where "set_last l v m = store64 m (l + 8) v"

subsection \<open>Operations\<close>

definition list_init :: "u64 \<Rightarrow> memory \<Rightarrow> memory" where
  "list_init l m = set_first l 0 (set_last l 0 m)"

definition list_empty :: "u64 \<Rightarrow> memory \<Rightarrow> bool" where
  "list_empty l m \<longleftrightarrow> l_first m l = 0"

text \<open>\<open>sizeof(struct list_node)\<close> is 32.\<close>

definition list_node_create :: "u64 \<Rightarrow> ('a mm_state_scheme, u64) kern" where
  "list_node_create value =
     kbind (kmalloc 32) (\<lambda>node.
       if node = 0 then kreturn node
       else kthen (kmodify (\<lambda>s. s\<lparr>mem := set_prev node 0 (set_next node 0 (set_value node value (mem s)))\<rparr>))
              (kreturn node))"

definition list_push :: "u64 \<Rightarrow> u64 \<Rightarrow> memory \<Rightarrow> memory" where
  "list_push l node m =
     (let m = set_list node l m;
          m = set_prev node (l_last m l) m;
          m = (if l_last m l \<noteq> 0 then set_next (l_last m l) node m else m);
          m = set_last l node m
      in if l_first m l = 0 then set_first l node m else m)"

definition list_insert_before :: "u64 \<Rightarrow> u64 \<Rightarrow> u64 \<Rightarrow> memory \<Rightarrow> memory" where
  "list_insert_before l node pos m =
     (let m = set_list node l m;
          m = set_prev node (n_prev m pos) m;
          m = set_next node pos m;
          m = set_prev pos node m;
          m = (if n_prev m node \<noteq> 0 then set_next (n_prev m node) node m else m)
      in if pos = l_first m l then set_first l node m else m)"

definition list_shift :: "u64 \<Rightarrow> memory \<Rightarrow> u64 \<times> memory" where
  "list_shift l m =
     (let node = l_first m l in
      if node = 0 then (0, m)
      else
        (let m = set_list node 0 m;
             m = set_first l (n_next m node) m;
             m = (if node = l_last m l then set_last l (n_next m node) m else m);
             m = set_next node 0 m
         in (node, m)))"

definition list_remove :: "u64 \<Rightarrow> memory \<Rightarrow> memory" where
  "list_remove node m =
     (let l = n_list m node in
      if l = 0 then m
      else
        (let m = (if n_next m node \<noteq> 0 then set_prev (n_next m node) (n_prev m node) m else m);
             m = (if n_prev m node \<noteq> 0 then set_next (n_prev m node) (n_next m node) m else m);
             m = (if node = l_first m l then set_first l (n_next m node) m else m)
         in if node = l_last m l then set_last l (n_prev m node) m else m))"

text \<open>
  \<open>list_destroy\<close> frees a node and then reads its \<open>next\<close>. \<open>list_foreach\<close> runs a body on
  the value of every node; the next node is read after the body. Neither ends on a cycle.
\<close>

partial_function (option) list_destroy_from ::
  "u64 \<Rightarrow> 'a mm_state_scheme \<Rightarrow> (string + unit \<times> 'a mm_state_scheme) option" where
  "list_destroy_from node s =
     (if node = 0 then Some (Inr ((), s))
      else kbind (kfree node) (\<lambda>_ t. list_destroy_from (n_next (mem t) node) t) s)"

definition list_destroy :: "u64 \<Rightarrow> ('a mm_state_scheme, unit) kern" where
  "list_destroy l =
     kthen (\<lambda>s. list_destroy_from (l_first (mem s) l) s)
           (kmodify (\<lambda>s. s\<lparr>mem := list_init l (mem s)\<rparr>))"

partial_function (option) list_foreach_from ::
  "(u64 \<Rightarrow> ('a mm_state_scheme, unit) kern) \<Rightarrow> u64 \<Rightarrow> 'a mm_state_scheme \<Rightarrow>
     (string + unit \<times> 'a mm_state_scheme) option" where
  "list_foreach_from body node s =
     (if node = 0 then Some (Inr ((), s))
      else kbind (body (n_value (mem s) node))
             (\<lambda>_ t. list_foreach_from body (n_next (mem t) node) t) s)"

definition list_foreach ::
  "(u64 \<Rightarrow> ('a mm_state_scheme, unit) kern) \<Rightarrow> u64 \<Rightarrow> ('a mm_state_scheme, unit) kern" where
  "list_foreach body l = (\<lambda>s. list_foreach_from body (l_first (mem s) l) s)"

subsection \<open>Fields of separate objects\<close>

definition apart :: "u64 \<Rightarrow> u64 \<Rightarrow> bool" where
  "apart a b \<longleftrightarrow> span a 32 \<inter> span b 32 = {}"

definition off_list :: "u64 \<Rightarrow> u64 \<Rightarrow> bool" where
  "off_list l a \<longleftrightarrow> span l 16 \<inter> span a 32 = {}"

lemma apart_sym: "apart a b \<Longrightarrow> apart b a"
  by (auto simp: apart_def)

lemma apart_cells:
  assumes "apart a b" and "unat i \<le> 24" and "unat j \<le> 24"
  shows "span (a + i) 8 \<inter> span (b + j) 8 = {}"
  using assms span_shift_subset [of i 8 32 a] span_shift_subset [of j 8 32 b]
  by (auto simp: apart_def)

lemma off_list_cells:
  assumes "off_list l a" and "unat i \<le> 8" and "unat j \<le> 24"
  shows "span (l + i) 8 \<inter> span (a + j) 8 = {}" and "span (a + j) 8 \<inter> span (l + i) 8 = {}"
  using assms span_shift_subset [of i 8 16 l] span_shift_subset [of j 8 32 a]
  by (auto simp: off_list_def)

lemmas field_defs = n_value_def n_list_def n_prev_def n_next_def l_first_def l_last_def
  set_value_def set_list_def set_prev_def set_next_def set_first_def set_last_def

lemma node_same [simp]:
  "n_value (set_value a v m) a = v" "n_value (set_list a v m) a = n_value m a"
  "n_value (set_prev a v m) a = n_value m a" "n_value (set_next a v m) a = n_value m a"
  "n_list (set_value a v m) a = n_list m a" "n_list (set_list a v m) a = v"
  "n_list (set_prev a v m) a = n_list m a" "n_list (set_next a v m) a = n_list m a"
  "n_prev (set_value a v m) a = n_prev m a" "n_prev (set_list a v m) a = n_prev m a"
  "n_prev (set_prev a v m) a = v" "n_prev (set_next a v m) a = n_prev m a"
  "n_next (set_value a v m) a = n_next m a" "n_next (set_list a v m) a = n_next m a"
  "n_next (set_prev a v m) a = n_next m a" "n_next (set_next a v m) a = v"
  by (simp_all add: field_defs load64_store64_other span_disjoint_offsets span_disjoint_base)

lemma list_same [simp]:
  "l_first (set_first l v m) l = v" "l_first (set_last l v m) l = l_first m l"
  "l_last (set_first l v m) l = l_last m l" "l_last (set_last l v m) l = v"
  by (simp_all add: field_defs load64_store64_other span_disjoint_offsets span_disjoint_base)

lemma node_apart [mem_simps]:
  assumes "apart a b"
  shows "n_value (set_value a v m) b = n_value m b" "n_value (set_list a v m) b = n_value m b"
    "n_value (set_prev a v m) b = n_value m b" "n_value (set_next a v m) b = n_value m b"
    "n_list (set_value a v m) b = n_list m b" "n_list (set_list a v m) b = n_list m b"
    "n_list (set_prev a v m) b = n_list m b" "n_list (set_next a v m) b = n_list m b"
    "n_prev (set_value a v m) b = n_prev m b" "n_prev (set_list a v m) b = n_prev m b"
    "n_prev (set_prev a v m) b = n_prev m b" "n_prev (set_next a v m) b = n_prev m b"
    "n_next (set_value a v m) b = n_next m b" "n_next (set_list a v m) b = n_next m b"
    "n_next (set_prev a v m) b = n_next m b" "n_next (set_next a v m) b = n_next m b"
  using apart_cells [OF assms, of 0] apart_cells [OF assms, of _ 0] apart_cells [OF assms, of 0 0]
    apart_cells [OF assms]
  by (simp_all add: field_defs load64_store64_other)

lemma node_list_apart [mem_simps]:
  assumes "off_list l a"
  shows "l_first (set_value a v m) l = l_first m l" "l_first (set_list a v m) l = l_first m l"
    "l_first (set_prev a v m) l = l_first m l" "l_first (set_next a v m) l = l_first m l"
    "l_last (set_value a v m) l = l_last m l" "l_last (set_list a v m) l = l_last m l"
    "l_last (set_prev a v m) l = l_last m l" "l_last (set_next a v m) l = l_last m l"
    "n_value (set_first l v m) a = n_value m a" "n_value (set_last l v m) a = n_value m a"
    "n_list (set_first l v m) a = n_list m a" "n_list (set_last l v m) a = n_list m a"
    "n_prev (set_first l v m) a = n_prev m a" "n_prev (set_last l v m) a = n_prev m a"
    "n_next (set_first l v m) a = n_next m a" "n_next (set_last l v m) a = n_next m a"
  using off_list_cells [OF assms] off_list_cells [OF assms, of 0] off_list_cells [OF assms, of _ 0]
    off_list_cells [OF assms, of 0 0]
  by (simp_all add: field_defs load64_store64_other)

subsection \<open>The list that a header represents\<close>

text \<open>
  \<open>nseg m l q p xs e\<close>: from the pointer \<open>p\<close> the \<open>next\<close> links visit the nodes \<open>xs\<close>
  of the list \<open>l\<close> and end in \<open>e\<close>, with the \<open>prev\<close> links in order; \<open>q\<close> is the
  \<open>prev\<close> of the first node. It is \<open>NULL\<close> after \<open>list_push\<close> on an empty list, but
  \<open>list_shift\<close> leaves it pointing at the node it removed.
\<close>

primrec nseg :: "memory \<Rightarrow> u64 \<Rightarrow> u64 \<Rightarrow> u64 \<Rightarrow> u64 list \<Rightarrow> u64 \<Rightarrow> bool" where
  "nseg m l q p [] e \<longleftrightarrow> p = e"
| "nseg m l q p (x # xs) e \<longleftrightarrow>
     p = x \<and> x \<noteq> 0 \<and> n_list m x = l \<and> n_prev m x = q \<and> nseg m l x (n_next m x) xs e"

definition separate_nodes :: "u64 \<Rightarrow> u64 list \<Rightarrow> bool" where
  "separate_nodes l xs \<longleftrightarrow>
     l \<noteq> 0 \<and> distinct xs \<and> (\<forall>x\<in>set xs. off_list l x) \<and> (\<forall>x\<in>set xs. \<forall>y\<in>set xs. x \<noteq> y \<longrightarrow> apart x y)"

definition list_rep :: "u64 \<Rightarrow> memory \<Rightarrow> u64 \<Rightarrow> u64 list \<Rightarrow> bool" where
  "list_rep q m l xs \<longleftrightarrow>
     separate_nodes l xs \<and> nseg m l q (l_first m l) xs 0 \<and>
     l_last m l = (if xs = [] then 0 else last xs)"

text \<open>A node that can join the list: nothing of the list overlaps it and its \<open>next\<close> is \<open>NULL\<close>.\<close>

definition joinable :: "memory \<Rightarrow> u64 \<Rightarrow> u64 list \<Rightarrow> u64 \<Rightarrow> bool" where
  "joinable m l xs n \<longleftrightarrow>
     n \<noteq> 0 \<and> n \<notin> set xs \<and> off_list l n \<and> (\<forall>x\<in>set xs. apart n x) \<and> n_next m n = 0"

lemma nseg_cong:
  assumes "\<forall>x\<in>set xs. n_list m x = n_list m' x \<and> n_prev m x = n_prev m' x \<and> n_next m x = n_next m' x"
  shows "nseg m l q p xs e = nseg m' l q p xs e"
  using assms by (induction xs arbitrary: q p) auto

lemma nseg_append:
  "nseg m l q p (xs @ ys) e \<longleftrightarrow>
     (\<exists>r. nseg m l q p xs r \<and> nseg m l (if xs = [] then q else last xs) r ys e)"
  by (induction xs arbitrary: q p) auto

lemma nseg_head: "nseg m l q p xs 0 \<Longrightarrow> (p = 0 \<longleftrightarrow> xs = [])"
  by (cases xs) auto

lemma nseg_nonzero: "nseg m l q p xs e \<Longrightarrow> x \<in> set xs \<Longrightarrow> x \<noteq> 0"
  by (induction xs arbitrary: q p) auto

lemma separate_nodesD:
  assumes "separate_nodes l xs"
  shows "distinct xs" and "x \<in> set xs \<Longrightarrow> off_list l x"
    and "x \<in> set xs \<Longrightarrow> y \<in> set xs \<Longrightarrow> x \<noteq> y \<Longrightarrow> apart x y"
  using assms by (auto simp: separate_nodes_def)

lemma separate_nodes_last:
  assumes "separate_nodes l (xs @ ys)" and "xs \<noteq> []" and "y \<in> set ys"
  shows "apart (last xs) y" and "apart y (last xs)"
proof -
  have "last xs \<in> set xs" using assms(2) by simp
  moreover from this have "last xs \<notin> set ys" using assms(1) by (auto simp: separate_nodes_def)
  ultimately show "apart (last xs) y" "apart y (last xs)"
    using assms unfolding separate_nodes_def by (metis Un_iff set_append)+
qed

lemma separate_nodes_sub:
  "separate_nodes l xs \<Longrightarrow> set ys \<subseteq> set xs \<Longrightarrow> distinct ys \<Longrightarrow> separate_nodes l ys"
  unfolding separate_nodes_def by blast

lemma separate_nodes_insert:
  assumes "separate_nodes l (xs @ ys)" and "joinable m l (xs @ ys) n"
  shows "separate_nodes l (xs @ n # ys)"
  using assms unfolding separate_nodes_def joinable_def by (auto intro: apart_sym)

text \<open>The \<open>next\<close> link of the last node, and the \<open>prev\<close> link of the first.\<close>

lemma nseg_set_next_last:
  assumes "nseg m l q p (xs @ [z]) e" and "\<forall>x\<in>set xs. apart z x" and "z \<notin> set xs"
  shows "nseg (set_next z n m) l q p (xs @ [z]) n"
proof -
  have "nseg m l q p xs r = nseg (set_next z n m) l q p xs r" for r
    using assms(2) by (intro nseg_cong) (simp add: mem_simps)
  with assms(1) show ?thesis by (auto simp: nseg_append)
qed

lemma nseg_set_prev_head:
  assumes "nseg m l q p (z # xs) e" and "\<forall>x\<in>set xs. apart z x"
  shows "nseg (set_prev z n m) l n p (z # xs) e"
proof -
  have "nseg m l z r xs e = nseg (set_prev z n m) l z r xs e" for r
    using assms(2) by (intro nseg_cong) (simp add: mem_simps)
  with assms(1) show ?thesis by simp
qed

subsection \<open>What the operations do\<close>

lemma list_init_rep:
  assumes "l \<noteq> 0"
  shows "list_rep q (list_init l m) l []"
  using assms by (simp add: list_rep_def list_init_def separate_nodes_def)

lemma list_empty_rep:
  "list_rep q m l xs \<Longrightarrow> list_empty l m \<longleftrightarrow> xs = []"
  unfolding list_rep_def list_empty_def using nseg_head by blast

lemma list_push_empty:
  assumes "l_first m l = 0" and "l_last m l = 0" and "off_list l n"
  shows "list_push l n m = set_first l n (set_last l n (set_prev n 0 (set_list n l m)))"
  using assms by (simp add: list_push_def Let_def mem_simps)

lemma list_push_rep:
  assumes rep: "list_rep q m l xs" and n: "joinable m l xs n"
  shows "list_rep (if xs = [] then 0 else q) (list_push l n m) l (xs @ [n])"
proof -
  have sep: "separate_nodes l xs" and seg: "nseg m l q (l_first m l) xs 0"
    and la: "l_last m l = (if xs = [] then 0 else last xs)" using rep by (auto simp: list_rep_def)
  have sep': "separate_nodes l (xs @ [n])"
    using separate_nodes_insert [of l xs "[]" m n] sep n by simp
  have ol: "off_list l n" and nx: "n_next m n = 0" "n \<noteq> 0" using n by (auto simp: joinable_def)
  show ?thesis
  proof (cases xs rule: rev_cases)
    case Nil
    then show ?thesis
      using sep' seg la ol nx by (simp add: list_rep_def list_push_def Let_def mem_simps)
  next
    case (snoc ys z)
    let ?m1 = "set_prev n z (set_list n l m)"
    let ?m2 = "set_next z n ?m1"
    have z: "off_list l z" "z \<noteq> 0" "apart z n" "apart n z" "l_last m l = z"
      using separate_nodesD [OF sep] nseg_nonzero [OF seg] n la snoc
      by (auto simp: joinable_def intro: apart_sym)
    have fnz: "l_first m l \<noteq> 0" using nseg_head [OF seg] snoc by simp
    have push: "list_push l n m = set_last l n ?m2"
      using z ol fnz by (simp add: list_push_def Let_def mem_simps)
    have 1: "nseg m l q (l_first m l) xs 0 = nseg ?m1 l q (l_first m l) xs 0"
      using n by (intro nseg_cong) (simp add: mem_simps joinable_def)
    have "nseg ?m1 l q (l_first m l) (ys @ [z]) 0"
      using seg 1 snoc by simp
    then have 2: "nseg ?m2 l q (l_first m l) xs n"
      using separate_nodesD [OF sep] unfolding snoc by (intro nseg_set_next_last) auto
    have 3: "nseg ?m2 l z n [n] 0"
      using z nx by (simp add: mem_simps)
    have "nseg ?m2 l q (l_first m l) (xs @ [n]) 0"
      using 2 3 snoc by (auto simp: nseg_append)
    moreover have "nseg ?m2 l q p (xs @ [n]) e = nseg (set_last l n ?m2) l q p (xs @ [n]) e" for p e
      using separate_nodesD [OF sep'] by (intro nseg_cong) (simp add: mem_simps)
    ultimately show ?thesis
      using sep' z ol snoc by (simp add: list_rep_def push mem_simps)
  qed
qed

lemma list_shift_empty: "list_rep q m l [] \<Longrightarrow> list_shift l m = (0, m)"
  by (simp add: list_rep_def list_shift_def)

lemma list_shift_rep:
  assumes rep: "list_rep q m l (x # xs)"
  shows "fst (list_shift l m) = x" and "list_rep x (snd (list_shift l m)) l xs"
    and "joinable (snd (list_shift l m)) l xs x" and "n_list (snd (list_shift l m)) x = 0"
    and "y \<in> set (x # xs) \<Longrightarrow> n_value (snd (list_shift l m)) y = n_value m y"
proof -
  have sep: "separate_nodes l (x # xs)" and seg: "nseg m l q (l_first m l) (x # xs) 0"
    and la: "l_last m l = last (x # xs)" using rep by (auto simp: list_rep_def)
  have x: "off_list l x" "x \<noteq> 0" "l_first m l = x" "x \<notin> set xs"
    using separate_nodesD [OF sep] seg by auto
  have ap: "\<forall>z\<in>set xs. apart x z" using separate_nodesD [OF sep] x(4) by auto
  have offs: "\<forall>z\<in>set xs. off_list l z" using separate_nodesD [OF sep] by auto
  have sep': "separate_nodes l xs"
    using separate_nodes_sub [OF sep, of xs] separate_nodesD(1) [OF sep] by auto
  have tail: "nseg m l x (n_next m x) xs 0" using seg by simp
  let ?m1 = "set_first l (n_next m x) (set_list x 0 m)"
  let ?m2 = "if xs = [] then set_last l 0 ?m1 else ?m1"
  let ?m3 = "set_next x 0 ?m2"
  have "x = last (x # xs) \<longleftrightarrow> xs = []" using x(4) by auto
  moreover have "xs = [] \<Longrightarrow> n_next m x = 0" using tail by simp
  ultimately have sh: "list_shift l m = (x, ?m3)"
    using x la by (simp add: list_shift_def Let_def mem_simps)
  have "nseg m l x (n_next m x) xs 0 = nseg ?m3 l x (n_next m x) xs 0"
    using ap offs by (intro nseg_cong) (simp add: mem_simps)
  moreover have "l_first ?m3 l = n_next m x" using x by (simp add: mem_simps)
  moreover have "l_last ?m3 l = (if xs = [] then 0 else last xs)"
    using x la by (simp add: mem_simps)
  ultimately show "list_rep x (snd (list_shift l m)) l xs"
    using sep' tail by (simp add: list_rep_def sh)
  show "fst (list_shift l m) = x" by (simp add: sh)
  show "n_list (snd (list_shift l m)) x = 0" using x by (simp add: sh mem_simps)
  show "joinable (snd (list_shift l m)) l xs x"
    using x ap by (simp add: sh joinable_def)
  show "n_value (snd (list_shift l m)) y = n_value m y" if "y \<in> set (x # xs)"
    using that x ap offs by (cases "y = x") (auto simp: sh mem_simps)
qed

text \<open>
  Insertion before a node and removal of a node need a correct \<open>prev\<close> link: the node is
  not the first, or the first node's \<open>prev\<close> is \<open>NULL\<close>.
\<close>

lemma list_insert_before_rep:
  assumes rep: "list_rep q m l (xs @ p # ys)" and n: "joinable m l (xs @ p # ys) n"
    and ok: "xs \<noteq> [] \<or> q = 0"
  shows "list_rep q (list_insert_before l n p m) l (xs @ n # p # ys)"
proof -
  have sep: "separate_nodes l (xs @ p # ys)" and seg: "nseg m l q (l_first m l) (xs @ p # ys) 0"
    and la: "l_last m l = last (p # ys)" using rep by (auto simp: list_rep_def)
  have sep': "separate_nodes l (xs @ n # p # ys)" using separate_nodes_insert [OF sep n] .
  note D = separate_nodesD [OF sep] and D' = separate_nodesD [OF sep']
  have p: "p \<noteq> 0" "off_list l p" "apart n p" "apart p n" "p \<noteq> n" "off_list l n" "n \<noteq> 0"
    using nseg_nonzero [OF seg] D n by (auto simp: joinable_def intro: apart_sym)
  let ?r = "if xs = [] then q else last xs"
  have prev: "n_prev m p = ?r" and tail: "nseg m l ?r p (p # ys) 0"
    and front: "nseg m l q (l_first m l) xs p"
    using seg by (auto simp: nseg_append)
  let ?m1 = "set_prev p n (set_next n p (set_prev n ?r (set_list n l m)))"
  let ?m2 = "if xs = [] then ?m1 else set_next (last xs) n ?m1"
  let ?m3 = "if xs = [] then set_first l n ?m2 else ?m2"
  have first: "l_first m l = p \<longleftrightarrow> xs = []"
    using front D(1) by (cases xs) auto
  have lx: "xs \<noteq> [] \<Longrightarrow> last xs \<noteq> 0 \<and> last xs \<noteq> n \<and> last xs \<noteq> p \<and> off_list l (last xs) \<and>
      apart (last xs) n \<and> apart (last xs) p"
  proof -
    assume "xs \<noteq> []"
    then have i: "last xs \<in> set xs" by simp
    moreover from i have "last xs \<noteq> p" using D(1) by auto
    ultimately show ?thesis
      using nseg_nonzero [OF seg, of "last xs"] D(2, 3) [of "last xs"] n
      by (auto simp: joinable_def intro: apart_sym)
  qed
  have ins: "list_insert_before l n p m = ?m3"
    using p prev first lx ok by (auto simp: list_insert_before_def Let_def mem_simps)
  have ysep: "\<forall>y\<in>set ys. apart n y \<and> apart p y \<and> off_list l y \<and> (xs \<noteq> [] \<longrightarrow> apart (last xs) y)"
    using D n separate_nodes_last [OF sep] by (auto simp: joinable_def)
  have "nseg m l p (n_next m p) ys 0 = nseg ?m3 l p (n_next m p) ys 0"
    using ysep lx by (intro nseg_cong) (simp add: mem_simps)
  then have rear: "nseg ?m3 l ?r n (n # p # ys) 0"
    using tail p lx by (auto simp: mem_simps)
  have "nseg ?m3 l q (l_first ?m3 l) (xs @ n # p # ys) 0"
  proof (cases xs rule: rev_cases)
    case Nil
    then show ?thesis using rear p by (simp add: mem_simps)
  next
    case (snoc zs z)
    have "x \<in> set xs \<Longrightarrow> apart n x \<and> apart p x" for x
      using n D(1) D(3) [of p x] by (auto simp: joinable_def)
    then have "nseg m l q (l_first m l) xs p = nseg ?m1 l q (l_first m l) xs p"
      using snoc by (intro nseg_cong) (simp add: mem_simps)
    then have "nseg (set_next z n ?m1) l q (l_first m l) xs n"
      using front D unfolding snoc by (intro nseg_set_next_last) auto
    moreover have "l_first ?m3 l = l_first m l" using snoc p lx by (simp add: mem_simps)
    ultimately show ?thesis using rear snoc by (auto simp: nseg_append)
  qed
  moreover have "l_last ?m3 l = l_last m l" using p lx by (simp add: mem_simps)
  ultimately show ?thesis using sep' la by (simp add: list_rep_def ins)
qed

lemma list_remove_rep:
  assumes rep: "list_rep q m l (xs @ n # ys)" and ok: "xs \<noteq> [] \<or> q = 0"
  shows "list_rep q (list_remove n m) l (xs @ ys)"
proof -
  have sep: "separate_nodes l (xs @ n # ys)" and seg: "nseg m l q (l_first m l) (xs @ n # ys) 0"
    and la: "l_last m l = last (n # ys)" using rep by (auto simp: list_rep_def)
  have sep': "separate_nodes l (xs @ ys)"
    using separate_nodes_sub [OF sep, of "xs @ ys"] separate_nodesD(1) [OF sep] by auto
  note D = separate_nodesD [OF sep]
  let ?r = "if xs = [] then q else last xs"
  let ?e = "if ys = [] then 0 else hd ys"
  have tail: "nseg m l ?r n (n # ys) 0" and front: "nseg m l q (l_first m l) xs n"
    using seg by (auto simp: nseg_append)
  have n: "n \<noteq> 0" "off_list l n" "n_list m n = l" "n_prev m n = ?r" "n_next m n = ?e" "l \<noteq> 0"
    using tail D sep by (cases ys; auto simp: separate_nodes_def)+
  have lx: "xs \<noteq> [] \<Longrightarrow> last xs \<noteq> 0 \<and> last xs \<noteq> n \<and> off_list l (last xs) \<and> apart (last xs) n"
  proof -
    assume "xs \<noteq> []"
    then have i: "last xs \<in> set xs" by simp
    moreover from i have "last xs \<noteq> n" using D(1) by auto
    ultimately show ?thesis
      using nseg_nonzero [OF seg, of "last xs"] D(2, 3) [of "last xs"] by auto
  qed
  have hy: "ys \<noteq> [] \<Longrightarrow> hd ys \<noteq> 0 \<and> hd ys \<noteq> n \<and> off_list l (hd ys) \<and> apart (hd ys) n \<and>
      (xs \<noteq> [] \<longrightarrow> apart (last xs) (hd ys) \<and> apart (hd ys) (last xs))"
    using nseg_nonzero [OF seg] D separate_nodes_last [OF sep] by (cases ys) auto
  have first: "n = l_first m l \<longleftrightarrow> xs = []" "l_first m l = n \<longleftrightarrow> xs = []"
    using front D(1) by (cases xs; auto)+
  have lst: "n = l_last m l \<longleftrightarrow> ys = []" "l_last m l = n \<longleftrightarrow> ys = []"
    using la D(1) by auto
  let ?m1 = "if ys = [] then m else set_prev (hd ys) ?r m"
  let ?m2 = "if xs = [] then ?m1 else set_next (last xs) ?e ?m1"
  let ?m3 = "if xs = [] then set_first l ?e ?m2 else ?m2"
  let ?m4 = "if ys = [] then set_last l ?r ?m3 else ?m3"
  have rem: "list_remove n m = ?m4"
    using n lx hy first lst ok
    by (cases "xs = []"; cases "ys = []"; simp add: list_remove_def Let_def mem_simps)
  have rear: "nseg ?m4 l ?r ?e ys 0"
  proof (cases ys)
    case Nil
    then show ?thesis by simp
  next
    case (Cons y zs)
    have "nseg m l n y (y # zs) 0" using tail Cons by simp
    then have "nseg (set_prev y ?r m) l ?r y (y # zs) 0"
      using D Cons by (intro nseg_set_prev_head) auto
    moreover have "nseg (set_prev y ?r m) l ?r y (y # zs) 0 = nseg ?m4 l ?r y (y # zs) 0"
      using D separate_nodes_last [OF sep] Cons lx hy by (intro nseg_cong) (auto simp: mem_simps)
    ultimately show ?thesis using Cons by simp
  qed
  have "nseg ?m4 l q (l_first ?m4 l) (xs @ ys) 0"
  proof (cases xs rule: rev_cases)
    case Nil
    then have "l_first ?m4 l = ?e" by simp
    with rear Nil show ?thesis by simp
  next
    case (snoc zs z)
    have "x \<in> set xs \<Longrightarrow> ys \<noteq> [] \<Longrightarrow> apart (hd ys) x" for x
      using D(1) D(3) [of "hd ys" x] by (cases ys) auto
    then have "nseg m l q (l_first m l) xs n = nseg ?m1 l q (l_first m l) xs n"
      by (intro nseg_cong) (simp add: mem_simps)
    then have "nseg (set_next z ?e ?m1) l q (l_first m l) xs ?e"
      using front D unfolding snoc by (intro nseg_set_next_last) auto
    then have "nseg ?m4 l q (l_first m l) xs ?e"
      using D snoc by (subst nseg_cong [of _ _ "set_next z ?e ?m1"]) (auto simp: mem_simps)
    moreover have "l_first ?m4 l = l_first m l" using snoc n lx hy by (auto simp: mem_simps)
    ultimately show ?thesis using rear snoc by (auto simp: nseg_append)
  qed
  moreover have "l_last ?m4 l = (if xs @ ys = [] then 0 else last (xs @ ys))"
    using la lx hy ok by (auto simp: mem_simps)
  ultimately show ?thesis using sep' by (simp only: list_rep_def rem)
qed

subsection \<open>Values, traversal and rotation\<close>

lemma list_push_value:
  assumes "list_rep q m l xs" and "joinable m l xs n" and "y \<in> set (xs @ [n])"
  shows "n_value (list_push l n m) y = n_value m y"
proof (cases "xs = []")
  case True
  with assms show ?thesis
    by (auto simp: list_push_def Let_def mem_simps list_rep_def joinable_def)
next
  case False
  have sep: "separate_nodes l xs" using assms(1) by (simp add: list_rep_def)
  have y: "y = last xs \<or> apart (last xs) y" "y = n \<or> apart n y" "off_list l y"
    and n: "off_list l n" "off_list l (last xs)" "apart (last xs) n \<and> apart n (last xs)"
    using assms(2,3) separate_nodesD [OF sep] False
    by (auto simp: joinable_def intro: apart_sym)
  moreover have "n_value (set_next a v m) y = n_value m y" "n_value (set_prev a v m) y = n_value m y"
    "n_value (set_list a v m) y = n_value m y" if "y = a \<or> apart a y" for a v m
    using that by (auto simp: mem_simps)
  ultimately show ?thesis
    using assms(1) False by (simp add: list_push_def Let_def mem_simps list_rep_def)
qed

text \<open>
  The rule for \<open>list_foreach\<close>: \<open>Inv\<close> holds of the nodes still to be visited and of the
  state; the body keeps it and leaves the link to the next node.
\<close>

definition nhead :: "u64 list \<Rightarrow> u64" where
  "nhead xs = (case xs of [] \<Rightarrow> 0 | x # _ \<Rightarrow> x)"

lemma nhead_simps [simp]: "nhead [] = 0" "nhead (x # xs) = x"
  by (simp_all add: nhead_def)

lemma nseg_nhead: "nseg m l q p xs 0 \<Longrightarrow> p = nhead xs"
  by (cases xs) auto

lemma list_foreach_from_rule:
  assumes step: "\<And>x ys s. Inv (x # ys) s \<Longrightarrow> x \<noteq> 0 \<and>
      (\<exists>t. body (n_value (mem s) x) s = Some (Inr ((), t)) \<and> Inv ys t \<and> n_next (mem t) x = nhead ys)"
  shows "Inv xs s \<Longrightarrow>
      \<exists>t. list_foreach_from body (nhead xs) s = Some (Inr ((), t)) \<and> Inv [] t"
proof (induction xs arbitrary: s)
  case Nil
  then show ?case by (simp add: list_foreach_from.simps)
next
  case (Cons x ys)
  from step [OF Cons.prems] obtain t where
    t: "x \<noteq> 0" "body (n_value (mem s) x) s = Some (Inr ((), t))" "Inv ys t" "n_next (mem t) x = nhead ys"
    by blast
  from Cons.IH [OF t(3)] obtain u where
    "list_foreach_from body (nhead ys) t = Some (Inr ((), u))" "Inv [] u" by blast
  with t show ?case by (subst nhead_simps, subst list_foreach_from.simps) (simp add: kbind_Inr)
qed

lemma list_destroy_from_rule:
  assumes step: "\<And>x ys s. Inv (x # ys) s \<Longrightarrow> x \<noteq> 0 \<and>
      (\<exists>t. kfree x s = Some (Inr ((), t)) \<and> Inv ys t \<and> n_next (mem t) x = nhead ys)"
  shows "Inv xs s \<Longrightarrow>
      \<exists>t. list_destroy_from (nhead xs) s = Some (Inr ((), t)) \<and> Inv [] t"
proof (induction xs arbitrary: s)
  case Nil
  then show ?case by (simp add: list_destroy_from.simps)
next
  case (Cons x ys)
  from step [OF Cons.prems] obtain t where
    t: "x \<noteq> 0" "kfree x s = Some (Inr ((), t))" "Inv ys t" "n_next (mem t) x = nhead ys"
    by blast
  from Cons.IH [OF t(3)] obtain u where
    "list_destroy_from (nhead ys) t = Some (Inr ((), u))" "Inv [] u" by blast
  with t show ?case by (subst nhead_simps, subst list_destroy_from.simps) (simp add: kbind_Inr)
qed

subsection \<open>Destroying a list of allocated nodes\<close>

text \<open>
  Each node is a block of \<open>kmalloc\<close> of one page, whose four-byte header says order 0.
\<close>

definition node_page :: "u64 \<Rightarrow> u64 set" where
  "node_page x = area 0 (x - 4)"

definition owned_nodes :: "u64 set \<Rightarrow> memory \<Rightarrow> u64 list \<Rightarrow> bool" where
  "owned_nodes F m xs \<longleftrightarrow>
     distinct xs \<and>
     (\<forall>x\<in>set xs. area_ok 0 (x - 4) \<and> node_page x \<inter> F = {} \<and> load32 m (x - 4) = 0)"

primrec nexts :: "memory \<Rightarrow> u64 list \<Rightarrow> bool" where
  "nexts m [] \<longleftrightarrow> True"
| "nexts m (x # xs) \<longleftrightarrow> x \<noteq> 0 \<and> n_next m x = nhead xs \<and> nexts m xs"

lemma nseg_nexts: "nseg m l q p xs 0 \<Longrightarrow> nexts m xs"
  by (induction xs arbitrary: q p) (auto dest: nseg_nhead)

lemma node_pages_disjoint:
  "area_ok 0 (x - 4) \<Longrightarrow> area_ok 0 (y - 4) \<Longrightarrow> x \<noteq> y \<Longrightarrow> node_page x \<inter> node_page y = {}"
  unfolding node_page_def by (rule pages_disjoint) simp_all

lemma node_cells:
  assumes "area_ok 0 (x - 4)"
  shows "span (x + 24) 8 \<subseteq> page_bodies" and "span (x + 24) 8 \<subseteq> node_page x"
    and "span (x - 4) 4 \<subseteq> node_page x"
proof -
  have e: "x + 24 = (x - 4) + 28" by simp
  show "span (x + 24) 8 \<subseteq> page_bodies"
    unfolding e by (rule page_bodies_inside [OF assms]) simp_all
  show "span (x + 24) 8 \<subseteq> node_page x"
    unfolding e node_page_def area_def by (rule span_shift_subset) simp_all
  show "span (x - 4) 4 \<subseteq> node_page x"
    unfolding node_page_def area_def by (rule span_mono) simp
qed

lemma kfree_node:
  assumes "allocator G s" and "owned_nodes G (mem s) (x # ys)" and "nexts (mem s) (x # ys)"
  shows "\<exists>t. kfree x s = Some (Inr ((), t)) \<and> allocator (G \<union> node_page x) t \<and>
      owned_nodes (G \<union> node_page x) (mem t) ys \<and> nexts (mem t) ys \<and> n_next (mem t) x = nhead ys \<and>
      agree (- (G \<union> node_page x)) (mem s) (mem t) \<and> same_rest s t"
proof -
  have x: "area_ok 0 (x - 4)" "area 0 (x - 4) \<inter> G = {}" "load32 (mem s) (x - 4) = of_nat 0"
    using assms(2) by (auto simp: owned_nodes_def node_page_def)
  from kfree_releases [OF assms(1) x] obtain t where t: "kfree x s = Some (Inr ((), t))"
    and r: "released 0 (x - 4) G s t" by auto
  have al: "allocator (G \<union> node_page x) t" and rest: "same_rest s t"
    and out: "agree (- (G \<union> node_page x)) (mem s) (mem t)" and pb: "agree page_bodies (mem s) (mem t)"
    using r by (simp_all add: released_def node_page_def)
  have y: "area_ok 0 (y - 4)" "node_page y \<inter> (G \<union> node_page x) = {}" if "y \<in> set ys" for y
    using that assms(2) node_pages_disjoint [of y x] by (auto simp: owned_nodes_def)
  have keep: "n_next (mem s) y = n_next (mem t) y" if "y \<in> set (x # ys)" for y
    using that x(1) y(1) unfolding n_next_def
    by (intro agree_load64 [OF pb]) (auto dest: node_cells(1))
  have "nexts (mem s) zs = nexts (mem t) zs" if "set zs \<subseteq> set ys" for zs
    using that keep by (induction zs) auto
  then have "nexts (mem t) ys" using assms(3) by auto
  moreover have "load32 (mem s) (y - 4) = load32 (mem t) (y - 4)" if "y \<in> set ys" for y
    using y [OF that] node_cells(3) [of y] by (intro agree_load32 [OF out]) auto
  then have "owned_nodes (G \<union> node_page x) (mem t) ys"
    using assms(2) y by (auto simp: owned_nodes_def)
  moreover have "n_next (mem t) x = nhead ys" using keep [of x] assms(3) by simp
  ultimately show ?thesis using t al rest out by blast
qed

lemma list_init_frame: "agree (- span l 16) m (list_init l m)"
proof -
  have "span l 8 \<inter> - span l 16 = {}" "span (l + 8) 8 \<inter> - span l 16 = {}"
    using span_shift_subset [of 8 8 16 l] span_mono [of 8 16 l] by auto
  then have "agree (- span l 16) m (store64 m (l + 8) 0)"
    and "agree (- span l 16) (store64 m (l + 8) 0) (store64 (store64 m (l + 8) 0) l 0)"
    by (blast intro: agree_sym [OF agree_store64])+
  then show ?thesis
    unfolding list_init_def set_first_def set_last_def by (rule agree_trans)
qed

lemma list_destroy_ok:
  assumes al: "allocator F s" and rep: "list_rep q (mem s) l xs" and own: "owned_nodes F (mem s) xs"
    and l: "span l 16 \<inter> (F \<union> (\<Union>x\<in>set xs. node_page x)) = {}"
  shows "\<exists>t. list_destroy l s = Some (Inr ((), t)) \<and>
      allocator (F \<union> (\<Union>x\<in>set xs. node_page x)) t \<and> list_rep 0 (mem t) l [] \<and>
      agree (- (F \<union> (\<Union>x\<in>set xs. node_page x) \<union> span l 16)) (mem s) (mem t) \<and> same_rest s t"
proof -
  let ?P = "\<lambda>ys. \<Union>x\<in>set ys. node_page x"
  define Inv where "Inv ys u \<longleftrightarrow> (\<exists>G. allocator G u \<and> owned_nodes G (mem u) ys \<and> nexts (mem u) ys \<and>
      G \<union> ?P ys = F \<union> ?P xs \<and> agree (- (F \<union> ?P xs)) (mem s) (mem u) \<and> same_rest s u)" for ys u
  have "Inv xs s"
    using al own rep nseg_nexts unfolding Inv_def list_rep_def by (intro exI [of _ F]) auto
  then obtain t where t: "list_destroy_from (nhead xs) s = Some (Inr ((), t))" "Inv [] t"
  proof (atomize_elim, rule list_destroy_from_rule [rotated])
    fix x ys u assume "Inv (x # ys) u"
    then obtain G where G: "allocator G u" "owned_nodes G (mem u) (x # ys)" "nexts (mem u) (x # ys)"
      "G \<union> ?P (x # ys) = F \<union> ?P xs" "agree (- (F \<union> ?P xs)) (mem s) (mem u)" "same_rest s u"
      unfolding Inv_def by blast
    from kfree_node [OF G(1-3)] obtain v where v: "kfree x u = Some (Inr ((), v))"
      "allocator (G \<union> node_page x) v" "owned_nodes (G \<union> node_page x) (mem v) ys" "nexts (mem v) ys"
      "n_next (mem v) x = nhead ys" "agree (- (G \<union> node_page x)) (mem u) (mem v)" "same_rest u v" by blast
    have sum: "(G \<union> node_page x) \<union> ?P ys = F \<union> ?P xs" using G(4) by auto
    then have "agree (- (F \<union> ?P xs)) (mem u) (mem v)"
      by (intro agree_mono [OF v(6)]) blast
    with G(5) have "agree (- (F \<union> ?P xs)) (mem s) (mem v)" by (rule agree_trans)
    with v(2-4) sum same_rest_trans [OF G(6) v(7)] have "Inv ys v"
      unfolding Inv_def by blast
    with v(1,5) G(3) show "x \<noteq> 0 \<and> (\<exists>t. kfree x u = Some (Inr ((), t)) \<and> Inv ys t \<and> n_next (mem t) x = nhead ys)"
      by simp
  qed
  have al': "allocator (F \<union> ?P xs) t" and ag: "agree (- (F \<union> ?P xs)) (mem s) (mem t)"
    and rest: "same_rest s t" using t(2) unfolding Inv_def by auto
  let ?t = "t\<lparr>mem := list_init l (mem t)\<rparr>"
  have frame: "agree (- span l 16) (mem t) (mem ?t)" by (simp add: list_init_frame)
  have "l_first (mem s) l = nhead xs" and "l \<noteq> 0"
    using rep nseg_nhead by (auto simp: list_rep_def separate_nodes_def)
  with t(1) have "list_destroy l s = Some (Inr ((), ?t))"
    by (simp add: list_destroy_def kthen_Inr)
  moreover have "allocator (F \<union> ?P xs) ?t"
    by (rule allocator_frame [OF al' agree_mono [OF frame]]) (use l in auto)
  moreover have "list_rep 0 (mem ?t) l []" using \<open>l \<noteq> 0\<close> by (simp add: list_init_rep)
  moreover have "agree (- (F \<union> ?P xs \<union> span l 16)) (mem s) (mem ?t)"
    by (rule agree_trans [OF agree_mono [OF ag] agree_mono [OF frame]]) auto
  moreover have "same_rest s ?t" using same_rest_trans [OF rest] by simp
  ultimately show ?thesis by blast
qed

subsection \<open>The lists as queues\<close>

interpretation klist: round_robin "\<lambda>m xs. \<exists>q. list_rep q m l xs" "\<lambda>m xs n. joinable m l xs n"
    "list_push l" "list_shift l" for l
proof
  show "\<exists>q. list_rep q (list_push l n m) l (xs @ [n])"
    if "\<exists>q. list_rep q m l xs" "joinable m l xs n" for m xs n
    using that list_push_rep by blast
  show "fst (list_shift l m) = x \<and> (\<exists>q. list_rep q (snd (list_shift l m)) l xs)"
    if "\<exists>q. list_rep q m l (x # xs)" for m x xs
    using that list_shift_rep(1,2) by blast
  show "joinable (snd (list_shift l m)) l xs x" if "\<exists>q. list_rep q m l (x # xs)" for m x xs
    using that list_shift_rep(3) by blast
qed

subsection \<open>Properties\<close>

text \<open>
  The list of the nodes \<open>xs\<close>, each shifted off and pushed again in turn, hands
  out the nodes in order: the \<open>i\<close>-th call of \<open>list_shift\<close> returns \<open>xs ! i\<close>.
\<close>

theorem list_rotation_fair:
  assumes "list_rep q m l xs" and "i < length xs"
  shows "fst (list_shift l ((rotate_once (list_push l) (list_shift l) ^^ i) m)) = xs ! i"
  using klist.served [of m l xs i] assms by blast

text \<open>
  Property C32. Insertion before the node \<open>p\<close> and removal of the node \<open>p\<close> do to the list
  what they do to the sequence of its nodes, if \<open>p\<close> is not the first node or the \<open>prev\<close>
  link of the first node is \<open>NULL\<close>.
\<close>

theorem list_insert_remove_correct:
  assumes "list_rep q m l (xs @ p # ys)" and "xs \<noteq> [] \<or> q = 0" and "joinable m l (xs @ p # ys) n"
  shows "list_rep q (list_insert_before l n p m) l (xs @ n # p # ys) \<and>
    list_rep q (list_remove p m) l (xs @ ys)"
  using list_insert_before_rep [OF assms(1,3,2)] list_remove_rep [OF assms(1,2)] by blast

text \<open>
  The condition of the last property is needed: \<open>list_shift\<close> does not clear the \<open>prev\<close> link of
  the new first node. On a list of three nodes, shift the first, push it again, and remove
  the node that is now first: the two remaining nodes form a cycle, so a \<open>list_foreach\<close>
  whose body leaves the links alone never ends.
\<close>

theorem list_remove_after_rotation_cycles:
  assumes "list_rep q m l [a, b, c]"
  defines "m' \<equiv> list_remove b (list_push l a (snd (list_shift l m)))"
  shows "l_first m' l = c \<and> n_next m' c = a \<and> n_next m' a = c"
proof -
  have rep: "list_rep q m l [a, b, c]" by fact
  note S = list_shift_rep [OF rep]
  let ?m1 = "snd (list_shift l m)"
  let ?m2 = "list_push l a ?m1"
  have r2: "list_rep a ?m2 l [b, c, a]"
    using list_push_rep [OF S(2,3)] by simp
  then have sep: "separate_nodes l [b, c, a]" and seg: "nseg ?m2 l a (l_first ?m2 l) [b, c, a] 0"
    and la: "l_last ?m2 l = a" by (simp_all add: list_rep_def)
  note D = separate_nodesD [OF sep]
  have ap: "apart a b" "apart b a" "apart a c" "apart c a" "apart b c" "apart c b"
    "off_list l a" "off_list l b" "off_list l c" "a \<noteq> b" "b \<noteq> c" "l \<noteq> 0"
    using D(1) D(2,3) sep by (auto simp: separate_nodes_def)
  show ?thesis
    using seg la ap unfolding m'_def
    by (simp add: list_remove_def Let_def mem_simps)
qed

text \<open>
  \<open>list_destroy\<close> on a list of allocated nodes frees every node exactly once, although it
  reads the \<open>next\<close> link of a node after freeing it, leaves the header an empty list, and
  changes nothing else.
\<close>

theorem list_destroy_frees:
  assumes "allocator F s" and "list_rep q (mem s) l xs" and "owned_nodes F (mem s) xs"
    and "span l 16 \<inter> (F \<union> (\<Union>x\<in>set xs. node_page x)) = {}"
  shows "\<exists>t. list_destroy l s = Some (Inr ((), t)) \<and>
      allocator (F \<union> (\<Union>x\<in>set xs. node_page x)) t \<and> list_rep 0 (mem t) l [] \<and>
      agree (- (F \<union> (\<Union>x\<in>set xs. node_page x) \<union> span l 16)) (mem s) (mem t) \<and> same_rest s t"
  by (rule list_destroy_ok [OF assms])

subsection \<open>Concrete lists\<close>

lemma example_nodes:
  "off_list 0x3f00500000 0x3f00400004" "off_list 0x3f00500000 0x3f00401004"
  "off_list 0x3f00500000 0x3f00402004" "apart 0x3f00401004 0x3f00400004"
  "apart 0x3f00402004 0x3f00400004" "apart 0x3f00402004 0x3f00401004"
  by (simp_all add: off_list_def apart_def span_disjoint)

definition one_node :: memory where
  "one_node = list_push 0x3f00500000 0x3f00400004 (list_init 0x3f00500000 (\<lambda>_. 0))"

definition two_nodes :: memory where
  "two_nodes = list_push 0x3f00500000 0x3f00401004 one_node"

definition three_nodes :: memory where
  "three_nodes = list_push 0x3f00500000 0x3f00402004 two_nodes"

lemmas example_apart = example_nodes example_nodes(4-6) [THEN apart_sym]

lemma one_node_eq:
  "one_node = set_first 0x3f00500000 0x3f00400004 (set_last 0x3f00500000 0x3f00400004
     (set_prev 0x3f00400004 0 (set_list 0x3f00400004 0x3f00500000 (list_init 0x3f00500000 (\<lambda>_. 0)))))"
  unfolding one_node_def using example_nodes by (intro list_push_empty) (simp_all add: list_init_def)

lemma one_node_rep: "list_rep 0 one_node 0x3f00500000 [0x3f00400004]"
proof -
  have "joinable (list_init 0x3f00500000 (\<lambda>_. 0)) 0x3f00500000 [] 0x3f00400004"
    using example_apart by (simp add: joinable_def list_init_def mem_simps) (simp add: n_next_def)
  moreover have "list_rep 0 (list_init 0x3f00500000 (\<lambda>_. 0)) 0x3f00500000 []"
    by (rule list_init_rep) simp
  ultimately show ?thesis using list_push_rep by (fastforce simp: one_node_def)
qed

lemma two_nodes_rep: "list_rep 0 two_nodes 0x3f00500000 [0x3f00400004, 0x3f00401004]"
proof -
  have "joinable one_node 0x3f00500000 [0x3f00400004] 0x3f00401004"
    using example_apart
    by (simp add: joinable_def one_node_eq list_init_def mem_simps) (simp add: n_next_def)
  with list_push_rep [OF one_node_rep] show ?thesis by (simp add: two_nodes_def)
qed

lemma three_nodes_rep:
  "list_rep 0 three_nodes 0x3f00500000 [0x3f00400004, 0x3f00401004, 0x3f00402004]"
proof -
  have "joinable two_nodes 0x3f00500000 [0x3f00400004, 0x3f00401004] 0x3f00402004"
    using example_apart
    by (simp add: joinable_def two_nodes_def one_node_eq list_push_def Let_def list_init_def mem_simps)
      (simp add: n_next_def)
  with list_push_rep [OF two_nodes_rep] show ?thesis by (simp add: three_nodes_def)
qed


text \<open>The node of the first list is a block of \<open>kmalloc\<close>; the allocator is \<open>boot_state\<close>.\<close>

lemma one_node_owned: "owned_nodes initial_free one_node [0x3f00400004]"
proof -
  have "area_ok 0 0x3f00400000" by (rule area_ok_compute) simp_all
  moreover have "area 0 0x3f00400000 \<inter> initial_free = {}"
    by (auto simp: area_interval initial_free_def word_less_nat_alt word_le_nat_alt)
  moreover have "load32 one_node 0x3f00400000 = 0"
    using example_apart
    by (simp add: one_node_eq list_init_def field_defs load32_store64_other span_disjoint)
      (simp add: load32_def numeral_eq_Suc)
  ultimately show ?thesis by (simp add: owned_nodes_def node_page_def)
qed

lemma one_node_allocator: "allocator initial_free (boot_state\<lparr>mem := one_node\<rparr>)"
proof (rule allocator_frame [OF boot_state_allocator])
  have out: "span a 8 \<inter> initial_free = {}"
    if "KERN_PHYBASE + 0x400000 \<le> a" "a < KERN_PHYSTOP" for a
  proof -
    have "x \<notin> initial_free" if "x \<in> span a 8" for x
    proof -
      have "unat (x - a) < 8" using that by (simp add: span_iff)
      moreover have "unat (a + (x - a)) = unat a + unat (x - a)"
        using \<open>unat (x - a) < 8\<close> \<open>a < KERN_PHYSTOP\<close>
        by (subst unat_add_lem [THEN iffD1]) (simp_all add: word_less_nat_alt)
      ultimately have "unat x = unat a + unat (x - a)" by simp
      then show ?thesis using \<open>KERN_PHYBASE + 0x400000 \<le> a\<close>
        by (simp add: initial_free_def word_le_nat_alt word_less_nat_alt)
    qed
    then show ?thesis by blast
  qed
  have "agree initial_free one_node (\<lambda>_. 0)"
    by (simp add: one_node_eq list_init_def field_defs agree_store64_iff [OF out])
  then show "agree initial_free (mem boot_state) (mem (boot_state\<lparr>mem := one_node\<rparr>))"
    by (simp add: boot_state_def agree_sym)
qed simp

lemma list_rotation_fair_witness:
  "fst (list_shift 0x3f00500000
     ((rotate_once (list_push 0x3f00500000) (list_shift 0x3f00500000) ^^ 2) three_nodes)) = 0x3f00402004"
  using list_rotation_fair [OF three_nodes_rep, of 2] by simp

lemma list_insert_remove_correct_witness:
  "list_rep 0 (list_insert_before 0x3f00500000 0x3f00402004 0x3f00401004 two_nodes) 0x3f00500000
     [0x3f00400004, 0x3f00402004, 0x3f00401004]"
proof -
  have j: "joinable two_nodes 0x3f00500000 [0x3f00400004, 0x3f00401004] 0x3f00402004"
    using example_apart
    by (simp add: joinable_def two_nodes_def one_node_eq list_push_def Let_def list_init_def mem_simps)
      (simp add: n_next_def)
  show ?thesis
    using list_insert_remove_correct [of 0 two_nodes "0x3f00500000" "[0x3f00400004]" "0x3f00401004" "[]"]
      two_nodes_rep j by simp
qed

lemma list_remove_after_rotation_cycles_witness:
  "let m = list_remove 0x3f00401004
      (list_push 0x3f00500000 0x3f00400004 (snd (list_shift 0x3f00500000 three_nodes)))
   in n_next m 0x3f00402004 = 0x3f00400004 \<and> n_next m 0x3f00400004 = 0x3f00402004"
  using list_remove_after_rotation_cycles [OF three_nodes_rep] by (simp add: Let_def)

lemma list_destroy_frees_witness:
  "\<exists>t. list_destroy 0x3f00500000 (boot_state\<lparr>mem := one_node\<rparr>) = Some (Inr ((), t)) \<and>
     allocator (initial_free \<union> area 0 0x3f00400000) t"
proof -
  have "span 0x3f00500000 16 \<inter> area 0 0x3f00400000 = {}"
    unfolding area_def by (rule span_disjoint) simp_all
  moreover have "span 0x3f00500000 16 \<inter> initial_free = {}"
  proof -
    have "span 0x3f00500000 16 \<subseteq> area 0 0x3f00500000" unfolding area_def by (rule span_mono) simp
    moreover have "area 0 0x3f00500000 \<inter> initial_free = {}"
      by (auto simp: area_interval initial_free_def word_less_nat_alt word_le_nat_alt)
    ultimately show ?thesis by blast
  qed
  ultimately have "span 0x3f00500000 16 \<inter> (initial_free \<union> (\<Union>x\<in>set [0x3f00400004]. node_page x)) = {}"
    by (simp add: Int_Un_distrib node_page_def)
  then show ?thesis
    using list_destroy_frees [OF one_node_allocator, of 0 "0x3f00500000" "[0x3f00400004]"]
      one_node_rep one_node_owned by (auto simp: node_page_def)
qed

subsection \<open>New nodes, and what a push changes\<close>

lemma node_write_frame:
  assumes "agree A m m'" and "A \<inter> span n 32 = {}"
  shows "agree A m (set_value n v m')" "agree A m (set_list n v m')"
    "agree A m (set_prev n v m')" "agree A m (set_next n v m')"
proof -
  have c: "span (n + i) 8 \<inter> A = {}" if "unat i + 8 \<le> 32" for i
    using span_shift_subset [OF that, of n] assms(2) by blast
  have "agree A m (store64 m' (n + i) v)" if "unat i + 8 \<le> 32" for i
    using agree_trans [OF assms(1) agree_sym [OF agree_store64 [OF c [OF that]]]] .
  from this [of 0] this [of 8] this [of 16] this [of 24]
  show "agree A m (set_value n v m')" "agree A m (set_list n v m')"
    "agree A m (set_prev n v m')" "agree A m (set_next n v m')"
    by (simp_all add: set_value_def set_list_def set_prev_def set_next_def)
qed

lemma list_write_frame:
  assumes "agree A m m'" and "A \<inter> span l 16 = {}"
  shows "agree A m (set_first l v m')" "agree A m (set_last l v m')"
proof -
  have c: "span (l + i) 8 \<inter> A = {}" if "unat i + 8 \<le> 16" for i
    using span_shift_subset [OF that, of l] assms(2) by blast
  have "agree A m (store64 m' (l + i) v)" if "unat i + 8 \<le> 16" for i
    using agree_trans [OF assms(1) agree_sym [OF agree_store64 [OF c [OF that]]]] .
  from this [of 0] this [of 8]
  show "agree A m (set_first l v m')" "agree A m (set_last l v m')"
    by (simp_all add: set_first_def set_last_def)
qed

lemma list_node_create_ok:
  assumes al: "allocator F s"
  shows "F = {} \<and> list_node_create v s = Some (Inl ''out of memory'') \<or>
    (\<exists>n t. list_node_create v s = Some (Inr (n, t)) \<and> n \<noteq> 0 \<and> area_ok 0 (n - 4) \<and> node_page n \<subseteq> F \<and>
       load32 (mem t) (n - 4) = 0 \<and> allocator (F - node_page n) t \<and> agree (- F) (mem s) (mem t) \<and>
       n_value (mem t) n = v \<and> n_next (mem t) n = 0 \<and> n_prev (mem t) n = 0 \<and> same_rest s t)"
proof -
  have "unat (32 :: u64) \<le> 4092" by simp
  from kmalloc_small [OF al this] show ?thesis
  proof (elim disjE exE conjE)
    assume "F = {}" "kmalloc 32 s = Some (Inl ''out of memory'')"
    then show ?thesis by (simp add: list_node_create_def kbind_Inl)
  next
    fix a t
    assume k: "kmalloc 32 s = Some (Inr (a + 4, t))" "area_ok 0 a" "area 0 a \<subseteq> F"
      "load32 (mem t) a = 0" "allocator (F - area 0 a) t" "agree (- F) (mem s) (mem t)" "same_rest s t"
    let ?n = "a + 4"
    let ?m = "set_prev ?n 0 (set_next ?n 0 (set_value ?n v (mem t)))"
    have nz: "?n \<noteq> 0" by (rule block_address(2) [OF k(2)]) simp
    have sub: "span ?n 32 \<subseteq> area 0 a" unfolding area_def by (rule span_shift_subset) simp
    have hd: "span ?n 32 \<inter> span a 4 = {}" by (rule span_disjoint_base) simp_all
    have "agree (- span ?n 32) (mem t) ?m"
      by (intro node_write_frame agree_refl) auto
    then have out: "agree (- area 0 a) (mem t) ?m" and h: "agree (span a 4) (mem t) ?m"
      using sub hd by (auto elim!: agree_mono)
    have "load32 ?m a = 0" using agree_load32 [OF h order.refl] k(4) by simp
    moreover have "allocator (F - area 0 a) (t\<lparr>mem := ?m\<rparr>)"
      by (rule allocator_frame [OF k(5)]) (auto intro: agree_mono [OF out])
    moreover have "agree (- F) (mem s) ?m"
      by (rule agree_trans [OF k(6) agree_mono [OF out]]) (use k(3) in blast)
    moreover have "same_rest s (t\<lparr>mem := ?m\<rparr>)" using same_rest_trans [OF k(7)] by simp
    moreover have "list_node_create v s = Some (Inr (?n, t\<lparr>mem := ?m\<rparr>))"
      using k(1) nz by (simp add: list_node_create_def kbind_Inr kthen_Inr)
    ultimately show ?thesis
      using k(2,3) nz by (intro disjI2 exI [of _ ?n] exI [of _ "t\<lparr>mem := ?m\<rparr>"]) (simp add: node_page_def)
  qed
qed

lemma list_push_frame:
  assumes "list_rep q m l xs" and "off_list l n"
  shows "agree (- (span l 16 \<union> span n 32 \<union> (\<Union>x\<in>set xs. span x 32))) m (list_push l n m)"
proof -
  have "l_last (set_prev n (l_last m l) (set_list n l m)) l = l_last m l"
    using assms(2) by (simp add: mem_simps)
  moreover have "l_last m l \<noteq> 0 \<Longrightarrow> l_last m l \<in> set xs"
    using assms(1) by (auto simp: list_rep_def split: if_splits)
  ultimately show ?thesis
    using assms(2) unfolding list_push_def Let_def
    by (auto simp: mem_simps intro!: node_write_frame list_write_frame)
qed

end
