(* ===== verification/Printf.thy ===== *)
theory Printf
  imports Prelude
begin

section \<open>Formatted output (printf.c)\<close>

text \<open>
  \<^verbatim>\<open>kernel/printf.c\<close> as functions from a format to the bytes given to \<open>putchar\<close>,
  in order. A C string is the list of its bytes with the terminating NUL; a read behind the
  end of the list is a read out of bounds and gives \<open>None\<close>, as does a missing argument.
  An argument is a 64-bit slot of the \<open>va_list\<close>; \<open>str p\<close> is the string at the address \<open>p\<close>.
\<close>

subsection \<open>Characters and strings\<close>

definition putchar :: "u8 \<Rightarrow> u8 list" where
  "putchar c = [c]"

text \<open>\<open>write\<close>: \<open>length\<close> bytes of a buffer; \<open>size_t\<close> is signed, and a negative length writes nothing.\<close>

definition write_buf :: "u8 list \<Rightarrow> int \<Rightarrow> u8 list option" where
  "write_buf buf n =
     (if n \<le> int (length buf) then Some (concat (map putchar (take (nat n) buf))) else None)"

fun prints :: "u8 list \<Rightarrow> u8 list option" where
  "prints [] = None"
| "prints (c # cs) = (if c = 0 then Some [] else map_option ((@) (putchar c)) (prints cs))"

definition isdigit :: "u8 \<Rightarrow> bool" where
  "isdigit c \<longleftrightarrow> 48 \<le> c \<and> c \<le> 57"

text \<open>
  \<open>scan_int\<close>: skip to the first digit, then the \<open>do\<close> loop, which leaves the first character
  that is not a digit. \<open>int\<close> is a 32-bit word.
\<close>

fun scan_digits :: "u32 \<Rightarrow> u8 \<Rightarrow> u8 list \<Rightarrow> (u32 \<times> u8 list) option" where
  "scan_digits i c [] = None"
| "scan_digits i c (d # ds) =
     (let i = i * 10 + ucast c - 48
      in if isdigit d then scan_digits i d ds else Some (i, d # ds))"

fun scan_from :: "u32 \<Rightarrow> u8 list \<Rightarrow> (u32 \<times> u8 list) option" where
  "scan_from sign [] = None"
| "scan_from sign (c # cs) =
     (if \<not> isdigit c then scan_from (if c = 45 then - 1 else sign) cs
      else map_option (\<lambda>(i, rest). (i * sign, rest)) (scan_digits 0 c cs))"

definition scan_int :: "u8 list \<Rightarrow> (u32 \<times> u8 list) option" where
  "scan_int cs = scan_from 1 cs"

subsection \<open>Numbers\<close>

definition P_UNSIGNED :: nat where "P_UNSIGNED = 0"
definition P_HEX :: nat where "P_HEX = 1"
definition P_BIN :: nat where "P_BIN = 2"
definition P_ZEROPAD :: nat where "P_ZEROPAD = 3"

text \<open>The flags word is the set of its bits; these are the bit numbers.\<close>

definition BUFLEN :: nat where "BUFLEN = 64"

text \<open>The table ``0123456789abcdef''.\<close>

definition tab :: "u8 list" where
  "tab = [48, 49, 50, 51, 52, 53, 54, 55, 56, 57, 97, 98, 99, 100, 101, 102]"

text \<open>
  The \<open>do\<close> loop of \<open>print_uint\<close>: the digits, least significant first. The code calls it
  with the bases 2, 10 and 16 only; the guard \<open>1 < base\<close> is the function's termination.
\<close>

function digits :: "u64 \<Rightarrow> u64 \<Rightarrow> u8 list" where
  "digits base x =
     tab ! unat (x mod base) # (if x div base \<noteq> 0 \<and> 1 < base then digits base (x div base) else [])"
  by pat_completeness auto
termination
proof (relation "measure (\<lambda>(base, x). unat x)")
  fix base x :: u64
  assume "x div base \<noteq> 0 \<and> 1 < base"
  then have "1 < unat base" "unat x div unat base \<noteq> 0"
    by (auto simp: word_less_nat_alt unat_div [symmetric] unat_eq_zero)
  then have "unat x div unat base < unat x" by (cases "unat x = 0") simp_all
  then show "((base, x div base), base, x) \<in> measure (\<lambda>(base, x). unat x)"
    by (simp add: unat_div)
qed simp

declare digits.simps [simp del]

definition pad_count :: "int \<Rightarrow> u32 \<Rightarrow> nat" where
  "pad_count i pad = nat (sint pad - i)"

text \<open>
  The last loop runs while \<open>top >= 0\<close>, so it also prints \<open>buf[top]\<close>, the zero behind the
  digits; \<open>buf\<close> has \<open>BUFLEN\<close> bytes, and a longer number would run over it.
\<close>

definition print_uint :: "u64 \<Rightarrow> u64 \<Rightarrow> u32 \<Rightarrow> u8 \<Rightarrow> bool \<Rightarrow> u8 list option" where
  "print_uint x base pad padchar neg =
     (let buf = digits base x;
          top = length buf
      in if BUFLEN \<le> top then None
         else Some
           ((if neg \<and> padchar = 48 then putchar 45 else []) @
            replicate (pad_count (int top + of_bool neg) pad) padchar @
            (if neg \<and> padchar = 32 then putchar 45 else []) @
            rev (buf @ [0])))"

text \<open>The string ``9223372036854775808''.\<close>

definition int64_min_digits :: "u8 list" where
  "int64_min_digits = [57, 50, 50, 51, 51, 55, 50, 48, 51, 54, 56, 53, 52, 55, 55, 53, 56, 48, 56]"

definition print_int :: "u64 \<Rightarrow> nat set \<Rightarrow> u32 \<Rightarrow> u8 list option" where
  "print_int x flags pad =
     (let padchar = (if P_ZEROPAD \<in> flags then 48 else 32);
          base = (if P_HEX \<in> flags then 16 else if P_BIN \<in> flags then 2 else 10)
      in if P_UNSIGNED \<in> flags then print_uint x base pad padchar False
         else if x = 0x8000000000000000 then
           Some ((if padchar = 48 then putchar 45 else []) @ replicate (pad_count 20 pad) padchar @
                 (if padchar = 32 then putchar 45 else []) @ int64_min_digits)
         else print_uint (if sint x < 0 then - x else x) base pad padchar (sint x < 0))"

subsection \<open>The interpreter of formats\<close>

definition next_arg :: "u64 list \<Rightarrow> bool \<Rightarrow> (u64 \<times> u64 list) option" where
  "next_arg args is64 =
     (case args of [] \<Rightarrow> None | a # rest \<Rightarrow> Some (if is64 then a else take_bit 32 a, rest))"

text \<open>
  One conversion, the loop \<open>while (!done)\<close> behind a percent sign. The result is the output,
  the remaining arguments and the remaining format.
\<close>

definition emit :: "u8 list \<Rightarrow> u64 list \<Rightarrow> u8 list \<Rightarrow> (u8 list \<times> u64 list \<times> u8 list) option" where
  "emit out args cs = Some (out, args, cs)"

definition number ::
  "u64 list \<Rightarrow> bool \<Rightarrow> nat set \<Rightarrow> u32 \<Rightarrow> u8 list \<Rightarrow> (u8 list \<times> u64 list \<times> u8 list) option" where
  "number args is64 flags pad cs =
     (case next_arg args is64 of
        None \<Rightarrow> None
      | Some (x, rest) \<Rightarrow> map_option (\<lambda>out. (out, rest, cs)) (print_int x flags pad))"

lemma scan_digits_shorter:
  "scan_digits i c cs = Some (n, rest) \<Longrightarrow> length rest \<le> length cs"
  by (induction i c cs rule: scan_digits.induct) (auto simp: Let_def split: if_splits)

lemma scan_from_shorter:
  "scan_from sign cs = Some (n, rest) \<Longrightarrow> length rest < length cs"
  by (induction sign cs rule: scan_from.induct)
    (auto split: if_splits dest: scan_digits_shorter)

function conversion ::
  "(u64 \<Rightarrow> u8 list) \<Rightarrow> nat set \<Rightarrow> u32 \<Rightarrow> bool \<Rightarrow> u64 list \<Rightarrow> u8 list \<Rightarrow>
     (u8 list \<times> u64 list \<times> u8 list) option" where
  "conversion str flags pad is64 args [] = None"
| "conversion str flags pad is64 args (c # cs) =
     (if c = 48 then conversion str (insert P_ZEROPAD flags) pad is64 args cs
      else if isdigit c then
        (case scan_int (c # cs) of
           None \<Rightarrow> None
         | Some (n, rest) \<Rightarrow> conversion str flags n is64 args rest)
      else if c = 37 then emit (putchar 37) args cs
      else if c = 100 then number args is64 flags pad cs
      else if c = 120 then number args is64 (insert P_HEX (insert P_UNSIGNED flags)) pad cs
      else if c = 97 then number args is64 (insert P_HEX flags) pad cs
      else if c = 98 then number args is64 (insert P_BIN flags) pad cs
      else if c = 117 then
        (case number args is64 (insert P_UNSIGNED flags) pad cs of
           None \<Rightarrow> None
         | Some (out, rest, cs) \<Rightarrow>
             map_option (\<lambda>(out', r). (out @ out', r)) (conversion str flags pad is64 rest cs))
      else if c = 108 then conversion str flags pad True args cs
      else if c = 112 then
        number args True (insert P_ZEROPAD (insert P_HEX (insert P_UNSIGNED flags))) 16 cs
      else if c = 99 then
        (case args of [] \<Rightarrow> None | a # rest \<Rightarrow> emit (putchar (ucast a)) rest cs)
      else if c = 115 then
        (case args of [] \<Rightarrow> None
         | a # rest \<Rightarrow> map_option (\<lambda>out. (out, rest, cs)) (prints (str a)))
      else if c = 0 then emit [] args cs
      else emit (putchar c) args cs)"
  by pat_completeness auto
termination
proof (relation "measure (\<lambda>(str, flags, pad, is64, args, cs). length cs)", goal_cases)
  case (3 str flags pad is64 args c cs x2 n rest)
  then show ?case
    using scan_from_shorter [of 1 "c # cs" n rest] by (simp add: scan_int_def)
next
  case (4 str flags pad is64 args c cs a out b rest r)
  then show ?case
    by (auto simp: number_def split: option.splits prod.splits)
qed auto

declare conversion.simps(2) [simp del]

lemma number_rest: "number args is64 flags pad cs = Some (out, rest, cs') \<Longrightarrow> cs' = cs"
  by (auto simp: number_def split: option.splits prod.splits)

lemma conversion_shorter:
  "conversion str flags pad is64 args cs = Some (out, args', rest) \<Longrightarrow> length rest < length cs"
proof (induction str flags pad is64 args cs arbitrary: out args' rest rule: conversion.induct)
  case (1 str flags pad is64 args)
  then show ?case by simp
next
  case (2 str flags pad is64 args c cs)
  consider "c = 48" | "c \<noteq> 48" "isdigit c" | "c = 117" | "c = 108"
    | "c \<noteq> 48" "\<not> isdigit c" "c \<noteq> 117" "c \<noteq> 108" by blast
  then show ?case
  proof cases
    case 1
    then show ?thesis
      using 2(1) 2(5) by (subst (asm) conversion.simps) (auto intro: less_SucI)
  next
    case 2
    then obtain n r where r: "scan_int (c # cs) = Some (n, r)"
      "conversion str flags n is64 args r = Some (out, args', rest)"
      using "2.prems" by (subst (asm) conversion.simps) (auto split: option.splits)
    then have "length rest < length r" using "2.IH"(2) 2 by simp
    moreover have "length r < length (c # cs)"
      using r(1) scan_from_shorter [of 1 "c # cs" n r] by (simp only: scan_int_def)
    ultimately show ?thesis by simp
  next
    case 3
    then have c: "\<not> isdigit c" by (simp add: isdigit_def)
    with 3 "2.prems" obtain o1 a1 o2 where
      n: "number args is64 (insert P_UNSIGNED flags) pad cs = Some (o1, a1, cs)"
        "conversion str flags pad is64 a1 cs = Some (o2, args', rest)"
      by (subst (asm) conversion.simps) (auto split: option.splits dest: number_rest)
    then show ?thesis using "2.IH"(3) 3 c by (auto intro: less_SucI)
  next
    case 4
    then show ?thesis
      using "2.IH"(4) "2.prems" by (subst (asm) conversion.simps) (auto simp: isdigit_def intro: less_SucI)
  next
    case 5
    then show ?thesis
      using "2.prems"
      by (subst (asm) conversion.simps)
        (auto simp: emit_def split: if_splits option.splits list.splits dest: number_rest)
  qed
qed

function vprintk :: "(u64 \<Rightarrow> u8 list) \<Rightarrow> u64 list \<Rightarrow> u8 list \<Rightarrow> u8 list option" where
  "vprintk str args [] = None"
| "vprintk str args (c # cs) =
     (if c = 0 then Some []
      else if c \<noteq> 37 then map_option ((@) (putchar c)) (vprintk str args cs)
      else
        (case conversion str {} 0 False args cs of
           None \<Rightarrow> None
         | Some (out, args, cs) \<Rightarrow> map_option ((@) out) (vprintk str args cs)))"
  by pat_completeness auto
termination
  by (relation "measure (\<lambda>(str, args, cs). length cs)") (auto dest: conversion_shorter intro: less_SucI)

declare vprintk.simps(2) [simp del]

definition printk :: "(u64 \<Rightarrow> u8 list) \<Rightarrow> u8 list \<Rightarrow> u64 list \<Rightarrow> u8 list option" where
  "printk str fmt args = vprintk str args fmt"

subsection \<open>The digits of a number\<close>

definition digit_value :: "u8 \<Rightarrow> nat" where
  "digit_value d = (if d \<le> 57 then unat d - 48 else unat d - 87)"

text \<open>The value of a numeral, least significant digit first.\<close>

primrec numeral_value :: "nat \<Rightarrow> u8 list \<Rightarrow> nat" where
  "numeral_value b [] = 0"
| "numeral_value b (d # ds) = digit_value d + b * numeral_value b ds"

lemma tab_digit: "i < 16 \<Longrightarrow> digit_value (tab ! i) = i \<and> tab ! i \<noteq> 0"
proof -
  assume "i < 16"
  then have "i \<in> set [0..<16]" by simp
  moreover have "\<forall>i\<in>set [0..<16]. digit_value (tab ! i) = i \<and> tab ! i \<noteq> 0"
    by (simp add: upt_rec tab_def digit_value_def)
  ultimately show ?thesis by blast
qed

definition print_base :: "u64 \<Rightarrow> bool" where
  "print_base base \<longleftrightarrow> base = 2 \<or> base = 10 \<or> base = 16"

lemma print_base_unat: "print_base base \<Longrightarrow> 2 \<le> unat base \<and> unat base \<le> 16 \<and> 1 < base \<and> base \<noteq> 0"
  by (auto simp: print_base_def)

lemma digits_value:
  "print_base base \<Longrightarrow> numeral_value (unat base) (digits base x) = unat x \<and>
     (\<forall>d\<in>set (digits base x). digit_value d < unat base \<and> d \<noteq> 0) \<and>
     (x \<noteq> 0 \<longrightarrow> digit_value (last (digits base x)) \<noteq> 0)"
proof (induction base x rule: digits.induct)
  case (1 base x)
  note b = print_base_unat [OF "1.prems"]
  have m: "unat (x mod base) = unat x mod unat base" "unat (x mod base) < unat base"
    using b by (simp_all add: unat_mod)
  have q: "unat (x div base) = unat x div unat base" by (simp add: unat_div)
  have d: "digit_value (tab ! unat (x mod base)) = unat x mod unat base \<and> tab ! unat (x mod base) \<noteq> 0"
    using tab_digit [of "unat (x mod base)"] m b by simp
  show ?case
  proof (cases "x div base = 0")
    case True
    then have "unat x div unat base = 0" using q by simp
    then have "unat x mod unat base = unat x" using b by (simp add: div_eq_0_iff)
    with True d m b show ?thesis by (subst (1 2 3) digits.simps) (auto simp: unat_eq_zero)
  next
    case False
    then have "digits base x = tab ! unat (x mod base) # digits base (x div base)"
      using b by (subst digits.simps) simp
    moreover have "digits base (x div base) \<noteq> []" by (subst digits.simps) simp
    ultimately show ?thesis
      using "1.IH" False "1.prems" d m q b
      by (auto simp: mult_div_mod_eq [symmetric] simp del: mult_div_mod_eq)
  qed
qed

lemma digits_tab: "print_base base \<Longrightarrow> set (digits base x) \<subseteq> set tab"
proof (induction base x rule: digits.induct)
  case (1 base x)
  have "unat (x mod base) < unat base" using print_base_unat [OF "1.prems"] by (simp add: unat_mod)
  then have "tab ! unat (x mod base) \<in> set tab"
    using print_base_unat [OF "1.prems"] by (intro nth_mem) (simp add: tab_def)
  with 1 show ?case by (subst digits.simps) (auto split: if_splits)
qed

lemma digits_length:
  "print_base base \<Longrightarrow> 0 < n \<Longrightarrow> unat x < unat base ^ n \<Longrightarrow> length (digits base x) \<le> n"
proof (induction base x arbitrary: n rule: digits.induct)
  case (1 base x)
  note b = print_base_unat [OF "1.prems"(1)]
  show ?case
  proof (cases "x div base = 0")
    case True
    with "1.prems"(2) show ?thesis by (subst digits.simps) simp
  next
    case False
    then have "unat x div unat base \<noteq> 0" by (simp add: unat_div [symmetric] unat_eq_zero)
    then have "unat base \<le> unat x" using b by (simp add: div_eq_0_iff not_less)
    with "1.prems"(3) have n: "1 < n"
      by (metis One_nat_def less_one linorder_neqE_nat not_less power_one_right power_0 "1.prems"(2) le_less_trans less_irrefl)
    then obtain k where k: "n = Suc k" "0 < k" by (cases n) auto
    have "unat (x div base) < unat base ^ k"
      using "1.prems"(3) k by (simp add: unat_div less_mult_imp_div_less mult.commute)
    with "1.IH" False b "1.prems"(1) k have "length (digits base (x div base)) \<le> k" by simp
    with False b k show ?thesis by (subst digits.simps) simp
  qed
qed

lemma digits_fit: "base = 10 \<or> base = 16 \<or> base = 2 \<and> x < 0x8000000000000000 \<Longrightarrow> length (digits base x) < BUFLEN"
proof -
  assume a: "base = 10 \<or> base = 16 \<or> base = 2 \<and> x < 0x8000000000000000"
  have "unat x < 2 ^ 64" using unsigned_less [of x] by simp
  then have "unat x < 10 ^ 63" "unat x < 16 ^ 63" by simp_all
  with a have "length (digits base x) \<le> 63"
    using digits_length [of base 63 x] by (auto simp: print_base_def word_less_nat_alt)
  then show ?thesis by (simp add: BUFLEN_def)
qed

lemma print_uint_Some:
  assumes "base = 10 \<or> base = 16 \<or> base = 2 \<and> x < 0x8000000000000000"
  shows "print_uint x base pad padchar neg = Some
    ((if neg \<and> padchar = 48 then [45] else []) @
     replicate (pad_count (int (length (digits base x)) + of_bool neg) pad) padchar @
     (if neg \<and> padchar = 32 then [45] else []) @ 0 # rev (digits base x))"
  using digits_fit [OF assms] by (simp add: print_uint_def Let_def putchar_def not_le)

subsection \<open>Properties\<close>

text \<open>
  Property C39. \<open>print_uint\<close> never runs over its buffer in base 10 or 16, nor in base 2 for a
  number below \<open>2 ^ 63\<close>. It prints, in this order: the sign of a negative number that is padded with zeros, as many padding
  characters as the field of \<open>pad\<close> characters has left beside the digits and the sign, the sign of a negative number that is padded with
  blanks, a NUL byte that no format asks for, and the numeral of \<open>x\<close>: its value is \<open>x\<close>, its digits are those of the
  table below the base, and it has no leading zero.
\<close>

theorem print_uint_correct:
  assumes "base = 10 \<or> base = 16 \<or> base = 2 \<and> x < 0x8000000000000000"
  shows "\<exists>num. print_uint x base pad padchar neg = Some
      ((if neg \<and> padchar = 48 then [45] else []) @
       replicate (nat (sint pad - (int (length num) + of_bool neg))) padchar @
       (if neg \<and> padchar = 32 then [45] else []) @ 0 # rev num) \<and>
    numeral_value (unat base) num = unat x \<and> (\<forall>d\<in>set num. digit_value d < unat base \<and> d \<in> set tab) \<and>
    (x \<noteq> 0 \<longrightarrow> digit_value (last num) \<noteq> 0) \<and> (x = 0 \<longrightarrow> num = [48])"
proof -
  have b: "print_base base" using assms by (auto simp: print_base_def)
  have "digits base 0 = [48]" by (subst digits.simps) (simp add: tab_def)
  then show ?thesis
    using digits_value [OF b, of x] digits_tab [OF b, of x] print_uint_Some [OF assms, of pad padchar neg]
    by (intro exI [of _ "digits base x"]) (auto simp: pad_count_def)
qed

lemma print_uint_correct_witness:
  "print_uint 255 16 6 48 False = Some [48, 48, 48, 48, 0, 102, 102] \<and>
   (\<exists>num. print_uint 42 10 6 32 True = Some ([32, 32, 32] @ [45] @ 0 # rev num) \<and> numeral_value 10 num = 42)"
proof
  have d: "digits 16 255 = [102, 102]" "digits 10 42 = [50, 52]"
    by (simp_all add: digits.simps [of 16 255] digits.simps [of 16 15] digits.simps [of 10 42] digits.simps [of 10 4] tab_def)
  have r: "replicate 4 48 = [48, 48, 48, 48 :: u8]" "replicate 3 32 = [32, 32, 32 :: u8]" by (simp_all add: numeral_eq_Suc)
  show "print_uint 255 16 6 48 False = Some [48, 48, 48, 48, 0, 102, 102]"
    using d(1) r by (simp add: print_uint_def Let_def BUFLEN_def pad_count_def)
  have "print_uint 42 10 6 32 True = Some ([32, 32, 32] @ [45] @ 0 # rev [50, 52])"
    using d(2) r by (simp add: print_uint_def Let_def BUFLEN_def pad_count_def putchar_def)
  moreover from print_uint_correct [of 10 42 6 32 True] obtain num where
    "print_uint 42 10 6 32 True = Some (replicate (nat (6 - (int (length num) + 1))) 32 @ [45] @ 0 # rev num)"
    "numeral_value 10 num = 42" by auto
  moreover have "num = [50, 52]"
    if "replicate k 32 @ [45] @ 0 # rev num = [32, 32, 32] @ [45] @ 0 # rev [50, 52 :: u8]" for k num
  proof -
    have "dropWhile (\<lambda>c. c = 32) (replicate k 32 @ [45] @ 0 # rev num) = [45] @ 0 # rev num" by (induction k) simp_all
    then have "rev num = rev [50, 52]" unfolding that by simp
    then show ?thesis by (simp only: rev_is_rev_conv)
  qed
  ultimately show "\<exists>num. print_uint 42 10 6 32 True = Some ([32, 32, 32] @ [45] @ 0 # rev num) \<and> numeral_value 10 num = 42"
    by (metis option.inject)
qed

text \<open>
  Every number that a conversion prints fits the buffer: \<open>print_int\<close> returns for
  all flags but the pair \<open>P_UNSIGNED\<close> and \<open>P_BIN\<close> without \<open>P_HEX\<close>, which no conversion
  character produces.
\<close>

theorem print_int_fits:
  assumes "\<not> (P_UNSIGNED \<in> flags \<and> P_BIN \<in> flags \<and> P_HEX \<notin> flags)"
  shows "print_int x flags pad \<noteq> None"
proof -
  let ?base = "if P_HEX \<in> flags then 16 else if P_BIN \<in> flags then 2 else 10 :: u64"
  have abs: "(if sint x < 0 then - x else x) < 0x8000000000000000" if "x \<noteq> 0x8000000000000000"
    using that sint_neg_iff [of x] by (auto simp: word_less_nat_alt word_le_nat_alt unat_neg_u64 word_unat_eq_iff)
  show ?thesis
    using assms abs print_uint_Some by (auto simp: print_int_def Let_def)
qed

lemma print_int_fits_witness: "print_int 7 {P_BIN} 8 \<noteq> None"
  by (rule print_int_fits) (simp add: P_BIN_def P_UNSIGNED_def)

text \<open>
  A format without percent signs is printed as it is.
\<close>

theorem vprintk_plain:
  assumes "\<forall>c\<in>set cs. c \<noteq> 0 \<and> c \<noteq> 37"
  shows "vprintk str args (cs @ 0 # rest) = Some cs"
  using assms by (induction cs) (simp_all add: vprintk.simps(2) putchar_def)

lemma vprintk_plain_witness: "vprintk (\<lambda>_. []) [] ([72, 105] @ 0 # []) = Some [72, 105]"
  by (rule vprintk_plain) simp

text \<open>
  A format that ends in a percent sign is read behind its end: the conversion
  takes the terminating NUL and \<open>vprintk\<close> goes on with the byte after it.
\<close>

theorem vprintk_trailing_percent:
  assumes "\<forall>c\<in>set cs. c \<noteq> 0 \<and> c \<noteq> 37"
  shows "vprintk str args (cs @ 37 # 0 # rest) = map_option ((@) cs) (vprintk str args rest)"
  using assms
proof (induction cs)
  case Nil
  then show ?case
    by (cases "vprintk str args rest")
      (simp_all add: vprintk.simps(2) conversion.simps(2) isdigit_def emit_def)
next
  case (Cons c cs)
  then show ?case by (cases "vprintk str args rest") (simp_all add: vprintk.simps(2) putchar_def)
qed

lemma vprintk_trailing_percent_witness: "vprintk (\<lambda>_. []) [] ([72] @ 37 # 0 # []) = None"
  by (subst vprintk_trailing_percent) simp_all

text \<open>
  A \<open>%d\<close> of a negative \<open>int\<close> prints a positive number: \<open>next_arg\<close> extends the
  32-bit argument with zeros, so \<open>-k\<close> is printed as \<open>2 ^ 32 - k\<close>.
\<close>

theorem printk_negative_int:
  assumes "0 < k" and "k \<le> 0x80000000"
  shows "printk str [37, 100, 0] [- k] = print_uint (0x100000000 - k) 10 0 32 False"
proof -
  have k: "0 < unat k" "unat k \<le> 0x80000000" "k \<noteq> 0"
    using assms by (auto simp: word_less_nat_alt word_le_nat_alt)
  have d: "unat (0x100000000 - k) = 0x100000000 - unat k"
    using k by (simp add: unat_sub word_le_nat_alt)
  have "2 ^ 64 - unat k = 0x100000000 * 0xffffffff + (0x100000000 - unat k)" using k by simp
  then have "(2 ^ 64 - unat k) mod 0x100000000 = 0x100000000 - unat k"
    using k(1) by (simp only: mod_mult_self4) simp
  then have "take_bit 32 (2 ^ 64 - unat k) = 0x100000000 - unat k" by (simp add: take_bit_eq_mod)
  then have "unat (take_bit 32 (- k)) = unat (0x100000000 - k)"
    by (simp only: unsigned_take_bit_eq unat_neg_u64 [OF k(3)] d)
  then have "take_bit 32 (- k) = 0x100000000 - k" by (simp only: word_unat_eq_iff)
  moreover have "\<not> sint (0x100000000 - k) < 0"
    unfolding sint_neg_iff word_le_nat_alt d using k by simp
  moreover have "0x100000000 - k \<noteq> 0x8000000000000000"
  proof
    assume "0x100000000 - k = 0x8000000000000000"
    then have "unat (0x100000000 - k) = unat (0x8000000000000000 :: u64)" by (simp only:)
    then show False unfolding d by simp
  qed
  ultimately have "print_int (take_bit 32 (- k)) {} 0 = print_uint (0x100000000 - k) 10 0 32 False"
    by (simp add: print_int_def P_HEX_def P_BIN_def P_UNSIGNED_def P_ZEROPAD_def)
  moreover obtain out where "print_uint (0x100000000 - k) 10 0 32 False = Some out"
    using print_uint_Some by blast
  ultimately show ?thesis
    by (simp add: printk_def vprintk.simps(2) conversion.simps(2) isdigit_def number_def next_arg_def)
qed

lemma printk_negative_int_witness:
  "printk (\<lambda>_. []) [37, 100, 0] [- 1] = Some [0, 52, 50, 57, 52, 57, 54, 55, 50, 57, 53]"
  using printk_negative_int [of 1 "\<lambda>_. []"]
  by (simp add: print_uint_def Let_def pad_count_def BUFLEN_def tab_def digits.simps [of 10 4294967295]
      digits.simps [of 10 429496729] digits.simps [of 10 42949672] digits.simps [of 10 4294967]
      digits.simps [of 10 429496] digits.simps [of 10 42949] digits.simps [of 10 4294]
      digits.simps [of 10 429] digits.simps [of 10 42] digits.simps [of 10 4])

end
