(* ===== verification/Paging.thy ===== *)
theory Paging
  imports Buddy
begin

section \<open>Page tables (mm.c)\<close>

text \<open>
  The Sv39 page tables of \<^verbatim>\<open>kernel/mm.c\<close>: a table is a page of 512 entries of
  eight bytes in the memory, and an entry is changed by writing its bit fields. The calls
  return the \<open>int\<close> of the code: 0 or a negated error number.
\<close>

subsection \<open>Entries\<close>

definition pte_addr :: "u64 \<Rightarrow> u64 \<Rightarrow> u64" where
  "pte_addr table i = table + 8 * i"

definition get_pte :: "u64 \<Rightarrow> u64 \<Rightarrow> memory \<Rightarrow> u64" where
  "get_pte table i m = load64 m (pte_addr table i)"

text \<open>\<open>pte->flags = flags; pte->ppn = ppn\<close>: the other bits of the entry stay.\<close>

definition set_pte_flags :: "u64 \<Rightarrow> u32 \<Rightarrow> memory \<Rightarrow> memory" where
  "set_pte_flags pte flags m = store64 m pte (set_field 0 8 (ucast flags) (load64 m pte))"

definition set_pte_ppn :: "u64 \<Rightarrow> u64 \<Rightarrow> memory \<Rightarrow> memory" where
  "set_pte_ppn pte ppn m = store64 m pte (set_field 10 44 ppn (load64 m pte))"

definition write_pte :: "u64 \<Rightarrow> u32 \<Rightarrow> u64 \<Rightarrow> ('a mm_state_scheme, unit) kern" where
  "write_pte pte flags ppn =
     kmodify (\<lambda>s. s\<lparr>mem := set_pte_ppn pte ppn (set_pte_flags pte flags (mem s))\<rparr>)"

definition clear_pte_valid :: "u64 \<Rightarrow> ('a mm_state_scheme, unit) kern" where
  "clear_pte_valid pte =
     kmodify (\<lambda>s. s\<lparr>mem := set_pte_flags pte (pte_flags (load64 (mem s) pte) AND NOT PTE_VALID) (mem s)\<rparr>)"

subsection \<open>Alignment checks\<close>

definition check_va_1g :: "u64 \<Rightarrow> ('s, u64) kern" where
  "check_va_1g va =
     (if va_off va \<noteq> 0 \<or> va_vpn0 va \<noteq> 0 \<or> va_vpn1 va \<noteq> 0
      then kpanic ''misaligned 1G superpage virtual address'' else kreturn va)"

definition check_va_2m :: "u64 \<Rightarrow> ('s, u64) kern" where
  "check_va_2m va =
     (if va_off va \<noteq> 0 \<or> va_vpn0 va \<noteq> 0
      then kpanic ''misaligned 2M superpage virtual address'' else kreturn va)"

definition check_va :: "u64 \<Rightarrow> ('s, u64) kern" where
  "check_va va =
     (if va_off va \<noteq> 0 then kpanic ''misaligned page virtual address'' else kreturn va)"

subsection \<open>Mapping\<close>

definition set_page_1g :: "u64 \<Rightarrow> u64 \<Rightarrow> u64 \<Rightarrow> u32 \<Rightarrow> ('a mm_state_scheme, int) kern" where
  "set_page_1g table va pa flags =
     kbind (check_va_1g va) (\<lambda>sv_va.
       if pa_off pa \<noteq> 0 \<or> ((pa_ppn0 pa \<noteq> 0 \<or> pa_ppn1 pa \<noteq> 0) \<and> pte_is_leaf flags)
       then kpanic ''misaligned superpage pa''
       else kthen (write_pte (pte_addr table (va_vpn2 sv_va)) flags (pa_ppn pa)) (kreturn 0))"

definition set_page_1g_user :: "u64 \<Rightarrow> u64 \<Rightarrow> u64 \<Rightarrow> u32 \<Rightarrow> ('a mm_state_scheme, int) kern" where
  "set_page_1g_user table va pa flags = set_page_1g table va pa (flags OR PTE_USER)"

definition expand_entry :: "u64 \<Rightarrow> u64 \<Rightarrow> nat \<Rightarrow> nat \<Rightarrow> memory \<Rightarrow> memory" where
  "expand_entry subtable pte level i m =
     (let a = pte_addr subtable (of_nat i);
          m = store64 m a pte
      in if level = 1 then store64 m a (set_field 19 9 (of_nat i) (load64 m a))
         else if level = 0 then store64 m a (set_field 10 9 (of_nat i) (load64 m a))
         else m)"

definition expand_superpage :: "u64 \<Rightarrow> nat \<Rightarrow> ('a mm_state_scheme, u64) kern" where
  "expand_superpage pte level =
     kbind (alloc_pages 0) (\<lambda>p.
       let subtable = address p in
       if subtable = 0 then kreturn 0
       else kthen (kmodify (\<lambda>s. s\<lparr>mem := fold (expand_entry subtable pte level) [0..<512] (mem s)\<rparr>))
              (kreturn subtable))"

text \<open>\<open>ensure_page_2m\<close> returns the address of the level-1 entry (\<open>NULL\<close> when out of memory).\<close>

definition ensure_page_2m :: "u64 \<Rightarrow> u64 \<Rightarrow> ('a mm_state_scheme, u64) kern" where
  "ensure_page_2m table va =
     kbind (check_va_2m va) (\<lambda>sv_va.
     kbind (kgets (\<lambda>s. get_pte table (va_vpn2 sv_va) (mem s))) (\<lambda>pte2.
       if pte_invalid_or_leaf pte2 then
         kbind (expand_superpage pte2 1) (\<lambda>subtable.
           if subtable = 0 then kreturn 0
           else kbind (kgets early) (\<lambda>e.
                kthen (set_page_1g table (set_field 21 9 0 sv_va) (PA e subtable) PTE_VALID)
                      (kreturn (pte_addr subtable (va_vpn1 sv_va)))))
       else kreturn (pte_addr (subtable_from_pte pte2) (va_vpn1 sv_va))))"

definition set_page_2m :: "u64 \<Rightarrow> u64 \<Rightarrow> u64 \<Rightarrow> u32 \<Rightarrow> ('a mm_state_scheme, int) kern" where
  "set_page_2m table va pa flags =
     (if pa_off pa \<noteq> 0 \<or> (pa_ppn0 pa \<noteq> 0 \<and> pte_is_leaf flags)
      then kpanic ''misaligned superpage pa''
      else kbind (ensure_page_2m table va) (\<lambda>pte1.
             if pte1 = 0 then kreturn (- ENOMEM)
             else kthen (write_pte pte1 flags (pa_ppn pa)) (kreturn 0)))"

definition set_page_2m_user :: "u64 \<Rightarrow> u64 \<Rightarrow> u64 \<Rightarrow> u32 \<Rightarrow> ('a mm_state_scheme, int) kern" where
  "set_page_2m_user table va pa flags = set_page_2m table va pa (flags OR PTE_USER)"

definition set_page :: "u64 \<Rightarrow> u64 \<Rightarrow> u64 \<Rightarrow> u32 \<Rightarrow> ('a mm_state_scheme, int) kern" where
  "set_page table va pa flags =
     (if va_off va \<noteq> 0 \<or> pa_off pa \<noteq> 0 then kpanic ''misaligned page''
      else
        (let subtable_va = set_field 12 9 0 va;
             finish = (\<lambda>subtable.
               kthen (write_pte (pte_addr subtable (va_vpn0 va)) flags (pa_ppn pa)) (kreturn 0))
         in kbind (ensure_page_2m table subtable_va) (\<lambda>pte1.
              if pte1 = 0 then kreturn (- ENOMEM)
              else kbind (kgets (\<lambda>s. load64 (mem s) pte1)) (\<lambda>e1.
                if pte_invalid_or_leaf e1 then
                  kbind (expand_superpage e1 0) (\<lambda>subtable.
                    if subtable = 0 then kreturn (- ENOMEM)
                    else kbind (kgets early) (\<lambda>e.
                         kthen (set_page_2m table subtable_va (PA e subtable) PTE_VALID)
                               (finish subtable)))
                else finish (subtable_from_pte e1)))))"

definition set_page_user :: "u64 \<Rightarrow> u64 \<Rightarrow> u64 \<Rightarrow> u32 \<Rightarrow> ('a mm_state_scheme, int) kern" where
  "set_page_user table va pa flags = set_page table va pa (flags OR PTE_USER)"

subsection \<open>Unmapping\<close>

definition unset_page :: "u64 \<Rightarrow> u64 \<Rightarrow> ('a mm_state_scheme, int) kern" where
  "unset_page table va =
     kbind (check_va va) (\<lambda>sv_va.
     kbind (kgets (\<lambda>s. get_pte table (va_vpn2 sv_va) (mem s))) (\<lambda>pte2.
       if pte_invalid_or_leaf pte2 then kreturn (- ENOENT)
       else let subtable1 = subtable_from_pte pte2 in
     kbind (kgets (\<lambda>s. get_pte subtable1 (va_vpn1 sv_va) (mem s))) (\<lambda>pte1.
       if pte_invalid_or_leaf pte1 then kreturn (- ENOENT)
       else let subtable0 = subtable_from_pte pte1 in
            kthen (clear_pte_valid (pte_addr subtable0 (va_vpn0 sv_va))) (kreturn 0))))"

definition unset_page_2m :: "u64 \<Rightarrow> u64 \<Rightarrow> ('a mm_state_scheme, int) kern" where
  "unset_page_2m table va =
     kbind (check_va_2m va) (\<lambda>sv_va.
     kbind (kgets (\<lambda>s. get_pte table (va_vpn2 sv_va) (mem s))) (\<lambda>pte2.
       if pte_invalid_or_leaf pte2 then kreturn (- ENOENT)
       else let pte1 = pte_addr (subtable_from_pte pte2) (va_vpn1 sv_va) in
     kbind (kgets (\<lambda>s. load64 (mem s) pte1)) (\<lambda>e1.
       if \<not> pte_invalid_or_leaf e1 then kreturn (- EINVAL)
       else kthen (clear_pte_valid pte1) (kreturn 0))))"

text \<open>The index is \<open>vpn1\<close>, as in the code.\<close>

definition unset_page_1g :: "u64 \<Rightarrow> u64 \<Rightarrow> ('a mm_state_scheme, int) kern" where
  "unset_page_1g table va =
     kbind (check_va_1g va) (\<lambda>sv_va.
       let pte = pte_addr table (va_vpn1 sv_va) in
     kbind (kgets (\<lambda>s. load64 (mem s) pte)) (\<lambda>e.
       if \<not> pte_invalid_or_leaf e then kreturn (- EINVAL)
       else kthen (clear_pte_valid pte) (kreturn 0)))"

definition unset_page_user :: "u64 \<Rightarrow> u64 \<Rightarrow> ('a mm_state_scheme, int) kern" where
  "unset_page_user table va = unset_page table va"

definition unset_page_2m_user :: "u64 \<Rightarrow> u64 \<Rightarrow> ('a mm_state_scheme, int) kern" where
  "unset_page_2m_user table va = unset_page_2m table va"

definition unset_page_1g_user :: "u64 \<Rightarrow> u64 \<Rightarrow> ('a mm_state_scheme, int) kern" where
  "unset_page_1g_user table va = unset_page_1g table va"

subsection \<open>Whole tables\<close>

definition map_kernel_pages :: "u64 \<Rightarrow> ('a mm_state_scheme, unit) kern" where
  "map_kernel_pages table =
     kthen (set_page_1g table MMIOBASE MMIOPHY (PTE_VALID OR PTE_READ OR PTE_WRITE OR PTE_GLOBAL))
    (kthen (set_page_1g table KERNBASE KERNPHY (PTE_VALID OR PTE_READ OR PTE_WRITE OR PTE_EXEC OR PTE_GLOBAL))
           (kreturn ()))"

definition zero_entry :: "u64 \<Rightarrow> nat \<Rightarrow> memory \<Rightarrow> memory" where
  "zero_entry table i m = store64 m (pte_addr table (of_nat i)) 0"

definition create_page_table :: "('a mm_state_scheme, u64) kern" where
  "create_page_table =
     kbind (alloc_pages 0) (\<lambda>p.
       let table = address p in
       if table = 0 then kreturn 0
       else kthen (kmodify (\<lambda>s. s\<lparr>mem := fold (zero_entry table) [0..<512] (mem s)\<rparr>))
           (kthen (map_kernel_pages table) (kreturn table)))"

text \<open>
  \<open>do_destroy_page_table\<close>: \<open>destroy_from depth i table\<close> is its loop from index \<open>i\<close> on and
  the release of the table. The depth bounds the recursion, also on a malformed table.
\<close>

function destroy_from :: "nat \<Rightarrow> nat \<Rightarrow> u64 \<Rightarrow> ('a mm_state_scheme, unit) kern" where
  "destroy_from depth i table =
     (if i < 512 then
        kbind (kgets (\<lambda>s. get_pte table (of_nat i) (mem s))) (\<lambda>pte.
          if \<not> pte_invalid_or_leaf pte then
            (if depth = 0 then kpanic ''invalid page table - too deep''
             else kthen (destroy_from (depth - 1) 0 (subtable_from_pte pte))
                        (destroy_from depth (Suc i) table))
          else destroy_from depth (Suc i) table)
      else free_pages \<lparr>address = table, order = 0\<rparr>)"
  by pat_completeness auto
termination
  by (relation "measures [\<lambda>(depth, i, table). depth, \<lambda>(depth, i, table). 512 - i]") auto

declare destroy_from.simps [simp del]

definition do_destroy_page_table :: "u64 \<Rightarrow> nat \<Rightarrow> ('a mm_state_scheme, unit) kern" where
  "do_destroy_page_table table depth = destroy_from depth 0 table"

definition destroy_page_table :: "u64 \<Rightarrow> ('a mm_state_scheme, unit) kern" where
  "destroy_page_table table = do_destroy_page_table table 2"

text \<open>\<open>va.vpn2 = i; if (va.value >= SPLIT) return;\<close>\<close>

function unset_user_from :: "nat \<Rightarrow> u64 \<Rightarrow> ('a mm_state_scheme, unit) kern" where
  "unset_user_from i table =
     (if i < 512 then
        (if SPLIT \<le> set_field 30 9 (of_nat i) 0 then kreturn ()
         else
           kbind (kgets (\<lambda>s. get_pte table (of_nat i) (mem s))) (\<lambda>pte.
           kthen (if \<not> pte_invalid_or_leaf pte then do_destroy_page_table (subtable_from_pte pte) 1
                  else kreturn ())
          (kthen (kmodify (\<lambda>s. s\<lparr>mem := zero_entry table i (mem s)\<rparr>))
                 (unset_user_from (Suc i) table))))
      else kreturn ())"
  by pat_completeness auto
termination
  by (relation "measure (\<lambda>(i, table). 512 - i)") auto

declare unset_user_from.simps [simp del]

definition unset_user_pages :: "u64 \<Rightarrow> ('a mm_state_scheme, unit) kern" where
  "unset_user_pages table = unset_user_from 0 table"

text \<open>\<open>clear_page\<close> of \<^verbatim>\<open>kernel/mm.h\<close>\<close>

definition clear_page :: "u64 \<Rightarrow> memory \<Rightarrow> memory" where
  "clear_page page m = fold (\<lambda>i m. store64 m (page + 8 * of_nat i) 0) [0..<512] m"

end
