(* ===== verification/Riscv.thy ===== *)
theory Riscv
  imports Paging
begin

section \<open>Control and status registers (riscv.h)\<close>

text \<open>
  The registers that the kernel reads and writes, as fields of the state, with the unions of
  \<^verbatim>\<open>kernel/riscv.h\<close> as 64-bit values and one reader per member. \<open>csrs\<close> and
  \<open>csrc\<close> set and clear bits. \<open>may_page_fault\<close> is the flag of \<^verbatim>\<open>kernel/irq.c\<close>.
\<close>

record cpu_state = mm_state +
  satp :: u64
  sstatus :: u64
  sie :: u64
  sip :: u64
  scause :: u64
  stval :: u64
  may_page_fault :: bool

subsection \<open>struct status\<close>

definition status_sie :: "u64 \<Rightarrow> bool" where "status_sie v \<longleftrightarrow> bit v 1"
definition status_mie :: "u64 \<Rightarrow> bool" where "status_mie v \<longleftrightarrow> bit v 3"
definition status_spie :: "u64 \<Rightarrow> bool" where "status_spie v \<longleftrightarrow> bit v 5"
definition status_ube :: "u64 \<Rightarrow> bool" where "status_ube v \<longleftrightarrow> bit v 6"
definition status_mpie :: "u64 \<Rightarrow> bool" where "status_mpie v \<longleftrightarrow> bit v 7"
definition status_spp :: "u64 \<Rightarrow> u64" where "status_spp v = field 8 1 v"
definition status_vs :: "u64 \<Rightarrow> u64" where "status_vs v = field 9 2 v"
definition status_mpp :: "u64 \<Rightarrow> u64" where "status_mpp v = field 11 2 v"
definition status_fs :: "u64 \<Rightarrow> u64" where "status_fs v = field 13 2 v"
definition status_xs :: "u64 \<Rightarrow> u64" where "status_xs v = field 15 2 v"
definition status_mprv :: "u64 \<Rightarrow> bool" where "status_mprv v \<longleftrightarrow> bit v 17"
definition status_sum :: "u64 \<Rightarrow> bool" where "status_sum v \<longleftrightarrow> bit v 18"
definition status_mxr :: "u64 \<Rightarrow> bool" where "status_mxr v \<longleftrightarrow> bit v 19"
definition status_tvm :: "u64 \<Rightarrow> bool" where "status_tvm v \<longleftrightarrow> bit v 20"
definition status_rw :: "u64 \<Rightarrow> bool" where "status_rw v \<longleftrightarrow> bit v 21"
definition status_tsr :: "u64 \<Rightarrow> bool" where "status_tsr v \<longleftrightarrow> bit v 22"
definition status_uxl :: "u64 \<Rightarrow> u64" where "status_uxl v = field 32 2 v"
definition status_sxl :: "u64 \<Rightarrow> u64" where "status_sxl v = field 34 2 v"
definition status_sbe :: "u64 \<Rightarrow> bool" where "status_sbe v \<longleftrightarrow> bit v 36"
definition status_mbe :: "u64 \<Rightarrow> bool" where "status_mbe v \<longleftrightarrow> bit v 37"
definition status_sd :: "u64 \<Rightarrow> bool" where "status_sd v \<longleftrightarrow> bit v 63"

text \<open>Writing a member: one bit set or cleared.\<close>

definition put_bit :: "nat \<Rightarrow> bool \<Rightarrow> u64 \<Rightarrow> u64" where
  "put_bit n b v = set_field n 1 (of_bool b) v"

lemma bit_put_bit: "n < 64 \<Longrightarrow> bit (put_bit n b v) k \<longleftrightarrow> (if k = n then b else bit v k)"
  by (auto simp: put_bit_def bit_set_field_iff bit_simps le_less_Suc_eq)

subsection \<open>struct interrupt_bitmap and struct cause\<close>

definition ib_ssi :: "u64 \<Rightarrow> bool" where "ib_ssi v \<longleftrightarrow> bit v 1"
definition ib_msi :: "u64 \<Rightarrow> bool" where "ib_msi v \<longleftrightarrow> bit v 3"
definition ib_sti :: "u64 \<Rightarrow> bool" where "ib_sti v \<longleftrightarrow> bit v 5"
definition ib_mti :: "u64 \<Rightarrow> bool" where "ib_mti v \<longleftrightarrow> bit v 7"
definition ib_sei :: "u64 \<Rightarrow> bool" where "ib_sei v \<longleftrightarrow> bit v 9"
definition ib_mei :: "u64 \<Rightarrow> bool" where "ib_mei v \<longleftrightarrow> bit v 11"

definition cause_code :: "u64 \<Rightarrow> u64" where "cause_code v = field 0 63 v"
definition cause_interrupt :: "u64 \<Rightarrow> bool" where "cause_interrupt v \<longleftrightarrow> bit v 63"

definition CAUSE_SSI :: u64 where "CAUSE_SSI = 1"
definition CAUSE_MSI :: u64 where "CAUSE_MSI = 3"
definition CAUSE_STI :: u64 where "CAUSE_STI = 5"
definition CAUSE_MTI :: u64 where "CAUSE_MTI = 7"
definition CAUSE_SEI :: u64 where "CAUSE_SEI = 9"
definition CAUSE_MEI :: u64 where "CAUSE_MEI = 11"

subsection \<open>Access\<close>

definition csrs :: "u64 \<Rightarrow> u64 \<Rightarrow> u64" where
  "csrs value reg = reg OR value"

definition csrc :: "u64 \<Rightarrow> u64 \<Rightarrow> u64" where
  "csrc value reg = reg AND NOT value"

text \<open>\<open>csrns\<close> and \<open>csrnc\<close>: set or clear the one bit of a named member.\<close>

definition csrns :: "nat \<Rightarrow> u64 \<Rightarrow> u64" where
  "csrns n reg = csrs (put_bit n True 0) reg"

definition csrnc :: "nat \<Rightarrow> u64 \<Rightarrow> u64" where
  "csrnc n reg = csrc (put_bit n True 0) reg"

lemma bit_csrns: "n < 64 \<Longrightarrow> bit (csrns n reg) k \<longleftrightarrow> k = n \<or> bit reg k"
  by (auto simp: csrns_def csrs_def bit_or_iff bit_put_bit)

lemma bit_csrnc: "n < 64 \<Longrightarrow> bit (csrnc n reg) k \<longleftrightarrow> k \<noteq> n \<and> bit reg k"
  by (auto simp: csrnc_def csrc_def bit_simps bit_put_bit dest: bit_imp_le_length)

definition read_sstatus :: "('a cpu_state_scheme, u64) kern" where
  "read_sstatus = kgets sstatus"

definition write_sstatus :: "u64 \<Rightarrow> ('a cpu_state_scheme, unit) kern" where
  "write_sstatus v = kmodify (\<lambda>s. s\<lparr>sstatus := v\<rparr>)"

definition read_sie :: "('a cpu_state_scheme, u64) kern" where
  "read_sie = kgets sie"

definition write_sie :: "u64 \<Rightarrow> ('a cpu_state_scheme, unit) kern" where
  "write_sie v = kmodify (\<lambda>s. s\<lparr>sie := v\<rparr>)"

definition read_sip :: "('a cpu_state_scheme, u64) kern" where
  "read_sip = kgets sip"

definition write_sip :: "u64 \<Rightarrow> ('a cpu_state_scheme, unit) kern" where
  "write_sip v = kmodify (\<lambda>s. s\<lparr>sip := v\<rparr>)"

definition read_scause :: "('a cpu_state_scheme, u64) kern" where
  "read_scause = kgets scause"

definition enable_interrupts :: "('a cpu_state_scheme, unit) kern" where
  "enable_interrupts = kmodify (\<lambda>s. s\<lparr>sstatus := csrns 1 (sstatus s)\<rparr>)"

subsection \<open>The active page table\<close>

text \<open>\<open>csrw("satp", satp_from_table(table))\<close>: switch the address space.\<close>

definition write_satp :: "u64 \<Rightarrow> ('a cpu_state_scheme, unit) kern" where
  "write_satp table =
     kbind (kgets early) (\<lambda>e.
       case satp_from_table e table of
         Inl msg \<Rightarrow> kpanic msg
       | Inr v \<Rightarrow> kmodify (\<lambda>s. s\<lparr>satp := v\<rparr>))"

text \<open>
  \<open>establish_identical_mapping\<close> and \<open>switch_to_early_pt\<close> of \<^verbatim>\<open>kernel/mm.c\<close>; the
  address of \<open>early_page_table\<close> is an argument.
\<close>

definition establish_identical_mapping :: "u64 \<Rightarrow> ('a cpu_state_scheme, unit) kern" where
  "establish_identical_mapping early_page_table =
     kthen (map_kernel_pages early_page_table) (write_satp early_page_table)"

definition switch_to_early_pt :: "u64 \<Rightarrow> ('a cpu_state_scheme, unit) kern" where
  "switch_to_early_pt early_page_table = write_satp early_page_table"

end
