(* ===== verification/Thread.thy ===== *)
theory Thread
  imports Riscv
begin

section \<open>Registers and frames of threads (trap.h, trap.S, irq.c)\<close>

text \<open>
  What the copies of user memory and the scheduler share: the symbols, the state of the scheduler, the fields of a
  \<open>struct task\<close>, the stores of \<open>ksetjmp\<close>, and what a page fault of the kernel writes on its way back to the access that
  allows it. A \<open>struct task\<close> has \<open>pid\<close> at offset 0, \<open>parent\<close> at 8, \<open>sched\<close> at 16, the list \<open>vm_areas\<close> at 24, \<open>kernel_stack\<close>
  at 40, \<open>page_table\<close> at 48, \<open>mode\<close> at 56, \<open>kernel_frame\<close> at 64 and \<open>user_frame\<close> at 328; a \<open>struct cpu\<close> has 32 registers
  and the \<open>pc\<close> at 256. The addresses that the linker gives to the code and the globals are the argument \<open>symbols\<close>,
  which also says what \<open>csrr\<close> reads from the registers that the program never writes (\<open>sym_other_csr\<close>).
\<close>

subsection \<open>Registers, symbols, states\<close>

record symbols =
  sym_tasks :: u64
  sym_wait_in :: u64
  sym_wait_out :: u64
  sym_trapframe :: u64
  sym_task_entry :: u64
  sym_setjmp_return :: u64
  sym_page_fault_handler :: u64
  sym_trap_vector :: u64
  sym_fault_context :: "u64 list \<Rightarrow> memory \<Rightarrow> u64 list \<times> u64"
  sym_other_csr :: "string \<Rightarrow> u64"

datatype dispatch = Idle | Resume u64 | Enter_user

datatype 'a progress = Done 'a | Switch dispatch

text \<open>\<open>kernel_regs\<close> are the registers of the kernel code that runs, which \<open>ksetjmp\<close> saves.\<close>

record sched_state = cpu_state +
  next_task_id :: u64
  current_task_node :: u64
  current_task :: u64
  kernel_regs :: "u64 list"
  sepc :: u64

definition REG_SP :: nat where "REG_SP = 2"
definition REG_A0 :: nat where "REG_A0 = 10"
definition REG_A1 :: nat where "REG_A1 = 11"
definition REG_A2 :: nat where "REG_A2 = 12"
definition REG_A7 :: nat where "REG_A7 = 17"

definition cpu_register :: "memory \<Rightarrow> u64 \<Rightarrow> nat \<Rightarrow> u64" where
  "cpu_register m c r = load64 m (c + 8 * of_nat r)"
definition cpu_pc :: "memory \<Rightarrow> u64 \<Rightarrow> u64" where
  "cpu_pc m c = load64 m (c + 256)"
definition set_cpu_register :: "u64 \<Rightarrow> nat \<Rightarrow> u64 \<Rightarrow> memory \<Rightarrow> memory" where
  "set_cpu_register c r v m = store64 m (c + 8 * of_nat r) v"
definition set_cpu_pc :: "u64 \<Rightarrow> u64 \<Rightarrow> memory \<Rightarrow> memory" where
  "set_cpu_pc c v m = store64 m (c + 256) v"

text \<open>A copy of \<open>n\<close> bytes between places that do not overlap; \<open>*dest = *src\<close> for a \<open>struct cpu\<close>.\<close>

definition copy_bytes :: "u64 \<Rightarrow> u64 \<Rightarrow> nat \<Rightarrow> memory \<Rightarrow> memory" where
  "copy_bytes dest src n m = (\<lambda>x. if x \<in> span dest n then m (src + (x - dest)) else m x)"

definition copy_cpu :: "u64 \<Rightarrow> u64 \<Rightarrow> memory \<Rightarrow> memory" where
  "copy_cpu dest src m = copy_bytes dest src 264 m"

definition MODE_USER :: u32 where [simp]: "MODE_USER = 0"
definition MODE_SUPERVISOR :: u32 where [simp]: "MODE_SUPERVISOR = 1"

definition t_pid :: "memory \<Rightarrow> u64 \<Rightarrow> u64" where "t_pid m t = load64 m t"
definition t_parent :: "memory \<Rightarrow> u64 \<Rightarrow> u64" where "t_parent m t = load64 m (t + 8)"
definition t_sched :: "memory \<Rightarrow> u64 \<Rightarrow> u64" where "t_sched m t = load64 m (t + 16)"
definition t_vm_areas :: "u64 \<Rightarrow> u64" where "t_vm_areas t = t + 24"
definition t_kernel_stack :: "memory \<Rightarrow> u64 \<Rightarrow> u64" where "t_kernel_stack m t = load64 m (t + 40)"
definition t_page_table :: "memory \<Rightarrow> u64 \<Rightarrow> u64" where "t_page_table m t = load64 m (t + 48)"
definition t_mode :: "memory \<Rightarrow> u64 \<Rightarrow> u32" where "t_mode m t = load32 m (t + 56)"
definition t_kernel_frame :: "u64 \<Rightarrow> u64" where "t_kernel_frame t = t + 64"
definition t_user_frame :: "u64 \<Rightarrow> u64" where "t_user_frame t = t + 328"

definition set_t_pid :: "u64 \<Rightarrow> u64 \<Rightarrow> memory \<Rightarrow> memory" where "set_t_pid t v m = store64 m t v"
definition set_t_parent :: "u64 \<Rightarrow> u64 \<Rightarrow> memory \<Rightarrow> memory" where "set_t_parent t v m = store64 m (t + 8) v"
definition set_t_sched :: "u64 \<Rightarrow> u64 \<Rightarrow> memory \<Rightarrow> memory" where "set_t_sched t v m = store64 m (t + 16) v"
definition set_t_kernel_stack :: "u64 \<Rightarrow> u64 \<Rightarrow> memory \<Rightarrow> memory" where
  "set_t_kernel_stack t v m = store64 m (t + 40) v"
definition set_t_page_table :: "u64 \<Rightarrow> u64 \<Rightarrow> memory \<Rightarrow> memory" where
  "set_t_page_table t v m = store64 m (t + 48) v"
definition set_t_mode :: "u64 \<Rightarrow> u32 \<Rightarrow> memory \<Rightarrow> memory" where "set_t_mode t v m = store32 m (t + 56) v"

definition write_mem :: "(memory \<Rightarrow> memory) \<Rightarrow> ('a mm_state_scheme, unit) kern" where
  "write_mem f = kmodify (\<lambda>s. s\<lparr>mem := f (mem s)\<rparr>)"

subsection \<open>Context switches (trap.S)\<close>

text \<open>
  The rows of \<open>sd\<close> that save the registers 1 to 31 and a \<open>pc\<close>. \<open>ksetjmp\<close> stores the registers, of which \<open>a0\<close> is its
  argument, and, as \<open>pc\<close>, the address of its second return; it returns 0. \<open>klongjmp\<close> is the dispatch \<open>Resume\<close>.
\<close>

definition store_cpu :: "u64 \<Rightarrow> (nat \<Rightarrow> u64) \<Rightarrow> u64 \<Rightarrow> memory \<Rightarrow> memory" where
  "store_cpu c regs at m = set_cpu_pc c at (fold (\<lambda>r. set_cpu_register c r (regs r)) [1..<32] m)"

definition ksetjmp :: "symbols \<Rightarrow> u64 \<Rightarrow> ('a sched_state_scheme, unit) kern" where
  "ksetjmp G frame = kmodify (\<lambda>s. s\<lparr>mem :=
     store_cpu frame (\<lambda>r. if r = REG_A0 then frame else kernel_regs s ! r) (sym_setjmp_return G) (mem s)\<rparr>)"

definition klongjmp :: "u64 \<Rightarrow> ('a sched_state_scheme, dispatch) kern" where
  "klongjmp frame = kreturn (Resume frame)"

subsection \<open>A page fault of the kernel (trap.S, irq.c)\<close>

text \<open>
  When kernel code faults, the processor leaves the cause and the address in \<open>scause\<close> and \<open>stval\<close>, which the access itself
  does in the model (\<open>access_fault\<close>), the faulting instruction in \<open>sepc\<close>, and in \<open>sstatus\<close> the mode (\<open>spp\<close>) and interrupt
  enable (\<open>spie\<close>) of the interrupted code. \<open>trap_vector\<close> then saves the registers in \<open>trapframe\<close>. Which registers the compiled code
  has, and where it faults, depends on the registers and the memory that it works with: \<open>sym_fault_context\<close>.
\<close>

definition LOAD_FAULT :: u64 where "LOAD_FAULT = 13"
definition STORE_FAULT :: u64 where "STORE_FAULT = 15"

definition access_fault :: "u64 \<Rightarrow> u64 \<Rightarrow> 'a cpu_state_scheme \<Rightarrow> 'a cpu_state_scheme" where
  "access_fault cause addr s = s\<lparr>scause := cause, stval := addr\<rparr>"

definition fault_trap :: "symbols \<Rightarrow> 'a sched_state_scheme \<Rightarrow> 'a sched_state_scheme" where
  "fault_trap G s =
     (let (regs, at) = sym_fault_context G (kernel_regs s) (mem s)
      in s\<lparr>sepc := at, sstatus := put_bit 1 False (put_bit 5 (bit (sstatus s) 1) (set_field 8 1 1 (sstatus s))),
           mem := store_cpu (sym_trapframe G) (\<lambda>r. regs ! r) at (mem s)\<rparr>)"

text \<open>
  \<open>kernel_trap\<close> begins with a copy of the registers to the running task.
\<close>

definition save_kernel_frame :: "u64 \<Rightarrow> 'a sched_state_scheme \<Rightarrow> 'a sched_state_scheme" where
  "save_kernel_frame regs s =
     (if current_task s \<noteq> 0
      then s\<lparr>mem := set_cpu_pc (t_kernel_frame (current_task s)) (sepc s)
              (copy_cpu (t_kernel_frame (current_task s)) regs (mem s))\<rparr>
      else s)"

text \<open>
  While \<open>may_page_fault\<close> is set, \<open>kernel_trap\<close> then calls \<open>klongjmp\<close> on \<open>page_fault_handler\<close>, which holds what \<open>ksetjmp\<close> stored
  there at the beginning of the access: the access goes on at the second return of its \<open>ksetjmp\<close>, in the state after \<open>page_fault\<close>.
\<close>

definition page_fault :: "symbols \<Rightarrow> ('a sched_state_scheme, unit) kern" where
  "page_fault G = kmodify (\<lambda>s. save_kernel_frame (sym_trapframe G) (fault_trap G s))"

subsection \<open>What the stores of a frame change\<close>

lemma copy_cpu_frame: "agree (- span dest 264) m (copy_cpu dest src m)"
  by (simp add: agree_def copy_cpu_def copy_bytes_def)

lemma set_cpu_frame:
  "r < 32 \<Longrightarrow> agree (- span c 264) m (set_cpu_register c r v m)"
  "agree (- span c 264) m (set_cpu_pc c v m)"
proof -
  have sub: "span (c + 8 * of_nat r) 8 \<subseteq> span c 264" if "r < 32"
  proof -
    have "unat (8 * of_nat r :: u64) = 8 * r" using that by (simp add: unat_word_ariths unat_of_nat)
    then show ?thesis using that by (intro span_shift_subset) simp
  qed
  show "r < 32 \<Longrightarrow> agree (- span c 264) m (set_cpu_register c r v m)"
    using sub unfolding set_cpu_register_def by (intro agree_sym [OF agree_store64]) blast
  have "span (c + 256) 8 \<subseteq> span c 264" by (rule span_shift_subset) simp
  then show "agree (- span c 264) m (set_cpu_pc c v m)"
    unfolding set_cpu_pc_def by (intro agree_sym [OF agree_store64]) blast
qed

lemma set_cpu_registers_frame:
  "\<forall>r\<in>set rs. r < 32 \<Longrightarrow> agree (- span c 264) m (fold (\<lambda>r. set_cpu_register c r (f r)) rs m)"
proof (induction rs arbitrary: m)
  case (Cons r rs)
  then have "agree (- span c 264) m (set_cpu_register c r (f r) m)" by (intro set_cpu_frame(1)) simp
  moreover have "agree (- span c 264) (set_cpu_register c r (f r) m)
      (fold (\<lambda>r. set_cpu_register c r (f r)) rs (set_cpu_register c r (f r) m))"
    using Cons.prems by (intro Cons.IH) simp
  ultimately show ?case by (simp add: agree_trans)
qed simp

lemma store_cpu_frame: "agree (- span c 264) m (store_cpu c f at m)"
proof -
  have "\<forall>r\<in>set [1..<32]. r < 32" by simp
  from agree_trans [OF set_cpu_registers_frame [OF this] set_cpu_frame(2)] show ?thesis unfolding store_cpu_def .
qed

text \<open>Stores whose places and values do not depend on the memory; a second time, they change nothing.\<close>

definition overwrites :: "(memory \<Rightarrow> memory) \<Rightarrow> u64 set \<Rightarrow> memory \<Rightarrow> bool" where
  "overwrites w A g \<longleftrightarrow> (\<forall>m x. w m x = (if x \<in> A then g x else m x))"

lemma overwrites_store64: "\<exists>g. overwrites (\<lambda>m. store64 m a v) (span a 8) g"
proof -
  have "store64 m a v x = (if x \<in> span a 8 then store64 (\<lambda>_. 0) a v x else m x)" for m x
    by (auto simp: store64_def store_le_outside intro: store_le_inside_eq)
  then show ?thesis unfolding overwrites_def by blast
qed

lemma overwrites_comp:
  assumes "\<exists>g. overwrites v A g" and "\<exists>g. overwrites w B g"
  shows "\<exists>g. overwrites (\<lambda>m. w (v m)) (A \<union> B) g"
proof -
  obtain g h where "overwrites v A g" "overwrites w B h" using assms by blast
  then have "overwrites (\<lambda>m. w (v m)) (A \<union> B) (\<lambda>x. if x \<in> B then h x else g x)" by (simp add: overwrites_def)
  then show ?thesis by blast
qed

lemma overwrites_registers:
  "\<exists>g. overwrites (fold (\<lambda>r. set_cpu_register c r (f r)) rs) (\<Union>r\<in>set rs. span (c + 8 * of_nat r) 8) g"
proof (induction rs)
  case (Cons r rs)
  have "\<exists>g. overwrites (set_cpu_register c r (f r)) (span (c + 8 * of_nat r) 8) g"
    using overwrites_store64 by (simp add: set_cpu_register_def [abs_def])
  from overwrites_comp [OF this Cons.IH] show ?case by (simp add: comp_def)
qed (simp add: overwrites_def)

lemma store_cpu_overwrites:
  obtains A g where "\<And>m x. store_cpu c f at m x = (if x \<in> A then g x else m x)" and "A \<subseteq> span c 264"
proof -
  let ?A = "(\<Union>r\<in>set [1..<32]. span (c + 8 * of_nat r) 8) \<union> span (c + 256) 8"
  have "\<exists>g. overwrites (\<lambda>m. store_cpu c f at m) ?A g"
    unfolding store_cpu_def set_cpu_pc_def by (intro overwrites_comp overwrites_registers overwrites_store64)
  then obtain g where g: "store_cpu c f at m x = (if x \<in> ?A then g x else m x)" for m x
    unfolding overwrites_def by blast
  have "span (c + 8 * of_nat r) 8 \<subseteq> span c 264" if "r \<in> set [1..<32]" for r
  proof (rule span_shift_subset)
    have "r < 32" using that unfolding set_upt by simp
    then show "unat (8 * of_nat r :: u64) + 8 \<le> 264" by (simp add: unat_word_ariths unat_of_nat)
  qed
  moreover have "span (c + 256) 8 \<subseteq> span c 264" by (rule span_shift_subset) simp
  ultimately have "?A \<subseteq> span c 264" by blast
  from that [OF g this] show thesis .
qed

lemma store_cpu_again:
  assumes "agree (span c 264) (store_cpu c f at m) m'"
  shows "store_cpu c f at m' = m'"
proof -
  obtain A g where g: "\<And>m x. store_cpu c f at m x = (if x \<in> A then g x else m x)" and sub: "A \<subseteq> span c 264"
    by (rule store_cpu_overwrites [where c = c and f = f and at = at]) blast
  have "m' x = g x" if x: "x \<in> A" for x
  proof -
    have "store_cpu c f at m x = m' x" using assms sub x unfolding agree_def by blast
    then show ?thesis using x by (simp add: g)
  qed
  then show ?thesis by (intro ext) (simp add: g)
qed

lemma store_cpu_agree: "agree B m m' \<Longrightarrow> agree B (store_cpu c f at m) (store_cpu c f at m')"
  by (rule store_cpu_overwrites [where c = c and f = f and at = at]) (simp add: agree_def)

lemma ksetjmp_ok:
  "\<exists>m. ksetjmp G frame s = Some (Inr ((), s\<lparr>mem := m\<rparr>)) \<and> agree (- span frame 264) (mem s) m"
proof -
  let ?f = "\<lambda>r. if r = REG_A0 then frame else kernel_regs s ! r"
  from store_cpu_frame [of frame "mem s" ?f] show ?thesis unfolding ksetjmp_def kmodify_apply by blast
qed

end
