(* ===== verification/Paging_Correct.thy ===== *)
theory Paging_Correct
  imports Paging Buddy_Correct
begin

section \<open>Correctness of the page tables\<close>

text \<open>
  What a table maps (\<open>lookup\<close>), when the memory holds a well-formed table (\<open>ptable\<close>), and
  the effect of every operation of \<^verbatim>\<open>kernel/mm.c\<close> on both: the mapped address gets
  its new translation, all others keep theirs, also when a superpage is split on the way,
  and the pages of the tables are exactly those that the allocator has given out.
\<close>

subsection \<open>What a table maps\<close>

text \<open>
  The translation that a table of level \<open>l\<close> describes (2 for a root): the entry with the
  index \<open>vpn l\<close>, then the subtable it points to or, for a leaf, the frame; a superpage
  whose frame is not aligned and an invalid entry translate nothing.
\<close>

definition vpn :: "nat \<Rightarrow> u64 \<Rightarrow> u64" where
  "vpn l va = field (12 + 9 * l) 9 va"

definition leaf_pa :: "nat \<Rightarrow> u64 \<Rightarrow> u64 \<Rightarrow> u64" where
  "leaf_pa l ppn va = set_field 0 (12 + 9 * l) va (pa_from_ppn ppn)"

definition pte_valid :: "u64 \<Rightarrow> bool" where
  "pte_valid e \<longleftrightarrow> pte_flags e AND PTE_VALID \<noteq> 0"

definition leaf_aligned :: "nat \<Rightarrow> u64 \<Rightarrow> bool" where
  "leaf_aligned l e \<longleftrightarrow> take_bit (9 * l) (pte_ppn e) = 0"

definition leaf_result :: "nat \<Rightarrow> u64 \<Rightarrow> u64 \<Rightarrow> (u64 \<times> u32) option" where
  "leaf_result l e va =
     (if pte_valid e \<and> pte_is_leaf (pte_flags e) \<and> leaf_aligned l e
      then Some (leaf_pa l (pte_ppn e) va, pte_flags e) else None)"

primrec lookup_at :: "nat \<Rightarrow> memory \<Rightarrow> u64 \<Rightarrow> u64 \<Rightarrow> (u64 \<times> u32) option" where
  "lookup_at 0 m t va = leaf_result 0 (get_pte t (vpn 0 va) m) va"
| "lookup_at (Suc l) m t va =
     (let e = get_pte t (vpn (Suc l) va) m in
      if pte_invalid_or_leaf e then leaf_result (Suc l) e va
      else lookup_at l m (subtable_from_pte e) va)"

definition lookup :: "memory \<Rightarrow> u64 \<Rightarrow> u64 \<Rightarrow> (u64 \<times> u32) option" where
  "lookup m t va = lookup_at 2 m t va"

lemma vpn_simps: "va_vpn0 va = vpn 0 va" "va_vpn1 va = vpn 1 va" "va_vpn2 va = vpn 2 va"
  by (simp_all add: va_vpn0_def va_vpn1_def va_vpn2_def vpn_def)

lemma vpn_less [simp]: "vpn l va < 512"
  using unat_field_less [of 9 "12 + 9 * l" va] by (simp add: vpn_def word_less_nat_alt)

subsection \<open>Well-formed tables\<close>

text \<open>
  \<open>ptable l m t P\<close>: the memory holds at \<open>t\<close> a table of level \<open>l\<close> whose tables are the
  pages at the addresses \<open>P\<close>, none of which is reached twice; the leaves are aligned.
\<close>

definition entry_ok :: "nat \<Rightarrow> u64 \<Rightarrow> bool" where
  "entry_ok l e \<longleftrightarrow> pte_invalid_or_leaf e \<and> (pte_valid e \<longrightarrow> leaf_aligned l e)"

definition entry_pages :: "(u64 \<Rightarrow> u64 set \<Rightarrow> bool) \<Rightarrow> nat \<Rightarrow> u64 \<Rightarrow> u64 set \<Rightarrow> bool" where
  "entry_pages sub l e S \<longleftrightarrow>
     (if pte_invalid_or_leaf e then entry_ok l e \<and> S = {} else sub (subtable_from_pte e) S)"

primrec ptable :: "nat \<Rightarrow> memory \<Rightarrow> u64 \<Rightarrow> u64 set \<Rightarrow> bool" where
  "ptable 0 m t P \<longleftrightarrow> area_ok 0 t \<and> P = {t} \<and> (\<forall>i<512. entry_ok 0 (get_pte t i m))"
| "ptable (Suc l) m t P \<longleftrightarrow> area_ok 0 t \<and>
     (\<exists>Q. (\<forall>i<512. entry_pages (ptable l m) (Suc l) (get_pte t i m) (Q i)) \<and>
          (\<forall>i<512. t \<notin> Q i) \<and>
          (\<forall>i<512. \<forall>j<512. i \<noteq> j \<longrightarrow> Q i \<inter> Q j = {}) \<and>
          P = insert t (\<Union>i\<in>{..<512}. Q i))"

lemma ptable_SucE:
  assumes "ptable (Suc l) m t P"
  obtains Q where "area_ok 0 t" and "P = insert t (\<Union>i\<in>{..<512}. Q i)"
    and "\<forall>i<512. entry_pages (ptable l m) (Suc l) (get_pte t i m) (Q i)"
    and "\<forall>i<512. t \<notin> Q i" and "\<forall>i<512. \<forall>j<512. i \<noteq> j \<longrightarrow> Q i \<inter> Q j = {}"
  using assms unfolding ptable.simps by blast

definition pages :: "u64 set \<Rightarrow> u64 set" where
  "pages P = (\<Union>t\<in>P. area 0 t)"

lemma pages_Un [simp]: "pages (P \<union> Q) = pages P \<union> pages Q"
  and pages_insert [simp]: "pages (insert t P) = area 0 t \<union> pages P"
  and pages_empty [simp]: "pages {} = {}"
  by (auto simp: pages_def)

lemma pages_mono: "P \<subseteq> Q \<Longrightarrow> pages P \<subseteq> pages Q"
  by (auto simp: pages_def)

lemma pages_Int_empty:
  assumes "\<forall>p\<in>P. area_ok 0 p" and "\<forall>p\<in>Q. area_ok 0 p" and "P \<inter> Q = {}"
  shows "pages P \<inter> pages Q = {}"
  using assms pages_disjoint unfolding pages_def by blast

lemma apart_pages:
  assumes "\<forall>X\<in>set Xs. \<forall>x\<in>X. area_ok 0 x" and "sorted_wrt (\<lambda>X Y. X \<inter> Y = {}) Xs"
  shows "sorted_wrt (\<lambda>A B. A \<inter> B = {}) (map pages Xs)"
  using assms(2) unfolding sorted_wrt_map
  by (rule sorted_wrt_mono_rel [rotated]) (rule pages_Int_empty; use assms(1) in blast)

subsection \<open>Cells of a table\<close>

lemma unat_pte_index: "i < 512 \<Longrightarrow> unat (8 * i :: u64) = 8 * unat i"
  by (subst unat_mult_lem [THEN iffD1]) (simp_all add: word_less_nat_alt)

lemma pte_cell:
  assumes "i < 512"
  shows "span (pte_addr t i) 8 \<subseteq> area 0 t"
  unfolding pte_addr_def area_def
  by (rule span_shift_subset) (use assms in \<open>simp_all add: unat_pte_index word_less_nat_alt\<close>)

lemma pte_cells_disjoint:
  assumes "i < 512" and "j < 512" and "i \<noteq> j"
  shows "span (pte_addr t i) 8 \<inter> span (pte_addr t j) 8 = {}"
proof -
  have "8 \<le> unat (8 * a - 8 * b)" if "a < 512" "b < 512" "a \<noteq> b" for a b :: u64
  proof -
    have "unat a \<noteq> unat b" using that(3) by (simp add: word_unat_eq_iff)
    then show ?thesis
      using that by (simp add: unat_sub_if' unat_pte_index word_less_nat_alt) linarith
  qed
  then show ?thesis
    using assms unfolding pte_addr_def by (intro span_disjoint) simp_all
qed

lemma get_pte_store:
  assumes "i < 512" and "j < 512"
  shows "get_pte t j (store64 m (pte_addr t i) v) = (if i = j then v else get_pte t j m)"
  using assms pte_cells_disjoint [of i j t] by (simp add: get_pte_def mem_simps)

lemma get_pte_agree:
  assumes "agree A m m'" and "area 0 t \<subseteq> A" and "i < 512"
  shows "get_pte t i m = get_pte t i m'"
  unfolding get_pte_def using assms pte_cell [of i t] by (intro agree_load64 [OF assms(1)]) blast

lemma agree_pte_store:
  assumes "i < 512" and "area 0 t \<inter> A = {}"
  shows "agree A m (store64 m (pte_addr t i) v)"
  using assms pte_cell [of i t] by (intro agree_sym [OF agree_store64]) blast

subsection \<open>Frames\<close>

lemma ptable_pages: "ptable l m t P \<Longrightarrow> t \<in> P \<and> (\<forall>p\<in>P. area_ok 0 p)"
proof (induction l arbitrary: t P)
  case 0
  then show ?case by simp
next
  case (Suc l)
  from Suc.prems obtain Q where Q: "area_ok 0 t" "P = insert t (\<Union>i\<in>{..<512}. Q i)"
    "\<forall>i<512. entry_pages (ptable l m) (Suc l) (get_pte t i m) (Q i)"
    "\<forall>i<512. t \<notin> Q i" "\<forall>i<512. \<forall>j<512. i \<noteq> j \<longrightarrow> Q i \<inter> Q j = {}"
    by (rule ptable_SucE)
  have "area_ok 0 p" if "i < 512" "p \<in> Q i" for i p
  proof -
    have "entry_pages (ptable l m) (Suc l) (get_pte t i m) (Q i)" using Q(3) that(1) by blast
    with Suc.IH that(2) show ?thesis by (auto simp: entry_pages_def split: if_splits)
  qed
  with Q(1,2) show ?case by auto
qed

lemma ptable_frame:
  assumes "ptable l m t P" and "agree (pages P) m m'"
  shows "ptable l m' t P" and "lookup_at l m' t va = lookup_at l m t va"
proof -
  have "ptable l m' t P \<and> (\<forall>va. lookup_at l m' t va = lookup_at l m t va)"
    using assms
  proof (induction l arbitrary: t P)
    case 0
    then have "get_pte t i m' = get_pte t i m" if "i < 512" for i
      using that get_pte_agree [of "pages P" m m' t i] by simp
    with 0 show ?case by simp
  next
    case (Suc l)
    from Suc.prems(1) obtain Q where Q: "area_ok 0 t" "P = insert t (\<Union>i\<in>{..<512}. Q i)"
      "\<forall>i<512. entry_pages (ptable l m) (Suc l) (get_pte t i m) (Q i)"
      "\<forall>i<512. t \<notin> Q i" "\<forall>i<512. \<forall>j<512. i \<noteq> j \<longrightarrow> Q i \<inter> Q j = {}"
      by (rule ptable_SucE)
    have e: "get_pte t i m' = get_pte t i m" if "i < 512" for i
      using that Suc.prems(2) Q(2) get_pte_agree [of "pages P" m m' t i] by simp
    have ag: "agree (pages (Q i)) m m'" if "i < 512" for i
      using Suc.prems(2) that Q(2) by (elim agree_mono) (auto simp: pages_def)
    have old: "entry_pages (ptable l m) (Suc l) (get_pte t i m) (Q i)" if "i < 512" for i
      using Q(3) that by blast
    have ep: "entry_pages (ptable l m') (Suc l) (get_pte t i m) (Q i)" if "i < 512" for i
      using old [OF that] Suc.IH [OF _ ag [OF that]] by (auto simp: entry_pages_def)
    have "ptable (Suc l) m' t P"
      unfolding ptable.simps
    proof (intro conjI exI [of _ Q])
      show "\<forall>i<512. entry_pages (ptable l m') (Suc l) (get_pte t i m') (Q i)"
        using ep e by simp
    qed (use Q in blast)+
    moreover have "lookup_at (Suc l) m' t va = lookup_at (Suc l) m t va" for va
      using e [of "vpn (Suc l) va"] old [of "vpn (Suc l) va"] Suc.IH [OF _ ag [of "vpn (Suc l) va"]]
      by (auto simp: Let_def entry_pages_def)
    ultimately show ?case by blast
  qed
  then show "ptable l m' t P" "lookup_at l m' t va = lookup_at l m t va" by simp_all
qed

lemma ptable_unique: "ptable l m t P \<Longrightarrow> ptable l m t P' \<Longrightarrow> P = P'"
proof (induction l arbitrary: t P P')
  case 0
  then show ?case by simp
next
  case (Suc l)
  from Suc.prems(1) obtain Q where Q: "area_ok 0 t" "P = insert t (\<Union>i\<in>{..<512}. Q i)"
    "\<forall>i<512. entry_pages (ptable l m) (Suc l) (get_pte t i m) (Q i)"
    "\<forall>i<512. t \<notin> Q i" "\<forall>i<512. \<forall>j<512. i \<noteq> j \<longrightarrow> Q i \<inter> Q j = {}"
    by (rule ptable_SucE)
  from Suc.prems(2) obtain Q' where Q': "area_ok 0 t" "P' = insert t (\<Union>i\<in>{..<512}. Q' i)"
    "\<forall>i<512. entry_pages (ptable l m) (Suc l) (get_pte t i m) (Q' i)"
    "\<forall>i<512. t \<notin> Q' i" "\<forall>i<512. \<forall>j<512. i \<noteq> j \<longrightarrow> Q' i \<inter> Q' j = {}"
    by (rule ptable_SucE)
  have "Q i = Q' i" if "i < 512" for i
  proof -
    have "entry_pages (ptable l m) (Suc l) (get_pte t i m) (Q i)"
      "entry_pages (ptable l m) (Suc l) (get_pte t i m) (Q' i)" using Q(3) Q'(3) that by blast+
    with Suc.IH show ?thesis by (auto simp: entry_pages_def split: if_splits)
  qed
  with Q(2) Q'(2) show ?case by auto
qed

subsection \<open>Changing one entry\<close>

text \<open>
  The entry \<open>i\<close> of a table changes, or the tables below it; \<open>S\<close> and \<open>S'\<close> are the pages
  of the tables below the entry before and after.
\<close>

lemma ptable_update:
  assumes P: "ptable (Suc l) m t P" and i: "i < 512"
    and S: "entry_pages (ptable l m) (Suc l) (get_pte t i m) S"
    and S': "entry_pages (ptable l m') (Suc l) (get_pte t i m') S'" and new: "S' \<inter> (P - S) = {}"
    and rest: "\<And>j. j < 512 \<Longrightarrow> j \<noteq> i \<Longrightarrow> get_pte t j m' = get_pte t j m"
    and ag: "agree (pages (P - S - {t})) m m'"
  shows "ptable (Suc l) m' t (P - S \<union> S')" and "S \<subseteq> P - {t}"
    and "lookup_at (Suc l) m' t va =
      (if vpn (Suc l) va = i then
         (if pte_invalid_or_leaf (get_pte t i m') then leaf_result (Suc l) (get_pte t i m') va
          else lookup_at l m' (subtable_from_pte (get_pte t i m')) va)
       else lookup_at (Suc l) m t va)"
proof -
  from P obtain Q where Q0: "area_ok 0 t" "P = insert t (\<Union>i\<in>{..<512}. Q i)"
    "\<forall>i<512. entry_pages (ptable l m) (Suc l) (get_pte t i m) (Q i)"
    "\<forall>i<512. t \<notin> Q i" "\<forall>i<512. \<forall>j<512. i \<noteq> j \<longrightarrow> Q i \<inter> Q j = {}"
    by (rule ptable_SucE)
  have Q: "area_ok 0 t" "P = insert t (\<Union>i\<in>{..<512}. Q i)"
    "\<And>i. i < 512 \<Longrightarrow> entry_pages (ptable l m) (Suc l) (get_pte t i m) (Q i)"
    "\<And>i. i < 512 \<Longrightarrow> t \<notin> Q i" "\<And>i j. i < 512 \<Longrightarrow> j < 512 \<Longrightarrow> i \<noteq> j \<Longrightarrow> Q i \<inter> Q j = {}"
    using Q0 by blast+
  have SQ: "S = Q i"
    using S Q(3) [OF i] ptable_unique by (auto simp: entry_pages_def split: if_splits)
  show "S \<subseteq> P - {t}" using Q(2,4) i SQ by auto
  have "Q j \<subseteq> P - S - {t}" if "j < 512" "j \<noteq> i" for j
    using Q(2) Q(4) [OF that(1)] Q(5) [OF that(1) i that(2)] SQ that by auto
  then have ag': "agree (pages (Q j)) m m'" if "j < 512" "j \<noteq> i" for j
    using that by (intro agree_mono [OF ag] pages_mono) auto
  have "entry_pages (ptable l m') (Suc l) (get_pte t j m') ((Q(i := S')) j)" if "j < 512" for j
    using S' Q(3) [OF that] rest [OF that] ptable_frame(1) [OF _ ag' [OF that]]
    by (cases "j = i") (auto simp: entry_pages_def)
  moreover have PS: "P - S \<union> S' = insert t (\<Union>j\<in>{..<512}. (Q(i := S')) j)"
  proof -
    have "P - S = insert t (\<Union>j\<in>{..<512} - {i}. Q j)"
      using Q(2,4,5) SQ i by auto
    moreover have "(\<Union>j\<in>{..<512}. (Q(i := S')) j) = S' \<union> (\<Union>j\<in>{..<512} - {i}. Q j)"
      using i by auto
    ultimately show ?thesis by auto
  qed
  moreover have "t \<notin> (Q(i := S')) j" if "j < 512" for j
    using Q(2) Q(4) [OF that] Q(4) [OF i] new SQ by auto
  moreover have "(Q(i := S')) j \<inter> (Q(i := S')) k = {}" if "j < 512" "k < 512" "j \<noteq> k" for j k
  proof -
    have "S' \<inter> Q k = {}" if "k < 512" "k \<noteq> i" for k
      using Q(2) Q(5) [OF that(1) i that(2)] SQ that new by auto
    with Q(5) [OF that] that show ?thesis
      by (cases "j = i"; cases "k = i") (auto simp: Int_commute)
  qed
  ultimately show "ptable (Suc l) m' t (P - S \<union> S')"
    unfolding ptable.simps using Q(1) by (intro conjI exI [of _ "Q(i := S')"]) auto
  show "lookup_at (Suc l) m' t va =
      (if vpn (Suc l) va = i then
         (if pte_invalid_or_leaf (get_pte t i m') then leaf_result (Suc l) (get_pte t i m') va
          else lookup_at l m' (subtable_from_pte (get_pte t i m')) va)
       else lookup_at (Suc l) m t va)"
  proof (cases "vpn (Suc l) va = i")
    case True
    then show ?thesis by (simp add: Let_def)
  next
    case False
    let ?j = "vpn (Suc l) va"
    have "lookup_at l m' (subtable_from_pte (get_pte t ?j m)) va =
        lookup_at l m (subtable_from_pte (get_pte t ?j m)) va"
      if "\<not> pte_invalid_or_leaf (get_pte t ?j m)"
      using that Q(3) [of ?j] ptable_frame(2) [OF _ ag' [of ?j]] False by (auto simp: entry_pages_def)
    with False rest [of ?j] show ?thesis by (simp add: Let_def)
  qed
qed

lemma ptable_descend:
  assumes P: "ptable (Suc l) m t P" and i: "i < 512" and e: "\<not> pte_invalid_or_leaf (get_pte t i m)"
    and S: "ptable l m (subtable_from_pte (get_pte t i m)) S"
    and S': "ptable l m' (subtable_from_pte (get_pte t i m)) S'" and new: "S' \<inter> (P - S) = {}"
    and ag: "agree (pages (P - S)) m m'"
  shows "ptable (Suc l) m' t (P - S \<union> S')" and "S \<subseteq> P - {t}" and "get_pte t i m' = get_pte t i m"
    and "lookup_at (Suc l) m' t va =
      (if vpn (Suc l) va = i then lookup_at l m' (subtable_from_pte (get_pte t i m)) va
       else lookup_at (Suc l) m t va)"
proof -
  have S1: "entry_pages (ptable l m) (Suc l) (get_pte t i m) S" using e S by (simp add: entry_pages_def)
  have "S \<subseteq> P - {t}"
  proof -
    obtain Q where Q: "area_ok 0 t" "P = insert t (\<Union>i\<in>{..<512}. Q i)"
      "\<forall>i<512. entry_pages (ptable l m) (Suc l) (get_pte t i m) (Q i)"
      "\<forall>i<512. t \<notin> Q i" "\<forall>i<512. \<forall>j<512. i \<noteq> j \<longrightarrow> Q i \<inter> Q j = {}"
      using P by (rule ptable_SucE)
    have "entry_pages (ptable l m) (Suc l) (get_pte t i m) (Q i)" using Q(3) i by blast
    then have "Q i = S" using e S ptable_unique by (auto simp: entry_pages_def)
    with Q(2,4) i show ?thesis by auto
  qed
  moreover have t: "t \<in> P" using ptable_pages [OF P] by blast
  ultimately have "area 0 t \<subseteq> pages (P - S)" by (auto simp: pages_def)
  then have keep: "get_pte t j m' = get_pte t j m" if "j < 512" for j
    using get_pte_agree [OF ag _ that] by simp
  have S2: "entry_pages (ptable l m') (Suc l) (get_pte t i m') S'"
    using e S' keep [OF i] by (simp add: entry_pages_def)
  have ag2: "agree (pages (P - S - {t})) m m'" by (rule agree_mono [OF ag]) (auto simp: pages_def)
  note U = ptable_update [OF P i S1 S2 new keep ag2]
  show "ptable (Suc l) m' t (P - S \<union> S')" "S \<subseteq> P - {t}" "get_pte t i m' = get_pte t i m"
    using U(1,2) keep [OF i] by simp_all
  show "lookup_at (Suc l) m' t va =
      (if vpn (Suc l) va = i then lookup_at l m' (subtable_from_pte (get_pte t i m)) va
       else lookup_at (Suc l) m t va)"
    using U(3) keep [OF i] e by simp
qed

lemma ptable_0_update:
  assumes "ptable 0 m t P" and "i < 512" and "entry_ok 0 (get_pte t i m')"
    and "\<And>j. j < 512 \<Longrightarrow> j \<noteq> i \<Longrightarrow> get_pte t j m' = get_pte t j m"
  shows "ptable 0 m' t P"
    and "lookup_at 0 m' t va =
      (if vpn 0 va = i then leaf_result 0 (get_pte t i m') va else lookup_at 0 m t va)"
proof -
  have "entry_ok 0 (get_pte t j m')" if "j < 512" for j
    using assms that by (cases "j = i") auto
  with assms(1) show "ptable 0 m' t P" by simp
  show "lookup_at 0 m' t va =
      (if vpn 0 va = i then leaf_result 0 (get_pte t i m') va else lookup_at 0 m t va)"
    using assms(4) [of "vpn 0 va"] by simp
qed

subsection \<open>The bits of an entry\<close>

definition new_pte :: "u32 \<Rightarrow> u64 \<Rightarrow> u64 \<Rightarrow> u64" where
  "new_pte flags ppn e = set_field 10 44 ppn (set_field 0 8 (ucast flags) e)"

lemma store64_same: "store64 (store64 m a v) a w = store64 m a w"
proof (rule ext)
  fix x
  show "store64 (store64 m a v) a w x = store64 m a w x"
    by (cases "x \<in> span a 8") (simp_all add: store64_def store_le_outside store_le_inside_eq [of x _ 8])
qed

lemma write_pte_eq:
  "write_pte pte flags ppn s =
     Some (Inr ((), s\<lparr>mem := store64 (mem s) pte (new_pte flags ppn (load64 (mem s) pte))\<rparr>))"
  by (simp add: write_pte_def set_pte_ppn_def set_pte_flags_def store64_same new_pte_def)

lemma pte_flags_new [simp]: "take_bit 8 flags = flags \<Longrightarrow> pte_flags (new_pte flags ppn e) = flags"
proof -
  assume f: "take_bit 8 flags = flags"
  have "pte_flags (new_pte flags ppn e) = take_bit 8 flags"
    unfolding pte_flags_def new_pte_def
    by (rule bit_word_eqI) (auto simp: bit_simps bit_field_iff bit_set_field_iff)
  with f show ?thesis by simp
qed

lemma pte_ppn_new [simp]: "pte_ppn (new_pte flags ppn e) = take_bit 44 ppn"
  unfolding pte_ppn_def new_pte_def by simp

lemma pte_invalid_or_leaf_iff:
  "pte_invalid_or_leaf e \<longleftrightarrow> \<not> pte_valid e \<or> pte_is_leaf (pte_flags e)"
  by (simp add: pte_invalid_or_leaf_def pte_valid_def)

lemma aligned_unat: "aligned n a \<longleftrightarrow> 2 ^ n dvd unat a"
proof -
  have "aligned n a \<longleftrightarrow> unat (take_bit n a) = 0" by (simp add: aligned_def unat_eq_zero)
  also have "\<dots> \<longleftrightarrow> unat a mod 2 ^ n = 0" by (simp add: unsigned_take_bit_eq flip: take_bit_eq_mod)
  finally show ?thesis by (simp add: dvd_eq_mod_eq_0)
qed

text \<open>A pointer entry, and the frame number of a page of the kernel's RAM.\<close>

lemma pa_ram:
  assumes "area_ok 0 t"
  shows "take_bit 44 (pa_ppn (PA_of t)) = drop_bit 12 (PA_of t)" and "pa_off (PA_of t) = 0"
    and "pa_from_ppn (drop_bit 12 (PA_of t)) = PA_of t"
proof -
  have ram: "t \<in> ram" and al: "aligned 12 t"
    using assms self_in_area [of t 0] by (auto simp: area_ok_def)
  have "unat (t - 0x3f00000000) = unat t - 0x3f00000000"
    using ram by (simp add: ram_def unat_sub word_le_nat_alt)
  moreover have le: "0x3f00000000 \<le> unat t" "unat t < 0x3f08000000"
    using ram by (simp_all add: ram_def word_le_nat_alt word_less_nat_alt)
  ultimately have u: "unat (PA_of t) = unat t - 0x3f00000000 + 0x80000000"
    unfolding PA_of_def by (subst unat_add_lem [THEN iffD1]) simp_all
  have "4096 dvd unat t" using al aligned_unat [of 12 t] by simp
  then have "4096 dvd unat (PA_of t)" unfolding u by (intro dvd_add dvd_diff_nat) simp_all
  then have "aligned 12 (PA_of t)" using aligned_unat [of 12] by simp
  moreover have "unat (PA_of t) < 2 ^ 56" using le u by simp
  ultimately have b: "\<not> bit (PA_of t) i" if "i < 12 \<or> 56 \<le> i" for i
    using that unat_less_drop_bit [of "PA_of t" 56] drop_bit_eq_iff [of 56 "PA_of t" 0]
    by (auto simp: aligned_bit)
  have hi: "bit (PA_of t) (12 + n) \<Longrightarrow> n < 44" for n
    using b [of "12 + n"] by (cases "n < 44") auto
  show "take_bit 44 (pa_ppn (PA_of t)) = drop_bit 12 (PA_of t)"
    unfolding pa_ppn_def using hi by (intro bit_word_eqI) (auto simp: bit_simps bit_field_iff)
  show "pa_off (PA_of t) = 0"
    unfolding pa_off_def using b by (intro bit_word_eqI) (auto simp: bit_simps bit_field_iff)
  show "pa_from_ppn (drop_bit 12 (PA_of t)) = PA_of t"
  proof (rule bit_word_eqI)
    fix n
    show "bit (pa_from_ppn (drop_bit 12 (PA_of t))) n = bit (PA_of t) n" if "n < LENGTH(64)"
      using that b [of n] by (cases "n < 12") (auto simp: pa_from_ppn_def bit_simps)
  qed
qed

lemma pointer_entry:
  assumes "area_ok 0 t"
    and e': "e' = new_pte PTE_VALID (pa_ppn (PA_of t)) e"
  shows "\<not> pte_invalid_or_leaf e'" and "subtable_from_pte e' = t"
proof -
  have "take_bit 8 PTE_VALID = PTE_VALID" by simp
  then have "pte_flags e' = PTE_VALID" unfolding e' by (rule pte_flags_new)
  then show "\<not> pte_invalid_or_leaf e'" by (simp add: pte_invalid_or_leaf_def pte_is_leaf_def)
  show "subtable_from_pte e' = t"
    by (simp add: subtable_from_pte_def e' pa_ram [OF assms(1)])
qed

subsection \<open>Splitting a superpage\<close>

definition expanded :: "nat \<Rightarrow> u64 \<Rightarrow> u64 \<Rightarrow> u64" where
  "expanded l e j = set_field (10 + 9 * l) 9 j e"

lemma expanded_flags: "l \<le> 1 \<Longrightarrow> pte_flags (expanded l e j) = pte_flags e"
  by (simp add: pte_flags_def expanded_def)

lemma expanded_ppn:
  assumes "l \<le> 1"
  shows "bit (pte_ppn (expanded l e j)) n \<longleftrightarrow>
    (if 9 * l \<le> n \<and> n < 9 * l + 9 then bit j (n - 9 * l) else bit (pte_ppn e) n)"
  using assms by (auto simp: pte_ppn_def expanded_def bit_field_iff bit_set_field_iff)

lemma expanded_ok:
  assumes "l \<le> 1" and "entry_ok (Suc l) e"
  shows "entry_ok l (expanded l e j)"
    and "leaf_result l (expanded l e (vpn l va)) va = leaf_result (Suc l) e va"
proof -
  have f: "pte_valid (expanded l e j) = pte_valid e"
    "pte_is_leaf (pte_flags (expanded l e j)) = pte_is_leaf (pte_flags e)" for j
    using assms(1) by (simp_all add: pte_valid_def expanded_flags)
  have al: "leaf_aligned l (expanded l e j)" if "leaf_aligned (Suc l) e" for j
  proof -
    have "\<not> bit (pte_ppn e) n" if "n < 9 * Suc l" for n
      using arg_cong [OF \<open>leaf_aligned (Suc l) e\<close> [unfolded leaf_aligned_def], of "\<lambda>v. bit v n"] that
      by (simp add: bit_simps)
    then show ?thesis
      using assms(1) unfolding leaf_aligned_def
      by (intro bit_word_eqI) (auto simp: bit_simps expanded_ppn)
  qed
  with assms f show "entry_ok l (expanded l e j)"
    by (auto simp: entry_ok_def pte_invalid_or_leaf_iff)
  have "leaf_pa l (pte_ppn (expanded l e (vpn l va))) va = leaf_pa (Suc l) (pte_ppn e) va"
    using assms(1) unfolding leaf_pa_def pa_from_ppn_def
    by (intro bit_word_eqI)
      (auto simp: bit_set_field_iff bit_simps expanded_ppn vpn_def bit_field_iff)
  then show "leaf_result l (expanded l e (vpn l va)) va = leaf_result (Suc l) e va"
    using assms f al by (auto simp: leaf_result_def entry_ok_def expanded_flags)
qed

text \<open>A loop that writes all entries of a table.\<close>

lemma fold_entries:
  assumes f: "\<And>i m. f i m = store64 m (pte_addr t (of_nat i)) (v i)" and n: "n \<le> 512"
  shows "agree (- area 0 t) m (fold f [0..<n] m)"
    and "j < 512 \<Longrightarrow> get_pte t (of_nat j) (fold f [0..<n] m) = (if j < n then v j else get_pte t (of_nat j) m)"
proof -
  have lt: "(of_nat i :: u64) < 512 \<longleftrightarrow> i < 512" if "i \<le> 512" for i
    using that by (simp add: word_less_nat_alt unat_of_nat)
  have "agree (- area 0 t) m (fold f [0..<n] m) \<and>
    (\<forall>j<512. get_pte t (of_nat j) (fold f [0..<n] m) = (if j < n then v j else get_pte t (of_nat j) m))"
    using n
  proof (induction n)
    case 0
    then show ?case by simp
  next
    case (Suc n)
    let ?m = "fold f [0..<n] m"
    have n: "(of_nat n :: u64) < 512" using Suc.prems lt by simp
    have "agree (- area 0 t) ?m (store64 ?m (pte_addr t (of_nat n)) (v n))"
      by (rule agree_pte_store [OF n]) simp
    moreover have "(of_nat n = (of_nat j :: u64)) = (n = j)" if "j < 512" for j
      using that Suc.prems by (auto dest: arg_cong [where f = unat] simp: unat_of_nat)
    moreover have "fold f [0..<Suc n] m = store64 ?m (pte_addr t (of_nat n)) (v n)"
      by (rule trans [OF _ f]) simp
    ultimately show ?case
      using Suc n lt by (auto simp: get_pte_store simp del: upt_Suc intro: agree_trans)
  qed
  then show "agree (- area 0 t) m (fold f [0..<n] m)"
    and "j < 512 \<Longrightarrow> get_pte t (of_nat j) (fold f [0..<n] m) = (if j < n then v j else get_pte t (of_nat j) m)"
    by simp_all
qed

subsection \<open>The interface to the page allocator\<close>

text \<open>
  What the page tables (and later the address spaces) rely on: an allocation of one page
  panics when no address is free, otherwise it takes an aligned page out of the free addresses, and
  stores outside the free addresses keep the allocator. Every client allocates a page and
  fills it: \<open>alloc_fill\<close> is that step.
\<close>

locale page_source =
  fixes alloc :: "('s, page) kern"
    and holds :: "u64 set \<Rightarrow> 's \<Rightarrow> bool"
    and memory_of :: "'s \<Rightarrow> memory"
    and with_memory :: "memory \<Rightarrow> 's \<Rightarrow> 's"
    and rest :: "'s \<Rightarrow> 's \<Rightarrow> bool"
  assumes alloc: "holds F s \<Longrightarrow> F = {} \<and> alloc s = Some (Inl ''out of memory'') \<or>
      (\<exists>p t. alloc s = Some (Inr (p, t)) \<and> area_ok 0 (address p) \<and> area 0 (address p) \<subseteq> F \<and>
         holds (F - area 0 (address p)) t \<and> agree (- F) (memory_of s) (memory_of t) \<and> rest s t)"
    and memory_with [simp]: "memory_of (with_memory m s) = m"
    and holds_with: "holds F s \<Longrightarrow> agree F (memory_of s) m \<Longrightarrow> holds F (with_memory m s)"
    and rest_with: "rest s t \<Longrightarrow> rest s (with_memory m t)"
begin

lemma alloc_fill:
  assumes h: "holds F s" and fill: "\<And>a m. agree (- area 0 a) m (fill a m)"
    and call_def: "call = kbind alloc (\<lambda>p. let a = address p in if a = 0 then z
      else kthen (kmodify (\<lambda>s. with_memory (fill a (memory_of s)) s)) (k a))"
  shows "F = {} \<and> call s = Some (Inl ''out of memory'') \<or>
    (\<exists>a t m. call s = k a t \<and> area_ok 0 a \<and> area 0 a \<subseteq> F \<and> holds (F - area 0 a) t \<and>
       memory_of t = fill a m \<and> agree (- F) (memory_of s) (memory_of t) \<and> rest s t)"
  using alloc [OF h]
proof (elim disjE exE conjE)
  assume "F = {}" "alloc s = Some (Inl ''out of memory'')"
  then show ?thesis by (simp add: call_def kbind_Inl)
next
  fix p t
  assume t: "alloc s = Some (Inr (p, t))" "area_ok 0 (address p)" "area 0 (address p) \<subseteq> F"
    "holds (F - area 0 (address p)) t" "agree (- F) (memory_of s) (memory_of t)" "rest s t"
  let ?a = "address p"
  let ?t = "with_memory (fill ?a (memory_of t)) t"
  have "call s = k ?a ?t"
    using t(1) area_ok_nonzero [OF t(2)] by (simp add: call_def kbind_Inr kthen_Inr Let_def)
  moreover have "holds (F - area 0 ?a) ?t"
    by (rule holds_with [OF t(4) agree_mono [OF fill]]) auto
  moreover have "agree (- F) (memory_of s) (memory_of ?t)"
    using t(3,5) agree_mono [OF fill [of ?a "memory_of t"], of "- F"] by (auto intro: agree_trans)
  moreover have "rest s ?t" by (rule rest_with [OF t(6)])
  ultimately show ?thesis using t(2,3) memory_with by blast
qed

end

interpretation buddy: page_source "alloc_pages 0" allocator mem "\<lambda>m s. s\<lparr>mem := m\<rparr>" same_rest
proof
  fix F and s :: "'a mm_state_scheme"
  assume al: "allocator F s"
  show "F = {} \<and> alloc_pages 0 s = Some (Inl ''out of memory'') \<or>
    (\<exists>p t. alloc_pages 0 s = Some (Inr (p, t)) \<and> area_ok 0 (address p) \<and> area 0 (address p) \<subseteq> F \<and>
       allocator (F - area 0 (address p)) t \<and> agree (- F) (mem s) (mem t) \<and> same_rest s t)"
  proof (cases "\<exists>j. 0 \<le> j \<and> j < 10 \<and> buddy_pages s ! j \<noteq> 0")
    case True
    then show ?thesis using alloc_pages_returns [OF al _ True] unfolding allocated_def by auto
  next
    case False
    then show ?thesis using allocator_empty [OF al] alloc_pages_empty [of 0 s] by auto
  qed
next
  fix F m and s :: "'a mm_state_scheme"
  assume "allocator F s" "agree F (mem s) m"
  then show "allocator F (s\<lparr>mem := m\<rparr>)" by (intro allocator_frame [of F s "s\<lparr>mem := m\<rparr>"]) simp_all
next
  fix m and s t :: "'a mm_state_scheme"
  assume "same_rest s t"
  then show "same_rest s (t\<lparr>mem := m\<rparr>)" by (rule same_rest_trans) simp
qed simp

subsection \<open>Tables in a state\<close>

definition pt_inv :: "u64 \<Rightarrow> u64 set \<Rightarrow> u64 set \<Rightarrow> 'a mm_state_scheme \<Rightarrow> bool" where
  "pt_inv root F P s \<longleftrightarrow>
     allocator F s \<and> \<not> early s \<and> ptable 2 (mem s) root P \<and> pages P \<inter> F = {}"

text \<open>
  \<open>pt_step\<close>: the tables have grown from \<open>P\<close> to \<open>P'\<close> with pages of the allocator, which
  now holds \<open>F'\<close>, and nothing else has changed outside the tables and the free memory.
\<close>

definition pt_step ::
  "u64 \<Rightarrow> u64 set \<Rightarrow> u64 set \<Rightarrow> 'a mm_state_scheme \<Rightarrow> u64 set \<Rightarrow> u64 set \<Rightarrow> 'a mm_state_scheme \<Rightarrow> bool" where
  "pt_step root F P s F' P' s' \<longleftrightarrow>
     pt_inv root F' P' s' \<and> P \<subseteq> P' \<and> pages (P' - P) \<subseteq> F \<and> F' = F - pages (P' - P) \<and>
     agree (- (F \<union> pages P)) (mem s) (mem s') \<and> same_rest s s'"

lemma pt_step_refl: "pt_inv root F P s \<Longrightarrow> pt_step root F P s F P s"
  by (simp add: pt_step_def)

lemma same_rest_early: "same_rest s t \<Longrightarrow> early t = early s"
  unfolding same_rest_def by (metis mm_state.select_convs(2) mm_state.surjective mm_state.update_convs(1,3))

lemma pt_step_trans:
  assumes "pt_step root F P s F' P' s'" and "pt_step root F' P' s' F'' P'' s''"
  shows "pt_step root F P s F'' P'' s''"
proof -
  have "P'' - P = (P'' - P') \<union> (P' - P)" using assms by (auto simp: pt_step_def)
  then have pg: "pages (P'' - P) = pages (P'' - P') \<union> pages (P' - P)" by simp
  have "P' = (P' - P) \<union> P" using assms by (auto simp: pt_step_def)
  then have "pages P' = pages (P' - P) \<union> pages P" by (metis pages_Un)
  then have "- (F \<union> pages P) \<subseteq> - (F' \<union> pages P')" using assms by (auto simp: pt_step_def)
  then have "agree (- (F \<union> pages P)) (mem s') (mem s'')"
    using assms(2) by (auto simp: pt_step_def elim: agree_mono)
  with assms pg show ?thesis
    unfolding pt_step_def by (auto intro: agree_trans same_rest_trans)
qed

lemma expand_superpage_ok:
  assumes al: "allocator F s" and e: "entry_ok (Suc l) e" and l: "l \<le> 1"
  shows "F = {} \<and> expand_superpage e l s = Some (Inl ''out of memory'') \<or>
    (\<exists>sub t. expand_superpage e l s = Some (Inr (sub, t)) \<and> area_ok 0 sub \<and> area 0 sub \<subseteq> F \<and>
       allocator (F - area 0 sub) t \<and> agree (- F) (mem s) (mem t) \<and> same_rest s t \<and>
       ptable l (mem t) sub {sub} \<and> (\<forall>va. lookup_at l (mem t) sub va = leaf_result (Suc l) e va))"
proof -
  let ?fill = "\<lambda>a. fold (expand_entry a e l) [0..<512]"
  have ex: "expand_entry a e l i m = store64 m (pte_addr a (of_nat i)) (expanded l e (of_nat i))" for a i m
  proof -
    from l have "l = 0 \<or> l = 1" by auto
    then show ?thesis by (auto simp: expand_entry_def expanded_def Let_def store64_same)
  qed
  have fill: "agree (- area 0 a) m (?fill a m)" for a m
    by (rule fold_entries(1) [OF ex]) simp
  have ent: "get_pte a i (?fill a m) = expanded l e i" if "i < 512" for a i m
    using fold_entries(2) [OF ex, of 512 "unat i"] that by (simp add: word_less_nat_alt)
  have tab: "ptable l (?fill a m) a {a} \<and> (\<forall>va. lookup_at l (?fill a m) a va = leaf_result (Suc l) e va)"
    if "area_ok 0 a" for a m
  proof -
    have eo: "entry_ok l (get_pte a i (?fill a m))" if "i < 512" for i
      using ent [OF that] expanded_ok(1) [OF l e] by simp
    then have inv: "pte_invalid_or_leaf (get_pte a i (?fill a m))" if "i < 512" for i
      using that by (simp add: entry_ok_def)
    have "ptable l (?fill a m) a {a}"
    proof (cases l)
      case 0
      with eo that show ?thesis by simp
    next
      case (Suc k)
      with eo inv that show ?thesis
        by (auto simp: entry_pages_def intro!: exI [of _ "\<lambda>_. {}"])
    qed
    moreover have "lookup_at l (?fill a m) a va = leaf_result (Suc l) e va" for va
      using ent [of "vpn l va"] inv [of "vpn l va"] expanded_ok(2) [OF l e, of va]
      by (cases l) simp_all
    ultimately show ?thesis by blast
  qed
  have "expand_superpage e l = kbind (alloc_pages 0) (\<lambda>p. let a = address p in if a = 0 then kreturn 0
      else kthen (kmodify (\<lambda>s. s\<lparr>mem := ?fill a (mem s)\<rparr>)) (kreturn a))"
    by (simp add: expand_superpage_def)
  from buddy.alloc_fill [OF al fill this]
  show ?thesis
  proof (elim disjE exE conjE)
    fix a t m assume *: "expand_superpage e l s = kreturn a t" "mem t = ?fill a m" "area_ok 0 a"
    with tab [of a m] have "ptable l (mem t) a {a} \<and> (\<forall>va. lookup_at l (mem t) a va = leaf_result (Suc l) e va)"
      by simp
    moreover assume "area 0 a \<subseteq> F" "allocator (F - area 0 a) t" "agree (- F) (mem s) (mem t)" "same_rest s t"
    ultimately show ?thesis using * by (intro disjI2 exI [of _ a] exI [of _ t]) simp
  qed simp
qed

subsection \<open>Linking a fresh subtable\<close>

lemma ptable_link:
  assumes P: "ptable (Suc l) m t P" and i: "i < 512" and e: "pte_invalid_or_leaf (get_pte t i m)"
    and sub: "ptable l m sub {sub}" "sub \<notin> P"
    and same: "\<forall>va. lookup_at l m sub va = leaf_result (Suc l) (get_pte t i m) va"
    and m': "m' = store64 m (pte_addr t i) (new_pte PTE_VALID (pa_ppn (PA_of sub)) (get_pte t i m))"
  shows "ptable (Suc l) m' t (insert sub P)" and "lookup_at (Suc l) m' t va = lookup_at (Suc l) m t va"
    and "\<not> pte_invalid_or_leaf (get_pte t i m')" and "subtable_from_pte (get_pte t i m') = sub"
    and "ptable l m' sub {sub}"
proof -
  have t: "t \<in> P" "\<forall>p\<in>P. area_ok 0 p" and sok: "area_ok 0 sub"
    using ptable_pages [OF P] ptable_pages [OF sub(1)] by auto
  have ag: "agree A m m'" if "area 0 t \<inter> A = {}" for A
    unfolding m' using agree_pte_store [OF i that] .
  have apart: "area 0 t \<inter> area 0 p = {}" if "p \<in> insert sub P" "p \<noteq> t" for p
    using pages_disjoint [of t p] t sok that by auto
  have ne: "sub \<noteq> t" using sub(2) t(1) by blast
  have g: "get_pte t i m' = new_pte PTE_VALID (pa_ppn (PA_of sub)) (get_pte t i m)"
    unfolding m' using i by (simp add: get_pte_store)
  note ptr = pointer_entry [OF sok g]
  show "\<not> pte_invalid_or_leaf (get_pte t i m')" "subtable_from_pte (get_pte t i m') = sub"
    by (rule ptr)+
  have "agree (pages {sub}) m m'" using apart [of sub] ne by (intro ag) simp
  note F = ptable_frame [OF sub(1) this]
  show "ptable l m' sub {sub}" by (rule F(1))
  have eo: "entry_ok (Suc l) (get_pte t i m)"
  proof -
    obtain Q where "\<forall>i<512. entry_pages (ptable l m) (Suc l) (get_pte t i m) (Q i)"
      using P by (rule ptable_SucE)
    with i e show ?thesis by (auto simp: entry_pages_def)
  qed
  have S: "entry_pages (ptable l m) (Suc l) (get_pte t i m) {}"
    using e eo by (simp add: entry_pages_def)
  have S': "entry_pages (ptable l m') (Suc l) (get_pte t i m') {sub}"
    using ptr F(1) by (simp add: entry_pages_def)
  have new: "{sub} \<inter> (P - {}) = {}" using sub(2) by simp
  have rest: "get_pte t j m' = get_pte t j m" if "j < 512" "j \<noteq> i" for j
    unfolding m' using i that by (simp add: get_pte_store)
  have ag': "agree (pages (P - {} - {t})) m m'"
    using apart by (intro ag) (auto simp: pages_def)
  note U = ptable_update [OF P i S S' new rest ag']
  show "ptable (Suc l) m' t (insert sub P)" using U(1) by (simp add: insert_commute)
  show "lookup_at (Suc l) m' t va = lookup_at (Suc l) m t va"
    using U(3) ptr F(2) same e by (auto simp: Let_def)
qed

lemma set_page_1g_pointer:
  assumes "va_off va = 0" and "va_vpn0 va = 0" and "area_ok 0 sub"
  shows "set_page_1g table (set_field 21 9 0 va) (PA_of sub) PTE_VALID s =
    Some (Inr (0, s\<lparr>mem := store64 (mem s) (pte_addr table (vpn 2 va))
       (new_pte PTE_VALID (pa_ppn (PA_of sub)) (get_pte table (vpn 2 va) (mem s)))\<rparr>))"
proof -
  have "check_va_1g (set_field 21 9 0 va) s = Some (Inr (set_field 21 9 0 va, s))"
    using assms by (simp add: check_va_1g_def va_off_def va_vpn0_def va_vpn1_def)
  moreover have "va_vpn2 (set_field 21 9 0 va) = vpn 2 va"
    by (simp add: va_vpn2_def vpn_def)
  ultimately show ?thesis
    using assms(3) by (simp add: set_page_1g_def kbind_Inr kthen_Inr pa_ram pte_is_leaf_def
        write_pte_eq get_pte_def)
qed

lemma ptable_entry_ok:
  assumes "ptable (Suc l) m t P" and "i < 512"
  shows "pte_invalid_or_leaf (get_pte t i m) \<Longrightarrow> entry_ok (Suc l) (get_pte t i m)"
    and "\<not> pte_invalid_or_leaf (get_pte t i m) \<Longrightarrow> \<exists>S. ptable l m (subtable_from_pte (get_pte t i m)) S"
proof -
  obtain Q where Q: "\<forall>i<512. entry_pages (ptable l m) (Suc l) (get_pte t i m) (Q i)"
    using assms(1) by (rule ptable_SucE)
  with assms(2) show "pte_invalid_or_leaf (get_pte t i m) \<Longrightarrow> entry_ok (Suc l) (get_pte t i m)"
    by (auto simp: entry_pages_def)
  show "\<exists>S. ptable l m (subtable_from_pte (get_pte t i m)) S" if "\<not> pte_invalid_or_leaf (get_pte t i m)"
  proof -
    have "entry_pages (ptable l m) (Suc l) (get_pte t i m) (Q i)" using Q assms(2) by blast
    with that show ?thesis by (auto simp: entry_pages_def)
  qed
qed

lemma pt_invD:
  assumes "pt_inv root F P s"
  shows "allocator F s" and "\<not> early s" and "ptable 2 (mem s) root P" and "pages P \<inter> F = {}"
    and "root \<in> P" and "\<forall>p\<in>P. area_ok 0 p"
  using assms ptable_pages unfolding pt_inv_def by blast+

text \<open>A table whose pages are old keeps its contents when a page is taken from the free memory.\<close>

lemma ptable_after_alloc:
  assumes "ptable l m t P" and "pages P \<inter> F = {}" and "agree (- F) m m'"
  shows "ptable l m' t P" and "lookup_at l m' t va = lookup_at l m t va"
    and "i < 512 \<Longrightarrow> get_pte t i m' = get_pte t i m"
proof -
  have ag: "agree (pages P) m m'" using assms(2) by (intro agree_mono [OF assms(3)]) blast
  show "ptable l m' t P" "lookup_at l m' t va = lookup_at l m t va"
    using ptable_frame [OF assms(1) ag] by simp_all
  have "area 0 t \<subseteq> pages P" using ptable_pages [OF assms(1)] by (auto simp: pages_def)
  then show "i < 512 \<Longrightarrow> get_pte t i m' = get_pte t i m"
    using get_pte_agree [OF ag] by simp
qed

lemma ensure_page_2m_ok:
  assumes inv: "pt_inv root F P s" and va: "va_off va = 0" "va_vpn0 va = 0"
  shows "F = {} \<and> ensure_page_2m root va s = Some (Inl ''out of memory'') \<or>
    (\<exists>t F' P'. let e = get_pte root (vpn 2 va) (mem t) in
       ensure_page_2m root va s = Some (Inr (pte_addr (subtable_from_pte e) (vpn 1 va), t)) \<and>
       pt_step root F P s F' P' t \<and> (\<exists>a. P' \<subseteq> insert a P) \<and> \<not> pte_invalid_or_leaf e \<and>
       (\<forall>va. lookup (mem t) root va = lookup (mem s) root va))"
proof -
  note I = pt_invD [OF inv]
  let ?e = "get_pte root (vpn 2 va) (mem s)"
  have tab: "ptable (Suc 1) (mem s) root P" using I(3) by (simp add: numeral_2_eq_2)
  have chk: "check_va_2m va s = Some (Inr (va, s))" using va by (simp add: check_va_2m_def)
  show ?thesis
  proof (cases "pte_invalid_or_leaf ?e")
    case False
    then have "ensure_page_2m root va s = Some (Inr (pte_addr (subtable_from_pte ?e) (vpn 1 va), s))"
      using chk by (simp add: ensure_page_2m_def kbind_Inr vpn_simps)
    with False show ?thesis
      using pt_step_refl [OF inv] by (intro disjI2 exI [of _ s] exI [of _ F] exI [of _ P]) auto
  next
    case True
    have eo: "entry_ok (Suc 1) ?e" by (rule ptable_entry_ok(1) [OF tab _ True]) simp
    from expand_superpage_ok [OF I(1) eo order_refl] show ?thesis
    proof (elim disjE exE conjE)
      assume "F = {}" "expand_superpage ?e 1 s = Some (Inl ''out of memory'')"
      then show ?thesis using True chk by (simp add: ensure_page_2m_def kstep vpn_simps)
    next
      fix sub t
      assume t: "expand_superpage ?e 1 s = Some (Inr (sub, t))" "area_ok 0 sub" "area 0 sub \<subseteq> F"
        "allocator (F - area 0 sub) t" "agree (- F) (mem s) (mem t)" "same_rest s t"
        "ptable 1 (mem t) sub {sub}" "\<forall>va. lookup_at 1 (mem t) sub va = leaf_result (Suc 1) ?e va"
      note A = ptable_after_alloc [OF tab I(4) t(5)]
      let ?u = "t\<lparr>mem := store64 (mem t) (pte_addr root (vpn 2 va))
         (new_pte PTE_VALID (pa_ppn (PA_of sub)) (get_pte root (vpn 2 va) (mem t)))\<rparr>"
      have sP: "sub \<notin> P"
      proof
        assume "sub \<in> P"
        then have "area 0 sub \<subseteq> pages P" by (auto simp: pages_def)
        with t(3) I(4) self_in_area [of sub 0] show False by blast
      qed
      have e': "get_pte root (vpn 2 va) (mem t) = ?e" by (rule A(3)) simp
      note L = ptable_link [OF A(1) vpn_less _ t(7) sP, of 2 va "mem ?u", unfolded e', OF True t(8)]
      have early: "\<not> early t" using same_rest_early [OF t(6)] I(2) by simp
      have "ensure_page_2m root va s = Some (Inr (pte_addr sub (vpn 1 va), ?u))"
        using True chk t(1) area_ok_nonzero [OF t(2)] early set_page_1g_pointer [OF va t(2), of root t]
        by (simp add: ensure_page_2m_def kbind_Inr kthen_Inr vpn_simps PA_def)
      moreover have "pt_step root F P s (F - area 0 sub) (insert sub P) ?u"
      proof -
        have cell: "span (pte_addr root (vpn 2 va)) 8 \<subseteq> pages P"
          using pte_cell [of "vpn 2 va" root] I(5) by (auto simp: pages_def)
        have "allocator (F - area 0 sub) ?u"
          using cell I(4) by (intro allocator_frame [OF t(4)]) (auto intro!: agree_sym [OF agree_store64])
        moreover have "agree (- (F \<union> pages P)) (mem s) (mem ?u)"
          using cell by (intro agree_trans [OF agree_mono [OF t(5)]])
            (auto intro!: agree_sym [OF agree_store64])
        moreover have "same_rest s ?u" using same_rest_trans [OF t(6)] by simp
        moreover have "ptable 2 (mem ?u) root (insert sub P)"
          using L(1) e' by (simp add: numeral_2_eq_2)
        moreover have "pages (insert sub P) \<inter> (F - area 0 sub) = {}" using I(4) by auto
        moreover have "insert sub P - P = {sub}" using sP by auto
        ultimately show ?thesis
          using t(3) early by (auto simp: pt_step_def pt_inv_def)
      qed
      moreover have "lookup (mem ?u) root va' = lookup (mem s) root va'" for va'
        using L(2) [of va'] A(2) [of va'] e' by (simp add: lookup_def numeral_2_eq_2)
      ultimately have "let e = get_pte root (vpn 2 va) (mem ?u) in
          ensure_page_2m root va s = Some (Inr (pte_addr (subtable_from_pte e) (vpn 1 va), ?u)) \<and>
          pt_step root F P s (F - area 0 sub) (insert sub P) ?u \<and>
          (\<exists>a. insert sub P \<subseteq> insert a P) \<and> \<not> pte_invalid_or_leaf e \<and>
          (\<forall>va. lookup (mem ?u) root va = lookup (mem s) root va)"
        using L(3,4) e' by (auto simp: Let_def)
      then show ?thesis by blast
    qed
  qed
qed

subsection \<open>Mapping one page\<close>

text \<open>The path from the root to the level-1 table of an address, once it exists.\<close>

definition sub1_of :: "memory \<Rightarrow> u64 \<Rightarrow> u64 \<Rightarrow> u64" where
  "sub1_of m root va = subtable_from_pte (get_pte root (vpn 2 va) m)"

definition pte1_of :: "memory \<Rightarrow> u64 \<Rightarrow> u64 \<Rightarrow> u64" where
  "pte1_of m root va = get_pte (sub1_of m root va) (vpn 1 va) m"

lemma path_tables:
  assumes "ptable 2 m root P" and "\<not> pte_invalid_or_leaf (get_pte root (vpn 2 va) m)"
  obtains S1 where "ptable 1 m (sub1_of m root va) S1" and "S1 \<subseteq> P - {root}"
proof -
  have tab: "ptable (Suc 1) m root P" using assms(1) by (simp add: numeral_2_eq_2)
  obtain S where S: "ptable 1 m (sub1_of m root va) S"
    using ptable_entry_ok(2) [OF tab vpn_less assms(2)] by (auto simp: sub1_of_def)
  moreover have "S \<subseteq> P - {root}"
    using ptable_descend(2) [OF tab vpn_less assms(2) S [unfolded sub1_of_def] S [unfolded sub1_of_def]]
      ptable_pages [OF S] by (metis Diff_disjoint agree_refl)
  ultimately show thesis by (rule that)
qed

text \<open>
  A change of the level-1 table of \<open>va\<close> and of the tables below it, to the pages \<open>S'\<close>,
  seen from the root.
\<close>

lemma ptable_under_root:
  assumes P: "ptable 2 m root P" and e: "\<not> pte_invalid_or_leaf (get_pte root (vpn 2 va) m)"
    and S: "ptable 1 m (sub1_of m root va) S" and S': "ptable 1 m' (sub1_of m root va) S'"
    and new: "S' \<inter> (P - S) = {}" and ag: "agree (pages (P - S)) m m'"
  shows "ptable 2 m' root (P - S \<union> S')" and "get_pte root (vpn 2 va) m' = get_pte root (vpn 2 va) m"
    and "lookup m' root va' = (if vpn 2 va' = vpn 2 va then lookup_at 1 m' (sub1_of m root va) va'
           else lookup m root va')"
    and "vpn 2 va' = vpn 2 va \<Longrightarrow> lookup m root va' = lookup_at 1 m (sub1_of m root va) va'"
proof -
  have tab: "ptable (Suc 1) m root P" using P by (simp add: numeral_2_eq_2)
  note D = ptable_descend [OF tab vpn_less e S [unfolded sub1_of_def] S' [unfolded sub1_of_def] new ag]
  show "ptable 2 m' root (P - S \<union> S')" "get_pte root (vpn 2 va) m' = get_pte root (vpn 2 va) m"
    using D(1,3) by (simp_all add: numeral_2_eq_2)
  show "lookup m' root va' = (if vpn 2 va' = vpn 2 va then lookup_at 1 m' (sub1_of m root va) va'
      else lookup m root va')"
    using D(4) [of va'] by (simp add: lookup_def sub1_of_def numeral_2_eq_2)
  show "lookup m root va' = lookup_at 1 m (sub1_of m root va) va'" if "vpn 2 va' = vpn 2 va"
    using e that by (simp add: lookup_def sub1_of_def numeral_2_eq_2 Let_def)
qed

lemma pages_cell: "t \<in> P \<Longrightarrow> i < 512 \<Longrightarrow> span (pte_addr t i) 8 \<subseteq> pages P"
  using pte_cell [of i t] by (auto simp: pages_def)

lemma va_vpn_eq_iff:
  "va_vpn va' = va_vpn va \<longleftrightarrow> vpn 2 va' = vpn 2 va \<and> vpn 1 va' = vpn 1 va \<and> vpn 0 va' = vpn 0 va"
proof
  assume eq: "va_vpn va' = va_vpn va"
  have b: "bit va' (12 + n) = bit va (12 + n)" if "n < 27" for n
    using arg_cong [OF eq, of "\<lambda>v. bit v n"] that by (simp add: va_vpn_def bit_field_iff)
  have "vpn l va' = vpn l va" if "l \<le> 2" for l
    unfolding vpn_def using that b [of "9 * l + _"]
    by (intro bit_word_eqI) (auto simp: bit_field_iff add.assoc)
  then show "vpn 2 va' = vpn 2 va \<and> vpn 1 va' = vpn 1 va \<and> vpn 0 va' = vpn 0 va" by simp
next
  assume eq: "vpn 2 va' = vpn 2 va \<and> vpn 1 va' = vpn 1 va \<and> vpn 0 va' = vpn 0 va"
  have b: "bit va' (12 + 9 * l + n) = bit va (12 + 9 * l + n)" if "vpn l va' = vpn l va" "n < 9" for l n
    using arg_cong [OF that(1), of "\<lambda>v. bit v n"] that(2) by (simp add: vpn_def bit_field_iff)
  show "va_vpn va' = va_vpn va"
    unfolding va_vpn_def
  proof (rule bit_word_eqI)
    fix n
    have "bit va' (12 + n) = bit va (12 + n)" if "n < 27"
    proof -
      consider "n < 9" | "9 \<le> n" "n < 18" | "18 \<le> n" using that by linarith
      then show ?thesis
        using that b [of 0 n] b [of 1 "n - 9"] b [of 2 "n - 18"] eq by cases auto
    qed
    then show "bit (field 12 27 va') n = bit (field 12 27 va) n" by (auto simp: bit_field_iff)
  qed
qed

text \<open>A change of the level-0 entry of \<open>va\<close>.\<close>

lemma level0_store_ok:
  assumes inv: "pt_inv root F P s"
    and e2: "\<not> pte_invalid_or_leaf (get_pte root (vpn 2 va) (mem s))"
    and e1: "\<not> pte_invalid_or_leaf (pte1_of (mem s) root va)"
    and new: "entry_ok 0 e"
  defines "sub0 \<equiv> subtable_from_pte (pte1_of (mem s) root va)"
  defines "t \<equiv> s\<lparr>mem := store64 (mem s) (pte_addr sub0 (vpn 0 va)) e\<rparr>"
  shows "pt_step root F P s F P t"
    and "lookup (mem t) root va' =
       (if va_vpn va' = va_vpn va then leaf_result 0 e va' else lookup (mem s) root va')"
proof -
  note I = pt_invD [OF inv]
  let ?sub1 = "sub1_of (mem s) root va"
  obtain S1 where S1: "ptable 1 (mem s) ?sub1 S1" "S1 \<subseteq> P - {root}"
    using I(3) e2 by (rule path_tables)
  have tab1: "ptable (Suc 0) (mem s) ?sub1 S1" using S1(1) by simp
  have e1': "\<not> pte_invalid_or_leaf (get_pte ?sub1 (vpn 1 va) (mem s))"
    using e1 by (simp add: pte1_of_def)
  obtain S0 where "ptable 0 (mem s) sub0 S0"
    using ptable_entry_ok(2) [OF tab1 vpn_less e1'] unfolding sub0_def pte1_of_def by blast
  then have S0: "ptable 0 (mem s) sub0 {sub0}" by simp
  have s0': "subtable_from_pte (get_pte ?sub1 (vpn 1 va) (mem s)) = sub0"
    by (simp add: sub0_def pte1_of_def)
  have sub: "{sub0} \<subseteq> S1 - {?sub1}"
    using ptable_descend(2) [OF tab1 vpn_less e1', unfolded s0', OF S0 S0] by simp
  have ok: "\<forall>p\<in>P. area_ok 0 p" "area_ok 0 sub0" using I(6) S0 by simp_all
  have g: "get_pte sub0 j (mem t) = (if vpn 0 va = j then e else get_pte sub0 j (mem s))"
    if "j < 512" for j
    using that by (simp add: t_def get_pte_store)
  have "entry_ok 0 (get_pte sub0 (vpn 0 va) (mem t))" using g [of "vpn 0 va"] new by simp
  from ptable_0_update [OF S0 vpn_less this] g
  have T0: "ptable 0 (mem t) sub0 {sub0}"
    "lookup_at 0 (mem t) sub0 va' = (if vpn 0 va' = vpn 0 va then leaf_result 0 e va'
       else lookup_at 0 (mem s) sub0 va')" for va' by auto
  have ag: "agree A (mem s) (mem t)" if "area 0 sub0 \<inter> A = {}" for A
    using agree_pte_store [OF vpn_less that] by (simp add: t_def)
  have sep: "area 0 sub0 \<inter> pages (X - {sub0}) = {}" if "X \<subseteq> P" for X
    using pages_Int_empty [of "{sub0}" "X - {sub0}"] ok that by auto
  have "agree (pages (S1 - {sub0})) (mem s) (mem t)"
    using S1(2) by (intro ag sep) auto
  note D1 = ptable_descend [OF tab1 vpn_less e1', unfolded s0', OF S0 T0(1) _ this]
  have S1e: "S1 - {sub0} \<union> {sub0} = S1" using sub by auto
  have T1: "ptable 1 (mem t) ?sub1 S1" using D1(1) unfolding S1e by simp
  have Pe: "P - S1 \<union> S1 = P" using S1(2) by auto
  have "agree (pages (P - S1)) (mem s) (mem t)"
    using sub by (intro ag) (use sep [of P] in \<open>auto simp: pages_def\<close>)
  note D2 = ptable_under_root [OF I(3) e2 S1(1) T1 _ this]
  have T2: "ptable 2 (mem t) root P" using D2(1) unfolding Pe by simp
  have "sub0 \<in> P" using sub S1(2) by auto
  then have cell: "span (pte_addr sub0 (vpn 0 va)) 8 \<subseteq> pages P" by (intro pages_cell) simp_all
  have "allocator F t"
    using cell I(4) unfolding t_def
    by (intro allocator_frame [OF I(1)]) (auto intro!: agree_sym [OF agree_store64])
  moreover have "agree (- (F \<union> pages P)) (mem s) (mem t)"
    using cell unfolding t_def by (auto intro!: agree_sym [OF agree_store64])
  moreover have "same_rest s t" "early t = early s" by (simp_all add: t_def)
  ultimately show "pt_step root F P s F P t"
    using I(2,4) T2 by (simp add: pt_step_def pt_inv_def)
  show "lookup (mem t) root va' =
       (if va_vpn va' = va_vpn va then leaf_result 0 e va' else lookup (mem s) root va')"
    using D2(3) [of va'] D2(4) [of va'] D1(4) [of va'] T0(2) [of va'] e1' s0'
    by (auto simp: Let_def va_vpn_eq_iff)
qed

text \<open>The last step of \<open>set_page\<close>.\<close>

lemma finish_ok:
  assumes inv: "pt_inv root F P s"
    and e2: "\<not> pte_invalid_or_leaf (get_pte root (vpn 2 va) (mem s))"
    and e1: "\<not> pte_invalid_or_leaf (pte1_of (mem s) root va)"
    and flags: "take_bit 8 flags = flags" "flags AND PTE_VALID \<noteq> 0" "pte_is_leaf flags"
  defines "sub0 \<equiv> subtable_from_pte (pte1_of (mem s) root va)"
  shows "\<exists>t. write_pte (pte_addr sub0 (vpn 0 va)) flags (pa_ppn pa) s = Some (Inr ((), t)) \<and>
    pt_step root F P s F P t \<and>
    (\<forall>va'. lookup (mem t) root va' =
       (if va_vpn va' = va_vpn va then Some (leaf_pa 0 (pa_ppn pa) va', flags)
        else lookup (mem s) root va'))"
proof -
  let ?new = "new_pte flags (pa_ppn pa) (get_pte sub0 (vpn 0 va) (mem s))"
  have valid: "pte_valid ?new" "pte_flags ?new = flags"
    using flags by (simp_all add: pte_valid_def)
  then have "entry_ok 0 ?new"
    using flags(3) by (simp add: entry_ok_def pte_invalid_or_leaf_iff leaf_aligned_def)
  note L = level0_store_ok [OF inv e2 e1 this, folded sub0_def]
  have "leaf_result 0 ?new va' = Some (leaf_pa 0 (pa_ppn pa) va', flags)" for va'
    using valid flags(3) by (simp add: leaf_result_def leaf_aligned_def pa_ppn_def)
  then show ?thesis using L by (simp add: write_pte_eq get_pte_def)
qed

lemma set_page_2m_pointer:
  assumes va: "va_off va = 0" "va_vpn0 va = 0" and sub: "area_ok 0 sub"
    and e2: "\<not> pte_invalid_or_leaf (get_pte root (vpn 2 va) (mem s))"
    and nz: "pte_addr (sub1_of (mem s) root va) (vpn 1 va) \<noteq> 0"
  shows "set_page_2m root va (PA_of sub) PTE_VALID s =
    Some (Inr (0, s\<lparr>mem := store64 (mem s) (pte_addr (sub1_of (mem s) root va) (vpn 1 va))
       (new_pte PTE_VALID (pa_ppn (PA_of sub)) (pte1_of (mem s) root va))\<rparr>))"
proof -
  have "check_va_2m va s = Some (Inr (va, s))" using va by (simp add: check_va_2m_def)
  then have "ensure_page_2m root va s = Some (Inr (pte_addr (sub1_of (mem s) root va) (vpn 1 va), s))"
    using e2 by (simp add: ensure_page_2m_def kbind_Inr vpn_simps sub1_of_def)
  then show ?thesis
    using nz sub by (simp add: set_page_2m_def kbind_Inr kthen_Inr pa_ram pte_is_leaf_def
        write_pte_eq get_pte_def pte1_of_def)
qed

lemma pte_addr_nonzero:
  assumes "area_ok 0 t" and "i < 512"
  shows "pte_addr t i \<noteq> 0"
proof -
  have "pte_addr t i \<in> area 0 t"
    using pte_cell [OF assms(2), of t] by (auto simp: mem_notin_span subset_iff)
  then have "pte_addr t i \<in> ram" using assms(1) by (auto simp: area_ok_def)
  then show ?thesis by (auto simp: ram_def)
qed

text \<open>The second level: the superpage of the level-1 entry is split.\<close>

lemma split_2m_ok:
  assumes inv: "pt_inv root F P s" and va: "va_off va = 0" "va_vpn0 va = 0"
    and e2: "\<not> pte_invalid_or_leaf (get_pte root (vpn 2 va) (mem s))"
    and e1: "pte_invalid_or_leaf (pte1_of (mem s) root va)"
  shows "F = {} \<and> expand_superpage (pte1_of (mem s) root va) 0 s = Some (Inl ''out of memory'') \<or>
    (\<exists>sub t u F' P'. expand_superpage (pte1_of (mem s) root va) 0 s = Some (Inr (sub, t)) \<and>
       sub \<noteq> 0 \<and> \<not> early t \<and> set_page_2m root va (PA_of sub) PTE_VALID t = Some (Inr (0, u)) \<and>
       pt_step root F P s F' P' u \<and> P' = insert sub P \<and> (\<forall>va. lookup (mem u) root va = lookup (mem s) root va) \<and>
       \<not> pte_invalid_or_leaf (get_pte root (vpn 2 va) (mem u)) \<and>
       \<not> pte_invalid_or_leaf (pte1_of (mem u) root va) \<and> subtable_from_pte (pte1_of (mem u) root va) = sub)"
proof -
  note I = pt_invD [OF inv]
  let ?sub1 = "sub1_of (mem s) root va"
  obtain S1 where S1: "ptable 1 (mem s) ?sub1 S1" "S1 \<subseteq> P - {root}"
    using I(3) e2 by (rule path_tables)
  have tab1: "ptable (Suc 0) (mem s) ?sub1 S1" using S1(1) by simp
  have e1': "pte_invalid_or_leaf (get_pte ?sub1 (vpn 1 va) (mem s))"
    using e1 by (simp add: pte1_of_def)
  have eo: "entry_ok (Suc 0) (pte1_of (mem s) root va)"
    using ptable_entry_ok(1) [OF tab1 vpn_less e1'] by (simp add: pte1_of_def)
  from expand_superpage_ok [OF I(1) eo zero_le_one] show ?thesis
  proof (elim disjE exE conjE)
    fix sub t
    assume t: "expand_superpage (pte1_of (mem s) root va) 0 s = Some (Inr (sub, t))"
      "area_ok 0 sub" "area 0 sub \<subseteq> F" "allocator (F - area 0 sub) t" "agree (- F) (mem s) (mem t)"
      "same_rest s t" "ptable 0 (mem t) sub {sub}"
      "\<forall>va'. lookup_at 0 (mem t) sub va' = leaf_result (Suc 0) (pte1_of (mem s) root va) va'"
    note A = ptable_after_alloc [OF I(3,4) t(5)]
    have "pages S1 \<inter> F = {}" using I(4) S1(2) by (auto simp: pages_def)
    note A1 = ptable_after_alloc [OF tab1 this t(5)]
    have e2t: "get_pte root (vpn 2 va) (mem t) = get_pte root (vpn 2 va) (mem s)"
      by (rule A(3)) simp
    then have sub1t: "sub1_of (mem t) root va = ?sub1" by (simp add: sub1_of_def)
    have e1t: "get_pte ?sub1 (vpn 1 va) (mem t) = pte1_of (mem s) root va"
      unfolding pte1_of_def by (rule A1(3)) simp
    then have pte1t: "pte1_of (mem t) root va = pte1_of (mem s) root va"
      by (simp add: pte1_of_def sub1t)
    have sP: "sub \<notin> P"
    proof
      assume "sub \<in> P"
      then have "area 0 sub \<subseteq> pages P" by (auto simp: pages_def)
      with t(3) I(4) self_in_area [of sub 0] show False by blast
    qed
    have s1P: "?sub1 \<in> P" using S1 ptable_pages [OF S1(1)] by auto
    have s1ok: "area_ok 0 ?sub1" using I(6) s1P by blast
    let ?u = "t\<lparr>mem := store64 (mem t) (pte_addr ?sub1 (vpn 1 va))
       (new_pte PTE_VALID (pa_ppn (PA_of sub)) (pte1_of (mem s) root va))\<rparr>"
    have set2: "set_page_2m root va (PA_of sub) PTE_VALID t = Some (Inr (0, ?u))"
      using set_page_2m_pointer [OF va t(2), of root t] e2 e2t pte_addr_nonzero [OF s1ok]
      by (simp add: sub1t pte1t)
    have snotS1: "sub \<notin> S1" using sP S1(2) by auto
    have "mem ?u = store64 (mem t) (pte_addr ?sub1 (vpn 1 va))
       (new_pte PTE_VALID (pa_ppn (PA_of sub)) (get_pte ?sub1 (vpn 1 va) (mem t)))"
      unfolding e1t by simp
    note L = ptable_link [OF A1(1) vpn_less _ t(7) snotS1 _ this, unfolded e1t, OF e1 t(8)]
    have "pages {?sub1} \<inter> pages (P - S1) = {}"
      using I(6) s1P ptable_pages [OF S1(1)] by (intro pages_Int_empty) auto
    then have "agree (pages (P - S1)) (mem t) (mem ?u)"
      using agree_pte_store [of "vpn 1 va" ?sub1 "pages (P - S1)" "mem t"] by simp
    moreover have "insert sub S1 \<inter> (P - S1) = {}" using sP by auto
    moreover have "ptable 1 (mem ?u) (sub1_of (mem t) root va) (insert sub S1)"
      using L(1) sub1t by simp
    moreover have "ptable 1 (mem t) (sub1_of (mem t) root va) S1" using A1(1) sub1t by simp
    moreover have "\<not> pte_invalid_or_leaf (get_pte root (vpn 2 va) (mem t))" using e2 e2t by simp
    ultimately have U: "ptable 2 (mem ?u) root (P - S1 \<union> insert sub S1)"
      "get_pte root (vpn 2 va) (mem ?u) = get_pte root (vpn 2 va) (mem s)"
      "lookup (mem ?u) root va' = (if vpn 2 va' = vpn 2 va then lookup_at 1 (mem ?u) ?sub1 va'
         else lookup (mem t) root va')"
      "vpn 2 va' = vpn 2 va \<Longrightarrow> lookup (mem t) root va' = lookup_at 1 (mem t) ?sub1 va'" for va'
      using ptable_under_root [OF A(1), of va S1 "mem ?u" "insert sub S1"] e2t sub1t by auto
    have Pe: "P - S1 \<union> insert sub S1 = insert sub P" using S1(2) by auto
    have cell: "span (pte_addr ?sub1 (vpn 1 va)) 8 \<subseteq> pages P" using s1P by (rule pages_cell) simp
    have "allocator (F - area 0 sub) ?u"
      using cell I(4) by (intro allocator_frame [OF t(4)]) (auto intro!: agree_sym [OF agree_store64])
    moreover have "agree (- (F \<union> pages P)) (mem s) (mem ?u)"
      using cell by (intro agree_trans [OF agree_mono [OF t(5)]]) (auto intro!: agree_sym [OF agree_store64])
    moreover have "same_rest s ?u" using same_rest_trans [OF t(6)] by simp
    moreover have "pages (insert sub P) \<inter> (F - area 0 sub) = {}" using I(4) by auto
    moreover have "insert sub P - P = {sub}" using sP by auto
    moreover have early: "\<not> early t" using same_rest_early [OF t(6)] I(2) by simp
    ultimately have step: "pt_step root F P s (F - area 0 sub) (insert sub P) ?u"
      using t(3) U(1) unfolding Pe by (auto simp: pt_step_def pt_inv_def)
    have "lookup (mem ?u) root va' = lookup (mem s) root va'" for va'
    proof -
      have "lookup (mem t) root va' = lookup (mem s) root va'"
        using A(2) [of va'] by (simp add: lookup_def)
      then show ?thesis using U(3) [of va'] U(4) [of va'] L(2) [of va'] by (simp add: pte1_of_def)
    qed
    moreover have "sub1_of (mem ?u) root va = ?sub1" using U(2) by (simp add: sub1_of_def)
    then have "\<not> pte_invalid_or_leaf (pte1_of (mem ?u) root va)"
      "subtable_from_pte (pte1_of (mem ?u) root va) = sub"
      using L(3,4) by (simp_all add: pte1_of_def)
    moreover have "\<not> pte_invalid_or_leaf (get_pte root (vpn 2 va) (mem ?u))" using U(2) e2 by simp
    ultimately show ?thesis
      using t(1) area_ok_nonzero [OF t(2)] early set2 step by blast
  qed simp
qed

lemma set_page_ok:
  assumes inv: "pt_inv root F P s" and al: "va_off va = 0" "pa_off pa = 0"
    and flags: "take_bit 8 flags = flags" "flags AND PTE_VALID \<noteq> 0" "pte_is_leaf flags"
  shows "(\<exists>a. F \<subseteq> area 0 a) \<and> set_page root va pa flags s = Some (Inl ''out of memory'') \<or>
    (\<exists>t F' P'. set_page root va pa flags s = Some (Inr (0, t)) \<and> pt_step root F P s F' P' t \<and>
       (\<exists>a b. P' \<subseteq> insert a (insert b P)) \<and>
       (\<forall>va'. lookup (mem t) root va' =
          (if va_vpn va' = va_vpn va then Some (leaf_pa 0 (pa_ppn pa) va', flags)
           else lookup (mem s) root va')))"
proof -
  let ?va = "set_field 12 9 0 va"
  have va: "va_off ?va = 0" "va_vpn0 ?va = 0" "vpn 2 ?va = vpn 2 va" "vpn 1 ?va = vpn 1 va"
    using al(1) by (simp_all add: va_off_def va_vpn0_def vpn_def)
  have path: "sub1_of m root ?va = sub1_of m root va" "pte1_of m root ?va = pte1_of m root va" for m
    using va by (simp_all add: sub1_of_def pte1_of_def)
  from ensure_page_2m_ok [OF inv va(1,2)] show ?thesis
  proof (elim disjE exE)
    assume "F = {} \<and> ensure_page_2m root ?va s = Some (Inl ''out of memory'')"
    then show ?thesis using al by (simp add: set_page_def kstep Let_def)
  next
    fix t F1 P1
    assume "let e = get_pte root (vpn 2 ?va) (mem t) in
       ensure_page_2m root ?va s = Some (Inr (pte_addr (subtable_from_pte e) (vpn 1 ?va), t)) \<and>
       pt_step root F P s F1 P1 t \<and> (\<exists>a. P1 \<subseteq> insert a P) \<and> \<not> pte_invalid_or_leaf e \<and>
       (\<forall>va. lookup (mem t) root va = lookup (mem s) root va)"
    then have t: "ensure_page_2m root ?va s = Some (Inr (pte_addr (sub1_of (mem t) root va) (vpn 1 va), t))"
      "pt_step root F P s F1 P1 t" "\<not> pte_invalid_or_leaf (get_pte root (vpn 2 va) (mem t))"
      and one: "\<exists>a. P1 \<subseteq> insert a P" and same: "\<forall>va. lookup (mem t) root va = lookup (mem s) root va"
      using va by (simp_all add: Let_def sub1_of_def)
    have inv1: "pt_inv root F1 P1 t" using t(2) unfolding pt_step_def by blast
    note I = pt_invD [OF inv1]
    obtain S1 where S1: "ptable 1 (mem t) (sub1_of (mem t) root va) S1" "S1 \<subseteq> P1 - {root}"
      using I(3) t(3) by (rule path_tables)
    then have "area_ok 0 (sub1_of (mem t) root va)" using ptable_pages [OF S1(1)] by blast
    note nz = pte_addr_nonzero [OF this, of "vpn 1 va"]
    let ?e1 = "pte1_of (mem t) root va"
    have e1: "load64 (mem t) (pte_addr (sub1_of (mem t) root va) (vpn 1 va)) = ?e1"
      by (simp add: pte1_of_def get_pte_def)
    show ?thesis
    proof (cases "pte_invalid_or_leaf ?e1")
      case False
      from finish_ok [OF inv1 t(3) False flags, of pa] obtain u where
        u: "write_pte (pte_addr (subtable_from_pte ?e1) (vpn 0 va)) flags (pa_ppn pa) t = Some (Inr ((), u))"
          "pt_step root F1 P1 t F1 P1 u"
          "\<forall>va'. lookup (mem u) root va' = (if va_vpn va' = va_vpn va
            then Some (leaf_pa 0 (pa_ppn pa) va', flags) else lookup (mem t) root va')" by blast
      have "set_page root va pa flags s = Some (Inr (0, u))"
        using al t(1) nz e1 False u(1) by (simp add: set_page_def kbind_Inr kthen_Inr Let_def vpn_simps)
      moreover have "\<exists>a b. P1 \<subseteq> insert a (insert b P)" using one by blast
      ultimately show ?thesis
        using pt_step_trans [OF t(2) u(2)] u(3) same by auto
    next
      case True
      have e2': "\<not> pte_invalid_or_leaf (get_pte root (vpn 2 ?va) (mem t))" using t(3) va by simp
      have True': "pte_invalid_or_leaf (pte1_of (mem t) root ?va)" using True path by simp
      from split_2m_ok [OF inv1 va(1,2) e2' True'] show ?thesis
      proof (elim disjE exE conjE)
        assume F1: "F1 = {}" and "expand_superpage (pte1_of (mem t) root ?va) 0 t = Some (Inl ''out of memory'')"
        obtain a where "P1 \<subseteq> insert a P" using one ..
        then have "pages (P1 - P) \<subseteq> pages {a}" by (intro pages_mono) auto
        then have "F \<subseteq> area 0 a" using t(2) F1 unfolding pt_step_def by auto
        then have "\<exists>a. F \<subseteq> area 0 a" by blast
        then show ?thesis
          using al t(1) nz e1 True path \<open>expand_superpage _ 0 t = _\<close>
          by (simp add: set_page_def kstep Let_def)
      next
        fix sub u w F2 P2
        assume u: "expand_superpage (pte1_of (mem t) root ?va) 0 t = Some (Inr (sub, u))" "sub \<noteq> 0"
          "\<not> early u" "set_page_2m root ?va (PA_of sub) PTE_VALID u = Some (Inr (0, w))"
          "pt_step root F1 P1 t F2 P2 w" "P2 = insert sub P1" "\<forall>va. lookup (mem w) root va = lookup (mem t) root va"
          "\<not> pte_invalid_or_leaf (get_pte root (vpn 2 ?va) (mem w))"
          "\<not> pte_invalid_or_leaf (pte1_of (mem w) root ?va)"
          "subtable_from_pte (pte1_of (mem w) root ?va) = sub"
        have inv2: "pt_inv root F2 P2 w" using u(5) unfolding pt_step_def by blast
        have e2w: "\<not> pte_invalid_or_leaf (get_pte root (vpn 2 va) (mem w))"
          and e1w: "\<not> pte_invalid_or_leaf (pte1_of (mem w) root va)"
          and sw: "subtable_from_pte (pte1_of (mem w) root va) = sub" using u(8-10) va path by simp_all
        from finish_ok [OF inv2 e2w e1w flags, of pa, unfolded sw] obtain v where
          v: "write_pte (pte_addr sub (vpn 0 va)) flags (pa_ppn pa) w = Some (Inr ((), v))"
            "pt_step root F2 P2 w F2 P2 v"
            "\<forall>va'. lookup (mem v) root va' = (if va_vpn va' = va_vpn va
              then Some (leaf_pa 0 (pa_ppn pa) va', flags) else lookup (mem w) root va')" by blast
        have "set_page root va pa flags s = Some (Inr (0, v))"
          using al t(1) nz e1 True u(1-4) v(1) path
          by (simp add: set_page_def kbind_Inr kthen_Inr Let_def vpn_simps PA_def)
        moreover have "\<exists>a b. P2 \<subseteq> insert a (insert b P)" using one u(6) by blast
        ultimately show ?thesis
          using pt_step_trans [OF t(2) pt_step_trans [OF u(5) v(2)]] v(3) u(7) same by auto
      qed
    qed
  qed
qed

subsection \<open>Unmapping one page\<close>

definition cleared :: "u64 \<Rightarrow> u64" where
  "cleared e = set_field 0 8 (ucast (pte_flags e AND NOT PTE_VALID)) e"

lemma clear_pte_valid_eq:
  "clear_pte_valid pte s = Some (Inr ((), s\<lparr>mem := store64 (mem s) pte (cleared (load64 (mem s) pte))\<rparr>))"
  by (simp add: clear_pte_valid_def set_pte_flags_def cleared_def)

lemma cleared_invalid: "\<not> pte_valid (cleared e)"
proof -
  have "pte_flags (cleared e) AND 1 = 0"
    unfolding pte_flags_def cleared_def
    by (rule bit_word_eqI) (auto simp: bit_simps bit_field_iff bit_set_field_iff)
  then show ?thesis by (simp add: pte_valid_def)
qed

lemma unset_page_ok:
  assumes inv: "pt_inv root F P s" and va: "va_off va = 0"
  shows "if pte_invalid_or_leaf (get_pte root (vpn 2 va) (mem s)) \<or>
           pte_invalid_or_leaf (pte1_of (mem s) root va)
    then unset_page root va s = Some (Inr (- ENOENT, s))
    else \<exists>t. unset_page root va s = Some (Inr (0, t)) \<and> pt_step root F P s F P t \<and>
      (\<forall>va'. lookup (mem t) root va' = (if va_vpn va' = va_vpn va then None else lookup (mem s) root va'))"
proof (cases "pte_invalid_or_leaf (get_pte root (vpn 2 va) (mem s)) \<or>
    pte_invalid_or_leaf (pte1_of (mem s) root va)")
  case True
  then show ?thesis
    using va by (auto simp: unset_page_def check_va_def kbind_Inr vpn_simps pte1_of_def sub1_of_def Let_def)
next
  case False
  then have e2: "\<not> pte_invalid_or_leaf (get_pte root (vpn 2 va) (mem s))"
    and e1: "\<not> pte_invalid_or_leaf (pte1_of (mem s) root va)" by simp_all
  let ?sub0 = "subtable_from_pte (pte1_of (mem s) root va)"
  let ?new = "cleared (get_pte ?sub0 (vpn 0 va) (mem s))"
  let ?t = "s\<lparr>mem := store64 (mem s) (pte_addr ?sub0 (vpn 0 va)) ?new\<rparr>"
  have "entry_ok 0 ?new" by (simp add: entry_ok_def pte_invalid_or_leaf_iff cleared_invalid)
  note L = level0_store_ok [OF inv e2 e1 this]
  have "unset_page root va s = Some (Inr (0, ?t))"
    using va e2 e1
    by (simp add: unset_page_def check_va_def kbind_Inr kthen_Inr vpn_simps clear_pte_valid_eq
        pte1_of_def sub1_of_def get_pte_def Let_def)
  then show ?thesis using L False by (simp add: leaf_result_def cleared_invalid)
qed

subsection \<open>Creating a table\<close>

lemma map_kernel_pages_eq:
  "map_kernel_pages t s = Some (Inr ((), s\<lparr>mem :=
     (let m = store64 (mem s) (pte_addr t 253) (new_pte 0x27 0 (get_pte t 253 (mem s)))
      in store64 m (pte_addr t 252) (new_pte 0x2f 0x80000 (get_pte t 252 m)))\<rparr>))"
proof -
  have "va_vpn2 MMIOBASE = 253" "va_vpn2 KERNBASE = 252" "pa_ppn MMIOPHY = 0" "pa_ppn KERNPHY = 0x80000"
    by (simp_all add: va_vpn2_def pa_ppn_def field_def)
  moreover have "check_va_1g MMIOBASE s = Some (Inr (MMIOBASE, s))" "check_va_1g KERNBASE s = Some (Inr (KERNBASE, s))"
    for s :: "'a mm_state_scheme"
    by (simp_all add: check_va_1g_def va_off_def va_vpn0_def va_vpn1_def field_def)
  moreover have "pa_off MMIOPHY = 0" "pa_ppn0 MMIOPHY = 0" "pa_ppn1 MMIOPHY = 0"
    "pa_off KERNPHY = 0" "pa_ppn0 KERNPHY = 0" "pa_ppn1 KERNPHY = 0"
    by (simp_all add: pa_off_def pa_ppn0_def pa_ppn1_def field_def)
  ultimately show ?thesis
    by (simp add: map_kernel_pages_def set_page_1g_def kbind_Inr kthen_Inr write_pte_eq get_pte_def Let_def
        del: KERNBASE_def MMIOBASE_def KERNPHY_def MMIOPHY_def)
qed

lemma ptable_leaves:
  assumes "area_ok 0 t" and "\<And>i. i < 512 \<Longrightarrow> entry_ok (Suc l) (get_pte t i m)"
  shows "ptable (Suc l) m t {t}"
    and "lookup_at (Suc l) m t va = leaf_result (Suc l) (get_pte t (vpn (Suc l) va) m) va"
proof -
  have "entry_pages (ptable l m) (Suc l) (get_pte t i m) {}" if "i < 512" for i
    using assms(2) [OF that] by (simp add: entry_pages_def entry_ok_def)
  with assms(1) show "ptable (Suc l) m t {t}" by (auto intro!: exI [of _ "\<lambda>_. {}"])
  show "lookup_at (Suc l) m t va = leaf_result (Suc l) (get_pte t (vpn (Suc l) va) m) va"
    using assms(2) [of "vpn (Suc l) va"] by (simp add: Let_def entry_ok_def)
qed

definition kernel_lookup :: "u64 \<Rightarrow> (u64 \<times> u32) option" where
  "kernel_lookup va =
     (if vpn 2 va = 252 then Some (leaf_pa 2 0x80000 va, 0x2f)
      else if vpn 2 va = 253 then Some (leaf_pa 2 0 va, 0x27) else None)"

lemma kernel_entries:
  assumes t: "area_ok 0 t" and z: "\<forall>i<512. get_pte t i m = 0"
  defines "m' \<equiv> let m1 = store64 m (pte_addr t 253) (new_pte 0x27 0 (get_pte t 253 m))
      in store64 m1 (pte_addr t 252) (new_pte 0x2f 0x80000 (get_pte t 252 m1))"
  shows "ptable 2 m' t {t}" and "lookup m' t va = kernel_lookup va"
    and "agree (- area 0 t) m m'"
proof -
  have g: "get_pte t i m' = (if i = 252 then new_pte 0x2f 0x80000 0 else if i = 253 then new_pte 0x27 0 0 else 0)"
    if "i < 512" for i
    using that z by (simp add: m'_def Let_def get_pte_store)
  have f: "pte_flags (new_pte 0x2f 0x80000 0) = 0x2f" "pte_flags (new_pte 0x27 0 0) = 0x27"
    by (rule pte_flags_new, simp)+
  have p: "pte_ppn (new_pte 0x2f 0x80000 0) = 0x80000" "pte_ppn (new_pte 0x27 0 0) = 0"
    by (simp_all add: pte_ppn_new)
  have z0: "\<not> pte_valid 0" by (simp add: pte_valid_def pte_flags_def field_def)
  have eo: "entry_ok (Suc 1) (get_pte t i m')" if "i < 512" for i
    using g [OF that] f p z0
    by (auto simp: entry_ok_def pte_invalid_or_leaf_iff pte_is_leaf_def leaf_aligned_def)
  note T = ptable_leaves [OF t, of 1 m', OF eo]
  show "ptable 2 m' t {t}" using T(1) by (simp add: numeral_2_eq_2)
  show "lookup m' t va = kernel_lookup va"
    using T(2) [of va] g [of "vpn 2 va"] f p z0
    by (simp add: lookup_def numeral_2_eq_2 [symmetric] kernel_lookup_def leaf_result_def pte_valid_def
        pte_is_leaf_def leaf_aligned_def)
  show "agree (- area 0 t) m m'"
    unfolding m'_def Let_def
    by (rule agree_trans [OF agree_pte_store agree_pte_store]) simp_all
qed

lemma create_page_table_ok:
  assumes al: "allocator F s" and ne: "\<not> early s"
  shows "F = {} \<and> create_page_table s = Some (Inl ''out of memory'') \<or>
    (\<exists>t u. create_page_table s = Some (Inr (t, u)) \<and> area_ok 0 t \<and> area 0 t \<subseteq> F \<and>
       pt_inv t (F - area 0 t) {t} u \<and> agree (- F) (mem s) (mem u) \<and> same_rest s u \<and>
       (\<forall>va. lookup (mem u) t va = kernel_lookup va))"
proof -
  let ?fill = "\<lambda>a. fold (zero_entry a) [0..<512]"
  have z: "zero_entry a i m = store64 m (pte_addr a (of_nat i)) 0" for a i m
    by (simp add: zero_entry_def)
  have fill: "agree (- area 0 a) m (?fill a m)" for a m
    by (rule fold_entries(1) [where v = "\<lambda>_. 0", OF z]) simp
  have ent: "get_pte a i (?fill a m) = 0" if "i < 512" for a i m
    using fold_entries(2) [where v = "\<lambda>_. 0", OF z, of 512 "unat i"] that
    by (simp add: word_less_nat_alt)
  have "create_page_table = kbind (alloc_pages 0) (\<lambda>p. let a = address p in if a = 0 then kreturn 0
      else kthen (kmodify (\<lambda>s. s\<lparr>mem := ?fill a (mem s)\<rparr>)) (kthen (map_kernel_pages a) (kreturn a)))"
    by (simp add: create_page_table_def)
  from buddy.alloc_fill [OF al fill this]
  show ?thesis
  proof (elim disjE exE conjE)
    fix a t m
    assume t: "create_page_table s = kthen (map_kernel_pages a) (kreturn a) t" "area_ok 0 a"
      "area 0 a \<subseteq> F" "allocator (F - area 0 a) t" "mem t = ?fill a m" "agree (- F) (mem s) (mem t)"
      "same_rest s t"
    let ?m = "let m1 = store64 (mem t) (pte_addr a 253) (new_pte 0x27 0 (get_pte a 253 (mem t)))
      in store64 m1 (pte_addr a 252) (new_pte 0x2f 0x80000 (get_pte a 252 m1))"
    let ?u = "t\<lparr>mem := ?m\<rparr>"
    have "\<forall>i<512. get_pte a i (mem t) = 0" using ent t(5) by simp
    note K = kernel_entries [OF t(2) this]
    have ag: "agree (- area 0 a) (mem t) (mem ?u)" using K(3) by simp
    have "create_page_table s = Some (Inr (a, ?u))"
      unfolding t(1) by (simp add: map_kernel_pages_eq kthen_Inr)
    moreover have "allocator (F - area 0 a) ?u"
      by (rule allocator_frame [OF t(4) agree_mono [OF ag]]) auto
    moreover have "agree (- F) (mem s) (mem ?u)"
      using t(3) by (intro agree_trans [OF t(6)] agree_mono [OF ag]) auto
    moreover have "same_rest s ?u" using same_rest_trans [OF t(7)] by simp
    moreover have "\<not> early ?u" using same_rest_early [OF t(7)] ne by simp
    ultimately show ?thesis using t(2,3) K(1,2)
      by (intro disjI2 exI [of _ a] exI [of _ ?u]) (simp add: pt_inv_def)
  qed simp
qed

text \<open>What the two kernel gigapages map.\<close>

lemma vpn2_unat: "unat va < 2 ^ 39 \<Longrightarrow> unat (vpn 2 va) = unat va div 2 ^ 30"
proof -
  assume "unat va < 2 ^ 39"
  then have "unat va div 2 ^ 30 < 2 ^ 9" by (simp add: less_mult_imp_div_less)
  then have "take_bit 9 (unat va div 2 ^ 30) = unat va div 2 ^ 30" by (simp add: take_bit_nat_eq_self)
  moreover have "unat (drop_bit 30 va) = unat va div 2 ^ 30"
    by (simp only: unat_drop_bit_eq) (simp add: drop_bit_eq_div)
  ultimately show ?thesis by (simp only: vpn_def field_def unsigned_take_bit_eq) simp
qed

lemma leaf_pa_offset:
  assumes "aligned 30 (pa_from_ppn ppn)" and "aligned 30 base" and "va = base + d" and "unat d < 2 ^ 30"
  shows "leaf_pa 2 ppn va = pa_from_ppn ppn + d"
proof -
  have "take_bit 30 va = d" using aligned_offset(2) [OF assms(2,4)] assms(3) by simp
  moreover have "leaf_pa 2 ppn va = pa_from_ppn ppn OR take_bit 30 va"
    using assms(1) unfolding leaf_pa_def
    by (intro bit_word_eqI) (auto simp: bit_set_field_iff bit_simps aligned_bit)
  ultimately show ?thesis using aligned_offset(1) [OF assms(1,4)] by simp
qed

lemma kernel_lookup_cases:
  shows "KERNBASE \<le> va \<Longrightarrow> va < KERNSTOP \<Longrightarrow> kernel_lookup va = Some (PA_of va, 0x2f)"
    and "MMIOBASE \<le> va \<Longrightarrow> va < MMIOSTOP \<Longrightarrow> kernel_lookup va = Some (va - MMIOBASE, 0x27)"
    and "va < SPLIT \<Longrightarrow> kernel_lookup va = None"
proof -
  assume "KERNBASE \<le> va" "va < KERNSTOP"
  then have b: "0x3f00000000 \<le> unat va" "unat va < 0x3f40000000"
    by (simp_all add: word_le_nat_alt word_less_nat_alt)
  then have "unat (vpn 2 va) = 252" by (subst vpn2_unat) (simp_all add: div_nat_eqI)
  moreover have "leaf_pa 2 0x80000 va = pa_from_ppn 0x80000 + (va - KERNBASE)"
    using b by (intro leaf_pa_offset) (simp_all add: pa_from_ppn_def aligned_def unat_sub word_le_nat_alt)
  ultimately show "kernel_lookup va = Some (PA_of va, 0x2f)"
    by (simp add: kernel_lookup_def pa_from_ppn_def PA_of_def word_unat_eq_iff)
next
  assume "MMIOBASE \<le> va" "va < MMIOSTOP"
  then have b: "0x3f40000000 \<le> unat va" "unat va < 0x3f80000000"
    by (simp_all add: word_le_nat_alt word_less_nat_alt)
  then have "unat (vpn 2 va) = 253" by (subst vpn2_unat) (simp_all add: div_nat_eqI)
  moreover have "leaf_pa 2 0 va = pa_from_ppn 0 + (va - MMIOBASE)"
    using b by (intro leaf_pa_offset) (simp_all add: pa_from_ppn_def aligned_def unat_sub word_le_nat_alt)
  ultimately show "kernel_lookup va = Some (va - MMIOBASE, 0x27)"
    by (simp add: kernel_lookup_def pa_from_ppn_def word_unat_eq_iff)
next
  assume "va < SPLIT"
  then have "unat va < 0x3f00000000" by (simp add: word_less_nat_alt)
  then have "unat (vpn 2 va) < 252" by (subst vpn2_unat) (simp_all add: less_mult_imp_div_less)
  then show "kernel_lookup va = None" by (auto simp: kernel_lookup_def)
qed

subsection \<open>Destroying a table\<close>

definition lower :: "nat \<Rightarrow> memory \<Rightarrow> u64 \<Rightarrow> u64 set \<Rightarrow> bool" where
  "lower l m = (case l of 0 \<Rightarrow> (\<lambda>_ _. False) | Suc k \<Rightarrow> ptable k m)"

lemma ptable_lowerE:
  assumes "ptable l m t P"
  obtains Q where "area_ok 0 t" and "P = insert t (\<Union>j\<in>{0..<512::nat}. Q j)"
    and "\<forall>j<512. entry_pages (lower l m) l (get_pte t (of_nat j) m) (Q j)"
    and "\<forall>j<512. t \<notin> Q j" and "\<forall>j<512. \<forall>k<512. j \<noteq> k \<longrightarrow> Q j \<inter> Q k = {}"
proof (cases l)
  case 0
  have "entry_pages (lower l m) l (get_pte t (of_nat j) m) {}" if "j < 512" for j
  proof -
    have "(of_nat j :: u64) < 512" using that by (simp add: word_less_nat_alt unat_of_nat)
    with assms 0 show ?thesis by (simp add: entry_pages_def entry_ok_def)
  qed
  with assms 0 show thesis by (intro that [of "\<lambda>_. {}"]) auto
next
  case (Suc k)
  then obtain Q where Q: "area_ok 0 t" "P = insert t (\<Union>i\<in>{..<512}. Q i)"
    "\<forall>i<512. entry_pages (ptable k m) (Suc k) (get_pte t i m) (Q i)"
    "\<forall>i<512. t \<notin> Q i" "\<forall>i<512. \<forall>j<512. i \<noteq> j \<longrightarrow> Q i \<inter> Q j = {}"
    using assms by (blast elim: ptable_SucE)
  have lt: "(of_nat j :: u64) < 512" if "j < 512" for j
    using that by (simp add: word_less_nat_alt unat_of_nat)
  have inj: "(of_nat j :: u64) \<noteq> of_nat k" if "j < 512" "k < 512" "j \<noteq> k" for j k
    using that by (auto dest: arg_cong [where f = unat] simp: unat_of_nat)
  have un: "(\<Union>i\<in>{..<512}. Q i) = (\<Union>j\<in>{0..<512::nat}. Q (of_nat j))"
  proof (intro equalityI subsetI)
    fix x assume "x \<in> (\<Union>i\<in>{..<512}. Q i)"
    then obtain i where i: "i < 512" "x \<in> Q i" by auto
    then have "unat i < 512" "x \<in> Q (of_nat (unat i))" by (simp_all add: word_less_nat_alt)
    then show "x \<in> (\<Union>j\<in>{0..<512}. Q (of_nat j))" by (intro UN_I [of "unat i"]) auto
  qed (use lt in auto)
  show thesis
  proof (rule that [of "\<lambda>j. Q (of_nat j)"])
    show "P = insert t (\<Union>j\<in>{0..<512}. Q (of_nat j))" using Q(2) un by simp
    show "\<forall>j<512. entry_pages (lower l m) l (get_pte t (of_nat j) m) (Q (of_nat j))"
      using Q(3) lt Suc by (simp add: lower_def)
    show "\<forall>j<512. \<forall>k<512. j \<noteq> k \<longrightarrow> Q (of_nat j) \<inter> Q (of_nat k) = {}"
      using Q(5) lt inj by blast
  qed (use Q(1,4) lt in blast)+
qed

lemma pages_UN: "pages (\<Union>j\<in>A. Q j) = (\<Union>j\<in>A. pages (Q j))"
  by (auto simp: pages_def)

text \<open>The loop from index \<open>i\<close> on: the subtables below \<open>i\<close> are already free.\<close>

lemma destroy_loop_ok:
  assumes sub: "\<And>k t P G (s :: 'a mm_state_scheme). l = Suc k \<Longrightarrow> ptable k (mem s) t P \<Longrightarrow>
      allocator G s \<Longrightarrow> pages P \<inter> G = {} \<Longrightarrow>
      \<exists>u. destroy_from k 0 t s = Some (Inr ((), u)) \<and> allocator (G \<union> pages P) u \<and>
        agree (- (G \<union> pages P)) (mem s) (mem u) \<and> same_rest s u"
    and t: "area_ok 0 t"
  shows "i \<le> 512 \<Longrightarrow> allocator G s \<Longrightarrow>
    \<forall>j. i \<le> j \<and> j < 512 \<longrightarrow> entry_pages (lower l (mem s)) l (get_pte t (of_nat j) (mem s)) (Q j) \<and> t \<notin> Q j \<Longrightarrow>
    \<forall>j k. i \<le> j \<and> j < 512 \<and> i \<le> k \<and> k < 512 \<and> j \<noteq> k \<longrightarrow> Q j \<inter> Q k = {} \<Longrightarrow>
    pages (insert t (\<Union>j\<in>{i..<512}. Q j)) \<inter> G = {} \<Longrightarrow>
    \<exists>u. destroy_from l i t s = Some (Inr ((), u)) \<and>
      allocator (G \<union> pages (insert t (\<Union>j\<in>{i..<512}. Q j))) u \<and>
      agree (- (G \<union> pages (insert t (\<Union>j\<in>{i..<512}. Q j)))) (mem s) (mem u) \<and>
      same_rest s (u :: 'a mm_state_scheme)"
proof (induction "512 - i" arbitrary: i G s)
  case 0
  then have i: "i = 512" by simp
  with 0 have "area 0 t \<inter> G = {}" by simp
  from free_pages_ok [OF 0(3) t this] obtain u where
    u: "free_pages \<lparr>address = t, order = 0\<rparr> s = Some (Inr ((), u))" "released 0 t G s u" by blast
  then show ?case
    unfolding i by (subst destroy_from.simps) (simp add: released_def)
next
  case (Suc n)
  then have i: "i < 512" by simp
  let ?e = "get_pte t (of_nat i) (mem s)"
  have range: "{i..<512} = insert i {Suc i..<512}" using i by auto
  have step: "destroy_from l i t s =
     (if \<not> pte_invalid_or_leaf ?e then
        (if l = 0 then Some (Inl ''invalid page table - too deep'')
         else kthen (destroy_from (l - 1) 0 (subtable_from_pte ?e)) (destroy_from l (Suc i) t) s)
      else destroy_from l (Suc i) t s)"
    using i by (subst destroy_from.simps) (simp add: kbind_Inr)
  have ei: "entry_pages (lower l (mem s)) l ?e (Q i)" "t \<notin> Q i" using Suc.prems(3) i by auto
  show ?case
  proof (cases "pte_invalid_or_leaf ?e")
    case True
    then have Qi: "Q i = {}" using ei by (simp add: entry_pages_def)
    have "\<exists>u. destroy_from l (Suc i) t s = Some (Inr ((), u)) \<and>
      allocator (G \<union> pages (insert t (\<Union>j\<in>{Suc i..<512}. Q j))) u \<and>
      agree (- (G \<union> pages (insert t (\<Union>j\<in>{Suc i..<512}. Q j)))) (mem s) (mem u) \<and> same_rest s u"
      using Suc.prems Suc.hyps(2) i range by (intro Suc.hyps(1)) auto
    with True Qi step range show ?thesis by simp
  next
    case False
    then obtain k where k: "l = Suc k" "ptable k (mem s) (subtable_from_pte ?e) (Q i)"
      using ei by (cases l) (auto simp: entry_pages_def lower_def)
    have ok: "\<forall>p\<in>Q i. area_ok 0 p" using ptable_pages [OF k(2)] by blast
    have "pages (Q i) \<inter> G = {}" using Suc.prems(5) unfolding range by auto
    from sub [OF k Suc.prems(2) this] obtain v where
      v: "destroy_from k 0 (subtable_from_pte ?e) s = Some (Inr ((), v))" "allocator (G \<union> pages (Q i)) v"
        "agree (- (G \<union> pages (Q i))) (mem s) (mem v)" "same_rest s v" by blast
    have "pages {t} \<inter> pages (Q i) = {}" using t ok ei(2) by (intro pages_Int_empty) auto
    then have tag: "area 0 t \<inter> (G \<union> pages (Q i)) = {}" using Suc.prems(5) by auto
    have ent: "get_pte t (of_nat j) (mem v) = get_pte t (of_nat j) (mem s)" if "j < 512" for j
      using tag that get_pte_agree [OF v(3), of t "of_nat j"] by (simp add: word_less_nat_alt unat_of_nat disjoint_eq_subset_Compl)
    have later: "entry_pages (lower l (mem v)) l (get_pte t (of_nat j) (mem v)) (Q j) \<and> t \<notin> Q j
        \<and> pages (Q j) \<inter> (G \<union> pages (Q i)) = {}" if "Suc i \<le> j" "j < 512" for j
    proof -
      have ej: "entry_pages (lower l (mem s)) l (get_pte t (of_nat j) (mem s)) (Q j)" "t \<notin> Q j"
        using Suc.prems(3) that by auto
      have okj: "\<forall>p\<in>Q j. area_ok 0 p"
        using ej(1) k(1) ptable_pages by (auto simp: entry_pages_def lower_def split: if_splits)
      have "Q j \<inter> Q i = {}" using Suc.prems(4) that i by auto
      then have d: "pages (Q j) \<inter> pages (Q i) = {}" by (rule pages_Int_empty [OF okj ok])
      moreover have "pages (Q j) \<subseteq> pages (insert t (\<Union>j\<in>{i..<512}. Q j))"
        using that by (intro pages_mono) auto
      then have dG: "pages (Q j) \<inter> G = {}" using Suc.prems(5) by blast
      ultimately have "agree (pages (Q j)) (mem s) (mem v)" by (intro agree_mono [OF v(3)]) blast
      then have "entry_pages (lower l (mem v)) l (get_pte t (of_nat j) (mem v)) (Q j)"
        using ej(1) ent [OF that(2)] k(1) ptable_frame(1)
        by (auto simp: entry_pages_def lower_def)
      with ej(2) d dG show ?thesis by blast
    qed
    have "pages (insert t (\<Union>j\<in>{Suc i..<512}. Q j)) \<inter> (G \<union> pages (Q i)) = {}"
    proof -
      have "pages (Q j) \<inter> (G \<union> pages (Q i)) = {}" if "j \<in> {Suc i..<512}" for j
        using later [of j] that by auto
      then have "(\<Union>j\<in>{Suc i..<512}. pages (Q j)) \<inter> (G \<union> pages (Q i)) = {}" by blast
      with tag show ?thesis by (simp only: pages_insert pages_UN Int_Un_distrib2) simp
    qed
    then have "\<exists>u. destroy_from l (Suc i) t v = Some (Inr ((), u)) \<and>
      allocator ((G \<union> pages (Q i)) \<union> pages (insert t (\<Union>j\<in>{Suc i..<512}. Q j))) u \<and>
      agree (- ((G \<union> pages (Q i)) \<union> pages (insert t (\<Union>j\<in>{Suc i..<512}. Q j)))) (mem v) (mem u) \<and> same_rest v u"
      using Suc.hyps(2) i later v(2) Suc.prems(4) by (intro Suc.hyps(1)) auto
    then obtain u where u: "destroy_from l (Suc i) t v = Some (Inr ((), u))"
      "allocator ((G \<union> pages (Q i)) \<union> pages (insert t (\<Union>j\<in>{Suc i..<512}. Q j))) u"
      "agree (- ((G \<union> pages (Q i)) \<union> pages (insert t (\<Union>j\<in>{Suc i..<512}. Q j)))) (mem v) (mem u)" "same_rest v u"
      by blast
    have all: "(G \<union> pages (Q i)) \<union> pages (insert t (\<Union>j\<in>{Suc i..<512}. Q j)) =
        G \<union> pages (insert t (\<Union>j\<in>{i..<512}. Q j))" unfolding range by auto
    have "agree (- (G \<union> pages (insert t (\<Union>j\<in>{i..<512}. Q j)))) (mem s) (mem u)"
      using u(3) unfolding all
      by (rule agree_trans [rotated]) (rule agree_mono [OF v(3)], use i in \<open>auto simp: pages_def\<close>)
    moreover have "destroy_from l i t s = Some (Inr ((), u))"
      using False step k(1) v(1) u(1) by (simp add: kthen_Inr)
    ultimately show ?thesis using u(2) same_rest_trans [OF v(4) u(4)] unfolding all by blast
  qed
qed

lemma destroy_from_ok:
  "ptable l (mem s) t P \<Longrightarrow> allocator G s \<Longrightarrow> pages P \<inter> G = {} \<Longrightarrow>
   \<exists>u. destroy_from l 0 t s = Some (Inr ((), u)) \<and> allocator (G \<union> pages P) u \<and>
     agree (- (G \<union> pages P)) (mem s) (mem u) \<and> same_rest s u"
proof (induction l arbitrary: s t P G)
  case 0
  obtain Q where Q: "area_ok 0 t" "P = insert t (\<Union>j\<in>{0..<512::nat}. Q j)"
    "\<forall>j<512. entry_pages (lower 0 (mem s)) 0 (get_pte t (of_nat j) (mem s)) (Q j)"
    "\<forall>j<512. t \<notin> Q j" "\<forall>j<512. \<forall>k<512. j \<noteq> k \<longrightarrow> Q j \<inter> Q k = {}"
    using 0(1) by (rule ptable_lowerE)
  show ?case
    unfolding Q(2)
    by (rule destroy_loop_ok [OF _ Q(1)]) (use Q(3-5) 0(2,3) in \<open>simp_all add: Q(2)\<close>)
next
  case (Suc l)
  obtain Q where Q: "area_ok 0 t" "P = insert t (\<Union>j\<in>{0..<512::nat}. Q j)"
    "\<forall>j<512. entry_pages (lower (Suc l) (mem s)) (Suc l) (get_pte t (of_nat j) (mem s)) (Q j)"
    "\<forall>j<512. t \<notin> Q j" "\<forall>j<512. \<forall>k<512. j \<noteq> k \<longrightarrow> Q j \<inter> Q k = {}"
    using Suc.prems(1) by (rule ptable_lowerE)
  show ?case
    unfolding Q(2)
  proof (rule destroy_loop_ok [OF _ Q(1)])
    fix k t P G and s :: "'a mm_state_scheme"
    assume "Suc l = Suc k" "ptable k (mem s) t P" "allocator G s" "pages P \<inter> G = {}"
    then show "\<exists>u. destroy_from k 0 t s = Some (Inr ((), u)) \<and> allocator (G \<union> pages P) u \<and>
        agree (- (G \<union> pages P)) (mem s) (mem u) \<and> same_rest s u"
      using Suc.IH by blast
  qed (use Q(3-5) Suc.prems(2,3) in \<open>simp_all add: Q(2)\<close>)
qed

subsection \<open>Removing the user half\<close>

lemma user_index:
  assumes "i < 512"
  shows "SPLIT \<le> set_field 30 9 (of_nat i) 0 \<longleftrightarrow> 252 \<le> i"
proof -
  have "set_field 30 9 (of_nat i) 0 = push_bit 30 (take_bit 9 (of_nat i :: u64))"
    by (simp add: set_field_def)
  also have "take_bit 9 (of_nat i :: u64) = of_nat i"
    using assms by (simp add: word_unat_eq_iff unsigned_take_bit_eq unat_of_nat take_bit_nat_eq_self)
  finally have "set_field 30 9 (of_nat i) 0 = of_nat i * 2 ^ 30" by (simp add: push_bit_eq_mult)
  then have "unat (set_field 30 9 (of_nat i) 0) = i * 2 ^ 30"
    using assms by (simp add: unat_mult_lem [THEN iffD1] unat_of_nat)
  then show ?thesis by (simp add: word_le_nat_alt)
qed

lemma unset_step_ok:
  assumes inv: "pt_inv root F P s" and i: "i < 512"
  defines "e \<equiv> get_pte root (of_nat i) (mem s)"
  shows "\<exists>t u F' P'. (if \<not> pte_invalid_or_leaf e then do_destroy_page_table (subtable_from_pte e) 1 else kreturn ()) s
        = Some (Inr ((), t)) \<and> u = t\<lparr>mem := zero_entry root i (mem t)\<rparr> \<and>
      pt_inv root F' P' u \<and> P' \<subseteq> P \<and> F' \<union> pages P' = F \<union> pages P \<and>
      agree (- (F \<union> pages P)) (mem s) (mem u) \<and> same_rest s u \<and>
      (\<forall>j<512. get_pte root j (mem u) = (if j = of_nat i then 0 else get_pte root j (mem s))) \<and>
      (\<forall>va. lookup (mem u) root va = (if vpn 2 va = of_nat i then None else lookup (mem s) root va))"
proof -
  note I = pt_invD [OF inv]
  have i': "(of_nat i :: u64) < 512" using i by (simp add: word_less_nat_alt unat_of_nat)
  have tab: "ptable (Suc 1) (mem s) root P" using I(3) by (simp add: numeral_2_eq_2)
  have "\<exists>S. entry_pages (ptable 1 (mem s)) (Suc 1) e S"
    using ptable_entry_ok [OF tab i'] by (cases "pte_invalid_or_leaf e") (auto simp: e_def entry_pages_def)
  then obtain S where S: "entry_pages (ptable 1 (mem s)) (Suc 1) e S" ..
  have SP: "S \<subseteq> P - {root}"
  proof (cases "pte_invalid_or_leaf e")
    case True
    with S show ?thesis by (simp add: entry_pages_def)
  next
    case False
    with S have "ptable 1 (mem s) (subtable_from_pte e) S" by (simp add: entry_pages_def)
    with ptable_descend(2) [OF tab i' False [unfolded e_def], of S "mem s" S] show ?thesis
      by (simp add: e_def)
  qed
  have dS: "pages S \<inter> F = {}" using I(4) SP by (auto simp: pages_def)
  obtain t where t: "(if \<not> pte_invalid_or_leaf e then do_destroy_page_table (subtable_from_pte e) 1 else kreturn ()) s
        = Some (Inr ((), t))" "allocator (F \<union> pages S) t" "agree (- (F \<union> pages S)) (mem s) (mem t)" "same_rest s t"
  proof (cases "pte_invalid_or_leaf e")
    case True
    with S have "S = {}" by (simp add: entry_pages_def)
    with True I(1) show thesis by (intro that [of s]) simp_all
  next
    case False
    with S have "ptable 1 (mem s) (subtable_from_pte e) S" by (simp add: entry_pages_def)
    from destroy_from_ok [OF this I(1) dS] False that show thesis
      by (auto simp: do_destroy_page_table_def)
  qed
  let ?u = "t\<lparr>mem := zero_entry root i (mem t)\<rparr>"
  have rootP: "area 0 root \<inter> (F \<union> pages S) = {}"
  proof -
    have "pages {root} \<inter> pages S = {}"
      using I(5,6) SP by (intro pages_Int_empty) auto
    moreover have "area 0 root \<inter> F = {}" using I(4,5) by (auto simp: pages_def)
    ultimately show ?thesis by auto
  qed
  have gt: "get_pte root j (mem t) = get_pte root j (mem s)" if "j < 512" for j
    using rootP get_pte_agree [OF t(3) _ that, of root] by (simp add: disjoint_eq_subset_Compl)
  have gu: "get_pte root j (mem ?u) = (if j = of_nat i then 0 else get_pte root j (mem s))" if "j < 512" for j
    using gt that i' by (simp add: zero_entry_def get_pte_store)
  have inv0: "pte_invalid_or_leaf 0" "leaf_result l 0 va = None" "entry_ok l 0" for l va
    by (simp_all add: pte_invalid_or_leaf_iff pte_valid_def pte_flags_def field_def leaf_result_def entry_ok_def)
  have frame: "agree (- area 0 root) (mem t) (mem ?u)"
    using agree_pte_store [OF i', of root "- area 0 root"] by (simp add: zero_entry_def)
  have S': "entry_pages (ptable 1 (mem ?u)) (Suc 1) (get_pte root (of_nat i) (mem ?u)) {}"
    using gu [OF i'] inv0 by (simp add: entry_pages_def)
  have "agree (pages (P - S - {root})) (mem s) (mem ?u)"
  proof (rule agree_trans)
    have "pages (P - S - {root}) \<inter> pages (S \<union> {root}) = {}"
      using I(5,6) SP by (intro pages_Int_empty) auto
    moreover have "pages (P - S - {root}) \<inter> F = {}" using I(4) by (auto simp: pages_def)
    ultimately have d: "pages (P - S - {root}) \<inter> (F \<union> pages S) = {}" "pages (P - S - {root}) \<inter> area 0 root = {}"
      by auto
    show "agree (pages (P - S - {root})) (mem s) (mem t)"
      using d(1) by (intro agree_mono [OF t(3)]) blast
    show "agree (pages (P - S - {root})) (mem t) (mem ?u)"
      using d(2) by (intro agree_mono [OF frame]) blast
  qed
  note U = ptable_update [OF tab i' S [unfolded e_def] S' _ _ this]
  have "ptable 2 (mem ?u) root (P - S)" using U(1) gu by (simp add: numeral_2_eq_2)
  moreover have "allocator (F \<union> pages S) ?u"
    using rootP by (intro allocator_frame [OF t(2) agree_mono [OF frame]]) auto
  moreover have "pages (P - S) \<inter> (F \<union> pages S) = {}"
    using I(4,6) SP pages_Int_empty [of "P - S" S] by (auto simp: pages_def)
  moreover have "\<not> early ?u" using same_rest_early [OF t(4)] I(2) by simp
  ultimately have "pt_inv root (F \<union> pages S) (P - S) ?u" by (simp add: pt_inv_def)
  moreover have "(F \<union> pages S) \<union> pages (P - S) = F \<union> pages P"
  proof -
    have "P = S \<union> (P - S)" using SP by auto
    then have "pages P = pages S \<union> pages (P - S)" by (metis pages_Un)
    then show ?thesis by auto
  qed
  moreover have "agree (- (F \<union> pages P)) (mem s) (mem ?u)"
    using SP I(5) by (intro agree_trans [OF agree_mono [OF t(3)] agree_mono [OF frame]]) (auto simp: pages_def)
  moreover have "same_rest s ?u" using same_rest_trans [OF t(4)] by simp
  moreover have "lookup (mem ?u) root va = (if vpn 2 va = of_nat i then None else lookup (mem s) root va)" for va
    using U(3) [of va] gu inv0 i' by (simp add: lookup_def numeral_2_eq_2)
  ultimately show ?thesis using t(1) gu by blast
qed

lemma unset_user_from_ok:
  "i \<le> 252 \<Longrightarrow> pt_inv root F P s \<Longrightarrow> (\<forall>j<of_nat i. get_pte root j (mem s) = 0) \<Longrightarrow>
   \<exists>u F' P'. unset_user_from i root s = Some (Inr ((), u)) \<and> pt_inv root F' P' u \<and> P' \<subseteq> P \<and>
     F' \<union> pages P' = F \<union> pages P \<and> agree (- (F \<union> pages P)) (mem s) (mem u) \<and> same_rest s u \<and>
     (\<forall>j<252. get_pte root j (mem u) = 0) \<and>
     (\<forall>va. lookup (mem u) root va =
        (if of_nat i \<le> vpn 2 va \<and> vpn 2 va < 252 then None else lookup (mem s) root va))"
proof (induction "252 - i" arbitrary: i F P s)
  case 0
  then have i: "i = 252" by simp
  have "unset_user_from 252 root s = Some (Inr ((), s))"
    using user_index [of 252] by (subst unset_user_from.simps) simp
  with 0 i show ?case
    by (intro exI [of _ s] exI [of _ F] exI [of _ P]) (auto simp: not_le)
next
  case (Suc n)
  then have i: "i < 252" "i < 512" by simp_all
  have un: "unat (of_nat i :: u64) = i" "unat (of_nat (Suc i) :: u64) = Suc i"
    using i by (simp_all add: unat_of_nat del: of_nat_Suc)
  from unset_step_ok [OF Suc.prems(2) i(2)] obtain t u F1 P1 where
    t: "(if \<not> pte_invalid_or_leaf (get_pte root (of_nat i) (mem s))
          then do_destroy_page_table (subtable_from_pte (get_pte root (of_nat i) (mem s))) 1 else kreturn ()) s
        = Some (Inr ((), t))" "u = t\<lparr>mem := zero_entry root i (mem t)\<rparr>"
      "pt_inv root F1 P1 u" "P1 \<subseteq> P" "F1 \<union> pages P1 = F \<union> pages P"
      "agree (- (F \<union> pages P)) (mem s) (mem u)" "same_rest s u"
      "\<forall>j<512. get_pte root j (mem u) = (if j = of_nat i then 0 else get_pte root j (mem s))"
      "\<forall>va. lookup (mem u) root va = (if vpn 2 va = of_nat i then None else lookup (mem s) root va)" by blast
  have "unset_user_from i root s = unset_user_from (Suc i) root u"
    using i t(1,2) user_index [of i] by (subst unset_user_from.simps) (simp add: kbind_Inr kthen_Inr)
  moreover have "\<forall>j<of_nat (Suc i). get_pte root j (mem u) = 0"
  proof (intro allI impI)
    fix j :: u64 assume j: "j < of_nat (Suc i)"
    then have "unat j < Suc i" using un(2) by (simp only: word_less_nat_alt)
    then have "j < of_nat i \<or> j = of_nat i" "j < 512"
      using i un by (auto simp: word_less_nat_alt word_unat_eq_iff)
    with t(8) Suc.prems(3) show "get_pte root j (mem u) = 0" by auto
  qed
  moreover have n: "n = 252 - Suc i" "Suc i \<le> 252" using Suc.hyps(2) by auto
  ultimately obtain v F' P' where v: "unset_user_from i root s = Some (Inr ((), v))" "pt_inv root F' P' v"
    "P' \<subseteq> P1" "F' \<union> pages P' = F1 \<union> pages P1" "agree (- (F1 \<union> pages P1)) (mem u) (mem v)" "same_rest u v"
    "\<forall>j<252. get_pte root j (mem v) = 0"
    "\<forall>va. lookup (mem v) root va =
        (if of_nat (Suc i) \<le> vpn 2 va \<and> vpn 2 va < 252 then None else lookup (mem u) root va)"
    using Suc.hyps(1) [OF n(1) n(2) t(3)] by auto
  have "lookup (mem v) root va =
        (if of_nat i \<le> vpn 2 va \<and> vpn 2 va < 252 then None else lookup (mem s) root va)" for va
  proof -
    have "(of_nat (Suc i) \<le> vpn 2 va) = (of_nat i \<le> vpn 2 va \<and> vpn 2 va \<noteq> of_nat i)"
      using un unfolding word_le_nat_alt word_unat_eq_iff by linarith
    moreover have "vpn 2 va = of_nat i \<Longrightarrow> vpn 2 va < 252"
      using i by (simp add: word_less_nat_alt unat_of_nat)
    ultimately show ?thesis using v(8) t(9) by auto
  qed
  moreover have "agree (- (F \<union> pages P)) (mem s) (mem v)"
    using agree_trans [OF t(6)] v(5) unfolding t(5) .
  moreover have "same_rest s v" by (rule same_rest_trans [OF t(7) v(6)])
  moreover have "F' \<union> pages P' = F \<union> pages P" using v(4) t(5) by simp
  moreover have "P' \<subseteq> P" using v(3) t(4) by blast
  ultimately show ?case using v(1,2,7) by blast
qed

subsection \<open>A concrete table\<close>

text \<open>
  The table that \<open>create_page_table\<close> makes in the first page it is given by the allocator
  of \<open>boot_state\<close>.
\<close>

lemma boot_table:
  obtains t and u :: mm_state where "create_page_table boot_state = Some (Inr (t, u))"
    and "pt_inv t (initial_free - area 0 t) {t} u" and "\<forall>va. lookup (mem u) t va = kernel_lookup va"
    and "area 0 t \<subseteq> initial_free"
proof -
  have "KERN_PHYBASE + 0x100000 \<in> initial_free" by (simp add: initial_free_def)
  then have "initial_free \<noteq> {}" by blast
  moreover have "\<not> early boot_state" by (simp add: boot_state_def)
  ultimately show thesis
    using create_page_table_ok [OF boot_state_allocator] that by blast
qed

lemma span_page_step:
  assumes "x \<in> span a 4096" and "n \<in> {0x1000, 0x2000}"
  shows "x + n \<notin> span a 4096"
proof -
  have "unat ((x - a) + n) = unat (x - a) + unat n"
    using assms by (subst unat_add_lem [THEN iffD1]) (auto simp: span_iff)
  moreover have "x + n - a = (x - a) + n" by simp
  ultimately have "unat (x + n - a) = unat (x - a) + unat n" by presburger
  then show ?thesis using assms(2) by (auto simp: span_iff)
qed

lemma boot_memory_left: "\<not> initial_free - area 0 t \<subseteq> area 0 a"
proof
  assume sub: "initial_free - area 0 t \<subseteq> area 0 a"
  let ?x = "KERN_PHYBASE + 0x100000"
  have "?x \<in> initial_free" "?x + 0x1000 \<in> initial_free" "?x + 0x2000 \<in> initial_free"
    by (simp_all add: initial_free_def)
  with sub have *: "?x \<in> span t 4096 \<or> ?x \<in> span a 4096"
    "?x + 0x1000 \<in> span t 4096 \<or> ?x + 0x1000 \<in> span a 4096"
    "?x + 0x2000 \<in> span t 4096 \<or> ?x + 0x2000 \<in> span a 4096" by (auto simp: area_def)
  have "?x + 0x1000 + 0x1000 = ?x + 0x2000" by simp
  with * span_page_step [of ?x] span_page_step [of "?x + 0x1000" _ "0x1000"] show False
    by (metis insertI1 insertI2)
qed

subsection \<open>Properties\<close>

text \<open>
  Property C4. Mapping a page, through whatever mixture of missing tables, superpages and
  existing tables the address meets: either at most one page is free and \<open>set_page\<close>
  panics with ``out of memory'', or it returns 0, the
  page maps to the frame with the flags, every other address keeps its translation (the
  superpages on the way are split), the tables are well formed, and their new pages are
  exactly those that the allocator has given out.
\<close>

theorem set_page_correct:
  assumes "pt_inv root F P s" and "va_off va = 0" and "pa_off pa = 0"
    and "take_bit 8 flags = flags" and "flags AND PTE_VALID \<noteq> 0" and "pte_is_leaf flags"
  shows "(\<exists>a. F \<subseteq> area 0 a) \<and> set_page root va pa flags s = Some (Inl ''out of memory'') \<or>
    (\<exists>t F' P'. set_page root va pa flags s = Some (Inr (0, t)) \<and> pt_step root F P s F' P' t \<and>
       (\<forall>va'. lookup (mem t) root va' =
          (if va_vpn va' = va_vpn va then Some (leaf_pa 0 (pa_ppn pa) va', flags)
           else lookup (mem s) root va')))"
  using set_page_ok [OF assms] by blast

lemma set_page_correct_witness:
  "\<exists>root (s :: mm_state) t. pt_inv root (initial_free - area 0 root) {root} s \<and>
    set_page root 0x10000 0x87000000 0x17 s = Some (Inr (0, t)) \<and>
    lookup (mem t) root 0x10008 = Some (0x87000008, 0x17) \<and>
    lookup (mem t) root KERNBASE = Some (KERNPHY, 0x2f)"
proof -
  obtain root and s :: mm_state where t: "pt_inv root (initial_free - area 0 root) {root} s"
    "\<forall>va. lookup (mem s) root va = kernel_lookup va" by (rule boot_table) blast
  have "va_off 0x10000 = 0" "pa_off 0x87000000 = 0" "take_bit 8 (0x17 :: u32) = 0x17"
    "(0x17 :: u32) AND PTE_VALID \<noteq> 0" "pte_is_leaf 0x17"
    by (simp_all add: va_off_def pa_off_def field_def pte_is_leaf_def)
  from set_page_correct [OF t(1) this] boot_memory_left [of root] obtain u where
    u: "set_page root 0x10000 0x87000000 0x17 s = Some (Inr (0, u))"
      "\<forall>va'. lookup (mem u) root va' = (if va_vpn va' = va_vpn 0x10000
          then Some (leaf_pa 0 (pa_ppn 0x87000000) va', 0x17) else kernel_lookup va')"
    using t(2) by auto
  have "va_vpn 0x10008 = va_vpn 0x10000" "va_vpn KERNBASE \<noteq> va_vpn 0x10000"
    "leaf_pa 0 (pa_ppn 0x87000000) 0x10008 = 0x87000008"
    by (simp_all add: va_vpn_def field_def pa_ppn_def leaf_pa_def pa_from_ppn_def set_field_def mask_eq_exp_minus_1)
  moreover have "kernel_lookup KERNBASE = Some (KERNPHY, 0x2f)"
    using kernel_lookup_cases(1) [of KERNBASE] by (simp add: PA_of_def)
  ultimately show ?thesis using u t(1) by metis
qed

text \<open>\<open>set_page\<close> panics exactly on a misaligned virtual or physical address.\<close>

theorem set_page_misaligned:
  assumes "pt_inv root F P s" and "take_bit 8 flags = flags" and "flags AND PTE_VALID \<noteq> 0"
    and "pte_is_leaf flags"
  shows "set_page root va pa flags s = Some (Inl ''misaligned page'') \<longleftrightarrow> va_off va \<noteq> 0 \<or> pa_off pa \<noteq> 0"
  using set_page_ok [OF assms(1) _ _ assms(2-4), of va pa] by (auto simp: set_page_def)

lemma set_page_misaligned_witness:
  "\<exists>root (s :: mm_state). set_page root 0x10010 0x87000000 0x17 s = Some (Inl ''misaligned page'')"
proof -
  obtain root and s :: mm_state where "pt_inv root (initial_free - area 0 root) {root} s" by (rule boot_table)
  from set_page_misaligned [OF this, of "0x17" "0x10010" "0x87000000"] show ?thesis
    by (auto simp: va_off_def field_def pte_is_leaf_def)
qed

text \<open>
  Property C24. \<open>unset_page\<close> returns \<open>-ENOENT\<close> and changes nothing when the address is
  not mapped through a level-0 table; otherwise it returns 0, the page translates to
  nothing and every other address keeps its translation.
\<close>

theorem unset_page_correct:
  assumes "pt_inv root F P s" and "va_off va = 0"
  shows "if pte_invalid_or_leaf (get_pte root (vpn 2 va) (mem s)) \<or>
           pte_invalid_or_leaf (pte1_of (mem s) root va)
    then unset_page root va s = Some (Inr (- ENOENT, s))
    else \<exists>t. unset_page root va s = Some (Inr (0, t)) \<and> pt_step root F P s F P t \<and>
      (\<forall>va'. lookup (mem t) root va' = (if va_vpn va' = va_vpn va then None else lookup (mem s) root va'))"
  by (rule unset_page_ok [OF assms])

lemma unset_page_correct_witness:
  "\<exists>root (s :: mm_state). pt_inv root (initial_free - area 0 root) {root} s \<and>
     unset_page root KERNBASE s = Some (Inr (- ENOENT, s))"
proof -
  obtain root and s :: mm_state where t: "pt_inv root (initial_free - area 0 root) {root} s"
    "\<forall>va. lookup (mem s) root va = kernel_lookup va" by (rule boot_table) blast
  have tab: "ptable (Suc 1) (mem s) root {root}"
    using t(1) by (simp only: pt_inv_def numeral_2_eq_2 One_nat_def)
  have "pte_invalid_or_leaf (get_pte root (vpn 2 KERNBASE) (mem s))"
  proof (rule ccontr)
    assume np: "\<not> ?thesis"
    obtain S1 where "ptable 1 (mem s) (sub1_of (mem s) root KERNBASE) S1" "S1 \<subseteq> {root} - {root}"
      using t(1) np unfolding pt_inv_def by (metis path_tables)
    then show False using ptable_pages by blast
  qed
  moreover have "va_off KERNBASE = 0" by (simp add: va_off_def field_def)
  ultimately show ?thesis using unset_page_correct [OF t(1), of KERNBASE] t(1) by auto
qed

text \<open>
  Property C25. A new page table maps the kernel's gigabyte to its physical memory, the
  gigabyte of the devices to the addresses from 0, and no user address; it takes one page
  from the allocator, and the creation panics only when no address is free.
\<close>

theorem create_page_table_correct:
  assumes "allocator F s" and "\<not> early s"
  shows "F = {} \<and> create_page_table s = Some (Inl ''out of memory'') \<or>
    (\<exists>t u. create_page_table s = Some (Inr (t, u)) \<and> area 0 t \<subseteq> F \<and>
       pt_inv t (F - area 0 t) {t} u \<and> agree (- F) (mem s) (mem u) \<and> same_rest s u \<and>
       (\<forall>va. KERNBASE \<le> va \<and> va < KERNSTOP \<longrightarrow> lookup (mem u) t va = Some (PA_of va, 0x2f)) \<and>
       (\<forall>va. MMIOBASE \<le> va \<and> va < MMIOSTOP \<longrightarrow> lookup (mem u) t va = Some (va - MMIOBASE, 0x27)) \<and>
       (\<forall>va. va < SPLIT \<longrightarrow> lookup (mem u) t va = None))"
  using create_page_table_ok [OF assms]
proof (elim disjE exE conjE)
  fix t u
  assume u: "create_page_table s = Some (Inr (t, u))" "area 0 t \<subseteq> F" "pt_inv t (F - area 0 t) {t} u"
    "agree (- F) (mem s) (mem u)" "same_rest s u" "\<forall>va. lookup (mem u) t va = kernel_lookup va"
  have "\<forall>va. KERNBASE \<le> va \<and> va < KERNSTOP \<longrightarrow> lookup (mem u) t va = Some (PA_of va, 0x2f)"
    "\<forall>va. MMIOBASE \<le> va \<and> va < MMIOSTOP \<longrightarrow> lookup (mem u) t va = Some (va - MMIOBASE, 0x27)"
    "\<forall>va. va < SPLIT \<longrightarrow> lookup (mem u) t va = None"
    using u(6) kernel_lookup_cases by metis+
  with u(1-5) show ?thesis by blast
qed blast

lemma create_page_table_correct_witness:
  "\<exists>t u. create_page_table boot_state = Some (Inr (t, u)) \<and>
     lookup (mem u) t (KERNBASE + 0x1234) = Some (0x80001234, 0x2f)"
proof -
  have "KERN_PHYBASE + 0x100000 \<in> initial_free" by (simp add: initial_free_def)
  then have ne: "initial_free \<noteq> {}" by blast
  have "\<not> early boot_state" by (simp add: boot_state_def)
  from create_page_table_correct [OF boot_state_allocator this] ne obtain t u where
    u: "create_page_table boot_state = Some (Inr (t, u))"
      "\<forall>va. KERNBASE \<le> va \<and> va < KERNSTOP \<longrightarrow> lookup (mem u) t va = Some (PA_of va, 0x2f)" by blast
  have "lookup (mem u) t (KERNBASE + 0x1234) = Some (PA_of (KERNBASE + 0x1234), 0x2f)"
    using u(2) [rule_format, of "KERNBASE + 0x1234"] by simp
  with u(1) show ?thesis by (auto simp: PA_of_def)
qed

lemma destroy_page_table_ok:
  assumes "pt_inv root F P s"
  shows "\<exists>t. destroy_page_table root s = Some (Inr ((), t)) \<and> allocator (F \<union> pages P) t \<and>
    agree (- (F \<union> pages P)) (mem s) (mem t) \<and> same_rest s t"
  using destroy_from_ok [of 2 s root P F] pt_invD [OF assms]
  by (simp add: destroy_page_table_def do_destroy_page_table_def)

text \<open>
  Property C23. \<open>destroy_page_table\<close> ends and gives exactly the pages of the table's tables
  back to the allocator; nothing outside these pages and the free memory changes.
\<close>

theorem destroy_page_table_correct:
  assumes "pt_inv root F P s"
  shows "\<exists>t. destroy_page_table root s = Some (Inr ((), t)) \<and> allocator (F \<union> pages P) t \<and>
    agree (- (F \<union> pages P)) (mem s) (mem t) \<and> same_rest s t"
  by (rule destroy_page_table_ok [OF assms])

lemma destroy_page_table_correct_witness:
  "\<exists>root s t. create_page_table boot_state = Some (Inr (root, s)) \<and>
     destroy_page_table root s = Some (Inr ((), t)) \<and> allocator initial_free t"
proof -
  obtain root and s :: mm_state where s: "create_page_table boot_state = Some (Inr (root, s))"
    "pt_inv root (initial_free - area 0 root) {root} s" "area 0 root \<subseteq> initial_free"
    by (rule boot_table) blast
  have "initial_free - area 0 root \<union> pages {root} = initial_free" using s(3) by auto
  with destroy_page_table_correct [OF s(2)] s(1) show ?thesis by auto
qed

text \<open>
  Property C22. \<open>unset_user_pages\<close> ends, unmaps every user address and keeps the
  translations of the kernel's half; the tables of the user half go back to the allocator
  and those that remain are well formed.
\<close>

theorem unset_user_pages_correct:
  assumes "pt_inv root F P s"
  shows "\<exists>u F' P'. unset_user_pages root s = Some (Inr ((), u)) \<and> pt_inv root F' P' u \<and> P' \<subseteq> P \<and>
    F' \<union> pages P' = F \<union> pages P \<and> agree (- (F \<union> pages P)) (mem s) (mem u) \<and> same_rest s u \<and>
    (\<forall>j<252. get_pte root j (mem u) = 0) \<and>
    (\<forall>va. lookup (mem u) root va = (if va_vpn2 va < 252 then None else lookup (mem s) root va))"
  using unset_user_from_ok [OF _ assms, of 0] by (simp add: unset_user_pages_def vpn_simps)

lemma unset_user_pages_correct_witness:
  "\<exists>root (s :: mm_state) u. unset_user_pages root s = Some (Inr ((), u)) \<and>
     lookup (mem u) root KERNBASE = Some (KERNPHY, 0x2f)"
proof -
  obtain root and s :: mm_state where s: "pt_inv root (initial_free - area 0 root) {root} s"
    "\<forall>va. lookup (mem s) root va = kernel_lookup va" by (rule boot_table) blast
  from unset_user_pages_correct [OF s(1)] obtain u where
    u: "unset_user_pages root s = Some (Inr ((), u))"
      "lookup (mem u) root KERNBASE = (if va_vpn2 KERNBASE < 252 then None else lookup (mem s) root KERNBASE)"
    by blast
  have "kernel_lookup KERNBASE = Some (KERNPHY, 0x2f)"
    using kernel_lookup_cases(1) [of KERNBASE] by (simp add: PA_of_def)
  moreover have "\<not> va_vpn2 KERNBASE < 252" by (simp add: va_vpn2_def field_def)
  ultimately have "lookup (mem u) root KERNBASE = Some (KERNPHY, 0x2f)" using u(2) s(2) by (simp only: if_False)
  with u(1) show ?thesis by blast
qed

text \<open>
  \<open>unset_page_1g\<close> takes the index \<open>vpn1\<close> of an address whose \<open>vpn1\<close> it has
  just checked to be 0, so it clears the first entry of the table whatever the address:
  the first gigabyte is unmapped and the gigabyte of \<open>va\<close>, if another, stays mapped.
\<close>

theorem unset_page_1g_first_entry:
  assumes "pt_inv root F P s" and "va_off va = 0" and "va_vpn0 va = 0" and "va_vpn1 va = 0"
    and "pte_invalid_or_leaf (get_pte root 0 (mem s))"
  shows "\<exists>t. unset_page_1g root va s = Some (Inr (0, t)) \<and> pt_inv root F P t \<and>
    (\<forall>va'. lookup (mem t) root va' = (if va_vpn2 va' = 0 then None else lookup (mem s) root va'))"
proof -
  note I = pt_invD [OF assms(1)]
  have tab: "ptable (Suc 1) (mem s) root P" using I(3) by (simp add: numeral_2_eq_2)
  have z: "(0 :: u64) < 512" by simp
  let ?new = "cleared (get_pte root 0 (mem s))"
  let ?t = "s\<lparr>mem := store64 (mem s) (pte_addr root 0) ?new\<rparr>"
  have call: "unset_page_1g root va s = Some (Inr (0, ?t))"
    using assms(2-5) by (simp add: unset_page_1g_def check_va_1g_def kbind_Inr kthen_Inr
        clear_pte_valid_eq get_pte_def Let_def)
  have S: "entry_pages (ptable 1 (mem s)) (Suc 1) (get_pte root 0 (mem s)) {}"
    using ptable_entry_ok(1) [OF tab z assms(5)] assms(5) by (simp add: entry_pages_def)
  have g: "get_pte root j (mem ?t) = (if 0 = j then ?new else get_pte root j (mem s))" if "j < 512" for j
    using that by (simp add: get_pte_store)
  have inv: "pte_invalid_or_leaf ?new" "entry_ok (Suc 1) ?new" "leaf_result l ?new v = None" for l v
    by (simp_all add: pte_invalid_or_leaf_iff cleared_invalid entry_ok_def leaf_result_def)
  have S': "entry_pages (ptable 1 (mem ?t)) (Suc 1) (get_pte root 0 (mem ?t)) {}"
    using inv g [of 0] by (simp add: entry_pages_def)
  have ag: "agree (pages (P - {} - {root})) (mem s) (mem ?t)"
    using agree_pte_store [OF z, of root "pages (P - {} - {root})"] pages_Int_empty [of "{root}" "P - {root}"] I(5,6)
    by simp
  note U = ptable_update [OF tab z S S' _ _ ag]
  have cell: "span (pte_addr root 0) 8 \<subseteq> pages P" using I(5) z by (rule pages_cell)
  have "allocator F ?t"
    using cell I(4) by (intro allocator_frame [OF I(1)]) (auto intro!: agree_sym [OF agree_store64])
  moreover have "ptable 2 (mem ?t) root P" using U(1) g by (simp add: numeral_2_eq_2)
  ultimately have "pt_inv root F P ?t" using I(2,4) by (simp add: pt_inv_def)
  moreover have "lookup (mem ?t) root va' = (if va_vpn2 va' = 0 then None else lookup (mem s) root va')" for va'
  proof -
    have "get_pte root 0 (mem ?t) = ?new" using g [of 0] by simp
    with U(3) [of va'] g inv show ?thesis
      by (simp only: lookup_def numeral_2_eq_2 One_nat_def vpn_simps if_True) auto
  qed
  ultimately show ?thesis using call by blast
qed

lemma unset_page_1g_first_entry_witness:
  "\<exists>root (s :: mm_state) t. unset_page_1g root KERNBASE s = Some (Inr (0, t)) \<and>
     lookup (mem t) root KERNBASE = Some (KERNPHY, 0x2f)"
proof -
  obtain root and s :: mm_state where s: "pt_inv root (initial_free - area 0 root) {root} s"
    "\<forall>va. lookup (mem s) root va = kernel_lookup va" by (rule boot_table) blast
  have tab: "ptable (Suc 1) (mem s) root {root}"
    using s(1) by (simp only: pt_inv_def numeral_2_eq_2 One_nat_def)
  have "pte_invalid_or_leaf (get_pte root 0 (mem s))"
  proof (rule ccontr)
    assume np: "\<not> ?thesis"
    have "vpn 2 0 = 0" by (simp add: vpn_def field_def)
    then obtain S1 where "ptable 1 (mem s) (sub1_of (mem s) root 0) S1" "S1 \<subseteq> {root} - {root}"
      using s(1) np unfolding pt_inv_def by (metis path_tables)
    then show False using ptable_pages by blast
  qed
  moreover have "va_off KERNBASE = 0" "va_vpn0 KERNBASE = 0" "va_vpn1 KERNBASE = 0" "va_vpn2 KERNBASE \<noteq> 0"
    by (simp_all add: va_off_def va_vpn0_def va_vpn1_def va_vpn2_def field_def)
  ultimately obtain t where t: "unset_page_1g root KERNBASE s = Some (Inr (0, t))"
    "lookup (mem t) root KERNBASE = kernel_lookup KERNBASE"
    using unset_page_1g_first_entry [OF s(1), of KERNBASE] s(2) by metis
  have "kernel_lookup KERNBASE = Some (KERNPHY, 0x2f)"
    using kernel_lookup_cases(1) [of KERNBASE] by (simp add: PA_of_def)
  with t show ?thesis by metis
qed

end
