(* ===== verification/User_Access.thy ===== *)
theory User_Access
  imports Thread Paging_Correct
begin

section \<open>Access to user memory (mm.c, mm.h, string.c)\<close>

text \<open>
  \<open>copy_from_user\<close>, \<open>copy_to_user\<close>, \<open>user_strlcpy\<close> and \<open>user_copy_args\<close> of
  \<^verbatim>\<open>kernel/mm.c\<close>, and \<open>strlcpy\<close>, which runs on pointers of both halves of the
  address space. Each call stores its registers in the global \<open>page_fault_handler\<close> first. A page
  fault inside it ends its loop early: the loops return \<open>False\<close>, \<open>None\<close> or \<open>Fault\<close> with the state at
  the fault. The trap then writes \<open>trapframe\<close> and the running task's \<open>kernel_frame\<close> (\<open>page_fault\<close> of
  \<^verbatim>\<open>Thread\<close>), and the call goes on as after the second return of \<open>ksetjmp\<close>, which presupposes that
  \<open>page_fault_handler\<close> is not among the bytes that the copy itself writes.
\<close>

subsection \<open>Loads and stores through the active page table\<close>

definition active_root :: "'a cpu_state_scheme \<Rightarrow> u64" where
  "active_root s = VA_of (pa_from_ppn (field 0 44 (satp s)))"

text \<open>
  The kernel's half is mapped linearly, so a kernel address is an index of the memory. An
  address of the user half is translated; supervisor mode may touch a user page only while
  \<open>sum\<close> is set, and the page must have the right \<open>acc\<close> (read or write).
\<close>

definition user_cell :: "u32 \<Rightarrow> 'a cpu_state_scheme \<Rightarrow> u64 \<Rightarrow> u64 option" where
  "user_cell acc s a =
     (case lookup (mem s) (active_root s) a of
        None \<Rightarrow> None
      | Some (pa, flags) \<Rightarrow>
          if flags AND acc \<noteq> 0 \<and> (flags AND PTE_USER = 0 \<or> status_sum (sstatus s))
          then Some (VA_of pa) else None)"

definition vread :: "'a cpu_state_scheme \<Rightarrow> u64 \<Rightarrow> u8 option" where
  "vread s a = (if a < SPLIT then map_option (mem s) (user_cell PTE_READ s a) else Some (mem s a))"

definition vwrite :: "'a cpu_state_scheme \<Rightarrow> u64 \<Rightarrow> u8 \<Rightarrow> 'a cpu_state_scheme option" where
  "vwrite s a b =
     (if a < SPLIT then map_option (\<lambda>k. s\<lparr>mem := store8 (mem s) k b\<rparr>) (user_cell PTE_WRITE s a)
      else Some (s\<lparr>mem := store8 (mem s) a b\<rparr>))"

primrec vread_le :: "nat \<Rightarrow> 'a cpu_state_scheme \<Rightarrow> u64 \<Rightarrow> u64 option" where
  "vread_le 0 s a = Some 0"
| "vread_le (Suc n) s a =
     (case vread s a of
        None \<Rightarrow> None
      | Some b \<Rightarrow> map_option (\<lambda>v. ucast b OR push_bit 8 v) (vread_le n s (a + 1)))"

text \<open>The first byte that cannot be read, which the processor reports when it faults on a longer load.\<close>

primrec first_fault :: "nat \<Rightarrow> 'a cpu_state_scheme \<Rightarrow> u64 \<Rightarrow> u64" where
  "first_fault 0 s a = a"
| "first_fault (Suc n) s a = (if vread s a = None then a else first_fault n s (a + 1))"

subsection \<open>The window in which page faults are allowed\<close>

definition enter_sum :: "('a cpu_state_scheme, unit) kern" where
  "enter_sum = kmodify (\<lambda>s. s\<lparr>may_page_fault := True, sstatus := csrns 18 (sstatus s)\<rparr>)"

definition exit_sum :: "('a cpu_state_scheme, unit) kern" where
  "exit_sum = kmodify (\<lambda>s. s\<lparr>may_page_fault := False, sstatus := csrnc 18 (sstatus s)\<rparr>)"

text \<open>
  \<open>size_t\<close> is \<open>i64\<close> in this program (type.h), so that sizes are compared as signed numbers,
  while \<open>(u64) SPLIT - size\<close> is computed in unsigned arithmetic.
\<close>

definition TASK_SIZE_MAX :: u64 where "TASK_SIZE_MAX = 128 * 1024 * 1024"

definition access_ok :: "u64 \<Rightarrow> u64 \<Rightarrow> bool" where
  "access_ok addr sz \<longleftrightarrow> sz <=s TASK_SIZE_MAX \<and> addr \<le> SPLIT - sz"

subsection \<open>Copies\<close>

function copy_loop ::
  "u64 \<Rightarrow> u64 \<Rightarrow> u64 \<Rightarrow> u64 \<Rightarrow> 'a cpu_state_scheme \<Rightarrow> bool \<times> 'a cpu_state_scheme" where
  "copy_loop i n dest src s =
     (if i <s n then
        (case vread s (src + i) of
           None \<Rightarrow> (False, access_fault LOAD_FAULT (src + i) s)
         | Some b \<Rightarrow>
             (case vwrite s (dest + i) b of
                None \<Rightarrow> (False, access_fault STORE_FAULT (dest + i) s)
              | Some t \<Rightarrow> copy_loop (i + 1) n dest src t))
      else (True, s))"
  by pat_completeness auto
termination
  by (relation "measure (\<lambda>(i, n, dest, src, s). nat (sint n - sint i))") (simp_all add: sloop_measure)

declare copy_loop.simps [simp del]

definition user_memcpy :: "symbols \<Rightarrow> u64 \<Rightarrow> u64 \<Rightarrow> u64 \<Rightarrow> ('a sched_state_scheme, int) kern" where
  "user_memcpy G dest src n =
     kthen (ksetjmp G (sym_page_fault_handler G))
    (kthen enter_sum
    (kbind (\<lambda>s. Some (Inr (copy_loop 0 n dest src s))) (\<lambda>ok.
     kthen (if ok then kreturn () else page_fault G)
    (kthen exit_sum (kreturn (if ok then 0 else - EFAULT))))))"

definition copy_from_user :: "symbols \<Rightarrow> u64 \<Rightarrow> u64 \<Rightarrow> u64 \<Rightarrow> ('a sched_state_scheme, int) kern" where
  "copy_from_user G dest src n =
     (if \<not> access_ok src n then kreturn (- EFAULT) else user_memcpy G dest src n)"

definition copy_to_user :: "symbols \<Rightarrow> u64 \<Rightarrow> u64 \<Rightarrow> u64 \<Rightarrow> ('a sched_state_scheme, int) kern" where
  "copy_to_user G dest src n =
     (if \<not> access_ok dest n then kreturn (- EFAULT) else user_memcpy G dest src n)"

subsection \<open>Strings\<close>

text \<open>\<open>strlen\<close> on a kernel string; it does not end without a NUL.\<close>

partial_function (option) strlen_from :: "memory \<Rightarrow> u64 \<Rightarrow> u64 \<Rightarrow> u64 option" where
  "strlen_from m str i = (if m (str + i) = 0 then Some i else strlen_from m str (i + 1))"

definition strlen :: "memory \<Rightarrow> u64 \<Rightarrow> u64 option" where
  "strlen m str = strlen_from m str 0"

function strlcpy_loop ::
  "u64 \<Rightarrow> u64 \<Rightarrow> u64 \<Rightarrow> u64 \<Rightarrow> 'a cpu_state_scheme \<Rightarrow> u64 option \<times> 'a cpu_state_scheme" where
  "strlcpy_loop i n dest src s =
     (if i <s n then
        (case vread s (src + i) of
           None \<Rightarrow> (None, access_fault LOAD_FAULT (src + i) s)
         | Some b \<Rightarrow>
             (case vwrite s (dest + i) b of
                None \<Rightarrow> (None, access_fault STORE_FAULT (dest + i) s)
              | Some t \<Rightarrow>
                  (case vread t (src + i) of
                     None \<Rightarrow> (None, access_fault LOAD_FAULT (src + i) t)
                   | Some c \<Rightarrow> if c = 0 then (Some i, t) else strlcpy_loop (i + 1) n dest src t)))
      else
        (case vwrite s (dest + (n - 1)) 0 of
           None \<Rightarrow> (None, access_fault STORE_FAULT (dest + (n - 1)) s)
         | Some t \<Rightarrow> (Some n, t)))"
  by pat_completeness auto
termination
  by (relation "measure (\<lambda>(i, n, dest, src, s). nat (sint n - sint i))") (simp_all add: sloop_measure)

declare strlcpy_loop.simps [simp del]

definition strlcpy :: "u64 \<Rightarrow> u64 \<Rightarrow> u64 \<Rightarrow> ('a cpu_state_scheme, u64 option) kern" where
  "strlcpy dest src n =
     kthen (kassert (0 <s n) ''strlcpy: bad n'') (\<lambda>s. Some (Inr (strlcpy_loop 0 n dest src s)))"

definition user_strlcpy :: "symbols \<Rightarrow> u64 \<Rightarrow> u64 \<Rightarrow> u64 \<Rightarrow> ('a sched_state_scheme, u64) kern" where
  "user_strlcpy G dest src n =
     kthen (kassert (0 <s n) ''user_strlcpy: bad n'')
       (if \<not> access_ok src n then kreturn (of_int (- EFAULT))
        else
          kthen (ksetjmp G (sym_page_fault_handler G))
         (kthen enter_sum
         (kbind (strlcpy dest src n) (\<lambda>r.
          kthen (if r = None then page_fault G else kreturn ())
         (kthen exit_sum (kreturn (case r of None \<Rightarrow> of_int (- EFAULT) | Some len \<Rightarrow> len)))))))"

subsection \<open>Argument vectors\<close>

definition ARG_MAX_bytes :: u64 where "ARG_MAX_bytes = PAGE_SIZE - 16"

text \<open>
  \<open>for (argc = 0; args_ok[argc]; ++argc)\<close>: \<open>Inl a\<close> is a page fault at the address \<open>a\<close>, \<open>Inr\<close> the count, and \<open>None\<close> a
  loop that never meets a null pointer.
\<close>

partial_function (option) count_args :: "'a cpu_state_scheme \<Rightarrow> u64 \<Rightarrow> u64 \<Rightarrow> (u64 + u64) option" where
  "count_args s args argc =
     (case vread_le 8 s (args + 8 * argc) of
        None \<Rightarrow> Some (Inl (first_fault 8 s (args + 8 * argc)))
      | Some p \<Rightarrow> if p = 0 then Some (Inr argc) else count_args s args (argc + 1))"

datatype copy_outcome = Copied | Fault | TooBig

text \<open>The second loop; \<open>i64 i\<close>, \<open>argc\<close>, \<open>off\<close> and the length are signed.\<close>

function copy_args_loop ::
  "u64 \<Rightarrow> u64 \<Rightarrow> u64 \<Rightarrow> u64 \<Rightarrow> u64 \<Rightarrow> ('a cpu_state_scheme, copy_outcome) kern" where
  "copy_args_loop i argc off buf args =
     (if i <s argc then
        kthen (kmodify (\<lambda>s. s\<lparr>mem := store64 (mem s) (buf + 8 * i) (buf + off)\<rparr>))
       (kbind (kgets (\<lambda>s. vread_le 8 s (args + 8 * i))) (\<lambda>p.
          case p of
            None \<Rightarrow> kthen (kmodify (\<lambda>s. access_fault LOAD_FAULT (first_fault 8 s (args + 8 * i)) s)) (kreturn Fault)
          | Some arg \<Rightarrow>
              kbind (strlcpy (buf + off) arg (ARG_MAX_bytes - off)) (\<lambda>r.
                case r of
                  None \<Rightarrow> kreturn Fault
                | Some len \<Rightarrow>
                    if ARG_MAX_bytes - off <=s len then kreturn TooBig
                    else copy_args_loop (i + 1) argc (off + (len + 1)) buf args)))
      else kreturn Copied)"
  by pat_completeness auto
termination
  by (relation "measure (\<lambda>(i, argc, off, buf, args). nat (sint argc - sint i))") (simp_all add: sloop_measure)

declare copy_args_loop.simps [simp del]

definition user_copy_args :: "symbols \<Rightarrow> u64 \<Rightarrow> ('a sched_state_scheme, u64) kern" where
  "user_copy_args G args =
     (if \<not> access_ok args 8 then kreturn (ERR_PTR (of_int EFAULT))
      else kbind (kmalloc ARG_MAX_bytes) (\<lambda>buf.
        if buf = 0 then kreturn (ERR_PTR (of_int ENOMEM))
        else
          (let cleanup = (\<lambda>retval. kthen (kfree buf) (kthen exit_sum (kreturn retval)));
               fault = kthen (page_fault G) (cleanup (ERR_PTR (of_int EFAULT)))
           in kthen (ksetjmp G (sym_page_fault_handler G))
             (kthen enter_sum
             (kbind (kwalk (\<lambda>s. count_args s args 0)) (\<lambda>r.
                case r of
                  Inl a \<Rightarrow> kthen (kmodify (access_fault LOAD_FAULT a)) fault
                | Inr argc \<Rightarrow>
                    (let arg_size = (argc + 1) * 8
                     in if ARG_MAX_bytes <s arg_size then kreturn (ERR_PTR (of_int E2BIG))
                        else kbind (copy_args_loop 0 argc arg_size buf args) (\<lambda>out.
                          case out of
                            Fault \<Rightarrow> fault
                          | TooBig \<Rightarrow> cleanup (ERR_PTR (of_int E2BIG))
                          | Copied \<Rightarrow>
                              kthen (kmodify (\<lambda>s. s\<lparr>mem := store64 (mem s) (buf + 8 * argc) 0\<rparr>))
                             (kthen exit_sum (kreturn buf))))))))))"

end
