(* ===== verification/User_Access_Correct.thy ===== *)
theory User_Access_Correct
  imports User_Access
begin

section \<open>Correctness of the access to user memory\<close>

text \<open>
  The copies between the two halves of the address space: what they return, what they write
  and in which state they leave the window in which page faults are allowed; then the
  argument vectors of \<open>execve\<close>, with the inputs on which \<open>user_copy_args\<close> leaks its buffer
  or panics. The concrete process at the end of the first half is what the witnesses use.
\<close>

subsection \<open>Copies from user memory\<close>

lemma cpu_mem_update [simp]:
  "satp (s\<lparr>mem := m\<rparr>) = satp s" "sstatus (s\<lparr>mem := m\<rparr>) = sstatus s"
  "may_page_fault (s\<lparr>mem := m\<rparr>) = may_page_fault s"
  by (cases s, simp)+

lemma user_cell_frame:
  assumes "ptable 2 (mem s) (active_root s) P" and "agree (pages P) (mem s) m"
  shows "user_cell acc (s\<lparr>mem := m\<rparr>) a = user_cell acc s a"
  using ptable_frame(2) [OF assms, of a]
  by (simp add: user_cell_def lookup_def active_root_def split: option.split)

definition opened :: "'a cpu_state_scheme \<Rightarrow> 'a cpu_state_scheme" where
  "opened s = s\<lparr>may_page_fault := True, sstatus := csrns 18 (sstatus s)\<rparr>"

definition closed :: "'a cpu_state_scheme \<Rightarrow> 'a cpu_state_scheme" where
  "closed s = s\<lparr>may_page_fault := False, sstatus := csrnc 18 (sstatus s)\<rparr>"

lemma enter_sum_eq [simp]: "enter_sum s = Some (Inr ((), opened s))"
  and exit_sum_eq [simp]: "exit_sum s = Some (Inr ((), closed s))"
  by (simp_all add: enter_sum_def exit_sum_def opened_def closed_def)

lemma closed_facts [simp]: "may_page_fault (closed s) = False" "\<not> status_sum (sstatus (closed s))"
    "mem (closed s) = mem s" "buddy_pages (closed s) = buddy_pages s"
  and opened_facts [simp]: "may_page_fault (opened s) = True" "status_sum (sstatus (opened s))"
    "mem (opened s) = mem s" "buddy_pages (opened s) = buddy_pages s"
  by (simp_all add: closed_def opened_def status_sum_def bit_csrnc bit_csrns)

lemma closed_allocator [simp]: "allocator F (closed s) \<longleftrightarrow> allocator F s"
proof
  show "allocator F s" if "allocator F (closed s)"
    by (rule allocator_frame [OF that]) simp_all
  show "allocator F (closed s)" if "allocator F s"
    by (rule allocator_frame [OF that]) simp_all
qed

lemma opened_allocator [simp]: "allocator F (opened s) \<longleftrightarrow> allocator F s"
proof
  show "allocator F s" if "allocator F (opened s)"
    by (rule allocator_frame [OF that]) simp_all
  show "allocator F (opened s)" if "allocator F s"
    by (rule allocator_frame [OF that]) simp_all
qed

text \<open>The byte of the memory that an access of kind \<open>acc\<close> at an address reaches.\<close>

definition vcell :: "u32 \<Rightarrow> 'a cpu_state_scheme \<Rightarrow> u64 \<Rightarrow> u64 option" where
  "vcell acc s a = (if a < SPLIT then user_cell acc s a else Some a)"

lemma vread_vcell: "vread s a = map_option (mem s) (vcell PTE_READ s a)"
  and vwrite_vcell: "vwrite s a b =
    map_option (\<lambda>k. s\<lparr>mem := store8 (mem s) k b\<rparr>) (vcell PTE_WRITE s a)"
  by (simp_all add: vread_def vwrite_def vcell_def)

lemma vcell_frame:
  assumes "ptable 2 (mem s) (active_root s) P" and "agree (pages P) (mem s) m"
  shows "vcell acc (s\<lparr>mem := m\<rparr>) a = vcell acc s a"
  using user_cell_frame [OF assms] by (simp add: vcell_def)

text \<open>The cells that a copy of \<open>n\<close> bytes to \<open>dest\<close> writes.\<close>

definition dest_cells :: "'a cpu_state_scheme \<Rightarrow> u64 \<Rightarrow> u64 \<Rightarrow> u64 set" where
  "dest_cells s dest n = {k. \<exists>j<n. vcell PTE_WRITE s (dest + j) = Some k}"

definition copyable :: "'a cpu_state_scheme \<Rightarrow> u64 \<Rightarrow> u64 \<Rightarrow> u64 \<Rightarrow> bool" where
  "copyable s dest src j \<longleftrightarrow> vcell PTE_READ s (src + j) \<noteq> None \<and> vcell PTE_WRITE s (dest + j) \<noteq> None"

text \<open>
  What a copy relies on: the translation does not change under it, it does not overwrite its
  source, and no byte of the memory is written twice.
\<close>

definition copy_safe :: "'a cpu_state_scheme \<Rightarrow> u64 \<Rightarrow> u64 \<Rightarrow> u64 \<Rightarrow> bool" where
  "copy_safe s dest src n \<longleftrightarrow>
     (\<exists>P. ptable 2 (mem s) (active_root s) P \<and> pages P \<inter> dest_cells s dest n = {}) \<and>
     (\<forall>j<n. \<forall>k. vcell PTE_READ s (src + j) = Some k \<longrightarrow> k \<notin> dest_cells s dest n) \<and>
     (\<forall>i<n. \<forall>j<n. \<forall>k. vcell PTE_WRITE s (dest + i) = Some k \<and> vcell PTE_WRITE s (dest + j) = Some k \<longrightarrow> i = j)"

text \<open>The result of the loop; when it ends early, the fault is at a byte that cannot be copied.\<close>

definition fault_at :: "'a cpu_state_scheme \<Rightarrow> u64 \<Rightarrow> u64 \<Rightarrow> u64 \<Rightarrow> u64 \<Rightarrow> u64 \<Rightarrow> bool" where
  "fault_at s dest src n c a \<longleftrightarrow>
     (\<exists>j<n. c = LOAD_FAULT \<and> a = src + j \<and> vcell PTE_READ s a = None \<or>
       c = STORE_FAULT \<and> a = dest + j \<and> vcell PTE_WRITE s a = None)"

definition loop_result ::
  "'a cpu_state_scheme \<Rightarrow> u64 \<Rightarrow> u64 \<Rightarrow> u64 \<Rightarrow> bool \<Rightarrow> memory \<Rightarrow> bool \<times> 'a cpu_state_scheme \<Rightarrow> bool" where
  "loop_result s dest src n ok m x \<longleftrightarrow>
     (if ok then x = (True, s\<lparr>mem := m\<rparr>)
      else \<exists>c a. x = (False, access_fault c a (s\<lparr>mem := m\<rparr>)) \<and> fault_at s dest src n c a)"

lemma copy_loop_ok:
  assumes safe: "copy_safe s dest src n" and pos: "0 <=s n"
  shows "i \<le> n \<Longrightarrow> agree (- dest_cells s dest n) (mem s) m \<Longrightarrow>
    \<exists>m'. loop_result s dest src n (\<forall>j. i \<le> j \<and> j < n \<longrightarrow> copyable s dest src j) m'
        (copy_loop i n dest src (s\<lparr>mem := m\<rparr>)) \<and>
      agree (- dest_cells s dest n) (mem s) m' \<and>
      (\<forall>j<i. \<forall>k. vcell PTE_WRITE s (dest + j) = Some k \<longrightarrow> m' k = m k) \<and>
      ((\<forall>j. i \<le> j \<and> j < n \<longrightarrow> copyable s dest src j) \<longrightarrow>
         (\<forall>j k. i \<le> j \<and> j < n \<and> vcell PTE_WRITE s (dest + j) = Some k \<longrightarrow>
            vread s (src + j) = Some (m' k)))"
proof (induction "unat n - unat i" arbitrary: i m)
  case 0
  then have "i = n" by (simp add: word_le_nat_alt word_unat_eq_iff)
  then have "copy_loop i n dest src (s\<lparr>mem := m\<rparr>) = (True, s\<lparr>mem := m\<rparr>)"
    by (subst copy_loop.simps) (simp add: word_sless_alt)
  with 0 \<open>i = n\<close> show ?case by (intro exI [of _ m]) (auto simp: loop_result_def)
next
  case (Suc x)
  then have i: "i < n" by (simp add: word_less_nat_alt)
  have si: "i <s n" using i sloop_less [OF pos, of i] by simp
  let ?D = "dest_cells s dest n"
  let ?t = "s\<lparr>mem := m\<rparr>"
  obtain P where tab: "ptable 2 (mem s) (active_root s) P" "pages P \<inter> ?D = {}"
    using safe unfolding copy_safe_def by blast
  have pg: "agree (pages P) (mem s) m" using tab(2) by (intro agree_mono [OF Suc.prems(2)]) auto
  note cell = vcell_frame [OF tab(1) pg]
  show ?case
  proof (cases "copyable s dest src i")
    case False
    have "\<exists>c a. copy_loop i n dest src ?t = (False, access_fault c a ?t) \<and> fault_at s dest src n c a"
    proof (cases "vcell PTE_READ s (src + i)")
      case None
      then have "copy_loop i n dest src ?t = (False, access_fault LOAD_FAULT (src + i) ?t)"
        using si cell by (subst copy_loop.simps) (simp add: vread_vcell)
      then show ?thesis using None i unfolding fault_at_def by blast
    next
      case (Some k)
      with False have w: "vcell PTE_WRITE s (dest + i) = None" by (simp add: copyable_def)
      then have "copy_loop i n dest src ?t = (False, access_fault STORE_FAULT (dest + i) ?t)"
        using si cell Some by (subst copy_loop.simps) (simp add: vread_vcell vwrite_vcell)
      then show ?thesis using w i unfolding fault_at_def by blast
    qed
    with False i Suc.prems(2) show ?thesis by (intro exI [of _ m]) (auto simp: loop_result_def)
  next
    case True
    then obtain k d where k: "vcell PTE_READ s (src + i) = Some k" and d: "vcell PTE_WRITE s (dest + i) = Some d"
      by (auto simp: copyable_def)
    have "k \<notin> ?D" using safe i k unfolding copy_safe_def by blast
    then have mk: "m k = mem s k" using Suc.prems(2) by (simp add: agree_def)
    have inD: "d \<in> ?D" using i d unfolding dest_cells_def by blast
    let ?m = "store8 m d (m k)"
    have step: "copy_loop i n dest src ?t = copy_loop (i + 1) n dest src (s\<lparr>mem := ?m\<rparr>)"
      using si k d cell by (subst copy_loop.simps) (simp add: vread_vcell vwrite_vcell)
    have u: "unat (i + 1) = Suc (unat i)" by (rule unat_Suc_less [OF i])
    have le: "i + 1 \<le> n" using u i by (simp add: word_le_nat_alt word_less_nat_alt)
    have "agree (- ?D) m ?m" using inD by (intro agree_sym [OF agree_store8]) simp
    with Suc.prems(2) have ag: "agree (- ?D) (mem s) ?m" by (rule agree_trans)
    have x: "x = unat n - unat (i + 1)" using Suc.hyps(2) u by simp
    from Suc.hyps(1) [OF x le ag] obtain m' where
      m': "loop_result s dest src n (\<forall>j. i + 1 \<le> j \<and> j < n \<longrightarrow> copyable s dest src j) m'
          (copy_loop (i + 1) n dest src (s\<lparr>mem := ?m\<rparr>))"
        "agree (- ?D) (mem s) m'"
        "\<forall>j<i + 1. \<forall>k. vcell PTE_WRITE s (dest + j) = Some k \<longrightarrow> m' k = ?m k"
        "(\<forall>j. i + 1 \<le> j \<and> j < n \<longrightarrow> copyable s dest src j) \<longrightarrow>
         (\<forall>j k. i + 1 \<le> j \<and> j < n \<and> vcell PTE_WRITE s (dest + j) = Some k \<longrightarrow>
            vread s (src + j) = Some (m' k))" by blast
    have split: "i \<le> j \<longleftrightarrow> j = i \<or> i + 1 \<le> j" "j < i \<or> j = i \<longleftrightarrow> j < i + 1" for j
      using u by (auto simp: word_le_nat_alt word_less_nat_alt word_unat_eq_iff)
    have "m' d = m k" using m'(3) split(2) [of i] d by simp
    then have vi: "vread s (src + i) = Some (m' d)" using k mk by (simp add: vread_vcell)
    have old: "m' e = m e" if "j < i" "vcell PTE_WRITE s (dest + j) = Some e" for j e
    proof -
      have "j < i + 1" "j \<noteq> i" using that(1) split(2) [of j] by auto
      moreover have "e \<noteq> d"
        using safe i d that(2) \<open>j \<noteq> i\<close> less_trans [OF that(1) i] unfolding copy_safe_def by blast
      ultimately show ?thesis using m'(3) that(2) by (simp add: store8_other)
    qed
    have all: "(\<forall>j. i \<le> j \<and> j < n \<longrightarrow> copyable s dest src j) \<longleftrightarrow>
        (\<forall>j. i + 1 \<le> j \<and> j < n \<longrightarrow> copyable s dest src j)"
      using split(1) True by auto
    have new: "vread s (src + j) = Some (m' e)"
      if "\<forall>j. i + 1 \<le> j \<and> j < n \<longrightarrow> copyable s dest src j" "i \<le> j" "j < n"
        "vcell PTE_WRITE s (dest + j) = Some e" for j e
      using that m'(4) vi d split(1) [of j] by (cases "j = i") auto
    show ?thesis unfolding all using step m'(1,2) old new by (intro exI [of _ m']) simp
  qed
qed

text \<open>
  What a page fault of the kernel writes: \<open>trapframe\<close>, the running task's \<open>kernel_frame\<close>, and the registers of the processor.
  \<open>faulted s t\<close>: after a call that took one, all the rest is as in \<open>s\<close>, and the window is closed.
\<close>

definition fault_span :: "symbols \<Rightarrow> 'a sched_state_scheme \<Rightarrow> u64 set" where
  "fault_span G s = span (sym_trapframe G) 264 \<union>
     (if current_task s = 0 then {} else span (t_kernel_frame (current_task s)) 264)"

lemma fault_span_mem [simp]: "fault_span G (s\<lparr>mem := m\<rparr>) = fault_span G s"
  by (cases "current_task s = 0") (simp_all add: fault_span_def)

definition faulted :: "'a sched_state_scheme \<Rightarrow> 'a sched_state_scheme \<Rightarrow> bool" where
  "faulted s t \<longleftrightarrow>
     t = s\<lparr>mem := mem t, sstatus := sstatus t, scause := scause t, stval := stval t,
           may_page_fault := False, sepc := sepc t\<rparr> \<and>
     \<not> status_sum (sstatus t) \<and>
     (\<forall>i. i \<notin> {1, 5, 8, 18} \<longrightarrow> bit (sstatus t) i = bit (sstatus s) i)"

definition handler_span :: "symbols \<Rightarrow> u64 set" where
  "handler_span G = span (sym_page_fault_handler G) 264"

lemma page_fault_ok:
  fixes s :: "'a sched_state_scheme"
  shows "\<exists>u. page_fault G (access_fault c a (opened s)) = Some (Inr ((), u)) \<and> faulted s (closed u) \<and>
    agree (- fault_span G s) (mem s) (mem u) \<and> scause u = c \<and> stval u = a \<and> buddy_pages u = buddy_pages s"
proof -
  obtain regs at where R: "sym_fault_context G (kernel_regs s) (mem s) = (regs, at)" by (cases "sym_fault_context G (kernel_regs s) (mem s)")
  define v where "v = put_bit 1 False (put_bit 5 (bit (sstatus (opened s)) 1) (set_field 8 1 1 (sstatus (opened s))))"
  define m1 where "m1 = store_cpu (sym_trapframe G) (\<lambda>r. regs ! r) at (mem s)"
  define t where "t = (access_fault c a (opened s))\<lparr>sepc := at, sstatus := v, mem := m1\<rparr>"
  define u where "u = save_kernel_frame (sym_trapframe G) t"
  have keep: "kernel_regs (access_fault c a (opened s)) = kernel_regs s" "mem (access_fault c a (opened s)) = mem s"
    "sstatus (access_fault c a (opened s)) = sstatus (opened s)"
    by (simp_all add: access_fault_def opened_def)
  have t: "fault_trap G (access_fault c a (opened s)) = t"
    unfolding fault_trap_def keep R t_def v_def m1_def by simp
  have cur: "current_task t = current_task s" by (simp add: t_def access_fault_def opened_def)
  have mt: "mem t = m1" by (simp add: t_def)
  have ut: "u = t\<lparr>mem := mem u\<rparr>" by (simp add: u_def save_kernel_frame_def)
  have m1: "agree (- fault_span G s) (mem s) m1"
    unfolding m1_def by (rule agree_mono [OF store_cpu_frame]) (auto simp: fault_span_def)
  have "agree (- fault_span G s) m1 (mem u)"
  proof (cases "current_task s = 0")
    case False
    then have "mem u = set_cpu_pc (t_kernel_frame (current_task s)) (sepc t) (copy_cpu (t_kernel_frame (current_task s)) (sym_trapframe G) m1)"
      by (simp add: u_def save_kernel_frame_def cur mt)
    with agree_trans [OF copy_cpu_frame set_cpu_frame(2)] False show ?thesis
      by (simp add: fault_span_def) (blast intro: agree_mono)
  qed (simp add: u_def save_kernel_frame_def cur mt agree_def)
  with m1 have ag: "agree (- fault_span G s) (mem s) (mem u)" by (rule agree_trans)
  have "bit (csrnc 18 v) i = bit (sstatus s) i" if "i \<notin> {1, 5, 8, 18}" for i
    using that by (auto simp: v_def bit_csrnc bit_put_bit bit_set_field_iff opened_def bit_csrns)
  moreover have f: "sstatus u = v" "scause u = c" "stval u = a" "sepc u = at" "buddy_pages u = buddy_pages s"
    by (subst ut, simp add: t_def access_fault_def opened_def)+
  have u: "u = s\<lparr>mem := mem u, sstatus := v, scause := c, stval := a, may_page_fault := True, sepc := at\<rparr>"
    by (subst ut) (simp add: t_def access_fault_def opened_def)
  have "closed u = s\<lparr>mem := mem (closed u), sstatus := sstatus (closed u), scause := scause (closed u),
      stval := stval (closed u), may_page_fault := False, sepc := sepc (closed u)\<rparr>"
    by (subst u) (simp add: closed_def f)
  moreover have "\<not> status_sum (csrnc 18 v)" by (simp add: status_sum_def bit_csrnc)
  moreover have "sstatus (closed u) = csrnc 18 v" by (simp add: closed_def f(1))
  ultimately have "faulted s (closed u)" by (simp add: faulted_def)
  note this f(2,3,5)
  with ag show ?thesis unfolding page_fault_def kmodify_apply t u_def [symmetric] by blast
qed

text \<open>A whole copy after its \<open>ksetjmp\<close>: what \<open>user_memcpy\<close> returns and leaves.\<close>

definition copied ::
  "symbols \<Rightarrow> 'a sched_state_scheme \<Rightarrow> u64 \<Rightarrow> u64 \<Rightarrow> u64 \<Rightarrow> 'a sched_state_scheme \<Rightarrow> bool" where
  "copied G s dest src n t \<longleftrightarrow>
     (if \<forall>j<n. copyable (opened s) dest src j
      then (\<exists>m. t = closed (s\<lparr>mem := m\<rparr>) \<and> agree (- dest_cells (opened s) dest n) (mem s) m \<and>
        (\<forall>j<n. \<forall>k. vcell PTE_WRITE (opened s) (dest + j) = Some k \<longrightarrow> vread (opened s) (src + j) = Some (m k)))
      else faulted s t \<and> fault_at (opened s) dest src n (scause t) (stval t) \<and>
        agree (- (dest_cells (opened s) dest n \<union> fault_span G s)) (mem s) (mem t))"

lemma closed_opened: "closed ((opened s)\<lparr>mem := m\<rparr>) = closed (s\<lparr>mem := m\<rparr>)"
proof -
  have "csrnc 18 (csrns 18 v) = csrnc 18 v" for v
    by (rule bit_eqI) (auto simp: bit_csrnc bit_csrns)
  then show ?thesis by (cases s) (simp add: closed_def opened_def)
qed

lemma closed_opened_pages:
  "closed ((opened s)\<lparr>buddy_pages := b, mem := m\<rparr>) = closed (s\<lparr>mem := m, buddy_pages := b\<rparr>)"
proof -
  have "(opened s)\<lparr>buddy_pages := b, mem := m\<rparr> = (opened (s\<lparr>buddy_pages := b\<rparr>))\<lparr>mem := m\<rparr>"
    by (cases s) (simp add: opened_def)
  moreover have "s\<lparr>buddy_pages := b, mem := m\<rparr> = s\<lparr>mem := m, buddy_pages := b\<rparr>" by (cases s) simp
  ultimately show ?thesis using closed_opened [where s = "s\<lparr>buddy_pages := b\<rparr>" and m = m] by (simp only:)
qed

lemma user_memcpy_ok:
  assumes "ksetjmp G (sym_page_fault_handler G) s0 = Some (Inr ((), s))"
    and "copy_safe (opened s) dest src n" and "0 <=s n"
  shows "\<exists>t. user_memcpy G dest src n s0 =
      Some (Inr (if \<forall>j<n. copyable (opened s) dest src j then 0 else - EFAULT, t)) \<and>
    copied G s dest src n t"
proof -
  let ?D = "dest_cells (opened s) dest n" and ?ok = "\<forall>j<n. copyable (opened s) dest src j"
  have "agree (- ?D) (mem (opened s)) (mem s)" by (simp add: agree_def)
  from copy_loop_ok [OF assms(2,3) _ this, of 0] obtain m where
    m: "loop_result (opened s) dest src n ?ok m (copy_loop 0 n dest src ((opened s)\<lparr>mem := mem s\<rparr>))"
      "agree (- ?D) (mem s) m"
      "?ok \<longrightarrow> (\<forall>j k. j < n \<and> vcell PTE_WRITE (opened s) (dest + j) = Some k \<longrightarrow>
          vread (opened s) (src + j) = Some (m k))" by auto
  have o: "(opened s)\<lparr>mem := mem s\<rparr> = opened s" by (cases s) (simp add: opened_def)
  show ?thesis
  proof (cases ?ok)
    case True
    then have "user_memcpy G dest src n s0 = Some (Inr (0, closed (s\<lparr>mem := m\<rparr>)))"
      using m(1) assms(1) by (simp add: loop_result_def o user_memcpy_def kthen_def kbind_def closed_opened)
    with True m(2,3) show ?thesis by (auto simp: copied_def)
  next
    case False
    then obtain c a where l: "copy_loop 0 n dest src (opened s) = (False, access_fault c a ((opened s)\<lparr>mem := m\<rparr>))"
      "fault_at (opened s) dest src n c a" using m(1) unfolding loop_result_def o if_not_P [OF False] by blast
    have om: "(opened s)\<lparr>mem := m\<rparr> = opened (s\<lparr>mem := m\<rparr>)" by (cases s) (simp add: opened_def)
    from page_fault_ok [of G c a "s\<lparr>mem := m\<rparr>"] obtain u where
      u: "page_fault G (access_fault c a ((opened s)\<lparr>mem := m\<rparr>)) = Some (Inr ((), u))" "faulted (s\<lparr>mem := m\<rparr>) (closed u)"
        "agree (- fault_span G s) m (mem u)" "scause u = c" "stval u = a"
      unfolding om by auto
    have "agree (- (?D \<union> fault_span G s)) (mem s) (mem u)"
      by (rule agree_trans [OF agree_mono [OF m(2)] agree_mono [OF u(3)]]) blast+
    moreover have "faulted s (closed u)" using u(2) by (simp add: faulted_def)
    moreover have "user_memcpy G dest src n s0 = Some (Inr (- EFAULT, closed u))"
      using l(1) u(1) assms(1) by (simp add: user_memcpy_def kthen_def kbind_def)
    moreover have "scause (closed u) = c" "stval (closed u) = a" using u(4,5) by (simp_all add: closed_def)
    ultimately show ?thesis using False l(2) by (auto simp: copied_def)
  qed
qed

lemma access_ok_iff:
  "access_ok addr sz \<longleftrightarrow>
     (if 0 <=s sz then unat sz \<le> 128 * 1024 * 1024 \<and> unat addr + unat sz \<le> unat SPLIT
      else unat addr \<le> unat SPLIT + (2 ^ 64 - unat sz))"
proof (cases "0 <=s sz")
  case True
  then have sz: "unat sz < 2 ^ 63" by (simp add: nonneg_iff)
  then have "sz <=s TASK_SIZE_MAX \<longleftrightarrow> sz \<le> TASK_SIZE_MAX"
    by (rule sless_small) (simp add: TASK_SIZE_MAX_def)
  moreover have "unat (SPLIT - sz) = unat SPLIT - unat sz" if "unat sz \<le> 0x8000000"
    using that by (simp add: unat_sub word_le_nat_alt)
  ultimately show ?thesis using True by (auto simp: access_ok_def TASK_SIZE_MAX_def word_le_nat_alt)
next
  case False
  then have sz: "\<not> unat sz < 2 ^ 63" by (simp add: nonneg_iff)
  have "sint sz < 0" using False by (simp add: word_sle_eq)
  then have "sz <=s TASK_SIZE_MAX" by (simp add: word_sle_eq TASK_SIZE_MAX_def)
  moreover have "\<not> unat sz \<le> unat SPLIT" using sz by simp
  then have "unat (SPLIT - sz) = unat SPLIT + (2 ^ 64 - unat sz)"
    using unsigned_less [where ?'a = nat, of sz] by (subst unat_sub_if') simp
  ultimately show ?thesis using False by (simp only: access_ok_def word_le_nat_alt if_False simp_thms)
qed

lemma access_ok_below:
  assumes "access_ok addr sz" and "j < sz" and "0 <=s sz"
  shows "addr + j < SPLIT"
proof -
  have b: "unat addr + unat sz \<le> 0x3f00000000" "unat j < unat sz"
    using assms by (simp_all add: access_ok_iff word_less_nat_alt)
  then have "unat (addr + j) = unat addr + unat j" by (subst unat_add_lem [THEN iffD1]) simp_all
  with b show ?thesis by (simp add: word_less_nat_alt)
qed

text \<open>A negative size passes the check, and then nothing is copied.\<close>

lemma copy_loop_negative: "\<not> 0 <=s n \<Longrightarrow> copy_loop 0 n dest src s = (True, s)"
  by (subst copy_loop.simps) (simp add: word_sless_alt word_sle_eq)


subsection \<open>Switching tables\<close>

text \<open>The root that the hardware uses is the table that was written to \<open>satp\<close>.\<close>

lemma write_satp_ok:
  assumes "area_ok 0 table" and "\<not> early s"
  shows "\<exists>v. write_satp table s = Some (Inr ((), s\<lparr>satp := v\<rparr>)) \<and> active_root (s\<lparr>satp := v\<rparr>) = table \<and>
    field 60 4 v = MM_SV39"
proof -
  let ?v = "set_field 60 4 MM_SV39 (set_field 44 16 0 (set_field 0 44 (pa_ppn (PA_of table)) 0))"
  note ram = pa_ram [OF assms(1)]
  have "write_satp table s = Some (Inr ((), s\<lparr>satp := ?v\<rparr>))"
    using assms(2) ram(2) by (simp add: write_satp_def kbind_Inr satp_from_table_def PA_def)
  moreover have "field 0 44 ?v = take_bit 44 (pa_ppn (PA_of table))" by simp
  then have "active_root (s\<lparr>satp := ?v\<rparr>) = table"
    using ram(1,3) by (simp add: active_root_def del: MM_SV39_def)
  moreover have "field 60 4 ?v = MM_SV39" by (simp del: MM_SV39_def) simp
  ultimately show ?thesis by blast
qed

subsection \<open>A user process in memory\<close>

text \<open>
  A process whose page \<open>0x10000\<close> is the frame \<open>0x87000000\<close>, readable and writable, with the
  bytes \<open>f\<close> in it: the boot state's allocator, a new table, one \<open>set_page\<close>, and \<open>satp\<close>.
\<close>

definition page_bytes :: "(nat \<Rightarrow> u8) \<Rightarrow> memory" where
  "page_bytes f a = (if a \<in> span 0x3f07000000 4096 then f (unat (a - 0x3f07000000)) else 0)"

definition process_state :: "(nat \<Rightarrow> u8) \<Rightarrow> cpu_state" where
  "process_state f = \<lparr>mem = page_bytes f, early = False, buddy_pages = buddy_pages boot_state,
     satp = 0, sstatus = 0, sie = 0, sip = 0, scause = 0, stval = 0, may_page_fault = False\<rparr>"

lemma frame_not_free: "span 0x3f07000000 4096 \<inter> initial_free = {}"
  by (auto simp: span_iff initial_free_def word_le_nat_alt word_less_nat_alt unat_sub_if' split: if_splits)

lemma allocator_cong:
  assumes "mem t = mem s" and "buddy_pages t = buddy_pages s" and "allocator F s"
  shows "allocator F t"
  using assms unfolding allocator_def buddy_ok_def by simp

lemma process_state_allocator: "allocator initial_free (process_state f)"
proof (rule allocator_cong)
  have "agree initial_free (mem boot_state) (page_bytes f)"
    using frame_not_free by (auto simp: agree_def page_bytes_def boot_state_def)
  then show "allocator initial_free (boot_state\<lparr>mem := page_bytes f\<rparr>)"
    by (intro allocator_frame [OF boot_state_allocator]) simp_all
qed (simp_all add: process_state_def)

definition user_pa :: "u64 \<Rightarrow> u64" where
  "user_pa va = leaf_pa 0 (pa_ppn 0x87000000) va"

text \<open>The same with a kernel whose \<open>page_fault_handler\<close> lies in its image.\<close>

definition process_sched :: "(nat \<Rightarrow> u8) \<Rightarrow> sched_state" where
  "process_sched f = cpu_state.extend (process_state f)
     \<lparr>next_task_id = 2, current_task_node = 0, current_task = 0, kernel_regs = replicate 32 0, sepc = 0\<rparr>"

definition process_symbols :: symbols where
  "process_symbols = \<lparr>sym_tasks = 0x3f00010000, sym_wait_in = 0x3f00010010, sym_wait_out = 0x3f00010020,
     sym_trapframe = 0x3f00010200, sym_task_entry = 0x3f00001000, sym_setjmp_return = 0x3f00002000,
     sym_page_fault_handler = 0x3f00010400, sym_trap_vector = 0x3f00003000,
     sym_fault_context = (\<lambda>regs _. (regs, 0x3f00004000)), sym_other_csr = (\<lambda>_. 0)\<rparr>"

lemma process_sched_fields [simp]:
  "mem (process_sched f) = page_bytes f" "early (process_sched f) = False"
  "buddy_pages (process_sched f) = buddy_pages boot_state" "sstatus (process_sched f) = 0"
  "may_page_fault (process_sched f) = False" "current_task (process_sched f) = 0"
  by (simp_all add: process_sched_def process_state_def cpu_state.defs)

lemma process_handler: "handler_span process_symbols = span 0x3f00010400 264"
  by (simp add: handler_span_def process_symbols_def)

lemma process_frame: "span 0x3f07000000 4096 \<inter> handler_span process_symbols = {}"
  by (auto simp: process_handler span_iff word_less_nat_alt word_le_nat_alt unat_sub_if' split: if_splits)

lemma process_exists:
  obtains root F P and s :: sched_state where "pt_inv root F P s" and "active_root s = root"
    and "handler_span process_symbols \<inter> (F \<union> pages P) = {}"
    and "span 0x3f07000000 4096 \<inter> (F \<union> pages P) = {}" and "area 2 0x3f00400000 \<subseteq> F"
    and "\<And>va. lookup (mem s) root va =
      (if va_vpn va = va_vpn 0x10000 then Some (user_pa va, 0x17) else kernel_lookup va)"
    and "agree (span 0x3f07000000 4096) (page_bytes f) (mem s)"
    and "sstatus s = 0" and "\<not> may_page_fault s" and "fault_span process_symbols s \<inter> F = {}"
proof -
  let ?p = "process_sched f"
  let ?A = "area 2 0x3f00400000"
  have e: "\<not> early ?p" by simp
  have al: "allocator initial_free ?p"
    by (rule allocator_cong [OF _ _ process_state_allocator [of f]]) (simp_all add: process_state_def)
  have "KERN_PHYBASE + 0x100000 \<in> initial_free" by (simp add: initial_free_def)
  then have ne: "initial_free \<noteq> {}" by blast
  obtain root t where t: "area_ok 0 root" "pt_inv root (initial_free - area 0 root) {root} t"
    "area 0 root \<subseteq> initial_free" "agree (- initial_free) (mem ?p) (mem t)" "same_rest ?p t"
    "\<forall>va. lookup (mem t) root va = kernel_lookup va"
    using create_page_table_ok [OF al e] ne by blast
  have flags: "va_off 0x10000 = 0" "pa_off 0x87000000 = 0" "take_bit 8 (0x17 :: u32) = 0x17"
    "(0x17 :: u32) AND PTE_VALID \<noteq> 0" "pte_is_leaf 0x17"
    by (simp_all add: va_off_def pa_off_def field_def pte_is_leaf_def)
  obtain u F P where u: "pt_step root (initial_free - area 0 root) {root} t F P u"
    "\<forall>va. lookup (mem u) root va =
      (if va_vpn va = va_vpn 0x10000 then Some (user_pa va, 0x17) else kernel_lookup va)"
    using set_page_ok [OF t(2) flags] boot_memory_left [of root] t(6) unfolding user_pa_def by auto
  have "P = {root} \<union> (P - {root})" using u(1) by (auto simp: pt_step_def)
  then have "pages P = area 0 root \<union> pages (P - {root})" by (metis pages_Un pages_insert pages_empty Un_empty_right)
  then have sub: "pages P \<subseteq> initial_free" "F \<subseteq> initial_free"
    using u(1) t(3) by (auto simp: pt_step_def)
  have inv: "pt_inv root F P u" and al: "allocator F u" using u(1) by (auto simp: pt_step_def pt_inv_def)
  have A: "area_ok 2 0x3f00400000" "?A \<inter> initial_free = {}"
    by (rule area_ok_compute, simp_all)
      (auto simp: area_interval initial_free_def word_less_nat_alt word_le_nat_alt)
  obtain v where v: "released 2 0x3f00400000 F u v"
    using free_pages_ok [OF al A(1)] A(2) sub(2) by blast
  have fr: "span 0x3f07000000 4096 \<inter> ?A = {}"
    by (auto simp: area_interval span_iff word_less_nat_alt word_le_nat_alt unat_sub_if' split: if_splits)
  have same: "same_rest ?p v"
    using t(5) u(1) v unfolding pt_step_def released_def by (blast intro: same_rest_trans)
  have keep: "agree (- (F \<union> ?A)) (mem u) (mem v)" using v by (auto simp: released_def elim: agree_mono)
  have dis: "pages P \<inter> (F \<union> ?A) = {}" using inv A(2) sub by (auto simp: pt_inv_def)
  have agP: "agree (pages P) (mem u) (mem v)" using dis by (intro agree_mono [OF keep]) blast
  have tab: "ptable 2 (mem u) root P" using inv by (simp add: pt_inv_def)
  have inv': "pt_inv root (F \<union> ?A) P v"
    using ptable_frame(1) [OF tab agP] v same_rest_early [OF same] e dis
    by (simp add: pt_inv_def released_def)
  have look: "lookup (mem v) root va = lookup (mem u) root va" for va
    using ptable_frame(2) [OF tab agP] by (simp add: lookup_def)
  have "agree (span 0x3f07000000 4096) (page_bytes f) (mem t)"
    using t(4) frame_not_free by (auto elim: agree_mono)
  moreover have "agree (- (initial_free - area 0 root \<union> pages {root})) (mem t) (mem u)"
    using u(1) by (simp only: pt_step_def)
  then have "agree (span 0x3f07000000 4096) (mem t) (mem u)"
    by (rule agree_mono) (use frame_not_free t(3) in auto)
  moreover have "agree (span 0x3f07000000 4096) (mem u) (mem v)"
    using frame_not_free sub fr by (intro agree_mono [OF keep]) blast
  ultimately have bytes: "agree (span 0x3f07000000 4096) (page_bytes f) (mem v)"
    by (blast intro: agree_trans)
  obtain w where w: "active_root (v\<lparr>satp := w\<rparr>) = root"
    using write_satp_ok [OF t(1)] same_rest_early [OF same] e by blast
  have rest: "v = ?p\<lparr>mem := mem v, buddy_pages := buddy_pages v\<rparr>" using same by (simp add: same_rest_def)
  show thesis
  proof (rule that [of root "F \<union> ?A" P "v\<lparr>satp := w\<rparr>"])
    show "pt_inv root (F \<union> ?A) P (v\<lparr>satp := w\<rparr>)"
      using inv' allocator_cong [of "v\<lparr>satp := w\<rparr>" v] by (simp add: pt_inv_def)
    show "span 0x3f07000000 4096 \<inter> (F \<union> ?A \<union> pages P) = {}" using frame_not_free sub fr by blast
    have "span 0x3f00010400 264 \<inter> (initial_free \<union> ?A) = {}"
      by (auto simp: area_interval span_iff initial_free_def word_less_nat_alt word_le_nat_alt unat_sub_if' split: if_splits)
    then show "handler_span process_symbols \<inter> (F \<union> ?A \<union> pages P) = {}" using sub unfolding process_handler by blast
    show "?A \<subseteq> F \<union> ?A" by simp
    show "sstatus (v\<lparr>satp := w\<rparr>) = 0" "\<not> may_page_fault (v\<lparr>satp := w\<rparr>)"
      by (subst rest, simp)+
    have "current_task (v\<lparr>satp := w\<rparr>) = 0" by (subst rest, simp)
    moreover have "span 0x3f00010200 264 \<inter> (initial_free \<union> ?A) = {}"
      by (auto simp: area_interval span_iff initial_free_def word_less_nat_alt word_le_nat_alt unat_sub_if' split: if_splits)
    ultimately show "fault_span process_symbols (v\<lparr>satp := w\<rparr>) \<inter> (F \<union> ?A) = {}"
      using sub(2) by (simp add: fault_span_def process_symbols_def) blast
  qed (use w look u(2) bytes in simp_all)
qed

lemma active_root_opened [simp]: "active_root (opened s) = active_root s"
  by (simp add: active_root_def opened_def)

text \<open>The bytes of that page, as user accesses see them.\<close>

lemma user_page_cell:
  assumes s: "active_root s = root" "\<And>va. lookup (mem s) root va =
      (if va_vpn va = va_vpn 0x10000 then Some (user_pa va, 0x17) else kernel_lookup va)"
    and sum: "status_sum (sstatus s)" and acc: "acc = PTE_READ \<or> acc = PTE_WRITE"
  shows "unat i < 4096 \<Longrightarrow> user_cell acc s (0x10000 + i) = Some (0x3f07000000 + i)"
    and "unat va < 0x10000 \<or> 0x11000 \<le> unat va \<Longrightarrow> va < SPLIT \<Longrightarrow> user_cell acc s va = None"
proof -
  have vpn: "va_vpn va = va_vpn 0x10000 \<longleftrightarrow> unat va div 4096 mod 2 ^ 27 = 16" for va :: u64
  proof -
    have "unat (va_vpn va) = unat va div 4096 mod 2 ^ 27"
      by (simp only: va_vpn_def field_def unsigned_take_bit_eq unat_drop_bit_eq)
        (simp add: drop_bit_eq_div take_bit_eq_mod)
    moreover have "unat (va_vpn 0x10000) = 16"
      by (simp add: va_vpn_def field_def unsigned_take_bit_eq)
    ultimately show ?thesis by (metis word_unat_eq_iff)
  qed
  show "user_cell acc s (0x10000 + i) = Some (0x3f07000000 + i)" if i: "unat i < 4096"
  proof -
    have u: "unat (0x10000 + i) = 0x10000 + unat i"
      using i by (subst unat_add_lem [THEN iffD1]) simp_all
    have "take_bit 12 (0x10000 + i) = i"
      using aligned_offset(2) [of 12 "0x10000" i] i by (simp add: aligned_def)
    moreover have fr: "pa_from_ppn (pa_ppn 0x87000000) = 0x87000000" "aligned 12 0x87000000"
      by (simp_all add: pa_from_ppn_def pa_ppn_def field_def aligned_def)
    then have "user_pa (0x10000 + i) = 0x87000000 OR take_bit 12 (0x10000 + i)"
      unfolding user_pa_def leaf_pa_def
      by (intro bit_word_eqI) (auto simp: bit_set_field_iff bit_or_iff bit_take_bit_iff aligned_bit)
    ultimately have "user_pa (0x10000 + i) = 0x87000000 + i"
      using aligned_offset(1) [of 12 "0x87000000" i] i by (simp add: aligned_def)
    then show ?thesis using acc sum u i by (auto simp: user_cell_def s vpn VA_of_def)
  qed
  show "user_cell acc s va = None" if va: "unat va < 0x10000 \<or> 0x11000 \<le> unat va" "va < SPLIT"
  proof -
    have "unat va div 4096 mod 2 ^ 27 \<noteq> 16" using va by (simp add: word_less_nat_alt) linarith
    moreover have "kernel_lookup va = None" using va(2) kernel_lookup_cases(3) by blast
    ultimately show ?thesis by (simp add: user_cell_def s vpn)
  qed
qed

subsection \<open>The copies\<close>

text \<open>
  Property C40. An address range of a size that is not negative passes \<open>access_ok\<close> exactly
  when it has at most 128 MiB and ends, without wrapping around, at or below \<open>SPLIT\<close>. A
  negative size passes too, for every address up to \<open>SPLIT\<close> plus its absolute value.
\<close>
theorem access_ok_bounds:
  "access_ok addr sz \<longleftrightarrow>
     (if 0 <=s sz then unat sz \<le> 128 * 1024 * 1024 \<and> unat addr + unat sz \<le> unat SPLIT
      else unat addr \<le> unat SPLIT + (2 ^ 64 - unat sz))"
  by (rule access_ok_iff)

text \<open>
  After \<open>write_satp\<close> with a page-aligned table in the RAM, the hardware walks
  that table, in mode Sv39.
\<close>
theorem write_satp_correct:
  assumes "area_ok 0 table" and "\<not> early s"
  shows "\<exists>v. write_satp table s = Some (Inr ((), s\<lparr>satp := v\<rparr>)) \<and> active_root (s\<lparr>satp := v\<rparr>) = table \<and>
    field 60 4 v = MM_SV39"
  by (rule write_satp_ok [OF assms])

lemma write_satp_correct_witness:
  "\<exists>v. write_satp 0x3f00123000 (process_state (\<lambda>_. 0)) = Some (Inr ((), (process_state (\<lambda>_. 0))\<lparr>satp := v\<rparr>)) \<and>
    active_root ((process_state (\<lambda>_. 0))\<lparr>satp := v\<rparr>) = 0x3f00123000"
proof -
  have "area_ok 0 0x3f00123000" by (rule area_ok_compute) simp_all
  from write_satp_correct [OF this, of "process_state (\<lambda>_. 0)"] show ?thesis
    by (auto simp: process_state_def)
qed

lemma copy_safeI:
  assumes "ptable 2 (mem s) (active_root s) P" and "pages P \<inter> dest_cells (opened s) dest n = {}"
    and "\<And>j k. j < n \<Longrightarrow> vcell PTE_READ (opened s) (src + j) = Some k \<Longrightarrow> k \<notin> dest_cells (opened s) dest n"
    and "\<And>i j k. i < n \<Longrightarrow> j < n \<Longrightarrow> vcell PTE_WRITE (opened s) (dest + i) = Some k \<Longrightarrow>
      vcell PTE_WRITE (opened s) (dest + j) = Some k \<Longrightarrow> i = j"
  shows "copy_safe (opened s) dest src n"
proof -
  have "active_root (opened s) = active_root s" by (simp add: active_root_def opened_def)
  then have "ptable 2 (mem (opened s)) (active_root (opened s)) P" using assms(1) by simp
  with assms(2-4) show ?thesis unfolding copy_safe_def by blast
qed

text \<open>The cells of a copy to kernel memory.\<close>

lemma dest_cells_kernel:
  assumes "\<forall>j<n. \<not> dest + j < SPLIT"
  shows "dest_cells s dest n = span dest (unat n)"
proof (rule set_eqI)
  fix x
  have "x \<in> dest_cells s dest n \<longleftrightarrow> (\<exists>j<n. dest + j = x)"
    using assms by (auto simp: dest_cells_def vcell_def)
  also have "\<dots> \<longleftrightarrow> x - dest < n" by (auto intro: exI [of _ "x - dest"])
  finally show "x \<in> dest_cells s dest n \<longleftrightarrow> x \<in> span dest (unat n)"
    by (simp add: span_iff word_less_nat_alt)
qed

text \<open>
  The frame in \<open>page_fault_handler\<close> that a call stores first: the page tables and the user's bytes lie elsewhere, so that the
  user's addresses reach the same bytes in the state \<open>s'\<close> behind that store.
\<close>

definition saved :: "symbols \<Rightarrow> 'a sched_state_scheme \<Rightarrow> 'a sched_state_scheme" where
  "saved G s = s\<lparr>mem := store_cpu (sym_page_fault_handler G)
     (\<lambda>r. if r = REG_A0 then sym_page_fault_handler G else kernel_regs s ! r) (sym_setjmp_return G) (mem s)\<rparr>"

lemma saved_ok:
  "ksetjmp G (sym_page_fault_handler G) s = Some (Inr ((), saved G s))" "saved G s = s\<lparr>mem := mem (saved G s)\<rparr>"
  "agree (- handler_span G) (mem s) (mem (saved G s))"
  by (simp_all add: ksetjmp_def saved_def handler_span_def store_cpu_frame)

lemma saved_again:
  assumes "agree (handler_span G) (mem (saved G s)) (mem t)" and "kernel_regs t = kernel_regs s"
  shows "saved G t = t"
  using store_cpu_again [OF assms(1) [unfolded saved_def handler_span_def, simplified]] unfolding saved_def assms(2) by simp

lemma handler_stored:
  assumes "ptable 2 (mem s) (active_root s) P" and "pages P \<inter> handler_span G = {}"
  obtains s' where "ksetjmp G (sym_page_fault_handler G) s = Some (Inr ((), s'))" and "s' = s\<lparr>mem := mem s'\<rparr>" and "s' = saved G s"
    and "agree (- handler_span G) (mem s) (mem s')" and "ptable 2 (mem s') (active_root s') P"
    and "\<forall>acc a. user_cell acc (opened s') a = user_cell acc (opened s) a"
proof -
  obtain m where m: "ksetjmp G (sym_page_fault_handler G) s = Some (Inr ((), s\<lparr>mem := m\<rparr>))"
    "agree (- handler_span G) (mem s) m" "s\<lparr>mem := m\<rparr> = saved G s" using saved_ok [of G s] by metis
  have ag: "agree (pages P) (mem s) m" using assms(2) by (intro agree_mono [OF m(2)]) blast
  have tab: "ptable 2 (mem (opened s)) (active_root (opened s)) P" using assms(1) by simp
  have om: "opened (s\<lparr>mem := m\<rparr>) = (opened s)\<lparr>mem := m\<rparr>" by (cases s) (simp add: opened_def)
  have "active_root (s\<lparr>mem := m\<rparr>) = active_root s" by (simp add: active_root_def)
  with ptable_frame(1) [OF assms(1) ag] have "ptable 2 (mem (s\<lparr>mem := m\<rparr>)) (active_root (s\<lparr>mem := m\<rparr>)) P" by simp
  moreover have "user_cell acc (opened (s\<lparr>mem := m\<rparr>)) a = user_cell acc (opened s) a" for acc a
    unfolding om by (rule user_cell_frame [OF tab]) (use ag in simp)
  ultimately show thesis using that [OF saved_ok(1,2) refl saved_ok(3)] unfolding m(3) by blast
qed

text \<open>What a copy of \<open>n\<close> bytes that may write \<open>A\<close> leaves besides the bytes: all else is in place; a fault is reported and leaves its traces.\<close>

definition copy_leaves ::
  "symbols \<Rightarrow> 'a sched_state_scheme \<Rightarrow> u64 set \<Rightarrow> bool \<Rightarrow> bool \<Rightarrow> 'a sched_state_scheme \<Rightarrow> bool" where
  "copy_leaves G s A inside ok t \<longleftrightarrow>
     (if \<not> inside then t = s
      else if ok then t = closed (s\<lparr>mem := mem t\<rparr>) \<and> agree (- (A \<union> handler_span G)) (mem s) (mem t)
      else faulted s t \<and> agree (- (A \<union> handler_span G \<union> fault_span G s)) (mem s) (mem t))"

lemma copied_leaves:
  assumes "copied G s' dest src n t" and "dest_cells (opened s') dest n = A" and "s' = s\<lparr>mem := mem s'\<rparr>"
    and "agree (- handler_span G) (mem s) (mem s')"
  shows "copy_leaves G s A True (\<forall>j<n. copyable (opened s') dest src j) t"
proof (cases "\<forall>j<n. copyable (opened s') dest src j")
  case True
  then obtain m where m: "t = closed (s'\<lparr>mem := m\<rparr>)" "agree (- A) (mem s') m"
    using assms(1,2) unfolding copied_def by auto
  have "closed (s'\<lparr>mem := m\<rparr>) = closed (s\<lparr>mem := m\<rparr>)" by (subst assms(3)) simp
  moreover have "agree (- (A \<union> handler_span G)) (mem s) m"
    by (rule agree_trans [OF agree_mono [OF assms(4)] agree_mono [OF m(2)]]) blast+
  ultimately show ?thesis using True m(1) by (simp add: copy_leaves_def)
next
  case False
  then have f: "faulted s' t" "agree (- (A \<union> fault_span G s')) (mem s') (mem t)"
    using assms(1,2) unfolding copied_def if_not_P [OF False] by auto
  have "faulted (s\<lparr>mem := mem s'\<rparr>) t" using f(1) assms(3) by simp
  then have "faulted s t" by (simp add: faulted_def)
  moreover have "fault_span G s' = fault_span G s" by (subst assms(3)) simp
  then have "agree (- (A \<union> handler_span G \<union> fault_span G s)) (mem s) (mem t)"
    using f(2) by (intro agree_trans [OF agree_mono [OF assms(4)] agree_mono [OF f(2)]]) auto
  ultimately show ?thesis unfolding copy_leaves_def if_not_P [OF False] by simp
qed

lemma copy_from_user_ok:
  assumes "ptable 2 (mem s) (active_root s) P" and "\<forall>j<n. \<not> dest + j < SPLIT"
    and "pages P \<inter> (span dest (unat n) \<union> handler_span G) = {}"
    and "\<forall>j<n. \<forall>k. user_cell PTE_READ (opened s) (src + j) = Some k \<longrightarrow> k \<notin> span dest (unat n) \<union> handler_span G"
    and "0 <=s n"
  shows "\<exists>r t. copy_from_user G dest src n s = Some (Inr (r, t)) \<and>
    (r = 0 \<longleftrightarrow> access_ok src n \<and> (\<forall>j<n. user_cell PTE_READ (opened s) (src + j) \<noteq> None)) \<and>
    (r \<noteq> 0 \<longrightarrow> r = - EFAULT) \<and>
    (r = 0 \<longrightarrow> (\<forall>j<n. vread (opened s) (src + j) = Some (mem t (dest + j)))) \<and>
    (r = 0 \<longrightarrow> agree (- span dest (unat n)) (mem (saved G s)) (mem t)) \<and>
    (r \<noteq> 0 \<and> access_ok src n \<longrightarrow> scause t = LOAD_FAULT \<and>
      (\<exists>j<n. stval t = src + j \<and> user_cell PTE_READ (opened s) (src + j) = None)) \<and>
    copy_leaves G s (span dest (unat n)) (access_ok src n) (r = 0) t"
proof (cases "access_ok src n")
  case False
  then show ?thesis by (simp add: copy_from_user_def EFAULT_def copy_leaves_def)
next
  case True
  have apart: "pages P \<inter> handler_span G = {}" using assms(3) by blast
  obtain s' where st: "ksetjmp G (sym_page_fault_handler G) s = Some (Inr ((), s'))" "s' = s\<lparr>mem := mem s'\<rparr>" "s' = saved G s"
    "agree (- handler_span G) (mem s) (mem s')" "ptable 2 (mem s') (active_root s') P"
    "\<forall>acc a. user_cell acc (opened s') a = user_cell acc (opened s) a" by (rule handler_stored [OF assms(1) apart])
  note D = dest_cells_kernel [OF assms(2), of "opened s'"]
  have u: "vcell PTE_READ (opened s') (src + j) = user_cell PTE_READ (opened s) (src + j)" if "j < n" for j
    using access_ok_below [OF True that assms(5)] st(6) by (simp add: vcell_def)
  have k: "vcell PTE_WRITE (opened s') (dest + j) = Some (dest + j)" if "j < n" for j
    using assms(2) that by (simp add: vcell_def)
  have safe: "copy_safe (opened s') dest src n"
    by (rule copy_safeI [OF st(5)]) (use assms(3,4) u k in \<open>auto simp: D simp del: PTE_READ_def PTE_WRITE_def\<close>)
  define ok where "ok \<longleftrightarrow> (\<forall>j<n. user_cell PTE_READ (opened s) (src + j) \<noteq> None)"
  have c: "(\<forall>j<n. copyable (opened s') dest src j) \<longleftrightarrow> ok" using u k by (simp add: copyable_def ok_def)
  from user_memcpy_ok [OF st(1) safe assms(5)] obtain t where
    t: "user_memcpy G dest src n s = Some (Inr (if ok then 0 else - EFAULT, t))" "copied G s' dest src n t"
    unfolding c by blast
  have v: "vread (opened s') (src + j) = vread (opened s) (src + j)" if "j < n" for j
  proof -
    have cell: "vcell PTE_READ (opened s) (src + j) = user_cell PTE_READ (opened s) (src + j)"
      using access_ok_below [OF True that assms(5)] by (simp add: vcell_def)
    have "mem s' k = mem s k" if "user_cell PTE_READ (opened s) (src + j) = Some k" for k
      using assms(4) \<open>j < n\<close> that st(4) unfolding agree_def by (metis ComplI UnI2)
    then show ?thesis using u [OF that] cell
      by (cases "user_cell PTE_READ (opened s) (src + j)") (simp_all add: vread_vcell)
  qed
  have bytes: "\<forall>j<n. vread (opened s) (src + j) = Some (mem t (dest + j))" if ok
  proof -
    from t(2) that obtain m where m: "t = closed (s'\<lparr>mem := m\<rparr>)"
      "\<forall>j<n. \<forall>k. vcell PTE_WRITE (opened s') (dest + j) = Some k \<longrightarrow> vread (opened s') (src + j) = Some (m k)"
      unfolding copied_def c by auto
    then show ?thesis using k v by auto
  qed
  have exact: "agree (- span dest (unat n)) (mem (saved G s)) (mem t)" if ok
    using t(2) that D unfolding copied_def c st(3) [symmetric] by auto
  have fault: "scause t = LOAD_FAULT \<and> (\<exists>j<n. stval t = src + j \<and> user_cell PTE_READ (opened s) (src + j) = None)"
    if "\<not> ok"
  proof -
    have "fault_at (opened s') dest src n (scause t) (stval t)"
      using t(2) that unfolding copied_def c if_not_P [OF that] by blast
    then show ?thesis unfolding fault_at_def using u k by fastforce
  qed
  have "copy_leaves G s (span dest (unat n)) True ok t"
    using copied_leaves [OF t(2) D st(2,4)] unfolding c .
  moreover have "copy_from_user G dest src n s = Some (Inr (if ok then 0 else - EFAULT, t))"
    using t(1) True by (simp add: copy_from_user_def)
  ultimately show ?thesis using bytes exact fault True unfolding ok_def [symmetric]
    by (intro exI [of _ "if ok then 0 else - EFAULT"] exI [of _ t]) (cases ok; simp add: EFAULT_def)
qed

text \<open>
  Property C16. \<open>copy_from_user\<close> to kernel memory that neither the page tables nor the user's
  frames share returns 0 exactly when the range is the user's and every byte of it is mapped
  readable, otherwise \<open>-EFAULT\<close>; on success the destination holds the user's bytes. It
  changes nothing outside the destination and \<open>page_fault_handler\<close>, where \<open>ksetjmp\<close> stores the
  registers, and closes the page-fault window again. After a fault, \<open>scause\<close> and \<open>stval\<close> report a load of a byte of the range
  that cannot be read, and \<open>trapframe\<close> and the running task's \<open>kernel_frame\<close> have been written too, and of the processor's
  registers \<open>sepc\<close> and the fields \<open>spp\<close>, \<open>spie\<close> and \<open>sie\<close> of \<open>sstatus\<close>. A range that is not the user's changes nothing at all.
\<close>
theorem copy_from_user_correct:
  assumes "ptable 2 (mem s) (active_root s) P" and "\<forall>j<n. \<not> dest + j < SPLIT"
    and "pages P \<inter> (span dest (unat n) \<union> handler_span G) = {}"
    and "\<forall>j<n. \<forall>k. user_cell PTE_READ (opened s) (src + j) = Some k \<longrightarrow> k \<notin> span dest (unat n) \<union> handler_span G"
    and "span dest (unat n) \<inter> handler_span G = {}" and "0 <=s n"
  shows "\<exists>r t. copy_from_user G dest src n s = Some (Inr (r, t)) \<and>
    (r = 0 \<longleftrightarrow> access_ok src n \<and> (\<forall>j<n. user_cell PTE_READ (opened s) (src + j) \<noteq> None)) \<and>
    (r \<noteq> 0 \<longrightarrow> r = - EFAULT) \<and>
    (r = 0 \<longrightarrow> (\<forall>j<n. vread (opened s) (src + j) = Some (mem t (dest + j)))) \<and>
    (r \<noteq> 0 \<and> access_ok src n \<longrightarrow> scause t = LOAD_FAULT \<and>
      (\<exists>j<n. stval t = src + j \<and> user_cell PTE_READ (opened s) (src + j) = None)) \<and>
    copy_leaves G s (span dest (unat n)) (access_ok src n) (r = 0) t"
  using copy_from_user_ok [OF assms(1-4,6)] by blast

lemma process_cell:
  assumes "active_root s = root" and "\<And>va. lookup (mem s) root va =
      (if va_vpn va = va_vpn 0x10000 then Some (user_pa va, 0x17) else kernel_lookup va)"
    and "status_sum (sstatus s)" and "acc = PTE_READ \<or> acc = PTE_WRITE" and "j < 64"
  shows "user_cell acc s (0x10008 + j) = Some (0x3f07000008 + j)"
    and "0x3f07000008 + j \<in> span 0x3f07000000 4096" and "\<not> 0x3f00400000 + j < SPLIT"
proof -
  have u: "unat (8 + j) = 8 + unat j" "unat j < 64"
    using assms(5) by (simp_all add: word_less_nat_alt) (subst unat_add_lem [THEN iffD1]; simp)
  have e: "0x10000 + (8 + j) = 0x10008 + j" "0x3f07000000 + (8 + j) = 0x3f07000008 + j" by simp_all
  show "user_cell acc s (0x10008 + j) = Some (0x3f07000008 + j)"
    unfolding e [symmetric] by (rule user_page_cell(1) [OF assms(1-4)]) (use u in simp)
  show "0x3f07000008 + j \<in> span 0x3f07000000 4096"
    unfolding e(2) [symmetric] by (use u in \<open>simp add: span_iff\<close>)
  have "unat (0x3f00400000 + j) = 0x3f00400000 + unat j"
    using u(2) by (subst unat_add_lem [THEN iffD1]) simp_all
  then show "\<not> 0x3f00400000 + j < SPLIT" by (simp add: word_less_nat_alt)
qed

lemma copy_from_user_correct_witness:
  "\<exists>(s :: sched_state) t. copy_from_user process_symbols 0x3f00400000 0x10008 64 s = Some (Inr (0, t)) \<and>
    (\<forall>j<64. mem t (0x3f00400000 + j) = 7) \<and> \<not> may_page_fault t \<and> \<not> status_sum (sstatus t) \<and>
    agree (- (span 0x3f00400000 64 \<union> span 0x3f00010400 264)) (mem s) (mem t)"
proof -
  let ?G = process_symbols
  obtain root F P and s :: sched_state where s: "pt_inv root F P s" "active_root s = root"
    "handler_span ?G \<inter> (F \<union> pages P) = {}" "span 0x3f07000000 4096 \<inter> (F \<union> pages P) = {}" "area 2 0x3f00400000 \<subseteq> F"
    "\<And>va. lookup (mem s) root va =
      (if va_vpn va = va_vpn 0x10000 then Some (user_pa va, 0x17) else kernel_lookup va)"
    "agree (span 0x3f07000000 4096) (page_bytes (\<lambda>_. 7)) (mem s)" "sstatus s = 0" "\<not> may_page_fault s"
    using process_exists [of "\<lambda>_. 7"] by metis
  let ?D = "span 0x3f00400000 (unat (64 :: u64)) \<union> handler_span ?G"
  have o: "active_root (opened s) = root" "\<And>va. lookup (mem (opened s)) root va =
      (if va_vpn va = va_vpn 0x10000 then Some (user_pa va, 0x17) else kernel_lookup va)"
    using s(2,6) by simp_all
  have D: "span 0x3f00400000 64 \<subseteq> F" using s(5) span_mono [of 64 "2 ^ 14" "0x3f00400000"] by (auto simp: area_def)
  note cell = process_cell [OF o opened_facts(2) disjI1 [OF refl]]
  have tab: "ptable 2 (mem s) (active_root s) P" "pages P \<inter> F = {}" using s(1,2) by (auto simp: pt_inv_def)
  have k: "\<forall>j<64. \<not> 0x3f00400000 + j < SPLIT"
    using cell(3) by simp
  have fh: "span 0x3f07000000 4096 \<inter> ?D = {}" using D s(4) process_frame by auto
  have fr: "\<forall>j<64. \<forall>k. user_cell PTE_READ (opened s) (0x10008 + j) = Some k \<longrightarrow> k \<notin> ?D"
  proof (intro allI impI)
    fix j k assume j: "j < 64" "user_cell PTE_READ (opened s) (0x10008 + j) = Some k"
    then have "k \<in> span 0x3f07000000 4096" using cell(1,2) j by auto
    then show "k \<notin> ?D" using fh by blast
  qed
  have sep: "pages P \<inter> ?D = {}" "span 0x3f00400000 (unat (64 :: u64)) \<inter> handler_span ?G = {}"
    using D tab(2) s(3) by auto
  have acc: "access_ok 0x10008 64" by (simp add: access_ok_iff word_sle_eq)
  have nn: "0 <=s (64 :: u64)" by (simp add: word_sle_eq)
  have val: "vread (opened s) (0x10008 + j) = Some 7" if "j < 64" for j
  proof -
    have "mem s (0x3f07000008 + j) = 7"
      using s(7) cell(2) [OF that] unfolding agree_def page_bytes_def by metis
    then show ?thesis using cell(1) that access_ok_below [OF acc that] nn by (simp add: vread_def)
  qed
  from copy_from_user_correct [OF tab(1) k sep(1) fr sep(2) nn] acc cell(1) obtain t where
    t: "copy_from_user ?G 0x3f00400000 0x10008 64 s = Some (Inr (0, t))"
      "\<forall>j<64. vread (opened s) (0x10008 + j) = Some (mem t (0x3f00400000 + j))"
      "copy_leaves ?G s (span 0x3f00400000 64) True True t" by auto
  then have "t = closed (s\<lparr>mem := mem t\<rparr>)" "agree (- (span 0x3f00400000 64 \<union> span 0x3f00010400 264)) (mem s) (mem t)"
    by (simp_all add: copy_leaves_def process_handler)
  with val t(1,2) show ?thesis by (metis closed_facts(1,2) option.inject)
qed

lemma copy_to_user_ok:
  assumes "ptable 2 (mem s) (active_root s) P" and "pages P \<inter> handler_span G = {}" and "\<forall>j<n. \<not> src + j < SPLIT"
    and "\<forall>j<n. \<forall>k. user_cell PTE_WRITE (opened s) (dest + j) = Some k \<longrightarrow> k \<notin> pages P \<and> k \<notin> span src (unat n)"
    and "\<forall>i<n. \<forall>j<n. \<forall>k. user_cell PTE_WRITE (opened s) (dest + i) = Some k \<and>
      user_cell PTE_WRITE (opened s) (dest + j) = Some k \<longrightarrow> i = j"
    and "span src (unat n) \<inter> handler_span G = {}" and "0 <=s n"
  shows "\<exists>r t. copy_to_user G dest src n s = Some (Inr (r, t)) \<and>
    (r = 0 \<longleftrightarrow> access_ok dest n \<and> (\<forall>j<n. user_cell PTE_WRITE (opened s) (dest + j) \<noteq> None)) \<and>
    (r \<noteq> 0 \<longrightarrow> r = - EFAULT) \<and>
    (r = 0 \<longrightarrow> (\<forall>j<n. \<exists>k. user_cell PTE_WRITE (opened s) (dest + j) = Some k \<and> mem t k = mem s (src + j))) \<and>
    (r \<noteq> 0 \<and> access_ok dest n \<longrightarrow> scause t = STORE_FAULT \<and>
      (\<exists>j<n. stval t = dest + j \<and> user_cell PTE_WRITE (opened s) (dest + j) = None)) \<and>
    copy_leaves G s {k. \<exists>j<n. user_cell PTE_WRITE (opened s) (dest + j) = Some k} (access_ok dest n) (r = 0) t"
proof (cases "access_ok dest n")
  case False
  then show ?thesis by (simp add: copy_to_user_def EFAULT_def copy_leaves_def)
next
  case True
  obtain s' where st: "ksetjmp G (sym_page_fault_handler G) s = Some (Inr ((), s'))" "s' = s\<lparr>mem := mem s'\<rparr>" "s' = saved G s"
    "agree (- handler_span G) (mem s) (mem s')" "ptable 2 (mem s') (active_root s') P"
    "\<forall>acc a. user_cell acc (opened s') a = user_cell acc (opened s) a" by (rule handler_stored [OF assms(1,2)])
  have u: "vcell PTE_WRITE (opened s') (dest + j) = user_cell PTE_WRITE (opened s) (dest + j)" if "j < n" for j
    using access_ok_below [OF True that assms(7)] st(6) by (simp add: vcell_def)
  have k: "vcell PTE_READ (opened s') (src + j) = Some (src + j)" if "j < n" for j
    using assms(3) that by (simp add: vcell_def)
  have D: "dest_cells (opened s') dest n = {k. \<exists>j<n. user_cell PTE_WRITE (opened s) (dest + j) = Some k}"
    using u by (auto simp: dest_cells_def)
  have in_span: "src + j \<in> span src (unat n)" if "j < n" for j
    using that by (simp add: span_iff word_less_nat_alt)
  have safe: "copy_safe (opened s') dest src n"
  proof (rule copy_safeI [OF st(5)])
    show "pages P \<inter> dest_cells (opened s') dest n = {}" using assms(4) unfolding D by blast
    show "c \<notin> dest_cells (opened s') dest n"
      if "j < n" "vcell PTE_READ (opened s') (src + j) = Some c" for j c
      using assms(4) in_span [OF that(1)] k [OF that(1)] that(2) unfolding D by auto
    show "i = j" if "i < n" "j < n" "vcell PTE_WRITE (opened s') (dest + i) = Some c"
      "vcell PTE_WRITE (opened s') (dest + j) = Some c" for i j c
      using assms(5) u that by metis
  qed
  define ok where "ok \<longleftrightarrow> (\<forall>j<n. user_cell PTE_WRITE (opened s) (dest + j) \<noteq> None)"
  have c: "(\<forall>j<n. copyable (opened s') dest src j) \<longleftrightarrow> ok" using u k by (simp add: copyable_def ok_def)
  from user_memcpy_ok [OF st(1) safe assms(7)] obtain t where
    t: "user_memcpy G dest src n s = Some (Inr (if ok then 0 else - EFAULT, t))" "copied G s' dest src n t"
    unfolding c by blast
  have v: "vread (opened s') (src + j) = Some (mem s (src + j))" if "j < n" for j
  proof -
    have "src + j \<notin> handler_span G" using in_span [OF that] assms(6) by blast
    then have "mem s' (src + j) = mem s (src + j)" using st(4) by (simp add: agree_def)
    then show ?thesis using k [OF that] by (simp add: vread_vcell)
  qed
  have bytes: "\<forall>j<n. \<exists>k. user_cell PTE_WRITE (opened s) (dest + j) = Some k \<and> mem t k = mem s (src + j)" if ok
  proof (intro allI impI)
    fix j assume j: "j < n"
    from t(2) that obtain m where m: "t = closed (s'\<lparr>mem := m\<rparr>)"
      "\<forall>j<n. \<forall>k. vcell PTE_WRITE (opened s') (dest + j) = Some k \<longrightarrow> vread (opened s') (src + j) = Some (m k)"
      unfolding copied_def c by auto
    obtain k where cell: "user_cell PTE_WRITE (opened s) (dest + j) = Some k" using \<open>ok\<close> j unfolding ok_def by blast
    then have "Some (m k) = Some (mem s (src + j))" using m(2) u [OF j] v [OF j] j by metis
    then show "\<exists>k. user_cell PTE_WRITE (opened s) (dest + j) = Some k \<and> mem t k = mem s (src + j)"
      using cell m(1) by auto
  qed
  have fault: "scause t = STORE_FAULT \<and> (\<exists>j<n. stval t = dest + j \<and> user_cell PTE_WRITE (opened s) (dest + j) = None)"
    if "\<not> ok"
  proof -
    have "fault_at (opened s') dest src n (scause t) (stval t)"
      using t(2) that unfolding copied_def c if_not_P [OF that] by blast
    then show ?thesis unfolding fault_at_def using u k by fastforce
  qed
  have "copy_leaves G s {k. \<exists>j<n. user_cell PTE_WRITE (opened s) (dest + j) = Some k} True ok t"
    using copied_leaves [OF t(2) D st(2,4)] unfolding c .
  moreover have "copy_to_user G dest src n s = Some (Inr (if ok then 0 else - EFAULT, t))"
    using t(1) True by (simp add: copy_to_user_def)
  ultimately show ?thesis using bytes fault True unfolding ok_def [symmetric]
    by (intro exI [of _ "if ok then 0 else - EFAULT"] exI [of _ t]) (cases ok; simp add: EFAULT_def)
qed

text \<open>
  Property C17. \<open>copy_to_user\<close> from kernel memory to pairwise different frame bytes that
  neither the page tables nor the source share returns 0 exactly when the range is the user's
  and every byte of it is mapped writable, otherwise \<open>-EFAULT\<close>; on success the frames hold
  the kernel's bytes. It changes nothing but those frame bytes and \<open>page_fault_handler\<close>, where \<open>ksetjmp\<close> stores the registers,
  and closes the window. After a fault, \<open>scause\<close> and \<open>stval\<close> report a store to a byte of the range that cannot be written, and
  \<open>trapframe\<close> and the running task's \<open>kernel_frame\<close> have been written too, and of the processor's registers \<open>sepc\<close> and the
  fields \<open>spp\<close>, \<open>spie\<close> and \<open>sie\<close> of \<open>sstatus\<close>. A range that is not the user's changes nothing at all.
\<close>
theorem copy_to_user_correct:
  assumes "ptable 2 (mem s) (active_root s) P" and "pages P \<inter> handler_span G = {}" and "\<forall>j<n. \<not> src + j < SPLIT"
    and "\<forall>j<n. \<forall>k. user_cell PTE_WRITE (opened s) (dest + j) = Some k \<longrightarrow>
      k \<notin> pages P \<and> k \<notin> span src (unat n) \<and> k \<notin> handler_span G"
    and "\<forall>i<n. \<forall>j<n. \<forall>k. user_cell PTE_WRITE (opened s) (dest + i) = Some k \<and>
      user_cell PTE_WRITE (opened s) (dest + j) = Some k \<longrightarrow> i = j"
    and "span src (unat n) \<inter> handler_span G = {}" and "0 <=s n"
  shows "\<exists>r t. copy_to_user G dest src n s = Some (Inr (r, t)) \<and>
    (r = 0 \<longleftrightarrow> access_ok dest n \<and> (\<forall>j<n. user_cell PTE_WRITE (opened s) (dest + j) \<noteq> None)) \<and>
    (r \<noteq> 0 \<longrightarrow> r = - EFAULT) \<and>
    (r = 0 \<longrightarrow> (\<forall>j<n. \<exists>k. user_cell PTE_WRITE (opened s) (dest + j) = Some k \<and> mem t k = mem s (src + j))) \<and>
    (r \<noteq> 0 \<and> access_ok dest n \<longrightarrow> scause t = STORE_FAULT \<and>
      (\<exists>j<n. stval t = dest + j \<and> user_cell PTE_WRITE (opened s) (dest + j) = None)) \<and>
    copy_leaves G s {k. \<exists>j<n. user_cell PTE_WRITE (opened s) (dest + j) = Some k} (access_ok dest n) (r = 0) t"
  using assms(4) by (intro copy_to_user_ok [OF assms(1-3) _ assms(5-7)]) blast

lemma copy_to_user_correct_witness:
  "\<exists>(s :: sched_state) t. copy_to_user process_symbols 0x10008 0x3f00400000 64 s = Some (Inr (0, t)) \<and>
    (\<forall>j<64. mem t (0x3f07000008 + j) = mem s (0x3f00400000 + j)) \<and> \<not> may_page_fault t"
proof -
  let ?G = process_symbols
  obtain root F P and s :: sched_state where s: "pt_inv root F P s" "active_root s = root"
    "handler_span ?G \<inter> (F \<union> pages P) = {}" "span 0x3f07000000 4096 \<inter> (F \<union> pages P) = {}" "area 2 0x3f00400000 \<subseteq> F"
    "\<And>va. lookup (mem s) root va =
      (if va_vpn va = va_vpn 0x10000 then Some (user_pa va, 0x17) else kernel_lookup va)"
    using process_exists [of "\<lambda>_. 7"] by metis
  have o: "active_root (opened s) = root" "\<And>va. lookup (mem (opened s)) root va =
      (if va_vpn va = va_vpn 0x10000 then Some (user_pa va, 0x17) else kernel_lookup va)"
    using s(2,6) by simp_all
  have D: "span 0x3f00400000 64 \<subseteq> F"
    using s(5) span_mono [of 64 "2 ^ 14" "0x3f00400000"] by (auto simp: area_def)
  note cell = process_cell [OF o opened_facts(2) disjI2 [OF refl]]
  have c: "user_cell PTE_WRITE (opened s) (0x10008 + j) = Some (0x3f07000008 + j)" if "j < 64" for j
    using cell(1) that by simp
  have tab: "ptable 2 (mem s) (active_root s) P" using s(1,2) by (auto simp: pt_inv_def)
  have k: "\<forall>j<64. \<not> 0x3f00400000 + j < SPLIT" using cell(3) by simp
  have fr: "\<forall>j<64. \<forall>k. user_cell PTE_WRITE (opened s) (0x10008 + j) = Some k \<longrightarrow>
      k \<notin> pages P \<and> k \<notin> span 0x3f00400000 (unat (64 :: u64)) \<and> k \<notin> handler_span ?G"
  proof (intro allI impI)
    fix j k assume j: "j < 64" "user_cell PTE_WRITE (opened s) (0x10008 + j) = Some k"
    then have "k \<in> span 0x3f07000000 4096" using c cell(2) by auto
    then show "k \<notin> pages P \<and> k \<notin> span 0x3f00400000 (unat (64 :: u64)) \<and> k \<notin> handler_span ?G"
      using s(4) D process_frame by auto
  qed
  have inj: "\<forall>i<64. \<forall>j<64. \<forall>k. user_cell PTE_WRITE (opened s) (0x10008 + i) = Some k \<and>
      user_cell PTE_WRITE (opened s) (0x10008 + j) = Some k \<longrightarrow> i = j"
    using c by (metis add_left_cancel option.inject)
  have acc: "access_ok 0x10008 64" by (simp add: access_ok_iff word_sle_eq)
  have nn: "0 <=s (64 :: u64)" by (simp add: word_sle_eq)
  have sep: "pages P \<inter> handler_span ?G = {}" "span 0x3f00400000 (unat (64 :: u64)) \<inter> handler_span ?G = {}"
    using s(3) D by auto
  from copy_to_user_correct [OF tab sep(1) k fr inj sep(2) nn] acc c obtain t where
    t: "copy_to_user ?G 0x10008 0x3f00400000 64 s = Some (Inr (0, t))"
    "\<forall>j<64. \<exists>k. user_cell PTE_WRITE (opened s) (0x10008 + j) = Some k \<and> mem t k = mem s (0x3f00400000 + j)"
    "copy_leaves ?G s {k. \<exists>j<64. user_cell PTE_WRITE (opened s) (0x10008 + j) = Some k} True True t"
    by auto
  then have "t = closed (s\<lparr>mem := mem t\<rparr>)" by (simp add: copy_leaves_def)
  with c t(1,2) show ?thesis by (metis closed_facts(1) option.inject)
qed

subsection \<open>Strings and argument vectors\<close>

text \<open>
  A user byte that the kernel may read and whose frame byte is not in \<open>B\<close>; a NUL-terminated
  user string; a vector of \<open>n\<close> user pointers that ends in a null pointer. All are read in
  the state \<open>s\<close> and stay what they are while only \<open>B\<close> changes.
\<close>

definition ureadable :: "'a cpu_state_scheme \<Rightarrow> u64 set \<Rightarrow> u64 \<Rightarrow> bool" where
  "ureadable s B a \<longleftrightarrow> (\<exists>k. vcell PTE_READ s a = Some k \<and> k \<notin> B)"

definition ustring :: "'a cpu_state_scheme \<Rightarrow> u64 set \<Rightarrow> u64 \<Rightarrow> u8 list \<Rightarrow> bool" where
  "ustring s B a xs \<longleftrightarrow> (\<forall>j\<le>length xs. ureadable s B (a + of_nat j)) \<and>
     (\<forall>j<length xs. vread s (a + of_nat j) = Some (xs ! j) \<and> xs ! j \<noteq> 0) \<and>
     vread s (a + of_nat (length xs)) = Some 0"

definition uvector :: "'a cpu_state_scheme \<Rightarrow> u64 set \<Rightarrow> u64 \<Rightarrow> u64 list \<Rightarrow> bool" where
  "uvector s B args ps \<longleftrightarrow>
     (\<forall>i\<le>length ps. \<forall>j<8. ureadable s B (args + 8 * of_nat i + of_nat j)) \<and>
     (\<forall>i<length ps. vread_le 8 s (args + 8 * of_nat i) = Some (ps ! i) \<and> ps ! i \<noteq> 0) \<and>
     vread_le 8 s (args + 8 * of_nat (length ps)) = Some 0"

text \<open>A NUL-terminated string in the kernel's memory.\<close>

definition kstring :: "memory \<Rightarrow> u64 \<Rightarrow> u8 list \<Rightarrow> bool" where
  "kstring m a xs \<longleftrightarrow> (\<forall>j<length xs. m (a + of_nat j) = xs ! j) \<and> m (a + of_nat (length xs)) = 0"

text \<open>Only \<open>B\<close> changes, and \<open>B\<close> holds no page table.\<close>

definition stable :: "'a cpu_state_scheme \<Rightarrow> u64 set \<Rightarrow> bool" where
  "stable s B \<longleftrightarrow> (\<exists>P. ptable 2 (mem s) (active_root s) P \<and> pages P \<inter> B = {})"

lemma stable_vcell:
  assumes "stable s B" and "agree (- B) (mem s) m"
  shows "vcell acc (s\<lparr>mem := m\<rparr>) a = vcell acc s a"
proof -
  obtain P where P: "ptable 2 (mem s) (active_root s) P" "pages P \<inter> B = {}"
    using assms(1) by (auto simp: stable_def)
  have "agree (pages P) (mem s) m" by (rule agree_mono [OF assms(2)]) (use P(2) in blast)
  then show ?thesis by (rule vcell_frame [OF P(1)])
qed

lemma ureadable_vread:
  assumes "stable s B" and "agree (- B) (mem s) m" and "ureadable s B a"
  shows "vread (s\<lparr>mem := m\<rparr>) a = vread s a" and "vread s a \<noteq> None"
proof -
  obtain k where k: "vcell PTE_READ s a = Some k" "k \<notin> B" using assms(3) by (auto simp: ureadable_def)
  have "m k = mem s k" using assms(2) k(2) by (simp add: agree_def)
  then show "vread (s\<lparr>mem := m\<rparr>) a = vread s a" "vread s a \<noteq> None"
    using k(1) stable_vcell [OF assms(1,2), of PTE_READ a] by (simp_all add: vread_vcell)
qed

lemma ureadable_vread_le:
  assumes "stable s B" and "agree (- B) (mem s) m"
  shows "(\<forall>j<n. ureadable s B (a + of_nat j)) \<Longrightarrow> vread_le n (s\<lparr>mem := m\<rparr>) a = vread_le n s a"
proof (induction n arbitrary: a)
  case 0
  then show ?case by simp
next
  case (Suc n)
  have "\<forall>j<n. ureadable s B (a + 1 + of_nat j)"
  proof (intro allI impI)
    fix j assume "j < n"
    then have "ureadable s B (a + of_nat (Suc j))" using Suc.prems by blast
    then show "ureadable s B (a + 1 + of_nat j)" by (simp add: add.assoc)
  qed
  then have "vread_le n (s\<lparr>mem := m\<rparr>) (a + 1) = vread_le n s (a + 1)" by (rule Suc.IH)
  moreover have "ureadable s B a" using Suc.prems [rule_format, of 0] by simp
  ultimately show ?case using ureadable_vread [OF assms] by (auto split: option.split)
qed

subsection \<open>Copying a string\<close>

text \<open>
  What \<open>strlcpy\<close> needs of its source: every byte can be read, and is what it was, while only
  \<open>B\<close> changes. User bytes are so under a stable page table; kernel bytes outside \<open>B\<close> always.
\<close>

definition steady :: "'a cpu_state_scheme \<Rightarrow> u64 set \<Rightarrow> u64 \<Rightarrow> u8 \<Rightarrow> bool" where
  "steady s B a b \<longleftrightarrow> (\<forall>m. agree (- B) (mem s) m \<longrightarrow> vread (s\<lparr>mem := m\<rparr>) a = Some b)"

definition steady_string :: "'a cpu_state_scheme \<Rightarrow> u64 set \<Rightarrow> u64 \<Rightarrow> u8 list \<Rightarrow> bool" where
  "steady_string s B a xs \<longleftrightarrow> 0 \<notin> set xs \<and> (\<forall>j\<le>length xs. steady s B (a + of_nat j) ((xs @ [0]) ! j))"

lemma ustring_steady:
  assumes st: "stable s B" and str: "ustring s B a xs"
  shows "steady_string s B a xs"
proof -
  have "steady s B (a + of_nat j) ((xs @ [0]) ! j)" if j: "j \<le> length xs" for j
  proof -
    have "ureadable s B (a + of_nat j)" "vread s (a + of_nat j) = Some ((xs @ [0]) ! j)"
      using str j by (auto simp: ustring_def nth_append order.order_iff_strict)
    then show ?thesis using ureadable_vread(1) [OF st] by (simp add: steady_def)
  qed
  moreover have "0 \<notin> set xs" using str by (auto simp: ustring_def in_set_conv_nth)
  ultimately show ?thesis by (simp add: steady_string_def)
qed

lemma kernel_steady:
  assumes "kstring (mem s) a xs" and "0 \<notin> set xs"
    and "\<forall>j\<le>length xs. \<not> a + of_nat j < SPLIT \<and> a + of_nat j \<notin> B"
  shows "steady_string s B a xs"
  using assms by (auto simp: steady_string_def steady_def kstring_def agree_def vread_def nth_append order.order_iff_strict)

lemma of_nat_u64_eq: "i < 2 ^ 64 \<Longrightarrow> j < 2 ^ 64 \<Longrightarrow> (of_nat i :: u64) = of_nat j \<longleftrightarrow> i = j"
  by (auto dest: arg_cong [where f = unat] simp: unat_of_nat)

lemma strlcpy_step:
  assumes str: "steady_string s B src xs" and len: "length xs < unat n" and pos: "0 <=s n"
    and dest: "\<forall>j<n. \<not> dest + j < SPLIT" and D: "span dest (unat n) \<subseteq> B"
    and i: "i \<le> length xs" and ag: "agree (- B) (mem s) m"
  defines "b \<equiv> (xs @ [0]) ! i"
  shows "strlcpy_loop (of_nat i) n dest src (s\<lparr>mem := m\<rparr>) =
      (if i = length xs then (Some (of_nat i), s\<lparr>mem := store8 m (dest + of_nat i) b\<rparr>)
       else strlcpy_loop (of_nat (Suc i)) n dest src (s\<lparr>mem := store8 m (dest + of_nat i) b\<rparr>))"
    and "dest + of_nat i \<in> span dest (Suc (length xs))"
proof -
  have ui: "unat (of_nat i :: u64) = i"
    using i len unsigned_less [where ?'a = nat, of n] by (simp add: unat_of_nat)
  then have lt: "of_nat i < n" using i len by (simp add: word_less_nat_alt)
  have inD: "dest + of_nat i \<in> span dest (unat n)" using lt by (simp add: span_iff word_less_nat_alt)
  show "dest + of_nat i \<in> span dest (Suc (length xs))" using ui i by (simp add: span_iff)
  have v: "steady s B (src + of_nat i) b" using str i by (simp add: steady_string_def b_def)
  have b: "b = 0 \<longleftrightarrow> i = length xs" using str i by (auto simp: steady_string_def b_def nth_append dest!: nth_mem)
  let ?m = "store8 m (dest + of_nat i) b"
  have "agree (- B) m ?m" using inD D by (intro agree_sym [OF agree_store8]) blast
  with ag have ag': "agree (- B) (mem s) ?m" by (rule agree_trans)
  have "vread (s\<lparr>mem := m\<rparr>) (src + of_nat i) = Some b"
    "vread (s\<lparr>mem := ?m\<rparr>) (src + of_nat i) = Some b"
    using ag ag' v by (simp_all add: steady_def)
  moreover have "vwrite (s\<lparr>mem := m\<rparr>) (dest + of_nat i) b = Some (s\<lparr>mem := ?m\<rparr>)"
    using dest lt by (simp add: vwrite_def)
  ultimately show "strlcpy_loop (of_nat i) n dest src (s\<lparr>mem := m\<rparr>) =
      (if i = length xs then (Some (of_nat i), s\<lparr>mem := ?m\<rparr>)
       else strlcpy_loop (of_nat (Suc i)) n dest src (s\<lparr>mem := ?m\<rparr>))"
    using lt b sloop_less [OF pos, of "of_nat i"] by (subst strlcpy_loop.simps) (simp add: add.commute)
qed

lemma strlcpy_loop_ok:
  assumes str: "steady_string s B src xs" and len: "length xs < unat n" and pos: "0 <=s n"
    and dest: "\<forall>j<n. \<not> dest + j < SPLIT" and D: "span dest (unat n) \<subseteq> B"
  shows "i \<le> length xs \<Longrightarrow> agree (- B) (mem s) m \<Longrightarrow>
    \<exists>m'. strlcpy_loop (of_nat i) n dest src (s\<lparr>mem := m\<rparr>) = (Some (of_nat (length xs)), s\<lparr>mem := m'\<rparr>) \<and>
      agree (- span dest (Suc (length xs))) m m' \<and> (\<forall>j<i. m' (dest + of_nat j) = m (dest + of_nat j)) \<and>
      (\<forall>j\<le>length xs. i \<le> j \<longrightarrow> m' (dest + of_nat j) = (xs @ [0]) ! j)"
proof (induction "length xs - i" arbitrary: i m)
  case 0
  then have i: "i = length xs" by simp
  let ?m = "store8 m (dest + of_nat i) ((xs @ [0]) ! i)"
  note step = strlcpy_step [OF str len pos dest D 0(2,3)]
  have "?m (dest + of_nat j) = m (dest + of_nat j)" if "j < i" for j
  proof -
    have "(of_nat j :: u64) \<noteq> of_nat i"
      using that i len unsigned_less [where ?'a = nat, of n] of_nat_u64_eq [of j i] by simp
    then show ?thesis by (simp add: store8_def)
  qed
  moreover have "agree (- span dest (Suc (length xs))) m ?m"
    using step(2) by (intro agree_sym [OF agree_store8]) blast
  moreover have "\<forall>j\<le>length xs. i \<le> j \<longrightarrow> ?m (dest + of_nat j) = (xs @ [0]) ! j"
    using i by auto
  ultimately show ?case using step(1) i by fastforce
next
  case (Suc x)
  let ?m = "store8 m (dest + of_nat i) ((xs @ [0]) ! i)"
  note step = strlcpy_step [OF str len pos dest D Suc.prems]
  have m: "agree (- span dest (Suc (length xs))) m ?m" using step(2) by (intro agree_sym [OF agree_store8]) blast
  have "span dest (Suc (length xs)) \<subseteq> B" using span_mono [of "Suc (length xs)" "unat n" dest] len D by auto
  then have "agree (- B) m ?m" by (intro agree_mono [OF m]) blast
  with Suc.prems(2) have ag: "agree (- B) (mem s) ?m" by (rule agree_trans)
  have "x = length xs - Suc i" "Suc i \<le> length xs" "i \<noteq> length xs" using Suc.hyps(2) by simp_all
  from Suc.hyps(1) [OF this(1,2) ag] step(1) this(3) obtain m' where
    m': "strlcpy_loop (of_nat i) n dest src (s\<lparr>mem := m\<rparr>) = (Some (of_nat (length xs)), s\<lparr>mem := m'\<rparr>)"
      "agree (- span dest (Suc (length xs))) ?m m'" "\<forall>j<Suc i. m' (dest + of_nat j) = ?m (dest + of_nat j)"
      "\<forall>j\<le>length xs. Suc i \<le> j \<longrightarrow> m' (dest + of_nat j) = (xs @ [0]) ! j" by auto
  have old: "m' (dest + of_nat j) = m (dest + of_nat j)" if "j < i" for j
  proof -
    have "i < 2 ^ 64" using Suc.prems(1) len unsigned_less [where ?'a = nat, of n] by simp
    then have "(of_nat j :: u64) \<noteq> of_nat i" using that of_nat_u64_eq [of j i] by simp
    then show ?thesis using m'(3) that by (simp add: store8_def)
  qed
  have "m' (dest + of_nat i) = (xs @ [0]) ! i" using m'(3) by (simp add: store8_def)
  with m'(4) have new: "\<forall>j\<le>length xs. i \<le> j \<longrightarrow> m' (dest + of_nat j) = (xs @ [0]) ! j"
    by (metis le_eq_less_or_eq Suc_le_eq)
  show ?case using m'(1) old new agree_trans [OF m m'(2)] by blast
qed

lemma strlcpy_ok:
  assumes str: "steady_string s B src xs" and len: "length xs < unat n" and pos: "0 <=s n"
    and dest: "\<forall>j<n. \<not> dest + j < SPLIT" and D: "span dest (unat n) \<subseteq> B"
    and ag: "agree (- B) (mem s) m"
  shows "\<exists>m'. strlcpy dest src n (s\<lparr>mem := m\<rparr>) = Some (Inr (Some (of_nat (length xs)), s\<lparr>mem := m'\<rparr>)) \<and>
      agree (- span dest (Suc (length xs))) m m' \<and> kstring m' dest xs"
proof -
  from strlcpy_loop_ok [OF assms(1-5) _ ag, of 0] obtain m' where
    m': "strlcpy_loop 0 n dest src (s\<lparr>mem := m\<rparr>) = (Some (of_nat (length xs)), s\<lparr>mem := m'\<rparr>)"
      "agree (- span dest (Suc (length xs))) m m'" "\<forall>j\<le>length xs. m' (dest + of_nat j) = (xs @ [0]) ! j" by auto
  have "0 <s n" using len sloop_less [OF pos, of 0] by (simp add: word_less_nat_alt)
  then have "strlcpy dest src n (s\<lparr>mem := m\<rparr>) = Some (Inr (strlcpy_loop 0 n dest src (s\<lparr>mem := m\<rparr>)))"
    by (simp add: strlcpy_def kthen_Inr)
  moreover have "kstring m' dest xs" using m'(3) by (auto simp: kstring_def nth_append)
  ultimately show ?thesis unfolding m'(1) using m'(2) by blast
qed

subsection \<open>Copying an argument vector\<close>

lemma count_args_ok:
  assumes st: "stable s B" and ag: "agree (- B) (mem s) m" and vec: "uvector s B args ps"
  shows "i \<le> length ps \<Longrightarrow>
    count_args (s\<lparr>mem := m\<rparr>) args (of_nat i) = Some (Inr (of_nat (length ps)))"
proof (induction "length ps - i" arbitrary: i)
  case 0
  then have i: "i = length ps" by simp
  have "vread_le 8 (s\<lparr>mem := m\<rparr>) (args + 8 * of_nat i) = Some 0"
    using ureadable_vread_le [OF st ag, of 8] vec i by (simp add: uvector_def)
  then show ?case using i by (subst count_args.simps) simp
next
  case (Suc x)
  then have i: "i < length ps" by simp
  have "vread_le 8 (s\<lparr>mem := m\<rparr>) (args + 8 * of_nat i) = Some (ps ! i)" "ps ! i \<noteq> 0"
    using ureadable_vread_le [OF st ag, of 8] vec i by (simp_all add: uvector_def)
  moreover have "count_args (s\<lparr>mem := m\<rparr>) args (of_nat (Suc i)) = Some (Inr (of_nat (length ps)))"
    by (rule Suc.hyps(1)) (use Suc.hyps(2) in simp_all)
  ultimately show ?case by (subst count_args.simps) (simp add: add.commute)
qed

text \<open>The offset of string \<open>i\<close> in the buffer: behind the pointers and the strings before it.\<close>

definition arg_off :: "u8 list list \<Rightarrow> nat \<Rightarrow> nat" where
  "arg_off xss i = 8 * (length xss + 1) + (\<Sum>xs\<leftarrow>take i xss. length xs + 1)"

lemma arg_off_Suc: "i < length xss \<Longrightarrow> arg_off xss (Suc i) = arg_off xss i + length (xss ! i) + 1"
  by (simp add: arg_off_def take_Suc_conv_app_nth)

lemma arg_off_mono:
  assumes "i \<le> j"
  shows "arg_off xss i \<le> arg_off xss j"
proof (rule lift_Suc_mono_le [OF _ assms])
  show "arg_off xss k \<le> arg_off xss (Suc k)" for k
    using arg_off_Suc [of k xss] by (cases "k < length xss") (simp_all add: arg_off_def)
qed

lemma arg_off_min: "8 * length xss + 8 \<le> arg_off xss i"
  by (simp add: arg_off_def)

text \<open>Offsets inside an object decide membership.\<close>

lemma span_offset_iff:
  assumes "c + k \<le> 2 ^ 64" and "c < 2 ^ 64"
  shows "x \<in> span (a + of_nat c) k \<longleftrightarrow> c \<le> unat (x - a) \<and> unat (x - a) < c + k"
proof -
  have c: "unat (of_nat c :: u64) = c" using assms(2) by (simp add: unat_of_nat)
  have x: "x - (a + of_nat c) = (x - a) - of_nat c" by simp
  have "unat (x - (a + of_nat c)) =
      (if c \<le> unat (x - a) then unat (x - a) - c else unat (x - a) + 2 ^ 64 - c)"
    unfolding x unat_sub_if' c by simp
  then show ?thesis using assms by (auto simp: span_iff)
qed

text \<open>What the loop leaves alone once string \<open>i\<close> is next.\<close>

definition args_done :: "u64 \<Rightarrow> u8 list list \<Rightarrow> nat \<Rightarrow> u64 set" where
  "args_done buf xss i =
     {x. unat (x - buf) < 8 * i \<or> 8 * length xss \<le> unat (x - buf) \<and> unat (x - buf) < arg_off xss i}"

definition arg_ok :: "memory \<Rightarrow> u64 \<Rightarrow> u8 list list \<Rightarrow> nat \<Rightarrow> bool" where
  "arg_ok m buf xss i \<longleftrightarrow> load64 m (buf + 8 * of_nat i) = buf + of_nat (arg_off xss i) \<and>
     kstring m (buf + of_nat (arg_off xss i)) (xss ! i)"

lemma kstring_agree:
  assumes "kstring m a xs" and "agree (span a (Suc (length xs))) m m'" and "length xs < 2 ^ 63"
  shows "kstring m' a xs"
proof -
  have "a + of_nat j \<in> span a (Suc (length xs))" if "j \<le> length xs" for j
    using that assms(3) by (simp add: span_iff unat_of_nat)
  with assms(1,2) show ?thesis by (auto simp: kstring_def agree_def)
qed

lemma copy_args_loop_ok:
  assumes st: "stable s B" and vec: "uvector s B args ps" and len: "length ps = length xss"
    and str: "\<forall>i<length xss. ustring s B (ps ! i) (xss ! i)"
    and fit: "arg_off xss (length xss) \<le> 4080"
    and buf: "\<forall>j. unat j < 4080 \<longrightarrow> \<not> buf + j < SPLIT" and B: "span buf 4080 \<subseteq> B"
  shows "i \<le> length xss \<Longrightarrow> agree (- B) (mem s) m \<Longrightarrow>
    \<exists>m'. copy_args_loop (of_nat i) (of_nat (length xss)) (of_nat (arg_off xss i)) buf args (s\<lparr>mem := m\<rparr>)
        = Some (Inr (Copied, s\<lparr>mem := m'\<rparr>)) \<and>
      agree (- span buf 4080) m m' \<and> agree (args_done buf xss i) m m' \<and>
      (\<forall>k<length xss. i \<le> k \<longrightarrow> arg_ok m' buf xss k)"
proof (induction "length xss - i" arbitrary: i m)
  case 0
  then have "i = length xss" by simp
  then show ?case by (subst copy_args_loop.simps) (auto intro: exI [of _ m])
next
  case (Suc x)
  let ?n = "length xss" and ?o = "arg_off xss i" and ?xs = "xss ! i"
  let ?dest = "buf + of_nat ?o" and ?room = "ARG_MAX_bytes - of_nat ?o"
  have i: "i < ?n" using Suc.hyps(2) by simp
  have n: "8 * ?n + 8 \<le> ?o" by (rule arg_off_min)
  have oS: "arg_off xss (Suc i) = ?o + length ?xs + 1" by (rule arg_off_Suc [OF i])
  then have room: "?o + length ?xs + 1 \<le> 4080"
    using arg_off_mono [of "Suc i" ?n xss] i fit by simp
  have ur: "unat ?room = 4080 - ?o"
    using room by (subst unat_sub) (simp_all add: ARG_MAX_bytes_def word_le_nat_alt unat_of_nat)
  have lt: "(of_nat i :: u64) <s of_nat ?n"
    using i n room by (subst sless_small) (simp_all add: word_less_nat_alt unat_of_nat)
  define m1 where "m1 = store64 m (buf + 8 * of_nat i) ?dest"
  have cell: "buf + 8 * of_nat i = buf + of_nat (8 * i)" by simp
  have ptr: "x \<in> span (buf + 8 * of_nat i) 8 \<longleftrightarrow> 8 * i \<le> unat (x - buf) \<and> unat (x - buf) < 8 * i + 8" for x
    unfolding cell by (rule span_offset_iff) (use i n room in simp_all)
  have dst: "x \<in> span ?dest (4080 - ?o) \<longleftrightarrow> ?o \<le> unat (x - buf) \<and> unat (x - buf) < 4080" for x
    using span_offset_iff [of ?o "4080 - ?o" x buf] room by simp
  have bufx: "x \<in> span buf 4080 \<longleftrightarrow> unat (x - buf) < 4080" for x by (simp add: span_iff)
  have m1: "agree (- span (buf + 8 * of_nat i) 8) m m1"
    unfolding m1_def by (intro agree_sym [OF agree_store64]) blast
  have "- B \<subseteq> - span (buf + 8 * of_nat i) 8" using B i n room by (auto simp: ptr bufx dest!: subsetD)
  from agree_trans [OF Suc.prems(2) agree_mono [OF m1 this]]
  have ag1: "agree (- B) (mem s) m1" .
  have p: "vread_le 8 (s\<lparr>mem := m1\<rparr>) (args + 8 * of_nat i) = Some (ps ! i)"
    using ureadable_vread_le [OF st ag1, of 8] vec i len by (simp add: uvector_def)
  have "\<exists>m2. strlcpy ?dest (ps ! i) ?room (s\<lparr>mem := m1\<rparr>) =
        Some (Inr (Some (of_nat (length ?xs)), s\<lparr>mem := m2\<rparr>)) \<and>
      agree (- span ?dest (Suc (length ?xs))) m1 m2 \<and> kstring m2 ?dest ?xs"
  proof (rule strlcpy_ok [OF ustring_steady [OF st] _ _ _ _ ag1])
    show "ustring s B (ps ! i) ?xs" using str i by blast
    show "length ?xs < unat ?room" using ur room by simp
    show "0 <=s ?room" using ur by (simp add: nonneg_iff)
    show "span ?dest (unat ?room) \<subseteq> B" unfolding ur using B by (auto simp: dst bufx dest!: subsetD)
    show "\<forall>j<?room. \<not> ?dest + j < SPLIT"
    proof (intro allI impI)
      fix j assume j: "j < ?room"
      then have "unat (of_nat ?o + j) < 4080"
        using ur room by (subst unat_add_lem [THEN iffD1]) (simp_all add: word_less_nat_alt unat_of_nat)
      then show "\<not> ?dest + j < SPLIT" using buf by (simp only: add.assoc) blast
    qed
  qed
  then obtain m2 where m2_run: "strlcpy ?dest (ps ! i) ?room (s\<lparr>mem := m1\<rparr>) =
        Some (Inr (Some (of_nat (length ?xs)), s\<lparr>mem := m2\<rparr>))"
      and m2_fine: "agree (- span ?dest (Suc (length ?xs))) m1 m2" and m2_str: "kstring m2 ?dest ?xs" by blast
  have "span ?dest (Suc (length ?xs)) \<subseteq> span ?dest (4080 - ?o)" by (rule span_mono) (use room in simp)
  then have "agree (- span ?dest (4080 - ?o)) m1 m2" by (intro agree_mono [OF m2_fine]) blast
  note m2 = m2_run this m2_str
  have "- B \<subseteq> - span ?dest (4080 - ?o)" using B by (auto simp: dst bufx dest!: subsetD)
  from agree_trans [OF ag1 agree_mono [OF m2(2) this]] have ag2: "agree (- B) (mem s) m2" .
  have nb: "\<not> ?room <=s of_nat (length ?xs)"
    using ur room by (subst sless_small) (simp_all add: word_le_nat_alt unat_of_nat)
  have off: "of_nat ?o + (of_nat (length ?xs) + 1) = (of_nat (arg_off xss (Suc i)) :: u64)"
    unfolding oS by simp
  have step: "copy_args_loop (of_nat i) (of_nat ?n) (of_nat ?o) buf args (s\<lparr>mem := m\<rparr>) =
      copy_args_loop (of_nat (Suc i)) (of_nat ?n) (of_nat (arg_off xss (Suc i))) buf args (s\<lparr>mem := m2\<rparr>)"
    using lt p m2(1) nb off
    by (subst copy_args_loop.simps) (simp add: kthen_Inr kbind_Inr m1_def [symmetric] add.commute)
  have "x = ?n - Suc i" "Suc i \<le> ?n" using Suc.hyps(2) by simp_all
  from Suc.hyps(1) [OF this ag2] obtain m' where
    m': "copy_args_loop (of_nat i) (of_nat ?n) (of_nat ?o) buf args (s\<lparr>mem := m\<rparr>) =
        Some (Inr (Copied, s\<lparr>mem := m'\<rparr>))"
      "agree (- span buf 4080) m2 m'" "agree (args_done buf xss (Suc i)) m2 m'"
      "\<forall>k<?n. Suc i \<le> k \<longrightarrow> arg_ok m' buf xss k"
    unfolding step by blast
  have "agree (- span buf 4080) m m1"
    by (rule agree_mono [OF m1]) (use i n room in \<open>auto simp: ptr bufx\<close>)
  moreover have "agree (- span buf 4080) m1 m2"
    by (rule agree_mono [OF m2(2)]) (auto simp: dst bufx)
  ultimately have A: "agree (- span buf 4080) m m'" using m'(2) agree_trans by metis
  have "agree (args_done buf xss i) m m1"
    by (rule agree_mono [OF m1]) (use i in \<open>auto simp: ptr args_done_def\<close>)
  moreover have "agree (args_done buf xss i) m1 m2"
    by (rule agree_mono [OF m2(2)]) (use i n in \<open>auto simp: dst args_done_def\<close>)
  moreover have "agree (args_done buf xss i) m2 m'"
    by (rule agree_mono [OF m'(3)]) (use oS in \<open>auto simp: args_done_def\<close>)
  ultimately have K: "agree (args_done buf xss i) m m'" using agree_trans by metis
  have "agree (span (buf + 8 * of_nat i) 8) m1 m'"
  proof (rule agree_trans)
    show "agree (span (buf + 8 * of_nat i) 8) m1 m2"
      by (rule agree_mono [OF m2(2)]) (use i n in \<open>auto simp: ptr dst\<close>)
    show "agree (span (buf + 8 * of_nat i) 8) m2 m'"
      by (rule agree_mono [OF m'(3)]) (auto simp: ptr args_done_def)
  qed
  from agree_load64 [OF this order.refl] have "load64 m' (buf + 8 * of_nat i) = ?dest"
    by (simp add: m1_def mem_simps)
  moreover have "agree (span ?dest (Suc (length ?xs))) m2 m'"
  proof (rule agree_mono [OF m'(3)])
    show "span ?dest (Suc (length ?xs)) \<subseteq> args_done buf xss (Suc i)"
      using n room by (auto simp: span_offset_iff args_done_def oS)
  qed
  from kstring_agree [OF m2(3) this] room have "kstring m' ?dest ?xs" by simp
  ultimately have "arg_ok m' buf xss i" by (simp add: arg_ok_def)
  with m'(4) have "\<forall>k<?n. i \<le> k \<longrightarrow> arg_ok m' buf xss k"
    by (metis Suc_le_eq le_neq_implies_less)
  with m'(1) A K show ?case by blast
qed

lemma vcell_buddy_pages [simp]: "vcell acc (s\<lparr>buddy_pages := b\<rparr>) a = vcell acc s a"
  by (simp add: vcell_def user_cell_def active_root_def split: option.split)

lemma vread_buddy_pages [simp]: "vread (s\<lparr>buddy_pages := b\<rparr>) a = vread s a"
  by (simp add: vread_vcell)

lemma vread_le_buddy_pages [simp]: "vread_le n (s\<lparr>buddy_pages := b\<rparr>) a = vread_le n s a"
  by (induction n arbitrary: a) (auto split: option.split)

lemma user_data_buddy_pages [simp]:
  "uvector (s\<lparr>buddy_pages := b\<rparr>) B args ps = uvector s B args ps"
  "ustring (s\<lparr>buddy_pages := b\<rparr>) B src xs = ustring s B src xs"
  by (simp_all add: uvector_def ustring_def ureadable_def)

text \<open>The buffer of \<open>user_copy_args\<close>, and the state in which its loops run.\<close>

lemma copy_args_buffer:
  assumes inv: "pt_inv (active_root s) F P s" and H: "handler_span G \<inter> (F \<union> pages P) = {}"
  obtains (oom) "F = {}" and "kmalloc ARG_MAX_bytes s = Some (Inl ''out of memory'')"
  | (buffer) a t0 t s' where "kmalloc ARG_MAX_bytes s = Some (Inr (a + 4, t0))"
      and "ksetjmp G (sym_page_fault_handler G) t0 = Some (Inr ((), t))" and "area_ok 0 a"
      and "area 0 a \<subseteq> F" and "load32 (mem t) a = 0" and "allocator (F - area 0 a) t"
      and "agree (- (F \<union> handler_span G)) (mem s') (mem t)" and "opened t = s'\<lparr>mem := mem t\<rparr>"
      and "stable s' (F \<union> handler_span G)"
      and "mem s' = mem s" and "s' = (opened s)\<lparr>buddy_pages := buddy_pages t\<rparr>" and "same_rest s t"
proof -
  have al: "allocator F s" using inv by (simp add: pt_inv_def)
  have sz: "unat ARG_MAX_bytes \<le> 4092" by (simp add: ARG_MAX_bytes_def)
  from kmalloc_small [OF al sz] show thesis
  proof (elim disjE exE conjE)
    fix a t0
    assume k: "kmalloc ARG_MAX_bytes s = Some (Inr (a + 4, t0))" "area_ok 0 a" "area 0 a \<subseteq> F"
      "load32 (mem t0) a = 0" "allocator (F - area 0 a) t0" "agree (- F) (mem s) (mem t0)" and rest: "same_rest s t0"
    obtain m where m: "ksetjmp G (sym_page_fault_handler G) t0 = Some (Inr ((), t0\<lparr>mem := m\<rparr>))"
      "agree (- handler_span G) (mem t0) m" using ksetjmp_ok [of G _ t0] unfolding handler_span_def by blast
    let ?t = "t0\<lparr>mem := m\<rparr>"
    let ?s = "(opened s)\<lparr>buddy_pages := buddy_pages ?t\<rparr>"
    have t: "?t = s\<lparr>mem := m, buddy_pages := buddy_pages ?t\<rparr>" 
      by (subst rest [unfolded same_rest_def]) simp
    have "span a 4 \<subseteq> area 0 a" unfolding area_def by (rule span_mono) simp
    then have "span a 4 \<inter> handler_span G = {}" using k(3) H by blast
    then have "agree (span a 4) (mem t0) m" by (intro agree_mono [OF m(2)]) blast
    from agree_load32 [OF this order.refl] have hd: "load32 m a = 0" using k(4) by simp
    have "allocator (F - area 0 a) ?t"
      by (rule allocator_frame [OF k(5)]) (use H in \<open>auto intro!: agree_mono [OF m(2)]\<close>)
    moreover have "agree (- (F \<union> handler_span G)) (mem s) m"
      by (rule agree_trans [OF agree_mono [OF k(6)] agree_mono [OF m(2)]]) blast+
    moreover have "opened ?t = ?s\<lparr>mem := m\<rparr>"
      by (subst t, cases s) (simp add: opened_def)
    moreover have "stable ?s (F \<union> handler_span G)"
    proof -
      have "active_root ?s = active_root s" by (cases s) (simp add: active_root_def opened_def)
      then show ?thesis using inv H unfolding stable_def pt_inv_def by auto
    qed
    moreover have "same_rest s ?t" using t by (simp add: same_rest_def)
    ultimately show thesis using k m(1) hd by (intro buffer [of a t0 ?t ?s]) simp_all
  qed (rule oom)
qed

lemma buffer_bytes:
  assumes "area_ok 0 a"
  shows "unat j < 4080 \<Longrightarrow> \<not> a + 4 + j < SPLIT" and "span (a + 4) 4080 \<subseteq> area 0 a"
    and "span (a + 4) 4080 \<inter> span a 4 = {}" and "a + 4 \<noteq> 0"
proof -
  show "\<not> a + 4 + j < SPLIT" if "unat j < 4080"
  proof -
    have "unat (4 + j) = 4 + unat j" using that by (subst unat_add_lem [THEN iffD1]) simp_all
    then show ?thesis using block_address(1) [OF assms, of "4 + j"] that by (simp add: add.assoc)
  qed
  show "span (a + 4) 4080 \<subseteq> area 0 a"
    unfolding area_def by (rule span_shift_subset) simp
  show "span (a + 4) 4080 \<inter> span a 4 = {}" by (rule span_disjoint_base) simp_all
  show "a + 4 \<noteq> 0" by (rule block_address(2) [OF assms]) simp
qed

lemma arg_size_ok:
  assumes "8 * n + 8 \<le> 4080"
  shows "\<not> ARG_MAX_bytes <s ((of_nat n + 1) * 8 :: u64)"
    and "(of_nat n + 1) * 8 = (of_nat (8 * n + 8) :: u64)"
proof -
  show e: "(of_nat n + 1) * 8 = (of_nat (8 * n + 8) :: u64)" by (simp add: mult.commute)
  have u: "unat (of_nat (8 * n + 8) :: u64) = 8 * n + 8" using assms by (simp only: unat_of_nat) simp
  then have "sint (of_nat (8 * n + 8) :: u64) = int (8 * n + 8)" using assms by (subst sint_small) simp_all
  moreover have "sint ARG_MAX_bytes = 4080" by (subst sint_small) (simp_all add: ARG_MAX_bytes_def)
  ultimately show "\<not> ARG_MAX_bytes <s ((of_nat n + 1) * 8 :: u64)" unfolding e word_sless_alt using assms by simp
qed

lemma arg_ok_agree:
  assumes "arg_ok m buf xss k" and "k < length xss" and "arg_off xss (length xss) \<le> 4080"
    and "agree (- span (buf + 8 * of_nat (length xss)) 8) m m'"
  shows "arg_ok m' buf xss k"
proof -
  let ?n = "length xss"
  have o: "8 * ?n + 8 \<le> arg_off xss k" "arg_off xss k + length (xss ! k) + 1 \<le> 4080"
    using arg_off_min [of xss k] arg_off_Suc [OF assms(2)] arg_off_mono [of "Suc k" ?n xss] assms(2,3)
    by simp_all
  have last: "x \<in> span (buf + 8 * of_nat ?n) 8 \<longleftrightarrow> 8 * ?n \<le> unat (x - buf) \<and> unat (x - buf) < 8 * ?n + 8" for x
    using span_offset_iff [of "8 * ?n" 8 x buf] o by simp
  have ptr: "x \<in> span (buf + 8 * of_nat k) 8 \<longleftrightarrow> 8 * k \<le> unat (x - buf) \<and> unat (x - buf) < 8 * k + 8" for x
    using span_offset_iff [of "8 * k" 8 x buf] o assms(2) by simp
  have "agree (span (buf + 8 * of_nat k) 8) m m'"
    by (rule agree_mono [OF assms(4)]) (use assms(2) in \<open>auto simp: last ptr\<close>)
  from agree_load64 [OF this order.refl]
  have "load64 m' (buf + 8 * of_nat k) = load64 m (buf + 8 * of_nat k)" by simp
  moreover have "agree (span (buf + of_nat (arg_off xss k)) (Suc (length (xss ! k)))) m m'"
    by (rule agree_mono [OF assms(4)]) (use o in \<open>auto simp: last span_offset_iff\<close>)
  ultimately show ?thesis
    using assms(1) kstring_agree [of m "buf + of_nat (arg_off xss k)" "xss ! k" m'] o
    by (simp add: arg_ok_def)
qed

text \<open>
  Property C18. On a vector of user strings that fit (pointers and strings take at most 4080
  bytes), \<open>user_copy_args\<close> returns a fresh block of the allocator with the pointers, each to a
  NUL-terminated copy of its string inside the block, and a final null pointer. It changes no
  memory but free memory and \<open>page_fault_handler\<close>, where \<open>ksetjmp\<close> stores the registers, no other part of the state, and closes
  the page-fault window; without memory it panics.
\<close>
theorem user_copy_args_correct:
  assumes "pt_inv (active_root s) F P s" and "handler_span G \<inter> (F \<union> pages P) = {}" and "access_ok args 8"
    and "uvector (opened s) (F \<union> handler_span G) args ps" and "length ps = length xss"
    and "\<forall>i<length xss. ustring (opened s) (F \<union> handler_span G) (ps ! i) (xss ! i)"
    and "arg_off xss (length xss) \<le> 4080"
  shows "F = {} \<and> user_copy_args G args s = Some (Inl ''out of memory'') \<or>
    (\<exists>a t. user_copy_args G args s = Some (Inr (a + 4, t)) \<and> area_ok 0 a \<and> area 0 a \<subseteq> F \<and>
       allocator (F - area 0 a) t \<and> load32 (mem t) a = 0 \<and> agree (- (F \<union> handler_span G)) (mem s) (mem t) \<and>
       t = closed (s\<lparr>mem := mem t, buddy_pages := buddy_pages t\<rparr>) \<and>
       (\<forall>i<length xss. arg_ok (mem t) (a + 4) xss i) \<and>
       load64 (mem t) (a + 4 + 8 * of_nat (length xss)) = 0)"
  using assms(1,2)
proof (cases rule: copy_args_buffer)
  case oom
  then show ?thesis using assms(3) by (simp add: user_copy_args_def kbind_Inl)
next
  case (buffer a t0 t s')
  let ?n = "length xss" and ?buf = "a + 4" and ?B = "F \<union> handler_span G"
  note b = buffer_bytes [OF buffer(3)]
  have vec: "uvector s' ?B args ps" and str: "\<forall>i<?n. ustring s' ?B (ps ! i) (xss ! i)"
    using assms(4,6) buffer(11) by simp_all
  have B: "span ?buf 4080 \<subseteq> F" using b(2) buffer(4) by blast
  then have B': "span ?buf 4080 \<subseteq> ?B" by blast
  have n: "8 * ?n + 8 \<le> 4080" using arg_off_min [of xss ?n] assms(7) by simp
  have count: "count_args (opened t) args 0 = Some (Inr (of_nat ?n))"
    using count_args_ok [OF buffer(9,7) vec, of 0] assms(5) buffer(8) by simp
  have "\<forall>j. unat j < 4080 \<longrightarrow> \<not> ?buf + j < SPLIT" using b(1) by blast
  from copy_args_loop_ok [OF buffer(9) vec assms(5) str assms(7) this B' _ buffer(7), of 0]
  obtain m where m: "copy_args_loop 0 (of_nat ?n) (of_nat (arg_off xss 0)) ?buf args (s'\<lparr>mem := mem t\<rparr>)
      = Some (Inr (Copied, s'\<lparr>mem := m\<rparr>))"
    "agree (- span ?buf 4080) (mem t) m" "\<forall>k<?n. arg_ok m ?buf xss k" by auto
  have off0: "of_nat (arg_off xss 0) = ((of_nat ?n + 1) * 8 :: u64)"
    using arg_size_ok(2) [OF n] by (simp add: arg_off_def add.commute)
  let ?m = "store64 m (?buf + 8 * of_nat ?n) 0"
  let ?t = "closed (s'\<lparr>mem := ?m\<rparr>)"
  have run: "user_copy_args G args s = Some (Inr (?buf, ?t))"
    using assms(3) buffer(1,2) b(4) count m(1) arg_size_ok(1) [OF n] buffer(8)
    by (simp add: user_copy_args_def kbind_Inr kthen_Inr kwalk_Some Let_def off0)
  have cell: "span (?buf + 8 * of_nat ?n) 8 \<subseteq> span ?buf 4080"
    by (rule span_shift_subset) (use n in \<open>simp add: unat_mult_lem [THEN iffD1] unat_of_nat\<close>)
  have last: "agree (- span (?buf + 8 * of_nat ?n) 8) m ?m" by (intro agree_sym [OF agree_store64]) blast
  then have "agree (- span ?buf 4080) m ?m" by (rule agree_mono) (use cell in blast)
  with m(2) have keep: "agree (- span ?buf 4080) (mem t) ?m" by (rule agree_trans)
  have "agree (span a 4) (mem t) ?m" by (rule agree_mono [OF keep]) (use b(3) in blast)
  from agree_load32 [OF this order.refl] have hd: "load32 ?m a = 0" using buffer(5) by simp
  have "agree (F - area 0 a) (mem t) ?m" by (rule agree_mono [OF keep]) (use b(2) in blast)
  then have al: "allocator (F - area 0 a) ?t"
    unfolding closed_allocator by (intro allocator_frame [OF buffer(6)]) (simp_all add: buffer(11))
  have "agree (- ?B) (mem t) ?m" by (rule agree_mono [OF keep]) (use B in blast)
  with buffer(7) have fr: "agree (- ?B) (mem s) ?m" unfolding buffer(10) by (rule agree_trans)
  have args: "\<forall>i<?n. arg_ok ?m ?buf xss i" using arg_ok_agree [OF _ _ assms(7) last] m(3) by blast
  have rest: "?t = closed (s\<lparr>mem := mem ?t, buddy_pages := buddy_pages ?t\<rparr>)"
    unfolding buffer(11) closed_opened_pages by simp
  show ?thesis
  proof (intro disjI2 exI conjI)
    show "?t = closed (s\<lparr>mem := mem ?t, buddy_pages := buddy_pages ?t\<rparr>)" by (rule rest)
    show "allocator (F - area 0 a) ?t" by (rule al)
    show "user_copy_args G args s = Some (Inr (?buf, ?t))" by (rule run)
  qed (use buffer(3,4) hd fr args in \<open>simp_all add: mem_simps\<close>)
qed

text \<open>User data of the concrete process: the bytes of its page.\<close>

primrec le_value :: "u8 list \<Rightarrow> u64" where
  "le_value [] = 0"
| "le_value (b # bs) = ucast b OR push_bit 8 (le_value bs)"

lemma vread_le_value:
  "(\<forall>i<length bs. vread s (a + of_nat i) = Some (bs ! i)) \<Longrightarrow> vread_le (length bs) s a = Some (le_value bs)"
proof (induction bs arbitrary: a)
  case Nil
  then show ?case by simp
next
  case (Cons b bs)
  have "\<forall>i<length bs. vread s (a + 1 + of_nat i) = Some (bs ! i)"
  proof (intro allI impI)
    fix i assume "i < length bs"
    then have "vread s (a + of_nat (Suc i)) = Some ((b # bs) ! Suc i)" using Cons.prems by (intro Cons.prems [rule_format]) simp
    then show "vread s (a + 1 + of_nat i) = Some (bs ! i)" by (simp add: add.assoc)
  qed
  then have "vread_le (length bs) s (a + 1) = Some (le_value bs)" by (rule Cons.IH)
  moreover have "vread s a = Some b" using Cons.prems [rule_format, of 0] by simp
  ultimately show ?case by simp
qed

definition has_page :: "sched_state \<Rightarrow> u64 set \<Rightarrow> (nat \<Rightarrow> u8) \<Rightarrow> bool" where
  "has_page s F f \<longleftrightarrow> (\<forall>j<4096. vread (opened s) (0x10000 + of_nat j) = Some (f j) \<and>
     ureadable (opened s) F (0x10000 + of_nat j)) \<and>
     (\<forall>va. 0x11000 \<le> unat va \<and> va < SPLIT \<longrightarrow> vread (opened s) va = None)"

lemma process_with_page:
  obtains F P and s :: sched_state where "pt_inv (active_root s) F P s" and "F \<noteq> {}"
    and "handler_span process_symbols \<inter> (F \<union> pages P) = {}" and "has_page s (F \<union> handler_span process_symbols) f"
    and "fault_span process_symbols s \<inter> F = {}"
proof -
  let ?B = "\<lambda>F. F \<union> handler_span process_symbols"
  obtain root F P and s :: sched_state where s: "pt_inv root F P s" "active_root s = root"
    "handler_span process_symbols \<inter> (F \<union> pages P) = {}" "span 0x3f07000000 4096 \<inter> (F \<union> pages P) = {}" "area 2 0x3f00400000 \<subseteq> F"
    "\<And>va. lookup (mem s) root va =
      (if va_vpn va = va_vpn 0x10000 then Some (user_pa va, 0x17) else kernel_lookup va)"
    "agree (span 0x3f07000000 4096) (page_bytes f) (mem s)" "fault_span process_symbols s \<inter> F = {}"
    using process_exists [of f] by metis
  have o: "active_root (opened s) = root" "\<And>va. lookup (mem (opened s)) root va =
      (if va_vpn va = va_vpn 0x10000 then Some (user_pa va, 0x17) else kernel_lookup va)"
    using s(2,6) by simp_all
  have apart: "span 0x3f07000000 4096 \<inter> ?B F = {}" using s(4) process_frame by blast
  note cell = user_page_cell [OF o opened_facts(2) disjI1 [OF refl]]
  have "vread (opened s) (0x10000 + of_nat j) = Some (f j) \<and> ureadable (opened s) (?B F) (0x10000 + of_nat j)"
    if "j < 4096" for j
  proof -
    have j: "unat (of_nat j :: u64) = j" using that by (simp add: unat_of_nat)
    have c: "user_cell PTE_READ (opened s) (0x10000 + of_nat j) = Some (0x3f07000000 + of_nat j)"
      by (rule cell(1)) (use that j in simp)
    have u: "unat (0x10000 + of_nat j :: u64) = 0x10000 + j"
      using that j by (subst unat_add_lem [THEN iffD1]) simp_all
    then have lt: "0x10000 + of_nat j < SPLIT" using that by (simp add: word_less_nat_alt)
    have sp: "0x3f07000000 + of_nat j \<in> span 0x3f07000000 4096" using j that by (simp add: span_iff)
    then have "mem s (0x3f07000000 + of_nat j) = f j"
      using s(7) j unfolding agree_def page_bytes_def by (metis add_diff_cancel_left')
    then show ?thesis using c lt sp apart by (auto simp: vread_vcell vcell_def ureadable_def)
  qed
  moreover have "vread (opened s) va = None" if "0x11000 \<le> unat va" "va < SPLIT" for va
    using cell(2) [of va] that by (simp add: vread_vcell vcell_def)
  ultimately have "has_page s (?B F) f" unfolding has_page_def by blast
  moreover have "0x3f00400000 \<in> area 2 0x3f00400000" unfolding area_def by (rule span_self) simp
  then have "F \<noteq> {}" using s(5) by blast
  ultimately show thesis using that s(1-3,8) by blast
qed

lemma has_page_value:
  assumes "has_page s F f" and "j + 8 \<le> 4096"
  shows "vread_le 8 (opened s) (0x10000 + of_nat j) = Some (le_value (map f [j..<j + 8]))"
proof -
  have "vread (opened s) (0x10000 + of_nat j + of_nat i) = Some (map f [j..<j + 8] ! i)"
    if "i < length (map f [j..<j + 8])" for i
  proof -
    have "vread (opened s) (0x10000 + of_nat (j + i)) = Some (f (j + i))"
      using assms that by (simp add: has_page_def del: of_nat_add)
    then show ?thesis using that by (simp add: add.assoc)
  qed
  then have "vread_le (length (map f [j..<j + 8])) (opened s) (0x10000 + of_nat j) =
      Some (le_value (map f [j..<j + 8]))" by (intro vread_le_value) blast
  then show ?thesis by simp
qed

lemma has_page_vector:
  assumes "has_page s F f" and "8 * length ps + 8 \<le> 4096"
    and "\<forall>i<length ps. le_value (map f [8 * i..<8 * i + 8]) = ps ! i \<and> ps ! i \<noteq> 0"
    and "le_value (map f [8 * length ps..<8 * length ps + 8]) = 0"
  shows "uvector (opened s) F 0x10000 ps"
proof -
  have "ureadable (opened s) F (0x10000 + 8 * of_nat i + of_nat j)" if "i \<le> length ps" "j < 8" for i j
  proof -
    have "ureadable (opened s) F (0x10000 + of_nat (8 * i + j))"
      using assms(1,2) that by (simp add: has_page_def del: of_nat_add of_nat_mult)
    then show ?thesis by (simp add: add.assoc)
  qed
  moreover have "vread_le 8 (opened s) (0x10000 + 8 * of_nat i) = Some (le_value (map f [8 * i..<8 * i + 8]))"
    if "i \<le> length ps" for i
    using has_page_value [OF assms(1), of "8 * i"] assms(2) that by simp
  ultimately show ?thesis using assms(3,4) by (simp add: uvector_def)
qed

lemma has_page_string:
  assumes "has_page s F f" and "j + length xs < 4096"
    and "\<forall>i<length xs. f (j + i) = xs ! i \<and> xs ! i \<noteq> 0" and "f (j + length xs) = 0"
  shows "ustring (opened s) F (0x10000 + of_nat j) xs"
proof -
  have "vread (opened s) (0x10000 + of_nat j + of_nat i) = Some (f (j + i)) \<and>
      ureadable (opened s) F (0x10000 + of_nat j + of_nat i)" if "i \<le> length xs" for i
  proof -
    have "vread (opened s) (0x10000 + of_nat (j + i)) = Some (f (j + i)) \<and>
        ureadable (opened s) F (0x10000 + of_nat (j + i))"
      using assms(1,2) that by (simp add: has_page_def del: of_nat_add)
    then show ?thesis by (simp add: add.assoc)
  qed
  with assms(3,4) show ?thesis by (simp add: ustring_def)
qed

lemma user_copy_args_correct_witness:
  "\<exists>(s :: sched_state) a t. user_copy_args process_symbols 0x10000 s = Some (Inr (a + 4, t)) \<and>
    load64 (mem t) (a + 4) = a + 20 \<and> mem t (a + 20) = 104 \<and> mem t (a + 21) = 105 \<and>
    mem t (a + 22) = 0 \<and> load64 (mem t) (a + 12) = 0 \<and> \<not> may_page_fault t"
proof -
  let ?f = "\<lambda>i :: nat. if i = 0 then 16 else if i = 2 then 1 else if i = 16 then 104
      else if i = 17 then 105 else 0 :: u8"
  let ?B = "\<lambda>F. F \<union> handler_span process_symbols"
  obtain F P and s :: sched_state where s: "pt_inv (active_root s) F P s" "F \<noteq> {}"
    "handler_span process_symbols \<inter> (F \<union> pages P) = {}" "has_page s (?B F) ?f" by (rule process_with_page)
  have vec: "uvector (opened s) (?B F) 0x10000 [0x10010]"
    by (rule has_page_vector [OF s(4)]) (simp_all add: upt_rec)
  have "ustring (opened s) (?B F) (0x10000 + of_nat 16) [104, 105]"
    by (rule has_page_string [OF s(4)]) (auto simp: less_Suc_eq nth_Cons')
  then have str: "\<forall>i<length [[104, 105 :: u8]]. ustring (opened s) (?B F) ([0x10010] ! i) ([[104, 105]] ! i)" by simp
  have acc: "access_ok 0x10000 8" by (simp add: access_ok_iff word_sle_eq)
  have fit: "arg_off [[104, 105 :: u8]] (length [[104, 105 :: u8]]) \<le> 4080" by (simp add: arg_off_def)
  from user_copy_args_correct [OF s(1,3) acc vec _ str fit] s(2) obtain a t where
    t: "user_copy_args process_symbols 0x10000 s = Some (Inr (a + 4, t))" "t = closed (s\<lparr>mem := mem t, buddy_pages := buddy_pages t\<rparr>)"
      "arg_ok (mem t) (a + 4) [[104, 105]] 0" "load64 (mem t) (a + 4 + 8 * of_nat 1) = 0" by auto
  have o: "arg_off [[104, 105 :: u8]] 0 = 16" by (simp add: arg_off_def)
  have st: "load64 (mem t) (a + 4) = a + 4 + 16" "kstring (mem t) (a + 4 + 16) [104, 105]"
    using t(3) by (simp_all add: arg_ok_def o)
  have e: "a + 4 + 16 = a + 20" by simp
  have ks: "\<forall>j<2. mem t (a + 20 + of_nat j) = [104, 105] ! j" "mem t (a + 20 + of_nat 2) = 0"
    using st(2) unfolding kstring_def e by simp_all
  have e2: "a + 20 = a + 20 + of_nat 0" "a + 21 = a + 20 + of_nat 1" "a + 22 = a + 20 + of_nat 2" by simp_all
  have "mem t (a + 20) = [104, 105] ! 0" by (subst e2(1), rule ks(1) [rule_format]) simp
  moreover have "mem t (a + 21) = [104, 105] ! 1" by (subst e2(2), rule ks(1) [rule_format]) simp
  moreover have "mem t (a + 22) = 0" by (subst e2(3), rule ks(2))
  ultimately have "mem t (a + 20) = 104" "mem t (a + 21) = 105" "mem t (a + 22) = 0" by simp_all
  moreover have "load64 (mem t) (a + 4) = a + 20" "load64 (mem t) (a + 12) = 0"
    using st(1) t(4) by (simp_all add: add.commute)
  moreover have "\<not> may_page_fault t" by (subst t(2)) simp
  ultimately show ?thesis using t(1) by blast
qed


text \<open>
  Property C36. On a vector of exactly 509 pointers, \<open>user_copy_args\<close> panics: the pointers and
  the null pointer fill the buffer, and \<open>strlcpy\<close> is called with no room. Any user program
  can stop the kernel this way with \<open>execve\<close>.
\<close>
theorem user_copy_args_509_panics:
  assumes "pt_inv (active_root s) F P s" and "F \<noteq> {}" and "handler_span G \<inter> (F \<union> pages P) = {}"
    and "access_ok args 8" and "uvector (opened s) (F \<union> handler_span G) args ps" and "length ps = 509"
  shows "user_copy_args G args s = Some (Inl ''strlcpy: bad n'')"
  using assms(1,3)
proof (cases rule: copy_args_buffer)
  case oom
  with assms(2) show ?thesis by simp
next
  case (buffer a t0 t s')
  note b = buffer_bytes [OF buffer(3)]
  have vec: "uvector s' (F \<union> handler_span G) args ps" using assms(5) buffer(11) by simp
  have count: "count_args (opened t) args 0 = Some (Inr 509)"
    using count_args_ok [OF buffer(9,7) vec, of 0] assms(6) buffer(8) by simp
  have big: "\<not> ARG_MAX_bytes <s (4080 :: u64)" by (simp add: ARG_MAX_bytes_def word_sless_alt)
  let ?m = "store64 (mem t) (a + 4) (a + 4 + 4080)"
  have "span (a + 4) 8 \<inter> - (F \<union> handler_span G) = {}"
    using b(2) buffer(4) span_mono [of 8 4080 "a + 4"] by auto
  then have ag: "agree (- (F \<union> handler_span G)) (mem t) ?m" by (intro agree_sym [OF agree_store64]) blast
  have "vread_le 8 (s'\<lparr>mem := ?m\<rparr>) (args + 8 * of_nat 0) = vread_le 8 s' (args + 8 * of_nat 0)"
    using vec unfolding uvector_def
    by (intro ureadable_vread_le [OF buffer(9) agree_trans [OF buffer(7) ag]]) blast
  moreover have "vread_le 8 s' (args + 8 * of_nat 0) = Some (ps ! 0)"
    using vec assms(6) unfolding uvector_def by (metis zero_less_numeral)
  ultimately have "vread_le 8 (s'\<lparr>mem := ?m\<rparr>) args = Some (ps ! 0)" by simp
  then have "copy_args_loop 0 509 4080 (a + 4) args (opened t) = Some (Inl ''strlcpy: bad n'')"
    by (subst copy_args_loop.simps)
      (simp add: word_sless_alt kthen_Inr kbind_Inr kbind_Inl kthen_Inl strlcpy_def ARG_MAX_bytes_def buffer(8))
  then show ?thesis
    using assms(4) buffer(1,2) b(4) count big
    by (simp add: user_copy_args_def kbind_Inr kbind_Inl kthen_Inr kwalk_Some Let_def)
qed

lemma user_copy_args_509_panics_witness:
  "\<exists>s :: sched_state. user_copy_args process_symbols 0x10000 s = Some (Inl ''strlcpy: bad n'')"
proof -
  let ?f = "\<lambda>i :: nat. if i < 4072 then 1 else 0 :: u8"
  let ?p = "0x101010101010101 :: u64"
  let ?B = "\<lambda>F. F \<union> handler_span process_symbols"
  obtain F P and s :: sched_state where s: "pt_inv (active_root s) F P s" "F \<noteq> {}"
    "handler_span process_symbols \<inter> (F \<union> pages P) = {}" "has_page s (?B F) ?f" by (rule process_with_page)
  have "map ?f [8 * i..<8 * i + 8] = replicate 8 1" if "i < 509" for i
    using that by (intro replicate_eqI) auto
  moreover have "le_value (replicate 8 1) = ?p" by (simp add: numeral_eq_Suc)
  ultimately have "uvector (opened s) (?B F) 0x10000 (replicate 509 ?p)"
    by (intro has_page_vector [OF s(4)]) (simp_all add: upt_rec)
  moreover have "access_ok 0x10000 8" by (simp add: access_ok_iff word_sle_eq)
  ultimately have "user_copy_args process_symbols 0x10000 s = Some (Inl ''strlcpy: bad n'')"
    using user_copy_args_509_panics [OF s(1-3)] by simp
  then show ?thesis by blast
qed

text \<open>
  Property C37. On a vector of at least 510 pointers, \<open>user_copy_args\<close> returns \<open>-E2BIG\<close> but
  keeps its buffer allocated for ever, and leaves the window open: \<open>may_page_fault\<close> and
  \<open>sstatus.sum\<close> stay set after the call.
\<close>
theorem user_copy_args_too_big_leaks:
  assumes "pt_inv (active_root s) F P s" and "F \<noteq> {}" and "handler_span G \<inter> (F \<union> pages P) = {}"
    and "access_ok args 8" and "uvector (opened s) (F \<union> handler_span G) args ps" and "510 \<le> length ps" and "length ps < 2 ^ 32"
  shows "\<exists>a t. user_copy_args G args s = Some (Inr (ERR_PTR (of_int E2BIG), t)) \<and>
    area_ok 0 a \<and> area 0 a \<subseteq> F \<and> allocator (F - area 0 a) t \<and>
    may_page_fault t \<and> status_sum (sstatus t)"
  using assms(1,3)
proof (cases rule: copy_args_buffer)
  case oom
  with assms(2) show ?thesis by simp
next
  case (buffer a t0 t s')
  note b = buffer_bytes [OF buffer(3)]
  let ?n = "length ps"
  have vec: "uvector s' (F \<union> handler_span G) args ps" using assms(5) buffer(11) by simp
  have count: "count_args (opened t) args 0 = Some (Inr (of_nat ?n))"
    using count_args_ok [OF buffer(9,7) vec, of 0] buffer(8) by simp
  have u: "unat (of_nat (8 * ?n + 8) :: u64) = 8 * ?n + 8" using assms(7) by (simp only: unat_of_nat) simp
  then have "sint (of_nat (8 * ?n + 8) :: u64) = int (8 * ?n + 8)" using assms(7) by (subst sint_small) simp_all
  moreover have "(of_nat ?n + 1) * 8 = (of_nat (8 * ?n + 8) :: u64)" by (simp add: mult.commute)
  ultimately have "sint ((of_nat ?n + 1) * 8 :: u64) = int (8 * ?n + 8)" by (simp only:)
  then have "ARG_MAX_bytes <s ((of_nat ?n + 1) * 8 :: u64)"
    using assms(6) by (simp add: ARG_MAX_bytes_def word_sless_alt)
  then have "user_copy_args G args s = Some (Inr (ERR_PTR (of_int E2BIG), opened t))"
    using assms(4) buffer(1,2) b(4) count
    by (simp add: user_copy_args_def kbind_Inr kthen_Inr kwalk_Some Let_def del: distrib_right_numeral)
  then show ?thesis using buffer(3,4,6) by (intro exI [of _ a] exI [of _ "opened t"]) simp
qed

lemma user_copy_args_too_big_leaks_witness:
  "\<exists>(s :: sched_state) t. user_copy_args process_symbols 0x10000 s = Some (Inr (ERR_PTR 7, t)) \<and> may_page_fault t"
proof -
  let ?f = "\<lambda>i :: nat. if i < 4080 then 1 else 0 :: u8"
  let ?p = "0x101010101010101 :: u64"
  let ?B = "\<lambda>F. F \<union> handler_span process_symbols"
  obtain F P and s :: sched_state where s: "pt_inv (active_root s) F P s" "F \<noteq> {}"
    "handler_span process_symbols \<inter> (F \<union> pages P) = {}" "has_page s (?B F) ?f" by (rule process_with_page)
  have "map ?f [8 * i..<8 * i + 8] = replicate 8 1" if "i < 510" for i
    using that by (intro replicate_eqI) auto
  moreover have "le_value (replicate 8 1) = ?p" by (simp add: numeral_eq_Suc)
  ultimately have "uvector (opened s) (?B F) 0x10000 (replicate 510 ?p)"
    by (intro has_page_vector [OF s(4)]) (simp_all add: upt_rec)
  moreover have "access_ok 0x10000 8" by (simp add: access_ok_iff word_sle_eq)
  ultimately show ?thesis
    using user_copy_args_too_big_leaks [OF s(1-3), of "0x10000" "replicate 510 ?p"] by (auto simp: E2BIG_def)
qed

lemma vread_le_fault:
  "vread s (a + of_nat j) = None \<Longrightarrow> j < n \<Longrightarrow> vread_le n s a = None"
proof (induction n arbitrary: a j)
  case 0
  then show ?case by simp
next
  case (Suc n)
  show ?case
  proof (cases j)
    case 0
    with Suc.prems(1) show ?thesis by simp
  next
    case (Suc i)
    then have "vread s (a + 1 + of_nat i) = None" "i < n" using Suc.prems by (simp_all add: add.assoc)
    then have "vread_le n s (a + 1) = None" by (rule Suc.IH)
    then show ?thesis by (simp split: option.split)
  qed
qed

lemma vread_le_iff: "vread_le n s a = None \<longleftrightarrow> (\<exists>j<n. vread s (a + of_nat j) = None)"
proof (induction n arbitrary: a)
  case (Suc n)
  have "(\<exists>j<Suc n. vread s (a + of_nat j) = None) \<longleftrightarrow> vread s a = None \<or> (\<exists>j<n. vread s (a + 1 + of_nat j) = None)"
    by (subst Ex_less_Suc2) (simp add: add.assoc)
  with Suc.IH [of "a + 1"] show ?case by (simp split: option.split)
qed simp

lemma count_args_fault:
  assumes st: "stable s B" and ag: "agree (- B) (mem s) m"
    and ptrs: "\<forall>i<n. (\<forall>j<8. ureadable s B (args + 8 * of_nat i + of_nat j)) \<and>
      vread_le 8 s (args + 8 * of_nat i) \<noteq> Some 0"
    and fault: "vread s (args + 8 * of_nat n + of_nat j) = None" "j < 8"
  shows "i \<le> n \<Longrightarrow> \<exists>a. count_args (s\<lparr>mem := m\<rparr>) args (of_nat i) = Some (Inl a)"
proof (induction "n - i" arbitrary: i)
  case 0
  have "vread (s\<lparr>mem := m\<rparr>) (args + 8 * of_nat n + of_nat j) = None"
    using fault(1) stable_vcell [OF st ag] by (simp add: vread_vcell)
  then have "vread_le 8 (s\<lparr>mem := m\<rparr>) (args + 8 * of_nat i) = None"
    using fault(2) 0 by (auto intro: vread_le_fault)
  then show ?case by (subst count_args.simps) simp
next
  case (Suc x)
  then have i: "i < n" by simp
  have "vread_le 8 (s\<lparr>mem := m\<rparr>) (args + 8 * of_nat i) = vread_le 8 s (args + 8 * of_nat i)"
    using ptrs i by (intro ureadable_vread_le [OF st ag]) blast
  moreover have "vread_le 8 s (args + 8 * of_nat i) \<noteq> None"
    using ptrs i ureadable_vread(2) [OF st agree_refl] unfolding vread_le_iff by blast
  moreover have "vread_le 8 s (args + 8 * of_nat i) \<noteq> Some 0" using ptrs i by blast
  moreover have "\<exists>a. count_args (s\<lparr>mem := m\<rparr>) args (of_nat (Suc i)) = Some (Inl a)"
    by (rule Suc.hyps(1)) (use Suc.hyps(2) in simp_all)
  ultimately show ?case by (subst count_args.simps) (auto simp: add.commute)
qed

text \<open>
  When the vector runs into an unmapped page before its null pointer,
  \<open>user_copy_args\<close> takes the fault, frees its buffer, closes the window and returns
  \<open>-EFAULT\<close>: the allocator holds what it held before.
\<close>
theorem user_copy_args_fault:
  assumes "pt_inv (active_root s) F P s" and "F \<noteq> {}" and "handler_span G \<inter> (F \<union> pages P) = {}" and "access_ok args 8"
    and "\<forall>i<n. (\<forall>j<8. ureadable (opened s) (F \<union> handler_span G) (args + 8 * of_nat i + of_nat j)) \<and>
      vread_le 8 (opened s) (args + 8 * of_nat i) \<noteq> Some 0"
    and "vread (opened s) (args + 8 * of_nat n + of_nat j) = None" and "j < 8" and "fault_span G s \<inter> F = {}"
  shows "\<exists>t. user_copy_args G args s = Some (Inr (ERR_PTR (of_int EFAULT), t)) \<and> allocator F t \<and>
    agree (- (F \<union> handler_span G \<union> fault_span G s)) (mem s) (mem t) \<and> scause t = LOAD_FAULT \<and>
    \<not> may_page_fault t \<and> \<not> status_sum (sstatus t)"
  using assms(1,3)
proof (cases rule: copy_args_buffer)
  case oom
  with assms(2) show ?thesis by simp
next
  case (buffer a t0 t s')
  let ?B = "F \<union> handler_span G"
  have f: "vread s' (args + 8 * of_nat n + of_nat j) = None"
    and p: "\<forall>i<n. (\<forall>j<8. ureadable s' ?B (args + 8 * of_nat i + of_nat j)) \<and>
      vread_le 8 s' (args + 8 * of_nat i) \<noteq> Some 0"
    using assms(5,6) buffer(11) by (simp_all add: ureadable_def)
  obtain e where count: "count_args (opened t) args 0 = Some (Inl e)"
    using count_args_fault [OF buffer(9,7) p f assms(7), of 0] buffer(8) by auto
  have "current_task t = current_task s" by (subst buffer(12) [unfolded same_rest_def]) simp
  then have fs: "fault_span G t = fault_span G s" by (simp add: fault_span_def)
  from page_fault_ok [of G LOAD_FAULT e t] obtain w where
    w: "page_fault G (access_fault LOAD_FAULT e (opened t)) = Some (Inr ((), w))"
      "agree (- fault_span G s) (mem t) (mem w)" "scause w = LOAD_FAULT" "buddy_pages w = buddy_pages t"
    unfolding fs by blast
  have "agree (F - area 0 a) (mem t) (mem w)" by (rule agree_mono [OF w(2)]) (use assms(8) in blast)
  then have al: "allocator (F - area 0 a) w" by (rule allocator_frame [OF buffer(6) _ w(4)])
  have "span a 4 \<subseteq> area 0 a" unfolding area_def by (rule span_mono) simp
  then have "agree (span a 4) (mem t) (mem w)" by (intro agree_mono [OF w(2)]) (use assms(8) buffer(4) in blast)
  from agree_load32 [OF this order.refl] buffer(5) have "load32 (mem w) a = of_nat 0" by simp
  with al obtain u where u: "kfree (a + 4) w = Some (Inr ((), u))" "released 0 a (F - area 0 a) w u"
    using kfree_releases [of "F - area 0 a" w 0 a] buffer(3) by auto
  have F: "F - area 0 a \<union> area 0 a = F" using buffer(4) by blast
  have alu: "allocator F u" and keep: "agree (- F) (mem w) (mem u)" and same: "same_rest w u"
    using u(2) unfolding released_def F by auto
  have "agree (- ?B) (mem s) (mem t)" using buffer(7,10) by simp
  then have ag: "agree (- (?B \<union> fault_span G s)) (mem s) (mem u)"
    by (intro agree_trans [OF agree_mono agree_trans [OF agree_mono [OF w(2)] agree_mono [OF keep]]]) blast+
  have "user_copy_args G args s = Some (Inr (ERR_PTR (of_int EFAULT), closed u))"
    using assms(4) buffer(1,2) buffer_bytes(4) [OF buffer(3)] count u(1) w(1)
    by (simp add: user_copy_args_def kbind_Inr kthen_Inr kwalk_Some Let_def)
  moreover have "scause (closed u) = LOAD_FAULT" using same w(3) by (subst same [unfolded same_rest_def]) (simp add: closed_def)
  ultimately show ?thesis using alu ag by (intro exI [of _ "closed u"]) simp
qed

lemma user_copy_args_fault_witness:
  "\<exists>(s :: sched_state) t. user_copy_args process_symbols 0x10000 s = Some (Inr (ERR_PTR 14, t)) \<and> \<not> may_page_fault t"
proof -
  let ?f = "\<lambda>i :: nat. 1 :: u8"
  let ?B = "\<lambda>F. F \<union> handler_span process_symbols"
  obtain F P and s :: sched_state where s: "pt_inv (active_root s) F P s" "F \<noteq> {}"
    "handler_span process_symbols \<inter> (F \<union> pages P) = {}" "has_page s (?B F) ?f" "fault_span process_symbols s \<inter> F = {}"
    by (rule process_with_page)
  have "le_value (replicate 8 1) = 0x101010101010101" by (simp add: numeral_eq_Suc)
  then have "le_value (replicate 8 1) \<noteq> 0" by simp
  moreover have "map ?f [8 * i..<8 * i + 8] = replicate 8 1" for i
    by (intro replicate_eqI) auto
  ultimately have "vread_le 8 (opened s) (0x10000 + of_nat (8 * i)) \<noteq> Some 0" if "i < 512" for i
    using has_page_value [OF s(4), of "8 * i"] that by simp
  moreover have "ureadable (opened s) (?B F) (0x10000 + 8 * of_nat i + of_nat j)" if "i < 512" "j < 8" for i j
  proof -
    have "ureadable (opened s) (?B F) (0x10000 + of_nat (8 * i + j))"
      using s(4) that by (simp add: has_page_def del: of_nat_add of_nat_mult)
    then show ?thesis by (simp add: add.assoc)
  qed
  ultimately have p: "\<forall>i<512. (\<forall>j<8. ureadable (opened s) (?B F) (0x10000 + 8 * of_nat i + of_nat j)) \<and>
      vread_le 8 (opened s) (0x10000 + 8 * of_nat i) \<noteq> Some 0" by simp
  have f: "vread (opened s) (0x10000 + 8 * of_nat 512 + of_nat 0) = None"
    using s(4) by (simp add: has_page_def)
  have acc: "access_ok 0x10000 8" by (simp add: access_ok_iff word_sle_eq)
  from user_copy_args_fault [OF s(1-3) acc p f _ s(5)] show ?thesis by (auto simp: EFAULT_def)
qed

subsection \<open>Pointers and error numbers\<close>

lemma user_copy_args_result:
  fixes s :: "'a sched_state_scheme"
  assumes "user_copy_args G args s = Some (Inr (r, t))"
  shows "r \<in> {ERR_PTR (of_int EFAULT), ERR_PTR (of_int E2BIG)} \<or>
    (\<exists>buf u. kmalloc ARG_MAX_bytes s = Some (Inr (buf, u)) \<and> r = (if buf = 0 then ERR_PTR (of_int ENOMEM) else buf))"
proof -
  let ?R = "\<lambda>buf r. r \<in> {ERR_PTR (of_int EFAULT), ERR_PTR (of_int E2BIG)} \<or> r = (if buf = 0 then ERR_PTR (of_int ENOMEM) else buf)"
  obtain f :: "u64 \<Rightarrow> ('a sched_state_scheme, u64) kern" where f: "user_copy_args G args = (if \<not> access_ok args 8 then kreturn (ERR_PTR (of_int EFAULT)) else kbind (kmalloc ARG_MAX_bytes) f)"
    "\<And>buf. kresult (f buf) (?R buf)"
  proof (rule that [OF user_copy_args_def])
    show "kresult (if buf = 0 then kreturn (ERR_PTR (of_int ENOMEM)) else
        (let cleanup = (\<lambda>retval. kthen (kfree buf) (kthen exit_sum (kreturn retval)));
             fault = kthen (page_fault G) (cleanup (ERR_PTR (of_int EFAULT)))
         in kthen (ksetjmp G (sym_page_fault_handler G))
           (kthen enter_sum
           (kbind (kwalk (\<lambda>s. count_args s args 0)) (\<lambda>r.
              case r of
                Inl a \<Rightarrow> kthen (kmodify (access_fault LOAD_FAULT a)) fault
              | Inr argc \<Rightarrow>
                  (let arg_size = (argc + 1) * 8
                   in if ARG_MAX_bytes <s arg_size then kreturn (ERR_PTR (of_int E2BIG))
                      else kbind (copy_args_loop 0 argc arg_size buf args) (\<lambda>out.
                        case out of
                          Fault \<Rightarrow> fault
                        | TooBig \<Rightarrow> cleanup (ERR_PTR (of_int E2BIG))
                        | Copied \<Rightarrow>
                            kthen (kmodify (\<lambda>s. s\<lparr>mem := store64 (mem s) (buf + 8 * argc) 0\<rparr>))
                           (kthen exit_sum (kreturn buf))))))))) (?R buf)" for buf
      unfolding Let_def
      by (auto intro!: kresult_rules split: sum.split copy_outcome.split)
  qed
  show ?thesis
  proof (cases "access_ok args 8")
    case True
    then have "kbind (kmalloc ARG_MAX_bytes) f s = Some (Inr (r, t))" using assms by (simp add: f(1))
    then obtain buf u where "kmalloc ARG_MAX_bytes s = Some (Inr (buf, u))" "f buf u = Some (Inr (r, t))"
      by (auto simp: kbind_def split: option.splits sum.splits)
    with f(2) [of buf] show ?thesis unfolding kresult_def by blast
  next
    case False
    then show ?thesis using assms by (simp add: f(1))
  qed
qed

text \<open>
  Property C33. Whatever the user's vector holds, a result of \<open>user_copy_args\<close> is either an error pointer
  that carries \<open>-EFAULT\<close> or \<open>-E2BIG\<close>, or the address of a block of the allocator, and \<open>IS_ERR\<close> tells
  the two apart: no block has an address that looks like an error.
\<close>

theorem user_copy_args_type:
  assumes "allocator F s" and "user_copy_args G args s = Some (Inr (r, t))"
  shows "if IS_ERR r then PTR_ERR r \<in> {of_int (- EFAULT), of_int (- E2BIG)}
    else \<exists>a. r = a + 4 \<and> area_ok 0 a \<and> area 0 a \<subseteq> F"
proof -
  have block: "buf \<noteq> 0 \<and> \<not> IS_ERR buf \<and> (\<exists>a. buf = a + 4 \<and> area_ok 0 a \<and> area 0 a \<subseteq> F)"
    if "kmalloc ARG_MAX_bytes s = Some (Inr (buf, u))" for buf u
  proof -
    have "unat ARG_MAX_bytes \<le> 4092" by (simp add: ARG_MAX_bytes_def)
    from kmalloc_small [OF assms(1) this] that obtain a where a: "buf = a + 4" "area_ok 0 a" "area 0 a \<subseteq> F" by auto
    then have "buf \<in> ram" unfolding area_ok_def using block_address by (auto simp: area_def span_iff)
    then have "buf \<noteq> 0" "\<not> IS_ERR buf" by (auto simp: ram_def IS_ERR_def word_less_nat_alt sint_small)
    with a show ?thesis by blast
  qed
  have "IS_ERR (ERR_PTR (of_int EFAULT))" "IS_ERR (ERR_PTR (of_int E2BIG))"
    "PTR_ERR (ERR_PTR (of_int EFAULT)) = of_int (- EFAULT)" "PTR_ERR (ERR_PTR (of_int E2BIG)) = of_int (- E2BIG)"
    by (simp_all add: IS_ERR_def ERR_PTR_def PTR_ERR_def EFAULT_def E2BIG_def)
  with user_copy_args_result [OF assms(2)] block show ?thesis by (auto split: if_splits)
qed

lemma user_copy_args_type_witness:
  "\<exists>s :: sched_state. allocator initial_free s \<and> user_copy_args process_symbols SPLIT s = Some (Inr (- 14, s)) \<and> IS_ERR (- 14) \<and>
    PTR_ERR (- 14) \<in> {of_int (- EFAULT), of_int (- E2BIG)}"
proof -
  have bad: "\<not> access_ok SPLIT 8" by (simp add: access_ok_def)
  have al: "allocator initial_free (process_sched (\<lambda>_. 0))"
    by (rule allocator_cong [OF _ _ process_state_allocator [of "\<lambda>_. 0"]]) (simp_all add: process_state_def)
  have run: "user_copy_args process_symbols SPLIT (process_sched (\<lambda>_. 0)) = Some (Inr (- 14, process_sched (\<lambda>_. 0)))"
    using bad by (simp add: user_copy_args_def ERR_PTR_def EFAULT_def)
  have "IS_ERR (- 14)" by (simp add: IS_ERR_def)
  with user_copy_args_type [OF al run] run show ?thesis using al by (metis (full_types))
qed

end
