(* ===== verification/Vm.thy ===== *)
theory Vm
  imports Klist User_Access_Correct Printf
begin

section \<open>Virtual memory areas (vm.c, vm.h)\<close>

text \<open>
  The areas of a process. A \<open>struct vm_area\<close> has \<open>va\<close> at offset 0, \<open>n_pages\<close> at 8, the
  32-bit \<open>refcount\<close> at 16 and \<open>flags\<close> at 20, and the list \<open>pages\<close> of its frames at 24; it
  takes 40 bytes. The panic messages are those of the code without their arguments.
\<close>

subsection \<open>struct vm_area\<close>

definition area_va :: "memory \<Rightarrow> u64 \<Rightarrow> u64" where "area_va m a = load64 m a"
definition area_n_pages :: "memory \<Rightarrow> u64 \<Rightarrow> u64" where "area_n_pages m a = load64 m (a + 8)"
definition area_refcount :: "memory \<Rightarrow> u64 \<Rightarrow> u32" where "area_refcount m a = load32 m (a + 16)"
definition area_flags :: "memory \<Rightarrow> u64 \<Rightarrow> u32" where "area_flags m a = load32 m (a + 20)"
definition area_pages :: "u64 \<Rightarrow> u64" where "area_pages a = a + 24"

definition set_area_va :: "u64 \<Rightarrow> u64 \<Rightarrow> memory \<Rightarrow> memory" where "set_area_va a v m = store64 m a v"
definition set_area_n_pages :: "u64 \<Rightarrow> u64 \<Rightarrow> memory \<Rightarrow> memory" where
  "set_area_n_pages a v m = store64 m (a + 8) v"
definition set_area_refcount :: "u64 \<Rightarrow> u32 \<Rightarrow> memory \<Rightarrow> memory" where
  "set_area_refcount a v m = store32 m (a + 16) v"
definition set_area_flags :: "u64 \<Rightarrow> u32 \<Rightarrow> memory \<Rightarrow> memory" where
  "set_area_flags a v m = store32 m (a + 20) v"

definition VM_READ :: u32 where [simp]: "VM_READ = 1"
definition VM_WRITE :: u32 where [simp]: "VM_WRITE = 2"
definition VM_EXEC :: u32 where [simp]: "VM_EXEC = 4"
definition VM_STACK :: u32 where [simp]: "VM_STACK = 1024"

definition vm_area_end_va :: "memory \<Rightarrow> u64 \<Rightarrow> u64" where
  "vm_area_end_va m a = area_va m a + push_bit PAGE_INDEX_BITS (area_n_pages m a)"

subsection \<open>Areas\<close>

definition vm_area_check_alignment :: "u64 \<Rightarrow> ('a mm_state_scheme, unit) kern" where
  "vm_area_check_alignment a =
     kbind (kgets (\<lambda>s. area_va (mem s) a mod PAGE_SIZE \<noteq> 0)) (\<lambda>bad.
       if bad then kpanic ''misaligned va'' else kreturn ())"

definition vm_area_create :: "u64 \<Rightarrow> u64 \<Rightarrow> u32 \<Rightarrow> ('a mm_state_scheme, u64) kern" where
  "vm_area_create va n_pages flags =
     kbind (kmalloc 40) (\<lambda>a.
     kthen (kmodify (\<lambda>s. s\<lparr>mem := list_init (area_pages a) (set_area_refcount a 0
              (set_area_flags a flags (set_area_n_pages a n_pages (set_area_va a va (mem s)))))\<rparr>))
    (kthen (vm_area_check_alignment a) (kreturn a)))"

definition vm_area_add_page :: "u64 \<Rightarrow> u64 \<Rightarrow> ('a mm_state_scheme, int) kern" where
  "vm_area_add_page a page =
     kbind (list_node_create page) (\<lambda>node.
       if node = 0 then kreturn (- ENOMEM)
       else kthen (kmodify (\<lambda>s. s\<lparr>mem := list_push (area_pages a) node (mem s)\<rparr>)) (kreturn 0))"

definition vm_area_destroy :: "u64 \<Rightarrow> ('a mm_state_scheme, unit) kern" where
  "vm_area_destroy a =
     kthen (list_foreach (\<lambda>page. free_pages \<lparr>address = page, order = 0\<rparr>) (area_pages a))
    (kthen (list_destroy (area_pages a)) (kfree a))"

definition vm_area_incref :: "u64 \<Rightarrow> ('a mm_state_scheme, unit) kern" where
  "vm_area_incref a =
     kthen (vm_area_check_alignment a)
    (kthen (kmodify (\<lambda>s. s\<lparr>mem := set_area_refcount a (area_refcount (mem s) a + 1) (mem s)\<rparr>))
    (kbind (kgets (\<lambda>s. 0 < area_refcount (mem s) a)) (\<lambda>ok.
       kassert ok ''vm_area_incref: refcount overflow'')))"

definition vm_area_decref :: "u64 \<Rightarrow> ('a mm_state_scheme, unit) kern" where
  "vm_area_decref a =
     kthen (vm_area_check_alignment a)
    (kthen (kmodify (\<lambda>s. s\<lparr>mem := set_area_refcount a (area_refcount (mem s) a - 1) (mem s)\<rparr>))
    (kbind (kgets (\<lambda>s. area_refcount (mem s) a = 0)) (\<lambda>zero.
       kwhen zero (vm_area_destroy a))))"

subsection \<open>The areas of a process\<close>

text \<open>
  The loop of \<open>vm_add_area\<close> inserts before every node with a higher address: it goes on
  after the insertion, and the node is pushed at the end in any case.
\<close>

partial_function (option) vm_add_loop :: "u64 \<Rightarrow> u64 \<Rightarrow> u64 \<Rightarrow> u64 \<Rightarrow> memory \<Rightarrow> memory option" where
  "vm_add_loop l node ar n m =
     (if n = 0 then Some m
      else
        (let m' = (if area_va m ar < area_va m (n_value m n) then list_insert_before l node n m else m)
         in vm_add_loop l node ar (n_next m' n) m'))"

definition vm_add_area :: "u64 \<Rightarrow> u64 \<Rightarrow> ('a mm_state_scheme, int) kern" where
  "vm_add_area l ar =
     kbind (list_node_create ar) (\<lambda>node.
       if node = 0 then kreturn (- ENOMEM)
       else
         kthen (vm_area_incref ar)
        (kbind (kwalk (\<lambda>s. vm_add_loop l node ar (l_first (mem s) l) (mem s))) (\<lambda>m.
         kthen (kmodify (\<lambda>s. s\<lparr>mem := list_push l node m\<rparr>)) (kreturn 0))))"

definition vm_area_in :: "memory \<Rightarrow> u64 \<Rightarrow> u64 \<Rightarrow> bool" where
  "vm_area_in m ar va \<longleftrightarrow>
     (let sz = push_bit PAGE_INDEX_BITS (area_n_pages m ar)
      in area_va m ar \<le> va \<and> va \<le> area_va m ar + sz)"

partial_function (option) vm_find_from :: "memory \<Rightarrow> u64 \<Rightarrow> u64 \<Rightarrow> u64 option" where
  "vm_find_from m va n =
     (if n = 0 then Some 0
      else if vm_area_in m (n_value m n) va then Some (n_value m n)
      else vm_find_from m va (n_next m n))"

definition vm_find :: "memory \<Rightarrow> u64 \<Rightarrow> u64 \<Rightarrow> u64 option" where
  "vm_find m l va = vm_find_from m va (l_first m l)"

partial_function (option) vm_find_stack_from :: "memory \<Rightarrow> u64 \<Rightarrow> u64 \<Rightarrow> u64 option" where
  "vm_find_stack_from m va n =
     (if n = 0 then Some 0
      else
        (let ar = n_value m n in
         if vm_area_in m ar va then Some 0
         else if va < area_va m ar
         then (if area_flags m ar AND VM_STACK \<noteq> 0 then Some ar else Some 0)
         else vm_find_stack_from m va (n_next m n)))"

definition vm_find_stack :: "memory \<Rightarrow> u64 \<Rightarrow> u64 \<Rightarrow> u64 option" where
  "vm_find_stack m l va = vm_find_stack_from m va (l_first m l)"

definition vm_decref_all :: "u64 \<Rightarrow> ('a mm_state_scheme, unit) kern" where
  "vm_decref_all l = kthen (list_foreach vm_area_decref l) (list_destroy l)"

definition pte_flags_from_vm_flags :: "u32 \<Rightarrow> u32" where
  "pte_flags_from_vm_flags vm_flags =
     (let f = PTE_VALID OR PTE_USER;
          f = (if vm_flags OR VM_READ \<noteq> 0 then f OR PTE_READ else f);
          f = (if vm_flags OR VM_WRITE \<noteq> 0 then f OR PTE_WRITE else f)
      in if vm_flags OR VM_EXEC \<noteq> 0 then f OR PTE_EXEC else f)"

subsection \<open>Copying a process's areas\<close>

text \<open>
  The loop over the pages of an area: the fields \<open>vm_areas\<close> (offset 24) and \<open>page_table\<close>
  (offset 48) of the task are read where the code reads them. The bound \<open>ar->n_pages\<close> is
  read in every round.
\<close>

definition vm_clone_page :: "symbols \<Rightarrow> u64 \<Rightarrow> u64 \<Rightarrow> u64 \<Rightarrow> u32 \<Rightarrow> ('a sched_state_scheme, unit) kern" where
  "vm_clone_page G area_copy task va flags =
     kbind (alloc_pages 0) (\<lambda>p.
       let page = address p in
       if page = 0 then kpanic ''out of memory''
       else
         kbind (list_node_create page) (\<lambda>node.
           if node = 0 then kpanic ''out of memory''
           else
             kthen (kmodify (\<lambda>s. s\<lparr>mem := list_push (area_pages area_copy) node (mem s)\<rparr>))
            (kbind (kgets (\<lambda>s. (load64 (mem s) (task + 48), PA (early s) page))) (\<lambda>(table, pa).
             kbind (set_page_user table va pa flags) (\<lambda>err.
               if err \<noteq> 0 then kpanic ''set_page''
               else kthen (copy_from_user G page va PAGE_SIZE) (kreturn ()))))))"

partial_function (option) vm_clone_pages ::
  "symbols \<Rightarrow> u64 \<Rightarrow> u64 \<Rightarrow> u64 \<Rightarrow> u32 \<Rightarrow> u64 \<Rightarrow> u64 \<Rightarrow> 'a sched_state_scheme \<Rightarrow>
     (string + unit \<times> 'a sched_state_scheme) option" where
  "vm_clone_pages G ar area_copy task flags i va s =
     (if i < area_n_pages (mem s) ar
      then kbind (vm_clone_page G area_copy task va flags)
             (\<lambda>_ t. vm_clone_pages G ar area_copy task flags (i + 1) (va + PAGE_SIZE) t) s
      else Some (Inr ((), s)))"

definition vm_clone_area :: "symbols \<Rightarrow> u64 \<Rightarrow> u64 \<Rightarrow> ('a sched_state_scheme, unit) kern" where
  "vm_clone_area G task ar =
     kbind (kmalloc 40) (\<lambda>area_copy.
       if area_copy = 0 then kpanic ''out of memory''
       else
         kbind (list_node_create area_copy) (\<lambda>node.
           if node = 0 then kpanic ''out of memory''
           else
             kthen (kmodify (\<lambda>s. s\<lparr>mem := list_push (task + 24) node (mem s)\<rparr>))
            (kthen (kmodify (\<lambda>s. s\<lparr>mem := list_init (area_pages area_copy)
                (set_area_refcount area_copy 1 (copy_bytes area_copy ar 40 (mem s)))\<rparr>))
            (kbind (kgets (\<lambda>s. (pte_flags_from_vm_flags (area_flags (mem s) ar), area_va (mem s) ar)))
               (\<lambda>(flags, va). vm_clone_pages G ar area_copy task flags 0 va)))))"

definition vm_clone :: "symbols \<Rightarrow> u64 \<Rightarrow> u64 \<Rightarrow> ('a sched_state_scheme, int) kern" where
  "vm_clone G l task = kthen (list_foreach (vm_clone_area G task) l) (kreturn 0)"

subsection \<open>Printing the areas\<close>

text \<open>A C string literal, with its NUL; the bytes that \<open>vm_dump\<close> prints, line by line.\<close>

definition c_string :: "string \<Rightarrow> u8 list" where
  "c_string str = map of_char str @ [0]"

definition vm_dump_line :: "memory \<Rightarrow> u64 \<Rightarrow> u8 list option" where
  "vm_dump_line m ar =
     (let f = area_flags m ar;
          sz = push_bit PAGE_INDEX_BITS (area_n_pages m ar);
          mark = (\<lambda>bit c. putchar (if f AND bit \<noteq> 0 then c else 45))
      in case printk (\<lambda>_. []) (c_string ''%p-%p %08x '') [area_va m ar, vm_area_end_va m ar, sz] of
           None \<Rightarrow> None
         | Some out \<Rightarrow>
             (case (if f AND VM_STACK \<noteq> 0 then printk (\<lambda>_. []) (c_string '' [stack]'') [] else Some []) of
                None \<Rightarrow> None
              | Some tag \<Rightarrow>
                  Some (out @ mark VM_READ 114 @ mark VM_WRITE 119 @ mark VM_EXEC 120 @ tag @ putchar 10)))"

partial_function (option) vm_dump_from :: "memory \<Rightarrow> u64 \<Rightarrow> u8 list option" where
  "vm_dump_from m n =
     (if n = 0 then Some []
      else
        (case vm_dump_line m (n_value m n) of
           None \<Rightarrow> None
         | Some out \<Rightarrow>
             Option.bind (vm_dump_from m (n_next m n)) (\<lambda>rest. Some (out @ rest))))"

definition vm_dump :: "memory \<Rightarrow> u64 \<Rightarrow> u8 list option" where
  "vm_dump m l = vm_dump_from m (l_first m l)"

end
