(* ===== verification/Vm_Correct.thy ===== *)
theory Vm_Correct
  imports Vm
begin

section \<open>Correctness of the virtual memory areas\<close>

text \<open>
  Searching the areas of a process; adding an area, which works when the new area has the
  highest address and makes the list cyclic otherwise; the reference count, which releases
  the frames, the list and the area itself with the last reference.
\<close>

subsection \<open>Searching\<close>

lemma vm_find_from_list:
  "nseg m l q p xs 0 \<Longrightarrow> vm_find_from m va p =
     Some (case find (\<lambda>n. vm_area_in m (n_value m n) va) xs of None \<Rightarrow> 0 | Some n \<Rightarrow> n_value m n)"
proof (induction xs arbitrary: q p)
  case Nil
  then show ?case by (subst vm_find_from.simps) simp
next
  case (Cons x xs)
  then have "p = x" "x \<noteq> 0" "nseg m l x (n_next m x) xs 0" by simp_all
  with Cons.IH [OF this(3)] show ?case by (subst vm_find_from.simps) simp
qed

lemma vm_find_stack_from_list:
  "nseg m l q p xs 0 \<Longrightarrow> vm_find_stack_from m va p =
     Some (case find (\<lambda>n. vm_area_in m (n_value m n) va \<or> va < area_va m (n_value m n)) xs of
        None \<Rightarrow> 0
      | Some n \<Rightarrow> if \<not> vm_area_in m (n_value m n) va \<and> area_flags m (n_value m n) AND VM_STACK \<noteq> 0
                  then n_value m n else 0)"
proof (induction xs arbitrary: q p)
  case Nil
  then show ?case by (subst vm_find_stack_from.simps) simp
next
  case (Cons x xs)
  then have "p = x" "x \<noteq> 0" "nseg m l x (n_next m x) xs 0" by simp_all
  with Cons.IH [OF this(3)] show ?case by (subst vm_find_stack_from.simps) (simp add: Let_def)
qed

lemma vm_flags_or: "(f :: u32) OR VM_READ \<noteq> 0" "f OR VM_WRITE \<noteq> 0" "f OR VM_EXEC \<noteq> 0"
  by (simp_all add: or_eq_0_iff)

subsection \<open>A cyclic list\<close>

text \<open>On a cycle whose areas all lie elsewhere, \<open>vm_find\<close> does not end.\<close>

lemma vm_find_cycle:
  assumes "\<forall>n\<in>C. n \<noteq> 0 \<and> \<not> vm_area_in m (n_value m n) va \<and> n_next m n \<in> C"
  shows "n \<in> C \<Longrightarrow> vm_find_from m va n = None"
proof (rule ccontr)
  assume n: "n \<in> C" and "vm_find_from m va n \<noteq> None"
  then obtain y where y: "vm_find_from m va n = Some y" by blast
  have "x \<notin> C" if "vm_find_from m va x = Some y" for x y
  proof -
    have "mm = m \<longrightarrow> vv = va \<longrightarrow> x \<notin> C" if "vm_find_from mm vv x = Some y" for mm vv x y
    proof (rule vm_find_from.raw_induct [OF _ that])
      fix f mm vv x y
      assume IH: "\<And>mm vv x y. f mm vv x = Some y \<Longrightarrow> mm = m \<longrightarrow> vv = va \<longrightarrow> x \<notin> C"
        and eq: "(if x = 0 then Some 0
           else if vm_area_in mm (n_value mm x) vv then Some (n_value mm x)
           else f mm vv (n_next mm x)) = Some y"
      show "mm = m \<longrightarrow> vv = va \<longrightarrow> x \<notin> C"
        using IH eq assms by (auto split: if_splits)
    qed
    with that show ?thesis by blast
  qed
  with y n show False by blast
qed

subsection \<open>Adding an area\<close>

text \<open>
  The list \<open>l\<close> holds the areas \<open>ars\<close>: neither the nodes nor the areas lie in free memory,
  and no area overlaps a node or the header.
\<close>

definition list_cells :: "u64 \<Rightarrow> u64 list \<Rightarrow> u64 set" where
  "list_cells l xs = span l 16 \<union> (\<Union>x\<in>set xs. span x 32)"

definition vm_areas :: "u64 set \<Rightarrow> u64 \<Rightarrow> memory \<Rightarrow> u64 \<Rightarrow> u64 list \<Rightarrow> u64 list \<Rightarrow> bool" where
  "vm_areas F q m l xs ars \<longleftrightarrow>
     list_rep q m l xs \<and> map (n_value m) xs = ars \<and> list_cells l xs \<inter> F = {} \<and>
     (\<forall>a\<in>set ars. span a 40 \<inter> (F \<union> list_cells l xs) = {})"

lemma area_va_agree: "agree (span a 40) m m' \<Longrightarrow> area_va m a = area_va m' a"
  unfolding area_va_def by (rule agree_load64) (use span_mono [of 8 40 a] in auto)

lemma list_rep_agree:
  assumes "agree (list_cells l xs) m m'" and "list_rep q m l xs"
  shows "list_rep q m' l xs" and "map (n_value m') xs = map (n_value m) xs"
    and "l_first m' l = l_first m l" and "x \<in> set xs \<Longrightarrow> n_next m' x = n_next m x"
proof -
  have word: "load64 m (x + i) = load64 m' (x + i)" if "x \<in> set xs" "unat i + 8 \<le> 32" for x i
    using that(1) span_shift_subset [OF that(2), of x]
    by (intro agree_load64 [OF assms(1)]) (auto simp: list_cells_def)
  have hdr: "load64 m (l + i) = load64 m' (l + i)" if "unat i + 8 \<le> 16" for i
    using span_shift_subset [OF that, of l]
    by (intro agree_load64 [OF assms(1)]) (auto simp: list_cells_def)
  have fld: "n_value m x = n_value m' x" "n_list m x = n_list m' x"
    "n_prev m x = n_prev m' x" "n_next m x = n_next m' x" if "x \<in> set xs" for x
    using word [OF that, of 0] word [OF that, of 8] word [OF that, of 16] word [OF that, of 24]
    by (simp_all add: field_defs)
  have hd: "l_first m l = l_first m' l" "l_last m l = l_last m' l"
    using hdr [of 0] hdr [of 8] by (simp_all add: field_defs)
  show "list_rep q m' l xs"
    using assms(2) fld hd nseg_cong [of xs m m'] unfolding list_rep_def by metis
  show "map (n_value m') xs = map (n_value m) xs" using fld(1) by simp
  show "l_first m' l = l_first m l" using hd(1) by simp
  show "x \<in> set xs \<Longrightarrow> n_next m' x = n_next m x" using fld(4) by simp
qed

lemma incref_ok:
  assumes "area_va (mem s) a mod PAGE_SIZE = 0" and "area_refcount (mem s) a + 1 \<noteq> 0"
  shows "vm_area_incref a s =
    Some (Inr ((), s\<lparr>mem := set_area_refcount a (area_refcount (mem s) a + 1) (mem s)\<rparr>))"
proof -
  have r: "area_refcount (set_area_refcount a v m) a = v" for v m
    by (simp add: area_refcount_def set_area_refcount_def mem_simps)
  have "0 < area_refcount (mem s) a + 1" using assms(2) by (simp add: word_gt_0)
  with assms(1) r show ?thesis
    by (simp add: vm_area_incref_def vm_area_check_alignment_def kthen_def kbind_def)
qed

lemma refcount_frame: "agree (- span a 40) m (set_area_refcount a v m)"
proof -
  have "span (a + 16) 4 \<subseteq> span a 40" by (rule span_shift_subset) simp
  then show "agree (- span a 40) m (set_area_refcount a v m)"
    unfolding set_area_refcount_def by (intro agree_sym [OF agree_store32]) blast
qed

lemma refcount_va [simp]: "area_va (set_area_refcount a v m) a = area_va m a"
proof -
  have "span (a + 16) 4 \<inter> span a 8 = {}" by (rule span_disjoint_base) simp_all
  then show ?thesis
    unfolding set_area_refcount_def area_va_def by (intro agree_load64 [OF agree_store32]) blast+
qed

text \<open>The state in which the loop of \<open>vm_add_area\<close> starts: the node is there, the count is raised.\<close>

definition add_start ::
  "u64 set \<Rightarrow> u64 \<Rightarrow> u64 \<Rightarrow> u64 list \<Rightarrow> u64 list \<Rightarrow> u64 \<Rightarrow> 'a mm_state_scheme \<Rightarrow> u64 \<Rightarrow> 'a mm_state_scheme \<Rightarrow> bool" where
  "add_start F q l xs ars ar s n t \<longleftrightarrow>
     node_page n \<subseteq> F \<and> span n 32 \<subseteq> node_page n \<and> allocator (F - node_page n) t \<and> same_rest s t \<and>
     vm_areas (F - node_page n) q (mem t) l xs ars \<and> joinable (mem t) l xs n \<and> n_value (mem t) n = ar \<and>
     (\<forall>a\<in>set (ar # ars). area_va (mem t) a = area_va (mem s) a) \<and>
     (\<forall>a\<in>set (ar # ars). span a 40 \<inter> (span n 32 \<union> list_cells l xs) = {}) \<and>
     area_refcount (mem t) ar = area_refcount (mem s) ar + 1 \<and>
     agree (- (F \<union> span (ar + 16) 4)) (mem s) (mem t) \<and>
     (\<forall>m. vm_add_loop l n ar (l_first (mem t) l) (mem t) = Some m \<longrightarrow>
        vm_add_area l ar s = Some (Inr (0, t\<lparr>mem := list_push l n m\<rparr>)))"

lemma node_in_page: "span n 32 \<subseteq> node_page n"
proof -
  have "span (n - 4 + 4) 32 \<subseteq> span (n - 4) 4096" by (rule span_shift_subset) simp
  then show ?thesis by (simp add: node_page_def area_def)
qed

lemma add_area_start:
  assumes al: "allocator F s" and areas: "vm_areas F q (mem s) l xs ars"
    and ar: "span ar 40 \<inter> (F \<union> list_cells l xs) = {}" "\<forall>a\<in>set ars. span a 40 \<inter> span ar 40 = {}"
    and va: "area_va (mem s) ar mod PAGE_SIZE = 0" and rc: "area_refcount (mem s) ar + 1 \<noteq> 0"
  shows "F = {} \<and> vm_add_area l ar s = Some (Inl ''out of memory'') \<or>
    (\<exists>n t. add_start F q l xs ars ar s n t)"
  using list_node_create_ok [OF al, of ar]
proof (elim disjE exE conjE)
  assume "F = {}" "list_node_create ar s = Some (Inl ''out of memory'')"
  then show ?thesis by (simp add: vm_add_area_def kbind_Inl)
next
  fix n u
  assume u: "list_node_create ar s = Some (Inr (n, u))" "n \<noteq> 0" "area_ok 0 (n - 4)" "node_page n \<subseteq> F"
    "load32 (mem u) (n - 4) = 0" "allocator (F - node_page n) u" "agree (- F) (mem s) (mem u)"
    "n_value (mem u) n = ar" "n_next (mem u) n = 0" "n_prev (mem u) n = 0" "same_rest s u"
  let ?t = "u\<lparr>mem := set_area_refcount ar (area_refcount (mem u) ar + 1) (mem u)\<rparr>"
  have rep: "list_rep q (mem s) l xs" and vals: "map (n_value (mem s)) xs = ars"
    and cells: "list_cells l xs \<inter> F = {}" and sep: "\<forall>a\<in>set ars. span a 40 \<inter> (F \<union> list_cells l xs) = {}"
    using areas by (auto simp: vm_areas_def)
  have n: "span n 32 \<subseteq> F" using node_in_page u(4) by blast
  have arF: "agree (span ar 40) (mem s) (mem u)" by (rule agree_mono [OF u(7)]) (use ar(1) in blast)
  have "span (ar + 16) 4 \<subseteq> span ar 40" by (rule span_shift_subset) simp
  with arF have rcu: "area_refcount (mem u) ar = area_refcount (mem s) ar"
    unfolding area_refcount_def by (metis agree_load32)
  have ut: "agree (- span ar 40) (mem u) (mem ?t)" by (simp add: refcount_frame)
  have st: "agree (- (F \<union> span ar 40)) (mem s) (mem ?t)"
    by (rule agree_trans [OF agree_mono [OF u(7)] agree_mono [OF ut]]) auto
  have "agree (- span (ar + 16) 4) (mem u) (mem ?t)"
    by (simp add: set_area_refcount_def agree_sym [OF agree_store32])
  from agree_trans [OF agree_mono [OF u(7)] agree_mono [OF this]]
  have st': "agree (- (F \<union> span (ar + 16) 4)) (mem s) (mem ?t)" by simp
  have "agree (list_cells l xs) (mem s) (mem ?t)" by (rule agree_mono [OF st]) (use cells ar(1) in blast)
  note keep = list_rep_agree [OF this rep]
  have nap: "apart n x" if "x \<in> set xs" for x
    using that n cells unfolding apart_def list_cells_def by blast
  have nol: "off_list l n" using n cells unfolding off_list_def list_cells_def by blast
  have nar: "span ar 40 \<inter> span n 32 = {}" using ar(1) n by blast
  have "span (n + i) 8 \<subseteq> - span ar 40" if "unat i + 8 \<le> 32" for i
    using span_shift_subset [OF that, of n] nar by blast
  from agree_load64 [OF ut this, of 0] agree_load64 [OF ut this, of 24] u(8,9)
  have nxt: "n_value (mem ?t) n = ar" "n_next (mem ?t) n = 0" by (simp_all add: field_defs)
  have nin: "n \<notin> set xs" using nap span_self [of 32 n] unfolding apart_def by fastforce
  have "joinable (mem ?t) l xs n" using u(2) nap nol nxt(2) nin by (simp add: joinable_def)
  moreover have "agree (F - node_page n) (mem u) (mem ?t)" by (rule agree_mono [OF ut]) (use ar(1) in blast)
  from allocator_frame [OF u(6) this] have "allocator (F - node_page n) ?t" by simp
  moreover have "area_va (mem ?t) a = area_va (mem s) a" if "a \<in> set ars" for a
  proof -
    have "agree (span a 40) (mem s) (mem ?t)" by (rule agree_mono [OF st]) (use that sep ar(2) in blast)
    then show ?thesis using area_va_agree by metis
  qed
  moreover have "area_va (mem ?t) ar = area_va (mem s) ar" using area_va_agree [OF arF] by simp
  moreover have "vm_areas (F - node_page n) q (mem ?t) l xs ars"
    using keep(1,2) vals cells sep unfolding vm_areas_def by auto
  moreover have "\<forall>a\<in>set (ar # ars). span a 40 \<inter> (span n 32 \<union> list_cells l xs) = {}"
    using sep ar(1) n by fastforce
  moreover have "area_refcount (mem ?t) ar = area_refcount (mem s) ar + 1"
    using rcu by (simp add: area_refcount_def set_area_refcount_def mem_simps)
  moreover have "vm_add_area l ar s = Some (Inr (0, ?t\<lparr>mem := list_push l n m\<rparr>))"
    if "vm_add_loop l n ar (l_first (mem ?t) l) (mem ?t) = Some m" for m
  proof -
    have "area_va (mem u) ar mod PAGE_SIZE = 0" using va area_va_agree [OF arF] by simp
    then have "vm_area_incref ar u = Some (Inr ((), ?t))" by (rule incref_ok) (simp add: rcu rc)
    with that u(1,2) show ?thesis by (simp add: vm_add_area_def kthen_def kbind_def kwalk_Some)
  qed
  ultimately show ?thesis
    using u(4) node_in_page same_rest_trans [OF u(11), of ?t] nxt(1) st' unfolding add_start_def
    by (intro disjI2 exI [of _ n] exI [of _ ?t]) simp
qed

lemma add_loop_above:
  "nseg m l q p xs 0 \<Longrightarrow> \<forall>x\<in>set xs. \<not> area_va m ar < area_va m (n_value m x) \<Longrightarrow>
    vm_add_loop l n ar p m = Some m"
proof (induction xs arbitrary: q p)
  case Nil
  then show ?case by (subst vm_add_loop.simps) simp
next
  case (Cons x xs)
  then have "p = x" "x \<noteq> 0" "nseg m l x (n_next m x) xs 0" "\<not> area_va m ar < area_va m (n_value m x)"
    by simp_all
  with Cons.IH [OF this(3)] Cons.prems(2) show ?case by (subst vm_add_loop.simps) simp
qed

lemma list_cells_snoc: "list_cells l (xs @ [n]) = list_cells l xs \<union> span n 32"
  by (auto simp: list_cells_def)

lemma vm_add_area_ok:
  assumes "allocator F s" and "vm_areas F q (mem s) l xs ars"
    and "span ar 40 \<inter> (F \<union> list_cells l xs) = {}" and "\<forall>a\<in>set ars. span a 40 \<inter> span ar 40 = {}"
    and "area_va (mem s) ar mod PAGE_SIZE = 0" and "area_refcount (mem s) ar + 1 \<noteq> 0"
    and "\<forall>a\<in>set ars. \<not> area_va (mem s) ar < area_va (mem s) a"
  shows "F = {} \<and> vm_add_area l ar s = Some (Inl ''out of memory'') \<or>
    (\<exists>n u. vm_add_area l ar s = Some (Inr (0, u)) \<and> node_page n \<subseteq> F \<and> allocator (F - node_page n) u \<and>
       vm_areas (F - node_page n) (if xs = [] then 0 else q) (mem u) l (xs @ [n]) (ars @ [ar]) \<and>
       area_refcount (mem u) ar = area_refcount (mem s) ar + 1 \<and>
       agree (- (F \<union> span (ar + 16) 4 \<union> list_cells l xs)) (mem s) (mem u) \<and> same_rest s u)"
  using add_area_start [OF assms(1-6)]
proof (elim disjE exE)
  fix n t assume st: "add_start F q l xs ars ar s n t"
  let ?G = "F - node_page n"
  let ?u = "t\<lparr>mem := list_push l n (mem t)\<rparr>"
  have t: "node_page n \<subseteq> F" "span n 32 \<subseteq> node_page n" "allocator ?G t" "joinable (mem t) l xs n"
    "n_value (mem t) n = ar" "area_refcount (mem t) ar = area_refcount (mem s) ar + 1"
    "agree (- (F \<union> span (ar + 16) 4)) (mem s) (mem t)" "same_rest s t"
    "\<forall>m. vm_add_loop l n ar (l_first (mem t) l) (mem t) = Some m \<longrightarrow>
        vm_add_area l ar s = Some (Inr (0, t\<lparr>mem := list_push l n m\<rparr>))"
    and vas: "\<forall>a\<in>set (ar # ars). area_va (mem t) a = area_va (mem s) a"
    and ap: "\<forall>a\<in>set (ar # ars). span a 40 \<inter> (span n 32 \<union> list_cells l xs) = {}"
    using st by (auto simp: add_start_def)
  have areas: "vm_areas ?G q (mem t) l xs ars" using st by (simp add: add_start_def)
  then have rep: "list_rep q (mem t) l xs" and vals: "map (n_value (mem t)) xs = ars"
    by (auto simp: vm_areas_def)
  have "\<forall>x\<in>set xs. \<not> area_va (mem t) ar < area_va (mem t) (n_value (mem t) x)"
    using assms(7) vas vals by auto
  with rep have "vm_add_loop l n ar (l_first (mem t) l) (mem t) = Some (mem t)"
    by (intro add_loop_above) (auto simp: list_rep_def)
  with t(9) have run: "vm_add_area l ar s = Some (Inr (0, ?u))" by blast
  have off: "off_list l n" using t(4) by (simp add: joinable_def)
  have out: "agree (- (list_cells l xs \<union> span n 32)) (mem t) (mem ?u)"
    using agree_mono [OF list_push_frame [OF rep off], of "- (list_cells l xs \<union> span n 32)"]
    by (auto simp: list_cells_def)
  have "list_rep (if xs = [] then 0 else q) (mem ?u) l (xs @ [n])"
    using list_push_rep [OF rep t(4)] by simp
  moreover have "map (n_value (mem ?u)) (xs @ [n]) = ars @ [ar]"
    using list_push_value [OF rep t(4)] vals t(5) by auto
  ultimately have "vm_areas ?G (if xs = [] then 0 else q) (mem ?u) l (xs @ [n]) (ars @ [ar])"
    using areas ap t(2) assms(3) unfolding vm_areas_def list_cells_snoc by auto
  moreover have "agree ?G (mem t) (mem ?u)"
    by (rule agree_mono [OF out]) (use areas t(2) in \<open>auto simp: vm_areas_def\<close>)
  from allocator_frame [OF t(3) this] have "allocator ?G ?u" by simp
  moreover have "span (ar + 16) 4 \<subseteq> span ar 40" by (rule span_shift_subset) simp
  with ap have "span (ar + 16) 4 \<subseteq> - (list_cells l xs \<union> span n 32)" by auto
  from agree_load32 [OF out this] have "area_refcount (mem ?u) ar = area_refcount (mem s) ar + 1"
    using t(6) by (simp add: area_refcount_def)
  moreover have "same_rest s ?u" using same_rest_trans [OF t(8)] by simp
  moreover have "agree (- (F \<union> span (ar + 16) 4 \<union> list_cells l xs)) (mem s) (mem ?u)"
    by (rule agree_trans [OF agree_mono [OF t(7)] agree_mono [OF out]]) (use t(1,2) in auto)
  ultimately show ?thesis using run t(1) by blast
qed blast

text \<open>
  An area whose address is not below any area of the list is appended: the list
  then holds the old areas and the new one in order, its reference count is one higher, and
  exactly the page of the new node is taken from the allocator.
\<close>
theorem vm_add_area_appends:
  assumes "allocator F s" and "vm_areas F q (mem s) l xs ars"
    and "span ar 40 \<inter> (F \<union> list_cells l xs) = {}" and "\<forall>a\<in>set ars. span a 40 \<inter> span ar 40 = {}"
    and "area_va (mem s) ar mod PAGE_SIZE = 0" and "area_refcount (mem s) ar + 1 \<noteq> 0"
    and "\<forall>a\<in>set ars. \<not> area_va (mem s) ar < area_va (mem s) a"
  shows "F = {} \<and> vm_add_area l ar s = Some (Inl ''out of memory'') \<or>
    (\<exists>n u. vm_add_area l ar s = Some (Inr (0, u)) \<and> node_page n \<subseteq> F \<and> allocator (F - node_page n) u \<and>
       vm_areas (F - node_page n) (if xs = [] then 0 else q) (mem u) l (xs @ [n]) (ars @ [ar]) \<and>
       area_refcount (mem u) ar = area_refcount (mem s) ar + 1 \<and>
       agree (- (F \<union> span (ar + 16) 4 \<union> list_cells l xs)) (mem s) (mem u))"
  using vm_add_area_ok [OF assms] by blast

text \<open>A page joins the list of an area.\<close>

lemma add_page_ok:
  assumes al: "allocator F s" and rep: "list_rep q (mem s) (area_pages ar) xs"
    and cells: "list_cells (area_pages ar) xs \<inter> F = {}"
  shows "F = {} \<and> vm_area_add_page ar page s = Some (Inl ''out of memory'') \<or>
    (\<exists>n t. vm_area_add_page ar page s = Some (Inr (0, t)) \<and> node_page n \<subseteq> F \<and> span n 32 \<subseteq> node_page n \<and>
       allocator (F - node_page n) t \<and> same_rest s t \<and>
       list_rep (if xs = [] then 0 else q) (mem t) (area_pages ar) (xs @ [n]) \<and>
       map (n_value (mem t)) (xs @ [n]) = map (n_value (mem s)) xs @ [page] \<and>
       agree (- (F \<union> list_cells (area_pages ar) xs)) (mem s) (mem t))"
  using list_node_create_ok [OF al, of page]
proof (elim disjE exE conjE)
  assume "F = {}" "list_node_create page s = Some (Inl ''out of memory'')"
  then show ?thesis by (simp add: vm_area_add_page_def kbind_Inl)
next
  let ?l = "area_pages ar"
  fix n u
  assume u: "list_node_create page s = Some (Inr (n, u))" "n \<noteq> 0" "node_page n \<subseteq> F"
    "allocator (F - node_page n) u" "agree (- F) (mem s) (mem u)" "n_value (mem u) n = page"
    "n_next (mem u) n = 0" "same_rest s u"
  have n: "span n 32 \<subseteq> F" using node_in_page u(3) by blast
  have "agree (list_cells ?l xs) (mem s) (mem u)" by (rule agree_mono [OF u(5)]) (use cells in blast)
  note keep = list_rep_agree [OF this rep]
  have ap: "apart n x" if "x \<in> set xs" for x
    using that n cells unfolding apart_def list_cells_def by blast
  have off: "off_list ?l n" using n cells unfolding off_list_def list_cells_def by blast
  have "n \<notin> set xs" using ap span_self [of 32 n] unfolding apart_def by fastforce
  with u(2,7) ap off have j: "joinable (mem u) ?l xs n" by (simp add: joinable_def)
  let ?t = "u\<lparr>mem := list_push ?l n (mem u)\<rparr>"
  have out: "agree (- (list_cells ?l xs \<union> span n 32)) (mem u) (mem ?t)"
    using agree_mono [OF list_push_frame [OF keep(1) off], of "- (list_cells ?l xs \<union> span n 32)"]
    by (auto simp: list_cells_def)
  have "vm_area_add_page ar page s = Some (Inr (0, ?t))"
    using u(1,2) by (simp add: vm_area_add_page_def kbind_Inr kthen_Inr)
  moreover have "agree (F - node_page n) (mem u) (mem ?t)"
    by (rule agree_mono [OF out]) (use cells node_in_page in blast)
  from allocator_frame [OF u(4) this] have "allocator (F - node_page n) ?t" by simp
  moreover have "same_rest s ?t" using same_rest_trans [OF u(8)] by simp
  moreover have "list_rep (if xs = [] then 0 else q) (mem ?t) ?l (xs @ [n])" using list_push_rep [OF keep(1) j] by simp
  moreover have "map (n_value (mem ?t)) (xs @ [n]) = map (n_value (mem u)) (xs @ [n])"
    by (rule map_cong [OF refl]) (use list_push_value [OF keep(1) j] in simp)
  then have "map (n_value (mem ?t)) (xs @ [n]) = map (n_value (mem s)) xs @ [page]"
    using keep(2) u(6) by simp
  moreover have "agree (- (F \<union> list_cells ?l xs)) (mem s) (mem ?t)"
    by (rule agree_trans [OF agree_mono [OF u(5)] agree_mono [OF out]]) (use n in auto)
  ultimately show ?thesis using u(3) node_in_page by blast
qed

text \<open>One insertion, seen from the links: \<open>n\<close> is a node apart from the nodes \<open>X\<close>.\<close>

definition apart_nodes :: "u64 \<Rightarrow> u64 set \<Rightarrow> bool" where
  "apart_nodes l X \<longleftrightarrow> (\<forall>x\<in>X. x \<noteq> 0 \<and> off_list l x) \<and> (\<forall>x\<in>X. \<forall>y\<in>X. x \<noteq> y \<longrightarrow> apart x y)"

lemma insert_before_links:
  assumes ap: "apart_nodes l (insert n X)" and n: "n \<notin> X" and y: "y \<in> X"
    and prev: "n_prev m y = 0 \<or> n_prev m y \<in> X - {y}"
  defines "m' \<equiv> list_insert_before l n y m"
  shows "n_next m' n = y" and "x \<in> X \<Longrightarrow> n_next m' x = (if x = n_prev m y then n else n_next m x)"
    and "x \<in> X \<Longrightarrow> x \<noteq> y \<Longrightarrow> n_prev m' x = n_prev m x" and "x \<in> X \<Longrightarrow> n_list m' x = n_list m x"
    and "x \<in> insert n X \<Longrightarrow> n_value m' x = n_value m x" and "l_last m' l = l_last m l"
    and "l_first m' l = (if y = l_first m l then n else l_first m l)"
    and "agree (- (span l 16 \<union> (\<Union>x\<in>insert n X. span x 32))) m m'"
proof -
  let ?q = "n_prev m y"
  have apn: "apart n x" "apart x n" if "x \<in> X" for x
    using ap n that unfolding apart_nodes_def by (metis insertI1 insertI2)+
  have apx: "apart x z" if "x \<in> X" "z \<in> X" "x \<noteq> z" for x z
    using ap that unfolding apart_nodes_def by blast
  have off: "off_list l x" "x \<noteq> 0" if "x \<in> insert n X" for x using ap that unfolding apart_nodes_def by auto
  have yn: "apart n y" "apart y n" "off_list l n" "off_list l y" "n \<noteq> 0" "y \<noteq> 0" using apn y off by auto
  define m1 where "m1 = set_prev y n (set_next n y (set_prev n ?q (set_list n l m)))"
  have m1: "n_prev m1 n = ?q" "l_first m1 l = l_first m l" "l_last m1 l = l_last m l" "n_next m1 n = y"
    using yn by (simp_all add: m1_def mem_simps)
  define m2 where "m2 = (if ?q \<noteq> 0 then set_next ?q n m1 else m1)"
  have m2: "l_first m2 l = l_first m l" "l_last m2 l = l_last m l" "n_next m2 n = y"
    using m1 prev off apn by (auto simp: m2_def mem_simps)
  have eq: "m' = (if y = l_first m l then set_first l n m2 else m2)"
  proof -
    have pq: "n_prev (set_list n l m) y = ?q" using yn by (simp add: mem_simps)
    show ?thesis
      unfolding m'_def list_insert_before_def Let_def pq m1_def [symmetric] m1(1) m2_def [symmetric] m2(1) ..
  qed
  have q: "?q \<in> X" "?q \<noteq> y" if "?q \<noteq> 0" using prev that by auto
  show "n_next m' n = y" "l_last m' l = l_last m l" "l_first m' l = (if y = l_first m l then n else l_first m l)"
    using yn m2 by (simp_all add: eq mem_simps)
  have x1: "n_next m1 x = n_next m x" "n_list m1 x = n_list m x" "n_value m1 x = n_value m x"
    "x \<noteq> y \<Longrightarrow> n_prev m1 x = n_prev m x" if "x \<in> X" for x
    using apn [OF that] apx [OF y that] by (cases "x = y"; simp add: m1_def mem_simps)+
  have x2: "n_next m2 x = (if x = ?q then n else n_next m x)" "n_list m2 x = n_list m x" "n_value m2 x = n_value m x"
    "x \<noteq> y \<Longrightarrow> n_prev m2 x = n_prev m x" if "x \<in> X" for x
    using x1 [OF that] q apx [OF q(1) that] off(2) that by (cases "x = ?q"; cases "?q = 0"; simp add: m2_def mem_simps)+
  have same: "n_next m' x = n_next m2 x" "n_list m' x = n_list m2 x" "n_prev m' x = n_prev m2 x" if "x \<in> X"
    using off [of x] that by (simp_all add: eq mem_simps)
  show "n_next m' x = (if x = ?q then n else n_next m x)" "n_list m' x = n_list m x"
    "x \<noteq> y \<Longrightarrow> n_prev m' x = n_prev m x" if "x \<in> X"
    unfolding same [OF that] using x2 [OF that] by blast+
  show "n_value m' x = n_value m x" if "x \<in> insert n X"
  proof (cases "x = n")
    case True
    have "n_value m2 n = n_value m n"
      using yn q apn by (cases "?q = 0") (auto simp: m2_def m1_def mem_simps)
    with True yn show ?thesis by (simp add: eq mem_simps)
  next
    case False
    with that x2(3) [of x] off [of x] show ?thesis by (simp add: eq mem_simps)
  qed
  show "agree (- (span l 16 \<union> (\<Union>x\<in>insert n X. span x 32))) m m'"
    using y q unfolding eq m2_def m1_def by (auto intro!: node_write_frame list_write_frame)
qed

text \<open>
  The loop on a suffix \<open>ys\<close> of the nodes whose last area is above the new one: it inserts
  before the last node and leaves only links into the list and the new node.
\<close>

definition add_inv :: "memory \<Rightarrow> u64 \<Rightarrow> u64 \<Rightarrow> u64 list \<Rightarrow> memory \<Rightarrow> bool" where
  "add_inv m0 l n xs m \<longleftrightarrow>
     l_first m l \<in> insert n (set xs) \<and> l_last m l = last xs \<and>
     (\<forall>x\<in>insert n (set xs). n_value m x = n_value m0 x) \<and>
     agree (- (list_cells l xs \<union> span n 32)) m0 m"

lemma add_loop_cycle:
  assumes ap: "apart_nodes l (insert n (set xs))" and n: "n \<notin> set xs" and d: "distinct xs"
    and cells: "\<forall>a\<in>insert ar (n_value m0 ` set xs). span a 40 \<inter> (span n 32 \<union> list_cells l xs) = {}"
    and above: "area_va m0 ar < area_va m0 (n_value m0 (last xs))"
  shows "xs = zs @ ys \<Longrightarrow> ys \<noteq> [] \<Longrightarrow> nseg m l q (hd ys) ys 0 \<Longrightarrow> q = 0 \<or> q \<in> set zs \<Longrightarrow>
    add_inv m0 l n xs m \<Longrightarrow> \<forall>x\<in>set zs. n_next m x \<in> insert n (set xs) \<Longrightarrow>
    \<exists>m'. vm_add_loop l n ar (hd ys) m = Some m' \<and> add_inv m0 l n xs m' \<and>
      (\<forall>x\<in>set (butlast xs). n_next m' x \<in> insert n (set xs)) \<and> n_next m' n = last xs"
proof (induction ys arbitrary: zs q m)
  case Nil
  then show ?case by simp
next
  case (Cons y ys)
  let ?X = "set xs" and ?C = "insert n (set xs)"
  have y: "y \<in> ?X" "y \<notin> set zs" "y \<noteq> 0" "n_prev m y = q" "nseg m l y (n_next m y) ys 0"
    using Cons.prems(1,3) d by auto
  have yl: "ys = [] \<Longrightarrow> y = last xs" "ys \<noteq> [] \<Longrightarrow> n_next m y = hd ys" "ys = [] \<Longrightarrow> n_next m y = 0"
    using Cons.prems(1) y(5) by (cases ys; simp)+
  have inv: "l_first m l \<in> ?C" "l_last m l = last xs" "\<forall>x\<in>?C. n_value m x = n_value m0 x"
    "agree (- (list_cells l xs \<union> span n 32)) m0 m" using Cons.prems(5) by (auto simp: add_inv_def)
  have va: "area_va m a = area_va m0 a" if "a \<in> insert ar (n_value m0 ` ?X)" for a
  proof -
    have "agree (span a 40) m0 m" by (rule agree_mono [OF inv(4)]) (use cells that in blast)
    then show ?thesis using area_va_agree by metis
  qed
  let ?above = "area_va m ar < area_va m (n_value m y)"
  have ab: "?above \<longleftrightarrow> area_va m0 ar < area_va m0 (n_value m0 y)" using va inv(3) y(1) by simp
  define m1 where "m1 = (if ?above then list_insert_before l n y m else m)"
  have prev: "n_prev m y = 0 \<or> n_prev m y \<in> ?X - {y}" using Cons.prems(1,4) y(2,4) by auto
  note ins = insert_before_links [OF ap n y(1) prev]
  have nx: "n_next m1 x = n_next m x" "n_list m1 x = n_list m x" "n_prev m1 x = n_prev m x" if "x \<in> set ys" for x
  proof -
    have "x \<in> ?X" "x \<noteq> y" "x \<noteq> n_prev m y" 
      using that Cons.prems(1,4) d y(2-4) nseg_nonzero [OF y(5) that] by auto
    then show "n_next m1 x = n_next m x" "n_list m1 x = n_list m x" "n_prev m1 x = n_prev m x"
      using ins(2-4) by (auto simp: m1_def)
  qed
  have ny: "n_next m1 y = n_next m y" using ins(2) [OF y(1)] prev y(3) by (auto simp: m1_def)
  have seg: "nseg m1 l y (n_next m1 y) ys 0"
    using y(5) nx nseg_cong [of ys m m1] unfolding ny by metis
  have inv1: "add_inv m0 l n xs m1"
  proof (cases ?above)
    case True
    have "agree (- (list_cells l xs \<union> span n 32)) m m1"
      using agree_mono [OF ins(8), of "- (list_cells l xs \<union> span n 32)"] True by (auto simp: m1_def list_cells_def)
    with agree_trans [OF inv(4) this] show ?thesis
      using True inv(1-3) ins(5-7) by (simp add: add_inv_def m1_def)
  next
    case False
    with Cons.prems(5) show ?thesis by (simp add: m1_def)
  qed
  have links: "n_next m1 x \<in> ?C" if "x \<in> set zs" for x
    using that Cons.prems(1,6) ins(2) [of x] by (auto simp: m1_def)
  have run: "vm_add_loop l n ar y m = vm_add_loop l n ar (n_next m1 y) m1"
    using y(3) by (subst vm_add_loop.simps) (simp add: m1_def [symmetric] Let_def)
  show ?case
  proof (cases ys)
    case Nil
    then have "?above" using ab above yl(1) by simp
    then have "n_next m1 n = last xs" using ins(1) yl(1) Nil by (simp add: m1_def)
    moreover have "vm_add_loop l n ar y m = Some m1"
      unfolding run ny yl(3) [OF Nil] by (subst vm_add_loop.simps) simp
    moreover have "butlast xs = zs" using Cons.prems(1) Nil by simp
    ultimately show ?thesis using inv1 links by simp
  next
    case (Cons z ws)
    have hd: "n_next m1 y = hd ys" using yl(2) Cons ny by simp
    have "xs = (zs @ [y]) @ ys" "ys \<noteq> []" "y = 0 \<or> y \<in> set (zs @ [y])" using Cons.prems(1) Cons by simp_all
    moreover have "\<forall>x\<in>set (zs @ [y]). n_next m1 x \<in> ?C"
      using links hd Cons Cons.prems(1) by auto
    moreover have "nseg m1 l y (hd ys) ys 0" using seg hd by simp
    ultimately show ?thesis using Cons.IH inv1 run hd by simp
  qed
qed

lemma list_rep_apart_nodes:
  assumes "list_rep q m l xs" and "joinable m l xs n"
  shows "apart_nodes l (insert n (set xs))" and "n \<notin> set xs" and "distinct xs"
proof -
  have sep: "separate_nodes l xs" and seg: "nseg m l q (l_first m l) xs 0"
    using assms(1) by (auto simp: list_rep_def)
  show "distinct xs" by (rule separate_nodesD(1) [OF sep])
  show "n \<notin> set xs" using assms(2) by (simp add: joinable_def)
  show "apart_nodes l (insert n (set xs))"
    using sep nseg_nonzero [OF seg] assms(2) apart_sym
    unfolding apart_nodes_def joinable_def separate_nodes_def by blast
qed

text \<open>A push behind a non-empty list closes the links.\<close>

lemma list_push_links:
  assumes ap: "apart_nodes l (insert n X)" and n: "n \<notin> X" and z: "l_last m l = z" "z \<in> X"
    and first: "l_first m l \<noteq> 0"
  shows "x \<in> insert n X \<Longrightarrow> n_next (list_push l n m) x = (if x = z then n else n_next m x)"
    and "x \<in> insert n X \<Longrightarrow> n_value (list_push l n m) x = n_value m x"
    and "l_first (list_push l n m) l = l_first m l"
proof -
  have o: "off_list l x" "x \<noteq> 0" if "x \<in> insert n X" for x using ap that unfolding apart_nodes_def by auto
  have a: "apart x y" if "x \<in> insert n X" "y \<in> insert n X" "x \<noteq> y" for x y
    using ap that unfolding apart_nodes_def by blast
  have nz: "apart n z" "apart z n" "off_list l n" "off_list l z" "z \<noteq> 0" using a [of n z] a [of z n] o n z(2) by auto
  have "n \<noteq> z" using n z(2) by blast
  have eq: "list_push l n m = set_last l n (set_next z n (set_prev n z (set_list n l m)))"
    using nz z(1) first by (simp add: list_push_def Let_def mem_simps)
  show "l_first (list_push l n m) l = l_first m l" using nz by (simp add: eq mem_simps)
  show "n_next (list_push l n m) x = (if x = z then n else n_next m x)" if "x \<in> insert n X"
    using o [OF that] a [of z x] a [of n x] that z(2) nz \<open>n \<noteq> z\<close> by (cases "x = z"; cases "x = n"; simp add: eq mem_simps)
  show "n_value (list_push l n m) x = n_value m x" if "x \<in> insert n X"
    using o [OF that] a [of z x] a [of n x] that z(2) nz \<open>n \<noteq> z\<close> by (cases "x = z"; cases "x = n"; simp add: eq mem_simps)
qed

text \<open>
  Property C34. When the last area of the list lies above the new one, \<open>vm_add_area\<close> returns 0
  but makes the list cyclic: the new node and the old last node point at each other, and
  \<open>vm_find\<close> never returns for an address that is in none of the areas.
\<close>
theorem vm_add_area_cycles:
  assumes "allocator F s" and "F \<noteq> {}" and "vm_areas F 0 (mem s) l xs ars" and "xs \<noteq> []"
    and "span ar 40 \<inter> (F \<union> list_cells l xs) = {}" and "\<forall>a\<in>set ars. span a 40 \<inter> span ar 40 = {}"
    and "area_va (mem s) ar mod PAGE_SIZE = 0" and "area_refcount (mem s) ar + 1 \<noteq> 0"
    and "area_va (mem s) ar < area_va (mem s) (last ars)"
  shows "\<exists>n u. vm_add_area l ar s = Some (Inr (0, u)) \<and> n_value (mem u) n = ar \<and>
    n_next (mem u) n = last xs \<and> n_next (mem u) (last xs) = n \<and>
    (\<forall>va. (\<forall>a\<in>set (ar # ars). \<not> vm_area_in (mem u) a va) \<longrightarrow> vm_find (mem u) l va = None)"
proof -
  obtain n t where st: "add_start F 0 l xs ars ar s n t"
    using add_area_start [OF assms(1,3,5-8)] assms(2) by blast
  have rep: "list_rep 0 (mem t) l xs" and vals: "map (n_value (mem t)) xs = ars" and join: "joinable (mem t) l xs n"
    and nv: "n_value (mem t) n = ar" and vas: "\<forall>a\<in>set (ar # ars). area_va (mem t) a = area_va (mem s) a"
    and ap: "\<forall>a\<in>set (ar # ars). span a 40 \<inter> (span n 32 \<union> list_cells l xs) = {}"
    and run: "\<forall>m. vm_add_loop l n ar (l_first (mem t) l) (mem t) = Some m \<longrightarrow>
        vm_add_area l ar s = Some (Inr (0, t\<lparr>mem := list_push l n m\<rparr>))"
    using st by (auto simp: add_start_def vm_areas_def)
  note sep = list_rep_apart_nodes [OF rep join]
  let ?C = "insert n (set xs)"
  have seg: "nseg (mem t) l 0 (l_first (mem t) l) xs 0" and la: "l_last (mem t) l = last xs"
    using rep assms(4) by (auto simp: list_rep_def)
  have fst: "l_first (mem t) l = hd xs" using seg assms(4) by (cases xs) auto
  have lastv: "n_value (mem t) (last xs) = last ars" using vals assms(4) by (metis last_map)
  have set: "n_value (mem t) ` set xs = set ars" using vals by auto
  have cells: "\<forall>a\<in>insert ar (n_value (mem t) ` set xs). span a 40 \<inter> (span n 32 \<union> list_cells l xs) = {}"
    using ap set by auto
  have "last ars \<in> set ars" using vals assms(4) by (intro last_in_set) auto
  then have "area_va (mem t) (last ars) = area_va (mem s) (last ars)" "area_va (mem t) ar = area_va (mem s) ar"
    using vas by simp_all
  then have above: "area_va (mem t) ar < area_va (mem t) (n_value (mem t) (last xs))"
    using assms(9) lastv by simp
  have inv: "add_inv (mem t) l n xs (mem t)" using fst la assms(4) by (simp add: add_inv_def)
  obtain m where m: "vm_add_loop l n ar (hd xs) (mem t) = Some m" "add_inv (mem t) l n xs m"
      "\<forall>x\<in>set (butlast xs). n_next m x \<in> ?C" "n_next m n = last xs"
    using add_loop_cycle [OF sep cells above, where zs = "[]" and ys = xs and q = 0 and m = "mem t"] assms(4) seg fst inv by auto
  let ?u = "t\<lparr>mem := list_push l n m\<rparr>"
  have lm: "l_last m l = last xs" "last xs \<in> set xs" "l_first m l \<in> ?C" "l_first m l \<noteq> 0"
    using m(2) assms(4) sep(1) by (auto simp: add_inv_def apart_nodes_def)
  note push = list_push_links [OF sep(1,2) lm(1,2,4)]
  have nl: "n \<noteq> last xs" using sep(2) assms(4) by auto
  have links: "n_next (mem ?u) n = last xs" "n_next (mem ?u) (last xs) = n"
    using push(1) [of n] push(1) [of "last xs"] m(4) nl lm(2) by simp_all
  have closed: "n_next (mem ?u) x \<in> ?C" if "x \<in> ?C" for x
  proof -
    have "xs = butlast xs @ [last xs]" using assms(4) by simp
    then have "x = n \<or> x = last xs \<or> x \<in> set (butlast xs)" using that by (metis Un_iff insertE set_append set_ConsD empty_iff list.set(1))
    then show ?thesis using push(1) [OF that] m(3,4) lm(2) by auto
  qed
  have vals': "n_value (mem ?u) x \<in> set (ar # ars)" if "x \<in> ?C" for x
    using push(2) [OF that] m(2) that nv set by (auto simp: add_inv_def)
  have "vm_find (mem ?u) l va = None" if "\<forall>a\<in>set (ar # ars). \<not> vm_area_in (mem ?u) a va" for va
    unfolding vm_find_def
  proof (rule vm_find_cycle [where C = ?C])
    show "\<forall>x\<in>?C. x \<noteq> 0 \<and> \<not> vm_area_in (mem ?u) (n_value (mem ?u) x) va \<and> n_next (mem ?u) x \<in> ?C"
      using closed vals' that sep(1) by (auto simp: apart_nodes_def)
    show "l_first (mem ?u) l \<in> ?C" using push(3) lm(3) by simp
  qed
  moreover have "n_value (mem ?u) n = ar" using push(2) [of n] m(2) nv by (simp add: add_inv_def)
  moreover have "vm_add_area l ar s = Some (Inr (0, ?u))" using run m(1) fst by simp
  ultimately show ?thesis using links by blast
qed

subsection \<open>A concrete list of one area\<close>

definition one_area :: memory where
  "one_area = store64 (set_value 0x3f00400004 0x3f00500100 one_node) 0x3f00500100 0x20000"

lemma one_area_list: "list_rep 0 one_area 0x3f00500000 [0x3f00400004]"
    "n_value one_area 0x3f00400004 = 0x3f00500100"
proof -
  let ?m = "set_value 0x3f00400004 0x3f00500100 one_node"
  have "list_rep 0 ?m 0x3f00500000 [0x3f00400004]"
    using one_node_rep example_nodes by (simp add: list_rep_def mem_simps)
  moreover have "list_cells 0x3f00500000 [0x3f00400004] \<inter> span 0x3f00500100 8 = {}"
    unfolding list_cells_def Int_Un_distrib2 by (simp add: span_disjoint)
  then have "agree (list_cells 0x3f00500000 [0x3f00400004]) ?m one_area"
    unfolding one_area_def by (intro agree_sym [OF agree_store64]) blast
  ultimately show "list_rep 0 one_area 0x3f00500000 [0x3f00400004]"
    "n_value one_area 0x3f00400004 = 0x3f00500100"
    using list_rep_agree(1,2) by fastforce+
qed

lemma after_free_memory:
  assumes "KERN_PHYBASE + 0x400000 \<le> a" and "unat a + n \<le> unat KERN_PHYSTOP"
  shows "span a n \<inter> initial_free = {}"
proof -
  have "x \<notin> initial_free" if "x \<in> span a n" for x
  proof -
    have "unat (x - a) < n" using that by (simp add: span_iff)
    moreover have "unat (a + (x - a)) = unat a + unat (x - a)"
      using \<open>unat (x - a) < n\<close> assms(2) by (subst unat_add_lem [THEN iffD1]) (simp_all add: word_less_nat_alt)
    ultimately have "unat x = unat a + unat (x - a)" by simp
    then show ?thesis using assms(1)
      by (simp add: initial_free_def word_le_nat_alt word_less_nat_alt)
  qed
  then show ?thesis by blast
qed

lemma one_area_state:
  "allocator initial_free (boot_state\<lparr>mem := one_area\<rparr>)"
  "vm_areas initial_free 0 one_area 0x3f00500000 [0x3f00400004] [0x3f00500100]"
proof -
  have "agree initial_free one_node one_area"
    using after_free_memory [of "0x3f00500100" 8] after_free_memory [of "0x3f00400004" 8]
    unfolding one_area_def set_value_def
    by (intro agree_sym [OF iffD2 [OF agree_store64_iff]]) (simp_all add: agree_store64)
  then show "allocator initial_free (boot_state\<lparr>mem := one_area\<rparr>)"
    using allocator_frame [OF one_node_allocator, of "boot_state\<lparr>mem := one_area\<rparr>"] by simp
  have "list_cells 0x3f00500000 [0x3f00400004] \<inter> initial_free = {}"
    using after_free_memory [of "0x3f00500000" 16] after_free_memory [of "0x3f00400004" 32]
    by (simp add: list_cells_def Int_Un_distrib2)
  moreover have "span 0x3f00500100 40 \<inter> (initial_free \<union> list_cells 0x3f00500000 [0x3f00400004]) = {}"
    using after_free_memory [of "0x3f00500100" 40]
    by (simp add: list_cells_def Int_Un_distrib span_disjoint)
  ultimately show "vm_areas initial_free 0 one_area 0x3f00500000 [0x3f00400004] [0x3f00500100]"
    using one_area_list by (simp add: vm_areas_def)
qed

lemma one_area_fields:
  "area_va one_area 0x3f00500100 = 0x20000" "area_va one_area 0x3f00500200 = 0"
  "area_refcount one_area 0x3f00500200 = 0"
proof -
  have z: "load64 one_node 0x3f00500200 = 0" "load32 one_node 0x3f00500210 = 0"
    by (simp_all add: one_node_eq list_init_def field_defs load64_store64_other load32_store64_other span_disjoint)
      (simp add: load32_def numeral_eq_Suc)
  then show "area_va one_area 0x3f00500100 = 0x20000" "area_va one_area 0x3f00500200 = 0"
    "area_refcount one_area 0x3f00500200 = 0"
    by (simp_all add: one_area_def area_va_def area_refcount_def set_value_def mem_simps
        load64_store64_other load32_store64_other span_disjoint)
qed

lemma new_area_apart:
  "span 0x3f00500200 40 \<inter> (initial_free \<union> list_cells 0x3f00500000 [0x3f00400004]) = {}"
  "\<forall>a\<in>set [0x3f00500100]. span a 40 \<inter> span 0x3f00500200 40 = {}"
  using after_free_memory [of "0x3f00500200" 40]
  by (simp_all add: list_cells_def Int_Un_distrib span_disjoint)

lemma vm_add_area_cycles_witness:
  "\<exists>n u. vm_add_area 0x3f00500000 0x3f00500200 (boot_state\<lparr>mem := one_area\<rparr>) = Some (Inr (0, u)) \<and>
    n_next (mem u) n = 0x3f00400004 \<and> n_next (mem u) 0x3f00400004 = n"
proof -
  have ne: "initial_free \<noteq> {}"
    by (auto simp: initial_free_def intro!: exI [of _ "KERN_PHYBASE + 0x100000"])
  have "vm_areas initial_free 0 (mem (boot_state\<lparr>mem := one_area\<rparr>)) 0x3f00500000 [0x3f00400004] [0x3f00500100]"
    using one_area_state(2) by simp
  from vm_add_area_cycles [OF one_area_state(1) ne this _ new_area_apart] show ?thesis
    by (auto simp: one_area_fields)
qed

lemma vm_add_area_appends_witness:
  "\<exists>n u. vm_add_area 0x3f00500000 0x3f00500200
      (boot_state\<lparr>mem := store64 one_area 0x3f00500200 0x30000\<rparr>) = Some (Inr (0, u)) \<and>
    list_rep 0 (mem u) 0x3f00500000 [0x3f00400004, n] \<and> n_value (mem u) n = 0x3f00500200"
proof -
  let ?m = "store64 one_area 0x3f00500200 0x30000"
  let ?s = "boot_state\<lparr>mem := ?m\<rparr>"
  have out: "agree A one_area ?m" if "span 0x3f00500200 8 \<inter> A = {}" for A
    using that by (intro agree_sym [OF agree_store64]) blast
  have "allocator initial_free ?s"
    using allocator_frame [OF one_area_state(1), of ?s] out [of initial_free]
      after_free_memory [of "0x3f00500200" 8] by simp
  moreover have cells: "agree (list_cells 0x3f00500000 [0x3f00400004]) one_area ?m"
    using new_area_apart(1) span_mono [of 8 40 "0x3f00500200"] by (intro out) auto
  have "vm_areas initial_free 0 (mem ?s) 0x3f00500000 [0x3f00400004] [0x3f00500100]"
    using one_area_state(2) list_rep_agree(1,2) [OF cells one_area_list(1)] by (simp add: vm_areas_def)
  moreover have "area_va ?m 0x3f00500200 = 0x30000" "area_va ?m 0x3f00500100 = 0x20000"
    "area_refcount ?m 0x3f00500200 = 0"
    using one_area_fields
    by (simp_all add: area_va_def area_refcount_def mem_simps load64_store64_other load32_store64_other span_disjoint)
  moreover have ne: "initial_free \<noteq> {}"
    by (auto simp: initial_free_def intro!: exI [of _ "KERN_PHYBASE + 0x100000"])
  ultimately show ?thesis
    using vm_add_area_appends [OF _ _ new_area_apart, of ?s 0] by (auto simp: vm_areas_def)
qed

subsection \<open>Releasing an area\<close>

text \<open>
  \<open>owned_area F m a xs ps\<close>: the area \<open>a\<close> is a block of \<open>kmalloc\<close>, its list has the nodes
  \<open>xs\<close>, which are such blocks too, and the frames \<open>ps\<close>; these pages are pairwise
  different and none of them is free.
\<close>

definition owned_area :: "u64 set \<Rightarrow> memory \<Rightarrow> u64 \<Rightarrow> u64 list \<Rightarrow> u64 list \<Rightarrow> bool" where
  "owned_area F m a xs ps \<longleftrightarrow>
     (\<exists>q. list_rep q m (area_pages a) xs) \<and> map (n_value m) xs = ps \<and>
     (\<forall>x\<in>set (a # xs). area_ok 0 (x - 4) \<and> load32 m (x - 4) = 0) \<and>
     (\<forall>p\<in>set ps. area_ok 0 p) \<and> distinct (map (\<lambda>x. x - 4) (a # xs) @ ps) \<and>
     (pages (set ps) \<union> (\<Union>x\<in>set (a # xs). node_page x)) \<inter> F = {}"

lemma owned_areaD:
  assumes "owned_area F m a xs ps"
  shows "owned_nodes F m xs" and "pages (set ps) \<inter> (F \<union> (\<Union>x\<in>set (a # xs). node_page x)) = {}"
    and "node_page a \<inter> (F \<union> (\<Union>x\<in>set xs. node_page x)) = {}"
    and "span (area_pages a) 16 \<subseteq> node_page a" and "list_cells (area_pages a) xs \<subseteq> (\<Union>x\<in>set (a # xs). node_page x)"
    and "span a 40 \<subseteq> node_page a" and "span a 40 \<inter> span (a - 4) 4 = {}"
proof -
  have xs: "\<forall>x\<in>set (a # xs). area_ok 0 (x - 4) \<and> load32 m (x - 4) = 0" "\<forall>p\<in>set ps. area_ok 0 p"
    "distinct (map (\<lambda>x. x - 4) (a # xs) @ ps)"
    "(pages (set ps) \<union> (\<Union>x\<in>set (a # xs). node_page x)) \<inter> F = {}"
    using assms unfolding owned_area_def by blast+
  show "owned_nodes F m xs" using xs by (fastforce simp: owned_nodes_def distinct_map)
  have "area 0 p \<inter> node_page x = {}" if "p \<in> set ps" "x \<in> set (a # xs)" for p x
    unfolding node_page_def using xs that by (intro pages_disjoint) auto
  then show "pages (set ps) \<inter> (F \<union> (\<Union>x\<in>set (a # xs). node_page x)) = {}"
    using xs(4) unfolding pages_def by fastforce
  have "node_page a \<inter> node_page x = {}" if "x \<in> set xs" for x
    using xs that by (intro node_pages_disjoint) auto
  then show "node_page a \<inter> (F \<union> (\<Union>x\<in>set xs. node_page x)) = {}" using xs(4) by fastforce
  have e: "a = (a - 4) + 4" "a + 24 = (a - 4) + 28" by simp_all
  show *: "span (area_pages a) 16 \<subseteq> node_page a"
    unfolding area_pages_def node_page_def area_def e(2) by (rule span_shift_subset) simp
  show "list_cells (area_pages a) xs \<subseteq> (\<Union>x\<in>set (a # xs). node_page x)"
    using * node_in_page unfolding list_cells_def by fastforce
  have "span ((a - 4) + 4) 40 \<subseteq> node_page a"
    unfolding node_page_def area_def by (rule span_shift_subset) simp
  then show "span a 40 \<subseteq> node_page a" by simp
  have "span ((a - 4) + 4) 40 \<inter> span (a - 4) 4 = {}" by (rule span_disjoint_base) simp_all
  then show "span a 40 \<inter> span (a - 4) 4 = {}" by simp
qed

lemma free_frames_ok:
  assumes al: "allocator F s" and rep: "list_rep q (mem s) l xs"
    and fr: "\<forall>p\<in>set (map (n_value (mem s)) xs). area_ok 0 p" "distinct (map (n_value (mem s)) xs)"
    and sep: "pages (set (map (n_value (mem s)) xs)) \<inter> (F \<union> list_cells l xs) = {}" "list_cells l xs \<inter> F = {}"
  shows "\<exists>t. list_foreach (\<lambda>page. free_pages \<lparr>address = page, order = 0\<rparr>) l s = Some (Inr ((), t)) \<and>
    allocator (F \<union> pages (set (map (n_value (mem s)) xs))) t \<and>
    agree (- (F \<union> pages (set (map (n_value (mem s)) xs)))) (mem s) (mem t) \<and> same_rest s t"
proof -
  let ?v = "n_value (mem s)" and ?ps = "map (n_value (mem s)) xs"
  let ?body = "\<lambda>page. free_pages \<lparr>address = page, order = 0\<rparr>"
  define Inv where "Inv ys u \<longleftrightarrow> (\<exists>zs. xs = zs @ ys \<and> allocator (F \<union> pages (set (map ?v zs))) u \<and>
      agree (- (F \<union> pages (set ?ps))) (mem s) (mem u) \<and> same_rest s u)" for ys and u :: "'a mm_state_scheme"
  have seg: "nseg (mem s) l q (l_first (mem s) l) xs 0" using rep by (simp add: list_rep_def)
  have "Inv xs s" using al unfolding Inv_def by (intro exI [of _ "[]"]) simp
  then obtain t where t: "list_foreach_from ?body (nhead xs) s = Some (Inr ((), t))" "Inv [] t"
  proof (atomize_elim, rule list_foreach_from_rule [rotated])
    fix x ys and u :: "'a mm_state_scheme"
    assume "Inv (x # ys) u"
    then obtain zs where z: "xs = zs @ x # ys" "allocator (F \<union> pages (set (map ?v zs))) u"
      "agree (- (F \<union> pages (set ?ps))) (mem s) (mem u)" "same_rest s u" unfolding Inv_def by blast
    have x: "x \<noteq> 0" "?v x \<in> set ?ps" "?v x \<notin> set (map ?v zs)"
      using nseg_nonzero [OF seg, of x] fr(2) z(1) by auto
    have cells: "agree (list_cells l xs) (mem s) (mem w)"
      if "agree (- (F \<union> pages (set ?ps))) (mem s) (mem w)" for w :: "'a mm_state_scheme"
      by (rule agree_mono [OF that]) (use sep in blast)
    have val: "n_value (mem u) x = ?v x"
      using list_rep_agree(2) [OF cells [OF z(3)] rep] z(1) by auto
    have ok: "area_ok 0 (?v x)" using fr(1) x(2) by blast
    have "pages {?v x} \<inter> pages (set (map ?v zs)) = {}"
      using fr(1) x z(1) by (intro pages_Int_empty) auto
    moreover have "area 0 (?v x) \<inter> F = {}" using sep(1) x(2) unfolding pages_def by blast
    ultimately have dis: "area 0 (?v x) \<inter> (F \<union> pages (set (map ?v zs))) = {}" by auto
    from free_pages_ok [OF z(2) ok dis] obtain w where
      w: "free_pages \<lparr>address = ?v x, order = 0\<rparr> u = Some (Inr ((), w))"
        "released 0 (?v x) (F \<union> pages (set (map ?v zs))) u w" by blast
    have "F \<union> pages (set (map ?v zs)) \<union> area 0 (?v x) \<subseteq> F \<union> pages (set ?ps)"
      using z(1) by (auto simp: pages_def)
    then have "agree (- (F \<union> pages (set ?ps))) (mem u) (mem w)"
      using w(2) by (auto simp: released_def elim!: agree_mono)
    with z(3) have ag: "agree (- (F \<union> pages (set ?ps))) (mem s) (mem w)" by (rule agree_trans)
    have "allocator (F \<union> pages (set (map ?v (zs @ [x])))) w"
      using w(2) by (simp add: released_def Un_commute Un_left_commute)
    moreover have "same_rest s w" using z(4) w(2) same_rest_trans by (auto simp: released_def)
    ultimately have "Inv ys w" unfolding Inv_def using z(1) ag by (intro exI [of _ "zs @ [x]"]) simp
    moreover have "n_next (mem w) x = nhead ys"
      using list_rep_agree(4) [OF cells [OF ag] rep, of x] z(1) nseg_nexts [OF seg]
      by (auto simp: nseg_append dest: nseg_nhead)
        (metis nexts.simps(2) nseg.simps(2) nseg_append nseg_nhead seg z(1))
    ultimately show "x \<noteq> 0 \<and> (\<exists>t. ?body (n_value (mem u) x) u = Some (Inr ((), t)) \<and> Inv ys t \<and>
        n_next (mem t) x = nhead ys)" using x(1) w(1) val by simp
  qed
  moreover have "l_first (mem s) l = nhead xs" using nseg_nhead [OF seg] .
  ultimately show ?thesis using t(2) unfolding Inv_def list_foreach_def by auto
qed

lemma decref_ok:
  assumes "area_va (mem s) a mod PAGE_SIZE = 0"
  shows "vm_area_decref a s =
    (let t = s\<lparr>mem := set_area_refcount a (area_refcount (mem s) a - 1) (mem s)\<rparr>
     in if area_refcount (mem s) a = 1 then vm_area_destroy a t else Some (Inr ((), t)))"
proof -
  have r: "area_refcount (set_area_refcount a v m) a = v" for v m
    by (simp add: area_refcount_def set_area_refcount_def mem_simps)
  show ?thesis
    using assms by (simp add: vm_area_decref_def vm_area_check_alignment_def kthen_def kbind_def Let_def r)
qed

lemma vm_area_destroy_ok:
  assumes al: "allocator F s" and own: "owned_area F (mem s) a xs ps"
  shows "\<exists>t. vm_area_destroy a s = Some (Inr ((), t)) \<and>
    allocator (F \<union> pages (set ps) \<union> (\<Union>x\<in>set (a # xs). node_page x)) t \<and> same_rest s t \<and>
    agree (- (F \<union> pages (set ps) \<union> (\<Union>x\<in>set (a # xs). node_page x))) (mem s) (mem t)"
proof -
  let ?l = "area_pages a" and ?P = "pages (set ps)" and ?N = "\<Union>x\<in>set xs. node_page x"
  note d = owned_areaD [OF own]
  obtain q where rep: "list_rep q (mem s) ?l xs" and vals: "map (n_value (mem s)) xs = ps"
    and a: "area_ok 0 (a - 4)" "load32 (mem s) (a - 4) = 0"
    and fr: "\<forall>p\<in>set ps. area_ok 0 p" "distinct ps" and F: "(?P \<union> (\<Union>x\<in>set (a # xs). node_page x)) \<inter> F = {}"
    using own unfolding owned_area_def by auto
  have cF: "list_cells ?l xs \<inter> F = {}" "?P \<inter> (F \<union> list_cells ?l xs) = {}" using d(2,5) F by blast+
  obtain t where t: "list_foreach (\<lambda>page. free_pages \<lparr>address = page, order = 0\<rparr>) ?l s = Some (Inr ((), t))"
    "allocator (F \<union> ?P) t" "agree (- (F \<union> ?P)) (mem s) (mem t)" "same_rest s t"
    using free_frames_ok [OF al rep] fr cF unfolding vals by blast
  have "agree (list_cells ?l xs) (mem s) (mem t)" by (rule agree_mono [OF t(3)]) (use cF in blast)
  from list_rep_agree(1) [OF this rep] have rep': "list_rep q (mem t) ?l xs" .
  have hdr: "load32 (mem t) (x - 4) = 0" if "x \<in> set (a # xs)" for x
  proof -
    have "span (x - 4) 4 \<subseteq> node_page x" unfolding node_page_def area_def by (rule span_mono) simp
    then have "span (x - 4) 4 \<subseteq> - (F \<union> ?P)" using F d(2) that by blast
    from agree_load32 [OF t(3) this] show ?thesis using own that unfolding owned_area_def by auto
  qed
  have own': "owned_nodes (F \<union> ?P) (mem t) xs"
    using d(1,2) hdr unfolding owned_nodes_def by auto
  have "span ?l 16 \<inter> (F \<union> ?P \<union> ?N) = {}" using d(2-4) by auto
  from list_destroy_ok [OF t(2) rep' own' this] obtain u where
    u: "list_destroy ?l t = Some (Inr ((), u))" "allocator (F \<union> ?P \<union> ?N) u"
      "agree (- (F \<union> ?P \<union> ?N \<union> span ?l 16)) (mem t) (mem u)" "same_rest t u" by blast
  have na: "node_page a \<inter> (F \<union> ?P \<union> ?N) = {}" using d(2,3) by auto
  have "span (a - 4) 4 \<subseteq> node_page a" unfolding node_page_def area_def by (rule span_mono) simp
  moreover have "span ?l 16 \<inter> span (a - 4) 4 = {}"
    using d(7) span_shift_subset [of 24 16 40 a] by (auto simp: area_pages_def)
  ultimately have "span (a - 4) 4 \<subseteq> - (F \<union> ?P \<union> ?N \<union> span ?l 16)" using na by auto
  from agree_load32 [OF u(3) this] hdr [of a] have "load32 (mem u) (a - 4) = of_nat 0" by simp
  from kfree_releases [OF u(2) a(1) _ this] na obtain v where
    v: "kfree a u = Some (Inr ((), v))" "released 0 (a - 4) (F \<union> ?P \<union> ?N) u v"
    by (auto simp: node_page_def)
  have "vm_area_destroy a s = Some (Inr ((), v))"
    using t(1) u(1) v(1) by (simp add: vm_area_destroy_def kthen_Inr)
  moreover have "allocator (F \<union> ?P \<union> (\<Union>x\<in>set (a # xs). node_page x)) v"
    using v(2) by (simp add: released_def node_page_def Un_ac)
  moreover have "same_rest u v" using v(2) by (simp add: released_def)
  from same_rest_trans [OF same_rest_trans [OF t(4) u(4)] this] have "same_rest s v" .
  moreover have "agree (- (F \<union> ?P \<union> (\<Union>x\<in>set (a # xs). node_page x))) (mem s) (mem v)"
  proof -
    have e: "F \<union> ?P \<union> (\<Union>x\<in>set (a # xs). node_page x) = F \<union> ?P \<union> ?N \<union> node_page a" by auto
    have "agree (- (F \<union> ?P \<union> ?N \<union> node_page a) \<union> page_bodies) (mem u) (mem v)"
      using v(2) unfolding released_def node_page_def by blast
    note v3 = agree_mono [OF this Un_upper1]
    show ?thesis unfolding e
      by (rule agree_trans [OF agree_mono [OF t(3)] agree_trans [OF agree_mono [OF u(3)] v3]]) (use d(4) in blast)+
  qed
  ultimately show ?thesis by blast
qed

lemma vm_area_decref_ok:
  assumes "allocator F s" and "owned_area F (mem s) a xs ps" and "area_va (mem s) a mod PAGE_SIZE = 0"
  shows "\<exists>t. vm_area_decref a s = Some (Inr ((), t)) \<and> same_rest s t \<and>
    (if area_refcount (mem s) a = 1
     then allocator (F \<union> pages (set ps) \<union> (\<Union>x\<in>set (a # xs). node_page x)) t \<and>
       agree (- (F \<union> pages (set ps) \<union> (\<Union>x\<in>set (a # xs). node_page x))) (mem s) (mem t)
     else allocator F t \<and> owned_area F (mem t) a xs ps \<and>
       area_refcount (mem t) a = area_refcount (mem s) a - 1 \<and> agree (- span a 40) (mem s) (mem t))"
proof -
  let ?t = "s\<lparr>mem := set_area_refcount a (area_refcount (mem s) a - 1) (mem s)\<rparr>"
  note d = owned_areaD [OF assms(2)]
  have "span (a + 16) 4 \<subseteq> span a 40" by (rule span_shift_subset) simp
  have out: "agree (- span (a + 16) 4) (mem s) (mem ?t)"
    by (simp add: set_area_refcount_def) (rule agree_sym [OF agree_store32], blast)
  have a4: "span (a + 16) 4 \<subseteq> span a 40" by (rule span_shift_subset) simp
  have aF: "span (a + 16) 4 \<inter> F = {}" using a4 d(3,6) by blast
  have "agree F (mem s) (mem ?t)" by (rule agree_mono [OF out]) (use aF in blast)
  from allocator_frame [OF assms(1) this] have al: "allocator F ?t" by simp
  have cells: "list_cells (area_pages a) xs \<inter> span (a + 16) 4 = {}"
  proof -
    have "span (a + 24) 16 \<inter> span (a + 16) 4 = {}" by (rule span_disjoint_offsets) simp_all
    moreover have "node_page x \<inter> span (a + 16) 4 = {}" if "x \<in> set xs" for x
      using that a4 d(3,6) by blast
    ultimately show ?thesis using node_in_page unfolding list_cells_def area_pages_def by blast
  qed
  have hdr: "span (x - 4) 4 \<inter> span (a + 16) 4 = {}" if "x \<in> set (a # xs)" for x
  proof (cases "x = a")
    case True
    with d(7) a4 show ?thesis by blast
  next
    case False
    have "span (x - 4) 4 \<subseteq> node_page x" unfolding node_page_def area_def by (rule span_mono) simp
    moreover have "node_page x \<inter> node_page a = {}" using False that d(3) by auto
    ultimately show ?thesis using a4 d(6) by blast
  qed
  have own: "owned_area F (mem ?t) a xs ps"
  proof -
    obtain q where rep: "list_rep q (mem s) (area_pages a) xs" using assms(2) by (auto simp: owned_area_def)
    have "agree (list_cells (area_pages a) xs) (mem s) (mem ?t)"
      by (rule agree_mono [OF out]) (use cells in blast)
    note keep = list_rep_agree(1,2) [OF this rep]
    have "load32 (mem ?t) (x - 4) = load32 (mem s) (x - 4)" if "x \<in> set (a # xs)" for x
    proof -
      have "span (x - 4) 4 \<subseteq> - span (a + 16) 4" using hdr [OF that] by blast
      from agree_load32 [OF out this] show ?thesis by simp
    qed
    with assms(2) keep show ?thesis unfolding owned_area_def by auto
  qed
  show ?thesis
  proof (cases "area_refcount (mem s) a = 1")
    case True
    obtain u where "vm_area_destroy a ?t = Some (Inr ((), u))" "same_rest ?t u"
      "allocator (F \<union> pages (set ps) \<union> (\<Union>x\<in>set (a # xs). node_page x)) u"
      "agree (- (F \<union> pages (set ps) \<union> (\<Union>x\<in>set (a # xs). node_page x))) (mem ?t) (mem u)"
      using vm_area_destroy_ok [OF al own] by blast
    moreover from this(2) have "same_rest s u" by (intro same_rest_trans [OF _ \<open>same_rest ?t u\<close>]) simp
    moreover have "agree (- (F \<union> pages (set ps) \<union> (\<Union>x\<in>set (a # xs). node_page x))) (mem s) (mem ?t)"
      by (rule agree_mono [OF out]) (use a4 d(6) in auto)
    moreover from agree_trans [OF this \<open>agree _ (mem ?t) (mem u)\<close>]
    have "agree (- (F \<union> pages (set ps) \<union> (\<Union>x\<in>set (a # xs). node_page x))) (mem s) (mem u)" .
    ultimately show ?thesis using True decref_ok [OF assms(3)] by (simp add: Let_def del: Compl_Un)
  next
    case False
    have "area_refcount (mem ?t) a = area_refcount (mem s) a - 1"
      by (simp add: area_refcount_def set_area_refcount_def mem_simps)
    moreover have "agree (- span a 40) (mem s) (mem ?t)" by (simp add: refcount_frame)
    ultimately show ?thesis using False decref_ok [OF assms(3)] al own by (simp add: Let_def)
  qed
qed

text \<open>
  Property C31. \<open>vm_area_decref\<close> on an area with several references only lowers the count; with
  the last reference it terminates and returns exactly the frames, the list nodes and the
  block of the area itself to the allocator.
\<close>
theorem vm_area_decref_correct:
  assumes "allocator F s" and "owned_area F (mem s) a xs ps" and "area_va (mem s) a mod PAGE_SIZE = 0"
  shows "\<exists>t. vm_area_decref a s = Some (Inr ((), t)) \<and> same_rest s t \<and>
    (if area_refcount (mem s) a = 1
     then allocator (F \<union> pages (set ps) \<union> (\<Union>x\<in>set (a # xs). node_page x)) t
     else allocator F t \<and> owned_area F (mem t) a xs ps \<and>
       area_refcount (mem t) a = area_refcount (mem s) a - 1 \<and> agree (- span a 40) (mem s) (mem t))"
  using vm_area_decref_ok [OF assms] by (auto split: if_splits)

lemma vm_area_decref_correct_witness:
  "\<exists>m t. area_refcount m 0x3f00400004 = 1 \<and>
    vm_area_decref 0x3f00400004 (boot_state\<lparr>mem := m\<rparr>) = Some (Inr ((), t)) \<and>
    allocator (initial_free \<union> area 0 0x3f00402000 \<union> area 0 0x3f00400000 \<union> area 0 0x3f00401000) t"
proof -
  let ?a = "0x3f00400004" and ?n = "0x3f00401004"
  let ?l = "area_pages ?a"
  let ?m0 = "store32 (\<lambda>_. 0) (?a + 16) 1"
  let ?m1 = "set_first ?l ?n (set_last ?l ?n (set_prev ?n 0 (set_list ?n ?l (set_value ?n 0x3f00402000 ?m0))))"
  have off: "off_list ?l ?n" by (simp add: off_list_def area_pages_def span_disjoint)
  have nx: "n_next ?m0 ?n = 0"
    by (simp add: field_defs load64_store32_other span_disjoint)
  have rep: "list_rep 0 ?m1 ?l [?n]" "n_value ?m1 ?n = 0x3f00402000"
    using off nx by (simp_all add: list_rep_def separate_nodes_def mem_simps) (simp_all add: area_pages_def)
  have z: "load64 (\<lambda>_. 0) x = 0" "load32 (\<lambda>_. 0) x = 0" for x
    by (simp_all add: load32_def numeral_eq_Suc)
  have flds: "area_va ?m1 ?a = 0" "area_refcount ?m1 ?a = 1" "load32 ?m1 0x3f00400000 = 0" "load32 ?m1 0x3f00401000 = 0"
    by (simp_all add: area_va_def area_refcount_def area_pages_def field_defs z mem_simps span_disjoint)
  have ok: "area_ok 0 0x3f00400000" "area_ok 0 0x3f00401000" "area_ok 0 0x3f00402000"
    by (rule area_ok_compute; simp)+
  have out: "span x n \<inter> initial_free = {}" if "KERN_PHYBASE + 0x400000 \<le> x" "unat x + n \<le> 0x3f00500000" for x n
    using that by (intro after_free_memory) simp_all
  let ?s = "boot_state\<lparr>mem := ?m1\<rparr>"
  have "agree initial_free (\<lambda>_. 0) ?m1"
    using out [of "0x3f0040001c" 16] out [of "0x3f00401004" 32] out [of "0x3f00400014" 4]
    by (intro list_write_frame node_write_frame agree_sym [OF agree_store32]) (auto simp: area_pages_def)
  then have al: "allocator initial_free ?s"
    using allocator_frame [OF boot_state_allocator, of ?s] by (simp add: boot_state_def)
  have pg: "pages {0x3f00402000} \<inter> initial_free = {}" "node_page ?a \<inter> initial_free = {}" "node_page ?n \<inter> initial_free = {}"
    using out [of _ 4096] by (simp_all add: node_page_def area_def)
  have own: "owned_area initial_free (mem ?s) ?a [?n] [0x3f00402000]"
    using rep flds ok pg by (auto simp: owned_area_def)
  have va: "area_va (mem ?s) ?a mod PAGE_SIZE = 0" "area_refcount (mem ?s) ?a = 1" using flds by simp_all
  let ?G = "initial_free \<union> pages (set [0x3f00402000]) \<union> (\<Union>x\<in>set [?a, ?n]. node_page x)"
  have "?G = initial_free \<union> area 0 0x3f00402000 \<union> area 0 0x3f00400000 \<union> area 0 0x3f00401000"
    by (auto simp: node_page_def)
  with vm_area_decref_correct [OF al own va(1)] va(2) obtain t where
    "vm_area_decref ?a ?s = Some (Inr ((), t))"
    "allocator (initial_free \<union> area 0 0x3f00402000 \<union> area 0 0x3f00400000 \<union> area 0 0x3f00401000) t" by metis
  with flds(2) show ?thesis by blast
qed

text \<open>
  \<open>vm_find\<close> terminates on a list of areas and returns the first one whose range
  holds the address, the byte behind its end included, or null if there is none.
\<close>
theorem vm_find_correct:
  assumes "list_rep q m l xs"
  shows "vm_find m l va = Some
    (case find (\<lambda>a. area_va m a \<le> va \<and> va \<le> vm_area_end_va m a) (map (n_value m) xs) of
       None \<Rightarrow> 0 | Some a \<Rightarrow> a)"
proof -
  have "nseg m l q (l_first m l) xs 0" using assms by (simp add: list_rep_def)
  from vm_find_from_list [OF this, of va]
  have "vm_find m l va = Some (case find (\<lambda>n. vm_area_in m (n_value m n) va) xs of
      None \<Rightarrow> 0 | Some n \<Rightarrow> n_value m n)" by (simp add: vm_find_def)
  moreover have "vm_area_in m a va \<longleftrightarrow> area_va m a \<le> va \<and> va \<le> vm_area_end_va m a" for a
    by (simp add: vm_area_in_def vm_area_end_va_def)
  moreover have "find P (map f ys) = map_option f (find (P \<circ> f) ys)" for P and f :: "u64 \<Rightarrow> u64" and ys
    by (induction ys) auto
  ultimately show ?thesis by (auto simp: comp_def split: option.splits)
qed

lemma vm_find_correct_witness:
  "vm_find one_area 0x3f00500000 0x20000 = Some 0x3f00500100 \<and> vm_find one_area 0x3f00500000 0x1ffff = Some 0"
proof -
  have "area_n_pages one_area 0x3f00500100 = 0"
    by (simp add: area_n_pages_def one_area_def one_node_eq list_init_def field_defs load64_store64_other span_disjoint)
  then show ?thesis
    using vm_find_correct [OF one_area_list(1), of "0x20000"] vm_find_correct [OF one_area_list(1), of "0x1ffff"]
    by (simp add: one_area_list(2) one_area_fields vm_area_end_va_def)
qed

text \<open>
  Whatever the permissions of an area, \<open>pte_flags_from_vm_flags\<close> makes its pages
  readable, writable and executable for the user.
\<close>
theorem pte_flags_from_vm_flags_all:
  "pte_flags_from_vm_flags f = PTE_VALID OR PTE_USER OR PTE_READ OR PTE_WRITE OR PTE_EXEC"
  using vm_flags_or [of f] by (simp add: pte_flags_from_vm_flags_def Let_def del: VM_READ_def VM_WRITE_def VM_EXEC_def)

end
