(* ===== verification/Sched.thy ===== *)
theory Sched
  imports Vm
begin

section \<open>Tasks and the scheduler (sched.c, trap.h, irq.c)\<close>

text \<open>
  The scheduler's operations on the state of \<^verbatim>\<open>Thread\<close>.

  A function that does not return (\<open>__noreturn\<close>) ends in a \<open>dispatch\<close>: what the processor
  runs next. A function that may switch to another thread has a \<open>progress\<close>; when the thread
  is resumed it goes on behind its \<open>ksetjmp\<close>, as the comment of each function says. The
  switch of the stack pointer in \<open>schedule\<close> is the new thread's own stack in the model. The
  message of \<open>sched_init\<close> is printed in \<^verbatim>\<open>Boot\<close>, that of a task that faults in \<^verbatim>\<open>Syscall\<close>; those under \<open>DEBUG_SCHED\<close> and
  \<open>DEBUG_KERN_STACK\<close> are not compiled.
\<close>

subsection \<open>Return to the user\<close>

definition return_to_user :: "('a cpu_state_scheme, dispatch) kern" where
  "return_to_user =
     kbind read_sstatus (\<lambda>v.
     kthen (write_sstatus (put_bit 5 True (put_bit 1 False (set_field 8 1 0 v))))
       (kreturn Enter_user))"

subsection \<open>The scheduler\<close>

definition sched_init :: "symbols \<Rightarrow> ('a sched_state_scheme, unit) kern" where
  "sched_init G =
     kthen (write_mem (list_init (sym_tasks G)))
       (kmodify (\<lambda>s. s\<lparr>current_task_node := 0, current_task := 0\<rparr>))"

definition idle :: "('a cpu_state_scheme, dispatch) kern" where
  "idle = kthen enable_interrupts (kreturn Idle)"

text \<open>The second half of \<open>do_schedule\<close>: the page table of the task, then its mode.\<close>

definition load_table :: "u64 \<Rightarrow> ('a cpu_state_scheme, unit) kern" where
  "load_table table =
     kbind (kgets (\<lambda>s. satp_from_table (early s) table)) (\<lambda>r.
       case r of
         Inl msg \<Rightarrow> kpanic msg
       | Inr v \<Rightarrow> kmodify (\<lambda>s. if v \<noteq> satp s then s\<lparr>satp := v\<rparr> else s))"

definition enter_task :: "symbols \<Rightarrow> u64 \<Rightarrow> ('a sched_state_scheme, dispatch) kern" where
  "enter_task G task =
     kbind (kgets (\<lambda>s. t_mode (mem s) task)) (\<lambda>mode.
       if mode = MODE_SUPERVISOR then klongjmp (t_kernel_frame task)
       else if mode = MODE_USER
       then kthen (write_mem (copy_cpu (sym_trapframe G) (t_user_frame task))) return_to_user
       else kpanic ''invalid task mode'')"

definition do_schedule :: "symbols \<Rightarrow> ('a sched_state_scheme, dispatch) kern" where
  "do_schedule G =
     kbind (kgets (\<lambda>s. current_task_node s = 0)) (\<lambda>ok.
     kthen (kassert ok ''schedule: current_task_node not null'')
    (kbind (kgets (\<lambda>s. current_task s = 0)) (\<lambda>ok.
     kthen (kassert ok ''schedule: current_task not null'')
    (kbind (kgets (\<lambda>s. list_shift (sym_tasks G) (mem s))) (\<lambda>(node, m).
     kthen (kmodify (\<lambda>s. s\<lparr>mem := m, current_task_node := node\<rparr>))
       (if node = 0 then idle
        else
          kthen (kmodify (\<lambda>s. s\<lparr>current_task := n_value (mem s) node\<rparr>))
         (kbind (kgets (\<lambda>s. (current_task s, t_page_table (mem s) (current_task s)))) (\<lambda>(task, table).
          kthen (load_table table) (enter_task G task)))))))))"

definition schedule :: "symbols \<Rightarrow> ('a sched_state_scheme, dispatch) kern" where
  "schedule G = do_schedule G"

definition schedule_next :: "symbols \<Rightarrow> ('a sched_state_scheme, dispatch) kern" where
  "schedule_next G =
     kthen (kmodify (\<lambda>s. s\<lparr>mem := list_push (sym_tasks G) (current_task_node s) (mem s)\<rparr>))
    (kthen (kmodify (\<lambda>s. s\<lparr>current_task := 0, current_task_node := 0\<rparr>)) (schedule G))"

text \<open>\<open>wait\<close> always switches; its caller goes on when the thread is resumed.\<close>

definition wait :: "symbols \<Rightarrow> u64 \<Rightarrow> ('a sched_state_scheme, dispatch) kern" where
  "wait G grp =
     kthen (kassert (grp \<noteq> 0) ''waiting on NULL group'')
    (kbind (kgets (\<lambda>s. current_task_node s \<noteq> 0)) (\<lambda>ok.
     kthen (kassert ok ''NULL task waiting'')
    (kthen (kmodify (\<lambda>s. s\<lparr>mem := list_push grp (current_task_node s) (mem s)\<rparr>))
    (kthen (kmodify (\<lambda>s. s\<lparr>mem := set_t_mode (current_task s) MODE_SUPERVISOR (mem s)\<rparr>))
    (kbind (kgets current_task) (\<lambda>task.
     kthen (ksetjmp G (t_kernel_frame task))
    (kthen (kmodify (\<lambda>s. s\<lparr>current_task := 0, current_task_node := 0\<rparr>)) (schedule G))))))))"

partial_function (option) wakeup_loop :: "symbols \<Rightarrow> u64 \<Rightarrow> memory \<Rightarrow> memory option" where
  "wakeup_loop G grp m =
     (let (node, m') = list_shift grp m in
      if node = 0 then Some m' else wakeup_loop G grp (list_push (sym_tasks G) node m'))"

definition wakeup :: "symbols \<Rightarrow> u64 \<Rightarrow> ('a mm_state_scheme, unit) kern" where
  "wakeup G grp =
     kbind (kwalk (\<lambda>s. wakeup_loop G grp (mem s))) (\<lambda>m. kmodify (\<lambda>s. s\<lparr>mem := m\<rparr>))"

subsection \<open>Tasks\<close>

definition task_init_sched :: "symbols \<Rightarrow> u64 \<Rightarrow> ('a sched_state_scheme, int) kern" where
  "task_init_sched G task =
     kthen (write_mem (list_init (t_vm_areas task)))
    (kthen (write_mem (set_t_mode task MODE_SUPERVISOR))
    (kthen (write_mem (\<lambda>m. set_cpu_register (t_kernel_frame task) REG_SP (t_kernel_stack m task + PAGE_SIZE) m))
    (kthen (write_mem (set_cpu_register (t_kernel_frame task) REG_A0 task))
    (kthen (write_mem (set_cpu_pc (t_kernel_frame task) (sym_task_entry G)))
    (kbind (list_node_create task) (\<lambda>node.
       if node = 0 then kreturn (- ENOMEM)
       else
         kthen (write_mem (set_t_sched task node))
        (kthen (write_mem (list_push (sym_tasks G) node)) (kreturn 0))))))))"

text \<open>
  The labels of \<open>task_create\<close>: each is entered from one failure and falls through to the
  next. \<open>retval\<close> is still \<open>task\<close> when the stack or the table cannot be allocated.
\<close>

definition task_create :: "symbols \<Rightarrow> u64 \<Rightarrow> ('a sched_state_scheme, u64) kern" where
  "task_create G parent =
     kbind (kmalloc 592) (\<lambda>task.
       if task = 0 then kreturn (ERR_PTR (of_int ENOMEM))
       else
         kthen (kmodify (\<lambda>s. s\<lparr>mem := set_t_pid task (next_task_id s) (mem s), next_task_id := next_task_id s + 1\<rparr>))
        (kthen (write_mem (set_t_parent task parent))
        (kbind (alloc_pages 0) (\<lambda>p.
           let stack = address p in
           if stack = 0 then kthen (kfree task) (kreturn task)
           else
             kthen (write_mem (set_t_kernel_stack task stack))
            (kbind create_page_table (\<lambda>table.
             kthen (write_mem (set_t_page_table task table))
               (if table = 0
                then kthen (free_pages \<lparr>address = stack, order = 0\<rparr>) (kthen (kfree task) (kreturn task))
                else
                  kbind (task_init_sched G task) (\<lambda>ret.
                    if ret \<noteq> 0
                    then kbind (kgets (\<lambda>s. t_page_table (mem s) task)) (\<lambda>table.
                         kthen (destroy_page_table table)
                        (kthen (free_pages \<lparr>address = stack, order = 0\<rparr>)
                        (kthen (kfree task) (kreturn (ERR_PTR (of_int (- ret)))))))
                    else kreturn task))))))))"

definition task_destroy_sched :: "u64 \<Rightarrow> ('a sched_state_scheme, unit) kern" where
  "task_destroy_sched task =
     kthen (vm_decref_all (t_vm_areas task))
    (kthen (write_mem (\<lambda>m. list_remove (t_sched m task) m))
    (kbind (kgets (\<lambda>s. t_sched (mem s) task)) kfree))"

definition task_reinit :: "symbols \<Rightarrow> u64 \<Rightarrow> ('a sched_state_scheme, int) kern" where
  "task_reinit G task =
     kthen (task_destroy_sched task)
    (kbind (kgets (\<lambda>s. t_page_table (mem s) task)) (\<lambda>table.
     kthen (unset_user_pages table) (task_init_sched G task)))"

text \<open>\<open>task_destroy\<close> does not return when it destroys the running task.\<close>

definition task_destroy :: "symbols \<Rightarrow> u64 \<Rightarrow> ('a sched_state_scheme, unit progress) kern" where
  "task_destroy G task =
     kbind (kgets (\<lambda>s. t_pid (mem s) task)) (\<lambda>pid.
       if pid = 1 then kpanic ''attempting to kill init''
       else
         kthen (task_destroy_sched task)
        (kbind (kgets (\<lambda>s. t_page_table (mem s) task)) (\<lambda>table.
         kthen (destroy_page_table table)
        (kbind (kgets (\<lambda>s. t_kernel_stack (mem s) task)) (\<lambda>stack.
         kthen (free_pages \<lparr>address = stack, order = 0\<rparr>)
        (kthen (kfree task)
        (kbind (kgets (\<lambda>s. task = current_task s)) (\<lambda>cur.
           if cur
           then kthen (kmodify (\<lambda>s. s\<lparr>current_task := 0, current_task_node := 0\<rparr>))
                  (kbind (schedule G) (\<lambda>d. kreturn (Switch d)))
           else kreturn (Done ())))))))))"

definition task_clone :: "symbols \<Rightarrow> u64 \<Rightarrow> ('a sched_state_scheme, u64 progress) kern" where
  "task_clone G parent =
     kbind (task_create G parent) (\<lambda>task.
       if IS_ERR task then kreturn (Done task)
       else
         kbind (vm_clone G (t_vm_areas parent) task) (\<lambda>err.
           if err \<noteq> 0
           then kbind (task_destroy G task) (\<lambda>r.
                  case r of
                    Switch d \<Rightarrow> kreturn (Switch d)
                  | Done _ \<Rightarrow> kreturn (Done (ERR_PTR (of_int (- err)))))
           else
             kthen (write_mem (copy_cpu (t_user_frame task) (t_user_frame parent)))
               (kreturn (Done task))))"

subsection \<open>The user side of a task\<close>

definition yield_to_user :: "symbols \<Rightarrow> u64 \<Rightarrow> ('a sched_state_scheme, dispatch) kern" where
  "yield_to_user G task =
     kthen (write_mem (copy_cpu (sym_trapframe G) (t_user_frame task)))
    (kthen (ksetjmp G (t_kernel_frame task)) return_to_user)"

text \<open>
  The growth of the stack in \<open>task_entry\<close>: one page below the area in every round, until the
  area covers the page that faulted.
\<close>

definition grow_page :: "u64 \<Rightarrow> u64 \<Rightarrow> ('a mm_state_scheme, unit) kern" where
  "grow_page task ar =
     kbind (alloc_pages 0) (\<lambda>p.
       let page = address p in
       if page = 0 then kpanic ''stack autoexpand: out of memory''
       else
         kthen (write_mem (clear_page page))
        (kbind (vm_area_add_page ar page) (\<lambda>err.
           if err \<noteq> 0 then kpanic ''stack autoexpand: vm_area_add_page''
           else
             kthen (write_mem (\<lambda>m. set_area_va ar (area_va m ar - PAGE_SIZE) m))
            (kthen (write_mem (\<lambda>m. set_area_n_pages ar (area_n_pages m ar + 1) m))
            (kbind (kgets (\<lambda>s. (t_page_table (mem s) task, area_va (mem s) ar, PA (early s) page,
                pte_flags_from_vm_flags (area_flags (mem s) ar)))) (\<lambda>(table, va, pa, flags).
             kbind (set_page_user table va pa flags) (\<lambda>err.
               if err \<noteq> 0 then kpanic ''stack autoexpand: set_page'' else kreturn ())))))))"

partial_function (option) grow_loop ::
  "u64 \<Rightarrow> u64 \<Rightarrow> u64 \<Rightarrow> 'a mm_state_scheme \<Rightarrow> (string + unit \<times> 'a mm_state_scheme) option" where
  "grow_loop task ar va_start s =
     (if va_start < area_va (mem s) ar
      then kbind (grow_page task ar) (\<lambda>_ t. grow_loop task ar va_start t) s
      else Some (Inr ((), s)))"

text \<open>A page fault: \<open>True\<close> when the stack was grown and the task goes on.\<close>

definition stack_fault :: "u64 \<Rightarrow> ('a cpu_state_scheme, bool) kern" where
  "stack_fault task =
     kbind (kgets stval) (\<lambda>va.
       if USERSTACKMIN \<le> va \<and> va < USERSTACK
       then kbind (kwalk (\<lambda>s. vm_find_stack (mem s) (t_vm_areas task) va)) (\<lambda>ar.
              if ar \<noteq> 0
              then kthen (\<lambda>s. grow_loop task ar (va AND NOT (PAGE_SIZE - 1)) s) (kreturn True)
              else kreturn False)
       else kreturn False)"

end
