(* ===== verification/Uart.thy ===== *)
theory Uart
  imports Sched
begin

section \<open>The serial port (uart.c)\<close>

text \<open>
  The driver of the 16550a UART. Its two ring buffers are the globals \<open>uart_out_tx_*\<close> and
  \<open>uart_in_tx_*\<close>; read and write counters are 64 bits wide and only ever grow. The device
  is not code of the repository: what its registers \<open>LSR\<close> and \<open>RHR\<close> return on the next
  reads is given by the streams \<open>lsr\<close> and \<open>rhr\<close>, which every read advances, and what
  the driver writes is recorded, latest last, in \<open>written\<close>. The theorems hold for every
  device, or say what they assume of the stream.
\<close>

subsection \<open>State\<close>

record ring =
  rbuf :: "u8 list"
  rw :: u64
  rr :: u64

record uart_state = sched_state +
  uart_out :: ring
  uart_in :: ring
  lsr :: "nat \<Rightarrow> u8"
  rhr :: "nat \<Rightarrow> u8"
  written :: "(nat \<times> u8) list"
  kernel_initialized :: bool
  panicked :: bool

definition RHR :: nat where "RHR = 0"
definition THR :: nat where "THR = 0"
definition IER :: nat where "IER = 1"
definition IER_RX_ENABLE :: u8 where "IER_RX_ENABLE = 1"
definition IER_TX_ENABLE :: u8 where "IER_TX_ENABLE = 2"
definition FCR :: nat where "FCR = 2"
definition FCR_FIFO_ENABLE :: u8 where "FCR_FIFO_ENABLE = 1"
definition FCR_FIFO_CLEAR :: u8 where "FCR_FIFO_CLEAR = 6"
definition LCR :: nat where "LCR = 3"
definition LCR_EIGHT_BITS :: u8 where "LCR_EIGHT_BITS = 3"
definition LCR_BAUD_LATCH :: u8 where "LCR_BAUD_LATCH = 128"
definition LSR :: nat where "LSR = 5"
definition LSR_RX_READY :: u8 where "LSR_RX_READY = 1"
definition LSR_TX_IDLE :: u8 where "LSR_TX_IDLE = 32"
definition UART_TX_BUF_SIZE :: u64 where "UART_TX_BUF_SIZE = 32"

definition read_lsr :: "('a uart_state_scheme, u8) kern" where
  "read_lsr = (\<lambda>s. Some (Inr (lsr s 0, s\<lparr>lsr := \<lambda>i. lsr s (Suc i)\<rparr>)))"

definition read_rhr :: "('a uart_state_scheme, u8) kern" where
  "read_rhr = (\<lambda>s. Some (Inr (rhr s 0, s\<lparr>rhr := \<lambda>i. rhr s (Suc i)\<rparr>)))"

definition write_reg :: "nat \<Rightarrow> u8 \<Rightarrow> ('a uart_state_scheme, unit) kern" where
  "write_reg r v = kmodify (\<lambda>s. s\<lparr>written := written s @ [(r, v)]\<rparr>)"

subsection \<open>The ring buffers\<close>

definition ring_empty :: "ring \<Rightarrow> bool" where
  "ring_empty b \<longleftrightarrow> rw b = rr b"

definition ring_full :: "ring \<Rightarrow> bool" where
  "ring_full b \<longleftrightarrow> rw b = rr b + UART_TX_BUF_SIZE"

definition ring_put :: "u8 \<Rightarrow> ring \<Rightarrow> ring" where
  "ring_put c b = b\<lparr>rbuf := (rbuf b)[unat (rw b mod UART_TX_BUF_SIZE) := c], rw := rw b + 1\<rparr>"

definition ring_get :: "ring \<Rightarrow> u8 \<times> ring" where
  "ring_get b = (rbuf b ! unat (rr b mod UART_TX_BUF_SIZE), b\<lparr>rr := rr b + 1\<rparr>)"

subsection \<open>Initialisation\<close>

definition uart_init :: "symbols \<Rightarrow> ('a uart_state_scheme, unit) kern" where
  "uart_init G =
     kthen (write_reg IER 0)
    (kthen (write_reg LCR LCR_BAUD_LATCH)
    (kthen (write_reg 0 3)
    (kthen (write_reg 1 0)
    (kthen (write_reg LCR LCR_EIGHT_BITS)
    (kthen (write_reg FCR (FCR_FIFO_ENABLE OR FCR_FIFO_CLEAR))
    (kthen (write_reg IER (IER_TX_ENABLE OR IER_RX_ENABLE))
    (kthen (write_mem (list_init (sym_wait_in G)))
           (write_mem (list_init (sym_wait_out G))))))))))"

subsection \<open>Output\<close>

text \<open>\<open>uartstart\<close>: hand buffered bytes to the device while it accepts them.\<close>

function uartstart_loop :: "'a uart_state_scheme \<Rightarrow> 'a uart_state_scheme" where
  "uartstart_loop s =
     (if ring_empty (uart_out s) then s
      else if lsr s 0 AND LSR_TX_IDLE = 0 then s\<lparr>lsr := \<lambda>i. lsr s (Suc i)\<rparr>
      else
        (let (c, b) = ring_get (uart_out s)
         in uartstart_loop (s\<lparr>lsr := \<lambda>i. lsr s (Suc i), uart_out := b, written := written s @ [(THR, c)]\<rparr>)))"
  by pat_completeness auto
termination
proof (relation "measure (\<lambda>s. unat (rw (uart_out s) - rr (uart_out s)))", goal_cases)
  case 1
  then show ?case by simp
next
  case (2 s x c b)
  then have b: "b = (uart_out s)\<lparr>rr := rr (uart_out s) + 1\<rparr>"
    and ne: "rw (uart_out s) - rr (uart_out s) \<noteq> 0"
    by (auto simp: ring_get_def ring_empty_def)
  have "rw (uart_out s) - (rr (uart_out s) + 1) = rw (uart_out s) - rr (uart_out s) - 1" by simp
  then have "unat (rw (uart_out s) - (rr (uart_out s) + 1)) = unat (rw (uart_out s) - rr (uart_out s)) - 1"
    by (simp only: unat_minus_one [OF ne])
  moreover have "0 < unat (rw (uart_out s) - rr (uart_out s))" using ne by (simp add: unat_gt_0)
  ultimately show ?case by (simp add: b)
qed

declare uartstart_loop.simps [simp del]

definition uartstart :: "('a uart_state_scheme, unit) kern" where
  "uartstart = kmodify uartstart_loop"

text \<open>
  The loop of \<open>uartputc\<close> that waits for space, and what follows it. A thread that is put to
  sleep in it evaluates the loop again when it is resumed.
\<close>

definition uart_put_buffered :: "symbols \<Rightarrow> u8 \<Rightarrow> ('a uart_state_scheme, unit progress) kern" where
  "uart_put_buffered G c =
     kbind (kgets (\<lambda>s. ring_full (uart_out s))) (\<lambda>full.
       if full then kbind (wait G (sym_wait_out G)) (\<lambda>d. kreturn (Switch d))
       else kthen (kmodify (\<lambda>s. s\<lparr>uart_out := ring_put c (uart_out s)\<rparr>))
           (kthen uartstart (kreturn (Done ()))))"

text \<open>\<open>while((ReadReg(LSR) & LSR_TX_IDLE) == 0)\<close>, which may never end.\<close>

partial_function (option) poll_idle ::
  "'a uart_state_scheme \<Rightarrow> (string + unit \<times> 'a uart_state_scheme) option" where
  "poll_idle s =
     (let t = s\<lparr>lsr := \<lambda>i. lsr s (Suc i)\<rparr>
      in if lsr s 0 AND LSR_TX_IDLE = 0 then poll_idle t else Some (Inr ((), t)))"

definition uartputc :: "symbols \<Rightarrow> u32 \<Rightarrow> ('a uart_state_scheme, unit progress) kern" where
  "uartputc G c =
     kbind (kgets panicked) (\<lambda>p.
       if p then (\<lambda>s. None)
       else
         kbind read_lsr (\<lambda>v.
         kbind (kgets kernel_initialized) (\<lambda>init.
           if init \<and> v AND LSR_TX_IDLE = 0 then uart_put_buffered G (ucast c)
           else kthen poll_idle (kthen (write_reg THR (ucast c)) (kreturn (Done ()))))))"

subsection \<open>Input\<close>

definition uartgetc :: "('a uart_state_scheme, int) kern" where
  "uartgetc =
     kbind read_lsr (\<lambda>v.
       if v AND 1 \<noteq> 0 then kbind read_rhr (\<lambda>c. kreturn (uint c)) else kreturn (- 1))"

text \<open>A thread that sleeps in \<open>getchar\<close> evaluates the loop again when it is resumed.\<close>

definition getchar :: "symbols \<Rightarrow> ('a uart_state_scheme, u8 progress) kern" where
  "getchar G =
     kbind (kgets (\<lambda>s. ring_empty (uart_in s))) (\<lambda>none.
       if none then kbind (wait G (sym_wait_in G)) (\<lambda>d. kreturn (Switch d))
       else
         kbind (kgets (\<lambda>s. ring_get (uart_in s))) (\<lambda>(c, b).
         kthen (kmodify (\<lambda>s. s\<lparr>uart_in := b\<rparr>)) (kreturn (Done c))))"

subsection \<open>Interrupts\<close>

partial_function (option) uartintr_loop ::
  "bool \<Rightarrow> 'a uart_state_scheme \<Rightarrow> (string + bool \<times> 'a uart_state_scheme) option" where
  "uartintr_loop has_chars s =
     kbind uartgetc (\<lambda>c t.
       if c = - 1 then Some (Inr (has_chars, t))
       else uartintr_loop True
         (if ring_full (uart_in t) then t
          else t\<lparr>uart_in := ring_put (word_of_int c) (uart_in t)\<rparr>)) s"

definition uartintr :: "symbols \<Rightarrow> ('a uart_state_scheme, unit) kern" where
  "uartintr G =
     kbind (uartintr_loop False) (\<lambda>has_chars.
     kthen (kwhen has_chars (wakeup G (sym_wait_in G)))
    (kthen uartstart
    (kbind (kgets (\<lambda>s. ring_full (uart_out s))) (\<lambda>full.
       kwhen (\<not> full) (wakeup G (sym_wait_out G))))))"

end
