(* ===== verification/Irq.thy ===== *)
theory Irq
  imports Uart
begin

section \<open>Interrupts and traps (irq.c)\<close>

text \<open>
  The trap handlers. The interrupt controller is not code of the repository: the stream
  \<open>claims\<close> holds what the next reads of its claim register return, and \<open>mmio\<close> records the
  words that the handlers write to it. A handler that returns to the code it interrupted, or
  switches to another thread, ends in a \<open>dispatch\<close>. What the handlers print before they panic is left out, and the
  message of \<open>irq_init\<close> is printed in \<^verbatim>\<open>Boot\<close>.
\<close>

subsection \<open>State\<close>

record irq_state = uart_state +
  claims :: "nat \<Rightarrow> u32"
  mmio :: "(u64 \<times> u32) list"
  stvec :: u64

definition read_claim :: "('a irq_state_scheme, u32) kern" where
  "read_claim = (\<lambda>s. Some (Inr (claims s 0, s\<lparr>claims := \<lambda>i. claims s (Suc i)\<rparr>)))"

definition write_mmio :: "u64 \<Rightarrow> u32 \<Rightarrow> ('a irq_state_scheme, unit) kern" where
  "write_mmio a v = kmodify (\<lambda>s. s\<lparr>mmio := mmio s @ [(a, v)]\<rparr>)"

subsection \<open>Handlers\<close>

text \<open>
  \<open>handle_interrupt\<close> returns 0 when it handled the interrupt and 1 when it did not; a
  software interrupt (the timer) always switches to another thread.
\<close>

definition timer_tick :: "symbols \<Rightarrow> u64 \<Rightarrow> u32 \<Rightarrow> ('a sched_state_scheme, dispatch) kern" where
  "timer_tick G regs mode =
     kbind (kgets current_task) (\<lambda>task.
       if task = 0 then schedule G
       else
         kthen
           (if mode = MODE_SUPERVISOR then write_mem (copy_cpu (t_kernel_frame task) regs)
            else if mode = MODE_USER then write_mem (copy_cpu (t_user_frame task) regs)
            else kpanic ''unknown mode'')
        (kthen (write_mem (set_t_mode task mode)) (schedule_next G)))"

definition handle_interrupt ::
  "symbols \<Rightarrow> u64 \<Rightarrow> u32 \<Rightarrow> ('a irq_state_scheme, int progress) kern" where
  "handle_interrupt G regs mode =
     kbind read_scause (\<lambda>c.
       if \<not> cause_interrupt c then kreturn (Done 1)
       else if cause_code c = CAUSE_SEI then
         kbind read_claim (\<lambda>irq.
           if irq = UART0_IRQ
           then kthen (uartintr G) (kthen (write_mmio (PLIC_SCLAIM 0) irq) (kreturn (Done 0)))
           else if irq \<noteq> 0 then kpanic ''unknown irq''
           else kreturn (Done 0))
       else if cause_code c = CAUSE_SSI then
         kthen (kmodify (\<lambda>s. s\<lparr>sip := csrnc 1 (sip s)\<rparr>))
           (kbind (timer_tick G regs mode) (\<lambda>d. kreturn (Switch d)))
       else kreturn (Done 1))"

text \<open>The result is the frame to return to, or the thread that runs next.\<close>

definition kernel_trap :: "symbols \<Rightarrow> u64 \<Rightarrow> ('a irq_state_scheme, u64 progress) kern" where
  "kernel_trap G regs =
     kthen (kmodify (save_kernel_frame regs))
    (kbind (handle_interrupt G regs MODE_SUPERVISOR) (\<lambda>r.
       case r of
         Switch d \<Rightarrow> kreturn (Switch d)
       | Done v \<Rightarrow>
           if v = 0 then
             kbind (kgets current_task) (\<lambda>task.
               if task \<noteq> 0 then kreturn (Done regs) else kbind (schedule G) (\<lambda>d. kreturn (Switch d)))
           else
             kbind read_scause (\<lambda>c.
             kbind (kgets may_page_fault) (\<lambda>may.
               if \<not> cause_interrupt c \<and> (cause_code c = LOAD_FAULT \<or> cause_code c = STORE_FAULT) \<and> may
               then kbind (klongjmp (sym_page_fault_handler G)) (\<lambda>d. kreturn (Switch d))
               else kpanic ''unable to handle kernel interrupt''))))"

definition trap_handler :: "symbols \<Rightarrow> ('a irq_state_scheme, dispatch) kern" where
  "trap_handler G =
     kbind read_sstatus (\<lambda>v.
       if status_spp v \<noteq> 0 then
         kbind (kernel_trap G (sym_trapframe G)) (\<lambda>r.
           case r of Switch d \<Rightarrow> kreturn d | Done regs \<Rightarrow> klongjmp regs)
       else
         kbind (handle_interrupt G (sym_trapframe G) MODE_USER) (\<lambda>r.
           case r of
             Switch d \<Rightarrow> kreturn d
           | Done h \<Rightarrow>
               if h = 0 then return_to_user
               else
                 kbind read_scause (\<lambda>c.
                   if \<not> cause_interrupt c then
                     kbind (kgets current_task) (\<lambda>task.
                     kthen (write_mem (copy_cpu (t_user_frame task) (sym_trapframe G)))
                       (klongjmp (t_kernel_frame task)))
                   else kpanic ''unable to handle user interrupt'')))"

subsection \<open>Initialisation\<close>

text \<open>\<open>trapframe.kernel_sp\<close>, at offset 264, is set to the stack pointer.\<close>

definition irq_init :: "symbols \<Rightarrow> ('a irq_state_scheme, unit) kern" where
  "irq_init G =
     kthen (kmodify (\<lambda>s. s\<lparr>stvec := sym_trap_vector G\<rparr>))
    (kthen (write_sie (put_bit 9 True (put_bit 1 True 0)))
    (kthen (kmodify (\<lambda>s. s\<lparr>may_page_fault := False\<rparr>))
    (kthen (kmodify (\<lambda>s. s\<lparr>mem := store64 (mem s) (sym_trapframe G + 264) (kernel_regs s ! REG_SP)\<rparr>))
    (kthen (write_mmio (PLIC + ucast UART0_IRQ * 4) 1)
    (kthen (write_mmio (PLIC_SENABLE 0) (push_bit (unat UART0_IRQ) 1))
           (write_mmio (PLIC_SPRIORITY 0) 0))))))"

subsection \<open>Printing the registers\<close>

definition REG_RA :: nat where "REG_RA = 1"
definition REG_A3 :: nat where "REG_A3 = 13"
definition REG_A4 :: nat where "REG_A4 = 14"
definition REG_A5 :: nat where "REG_A5 = 15"
definition REG_A6 :: nat where "REG_A6 = 16"

definition print_cpu_reg :: "memory \<Rightarrow> u64 \<Rightarrow> nat \<Rightarrow> string \<Rightarrow> u8 list option" where
  "print_cpu_reg m c reg name =
     printk (\<lambda>_. c_string name) (c_string (''%s'' @ CHR 0x09 # ''%p'' @ [CHR 0x0A])) [0, cpu_register m c reg]"

definition dump_cpu :: "memory \<Rightarrow> u64 \<Rightarrow> u8 list option" where
  "dump_cpu m c =
     Option.bind (printk (\<lambda>_. []) (c_string (''pc'' @ CHR 0x09 # ''%p'' @ [CHR 0x0A])) [cpu_pc m c]) (\<lambda>pc.
       map_option (\<lambda>regs. pc @ concat regs)
         (those (map (\<lambda>(reg, name). print_cpu_reg m c reg name)
            [(REG_A0, ''a0''), (REG_A1, ''a1''), (REG_A2, ''a2''), (REG_A3, ''a3''), (REG_A4, ''a4''),
             (REG_A5, ''a5''), (REG_A6, ''a6''), (REG_SP, ''sp''), (REG_RA, ''ra'')])))"

end
