(* ===== verification/Sched_Correct.thy ===== *)
theory Sched_Correct
  imports Irq Vm_Correct "HOL-Library.Multiset"
begin
section \<open>Correctness of the scheduler\<close>

text \<open>
  The run queue and the wait groups are lists that share their nodes: a thread's node moves
  from one to the other. The first part treats such a family of lists at once; the second
  states the scheduler's invariant and an abstract scheduler on sequences of threads, and
  shows that \<open>timer_tick\<close>, \<open>wait\<close> and \<open>wakeup\<close> implement it.
\<close>

subsection \<open>A family of lists\<close>

text \<open>
  The headers \<open>H\<close> and nodes \<open>N\<close> are disjoint objects; the list of the header \<open>h\<close> has
  the nodes \<open>f h\<close>, and no node is on two lists.
\<close>

definition places :: "u64 set \<Rightarrow> u64 set \<Rightarrow> bool" where
  "places H N \<longleftrightarrow> 0 \<notin> N \<and> (\<forall>h\<in>H. \<forall>n\<in>N. off_list h n) \<and>
     (\<forall>h\<in>H. \<forall>k\<in>H. h \<noteq> k \<longrightarrow> span h 16 \<inter> span k 16 = {}) \<and> (\<forall>n\<in>N. \<forall>k\<in>N. n \<noteq> k \<longrightarrow> apart n k)"

definition queues :: "memory \<Rightarrow> u64 set \<Rightarrow> u64 set \<Rightarrow> (u64 \<Rightarrow> u64 list) \<Rightarrow> bool" where
  "queues m H N f \<longleftrightarrow> (\<forall>h\<in>H. (\<exists>q. list_rep q m h (f h)) \<and> set (f h) \<subseteq> N) \<and>
     (\<forall>h\<in>H. \<forall>k\<in>H. h \<noteq> k \<longrightarrow> set (f h) \<inter> set (f k) = {})"

definition queue_cells :: "u64 set \<Rightarrow> u64 set \<Rightarrow> u64 set" where
  "queue_cells H N = (\<Union>h\<in>H. span h 16) \<union> (\<Union>n\<in>N. span n 32)"

lemma list_cells_sub: "h \<in> H \<Longrightarrow> set xs \<subseteq> N \<Longrightarrow> list_cells h xs \<subseteq> queue_cells H N"
  by (auto simp: list_cells_def queue_cells_def)

lemma queues_frame:
  assumes "queues m H N f" and "agree (queue_cells H N) m m'"
  shows "queues m' H N f"
  unfolding queues_def
proof (intro conjI ballI impI)
  fix h assume h: "h \<in> H"
  then obtain q where q: "list_rep q m h (f h)" "set (f h) \<subseteq> N" using assms(1) by (auto simp: queues_def)
  have "agree (list_cells h (f h)) m m'" by (rule agree_mono [OF assms(2) list_cells_sub [OF h q(2)]])
  from list_rep_agree(1) [OF this q(1)] show "\<exists>q. list_rep q m' h (f h)" by blast
  show "set (f h) \<subseteq> N" by (rule q(2))
qed (use assms(1) in \<open>auto simp: queues_def\<close>)

lemma node_field_frame:
  assumes "agree A m m'" and "span n 32 \<subseteq> A"
  shows "n_value m' n = n_value m n" and "n_next m' n = n_next m n"
proof -
  have "load64 m (n + i) = load64 m' (n + i)" if "unat i + 8 \<le> 32" for i
    using span_shift_subset [OF that, of n] assms(2) by (intro agree_load64 [OF assms(1)]) blast
  from this [of 0] this [of 24] show "n_value m' n = n_value m n" "n_next m' n = n_next m n"
    by (simp_all add: field_defs)
qed

text \<open>A list that changes leaves the others alone.\<close>

lemma list_cells_disjoint:
  assumes "places H N" and "h \<in> H" and "k \<in> H" and "h \<noteq> k"
    and "set xs \<subseteq> N" and "set ys \<subseteq> N" and "set xs \<inter> set ys = {}"
  shows "list_cells h xs \<inter> list_cells k ys = {}"
proof -
  have "span h 16 \<inter> span k 16 = {}" using assms(1-4) by (auto simp: places_def)
  moreover have "span h 16 \<inter> span y 32 = {}" if "y \<in> set ys" for y
    using assms(1,2,6) that by (auto simp: places_def off_list_def)
  moreover have "span x 32 \<inter> span k 16 = {}" if "x \<in> set xs" for x
    using assms(1,3,5) that by (auto simp: places_def off_list_def)
  moreover have "span x 32 \<inter> span y 32 = {}" if "x \<in> set xs" "y \<in> set ys" for x y
  proof -
    have "x \<in> N" "y \<in> N" "x \<noteq> y" using assms(5-7) that by auto
    with assms(1) show ?thesis by (simp add: places_def apart_def)
  qed
  ultimately show ?thesis unfolding list_cells_def by blast
qed

lemma node_off_cells:
  assumes "places H N" and "h \<in> H" and "x \<in> N" and "set zs \<subseteq> N" and "x \<notin> set zs"
  shows "span x 32 \<inter> list_cells h zs = {}"
proof -
  have "span x 32 \<inter> span z 32 = {}" if "z \<in> set zs" for z
  proof -
    have "z \<in> N" "x \<noteq> z" using assms(4,5) that by auto
    with assms(1,3) show ?thesis by (simp add: places_def apart_def)
  qed
  moreover have "span x 32 \<inter> span h 16 = {}" using assms(1-3) by (auto simp: places_def off_list_def)
  ultimately show ?thesis unfolding list_cells_def by blast
qed

lemma queues_change:
  assumes pl: "places H N" and qs: "queues m H N f" and h: "h \<in> H"
    and rep: "list_rep q m' h xs" and xs: "set xs \<subseteq> N" "set zs \<subseteq> N" "set (f h) \<subseteq> set zs" "set xs \<subseteq> set zs"
    and ag: "agree (- list_cells h zs) m m'"
    and sep: "\<forall>k\<in>H. h \<noteq> k \<longrightarrow> set zs \<inter> set (f k) = {}"
  shows "queues m' H N (f(h := xs))"
  unfolding queues_def
proof (intro conjI ballI impI)
  fix k assume k: "k \<in> H"
  show "\<exists>q. list_rep q m' k ((f(h := xs)) k)"
  proof (cases "k = h")
    case True
    with rep show ?thesis by auto
  next
    case False
    obtain q' where q': "list_rep q' m k (f k)" "set (f k) \<subseteq> N" using qs k by (auto simp: queues_def)
    have "list_cells h zs \<inter> list_cells k (f k) = {}"
      using sep k False by (intro list_cells_disjoint [OF pl h k]) (use xs q' in auto)
    then have "agree (list_cells k (f k)) m m'" by (intro agree_mono [OF ag]) blast
    from list_rep_agree(1) [OF this q'(1)] False show ?thesis by auto
  qed
  show "set ((f(h := xs)) k) \<subseteq> N" using qs k xs(1) by (auto simp: queues_def)
next
  fix k l assume kl: "k \<in> H" "l \<in> H" "k \<noteq> l"
  have "set xs \<inter> set (f j) = {}" if "j \<in> H" "h \<noteq> j" for j using sep xs(4) that by blast
  moreover have "set (f k) \<inter> set (f l) = {}" using qs kl by (auto simp: queues_def)
  ultimately show "set ((f(h := xs)) k) \<inter> set ((f(h := xs)) l) = {}"
    using kl by (cases "k = h"; cases "l = h") (auto simp: Int_commute)
qed

lemma list_shift_frame:
  assumes "list_rep q m l (x # xs)"
  shows "agree (- (span l 16 \<union> span x 32)) m (snd (list_shift l m))"
proof -
  have "l_first m l = x" using assms by (auto simp: list_rep_def)
  then show ?thesis unfolding list_shift_def Let_def
    by (auto intro!: node_write_frame list_write_frame)
qed

text \<open>Push to one of the lists, and shift from one of them.\<close>

lemma push_queue:
  assumes pl: "places H N" and qs: "queues m H N f" and h: "h \<in> H" and n: "n \<in> N"
    and free: "\<forall>k\<in>H. n \<notin> set (f k)" and nx: "n_next m n = 0"
  shows "queues (list_push h n m) H N (f(h := f h @ [n]))"
    and "agree (- queue_cells H N) m (list_push h n m)"
    and "x \<in> N \<Longrightarrow> n_value (list_push h n m) x = n_value m x"
    and "x \<in> N \<Longrightarrow> x \<notin> set (f h) \<Longrightarrow> x \<noteq> n \<Longrightarrow> n_next (list_push h n m) x = n_next m x"
proof -
  obtain q where q: "list_rep q m h (f h)" "set (f h) \<subseteq> N" using qs h by (auto simp: queues_def)
  have ap: "apart n y" if "y \<in> N" "n \<noteq> y" for y using pl n that by (auto simp: places_def)
  have off: "off_list h n" and nz: "n \<noteq> 0" using pl h n by (auto simp: places_def)
  have nin: "n \<notin> set (f h)" using free h by blast
  have "apart n y" if "y \<in> set (f h)" for y using ap q(2) nin that by blast
  then have j: "joinable m h (f h) n" using off nz nin nx by (auto simp: joinable_def)
  have cells: "span h 16 \<union> span n 32 \<union> (\<Union>x\<in>set (f h). span x 32) = list_cells h (f h @ [n])"
    by (auto simp: list_cells_def)
  have fr: "agree (- list_cells h (f h @ [n])) m (list_push h n m)"
    using list_push_frame [OF q(1) off] unfolding cells .
  have sub: "set (f h @ [n]) \<subseteq> N" using q(2) n by simp
  show "queues (list_push h n m) H N (f(h := f h @ [n]))"
  proof (rule queues_change [OF pl qs h list_push_rep [OF q(1) j] sub sub _ _ fr])
    show "\<forall>k\<in>H. h \<noteq> k \<longrightarrow> set (f h @ [n]) \<inter> set (f k) = {}"
      using qs free h unfolding queues_def by auto
  qed auto
  show "agree (- queue_cells H N) m (list_push h n m)"
    by (rule agree_mono [OF fr]) (use list_cells_sub [OF h sub] in blast)
  show "n_next (list_push h n m) x = n_next m x" if x: "x \<in> N" "x \<notin> set (f h)" "x \<noteq> n"
  proof -
    have "x \<notin> set (f h @ [n])" using x by simp
    then have "span x 32 \<inter> list_cells h (f h @ [n]) = {}" by (rule node_off_cells [OF pl h x(1) sub])
    then show ?thesis by (intro node_field_frame(2) [OF fr]) blast
  qed
  show "n_value (list_push h n m) x = n_value m x" if x: "x \<in> N"
  proof (cases "x \<in> set (f h @ [n])")
    case True
    then show ?thesis by (rule list_push_value [OF q(1) j])
  next
    case False
    have "span x 32 \<inter> list_cells h (f h @ [n]) = {}" by (rule node_off_cells [OF pl h x sub False])
    then show ?thesis by (intro node_field_frame(1) [OF fr]) blast
  qed
qed

lemma shift_queue:
  assumes pl: "places H N" and qs: "queues m H N f" and h: "h \<in> H" and fh: "f h = n # ns"
  shows "fst (list_shift h m) = n" and "queues (snd (list_shift h m)) H N (f(h := ns))"
    and "agree (- queue_cells H N) m (snd (list_shift h m))"
    and "x \<in> N \<Longrightarrow> n_value (snd (list_shift h m)) x = n_value m x"
    and "n_next (snd (list_shift h m)) n = 0" and "\<forall>k\<in>H. n \<notin> set ((f(h := ns)) k)" and "n \<in> N" and "n \<noteq> 0"
    and "x \<in> N \<Longrightarrow> x \<noteq> n \<Longrightarrow> n_next (snd (list_shift h m)) x = n_next m x"
proof -
  obtain q where q: "list_rep q m h (n # ns)" "set (n # ns) \<subseteq> N" using qs h fh by (auto simp: queues_def)
  note S = list_shift_rep [OF q(1)]
  show "fst (list_shift h m) = n" by (rule S(1))
  show n: "n \<in> N" "n \<noteq> 0" using q(2) pl by (auto simp: places_def)
  show "n_next (snd (list_shift h m)) n = 0" using S(3) by (simp add: joinable_def)
  have fr: "agree (- (span h 16 \<union> span n 32)) m (snd (list_shift h m))" by (rule list_shift_frame [OF q(1)])
  then have fr': "agree (- list_cells h (n # ns)) m (snd (list_shift h m))"
    by (rule agree_mono) (auto simp: list_cells_def)
  have other: "\<forall>k\<in>H. h \<noteq> k \<longrightarrow> set (n # ns) \<inter> set (f k) = {}"
    using qs h fh unfolding queues_def by metis
  show "queues (snd (list_shift h m)) H N (f(h := ns))"
    by (rule queues_change [OF pl qs h S(2) _ q(2) _ _ fr' other]) (use q(2) fh in auto)
  show "agree (- queue_cells H N) m (snd (list_shift h m))"
    by (rule agree_mono [OF fr']) (use list_cells_sub [OF h q(2)] in blast)
  have "n \<notin> set ns" using q(1) by (auto simp: list_rep_def separate_nodes_def)
  with other show "\<forall>k\<in>H. n \<notin> set ((f(h := ns)) k)" by auto
  have off: "span x 32 \<inter> (span h 16 \<union> span n 32) = {}" if x: "x \<in> N" "x \<noteq> n" for x
  proof -
    have "span x 32 \<inter> list_cells h [n] = {}"
      by (intro node_off_cells [OF pl h x(1)]) (use n x in auto)
    then show ?thesis by (auto simp: list_cells_def)
  qed
  show "n_next (snd (list_shift h m)) x = n_next m x" if "x \<in> N" "x \<noteq> n"
    using off [OF that] by (intro node_field_frame(2) [OF fr]) blast
  show "n_value (snd (list_shift h m)) x = n_value m x" if x: "x \<in> N"
  proof (cases "x = n")
    case True
    then show ?thesis using S(5) [of x] by simp
  next
    case False
    from off [OF x this] show ?thesis by (intro node_field_frame(1) [OF fr]) blast
  qed
qed

subsection \<open>The abstract scheduler\<close>

text \<open>
  Threads are known by their list nodes: those that are ready, those that wait in a group, and
  the one that runs. \<open>pick\<close> is the choice of the scheduler.
\<close>

record threads =
  ready :: "u64 list"
  waiting :: "u64 \<Rightarrow> u64 list"
  running :: "u64 option"

datatype event = Tick u32 | Block u64 | Wake u64

definition pick :: "threads \<Rightarrow> threads" where
  "pick A = (case ready A of
     [] \<Rightarrow> A\<lparr>running := None\<rparr> | n # ns \<Rightarrow> A\<lparr>ready := ns, running := Some n\<rparr>)"

inductive sched_step :: "threads \<Rightarrow> event \<Rightarrow> threads \<Rightarrow> bool" where
  tick_idle: "running A = None \<Longrightarrow> sched_step A (Tick mode) (pick A)"
| tick: "running A = Some n \<Longrightarrow> mode = MODE_USER \<or> mode = MODE_SUPERVISOR \<Longrightarrow>
    sched_step A (Tick mode) (pick (A\<lparr>ready := ready A @ [n], running := None\<rparr>))"
| block: "running A = Some n \<Longrightarrow>
    sched_step A (Block g) (pick (A\<lparr>waiting := (waiting A)(g := waiting A g @ [n]), running := None\<rparr>))"
| wake: "sched_step A (Wake g) (A\<lparr>ready := ready A @ waiting A g, waiting := (waiting A)(g := [])\<rparr>)"

inductive_cases tickE: "sched_step A (Tick mode) B"
inductive_cases blockE: "sched_step A (Block g) B"
inductive_cases wakeE: "sched_step A (Wake g) B"
inductive_simps wake_iff: "sched_step A (Wake g) B"

text \<open>The same events in the code; the result is what runs next, \<open>None\<close> if the caller goes on.\<close>

definition perform :: "symbols \<Rightarrow> event \<Rightarrow> ('a sched_state_scheme, dispatch option) kern" where
  "perform G ev =
     (case ev of
        Tick mode \<Rightarrow> kbind (timer_tick G (sym_trapframe G) mode) (\<lambda>d. kreturn (Some d))
      | Block g \<Rightarrow> kbind (wait G g) (\<lambda>d. kreturn (Some d))
      | Wake g \<Rightarrow> kthen (wakeup G g) (kreturn None))"

subsection \<open>The invariant\<close>

definition queue_of :: "symbols \<Rightarrow> threads \<Rightarrow> u64 \<Rightarrow> u64 list" where
  "queue_of G A h = (if h = sym_tasks G then ready A else waiting A h)"

text \<open>\<open>tk n\<close> is the task of the node \<open>n\<close>; tasks are apart from each other and from the lists.\<close>

definition task_objects :: "symbols \<Rightarrow> u64 set \<Rightarrow> u64 set \<Rightarrow> (u64 \<Rightarrow> u64) \<Rightarrow> bool" where
  "task_objects G H N tk \<longleftrightarrow>
     span (sym_trapframe G) 264 \<inter> queue_cells H N = {} \<and>
     (\<forall>n\<in>N. tk n \<noteq> 0 \<and> span (tk n) 592 \<inter> (queue_cells H N \<union> span (sym_trapframe G) 264) = {}) \<and>
     (\<forall>n\<in>N. \<forall>k\<in>N. n \<noteq> k \<longrightarrow> span (tk n) 592 \<inter> span (tk k) 592 = {})"

definition task_ok :: "memory \<Rightarrow> u64 \<Rightarrow> bool" where
  "task_ok m t \<longleftrightarrow> area_ok 0 (t_page_table m t) \<and> (t_mode m t = MODE_USER \<or> t_mode m t = MODE_SUPERVISOR)"

text \<open>
  The state \<open>s\<close> holds the threads \<open>A\<close>: the headers are those of the run queue and of the
  wait groups \<open>gs\<close>, the threads have the nodes \<open>N\<close>, and the thread that runs is on no list.
\<close>

definition sched_inv ::
  "symbols \<Rightarrow> u64 set \<Rightarrow> u64 set \<Rightarrow> (u64 \<Rightarrow> u64) \<Rightarrow> threads \<Rightarrow> 'a sched_state_scheme \<Rightarrow> bool" where
  "sched_inv G gs N tk A s \<longleftrightarrow>
     sym_tasks G \<notin> gs \<and> 0 \<notin> gs \<and> places (insert (sym_tasks G) gs) N \<and>
     task_objects G (insert (sym_tasks G) gs) N tk \<and> queues (mem s) (insert (sym_tasks G) gs) N (queue_of G A) \<and>
     (\<forall>n\<in>N. n_value (mem s) n = tk n \<and> task_ok (mem s) (tk n)) \<and> \<not> early s \<and>
     (case running A of
        None \<Rightarrow> current_task_node s = 0 \<and> current_task s = 0
      | Some r \<Rightarrow> r \<in> N \<and> current_task_node s = r \<and> current_task s = tk r \<and> n_next (mem s) r = 0 \<and>
          (\<forall>h\<in>insert (sym_tasks G) gs. r \<notin> set (queue_of G A h)))"

lemma task_ok_frame:
  assumes "agree (span t 60) m m'"
  shows "task_ok m' t \<longleftrightarrow> task_ok m t" and "t_page_table m' t = t_page_table m t" and "t_mode m' t = t_mode m t"
proof -
  have "span (t + 48) 8 \<subseteq> span t 60" "span (t + 56) 4 \<subseteq> span t 60" by (rule span_shift_subset; simp)+
  with assms show "t_page_table m' t = t_page_table m t" "t_mode m' t = t_mode m t"
    using agree_load64 [OF assms] agree_load32 [OF assms] by (simp_all add: t_page_table_def t_mode_def)
  then show "task_ok m' t \<longleftrightarrow> task_ok m t" by (simp add: task_ok_def)
qed

lemma queue_node_cells: "n \<in> N \<Longrightarrow> span n 32 \<subseteq> queue_cells H N"
  by (auto simp: queue_cells_def)

text \<open>What a step must keep of the memory for the invariant to stay.\<close>

lemma sched_inv_frame:
  assumes inv: "sched_inv G gs N tk A s"
    and ag: "agree (queue_cells (insert (sym_tasks G) gs) N) (mem s) (mem t)"
    and ok: "\<forall>n\<in>N. task_ok (mem t) (tk n)"
    and eq: "early t = early s" "current_task_node t = current_task_node s" "current_task t = current_task s"
  shows "sched_inv G gs N tk A t"
proof -
  have f: "n_value (mem t) n = n_value (mem s) n \<and> n_next (mem t) n = n_next (mem s) n" if "n \<in> N" for n
    using node_field_frame [OF ag queue_node_cells [OF that]] by blast
  show ?thesis
    using inv queues_frame [OF _ ag] ok eq f unfolding sched_inv_def
    by (auto split: option.splits)
qed

text \<open>Writes to the saved registers of the tasks and to the trap frame.\<close>

definition frame_cells :: "symbols \<Rightarrow> u64 set \<Rightarrow> (u64 \<Rightarrow> u64) \<Rightarrow> u64 set" where
  "frame_cells G N tk = span (sym_trapframe G) 264 \<union> (\<Union>n\<in>N. span (tk n + 64) 528)"

lemma frame_cells_disjoint:
  assumes "task_objects G H N tk"
  shows "queue_cells H N \<inter> frame_cells G N tk = {}" and "n \<in> N \<Longrightarrow> span (tk n) 60 \<inter> frame_cells G N tk = {}"
proof -
  have sub: "span (tk k + 64) 528 \<subseteq> span (tk k) 592" "span (tk k) 60 \<subseteq> span (tk k) 592" for k
    by (rule span_shift_subset, simp) (rule span_mono, simp)
  have "queue_cells H N \<inter> span (tk k + 64) 528 = {}" if "k \<in> N" for k
    using assms sub(1) [of k] that unfolding task_objects_def by blast
  moreover have "queue_cells H N \<inter> span (sym_trapframe G) 264 = {}"
    using assms unfolding task_objects_def by blast
  ultimately show "queue_cells H N \<inter> frame_cells G N tk = {}"
    unfolding frame_cells_def by blast
  assume n: "n \<in> N"
  have own: "span (tk n) 60 \<inter> span (tk n + 64) 528 = {}" by (rule span_disjoint_base) simp_all
  have "span (tk n) 60 \<inter> span (tk k + 64) 528 = {}" if "k \<in> N" for k
  proof (cases "n = k")
    case False
    then have "span (tk n) 592 \<inter> span (tk k) 592 = {}" using assms n that by (simp add: task_objects_def)
    then show ?thesis using sub by blast
  qed (use own in simp)
  moreover have "span (tk n) 60 \<inter> span (sym_trapframe G) 264 = {}"
    using assms n sub(2) unfolding task_objects_def by blast
  ultimately show "span (tk n) 60 \<inter> frame_cells G N tk = {}" unfolding frame_cells_def by blast
qed

lemma sched_inv_frames:
  assumes inv: "sched_inv G gs N tk A s" and ag: "agree (- frame_cells G N tk) (mem s) (mem t)"
    and eq: "early t = early s" "current_task_node t = current_task_node s" "current_task t = current_task s"
  shows "sched_inv G gs N tk A t" and "n \<in> N \<Longrightarrow> t_mode (mem t) (tk n) = t_mode (mem s) (tk n)"
    and "n \<in> N \<Longrightarrow> t_page_table (mem t) (tk n) = t_page_table (mem s) (tk n)"
proof -
  have obj: "task_objects G (insert (sym_tasks G) gs) N tk" using inv by (simp add: sched_inv_def)
  note dis = frame_cells_disjoint [OF obj]
  have t: "agree (span (tk n) 60) (mem s) (mem t)" if "n \<in> N" for n
    by (rule agree_mono [OF ag]) (use dis(2) [OF that] in blast)
  show "n \<in> N \<Longrightarrow> t_mode (mem t) (tk n) = t_mode (mem s) (tk n)"
    "n \<in> N \<Longrightarrow> t_page_table (mem t) (tk n) = t_page_table (mem s) (tk n)"
    using task_ok_frame [OF t] by blast+
  have ok: "\<forall>n\<in>N. task_ok (mem t) (tk n)" using task_ok_frame(1) [OF t] inv by (simp add: sched_inv_def)
  have "agree (queue_cells (insert (sym_tasks G) gs) N) (mem s) (mem t)"
    by (rule agree_mono [OF ag]) (use dis(1) in blast)
  then show "sched_inv G gs N tk A t" by (rule sched_inv_frame [OF inv _ ok eq])
qed

subsection \<open>What the scheduler picks\<close>

lemma load_table_ok:
  assumes "area_ok 0 table" and "\<not> early s"
  shows "\<exists>v. load_table table s = Some (Inr ((), s\<lparr>satp := v\<rparr>)) \<and> active_root (s\<lparr>satp := v\<rparr>) = table"
proof -
  obtain v where v: "write_satp table s = Some (Inr ((), s\<lparr>satp := v\<rparr>))" "active_root (s\<lparr>satp := v\<rparr>) = table"
    using write_satp_ok [OF assms] by blast
  obtain w where w: "satp_from_table (early s) table = Inr w"
    using v(1) by (cases "satp_from_table (early s) table") (auto simp: write_satp_def kbind_Inr)
  have "s\<lparr>satp := w\<rparr> = s\<lparr>satp := v\<rparr>" using v(1) w by (simp add: write_satp_def kbind_Inr)
  moreover have "s\<lparr>satp := w\<rparr> = s" if "w = satp s" using that by (cases s) simp
  ultimately have "load_table table s = Some (Inr ((), s\<lparr>satp := v\<rparr>))"
    using w by (auto simp: load_table_def kbind_Inr)
  with v(2) show ?thesis by blast
qed

text \<open>The registers saved at \<open>a\<close> in one memory are those saved at \<open>b\<close> in another.\<close>

definition same_cpu :: "memory \<Rightarrow> u64 \<Rightarrow> memory \<Rightarrow> u64 \<Rightarrow> bool" where
  "same_cpu m a m' b \<longleftrightarrow> (\<forall>i. unat i < 264 \<longrightarrow> m (a + i) = m' (b + i))"

lemma same_cpu_trans: "same_cpu m a m' b \<Longrightarrow> same_cpu m' b m'' c \<Longrightarrow> same_cpu m a m'' c"
  by (simp add: same_cpu_def)

lemma same_cpu_agree: "agree (span a 264) m m' \<Longrightarrow> same_cpu m a m' a"
  by (simp add: same_cpu_def agree_def span_iff)

lemma copy_cpu_same:
  assumes "span dest 264 \<inter> span src 264 = {}"
  shows "same_cpu m src (copy_cpu dest src m) dest" and "same_cpu m src (copy_cpu dest src m) src"
proof -
  have "src + i \<notin> span dest 264" if "unat i < 264" for i
  proof -
    have "src + i \<in> span src 264" using that by (simp add: span_iff)
    then show ?thesis using assms by blast
  qed
  then show "same_cpu m src (copy_cpu dest src m) dest" "same_cpu m src (copy_cpu dest src m) src"
    by (simp_all add: same_cpu_def copy_cpu_def copy_bytes_def span_iff)
qed

definition dispatched ::
  "symbols \<Rightarrow> (u64 \<Rightarrow> u64) \<Rightarrow> threads \<Rightarrow> dispatch \<Rightarrow> 'a sched_state_scheme \<Rightarrow> bool" where
  "dispatched G tk A d t \<longleftrightarrow>
     (case running A of
        None \<Rightarrow> d = Idle \<and> status_sie (sstatus t)
      | Some n \<Rightarrow> active_root t = t_page_table (mem t) (tk n) \<and>
          (d = Enter_user \<longrightarrow> same_cpu (mem t) (t_user_frame (tk n)) (mem t) (sym_trapframe G)) \<and>
          d = (if t_mode (mem t) (tk n) = MODE_SUPERVISOR then Resume (t_kernel_frame (tk n)) else Enter_user))"

lemma enter_task_ok:
  assumes "t_mode (mem s) task = MODE_USER \<or> t_mode (mem s) task = MODE_SUPERVISOR"
  shows "\<exists>d t. enter_task G task s = Some (Inr (d, t)) \<and>
    d = (if t_mode (mem s) task = MODE_SUPERVISOR then Resume (t_kernel_frame task) else Enter_user) \<and>
    t = s\<lparr>mem := mem t, sstatus := sstatus t\<rparr> \<and> agree (- span (sym_trapframe G) 264) (mem s) (mem t) \<and>
    (d = Enter_user \<longrightarrow> mem t = copy_cpu (sym_trapframe G) (t_user_frame task) (mem s))"
proof (cases "t_mode (mem s) task = MODE_SUPERVISOR")
  case True
  then show ?thesis by (simp add: enter_task_def kbind_Inr klongjmp_def)
next
  case False
  with assms have m: "t_mode (mem s) task = MODE_USER" by simp
  have "agree (- span (sym_trapframe G) 264) (mem s) (copy_cpu (sym_trapframe G) (t_user_frame task) (mem s))"
    by (simp add: agree_def copy_cpu_def copy_bytes_def)
  with m show ?thesis
    by (simp add: enter_task_def kbind_Inr kthen_Inr write_mem_def return_to_user_def read_sstatus_def
        write_sstatus_def)
qed

lemma do_schedule_ok:
  assumes inv: "sched_inv G gs N tk A s" and idle: "running A = None"
  shows "\<exists>d t. do_schedule G s = Some (Inr (d, t)) \<and> sched_inv G gs N tk (pick A) t \<and>
    dispatched G tk (pick A) d t \<and> sched_state.more t = sched_state.more s \<and>
    agree (- (queue_cells (insert (sym_tasks G) gs) N \<union> span (sym_trapframe G) 264)) (mem s) (mem t)"
proof -
  let ?H = "insert (sym_tasks G) gs" and ?l = "sym_tasks G"
  have pl: "places ?H N" and qs: "queues (mem s) ?H N (queue_of G A)" and cur: "current_task_node s = 0" "current_task s = 0"
    using inv idle by (simp_all add: sched_inv_def)
  have l: "?l \<in> ?H" by simp
  show ?thesis
  proof (cases "ready A")
    case Nil
    then obtain q where "list_rep q (mem s) ?l []" using qs unfolding queues_def by (auto simp: queue_of_def)
    then have sh: "list_shift ?l (mem s) = (0, mem s)" by (rule list_shift_empty)
    let ?t = "s\<lparr>sstatus := csrns 1 (sstatus s)\<rparr>"
    have "s\<lparr>current_task_node := 0\<rparr> = s" using cur by (cases s) simp
    then have run: "do_schedule G s = Some (Inr (Idle, ?t))"
      using cur sh by (simp add: do_schedule_def kbind_Inr kthen_Inr idle_def enable_interrupts_def)
    have "sched_inv G gs N tk A ?t"
      by (rule sched_inv_frames(1) [OF inv]) simp_all
    moreover have "pick A = A" using Nil idle by (cases A) (simp add: pick_def)
    moreover have "status_sie (csrns 1 (sstatus s))" by (simp add: status_sie_def bit_csrns)
    ultimately show ?thesis using run idle by (simp add: dispatched_def)
  next
    case (Cons n ns)
    then have f: "queue_of G A ?l = n # ns" by (simp add: queue_of_def)
    note S = shift_queue [OF pl qs l f]
    let ?m = "snd (list_shift ?l (mem s))"
    have obj: "task_objects G ?H N tk" using inv by (simp add: sched_inv_def)
    have cells: "agree (span (tk k) 60) (mem s) ?m" if "k \<in> N" for k
    proof (rule agree_mono [OF S(3)])
      have "span (tk k) 60 \<subseteq> span (tk k) 592" by (rule span_mono) simp
      then show "span (tk k) 60 \<subseteq> - queue_cells ?H N" using obj that unfolding task_objects_def by blast
    qed
    have val: "n_value ?m k = tk k" if "k \<in> N" for k using S(4) [OF that] inv that by (simp add: sched_inv_def)
    have ok: "task_ok ?m (tk k)" if "k \<in> N" for k
      using task_ok_frame(1) [OF cells [OF that]] inv that by (simp add: sched_inv_def)
    let ?s1 = "s\<lparr>mem := ?m, current_task_node := n, current_task := tk n\<rparr>"
    have q: "queue_of G (pick A) = (queue_of G A)(?l := ns)"
      by (rule ext) (simp add: queue_of_def pick_def Cons)
    have inv1: "sched_inv G gs N tk (pick A) ?s1"
      using inv S(2,5-7) val ok q Cons by (simp add: sched_inv_def pick_def)
    have tbl: "area_ok 0 (t_page_table ?m (tk n))" and md: "t_mode ?m (tk n) = MODE_USER \<or> t_mode ?m (tk n) = MODE_SUPERVISOR"
      using ok [OF S(7)] by (auto simp: task_ok_def)
    have "\<not> early ?s1" using inv by (simp add: sched_inv_def)
    from load_table_ok [OF tbl this] obtain v where
      v: "load_table (t_page_table ?m (tk n)) ?s1 = Some (Inr ((), ?s1\<lparr>satp := v\<rparr>))"
        "active_root (?s1\<lparr>satp := v\<rparr>) = t_page_table ?m (tk n)" by blast
    let ?s2 = "?s1\<lparr>satp := v\<rparr>"
    have "t_mode (mem ?s2) (tk n) = MODE_USER \<or> t_mode (mem ?s2) (tk n) = MODE_SUPERVISOR" using md by simp
    from enter_task_ok [OF this, of G] obtain d t where
      d: "enter_task G (tk n) ?s2 = Some (Inr (d, t))"
        "d = (if t_mode ?m (tk n) = MODE_SUPERVISOR then Resume (t_kernel_frame (tk n)) else Enter_user)"
        "t = ?s2\<lparr>mem := mem t, sstatus := sstatus t\<rparr>" "agree (- span (sym_trapframe G) 264) ?m (mem t)"
        "d = Enter_user \<longrightarrow> mem t = copy_cpu (sym_trapframe G) (t_user_frame (tk n)) ?m"
      by auto
    have uf: "span (t_user_frame (tk n)) 264 \<subseteq> span (tk n) 592"
      unfolding t_user_frame_def by (rule span_shift_subset) simp
    then have dis: "span (sym_trapframe G) 264 \<inter> span (t_user_frame (tk n)) 264 = {}"
      using obj S(7) unfolding task_objects_def by blast
    have regs: "d = Enter_user \<longrightarrow> same_cpu (mem t) (t_user_frame (tk n)) (mem t) (sym_trapframe G)"
      using copy_cpu_same [OF dis, of ?m] d(5) by (auto simp: same_cpu_def)
    have frame: "agree (- (queue_cells ?H N \<union> span (sym_trapframe G) 264)) (mem s) (mem t)"
      by (rule agree_trans [OF agree_mono [OF S(3)] agree_mono [OF d(4)]]) blast+
    have run: "do_schedule G s = Some (Inr (d, t))"
      using cur S(1,8) val [OF S(7)] v(1) d(1)
      by (simp add: do_schedule_def kbind_Inr kthen_Inr split_def)
    have e: "early t = early s" "current_task_node t = n" "current_task t = tk n" "satp t = v"
      "sched_state.more t = sched_state.more s"
      by (subst d(3); simp)+
    have ag: "agree (- frame_cells G N tk) (mem ?s1) (mem t)"
      using d(4) by (simp add: agree_mono frame_cells_def)
    have "sched_inv G gs N tk (pick A) t"
      by (rule sched_inv_frames(1) [OF inv1 ag]) (use e in simp_all)
    moreover have keep: "t_mode (mem t) (tk n) = t_mode ?m (tk n)" "t_page_table (mem t) (tk n) = t_page_table ?m (tk n)"
      using sched_inv_frames(2,3) [OF inv1 ag _ _ _ S(7)] e by simp_all
    moreover have "active_root t = t_page_table ?m (tk n)" using v(2) e(4) by (simp add: active_root_def)
    moreover have "running (pick A) = Some n" by (simp add: pick_def Cons)
    ultimately show ?thesis using run d(2) e(5) regs frame by (simp add: dispatched_def)
  qed
qed

lemma do_schedule_buddy: "do_schedule G s = Some (Inr (d, t)) \<Longrightarrow> buddy_pages t = buddy_pages s"
  by (auto simp: do_schedule_def kbind_def kthen_def kgets_def kmodify_def kassert_def kpanic_def kreturn_def idle_def enable_interrupts_def
      load_table_def enter_task_def klongjmp_def write_mem_def return_to_user_def read_sstatus_def write_sstatus_def Let_def
      split: option.splits sum.splits prod.splits if_splits)

subsection \<open>Leaving the processor\<close>

lemma sched_invD:
  assumes "sched_inv G gs N tk A s"
  shows "places (insert (sym_tasks G) gs) N" and "task_objects G (insert (sym_tasks G) gs) N tk"
    and "queues (mem s) (insert (sym_tasks G) gs) N (queue_of G A)" and "sym_tasks G \<notin> gs" and "0 \<notin> gs"
    and "n \<in> N \<Longrightarrow> n_value (mem s) n = tk n" and "n \<in> N \<Longrightarrow> task_ok (mem s) (tk n)" and "\<not> early s"
    and "running A = None \<Longrightarrow> current_task_node s = 0 \<and> current_task s = 0"
    and "running A = Some r \<Longrightarrow> r \<in> N \<and> current_task_node s = r \<and> current_task s = tk r \<and>
      n_next (mem s) r = 0 \<and> (\<forall>h\<in>insert (sym_tasks G) gs. r \<notin> set (queue_of G A h))"
  using assms by (auto simp: sched_inv_def)

lemma task_apart:
  assumes "task_objects G H N tk" and "n \<in> N"
  shows "span (tk n) 592 \<inter> queue_cells H N = {}" and "span (tk n) 592 \<inter> span (sym_trapframe G) 264 = {}"
    and "k \<in> N \<Longrightarrow> n \<noteq> k \<Longrightarrow> span (tk n) 592 \<inter> span (tk k) 592 = {}" and "tk n \<noteq> 0"
  using assms by (auto simp: task_objects_def)

text \<open>The cells of the running task that it may write on its way out: its mode, and the frames.\<close>

definition leave_cells :: "symbols \<Rightarrow> u64 set \<Rightarrow> (u64 \<Rightarrow> u64) \<Rightarrow> u64 \<Rightarrow> u64 set" where
  "leave_cells G N tk n = span (tk n + 56) 4 \<union> frame_cells G N tk"

lemma leave_task_ok:
  assumes obj: "task_objects G H N tk" and n: "n \<in> N" and ag: "agree (- leave_cells G N tk n) m m'"
    and ok: "\<forall>k\<in>N. task_ok m (tk k)" and md: "t_mode m' (tk n) = MODE_USER \<or> t_mode m' (tk n) = MODE_SUPERVISOR"
  shows "\<forall>k\<in>N. task_ok m' (tk k)" and "queue_cells H N \<inter> leave_cells G N tk n = {}"
proof
  have sub: "span (tk k + 56) 4 \<subseteq> span (tk k) 592" "span (tk k) 60 \<subseteq> span (tk k) 592"
    "span (tk k + 48) 8 \<subseteq> span (tk k) 60" for k
    by ((rule span_shift_subset, simp), (rule span_mono, simp), (rule span_shift_subset, simp))
  note dis = frame_cells_disjoint [OF obj]
  show "queue_cells H N \<inter> leave_cells G N tk n = {}"
    using dis(1) task_apart(1) [OF obj n] sub(1) unfolding leave_cells_def by blast
  fix k assume k: "k \<in> N"
  show "task_ok m' (tk k)"
  proof (cases "k = n")
    case True
    have "span (tk n + 48) 8 \<inter> span (tk n + 56) 4 = {}" by (rule span_disjoint_offsets) simp_all
    then have "span (tk n + 48) 8 \<subseteq> - leave_cells G N tk n"
      using dis(2) [OF n] sub(3) unfolding leave_cells_def by blast
    from agree_load64 [OF ag this] have "t_page_table m' (tk n) = t_page_table m (tk n)"
      by (simp add: t_page_table_def)
    with md ok n True show ?thesis by (auto simp: task_ok_def)
  next
    case False
    have "span (tk k) 60 \<subseteq> - leave_cells G N tk n"
      using dis(2) [OF k] task_apart(3) [OF obj k n False] sub unfolding leave_cells_def by blast
    from task_ok_frame(1) [OF agree_mono [OF ag this]] ok k show ?thesis by blast
  qed
qed

lemma release_running:
  assumes inv: "sched_inv G gs N tk A s" and run: "running A = Some n" and h: "h \<in> insert (sym_tasks G) gs"
    and q: "queue_of G B = (queue_of G A)(h := queue_of G A h @ [n])" and B: "running B = None"
    and ag: "agree (- leave_cells G N tk n) (list_push h n (mem s)) m"
    and md: "t_mode m (tk n) = MODE_USER \<or> t_mode m (tk n) = MODE_SUPERVISOR"
  shows "sched_inv G gs N tk B (s\<lparr>mem := m, current_task := 0, current_task_node := 0\<rparr>)"
proof -
  note I = sched_invD [OF inv]
  let ?H = "insert (sym_tasks G) gs" and ?p = "list_push h n (mem s)"
  have r: "n \<in> N" "n_next (mem s) n = 0" "\<forall>k\<in>?H. n \<notin> set (queue_of G A k)"
    using I(10) [OF run] by simp_all
  note P = push_queue [OF I(1,3) h r(1,3,2)]
  have cells: "agree (span (tk k) 60) (mem s) ?p" if "k \<in> N" for k
  proof (rule agree_mono [OF P(2)])
    have "span (tk k) 60 \<subseteq> span (tk k) 592" by (rule span_mono) simp
    then show "span (tk k) 60 \<subseteq> - queue_cells ?H N" using task_apart(1) [OF I(2) that] by blast
  qed
  have okp: "\<forall>k\<in>N. task_ok ?p (tk k)" using task_ok_frame(1) [OF cells] I(7) by blast
  note L = leave_task_ok [OF I(2) r(1) ag okp md]
  have agq: "agree (queue_cells ?H N) ?p m" by (rule agree_mono [OF ag]) (use L(2) in blast)
  have "queues m ?H N (queue_of G B)" unfolding q by (rule queues_frame [OF P(1) agq])
  moreover have "n_value m k = tk k" if "k \<in> N" for k
    using node_field_frame(1) [OF agq queue_node_cells [OF that]] P(3) [OF that] I(6) [OF that] by simp
  ultimately show ?thesis using I(1,2,4,5,8) L(1) B by (simp add: sched_inv_def)
qed

text \<open>The writes of a thread that leaves.\<close>

lemma set_t_mode_ok:
  shows "t_mode (set_t_mode t v m) t = v" and "agree (- span (t + 56) 4) m (set_t_mode t v m)"
  by (simp_all add: t_mode_def set_t_mode_def agree_sym [OF agree_store32])

lemma frame_sub:
  "span (t_kernel_frame t) 264 \<subseteq> span (t + 64) 528" "span (t_user_frame t) 264 \<subseteq> span (t + 64) 528"
proof -
  have "span (t + 64 + 264) 264 \<subseteq> span (t + 64) 528" by (rule span_shift_subset) simp
  then show "span (t_user_frame t) 264 \<subseteq> span (t + 64) 528" by (simp add: t_user_frame_def add.assoc)
  show "span (t_kernel_frame t) 264 \<subseteq> span (t + 64) 528"
    unfolding t_kernel_frame_def by (rule span_mono) simp
qed

lemma leave_agree:
  assumes "n \<in> N" and "agree (- span (t_kernel_frame (tk n)) 264) m1 m2 \<or> agree (- span (t_user_frame (tk n)) 264) m1 m2
      \<or> agree (- span (tk n + 56) 4) m1 m2"
  shows "agree (- leave_cells G N tk n) m1 m2"
  using assms frame_sub [of "tk n"] unfolding leave_cells_def frame_cells_def
  by (elim disjE) (erule agree_mono, blast)+

subsection \<open>Events\<close>

text \<open>
  All that an event writes: the lists, the trap frame, and the task of the thread that leaves
  the processor.
\<close>

definition step_cells :: "symbols \<Rightarrow> u64 set \<Rightarrow> u64 set \<Rightarrow> (u64 \<Rightarrow> u64) \<Rightarrow> u64 option \<Rightarrow> u64 set" where
  "step_cells G gs N tk r = queue_cells (insert (sym_tasks G) gs) N \<union> span (sym_trapframe G) 264 \<union>
     (case r of None \<Rightarrow> {} | Some n \<Rightarrow> span (tk n) 592)"

lemma own_cells:
  "span (t_kernel_frame t) 264 \<subseteq> span t 592" "span (t_user_frame t) 264 \<subseteq> span t 592" "span (t + 56) 4 \<subseteq> span t 592"
  unfolding t_kernel_frame_def t_user_frame_def by (rule span_shift_subset; simp)+

lemma step_cells_other:
  assumes "task_objects G (insert (sym_tasks G) gs) N tk" and "k \<in> N" and "r \<noteq> Some k"
    and "\<forall>n. r = Some n \<longrightarrow> n \<in> N"
  shows "span (tk k) 592 \<inter> step_cells G gs N tk r = {}"
proof (cases r)
  case None
  then show ?thesis using task_apart(1,2) [OF assms(1,2)] by (auto simp: step_cells_def)
next
  case (Some n)
  then have "n \<in> N" "k \<noteq> n" using assms(3,4) by auto
  from task_apart(1-3) [OF assms(1,2)] this show ?thesis unfolding step_cells_def Some by auto
qed

lemma wait_ok:
  assumes inv: "sched_inv G gs N tk A s" and run: "running A = Some n" and g: "g \<in> gs"
    and B: "B = pick (A\<lparr>waiting := (waiting A)(g := waiting A g @ [n]), running := None\<rparr>)"
  shows "\<exists>d t. wait G g s = Some (Inr (d, t)) \<and> sched_inv G gs N tk B t \<and> dispatched G tk B d t \<and>
    sched_state.more t = sched_state.more s \<and> agree (- step_cells G gs N tk (running A)) (mem s) (mem t)"
proof -
  note I = sched_invD [OF inv]
  have r: "n \<in> N" "current_task_node s = n" "current_task s = tk n" "n_next (mem s) n = 0"
    "\<forall>h\<in>insert (sym_tasks G) gs. n \<notin> set (queue_of G A h)" using I(10) [OF run] by simp_all
  have nz: "n \<noteq> 0" using I(1) r(1) by (auto simp: places_def)
  have ne: "g \<noteq> sym_tasks G" "g \<noteq> 0" using I(4,5) g by auto
  let ?A = "A\<lparr>waiting := (waiting A)(g := waiting A g @ [n]), running := None\<rparr>"
  let ?p = "list_push g n (mem s)"
  let ?m1 = "set_t_mode (tk n) MODE_SUPERVISOR ?p"
  let ?s1 = "s\<lparr>mem := ?m1\<rparr>"
  obtain m where k: "ksetjmp G (t_kernel_frame (tk n)) ?s1 = Some (Inr ((), ?s1\<lparr>mem := m\<rparr>))"
    "agree (- span (t_kernel_frame (tk n)) 264) ?m1 m"
    using ksetjmp_ok [of G "t_kernel_frame (tk n)" ?s1] by auto
  have ag: "agree (- leave_cells G N tk n) ?p m"
    by (rule agree_trans; rule leave_agree [OF r(1)]) (use set_t_mode_ok(2) k(2) in blast)+
  have "span (t_kernel_frame (tk n)) 264 \<inter> span (tk n + 56) 4 = {}"
    unfolding t_kernel_frame_def by (rule span_disjoint_offsets) simp_all
  then have "span (tk n + 56) 4 \<subseteq> - span (t_kernel_frame (tk n)) 264" by blast
  from agree_load32 [OF k(2) this] have "t_mode m (tk n) = MODE_SUPERVISOR"
    using set_t_mode_ok(1) [of "tk n" MODE_SUPERVISOR ?p] by (simp add: t_mode_def)
  then have md: "t_mode m (tk n) = MODE_USER \<or> t_mode m (tk n) = MODE_SUPERVISOR" ..
  have q: "queue_of G ?A = (queue_of G A)(g := queue_of G A g @ [n])"
    by (rule ext) (simp add: queue_of_def ne)
  have "sched_inv G gs N tk ?A (s\<lparr>mem := m, current_task := 0, current_task_node := 0\<rparr>)"
    by (rule release_running [OF inv run _ q _ ag md]) (use g in simp_all)
  from do_schedule_ok [OF this] obtain d t where
    "do_schedule G (s\<lparr>mem := m, current_task := 0, current_task_node := 0\<rparr>) = Some (Inr (d, t))"
    "sched_inv G gs N tk B t" "dispatched G tk B d t" "sched_state.more t = sched_state.more s"
    "agree (- (queue_cells (insert (sym_tasks G) gs) N \<union> span (sym_trapframe G) 264)) m (mem t)"
    unfolding B by auto
  moreover have "agree (- step_cells G gs N tk (running A)) (mem s) (mem t)"
  proof (rule agree_trans [OF agree_trans [OF agree_trans]])
    show "agree (- step_cells G gs N tk (running A)) (mem s) ?p"
      by (rule agree_mono [OF push_queue(2) [OF I(1,3) insertI2 [OF g] r(1,5,4)]]) (auto simp: step_cells_def)
    show "agree (- step_cells G gs N tk (running A)) ?p ?m1"
      by (rule agree_mono [OF set_t_mode_ok(2)]) (use own_cells(3) in \<open>auto simp: step_cells_def run\<close>)
    show "agree (- step_cells G gs N tk (running A)) ?m1 m"
      by (rule agree_mono [OF k(2)]) (use own_cells(1) in \<open>auto simp: step_cells_def run\<close>)
    show "agree (- step_cells G gs N tk (running A)) m (mem t)"
      by (rule agree_mono [OF calculation(5)]) (auto simp: step_cells_def)
  qed
  ultimately show ?thesis
    using k(1) r(2,3) nz ne(2) by (simp add: wait_def kbind_Inr kthen_Inr schedule_def)
qed

text \<open>The interrupted registers go into the task's frame for the mode.\<close>

lemma save_registers:
  fixes mode :: u32 and m :: memory
  assumes obj: "task_objects G H N tk" and n: "n \<in> N"
  defines "fr \<equiv> if mode = MODE_SUPERVISOR then t_kernel_frame (tk n) else t_user_frame (tk n)"
  defines "m' \<equiv> set_t_mode (tk n) mode (copy_cpu fr (sym_trapframe G) m)"
  shows "same_cpu m (sym_trapframe G) m' fr" and "t_mode m' (tk n) = mode" and "agree (- span (tk n) 592) m m'"
    and "span fr 264 \<subseteq> span (tk n) 592" and "agree (- leave_cells G N tk n) m m'"
proof -
  show sub: "span fr 264 \<subseteq> span (tk n) 592" unfolding fr_def using own_cells(1,2) by simp
  then have "span fr 264 \<inter> span (sym_trapframe G) 264 = {}" using task_apart(2) [OF obj n] by blast
  note C = copy_cpu_same(1) [OF this, of m]
  have "span fr 264 \<inter> span (tk n + 56) 4 = {}"
    unfolding fr_def t_kernel_frame_def t_user_frame_def by (simp add: span_disjoint_offsets)
  then have "agree (span fr 264) (copy_cpu fr (sym_trapframe G) m) m'"
    unfolding m'_def by (intro agree_mono [OF set_t_mode_ok(2)]) blast
  from same_cpu_trans [OF C same_cpu_agree [OF this]] show "same_cpu m (sym_trapframe G) m' fr" .
  show "t_mode m' (tk n) = mode" by (simp add: m'_def set_t_mode_ok(1))
  have "agree (- span (tk n) 592) m (copy_cpu fr (sym_trapframe G) m)"
    by (rule agree_mono [OF copy_cpu_frame]) (use sub in blast)
  moreover have "agree (- span (tk n) 592) (copy_cpu fr (sym_trapframe G) m) m'"
    unfolding m'_def by (rule agree_mono [OF set_t_mode_ok(2)]) (use own_cells(3) in blast)
  ultimately show "agree (- span (tk n) 592) m m'" by (rule agree_trans)
  have "agree (- leave_cells G N tk n) m (copy_cpu fr (sym_trapframe G) m)"
    by (rule leave_agree [OF n]) (simp add: copy_cpu_frame fr_def)
  moreover have "agree (- leave_cells G N tk n) (copy_cpu fr (sym_trapframe G) m) m'"
    unfolding m'_def by (rule leave_agree [OF n]) (use set_t_mode_ok(2) in blast)
  ultimately show "agree (- leave_cells G N tk n) m m'" by (rule agree_trans)
qed

text \<open>
  \<open>schedule_next\<close> once the running thread has saved its registers and its mode in its task: it
  goes behind the ready threads, the first of them runs, and what it saved is kept.
\<close>

lemma schedule_next_ok:
  assumes inv: "sched_inv G gs N tk A s" and run: "running A = Some n"
    and ag: "agree (- leave_cells G N tk n) (mem s) m" and own: "agree (- span (tk n) 592) (mem s) m"
    and md: "t_mode m (tk n) = MODE_USER \<or> t_mode m (tk n) = MODE_SUPERVISOR"
    and B: "B = pick (A\<lparr>ready := ready A @ [n], running := None\<rparr>)"
  shows "\<exists>d t. schedule_next G (s\<lparr>mem := m\<rparr>) = Some (Inr (d, t)) \<and> sched_inv G gs N tk B t \<and>
    dispatched G tk B d t \<and> sched_state.more t = sched_state.more s \<and>
    agree (- step_cells G gs N tk (Some n)) (mem s) (mem t) \<and> agree (span (tk n) 592) m (mem t)"
proof -
  note I = sched_invD [OF inv]
  have r: "n \<in> N" "current_task_node s = n" "\<forall>h\<in>insert (sym_tasks G) gs. n \<notin> set (queue_of G A h)"
    using I(10) [OF run] by simp_all
  let ?A = "A\<lparr>ready := ready A @ [n], running := None\<rparr>"
  let ?s2 = "s\<lparr>mem := m\<rparr>"
  have "\<forall>k\<in>N. task_ok (mem s) (tk k)" using I(7) by blast
  note L = leave_task_ok [OF I(2) r(1) ag this md]
  have "agree (queue_cells (insert (sym_tasks G) gs) N) (mem s) m"
    by (rule agree_mono [OF ag]) (use L(2) in blast)
  with sched_inv_frame [OF inv, of ?s2] L(1) have inv2: "sched_inv G gs N tk A ?s2" by simp
  have q: "queue_of G ?A = (queue_of G A)(sym_tasks G := queue_of G A (sym_tasks G) @ [n])"
    by (rule ext) (simp add: queue_of_def)
  let ?m3 = "list_push (sym_tasks G) n m"
  have "n_next m n = 0" using sched_invD(10) [OF inv2 run] by simp
  from push_queue(2) [OF I(1) sched_invD(3) [OF inv2] insertI1 r(1,3)] this
  have pa: "agree (- queue_cells (insert (sym_tasks G) gs) N) m ?m3" by simp
  have "agree (span (tk n) 592) m ?m3" by (rule agree_mono [OF pa]) (use task_apart(1) [OF I(2) r(1)] in blast)
  from agree_load32 [OF this own_cells(3)] md
  have md3: "t_mode ?m3 (tk n) = MODE_USER \<or> t_mode ?m3 (tk n) = MODE_SUPERVISOR" by (simp add: t_mode_def)
  have "sched_inv G gs N tk ?A (?s2\<lparr>mem := ?m3, current_task := 0, current_task_node := 0\<rparr>)"
    by (rule release_running [OF inv2 run insertI1 q _ _ md3]) simp_all
  from do_schedule_ok [OF this] obtain d t where d:
    "do_schedule G (s\<lparr>mem := ?m3, current_task := 0, current_task_node := 0\<rparr>) = Some (Inr (d, t))"
    "sched_inv G gs N tk B t" "dispatched G tk B d t" "sched_state.more t = sched_state.more s"
    "agree (- (queue_cells (insert (sym_tasks G) gs) N \<union> span (sym_trapframe G) 264)) ?m3 (mem t)"
    unfolding B by auto
  have "agree (span (tk n) 592) m (mem t)"
    using task_apart(1,2) [OF I(2) r(1)]
    by (intro agree_trans [OF agree_mono [OF pa] agree_mono [OF d(5)]]) auto
  moreover have "agree (- step_cells G gs N tk (Some n)) (mem s) (mem t)"
    by (rule agree_trans [OF agree_trans [OF agree_mono [OF own] agree_mono [OF pa]] agree_mono [OF d(5)]])
      (auto simp: step_cells_def)
  moreover have "schedule_next G ?s2 = do_schedule G (s\<lparr>mem := ?m3, current_task := 0, current_task_node := 0\<rparr>)"
    using r(2) by (simp add: schedule_next_def kthen_Inr schedule_def)
  ultimately show ?thesis using d(1-4) by simp
qed

lemma timer_tick_ok:
  assumes inv: "sched_inv G gs N tk A s" and step: "sched_step A (Tick mode) B"
  shows "\<exists>d t. timer_tick G (sym_trapframe G) mode s = Some (Inr (d, t)) \<and> sched_inv G gs N tk B t \<and>
    dispatched G tk B d t \<and> sched_state.more t = sched_state.more s \<and>
    agree (- step_cells G gs N tk (running A)) (mem s) (mem t) \<and>
    (\<forall>n. running A = Some n \<longrightarrow> t_mode (mem t) (tk n) = mode \<and>
      same_cpu (mem s) (sym_trapframe G) (mem t)
        (if mode = MODE_SUPERVISOR then t_kernel_frame (tk n) else t_user_frame (tk n)))"
proof -
  consider (idle) "B = pick A" "running A = None"
    | (busy) n where "B = pick (A\<lparr>ready := ready A @ [n], running := None\<rparr>)" "running A = Some n"
        "mode = MODE_USER \<or> mode = MODE_SUPERVISOR"
    using step by (rule tickE) auto
  then show ?thesis
  proof cases
    case idle
    have "timer_tick G (sym_trapframe G) mode s = do_schedule G s"
      using sched_invD(9) [OF inv idle(2)] by (simp add: timer_tick_def kbind_Inr schedule_def)
    with do_schedule_ok [OF inv idle(2)] idle show ?thesis
      by (auto simp: step_cells_def)
  next
    case (busy n)
    note I = sched_invD [OF inv]
    have r: "n \<in> N" "current_task s = tk n" using I(10) [OF busy(2)] by simp_all
    have nz: "tk n \<noteq> 0" using task_apart(4) [OF I(2) r(1)] .
    let ?fr = "if mode = MODE_SUPERVISOR then t_kernel_frame (tk n) else t_user_frame (tk n)"
    let ?m = "set_t_mode (tk n) mode (copy_cpu ?fr (sym_trapframe G) (mem s))"
    have save: "same_cpu (mem s) (sym_trapframe G) ?m ?fr" "t_mode ?m (tk n) = mode"
      "agree (- span (tk n) 592) (mem s) ?m" "span ?fr 264 \<subseteq> span (tk n) 592"
      "agree (- leave_cells G N tk n) (mem s) ?m"
      by (rule save_registers [OF I(2) r(1)])+
    have md: "t_mode ?m (tk n) = MODE_USER \<or> t_mode ?m (tk n) = MODE_SUPERVISOR" using busy(3) save(2) by simp
    from schedule_next_ok [OF inv busy(2) save(5,3) md busy(1)] obtain d t where
      d: "schedule_next G (s\<lparr>mem := ?m\<rparr>) = Some (Inr (d, t))" "sched_inv G gs N tk B t" "dispatched G tk B d t"
        "sched_state.more t = sched_state.more s" "agree (- step_cells G gs N tk (Some n)) (mem s) (mem t)"
        "agree (span (tk n) 592) ?m (mem t)" by blast
    have "t_mode (mem t) (tk n) = mode" using agree_load32 [OF d(6) own_cells(3)] save(2) by (simp add: t_mode_def)
    moreover have "same_cpu (mem s) (sym_trapframe G) (mem t) ?fr"
      by (rule same_cpu_trans [OF save(1) same_cpu_agree [OF agree_mono [OF d(6) save(4)]]])
    moreover have "timer_tick G (sym_trapframe G) mode s = schedule_next G (s\<lparr>mem := ?m\<rparr>)"
      using r(2) nz busy(3) by (auto simp: timer_tick_def kbind_Inr kthen_Inr write_mem_def)
    ultimately show ?thesis using d(1-5) busy(2) by simp
  qed
qed

text \<open>\<open>wakeup\<close> moves the threads one by one.\<close>

lemma move_one:
  assumes inv: "sched_inv G gs N tk A s" and g: "g \<in> gs" and w: "waiting A g = x # xs"
  defines "m1 \<equiv> snd (list_shift g (mem s))"
  defines "m2 \<equiv> list_push (sym_tasks G) x m1"
  shows "sched_inv G gs N tk (A\<lparr>ready := ready A @ [x], waiting := (waiting A)(g := xs)\<rparr>) (s\<lparr>mem := m2\<rparr>)"
    and "list_shift g (mem s) = (x, m1)" and "x \<noteq> 0"
    and "agree (- queue_cells (insert (sym_tasks G) gs) N) (mem s) m2"
proof -
  let ?H = "insert (sym_tasks G) gs" and ?l = "sym_tasks G"
  let ?B = "A\<lparr>ready := ready A @ [x], waiting := (waiting A)(g := xs)\<rparr>"
  note I = sched_invD [OF inv]
  have ne: "g \<noteq> ?l" and gH: "g \<in> ?H" using I(4) g by auto
  have f: "queue_of G A g = x # xs" using w ne by (simp add: queue_of_def)
  note S = shift_queue [OF I(1,3) gH f, folded m1_def]
  show "list_shift g (mem s) = (x, m1)" "x \<noteq> 0" using S(1,8) by (simp_all add: m1_def prod_eq_iff)
  note P = push_queue [OF I(1) S(2) insertI1 S(7,6,5), folded m2_def]
  have q: "queue_of G ?B = ((queue_of G A)(g := xs))(?l := ((queue_of G A)(g := xs)) ?l @ [x])"
    by (rule ext) (simp add: queue_of_def ne [symmetric])
  show ag: "agree (- queue_cells ?H N) (mem s) m2" by (rule agree_trans [OF S(3) P(2)])
  have cells: "agree (span (tk k) 60) (mem s) m2" if "k \<in> N" for k
  proof (rule agree_mono [OF ag])
    have "span (tk k) 60 \<subseteq> span (tk k) 592" by (rule span_mono) simp
    then show "span (tk k) 60 \<subseteq> - queue_cells ?H N" using task_apart(1) [OF I(2) that] by blast
  qed
  have v: "n_value m2 k = tk k" "task_ok m2 (tk k)" if "k \<in> N" for k
    using P(3) [OF that] S(4) [OF that] I(6,7) [OF that] task_ok_frame(1) [OF cells [OF that]] by simp_all
  have r: "n_next m2 r = 0 \<and> (\<forall>h\<in>?H. r \<notin> set (queue_of G ?B h))" if "running A = Some r" for r
  proof -
    have R: "r \<in> N" "n_next (mem s) r = 0" "\<forall>h\<in>?H. r \<notin> set (queue_of G A h)" using I(10) [OF that] by simp_all
    then have "r \<noteq> x" using f gH by auto
    moreover have "r \<notin> set (((queue_of G A)(g := xs)) ?l)" using R(3) ne by auto
    ultimately have "n_next m2 r = 0" using P(4) [OF R(1)] S(9) [OF R(1)] R(2) by simp
    moreover have "\<forall>h\<in>?H. r \<notin> set (queue_of G ?B h)"
      unfolding q using R(3) \<open>r \<noteq> x\<close> f gH by (auto split: if_splits)
    ultimately show ?thesis ..
  qed
  have "queues m2 ?H N (queue_of G ?B)" unfolding q by (rule P(1))
  then show "sched_inv G gs N tk ?B (s\<lparr>mem := m2\<rparr>)"
    using I(1,2,4,5,8-10) v r unfolding sched_inv_def by (auto split: option.split)
qed

lemma wakeup_loop_ok:
  "sched_inv G gs N tk A s \<Longrightarrow> g \<in> gs \<Longrightarrow> waiting A g = xs \<Longrightarrow>
    \<exists>m. wakeup_loop G g (mem s) = Some m \<and>
      sched_inv G gs N tk (A\<lparr>ready := ready A @ xs, waiting := (waiting A)(g := [])\<rparr>) (s\<lparr>mem := m\<rparr>) \<and>
      agree (- queue_cells (insert (sym_tasks G) gs) N) (mem s) m"
proof (induction xs arbitrary: A s)
  case Nil
  note I = sched_invD [OF Nil.prems(1)]
  have "g \<noteq> sym_tasks G" using I(4) Nil.prems(2) by auto
  then have "queue_of G A g = []" using Nil.prems(3) by (simp add: queue_of_def)
  then obtain q where "list_rep q (mem s) g []" using I(3) Nil.prems(2) unfolding queues_def by force
  then have "list_shift g (mem s) = (0, mem s)" by (rule list_shift_empty)
  then have "wakeup_loop G g (mem s) = Some (mem s)" by (subst wakeup_loop.simps) simp
  moreover have "A\<lparr>ready := ready A @ [], waiting := (waiting A)(g := [])\<rparr> = A"
    using Nil.prems(3) by (cases A) auto
  moreover have "s\<lparr>mem := mem s\<rparr> = s" by (cases s) simp
  ultimately show ?case using Nil.prems(1) by (intro exI [of _ "mem s"]) (simp only: simp_thms agree_refl)
next
  case (Cons x xs)
  let ?B = "A\<lparr>ready := ready A @ [x], waiting := (waiting A)(g := xs)\<rparr>"
  note M = move_one [OF Cons.prems]
  let ?m = "list_push (sym_tasks G) x (snd (list_shift g (mem s)))"
  have "wakeup_loop G g (mem s) = wakeup_loop G g ?m"
    using M(2,3) by (subst wakeup_loop.simps) (simp add: split_def prod_eq_iff)
  moreover have "waiting ?B g = xs" by simp
  note IH = Cons.IH [OF M(1) Cons.prems(2) this]
  have "?B\<lparr>ready := ready ?B @ xs, waiting := (waiting ?B)(g := [])\<rparr> =
      A\<lparr>ready := ready A @ x # xs, waiting := (waiting A)(g := [])\<rparr>"
    by (cases A) (simp add: fun_eq_iff)
  from IH [unfolded this] have "\<exists>m. wakeup_loop G g ?m = Some m \<and>
      sched_inv G gs N tk (A\<lparr>ready := ready A @ x # xs, waiting := (waiting A)(g := [])\<rparr>) (s\<lparr>mem := m\<rparr>) \<and>
      agree (- queue_cells (insert (sym_tasks G) gs) N) ?m m"
    by (simp del: fun_upd_apply)
  ultimately show ?case using agree_trans [OF M(4)] by metis
qed

definition wake_group :: "u64 \<Rightarrow> threads \<Rightarrow> threads" where
  "wake_group g A = A\<lparr>ready := ready A @ waiting A g, waiting := (waiting A)(g := [])\<rparr>"

lemma wakeup_ok:
  assumes "sched_inv G gs N tk A s" and "g \<in> gs"
  shows "\<exists>m. wakeup G g s = Some (Inr ((), s\<lparr>mem := m\<rparr>)) \<and> sched_inv G gs N tk (wake_group g A) (s\<lparr>mem := m\<rparr>) \<and>
    agree (- queue_cells (insert (sym_tasks G) gs) N) (mem s) m"
proof -
  from wakeup_loop_ok [OF assms refl] obtain m where "wakeup_loop G g (mem s) = Some m"
    "sched_inv G gs N tk (A\<lparr>ready := ready A @ waiting A g, waiting := (waiting A)(g := [])\<rparr>) (s\<lparr>mem := m\<rparr>)"
    "agree (- queue_cells (insert (sym_tasks G) gs) N) (mem s) m"
    by blast
  moreover from this have "wakeup G g s = Some (Inr ((), s\<lparr>mem := m\<rparr>))"
    by (simp add: wakeup_def kbind_Inr kwalk_Some)
  ultimately show ?thesis unfolding wake_group_def by blast
qed

subsection \<open>Runs\<close>

primrec run_events :: "symbols \<Rightarrow> event list \<Rightarrow> ('a sched_state_scheme, dispatch option list) kern" where
  "run_events G [] = kreturn []"
| "run_events G (e # es) = kbind (perform G e) (\<lambda>d. kbind (run_events G es) (\<lambda>ds. kreturn (d # ds)))"

inductive sched_run :: "threads \<Rightarrow> event list \<Rightarrow> threads \<Rightarrow> bool" where
  run_nil: "sched_run A [] A"
| run_cons: "sched_step A e B \<Longrightarrow> sched_run B es C \<Longrightarrow> sched_run A (e # es) C"

inductive_cases run_nilE: "sched_run A [] B"
inductive_cases run_consE: "sched_run A (e # es) C"

code_pred (modes: i \<Rightarrow> i \<Rightarrow> o \<Rightarrow> bool) sched_step .
code_pred (modes: i \<Rightarrow> i \<Rightarrow> o \<Rightarrow> bool) sched_run .

primrec group_ok :: "u64 set \<Rightarrow> event \<Rightarrow> bool" where
  "group_ok gs (Tick mode) = True"
| "group_ok gs (Block g) = (g \<in> gs)"
| "group_ok gs (Wake g) = (g \<in> gs)"

primrec dispatches :: "event \<Rightarrow> bool" where
  "dispatches (Tick mode) = True"
| "dispatches (Block g) = True"
| "dispatches (Wake g) = False"

lemma perform_ok:
  assumes "sched_inv G gs N tk A s" and "sched_step A e B" and "group_ok gs e"
  shows "\<exists>r t. perform G e s = Some (Inr (r, t)) \<and> sched_inv G gs N tk B t \<and>
    (if dispatches e then \<exists>d. r = Some d \<and> dispatched G tk B d t else r = None) \<and>
    agree (- step_cells G gs N tk (running A)) (mem s) (mem t) \<and>
    (\<forall>n mode. running A = Some n \<and> e = Tick mode \<longrightarrow> t_mode (mem t) (tk n) = mode \<and>
      same_cpu (mem s) (sym_trapframe G) (mem t)
        (if mode = MODE_SUPERVISOR then t_kernel_frame (tk n) else t_user_frame (tk n)))"
proof (cases e)
  case (Tick mode)
  from timer_tick_ok [OF assms(1), of mode B] assms(2) Tick obtain d t where
    "timer_tick G (sym_trapframe G) mode s = Some (Inr (d, t))" "sched_inv G gs N tk B t" "dispatched G tk B d t"
    "agree (- step_cells G gs N tk (running A)) (mem s) (mem t)"
    "\<forall>n. running A = Some n \<longrightarrow> t_mode (mem t) (tk n) = mode \<and> same_cpu (mem s) (sym_trapframe G) (mem t)
        (if mode = MODE_SUPERVISOR then t_kernel_frame (tk n) else t_user_frame (tk n))" by blast
  then show ?thesis using Tick by (intro exI [of _ "Some d"] exI [of _ t]) (simp add: perform_def kbind_Inr)
next
  case (Block g)
  obtain n where n: "B = pick (A\<lparr>waiting := (waiting A)(g := waiting A g @ [n]), running := None\<rparr>)" "running A = Some n"
    using assms(2) unfolding Block by (rule blockE)
  have "g \<in> gs" using assms(3) Block by simp
  from wait_ok [OF assms(1) n(2) this n(1)] Block show ?thesis by (auto simp: perform_def kbind_Inr)
next
  case (Wake g)
  then have g: "g \<in> gs" and B: "B = wake_group g A"
    using assms(2,3) by (simp_all add: wake_iff wake_group_def)
  from wakeup_ok [OF assms(1) g] obtain m where m: "wakeup G g s = Some (Inr ((), s\<lparr>mem := m\<rparr>))"
    "sched_inv G gs N tk B (s\<lparr>mem := m\<rparr>)" "agree (- queue_cells (insert (sym_tasks G) gs) N) (mem s) m"
    unfolding B by blast
  have "agree (- step_cells G gs N tk (running A)) (mem s) m"
    by (rule agree_mono [OF m(3)]) (auto simp: step_cells_def)
  with m(1,2) Wake show ?thesis by (simp add: perform_def kthen_Inr)
qed

lemma run_events_ok:
  assumes "sched_run A es B"
  shows "sched_inv G gs N tk A s \<Longrightarrow> \<forall>e\<in>set es. group_ok gs e \<Longrightarrow>
    \<exists>ds t. run_events G es s = Some (Inr (ds, t)) \<and> sched_inv G gs N tk B t"
  using assms
proof (induction arbitrary: s rule: sched_run.induct)
  case (run_nil A)
  then show ?case by simp
next
  case (run_cons A e B es C)
  from run_cons.prems perform_ok [OF _ run_cons.hyps(1)] obtain r t where
    "perform G e s = Some (Inr (r, t))" "sched_inv G gs N tk B t" by force
  with run_cons.IH [of t] run_cons.prems(2) show ?case by (auto simp: kbind_Inr)
qed

subsection \<open>What the abstract scheduler keeps\<close>

definition thread_count :: "u64 set \<Rightarrow> threads \<Rightarrow> u64 multiset" where
  "thread_count gs A = mset (ready A) + (\<Sum>g\<in>gs. mset (waiting A g)) +
     (case running A of None \<Rightarrow> {#} | Some n \<Rightarrow> {#n#})"

lemma pick_count: "running A = None \<Longrightarrow> thread_count gs (pick A) = thread_count gs A"
  by (simp add: thread_count_def pick_def split: list.split)

lemma waiting_count:
  assumes "finite gs" and "g \<in> gs"
  shows "(\<Sum>h\<in>gs. mset (((waiting A)(g := xs)) h)) + mset (waiting A g) = (\<Sum>h\<in>gs. mset (waiting A h)) + mset xs"
proof -
  have "(\<Sum>h\<in>gs. mset (((waiting A)(g := xs)) h)) = mset xs + (\<Sum>h\<in>gs - {g}. mset (((waiting A)(g := xs)) h))"
    using sum.remove [OF assms, of "\<lambda>h. mset (((waiting A)(g := xs)) h)"] by simp
  also have "(\<Sum>h\<in>gs - {g}. mset (((waiting A)(g := xs)) h)) = (\<Sum>h\<in>gs - {g}. mset (waiting A h))"
    by (rule sum.cong) auto
  finally show ?thesis using sum.remove [OF assms, of "\<lambda>h. mset (waiting A h)"] by simp
qed

lemma step_count:
  assumes "sched_step A e B" and "finite gs" and "group_ok gs e"
  shows "thread_count gs B = thread_count gs A"
  using assms
proof cases
  case (tick_idle mode)
  then show ?thesis by (simp add: pick_count)
next
  case (tick n mode)
  then show ?thesis by (simp add: pick_count) (simp add: thread_count_def)
next
  case (block n g)
  then have "g \<in> gs" using assms(3) by simp
  from waiting_count [OF assms(2) this, of A "waiting A g @ [n]"]
  have "(\<Sum>h\<in>gs. mset (((waiting A)(g := waiting A g @ [n])) h)) = (\<Sum>h\<in>gs. mset (waiting A h)) + {#n#}"
    by (simp add: ac_simps)
  then show ?thesis using block by (simp add: pick_count) (simp add: thread_count_def)
next
  case (wake g)
  then have "g \<in> gs" using assms(3) by simp
  from waiting_count [OF assms(2) this, of A "[]"] show ?thesis
    using wake by (simp add: thread_count_def ac_simps)
qed

lemma run_count:
  assumes "sched_run A es B" and "finite gs"
  shows "\<forall>e\<in>set es. group_ok gs e \<Longrightarrow> thread_count gs B = thread_count gs A"
  using assms by (induction rule: sched_run.induct) (auto dest: step_count)

text \<open>Threads run in the order of the queue, whatever joins it behind them.\<close>

lemma dispatch_step:
  assumes "sched_step A e B" and "dispatches e" and "ready A = x # xs"
  shows "\<exists>zs. ready B = xs @ zs \<and> running B = Some x"
  using assms by cases (auto simp: pick_def)

lemma run_order:
  assumes "sched_run A es B"
  shows "ready A = xs @ ys \<Longrightarrow> length xs = length (filter dispatches es) \<Longrightarrow>
    \<exists>zs. ready B = ys @ zs \<and> running B = (if xs = [] then running A else Some (last xs))"
  using assms
proof (induction arbitrary: xs ys rule: sched_run.induct)
  case (run_nil A)
  then show ?case by simp
next
  case (run_cons A e B es C)
  show ?case
  proof (cases "dispatches e")
    case True
    with run_cons.prems obtain x xs' where xs: "xs = x # xs'" "length xs' = length (filter dispatches es)"
      by (cases xs) auto
    with dispatch_step [OF run_cons.hyps(1) True] run_cons.prems(1) obtain zs where
      "ready B = xs' @ (ys @ zs)" "running B = Some x" by auto
    from run_cons.IH [OF this(1) xs(2)] this(2) xs(1) show ?thesis by auto
  next
    case False
    then obtain g where g: "e = Wake g" by (cases e) auto
    with run_cons.hyps(1) have "ready B = xs @ (ys @ waiting A g)" "running B = running A"
      using run_cons.prems(1) by (simp_all add: wake_iff)
    with run_cons.IH [OF this(1)] run_cons.prems(2) False show ?thesis by auto
  qed
qed

subsection \<open>Two threads in memory\<close>

text \<open>A new thread joins the run queue as in \<open>task_init_sched\<close>.\<close>

lemma make_ready:
  assumes inv: "sched_inv G gs N tk A s" and n: "n \<in> N" "n_next (mem s) n = 0"
    and free: "\<forall>h\<in>insert (sym_tasks G) gs. n \<notin> set (queue_of G A h)" and run: "running A = None"
  shows "sched_inv G gs N tk (A\<lparr>ready := ready A @ [n]\<rparr>) (s\<lparr>mem := list_push (sym_tasks G) n (mem s)\<rparr>)"
proof -
  note I = sched_invD [OF inv]
  let ?H = "insert (sym_tasks G) gs"
  note P = push_queue [OF I(1,3) insertI1 n(1) free n(2)]
  have cells: "agree (span (tk k) 60) (mem s) (list_push (sym_tasks G) n (mem s))" if "k \<in> N" for k
  proof (rule agree_mono [OF P(2)])
    have "span (tk k) 60 \<subseteq> span (tk k) 592" by (rule span_mono) simp
    then show "span (tk k) 60 \<subseteq> - queue_cells ?H N" using task_apart(1) [OF I(2) that] by blast
  qed
  have "queue_of G (A\<lparr>ready := ready A @ [n]\<rparr>) = (queue_of G A)(sym_tasks G := queue_of G A (sym_tasks G) @ [n])"
    by (rule ext) (simp add: queue_of_def)
  with P(1,3) I task_ok_frame(1) [OF cells] run show ?thesis by (simp add: sched_inv_def)
qed

definition two_symbols :: symbols where
  "two_symbols = \<lparr>sym_tasks = 0x3f00500000, sym_wait_in = 0x3f00500100, sym_wait_out = 0x3f00500200,
     sym_trapframe = 0x3f00501000, sym_task_entry = 0x3f00000100, sym_setjmp_return = 0x3f00000200,
     sym_page_fault_handler = 0x3f00502000, sym_trap_vector = 0x3f00000300,
     sym_fault_context = (\<lambda>regs _. (regs, 0x3f00000400)), sym_other_csr = (\<lambda>_. 0)\<rparr>"

definition two_groups :: "u64 set" where "two_groups = {0x3f00500100, 0x3f00500200}"
definition two_threads :: "u64 set" where "two_threads = {0x3f00400004, 0x3f00401004}"

definition two_tasks :: "u64 \<Rightarrow> u64" where
  "two_tasks n = (if n = 0x3f00400004 then 0x3f00600000 else 0x3f00610000)"

definition two_memory :: memory where
  "two_memory = store64 (store64 (store64 (store64 (\<lambda>_. 0) 0x3f00400004 0x3f00600000)
     0x3f00401004 0x3f00610000) 0x3f00600030 0x3f00123000) 0x3f00610030 0x3f00123000"

definition two_state :: sched_state where
  "two_state = \<lparr>mem = two_memory, early = False, buddy_pages = [], satp = 0, sstatus = 0, sie = 0, sip = 0,
     scause = 0, stval = 0, may_page_fault = False, next_task_id = 3, current_task_node = 0,
     current_task = 0, kernel_regs = replicate 32 0, sepc = 0\<rparr>"

lemma load_le_zero: "load_le n (\<lambda>_. 0) a = 0"
  by (induction n arbitrary: a) simp_all

lemma two_agree:
  "agree (- (span 0x3f00400004 8 \<union> span 0x3f00401004 8 \<union> span 0x3f00600030 8 \<union> span 0x3f00610030 8))
     (\<lambda>_. 0) two_memory"
proof -
  have "agree (- (span 0x3f00400004 8 \<union> span 0x3f00401004 8 \<union> span 0x3f00600030 8 \<union> span 0x3f00610030 8))
     m (store64 m a v)" if "a = 0x3f00400004 \<or> a = 0x3f00401004 \<or> a = 0x3f00600030 \<or> a = 0x3f00610030" for m a v
    using that by (intro agree_sym [OF agree_store64]) auto
  note step = this
  show ?thesis unfolding two_memory_def
    by (rule agree_trans [OF agree_trans [OF agree_trans [OF step step] step] step]) simp_all
qed

lemma two_loads:
  "n_value two_memory 0x3f00400004 = 0x3f00600000" "n_value two_memory 0x3f00401004 = 0x3f00610000"
  "t_page_table two_memory 0x3f00600000 = 0x3f00123000" "t_page_table two_memory 0x3f00610000 = 0x3f00123000"
  by (simp_all add: two_memory_def n_value_def t_page_table_def load64_store64_other span_disjoint)

lemma two_zero64:
  assumes "span a 8 \<inter> (span 0x3f00400004 8 \<union> span 0x3f00401004 8 \<union> span 0x3f00600030 8 \<union> span 0x3f00610030 8) = {}"
  shows "load64 two_memory a = 0"
proof -
  have "span a 8 \<subseteq> - (span 0x3f00400004 8 \<union> span 0x3f00401004 8 \<union> span 0x3f00600030 8 \<union> span 0x3f00610030 8)"
    using assms by blast
  from agree_load64 [OF two_agree this] show ?thesis by (simp add: load64_def load_le_zero)
qed

lemma two_fields:
  "n_next two_memory 0x3f00400004 = 0" "n_next two_memory 0x3f00401004 = 0"
  "l_first two_memory 0x3f00500000 = 0" "l_last two_memory 0x3f00500000 = 0"
  "l_first two_memory 0x3f00500100 = 0" "l_last two_memory 0x3f00500100 = 0"
  "l_first two_memory 0x3f00500200 = 0" "l_last two_memory 0x3f00500200 = 0"
  unfolding n_next_def l_first_def l_last_def
  by (rule two_zero64, simp add: Int_Un_distrib span_disjoint)+

lemma two_modes: "t_mode two_memory 0x3f00600000 = 0" "t_mode two_memory 0x3f00610000 = 0"
proof -
  have "load32 two_memory a = 0"
    if "span a 4 \<inter> (span 0x3f00400004 8 \<union> span 0x3f00401004 8 \<union> span 0x3f00600030 8 \<union> span 0x3f00610030 8) = {}" for a
  proof -
    have "span a 4 \<subseteq> - (span 0x3f00400004 8 \<union> span 0x3f00401004 8 \<union> span 0x3f00600030 8 \<union> span 0x3f00610030 8)"
      using that by blast
    from agree_load32 [OF two_agree this] show ?thesis by (simp add: load32_def load_le_zero)
  qed
  then show "t_mode two_memory 0x3f00600000 = 0" "t_mode two_memory 0x3f00610000 = 0"
    unfolding t_mode_def by (simp_all add: Int_Un_distrib span_disjoint)
qed

lemma two_places: "places (insert (sym_tasks two_symbols) two_groups) two_threads"
  by (auto simp: places_def two_symbols_def two_groups_def two_threads_def off_list_def apart_def
      intro!: span_disjoint)

lemma two_objects: "task_objects two_symbols (insert (sym_tasks two_symbols) two_groups) two_threads two_tasks"
  by (auto simp: task_objects_def two_symbols_def two_groups_def two_threads_def two_tasks_def queue_cells_def
      Int_Un_distrib Int_Un_distrib2 span_disjoint)

lemma two_table: "area_ok 0 0x3f00123000"
  by (rule area_ok_compute) simp_all

lemma two_empty:
  "sched_inv two_symbols two_groups two_threads two_tasks \<lparr>ready = [], waiting = \<lambda>_. [], running = None\<rparr> two_state"
proof -
  have "list_rep 0 two_memory h []" if "h \<in> insert (sym_tasks two_symbols) two_groups" for h
    using that two_fields by (auto simp: list_rep_def separate_nodes_def two_symbols_def two_groups_def)
  then have "queues two_memory (insert (sym_tasks two_symbols) two_groups) two_threads
      (queue_of two_symbols \<lparr>ready = [], waiting = \<lambda>_. [], running = None\<rparr>)"
    by (auto simp: queues_def queue_of_def)
  with two_places two_objects two_loads two_modes two_table show ?thesis
    by (simp add: sched_inv_def two_state_def task_ok_def two_threads_def two_tasks_def)
      (simp add: two_symbols_def two_groups_def)
qed

text \<open>Both threads are ready, and the processor is idle.\<close>

definition both_ready :: threads where
  "both_ready = \<lparr>ready = [0x3f00400004, 0x3f00401004], waiting = \<lambda>_. [], running = None\<rparr>"

definition ready_state :: sched_state where
  "ready_state = two_state\<lparr>mem := list_push 0x3f00500000 0x3f00401004 (list_push 0x3f00500000 0x3f00400004 two_memory)\<rparr>"

lemma both_ready_inv: "sched_inv two_symbols two_groups two_threads two_tasks both_ready ready_state"
proof -
  let ?H = "insert (sym_tasks two_symbols) two_groups"
  have N: "0x3f00400004 \<in> two_threads" "0x3f00401004 \<in> two_threads" by (simp_all add: two_threads_def)
  have l: "sym_tasks two_symbols = 0x3f00500000" by (simp add: two_symbols_def)
  have m: "mem two_state = two_memory" by (simp add: two_state_def)
  have nx: "n_next (mem two_state) 0x3f00400004 = 0" using two_fields(1) m by simp
  have f1: "\<forall>h\<in>?H. 0x3f00400004 \<notin> set (queue_of two_symbols \<lparr>ready = [], waiting = \<lambda>_. [], running = None\<rparr> h)"
    by (simp add: queue_of_def)
  note one = make_ready [OF two_empty N(1) nx f1, simplified]
  have f0: "\<forall>h\<in>?H. 0x3f00400004 \<notin> set (queue_of two_symbols \<lparr>ready = [], waiting = \<lambda>_. [], running = None\<rparr> h)"
    by (simp add: queue_of_def)
  note P = push_queue(4) [OF two_places sched_invD(3) [OF two_empty] insertI1 N(1) f0 nx N(2)]
  have "n_next (list_push (sym_tasks two_symbols) 0x3f00400004 (mem two_state)) 0x3f00401004 = 0"
    using P two_fields(2) m by (simp add: queue_of_def)
  from make_ready [OF one N(2), simplified, OF this] show ?thesis
    by (simp add: both_ready_def ready_state_def l m queue_of_def two_groups_def)
qed

lemma both_ready_ticks:
  "sched_run both_ready [Tick 0, Tick 0] \<lparr>ready = [0x3f00400004], waiting = \<lambda>_. [], running = Some 0x3f00401004\<rparr>"
proof -
  let ?A = "pick both_ready"
  let ?B = "pick (?A\<lparr>ready := ready ?A @ [0x3f00400004], running := None\<rparr>)"
  have 1: "sched_step both_ready (Tick 0) ?A" by (rule tick_idle) (simp add: both_ready_def)
  have 2: "sched_step ?A (Tick 0) ?B"
    by (rule tick) (simp_all add: both_ready_def pick_def)
  have "?B = \<lparr>ready = [0x3f00400004], waiting = \<lambda>_. [], running = Some 0x3f00401004\<rparr>"
    by (simp add: both_ready_def pick_def)
  with run_cons [OF 1 run_cons [OF 2 run_nil]] show ?thesis by (simp only:)
qed

subsection \<open>Properties\<close>

lemma pick_idle: "running (pick A) = None \<Longrightarrow> ready (pick A) = []"
  by (simp add: pick_def split: list.splits)

text \<open>
  Property C5. Each event of the scheduler does what the abstract scheduler does: the timer
  puts the running thread behind the others, \<open>wait\<close> moves it to its group, \<open>wakeup\<close> moves a
  group behind the ready threads; then the first ready thread runs, in its own address space
  and in the mode it left, and the processor idles only if no thread is ready.
\<close>
theorem scheduler_refines:
  assumes "sched_inv G gs N tk A s" and "sched_step A e B" and "group_ok gs e"
  shows "\<exists>r t. perform G e s = Some (Inr (r, t)) \<and> sched_inv G gs N tk B t \<and>
    (if dispatches e then \<exists>d. r = Some d \<and> dispatched G tk B d t \<and> (d = Idle \<longrightarrow> ready B = []) else r = None)"
proof -
  from perform_ok [OF assms] obtain r t where
    r: "perform G e s = Some (Inr (r, t))" "sched_inv G gs N tk B t"
      "if dispatches e then \<exists>d. r = Some d \<and> dispatched G tk B d t else r = None" by blast
  have "d = Idle \<longrightarrow> ready B = []" if "dispatches e" "dispatched G tk B d t" for d
  proof
    assume "d = Idle"
    with that(2) have "running B = None" by (auto simp: dispatched_def split: option.splits if_splits)
    with assms(2) that(1) show "ready B = []" by cases (auto dest: pick_idle)
  qed
  with r show ?thesis by (auto split: if_splits)
qed

lemma scheduler_refines_witness:
  "\<exists>d t. perform two_symbols (Tick 0) ready_state = Some (Inr (Some d, t)) \<and>
    current_task t = 0x3f00600000 \<and> d \<noteq> Idle"
proof -
  let ?B = "\<lparr>ready = [0x3f00401004], waiting = \<lambda>_. [], running = Some 0x3f00400004\<rparr>"
  have B: "pick both_ready = ?B" by (simp add: pick_def both_ready_def)
  have step: "sched_step both_ready (Tick 0) ?B"
    unfolding B [symmetric] by (rule tick_idle) (simp add: both_ready_def)
  have "group_ok two_groups (Tick 0)" by simp
  from scheduler_refines [OF both_ready_inv step this] obtain d t where
    t: "perform two_symbols (Tick 0) ready_state = Some (Inr (Some d, t))"
      "sched_inv two_symbols two_groups two_threads two_tasks ?B t" "dispatched two_symbols two_tasks ?B d t"
    by auto
  have "current_task t = 0x3f00600000" using sched_invD(10) [OF t(2)] by (simp add: two_tasks_def)
  moreover have "d \<noteq> Idle" using t(3) by (simp add: dispatched_def)
  ultimately show ?thesis using t(1) by blast
qed

text \<open>
  Property C19. No thread is lost or doubled: after any sequence of timer ticks, waits and
  wakeups the threads that are ready, wait or run are those from before.
\<close>
theorem threads_conserved:
  assumes "sched_inv G gs N tk A s" and "sched_run A es B" and "\<forall>e\<in>set es. group_ok gs e" and "finite gs"
  shows "\<exists>ds t. run_events G es s = Some (Inr (ds, t)) \<and> sched_inv G gs N tk B t \<and>
    thread_count gs B = thread_count gs A"
  using run_events_ok [OF assms(2,1,3)] run_count [OF assms(2,4,3)] by blast

lemma threads_conserved_witness:
  "\<exists>ds t. run_events two_symbols [Tick 0, Tick 0] ready_state = Some (Inr (ds, t)) \<and> current_task t = 0x3f00610000"
proof -
  have "\<forall>e\<in>set [Tick 0, Tick 0]. group_ok two_groups e" "finite two_groups" by (simp_all add: two_groups_def)
  from threads_conserved [OF both_ready_inv both_ready_ticks this] obtain ds t where
    "run_events two_symbols [Tick 0, Tick 0] ready_state = Some (Inr (ds, t))"
    "sched_inv two_symbols two_groups two_threads two_tasks
      \<lparr>ready = [0x3f00400004], waiting = \<lambda>_. [], running = Some 0x3f00401004\<rparr> t" by blast
  then show ?thesis using sched_invD(10) by (force simp: two_tasks_def)
qed

text \<open>
  Property C20. Every ready thread runs: the thread that is \<open>i\<close>-th in the run queue is the
  running one after \<open>i + 1\<close> calls of the scheduler, whatever wakeups come between.
\<close>
theorem scheduler_fair:
  assumes "sched_inv G gs N tk A s" and "sched_run A es B" and "\<forall>e\<in>set es. group_ok gs e"
    and "i < length (ready A)" and "length (filter dispatches es) = Suc i"
  shows "\<exists>ds t. run_events G es s = Some (Inr (ds, t)) \<and> current_task t = tk (ready A ! i)"
proof -
  from run_events_ok [OF assms(2,1,3)] obtain ds t where
    t: "run_events G es s = Some (Inr (ds, t))" "sched_inv G gs N tk B t" by blast
  have l: "length (take (Suc i) (ready A)) = length (filter dispatches es)" using assms(4,5) by simp
  have "ready A = take (Suc i) (ready A) @ drop (Suc i) (ready A)" by simp
  from run_order [OF assms(2) this l] assms(4) have "running B = Some (last (take (Suc i) (ready A)))"
    by (auto split: if_splits)
  also have "last (take (Suc i) (ready A)) = ready A ! i" using assms(4) by (simp add: take_Suc_conv_app_nth)
  finally show ?thesis using t sched_invD(10) [OF t(2)] by blast
qed

lemma scheduler_fair_witness:
  "\<exists>ds t. run_events two_symbols [Tick 0, Tick 0] ready_state = Some (Inr (ds, t)) \<and> current_task t = 0x3f00610000"
proof -
  have "\<forall>e\<in>set [Tick 0, Tick 0]. group_ok two_groups e" by simp
  from scheduler_fair [OF both_ready_inv both_ready_ticks this, of 1] show ?thesis
    by (simp add: both_ready_def two_tasks_def)
qed

end
