(* ===== verification/Uart_Correct.thy ===== *)
theory Uart_Correct
  imports Sched_Correct
begin
section \<open>Correctness of the serial driver\<close>

text \<open>
  The ring buffers are first-in first-out queues of 32 bytes, although their counters wrap
  around; the locale of queues is interpreted on them. What is sent, received, lost and who is
  woken follows, for every behaviour of the device; and a byte that overtakes the buffer.
\<close>

subsection \<open>The ring buffers as queues\<close>

definition slot :: "u64 \<Rightarrow> nat \<Rightarrow> nat" where
  "slot r i = unat ((r + of_nat i) mod UART_TX_BUF_SIZE)"

definition ring_rep :: "ring \<Rightarrow> u8 list \<Rightarrow> bool" where
  "ring_rep b xs \<longleftrightarrow> length (rbuf b) = 32 \<and> length xs \<le> 32 \<and> rw b = rr b + of_nat (length xs) \<and>
     (\<forall>i<length xs. rbuf b ! slot (rr b) i = xs ! i)"

lemma slot_eq: "i < 2 ^ 64 \<Longrightarrow> slot r i = (unat r + i) mod 32"
proof -
  assume "i < 2 ^ 64"
  then have "unat (of_nat i :: u64) = i" by (simp add: unat_of_nat)
  moreover have "(unat r + i) mod 2 ^ 64 mod 32 = (unat r + i) mod 32"
    by (rule mod_mod_cancel) simp
  ultimately show ?thesis by (simp add: slot_def UART_TX_BUF_SIZE_def unat_mod unat_word_ariths)
qed

lemma slot_less: "slot r i < 32"
  by (simp add: slot_def UART_TX_BUF_SIZE_def unat_mod)

lemma mod_32_inj: "(a + i) mod 32 = (a + j) mod 32 \<Longrightarrow> i < 32 \<Longrightarrow> j < 32 \<Longrightarrow> i = (j :: nat)"
proof (induction i j rule: linorder_wlog)
  case (le i j)
  then have "32 dvd (a + j) - (a + i)" using mod_eq_dvd_iff_nat [of "a + i" "a + j" 32] by simp
  then have "32 dvd j - i" by simp
  with le show ?case by (auto dest: dvd_imp_le)
next
  case (sym i j)
  then show ?case by simp
qed

lemma slot_inj: "i < 32 \<Longrightarrow> j < 32 \<Longrightarrow> slot r i = slot r j \<Longrightarrow> i = j"
  using mod_32_inj [of "unat r" i j] by (simp add: slot_eq)

lemma ring_full_iff: "ring_rep b xs \<Longrightarrow> ring_full b \<longleftrightarrow> length xs = 32"
  and ring_empty_iff: "ring_rep b xs \<Longrightarrow> ring_empty b \<longleftrightarrow> xs = []"
proof -
  assume b: "ring_rep b xs"
  have "of_nat (length xs) = (of_nat 32 :: u64) \<longleftrightarrow> length xs = 32"
    using b by (intro of_nat_u64_eq) (simp_all add: ring_rep_def)
  then show "ring_full b \<longleftrightarrow> length xs = 32" using b by (simp add: ring_full_def ring_rep_def UART_TX_BUF_SIZE_def)
  have "of_nat (length xs) = (of_nat 0 :: u64) \<longleftrightarrow> length xs = 0"
    using b by (intro of_nat_u64_eq) (simp_all add: ring_rep_def)
  then show "ring_empty b \<longleftrightarrow> xs = []" using b by (simp add: ring_empty_def ring_rep_def)
qed

lemma ring_put_rep:
  assumes "ring_rep b xs" and "length xs < 32"
  shows "ring_rep (ring_put c b) (xs @ [c])"
proof -
  have w: "unat (rw b mod UART_TX_BUF_SIZE) = slot (rr b) (length xs)" using assms by (simp add: ring_rep_def slot_def)
  have "(rbuf b)[slot (rr b) (length xs) := c] ! slot (rr b) i = (xs @ [c]) ! i" if "i < Suc (length xs)" for i
  proof (cases "i = length xs")
    case True
    then show ?thesis using assms slot_less by (simp add: ring_rep_def)
  next
    case False
    then have "slot (rr b) (length xs) \<noteq> slot (rr b) i" using slot_inj [of "length xs" i] that assms(2) by auto
    then show ?thesis using assms(1) that False by (simp add: ring_rep_def nth_append)
  qed
  then show ?thesis using assms w by (simp add: ring_rep_def ring_put_def)
qed

lemma ring_get_rep:
  assumes "ring_rep b (x # xs)"
  shows "fst (ring_get b) = x \<and> ring_rep (snd (ring_get b)) xs"
proof -
  have "slot (rr b) 0 = unat (rr b mod UART_TX_BUF_SIZE)" by (simp add: slot_def)
  then have "rbuf b ! unat (rr b mod UART_TX_BUF_SIZE) = x" using assms by (auto simp: ring_rep_def)
  moreover have "rbuf b ! slot (rr b + 1) i = xs ! i" if "i < length xs" for i
  proof -
    have "slot (rr b + 1) i = slot (rr b) (Suc i)" by (simp add: slot_def add.assoc)
    then show ?thesis using assms that by (auto simp: ring_rep_def)
  qed
  ultimately show ?thesis using assms by (auto simp: ring_get_def ring_rep_def)
qed

interpretation uart_ring: fifo ring_rep "\<lambda>b xs e. length xs < 32" ring_put ring_get
  by unfold_locales (simp_all add: ring_put_rep ring_get_rep)

lemma ring_init: "ring_rep \<lparr>rbuf = replicate 32 0, rw = 0, rr = 0\<rparr> []"
  by (simp add: ring_rep_def)

subsection \<open>Sending\<close>

definition skip_lsr :: "nat \<Rightarrow> 'a uart_state_scheme \<Rightarrow> 'a uart_state_scheme" where
  "skip_lsr k s = s\<lparr>lsr := \<lambda>i. lsr s (i + k)\<rparr>"

lemma uartstart_loop_ok:
  "ring_rep (uart_out s) xs \<Longrightarrow>
    \<exists>k n b. k \<le> length xs \<and> (\<forall>i<k. lsr s i AND LSR_TX_IDLE \<noteq> 0) \<and> (k < length xs \<longrightarrow> lsr s k AND LSR_TX_IDLE = 0) \<and>
      ring_rep b (drop k xs) \<and>
      uartstart_loop s = (skip_lsr n s)\<lparr>uart_out := b, written := written s @ map (\<lambda>c. (THR, c)) (take k xs)\<rparr>"
proof (induction xs arbitrary: s)
  case Nil
  then have "uartstart_loop s = s" by (subst uartstart_loop.simps) (simp add: ring_empty_iff)
  moreover have "s = (skip_lsr 0 s)\<lparr>uart_out := uart_out s, written := written s @ []\<rparr>"
    by (cases s) (simp add: skip_lsr_def)
  ultimately show ?case using Nil by (intro exI [of _ 0] exI [of _ 0] exI [of _ "uart_out s"]) auto
next
  case (Cons x xs)
  have ne: "\<not> ring_empty (uart_out s)" using Cons.prems by (simp add: ring_empty_iff)
  show ?case
  proof (cases "lsr s 0 AND LSR_TX_IDLE = 0")
    case True
    then have "uartstart_loop s = skip_lsr 1 s" using ne by (subst uartstart_loop.simps) (simp add: skip_lsr_def)
    moreover have "skip_lsr 1 s = (skip_lsr 1 s)\<lparr>uart_out := uart_out s, written := written s @ []\<rparr>"
      by (cases s) (simp add: skip_lsr_def)
    ultimately show ?thesis using True Cons.prems
      by (intro exI [of _ 0] exI [of _ 1] exI [of _ "uart_out s"]) auto
  next
    case False
    note G = ring_get_rep [OF Cons.prems]
    let ?s = "(skip_lsr 1 s)\<lparr>uart_out := snd (ring_get (uart_out s)), written := written s @ [(THR, x)]\<rparr>"
    have step: "uartstart_loop s = uartstart_loop ?s"
      using ne False G by (subst uartstart_loop.simps) (simp add: skip_lsr_def split_def)
    have "ring_rep (uart_out ?s) xs" using G by simp
    from Cons.IH [OF this] obtain k n b where k: "k \<le> length xs" "\<forall>i<k. lsr ?s i AND LSR_TX_IDLE \<noteq> 0"
      "k < length xs \<longrightarrow> lsr ?s k AND LSR_TX_IDLE = 0" "ring_rep b (drop k xs)"
      "uartstart_loop ?s = (skip_lsr n ?s)\<lparr>uart_out := b, written := written ?s @ map (\<lambda>c. (THR, c)) (take k xs)\<rparr>"
      by blast
    have l: "lsr ?s i = lsr s (Suc i)" for i by (simp add: skip_lsr_def)
    have "\<forall>i<Suc k. lsr s i AND LSR_TX_IDLE \<noteq> 0" using k(2) False unfolding l by (simp add: All_less_Suc2)
    moreover have "Suc k < length (x # xs) \<longrightarrow> lsr s (Suc k) AND LSR_TX_IDLE = 0" using k(3) unfolding l by simp
    moreover have "uartstart_loop s = (skip_lsr (Suc n) s)\<lparr>uart_out := b,
        written := written s @ map (\<lambda>c. (THR, c)) (take (Suc k) (x # xs))\<rparr>"
      unfolding step k(5) by (simp add: skip_lsr_def)
    ultimately show ?thesis using k(1,4) by (intro exI [of _ "Suc k"] exI [of _ "Suc n"] exI [of _ b]) simp
  qed
qed

lemma uart_fields:
  assumes "sched_state.more t = sched_state.more s"
  shows "uart_out t = uart_out s" "uart_in t = uart_in s" "written t = written s" "lsr t = lsr s" "rhr t = rhr s"
  using assms by (cases s, cases t, simp)+

lemma uartstart_ok:
  assumes "ring_rep (uart_out s) xs"
  shows "\<exists>k n b. k \<le> length xs \<and> (\<forall>i<k. lsr s i AND LSR_TX_IDLE \<noteq> 0) \<and> (k < length xs \<longrightarrow> lsr s k AND LSR_TX_IDLE = 0) \<and>
      ring_rep b (drop k xs) \<and>
      uartstart s = Some (Inr ((), (skip_lsr n s)\<lparr>uart_out := b, written := written s @ map (\<lambda>c. (THR, c)) (take k xs)\<rparr>))"
  using uartstart_loop_ok [OF assms] by (simp add: uartstart_def)

subsection \<open>Receiving\<close>

definition skip_input :: "nat \<Rightarrow> 'a uart_state_scheme \<Rightarrow> 'a uart_state_scheme" where
  "skip_input n s = s\<lparr>lsr := \<lambda>i. lsr s (i + Suc n), rhr := \<lambda>i. rhr s (i + n)\<rparr>"

lemma uartintr_loop_ok:
  "ring_rep (uart_in s) xs \<Longrightarrow> \<forall>i<n. lsr s i AND 1 \<noteq> 0 \<Longrightarrow> lsr s n AND 1 = 0 \<Longrightarrow>
    \<exists>b. uartintr_loop h s = Some (Inr (h \<or> 0 < n, (skip_input n s)\<lparr>uart_in := b\<rparr>)) \<and>
      ring_rep b (take 32 (xs @ map (rhr s) [0..<n]))"
proof (induction n arbitrary: s xs h)
  case 0
  have "s\<lparr>rhr := rhr s\<rparr> = s" by (cases s) simp
  then have "skip_input 0 s = s\<lparr>lsr := \<lambda>i. lsr s (Suc i)\<rparr>" by (cases s) (simp add: skip_input_def)
  moreover have "uartgetc s = Some (Inr (- 1, s\<lparr>lsr := \<lambda>i. lsr s (Suc i)\<rparr>))"
    using 0(3) by (simp add: uartgetc_def read_lsr_def kbind_Inr)
  ultimately have "uartintr_loop h s = Some (Inr (h, skip_input 0 s))"
    by (subst uartintr_loop.simps) (simp add: kbind_Inr)
  moreover have "(skip_input 0 s)\<lparr>uart_in := uart_in s\<rparr> = skip_input 0 s" by (cases s) (simp add: skip_input_def)
  moreover have "take 32 xs = xs" using 0(1) by (simp add: ring_rep_def)
  ultimately show ?case using 0(1) by (intro exI [of _ "uart_in s"]) simp
next
  case (Suc n)
  let ?c = "rhr s 0"
  let ?t = "s\<lparr>lsr := \<lambda>i. lsr s (Suc i), rhr := \<lambda>i. rhr s (Suc i)\<rparr>"
  let ?b = "if ring_full (uart_in s) then uart_in s else ring_put ?c (uart_in s)"
  let ?u = "?t\<lparr>uart_in := ?b\<rparr>"
  have "lsr s 0 AND 1 \<noteq> 0" using Suc.prems(2) by blast
  then have g: "uartgetc s = Some (Inr (uint ?c, ?t))"
    by (simp add: uartgetc_def read_lsr_def read_rhr_def kbind_Inr)
  have nz: "uint ?c \<noteq> - 1" using uint_ge_0 [of ?c] by linarith
  have u: "(if ring_full (uart_in ?t) then ?t
      else ?t\<lparr>uart_in := ring_put (word_of_int (uint ?c)) (uart_in ?t)\<rparr>) = ?u"
    by (cases s) simp
  have step: "uartintr_loop h s = uartintr_loop True ?u"
    unfolding uartintr_loop.simps [of h s] kbind_Inr [of uartgetc, OF g] u using nz by (simp only: if_False)
  have b: "ring_rep ?b (take 32 (xs @ [?c]))"
  proof (cases "length xs = 32")
    case True
    then show ?thesis using Suc.prems(1) by (simp add: ring_full_iff)
  next
    case False
    then have "length xs < 32" using Suc.prems(1) by (simp add: ring_rep_def)
    with False Suc.prems(1) show ?thesis by (simp add: ring_full_iff ring_put_rep)
  qed
  have "ring_rep (uart_in ?u) (take 32 (xs @ [?c]))" using b by simp
  moreover have "\<forall>i<n. lsr ?u i AND 1 \<noteq> 0" using Suc.prems(2) by simp
  moreover have "lsr ?u n AND 1 = 0" using Suc.prems(3) by simp
  ultimately obtain b' where b': "uartintr_loop True ?u = Some (Inr (True \<or> 0 < n, (skip_input n ?u)\<lparr>uart_in := b'\<rparr>))"
    "ring_rep b' (take 32 (take 32 (xs @ [?c]) @ map (rhr ?u) [0..<n]))"
    using Suc.IH [of ?u] by blast
  have "take 32 (take 32 (xs @ [?c]) @ ys) = take 32 (xs @ ?c # ys)" for ys
  proof (cases "length xs = 32")
    case False
    then have "take 32 (xs @ [?c]) = xs @ [?c]" using Suc.prems(1) by (simp add: ring_rep_def del: take_append)
    then show ?thesis by (simp only: append_assoc append.simps)
  qed simp
  moreover have "map (rhr s) [0..<Suc n] = ?c # map (rhr ?u) [0..<n]"
    by (simp add: upt_conv_Cons map_Suc_upt [symmetric] comp_def del: upt_Suc)
  ultimately have "ring_rep b' (take 32 (xs @ map (rhr s) [0..<Suc n]))" using b'(2) by simp
  moreover have "(skip_input n ?u)\<lparr>uart_in := b'\<rparr> = (skip_input (Suc n) s)\<lparr>uart_in := b'\<rparr>"
    by (simp add: skip_input_def)
  ultimately show ?case using step b'(1) by auto
qed

text \<open>The device and the buffers are not part of the scheduler's invariant.\<close>

lemma sched_inv_device:
  assumes "sched_inv G gs N tk A s" and "mem t = mem s" and "early t = early s"
    and "current_task_node t = current_task_node s" and "current_task t = current_task s"
  shows "sched_inv G gs N tk A t"
  using assms(1) unfolding sched_inv_def assms(2-5) .

definition wake_if :: "bool \<Rightarrow> u64 \<Rightarrow> threads \<Rightarrow> threads" where
  "wake_if b g A = (if b then wake_group g A else A)"

lemma wakeup_if_ok:
  assumes "sched_inv G gs N tk A s" and "g \<in> gs"
  shows "\<exists>m. kwhen b (wakeup G g) s = Some (Inr ((), s\<lparr>mem := m\<rparr>)) \<and>
    sched_inv G gs N tk (wake_if b g A) (s\<lparr>mem := m\<rparr>)"
proof (cases b)
  case True
  with wakeup_ok [OF assms] show ?thesis by (auto simp: wake_if_def)
next
  case False
  have "s\<lparr>mem := mem s\<rparr> = s" by (cases s) simp
  with False assms(1) show ?thesis by (intro exI [of _ "mem s"]) (simp add: wake_if_def kwhen_def)
qed

text \<open>A device that received bytes; the buffers hold the bytes \<open>out\<close> and \<open>inp\<close>.\<close>

definition filled_ring :: "u8 list \<Rightarrow> ring" where
  "filled_ring xs = fold ring_put xs \<lparr>rbuf = replicate 32 0, rw = 0, rr = 0\<rparr>"

definition serial_on :: "sched_state \<Rightarrow> u8 list \<Rightarrow> u8 list \<Rightarrow> (nat \<Rightarrow> u8) \<Rightarrow> uart_state" where
  "serial_on t out inp status = sched_state.extend t
     (uart_state.fields (filled_ring out) (filled_ring inp) status (\<lambda>_. 65) [] True False)"

definition serial_state :: "u8 list \<Rightarrow> (nat \<Rightarrow> u8) \<Rightarrow> uart_state" where
  "serial_state out status = serial_on ready_state out [] status"

lemma serial_fields [simp]:
  "uart_out (serial_on t out inp status) = filled_ring out" "uart_in (serial_on t out inp status) = filled_ring inp"
  "lsr (serial_on t out inp status) = status" "rhr (serial_on t out inp status) = (\<lambda>_. 65)"
  "written (serial_on t out inp status) = []" "kernel_initialized (serial_on t out inp status)"
  "\<not> panicked (serial_on t out inp status)"
  by (simp_all add: serial_on_def sched_state.defs uart_state.defs)

lemma serial_on_inv:
  "sched_inv G gs N tk A t \<Longrightarrow> sched_inv G gs N tk A (serial_on t out inp status)"
  by (erule sched_inv_device) (simp_all add: serial_on_def sched_state.defs)

lemma serial_inv: "sched_inv two_symbols two_groups two_threads two_tasks both_ready (serial_state out status)"
  unfolding serial_state_def by (rule serial_on_inv [OF both_ready_inv])

lemma ring_put_all:
  "ring_rep b xs \<Longrightarrow> length xs + length ys \<le> 32 \<Longrightarrow> ring_rep (fold ring_put ys b) (xs @ ys)"
proof (induction ys arbitrary: b xs)
  case (Cons y ys)
  then have "ring_rep (ring_put y b) (xs @ [y])" by (intro ring_put_rep) simp_all
  with Cons.IH [of _ "xs @ [y]"] Cons.prems(2) show ?case by simp
qed simp

lemma filled_ring: "length xs \<le> 32 \<Longrightarrow> ring_rep (filled_ring xs) xs"
  using ring_put_all [OF ring_init, of xs] by (simp add: filled_ring_def)

text \<open>After a timer tick the first of the two threads runs.\<close>

definition first_runs :: threads where
  "first_runs = \<lparr>ready = [0x3f00401004], waiting = \<lambda>_. [], running = Some 0x3f00400004\<rparr>"

lemma first_runs_exists:
  obtains t :: sched_state where "sched_inv two_symbols two_groups two_threads two_tasks first_runs t"
proof -
  have B: "pick both_ready = first_runs" by (simp add: pick_def both_ready_def first_runs_def)
  have "sched_step both_ready (Tick 0) first_runs"
    unfolding B [symmetric] by (rule tick_idle) (simp add: both_ready_def)
  from perform_ok [OF both_ready_inv this] that show ?thesis by auto
qed

lemma two_wait: "sym_wait_in two_symbols \<in> two_groups" "sym_wait_out two_symbols \<in> two_groups"
  by (simp_all add: two_symbols_def two_groups_def)

lemma uartintr_ok:
  assumes inv: "sched_inv G gs N tk A s" and g: "sym_wait_in G \<in> gs" "sym_wait_out G \<in> gs"
    and bufs: "ring_rep (uart_in s) xs" "ring_rep (uart_out s) ys"
    and rx: "\<forall>i<n. lsr s i AND LSR_RX_READY \<noteq> 0" "lsr s n AND LSR_RX_READY = 0"
  shows "\<exists>t k. uartintr G s = Some (Inr ((), t)) \<and> k \<le> length ys \<and>
    ring_rep (uart_in t) (take 32 (xs @ map (rhr s) [0..<n])) \<and> ring_rep (uart_out t) (drop k ys) \<and>
    written t = written s @ map (\<lambda>c. (THR, c)) (take k ys) \<and>
    (\<forall>i<k. lsr s (i + Suc n) AND LSR_TX_IDLE \<noteq> 0) \<and>
    (k < length ys \<longrightarrow> lsr s (k + Suc n) AND LSR_TX_IDLE = 0) \<and>
    sched_inv G gs N tk (wake_if (length ys - k < 32) (sym_wait_out G) (wake_if (0 < n) (sym_wait_in G) A)) t \<and>
    uart_state.more t = uart_state.more s"
proof -
  from rx have "\<forall>i<n. lsr s i AND 1 \<noteq> 0" "lsr s n AND 1 = 0" by (simp_all add: LSR_RX_READY_def)
  from uartintr_loop_ok [OF bufs(1) this, of False] obtain b where
    loop: "uartintr_loop False s = Some (Inr (0 < n, (skip_input n s)\<lparr>uart_in := b\<rparr>))"
    and b: "ring_rep b (take 32 (xs @ map (rhr s) [0..<n]))" by auto
  let ?s1 = "(skip_input n s)\<lparr>uart_in := b\<rparr>"
  have "sched_inv G gs N tk A ?s1" by (rule sched_inv_device [OF inv]) (simp_all add: skip_input_def)
  from wakeup_if_ok [OF this g(1), of "0 < n"] obtain m where
    w1: "kwhen (0 < n) (wakeup G (sym_wait_in G)) ?s1 = Some (Inr ((), ?s1\<lparr>mem := m\<rparr>))"
      "sched_inv G gs N tk (wake_if (0 < n) (sym_wait_in G) A) (?s1\<lparr>mem := m\<rparr>)" by blast
  let ?s2 = "?s1\<lparr>mem := m\<rparr>"
  have "ring_rep (uart_out ?s2) ys" using bufs(2) by (simp add: skip_input_def)
  from uartstart_ok [OF this] obtain k j c where
    k: "k \<le> length ys" "k < length ys \<longrightarrow> lsr ?s2 k AND LSR_TX_IDLE = 0" "ring_rep c (drop k ys)"
      "\<forall>i<k. lsr ?s2 i AND LSR_TX_IDLE \<noteq> 0"
      and start: "uartstart ?s2 = Some (Inr ((), (skip_lsr j ?s2)\<lparr>uart_out := c,
        written := written ?s2 @ map (\<lambda>c. (THR, c)) (take k ys)\<rparr>))" by blast
  let ?s3 = "(skip_lsr j ?s2)\<lparr>uart_out := c, written := written ?s2 @ map (\<lambda>c. (THR, c)) (take k ys)\<rparr>"
  have full: "\<not> ring_full (uart_out ?s3) \<longleftrightarrow> length ys - k < 32"
    using ring_full_iff [OF k(3)] bufs(2) by (auto simp: ring_rep_def)
  have "sched_inv G gs N tk (wake_if (0 < n) (sym_wait_in G) A) ?s3"
    by (rule sched_inv_device [OF w1(2)]) (simp_all add: skip_lsr_def)
  from wakeup_if_ok [OF this g(2), of "length ys - k < 32"] obtain m' where
    w2: "kwhen (length ys - k < 32) (wakeup G (sym_wait_out G)) ?s3 = Some (Inr ((), ?s3\<lparr>mem := m'\<rparr>))"
      "sched_inv G gs N tk (wake_if (length ys - k < 32) (sym_wait_out G) (wake_if (0 < n) (sym_wait_in G) A))
        (?s3\<lparr>mem := m'\<rparr>)" by blast
  have "uartintr G s = Some (Inr ((), ?s3\<lparr>mem := m'\<rparr>))"
    using loop w1(1) start w2(1) unfolding uartintr_def
    by (simp only: kbind_Inr kthen_Inr kgets_apply full)
  then show ?thesis using k b w2(2)
    by (intro exI [of _ "?s3\<lparr>mem := m'\<rparr>"] exI [of _ k]) (simp add: skip_lsr_def skip_input_def)
qed

text \<open>
  Property C27. A serial interrupt with \<open>n\<close> received bytes appends them to the input buffer,
  and drops those for which there is no room; it sends the longest prefix of the output buffer
  that the device accepts; it wakes the readers if a byte came, and the writers if the output
  buffer is not full afterwards.
\<close>
theorem uartintr_correct:
  assumes inv: "sched_inv G gs N tk A s" and g: "sym_wait_in G \<in> gs" "sym_wait_out G \<in> gs"
    and bufs: "ring_rep (uart_in s) xs" "ring_rep (uart_out s) ys"
    and rx: "\<forall>i<n. lsr s i AND LSR_RX_READY \<noteq> 0" "lsr s n AND LSR_RX_READY = 0"
  shows "\<exists>t k. uartintr G s = Some (Inr ((), t)) \<and> k \<le> length ys \<and>
    ring_rep (uart_in t) (take 32 (xs @ map (rhr s) [0..<n])) \<and> ring_rep (uart_out t) (drop k ys) \<and>
    written t = written s @ map (\<lambda>c. (THR, c)) (take k ys) \<and>
    (\<forall>i<k. lsr s (i + Suc n) AND LSR_TX_IDLE \<noteq> 0) \<and>
    (k < length ys \<longrightarrow> lsr s (k + Suc n) AND LSR_TX_IDLE = 0) \<and>
    sched_inv G gs N tk (wake_if (length ys - k < 32) (sym_wait_out G) (wake_if (0 < n) (sym_wait_in G) A)) t"
  using uartintr_ok [OF assms] by blast

lemma uartintr_correct_witness:
  "\<exists>t. uartintr two_symbols (serial_state [66, 67] ((\<lambda>_. 0)(0 := 1, 2 := 32))) = Some (Inr ((), t)) \<and>
    ring_rep (uart_in t) [65] \<and> ring_rep (uart_out t) [67] \<and> written t = [(THR, 66)]"
proof -
  let ?l = "(\<lambda>_. 0)(0 := 1, 2 := 32) :: nat \<Rightarrow> u8"
  let ?s = "serial_state [66, 67] ?l"
  have rin: "ring_rep (uart_in ?s) []" and rout: "ring_rep (uart_out ?s) [66, 67]"
    by (simp_all add: serial_state_def filled_ring)
  have rx: "\<forall>i<1. lsr ?s i AND LSR_RX_READY \<noteq> 0" "lsr ?s 1 AND LSR_RX_READY = 0"
    by (simp_all add: LSR_RX_READY_def serial_state_def)
  obtain t k where t: "uartintr two_symbols ?s = Some (Inr ((), t))" "k \<le> length [66, 67 :: u8]"
      "ring_rep (uart_in t) (take 32 ([] @ map (rhr ?s) [0..<1]))"
      "ring_rep (uart_out t) (drop k [66, 67])"
      "written t = written ?s @ map (\<lambda>c. (THR, c)) (take k [66, 67])"
      "\<forall>i<k. lsr ?s (i + Suc 1) AND LSR_TX_IDLE \<noteq> 0"
      "k < length [66, 67 :: u8] \<longrightarrow> lsr ?s (k + Suc 1) AND LSR_TX_IDLE = 0"
    using uartintr_correct [OF serial_inv two_wait rin rout rx] by blast
  have "k \<noteq> 0"
  proof
    assume "k = 0"
    with t(7) show False by (simp add: LSR_TX_IDLE_def serial_state_def)
  qed
  moreover have "\<not> 1 < k" using t(6) by (auto simp: serial_state_def)
  ultimately have "k = 1" by simp
  with t(1,3-5) show ?thesis by (auto simp: serial_state_def)
qed

subsection \<open>putchar and getchar\<close>

text \<open>
  While the device is busy, \<open>uartputc\<close> of an initialised kernel puts the byte
  behind those in the output buffer, and what is then sent is a prefix of the buffer; a thread
  that finds the buffer full is put to sleep among the writers, and the buffer stays as it is.
\<close>
theorem uartputc_buffered:
  assumes inv: "sched_inv G gs N tk A s" and g: "sym_wait_out G \<in> gs" and run: "running A = Some n"
    and buf: "ring_rep (uart_out s) ys" and st: "\<not> panicked s" "kernel_initialized s" "lsr s 0 AND LSR_TX_IDLE = 0"
  shows "if length ys < 32
    then \<exists>t k. uartputc G c s = Some (Inr (Done (), t)) \<and> ring_rep (uart_out t) (drop k (ys @ [ucast c])) \<and>
      written t = written s @ map (\<lambda>c. (THR, c)) (take k (ys @ [ucast c])) \<and> sched_inv G gs N tk A t
    else \<exists>d t. uartputc G c s = Some (Inr (Switch d, t)) \<and> uart_out t = uart_out s \<and> written t = written s \<and>
      sched_inv G gs N tk (pick (A\<lparr>waiting := (waiting A)(sym_wait_out G := waiting A (sym_wait_out G) @ [n]),
        running := None\<rparr>)) t"
proof -
  let ?s = "skip_lsr 1 s"
  have call: "uartputc G c s = uart_put_buffered G (ucast c) ?s"
    using st by (simp add: uartputc_def kbind_Inr read_lsr_def skip_lsr_def)
  have inv1: "sched_inv G gs N tk A ?s" by (rule sched_inv_device [OF inv]) (simp_all add: skip_lsr_def)
  have buf1: "ring_rep (uart_out ?s) ys" using buf by (simp add: skip_lsr_def)
  note full = ring_full_iff [OF buf1]
  show ?thesis
  proof (cases "length ys < 32")
    case True
    let ?u = "?s\<lparr>uart_out := ring_put (ucast c) (uart_out ?s)\<rparr>"
    have "ring_rep (uart_out ?u) (ys @ [ucast c])" using ring_put_rep [OF buf1 True] by simp
    from uartstart_ok [OF this] obtain k j b where b: "ring_rep b (drop k (ys @ [ucast c]))"
      "uartstart ?u = Some (Inr ((), (skip_lsr j ?u)\<lparr>uart_out := b,
        written := written ?u @ map (\<lambda>c. (THR, c)) (take k (ys @ [ucast c]))\<rparr>))" by blast
    let ?t = "(skip_lsr j ?u)\<lparr>uart_out := b, written := written ?u @ map (\<lambda>c. (THR, c)) (take k (ys @ [ucast c]))\<rparr>"
    have "\<not> ring_full (uart_out ?s)" using full True by simp
    then have "uartputc G c s = Some (Inr (Done (), ?t))"
      unfolding call uart_put_buffered_def using b(2) by (simp only: kbind_Inr kthen_Inr kgets_apply kmodify_apply
        kreturn_apply if_False)
    moreover have "sched_inv G gs N tk A ?t"
      by (rule sched_inv_device [OF inv1]) (simp_all add: skip_lsr_def)
    moreover have "written ?t = written s @ map (\<lambda>c. (THR, c)) (take k (ys @ [ucast c]))" "uart_out ?t = b"
      by (simp_all add: skip_lsr_def)
    ultimately show ?thesis using True b(1) by (simp only: if_True) metis
  next
    case False
    then have "ring_full (uart_out ?s)" using full buf by (simp add: ring_rep_def)
    moreover from wait_ok [OF inv1 run g refl] obtain d t where
      "wait G (sym_wait_out G) ?s = Some (Inr (d, t))"
      "sched_inv G gs N tk (pick (A\<lparr>waiting := (waiting A)(sym_wait_out G := waiting A (sym_wait_out G) @ [n]),
        running := None\<rparr>)) t" "sched_state.more t = sched_state.more ?s" by blast
    ultimately show ?thesis using False uart_fields [of t ?s] unfolding call uart_put_buffered_def
      by (simp add: kbind_Inr skip_lsr_def)
  qed
qed

lemma uartputc_buffered_witness:
  "\<exists>(s :: uart_state) t. uartputc two_symbols 67 s = Some (Inr (Done (), t)) \<and> ring_rep (uart_out s) [66] \<and>
    (\<exists>k. ring_rep (uart_out t) (drop k [66, 67]) \<and> written t = map (\<lambda>c. (THR, c)) (take k [66, 67]))"
proof -
  obtain u :: sched_state where u: "sched_inv two_symbols two_groups two_threads two_tasks first_runs u"
    by (rule first_runs_exists)
  let ?s = "serial_on u [66] [] (\<lambda>_. 0)"
  have b: "ring_rep (uart_out ?s) [66]" by (simp add: filled_ring)
  have r: "running first_runs = Some 0x3f00400004" by (simp add: first_runs_def)
  from uartputc_buffered [OF serial_on_inv [OF u] two_wait(2) r b, of 67] obtain t k where
    "uartputc two_symbols 67 ?s = Some (Inr (Done (), t))" "ring_rep (uart_out t) (drop k ([66] @ [67]))"
    "written t = map (\<lambda>c. (THR, c)) (take k ([66] @ [67]))" by auto
  with b show ?thesis by (intro exI [of _ ?s] exI [of _ t] conjI exI [of _ k]) simp_all
qed

lemma uartputc_idle_ok:
  assumes "\<not> panicked s" and "lsr s 0 AND LSR_TX_IDLE \<noteq> 0" and "lsr s 1 AND LSR_TX_IDLE \<noteq> 0"
  shows "uartputc G c s = Some (Inr (Done (), (skip_lsr 2 s)\<lparr>written := written s @ [(THR, ucast c)]\<rparr>))"
proof -
  have "poll_idle (skip_lsr 1 s) = Some (Inr ((), skip_lsr 2 s))"
    using assms(3) by (subst poll_idle.simps) (simp add: skip_lsr_def)
  with assms(1,2) show ?thesis
    by (simp add: uartputc_def kbind_Inr kthen_Inr read_lsr_def write_reg_def skip_lsr_def)
qed

text \<open>
  When the device happens to be idle, \<open>uartputc\<close> writes its byte to the device at
  once: it overtakes the bytes that are still in the output buffer.
\<close>
theorem uartputc_overtakes:
  assumes "\<not> panicked s" and "lsr s 0 AND LSR_TX_IDLE \<noteq> 0" and "lsr s 1 AND LSR_TX_IDLE \<noteq> 0"
    and "ring_rep (uart_out s) ys"
  shows "\<exists>t. uartputc G c s = Some (Inr (Done (), t)) \<and> written t = written s @ [(THR, ucast c)] \<and>
    ring_rep (uart_out t) ys"
  using uartputc_idle_ok [OF assms(1-3), of G c] assms(4) by (simp add: skip_lsr_def)

lemma uartputc_overtakes_witness:
  "\<exists>t. uartputc two_symbols 67 (serial_state [66] (\<lambda>_. 32)) = Some (Inr (Done (), t)) \<and>
    written t = [(THR, 67)] \<and> ring_rep (uart_out t) [66]"
proof -
  have "ring_rep (uart_out (serial_state [66] (\<lambda>_. 32))) [66]" by (simp add: serial_state_def filled_ring)
  from uartputc_overtakes [OF _ _ _ this, of two_symbols 67] show ?thesis
    by (simp add: LSR_TX_IDLE_def serial_state_def)
qed

lemma getchar_ready_ok:
  assumes "ring_rep (uart_in s) (c # cs)"
  shows "getchar G s = Some (Inr (Done c, s\<lparr>uart_in := snd (ring_get (uart_in s))\<rparr>))"
    and "ring_rep (snd (ring_get (uart_in s))) cs"
proof -
  note G = ring_get_rep [OF assms]
  have "\<not> ring_empty (uart_in s)" using ring_empty_iff [OF assms] by simp
  then show "getchar G s = Some (Inr (Done c, s\<lparr>uart_in := snd (ring_get (uart_in s))\<rparr>))"
    using G by (simp add: getchar_def kbind_Inr kthen_Inr split_def)
  show "ring_rep (snd (ring_get (uart_in s))) cs" using G by simp
qed

text \<open>
  \<open>getchar\<close> returns the first byte of the input buffer and removes it; a thread
  that finds the buffer empty is put to sleep among the readers.
\<close>
theorem getchar_correct:
  assumes inv: "sched_inv G gs N tk A s" and g: "sym_wait_in G \<in> gs" and run: "running A = Some n"
    and buf: "ring_rep (uart_in s) xs"
  shows "case xs of
      c # cs \<Rightarrow> \<exists>b. getchar G s = Some (Inr (Done c, s\<lparr>uart_in := b\<rparr>)) \<and> ring_rep b cs
    | [] \<Rightarrow> \<exists>d t. getchar G s = Some (Inr (Switch d, t)) \<and> uart_in t = uart_in s \<and>
        sched_inv G gs N tk (pick (A\<lparr>waiting := (waiting A)(sym_wait_in G := waiting A (sym_wait_in G) @ [n]),
          running := None\<rparr>)) t"
proof (cases xs)
  case Nil
  from wait_ok [OF inv run g refl] obtain d t where w: "wait G (sym_wait_in G) s = Some (Inr (d, t))"
    "sched_inv G gs N tk (pick (A\<lparr>waiting := (waiting A)(sym_wait_in G := waiting A (sym_wait_in G) @ [n]),
        running := None\<rparr>)) t" "sched_state.more t = sched_state.more s" by blast
  moreover have "ring_empty (uart_in s)" using ring_empty_iff [OF buf] Nil by simp
  ultimately show ?thesis using Nil uart_fields(2) [OF w(3)] by (simp add: getchar_def kbind_Inr)
next
  case (Cons c cs)
  with getchar_ready_ok [OF buf [unfolded Cons]] show ?thesis by auto
qed

lemma getchar_correct_witness:
  "\<exists>(s :: uart_state) t. getchar two_symbols s = Some (Inr (Done 66, t)) \<and> ring_rep (uart_in s) [66, 67] \<and>
    ring_rep (uart_in t) [67]"
proof -
  obtain u :: sched_state where u: "sched_inv two_symbols two_groups two_threads two_tasks first_runs u"
    by (rule first_runs_exists)
  let ?s = "serial_on u [] [66, 67] (\<lambda>_. 0)"
  have b: "ring_rep (uart_in ?s) [66, 67]" by (simp add: filled_ring)
  have r: "running first_runs = Some 0x3f00400004" by (simp add: first_runs_def)
  from getchar_correct [OF serial_on_inv [OF u] two_wait(1) r b] obtain c where
    "getchar two_symbols ?s = Some (Inr (Done 66, ?s\<lparr>uart_in := c\<rparr>))" "ring_rep c [67]" by auto
  with b show ?thesis by (intro exI [of _ ?s] exI [of _ "?s\<lparr>uart_in := c\<rparr>"]) simp
qed

end
