(* ===== verification/Irq_Correct.thy ===== *)
theory Irq_Correct
  imports Uart_Correct
begin
section \<open>Correctness of the trap handlers\<close>

text \<open>
  What an interrupt means for the threads: a byte that arrives while the processor idles lets
  the reader that waits for it run, and a thread that the timer interrupts in user mode gets
  its registers back when it is dispatched again.
\<close>

subsection \<open>A serial interrupt while the processor idles\<close>

lemma irq_fields:
  assumes "uart_state.more t = uart_state.more s"
  shows "mmio t = mmio s" "claims t = claims s" "stvec t = stvec s"
  using assms by (cases s, cases t, simp)+

text \<open>
  Property C10. While the processor idles and a thread waits in \<open>getchar\<close>, a serial interrupt
  with at least one byte ends in the dispatch of the first waiting reader; the byte is in the
  input buffer, and the interrupt is completed at the interrupt controller.
\<close>
theorem serial_interrupt_runs_reader:
  assumes inv: "sched_inv G gs N tk A s" and idle: "running A = None" "ready A = []"
    and g: "sym_wait_in G \<in> gs" "sym_wait_out G \<in> gs" "sym_wait_in G \<noteq> sym_wait_out G"
    and w: "waiting A (sym_wait_in G) = r # rs"
    and bufs: "ring_rep (uart_in s) xs" "ring_rep (uart_out s) ys"
    and rx: "\<forall>i<n. lsr s i AND LSR_RX_READY \<noteq> 0" "lsr s n AND LSR_RX_READY = 0" "0 < n"
    and irq: "status_spp (sstatus s) \<noteq> 0" "cause_interrupt (scause s)" "cause_code (scause s) = CAUSE_SEI"
      "claims s 0 = UART0_IRQ"
  shows "\<exists>d t. trap_handler G s = Some (Inr (d, t)) \<and> d \<noteq> Idle \<and> current_task t = tk r \<and>
    ring_rep (uart_in t) (take 32 (xs @ map (rhr s) [0..<n])) \<and>
    mmio t = mmio s @ [(PLIC_SCLAIM 0, UART0_IRQ)]"
proof -
  let ?s = "s\<lparr>claims := \<lambda>i. claims s (Suc i)\<rparr>"
  have inv1: "sched_inv G gs N tk A ?s" by (rule sched_inv_device [OF inv]) simp_all
  have 1: "ring_rep (uart_in ?s) xs" "ring_rep (uart_out ?s) ys" "\<forall>i<n. lsr ?s i AND LSR_RX_READY \<noteq> 0"
    "lsr ?s n AND LSR_RX_READY = 0" using bufs rx by simp_all
  from uartintr_ok [OF inv1 g(1,2) 1] obtain t k where
    t: "uartintr G ?s = Some (Inr ((), t))" "ring_rep (uart_in t) (take 32 (xs @ map (rhr ?s) [0..<n]))"
      "sched_inv G gs N tk (wake_if (length ys - k < 32) (sym_wait_out G) (wake_if (0 < n) (sym_wait_in G) A)) t"
      "uart_state.more t = uart_state.more ?s" by blast
  let ?B = "wake_if (length ys - k < 32) (sym_wait_out G) (wake_if (0 < n) (sym_wait_in G) A)"
  have B: "running ?B = None" "\<exists>zs. ready ?B = r # zs"
    using idle w rx(3) by (simp_all add: wake_if_def wake_group_def)
  let ?t = "t\<lparr>mmio := mmio t @ [(PLIC_SCLAIM 0, UART0_IRQ)]\<rparr>"
  have invt: "sched_inv G gs N tk ?B ?t" by (rule sched_inv_device [OF t(3)]) simp_all
  have cur: "current_task s = 0" "current_task ?t = 0"
    using sched_invD(9) [OF inv idle(1)] sched_invD(9) [OF invt B(1)] by simp_all
  from do_schedule_ok [OF invt B(1)] obtain d u where
    u: "do_schedule G ?t = Some (Inr (d, u))" "sched_inv G gs N tk (pick ?B) u" "dispatched G tk (pick ?B) d u"
      "sched_state.more u = sched_state.more ?t" by blast
  have run: "running (pick ?B) = Some r" using B(2) by (auto simp: pick_def)
  have "handle_interrupt G (sym_trapframe G) MODE_SUPERVISOR s = Some (Inr (Done 0, ?t))"
    using irq(2-4) t(1)
    by (simp add: handle_interrupt_def kbind_Inr kthen_Inr read_scause_def read_claim_def write_mmio_def)
  then have "trap_handler G s = Some (Inr (d, u))"
    using irq(1) cur u(1)
    by (simp add: trap_handler_def kernel_trap_def kbind_Inr kthen_Inr read_sstatus_def schedule_def save_kernel_frame_def)
  moreover have "d \<noteq> Idle" using u(3) run by (auto simp: dispatched_def)
  moreover have "current_task u = tk r" using sched_invD(10) [OF u(2) run] by simp
  moreover have "uart_in u = uart_in t" using uart_fields(2) [OF u(4)] by simp
  moreover have "mmio u = mmio ?t" using u(4) by (cases u, cases t) simp
  ultimately show ?thesis using t(2) irq_fields(1) [OF t(4)] by simp
qed

text \<open>The two threads wait for input, and the processor idles.\<close>

definition both_wait :: threads where
  "both_wait = \<lparr>ready = [], waiting = (\<lambda>_. [])(0x3f00500100 := [0x3f00400004, 0x3f00401004]), running = None\<rparr>"

lemma both_wait_exists:
  obtains t :: sched_state where "sched_inv two_symbols two_groups two_threads two_tasks both_wait t"
proof -
  obtain u :: sched_state where u: "sched_inv two_symbols two_groups two_threads two_tasks first_runs u"
    by (rule first_runs_exists)
  let ?g = "0x3f00500100 :: u64"
  let ?A = "pick (first_runs\<lparr>waiting := (waiting first_runs)(?g := waiting first_runs ?g @ [0x3f00400004]),
      running := None\<rparr>)"
  let ?B = "pick (?A\<lparr>waiting := (waiting ?A)(?g := waiting ?A ?g @ [0x3f00401004]), running := None\<rparr>)"
  have 1: "sched_step first_runs (Block ?g) ?A" by (rule block) (simp add: first_runs_def)
  have 2: "sched_step ?A (Block ?g) ?B" by (rule block) (simp add: first_runs_def pick_def)
  have "\<forall>e\<in>set [Block ?g, Block ?g]. group_ok two_groups e" by (simp add: two_groups_def)
  with run_events_ok [OF run_cons [OF 1 run_cons [OF 2 run_nil]] u] obtain t :: sched_state where
    "sched_inv two_symbols two_groups two_threads two_tasks ?B t" by blast
  moreover have "?B = both_wait" by (simp add: both_wait_def first_runs_def pick_def)
  ultimately show ?thesis using that by simp
qed

text \<open>A trap with a status and a cause; the serial device has one byte.\<close>

definition trap_state :: "sched_state \<Rightarrow> u64 \<Rightarrow> u64 \<Rightarrow> irq_state" where
  "trap_state u status cause = uart_state.extend
     (serial_on (u\<lparr>sstatus := status, scause := cause\<rparr>) [] [] ((\<lambda>_. 0)(0 := 1)))
     (irq_state.fields (\<lambda>_. UART0_IRQ) [] 0)"

lemma trap_state_fields:
  "uart_in (trap_state u status cause) = filled_ring []" "uart_out (trap_state u status cause) = filled_ring []"
  "lsr (trap_state u status cause) = (\<lambda>_. 0)(0 := 1)" "rhr (trap_state u status cause) = (\<lambda>_. 65)"
  "sstatus (trap_state u status cause) = status" "scause (trap_state u status cause) = cause" "mem (trap_state u status cause) = mem u"
  "claims (trap_state u status cause) = (\<lambda>_. UART0_IRQ)" "mmio (trap_state u status cause) = []"
  by (simp_all add: trap_state_def serial_on_def sched_state.defs uart_state.defs irq_state.defs)

lemma trap_state_inv:
  "sched_inv G gs N tk A u \<Longrightarrow> sched_inv G gs N tk A (trap_state u status cause)"
  by (erule sched_inv_device) (simp_all add: trap_state_def serial_on_def sched_state.defs uart_state.defs)

lemma serial_interrupt_runs_reader_witness:
  "\<exists>(s :: irq_state) d t. trap_handler two_symbols s = Some (Inr (d, t)) \<and> d \<noteq> Idle \<and>
    current_task s = 0 \<and> current_task t = 0x3f00600000 \<and> ring_rep (uart_in t) [65]"
proof -
  obtain u :: sched_state where u: "sched_inv two_symbols two_groups two_threads two_tasks both_wait u"
    by (rule both_wait_exists)
  let ?s = "trap_state u 0x100 0x8000000000000009"
  note F = trap_state_fields [of u "0x100" "0x8000000000000009"]
  have inv: "sched_inv two_symbols two_groups two_threads two_tasks both_wait ?s" by (rule trap_state_inv [OF u])
  have w: "running both_wait = None" "ready both_wait = []"
    "waiting both_wait (sym_wait_in two_symbols) = 0x3f00400004 # [0x3f00401004]"
    by (simp_all add: both_wait_def two_symbols_def)
  have g: "sym_wait_in two_symbols \<noteq> sym_wait_out two_symbols" by (simp add: two_symbols_def)
  have b: "ring_rep (uart_in ?s) []" "ring_rep (uart_out ?s) []" by (simp_all add: F filled_ring)
  have rx: "\<forall>i<1. lsr ?s i AND LSR_RX_READY \<noteq> 0" "lsr ?s 1 AND LSR_RX_READY = 0" "0 < (1 :: nat)"
    by (simp_all add: F LSR_RX_READY_def)
  have irq: "status_spp (sstatus ?s) \<noteq> 0" "cause_interrupt (scause ?s)" "cause_code (scause ?s) = CAUSE_SEI"
    "claims ?s 0 = UART0_IRQ"
    unfolding F by (simp_all add: status_spp_def cause_interrupt_def cause_code_def CAUSE_SEI_def field_def)
  have "current_task ?s = 0" using sched_invD(9) [OF inv w(1)] by simp
  with serial_interrupt_runs_reader [OF inv w(1,2) two_wait g w(3) b rx irq] show ?thesis
    by (auto simp: F two_tasks_def)
qed

subsection \<open>Page faults of the kernel\<close>

text \<open>
  What \<open>page_fault\<close> does at once is what the trap does: the processor and \<open>trap_vector\<close> leave the state \<open>fault_trap\<close>, and
  from there \<open>trap_handler\<close> resumes the frame in \<open>page_fault_handler\<close>, in the state that \<open>page_fault\<close> leaves, whenever page faults are
  allowed and the cause is a load or a store.
\<close>

lemma page_fault_is_trap:
  fixes s :: "'a irq_state_scheme"
  assumes "may_page_fault s" and "scause s = LOAD_FAULT \<or> scause s = STORE_FAULT"
  shows "\<exists>t. page_fault G s = Some (Inr ((), t)) \<and>
    trap_handler G (fault_trap G s) = Some (Inr (Resume (sym_page_fault_handler G), t))"
proof -
  let ?t = "fault_trap G s" and ?u = "save_kernel_frame (sym_trapframe G) (fault_trap G s)"
  have spp: "status_spp (sstatus ?t) \<noteq> 0"
  proof
    assume "status_spp (sstatus ?t) = 0"
    then have "\<not> bit (status_spp (sstatus ?t)) 0" by simp
    then show False
      by (simp add: fault_trap_def status_spp_def case_prod_beta bit_field_iff bit_put_bit bit_set_field_iff)
  qed
  have keep: "scause ?u = scause s" "may_page_fault ?u = may_page_fault s"
    by (simp_all add: fault_trap_def save_kernel_frame_def case_prod_beta)
  have cause: "\<not> cause_interrupt (scause s)" "cause_code (scause s) = scause s"
    using assms(2) by (auto simp: cause_interrupt_def cause_code_def LOAD_FAULT_def STORE_FAULT_def field_def)
  have "handle_interrupt G (sym_trapframe G) MODE_SUPERVISOR ?u = Some (Inr (Done 1, ?u))"
    using cause keep by (simp add: handle_interrupt_def read_scause_def kbind_Inr)
  then have "kernel_trap G (sym_trapframe G) ?t = Some (Inr (Switch (Resume (sym_page_fault_handler G)), ?u))"
    using cause keep assms by (simp add: kernel_trap_def kbind_Inr kthen_Inr read_scause_def klongjmp_def)
  then show ?thesis using spp
    by (simp add: page_fault_def trap_handler_def read_sstatus_def kbind_Inr)
qed

subsection \<open>Saving and restoring registers\<close>

text \<open>A run of events that ends the first time the thread \<open>n\<close> has the processor again.\<close>

inductive runs_until :: "u64 \<Rightarrow> threads \<Rightarrow> event list \<Rightarrow> threads \<Rightarrow> bool" for n where
  until_now: "sched_step A e B \<Longrightarrow> running B = Some n \<Longrightarrow> runs_until n A [e] B"
| until_later: "sched_step A e B \<Longrightarrow> running B \<noteq> Some n \<Longrightarrow> runs_until n B es C \<Longrightarrow> runs_until n A (e # es) C"

inductive_cases runs_untilE: "runs_until n A (e # es) C"

lemma kept_task:
  assumes inv: "sched_inv G gs N tk A s" and n: "n \<in> N" and run: "running A \<noteq> Some n"
    and ag: "agree (- step_cells G gs N tk (running A)) (mem s) (mem t)"
  shows "agree (span (tk n) 592) (mem s) (mem t)"
proof -
  have "\<forall>k. running A = Some k \<longrightarrow> k \<in> N" using sched_invD(10) [OF inv] by blast
  then have "span (tk n) 592 \<inter> step_cells G gs N tk (running A) = {}"
    by (rule step_cells_other [OF sched_invD(2) [OF inv] n run])
  then show ?thesis by (intro agree_mono [OF ag]) blast
qed

lemma same_task:
  assumes a: "agree (span (k) 592) (mem s) (mem t)"
  shows "same_cpu (mem s) (t_user_frame (k)) (mem t) (t_user_frame (k))"
    and "t_mode (mem t) (k) = t_mode (mem s) (k)"
    and "t_page_table (mem t) (k) = t_page_table (mem s) (k)"
proof -
  show "same_cpu (mem s) (t_user_frame (k)) (mem t) (t_user_frame (k))"
    by (rule same_cpu_agree [OF agree_mono [OF a own_cells(2)]])
  show "t_mode (mem t) (k) = t_mode (mem s) (k)"
    using agree_load32 [OF a own_cells(3)] by (simp add: t_mode_def)
  have "span (k + 48) 8 \<subseteq> span (k) 592" by (rule span_shift_subset) simp
  then show "t_page_table (mem t) (k) = t_page_table (mem s) (k)"
    using agree_load64 [OF a] by (simp add: t_page_table_def)
qed

lemma user_dispatch:
  assumes "dispatched G tk A d t" and "running A = Some n" and "t_mode (mem t) (tk n) = MODE_USER"
  shows "d = Enter_user" and "same_cpu (mem t) (t_user_frame (tk n)) (mem t) (sym_trapframe G)"
    and "active_root t = t_page_table (mem t) (tk n)"
  using assms by (simp_all add: dispatched_def)

text \<open>
  From \<open>s\<close> on, until the thread \<open>n\<close> has the processor again, with the dispatch \<open>d\<close> and the state \<open>u\<close>: events of the scheduler,
  and between them whatever other code does that leaves the object of the thread's task alone and hands the scheduler a consistent
  state. Other threads may so run in user mode, trap, fault, write any other memory, fork (the threads become \<open>N'\<close> and \<open>tk'\<close>), execute
  a program and exit.
\<close>

inductive resumes ::
  "symbols \<Rightarrow> u64 set \<Rightarrow> u64 \<Rightarrow> u64 set \<Rightarrow> (u64 \<Rightarrow> u64) \<Rightarrow> threads \<Rightarrow> 'a sched_state_scheme \<Rightarrow>
     dispatch option \<Rightarrow> 'a sched_state_scheme \<Rightarrow> bool"
  for G gs n where
  resumes_now: "sched_step A e B \<Longrightarrow> group_ok gs e \<Longrightarrow> running B = Some n \<Longrightarrow> perform G e s = Some (Inr (d, u)) \<Longrightarrow>
    resumes G gs n N tk A s d u"
| resumes_event: "sched_step A e B \<Longrightarrow> group_ok gs e \<Longrightarrow> running B \<noteq> Some n \<Longrightarrow> perform G e s = Some (Inr (r, t)) \<Longrightarrow>
    resumes G gs n N tk B t d u \<Longrightarrow> resumes G gs n N tk A s d u"
| resumes_other: "sched_inv G gs N' tk' A' t \<Longrightarrow> n \<in> N' \<Longrightarrow> tk' n = tk n \<Longrightarrow> running A' \<noteq> Some n \<Longrightarrow>
    agree (span (tk n) 592) (mem s) (mem t) \<Longrightarrow> resumes G gs n N' tk' A' t d u \<Longrightarrow> resumes G gs n N tk A s d u"

lemma resumes_ok:
  assumes "resumes G gs n N tk A s d u"
  shows "sched_inv G gs N tk A s \<Longrightarrow> n \<in> N \<Longrightarrow> running A \<noteq> Some n \<Longrightarrow> t_mode (mem s) (tk n) = MODE_USER \<Longrightarrow>
    d = Some Enter_user \<and> current_task u = tk n \<and>
      same_cpu (mem s) (t_user_frame (tk n)) (mem u) (sym_trapframe G) \<and>
      active_root u = t_page_table (mem s) (tk n)"
  using assms
proof (induction rule: resumes.induct)
  case (resumes_now A e B s d u N tk)
  from perform_ok [OF resumes_now.prems(1) resumes_now.hyps(1,2)] resumes_now.hyps(4) have
    t: "sched_inv G gs N tk B u" "if dispatches e then \<exists>x. d = Some x \<and> dispatched G tk B x u else d = None"
      "agree (- step_cells G gs N tk (running A)) (mem s) (mem u)" by auto
  have "dispatches e"
    using resumes_now.hyps resumes_now.prems(3) by (cases e) (auto simp: wake_iff)
  with t(2) obtain x where x: "d = Some x" "dispatched G tk B x u" by auto
  note K = same_task [OF kept_task [OF resumes_now.prems(1-3) t(3)]]
  have "t_mode (mem u) (tk n) = MODE_USER" using K(2) resumes_now.prems(4) by simp
  note U = user_dispatch [OF x(2) resumes_now.hyps(3) this]
  have "current_task u = tk n" using sched_invD(10) [OF t(1) resumes_now.hyps(3)] by simp
  with x(1) U same_cpu_trans [OF K(1) U(2)] K(3) show ?case by simp
next
  case (resumes_event A e B s r t N tk d u)
  from perform_ok [OF resumes_event.prems(1) resumes_event.hyps(1,2)] resumes_event.hyps(4) have
    t: "sched_inv G gs N tk B t" "agree (- step_cells G gs N tk (running A)) (mem s) (mem t)" by auto
  note K = same_task [OF kept_task [OF resumes_event.prems(1-3) t(2)]]
  from resumes_event.IH [OF t(1) resumes_event.prems(2) resumes_event.hyps(3)] K resumes_event.prems(4)
  show ?case using same_cpu_trans [OF K(1)] by simp
next
  case (resumes_other N' tk' A' t tk s d u N A)
  have K: "same_cpu (mem s) (t_user_frame (tk n)) (mem t) (t_user_frame (tk n))"
    "t_mode (mem t) (tk n) = t_mode (mem s) (tk n)" "t_page_table (mem t) (tk n) = t_page_table (mem s) (tk n)"
    by (rule same_task [OF resumes_other.hyps(5)])+
  from resumes_other.IH [OF resumes_other.hyps(1,2,4)] K resumes_other.prems(4) resumes_other.hyps(3)
  show ?case using same_cpu_trans [OF K(1)] by simp
qed

text \<open>No event gets stuck: every sequence of events of the abstract scheduler that leads back to the thread is such a run.\<close>

lemma resumes_exists:
  assumes "runs_until n A es B"
  shows "sched_inv G gs N tk A s \<Longrightarrow> \<forall>e\<in>set es. group_ok gs e \<Longrightarrow> \<exists>d u. resumes G gs n N tk A s d u"
  using assms
proof (induction arbitrary: s rule: runs_until.induct)
  case (until_now A e B)
  then have g: "group_ok gs e" by simp
  from perform_ok [OF until_now.prems(1) until_now.hyps(1) g] show ?case
    using resumes_now [OF until_now.hyps(1) g until_now.hyps(2)] by blast
next
  case (until_later A e B es C)
  then have g: "group_ok gs e" "\<forall>e\<in>set es. group_ok gs e" by simp_all
  from perform_ok [OF until_later.prems(1) until_later.hyps(1) g(1)] obtain r t where
    t: "perform G e s = Some (Inr (r, t))" "sched_inv G gs N tk B t" by blast
  from until_later.IH [OF t(2) g(2)] show ?case
    using resumes_event [OF until_later.hyps(1) g(1) until_later.hyps(2) t(1)] by blast
qed

text \<open>
  Property C7. A thread that the timer interrupts in user mode continues with exactly the registers it had, in the address space
  it had, and in user mode, whenever it is dispatched again: at once, or after any events of the scheduler, with any doings of other
  threads between them that leave the thread's own \<open>struct task\<close> alone and the scheduler's lists consistent. The timer's trap itself returns, and
  every sequence of events after which the abstract scheduler runs the thread again is possible.
\<close>
theorem registers_restored:
  assumes inv: "sched_inv G gs N tk A s" and run: "running A = Some n" and step: "sched_step A (Tick MODE_USER) A1"
  shows "\<exists>d t. perform G (Tick MODE_USER) s = Some (Inr (Some d, t)) \<and> sched_inv G gs N tk A1 t \<and>
    (running A1 = Some n \<longrightarrow> d = Enter_user \<and> current_task t = tk n \<and>
      same_cpu (mem s) (sym_trapframe G) (mem t) (sym_trapframe G) \<and> active_root t = t_page_table (mem t) (tk n)) \<and>
    (running A1 \<noteq> Some n \<longrightarrow> (\<forall>e u. resumes G gs n N tk A1 t e u \<longrightarrow> e = Some Enter_user \<and> current_task u = tk n \<and>
      same_cpu (mem s) (sym_trapframe G) (mem u) (sym_trapframe G) \<and> active_root u = t_page_table (mem t) (tk n))) \<and>
    (\<forall>es B. runs_until n A1 es B \<and> (\<forall>e\<in>set es. group_ok gs e) \<longrightarrow> (\<exists>e u. resumes G gs n N tk A1 t e u))"
proof -
  have n: "n \<in> N" using sched_invD(10) [OF inv run] by simp
  from perform_ok [OF inv step, simplified] run obtain d t where
    t: "perform G (Tick MODE_USER) s = Some (Inr (Some d, t))" "sched_inv G gs N tk A1 t" "dispatched G tk A1 d t"
      "t_mode (mem t) (tk n) = MODE_USER" "same_cpu (mem s) (sym_trapframe G) (mem t) (t_user_frame (tk n))"
    by auto
  have now: "d = Enter_user \<and> current_task t = tk n \<and> same_cpu (mem s) (sym_trapframe G) (mem t) (sym_trapframe G) \<and>
      active_root t = t_page_table (mem t) (tk n)" if r: "running A1 = Some n"
    using user_dispatch [OF t(3) r t(4)] same_cpu_trans [OF t(5)] sched_invD(10) [OF t(2) r] by simp
  have later: "e = Some Enter_user \<and> current_task u = tk n \<and> same_cpu (mem s) (sym_trapframe G) (mem u) (sym_trapframe G) \<and>
      active_root u = t_page_table (mem t) (tk n)"
    if "running A1 \<noteq> Some n" "resumes G gs n N tk A1 t e u" for e u
    using resumes_ok [OF that(2) t(2) n that(1) t(4)] same_cpu_trans [OF t(5)] by blast
  show ?thesis using t(1,2) now later resumes_exists [OF _ t(2)] by blast
qed

lemma registers_restored_witness:
  "\<exists>ds (s :: sched_state) t (v :: sched_state) u. perform two_symbols (Tick 0) s = Some (Inr (ds, t)) \<and>
    mem v = set_cpu_pc (sym_trapframe two_symbols) 77 (mem t) \<and> perform two_symbols (Tick 0) v = Some (Inr (Some Enter_user, u)) \<and>
    current_task u = 0x3f00600000 \<and> same_cpu (mem s) (sym_trapframe two_symbols) (mem u) (sym_trapframe two_symbols)"
proof -
  obtain s :: sched_state where s: "sched_inv two_symbols two_groups two_threads two_tasks first_runs s"
    by (rule first_runs_exists)
  let ?A = "pick (first_runs\<lparr>ready := ready first_runs @ [0x3f00400004], running := None\<rparr>)"
  let ?B = "pick (?A\<lparr>ready := ready ?A @ [0x3f00401004], running := None\<rparr>)"
  have r: "running first_runs = Some 0x3f00400004" by (simp add: first_runs_def)
  have 1: "sched_step first_runs (Tick MODE_USER) ?A" by (rule tick) (simp_all add: first_runs_def)
  have 2: "sched_step ?A (Tick 0) ?B" by (rule tick) (simp_all add: first_runs_def pick_def)
  have ra: "running ?A \<noteq> Some 0x3f00400004" "running ?B = Some 0x3f00400004" by (simp_all add: first_runs_def pick_def)
  from registers_restored [OF s r 1] ra(1) obtain d t where
    t: "perform two_symbols (Tick MODE_USER) s = Some (Inr (Some d, t))" "sched_inv two_symbols two_groups two_threads two_tasks ?A t"
      "\<And>e u. resumes two_symbols two_groups 0x3f00400004 two_threads two_tasks ?A t e u \<Longrightarrow> e = Some Enter_user \<and>
        current_task u = two_tasks 0x3f00400004 \<and>
        same_cpu (mem s) (sym_trapframe two_symbols) (mem u) (sym_trapframe two_symbols)" by blast
  let ?v = "t\<lparr>mem := set_cpu_pc (sym_trapframe two_symbols) 77 (mem t)\<rparr>"
  have fr: "agree (- span (sym_trapframe two_symbols) 264) (mem t) (mem ?v)" using set_cpu_frame(2) by simp
  then have "agree (- frame_cells two_symbols two_threads two_tasks) (mem t) (mem ?v)"
    by (rule agree_mono) (auto simp: frame_cells_def)
  then have v: "sched_inv two_symbols two_groups two_threads two_tasks ?A ?v"
    by (rule sched_inv_frames(1) [OF t(2)]) simp_all
  have n: "0x3f00400004 \<in> two_threads" by (simp add: two_threads_def)
  have "span (two_tasks 0x3f00400004) 592 \<inter> span (sym_trapframe two_symbols) 264 = {}"
    using t(2) n unfolding sched_inv_def task_objects_def by blast
  then have own: "agree (span (two_tasks 0x3f00400004) 592) (mem t) (mem ?v)" by (intro agree_mono [OF fr]) blast
  from perform_ok [OF v 2] obtain x u where u: "perform two_symbols (Tick 0) ?v = Some (Inr (x, u))" by auto
  have "resumes two_symbols two_groups 0x3f00400004 two_threads two_tasks ?A t x u"
  proof (rule resumes_other [where tk' = two_tasks and N' = two_threads and A' = "?A" and t = "?v"])
    show "resumes two_symbols two_groups 0x3f00400004 two_threads two_tasks ?A ?v x u"
      by (rule resumes_now [OF 2 _ ra(2) u]) simp
  qed (rule v n refl ra(1) own)+
  from t(3) [OF this] u have "perform two_symbols (Tick 0) ?v = Some (Inr (Some Enter_user, u))" "current_task u = 0x3f00600000"
    "same_cpu (mem s) (sym_trapframe two_symbols) (mem u) (sym_trapframe two_symbols)" by (simp_all add: two_tasks_def)
  moreover have "mem ?v = set_cpu_pc (sym_trapframe two_symbols) 77 (mem t)" by simp
  moreover have "perform two_symbols (Tick 0) s = Some (Inr (Some d, t))" using t(1) by simp
  ultimately show ?thesis by blast
qed

end
