(* ===== verification/Elf.thy ===== *)
theory Elf
  imports Sched
begin

section \<open>Loading programs (elf.c)\<close>

text \<open>
  \<open>load_elf\<close> and \<open>task_init_elf\<close>. The structures \<open>Elf64_Ehdr\<close> and \<open>Elf64_Phdr\<close> come from
  the C library's \<^verbatim>\<open>elf.h\<close>; the offsets of their fields are those of the ELF-64 object file
  format. The program lies in the kernel's memory, and is read there.
\<close>

subsection \<open>The fields of a program\<close>

definition load16 :: "memory \<Rightarrow> u64 \<Rightarrow> u64" where
  "load16 m a = load_le 2 m a"

definition e_machine :: "memory \<Rightarrow> u64 \<Rightarrow> u64" where "e_machine m p = load16 m (p + 18)"
definition e_entry :: "memory \<Rightarrow> u64 \<Rightarrow> u64" where "e_entry m p = load64 m (p + 24)"
definition e_phoff :: "memory \<Rightarrow> u64 \<Rightarrow> u64" where "e_phoff m p = load64 m (p + 32)"
definition e_phentsize :: "memory \<Rightarrow> u64 \<Rightarrow> u64" where "e_phentsize m p = load16 m (p + 54)"
definition e_phnum :: "memory \<Rightarrow> u64 \<Rightarrow> u64" where "e_phnum m p = load16 m (p + 56)"

definition p_type :: "memory \<Rightarrow> u64 \<Rightarrow> u32" where "p_type m h = load32 m h"
definition p_flags :: "memory \<Rightarrow> u64 \<Rightarrow> u32" where "p_flags m h = load32 m (h + 4)"
definition p_offset :: "memory \<Rightarrow> u64 \<Rightarrow> u64" where "p_offset m h = load64 m (h + 8)"
definition p_vaddr :: "memory \<Rightarrow> u64 \<Rightarrow> u64" where "p_vaddr m h = load64 m (h + 16)"
definition p_filesz :: "memory \<Rightarrow> u64 \<Rightarrow> u64" where "p_filesz m h = load64 m (h + 32)"
definition p_memsz :: "memory \<Rightarrow> u64 \<Rightarrow> u64" where "p_memsz m h = load64 m (h + 40)"

definition PT_LOAD :: u32 where "PT_LOAD = 1"
definition PT_DYNAMIC :: u32 where "PT_DYNAMIC = 2"
definition PT_INTERP :: u32 where "PT_INTERP = 3"
definition PT_GNU_STACK :: u32 where "PT_GNU_STACK = 0x6474e551"
definition PF_X :: u32 where "PF_X = 1"
definition PF_W :: u32 where "PF_W = 2"
definition PF_R :: u32 where "PF_R = 4"

text \<open>\<open>i * program->e_phentsize\<close> is computed in 32-bit arithmetic.\<close>

definition phdr_addr :: "memory \<Rightarrow> u64 \<Rightarrow> nat \<Rightarrow> u64" where
  "phdr_addr m program i =
     program + e_phoff m program + scast ((of_nat i :: u32) * ucast (e_phentsize m program))"

subsection \<open>Loading a segment\<close>

text \<open>The flags of the page table entries and of the area.\<close>

definition segment_flags :: "u32 \<Rightarrow> u32 \<times> u32" where
  "segment_flags pf =
     (let (flags, area_flags) = (PTE_VALID OR PTE_USER, 0);
          (flags, area_flags) =
            (if pf AND PF_R \<noteq> 0 then (flags OR PTE_READ, area_flags OR VM_READ) else (flags, area_flags));
          (flags, area_flags) =
            (if pf AND PF_W \<noteq> 0 then (flags OR PTE_WRITE, area_flags OR VM_WRITE) else (flags, area_flags))
      in if pf AND PF_X \<noteq> 0 then (flags OR PTE_EXEC, area_flags OR VM_EXEC) else (flags, area_flags))"

text \<open>The first page and the end of a segment; \<open>++end_addr.vpn\<close> is a field of 27 bits.\<close>

definition segment_start :: "u64 \<Rightarrow> u64" where
  "segment_start vaddr = set_field 0 12 0 vaddr"

definition segment_end :: "u64 \<Rightarrow> u64 \<Rightarrow> u64" where
  "segment_end vaddr memsz =
     (let e = vaddr + memsz in
      if va_off e \<noteq> 0 then set_field 12 27 (va_vpn e + 1) (set_field 0 12 0 e) else e)"

text \<open>
  One byte of a page: \<open>off\<close> counts the bytes before the segment, \<open>from\<close> is the next byte of
  the file, or \<open>NULL\<close> behind the end \<open>to\<close> of the file's part.
\<close>

definition fill_byte :: "u64 \<Rightarrow> u64 \<Rightarrow> nat \<Rightarrow> u64 \<times> u64 \<times> memory \<Rightarrow> u64 \<times> u64 \<times> memory" where
  "fill_byte page to k = (\<lambda>(off, from, m).
     if 0 < off then (off - 1, from, store8 m (page + of_nat k) 0)
     else
       (let m' = store8 m (page + of_nat k) (if from \<noteq> 0 then m from else 0);
            from' = (if from \<noteq> 0 then from + 1 else from)
        in (off, if to \<le> from' then 0 else from', m')))"

definition fill_page :: "u64 \<Rightarrow> u64 \<Rightarrow> u64 \<times> u64 \<times> memory \<Rightarrow> u64 \<times> u64 \<times> memory" where
  "fill_page page to = fold (fill_byte page to) [0..<unat PAGE_SIZE]"

definition load_page ::
  "u64 \<Rightarrow> u64 \<Rightarrow> u32 \<Rightarrow> u64 \<Rightarrow> u64 \<Rightarrow> u64 \<Rightarrow> u64 \<Rightarrow> ('a mm_state_scheme, u64 \<times> u64) kern" where
  "load_page table ar flags to addr off from =
     kbind (alloc_pages 0) (\<lambda>p.
       let page = address p in
       if page = 0 then kpanic ''out of memory''
       else
         kbind (vm_area_add_page ar page) (\<lambda>err.
           if err \<noteq> 0 then kpanic ''out of memory''
           else
             kbind (kgets (\<lambda>s. PA (early s) page)) (\<lambda>pa.
             kbind (set_page table addr pa flags) (\<lambda>err.
               if err \<noteq> 0 then kpanic ''set_page''
               else
                 kbind (kgets (\<lambda>s. fill_page page to (off, from, mem s))) (\<lambda>(off, from, m).
                 kthen (kmodify (\<lambda>s. s\<lparr>mem := m\<rparr>)) (kreturn (off, from)))))))"

partial_function (option) load_pages ::
  "u64 \<Rightarrow> u64 \<Rightarrow> u32 \<Rightarrow> u64 \<Rightarrow> u64 \<Rightarrow> u64 \<Rightarrow> u64 \<Rightarrow> u64 \<Rightarrow> 'a mm_state_scheme \<Rightarrow>
     (string + unit \<times> 'a mm_state_scheme) option" where
  "load_pages table ar flags to end_addr addr off from s =
     (if addr < end_addr
      then kbind (load_page table ar flags to addr off from)
             (\<lambda>r t. load_pages table ar flags to end_addr (addr + PAGE_SIZE) (fst r) (snd r) t) s
      else Some (Inr ((), s)))"

definition load_segment :: "u64 \<Rightarrow> u64 \<Rightarrow> u64 \<Rightarrow> u64 \<Rightarrow> ('a mm_state_scheme, unit) kern" where
  "load_segment task table program h =
     kbind (kgets (\<lambda>s. (p_flags (mem s) h, p_offset (mem s) h, p_filesz (mem s) h, p_vaddr (mem s) h,
         p_memsz (mem s) h))) (\<lambda>(pf, offset, filesz, vaddr, memsz).
       let (flags, area_flags) = segment_flags pf;
           from = program + offset;
           to = from + filesz;
           addr = segment_start vaddr;
           end_addr = segment_end vaddr memsz
       in kbind (vm_area_create addr (va_vpn end_addr - va_vpn addr) area_flags) (\<lambda>ar.
          kbind (vm_add_area (t_vm_areas task) ar) (\<lambda>err.
            if err \<noteq> 0 then kpanic ''out of memory''
            else (\<lambda>s. load_pages table ar flags to end_addr addr (va_off vaddr) from s))))"

subsection \<open>load_elf\<close>

text \<open>
  The loop over the program headers: \<open>Inl\<close> is an early return, \<open>Inr\<close> the final value of
  \<open>execstack\<close>.
\<close>

partial_function (option) load_phdrs ::
  "u64 \<Rightarrow> u64 \<Rightarrow> u64 \<Rightarrow> nat \<Rightarrow> bool \<Rightarrow> 'a mm_state_scheme \<Rightarrow>
     (string + (int + bool) \<times> 'a mm_state_scheme) option" where
  "load_phdrs task table program i execstack s =
     (if i < unat (e_phnum (mem s) program) then
        (let h = phdr_addr (mem s) program i;
             ty = p_type (mem s) h
         in if ty = PT_LOAD
            then kbind (load_segment task table program h)
                   (\<lambda>_ t. load_phdrs task table program (i + 1) execstack t) s
            else if ty = PT_DYNAMIC \<or> ty = PT_INTERP then Some (Inr (Inl (- EINVAL), s))
            else if ty = PT_GNU_STACK
            then load_phdrs task table program (i + 1) (p_flags (mem s) h AND PF_X \<noteq> 0) s
            else load_phdrs task table program (i + 1) execstack s)
      else Some (Inr (Inr execstack, s)))"

definition map_stack :: "u64 \<Rightarrow> u64 \<Rightarrow> bool \<Rightarrow> ('a mm_state_scheme, unit) kern" where
  "map_stack task table execstack =
     (let vm = VM_READ OR VM_WRITE OR VM_STACK;
          pt = PTE_VALID OR PTE_USER OR PTE_READ OR PTE_WRITE;
          (vm, pt) = (if execstack then (vm OR VM_EXEC, pt OR PTE_EXEC) else (vm, pt));
          stack_begin = USERSTACK - PAGE_SIZE
      in kbind (alloc_pages 0) (\<lambda>p.
           let stack_page = address p in
           if stack_page = 0 then kpanic ''out of memory''
           else
             kthen (write_mem (clear_page stack_page))
            (kbind (vm_area_create stack_begin 1 vm) (\<lambda>ar.
             kbind (vm_add_area (t_vm_areas task) ar) (\<lambda>err.
               if err \<noteq> 0 then kpanic ''out of memory''
               else
                 kbind (vm_area_add_page ar stack_page) (\<lambda>err.
                   if err \<noteq> 0 then kpanic ''out of memory''
                   else
                     kbind (kgets (\<lambda>s. PA (early s) stack_page)) (\<lambda>pa.
                     kbind (set_page_user table stack_begin pa pt) (\<lambda>err.
                       if err \<noteq> 0 then kpanic ''set_page'' else kreturn ()))))))))"

definition load_elf :: "u64 \<Rightarrow> u64 \<Rightarrow> ('a mm_state_scheme, int) kern" where
  "load_elf task program =
     kbind (kgets (\<lambda>s. e_machine (mem s) program \<noteq> 0xf3)) (\<lambda>bad.
       if bad then kreturn (- EINVAL)
       else
         kbind (kgets (\<lambda>s. t_page_table (mem s) task)) (\<lambda>table.
         kbind (\<lambda>s. load_phdrs task table program 0 False s) (\<lambda>r.
           case r of
             Inl err \<Rightarrow> kreturn err
           | Inr execstack \<Rightarrow>
               kthen (map_stack task table execstack)
              (kthen (write_mem (fold (\<lambda>i. set_cpu_register (t_user_frame task) i 0) [0..<32]))
              (kthen (write_mem (set_cpu_register (t_user_frame task) REG_SP USERSTACK))
              (kthen (write_mem (\<lambda>m. set_cpu_pc (t_user_frame task) (e_entry m program) m))
                 (kreturn 0)))))))"

subsection \<open>The stack of a new program\<close>

definition user_stack_addr :: "u64 \<Rightarrow> u64" where
  "user_stack_addr off = USERSTACK - off"

text \<open>\<open>for (argc = 0; argv[argc]; ++argc)\<close>: the number of strings and the bytes they take.\<close>

partial_function (option) count_strings ::
  "memory \<Rightarrow> u64 \<Rightarrow> u64 \<Rightarrow> u64 \<Rightarrow> (u64 \<times> u64) option" where
  "count_strings m v n arg_size =
     (let p = load64 m (v + 8 * n) in
      if p = 0 then Some (n, arg_size)
      else Option.bind (strlen m p) (\<lambda>len. count_strings m v (n + 1) (arg_size + (len + 1))))"

text \<open>
  The loops that copy the strings to the stack page, whose end is \<open>stack\<close>. A fault of
  \<open>strlcpy\<close> is a fault of the kernel here.
\<close>

function put_strings ::
  "u64 \<Rightarrow> u64 \<Rightarrow> u64 \<Rightarrow> u64 \<Rightarrow> u64 \<Rightarrow> u64 \<Rightarrow> ('a cpu_state_scheme, u64) kern" where
  "put_strings i n base off stack v =
     (if i < n then
        kthen (write_mem (\<lambda>m. store64 m (stack - base + 8 * i) (user_stack_addr off)))
       (kbind (kgets (\<lambda>s. load64 (mem s) (v + 8 * i))) (\<lambda>str.
        kbind (strlcpy (stack - off) str off) (\<lambda>r.
          case r of
            None \<Rightarrow> kpanic ''unable to handle kernel interrupt''
          | Some len \<Rightarrow> put_strings (i + 1) n base (off - (len + 1)) stack v)))
      else kreturn off)"
  by pat_completeness auto
termination
  by (relation "measure (\<lambda>(i, n, base, off, stack, v). unat n - unat i)") (simp_all add: loop_measure)

declare put_strings.simps [simp del]

definition task_init_elf ::
  "u64 \<Rightarrow> u64 \<Rightarrow> u64 \<Rightarrow> u64 \<Rightarrow> ('a cpu_state_scheme, int) kern" where
  "task_init_elf task program argv envp =
     kthen (kassert (argv \<noteq> 0 \<and> envp \<noteq> 0) ''task_init_elf with NULL argv or envp'')
    (kthen (kassert (program \<noteq> 0) ''task_init_elf with NULL program'')
    (kbind (load_elf task program) (\<lambda>retval.
       if retval \<noteq> 0 then kreturn retval
       else
         kbind (kwalk (\<lambda>s. count_strings (mem s) argv 0 0)) (\<lambda>(argc, size1).
         kbind (kwalk (\<lambda>s. count_strings (mem s) envp 0 size1)) (\<lambda>(envc, size2).
           let argv_off = (argc + envc + 2) * 8;
               envp_off = (envc + 2) * 8;
               arg_size = size2 + argv_off
           in if PAGE_SIZE < arg_size then kpanic ''argv too big''
              else
                kbind (kgets (\<lambda>s. n_value (mem s) (l_last (mem s) (t_vm_areas task)))) (\<lambda>ar.
                kbind (kgets (\<lambda>s. area_flags (mem s) ar AND VM_STACK \<noteq> 0)) (\<lambda>ok.
                kthen (kassert ok ''fixme'')
               (kbind (kgets (\<lambda>s. area_n_pages (mem s) ar = 1)) (\<lambda>ok.
                kthen (kassert ok ''fixme'')
               (kbind (kgets (\<lambda>s. l_first (mem s) (area_pages ar) = l_last (mem s) (area_pages ar) \<and>
                    l_first (mem s) (area_pages ar) \<noteq> 0)) (\<lambda>ok.
                kthen (kassert ok ''fixme'')
               (kbind (kgets (\<lambda>s. n_value (mem s) (l_first (mem s) (area_pages ar)) + PAGE_SIZE)) (\<lambda>stack.
                kbind (put_strings 0 argc argv_off arg_size stack argv) (\<lambda>off.
                kbind (put_strings 0 envc envp_off off stack envp) (\<lambda>off.
                kthen (kassert (off = argv_off) ''stack size mismatch'')
               (kthen (write_mem (set_cpu_register (t_user_frame task) REG_A0 argc))
               (kthen (write_mem (set_cpu_register (t_user_frame task) REG_A1 (user_stack_addr argv_off)))
               (kthen (write_mem (set_cpu_register (t_user_frame task) REG_A2 (user_stack_addr envp_off)))
               (kthen (write_mem (set_cpu_register (t_user_frame task) REG_SP
                    (USERSTACK - (arg_size + 15) div 16 * 16)))
                  (kreturn 0))))))))))))))))))))"

end
