(* ===== verification/Elf_Correct.thy ===== *)
theory Elf_Correct
  imports Elf Vm_Correct
begin
section \<open>Correctness of the loader\<close>

text \<open>
  What the bytes of a loaded segment are. The bytes of a segment are counted from the begin of
  its first page: the first \<open>off\<close> of them lie before the segment, then come \<open>filesz\<close> bytes of
  the file, and zeros up to the end of the last page.
\<close>

subsection \<open>The bytes of a segment\<close>

text \<open>
  \<open>segment_byte\<close> is what the code puts at position \<open>n\<close>; \<open>fill_at\<close> are the values of its
  variables \<open>off\<close> and \<open>from\<close> there. The first byte is read before \<open>from\<close> is compared with
  \<open>to\<close>, so it is read even if the file has none.
\<close>

definition segment_byte :: "memory \<Rightarrow> u64 \<Rightarrow> nat \<Rightarrow> nat \<Rightarrow> nat \<Rightarrow> u8" where
  "segment_byte m from filesz off n =
     (if off \<le> n \<and> n - off < max 1 filesz then m (from + of_nat (n - off)) else 0)"

definition fill_at :: "u64 \<Rightarrow> nat \<Rightarrow> nat \<Rightarrow> nat \<Rightarrow> u64 \<times> u64" where
  "fill_at from filesz off n =
     (of_nat (off - n), if n \<le> off then from else if n - off < filesz then from + of_nat (n - off) else 0)"

lemma file_addr:
  assumes "unat from + filesz < 2 ^ 64" and "d \<le> filesz"
  shows "unat ((from :: u64) + of_nat d) = unat from + d"
  using assms by (subst unat_add_lem [THEN iffD1]) (simp_all add: unat_of_nat)

lemma fill_byte_at:
  assumes fz: "from \<noteq> 0" "unat from + max 1 filesz < 2 ^ 64" and off: "off < 2 ^ 63"
    and m: "agree (span from (max 1 filesz)) m0 m"
  shows "fill_byte page (from + of_nat filesz) k (fst (fill_at from filesz off n), snd (fill_at from filesz off n), m) =
    (fst (fill_at from filesz off (Suc n)), snd (fill_at from filesz off (Suc n)),
     store8 m (page + of_nat k) (segment_byte m0 from filesz off n))"
proof (cases "n < off")
  case True
  have "(of_nat (off - n) :: u64) = of_nat (off - Suc n) + 1"
    using True by (metis Suc_diff_Suc of_nat_Suc add.commute)
  moreover have "(0 :: u64) < of_nat (off - n)"
    using True off by (simp add: word_less_nat_alt unat_of_nat del: of_nat_diff)
  ultimately show ?thesis using True by (simp add: fill_byte_def fill_at_def segment_byte_def)
next
  case False
  then obtain d where d: "n = off + d" using le_Suc_ex by (auto simp: not_less)
  have filesz: "unat from + filesz < 2 ^ 64" using fz(2) by simp
  have A: "unat (from + of_nat i) = unat from + i" if "i \<le> max 1 filesz" for i
    by (rule file_addr [OF fz(2) that])
  have to: "unat (from + of_nat filesz) = unat from + filesz" by (rule A) simp
  have nz: "from + of_nat i \<noteq> 0" if "i \<le> max 1 filesz" for i
  proof
    assume "from + of_nat i = 0"
    with A [OF that] have "unat from + i = 0" by simp
    with fz(1) show False by (simp add: unat_eq_zero)
  qed
  have load: "m (from + of_nat i) = m0 (from + of_nat i)" if "i < max 1 filesz" for i
  proof -
    have "from + of_nat i \<in> span from (max 1 filesz)"
      using that fz(2) by (simp add: span_iff unat_of_nat)
    with m show ?thesis by (simp add: agree_def)
  qed
  have le: "from + of_nat filesz \<le> from + of_nat i \<longleftrightarrow> filesz \<le> i" if "i \<le> max 1 filesz" for i
    using A [OF that] to by (simp add: word_le_nat_alt)
  show ?thesis
  proof (cases "d < max 1 filesz")
    case True
    then have f: "snd (fill_at from filesz off n) = from + of_nat d"
      using d by (auto simp: fill_at_def)
    have suc: "from + of_nat (Suc d) = from + of_nat d + 1" by simp
    have "Suc d \<le> max 1 filesz" using True by simp
    note N = nz [OF this, unfolded suc] le [OF this, unfolded suc]
    have "from + of_nat d \<noteq> 0" using True by (intro nz) simp
    then show ?thesis using True d N load [OF True] suc
      unfolding f by (simp add: fill_byte_def fill_at_def segment_byte_def Let_def)
  next
    case False
    then have "filesz \<le> d" "0 < d" by auto
    then have f: "snd (fill_at from filesz off n) = 0" using d by (simp add: fill_at_def)
    have "\<not> from + of_nat filesz \<le> 0" using nz [of filesz] by simp
    then show ?thesis using False d \<open>filesz \<le> d\<close> \<open>0 < d\<close>
      unfolding f by (simp add: fill_byte_def fill_at_def segment_byte_def Let_def)
  qed
qed

lemma fill_bytes_at:
  assumes fz: "from \<noteq> 0" "unat from + max 1 filesz < 2 ^ 64" and off: "off < 2 ^ 63"
    and m: "agree (span from (max 1 filesz)) m0 m" and apart: "span page j \<inter> span from (max 1 filesz) = {}"
    and j: "j \<le> 2 ^ 63"
  shows "fold (fill_byte page (from + of_nat filesz)) [0..<j] (fst (fill_at from filesz off n), snd (fill_at from filesz off n), m) =
    (fst (fill_at from filesz off (n + j)), snd (fill_at from filesz off (n + j)),
     \<lambda>a. if a \<in> span page j then segment_byte m0 from filesz off (n + unat (a - page)) else m a)"
  using apart j
proof (induction j)
  case 0
  then show ?case by (simp add: span_def)
next
  case (Suc j)
  let ?m = "\<lambda>a. if a \<in> span page j then segment_byte m0 from filesz off (n + unat (a - page)) else m a"
  have sub: "span page j \<subseteq> span page (Suc j)" by (rule span_mono) simp
  have "agree (span from (max 1 filesz)) m0 ?m"
    using m sub Suc.prems(1) by (auto simp: agree_def)
  note step = fill_byte_at [OF fz off this, of page j "n + j"]
  have "store8 ?m (page + of_nat j) (segment_byte m0 from filesz off (n + j)) =
      (\<lambda>a. if a \<in> span page (Suc j) then segment_byte m0 from filesz off (n + unat (a - page)) else m a)"
  proof
    fix a
    have j: "unat (of_nat j :: u64) = j" using Suc.prems(2) by (simp add: unat_of_nat)
    show "store8 ?m (page + of_nat j) (segment_byte m0 from filesz off (n + j)) a =
      (if a \<in> span page (Suc j) then segment_byte m0 from filesz off (n + unat (a - page)) else m a)"
    proof (cases "a = page + of_nat j")
      case True
      then show ?thesis using j by (simp add: span_iff)
    next
      case False
      have "unat (a - page) = j \<longleftrightarrow> a - page = of_nat j" using j by (simp add: word_unat_eq_iff)
      then have "unat (a - page) \<noteq> j" using False by (auto simp: diff_eq_eq add.commute)
      then have "a \<in> span page (Suc j) \<longleftrightarrow> a \<in> span page j" by (auto simp: span_iff)
      then show ?thesis using False by (simp add: store8_other)
    qed
  qed
  note upd = this
  have "span page j \<inter> span from (max 1 filesz) = {}" "j \<le> 2 ^ 63" using Suc.prems sub by auto
  note IH = Suc.IH [OF this]
  have "[0..<Suc j] = [0..<j] @ [j]" by simp
  then show ?case unfolding add_Suc_right upd [symmetric]
    by (simp only: fold_append comp_apply IH step fold_simps id_apply)
qed

text \<open>
  One page of a segment: from position \<open>n\<close> on, the page gets the bytes of the
  segment, the rest of the memory is kept, and the loop is left at the position of the next
  page.
\<close>
lemma fill_page_ok:
  assumes "from \<noteq> 0" and "unat from + max 1 filesz < 2 ^ 64" and "off < 2 ^ 63"
    and "agree (span from (max 1 filesz)) m0 m" and "span page 4096 \<inter> span from (max 1 filesz) = {}"
    and "fill_at from filesz off n = (o1, from1)" and "fill_at from filesz off (n + 4096) = (o2, from2)"
  shows "\<exists>m'. fill_page page (from + of_nat filesz) (o1, from1, m) = (o2, from2, m') \<and>
    (\<forall>k<4096. m' (page + of_nat k) = segment_byte m0 from filesz off (n + k)) \<and>
    agree (- span page 4096) m m'"
  using fill_bytes_at [OF assms(1-5), of n] assms(6,7)
  by (auto simp: fill_page_def agree_def span_iff unat_of_nat)

text \<open>
  A segment without bytes in the file does not start as zeros: its first byte is
  the byte of the file at the segment's offset; the rest of the page is zero.
\<close>
theorem empty_file_part_copies_byte:
  assumes "from \<noteq> 0" and "from \<noteq> - 1" and "off < 4096" and "from \<notin> span page 4096"
  shows "\<exists>m'. fill_page page from (of_nat off, from, m) = (0, 0, m') \<and>
    (\<forall>k<4096. m' (page + of_nat k) = (if k = off then m from else 0))"
proof -
  have z: "span from (max 1 0) = {from}" by (auto simp: span_iff unat_eq_zero)
  have "from < - 1" using assms(2) word_order.not_eq_extremum by auto
  then have u: "unat from + max 1 0 < 2 ^ 64" by (simp add: word_less_nat_alt unsigned_minus_1_eq_mask mask_eq_exp_minus_1)
  have o: "off < 2 ^ 63" using assms(3) by simp
  have "agree (span from (max 1 0)) m m" "span page 4096 \<inter> span from (max 1 0) = {}" using assms(4) z by simp_all
  moreover have "fill_at from 0 off 0 = (of_nat off, from)" by (simp add: fill_at_def)
  moreover have "fill_at from 0 off (0 + 4096) = (0, 0)" using assms(3) by (simp add: fill_at_def)
  ultimately obtain m' where m: "fill_page page (from + of_nat 0) (of_nat off, from, m) = (0, 0, m')"
    "\<forall>k<4096. m' (page + of_nat k) = segment_byte m from 0 off (0 + k)"
    using fill_page_ok [OF assms(1) u o] by blast
  have "segment_byte m from 0 off k = (if k = off then m from else 0)" for k
    by (auto simp: segment_byte_def)
  with m show ?thesis by simp
qed

lemma empty_file_part_copies_byte_witness:
  "\<exists>m. fill_page 0x3f00200000 0x3f00100000 (16, 0x3f00100000, (\<lambda>_. 0)(0x3f00100000 := 42)) = (0, 0, m) \<and>
    m 0x3f0020000f = 0 \<and> m 0x3f00200010 = 42 \<and> m 0x3f00200011 = 0"
proof -
  have "(0x3f00100000 :: u64) \<noteq> 0" "(0x3f00100000 :: u64) \<noteq> - 1" "(16 :: nat) < 4096" "(0x3f00100000 :: u64) \<notin> span 0x3f00200000 4096"
    by (simp_all add: span_iff)
  from empty_file_part_copies_byte [OF this, of "(\<lambda>_. 0)(0x3f00100000 := 42)"] obtain m where
    m: "fill_page 0x3f00200000 0x3f00100000 (of_nat 16, 0x3f00100000, (\<lambda>_. 0)(0x3f00100000 := 42)) = (0, 0, m)"
      "\<forall>k<4096. m (0x3f00200000 + of_nat k) = (if k = 16 then 42 else 0)" by auto
  from m(2) [rule_format, of 15] m(2) [rule_format, of 16] m(2) [rule_format, of 17] m(1) show ?thesis
    by auto
qed

subsection \<open>Memory that a loop has used up\<close>

text \<open>At most \<open>k\<close> pages cover the set: what is said of the free memory when a loop runs out of it.\<close>

definition covered :: "nat \<Rightarrow> u64 set \<Rightarrow> bool" where
  "covered k F \<longleftrightarrow> (\<exists>A. finite A \<and> card A \<le> k \<and> F \<subseteq> pages A)"

lemma covered_empty: "covered k {}"
  unfolding covered_def by (intro exI [of _ "{}"]) simp

lemma covered_area: "F \<subseteq> area 0 a \<Longrightarrow> covered 1 F"
  unfolding covered_def by (intro exI [of _ "{a}"]) simp

lemma covered_mono: "covered k F \<Longrightarrow> k \<le> j \<Longrightarrow> covered j F"
  unfolding covered_def by (meson order_trans)

lemma covered_add:
  assumes "covered k F'" and "F \<subseteq> F' \<union> pages B" and "finite B" and "card B \<le> j"
  shows "covered (k + j) F"
proof -
  obtain A where A: "finite A" "card A \<le> k" "F' \<subseteq> pages A" using assms(1) by (auto simp: covered_def)
  have "card (A \<union> B) \<le> k + j" using card_Un_le [of A B] A(2) assms(4) by linarith
  moreover have "F \<subseteq> pages (A \<union> B)" using A(3) assms(2) by auto
  ultimately show ?thesis using A(1) assms(3) unfolding covered_def by blast
qed

lemma pt_inv_frame:
  assumes "pt_inv root F P s" and "allocator F' t" and "F' \<subseteq> F" and "agree (pages P) (mem s) (mem t)" and "early t = early s"
  shows "pt_inv root F' P t" and "lookup (mem t) root va = lookup (mem s) root va"
  using assms ptable_frame [of 2 "mem s" root P "mem t"] unfolding pt_inv_def lookup_def by auto

subsection \<open>The page loop\<close>

text \<open>
  Between two rounds: the tables \<open>P\<close> and the area's list of pages are well formed, and neither
  they nor the free memory \<open>F\<close> overlap the file, at \<open>Z\<close>. \<open>used_by\<close> is all that the loop writes.
\<close>

definition used_by :: "u64 \<Rightarrow> u64 set \<Rightarrow> u64 set \<Rightarrow> u64 list \<Rightarrow> u64 set" where
  "used_by ar F P xs = F \<union> pages P \<union> list_cells (area_pages ar) xs"

definition load_inv ::
  "u64 \<Rightarrow> u64 \<Rightarrow> u64 set \<Rightarrow> u64 set \<Rightarrow> u64 set \<Rightarrow> u64 list \<Rightarrow> 'a mm_state_scheme \<Rightarrow> bool" where
  "load_inv root ar Z F P xs s \<longleftrightarrow>
     pt_inv root F P s \<and> (\<exists>q. list_rep q (mem s) (area_pages ar) xs) \<and>
     list_cells (area_pages ar) xs \<inter> (F \<union> pages P) = {} \<and> Z \<inter> used_by ar F P xs = {}"

text \<open>The translations after the frames \<open>fs\<close> have been mapped from the address \<open>va0\<close> on.\<close>

primrec mapped ::
  "u32 \<Rightarrow> u64 \<Rightarrow> u64 list \<Rightarrow> (u64 \<Rightarrow> (u64 \<times> u32) option) \<Rightarrow> u64 \<Rightarrow> (u64 \<times> u32) option" where
  "mapped flags va0 [] g = g"
| "mapped flags va0 (a # fs) g = mapped flags (va0 + PAGE_SIZE) fs
     (\<lambda>va. if va_vpn va = va_vpn va0 then Some (leaf_pa 0 (pa_ppn (PA_of a)) va, flags) else g va)"

text \<open>
  From \<open>s\<close> to \<open>t\<close> the pages \<open>fs\<close>, with the nodes \<open>ns\<close>, have been added to the area and
  mapped, and hold the bytes \<open>b\<close>.
\<close>

definition loaded ::
  "u64 \<Rightarrow> u64 \<Rightarrow> u64 set \<Rightarrow> u32 \<Rightarrow> u64 \<Rightarrow> (nat \<Rightarrow> u8) \<Rightarrow> u64 set \<Rightarrow> u64 set \<Rightarrow> u64 list \<Rightarrow> 'a mm_state_scheme \<Rightarrow>
     u64 list \<Rightarrow> u64 list \<Rightarrow> u64 set \<Rightarrow> u64 set \<Rightarrow> 'b mm_state_scheme \<Rightarrow> bool" where
  "loaded root ar Z flags va0 b F P xs s fs ns F' P' t \<longleftrightarrow>
     load_inv root ar Z F' P' (xs @ ns) t \<and> F' \<subseteq> F \<and> used_by ar F' P' (xs @ ns) \<subseteq> used_by ar F P xs \<and>
     (\<forall>a\<in>set fs. area_ok 0 a \<and> area 0 a \<subseteq> F \<and> area 0 a \<inter> used_by ar F' P' (xs @ ns) = {}) \<and>
     map (n_value (mem t)) (xs @ ns) = map (n_value (mem s)) xs @ fs \<and>
     (\<forall>i<length fs. \<forall>k<4096. mem t (fs ! i + of_nat k) = b (i * 4096 + k)) \<and>
     (\<forall>va. lookup (mem t) root va = mapped flags va0 fs (lookup (mem s) root) va) \<and>
     agree (- used_by ar F P xs) (mem s) (mem t) \<and>
     (\<forall>k. covered k F' \<longrightarrow> covered (k + 4 * length fs) F)"

text \<open>The first half of a round: a frame \<open>a\<close> is allocated and joins the area's list with a node \<open>nd\<close>.\<close>

definition page_added ::
  "u64 \<Rightarrow> u64 \<Rightarrow> u64 set \<Rightarrow> u64 set \<Rightarrow> u64 list \<Rightarrow> 'a mm_state_scheme \<Rightarrow> u64 \<Rightarrow> u64 \<Rightarrow> 'a mm_state_scheme \<Rightarrow> bool" where
  "page_added root ar F P xs s a nd t \<longleftrightarrow>
     area_ok 0 a \<and> area 0 a \<subseteq> F \<and> node_page nd \<subseteq> F - area 0 a \<and> span nd 32 \<subseteq> node_page nd \<and>
     pt_inv root (F - area 0 a - node_page nd) P t \<and> (\<exists>q. list_rep q (mem t) (area_pages ar) (xs @ [nd])) \<and>
     map (n_value (mem t)) (xs @ [nd]) = map (n_value (mem s)) xs @ [a] \<and>
     (\<forall>va. lookup (mem t) root va = lookup (mem s) root va) \<and>
     agree (- (F \<union> list_cells (area_pages ar) xs)) (mem s) (mem t) \<and> same_rest s t"

lemma page_added_ok:
  assumes inv: "load_inv root ar Z F P xs s"
  shows "F = {} \<and> alloc_pages 0 s = Some (Inl ''out of memory'') \<or>
    (\<exists>p t. alloc_pages 0 s = Some (Inr (p, t)) \<and> address p \<noteq> 0 \<and>
       (F \<subseteq> area 0 (address p) \<and> vm_area_add_page ar (address p) t = Some (Inl ''out of memory'') \<or>
        (\<exists>nd u. vm_area_add_page ar (address p) t = Some (Inr (0, u)) \<and> page_added root ar F P xs s (address p) nd u)))"
proof -
  let ?l = "area_pages ar"
  obtain q where pt: "pt_inv root F P s" and rep: "list_rep q (mem s) ?l xs"
    and cells: "list_cells ?l xs \<inter> (F \<union> pages P) = {}" using inv by (auto simp: load_inv_def)
  note I = pt_invD [OF pt]
  from buddy.alloc [OF I(1)] show ?thesis
  proof (elim disjE exE conjE)
    fix p t1
    assume t1: "alloc_pages 0 s = Some (Inr (p, t1))" "area_ok 0 (address p)" "area 0 (address p) \<subseteq> F"
      "allocator (F - area 0 (address p)) t1" "agree (- F) (mem s) (mem t1)" "same_rest s t1"
    let ?a = "address p" and ?F1 = "F - area 0 (address p)"
    have "agree (list_cells ?l xs) (mem s) (mem t1)" by (rule agree_mono [OF t1(5)]) (use cells in blast)
    note R1 = list_rep_agree [OF this rep]
    have "agree (pages P) (mem s) (mem t1)" by (rule agree_mono [OF t1(5)]) (use I(4) in blast)
    note pt1 = pt_inv_frame [OF pt t1(4) Diff_subset this same_rest_early [OF t1(6)]]
    have "list_cells ?l xs \<inter> ?F1 = {}" using cells by blast
    from add_page_ok [OF t1(4) R1(1) this, of ?a] show ?thesis
    proof (elim disjE exE conjE)
      assume "?F1 = {}" "vm_area_add_page ar ?a t1 = Some (Inl ''out of memory'')"
      then show ?thesis using t1(1) area_ok_nonzero [OF t1(2)] by blast
    next
      fix nd t2
      assume t2: "vm_area_add_page ar ?a t1 = Some (Inr (0, t2))" "node_page nd \<subseteq> ?F1" "span nd 32 \<subseteq> node_page nd"
        "allocator (?F1 - node_page nd) t2" "same_rest t1 t2"
        "list_rep (if xs = [] then 0 else q) (mem t2) ?l (xs @ [nd])"
        "map (n_value (mem t2)) (xs @ [nd]) = map (n_value (mem t1)) xs @ [?a]"
        "agree (- (?F1 \<union> list_cells ?l xs)) (mem t1) (mem t2)"
      have "agree (pages P) (mem t1) (mem t2)"
        by (rule agree_mono [OF t2(8)]) (use I(4) cells in blast)
      note pt2 = pt_inv_frame [OF pt1(1) t2(4) Diff_subset this same_rest_early [OF t2(5)]]
      have "agree (- (F \<union> list_cells ?l xs)) (mem s) (mem t2)"
        by (rule agree_trans [OF agree_mono [OF t1(5)] agree_mono [OF t2(8)]]) auto
      moreover have "map (n_value (mem t2)) (xs @ [nd]) = map (n_value (mem s)) xs @ [?a]" using t2(7) R1(2) by simp
      moreover have "\<forall>va. lookup (mem t2) root va = lookup (mem s) root va" using pt2(2) pt1(2) by simp
      ultimately have "page_added root ar F P xs s ?a nd t2"
        using t1(2,3) t2(2,3,6) pt2(1) same_rest_trans [OF t1(6) t2(5)] unfolding page_added_def by blast
      then show ?thesis using t1(1) t2(1) area_ok_nonzero [OF t1(2)] by blast
    qed
  qed blast
qed

text \<open>
  The second half, up to the bytes: the frame \<open>a\<close> is mapped at \<open>va\<close>.
\<close>

definition page_mapped ::
  "u64 \<Rightarrow> u64 \<Rightarrow> u64 set \<Rightarrow> u32 \<Rightarrow> u64 \<Rightarrow> u64 set \<Rightarrow> u64 set \<Rightarrow> u64 list \<Rightarrow> 'a mm_state_scheme \<Rightarrow> u64 \<Rightarrow> u64 \<Rightarrow>
     u64 set \<Rightarrow> u64 set \<Rightarrow> 'b mm_state_scheme \<Rightarrow> bool" where
  "page_mapped root ar Z flags va F P xs s a nd F' P' t \<longleftrightarrow>
     load_inv root ar Z F' P' (xs @ [nd]) t \<and> F' \<subseteq> F \<and> used_by ar F' P' (xs @ [nd]) \<subseteq> used_by ar F P xs \<and>
     area_ok 0 a \<and> area 0 a \<subseteq> F \<and> area 0 a \<inter> used_by ar F' P' (xs @ [nd]) = {} \<and>
     map (n_value (mem t)) (xs @ [nd]) = map (n_value (mem s)) xs @ [a] \<and>
     (\<forall>va'. lookup (mem t) root va' = (if va_vpn va' = va_vpn va
        then Some (leaf_pa 0 (pa_ppn (PA_of a)) va', flags) else lookup (mem s) root va')) \<and>
     agree (- used_by ar F P xs) (mem s) (mem t) \<and> (\<forall>k. covered k F' \<longrightarrow> covered (k + 4) F)"

lemma map_frame_ok:
  assumes inv: "load_inv root ar Z F P xs s" and added: "page_added root ar F P xs s a nd u"
    and va: "va_off va = 0" and flags: "take_bit 8 flags = flags" "flags AND PTE_VALID \<noteq> 0" "pte_is_leaf flags"
  shows "covered 3 F \<and> set_page root va (PA_of a) flags u = Some (Inl ''out of memory'') \<or>
    (\<exists>t F' P'. set_page root va (PA_of a) flags u = Some (Inr (0, t)) \<and> same_rest s t \<and>
       page_mapped root ar Z flags va F P xs s a nd F' P' t)"
proof -
  let ?l = "area_pages ar" and ?F2 = "F - area 0 a - node_page nd"
  have I: "pages P \<inter> F = {}" and cells: "list_cells ?l xs \<inter> (F \<union> pages P) = {}"
    and Z: "Z \<inter> used_by ar F P xs = {}" using inv by (auto simp: load_inv_def pt_inv_def)
  obtain q where A: "area_ok 0 a" "area 0 a \<subseteq> F" "node_page nd \<subseteq> F - area 0 a" "span nd 32 \<subseteq> node_page nd"
    "pt_inv root ?F2 P u" "list_rep q (mem u) ?l (xs @ [nd])"
    "map (n_value (mem u)) (xs @ [nd]) = map (n_value (mem s)) xs @ [a]"
    "\<forall>va. lookup (mem u) root va = lookup (mem s) root va" "agree (- (F \<union> list_cells ?l xs)) (mem s) (mem u)"
    "same_rest s u" using added unfolding page_added_def by blast
  have FB: "F \<subseteq> ?F2 \<union> pages {a, nd - 4}" by (auto simp: node_page_def)
  from set_page_ok [OF A(5) va pa_ram(2) [OF A(1)] flags] show ?thesis
  proof (elim disjE exE conjE)
    fix b assume b: "?F2 \<subseteq> area 0 b" "set_page root va (PA_of a) flags u = Some (Inl ''out of memory'')"
    have c: "card {a, nd - 4} \<le> 2" by (simp add: card_insert_if)
    have "covered 3 F" by (rule covered_mono [OF covered_add [OF covered_area [OF b(1)] FB _ c]]) simp_all
    then show ?thesis using b(2) by blast
  next
    fix t F3 P3 c d
    assume t: "set_page root va (PA_of a) flags u = Some (Inr (0, t))" "pt_step root ?F2 P u F3 P3 t"
      "P3 \<subseteq> insert c (insert d P)"
      "\<forall>va'. lookup (mem t) root va' = (if va_vpn va' = va_vpn va
        then Some (leaf_pa 0 (pa_ppn (PA_of a)) va', flags) else lookup (mem u) root va')"
    have st: "pt_inv root F3 P3 t" "P \<subseteq> P3" "pages (P3 - P) \<subseteq> ?F2" "F3 = ?F2 - pages (P3 - P)"
      "agree (- (?F2 \<union> pages P)) (mem u) (mem t)" "same_rest u t"
      using t(2) unfolding pt_step_def by blast+
    have P3: "pages P3 = pages P \<union> pages (P3 - P)" using st(2) by (metis Un_Diff_cancel pages_Un sup.absorb2)
    have lc: "list_cells ?l (xs @ [nd]) = list_cells ?l xs \<union> span nd 32" by (rule list_cells_snoc)
    have fresh: "area 0 a \<inter> used_by ar F3 P3 (xs @ [nd]) = {}" "used_by ar F3 P3 (xs @ [nd]) \<subseteq> used_by ar F P xs"
      "list_cells ?l (xs @ [nd]) \<inter> (?F2 \<union> pages P) = {}" "list_cells ?l (xs @ [nd]) \<inter> (F3 \<union> pages P3) = {}"
      using A(2-4) st(3,4) I cells unfolding used_by_def lc P3 by blast+
    have ag: "agree (- used_by ar F P xs) (mem s) (mem t)"
      by (rule agree_trans [OF agree_mono [OF A(9)] agree_mono [OF st(5)]]) (auto simp: used_by_def)
    have "agree (list_cells ?l (xs @ [nd])) (mem u) (mem t)" by (rule agree_mono [OF st(5)]) (use fresh(3) in blast)
    note R = list_rep_agree [OF this A(6)]
    have L: "load_inv root ar Z F3 P3 (xs @ [nd]) t" using st(1) R(1) fresh(2,4) Z unfolding load_inv_def by blast
    have cov: "\<forall>k. covered k F3 \<longrightarrow> covered (k + 4) F"
    proof (intro allI impI)
      fix k assume "covered k F3"
      then show "covered (k + 4) F"
      proof (rule covered_add)
        have sub: "{a, nd - 4} \<union> (P3 - P) \<subseteq> {a, nd - 4, c, d}" using t(3) by blast
        then show "finite ({a, nd - 4} \<union> (P3 - P))" by (rule finite_subset) simp
        have "card {a, nd - 4, c, d} \<le> 4" by (simp add: card_insert_if)
        with card_mono [OF _ sub] show "card ({a, nd - 4} \<union> (P3 - P)) \<le> 4" by simp
        show "F \<subseteq> F3 \<union> pages ({a, nd - 4} \<union> (P3 - P))" using FB st(4) by auto
      qed
    qed
    have vals: "map (n_value (mem t)) (xs @ [nd]) = map (n_value (mem s)) xs @ [a]" using R(2) A(7) by simp
    have look: "\<forall>va'. lookup (mem t) root va' = (if va_vpn va' = va_vpn va
        then Some (leaf_pa 0 (pa_ppn (PA_of a)) va', flags) else lookup (mem s) root va')" using t(4) A(8) by simp
    have sub: "F3 \<subseteq> F" using st(4) by blast
    have "page_mapped root ar Z flags va F P xs s a nd F3 P3 t"
      unfolding page_mapped_def by (intro conjI) (fact L sub fresh(1,2) A(1,2) vals look ag cov)+
    then show ?thesis using t(1) same_rest_trans [OF A(10) st(6)] by blast
  qed
qed

text \<open>Filling the frame touches nothing else.\<close>

lemma page_mapped_fill:
  assumes t: "page_mapped root ar Z flags va F P xs s a nd F' P' t" and m: "agree (- area 0 a) (mem t) m"
  shows "page_mapped root ar Z flags va F P xs s a nd F' P' (t\<lparr>mem := m\<rparr>)"
proof -
  let ?l = "area_pages ar" and ?t = "t\<lparr>mem := m\<rparr>"
  have T: "load_inv root ar Z F' P' (xs @ [nd]) t" "area 0 a \<subseteq> F" "area 0 a \<inter> used_by ar F' P' (xs @ [nd]) = {}"
    "map (n_value (mem t)) (xs @ [nd]) = map (n_value (mem s)) xs @ [a]" "agree (- used_by ar F P xs) (mem s) (mem t)"
    using t unfolding page_mapped_def by blast+
  obtain q where L: "pt_inv root F' P' t" "list_rep q (mem t) ?l (xs @ [nd])" "list_cells ?l (xs @ [nd]) \<inter> (F' \<union> pages P') = {}"
    "Z \<inter> used_by ar F' P' (xs @ [nd]) = {}" using T(1) by (auto simp: load_inv_def)
  have frame: "agree A (mem t) (mem ?t)" if "area 0 a \<inter> A = {}" for A
    using agree_mono [OF m, of A] that by auto
  have out: "area 0 a \<inter> F' = {}" "area 0 a \<inter> pages P' = {}" "area 0 a \<inter> list_cells ?l (xs @ [nd]) = {}"
    using T(3) by (auto simp: used_by_def)
  have "allocator F' ?t" by (rule buddy.holds_with [OF pt_invD(1) [OF L(1)]]) (use frame [OF out(1)] in simp)
  note pt = pt_inv_frame [OF L(1) this order_refl frame [OF out(2)]]
  note R = list_rep_agree [OF frame [OF out(3)] L(2)]
  have "load_inv root ar Z F' P' (xs @ [nd]) ?t" using pt(1) R(1) L(3,4) unfolding load_inv_def by auto
  moreover have "agree (- used_by ar F P xs) (mem s) (mem ?t)"
    by (rule agree_trans [OF T(5) frame]) (use T(2) in \<open>auto simp: used_by_def\<close>)
  ultimately show ?thesis using t pt(2) R(2) unfolding page_mapped_def by simp
qed

lemma loaded_one:
  assumes "page_mapped root ar Z flags va F P xs s a nd F' P' t" and "\<forall>k<4096. mem t (a + of_nat k) = b k"
  shows "loaded root ar Z flags va b F P xs s [a] [nd] F' P' t"
  using assms unfolding loaded_def page_mapped_def by simp

text \<open>The second half: the frame is mapped and filled.\<close>

lemma load_page_ok:
  assumes inv: "load_inv root ar (span from (max 1 filesz)) F P xs s"
    and fz: "from \<noteq> 0" "unat from + max 1 filesz < 2 ^ 64" and off: "off < 2 ^ 63"
    and at: "fill_at from filesz off n = (o1, f1)" "fill_at from filesz off (n + 4096) = (o2, f2)"
    and va: "va_off va = 0" and flags: "take_bit 8 flags = flags" "flags AND PTE_VALID \<noteq> 0" "pte_is_leaf flags"
  shows "covered 3 F \<and> load_page root ar flags (from + of_nat filesz) va o1 f1 s = Some (Inl ''out of memory'') \<or>
    (\<exists>a nd F' P' t. load_page root ar flags (from + of_nat filesz) va o1 f1 s = Some (Inr ((o2, f2), t)) \<and> same_rest s t \<and>
       loaded root ar (span from (max 1 filesz)) flags va (\<lambda>i. segment_byte (mem s) from filesz off (n + i)) F P xs s
         [a] [nd] F' P' t)"
proof -
  let ?Z = "span from (max 1 filesz)" and ?to = "from + of_nat filesz"
  from page_added_ok [OF inv] show ?thesis
  proof (elim disjE exE conjE)
    assume "F = {}" "alloc_pages 0 s = Some (Inl ''out of memory'')"
    then show ?thesis using covered_empty by (simp add: load_page_def kbind_Inl)
  next
    fix p t1
    assume "alloc_pages 0 s = Some (Inr (p, t1))" "address p \<noteq> 0" "F \<subseteq> area 0 (address p)"
      "vm_area_add_page ar (address p) t1 = Some (Inl ''out of memory'')"
    then show ?thesis
      using covered_mono [OF covered_area, of F "address p" 3] by (simp add: load_page_def kbind_Inl kbind_Inr Let_def)
  next
    fix p t1 nd t2
    assume t1: "alloc_pages 0 s = Some (Inr (p, t1))" "address p \<noteq> 0"
      and t2: "vm_area_add_page ar (address p) t1 = Some (Inr (0, t2))" "page_added root ar F P xs s (address p) nd t2"
    let ?a = "address p"
    have early: "\<not> early t2" using t2(2) by (auto simp: page_added_def pt_inv_def)
    from map_frame_ok [OF inv t2(2) va flags] show ?thesis
    proof (elim disjE exE conjE)
      assume "covered 3 F" "set_page root va (PA_of ?a) flags t2 = Some (Inl ''out of memory'')"
      then show ?thesis
        using t1 t2(1) early by (simp add: load_page_def kbind_Inl kbind_Inr Let_def PA_def)
    next
      fix t3 F3 P3
      assume t3: "set_page root va (PA_of ?a) flags t2 = Some (Inr (0, t3))" "same_rest s t3"
        "page_mapped root ar ?Z flags va F P xs s ?a nd F3 P3 t3"
      have ag3: "agree (- used_by ar F P xs) (mem s) (mem t3)" and aF: "area 0 ?a \<subseteq> F" and Z: "?Z \<inter> used_by ar F P xs = {}"
        using t3(3) inv by (simp_all add: page_mapped_def load_inv_def)
      have Z3: "agree ?Z (mem s) (mem t3)" by (rule agree_mono [OF ag3]) (use Z in blast)
      have "span ?a 4096 \<inter> ?Z = {}" using aF Z by (auto simp: area_def used_by_def)
      from fill_page_ok [OF fz off Z3 this at] obtain m where m: "fill_page ?a ?to (o1, f1, mem t3) = (o2, f2, m)"
        "\<forall>k<4096. m (?a + of_nat k) = segment_byte (mem s) from filesz off (n + k)"
        "agree (- span ?a 4096) (mem t3) m" by blast
      have run: "load_page root ar flags ?to va o1 f1 s = Some (Inr ((o2, f2), t3\<lparr>mem := m\<rparr>))"
        using t1 t2(1) t3(1) m(1) early
        by (simp add: load_page_def kbind_Inr kthen_Inr Let_def PA_def)
      have "agree (- area 0 ?a) (mem t3) m" using m(3) by (simp add: area_def)
      note M = page_mapped_fill [OF t3(3) this]
      from loaded_one [OF M] m(2) have "loaded root ar ?Z flags va (\<lambda>i. segment_byte (mem s) from filesz off (n + i)) F P xs s
          [?a] [nd] F3 P3 (t3\<lparr>mem := m\<rparr>)" by simp
      moreover have "same_rest s (t3\<lparr>mem := m\<rparr>)" using same_rest_trans [OF t3(2)] by simp
      ultimately show ?thesis using run by blast
    qed
  qed
qed

lemma loaded_cons:
  assumes one: "loaded root ar Z flags va b F P xs s [a] [nd] F1 P1 t"
    and rest: "loaded root ar Z flags (va + PAGE_SIZE) (\<lambda>i. b (4096 + i)) F1 P1 (xs @ [nd]) t fs ns F2 P2 u"
  shows "loaded root ar Z flags va b F P xs s (a # fs) (nd # ns) F2 P2 u"
proof -
  have A: "area_ok 0 a" "area 0 a \<subseteq> F" "area 0 a \<inter> used_by ar F1 P1 (xs @ [nd]) = {}" "F1 \<subseteq> F"
    "used_by ar F1 P1 (xs @ [nd]) \<subseteq> used_by ar F P xs" "agree (- used_by ar F P xs) (mem s) (mem t)"
    "\<forall>k<4096. mem t (a + of_nat k) = b k" "\<forall>k. covered k F1 \<longrightarrow> covered (k + 4) F"
    "map (n_value (mem t)) (xs @ [nd]) = map (n_value (mem s)) xs @ [a]"
    "\<forall>va'. lookup (mem t) root va' = mapped flags va [a] (lookup (mem s) root) va'"
    using one unfolding loaded_def by (simp_all del: map_append mapped.simps)
  have B: "load_inv root ar Z F2 P2 (xs @ nd # ns) u" "F2 \<subseteq> F1"
    "used_by ar F2 P2 (xs @ nd # ns) \<subseteq> used_by ar F1 P1 (xs @ [nd])"
    "\<forall>a\<in>set fs. area_ok 0 a \<and> area 0 a \<subseteq> F1 \<and> area 0 a \<inter> used_by ar F2 P2 (xs @ nd # ns) = {}"
    "map (n_value (mem u)) (xs @ nd # ns) = map (n_value (mem t)) (xs @ [nd]) @ fs"
    "\<forall>i<length fs. \<forall>k<4096. mem u (fs ! i + of_nat k) = b (4096 + (i * 4096 + k))"
    "\<forall>va'. lookup (mem u) root va' = mapped flags (va + PAGE_SIZE) fs (lookup (mem t) root) va'"
    "agree (- used_by ar F1 P1 (xs @ [nd])) (mem t) (mem u)"
    "\<forall>k. covered k F2 \<longrightarrow> covered (k + 4 * length fs) F1"
    using rest unfolding loaded_def by (simp_all del: map_append PAGE_SIZE_def)
  have "mem u (a + of_nat k) = b k" if "k < 4096" for k
  proof -
    have "a + of_nat k \<in> area 0 a" using that by (simp add: area_def span_iff unat_of_nat)
    then have "mem t (a + of_nat k) = mem u (a + of_nat k)" using A(3) B(8) by (auto simp: agree_def)
    then show ?thesis using A(7) that by simp
  qed
  then have bytes: "\<forall>i<length (a # fs). \<forall>k<4096. mem u ((a # fs) ! i + of_nat k) = b (i * 4096 + k)"
    using B(6) by (auto simp: nth_Cons add.assoc split: nat.splits)
  have "lookup (mem t) root = mapped flags va [a] (lookup (mem s) root)" using A(10) by (simp add: fun_eq_iff)
  then have maps: "\<forall>va'. lookup (mem u) root va' = mapped flags va (a # fs) (lookup (mem s) root) va'"
    using B(7) by simp
  have cov: "\<forall>k. covered k F2 \<longrightarrow> covered (k + 4 * length (a # fs)) F"
  proof (intro allI impI)
    fix k assume "covered k F2"
    with A(8) B(9) have "covered (k + 4 * length fs + 4) F" by blast
    then show "covered (k + 4 * length (a # fs)) F" by (simp add: ac_simps)
  qed
  have ag: "agree (- used_by ar F P xs) (mem s) (mem u)"
    using A(5) by (intro agree_trans [OF A(6) agree_mono [OF B(8)]]) blast
  have frames: "\<forall>x\<in>set (a # fs). area_ok 0 x \<and> area 0 x \<subseteq> F \<and> area 0 x \<inter> used_by ar F2 P2 (xs @ nd # ns) = {}"
  proof
    fix x assume "x \<in> set (a # fs)"
    then consider "x = a" | "x \<in> set fs" by auto
    then show "area_ok 0 x \<and> area 0 x \<subseteq> F \<and> area 0 x \<inter> used_by ar F2 P2 (xs @ nd # ns) = {}"
    proof cases
      case 2
      with B(4) have "area_ok 0 x" "area 0 x \<subseteq> F1" "area 0 x \<inter> used_by ar F2 P2 (xs @ nd # ns) = {}" by simp_all
      with A(4) show ?thesis by blast
    qed (use A(1-3) B(3) in blast)
  qed
  have vals: "map (n_value (mem u)) (xs @ nd # ns) = map (n_value (mem s)) xs @ a # fs" using B(5) A(9) by simp
  have sub: "F2 \<subseteq> F" "used_by ar F2 P2 (xs @ nd # ns) \<subseteq> used_by ar F P xs" using A(4,5) B(2,3) by blast+
  show ?thesis unfolding loaded_def
    by (intro conjI) (fact B(1) sub frames vals bytes maps ag cov)+
qed

lemma loaded_nil:
  "load_inv root ar Z F P xs s \<Longrightarrow> loaded root ar Z flags va b F P xs s [] [] F P s"
  by (simp add: loaded_def)

lemma segment_byte_frame:
  assumes "agree (span from (max 1 filesz)) m m'" and "unat from + max 1 filesz < 2 ^ 64"
  shows "segment_byte m' from filesz off n = segment_byte m from filesz off n"
proof -
  have "from + of_nat d \<in> span from (max 1 filesz)" if "d < max 1 filesz" for d
    using that assms(2) by (simp add: span_iff unat_of_nat)
  with assms(1) show ?thesis by (auto simp: segment_byte_def agree_def simp del: of_nat_diff)
qed

lemma va_fields:
  "unat (va_off v) = unat v mod 4096" "unat (va_vpn v) = unat v div 4096 mod 2 ^ 27"
  using unsigned_less [where ?'a = nat, of v]
  by (simp_all only: va_off_def va_vpn_def field_def unsigned_take_bit_eq unsigned_drop_bit_eq drop_bit_0 id_apply)
    (simp_all add: drop_bit_eq_div take_bit_eq_mod)

lemma va_off_0: "va_off v = 0 \<longleftrightarrow> 4096 dvd unat v"
  using va_fields(1) [of v] by (simp add: word_unat_eq_iff dvd_eq_mod_eq_0)

lemma next_page_off: "va_off va = 0 \<Longrightarrow> va_off (va + PAGE_SIZE) = 0"
proof -
  assume "va_off va = 0"
  then obtain q where "unat va = 4096 * q" by (auto simp: va_off_0)
  then have "unat (va + 4096) mod 4096 = 0"
    by (simp add: unat_word_ariths mod_mod_cancel)
  then show ?thesis by (simp add: va_off_0 dvd_eq_mod_eq_0)
qed

lemma load_pages_ok:
  assumes fz: "from \<noteq> 0" "unat from + max 1 filesz < 2 ^ 64" and off: "off < 2 ^ 63"
    and flags: "take_bit 8 flags = flags" "flags AND PTE_VALID \<noteq> 0" "pte_is_leaf flags"
  shows "load_inv root ar (span from (max 1 filesz)) F P xs s \<Longrightarrow> fill_at from filesz off n = (o1, f1) \<Longrightarrow> va_off va = 0 \<Longrightarrow>
    unat va + N * 4096 < 2 ^ 64 \<Longrightarrow>
    covered (4 * N) F \<and> load_pages root ar flags (from + of_nat filesz) (va + of_nat (N * 4096)) va o1 f1 s =
      Some (Inl ''out of memory'') \<or>
    (\<exists>fs ns F' P' t. load_pages root ar flags (from + of_nat filesz) (va + of_nat (N * 4096)) va o1 f1 s = Some (Inr ((), t)) \<and>
       same_rest s t \<and> length fs = N \<and> loaded root ar (span from (max 1 filesz)) flags va (\<lambda>i. segment_byte (mem s) from filesz off (n + i))
         F P xs s fs ns F' P' t)"
proof (induction N arbitrary: F P xs s n o1 f1 va)
  case 0
  have "load_pages root ar flags (from + of_nat filesz) va va o1 f1 s = Some (Inr ((), s))"
    by (subst load_pages.simps) simp
  with loaded_nil [OF 0(1)] show ?case by fastforce
next
  case (Suc N)
  let ?Z = "span from (max 1 filesz)" and ?to = "from + of_nat filesz" and ?last = "va + of_nat (Suc N * 4096)"
  obtain o2 f2 where at2: "fill_at from filesz off (n + 4096) = (o2, f2)" by fastforce
  have ve: "?last = (va + PAGE_SIZE) + of_nat (N * 4096)" by simp
  have u: "unat (va + of_nat (Suc N * 4096)) = unat va + Suc N * 4096" "unat (va + PAGE_SIZE) = unat va + 4096"
    using Suc.prems(4) file_addr [of va "Suc N * 4096" "Suc N * 4096"] file_addr [of va "Suc N * 4096" 4096] by simp_all
  have lt: "va < ?last" unfolding word_less_nat_alt u(1) by simp
  have step: "load_pages root ar flags ?to ?last va o1 f1 s = kbind (load_page root ar flags ?to va o1 f1)
      (\<lambda>r t. load_pages root ar flags ?to ?last (va + PAGE_SIZE) (fst r) (snd r) t) s"
    using lt by (subst load_pages.simps) simp
  from load_page_ok [OF Suc.prems(1) fz off Suc.prems(2) at2 Suc.prems(3) flags] show ?case
  proof (elim disjE exE conjE)
    assume "covered 3 F" "load_page root ar flags ?to va o1 f1 s = Some (Inl ''out of memory'')"
    then show ?thesis unfolding step by (auto simp: kbind_Inl elim: covered_mono)
  next
    fix a nd F1 P1 t
    assume rest: "same_rest s t" and t: "load_page root ar flags ?to va o1 f1 s = Some (Inr ((o2, f2), t))"
      "loaded root ar ?Z flags va (\<lambda>i. segment_byte (mem s) from filesz off (n + i)) F P xs s [a] [nd] F1 P1 t"
    have L: "load_inv root ar ?Z F1 P1 (xs @ [nd]) t" "\<forall>k. covered k F1 \<longrightarrow> covered (k + 4) F"
      "agree (- used_by ar F P xs) (mem s) (mem t)"
      using t(2) by (simp_all add: loaded_def)
    have "?Z \<inter> used_by ar F P xs = {}" using Suc.prems(1) by (simp add: load_inv_def)
    then have "agree ?Z (mem s) (mem t)" by (intro agree_mono [OF L(3)]) blast
    note same = segment_byte_frame [OF this fz(2)]
    have va1: "va_off (va + PAGE_SIZE) = 0" "unat (va + PAGE_SIZE) + N * 4096 < 2 ^ 64"
      using Suc.prems(3,4) u(2) next_page_off by simp_all
    have run: "load_pages root ar flags ?to ?last va o1 f1 s = load_pages root ar flags ?to ?last (va + PAGE_SIZE) o2 f2 t"
      unfolding step kbind_Inr [of "load_page root ar flags ?to va o1 f1", OF t(1)] by simp
    from Suc.IH [OF L(1) at2 va1, folded ve] show ?thesis
    proof (elim disjE exE conjE)
      assume "covered (4 * N) F1" "load_pages root ar flags ?to ?last (va + PAGE_SIZE) o2 f2 t =
        Some (Inl ''out of memory'')"
      with L(2) run show ?thesis by (metis add.commute mult_Suc_right)
    next
      fix fs ns F2 P2 w
      assume rest2: "same_rest t w" and w: "load_pages root ar flags ?to ?last (va + PAGE_SIZE) o2 f2 t = Some (Inr ((), w))"
        "length fs = N" "loaded root ar ?Z flags (va + PAGE_SIZE) (\<lambda>i. segment_byte (mem t) from filesz off (n + 4096 + i))
          F1 P1 (xs @ [nd]) t fs ns F2 P2 w"
      have "loaded root ar ?Z flags (va + PAGE_SIZE) (\<lambda>i. segment_byte (mem s) from filesz off (n + (4096 + i)))
          F1 P1 (xs @ [nd]) t fs ns F2 P2 w"
        using w(3) unfolding same by (simp only: add.assoc)
      from loaded_cons [OF t(2) this] w(1,2) run same_rest_trans [OF rest rest2] show ?thesis by fastforce
    qed
  qed
qed
subsection \<open>What the user sees\<close>

lemma vpn_of_offset:
  assumes "unat va + n \<le> 2 ^ 39" and "d < n"
  shows "unat (va_vpn (va + of_nat d)) = (unat va + d) div 4096"
proof -
  have "unat (va + of_nat d) = unat va + d" using assms by (intro file_addr [of va n]) simp_all
  then show ?thesis using assms by (simp add: va_fields(2))
qed

lemma mapped_outside:
  "\<forall>i<length fs. va_vpn va \<noteq> va_vpn (va0 + of_nat (i * 4096)) \<Longrightarrow> mapped flags va0 fs g va = g va"
proof (induction fs arbitrary: va0 g)
  case (Cons a fs)
  have "va_vpn va \<noteq> va_vpn va0" using Cons.prems [rule_format, of 0] by simp
  moreover have "\<forall>i<length fs. va_vpn va \<noteq> va_vpn (va0 + PAGE_SIZE + of_nat (i * 4096))"
  proof (intro allI impI)
    fix i assume "i < length fs"
    then show "va_vpn va \<noteq> va_vpn (va0 + PAGE_SIZE + of_nat (i * 4096))"
      using Cons.prems [rule_format, of "Suc i"] by (simp add: ac_simps)
  qed
  ultimately show ?case using Cons.IH by simp
qed simp

lemma mapped_inside:
  "unat va + length fs * 4096 \<le> 2 ^ 39 \<Longrightarrow> va_off va = 0 \<Longrightarrow> d < length fs * 4096 \<Longrightarrow>
    mapped flags va fs g (va + of_nat d) = Some (leaf_pa 0 (pa_ppn (PA_of (fs ! (d div 4096)))) (va + of_nat d), flags)"
proof (induction fs arbitrary: va d g)
  case (Cons a fs)
  let ?n = "length (a # fs) * 4096"
  obtain q where al: "unat va = 4096 * q" using Cons.prems(2) by (auto simp: va_off_0)
  have "unat (va + of_nat 4096) = unat va + 4096" using Cons.prems(1) by (intro file_addr [of va ?n]) simp_all
  then have v1: "unat (va + PAGE_SIZE) = unat va + 4096" by simp
  show ?case
  proof (cases "d < 4096")
    case True
    have "\<forall>i<length fs. va_vpn (va + of_nat d) \<noteq> va_vpn (va + PAGE_SIZE + of_nat (i * 4096))"
    proof (intro allI impI)
      fix i assume i: "i < length fs"
      have "unat (va_vpn (va + of_nat (4096 + i * 4096))) = (unat va + (4096 + i * 4096)) div 4096"
        by (rule vpn_of_offset [OF Cons.prems(1)]) (use i in simp)
      moreover have "unat (va_vpn (va + of_nat d)) = (unat va + d) div 4096"
        by (rule vpn_of_offset [OF Cons.prems(1,3)])
      moreover have "(unat va + d) div 4096 = unat va div 4096" using al True by simp
      ultimately show "va_vpn (va + of_nat d) \<noteq> va_vpn (va + PAGE_SIZE + of_nat (i * 4096))"
        using al by (auto simp: add.assoc)
    qed
    note out = mapped_outside [OF this]
    have "unat (va_vpn (va + of_nat d)) = unat (va_vpn (va + of_nat 0))"
      using vpn_of_offset [OF Cons.prems(1,3)] vpn_of_offset [OF Cons.prems(1), of 0] al True by simp
    then have "va_vpn (va + of_nat d) = va_vpn va" by (simp add: word_unat_eq_iff)
    then show ?thesis using True out by simp
  next
    case False
    then obtain e where e: "d = 4096 + e" using le_Suc_ex not_less by blast
    have "e < length fs * 4096" "unat (va + PAGE_SIZE) + length fs * 4096 \<le> 2 ^ 39"
      using Cons.prems(1,3) e v1 by simp_all
    note IH = Cons.IH [OF this(2) next_page_off [OF Cons.prems(2)] this(1)]
    have "d div 4096 = Suc (e div 4096)" unfolding e by (simp add: div_add_self1)
    with IH show ?thesis by (simp add: e add.assoc)
  qed
qed simp

lemma frame_byte:
  assumes "area_ok 0 a"
  shows "VA_of (leaf_pa 0 (pa_ppn (PA_of a)) va) = a + va_off va"
proof -
  let ?x = "PA_of a"
  have "pa_ppn ?x = drop_bit 12 ?x" using pa_ram(1) [OF assms] by (simp add: pa_ppn_def)
  then have "pa_from_ppn (pa_ppn ?x) = ?x" using pa_ram(3) [OF assms] by simp
  moreover have al: "\<not> bit ?x i" if "i < 12" for i
  proof -
    have "\<not> bit (pa_off ?x) i" using pa_ram(2) [OF assms] by simp
    then show ?thesis using that by (simp add: pa_off_def bit_field_iff)
  qed
  have "set_field 0 12 va ?x = ?x OR va_off va"
    by (rule bit_word_eqI) (auto simp: bit_set_field_iff bit_or_iff va_off_def bit_field_iff al)
  moreover have "?x OR va_off va = ?x + va_off va"
    by (rule disjunctive_add_eq_or [symmetric], rule bit_word_eqI) (auto simp: bit_and_iff va_off_def bit_field_iff dest: al)
  ultimately show ?thesis by (simp add: leaf_pa_def VA_of_def PA_of_def)
qed

text \<open>
  The \<open>N\<close> pages from \<open>st\<close> on are mapped with the flags \<open>fl\<close>; they hold the bytes \<open>b\<close> in frames
  that come from \<open>S\<close> and lie outside \<open>W\<close>.
\<close>

definition pages_mapped ::
  "u64 \<Rightarrow> u64 \<Rightarrow> nat \<Rightarrow> u32 \<Rightarrow> (nat \<Rightarrow> u8) \<Rightarrow> u64 set \<Rightarrow> u64 set \<Rightarrow> memory \<Rightarrow> bool" where
  "pages_mapped root st N fl b S W m \<longleftrightarrow>
     (\<forall>d<N * 4096. \<exists>pa. lookup m root (st + of_nat d) = Some (pa, fl) \<and> m (VA_of pa) = b d \<and> VA_of pa \<in> S \<and> VA_of pa \<notin> W)"

lemma loaded_user:
  assumes "loaded root ar Z flags va b F P xs s fs ns F' P' t" and "length fs = N"
    and "va_off va = 0" and "unat va + N * 4096 \<le> 2 ^ 39"
  shows "load_inv root ar Z F' P' (xs @ ns) t" and "F' \<subseteq> F" and "used_by ar F' P' (xs @ ns) \<subseteq> used_by ar F P xs"
    and "pages_mapped root va N flags b F (used_by ar F' P' (xs @ ns)) (mem t)"
    and "\<forall>va'. (\<forall>i<N. va_vpn va' \<noteq> va_vpn (va + of_nat (i * 4096))) \<longrightarrow> lookup (mem t) root va' = lookup (mem s) root va'"
    and "agree (- used_by ar F P xs) (mem s) (mem t)" and "\<forall>k. covered k F' \<longrightarrow> covered (k + 4 * N) F"
proof -
  have L: "load_inv root ar Z F' P' (xs @ ns) t" "F' \<subseteq> F" "used_by ar F' P' (xs @ ns) \<subseteq> used_by ar F P xs"
    "\<forall>a\<in>set fs. area_ok 0 a \<and> area 0 a \<subseteq> F \<and> area 0 a \<inter> used_by ar F' P' (xs @ ns) = {}"
    "\<forall>i<N. \<forall>k<4096. mem t (fs ! i + of_nat k) = b (i * 4096 + k)"
    "\<forall>va'. lookup (mem t) root va' = mapped flags va fs (lookup (mem s) root) va'"
    "agree (- used_by ar F P xs) (mem s) (mem t)" "\<forall>k. covered k F' \<longrightarrow> covered (k + 4 * N) F"
    using assms(1,2) unfolding loaded_def by auto
  have "\<exists>pa. lookup (mem t) root (va + of_nat d) = Some (pa, flags) \<and> mem t (VA_of pa) = b d \<and>
      VA_of pa \<in> F \<and> VA_of pa \<notin> used_by ar F' P' (xs @ ns)" if d: "d < N * 4096" for d
  proof -
    let ?a = "fs ! (d div 4096)"
    have i: "d div 4096 < N" "d mod 4096 < 4096" using d by (auto simp: div_less_iff_less_mult)
    have "unat va + length fs * 4096 \<le> 2 ^ 39" "d < length fs * 4096" using assms(2,4) d by simp_all
    from mapped_inside [OF this(1) assms(3) this(2)] L(6)
    have l: "lookup (mem t) root (va + of_nat d) = Some (leaf_pa 0 (pa_ppn (PA_of ?a)) (va + of_nat d), flags)" by simp
    have a: "area_ok 0 ?a" "area 0 ?a \<subseteq> F" "area 0 ?a \<inter> used_by ar F' P' (xs @ ns) = {}" using L(4) i(1) assms(2) by simp_all
    note fb = frame_byte [OF a(1), of "va + of_nat d"]
    obtain q where q: "unat va = 4096 * q" using assms(3) by (auto simp: va_off_0)
    have "unat (va + of_nat d) = unat va + d" using assms(4) d by (intro file_addr [of va "N * 4096"]) simp_all
    then have "unat (va_off (va + of_nat d)) = d mod 4096" by (simp add: va_fields(1) q)
    then have o: "va_off (va + of_nat d) = of_nat (d mod 4096)" by (simp add: word_unat_eq_iff unat_of_nat)
    then have "mem t (VA_of (leaf_pa 0 (pa_ppn (PA_of ?a)) (va + of_nat d))) = b (d div 4096 * 4096 + d mod 4096)"
      using L(5) i fb by simp
    moreover have "VA_of (leaf_pa 0 (pa_ppn (PA_of ?a)) (va + of_nat d)) \<in> area 0 ?a"
      unfolding fb o by (simp add: area_def span_iff unat_of_nat)
    ultimately show ?thesis using l a(2,3) by auto
  qed
  then show "pages_mapped root va N flags b F (used_by ar F' P' (xs @ ns)) (mem t)" by (simp add: pages_mapped_def)
  show "\<forall>va'. (\<forall>i<N. va_vpn va' \<noteq> va_vpn (va + of_nat (i * 4096))) \<longrightarrow> lookup (mem t) root va' = lookup (mem s) root va'"
    using L(6) mapped_outside assms(2) by simp
qed (use assms(1,2) in \<open>simp_all add: loaded_def\<close>)

text \<open>
  The page loop of \<open>load_elf\<close> either runs out of memory, which happens only if at
  most four pages for every page of the segment are free, or it maps the segment: behind every
  address of its pages the user finds, with the flags given, the byte of the segment; the other
  addresses keep their translations, and nothing but the tables, the area's list and free memory
  is written.
\<close>
lemma load_pages_user:
  assumes "load_inv root ar (span from (max 1 filesz)) F P xs s"
    and "from \<noteq> 0" "unat from + max 1 filesz < 2 ^ 64" and "off < 4096"
    and "take_bit 8 flags = flags" "flags AND PTE_VALID \<noteq> 0" "pte_is_leaf flags"
    and "va_off va = 0" and "unat va + N * 4096 \<le> 2 ^ 39"
  shows "covered (4 * N) F \<and> load_pages root ar flags (from + of_nat filesz) (va + of_nat (N * 4096)) va (of_nat off) from s =
      Some (Inl ''out of memory'') \<or>
    (\<exists>t ns F' P'. load_pages root ar flags (from + of_nat filesz) (va + of_nat (N * 4096)) va (of_nat off) from s = Some (Inr ((), t)) \<and>
       F' \<subseteq> F \<and> load_inv root ar (span from (max 1 filesz)) F' P' (xs @ ns) t \<and>
       used_by ar F' P' (xs @ ns) \<subseteq> used_by ar F P xs \<and>
       pages_mapped root va N flags (segment_byte (mem s) from filesz off) F (used_by ar F' P' (xs @ ns)) (mem t) \<and>
       (\<forall>va'. (\<forall>i<N. va_vpn va' \<noteq> va_vpn (va + of_nat (i * 4096))) \<longrightarrow>
          lookup (mem t) root va' = lookup (mem s) root va') \<and>
       agree (- used_by ar F P xs) (mem s) (mem t) \<and> same_rest s t \<and> (\<forall>k. covered k F' \<longrightarrow> covered (k + 4 * N) F))"
proof -
  have off: "off < 2 ^ 63" using assms(4) by simp
  have at: "fill_at from filesz off 0 = (of_nat off, from)" by (simp add: fill_at_def)
  have top: "unat va + N * 4096 < 2 ^ 64" using assms(9) by simp
  from load_pages_ok [OF assms(2,3) off assms(5-7,1) at assms(8) top] show ?thesis
  proof (elim disjE exE conjE)
    fix fs ns F' P' t
    let ?run = "load_pages root ar flags (from + of_nat filesz) (va + of_nat (N * 4096)) va (of_nat off) from s"
    assume t: "?run = Some (Inr ((), t))" "same_rest s t" "length fs = N"
      "loaded root ar (span from (max 1 filesz)) flags va (\<lambda>i. segment_byte (mem s) from filesz off (0 + i)) F P xs s fs ns F' P' t"
    note L = loaded_user [OF t(4,3) assms(8,9)]
    then show ?thesis using t(1,2) by auto
  qed blast
qed

subsection \<open>Loading a segment\<close>

lemma new_area:
  fixes m :: memory and ar n va :: u64 and fl rc :: u32
  defines "m' \<equiv> list_init (area_pages ar) (set_area_refcount ar rc (set_area_flags ar fl
    (set_area_n_pages ar n (set_area_va ar va m))))"
  shows "area_va m' ar = va" "area_n_pages m' ar = n" "area_flags m' ar = fl" "area_refcount m' ar = rc"
    and "l_first m' (area_pages ar) = 0" "l_last m' (area_pages ar) = 0" and "agree (- span ar 40) m m'"
proof -
  note D = m'_def list_init_def set_first_def set_last_def set_area_va_def set_area_n_pages_def set_area_flags_def
    set_area_refcount_def area_pages_def
  show "area_va m' ar = va" "area_n_pages m' ar = n" "area_flags m' ar = fl" "area_refcount m' ar = rc"
    "l_first m' (area_pages ar) = 0" "l_last m' (area_pages ar) = 0"
    by (simp_all add: D area_va_def area_n_pages_def area_flags_def area_refcount_def l_first_def l_last_def
        load64_store64_other load64_store32_other load32_store64_other load32_store32_other
        span_disjoint_offsets span_disjoint_base add.assoc)
  have s8: "agree (- span ar 40) x (store64 x (ar + i) v)" if "unat i + 8 \<le> 40" for x i v
    using span_shift_subset [OF that, of ar] by (intro agree_sym [OF agree_store64]) blast
  have s4: "agree (- span ar 40) x (store32 x (ar + i) v)" if "unat i + 4 \<le> 40" for x i v
    using span_shift_subset [OF that, of ar] by (intro agree_sym [OF agree_store32]) blast
  show "agree (- span ar 40) m m'" unfolding D add.assoc
    by (rule agree_trans [OF agree_trans [OF agree_trans [OF agree_trans [OF agree_trans]]]];
      (rule s8 s4 s8 [of 0, simplified])?; simp?)
qed

lemma area_create_ok:
  assumes al: "allocator F s" and va: "va mod PAGE_SIZE = 0"
  shows "F = {} \<and> vm_area_create va n fl s = Some (Inl ''out of memory'') \<or>
    (\<exists>ar t. vm_area_create va n fl s = Some (Inr (ar, t)) \<and> area_ok 0 (ar - 4) \<and> node_page ar \<subseteq> F \<and>
       allocator (F - node_page ar) t \<and> agree (- F) (mem s) (mem t) \<and> same_rest s t \<and>
       area_va (mem t) ar = va \<and> area_n_pages (mem t) ar = n \<and> area_flags (mem t) ar = fl \<and>
       area_refcount (mem t) ar = 0 \<and> list_rep 0 (mem t) (area_pages ar) [])"
proof -
  have "unat (40 :: u64) \<le> 4092" by simp
  from kmalloc_small [OF al this] show ?thesis
  proof (elim disjE exE conjE)
    assume "F = {}" "kmalloc 40 s = Some (Inl ''out of memory'')"
    then show ?thesis by (simp add: vm_area_create_def kbind_Inl)
  next
    fix a t
    assume k: "kmalloc 40 s = Some (Inr (a + 4, t))" "area_ok 0 a" "area 0 a \<subseteq> F"
      "allocator (F - area 0 a) t" "agree (- F) (mem s) (mem t)" "same_rest s t"
    let ?ar = "a + 4"
    let ?m = "list_init (area_pages ?ar) (set_area_refcount ?ar 0 (set_area_flags ?ar fl
       (set_area_n_pages ?ar n (set_area_va ?ar va (mem t)))))"
    let ?t = "t\<lparr>mem := ?m\<rparr>"
    note N = new_area [where ar = ?ar and rc = 0 and fl = fl and n = n and va = va and m = "mem t"]
    have np: "node_page ?ar = area 0 a" by (simp add: node_page_def)
    have sub: "span ?ar 40 \<subseteq> area 0 a" unfolding area_def by (rule span_shift_subset) simp
    have "area_pages ?ar \<in> area 0 a" by (simp add: area_pages_def area_def span_iff)
    then have "area_pages ?ar \<in> ram" using k(2) by (auto simp: area_ok_def)
    then have "area_pages ?ar \<noteq> 0" by (auto simp: ram_def)
    then have "list_rep 0 ?m (area_pages ?ar) []" using N(5,6) by (simp add: list_rep_def separate_nodes_def)
    moreover have "vm_area_create va n fl s = Some (Inr (?ar, ?t))"
      using k(1) N(1) va by (simp add: vm_area_create_def vm_area_check_alignment_def kthen_def kbind_def)
    moreover have "allocator (F - node_page ?ar) ?t"
      unfolding np by (rule buddy.holds_with [OF k(4) agree_mono [OF N(7)]]) (use sub in blast)
    moreover have "agree (- F) (mem s) (mem ?t)"
      using k(5) agree_mono [OF N(7), of "- F"] sub k(3) by (auto intro: agree_trans)
    moreover have "same_rest s ?t" using same_rest_trans [OF k(6)] by simp
    ultimately show ?thesis using k(2,3) np N(1-4) by (intro disjI2 exI [of _ ?ar] exI [of _ ?t]) simp
  qed
qed
text \<open>The pages of a segment: from the page of its first byte up to the page of its last.\<close>

definition segment_pages :: "u64 \<Rightarrow> u64 \<Rightarrow> nat" where
  "segment_pages vaddr memsz = (unat vaddr + unat memsz + 4095) div 4096 - unat vaddr div 4096"

lemma unat_clear_off: "unat (set_field 0 12 0 v) = unat v div 4096 * 4096"
proof -
  have "set_field 0 12 0 v = push_bit 12 (drop_bit 12 v)"
    by (rule bit_word_eqI) (auto simp: bit_set_field_iff bit_simps)
  then have eq: "set_field 0 12 0 v = v div 4096 * 4096" by (simp add: drop_bit_eq_div push_bit_eq_mult)
  have "unat v div 4096 * 4096 \<le> unat v" by (rule div_times_less_eq_dividend)
  also have "\<dots> < 2 ^ 64" using unsigned_less [where ?'a = nat, of v] by simp
  finally have "unat (v div 4096) * unat (4096 :: u64) < 2 ^ LENGTH(64)" by (simp add: unat_div)
  then show ?thesis unfolding eq by (subst unat_mult_lem [THEN iffD1]) (simp_all add: unat_div)
qed

lemma unat_next_page:
  assumes "unat e < 2 ^ 38"
  shows "unat (set_field 12 27 (va_vpn e + 1) (set_field 0 12 0 e)) = (unat e div 4096 + 1) * 4096"
proof -
  have "drop_bit 39 e = 0" using assms by (simp flip: unat_less_drop_bit)
  then have hi: "\<not> bit e i" if "39 \<le> i" for i
  proof -
    have "bit (drop_bit 39 e) (i - 39) = bit e i" using that by (simp only: bit_drop_bit_eq comp_apply) simp
    then show ?thesis using \<open>drop_bit 39 e = 0\<close> by simp
  qed
  have "set_field 12 27 (va_vpn e + 1) (set_field 0 12 0 e) = push_bit 12 (take_bit 27 (va_vpn e + 1))"
    by (rule bit_word_eqI) (auto simp: bit_set_field_iff bit_simps hi)
  moreover have "unat (va_vpn e) = unat e div 4096" "unat e div 4096 < 2 ^ 26"
    using assms by (simp_all add: va_fields(2) div_less_iff_less_mult)
  then have "unat (va_vpn e + 1) = unat e div 4096 + 1"
    by (subst unat_add_lem [THEN iffD1]) simp_all
  ultimately show ?thesis using \<open>unat e div 4096 < 2 ^ 26\<close>
    by (simp only: unsigned_push_bit_eq unsigned_take_bit_eq) (simp add: push_bit_eq_mult take_bit_nat_eq_self)
qed

lemma word_eq_of_nat: "unat (w :: u64) = n \<Longrightarrow> w = of_nat n"
  by auto

lemma round_up: "n mod 4096 \<noteq> 0 \<Longrightarrow> (n + 4095) div 4096 = n div 4096 + 1" for n :: nat
proof -
  assume "n mod 4096 \<noteq> 0"
  then obtain q r where n: "n = 4096 * q + Suc r" "Suc r < 4096"
    by (metis mult_div_mod_eq mod_less_divisor not0_implies_Suc zero_less_numeral)
  then have "n + 4095 = 4096 * (q + 1) + r" by simp
  then have "(n + 4095) div 4096 = q + 1" using n(2) by simp
  then show ?thesis using n by simp
qed

lemma segment_bounds:
  fixes vaddr memsz :: u64
  assumes "unat vaddr + unat memsz < 2 ^ 38"
  defines "N \<equiv> segment_pages vaddr memsz"
  shows "unat (segment_start vaddr) = unat vaddr div 4096 * 4096"
    and "segment_end vaddr memsz = segment_start vaddr + of_nat (N * 4096)"
    and "va_vpn (segment_end vaddr memsz) - va_vpn (segment_start vaddr) = of_nat N"
    and "va_off (segment_start vaddr) = 0" and "unat (segment_start vaddr) + N * 4096 \<le> 2 ^ 39"
    and "segment_start vaddr + of_nat (unat (va_off vaddr) + i) = vaddr + of_nat i"
    and "i < unat memsz \<Longrightarrow> unat (va_off vaddr) + i < N * 4096"
proof -
  show st: "unat (segment_start vaddr) = unat vaddr div 4096 * 4096"
    by (simp add: segment_start_def unat_clear_off)
  let ?e = "vaddr + memsz"
  have e: "unat ?e = unat vaddr + unat memsz" using assms(1) by (subst unat_add_lem [THEN iffD1]) simp_all
  have off: "va_off ?e = 0 \<longleftrightarrow> unat ?e mod 4096 = 0" by (simp add: va_off_0 dvd_eq_mod_eq_0)
  have en: "unat (segment_end vaddr memsz) = (unat vaddr + unat memsz + 4095) div 4096 * 4096"
  proof (cases "unat ?e mod 4096 = 0")
    case True
    then obtain q where "unat ?e = 4096 * q" by auto
    then show ?thesis using True e off by (simp add: segment_end_def Let_def)
  next
    case False
    then have "(unat ?e + 4095) div 4096 = unat ?e div 4096 + 1" by (rule round_up)
    then show ?thesis using False e off unat_next_page [of ?e] assms(1) by (simp add: segment_end_def Let_def)
  qed
  let ?A = "(unat vaddr + unat memsz + 4095) div 4096" and ?B = "unat vaddr div 4096"
  have le: "?B \<le> ?A" by (rule div_le_mono) simp
  have split: "b * 4096 + (a - b) * 4096 = a * 4096" if "b \<le> a" for a b :: nat
    using that by (simp flip: add_mult_distrib)
  have N: "N = ?A - ?B" "?B * 4096 + N * 4096 = ?A * 4096"
    unfolding N_def segment_pages_def using split [OF le] by (simp_all only:)
  have top: "?A * 4096 \<le> unat vaddr + unat memsz + 4095" by (rule div_times_less_eq_dividend)
  show al: "va_off (segment_start vaddr) = 0" using st by (simp add: va_off_0)
  show hi: "unat (segment_start vaddr) + N * 4096 \<le> 2 ^ 39" unfolding st N(2) using top assms(1) by simp
  have "unat (segment_start vaddr + of_nat (N * 4096)) = unat (segment_start vaddr) + N * 4096"
    by (rule file_addr [of _ "N * 4096"]) (use hi in simp_all)
  then have "unat (segment_start vaddr + of_nat (N * 4096)) = ?A * 4096" unfolding st N(2) .
  then show "segment_end vaddr memsz = segment_start vaddr + of_nat (N * 4096)"
    using en by (simp only: word_unat_eq_iff)
  have AB: "?A < 2 ^ 27" "?B < 2 ^ 27" using top le assms(1) by (simp_all add: div_less_iff_less_mult)
  have "unat (va_vpn (segment_end vaddr memsz)) = ?A" "unat (va_vpn (segment_start vaddr)) = ?B"
    unfolding va_fields(2) en st using AB by (simp_all only: div_mult_self_is_m zero_less_numeral mod_less)
  then have "va_vpn (segment_end vaddr memsz) = of_nat ?A" "va_vpn (segment_start vaddr) = of_nat ?B"
    by (simp_all only: word_eq_of_nat)
  then show "va_vpn (segment_end vaddr memsz) - va_vpn (segment_start vaddr) = of_nat N"
    unfolding N(1) using le by (simp only: of_nat_diff)
  have "unat (segment_start vaddr) + unat (va_off vaddr) = unat vaddr" unfolding st va_fields(1) by simp
  moreover have "unat (segment_start vaddr + va_off vaddr) = unat (segment_start vaddr) + unat (va_off vaddr)"
    using calculation unsigned_less [where ?'a = nat, of vaddr] by (subst unat_add_lem [THEN iffD1]) simp_all
  ultimately have "segment_start vaddr + va_off vaddr = vaddr" by (simp only: word_unat_eq_iff)
  then show "segment_start vaddr + of_nat (unat (va_off vaddr) + i) = vaddr + of_nat i" by (simp flip: add.assoc)
  show "unat (va_off vaddr) + i < N * 4096" if "i < unat memsz"
  proof -
    have "unat vaddr + unat memsz + 4095 < ?A * 4096 + 4096" using dividend_less_div_times [of 4096] by (simp only: add.commute zero_less_numeral)
    moreover have "?B * 4096 + unat vaddr mod 4096 = unat vaddr" by simp
    ultimately show ?thesis using that N(2) unfolding va_fields(1) by linarith
  qed
qed
lemma segment_flags_leaf:
  assumes "pf AND (PF_R OR PF_W OR PF_X) \<noteq> 0"
  defines "f \<equiv> fst (segment_flags pf)"
  shows "take_bit 8 f = f" and "f AND PTE_VALID \<noteq> 0" and "pte_is_leaf f"
proof -
  have "pf AND PF_R \<noteq> 0 \<or> pf AND PF_W \<noteq> 0 \<or> pf AND PF_X \<noteq> 0"
    using assms(1) by (auto simp: bit.conj_disj_distrib)
  then show "take_bit 8 f = f" "f AND PTE_VALID \<noteq> 0" "pte_is_leaf f"
    by (auto simp: f_def segment_flags_def Let_def pte_is_leaf_def)
qed

text \<open>
  What a new area leaves alone when it joins the list of its process: everything but its
  reference count.
\<close>

definition area_loaded :: "memory \<Rightarrow> u64 \<Rightarrow> u64 \<Rightarrow> u64 \<Rightarrow> u32 \<Rightarrow> bool" where
  "area_loaded m ar va n fl \<longleftrightarrow>
     area_va m ar = va \<and> area_n_pages m ar = n \<and> area_flags m ar = fl \<and> area_refcount m ar = 1"

lemma area_loaded_frame:
  assumes "agree (span ar 24) m m'"
  shows "area_loaded m' ar va n fl \<longleftrightarrow> area_loaded m ar va n fl"
proof -
  have "span ar 8 \<subseteq> span ar 24" "span (ar + 8) 8 \<subseteq> span ar 24" "span (ar + 16) 4 \<subseteq> span ar 24" "span (ar + 20) 4 \<subseteq> span ar 24"
    by (rule span_mono, simp) (rule span_shift_subset, simp)+
  with agree_load64 [OF assms] agree_load32 [OF assms] show ?thesis
    by (simp add: area_loaded_def area_va_def area_n_pages_def area_flags_def area_refcount_def)
qed

lemma vm_areas_frame:
  assumes "vm_areas F q m l xs ars" and "agree (list_cells l xs) m m'" and "F' \<subseteq> F"
  shows "vm_areas F' q m' l xs ars"
proof -
  have V: "list_rep q m l xs" "map (n_value m) xs = ars" "list_cells l xs \<inter> F = {}"
    "\<forall>a\<in>set ars. span a 40 \<inter> (F \<union> list_cells l xs) = {}" using assms(1) by (simp_all add: vm_areas_def)
  have "map (n_value m') xs = ars" using list_rep_agree(2) [OF assms(2) V(1)] V(2) by simp
  moreover have "list_cells l xs \<inter> F' = {}" "\<forall>a\<in>set ars. span a 40 \<inter> (F' \<union> list_cells l xs) = {}"
    using V(3,4) assms(3) by blast+
  ultimately show ?thesis using list_rep_agree(1) [OF assms(2) V(1)] by (simp add: vm_areas_def)
qed

text \<open>The state between the creation of the area and the page loop.\<close>

definition area_ready ::
  "u64 \<Rightarrow> u64 set \<Rightarrow> u64 set \<Rightarrow> u64 set \<Rightarrow> u64 \<Rightarrow> u64 list \<Rightarrow> u64 list \<Rightarrow> 'a mm_state_scheme \<Rightarrow> u64 \<Rightarrow> u64 \<Rightarrow> u64 set \<Rightarrow>
     'a mm_state_scheme \<Rightarrow> bool" where
  "area_ready root Z F P l xs ars s ar nd F' t \<longleftrightarrow>
     F' \<subseteq> F \<and> (\<exists>q. vm_areas F' q (mem t) l (xs @ [nd]) (ars @ [ar])) \<and> load_inv root ar Z F' P [] t \<and>
     (span ar 24 \<union> list_cells l (xs @ [nd])) \<inter> used_by ar F' P [] = {} \<and>
     (\<forall>va. lookup (mem t) root va = lookup (mem s) root va) \<and>
     agree (- (F \<union> list_cells l xs)) (mem s) (mem t) \<and> used_by ar F' P [] \<subseteq> F \<union> pages P \<and>
     span nd 32 \<union> span ar 40 \<subseteq> F \<and> same_rest s t \<and> (\<forall>k. covered k F' \<longrightarrow> covered (k + 2) F)"

lemma area_ready_ok:
  assumes pt: "pt_inv root F P s" and areas: "vm_areas F q (mem s) l xs ars" and lP: "list_cells l xs \<inter> pages P = {}"
    and Z: "Z \<inter> (F \<union> pages P \<union> list_cells l xs) = {}" and va: "va mod PAGE_SIZE = 0"
    and top: "\<forall>a\<in>set ars. \<not> va < area_va (mem s) a"
  shows "F = {} \<and> vm_area_create va n fl s = Some (Inl ''out of memory'') \<or>
    (\<exists>ar t. vm_area_create va n fl s = Some (Inr (ar, t)) \<and>
       (covered 1 F \<and> vm_add_area l ar t = Some (Inl ''out of memory'') \<or>
        (\<exists>nd F' u. vm_add_area l ar t = Some (Inr (0, u)) \<and> area_loaded (mem u) ar va n fl \<and>
           area_ready root Z F P l xs ars s ar nd F' u)))"
proof -
  note I = pt_invD [OF pt]
  have lF: "list_cells l xs \<inter> F = {}"
    and aF: "\<forall>a\<in>set ars. span a 40 \<inter> (F \<union> list_cells l xs) = {}" using areas by (auto simp: vm_areas_def)
  from area_create_ok [OF I(1) va, of n fl] show ?thesis
  proof (elim disjE exE conjE)
    fix ar t1
    assume t1: "vm_area_create va n fl s = Some (Inr (ar, t1))" "node_page ar \<subseteq> F" "allocator (F - node_page ar) t1"
      "agree (- F) (mem s) (mem t1)" "same_rest s t1" "area_va (mem t1) ar = va" "area_n_pages (mem t1) ar = n"
      "area_flags (mem t1) ar = fl" "area_refcount (mem t1) ar = 0" "list_rep 0 (mem t1) (area_pages ar) []"
    let ?F1 = "F - node_page ar"
    have "span (ar - 4 + 4) 40 \<subseteq> span (ar - 4) 4096" by (rule span_shift_subset) simp
    then have ar: "span ar 40 \<subseteq> node_page ar" by (simp add: node_page_def area_def)
    have "agree (list_cells l xs) (mem s) (mem t1)" by (rule agree_mono [OF t1(4)]) (use lF in blast)
    from vm_areas_frame [OF areas this Diff_subset] have areas1: "vm_areas ?F1 q (mem t1) l xs ars" .
    have "agree (pages P) (mem s) (mem t1)" by (rule agree_mono [OF t1(4)]) (use I(4) in blast)
    note pt1 = pt_inv_frame [OF pt t1(3) Diff_subset this same_rest_early [OF t1(5)]]
    have ap: "span ar 40 \<inter> (?F1 \<union> list_cells l xs) = {}" using ar t1(2) lF by blast
    have aa: "\<forall>a\<in>set ars. span a 40 \<inter> span ar 40 = {}" using ar t1(2) aF by blast
    have "area_va (mem t1) a = area_va (mem s) a" if "a \<in> set ars" for a
    proof -
      have "agree (span a 40) (mem s) (mem t1)" by (rule agree_mono [OF t1(4)]) (use that aF in blast)
      then show ?thesis by (rule area_va_agree [symmetric])
    qed
    then have top1: "\<forall>a\<in>set ars. \<not> area_va (mem t1) ar < area_va (mem t1) a" using top t1(6) by simp
    have va1: "area_va (mem t1) ar mod PAGE_SIZE = 0" using va t1(6) by simp
    have rc1: "area_refcount (mem t1) ar + 1 \<noteq> 0" using t1(9) by simp
    from vm_add_area_ok [OF t1(3) areas1 ap aa va1 rc1 top1] show ?thesis
    proof (elim disjE exE conjE)
      assume "?F1 = {}" "vm_add_area l ar t1 = Some (Inl ''out of memory'')"
      moreover from this(1) have "covered 1 F" by (intro covered_area [of F "ar - 4"]) (auto simp: node_page_def)
      ultimately show ?thesis using t1(1) by blast
    next
      fix nd u
      let ?F2 = "?F1 - node_page nd"
      assume u: "vm_add_area l ar t1 = Some (Inr (0, u))" "node_page nd \<subseteq> ?F1" "allocator ?F2 u"
        "vm_areas ?F2 (if xs = [] then 0 else q) (mem u) l (xs @ [nd]) (ars @ [ar])"
        "area_refcount (mem u) ar = area_refcount (mem t1) ar + 1"
        "agree (- (?F1 \<union> span (ar + 16) 4 \<union> list_cells l xs)) (mem t1) (mem u)" "same_rest t1 u"
      have sub: "span (ar + 16) 4 \<subseteq> span ar 40" "span ar 24 \<subseteq> span ar 40" "span ar 16 \<subseteq> span ar 40"
        "span (ar + 20) 20 \<subseteq> span ar 40" "span (ar + 24) 16 \<subseteq> span ar 40"
        by (rule span_shift_subset span_mono; simp)+
      have dis: "span ar 16 \<inter> span (ar + 16) 4 = {}" "span (ar + 16) 4 \<inter> span (ar + 20) 20 = {}"
        "span (ar + 16) 4 \<inter> span (ar + 24) 16 = {}" "span ar 24 \<inter> span (ar + 24) 16 = {}"
        by (rule span_disjoint_offsets span_disjoint_base; simp)+
      have nd: "span nd 32 \<subseteq> node_page nd" by (rule node_in_page)
      have lc: "list_cells l (xs @ [nd]) = list_cells l xs \<union> span nd 32" by (rule list_cells_snoc)
      have cl: "list_cells (area_pages ar) [] = span (ar + 24) 16" by (simp add: list_cells_def area_pages_def)
      have arl: "span ar 40 \<inter> list_cells l (xs @ [nd]) = {}" using u(4) by (auto simp: vm_areas_def)
      have ub: "used_by ar ?F2 P [] = ?F2 \<union> pages P \<union> span (ar + 24) 16" by (simp add: used_by_def cl)
      have "agree (pages P) (mem t1) (mem u)"
        by (rule agree_mono [OF u(6)]) (use I(4) t1(2) ar sub(1) lP in blast)
      note pt2 = pt_inv_frame [OF pt1(1) u(3) Diff_subset this same_rest_early [OF u(7)]]
      have own: "agree (span ar 16 \<union> span (ar + 20) 20) (mem t1) (mem u)"
        by (rule agree_mono [OF u(6)]) (use ap sub dis in blast)
      have "span (ar + 24) 16 \<subseteq> span (ar + 20) 20" by (rule span_shift_subset [of 4 16 20 "ar + 20", simplified add.assoc, simplified])
      then have "agree (list_cells (area_pages ar) []) (mem t1) (mem u)" unfolding cl by (intro agree_mono [OF own]) blast
      note R2 = list_rep_agree [OF this t1(10)]
      have f: "span ar 8 \<subseteq> span ar 16" "span (ar + 8) 8 \<subseteq> span ar 16" "span (ar + 20) 4 \<subseteq> span (ar + 20) 20"
        by (rule span_shift_subset span_mono; simp)+
      have o: "agree (span ar 16) (mem t1) (mem u)" "agree (span (ar + 20) 20) (mem t1) (mem u)" using own by simp_all
      have "area_loaded (mem u) ar va n fl"
        using agree_load64 [OF o(1) f(1)] agree_load64 [OF o(1) f(2)] agree_load32 [OF o(2) f(3)] t1(6-9) u(5)
        by (simp add: area_loaded_def area_va_def area_n_pages_def area_flags_def)
      moreover have "load_inv root ar Z ?F2 P [] u"
        using pt2(1) R2(1) Z ar sub(5) t1(2) I(4) unfolding load_inv_def ub cl by blast
      moreover have "(span ar 24 \<union> list_cells l (xs @ [nd])) \<inter> used_by ar ?F2 P [] = {}"
        unfolding ub lc using ar sub t1(2) u(2) nd lF lP I(4) dis(4) arl lc by blast
      moreover have "\<forall>va. lookup (mem u) root va = lookup (mem s) root va" using pt2(2) pt1(2) by simp
      moreover have "agree (- (F \<union> list_cells l xs)) (mem s) (mem u)"
        by (rule agree_trans [OF agree_mono [OF t1(4)] agree_mono [OF u(6)]]) (use ar t1(2) sub(1) in blast)+
      moreover have "used_by ar ?F2 P [] \<subseteq> F \<union> pages P" unfolding ub using ar t1(2) sub(5) by blast
      moreover have "covered (k + 2) F" if "covered k ?F2" for k
        by (rule covered_add [OF that, of F "{ar - 4, nd - 4}"]) (auto simp: node_page_def card_insert_if)
      moreover have "?F2 \<subseteq> F" by blast
      moreover have "span nd 32 \<union> span ar 40 \<subseteq> F" using nd u(2) ar t1(2) by blast
      moreover have "same_rest s u" by (rule same_rest_trans [OF t1(5) u(7)])
      ultimately have "area_loaded (mem u) ar va n fl" "area_ready root Z F P l xs ars s ar nd ?F2 u"
        using u(4) unfolding area_ready_def by blast+
      then show ?thesis using t1(1) u(1) by blast
    qed
  qed blast
qed

text \<open>The area's pages are mapped: what the page loop leaves behind, seen from before the area was created.\<close>

lemma area_filled:
  assumes R: "area_ready root Z F P l xs ars s ar nd F1 u"
    and t: "F' \<subseteq> F1" "load_inv root ar Z F' P' ns t" "used_by ar F' P' ns \<subseteq> used_by ar F1 P []"
    and m: "pages_mapped root st N fl b F1 (used_by ar F' P' ns) (mem t)"
    and o: "\<forall>va. (\<forall>i<N. va_vpn va \<noteq> va_vpn (st + of_nat (i * 4096))) \<longrightarrow> lookup (mem t) root va = lookup (mem u) root va"
    and ag: "agree (- used_by ar F1 P []) (mem u) (mem t)" and cov: "\<forall>k. covered k F' \<longrightarrow> covered (k + 4 * N) F1"
  shows "pt_inv root F' P' t" and "F' \<subseteq> F" and "\<exists>q. vm_areas F' q (mem t) l (xs @ [nd]) (ars @ [ar])"
    and "pages_mapped root st N fl b F (F' \<union> pages P' \<union> list_cells l (xs @ [nd])) (mem t)"
    and "\<forall>va. (\<forall>i<N. va_vpn va \<noteq> va_vpn (st + of_nat (i * 4096))) \<longrightarrow> lookup (mem t) root va = lookup (mem s) root va"
    and "agree (- (F \<union> pages P \<union> list_cells l xs)) (mem s) (mem t)" and "agree (span ar 24) (mem u) (mem t)"
    and "pages P' \<subseteq> F \<union> pages P" and "span nd 32 \<union> span ar 40 \<subseteq> F" and "(span nd 32 \<union> span ar 40) \<inter> pages P' = {}"
    and "\<forall>k. covered k F' \<longrightarrow> covered (k + (4 * N + 2)) F"
proof -
  obtain q where R: "F1 \<subseteq> F" "vm_areas F1 q (mem u) l (xs @ [nd]) (ars @ [ar])" "load_inv root ar Z F1 P [] u"
    "(span ar 24 \<union> list_cells l (xs @ [nd])) \<inter> used_by ar F1 P [] = {}"
    "\<forall>va. lookup (mem u) root va = lookup (mem s) root va" "agree (- (F \<union> list_cells l xs)) (mem s) (mem u)"
    "used_by ar F1 P [] \<subseteq> F \<union> pages P" "\<forall>k. covered k F1 \<longrightarrow> covered (k + 2) F" "span nd 32 \<union> span ar 40 \<subseteq> F"
    using R unfolding area_ready_def by blast
  show "span nd 32 \<union> span ar 40 \<subseteq> F" "pt_inv root F' P' t" "F' \<subseteq> F" using R(1,9) t(1,2) by (auto simp: load_inv_def)
  have "agree (list_cells l (xs @ [nd])) (mem u) (mem t)" by (rule agree_mono [OF ag]) (use R(4) in blast)
  from vm_areas_frame [OF R(2) this t(1)] show "\<exists>q. vm_areas F' q (mem t) l (xs @ [nd]) (ars @ [ar])" by blast
  show "agree (span ar 24) (mem u) (mem t)" by (rule agree_mono [OF ag]) (use R(4) in blast)
  show "agree (- (F \<union> pages P \<union> list_cells l xs)) (mem s) (mem t)"
    by (rule agree_trans [OF agree_mono [OF R(6)] agree_mono [OF ag]]) (use R(7) in auto)
  show "\<forall>va. (\<forall>i<N. va_vpn va \<noteq> va_vpn (st + of_nat (i * 4096))) \<longrightarrow> lookup (mem t) root va = lookup (mem s) root va"
    using o R(5) by simp
  have U: "F' \<union> pages P' \<union> list_cells (area_pages ar) ns \<subseteq> F1 \<union> pages P \<union> list_cells (area_pages ar) []"
    using t(3) by (simp add: used_by_def)
  have cF: "list_cells l (xs @ [nd]) \<inter> F1 = {}" using R(2) by (simp add: vm_areas_def)
  show "pages_mapped root st N fl b F (F' \<union> pages P' \<union> list_cells l (xs @ [nd])) (mem t)"
    unfolding pages_mapped_def
  proof (intro allI impI)
    fix d assume "d < N * 4096"
    with m obtain pa where pa: "lookup (mem t) root (st + of_nat d) = Some (pa, fl)"
      "mem t (VA_of pa) = b d" "VA_of pa \<in> F1" "VA_of pa \<notin> used_by ar F' P' ns"
      unfolding pages_mapped_def by blast
    then have "VA_of pa \<in> F" "VA_of pa \<notin> F' \<union> pages P' \<union> list_cells l (xs @ [nd])"
      using R(1) cF by (auto simp: used_by_def)
    with pa(1,2) show "\<exists>pa. lookup (mem t) root (st + of_nat d) = Some (pa, fl) \<and> mem t (VA_of pa) = b d \<and> VA_of pa \<in> F \<and>
        VA_of pa \<notin> F' \<union> pages P' \<union> list_cells l (xs @ [nd])" by auto
  qed
  show "pages P' \<subseteq> F \<union> pages P" using t(3) R(7) by (auto simp: used_by_def)
  have "list_cells (area_pages ar) ns \<inter> pages P' = {}" using t(2) by (auto simp: load_inv_def)
  moreover have "span (ar + 24) 16 \<subseteq> list_cells (area_pages ar) ns" by (simp add: list_cells_def area_pages_def)
  moreover have "pages P' \<inter> (span ar 24 \<union> list_cells l (xs @ [nd])) = {}" using t(3) R(4) by (auto simp: used_by_def)
  moreover have "span ar 40 \<subseteq> span ar 24 \<union> span (ar + 24) 16" using span_split [of 24 24 ar 16] by simp
  moreover have "span nd 32 \<subseteq> list_cells l (xs @ [nd])" unfolding list_cells_snoc by blast
  ultimately show "(span nd 32 \<union> span ar 40) \<inter> pages P' = {}" by blast
  show "\<forall>k. covered k F' \<longrightarrow> covered (k + (4 * N + 2)) F"
  proof (intro allI impI)
    fix k assume "covered k F'"
    then have "covered (k + 4 * N + 2) F" using cov R(8) by blast
    then show "covered (k + (4 * N + 2)) F" by (simp only: add.assoc)
  qed
qed

lemma load_segment_ok:
  assumes pt: "pt_inv root F P s" and areas: "vm_areas F q (mem s) (t_vm_areas task) xs ars"
    and lP: "list_cells (t_vm_areas task) xs \<inter> pages P = {}"
    and hdr: "p_flags (mem s) h = pf" "program + p_offset (mem s) h = from" "p_filesz (mem s) h = filesz"
      "p_vaddr (mem s) h = vaddr" "p_memsz (mem s) h = memsz"
    and Z: "span from (unat filesz) \<inter> (F \<union> pages P \<union> list_cells (t_vm_areas task) xs) = {}"
      "from \<noteq> 0" "unat from + unat filesz < 2 ^ 64" "filesz \<noteq> 0"
    and top: "\<forall>a\<in>set ars. \<not> segment_start vaddr < area_va (mem s) a"
    and rights: "pf AND (PF_R OR PF_W OR PF_X) \<noteq> 0" and small: "unat vaddr + unat memsz < 2 ^ 38"
  shows "covered (4 * segment_pages vaddr memsz + 2) F \<and>
      load_segment task root program h s = Some (Inl ''out of memory'') \<or>
    (\<exists>t ar n F' P' q'. load_segment task root program h s = Some (Inr ((), t)) \<and> pt_inv root F' P' t \<and> F' \<subseteq> F \<and>
       vm_areas F' q' (mem t) (t_vm_areas task) (xs @ [n]) (ars @ [ar]) \<and>
       area_loaded (mem t) ar (segment_start vaddr) (of_nat (segment_pages vaddr memsz)) (snd (segment_flags pf)) \<and>
       pages_mapped root (segment_start vaddr) (segment_pages vaddr memsz) (fst (segment_flags pf))
         (segment_byte (mem s) from (unat filesz) (unat (va_off vaddr))) F
         (F' \<union> pages P' \<union> list_cells (t_vm_areas task) (xs @ [n])) (mem t) \<and>
       (\<forall>va. (\<forall>i < segment_pages vaddr memsz. va_vpn va \<noteq> va_vpn (segment_start vaddr + of_nat (i * 4096))) \<longrightarrow>
          lookup (mem t) root va = lookup (mem s) root va) \<and>
       agree (- (F \<union> pages P \<union> list_cells (t_vm_areas task) xs)) (mem s) (mem t) \<and> same_rest s t \<and>
       pages P' \<subseteq> F \<union> pages P \<and> span n 32 \<union> span ar 40 \<subseteq> F \<and> (span n 32 \<union> span ar 40) \<inter> pages P' = {} \<and>
       (\<forall>k. covered k F' \<longrightarrow> covered (k + (4 * segment_pages vaddr memsz + 2)) F))"
proof -
  let ?l = "t_vm_areas task" and ?N = "segment_pages vaddr memsz" and ?st = "segment_start vaddr"
    and ?en = "segment_end vaddr memsz" and ?fl = "fst (segment_flags pf)" and ?afl = "snd (segment_flags pf)"
    and ?Z = "span from (unat filesz)" and ?run = "load_segment task root program h s" and ?off = "unat (va_off vaddr)"
  have mx: "max 1 (unat filesz) = unat filesz" using Z(4) by (simp add: unat_gt_0 Suc_le_eq)
  note B = segment_bounds [OF small]
  have "?st mod 4096 = 0" using B(4) by (simp add: va_off_def field_def take_bit_eq_mod)
  then have st: "?st mod PAGE_SIZE = 0" by simp
  have call: "?run = kbind (vm_area_create ?st (of_nat ?N) ?afl) (\<lambda>ar. kbind (vm_add_area ?l ar) (\<lambda>err.
      if err \<noteq> 0 then kpanic ''out of memory''
      else (\<lambda>s. load_pages root ar ?fl (from + filesz) ?en ?st (va_off vaddr) from s))) s"
    using hdr by (simp add: load_segment_def kbind_Inr Let_def split_def B(3) cong del: if_weak_cong)
  from area_ready_ok [OF pt areas lP Z(1) st top, of "of_nat ?N" ?afl] show ?thesis
  proof (elim disjE exE conjE)
    assume "F = {}" "vm_area_create ?st (of_nat ?N) ?afl s = Some (Inl ''out of memory'')"
    then show ?thesis using covered_empty by (simp add: call kbind_Inl)
  next
    fix ar t1
    assume "vm_area_create ?st (of_nat ?N) ?afl s = Some (Inr (ar, t1))" "covered 1 F"
      "vm_add_area ?l ar t1 = Some (Inl ''out of memory'')"
    then show ?thesis using covered_mono [of 1 F "4 * ?N + 2"] by (simp add: call kbind_Inr kbind_Inl)
  next
    fix ar t1 nd F1 u
    assume t1: "vm_area_create ?st (of_nat ?N) ?afl s = Some (Inr (ar, t1))" "vm_add_area ?l ar t1 = Some (Inr (0, u))"
      and al: "area_loaded (mem u) ar ?st (of_nat ?N) ?afl" and R: "area_ready root ?Z F P ?l xs ars s ar nd F1 u"
    have U: "load_inv root ar ?Z F1 P [] u" "agree (- (F \<union> list_cells ?l xs)) (mem s) (mem u)" "same_rest s u"
      "\<forall>k. covered k F1 \<longrightarrow> covered (k + 2) F" using R unfolding area_ready_def by blast+
    have run: "?run = load_pages root ar ?fl (from + of_nat (unat filesz)) (?st + of_nat (?N * 4096)) ?st
        (of_nat ?off) from u"
      using t1 B(2) by (simp add: call kbind_Inr)
    have off: "?off < 4096" unfolding va_fields(1) by simp
    have mxi: "load_inv root ar (span from (max 1 (unat filesz))) F1 P [] u" using U(1) mx by simp
    have mxb: "unat from + max 1 (unat filesz) < 2 ^ 64" using Z(3) mx by simp
    from load_pages_user [OF mxi Z(2) mxb off segment_flags_leaf [OF rights] B(4,5), unfolded mx] show ?thesis
    proof (elim disjE exE conjE)
      assume "covered (4 * ?N) F1" "load_pages root ar ?fl (from + of_nat (unat filesz)) (?st + of_nat (?N * 4096)) ?st
        (of_nat ?off) from u = Some (Inl ''out of memory'')"
      then show ?thesis using U(4) run by auto
    next
      fix t ns F' P'
      assume t: "load_pages root ar ?fl (from + of_nat (unat filesz)) (?st + of_nat (?N * 4096)) ?st
          (of_nat ?off) from u = Some (Inr ((), t))" "F' \<subseteq> F1"
        "load_inv root ar ?Z F' P' ([] @ ns) t" "used_by ar F' P' ([] @ ns) \<subseteq> used_by ar F1 P []"
        "pages_mapped root ?st ?N ?fl (segment_byte (mem u) from (unat filesz) ?off) F1 (used_by ar F' P' ([] @ ns)) (mem t)"
        "\<forall>va. (\<forall>i<?N. va_vpn va \<noteq> va_vpn (?st + of_nat (i * 4096))) \<longrightarrow> lookup (mem t) root va = lookup (mem u) root va"
        "agree (- used_by ar F1 P []) (mem u) (mem t)" "same_rest u t" "\<forall>k. covered k F' \<longrightarrow> covered (k + 4 * ?N) F1"
      have "agree ?Z (mem s) (mem u)" by (rule agree_mono [OF U(2)]) (use Z(1) in blast)
      then have same: "segment_byte (mem u) from (unat filesz) ?off = segment_byte (mem s) from (unat filesz) ?off"
        using segment_byte_frame [of "from" "unat filesz" "mem s" "mem u"] Z(3) mx by (intro ext) simp
      note A = area_filled [OF R t(2-7,9), unfolded same]
      obtain q' where V: "vm_areas F' q' (mem t) ?l (xs @ [nd]) (ars @ [ar])" using A(3) by blast
      have L: "area_loaded (mem t) ar ?st (of_nat ?N) ?afl" using al area_loaded_frame [OF A(7)] by blast
      have rest: "?run = Some (Inr ((), t))" "same_rest s t" using t(1) run same_rest_trans [OF U(3) t(8)] by simp_all
      show ?thesis
        by (intro disjI2 exI conjI) (fact rest A(1,2) V L A(4-6,8-11))+
    qed
  qed
qed

text \<open>
  Property C15. Loading a segment: the kernel either runs out of memory, which happens only if at
  most four pages for each page of the segment, and two more, are free, or the segment's area
  joins the end of the process's list with the rights of the segment, every address of the
  segment is mapped with these rights to the byte of the file, or to zero behind the file's
  part, and no other page changes its translation.
\<close>
theorem load_segment_correct:
  assumes pt: "pt_inv root F P s" and areas: "vm_areas F q (mem s) (t_vm_areas task) xs ars"
    and lP: "list_cells (t_vm_areas task) xs \<inter> pages P = {}"
    and hdr: "p_flags (mem s) h = pf" "program + p_offset (mem s) h = from" "p_filesz (mem s) h = filesz"
      "p_vaddr (mem s) h = vaddr" "p_memsz (mem s) h = memsz"
    and Z: "span from (unat filesz) \<inter> (F \<union> pages P \<union> list_cells (t_vm_areas task) xs) = {}"
      "from \<noteq> 0" "unat from + unat filesz < 2 ^ 64" "filesz \<noteq> 0"
    and top: "\<forall>a\<in>set ars. \<not> segment_start vaddr < area_va (mem s) a"
    and rights: "pf AND (PF_R OR PF_W OR PF_X) \<noteq> 0" and small: "unat vaddr + unat memsz < 2 ^ 38"
  shows "covered (4 * segment_pages vaddr memsz + 2) F \<and>
      load_segment task root program h s = Some (Inl ''out of memory'') \<or>
    (\<exists>t ar n F' P' q'. load_segment task root program h s = Some (Inr ((), t)) \<and> pt_inv root F' P' t \<and> F' \<subseteq> F \<and>
       vm_areas F' q' (mem t) (t_vm_areas task) (xs @ [n]) (ars @ [ar]) \<and>
       area_loaded (mem t) ar (segment_start vaddr) (of_nat (segment_pages vaddr memsz)) (snd (segment_flags pf)) \<and>
       (\<forall>i<unat memsz. \<exists>pa. lookup (mem t) root (vaddr + of_nat i) = Some (pa, fst (segment_flags pf)) \<and>
          mem t (VA_of pa) = (if i < unat filesz then mem s (from + of_nat i) else 0)) \<and>
       (\<forall>va. (\<forall>i < segment_pages vaddr memsz. va_vpn va \<noteq> va_vpn (segment_start vaddr + of_nat (i * 4096))) \<longrightarrow>
          lookup (mem t) root va = lookup (mem s) root va) \<and>
       agree (- (F \<union> pages P \<union> list_cells (t_vm_areas task) xs)) (mem s) (mem t))"
proof -
  note B = segment_bounds [OF small]
  have one: "1 \<le> unat filesz" using Z(4) by (simp add: unat_gt_0 Suc_le_eq)
  have byte: "segment_byte (mem s) from (unat filesz) (unat (va_off vaddr)) (unat (va_off vaddr) + i) =
      (if i < unat filesz then mem s (from + of_nat i) else 0)" for i
    using one by (simp add: segment_byte_def max_absorb2)
  have bytes: "\<forall>i<unat memsz. \<exists>pa. lookup m root (vaddr + of_nat i) = Some (pa, fl) \<and>
      m (VA_of pa) = (if i < unat filesz then mem s (from + of_nat i) else 0)"
    if "pages_mapped root (segment_start vaddr) (segment_pages vaddr memsz) fl
      (segment_byte (mem s) from (unat filesz) (unat (va_off vaddr))) S W m" for fl S W m
  proof (intro allI impI)
    fix i assume "i < unat memsz"
    with that B(7) obtain pa where "lookup m root (segment_start vaddr + of_nat (unat (va_off vaddr) + i)) = Some (pa, fl)"
      "m (VA_of pa) = segment_byte (mem s) from (unat filesz) (unat (va_off vaddr)) (unat (va_off vaddr) + i)"
      unfolding pages_mapped_def by blast
    then show "\<exists>pa. lookup m root (vaddr + of_nat i) = Some (pa, fl) \<and>
        m (VA_of pa) = (if i < unat filesz then mem s (from + of_nat i) else 0)"
      unfolding B(6) byte by blast
  qed
  from load_segment_ok [OF assms] show ?thesis by (elim disjE exE conjE) (blast dest: bytes)+
qed

text \<open>
  A program header at \<open>0x3f00700000\<close>: one byte of the file, two bytes of memory, to be read and
  executed at \<open>0x10010\<close>. The process is new, and has no area.
\<close>

definition small_program :: mm_state where
  "small_program = boot_state\<lparr>mem :=
     store8 (store64 (store64 (store64 (store32 (\<lambda>_. 0) 0x3f00700004 5) 0x3f00700010 0x10010) 0x3f00700020 1)
       0x3f00700028 2) 0x3f00700100 42\<rparr>"

lemma small_program_free: "agree initial_free (\<lambda>_. 0) (mem small_program)"
proof -
  have "span 0x3f00700004 4 \<inter> initial_free = {}" "span 0x3f00700010 8 \<inter> initial_free = {}"
    "span 0x3f00700020 8 \<inter> initial_free = {}" "span 0x3f00700028 8 \<inter> initial_free = {}" "0x3f00700100 \<notin> initial_free"
    by (rule after_free_memory; simp)+ (simp add: initial_free_def)
  then show ?thesis unfolding small_program_def
    by (auto intro!: agree_sym [OF agree_trans [OF agree_store8 agree_trans [OF agree_store64 agree_trans [OF agree_store64
          agree_trans [OF agree_store64 agree_store32]]]]])
qed

lemma small_program_header:
  "p_flags (mem small_program) 0x3f00700000 = 5" "p_offset (mem small_program) 0x3f00700000 = 0"
  "p_filesz (mem small_program) 0x3f00700000 = 1" "p_vaddr (mem small_program) 0x3f00700000 = 0x10010"
  "p_memsz (mem small_program) 0x3f00700000 = 2" "mem small_program 0x3f00700100 = 42"
  "l_first (mem small_program) 0x3f00800018 = 0" "l_last (mem small_program) 0x3f00800018 = 0"
  by (simp_all add: small_program_def p_flags_def p_offset_def p_filesz_def p_vaddr_def p_memsz_def l_first_def l_last_def
      mem_simps span_disjoint span_iff)

lemma covered_points:
  assumes "covered k F" and "\<forall>i<n. base + of_nat (i * 4096) \<in> F" and "n \<le> 1000"
  shows "n \<le> k"
proof -
  obtain A where A: "finite A" "card A \<le> k" "F \<subseteq> pages A" using assms(1) by (auto simp: covered_def)
  have "\<forall>i<n. \<exists>a. a \<in> A \<and> base + of_nat (i * 4096) \<in> area 0 a"
    using assms(2) A(3) unfolding pages_def by blast
  then obtain f where f: "\<And>i. i < n \<Longrightarrow> f i \<in> A \<and> base + of_nat (i * 4096) \<in> area 0 (f i)" by metis
  have lt: False if "i < j" "j < n" "f i = f j" for i j
  proof -
    let ?a = "base + of_nat (i * 4096) - f i"
    have u: "unat ?a < 4096" using f [of i] that by (simp add: area_def span_iff)
    have "base + of_nat (j * 4096) - f j = ?a + of_nat ((j - i) * 4096)"
      using that(1,3) by (simp add: algebra_simps)
    also have "unat \<dots> = unat ?a + (j - i) * 4096"
      using u that assms(3) by (intro file_addr [of ?a "(j - i) * 4096"]) simp_all
    finally have "unat ?a + (j - i) * 4096 < 4096" using f [of j] that by (simp add: area_def span_iff)
    then show False using that(1) by simp
  qed
  have "inj_on f {..<n}"
    by (rule inj_onI) (metis lessThan_iff linorder_neqE_nat lt)
  moreover have "f ` {..<n} \<subseteq> A" using f by auto
  ultimately have "n \<le> card A" using card_inj_on_le [of f "{..<n}" A] A(1) by simp
  with A(2) show ?thesis by simp
qed

lemma enough_memory:
  assumes "k \<le> 700"
  shows "\<not> covered k (initial_free - area 0 root)"
proof
  assume "covered k (initial_free - area 0 root)"
  then have "covered (k + 1) initial_free" using covered_add [of k _ initial_free "{root}" 1] by (auto simp: pages_def)
  moreover have "\<forall>i<702. KERN_PHYBASE + 0x100000 + of_nat (i * 4096) \<in> initial_free"
  proof (intro allI impI)
    fix i :: nat
    assume i: "i < 702"
    have "unat (KERN_PHYBASE + 0x100000 + of_nat (i * 4096)) = unat (KERN_PHYBASE + 0x100000) + i * 4096"
      by (rule file_addr [of _ "702 * 4096"]) (use i in simp_all)
    then show "KERN_PHYBASE + 0x100000 + of_nat (i * 4096) \<in> initial_free"
      using i by (simp add: initial_free_def word_le_nat_alt word_less_nat_alt)
  qed
  ultimately have "702 \<le> k + 1" by (rule covered_points) simp
  with assms show False by simp
qed

text \<open>The address space in which the program is loaded.\<close>

lemma small_program_space:
  obtains root and s :: mm_state where "pt_inv root (initial_free - area 0 root) {root} s"
    and "area 0 root \<subseteq> initial_free" and "agree (- initial_free) (mem small_program) (mem s)"
proof -
  have "allocator initial_free small_program"
    by (rule allocator_frame [OF boot_state_allocator]) (use small_program_free in \<open>simp_all add: boot_state_def small_program_def\<close>)
  moreover have "\<not> early small_program" by (simp add: small_program_def boot_state_def)
  moreover have "KERN_PHYBASE + 0x100000 \<in> initial_free" by (simp add: initial_free_def)
  then have "initial_free \<noteq> {}" by blast
  ultimately show thesis using create_page_table_ok [of initial_free small_program] that by blast
qed

lemma load_segment_correct_witness:
  "\<exists>root (s :: mm_state) t a b. load_segment 0x3f00800000 root 0x3f00700100 0x3f00700000 s = Some (Inr ((), t)) \<and>
    lookup (mem t) root 0x10010 = Some (a, 0x1b) \<and> mem t (VA_of a) = 42 \<and>
    lookup (mem t) root 0x10011 = Some (b, 0x1b) \<and> mem t (VA_of b) = 0"
proof -
  obtain root and s :: mm_state where s: "pt_inv root (initial_free - area 0 root) {root} s"
    "area 0 root \<subseteq> initial_free" "agree (- initial_free) (mem small_program) (mem s)" by (rule small_program_space)
  let ?l = "t_vm_areas 0x3f00800000" and ?h = "0x3f00700000 :: u64" and ?F = "initial_free - area 0 root"
  have l: "?l = 0x3f00800018" by (simp add: t_vm_areas_def)
  have out: "span ?h 48 \<inter> initial_free = {}" "span ?l 16 \<inter> initial_free = {}" "span 0x3f00700100 1 \<inter> initial_free = {}"
    unfolding l by (rule after_free_memory; simp)+
  have H: "agree (span ?h 48) (mem small_program) (mem s)" "agree (span ?l 16) (mem small_program) (mem s)"
    "agree (span 0x3f00700100 1) (mem small_program) (mem s)"
    by (rule agree_mono [OF s(3)], use out in blast)+
  have sub: "span (?h + 4) 4 \<subseteq> span ?h 48" "span (?h + 8) 8 \<subseteq> span ?h 48" "span (?h + 16) 8 \<subseteq> span ?h 48"
    "span (?h + 32) 8 \<subseteq> span ?h 48" "span (?h + 40) 8 \<subseteq> span ?h 48" "span (?l + 8) 8 \<subseteq> span ?l 16" "span ?l 8 \<subseteq> span ?l 16"
    by (rule span_shift_subset span_mono; simp)+
  have hdr: "p_flags (mem s) ?h = 5" "0x3f00700100 + p_offset (mem s) ?h = 0x3f00700100" "p_filesz (mem s) ?h = 1"
    "p_vaddr (mem s) ?h = 0x10010" "p_memsz (mem s) ?h = 2"
    using small_program_header agree_load32 [OF H(1) sub(1)] agree_load64 [OF H(1) sub(2)] agree_load64 [OF H(1) sub(3)]
      agree_load64 [OF H(1) sub(4)] agree_load64 [OF H(1) sub(5)]
    by (simp_all add: p_flags_def p_offset_def p_filesz_def p_vaddr_def p_memsz_def)
  have "list_rep 0 (mem s) ?l []"
    using small_program_header(7,8) agree_load64 [OF H(2) sub(6)] agree_load64 [OF H(2) sub(7)]
    by (simp add: list_rep_def separate_nodes_def l_first_def l_last_def l)
  then have areas: "vm_areas ?F 0 (mem s) ?l [] []" using out(2) by (auto simp: vm_areas_def list_cells_def)
  have lP: "list_cells ?l [] \<inter> pages {root} = {}" using out(2) s(2) by (auto simp: list_cells_def)
  have "span 0x3f00700100 1 \<inter> span ?l 16 = {}" unfolding l by (rule span_disjoint) simp_all
  then have Z: "span 0x3f00700100 (unat (1 :: u64)) \<inter> (?F \<union> pages {root} \<union> list_cells ?l []) = {}"
    using out(3) s(2) by (auto simp: list_cells_def)
  have sz: "segment_pages 0x10010 2 = 1" "segment_flags 5 = (0x1b, 5)"
    by (simp_all add: segment_pages_def segment_flags_def Let_def PF_R_def PF_W_def PF_X_def)
  have byte: "mem s 0x3f00700100 = 42" using H(3) small_program_header(6) by (auto simp: agree_def span_iff)
  from load_segment_correct [OF s(1) areas lP hdr Z] enough_memory [of 6 root] obtain t where
    t: "load_segment 0x3f00800000 root 0x3f00700100 ?h s = Some (Inr ((), t))"
      "\<forall>i<unat (2 :: u64). \<exists>pa. lookup (mem t) root (0x10010 + of_nat i) = Some (pa, 0x1b) \<and>
        mem t (VA_of pa) = (if i < unat (1 :: u64) then mem s (0x3f00700100 + of_nat i) else 0)"
    unfolding sz by (auto simp: PF_R_def PF_W_def PF_X_def)
  from t(2) [rule_format, of 0] t(2) [rule_format, of 1] byte obtain a b where
    "lookup (mem t) root 0x10010 = Some (a, 0x1b)" "mem t (VA_of a) = 42"
    "lookup (mem t) root 0x10011 = Some (b, 0x1b)" "mem t (VA_of b) = 0" by auto
  with t(1) show ?thesis by blast
qed

end
