(* ===== verification/Load_Correct.thy ===== *)
theory Load_Correct
  imports Elf_Correct
begin

section \<open>Correctness of loading a program\<close>

text \<open>
  \<open>load_elf\<close> and \<open>task_init_elf\<close> as a whole: all segments, the stack, and the argument vectors
  that the new program finds on it.
\<close>

subsection \<open>The page of the stack\<close>

lemma store_zero: "n \<le> 2 ^ 64 \<Longrightarrow> store_le n m a 0 x = (if x \<in> span a n then 0 else m x)"
proof (induction n arbitrary: m a)
  case (Suc n)
  then show ?case by (simp add: span_Suc_left)
qed simp

lemma clear_page_zero:
  "clear_page a m x = (if x \<in> area 0 a then 0 else m x)"
proof -
  have "fold (\<lambda>i m. store64 m (a + 8 * of_nat i) 0) [0..<n] m x = (if x \<in> span a (8 * n) then 0 else m x)" if "n \<le> 512" for n
    using that
  proof (induction n)
    case (Suc n)
    have u: "unat (8 * of_nat n :: u64) = 8 * n" using Suc.prems by (simp add: unat_word_ariths unat_of_nat)
    have "span a (8 * Suc n) = span a (8 * n) \<union> span (a + 8 * of_nat n) 8"
    proof
      show "span a (8 * Suc n) \<subseteq> span a (8 * n) \<union> span (a + 8 * of_nat n) 8" using span_split [OF u, of a 8] by (simp add: add.commute)
      show "span a (8 * n) \<union> span (a + 8 * of_nat n) 8 \<subseteq> span a (8 * Suc n)"
        using span_mono [of "8 * n" "8 * Suc n" a] span_shift_subset [of "8 * of_nat n" 8 "8 * Suc n" a] u by simp
    qed
    with Suc show ?case by (auto simp: store64_def store_zero)
  qed simp
  from this [of 512] show ?thesis by (simp add: clear_page_def area_def)
qed

lemma clear_page_frame: "agree (- area 0 a) m (clear_page a m)"
  by (simp add: agree_def clear_page_zero)

text \<open>
  \<open>map_stack\<close>: a page of zeros is mapped below \<open>USERSTACK\<close>, in an area of one page that joins the
  list of the task.
\<close>

definition stack_rights :: "bool \<Rightarrow> u32 \<times> u32" where
  "stack_rights execstack =
     (if execstack then (VM_READ OR VM_WRITE OR VM_STACK OR VM_EXEC, PTE_VALID OR PTE_USER OR PTE_READ OR PTE_WRITE OR PTE_EXEC)
      else (VM_READ OR VM_WRITE OR VM_STACK, PTE_VALID OR PTE_USER OR PTE_READ OR PTE_WRITE))"

lemma stack_rights_leaf:
  fixes execstack :: bool
  defines "pt \<equiv> snd (stack_rights execstack)"
  shows "take_bit 8 pt = pt" and "pt AND PTE_VALID \<noteq> 0" and "pte_is_leaf pt" and "pt OR PTE_USER = pt"
  by (simp_all add: pt_def stack_rights_def pte_is_leaf_def)

lemma map_stack_call:
  "map_stack task root execstack = kbind (alloc_pages 0) (\<lambda>p. let a = address p in
     if a = 0 then kpanic ''out of memory''
     else kthen (kmodify (\<lambda>s. s\<lparr>mem := clear_page a (mem s)\<rparr>))
      (kbind (vm_area_create (USERSTACK - PAGE_SIZE) 1 (fst (stack_rights execstack))) (\<lambda>ar.
       kbind (vm_add_area (t_vm_areas task) ar) (\<lambda>err. if err \<noteq> 0 then kpanic ''out of memory'' else
       kbind (vm_area_add_page ar a) (\<lambda>err. if err \<noteq> 0 then kpanic ''out of memory'' else
       kbind (kgets (\<lambda>s. PA (early s) a)) (\<lambda>pa.
       kbind (set_page root (USERSTACK - PAGE_SIZE) pa (snd (stack_rights execstack))) (\<lambda>err.
         if err \<noteq> 0 then kpanic ''set_page'' else kreturn ())))))))"
  by (cases execstack) (simp_all add: map_stack_def stack_rights_def Let_def split_def write_mem_def set_page_user_def
      cong del: if_weak_cong)


text \<open>A page that is mapped to the frame \<open>a\<close>.\<close>

definition frame_at :: "u64 \<Rightarrow> u64 \<Rightarrow> u32 \<Rightarrow> u64 \<Rightarrow> memory \<Rightarrow> bool" where
  "frame_at root va fl a m \<longleftrightarrow> (\<forall>d<4096. \<exists>pa. lookup m root (va + of_nat d) = Some (pa, fl) \<and> VA_of pa = a + of_nat d)"

lemma frame_at_ok:
  assumes a: "area_ok 0 a" and va: "va_off va = 0" "unat va + 4096 \<le> 2 ^ 39"
    and look: "\<forall>va'. va_vpn va' = va_vpn va \<longrightarrow> lookup m root va' = Some (leaf_pa 0 (pa_ppn (PA_of a)) va', flags)"
  shows "frame_at root va flags a m"
  unfolding frame_at_def
proof (intro allI impI)
  fix d :: nat assume d: "d < 4096"
  let ?pa = "leaf_pa 0 (pa_ppn (PA_of a)) (va + of_nat d)"
  have u: "unat (va + of_nat d) = unat va + d" using d va(2) by (intro file_addr [of va 4096]) simp_all
  obtain q where q: "unat va = 4096 * q" using va(1) by (auto simp: va_off_0)
  have "unat (va_vpn (va + of_nat d)) = unat (va_vpn va)" using d by (simp add: va_fields(2) u q)
  then have "va_vpn (va + of_nat d) = va_vpn va" by (simp add: word_unat_eq_iff)
  then have "lookup m root (va + of_nat d) = Some (?pa, flags)" using look by blast
  moreover have "unat (va_off (va + of_nat d)) = d" using d by (simp add: va_fields(1) u q)
  then have "va_off (va + of_nat d) = of_nat d" by (rule word_eq_of_nat)
  then have "VA_of ?pa = a + of_nat d" by (simp add: frame_byte [OF a])
  ultimately show "\<exists>pa. lookup m root (va + of_nat d) = Some (pa, flags) \<and> VA_of pa = a + of_nat d" by blast
qed

lemma page_mapped:
  assumes "frame_at root va fl a m" and "area 0 a \<subseteq> S" "area 0 a \<inter> W = {}" and "\<forall>k<4096. m (a + of_nat k) = b k"
  shows "pages_mapped root va 1 fl b S W m"
  unfolding pages_mapped_def
proof (intro allI impI)
  fix d :: nat assume "d < 1 * 4096"
  then have d: "d < 4096" by simp
  then have "a + of_nat d \<in> area 0 a" by (simp add: area_def span_iff unat_of_nat)
  then have "a + of_nat d \<in> S" "a + of_nat d \<notin> W" using assms(2,3) by blast+
  with assms(1,4) d show "\<exists>pa. lookup m root (va + of_nat d) = Some (pa, fl) \<and> m (VA_of pa) = b d \<and> VA_of pa \<in> S \<and> VA_of pa \<notin> W"
    unfolding frame_at_def by metis
qed

text \<open>The area of the stack: it has one page, whose frame is \<open>a\<close>.\<close>

definition stack_area :: "memory \<Rightarrow> u64 \<Rightarrow> u64 \<Rightarrow> u64 \<Rightarrow> bool" where
  "stack_area m ar nd a \<longleftrightarrow>
     l_first m (area_pages ar) = nd \<and> l_last m (area_pages ar) = nd \<and> nd \<noteq> 0 \<and> n_value m nd = a \<and> area_ok 0 a"

lemma map_stack_ok:
  assumes pt: "pt_inv root F P s" and areas: "vm_areas F q (mem s) (t_vm_areas task) xs ars"
    and lP: "list_cells (t_vm_areas task) xs \<inter> pages P = {}"
    and top: "\<forall>a\<in>set ars. \<not> USERSTACK - PAGE_SIZE < area_va (mem s) a"
  shows "covered 5 F \<and> map_stack task root execstack s = Some (Inl ''out of memory'') \<or>
    (\<exists>t ar n nd a F' P' q'. map_stack task root execstack s = Some (Inr ((), t)) \<and> pt_inv root F' P' t \<and> F' \<subseteq> F \<and>
       vm_areas F' q' (mem t) (t_vm_areas task) (xs @ [n]) (ars @ [ar]) \<and>
       area_loaded (mem t) ar (USERSTACK - PAGE_SIZE) 1 (fst (stack_rights execstack)) \<and> stack_area (mem t) ar nd a \<and>
       area 0 a \<union> span nd 32 \<subseteq> F \<and> area 0 a \<inter> (F' \<union> pages P' \<union> list_cells (t_vm_areas task) (xs @ [n]) \<union> span ar 40 \<union> span nd 32) = {} \<and>
       frame_at root (USERSTACK - PAGE_SIZE) (snd (stack_rights execstack)) a (mem t) \<and>
       (\<forall>k<4096. mem t (a + of_nat k) = 0) \<and>
       pages_mapped root (USERSTACK - PAGE_SIZE) 1 (snd (stack_rights execstack)) (\<lambda>_. 0) F
         (F' \<union> pages P' \<union> list_cells (t_vm_areas task) (xs @ [n])) (mem t) \<and>
       (\<forall>va. va_vpn va \<noteq> va_vpn (USERSTACK - PAGE_SIZE) \<longrightarrow> lookup (mem t) root va = lookup (mem s) root va) \<and>
       agree (- (F \<union> pages P \<union> list_cells (t_vm_areas task) xs)) (mem s) (mem t) \<and> same_rest s t \<and>
       pages P' \<subseteq> F \<union> pages P \<and> span n 32 \<union> span ar 40 \<subseteq> F \<and> (span n 32 \<union> span ar 40) \<inter> pages P' = {})"
proof -
  let ?l = "t_vm_areas task" and ?va = "USERSTACK - PAGE_SIZE" and ?run = "map_stack task root execstack s"
    and ?vm = "fst (stack_rights execstack)" and ?pf = "snd (stack_rights execstack)"
  note I = pt_invD [OF pt]
  have lF: "list_cells ?l xs \<inter> F = {}" using areas by (simp add: vm_areas_def)
  have aF: "\<forall>a\<in>set ars. span a 40 \<inter> (F \<union> list_cells ?l xs) = {}" using areas by (simp add: vm_areas_def)
  from buddy.alloc_fill [OF I(1) clear_page_frame map_stack_call [of task root execstack]] show ?thesis
  proof (elim disjE exE conjE)
    assume "F = {}" "?run = Some (Inl ''out of memory'')"
    then show ?thesis using covered_empty by blast
  next
    fix a t1 m
    assume call: "?run = kbind (vm_area_create ?va 1 ?vm) (\<lambda>ar. kbind (vm_add_area ?l ar) (\<lambda>err.
        if err \<noteq> 0 then kpanic ''out of memory'' else
        kbind (vm_area_add_page ar a) (\<lambda>err. if err \<noteq> 0 then kpanic ''out of memory'' else
        kbind (kgets (\<lambda>s. PA (early s) a)) (\<lambda>pa. kbind (set_page root ?va pa ?pf) (\<lambda>err.
          if err \<noteq> 0 then kpanic ''set_page'' else kreturn ()))))) t1"
      and A: "area_ok 0 a" "area 0 a \<subseteq> F" "allocator (F - area 0 a) t1" "mem t1 = clear_page a m"
        "agree (- F) (mem s) (mem t1)" "same_rest s t1"
    let ?F0 = "F - area 0 a"
    have zero: "\<forall>k<4096. mem t1 (a + of_nat k) = 0" by (simp add: A(4) clear_page_zero area_def span_iff unat_of_nat)
    have "agree (list_cells ?l xs) (mem s) (mem t1)" by (rule agree_mono [OF A(5)]) (use lF in blast)
    note areas1 = vm_areas_frame [OF areas this Diff_subset]
    have "agree (pages P) (mem s) (mem t1)" by (rule agree_mono [OF A(5)]) (use I(4) in blast)
    note pt1 = pt_inv_frame [OF pt A(3) Diff_subset this same_rest_early [OF A(6)]]
    have Z: "area 0 a \<inter> (?F0 \<union> pages P \<union> list_cells ?l xs) = {}" using A(2) I(4) lF by blast
    have "area_va (mem t1) b = area_va (mem s) b" if "b \<in> set ars" for b
      by (rule area_va_agree [symmetric], rule agree_mono [OF A(5)]) (use that aF in blast)
    then have top1: "\<forall>b\<in>set ars. \<not> ?va < area_va (mem t1) b" using top by simp
    have al: "?va mod PAGE_SIZE = 0" by simp
    have F1: "F \<subseteq> ?F0 \<union> pages {a}" by auto
    from area_ready_ok [OF pt1(1) areas1 lP Z al top1, of 1 ?vm] show ?thesis
    proof (elim disjE exE conjE)
      assume "?F0 = {}" "vm_area_create ?va 1 ?vm t1 = Some (Inl ''out of memory'')"
      moreover have "covered 5 F" by (rule covered_mono [OF covered_area]) (use \<open>?F0 = {}\<close> in auto)
      ultimately show ?thesis by (simp add: call kbind_Inl)
    next
      fix ar t2
      assume "vm_area_create ?va 1 ?vm t1 = Some (Inr (ar, t2))" "covered 1 ?F0" "vm_add_area ?l ar t2 = Some (Inl ''out of memory'')"
      moreover have "covered 5 F" by (rule covered_mono [OF covered_add [OF \<open>covered 1 ?F0\<close> F1, of 1]]) simp_all
      ultimately show ?thesis by (simp add: call kbind_Inr kbind_Inl)
    next
      fix ar t2 n F1 u
      assume t2: "vm_area_create ?va 1 ?vm t1 = Some (Inr (ar, t2))" "vm_add_area ?l ar t2 = Some (Inr (0, u))"
        and al: "area_loaded (mem u) ar ?va 1 ?vm" and R: "area_ready root (area 0 a) ?F0 P ?l xs ars t1 ar n F1 u"
      obtain q1 where R: "F1 \<subseteq> ?F0" "vm_areas F1 q1 (mem u) ?l (xs @ [n]) (ars @ [ar])" "load_inv root ar (area 0 a) F1 P [] u"
        "(span ar 24 \<union> list_cells ?l (xs @ [n])) \<inter> used_by ar F1 P [] = {}"
        "\<forall>va. lookup (mem u) root va = lookup (mem t1) root va" "agree (- (?F0 \<union> list_cells ?l xs)) (mem t1) (mem u)"
        "used_by ar F1 P [] \<subseteq> ?F0 \<union> pages P" "span n 32 \<union> span ar 40 \<subseteq> ?F0" "same_rest t1 u"
        "\<forall>k. covered k F1 \<longrightarrow> covered (k + 2) ?F0"
        using R unfolding area_ready_def by blast
      obtain q2 where N: "pt_inv root F1 P u" "list_rep q2 (mem u) (area_pages ar) []"
        "list_cells (area_pages ar) [] \<inter> (F1 \<union> pages P) = {}" using R(3) by (auto simp: load_inv_def)
      have cov: "covered 5 F" if "covered 2 F1"
      proof -
        have "covered 4 ?F0" using R(10) that by fastforce
        then show ?thesis by (rule covered_mono [OF covered_add [OF _ F1, of 4 1]]) simp_all
      qed
      have own: "list_cells (area_pages ar) [] \<inter> F1 = {}" using N(3) by blast
      from add_page_ok [OF pt_invD(1) [OF N(1)] N(2) own, of a] show ?thesis
      proof (elim disjE exE conjE)
        assume "F1 = {}" "vm_area_add_page ar a u = Some (Inl ''out of memory'')"
        then show ?thesis using t2 cov covered_empty by (simp add: call kbind_Inr kbind_Inl)
      next
        fix nd v
        let ?F2 = "F1 - node_page nd"
        assume v: "vm_area_add_page ar a u = Some (Inr (0, v))" "node_page nd \<subseteq> F1" "span nd 32 \<subseteq> node_page nd"
          "allocator ?F2 v" "same_rest u v" "list_rep (if [] = [] then 0 else q2) (mem v) (area_pages ar) ([] @ [nd])"
          "map (n_value (mem v)) ([] @ [nd]) = map (n_value (mem u)) [] @ [a]"
          "agree (- (F1 \<union> list_cells (area_pages ar) [])) (mem u) (mem v)"
        have IF: "pages P \<inter> F1 = {}" using I(4) R(1) by blast
        have "agree (pages P) (mem u) (mem v)" by (rule agree_mono [OF v(8)]) (use IF N(3) in blast)
        note pt2 = pt_inv_frame [OF N(1) v(4) Diff_subset this same_rest_early [OF v(5)]]
        have early: "\<not> early v" using pt2(1) by (simp add: pt_inv_def)
        have va: "va_off ?va = 0" by (simp add: va_off_def field_def)
        from set_page_ok [OF pt2(1) va pa_ram(2) [OF A(1)] stack_rights_leaf(1-3) [of execstack]] show ?thesis
        proof (elim disjE exE conjE)
          fix b assume b: "?F2 \<subseteq> area 0 b" "set_page root ?va (PA_of a) ?pf v = Some (Inl ''out of memory'')"
          have FB: "F1 \<subseteq> ?F2 \<union> pages {nd - 4}" by (auto simp: node_page_def)
          have "covered (1 + 1) F1" by (rule covered_add [OF covered_area [OF b(1)] FB]) simp_all
          then have "covered 5 F" using cov by (simp add: numeral_2_eq_2)
          then show ?thesis using t2 v(1) b(2) early by (simp add: call kbind_Inr kbind_Inl PA_def)
        next
          fix w F3 P3 c d
          assume w: "set_page root ?va (PA_of a) ?pf v = Some (Inr (0, w))" "pt_step root ?F2 P v F3 P3 w"
            "\<forall>va'. lookup (mem w) root va' = (if va_vpn va' = va_vpn ?va
              then Some (leaf_pa 0 (pa_ppn (PA_of a)) va', ?pf) else lookup (mem v) root va')"
          have st: "pt_inv root F3 P3 w" "F3 \<subseteq> ?F2" "pages P3 \<subseteq> ?F2 \<union> pages P" "agree (- (?F2 \<union> pages P)) (mem v) (mem w)" "same_rest v w"
            using w(2) pages_Un [of "P3 - P" P] unfolding pt_step_def by (auto simp: Un_absorb2)
          let ?W = "F3 \<union> pages P3 \<union> list_cells ?l (xs @ [n])"
          have lc: "list_cells ?l (xs @ [n]) = list_cells ?l xs \<union> span n 32" by (rule list_cells_snoc)
          have ub: "used_by ar F1 P [] = F1 \<union> pages P \<union> list_cells (area_pages ar) []" by (simp add: used_by_def)
          have run: "?run = Some (Inr ((), w))" using t2 v(1) w(1) early by (simp add: call kbind_Inr PA_def)
          have uw: "agree (- used_by ar F1 P []) (mem u) (mem w)"
            by (rule agree_trans [OF agree_mono [OF v(8)] agree_mono [OF st(4)]]) (auto simp: ub)
          have rest: "same_rest s w"
            by (rule same_rest_trans [OF A(6) same_rest_trans [OF R(9) same_rest_trans [OF v(5) st(5)]]])
          have "agree (list_cells ?l (xs @ [n])) (mem u) (mem w)" by (rule agree_mono [OF uw]) (use R(4) in blast)
          moreover have sub: "F3 \<subseteq> F1" "F3 \<subseteq> F" using st(2) R(1) by blast+
          ultimately have V: "vm_areas F3 q1 (mem w) ?l (xs @ [n]) (ars @ [ar])" using vm_areas_frame [OF R(2)] by blast
          have "agree (span ar 24) (mem u) (mem w)" by (rule agree_mono [OF uw]) (use R(4) in blast)
          with al have L: "area_loaded (mem w) ar ?va 1 ?vm" using area_loaded_frame by blast
          have cells: "list_cells (area_pages ar) [nd] = list_cells (area_pages ar) [] \<union> span nd 32" by (simp add: list_cells_def)
          have "agree (list_cells (area_pages ar) [nd]) (mem v) (mem w)"
            by (rule agree_mono [OF st(4)]) (use N(3) v(2,3) IF in \<open>auto simp: cells\<close>)
          with v(6) have rep: "list_rep 0 (mem w) (area_pages ar) [nd]" "n_value (mem w) nd = a"
            using list_rep_agree [of "area_pages ar" "[nd]" "mem v" "mem w" 0] v(7) by simp_all
          then have S: "stack_area (mem w) ar nd a" using A(1) by (simp add: stack_area_def list_rep_def)
          have ac: "area 0 a \<inter> ?F0 = {}" "area 0 a \<inter> pages P = {}" "area 0 a \<inter> list_cells ?l xs = {}" using Z by blast+
          have ar16: "list_cells (area_pages ar) [] \<subseteq> ?F0 \<union> pages P" using R(7) ub by blast
          have apart: "area 0 a \<inter> (?W \<union> span ar 40 \<union> span nd 32) = {}"
            using ac st(2,3) R(1,8) v(2,3) unfolding lc by blast
          have nodes: "area 0 a \<union> span nd 32 \<subseteq> F" using A(2) v(2,3) R(1) by blast
          have "agree (area 0 a) (mem t1) (mem u)" by (rule agree_mono [OF R(6)]) (use ac in blast)
          moreover have "agree (area 0 a) (mem u) (mem w)" by (rule agree_mono [OF uw]) (use ac R(1) ar16 in \<open>auto simp: ub\<close>)
          ultimately have "agree (area 0 a) (mem t1) (mem w)" by (rule agree_trans)
          then have zw: "\<forall>k<4096. mem w (a + of_nat k) = 0"
            using zero by (auto simp: agree_def area_def span_iff unat_of_nat)
          have fat: "frame_at root ?va ?pf a (mem w)" by (rule frame_at_ok [OF A(1) va]) (use w(3) in simp_all)
          have M: "pages_mapped root ?va 1 ?pf (\<lambda>_. 0) F ?W (mem w)"
            by (rule page_mapped [OF fat A(2) _ zw]) (use apart in auto)
          have O: "\<forall>va. va_vpn va \<noteq> va_vpn ?va \<longrightarrow> lookup (mem w) root va = lookup (mem s) root va"
            using w(3) pt2(2) R(5) pt1(2) by simp
          have fr: "agree (- (F \<union> pages P \<union> list_cells ?l xs)) (mem s) (mem w)"
            by (rule agree_trans [OF agree_mono [OF A(5)] agree_trans [OF agree_mono [OF R(6)] agree_mono [OF uw]]])
              (use R(1) ar16 in \<open>auto simp: ub\<close>)
          have tabs: "pages P3 \<subseteq> F \<union> pages P" using st(3) R(1) by blast
          have fresh: "span n 32 \<union> span ar 40 \<subseteq> F" using R(8) by blast
          have "span ar 40 \<subseteq> span ar 24 \<union> span (ar + 24) 16" using span_split [of 24 24 ar 16] by simp
          then have "span ar 40 \<subseteq> span ar 24 \<union> list_cells (area_pages ar) []" by (simp add: list_cells_def area_pages_def)
          then have new: "(span n 32 \<union> span ar 40) \<inter> pages P3 = {}"
            using st(3) R(4) N(3) unfolding lc ub by blast
          show ?thesis
            by (intro disjI2 exI conjI) (fact run st(1) sub(2) V L S nodes apart fat zw M O fr rest tabs fresh new)+
        qed
      qed
    qed
  qed
qed

subsection \<open>An address space under construction\<close>

text \<open>
  Between two segments: tables, areas and free memory are well formed and apart from each other,
  the memory \<open>Z\<close> (the file, the task, the arguments) is apart from all of them, and the frames
  behind the user's addresses are apart from everything that is still written.
\<close>

definition image_cells :: "u64 \<Rightarrow> u64 set \<Rightarrow> u64 set \<Rightarrow> u64 list \<Rightarrow> u64 set" where
  "image_cells l F P xs = F \<union> pages P \<union> list_cells l xs"

definition image_inv ::
  "u64 \<Rightarrow> u64 \<Rightarrow> u64 set \<Rightarrow> u64 set \<Rightarrow> u64 set \<Rightarrow> u64 list \<Rightarrow> u64 list \<Rightarrow> 'a mm_state_scheme \<Rightarrow> bool" where
  "image_inv root l Z F P xs ars s \<longleftrightarrow>
     pt_inv root F P s \<and> (\<exists>q. vm_areas F q (mem s) l xs ars) \<and>
     (list_cells l xs \<union> (\<Union>a\<in>set ars. span a 40)) \<inter> pages P = {} \<and> Z \<inter> image_cells l F P xs = {} \<and>
     (\<forall>va pa fl. va < SPLIT \<longrightarrow> lookup (mem s) root va = Some (pa, fl) \<longrightarrow> VA_of pa \<notin> image_cells l F P xs \<union> Z)"

definition image_step ::
  "u64 \<Rightarrow> u64 \<Rightarrow> u64 set \<Rightarrow> u64 set \<Rightarrow> u64 set \<Rightarrow> u64 list \<Rightarrow> 'a mm_state_scheme \<Rightarrow>
     u64 set \<Rightarrow> u64 set \<Rightarrow> u64 list \<Rightarrow> u64 list \<Rightarrow> 'a mm_state_scheme \<Rightarrow> bool" where
  "image_step root l Z F P xs s F' P' xs' ars' t \<longleftrightarrow>
     image_inv root l Z F' P' xs' ars' t \<and> F' \<subseteq> F \<and> image_cells l F' P' xs' \<subseteq> image_cells l F P xs \<and>
     agree (- image_cells l F P xs) (mem s) (mem t) \<and> same_rest s t"

lemma image_step_refl: "image_inv root l Z F P xs ars s \<Longrightarrow> image_step root l Z F P xs s F P xs ars s"
  by (simp add: image_step_def)

lemma image_step_trans:
  assumes "image_step root l Z F P xs s F' P' xs' ars' t" and "image_step root l Z F' P' xs' t F'' P'' xs'' ars'' u"
  shows "image_step root l Z F P xs s F'' P'' xs'' ars'' u"
proof -
  have "agree (- image_cells l F P xs) (mem s) (mem u)"
    by (rule agree_trans) (use assms in \<open>auto simp: image_step_def elim: agree_mono\<close>)
  then show ?thesis using assms same_rest_trans unfolding image_step_def by blast
qed

text \<open>What the user finds at an address: the rights and the byte.\<close>

definition sees :: "memory \<Rightarrow> u64 \<Rightarrow> u64 \<Rightarrow> u32 \<Rightarrow> u8 \<Rightarrow> bool" where
  "sees m root va fl b \<longleftrightarrow> (\<exists>pa. lookup m root va = Some (pa, fl) \<and> m (VA_of pa) = b)"

text \<open>The memory that the user sees through the page table.\<close>

definition user_mem :: "memory \<Rightarrow> u64 \<Rightarrow> memory" where
  "user_mem m root va = (case lookup m root va of Some (pa, fl) \<Rightarrow> m (VA_of pa) | None \<Rightarrow> 0)"

lemma sees_step:
  assumes "image_inv root l Z F P xs ars s" and "image_step root l Z F P xs s F' P' xs' ars' t"
    and "va < SPLIT" and "lookup (mem t) root va = lookup (mem s) root va" and "sees (mem s) root va fl b"
  shows "sees (mem t) root va fl b"
proof -
  obtain pa where pa: "lookup (mem s) root va = Some (pa, fl)" "mem s (VA_of pa) = b" using assms(5) by (auto simp: sees_def)
  then have "VA_of pa \<in> - image_cells l F P xs" using assms(1,3) unfolding image_inv_def by blast
  then have "mem t (VA_of pa) = b" using assms(2) pa(2) unfolding image_step_def agree_def by metis
  with pa(1) assms(4) show ?thesis by (simp add: sees_def)
qed

lemma page_of_vpn:
  assumes "unat va < 2 ^ 39" and "va_off st = 0" and "unat st + N * 4096 \<le> 2 ^ 39" and "i < N"
    and "va_vpn va = va_vpn (st + of_nat (i * 4096))"
  shows "\<exists>d<N * 4096. va = st + of_nat d"
proof -
  obtain q where q: "unat st = 4096 * q" using assms(2) by (auto simp: va_off_0)
  have i: "i * 4096 < N * 4096" using assms(4) by simp
  have "unat (va_vpn (st + of_nat (i * 4096))) = (unat st + i * 4096) div 4096" by (rule vpn_of_offset [OF assms(3) i])
  moreover have "unat va div 4096 < 2 ^ 27" using assms(1) by (simp add: div_less_iff_less_mult)
  ultimately have "unat va div 4096 = q + i" using assms(5) va_fields(2) [of va] q by simp
  then have u: "unat va = unat st + (i * 4096 + unat va mod 4096)"
    using mult_div_mod_eq [of 4096 "unat va"] q by simp
  have d: "i * 4096 + unat va mod 4096 < N * 4096"
  proof -
    have "Suc i * 4096 \<le> N * 4096" using assms(4) by (intro mult_right_mono) simp_all
    moreover have "unat va mod 4096 < 4096" by simp
    ultimately show ?thesis by simp
  qed
  have "unat (st + of_nat (i * 4096 + unat va mod 4096)) = unat st + (i * 4096 + unat va mod 4096)"
    by (rule file_addr [of st "N * 4096"]) (use d assms(3) in simp_all)
  then have "va = st + of_nat (i * 4096 + unat va mod 4096)" using u by (simp only: word_unat_eq_iff)
  with d show ?thesis by blast
qed

text \<open>
  One more area: what \<open>load_segment\<close>, \<open>map_stack\<close> and \<open>vm_clone\<close> have in common.
\<close>

lemma image_inv_area:
  assumes inv: "image_inv root l Z F P xs ars s"
    and t: "pt_inv root F' P' t" "F' \<subseteq> F" "vm_areas F' q' (mem t) l (xs @ [n]) (ars @ [ar])"
    and m: "pages_mapped root st N fl b F (F' \<union> pages P' \<union> list_cells l (xs @ [n])) (mem t)"
    and o: "\<forall>va. (\<forall>i<N. va_vpn va \<noteq> va_vpn (st + of_nat (i * 4096))) \<longrightarrow> lookup (mem t) root va = lookup (mem s) root va"
    and ag: "agree (- (F \<union> pages P \<union> list_cells l xs)) (mem s) (mem t)"
    and new: "pages P' \<subseteq> F \<union> pages P" "span n 32 \<union> span ar 40 \<subseteq> F" "(span n 32 \<union> span ar 40) \<inter> pages P' = {}"
    and st: "va_off st = 0" "unat st + N * 4096 \<le> 2 ^ 39"
  shows "image_inv root l Z F' P' (xs @ [n]) (ars @ [ar]) t"
    and "image_cells l F' P' (xs @ [n]) \<subseteq> image_cells l F P xs"
    and "\<forall>a\<in>set ars. agree (span a 40) (mem s) (mem t)"
proof -
  obtain q where I: "pt_inv root F P s" "vm_areas F q (mem s) l xs ars"
    "(list_cells l xs \<union> (\<Union>a\<in>set ars. span a 40)) \<inter> pages P = {}" "Z \<inter> (F \<union> pages P \<union> list_cells l xs) = {}"
    "\<And>va pa fl. va < SPLIT \<Longrightarrow> lookup (mem s) root va = Some (pa, fl) \<Longrightarrow> VA_of pa \<notin> F \<union> pages P \<union> list_cells l xs \<union> Z"
    using inv by (auto simp: image_inv_def image_cells_def)
  have lc: "list_cells l (xs @ [n]) = list_cells l xs \<union> span n 32" by (rule list_cells_snoc)
  have sub: "F' \<union> pages P' \<union> list_cells l (xs @ [n]) \<subseteq> F \<union> pages P \<union> list_cells l xs"
    using t(2) new(1,2) unfolding lc by blast
  have lF: "list_cells l xs \<inter> F = {}" and aF: "\<forall>a\<in>set ars. span a 40 \<inter> (F \<union> list_cells l xs) = {}"
    using I(2) by (simp_all add: vm_areas_def)
  have apart: "VA_of pa \<notin> F' \<union> pages P' \<union> list_cells l (xs @ [n]) \<union> Z"
    if va: "va < SPLIT" "lookup (mem t) root va = Some (pa, fl')" for va pa fl'
  proof (cases "\<forall>i<N. va_vpn va \<noteq> va_vpn (st + of_nat (i * 4096))")
    case True
    then have "lookup (mem s) root va = Some (pa, fl')" using o va(2) by simp
    with I(5) [OF va(1)] sub show ?thesis by blast
  next
    case False
    then obtain i where i: "i < N" "va_vpn va = va_vpn (st + of_nat (i * 4096))" by blast
    have "unat va < 2 ^ 39" using va(1) by (simp add: word_less_nat_alt)
    from page_of_vpn [OF this st i] obtain d where "d < N * 4096" "va = st + of_nat d" by blast
    with m va(2) have "VA_of pa \<in> F" "VA_of pa \<notin> F' \<union> pages P' \<union> list_cells l (xs @ [n])"
      unfolding pages_mapped_def by fastforce+
    with I(4) show ?thesis by blast
  qed
  have "span a 40 \<inter> pages P' = {}" if "a \<in> set ars" for a
  proof -
    have "span a 40 \<inter> pages P = {}" "span a 40 \<inter> F = {}" using I(3) aF that by blast+
    then show ?thesis using new(1) by blast
  qed
  then have "(\<Union>a\<in>set (ars @ [ar]). span a 40) \<inter> pages P' = {}" using new(3) by auto
  moreover have "list_cells l (xs @ [n]) \<inter> pages P' = {}" using I(3) new(1,3) lF unfolding lc by blast
  ultimately have "(list_cells l (xs @ [n]) \<union> (\<Union>a\<in>set (ars @ [ar]). span a 40)) \<inter> pages P' = {}" by blast
  moreover have "Z \<inter> (F' \<union> pages P' \<union> list_cells l (xs @ [n])) = {}" using I(4) sub by blast
  ultimately show "image_inv root l Z F' P' (xs @ [n]) (ars @ [ar]) t"
    unfolding image_inv_def image_cells_def using t(1,3) apart by blast
  show "image_cells l F' P' (xs @ [n]) \<subseteq> image_cells l F P xs" using sub by (simp add: image_cells_def)
  show "\<forall>a\<in>set ars. agree (span a 40) (mem s) (mem t)"
  proof
    fix a assume "a \<in> set ars"
    then have "span a 40 \<subseteq> - (F \<union> pages P \<union> list_cells l xs)" using aF I(3) by blast
    then show "agree (span a 40) (mem s) (mem t)" by (rule agree_mono [OF ag])
  qed
qed

lemma image_step_area:
  assumes inv: "image_inv root l Z F P xs ars s"
    and t: "pt_inv root F' P' t" "F' \<subseteq> F" "vm_areas F' q' (mem t) l (xs @ [n]) (ars @ [ar])"
    and m: "pages_mapped root st N fl b F (F' \<union> pages P' \<union> list_cells l (xs @ [n])) (mem t)"
    and o: "\<forall>va. (\<forall>i<N. va_vpn va \<noteq> va_vpn (st + of_nat (i * 4096))) \<longrightarrow> lookup (mem t) root va = lookup (mem s) root va"
    and ag: "agree (- (F \<union> pages P \<union> list_cells l xs)) (mem s) (mem t)" "same_rest s t"
    and new: "pages P' \<subseteq> F \<union> pages P" "span n 32 \<union> span ar 40 \<subseteq> F" "(span n 32 \<union> span ar 40) \<inter> pages P' = {}"
    and st: "va_off st = 0" "unat st + N * 4096 \<le> 2 ^ 39"
  shows "image_step root l Z F P xs s F' P' (xs @ [n]) (ars @ [ar]) t"
    and "\<forall>a\<in>set ars. area_va (mem t) a = area_va (mem s) a"
proof -
  note I = image_inv_area [OF inv t m o ag(1) new st]
  show "image_step root l Z F P xs s F' P' (xs @ [n]) (ars @ [ar]) t"
    using I(1,2) t(2) ag by (simp add: image_step_def image_cells_def)
  show "\<forall>a\<in>set ars. area_va (mem t) a = area_va (mem s) a" using I(3) area_va_agree by metis
qed

text \<open>Writes outside the cells of the image do not disturb it.\<close>

lemma image_inv_write:
  assumes "image_inv root l Z F P xs ars s" and "agree (- U) (mem s) m" and "U \<inter> image_cells l F P xs = {}"
  shows "image_inv root l Z F P xs ars (s\<lparr>mem := m\<rparr>)"
    and "lookup m root va = lookup (mem s) root va"
    and "sees (mem s) root va fl b \<Longrightarrow> \<forall>pa fl. lookup (mem s) root va = Some (pa, fl) \<longrightarrow> VA_of pa \<notin> U \<Longrightarrow> sees m root va fl b"
proof -
  obtain q where I: "pt_inv root F P s" "vm_areas F q (mem s) l xs ars"
    "(list_cells l xs \<union> (\<Union>a\<in>set ars. span a 40)) \<inter> pages P = {}" "Z \<inter> (F \<union> pages P \<union> list_cells l xs) = {}"
    "\<And>va pa fl. va < SPLIT \<Longrightarrow> lookup (mem s) root va = Some (pa, fl) \<Longrightarrow> VA_of pa \<notin> F \<union> pages P \<union> list_cells l xs \<union> Z"
    using assms(1) by (auto simp: image_inv_def image_cells_def)
  let ?t = "s\<lparr>mem := m\<rparr>"
  have A: "agree F (mem s) m" "agree (pages P) (mem s) m" "agree (list_cells l xs) (mem s) m"
    by (rule agree_mono [OF assms(2)], use assms(3) in \<open>auto simp: image_cells_def\<close>)+
  have "allocator F ?t" by (rule allocator_frame [OF pt_invD(1) [OF I(1)]]) (use A(1) in simp_all)
  note P = pt_inv_frame [OF I(1) this order_refl, simplified, OF A(2)]
  then show l: "lookup m root va = lookup (mem s) root va" for va by simp
  show "image_inv root l Z F P xs ars ?t"
    unfolding image_inv_def image_cells_def
    using P(1) vm_areas_frame [OF I(2) A(3) order_refl] I(3-5) l by (auto simp del: Un_iff)
  assume "sees (mem s) root va fl b" "\<forall>pa fl. lookup (mem s) root va = Some (pa, fl) \<longrightarrow> VA_of pa \<notin> U"
  with assms(2) l show "sees m root va fl b" by (auto simp: sees_def agree_def)
qed

subsection \<open>Programs\<close>

text \<open>
  What the loader relies on: the segments have rights and bytes in the file, lie in ascending
  order on pages of their own, the first at page \<open>lo\<close> or above, and end below the stack; the
  program headers and the segments' bytes are in \<open>Z\<close>.
\<close>

definition segment_top :: "memory \<Rightarrow> u64 \<Rightarrow> nat" where
  "segment_top m h = (unat (p_vaddr m h) + unat (p_memsz m h) + 4095) div 4096"

definition loadable :: "memory \<Rightarrow> u64 \<Rightarrow> u64 set \<Rightarrow> nat \<Rightarrow> u64 \<Rightarrow> bool" where
  "loadable m program Z lo h \<longleftrightarrow>
     p_flags m h AND (PF_R OR PF_W OR PF_X) \<noteq> 0 \<and> p_filesz m h \<noteq> 0 \<and> program + p_offset m h \<noteq> 0 \<and>
     unat (program + p_offset m h) + unat (p_filesz m h) < 2 ^ 64 \<and>
     span (program + p_offset m h) (unat (p_filesz m h)) \<subseteq> Z \<and> lo \<le> unat (p_vaddr m h) div 4096 \<and>
     unat (p_vaddr m h) + unat (p_memsz m h) \<le> unat (USERSTACK - PAGE_SIZE)"

lemma segment_top_below:
  assumes "loadable m program Z lo h"
  shows "segment_top m h * 4096 \<le> unat (USERSTACK - PAGE_SIZE)" and "segment_top m h \<le> unat (USERSTACK - PAGE_SIZE) div 4096"
proof -
  have "unat (p_vaddr m h) + unat (p_memsz m h) + 4095 \<le> 270314500096 + 4095" using assms by (simp add: loadable_def)
  from div_le_mono [OF this, of 4096] show "segment_top m h * 4096 \<le> unat (USERSTACK - PAGE_SIZE)" unfolding segment_top_def by simp
  then show "segment_top m h \<le> unat (USERSTACK - PAGE_SIZE) div 4096" by simp
qed

primrec program_ok :: "memory \<Rightarrow> u64 \<Rightarrow> u64 set \<Rightarrow> nat \<Rightarrow> u64 list \<Rightarrow> bool" where
  "program_ok m program Z lo [] \<longleftrightarrow> True"
| "program_ok m program Z lo (h # hs) \<longleftrightarrow> span h 48 \<subseteq> Z \<and>
     (if p_type m h = PT_LOAD then loadable m program Z lo h \<and> program_ok m program Z (segment_top m h) hs
      else p_type m h \<noteq> PT_DYNAMIC \<and> p_type m h \<noteq> PT_INTERP \<and> program_ok m program Z lo hs)"

text \<open>The user sees the segment: the bytes of the file, then zeros, with the rights of the header.\<close>

definition segment_seen :: "memory \<Rightarrow> u64 \<Rightarrow> u64 \<Rightarrow> u64 \<Rightarrow> memory \<Rightarrow> bool" where
  "segment_seen m program root h m' \<longleftrightarrow>
     (\<forall>i<unat (p_memsz m h). sees m' root (p_vaddr m h + of_nat i) (fst (segment_flags (p_flags m h)))
        (if i < unat (p_filesz m h) then m (program + p_offset m h + of_nat i) else 0))"

definition segment_need :: "memory \<Rightarrow> u64 \<Rightarrow> nat" where
  "segment_need m h = (if p_type m h = PT_LOAD then 4 * segment_pages (p_vaddr m h) (p_memsz m h) + 2 else 0)"

definition stack_exec :: "memory \<Rightarrow> u64 \<Rightarrow> bool \<Rightarrow> bool" where
  "stack_exec m h execstack = (if p_type m h = PT_GNU_STACK then p_flags m h AND PF_X \<noteq> 0 else execstack)"

lemma header_agree:
  assumes "agree Z m m'" and "span h 48 \<subseteq> Z"
  shows "p_type m' h = p_type m h" "p_flags m' h = p_flags m h" "p_offset m' h = p_offset m h"
    "p_vaddr m' h = p_vaddr m h" "p_filesz m' h = p_filesz m h" "p_memsz m' h = p_memsz m h"
proof -
  have ag: "agree (span h 48) m m'" by (rule agree_mono [OF assms])
  have "span h 4 \<subseteq> span h 48" "span (h + 4) 4 \<subseteq> span h 48" "span (h + 8) 8 \<subseteq> span h 48" "span (h + 16) 8 \<subseteq> span h 48"
    "span (h + 32) 8 \<subseteq> span h 48" "span (h + 40) 8 \<subseteq> span h 48"
    by (rule span_mono span_shift_subset; simp)+
  then show "p_type m' h = p_type m h" "p_flags m' h = p_flags m h" "p_offset m' h = p_offset m h"
    "p_vaddr m' h = p_vaddr m h" "p_filesz m' h = p_filesz m h" "p_memsz m' h = p_memsz m h"
    using agree_load32 [OF ag] agree_load64 [OF ag]
    by (simp_all add: p_type_def p_flags_def p_offset_def p_vaddr_def p_filesz_def p_memsz_def)
qed

lemma program_agree:
  assumes "agree Z m m'"
  shows "program_ok m program Z lo hs \<Longrightarrow> program_ok m' program Z lo hs"
    and "program_ok m program Z lo hs \<Longrightarrow> h \<in> set hs \<Longrightarrow> segment_need m' h = segment_need m h \<and> stack_exec m' h = stack_exec m h \<and>
      p_type m' h = p_type m h"
proof (induction hs arbitrary: lo)
  case (Cons g hs)
  {
    case 1
    then have g: "span g 48 \<subseteq> Z" by simp
    note H = header_agree [OF assms g]
    show ?case using 1 Cons.IH(1) g H
      by (auto simp: loadable_def segment_top_def)
  next
    case 2
    then have g: "span g 48 \<subseteq> Z" by simp
    note H = header_agree [OF assms g]
    show ?case
    proof (cases "h = g")
      case True
      then show ?thesis using H by (auto simp: segment_need_def stack_exec_def fun_eq_iff)
    next
      case False
      then show ?thesis using 2 Cons.IH(2) by (auto split: if_splits)
    qed
  }
qed simp_all

lemma segment_seen_agree:
  assumes "agree Z m m'" and "loadable m program Z lo h" and "span h 48 \<subseteq> Z"
  shows "segment_seen m' program root h u \<longleftrightarrow> segment_seen m program root h u"
proof -
  have "m' (program + p_offset m h + of_nat i) = m (program + p_offset m h + of_nat i)" if "i < unat (p_filesz m h)" for i
  proof -
    have "unat (of_nat i :: u64) = i" using that assms(2) by (simp add: loadable_def unat_of_nat)
    then have "program + p_offset m h + of_nat i \<in> span (program + p_offset m h) (unat (p_filesz m h))"
      using that by (simp add: span_iff)
    then show ?thesis using assms(1,2) by (auto simp: loadable_def agree_def)
  qed
  then show ?thesis using header_agree [OF assms(1,3)] unfolding segment_seen_def by (auto split: if_splits)
qed

lemma load_segment_step:
  assumes inv: "image_inv root (t_vm_areas task) Z F P xs ars s" and ld: "loadable (mem s) program Z lo h"
    and below: "\<forall>a\<in>set ars. unat (area_va (mem s) a) \<le> lo * 4096"
  shows "covered (4 * segment_pages (p_vaddr (mem s) h) (p_memsz (mem s) h) + 2) F \<and>
      load_segment task root program h s = Some (Inl ''out of memory'') \<or>
    (\<exists>t F' P' xs' ars'. load_segment task root program h s = Some (Inr ((), t)) \<and>
       image_step root (t_vm_areas task) Z F P xs s F' P' xs' ars' t \<and> segment_seen (mem s) program root h (mem t) \<and>
       (\<forall>a\<in>set ars'. unat (area_va (mem t) a) \<le> segment_top (mem s) h * 4096) \<and>
       (\<forall>va. unat (va_vpn va) < unat (p_vaddr (mem s) h) div 4096 \<or> segment_top (mem s) h \<le> unat (va_vpn va) \<longrightarrow>
          lookup (mem t) root va = lookup (mem s) root va) \<and>
       (\<forall>k. covered k F' \<longrightarrow> covered (k + (4 * segment_pages (p_vaddr (mem s) h) (p_memsz (mem s) h) + 2)) F))"
proof -
  let ?l = "t_vm_areas task" and ?v = "p_vaddr (mem s) h" and ?ms = "p_memsz (mem s) h" and ?fs = "p_filesz (mem s) h"
    and ?from = "program + p_offset (mem s) h" and ?pf = "p_flags (mem s) h"
  let ?N = "segment_pages ?v ?ms" and ?st = "segment_start ?v"
  obtain q where I: "pt_inv root F P s" "vm_areas F q (mem s) ?l xs ars" "list_cells ?l xs \<inter> pages P = {}"
    "Z \<inter> (F \<union> pages P \<union> list_cells ?l xs) = {}" using inv by (auto simp: image_inv_def image_cells_def)
  have D: "?pf AND (PF_R OR PF_W OR PF_X) \<noteq> 0" "?fs \<noteq> 0" "?from \<noteq> 0" "unat ?from + unat ?fs < 2 ^ 64"
    "span ?from (unat ?fs) \<subseteq> Z" "lo \<le> unat ?v div 4096" "unat ?v + unat ?ms \<le> unat (USERSTACK - PAGE_SIZE)"
    using ld by (simp_all add: loadable_def)
  have small: "unat ?v + unat ?ms < 2 ^ 38" using D(7) by simp
  note B = segment_bounds [OF small]
  have lo: "lo * 4096 \<le> unat ?st" unfolding B(1) using D(6) by simp
  have top: "\<forall>a\<in>set ars. \<not> ?st < area_va (mem s) a"
    using below lo by (fastforce simp: word_less_nat_alt)
  have Z: "span ?from (unat ?fs) \<inter> (F \<union> pages P \<union> list_cells ?l xs) = {}" using D(5) I(4) by blast
  have le: "unat ?v div 4096 \<le> segment_top (mem s) h" unfolding segment_top_def by (rule div_le_mono) simp
  have N: "?N = segment_top (mem s) h - unat ?v div 4096" by (simp add: segment_pages_def segment_top_def)
  have st_top: "unat ?st \<le> segment_top (mem s) h * 4096" unfolding B(1) using le by simp
  from load_segment_ok [OF I(1-3) refl refl refl refl refl Z D(3,4,2) top D(1) small] show ?thesis
  proof (elim disjE exE conjE)
    fix t ar n F' P' q'
    assume t: "load_segment task root program h s = Some (Inr ((), t))" "pt_inv root F' P' t" "F' \<subseteq> F"
        "vm_areas F' q' (mem t) ?l (xs @ [n]) (ars @ [ar])"
      and al: "area_loaded (mem t) ar ?st (of_nat ?N) (snd (segment_flags ?pf))"
      and m: "pages_mapped root ?st ?N (fst (segment_flags ?pf)) (segment_byte (mem s) ?from (unat ?fs) (unat (va_off ?v))) F
        (F' \<union> pages P' \<union> list_cells ?l (xs @ [n])) (mem t)"
      and o: "\<forall>va. (\<forall>i<?N. va_vpn va \<noteq> va_vpn (?st + of_nat (i * 4096))) \<longrightarrow> lookup (mem t) root va = lookup (mem s) root va"
      and ag: "agree (- (F \<union> pages P \<union> list_cells ?l xs)) (mem s) (mem t)" "same_rest s t"
      and new: "pages P' \<subseteq> F \<union> pages P" "span n 32 \<union> span ar 40 \<subseteq> F" "(span n 32 \<union> span ar 40) \<inter> pages P' = {}"
      and cov: "\<forall>k. covered k F' \<longrightarrow> covered (k + (4 * ?N + 2)) F"
    note S = image_step_area [OF inv t(2-4) m o ag new B(4,5)]
    have one: "1 \<le> unat ?fs" using D(2) by (simp add: unat_gt_0 Suc_le_eq)
    have seen: "segment_seen (mem s) program root h (mem t)"
      unfolding segment_seen_def
    proof (intro allI impI)
      fix i assume "i < unat ?ms"
      then have "unat (va_off ?v) + i < ?N * 4096" by (rule B(7))
      with m obtain pa where "lookup (mem t) root (?v + of_nat i) = Some (pa, fst (segment_flags ?pf))"
        "mem t (VA_of pa) = segment_byte (mem s) ?from (unat ?fs) (unat (va_off ?v)) (unat (va_off ?v) + i)"
        unfolding pages_mapped_def B(6) [symmetric] by blast
      then show "sees (mem t) root (?v + of_nat i) (fst (segment_flags ?pf)) (if i < unat ?fs then mem s (?from + of_nat i) else 0)"
        using one by (simp add: sees_def segment_byte_def max_absorb2)
    qed
    have "area_va (mem t) ar = ?st" using al by (simp add: area_loaded_def)
    with S(2) below lo st_top have areas: "\<forall>a\<in>set (ars @ [ar]). unat (area_va (mem t) a) \<le> segment_top (mem s) h * 4096"
      by fastforce
    have same: "\<forall>va. unat (va_vpn va) < unat ?v div 4096 \<or> segment_top (mem s) h \<le> unat (va_vpn va) \<longrightarrow>
        lookup (mem t) root va = lookup (mem s) root va"
    proof (intro allI impI)
      fix va assume va: "unat (va_vpn va) < unat ?v div 4096 \<or> segment_top (mem s) h \<le> unat (va_vpn va)"
      have "va_vpn va \<noteq> va_vpn (?st + of_nat (i * 4096))" if "i < ?N" for i
      proof -
        have "unat (va_vpn (?st + of_nat (i * 4096))) = (unat ?st + i * 4096) div 4096"
          by (rule vpn_of_offset [OF B(5)]) (use that in simp)
        then have "unat (va_vpn (?st + of_nat (i * 4096))) = unat ?v div 4096 + i" by (simp add: B(1))
        then show ?thesis using va that N by auto
      qed
      then show "lookup (mem t) root va = lookup (mem s) root va" using o by blast
    qed
    show ?thesis
      by (intro disjI2 exI conjI) (fact t(1) S(1) seen areas same cov)+
  qed blast
qed

subsection \<open>All segments\<close>

lemma elf_header_agree:
  assumes "agree (span p 64) m m'"
  shows "e_phnum m' p = e_phnum m p" "phdr_addr m' p = phdr_addr m p" "e_entry m' p = e_entry m p" "e_machine m' p = e_machine m p"
proof -
  have "span (p + 18) 2 \<subseteq> span p 64" "span (p + 24) 8 \<subseteq> span p 64" "span (p + 32) 8 \<subseteq> span p 64"
    "span (p + 54) 2 \<subseteq> span p 64" "span (p + 56) 2 \<subseteq> span p 64"
    by (rule span_shift_subset; simp)+
  moreover have "load16 m' a = load16 m a" if "span a 2 \<subseteq> span p 64" for a
    unfolding load16_def using load_le_cong [OF agree_mono [OF assms that]] by simp
  ultimately show "e_phnum m' p = e_phnum m p" "phdr_addr m' p = phdr_addr m p" "e_entry m' p = e_entry m p" "e_machine m' p = e_machine m p"
    using agree_load64 [OF assms] by (simp_all add: e_phnum_def e_entry_def e_machine_def phdr_addr_def e_phoff_def e_phentsize_def fun_eq_iff)
qed

lemma program_loadable:
  "program_ok m program Z lo hs \<Longrightarrow> h \<in> set hs \<Longrightarrow> p_type m h = PT_LOAD \<Longrightarrow>
     (\<exists>lo'. loadable m program Z lo' h) \<and> span h 48 \<subseteq> Z"
  by (induction hs arbitrary: lo) (auto split: if_splits)

lemma segment_pages_below:
  assumes "loadable m program Z lo h" and "i < unat (p_memsz m h)"
  shows "p_vaddr m h + of_nat i < SPLIT" and "unat (va_vpn (p_vaddr m h + of_nat i)) < segment_top m h"
proof -
  have b: "unat (p_vaddr m h) + unat (p_memsz m h) \<le> unat (USERSTACK - PAGE_SIZE)" using assms(1) by (simp add: loadable_def)
  have u: "unat (p_vaddr m h + of_nat i) = unat (p_vaddr m h) + i"
    by (rule file_addr [of _ "unat (p_memsz m h)"]) (use b assms(2) in simp_all)
  then show "p_vaddr m h + of_nat i < SPLIT" using b assms(2) by (simp add: word_less_nat_alt)
  have "unat (va_vpn (p_vaddr m h + of_nat i)) \<le> (unat (p_vaddr m h) + i) div 4096" by (simp add: va_fields(2) u)
  also have "\<dots> < segment_top m h" unfolding segment_top_def using assms(2) by (simp add: div_less_iff_less_mult)
  finally show "unat (va_vpn (p_vaddr m h + of_nat i)) < segment_top m h" .
qed

lemma segment_seen_step:
  assumes "image_inv root l Z F P xs ars s" and "image_step root l Z F P xs s F' P' xs' ars' t"
    and "loadable m program Z lo h" and "segment_seen m program root h (mem s)"
    and "\<forall>va. unat (va_vpn va) < segment_top m h \<longrightarrow> lookup (mem t) root va = lookup (mem s) root va"
  shows "segment_seen m program root h (mem t)"
  using assms(4) sees_step [OF assms(1,2)] segment_pages_below [OF assms(3)] assms(5) unfolding segment_seen_def by blast

lemma load_phdrs_ok:
  assumes inv: "image_inv root (t_vm_areas task) Z F P xs ars s" and hdr: "span program 64 \<subseteq> Z"
    and hs: "hs = map (phdr_addr (mem s) program) [i..<unat (e_phnum (mem s) program)]"
    and ok: "program_ok (mem s) program Z lo hs" and below: "\<forall>a\<in>set ars. unat (area_va (mem s) a) \<le> lo * 4096"
    and lo: "lo * 4096 \<le> unat (USERSTACK - PAGE_SIZE)"
  shows "covered (sum_list (map (segment_need (mem s)) hs)) F \<and>
      load_phdrs task root program i ex s = Some (Inl ''out of memory'') \<or>
    (\<exists>t F' P' xs' ars'. load_phdrs task root program i ex s = Some (Inr (Inr (fold (stack_exec (mem s)) hs ex), t)) \<and>
       image_step root (t_vm_areas task) Z F P xs s F' P' xs' ars' t \<and>
       (\<forall>h\<in>set hs. p_type (mem s) h = PT_LOAD \<longrightarrow> segment_seen (mem s) program root h (mem t)) \<and>
       (\<forall>a\<in>set ars'. unat (area_va (mem t) a) \<le> unat (USERSTACK - PAGE_SIZE)) \<and>
       (\<forall>va. unat (va_vpn va) < lo \<or> unat (USERSTACK - PAGE_SIZE) div 4096 \<le> unat (va_vpn va) \<longrightarrow>
          lookup (mem t) root va = lookup (mem s) root va) \<and>
       (\<forall>k. covered k F' \<longrightarrow> covered (k + sum_list (map (segment_need (mem s)) hs)) F))"
  using assms
proof (induction hs arbitrary: i lo F P xs ars s ex)
  case Nil
  then have "unat (e_phnum (mem s) program) \<le> i" by auto
  then have "load_phdrs task root program i ex s = Some (Inr (Inr ex, s))" by (subst load_phdrs.simps) simp
  with Nil show ?case using image_step_refl by fastforce
next
  case (Cons h hs)
  let ?n = "unat (e_phnum (mem s) program)" and ?l = "t_vm_areas task"
  from Cons.prems(3) have i: "i < ?n" and h: "h = phdr_addr (mem s) program i"
    and hs: "hs = map (phdr_addr (mem s) program) [Suc i..<?n]"
    by (cases "i < ?n"; simp add: upt_conv_Cons)+
  have hZ: "span h 48 \<subseteq> Z" using Cons.prems(4) by simp
  have ZW: "Z \<inter> image_cells ?l F P xs = {}" using Cons.prems(1) by (simp add: image_inv_def)
  show ?case
  proof (cases "p_type (mem s) h = PT_LOAD")
    case False
    then have ty: "p_type (mem s) h \<noteq> PT_DYNAMIC" "p_type (mem s) h \<noteq> PT_INTERP" "program_ok (mem s) program Z lo hs"
      using Cons.prems(4) by simp_all
    have "load_phdrs task root program i ex s = load_phdrs task root program (Suc i) (stack_exec (mem s) h ex) s"
      using i h False ty(1,2) by (subst load_phdrs.simps) (simp add: stack_exec_def Let_def)
    with Cons.IH [OF Cons.prems(1,2) hs ty(3) Cons.prems(5,6), of "stack_exec (mem s) h ex"] False
    show ?thesis by (simp add: segment_need_def)
  next
    case True
    then have ld: "loadable (mem s) program Z lo h" and rest: "program_ok (mem s) program Z (segment_top (mem s) h) hs"
      using Cons.prems(4) by simp_all
    note top = segment_top_below(1) [OF ld]
    have run: "load_phdrs task root program i ex s = kbind (load_segment task root program h)
        (\<lambda>_ t. load_phdrs task root program (Suc i) ex t) s"
      using i h True by (subst load_phdrs.simps) (simp add: Let_def)
    have ex: "stack_exec (mem s) h ex = ex" using True by (simp add: stack_exec_def PT_LOAD_def PT_GNU_STACK_def)
    have need: "segment_need (mem s) h = 4 * segment_pages (p_vaddr (mem s) h) (p_memsz (mem s) h) + 2"
      using True by (simp add: segment_need_def)
    from load_segment_step [OF Cons.prems(1) ld Cons.prems(5)] show ?thesis
    proof (elim disjE exE conjE)
      assume "covered (4 * segment_pages (p_vaddr (mem s) h) (p_memsz (mem s) h) + 2) F"
        "load_segment task root program h s = Some (Inl ''out of memory'')"
      then show ?thesis unfolding run using need covered_mono [of "segment_need (mem s) h" F] by (simp add: kbind_Inl)
    next
      fix t F' P' xs' ars'
      assume t: "load_segment task root program h s = Some (Inr ((), t))" "image_step root ?l Z F P xs s F' P' xs' ars' t"
        "segment_seen (mem s) program root h (mem t)"
        "\<forall>a\<in>set ars'. unat (area_va (mem t) a) \<le> segment_top (mem s) h * 4096"
        "\<forall>va. unat (va_vpn va) < unat (p_vaddr (mem s) h) div 4096 \<or> segment_top (mem s) h \<le> unat (va_vpn va) \<longrightarrow>
          lookup (mem t) root va = lookup (mem s) root va"
        "\<forall>k. covered k F' \<longrightarrow> covered (k + (4 * segment_pages (p_vaddr (mem s) h) (p_memsz (mem s) h) + 2)) F"
      have inv1: "image_inv root ?l Z F' P' xs' ars' t" and "agree (- image_cells ?l F P xs) (mem s) (mem t)"
        using t(2) by (simp_all add: image_step_def)
      then have agZ: "agree Z (mem s) (mem t)" using ZW by (auto elim: agree_mono)
      have hdr: "e_phnum (mem t) program = e_phnum (mem s) program" "phdr_addr (mem t) program = phdr_addr (mem s) program"
        using elf_header_agree [OF agree_mono [OF agZ Cons.prems(2)]] by simp_all
      have hs1: "hs = map (phdr_addr (mem t) program) [Suc i..<unat (e_phnum (mem t) program)]" using hs hdr by simp
      note IH = Cons.IH [OF inv1 Cons.prems(2) hs1 program_agree(1) [OF agZ rest] t(4) top, of ex]
      have same: "map (segment_need (mem t)) hs = map (segment_need (mem s)) hs"
        "fold (stack_exec (mem t)) hs ex = fold (stack_exec (mem s)) hs ex" "\<forall>g\<in>set hs. p_type (mem t) g = p_type (mem s) g"
        using program_agree(2) [OF agZ rest] by (simp_all cong: map_cong fold_cong)
      from IH show ?thesis
      proof (elim disjE exE conjE)
        assume "covered (sum_list (map (segment_need (mem t)) hs)) F'"
          "load_phdrs task root program (Suc i) ex t = Some (Inl ''out of memory'')"
        then show ?thesis using t(1,6) need unfolding run same by (auto simp: kbind_Inr add.commute)
      next
        fix u G Q ys bs
        assume u: "load_phdrs task root program (Suc i) ex t = Some (Inr (Inr (fold (stack_exec (mem t)) hs ex), u))"
          "image_step root ?l Z F' P' xs' t G Q ys bs u"
          "\<forall>g\<in>set hs. p_type (mem t) g = PT_LOAD \<longrightarrow> segment_seen (mem t) program root g (mem u)"
          "\<forall>a\<in>set bs. unat (area_va (mem u) a) \<le> unat (USERSTACK - PAGE_SIZE)"
          "\<forall>va. unat (va_vpn va) < segment_top (mem s) h \<or> unat (USERSTACK - PAGE_SIZE) div 4096 \<le> unat (va_vpn va) \<longrightarrow>
            lookup (mem u) root va = lookup (mem t) root va"
          "\<forall>k. covered k G \<longrightarrow> covered (k + sum_list (map (segment_need (mem t)) hs)) F'"
        have done1: "load_phdrs task root program i ex s = Some (Inr (Inr (fold (stack_exec (mem s)) (h # hs) ex), u))"
          using u(1) t(1) ex same(2) unfolding run by (simp add: kbind_Inr)
        have "segment_seen (mem s) program root h (mem u)"
          by (rule segment_seen_step [OF inv1 u(2) ld t(3)]) (use u(5) in blast)
        moreover have "segment_seen (mem s) program root g (mem u)" if "g \<in> set hs" "p_type (mem s) g = PT_LOAD" for g
          using program_loadable [OF rest that] segment_seen_agree [OF agZ] u(3) same(3) that by metis
        ultimately have seen: "\<forall>g\<in>set (h # hs). p_type (mem s) g = PT_LOAD \<longrightarrow> segment_seen (mem s) program root g (mem u)"
          by auto
        have le: "lo \<le> segment_top (mem s) h" "segment_top (mem s) h \<le> unat (USERSTACK - PAGE_SIZE) div 4096"
          "lo \<le> unat (p_vaddr (mem s) h) div 4096"
        proof -
          show lo: "lo \<le> unat (p_vaddr (mem s) h) div 4096" using ld by (simp add: loadable_def)
          have "unat (p_vaddr (mem s) h) div 4096 \<le> segment_top (mem s) h" unfolding segment_top_def by (rule div_le_mono) simp
          with lo show "lo \<le> segment_top (mem s) h" by simp
          show "segment_top (mem s) h \<le> unat (USERSTACK - PAGE_SIZE) div 4096" using top by simp
        qed
        have looks: "\<forall>va. unat (va_vpn va) < lo \<or> unat (USERSTACK - PAGE_SIZE) div 4096 \<le> unat (va_vpn va) \<longrightarrow>
            lookup (mem u) root va = lookup (mem s) root va"
          using u(5) t(5) le by (metis less_le_trans order_trans)
        have cov: "\<forall>k. covered k G \<longrightarrow> covered (k + sum_list (map (segment_need (mem s)) (h # hs))) F"
        proof (intro allI impI)
          fix k assume "covered k G"
          then have "covered (k + sum_list (map (segment_need (mem s)) hs) + segment_need (mem s) h) F"
            using u(6) t(6) same(1) need by simp
          then show "covered (k + sum_list (map (segment_need (mem s)) (h # hs))) F" by (simp add: ac_simps)
        qed
        show ?thesis
          by (intro disjI2 exI conjI) (fact done1 image_step_trans [OF t(2) u(2)] seen u(4) looks cov)+
      qed
    qed
  qed
qed

subsection \<open>A new process\<close>

text \<open>A process with a new address space, whose table is noted in its task, for the properties' examples.\<close>

lemma fresh_process:
  assumes m0: "agree initial_free (\<lambda>_. 0) m0" and task: "span (task + 48) 8 \<inter> initial_free = {}"
  obtains root and s :: cpu_state where "area 0 root \<subseteq> initial_free" and "pt_inv root (initial_free - area 0 root) {root} s"
    and "agree (- (initial_free \<union> span (task + 48) 8)) m0 (mem s)" and "\<forall>va. lookup (mem s) root va = kernel_lookup va"
    and "t_page_table (mem s) task = root" and "stval s = v"
proof -
  let ?s = "(process_state (\<lambda>_. 0))\<lparr>mem := m0, stval := v\<rparr>"
  have al: "allocator initial_free ?s" and early: "\<not> early ?s"
    by (rule allocator_frame [OF process_state_allocator [of "\<lambda>_. 0"]])
      (use m0 in \<open>simp_all add: process_state_def page_bytes_def agree_def\<close>)
  have "KERN_PHYBASE + 0x100000 \<in> initial_free" by (simp add: initial_free_def)
  then have ne: "initial_free \<noteq> {}" by blast
  have e: "mem ?s = m0" by simp
  from create_page_table_ok [OF al early, unfolded e] ne obtain root and t :: cpu_state where t: "area 0 root \<subseteq> initial_free"
    "pt_inv root (initial_free - area 0 root) {root} t" "agree (- initial_free) m0 (mem t)"
    "\<forall>va. lookup (mem t) root va = kernel_lookup va" "same_rest ?s t"
    by (elim disjE exE conjE, simp, blast)
  have "stval t = v" using t(5) unfolding same_rest_def by (metis cpu_state.select_convs(6) cpu_state.update_convs(6) mm_state.update_convs(1,3) cpu_state.surjective)
  let ?m = "set_t_page_table task root (mem t)" and ?F = "initial_free - area 0 root"
  have m: "agree (- span (task + 48) 8) (mem t) ?m" unfolding set_t_page_table_def by (intro agree_sym [OF agree_store64]) blast
  then have keep: "agree initial_free (mem t) ?m" by (rule agree_mono) (use task in blast)
  have al': "allocator ?F (t\<lparr>mem := ?m\<rparr>)"
    by (rule allocator_frame [OF pt_invD(1) [OF t(2)]]) (use agree_mono [OF keep] in auto)
  have "agree (pages {root}) (mem t) ?m" by (rule agree_mono [OF keep]) (use t(1) in simp)
  note pt = pt_inv_frame [OF t(2) al' order_refl, simplified, OF this [simplified]]
  have "agree (- (initial_free \<union> span (task + 48) 8)) m0 ?m"
    by (rule agree_trans [OF agree_mono [OF t(3)] agree_mono [OF m]]) blast+
  then show thesis using that [of root "t\<lparr>mem := ?m\<rparr>"] t(1,4) pt \<open>stval t = v\<close>
    by (simp add: t_page_table_def set_t_page_table_def)
qed

end
