(* ===== verification/Panic.thy ===== *)
theory Panic
  imports Uart Vm
begin

section \<open>Panics and the console (panic.c, printf.h, riscv.c)\<close>

text \<open>
  Output of the kernel to the serial port, byte by byte, and what a panic does up to its
  endless loop. A function that prints ends in \<open>Switch\<close> when \<open>uartputc\<close> puts the thread to
  sleep. The parameter \<open>str\<close> gives the string at an address, as in \<^verbatim>\<open>Printf\<close>. A panic inside
  another call is its left result, see \<^verbatim>\<open>Prelude\<close>: the caller does not go on.
\<close>

subsection \<open>Printing\<close>

definition pthen :: "('s, unit progress) kern \<Rightarrow> ('s, 'a progress) kern \<Rightarrow> ('s, 'a progress) kern" where
  "pthen m n = kbind m (\<lambda>r. case r of Switch d \<Rightarrow> kreturn (Switch d) | Done _ \<Rightarrow> n)"

primrec console_put :: "symbols \<Rightarrow> u8 list \<Rightarrow> ('a uart_state_scheme, unit progress) kern" where
  "console_put G [] = kreturn (Done ())"
| "console_put G (c # cs) = pthen (uartputc G (ucast c)) (console_put G cs)"

definition console_vprintk ::
  "symbols \<Rightarrow> (u64 \<Rightarrow> u8 list) \<Rightarrow> u8 list \<Rightarrow> u64 list \<Rightarrow> ('a uart_state_scheme, unit progress) kern" where
  "console_vprintk G str fmt args = kbind (kwalk (\<lambda>_. vprintk str args fmt)) (console_put G)"

definition console_printk ::
  "symbols \<Rightarrow> (u64 \<Rightarrow> u8 list) \<Rightarrow> u8 list \<Rightarrow> u64 list \<Rightarrow> ('a uart_state_scheme, unit progress) kern" where
  "console_printk G str fmt args = console_vprintk G str fmt args"

subsection \<open>Panics\<close>

text \<open>\<open>_panic\<close> up to \<open>while (true)\<close>; \<open>panic\<close> is the macro, with the file, line and function in front.\<close>

definition panic_stop ::
  "symbols \<Rightarrow> (u64 \<Rightarrow> u8 list) \<Rightarrow> u8 list \<Rightarrow> u64 list \<Rightarrow> ('a uart_state_scheme, unit progress) kern" where
  "panic_stop G str fmt args =
     kthen (kmodify (\<lambda>s. s\<lparr>kernel_initialized := False\<rparr>))
    (pthen (console_printk G str (c_string ''kernel panic - '') [])
    (pthen (console_vprintk G str fmt args)
    (pthen (console_printk G str (c_string [CHR 0x0A]) [])
    (kthen (kmodify (\<lambda>s. s\<lparr>panicked := True\<rparr>)) (kreturn (Done ()))))))"

definition panic ::
  "symbols \<Rightarrow> (u64 \<Rightarrow> u8 list) \<Rightarrow> u64 \<Rightarrow> u64 \<Rightarrow> u64 \<Rightarrow> u64 list \<Rightarrow> ('a uart_state_scheme, unit progress) kern" where
  "panic G str file_name line func args =
     panic_stop G str (c_string ''%s:%d: %s: %s'') (file_name # line # func # args)"

definition kernel_assert ::
  "symbols \<Rightarrow> (u64 \<Rightarrow> u8 list) \<Rightarrow> bool \<Rightarrow> u64 \<Rightarrow> ('a uart_state_scheme, unit progress) kern" where
  "kernel_assert G str cond message =
     (if \<not> cond then panic_stop G str (c_string ''assertion failed: %s'') [message] else kreturn (Done ()))"

subsection \<open>Dumping control and status registers\<close>

text \<open>\<open>csr\<close> gives the value that \<open>csrr\<close> reads from the named register.\<close>

definition dump_csr :: "(string \<Rightarrow> u64) \<Rightarrow> string \<Rightarrow> u8 list option" where
  "dump_csr csr x = printk (\<lambda>_. []) (c_string (''%p '' @ x @ [CHR 0x0A])) [csr x]"

definition dump_csrs :: "(string \<Rightarrow> u64) \<Rightarrow> string list \<Rightarrow> u8 list option" where
  "dump_csrs csr names = map_option concat (those (map (dump_csr csr) names))"

definition dump_csr_s :: "(string \<Rightarrow> u64) \<Rightarrow> u8 list option" where
  "dump_csr_s csr = dump_csrs csr
     [''sstatus'', ''sie'', ''stvec'', ''scounteren'', ''senvcfg'', ''sscratch'', ''sepc'', ''scause'', ''stval'',
      ''sip'', ''satp'']"

definition dump_csr_m :: "(string \<Rightarrow> u64) \<Rightarrow> u8 list option" where
  "dump_csr_m csr = dump_csrs csr
     [''mvendorid'', ''marchid'', ''mimpid'', ''mhartid'', ''mconfigptr'', ''mstatus'', ''misa'', ''medeleg'',
      ''mideleg'', ''mie'', ''mtvec'', ''mcounteren'', ''mscratch'', ''mepc'', ''mcause'', ''mtval'', ''mip'', ''mtinst'']"

definition dump_csr_all :: "(string \<Rightarrow> u64) \<Rightarrow> u8 list option" where
  "dump_csr_all csr =
     Option.bind (dump_csr_m csr) (\<lambda>m. Option.bind (dump_csr_s csr) (\<lambda>t. Some (m @ t)))"

end
