(* ===== verification/Syscall.thy ===== *)
theory Syscall
  imports Irq Elf Panic
begin

section \<open>System calls and the life of a task (syscall.c, sched.c)\<close>

text \<open>
  The dispatcher of the system calls and \<open>task_entry\<close>, the kernel thread of every task. A
  system call ends in \<open>Done\<close> with its return value, or in \<open>Switch\<close> when another thread runs
  next.
\<close>

definition SYS_getchar :: u64 where "SYS_getchar = 0"
definition SYS_putchar :: u64 where "SYS_putchar = 1"
definition SYS_getpid :: u64 where "SYS_getpid = 2"
definition SYS_yield :: u64 where "SYS_yield = 3"
definition SYS_fork :: u64 where "SYS_fork = 4"
definition SYS_exit :: u64 where "SYS_exit = 5"
definition SYS_execve :: u64 where "SYS_execve = 6"

text \<open>\<open>putchar\<close> of printf.h narrows its argument to \<open>u8\<close> before \<open>uartputc\<close> widens it to \<open>int\<close>.\<close>

definition sys_putchar :: "symbols \<Rightarrow> u64 \<Rightarrow> ('a uart_state_scheme, u64 progress) kern" where
  "sys_putchar G c =
     kbind (uartputc G (ucast (ucast c :: u8))) (\<lambda>r.
       kreturn (case r of Done _ \<Rightarrow> Done 0 | Switch d \<Rightarrow> Switch d))"

definition sys_yield :: "symbols \<Rightarrow> ('a sched_state_scheme, u64 progress) kern" where
  "sys_yield G =
     kbind (kgets current_task) (\<lambda>cur.
     kthen (write_mem (set_t_mode cur MODE_SUPERVISOR))
    (kthen (ksetjmp G (t_kernel_frame cur))
    (kbind (schedule_next G) (\<lambda>d. kreturn (Switch d)))))"

definition sys_fork :: "symbols \<Rightarrow> ('a sched_state_scheme, u64 progress) kern" where
  "sys_fork G =
     kbind (kgets current_task) (\<lambda>cur.
     kbind (task_clone G cur) (\<lambda>r.
       case r of
         Switch d \<Rightarrow> kreturn (Switch d)
       | Done task \<Rightarrow>
           if IS_ERR task then kreturn (Done (PTR_ERR task))
           else
             kthen (write_mem (set_cpu_register (t_user_frame task) REG_A0 0))
               (kgets (\<lambda>s. Done (t_pid (mem s) task)))))"

definition sys_exit :: "symbols \<Rightarrow> ('a sched_state_scheme, u64 progress) kern" where
  "sys_exit G =
     kbind (kgets current_task) (\<lambda>cur.
     kbind (task_destroy G cur) (\<lambda>r.
       case r of
         Switch d \<Rightarrow> kreturn (Switch d)
       | Done _ \<Rightarrow> kbind (schedule G) (\<lambda>d. kreturn (Switch d))))"

text \<open>
  \<open>execve\<close>: the program is at a fixed address. The second test looks at \<open>argv\<close> again, not at
  \<open>envp\<close>; the label \<open>err_execve_task\<close> frees both vectors and destroys the task.
\<close>

definition exec_failed :: "symbols \<Rightarrow> u64 \<Rightarrow> u64 \<Rightarrow> ('a sched_state_scheme, u64 progress) kern" where
  "exec_failed G argv envp =
     kthen (kfree argv)
    (kthen (kfree envp)
    (kbind (kgets current_task) (\<lambda>cur.
     kbind (task_destroy G cur) (\<lambda>r.
       case r of Switch d \<Rightarrow> kreturn (Switch d) | Done _ \<Rightarrow> kpanic ''unreachable''))))"

definition sys_execve :: "symbols \<Rightarrow> u64 \<Rightarrow> u64 \<Rightarrow> u64 \<Rightarrow> ('a sched_state_scheme, u64 progress) kern" where
  "sys_execve G task a1 a2 =
     (let program = VA_of 0x800f0000 in
      kbind (user_copy_args G a1) (\<lambda>argv.
        if IS_ERR argv then kreturn (Done (PTR_ERR argv))
        else
          kbind (user_copy_args G a2) (\<lambda>envp.
            if IS_ERR argv then kthen (kfree argv) (kreturn (Done (PTR_ERR argv)))
            else
              kbind (kgets current_task) (\<lambda>cur.
              kbind (task_reinit G cur) (\<lambda>retval.
                if retval \<noteq> 0 then exec_failed G argv envp
                else
                  kbind (task_init_elf task program argv envp) (\<lambda>retval.
                    if retval \<noteq> 0 then exec_failed G argv envp
                    else
                      kbind (kgets current_task) (\<lambda>cur.
                      kbind (klongjmp (t_kernel_frame cur)) (\<lambda>d. kreturn (Switch d)))))))))"

definition syscall :: "symbols \<Rightarrow> u64 \<Rightarrow> ('a uart_state_scheme, u64 progress) kern" where
  "syscall G task =
     kbind (kgets (\<lambda>s. let r = cpu_register (mem s) (t_user_frame task)
         in (r REG_A7, r REG_A0, r REG_A1, r REG_A2))) (\<lambda>(sys, a0, a1, a2).
       if sys = SYS_getchar then
         kbind (getchar G) (\<lambda>r. kreturn (case r of Done c \<Rightarrow> Done (ucast c) | Switch d \<Rightarrow> Switch d))
       else if sys = SYS_putchar then sys_putchar G a0
       else if sys = SYS_getpid then kgets (\<lambda>s. Done (t_pid (mem s) task))
       else if sys = SYS_yield then sys_yield G
       else if sys = SYS_fork then sys_fork G
       else if sys = SYS_exit then sys_exit G
       else if sys = SYS_execve then sys_execve G task a1 a2
       else if sys = 114514 then
         kbind (kgets current_task) (\<lambda>cur.
         kbind (kwalk (\<lambda>s. vm_dump (mem s) (t_vm_areas cur))) (\<lambda>out.
           pthen (console_put G out) (kreturn (Done 0))))
       else kreturn (Done (of_int (- ENOSYS))))"

subsection \<open>task_entry\<close>

text \<open>
  One round of the loop of \<open>task_entry\<close>: what a task's kernel thread does from the return of
  \<open>yield_to_user\<close> to the next one, or to the end of the task. A system call that sleeps goes
  on with \<open>after_syscall\<close> when it is done, and a task that sleeps while it prints goes on printing.
\<close>

definition after_syscall :: "symbols \<Rightarrow> u64 \<Rightarrow> u64 \<Rightarrow> ('a sched_state_scheme, dispatch) kern" where
  "after_syscall G task v =
     kthen (write_mem (set_cpu_register (t_user_frame task) REG_A0 v)) (yield_to_user G task)"

text \<open>
  What \<open>csrr\<close> reads while the task's thread runs: \<open>sscratch\<close> still holds the user's \<open>t0\<close>, which \<open>trap_vector\<close> saved in it
  and then in the frame.
\<close>

definition csr_value :: "symbols \<Rightarrow> u64 \<Rightarrow> 'a irq_state_scheme \<Rightarrow> string \<Rightarrow> u64" where
  "csr_value G task s name =
     (if name = ''sstatus'' then sstatus s else if name = ''sie'' then sie s
      else if name = ''stvec'' then stvec s
      else if name = ''sscratch'' then cpu_register (mem s) (t_user_frame task) 5
      else if name = ''sepc'' then sepc s else if name = ''scause'' then scause s
      else if name = ''stval'' then stval s else if name = ''sip'' then sip s
      else if name = ''satp'' then satp s else sym_other_csr G name)"

text \<open>A task that faults prints its number and the registers, and is destroyed.\<close>

definition task_fault :: "symbols \<Rightarrow> u64 \<Rightarrow> ('a irq_state_scheme, dispatch option) kern" where
  "task_fault G task =
     kbind (kgets (\<lambda>s. t_pid (mem s) task)) (\<lambda>pid.
     kbind (pthen (console_printk G (\<lambda>_. []) (c_string (''pid %d fault!'' @ [CHR 0x0A])) [pid])
           (kbind (kwalk (\<lambda>s. dump_csr_s (csr_value G task s))) (\<lambda>out.
            pthen (console_put G out) (task_destroy G task)))) (\<lambda>r.
       case r of Switch d \<Rightarrow> kreturn (Some d) | Done _ \<Rightarrow> kreturn None))"

definition task_entry_round :: "symbols \<Rightarrow> u64 \<Rightarrow> ('a irq_state_scheme, dispatch option) kern" where
  "task_entry_round G task =
     kbind read_scause (\<lambda>c.
       if cause_code c = 8 then
         kthen (write_mem (\<lambda>m. set_cpu_pc (t_user_frame task) (cpu_pc m (t_user_frame task) + 4) m))
        (kbind (syscall G task) (\<lambda>r.
           case r of
             Switch d \<Rightarrow> kreturn (Some d)
           | Done v \<Rightarrow> kbind (after_syscall G task v) (\<lambda>d. kreturn (Some d))))
       else if cause_code c = 13 \<or> cause_code c = 15 then
         kbind (stack_fault task) (\<lambda>grown.
           if grown then kbind (yield_to_user G task) (\<lambda>d. kreturn (Some d)) else task_fault G task)
       else task_fault G task)"

text \<open>\<open>None\<close> is the return of \<open>task_entry\<close>, which happens only when \<open>task\<close> does not run.\<close>

end
