(* ===== verification/User_Lib.thy ===== *)
theory User_Lib
  imports Printf Syscall
begin

section \<open>The user library (user/stdio.h, user/syscall.h)\<close>

text \<open>
  The functions that user programs are linked with. A user program reaches the kernel by one
  instruction only, \<open>ecall\<close>; it is the parameter of the definitions: what it does to the
  state \<open>'s\<close> of the machine, given the registers that the inline assembly pins, and the value
  of \<open>a0\<close> when the program goes on, or \<open>None\<close> if it does not. The locale \<open>console\<close> states what
  the library relies on; \<^verbatim>\<open>User_Correct\<close> interprets it on the model of the kernel.
\<close>

subsection \<open>Computations of a user program\<close>

type_synonym ('s, 'a) user = "'s \<Rightarrow> ('a \<times> 's) option"
type_synonym 's ecall = "(nat \<rightharpoonup> u64) \<Rightarrow> ('s, u64) user"

definition ureturn :: "'a \<Rightarrow> ('s, 'a) user" where
  "ureturn x s = Some (x, s)"

definition ubind :: "('s, 'a) user \<Rightarrow> ('a \<Rightarrow> ('s, 'b) user) \<Rightarrow> ('s, 'b) user" where
  "ubind m f s = Option.bind (m s) (\<lambda>r. f (fst r) (snd r))"

definition uthen :: "('s, 'a) user \<Rightarrow> ('s, 'b) user \<Rightarrow> ('s, 'b) user" where
  "uthen m n = ubind m (\<lambda>_. n)"

lemma ureturn_apply [simp]: "ureturn x s = Some (x, s)"
  by (simp add: ureturn_def)

lemma ubind_Some: "m s = Some (x, t) \<Longrightarrow> ubind m f s = f x t"
  by (simp add: ubind_def)

lemma uthen_Some: "m s = Some (x, t) \<Longrightarrow> uthen m n s = n t"
  by (simp add: uthen_def ubind_Some)

lemma ubind_mono [partial_function_mono]:
  assumes "\<And>s. mono_option (\<lambda>g. B g s)" and "\<And>x s. mono_option (\<lambda>g. C x g s)"
  shows "mono_option (\<lambda>g. ubind (B g) (\<lambda>x. C x g) s)"
  unfolding ubind_def by (intro bind_mono assms)

subsection \<open>System call stubs\<close>

definition internal_syscall0 :: "'s ecall \<Rightarrow> u64 \<Rightarrow> ('s, u64) user" where
  "internal_syscall0 ecall nr = ecall [REG_A7 \<mapsto> nr]"

definition internal_syscall1 :: "'s ecall \<Rightarrow> u64 \<Rightarrow> u64 \<Rightarrow> ('s, u64) user" where
  "internal_syscall1 ecall nr arg0 = ecall [REG_A7 \<mapsto> nr, REG_A0 \<mapsto> arg0]"

definition internal_syscall2 :: "'s ecall \<Rightarrow> u64 \<Rightarrow> u64 \<Rightarrow> u64 \<Rightarrow> ('s, u64) user" where
  "internal_syscall2 ecall nr arg0 arg1 = ecall [REG_A7 \<mapsto> nr, REG_A0 \<mapsto> arg0, REG_A1 \<mapsto> arg1]"

definition internal_syscall3 :: "'s ecall \<Rightarrow> u64 \<Rightarrow> u64 \<Rightarrow> u64 \<Rightarrow> u64 \<Rightarrow> ('s, u64) user" where
  "internal_syscall3 ecall nr arg0 arg1 arg2 =
     ecall [REG_A7 \<mapsto> nr, REG_A0 \<mapsto> arg0, REG_A1 \<mapsto> arg1, REG_A2 \<mapsto> arg2]"

definition internal_syscall4 :: "'s ecall \<Rightarrow> u64 \<Rightarrow> u64 \<Rightarrow> u64 \<Rightarrow> u64 \<Rightarrow> u64 \<Rightarrow> ('s, u64) user" where
  "internal_syscall4 ecall nr arg0 arg1 arg2 arg3 =
     ecall [REG_A7 \<mapsto> nr, REG_A0 \<mapsto> arg0, REG_A1 \<mapsto> arg1, REG_A2 \<mapsto> arg2, REG_A3 \<mapsto> arg3]"

definition internal_syscall5 ::
  "'s ecall \<Rightarrow> u64 \<Rightarrow> u64 \<Rightarrow> u64 \<Rightarrow> u64 \<Rightarrow> u64 \<Rightarrow> u64 \<Rightarrow> ('s, u64) user" where
  "internal_syscall5 ecall nr arg0 arg1 arg2 arg3 arg4 =
     ecall [REG_A7 \<mapsto> nr, REG_A0 \<mapsto> arg0, REG_A1 \<mapsto> arg1, REG_A2 \<mapsto> arg2, REG_A3 \<mapsto> arg3, REG_A4 \<mapsto> arg4]"

definition internal_syscall6 ::
  "'s ecall \<Rightarrow> u64 \<Rightarrow> u64 \<Rightarrow> u64 \<Rightarrow> u64 \<Rightarrow> u64 \<Rightarrow> u64 \<Rightarrow> u64 \<Rightarrow> ('s, u64) user" where
  "internal_syscall6 ecall nr arg0 arg1 arg2 arg3 arg4 arg5 =
     ecall [REG_A7 \<mapsto> nr, REG_A0 \<mapsto> arg0, REG_A1 \<mapsto> arg1, REG_A2 \<mapsto> arg2, REG_A3 \<mapsto> arg3, REG_A4 \<mapsto> arg4,
       REG_A5 \<mapsto> arg5]"

definition internal_syscall7 ::
  "'s ecall \<Rightarrow> u64 \<Rightarrow> u64 \<Rightarrow> u64 \<Rightarrow> u64 \<Rightarrow> u64 \<Rightarrow> u64 \<Rightarrow> u64 \<Rightarrow> u64 \<Rightarrow> ('s, u64) user" where
  "internal_syscall7 ecall nr arg0 arg1 arg2 arg3 arg4 arg5 arg6 =
     ecall [REG_A7 \<mapsto> nr, REG_A0 \<mapsto> arg0, REG_A1 \<mapsto> arg1, REG_A2 \<mapsto> arg2, REG_A3 \<mapsto> arg3, REG_A4 \<mapsto> arg4,
       REG_A5 \<mapsto> arg5, REG_A6 \<mapsto> arg6]"

lemmas internal_syscall_defs = internal_syscall0_def internal_syscall1_def internal_syscall2_def
  internal_syscall3_def internal_syscall4_def internal_syscall5_def internal_syscall6_def internal_syscall7_def

subsection \<open>stdio.h\<close>

text \<open>\<open>char\<close> is unsigned on this target, so the conversion to \<open>long\<close> extends with zeros.\<close>

definition user_putchar :: "'s ecall \<Rightarrow> u8 \<Rightarrow> ('s, unit) user" where
  "user_putchar ecall c = uthen (internal_syscall1 ecall 1 (ucast c)) (ureturn ())"

definition user_getchar :: "'s ecall \<Rightarrow> ('s, u8) user" where
  "user_getchar ecall = ubind (internal_syscall0 ecall 0) (\<lambda>r. ureturn (ucast r))"

definition user_isdigit :: "u8 \<Rightarrow> bool" where
  "user_isdigit c \<longleftrightarrow> 48 \<le> c \<and> c \<le> 57"

definition user_BUFLEN :: nat where "user_BUFLEN = 64"

text \<open>The \<open>do\<close> loop of \<open>print_uint\<close>, on the buffer and its index.\<close>

function uint_digits :: "u64 \<Rightarrow> u8 list \<Rightarrow> nat \<Rightarrow> u8 list \<times> nat" where
  "uint_digits x buf pos =
     (let buf = buf[pos := ucast (x mod 10) + 48];
          pos = pos + 1;
          x = x div 10
      in if x \<noteq> 0 then uint_digits x buf pos else (buf, pos))"
  by pat_completeness auto
termination
proof (relation "measure (\<lambda>(x, buf, pos). unat x)")
  fix x y :: u64 and buf buf' :: "u8 list" and pos pos' :: nat
  assume "y = x div 10" "y \<noteq> 0"
  then have "unat y = unat x div 10" by (simp add: unat_div)
  moreover have "unat y \<noteq> 0" using \<open>y \<noteq> 0\<close> by (simp add: unat_eq_zero)
  ultimately show "((y, buf', pos'), x, buf, pos) \<in> measure (\<lambda>(x, buf, pos). unat x)" by simp
qed simp

declare uint_digits.simps [simp del]

text \<open>\<open>while (top >= 0) putchar(buf[top--])\<close>: the first character is the zero behind the digits.\<close>

primrec put_down :: "'s ecall \<Rightarrow> u8 list \<Rightarrow> nat \<Rightarrow> ('s, unit) user" where
  "put_down ecall buf 0 = user_putchar ecall (buf ! 0)"
| "put_down ecall buf (Suc pos) = uthen (user_putchar ecall (buf ! Suc pos)) (put_down ecall buf pos)"

definition user_print_uint :: "'s ecall \<Rightarrow> u64 \<Rightarrow> bool \<Rightarrow> ('s, unit) user" where
  "user_print_uint ecall x neg =
     (let (buf, pos) = uint_digits x (replicate user_BUFLEN 0) 0
      in uthen (if neg then user_putchar ecall 45 else ureturn ()) (put_down ecall buf pos))"

text \<open>\<open>int\<close> is a 32-bit word; \<open>-(long long) value\<close> and the conversion extend its sign.\<close>

definition putint :: "'s ecall \<Rightarrow> u32 \<Rightarrow> ('s, unit) user" where
  "putint ecall v =
     (if v <s 0 then user_print_uint ecall (- scast v) True else user_print_uint ecall (scast v) False)"

text \<open>
  \<open>getint\<close>: the loop up to the first digit, which leaves the digit and the sign, and the loop
  over the digits. The sums wrap around, as in the code that is compiled without optimisation.
\<close>

partial_function (option) getint_sign :: "'s ecall \<Rightarrow> u32 \<Rightarrow> 's \<Rightarrow> ((u8 \<times> u32) \<times> 's) option" where
  "getint_sign ecall sign s =
     ubind (user_getchar ecall) (\<lambda>c t.
       if \<not> user_isdigit c then getint_sign ecall (if c = 45 then - 1 else sign) t else Some ((c, sign), t)) s"

partial_function (option) getint_digits :: "'s ecall \<Rightarrow> u32 \<Rightarrow> u8 \<Rightarrow> 's \<Rightarrow> (u32 \<times> 's) option" where
  "getint_digits ecall i c s =
     (let i = i * 10 + ucast c - 48
      in ubind (user_getchar ecall) (\<lambda>c t.
           if user_isdigit c then getint_digits ecall i c t else Some (i, t)) s)"

definition getint :: "'s ecall \<Rightarrow> ('s, u32) user" where
  "getint ecall =
     ubind (getint_sign ecall 1) (\<lambda>(c, sign).
     ubind (getint_digits ecall 0 c) (\<lambda>i. ureturn (i * sign)))"

text \<open>A string is the list of its bytes with the terminating NUL.\<close>

fun putstr :: "'s ecall \<Rightarrow> u8 list \<Rightarrow> ('s, unit) user" where
  "putstr ecall [] = (\<lambda>s. None)"
| "putstr ecall (c # cs) = (if c \<noteq> 0 then uthen (user_putchar ecall c) (putstr ecall cs) else ureturn ())"

definition user_yield :: "'s ecall \<Rightarrow> ('s, unit) user" where
  "user_yield ecall = uthen (internal_syscall0 ecall 3) (ureturn ())"

text \<open>\<open>main\<close> of \<^verbatim>\<open>user/hello.c\<close>.\<close>

definition hello_main :: "'s ecall \<Rightarrow> ('s, u32) user" where
  "hello_main ecall =
     uthen (user_putchar ecall 72)
    (uthen (user_putchar ecall 101)
    (uthen (user_putchar ecall 108)
    (uthen (user_putchar ecall 108)
    (uthen (user_putchar ecall 111) (ureturn 0)))))"

subsection \<open>What the library relies on\<close>

text \<open>
  \<open>con s inp out\<close>: in the state \<open>s\<close> the bytes \<open>inp\<close> can be read without waiting, and \<open>out\<close>
  has been sent.
\<close>

locale console =
  fixes ecall :: "'s ecall"
    and con :: "'s \<Rightarrow> u8 list \<Rightarrow> u8 list \<Rightarrow> bool"
  assumes put: "con s inp out \<Longrightarrow> regs REG_A7 = Some SYS_putchar \<Longrightarrow> regs REG_A0 = Some v \<Longrightarrow>
      \<exists>r t. ecall regs s = Some (r, t) \<and> con t inp (out @ [ucast v])"
    and get: "con s (c # inp) out \<Longrightarrow> regs REG_A7 = Some SYS_getchar \<Longrightarrow>
      \<exists>t. ecall regs s = Some (ucast c, t) \<and> con t inp out"
begin

lemma putchar_con: "con s inp out \<Longrightarrow> \<exists>t. user_putchar ecall c s = Some ((), t) \<and> con t inp (out @ [c])"
  using put [of s inp out "[REG_A7 \<mapsto> 1, REG_A0 \<mapsto> ucast c]" "ucast c"]
  by (auto simp: user_putchar_def internal_syscall1_def uthen_Some SYS_putchar_def REG_A7_def REG_A0_def)

lemma getchar_con: "con s (c # inp) out \<Longrightarrow> \<exists>t. user_getchar ecall s = Some (c, t) \<and> con t inp out"
  using get [of s c inp out "[REG_A7 \<mapsto> 0]"]
  by (auto simp: user_getchar_def internal_syscall0_def ubind_Some SYS_getchar_def)

text \<open>\<open>outputs m x cs\<close>: the computation sends \<open>cs\<close> and returns \<open>x\<close>.\<close>

definition outputs :: "('s, 'b) user \<Rightarrow> 'b \<Rightarrow> u8 list \<Rightarrow> bool" where
  "outputs m x cs \<longleftrightarrow> (\<forall>s inp out. con s inp out \<longrightarrow> (\<exists>t. m s = Some (x, t) \<and> con t inp (out @ cs)))"

lemma outputsD: "outputs m x cs \<Longrightarrow> con s inp out \<Longrightarrow> \<exists>t. m s = Some (x, t) \<and> con t inp (out @ cs)"
  by (simp add: outputs_def)

lemma outputs_return: "outputs (ureturn x) x []"
  by (simp add: outputs_def)

lemma outputs_putchar: "outputs (user_putchar ecall c) () [c]"
  using putchar_con by (simp add: outputs_def)

lemma outputs_then: "outputs m x cs \<Longrightarrow> outputs n y ds \<Longrightarrow> outputs (uthen m n) y (cs @ ds)"
  unfolding outputs_def by (metis append.assoc uthen_Some)

lemmas outputs_putchar_then = outputs_then [OF outputs_putchar]

lemma outputs_putstr: "0 \<notin> set cs \<Longrightarrow> outputs (putstr ecall (cs @ 0 # rest)) () cs"
proof (induction cs)
  case (Cons c cs)
  then have "outputs (uthen (user_putchar ecall c) (putstr ecall (cs @ 0 # rest))) () ([c] @ cs)"
    by (intro outputs_putchar_then) simp
  with Cons.prems show ?case by auto
qed (simp add: outputs_return)

lemma outputs_hello: "outputs (hello_main ecall) 0 [72, 101, 108, 108, 111]"
proof -
  have "outputs (hello_main ecall) 0 ([72] @ [101] @ [108] @ [108] @ [111] @ [])"
    unfolding hello_main_def by (intro outputs_putchar_then outputs_return)
  then show ?thesis by simp
qed

lemma outputs_put_down: "pos < length buf \<Longrightarrow> outputs (put_down ecall buf pos) () (rev (take (Suc pos) buf))"
proof (induction pos)
  case 0
  then have "take (Suc 0) buf = [buf ! 0]" by (cases buf) simp_all
  then show ?case by (simp add: outputs_putchar)
next
  case (Suc pos)
  then have "outputs (uthen (user_putchar ecall (buf ! Suc pos)) (put_down ecall buf pos)) ()
      ([buf ! Suc pos] @ rev (take (Suc pos) buf))"
    by (intro outputs_putchar_then) simp
  with Suc.prems show ?case by (simp add: take_Suc_conv_app_nth)
qed

end

subsection \<open>Numbers\<close>

text \<open>What \<open>print_uint\<close> and \<open>putint\<close> print.\<close>

definition uint_chars :: "u64 \<Rightarrow> u8 list" where
  "uint_chars x = 0 # rev (digits 10 x)"

definition int_chars :: "u32 \<Rightarrow> u8 list" where
  "int_chars v = (if v <s 0 then 45 # uint_chars (- scast v) else uint_chars (scast v))"

lemma tab_decimal: "i < 10 \<Longrightarrow> tab ! i = of_nat i + 48"
proof -
  assume "i < 10"
  then have "i \<in> set [0..<10]" by simp
  moreover have "\<forall>i\<in>set [0..<10]. tab ! i = of_nat i + 48" by (simp add: upt_rec tab_def)
  ultimately show ?thesis by blast
qed

lemma tab_digit_char: "tab ! unat (x mod 10 :: u64) = ucast (x mod 10) + 48"
proof -
  have "unat (x mod 10) < 10" by (simp add: unat_mod)
  then have "tab ! unat (x mod 10) = of_nat (unat (x mod 10)) + 48" by (rule tab_decimal)
  then show ?thesis by simp
qed

lemma uint_digits_eq:
  "pos + length (digits 10 x) \<le> length buf \<Longrightarrow>
     uint_digits x buf pos = (take pos buf @ digits 10 x @ drop (pos + length (digits 10 x)) buf, pos + length (digits 10 x))"
proof (induction x buf pos rule: uint_digits.induct)
  case (1 x buf pos)
  let ?c = "ucast (x mod 10) + 48 :: u8"
  have d: "digits 10 x = ?c # (if x div 10 \<noteq> 0 then digits 10 (x div 10) else [])"
    by (subst digits.simps) (simp add: tab_digit_char)
  with "1.prems" have p: "pos < length buf" by auto
  have t: "take (Suc pos) (buf[pos := ?c]) = take pos buf @ [?c]"
    using p by (simp add: take_Suc_conv_app_nth)
  show ?case
  proof (cases "x div 10 = 0")
    case True
    with d p t show ?thesis
      by (subst uint_digits.simps) (simp add: Let_def upd_conv_take_nth_drop)
  next
    case False
    then have "uint_digits (x div 10) (buf[pos := ?c]) (pos + 1) =
        (take (pos + 1) (buf[pos := ?c]) @ digits 10 (x div 10) @ drop (pos + 1 + length (digits 10 (x div 10))) (buf[pos := ?c]),
         pos + 1 + length (digits 10 (x div 10)))"
      using "1.prems" d by (intro "1.IH") simp_all
    with False d t show ?thesis by (subst uint_digits.simps) (simp add: Let_def)
  qed
qed

context console
begin

lemma outputs_print_uint: "outputs (user_print_uint ecall x neg) () ((if neg then [45] else []) @ uint_chars x)"
proof -
  let ?n = "length (digits 10 x)" and ?z = "replicate user_BUFLEN (0 :: u8)"
  let ?buf = "digits 10 x @ drop ?n ?z"
  have n: "?n < user_BUFLEN" using digits_fit [of 10 x] by (simp add: BUFLEN_def user_BUFLEN_def)
  then have u: "uint_digits x ?z 0 = (?buf, ?n)" using uint_digits_eq [of 0 x ?z] by simp
  have "take (Suc ?n) ?buf = digits 10 x @ [0]" using n by (cases "user_BUFLEN - ?n") simp_all
  moreover have "outputs (put_down ecall ?buf ?n) () (rev (take (Suc ?n) ?buf))"
    using n by (intro outputs_put_down) simp
  ultimately have "outputs (put_down ecall ?buf ?n) () (uint_chars x)" by (simp add: uint_chars_def)
  moreover have "outputs (if neg then user_putchar ecall 45 else ureturn ()) () (if neg then [45] else [])"
    by (simp add: outputs_putchar outputs_return)
  ultimately show ?thesis unfolding user_print_uint_def u by (simp add: outputs_then del: append.simps)
qed

lemma outputs_putint: "outputs (putint ecall v) () (int_chars v)"
  using outputs_print_uint [of "- scast v" True] outputs_print_uint [of "scast v" False]
  by (simp add: putint_def int_chars_def)

end

subsection \<open>Reading a number\<close>

lemma int_long_minus: "ucast (- x :: u64) = - (ucast x :: u32)"
  by (simp add: word_uint_eq_iff unsigned_ucast_eq uint_word_ariths take_bit_eq_mod mod_mod_cancel mod_minus_eq)

lemma digit_char:
  assumes "user_isdigit d" shows "ucast d - 48 = (of_nat (digit_value d) :: u32)"
proof -
  from assms have u: "48 \<le> unat d" "unat d \<le> 57" by (simp_all add: user_isdigit_def word_le_nat_alt)
  then have "(of_nat (unat d - 48) :: u32) = of_nat (unat d) - 48" by simp
  with u show ?thesis by (simp add: digit_value_def word_le_nat_alt)
qed

lemma fold_digits:
  "\<forall>d\<in>set ds. user_isdigit d \<Longrightarrow> foldl (\<lambda>i d. i * 10 + ucast d - 48) 0 ds = (of_nat (numeral_value 10 (rev ds)) :: u32)"
proof (induction ds rule: rev_induct)
  case (snoc d ds)
  then have "foldl (\<lambda>i d. i * 10 + ucast d - 48) 0 (ds @ [d]) = of_nat (numeral_value 10 (rev ds)) * 10 + (ucast d - 48 :: u32)"
    by simp
  also have "\<dots> = of_nat (numeral_value 10 (rev (ds @ [d])))" using digit_char [of d] snoc.prems by simp
  finally show ?case .
qed simp

lemma digits_isdigit: "\<forall>d\<in>set (digits 10 x). user_isdigit d"
proof -
  have "\<forall>d\<in>set (digits base x). user_isdigit d" if "base = 10" for base
    using that
  proof (induction base x rule: digits.induct)
    case (1 base x)
    have "unat (x mod 10) < 10" by (simp add: unat_mod)
    then have "unat (ucast (x mod 10) + 48 :: u8) = unat (x mod 10) + 48"
      by (simp add: unat_word_ariths unsigned_ucast_eq take_bit_nat_eq_self)
    with \<open>unat (x mod 10) < 10\<close> have "user_isdigit (ucast (x mod 10) + 48)"
      by (simp add: user_isdigit_def word_le_nat_alt)
    with 1 show ?case by (subst digits.simps) (auto simp: tab_digit_char)
  qed
  then show ?thesis by simp
qed

context console
begin

lemma getint_sign_con:
  "con s (pre @ d # inp) out \<Longrightarrow> \<forall>c\<in>set pre. \<not> user_isdigit c \<Longrightarrow> user_isdigit d \<Longrightarrow>
     \<exists>t. getint_sign ecall sign s = Some ((d, if 45 \<in> set pre then - 1 else sign), t) \<and> con t inp out"
proof (induction pre arbitrary: s sign)
  case Nil
  then obtain t where "user_getchar ecall s = Some (d, t)" "con t inp out" using getchar_con [of s d inp out] by auto
  with Nil.prems(3) show ?case by (subst getint_sign.simps) (simp add: ubind_Some)
next
  case (Cons c pre)
  then obtain t where t: "user_getchar ecall s = Some (c, t)" "con t (pre @ d # inp) out"
    using getchar_con [of s c "pre @ d # inp" out] by auto
  from Cons.prems have "getint_sign ecall sign s = getint_sign ecall (if c = 45 then - 1 else sign) t"
    by (subst getint_sign.simps) (simp add: ubind_Some [of "user_getchar ecall", OF t(1)])
  with Cons.IH [OF t(2), of "if c = 45 then - 1 else sign"] Cons.prems show ?case by auto
qed

lemma getint_digits_con:
  "con s (ds @ c # inp) out \<Longrightarrow> \<forall>d\<in>set ds. user_isdigit d \<Longrightarrow> \<not> user_isdigit c \<Longrightarrow>
     \<exists>t. getint_digits ecall i d s = Some (foldl (\<lambda>i d. i * 10 + ucast d - 48) i (d # ds), t) \<and> con t inp out"
proof (induction ds arbitrary: s i d)
  case Nil
  then obtain t where "user_getchar ecall s = Some (c, t)" "con t inp out" using getchar_con [of s c inp out] by auto
  with Nil.prems(3) show ?case by (subst getint_digits.simps) (simp add: ubind_Some Let_def)
next
  case (Cons e ds)
  then obtain t where t: "user_getchar ecall s = Some (e, t)" "con t (ds @ c # inp) out"
    using getchar_con [of s e "ds @ c # inp" out] by auto
  from Cons.prems have "getint_digits ecall i d s = getint_digits ecall (i * 10 + ucast d - 48) e t"
    by (subst getint_digits.simps) (simp add: ubind_Some [of "user_getchar ecall", OF t(1)] Let_def)
  with Cons.IH [OF t(2), of "i * 10 + ucast d - 48" e] Cons.prems show ?case by auto
qed

lemma getint_con:
  assumes "con s (pre @ ds @ c # inp) out" and "\<forall>c\<in>set pre. \<not> user_isdigit c" and "ds \<noteq> []"
    and "\<forall>d\<in>set ds. user_isdigit d" and "\<not> user_isdigit c"
  shows "\<exists>t. getint ecall s = Some (of_nat (numeral_value 10 (rev ds)) * (if 45 \<in> set pre then - 1 else 1), t) \<and> con t inp out"
proof -
  obtain d ds' where ds: "ds = d # ds'" using assms(3) by (cases ds) auto
  then have "con s (pre @ d # (ds' @ c # inp)) out" "user_isdigit d" using assms(1,4) by simp_all
  from getint_sign_con [OF this(1) assms(2) this(2), of 1] obtain t where
    t: "getint_sign ecall 1 s = Some ((d, if 45 \<in> set pre then - 1 else 1), t)" "con t (ds' @ c # inp) out" by blast
  from getint_digits_con [OF t(2) _ assms(5), of 0 d] ds assms(4) obtain u where
    "getint_digits ecall 0 d t = Some (foldl (\<lambda>i d. i * 10 + ucast d - 48) 0 ds, u)" "con u inp out" by auto
  with t(1) fold_digits [OF assms(4)] show ?thesis by (simp add: getint_def ubind_Some)
qed

lemma getint_int_chars:
  assumes "con s (pre @ int_chars v @ c # inp) out" and "\<forall>c\<in>set pre. \<not> user_isdigit c \<and> c \<noteq> 45" and "\<not> user_isdigit c"
  shows "\<exists>t. getint ecall s = Some (v, t) \<and> con t inp out"
proof -
  let ?x = "if v <s 0 then - scast v else scast v :: u64" and ?sg = "if v <s 0 then [45] else [] :: u8 list"
  have "con s ((pre @ ?sg @ [0]) @ rev (digits 10 ?x) @ c # inp) out"
    using assms(1) by (auto simp: int_chars_def uint_chars_def)
  moreover have "\<forall>c\<in>set (pre @ ?sg @ [0]). \<not> user_isdigit c" using assms(2) by (auto simp: user_isdigit_def)
  moreover have "rev (digits 10 ?x) \<noteq> []" by (subst digits.simps) simp
  moreover have "\<forall>d\<in>set (rev (digits 10 ?x)). user_isdigit d" using digits_isdigit by simp
  ultimately obtain t where t: "con t inp out" "getint ecall s =
      Some (of_nat (numeral_value 10 (rev (rev (digits 10 ?x)))) * (if 45 \<in> set (pre @ ?sg @ [0]) then - 1 else 1), t)"
    using getint_con assms(3) by blast
  have "numeral_value 10 (digits 10 ?x) = unat ?x" using digits_value [of 10 ?x] by (simp add: print_base_def)
  moreover have "45 \<in> set (pre @ ?sg @ [0]) \<longleftrightarrow> v <s 0" using assms(2) by auto
  moreover have "ucast (scast v :: u64) = v" by (rule bit_word_eqI) (simp add: bit_simps)
  moreover have "ucast (- scast v :: u64) = - (ucast (scast v :: u64) :: u32)" by (rule int_long_minus)
  ultimately have "of_nat (numeral_value 10 (rev (rev (digits 10 ?x)))) * (if 45 \<in> set (pre @ ?sg @ [0]) then - 1 else 1) = v"
    by simp
  with t show ?thesis by simp
qed

end

end
