(* ===== verification/Syscall_Correct.thy ===== *)
theory Syscall_Correct
  imports Irq_Correct Syscall
begin

section \<open>Correctness of system calls\<close>

text \<open>
  A system call from the trap in user mode on: the registers that the user sees when it
  returns, and what \<open>yield\<close> means for the other threads.
\<close>

subsection \<open>Registers of a frame\<close>

lemma load_le_same:
  "\<forall>i<n. m (a + of_nat i) = m' (b + of_nat i) \<Longrightarrow> load_le n m a = load_le n m' b"
proof (induction n arbitrary: a b)
  case (Suc n)
  have "\<forall>i<n. m (a + 1 + of_nat i) = m' (b + 1 + of_nat i)"
  proof (intro allI impI)
    fix i assume "i < n"
    then show "m (a + 1 + of_nat i) = m' (b + 1 + of_nat i)"
      using Suc.prems [rule_format, of "Suc i"] by (simp add: ac_simps)
  qed
  from Suc.IH [OF this] Suc.prems [rule_format, of 0] show ?case by simp
qed simp

lemma same_cpu_load:
  assumes "same_cpu m a m' b" and "k + 8 \<le> 264"
  shows "load64 m' (b + of_nat k) = load64 m (a + of_nat k)"
  unfolding load64_def
proof (rule load_le_same, intro allI impI)
  fix i :: nat assume "i < 8"
  then have "unat (of_nat (k + i) :: u64) < 264" using assms(2) by (simp add: unat_of_nat del: of_nat_add)
  from assms(1) this show "m' (b + of_nat k + of_nat i) = m (a + of_nat k + of_nat i)"
    by (simp add: same_cpu_def add.assoc)
qed

lemma same_cpu_registers:
  assumes "same_cpu m a m' b"
  shows "r < 32 \<Longrightarrow> cpu_register m' b r = cpu_register m a r" and "cpu_pc m' b = cpu_pc m a"
proof -
  assume "r < 32"
  then show "cpu_register m' b r = cpu_register m a r"
    using same_cpu_load [OF assms, of "8 * r"] by (simp add: cpu_register_def)
next
  show "cpu_pc m' b = cpu_pc m a" using same_cpu_load [OF assms, of 256] by (simp add: cpu_pc_def)
qed

lemma unat_register: "r < 32 \<Longrightarrow> unat (8 * of_nat r :: u64) = 8 * r"
  by (simp add: unat_word_ariths unat_of_nat)

lemma set_cpu_fields:
  assumes "r < 32"
  shows "q < 32 \<Longrightarrow> cpu_register (set_cpu_register c r v m) c q = (if q = r then v else cpu_register m c q)"
    and "cpu_pc (set_cpu_register c r v m) c = cpu_pc m c"
    and "cpu_register (set_cpu_pc c v m) c r = cpu_register m c r"
    and "cpu_pc (set_cpu_pc c v m) c = v"
proof -
  note u = unat_register [OF assms]
  have "span (c + 8 * of_nat r) 8 \<inter> span (c + 256) 8 = {}"
    using u assms by (intro span_disjoint_offsets) (simp_all add: unat_sub_if')
  then show "cpu_pc (set_cpu_register c r v m) c = cpu_pc m c" "cpu_register (set_cpu_pc c v m) c r = cpu_register m c r"
    by (simp_all add: cpu_pc_def cpu_register_def set_cpu_register_def set_cpu_pc_def load64_store64_other Int_commute)
  show "cpu_pc (set_cpu_pc c v m) c = v" by (simp add: cpu_pc_def set_cpu_pc_def)
  assume q: "q < 32"
  have "span (c + 8 * of_nat r) 8 \<inter> span (c + 8 * of_nat q) 8 = {}" if "q \<noteq> r"
    using that u unat_register [OF q] assms q by (intro span_disjoint_offsets) (auto simp: unat_sub_if')
  then show "cpu_register (set_cpu_register c r v m) c q = (if q = r then v else cpu_register m c q)"
    by (simp add: cpu_register_def set_cpu_register_def load64_store64_other)
qed

subsection \<open>A system call that returns at once\<close>

text \<open>The way back to the user: the task's user frame is in the trap frame.\<close>

definition user_status :: "u64 \<Rightarrow> u64" where
  "user_status v = put_bit 5 True (put_bit 1 False (set_field 8 1 0 v))"

lemma yield_to_user_ok:
  assumes obj: "task_objects G H N tk" and n: "n \<in> N"
  shows "\<exists>t. yield_to_user G (tk n) s = Some (Inr (Enter_user, t)) \<and>
    same_cpu (mem s) (t_user_frame (tk n)) (mem t) (sym_trapframe G) \<and> 
    t = s\<lparr>mem := mem t, sstatus := sstatus t\<rparr> \<and> status_spp (sstatus t) = 0 \<and> sstatus t = user_status (sstatus s) \<and>
    agree (- (span (sym_trapframe G) 264 \<union> span (t_kernel_frame (tk n)) 264)) (mem s) (mem t)"
proof -
  let ?m1 = "copy_cpu (sym_trapframe G) (t_user_frame (tk n)) (mem s)"
  let ?s1 = "s\<lparr>mem := ?m1\<rparr>"
  obtain m where k: "ksetjmp G (t_kernel_frame (tk n)) ?s1 = Some (Inr ((), ?s1\<lparr>mem := m\<rparr>))"
    "agree (- span (t_kernel_frame (tk n)) 264) ?m1 m"
    using ksetjmp_ok [of G "t_kernel_frame (tk n)" ?s1] by auto
  let ?t = "s\<lparr>mem := m, sstatus := user_status (sstatus s)\<rparr>"
  have run: "yield_to_user G (tk n) s = Some (Inr (Enter_user, ?t))"
    using k(1) by (simp add: yield_to_user_def kthen_Inr kbind_Inr write_mem_def return_to_user_def read_sstatus_def
      write_sstatus_def user_status_def)
  note ap = task_apart(2) [OF obj n]
  have "span (sym_trapframe G) 264 \<inter> span (t_user_frame (tk n)) 264 = {}" using ap own_cells(2) by blast
  note C = copy_cpu_same(1) [OF this, of "mem s"]
  have "agree (span (sym_trapframe G) 264) ?m1 m" by (rule agree_mono [OF k(2)]) (use ap own_cells(1) in blast)
  note C2 = same_cpu_trans [OF C same_cpu_agree [OF this]]
  have "agree (- (span (sym_trapframe G) 264 \<union> span (t_kernel_frame (tk n)) 264)) (mem s) m"
    by (rule agree_trans [OF agree_mono [OF copy_cpu_frame] agree_mono [OF k(2)]]) auto
  moreover have "status_spp (sstatus ?t) = 0"
    unfolding status_spp_def by (rule bit_word_eqI) (simp add: user_status_def bit_field_iff bit_set_field_iff bit_put_bit)
  ultimately show ?thesis using run C2 by (intro exI [of _ ?t]) simp
qed

text \<open>The trap: the registers of the user go into the task, whose kernel thread goes on.\<close>

lemma user_trap_ok:
  assumes cur: "current_task s = task" and mode: "status_spp (sstatus s) = 0" and c: "\<not> cause_interrupt (scause s)"
  shows "trap_handler G s = Some (Inr (Resume (t_kernel_frame task),
    s\<lparr>mem := copy_cpu (t_user_frame task) (sym_trapframe G) (mem s)\<rparr>))"
  using assms by (simp add: trap_handler_def handle_interrupt_def kbind_Inr kthen_Inr read_sstatus_def read_scause_def
    write_mem_def klongjmp_def)

text \<open>The values of the calls that return at once; the other known calls are in \<open>busy_calls\<close>.\<close>

definition busy_calls :: "u64 set" where
  "busy_calls = {SYS_getchar, SYS_putchar, SYS_yield, SYS_fork, SYS_exit, SYS_execve, 114514}"

lemma syscall_value:
  assumes "cpu_register (mem s) (t_user_frame task) REG_A7 \<notin> busy_calls"
  shows "syscall G task s = Some (Inr (Done (if cpu_register (mem s) (t_user_frame task) REG_A7 = SYS_getpid
    then t_pid (mem s) task else of_int (- ENOSYS)), s))"
  using assms by (simp add: syscall_def kbind_Inr busy_calls_def Let_def)

text \<open>An \<open>ecall\<close> up to the system call: the registers, with the \<open>pc\<close> behind it, are in the task.\<close>

lemma ecall_ok:
  assumes inv: "sched_inv G gs N tk A s" and run: "running A = Some n"
    and trap: "status_spp (sstatus s) = 0" "\<not> cause_interrupt (scause s)" "cause_code (scause s) = 8"
  obtains t m where "trap_handler G s = Some (Inr (Resume (t_kernel_frame (tk n)), t))"
    and "task_entry_round G (tk n) t = kbind (syscall G (tk n)) (\<lambda>r.
      case r of
        Switch d \<Rightarrow> kreturn (Some d)
      | Done v \<Rightarrow> kbind (after_syscall G (tk n) v) (\<lambda>d. kreturn (Some d))) (s\<lparr>mem := m\<rparr>)"
    and "\<forall>r<32. cpu_register m (t_user_frame (tk n)) r = cpu_register (mem s) (sym_trapframe G) r"
    and "cpu_pc m (t_user_frame (tk n)) = cpu_pc (mem s) (sym_trapframe G) + 4"
    and "agree (- span (t_user_frame (tk n)) 264) (mem s) m"
proof -
  note I = sched_invD [OF inv]
  have r: "n \<in> N" "current_task s = tk n" using I(10) [OF run] by simp_all
  let ?uf = "t_user_frame (tk n)" and ?tf = "sym_trapframe G"
  let ?m = "copy_cpu ?uf ?tf (mem s)"
  let ?m1 = "set_cpu_pc ?uf (cpu_pc ?m ?uf + 4) ?m"
  have "span ?uf 264 \<inter> span ?tf 264 = {}" using task_apart(2) [OF I(2) r(1)] own_cells(2) by blast
  note R = same_cpu_registers [OF copy_cpu_same(1) [OF this, of "mem s"]]
  show thesis
  proof (rule that [OF user_trap_ok [OF r(2) trap(1,2), of G]])
    show "task_entry_round G (tk n) (s\<lparr>mem := ?m\<rparr>) = kbind (syscall G (tk n)) (\<lambda>r.
        case r of
          Switch d \<Rightarrow> kreturn (Some d)
        | Done v \<Rightarrow> kbind (after_syscall G (tk n) v) (\<lambda>d. kreturn (Some d))) (s\<lparr>mem := ?m1\<rparr>)"
      using trap(3) by (simp add: task_entry_round_def kbind_Inr kthen_Inr read_scause_def write_mem_def)
    show "\<forall>q<32. cpu_register ?m1 ?uf q = cpu_register (mem s) ?tf q"
      using set_cpu_fields(3) R(1) by simp
    show "cpu_pc ?m1 ?uf = cpu_pc (mem s) ?tf + 4" using set_cpu_fields(4) [of 0] R(2) by simp
    show "agree (- span ?uf 264) (mem s) ?m1" by (rule agree_trans [OF copy_cpu_frame set_cpu_frame(2)])
  qed
qed

text \<open>
  A system call that returns at once, with the value \<open>v\<close>, and changes the state by \<open>f\<close>, from
  the trap to the return to the user.
\<close>

lemma ecall_done:
  assumes inv: "sched_inv G gs N tk A s" and run: "running A = Some n"
    and trap: "status_spp (sstatus s) = 0" "\<not> cause_interrupt (scause s)" "cause_code (scause s) = 8"
    and sys: "\<And>m. \<forall>r<32. cpu_register m (t_user_frame (tk n)) r = cpu_register (mem s) (sym_trapframe G) r \<Longrightarrow>
      agree (- span (t_user_frame (tk n)) 264) (mem s) m \<Longrightarrow>
      syscall G (tk n) (s\<lparr>mem := m\<rparr>) = Some (Inr (Done v, (f s)\<lparr>mem := m\<rparr>))"
  shows "\<exists>t u. trap_handler G s = Some (Inr (Resume (t_kernel_frame (tk n)), t)) \<and>
    task_entry_round G (tk n) t = Some (Inr (Some Enter_user, u)) \<and>
    u = (f s)\<lparr>mem := mem u, sstatus := sstatus u\<rparr> \<and> status_spp (sstatus u) = 0 \<and>
    sstatus u = user_status (sstatus (f s)) \<and> agree (- frame_cells G N tk) (mem s) (mem u) \<and>
    agree (- (span (sym_trapframe G) 264 \<union> span (tk n + 64) 528)) (mem s) (mem u) \<and>
    cpu_pc (mem u) (sym_trapframe G) = cpu_pc (mem s) (sym_trapframe G) + 4 \<and>
    (\<forall>r<32. cpu_register (mem u) (sym_trapframe G) r =
      (if r = REG_A0 then v else cpu_register (mem s) (sym_trapframe G) r))"
proof -
  note I = sched_invD [OF inv]
  have n: "n \<in> N" using I(10) [OF run] by simp
  let ?uf = "t_user_frame (tk n)" and ?tf = "sym_trapframe G"
  from ecall_ok [OF inv run trap] obtain t m where
    trap1: "trap_handler G s = Some (Inr (Resume (t_kernel_frame (tk n)), t))"
    and round: "task_entry_round G (tk n) t = kbind (syscall G (tk n)) (\<lambda>r.
      case r of
        Switch d \<Rightarrow> kreturn (Some d)
      | Done v \<Rightarrow> kbind (after_syscall G (tk n) v) (\<lambda>d. kreturn (Some d))) (s\<lparr>mem := m\<rparr>)"
    and reg: "\<forall>r<32. cpu_register m ?uf r = cpu_register (mem s) ?tf r"
    and pc: "cpu_pc m ?uf = cpu_pc (mem s) ?tf + 4" and ag: "agree (- span ?uf 264) (mem s) m" .
  let ?m2 = "set_cpu_register ?uf REG_A0 v m"
  have a0: "REG_A0 < 32" by (simp add: REG_A0_def)
  from yield_to_user_ok [OF I(2) n, of "(f s)\<lparr>mem := ?m2\<rparr>"] obtain u where
    u: "yield_to_user G (tk n) ((f s)\<lparr>mem := ?m2\<rparr>) = Some (Inr (Enter_user, u))" "same_cpu ?m2 ?uf (mem u) ?tf"
      "u = (f s)\<lparr>mem := mem u, sstatus := sstatus u\<rparr>" "status_spp (sstatus u) = 0"
      "sstatus u = user_status (sstatus (f s))" "agree (- (span ?tf 264 \<union> span (t_kernel_frame (tk n)) 264)) ?m2 (mem u)" by auto
  have "task_entry_round G (tk n) t = Some (Inr (Some Enter_user, u))"
    using sys [OF reg ag] u(1) unfolding round by (simp add: kbind_Inr kthen_Inr write_mem_def after_syscall_def)
  moreover have "cpu_pc (mem u) ?tf = cpu_pc (mem s) ?tf + 4"
    using same_cpu_registers(2) [OF u(2)] set_cpu_fields(2) [OF a0] pc by simp
  moreover have "\<forall>q<32. cpu_register (mem u) ?tf q = (if q = REG_A0 then v else cpu_register (mem s) ?tf q)"
    using same_cpu_registers(1) [OF u(2)] set_cpu_fields(1) [OF a0] reg by simp
  moreover have fine: "agree (- (span ?tf 264 \<union> span (tk n + 64) 528)) (mem s) (mem u)"
    by (rule agree_trans [OF agree_mono [OF ag] agree_trans [OF agree_mono [OF set_cpu_frame(1) [OF a0]] agree_mono [OF u(6)]]])
      (use frame_sub [of "tk n"] in blast)+
  moreover have "agree (- frame_cells G N tk) (mem s) (mem u)"
    by (rule agree_mono [OF fine]) (use n in \<open>auto simp: frame_cells_def\<close>)
  ultimately show ?thesis using trap1 u(3-5) by blast
qed

lemma frames_cover: "span (t + 64) 528 \<subseteq> span (t_kernel_frame t) 264 \<union> span (t_user_frame t) 264"
proof
  fix x assume "x \<in> span (t + 64) 528"
  then have x: "unat (x - (t + 64)) < 528" by (simp add: span_iff)
  have e: "x - (t + 328) = (x - (t + 64)) - 264" by simp
  have "unat (x - (t + 328)) = unat (x - (t + 64)) - 264" if "\<not> unat (x - (t + 64)) < 264"
    unfolding e using that by (subst unat_sub) (simp_all add: word_le_nat_alt)
  with x show "x \<in> span (t_kernel_frame t) 264 \<union> span (t_user_frame t) 264"
    by (cases "unat (x - (t + 64)) < 264") (simp_all add: t_kernel_frame_def t_user_frame_def span_iff)
qed

text \<open>
  Property C13. \<open>getpid\<close>, and every unknown system call, from the trap to the return: the
  user continues behind the \<open>ecall\<close>, with all its registers, except \<open>a0\<close>, which holds
  the process number, or \<open>-ENOSYS\<close>. No memory changes but \<open>trapframe\<close> and the two frames of the running task, and of the rest of the
  state only \<open>sstatus\<close>, which gets the values for the return: \<open>spp\<close> and \<open>sie\<close> cleared, \<open>spie\<close> set.
\<close>
theorem syscall_returns:
  assumes inv: "sched_inv G gs N tk A s" and run: "running A = Some n"
    and trap: "status_spp (sstatus s) = 0" "\<not> cause_interrupt (scause s)" "cause_code (scause s) = 8"
    and call: "cpu_register (mem s) (sym_trapframe G) REG_A7 = nr" "nr \<notin> busy_calls"
  shows "\<exists>t u. trap_handler G s = Some (Inr (Resume (t_kernel_frame (tk n)), t)) \<and>
    task_entry_round G (tk n) t = Some (Inr (Some Enter_user, u)) \<and>
    u = s\<lparr>mem := mem u, sstatus := put_bit 5 True (put_bit 1 False (set_field 8 1 0 (sstatus s)))\<rparr> \<and>
    agree (- (span (sym_trapframe G) 264 \<union> span (t_kernel_frame (tk n)) 264 \<union> span (t_user_frame (tk n)) 264)) (mem s) (mem u) \<and>
    cpu_pc (mem u) (sym_trapframe G) = cpu_pc (mem s) (sym_trapframe G) + 4 \<and>
    (\<forall>r<32. cpu_register (mem u) (sym_trapframe G) r =
      (if r \<noteq> REG_A0 then cpu_register (mem s) (sym_trapframe G) r
       else if nr = SYS_getpid then t_pid (mem s) (tk n) else of_int (- ENOSYS)))"
proof -
  note I = sched_invD [OF inv]
  have n: "n \<in> N" using I(10) [OF run] by simp
  let ?uf = "t_user_frame (tk n)"
  let ?v = "if nr = SYS_getpid then t_pid (mem s) (tk n) else of_int (- ENOSYS)"
  have sys: "syscall G (tk n) (s\<lparr>mem := m\<rparr>) = Some (Inr (Done ?v, s\<lparr>mem := m\<rparr>))"
    if reg: "\<forall>r<32. cpu_register m ?uf r = cpu_register (mem s) (sym_trapframe G) r" and ag: "agree (- span ?uf 264) (mem s) m" for m
  proof -
    have nr: "cpu_register m ?uf REG_A7 = nr" using reg call(1) by (simp add: REG_A7_def)
    have "span (tk n) 8 \<inter> span ?uf 264 = {}" unfolding t_user_frame_def by (rule span_disjoint_base) simp_all
    then have "agree (span (tk n) 8) (mem s) m" by (intro agree_mono [OF ag]) blast
    from agree_load64 [OF this] have "t_pid m (tk n) = t_pid (mem s) (tk n)" by (simp add: t_pid_def)
    then show ?thesis using syscall_value [of "s\<lparr>mem := m\<rparr>" "tk n" G] call(2) nr by simp
  qed
  have frames: "span (tk n + 64) 528 \<subseteq> span (t_kernel_frame (tk n)) 264 \<union> span (t_user_frame (tk n)) 264"
    by (rule frames_cover)
  from ecall_done [OF inv run trap, of ?v "\<lambda>s. s", OF sys] obtain t u where
    u: "trap_handler G s = Some (Inr (Resume (t_kernel_frame (tk n)), t))"
      "task_entry_round G (tk n) t = Some (Inr (Some Enter_user, u))" "u = s\<lparr>mem := mem u, sstatus := sstatus u\<rparr>"
      "sstatus u = user_status (sstatus s)" "agree (- (span (sym_trapframe G) 264 \<union> span (tk n + 64) 528)) (mem s) (mem u)"
      "cpu_pc (mem u) (sym_trapframe G) = cpu_pc (mem s) (sym_trapframe G) + 4"
      "\<forall>r<32. cpu_register (mem u) (sym_trapframe G) r = (if r = REG_A0 then ?v else cpu_register (mem s) (sym_trapframe G) r)"
    by blast
  have "u = s\<lparr>mem := mem u, sstatus := put_bit 5 True (put_bit 1 False (set_field 8 1 0 (sstatus s)))\<rparr>"
    using u(3,4) by (simp add: user_status_def)
  moreover have "agree (- (span (sym_trapframe G) 264 \<union> span (t_kernel_frame (tk n)) 264 \<union> span (t_user_frame (tk n)) 264)) (mem s) (mem u)"
    by (rule agree_mono [OF u(5)]) (use frames in blast)
  ultimately show ?thesis using u(1,2,6,7) by (intro exI [of _ t] exI [of _ u] conjI) simp_all
qed

text \<open>The first of the two threads makes a system call.\<close>

definition ecall_state :: "sched_state \<Rightarrow> u64 \<Rightarrow> irq_state" where
  "ecall_state u nr = trap_state (u\<lparr>mem := set_cpu_register 0x3f00501000 REG_A7 nr (mem u)\<rparr>) 0 8"

lemma ecall_state_inv:
  assumes "sched_inv two_symbols two_groups two_threads two_tasks A u"
  shows "sched_inv two_symbols two_groups two_threads two_tasks A (ecall_state u nr)"
proof -
  have "agree (- span (sym_trapframe two_symbols) 264) (mem u) (set_cpu_register 0x3f00501000 REG_A7 nr (mem u))"
    using set_cpu_frame(1) [of REG_A7 "0x3f00501000"] by (simp add: two_symbols_def REG_A7_def)
  then have "agree (- frame_cells two_symbols two_threads two_tasks) (mem u)
      (mem (u\<lparr>mem := set_cpu_register 0x3f00501000 REG_A7 nr (mem u)\<rparr>))"
    by (auto simp: frame_cells_def elim: agree_mono)
  from sched_inv_frames(1) [OF assms this] show ?thesis
    unfolding ecall_state_def by (intro trap_state_inv) simp
qed

lemma ecall_state_traps:
  "status_spp (sstatus (ecall_state u nr)) = 0" "\<not> cause_interrupt (scause (ecall_state u nr))"
  "cause_code (scause (ecall_state u nr)) = 8"
  "cpu_register (mem (ecall_state u nr)) (sym_trapframe two_symbols) REG_A7 = nr"
proof -
  show "status_spp (sstatus (ecall_state u nr)) = 0" "\<not> cause_interrupt (scause (ecall_state u nr))"
    "cause_code (scause (ecall_state u nr)) = 8"
    by (simp_all add: ecall_state_def trap_state_fields status_spp_def cause_interrupt_def cause_code_def field_def)
  show "cpu_register (mem (ecall_state u nr)) (sym_trapframe two_symbols) REG_A7 = nr"
    using set_cpu_fields(1) [of REG_A7 REG_A7]
    by (simp add: ecall_state_def trap_state_fields two_symbols_def REG_A7_def)
qed

lemma syscall_returns_witness:
  "\<exists>(s :: irq_state) t u. trap_handler two_symbols s = Some (Inr (Resume 0x3f00600040, t)) \<and>
    task_entry_round two_symbols 0x3f00600000 t = Some (Inr (Some Enter_user, u)) \<and>
    cpu_register (mem s) 0x3f00501000 REG_A7 = 99 \<and> cpu_register (mem u) 0x3f00501000 REG_A0 = - 38"
proof -
  obtain u :: sched_state where u: "sched_inv two_symbols two_groups two_threads two_tasks first_runs u"
    by (rule first_runs_exists)
  note T = ecall_state_traps [of u 99]
  have r: "running first_runs = Some 0x3f00400004" by (simp add: first_runs_def)
  have b: "99 \<notin> busy_calls"
    by (simp add: busy_calls_def SYS_getchar_def SYS_putchar_def SYS_yield_def SYS_fork_def SYS_exit_def SYS_execve_def)
  have e: "two_tasks 0x3f00400004 = 0x3f00600000" "sym_trapframe two_symbols = 0x3f00501000"
    by (simp_all add: two_tasks_def two_symbols_def)
  from syscall_returns [OF ecall_state_inv [OF u] r T b] obtain t v where
    "trap_handler two_symbols (ecall_state u 99) = Some (Inr (Resume (t_kernel_frame (two_tasks 0x3f00400004)), t))"
    "task_entry_round two_symbols (two_tasks 0x3f00400004) t = Some (Inr (Some Enter_user, v))"
    "cpu_register (mem v) (sym_trapframe two_symbols) REG_A0 = of_int (- ENOSYS)"
    by (auto simp: REG_A0_def SYS_getpid_def)
  with T(4) show ?thesis unfolding e by (auto simp: t_kernel_frame_def ENOSYS_def)
qed

subsection \<open>yield\<close>

lemma setjmp_leaves:
  assumes n: "n \<in> N" and k: "agree (- span (t_kernel_frame (tk n)) 264) (set_t_mode (tk n) md m1) m"
    and m1: "agree (- span (t_user_frame (tk n)) 264) m0 m1"
  shows "agree (- leave_cells G N tk n) m0 m" and "agree (- span (tk n) 592) m0 m" and "t_mode m (tk n) = md"
    and "same_cpu m1 (t_user_frame (tk n)) m (t_user_frame (tk n))"
proof -
  note md = set_t_mode_ok(1) [of "tk n" md m1] set_t_mode_ok(2) [of "tk n" m1 md]
  have L: "agree (- leave_cells G N tk n) m0 m1" "agree (- leave_cells G N tk n) m1 (set_t_mode (tk n) md m1)"
    "agree (- leave_cells G N tk n) (set_t_mode (tk n) md m1) m"
    by (rule leave_agree [OF n], use m1 md(2) k in blast)+
  then show "agree (- leave_cells G N tk n) m0 m" by (meson agree_trans)
  have O: "agree (- span (tk n) 592) m0 m1" "agree (- span (tk n) 592) m1 (set_t_mode (tk n) md m1)"
    "agree (- span (tk n) 592) (set_t_mode (tk n) md m1) m"
    by (rule agree_mono [OF m1] agree_mono [OF md(2)] agree_mono [OF k], use own_cells [of "tk n"] in blast)+
  then show "agree (- span (tk n) 592) m0 m" by (meson agree_trans)
  have "span (t_kernel_frame (tk n)) 264 \<inter> span (tk n + 56) 4 = {}"
    unfolding t_kernel_frame_def by (rule span_disjoint_offsets) simp_all
  then have "span (tk n + 56) 4 \<subseteq> - span (t_kernel_frame (tk n)) 264" by blast
  from agree_load32 [OF k this] md(1) show "t_mode m (tk n) = md" by (simp add: t_mode_def)
  have "span (t_kernel_frame (tk n)) 264 \<inter> span (t_user_frame (tk n)) 264 = {}"
    "span (tk n + 56) 4 \<inter> span (t_user_frame (tk n)) 264 = {}"
    unfolding t_kernel_frame_def t_user_frame_def by (rule span_disjoint_offsets; simp)+
  then have "agree (span (t_user_frame (tk n)) 264) m1 m"
    by (intro agree_trans [OF agree_mono [OF md(2)] agree_mono [OF k]]) blast+
  then show "same_cpu m1 (t_user_frame (tk n)) m (t_user_frame (tk n))" by (rule same_cpu_agree)
qed

text \<open>
  Property C21. For the threads, the system call \<open>yield\<close> is a timer tick: the caller goes
  behind the ready threads and the first of them runs. The registers of the caller are in its
  task, behind the \<open>ecall\<close>.
\<close>
theorem yield_is_tick:
  assumes inv: "sched_inv G gs N tk A s" and run: "running A = Some n"
    and trap: "status_spp (sstatus s) = 0" "\<not> cause_interrupt (scause s)" "cause_code (scause s) = 8"
    and call: "cpu_register (mem s) (sym_trapframe G) REG_A7 = SYS_yield"
    and step: "sched_step A (Tick MODE_SUPERVISOR) B"
  shows "\<exists>t d u. trap_handler G s = Some (Inr (Resume (t_kernel_frame (tk n)), t)) \<and>
    task_entry_round G (tk n) t = Some (Inr (Some d, u)) \<and> sched_inv G gs N tk B u \<and> dispatched G tk B d u \<and>
    t_mode (mem u) (tk n) = MODE_SUPERVISOR \<and>
    cpu_pc (mem u) (t_user_frame (tk n)) = cpu_pc (mem s) (sym_trapframe G) + 4 \<and>
    (\<forall>r<32. cpu_register (mem u) (t_user_frame (tk n)) r = cpu_register (mem s) (sym_trapframe G) r)"
proof -
  note I = sched_invD [OF inv]
  have r: "n \<in> N" "current_task s = tk n" using I(10) [OF run] by simp_all
  have B: "B = pick (A\<lparr>ready := ready A @ [n], running := None\<rparr>)"
    using step by (rule tickE) (simp_all add: run)
  let ?uf = "t_user_frame (tk n)" and ?tf = "sym_trapframe G"
  from ecall_ok [OF inv run trap] obtain t m1 where
    trap1: "trap_handler G s = Some (Inr (Resume (t_kernel_frame (tk n)), t))"
    and round: "task_entry_round G (tk n) t = kbind (syscall G (tk n)) (\<lambda>r.
      case r of
        Switch d \<Rightarrow> kreturn (Some d)
      | Done v \<Rightarrow> kbind (after_syscall G (tk n) v) (\<lambda>d. kreturn (Some d))) (s\<lparr>mem := m1\<rparr>)"
    and reg: "\<forall>r<32. cpu_register m1 ?uf r = cpu_register (mem s) ?tf r"
    and pc: "cpu_pc m1 ?uf = cpu_pc (mem s) ?tf + 4" and m1: "agree (- span ?uf 264) (mem s) m1" .
  let ?s1 = "s\<lparr>mem := set_t_mode (tk n) MODE_SUPERVISOR m1\<rparr>"
  have nr: "cpu_register m1 ?uf REG_A7 = SYS_yield" using reg call by (simp add: REG_A7_def)
  obtain m where k: "ksetjmp G (t_kernel_frame (tk n)) ?s1 = Some (Inr ((), s\<lparr>mem := m\<rparr>))"
    "agree (- span (t_kernel_frame (tk n)) 264) (set_t_mode (tk n) MODE_SUPERVISOR m1) m"
    using ksetjmp_ok [of G "t_kernel_frame (tk n)" ?s1] by auto
  have S: "agree (- leave_cells G N tk n) (mem s) m" "agree (- span (tk n) 592) (mem s) m"
    "t_mode m (tk n) = MODE_SUPERVISOR" "same_cpu m1 ?uf m ?uf"
    by (rule setjmp_leaves [where tk = tk and n = n, OF r(1) k(2) m1])+
  from schedule_next_ok [OF inv run S(1,2) disjI2 [OF S(3)] B] obtain d u where
    u: "schedule_next G (s\<lparr>mem := m\<rparr>) = Some (Inr (d, u))" "sched_inv G gs N tk B u" "dispatched G tk B d u"
      "agree (span (tk n) 592) m (mem u)" by blast
  have "syscall G (tk n) (s\<lparr>mem := m1\<rparr>) = Some (Inr (Switch d, u))"
    using nr r(2) k(1) u(1)
    by (simp add: syscall_def sys_yield_def kbind_Inr kthen_Inr write_mem_def Let_def SYS_yield_def SYS_getchar_def
      SYS_putchar_def SYS_getpid_def)
  then have "task_entry_round G (tk n) t = Some (Inr (Some d, u))" unfolding round by (simp add: kbind_Inr)
  moreover have "t_mode (mem u) (tk n) = MODE_SUPERVISOR"
    using agree_load32 [OF u(4) own_cells(3)] S(3) by (simp add: t_mode_def)
  moreover have "same_cpu m1 ?uf (mem u) ?uf"
    by (rule same_cpu_trans [OF S(4) same_cpu_agree [OF agree_mono [OF u(4) own_cells(2)]]])
  note F = same_cpu_registers [OF this]
  ultimately show ?thesis using trap1 u(2,3) F reg pc by auto
qed

lemma yield_is_tick_witness:
  "\<exists>(s :: irq_state) t d u. trap_handler two_symbols s = Some (Inr (Resume 0x3f00600040, t)) \<and>
    task_entry_round two_symbols 0x3f00600000 t = Some (Inr (Some d, u)) \<and>
    current_task s = 0x3f00600000 \<and> current_task u = 0x3f00610000"
proof -
  obtain u :: sched_state where u: "sched_inv two_symbols two_groups two_threads two_tasks first_runs u"
    by (rule first_runs_exists)
  note inv = ecall_state_inv [OF u] and T = ecall_state_traps [of u SYS_yield]
  have r: "running first_runs = Some 0x3f00400004" by (simp add: first_runs_def)
  let ?B = "pick (first_runs\<lparr>ready := ready first_runs @ [0x3f00400004], running := None\<rparr>)"
  have step: "sched_step first_runs (Tick MODE_SUPERVISOR) ?B" by (rule tick) (simp_all add: first_runs_def)
  have B: "running ?B = Some 0x3f00401004" by (simp add: first_runs_def pick_def)
  have e: "two_tasks 0x3f00400004 = 0x3f00600000" "two_tasks 0x3f00401004 = 0x3f00610000"
    by (simp_all add: two_tasks_def)
  from yield_is_tick [OF inv r T step] obtain t d v where
    v: "trap_handler two_symbols (ecall_state u SYS_yield) =
        Some (Inr (Resume (t_kernel_frame (two_tasks 0x3f00400004)), t))"
      "task_entry_round two_symbols (two_tasks 0x3f00400004) t = Some (Inr (Some d, v))"
      "sched_inv two_symbols two_groups two_threads two_tasks ?B v" by blast
  have "current_task (ecall_state u SYS_yield) = 0x3f00600000" "current_task v = 0x3f00610000"
    using sched_invD(10) [OF inv r] sched_invD(10) [OF v(3) B] e by simp_all
  with v(1,2) show ?thesis unfolding e by (auto simp: t_kernel_frame_def)
qed

end
