(* ===== verification/User_Correct.thy ===== *)
theory User_Correct
  imports User_Lib Syscall_Correct
begin

section \<open>User programs on the kernel\<close>

text \<open>
  The instruction \<open>ecall\<close> of a running thread, on the model of the kernel: the processor enters
  the kernel, the trap handler resumes the thread's \<open>task_entry\<close>, and the system call returns
  to the user. The console contract of the library is proved for it, so that what the library
  prints arrives at the serial port, and what it reads comes out of the input buffer.
\<close>

subsection \<open>ecall\<close>

text \<open>The registers that the assembly pins; \<open>trap_vector\<close> has saved them in the trap frame.\<close>

definition set_registers :: "u64 \<Rightarrow> (nat \<rightharpoonup> u64) \<Rightarrow> memory \<Rightarrow> memory" where
  "set_registers c regs m =
     fold (\<lambda>r m. case regs r of None \<Rightarrow> m | Some v \<Rightarrow> set_cpu_register c r v m) [0..<32] m"

text \<open>The processor: cause 8, the mode before the trap is user mode.\<close>

definition enter_kernel :: "symbols \<Rightarrow> (nat \<rightharpoonup> u64) \<Rightarrow> 'a irq_state_scheme \<Rightarrow> 'a irq_state_scheme" where
  "enter_kernel G regs s =
     s\<lparr>mem := set_registers (sym_trapframe G) regs (mem s), scause := 8, sstatus := set_field 8 1 0 (sstatus s)\<rparr>"

text \<open>\<open>None\<close>: the thread does not go on at once, since another one runs, or the kernel panics.\<close>

definition kernel_ecall :: "symbols \<Rightarrow> 'a irq_state_scheme ecall" where
  "kernel_ecall G regs s =
     (case trap_handler G (enter_kernel G regs s) of
        Some (Inr (Resume f, t)) \<Rightarrow>
          if f = t_kernel_frame (current_task s) then
            (case task_entry_round G (current_task s) t of
               Some (Inr (Some Enter_user, u)) \<Rightarrow> Some (cpu_register (mem u) (sym_trapframe G) REG_A0, u)
             | _ \<Rightarrow> None)
          else None
      | _ \<Rightarrow> None)"

lemma set_registers_fold:
  fixes c :: u64 and regs :: "nat \<rightharpoonup> u64" and m :: memory
  assumes "k \<le> 32"
  defines "m' \<equiv> fold (\<lambda>r m. case regs r of None \<Rightarrow> m | Some v \<Rightarrow> set_cpu_register c r v m) [0..<k] m"
  shows "agree (- span c 264) m m' \<and>
    (\<forall>q<32. cpu_register m' c q = (if q < k then (case regs q of None \<Rightarrow> cpu_register m c q | Some v \<Rightarrow> v) else cpu_register m c q))"
  using assms(1) unfolding m'_def
proof (induction k)
  case (Suc k)
  let ?m = "fold (\<lambda>r m. case regs r of None \<Rightarrow> m | Some v \<Rightarrow> set_cpu_register c r v m) [0..<k] m"
  from Suc have IH: "agree (- span c 264) m ?m"
    "\<forall>q<32. cpu_register ?m c q = (if q < k then (case regs q of None \<Rightarrow> cpu_register m c q | Some v \<Rightarrow> v) else cpu_register m c q)"
    by simp_all
  show ?case
  proof (cases "regs k")
    case None
    with IH show ?thesis by (auto simp: less_Suc_eq)
  next
    case (Some v)
    have k: "k < 32" using Suc.prems by simp
    have "agree (- span c 264) m (set_cpu_register c k v ?m)" by (rule agree_trans [OF IH(1) set_cpu_frame(1) [OF k]])
    with Some IH(2) set_cpu_fields(1) [OF k] show ?thesis by (auto simp: less_Suc_eq)
  qed
qed simp

lemma set_registers_ok:
  "agree (- span c 264) m (set_registers c regs m)"
  "r < 32 \<Longrightarrow> cpu_register (set_registers c regs m) c r = (case regs r of None \<Rightarrow> cpu_register m c r | Some v \<Rightarrow> v)"
  using set_registers_fold [where k = 32 and c = c and regs = regs and m = m] by (simp_all add: set_registers_def)

lemma enter_kernel_ok:
  assumes inv: "sched_inv G gs N tk A s"
  shows "sched_inv G gs N tk A (enter_kernel G regs s)"
    and "status_spp (sstatus (enter_kernel G regs s)) = 0" and "\<not> cause_interrupt (scause (enter_kernel G regs s))"
    and "cause_code (scause (enter_kernel G regs s)) = 8"
    and "current_task (enter_kernel G regs s) = current_task s"
proof -
  have "agree (- frame_cells G N tk) (mem s) (mem (enter_kernel G regs s))"
    unfolding enter_kernel_def frame_cells_def by (simp add: agree_mono [OF set_registers_ok(1)])
  from sched_inv_frames(1) [OF inv this] show "sched_inv G gs N tk A (enter_kernel G regs s)"
    by (simp add: enter_kernel_def)
  show "status_spp (sstatus (enter_kernel G regs s)) = 0"
    unfolding status_spp_def enter_kernel_def by (rule bit_word_eqI) (simp add: bit_field_iff bit_set_field_iff)
qed (simp_all add: enter_kernel_def cause_interrupt_def cause_code_def field_def)

text \<open>A call that returns at once.\<close>

lemma kernel_ecall_ok:
  assumes inv: "sched_inv G gs N tk A s" and run: "running A = Some n"
    and sys: "\<And>m. \<forall>r\<in>dom regs. r < 32 \<longrightarrow> cpu_register m (t_user_frame (tk n)) r = the (regs r) \<Longrightarrow>
      syscall G (tk n) ((enter_kernel G regs s)\<lparr>mem := m\<rparr>) = Some (Inr (Done v, (f (enter_kernel G regs s))\<lparr>mem := m\<rparr>))"
    and f: "early (f (enter_kernel G regs s)) = early s" "current_task_node (f (enter_kernel G regs s)) = current_task_node s"
      "current_task (f (enter_kernel G regs s)) = current_task s"
  shows "\<exists>u. kernel_ecall G regs s = Some (v, u) \<and> u = (f (enter_kernel G regs s))\<lparr>mem := mem u, sstatus := sstatus u\<rparr> \<and>
    sched_inv G gs N tk A u"
proof -
  let ?s = "enter_kernel G regs s"
  note E = enter_kernel_ok [OF inv, of regs]
  have cur: "current_task s = tk n" using sched_invD(10) [OF inv run] by simp
  have sys': "syscall G (tk n) (?s\<lparr>mem := m\<rparr>) = Some (Inr (Done v, (f ?s)\<lparr>mem := m\<rparr>))"
    if "\<forall>r<32. cpu_register m (t_user_frame (tk n)) r = cpu_register (mem ?s) (sym_trapframe G) r" for m
    using that by (intro sys) (auto simp: enter_kernel_def set_registers_ok(2))
  from ecall_done [OF E(1) run E(2-4), of v f, OF sys'] obtain t u where
    u: "trap_handler G ?s = Some (Inr (Resume (t_kernel_frame (tk n)), t))"
      "task_entry_round G (tk n) t = Some (Inr (Some Enter_user, u))" "u = (f ?s)\<lparr>mem := mem u, sstatus := sstatus u\<rparr>"
      "agree (- frame_cells G N tk) (mem ?s) (mem u)"
      "\<forall>r<32. cpu_register (mem u) (sym_trapframe G) r =
        (if r = REG_A0 then v else cpu_register (mem ?s) (sym_trapframe G) r)" by blast
  have "kernel_ecall G regs s = Some (v, u)"
    using u(1,2,5) by (simp add: kernel_ecall_def cur REG_A0_def)
  moreover have "sched_inv G gs N tk A u"
  proof (rule sched_inv_frames(1) [OF E(1) u(4)])
    show "early u = early ?s" "current_task_node u = current_task_node ?s" "current_task u = current_task ?s"
      by (subst u(3), simp add: f, simp add: enter_kernel_def)+
  qed
  ultimately show ?thesis using u(3) by blast
qed


subsection \<open>The console\<close>

text \<open>
  The thread \<open>n\<close> runs, the serial port takes every byte at once, the input buffer holds \<open>inp\<close>,
  and since the output \<open>w\<close> the bytes \<open>out\<close> have been sent.
\<close>

definition kernel_console ::
  "symbols \<Rightarrow> u64 set \<Rightarrow> u64 set \<Rightarrow> (u64 \<Rightarrow> u64) \<Rightarrow> threads \<Rightarrow> u64 \<Rightarrow> (nat \<times> u8) list \<Rightarrow>
     'a irq_state_scheme \<Rightarrow> u8 list \<Rightarrow> u8 list \<Rightarrow> bool" where
  "kernel_console G gs N tk A n w s inp out \<longleftrightarrow>
     sched_inv G gs N tk A s \<and> running A = Some n \<and> ring_rep (uart_in s) inp \<and> \<not> panicked s \<and>
     (\<forall>i. lsr s i AND LSR_TX_IDLE \<noteq> 0) \<and> written s = w @ map (\<lambda>c. (THR, c)) out"

lemma enter_kernel_fields [simp]:
  "uart_in (enter_kernel G regs s) = uart_in s" "panicked (enter_kernel G regs s) = panicked s"
  "lsr (enter_kernel G regs s) = lsr s" "written (enter_kernel G regs s) = written s"
  "early (enter_kernel G regs s) = early s" "current_task_node (enter_kernel G regs s) = current_task_node s"
  "current_task (enter_kernel G regs s) = current_task s"
  by (simp_all add: enter_kernel_def)

lemma kernel_put:
  assumes con: "kernel_console G gs N tk A n w s inp out" and regs: "regs REG_A7 = Some SYS_putchar" "regs REG_A0 = Some v"
  shows "\<exists>r t. kernel_ecall G regs s = Some (r, t) \<and> kernel_console G gs N tk A n w t inp (out @ [ucast v])"
proof -
  from con have inv: "sched_inv G gs N tk A s" and run: "running A = Some n" and up: "\<not> panicked s"
    and idle: "\<forall>i. lsr s i AND LSR_TX_IDLE \<noteq> 0" by (simp_all add: kernel_console_def)
  define f :: "'a irq_state_scheme \<Rightarrow> 'a irq_state_scheme" where
    "f s = (skip_lsr 2 s)\<lparr>written := written s @ [(THR, ucast v)]\<rparr>" for s
  have sys: "syscall G (tk n) ((enter_kernel G regs s)\<lparr>mem := m\<rparr>) = Some (Inr (Done 0, (f (enter_kernel G regs s))\<lparr>mem := m\<rparr>))"
    if m: "\<forall>r\<in>dom regs. r < 32 \<longrightarrow> cpu_register m (t_user_frame (tk n)) r = the (regs r)" for m
  proof -
    let ?u = "(enter_kernel G regs s)\<lparr>mem := m\<rparr>"
    have r: "cpu_register m (t_user_frame (tk n)) REG_A7 = SYS_putchar" "cpu_register m (t_user_frame (tk n)) REG_A0 = v"
      using m [rule_format, of REG_A7] m [rule_format, of REG_A0] regs by (auto simp: REG_A7_def REG_A0_def)
    have "uartputc G (ucast (ucast v :: u8)) ?u = Some (Inr (Done (), (skip_lsr 2 ?u)\<lparr>written := written ?u @ [(THR, ucast v)]\<rparr>))"
      using uartputc_idle_ok [of ?u G "ucast (ucast v :: u8)"] up idle by simp
    then show ?thesis using r
      by (simp add: syscall_def sys_putchar_def kbind_Inr Let_def SYS_putchar_def SYS_getchar_def f_def skip_lsr_def)
  qed
  from kernel_ecall_ok [where f = f and tk = tk and n = n, OF inv run sys] obtain u where
    u: "kernel_ecall G regs s = Some (0, u)" "u = (f (enter_kernel G regs s))\<lparr>mem := mem u, sstatus := sstatus u\<rparr>"
      "sched_inv G gs N tk A u" by (auto simp: f_def skip_lsr_def)
  have "uart_in u = uart_in s" "panicked u = panicked s" "lsr u = (\<lambda>i. lsr s (i + 2))"
    "written u = written s @ [(THR, ucast v)]"
    by (subst u(2), simp add: f_def skip_lsr_def)+
  with con u(3) have "kernel_console G gs N tk A n w u inp (out @ [ucast v])" by (simp add: kernel_console_def)
  with u(1) show ?thesis by blast
qed

lemma kernel_get:
  assumes con: "kernel_console G gs N tk A n w s (c # inp) out" and regs: "regs REG_A7 = Some SYS_getchar"
  shows "\<exists>t. kernel_ecall G regs s = Some (ucast c, t) \<and> kernel_console G gs N tk A n w t inp out"
proof -
  from con have inv: "sched_inv G gs N tk A s" and run: "running A = Some n" and buf: "ring_rep (uart_in s) (c # inp)"
    by (simp_all add: kernel_console_def)
  define f :: "'a irq_state_scheme \<Rightarrow> 'a irq_state_scheme" where
    "f s = s\<lparr>uart_in := snd (ring_get (uart_in s))\<rparr>" for s
  have sys: "syscall G (tk n) ((enter_kernel G regs s)\<lparr>mem := m\<rparr>) = Some (Inr (Done (ucast c), (f (enter_kernel G regs s))\<lparr>mem := m\<rparr>))"
    if m: "\<forall>r\<in>dom regs. r < 32 \<longrightarrow> cpu_register m (t_user_frame (tk n)) r = the (regs r)" for m
  proof -
    let ?u = "(enter_kernel G regs s)\<lparr>mem := m\<rparr>"
    have r: "cpu_register m (t_user_frame (tk n)) REG_A7 = SYS_getchar"
      using m [rule_format, of REG_A7] regs by (auto simp: REG_A7_def)
    have "ring_rep (uart_in ?u) (c # inp)" using buf by simp
    from getchar_ready_ok(1) [OF this, of G] r show ?thesis
      by (simp add: syscall_def kbind_Inr Let_def f_def)
  qed
  from kernel_ecall_ok [where f = f and tk = tk and n = n, OF inv run sys] obtain u where
    u: "kernel_ecall G regs s = Some (ucast c, u)" "u = (f (enter_kernel G regs s))\<lparr>mem := mem u, sstatus := sstatus u\<rparr>"
      "sched_inv G gs N tk A u" by (auto simp: f_def)
  have "uart_in u = snd (ring_get (uart_in s))" "panicked u = panicked s" "lsr u = lsr s" "written u = written s"
    by (subst u(2), simp add: f_def)+
  with con u(3) getchar_ready_ok(2) [OF buf] have "kernel_console G gs N tk A n w u inp out"
    by (simp add: kernel_console_def)
  with u(1) show ?thesis by blast
qed

interpretation kernel: console "kernel_ecall G" "kernel_console G gs N tk A n w" for G gs N tk A n w
  by unfold_locales (erule (2) kernel_put, erule (1) kernel_get)


subsection \<open>Properties\<close>

text \<open>
  The digits that the user library prints through the system calls are those
  that the kernel's own \<open>print_uint\<close> prints in base 10 with zeros for padding, the NUL byte in
  front included.
\<close>
theorem user_print_uint_equiv:
  assumes "kernel_console G gs N tk A n w s inp out"
  shows "\<exists>cs t. print_uint x 10 0 48 neg = Some cs \<and> user_print_uint (kernel_ecall G) x neg s = Some ((), t) \<and>
    kernel_console G gs N tk A n w t inp (out @ cs)"
proof -
  have "pad_count (int (length (digits 10 x)) + of_bool neg) 0 = 0" by (simp add: pad_count_def)
  then have "print_uint x 10 0 48 neg = Some ((if neg then [45] else []) @ uint_chars x)"
    using print_uint_Some [of 10 x 0 48 neg] by (simp add: uint_chars_def)
  moreover from kernel.outputsD [OF kernel.outputs_print_uint assms] obtain t where
    "user_print_uint (kernel_ecall G) x neg s = Some ((), t)"
    "kernel_console G gs N tk A n w t inp (out @ (if neg then [45] else []) @ uint_chars x)" by blast
  ultimately show ?thesis by blast
qed

text \<open>The first thread runs, the device is idle, and \<open>inp\<close> has arrived.\<close>

definition console_state :: "sched_state \<Rightarrow> u8 list \<Rightarrow> irq_state" where
  "console_state u inp = uart_state.extend (serial_on u [] inp (\<lambda>_. 32)) (irq_state.fields (\<lambda>_. 0) [] 0)"

lemma console_state_ok:
  assumes "sched_inv two_symbols two_groups two_threads two_tasks first_runs u" and "length inp \<le> 32"
  shows "kernel_console two_symbols two_groups two_threads two_tasks first_runs 0x3f00400004 []
    (console_state u inp) inp []"
proof -
  have "sched_inv two_symbols two_groups two_threads two_tasks first_runs (console_state u inp)"
    by (rule sched_inv_device [OF assms(1)])
      (simp_all add: console_state_def serial_on_def sched_state.defs uart_state.defs irq_state.defs)
  moreover have "uart_in (console_state u inp) = filled_ring inp" "\<not> panicked (console_state u inp)"
    "lsr (console_state u inp) = (\<lambda>_. 32)" "written (console_state u inp) = []"
    by (simp_all add: console_state_def serial_on_def sched_state.defs uart_state.defs irq_state.defs)
  ultimately show ?thesis
    using filled_ring [OF assms(2)] by (simp add: kernel_console_def first_runs_def LSR_TX_IDLE_def)
qed

lemma user_print_uint_equiv_witness:
  "\<exists>(s :: irq_state) t. user_print_uint (kernel_ecall two_symbols) 42 True s = Some ((), t) \<and> written s = [] \<and>
    written t = [(THR, 45), (THR, 0), (THR, 52), (THR, 50)]"
proof -
  obtain u :: sched_state where u: "sched_inv two_symbols two_groups two_threads two_tasks first_runs u"
    by (rule first_runs_exists)
  have c: "kernel_console two_symbols two_groups two_threads two_tasks first_runs 0x3f00400004 [] (console_state u []) [] []"
    by (rule console_state_ok [OF u]) simp
  have p: "print_uint 42 10 0 48 True = Some [45, 0, 52, 50]"
    by (simp add: print_uint_def Let_def pad_count_def BUFLEN_def tab_def putchar_def digits.simps [of 10 42] digits.simps [of 10 4])
  from user_print_uint_equiv [OF c, of 42 True] p obtain t where
    "user_print_uint (kernel_ecall two_symbols) 42 True (console_state u []) = Some ((), t)"
    "kernel_console two_symbols two_groups two_threads two_tasks first_runs 0x3f00400004 [] t [] [45, 0, 52, 50]" by auto
  with c show ?thesis by (auto simp: kernel_console_def)
qed

text \<open>
  Property C8. What \<open>putint\<close> sends to the serial port, \<open>getint\<close> reads back: for every \<open>int\<close>,
  whatever precedes it in the input but digits and minus signs, up to the byte behind it that
  is not a digit.
\<close>
theorem putint_getint:
  assumes put: "kernel_console G gs N tk A n w s inp out" "putint (kernel_ecall G) v s = Some ((), t)"
    "written t = written s @ map (\<lambda>c. (THR, c)) cs"
    and get: "kernel_console H hs M tj B k w' s' (pre @ cs @ c # inp') out'"
    and sep: "\<forall>c\<in>set pre. \<not> user_isdigit c \<and> c \<noteq> 45" "\<not> user_isdigit c"
  shows "\<exists>t'. getint (kernel_ecall H) s' = Some (v, t') \<and> kernel_console H hs M tj B k w' t' inp' out'"
proof -
  from kernel.outputsD [OF kernel.outputs_putint put(1), of v] put(2)
  have "kernel_console G gs N tk A n w t inp (out @ int_chars v)" by simp
  with put(1,3) have "map (\<lambda>c. (THR, c)) cs = map (\<lambda>c. (THR, c)) (int_chars v)" by (simp add: kernel_console_def)
  then have "cs = int_chars v" by (simp add: inj_map_eq_map inj_def)
  with get show ?thesis using kernel.getint_int_chars [OF _ sep] by blast
qed

lemma int_chars_42: "int_chars (- 42) = [45, 0, 52, 50]"
  by (simp add: int_chars_def uint_chars_def word_sless_alt tab_def digits.simps [of 10 42] digits.simps [of 10 4])

lemma putint_getint_witness:
  "\<exists>(s :: irq_state) t s' t'. putint (kernel_ecall two_symbols) (- 42) s = Some ((), t) \<and>
    written t = map (\<lambda>c. (THR, c)) [45, 0, 52, 50] \<and> ring_rep (uart_in s') [32, 45, 0, 52, 50, 10] \<and>
    getint (kernel_ecall two_symbols) (s' :: irq_state) = Some (- 42, t')"
proof -
  obtain u :: sched_state where u: "sched_inv two_symbols two_groups two_threads two_tasks first_runs u"
    by (rule first_runs_exists)
  have c: "kernel_console two_symbols two_groups two_threads two_tasks first_runs 0x3f00400004 [] (console_state u []) [] []"
    by (rule console_state_ok [OF u]) simp
  have c': "kernel_console two_symbols two_groups two_threads two_tasks first_runs 0x3f00400004 []
      (console_state u [32, 45, 0, 52, 50, 10]) ([32] @ [45, 0, 52, 50] @ [10]) []"
    using console_state_ok [OF u, of "[32, 45, 0, 52, 50, 10]"] by simp
  obtain t where t: "putint (kernel_ecall two_symbols) (- 42) (console_state u []) = Some ((), t)"
    "kernel_console two_symbols two_groups two_threads two_tasks first_runs 0x3f00400004 [] t [] ([] @ int_chars (- 42))"
    using kernel.outputsD [OF kernel.outputs_putint c, of "- 42"] by blast
  then have w: "written t = written (console_state u []) @ map (\<lambda>c. (THR, c)) [45, 0, 52, 50]"
    using c by (simp add: kernel_console_def int_chars_42)
  have sep: "\<forall>c\<in>set [32]. \<not> user_isdigit c \<and> c \<noteq> 45" "\<not> user_isdigit 10" by (simp_all add: user_isdigit_def)
  from putint_getint [OF c t(1) w c' sep] obtain t' where
    "getint (kernel_ecall two_symbols) (console_state u [32, 45, 0, 52, 50, 10]) = Some (- 42, t')" by blast
  with t(1) w c c' show ?thesis
    by (intro exI [of _ "console_state u []"] exI [of _ t] exI [of _ "console_state u [32, 45, 0, 52, 50, 10]"] exI [of _ t'])
      (simp add: kernel_console_def)
qed

text \<open>
  The program of \<^verbatim>\<open>user/hello.c\<close> sends ``Hello'' to the serial port and returns 0.
\<close>
theorem hello_prints:
  assumes "kernel_console G gs N tk A n w s inp out"
  shows "\<exists>t. hello_main (kernel_ecall G) s = Some (0, t) \<and>
    written t = written s @ map (\<lambda>c. (THR, c)) [72, 101, 108, 108, 111]"
proof -
  from kernel.outputsD [OF kernel.outputs_hello assms] obtain t where "hello_main (kernel_ecall G) s = Some (0, t)"
    "kernel_console G gs N tk A n w t inp (out @ [72, 101, 108, 108, 111])" by blast
  with assms show ?thesis by (intro exI [of _ t]) (simp add: kernel_console_def)
qed

lemma hello_prints_witness:
  "\<exists>(s :: irq_state) t. hello_main (kernel_ecall two_symbols) s = Some (0, t) \<and>
    written t = [(THR, 72), (THR, 101), (THR, 108), (THR, 108), (THR, 111)]"
proof -
  obtain u :: sched_state where u: "sched_inv two_symbols two_groups two_threads two_tasks first_runs u"
    by (rule first_runs_exists)
  have c: "kernel_console two_symbols two_groups two_threads two_tasks first_runs 0x3f00400004 [] (console_state u []) [] []"
    by (rule console_state_ok [OF u]) simp
  from hello_prints [OF c] c show ?thesis by (auto simp: kernel_console_def)
qed

end
