(* ===== verification/Exec_Correct.thy ===== *)
theory Exec_Correct
  imports Load_Correct User_Correct
begin

section \<open>Correctness of starting a program\<close>

text \<open>
  \<open>load_elf\<close> leaves the process with its segments, its stack and its registers;
  \<open>task_init_elf\<close> puts the argument vectors on the stack.
\<close>

subsection \<open>The registers of a new program\<close>

text \<open>The frames of the user's pages lie outside the cells of the image.\<close>

lemma image_inv_away:
  "image_inv root l Z F P xs ars s \<Longrightarrow> va < SPLIT \<Longrightarrow> lookup (mem s) root va = Some (pa, fl) \<Longrightarrow>
     VA_of pa \<notin> image_cells l F P xs \<union> Z"
  by (auto simp: image_inv_def)

definition start_registers :: "u64 \<Rightarrow> u64 \<Rightarrow> memory \<Rightarrow> memory" where
  "start_registers uf entry m =
     set_cpu_pc uf entry (set_cpu_register uf REG_SP USERSTACK (fold (\<lambda>i. set_cpu_register uf i 0) [0..<32] m))"

lemma start_registers_ok:
  "agree (- span uf 264) m (start_registers uf entry m)"
  "r < 32 \<Longrightarrow> cpu_register (start_registers uf entry m) uf r = (if r = REG_SP then USERSTACK else 0)"
  "cpu_pc (start_registers uf entry m) uf = entry"
proof -
  have z: "fold (\<lambda>i. set_cpu_register uf i 0) [0..<32] m = set_registers uf (\<lambda>_. Some 0) m"
    by (simp add: set_registers_def)
  have sp: "REG_SP < 32" by (simp add: REG_SP_def)
  show "agree (- span uf 264) m (start_registers uf entry m)" unfolding start_registers_def z
    by (rule agree_trans [OF set_registers_ok(1) agree_trans [OF set_cpu_frame(1) [OF sp] set_cpu_frame(2)]])
  show "cpu_pc (start_registers uf entry m) uf = entry" unfolding start_registers_def by (rule set_cpu_fields(4) [OF sp])
  assume r: "r < 32"
  then show "cpu_register (start_registers uf entry m) uf r = (if r = REG_SP then USERSTACK else 0)"
    unfolding start_registers_def z
    using set_cpu_fields(3) [OF r] set_cpu_fields(1) [OF sp r] set_registers_ok(2) [OF r] by simp
qed

subsection \<open>load_elf\<close>

text \<open>The state that \<open>load_elf\<close> leaves, seen from the user and from \<open>task_init_elf\<close>.\<close>

definition stack_ready ::
  "u64 \<Rightarrow> u64 \<Rightarrow> u64 set \<Rightarrow> u64 set \<Rightarrow> u64 list \<Rightarrow> u64 \<Rightarrow> bool \<Rightarrow> memory \<Rightarrow> u64 \<Rightarrow> bool" where
  "stack_ready root l F P xs ar ex m a \<longleftrightarrow>
     area_loaded m ar (USERSTACK - PAGE_SIZE) 1 (fst (stack_rights ex)) \<and> (\<exists>nd. stack_area m ar nd a \<and> area 0 a \<inter> span nd 32 = {}) \<and>
     frame_at root (USERSTACK - PAGE_SIZE) (snd (stack_rights ex)) a m \<and>
     (\<forall>va pa fl. va < SPLIT \<longrightarrow> va_vpn va \<noteq> va_vpn (USERSTACK - PAGE_SIZE) \<longrightarrow> lookup m root va = Some (pa, fl) \<longrightarrow>
        VA_of pa \<notin> area 0 a) \<and>
     area 0 a \<inter> (image_cells l F P xs \<union> span ar 40) = {}"

definition program_loaded :: "memory \<Rightarrow> u64 \<Rightarrow> u64 \<Rightarrow> u64 list \<Rightarrow> memory \<Rightarrow> bool" where
  "program_loaded m program root hs m' \<longleftrightarrow> (\<forall>h\<in>set hs. p_type m h = PT_LOAD \<longrightarrow> segment_seen m program root h m')"

text \<open>The stack and the registers, behind the last segment.\<close>

lemma finish_elf_ok:
  assumes inv: "image_inv root (t_vm_areas task) Z F P xs ars s" and elf: "span program 64 \<subseteq> Z"
    and below: "\<forall>a\<in>set ars. unat (area_va (mem s) a) \<le> unat (USERSTACK - PAGE_SIZE)"
    and uf: "span (t_user_frame task) 264 \<subseteq> Z" "span (t_user_frame task) 264 \<inter> span program 64 = {}"
  shows "covered 5 F \<and> map_stack task root ex s = Some (Inl ''out of memory'') \<or>
    (\<exists>t m F' P' n ar a. map_stack task root ex s = Some (Inr ((), t)) \<and>
       m = start_registers (t_user_frame task) (e_entry (mem s) program) (mem t) \<and>
       image_inv root (t_vm_areas task) Z F' P' (xs @ [n]) (ars @ [ar]) (t\<lparr>mem := m\<rparr>) \<and>
       stack_ready root (t_vm_areas task) F' P' (xs @ [n]) ar ex m a \<and> area 0 a \<subseteq> F \<and> (\<forall>k<4096. m (a + of_nat k) = 0) \<and>
       e_entry (mem t) program = e_entry (mem s) program \<and>
       (\<forall>va fl b. va < SPLIT \<longrightarrow> unat (va_vpn va) < unat (USERSTACK - PAGE_SIZE) div 4096 \<longrightarrow> sees (mem s) root va fl b \<longrightarrow> sees m root va fl b) \<and>
       agree (Z - span (t_user_frame task) 264) (mem s) m \<and> same_rest s t)"
proof -
  let ?l = "t_vm_areas task" and ?uf = "t_user_frame task" and ?va = "USERSTACK - PAGE_SIZE"
  obtain q where I: "pt_inv root F P s" "vm_areas F q (mem s) ?l xs ars" "list_cells ?l xs \<inter> pages P = {}"
    "Z \<inter> (F \<union> pages P \<union> list_cells ?l xs) = {}" using inv by (auto simp: image_inv_def image_cells_def)
  have top: "\<forall>a\<in>set ars. \<not> ?va < area_va (mem s) a" using below by (fastforce simp: word_less_nat_alt)
  from map_stack_ok [OF I(1-3) top, of ex] show ?thesis
  proof (elim disjE exE conjE)
    fix t ar n nd a F' P' q'
    assume t: "map_stack task root ex s = Some (Inr ((), t))" "pt_inv root F' P' t" "F' \<subseteq> F"
        "vm_areas F' q' (mem t) ?l (xs @ [n]) (ars @ [ar])" "area_loaded (mem t) ar ?va 1 (fst (stack_rights ex))"
        "stack_area (mem t) ar nd a"
      and a: "area 0 a \<union> span nd 32 \<subseteq> F"
        "area 0 a \<inter> (F' \<union> pages P' \<union> list_cells ?l (xs @ [n]) \<union> span ar 40 \<union> span nd 32) = {}"
      and fr: "frame_at root ?va (snd (stack_rights ex)) a (mem t)" "\<forall>k<4096. mem t (a + of_nat k) = 0"
        "pages_mapped root ?va 1 (snd (stack_rights ex)) (\<lambda>_. 0) F (F' \<union> pages P' \<union> list_cells ?l (xs @ [n])) (mem t)"
      and o: "\<forall>va. va_vpn va \<noteq> va_vpn ?va \<longrightarrow> lookup (mem t) root va = lookup (mem s) root va"
      and ag: "agree (- (F \<union> pages P \<union> list_cells ?l xs)) (mem s) (mem t)" "same_rest s t"
      and new: "pages P' \<subseteq> F \<union> pages P" "span n 32 \<union> span ar 40 \<subseteq> F" "(span n 32 \<union> span ar 40) \<inter> pages P' = {}"
    have o1: "\<forall>va. (\<forall>i<1. va_vpn va \<noteq> va_vpn (?va + of_nat (i * 4096))) \<longrightarrow> lookup (mem t) root va = lookup (mem s) root va"
      using o by simp
    have va: "va_off ?va = 0" "unat ?va + 1 * 4096 \<le> 2 ^ 39" by (simp_all add: va_off_def field_def)
    note S = image_step_area(1) [OF inv t(2-4) fr(3) o1 ag new va]
    have inv1: "image_inv root ?l Z F' P' (xs @ [n]) (ars @ [ar]) t" using S by (simp add: image_step_def)
    have agZ: "agree Z (mem s) (mem t)" by (rule agree_mono [OF ag(1)]) (use I(4) in blast)
    have entry: "e_entry (mem t) program = e_entry (mem s) program"
      by (rule elf_header_agree(3) [OF agree_mono [OF agZ elf]])
    let ?m = "start_registers ?uf (e_entry (mem s) program) (mem t)"
    note sr = start_registers_ok(1) [of ?uf "mem t" "e_entry (mem s) program"]
    have cut: "span ?uf 264 \<inter> image_cells ?l F' P' (xs @ [n]) = {}" using inv1 uf(1) by (auto simp: image_inv_def)
    note W = image_inv_write [OF inv1 sr cut]
    have uF: "span ?uf 264 \<inter> F = {}" using uf(1) I(4) by blast
    have keep: "agree A (mem t) ?m" if "A \<subseteq> F" for A by (rule agree_mono [OF sr]) (use uF that in blast)
    have "span ar 24 \<subseteq> span ar 40" "span (ar + 24) 16 \<subseteq> span ar 40" by (rule span_mono span_shift_subset; simp)+
    then have sub: "span ar 24 \<subseteq> F" "span (ar + 24) 16 \<subseteq> F" "span nd 32 \<subseteq> F" "area 0 a \<subseteq> F" using new(2) a(1) by blast+
    have "area_loaded ?m ar ?va 1 (fst (stack_rights ex))" using area_loaded_frame [OF keep [OF sub(1)]] t(5) by blast
    moreover have "stack_area ?m ar nd a"
    proof -
      have "span (ar + 24) 8 \<subseteq> span (ar + 24) 16" "span (ar + 24 + 8) 8 \<subseteq> span (ar + 24) 16" "span nd 8 \<subseteq> span nd 32"
        by (rule span_mono span_shift_subset; simp)+
      with agree_load64 [OF keep [OF sub(2)]] agree_load64 [OF keep [OF sub(3)]] t(6) show ?thesis
        by (simp add: stack_area_def l_first_def l_last_def n_value_def area_pages_def)
    qed
    moreover have "frame_at root ?va (snd (stack_rights ex)) a ?m" using fr(1) W(2) by (simp add: frame_at_def)
    moreover have "VA_of pa \<notin> area 0 a" if "va < SPLIT" "va_vpn va \<noteq> va_vpn ?va" "lookup ?m root va = Some (pa, fl)" for va pa fl
      using image_inv_away [OF inv that(1)] that(3) o that(2) W(2) sub(4) by (auto simp: image_cells_def)
    ultimately have "stack_ready root ?l F' P' (xs @ [n]) ar ex ?m a"
      using a(2) unfolding stack_ready_def image_cells_def by blast
    moreover have "\<forall>k<4096. ?m (a + of_nat k) = 0"
      using fr(2) keep [OF sub(4)] by (auto simp: agree_def area_def span_iff unat_of_nat)
    moreover have "sees ?m root va fl b"
      if "va < SPLIT" "unat (va_vpn va) < unat ?va div 4096" "sees (mem s) root va fl b" for va fl b
    proof -
      have "va_vpn va \<noteq> va_vpn ?va" using that(2) by (auto simp: va_vpn_def field_def)
      then have "lookup (mem t) root va = lookup (mem s) root va" using o by blast
      then have "sees (mem t) root va fl b" using sees_step [OF inv S that(1) _ that(3)] by blast
      then show ?thesis by (rule W(3)) (use image_inv_away [OF inv1 that(1)] uf(1) in blast)
    qed
    moreover have "agree (Z - span ?uf 264) (mem s) ?m"
      by (rule agree_trans [OF agree_mono [OF agZ] agree_mono [OF sr]]) auto
    ultimately show ?thesis using t(1) W(1) a(1) ag(2) entry by blast
  qed blast
qed

lemma load_elf_ok:
  assumes inv: "image_inv root (t_vm_areas task) Z F P xs ars s" and root: "t_page_table (mem s) task = root"
    and elf: "e_machine (mem s) program = 0xf3" "span program 64 \<subseteq> Z"
    and hs: "hs = map (phdr_addr (mem s) program) [0..<unat (e_phnum (mem s) program)]"
    and ok: "program_ok (mem s) program Z lo hs" and below: "\<forall>a\<in>set ars. unat (area_va (mem s) a) \<le> lo * 4096"
    and lo: "lo * 4096 \<le> unat (USERSTACK - PAGE_SIZE)"
    and uf: "span (t_user_frame task) 264 \<subseteq> Z" "span (t_user_frame task) 264 \<inter> span program 64 = {}"
  shows "covered (sum_list (map (segment_need (mem s)) hs) + 5) F \<and> load_elf task program s = Some (Inl ''out of memory'') \<or>
    (\<exists>t F' P' xs' ars' n ar a. load_elf task program s = Some (Inr (0, t)) \<and>
       image_inv root (t_vm_areas task) Z F' P' (xs' @ [n]) (ars' @ [ar]) t \<and> program_loaded (mem s) program root hs (mem t) \<and>
       stack_ready root (t_vm_areas task) F' P' (xs' @ [n]) ar (fold (stack_exec (mem s)) hs False) (mem t) a \<and>
       area 0 a \<subseteq> F \<and> (\<forall>k<4096. mem t (a + of_nat k) = 0) \<and>
       (\<forall>r<32. cpu_register (mem t) (t_user_frame task) r = (if r = REG_SP then USERSTACK else 0)) \<and>
       cpu_pc (mem t) (t_user_frame task) = e_entry (mem s) program \<and>
       agree (Z - span (t_user_frame task) 264) (mem s) (mem t) \<and> same_rest s t)"
proof -
  let ?l = "t_vm_areas task" and ?uf = "t_user_frame task" and ?ex = "fold (stack_exec (mem s)) hs False"
    and ?va = "USERSTACK - PAGE_SIZE" and ?need = "sum_list (map (segment_need (mem s)) hs)"
  have pc: "set_cpu_pc ?uf (e_entry m1 program) m1 = start_registers ?uf (e_entry m program) m"
    if "m1 = set_cpu_register ?uf REG_SP USERSTACK (fold (\<lambda>i. set_cpu_register ?uf i 0) [0..<32] m)" for m m1
  proof -
    have sp: "REG_SP < 32" by (simp add: REG_SP_def)
    have z: "fold (\<lambda>i. set_cpu_register ?uf i 0) [0..<32] m = set_registers ?uf (\<lambda>_. Some 0) m" by (simp add: set_registers_def)
    have "agree (span program 64) m m1" unfolding that z
      by (rule agree_mono [OF agree_trans [OF set_registers_ok(1) set_cpu_frame(1) [OF sp]]]) (use uf(2) in blast)
    then have "e_entry m1 program = e_entry m program" by (rule elf_header_agree(3))
    then show ?thesis by (simp add: start_registers_def that)
  qed
  have call: "load_elf task program s = kbind (\<lambda>s. load_phdrs task root program 0 False s) (\<lambda>r. case r of
      Inl err \<Rightarrow> kreturn err
    | Inr execstack \<Rightarrow> kthen (map_stack task root execstack)
        (kthen (kmodify (\<lambda>s. s\<lparr>mem := start_registers ?uf (e_entry (mem s) program) (mem s)\<rparr>)) (kreturn 0))) s"
    using elf(1) root pc [OF refl]
    by (simp add: load_elf_def kbind_Inr write_mem_def kthen_def kbind_def split: sum.splits option.splits cong: option.case_cong sum.case_cong)
  from load_phdrs_ok [OF inv elf(2) hs ok below lo, of False] show ?thesis
  proof (elim disjE exE conjE)
    assume "covered ?need F" "load_phdrs task root program 0 False s = Some (Inl ''out of memory'')"
    then show ?thesis using covered_mono [of ?need F "?need + 5"] by (simp add: call kbind_Inl)
  next
    fix t F1 P1 xs1 ars1
    assume t: "load_phdrs task root program 0 False s = Some (Inr (Inr ?ex, t))" "image_step root ?l Z F P xs s F1 P1 xs1 ars1 t"
      "\<forall>h\<in>set hs. p_type (mem s) h = PT_LOAD \<longrightarrow> segment_seen (mem s) program root h (mem t)"
      "\<forall>a\<in>set ars1. unat (area_va (mem t) a) \<le> unat ?va" "\<forall>k. covered k F1 \<longrightarrow> covered (k + ?need) F"
    have inv1: "image_inv root ?l Z F1 P1 xs1 ars1 t" and F1: "F1 \<subseteq> F" and ag: "agree (- image_cells ?l F P xs) (mem s) (mem t)"
      and rest: "same_rest s t" using t(2) by (simp_all add: image_step_def)
    have agZ: "agree Z (mem s) (mem t)" by (rule agree_mono [OF ag]) (use inv in \<open>auto simp: image_inv_def\<close>)
    have entry: "e_entry (mem t) program = e_entry (mem s) program"
      by (rule elf_header_agree(3) [OF agree_mono [OF agZ elf(2)]])
    from finish_elf_ok [OF inv1 elf(2) t(4) uf, of ?ex] show ?thesis
    proof (elim disjE exE conjE)
      assume "covered 5 F1" "map_stack task root ?ex t = Some (Inl ''out of memory'')"
      then show ?thesis using t(1,5) by (auto simp: call kbind_Inr kthen_Inl add.commute)
    next
      fix u m G Q n ar a
      assume u: "map_stack task root ?ex t = Some (Inr ((), u))" "m = start_registers ?uf (e_entry (mem t) program) (mem u)"
        "image_inv root ?l Z G Q (xs1 @ [n]) (ars1 @ [ar]) (u\<lparr>mem := m\<rparr>)" "stack_ready root ?l G Q (xs1 @ [n]) ar ?ex m a"
        "area 0 a \<subseteq> F1" "\<forall>k<4096. m (a + of_nat k) = 0" "e_entry (mem u) program = e_entry (mem t) program"
        "\<forall>va fl b. va < SPLIT \<longrightarrow> unat (va_vpn va) < unat ?va div 4096 \<longrightarrow> sees (mem t) root va fl b \<longrightarrow> sees m root va fl b"
        "agree (Z - span ?uf 264) (mem t) m" "same_rest t u"
      have run: "load_elf task program s = Some (Inr (0, u\<lparr>mem := m\<rparr>))"
        using t(1) u(1,2,7) by (simp add: call kbind_Inr kthen_Inr)
      have "segment_seen (mem s) program root h m" if h: "h \<in> set hs" "p_type (mem s) h = PT_LOAD" for h
      proof -
        obtain lo' where ld: "loadable (mem s) program Z lo' h" using program_loadable [OF ok h] by blast
        then have "segment_top (mem s) h \<le> unat ?va div 4096" by (rule segment_top_below(2))
        then show ?thesis using t(3) h u(8) segment_pages_below [OF ld] unfolding segment_seen_def
          by (meson less_le_trans)
      qed
      then have "program_loaded (mem s) program root hs m" by (simp add: program_loaded_def)
      moreover have "agree (Z - span ?uf 264) (mem s) m"
        by (rule agree_trans [OF agree_mono [OF agZ] u(9)]) auto
      moreover have "same_rest s (u\<lparr>mem := m\<rparr>)" by (rule same_rest_trans [OF same_rest_trans [OF rest u(10)] same_rest_upd(2)])
      moreover have "\<forall>r<32. cpu_register m ?uf r = (if r = REG_SP then USERSTACK else 0)" "cpu_pc m ?uf = e_entry (mem s) program"
        unfolding u(2) entry using start_registers_ok(2,3) by blast+
      moreover have "area 0 a \<subseteq> F" using u(5) F1 by blast
      moreover have e: "mem (u\<lparr>mem := m\<rparr>) = m" by simp
      ultimately show ?thesis using run u(3,4,6)
        by (intro disjI2 exI [of _ "u\<lparr>mem := m\<rparr>"], unfold e, intro exI conjI) assumption+
    qed
  qed
qed

end
