(* ===== verification/Argv_Correct.thy ===== *)
theory Argv_Correct
  imports Exec_Correct
begin

section \<open>Correctness of the argument vectors of a new program\<close>

text \<open>
  \<open>task_init_elf\<close> counts the strings of \<open>argv\<close> and \<open>envp\<close>, copies them to the stack page and
  writes the pointers to them.
\<close>

subsection \<open>Counting strings\<close>

text \<open>A vector of pointers to strings in the kernel's memory that ends in a null pointer.\<close>

definition kargs :: "memory \<Rightarrow> u64 \<Rightarrow> u64 list \<Rightarrow> u8 list list \<Rightarrow> bool" where
  "kargs m v ps xss \<longleftrightarrow> length ps = length xss \<and> load64 m (v + 8 * of_nat (length xss)) = 0 \<and>
     (\<forall>i<length xss. load64 m (v + 8 * of_nat i) = ps ! i \<and> ps ! i \<noteq> 0 \<and>
        kstring m (ps ! i) (xss ! i) \<and> 0 \<notin> set (xss ! i))"

definition str_bytes :: "u8 list list \<Rightarrow> nat" where
  "str_bytes xss = (\<Sum>xs\<leftarrow>xss. length xs + 1)"

lemma str_bytes_simps [simp]:
  "str_bytes [] = 0" "str_bytes (xs # xss) = length xs + 1 + str_bytes xss"
  by (simp_all add: str_bytes_def)

lemma str_bytes_Suc: "i < length xss \<Longrightarrow> str_bytes (take (Suc i) xss) = str_bytes (take i xss) + length (xss ! i) + 1"
  by (simp add: str_bytes_def take_Suc_conv_app_nth)

lemma str_bytes_take:
  assumes "i < length xss"
  shows "str_bytes (take i xss) + length (xss ! i) + 1 \<le> str_bytes xss"
proof -
  have "str_bytes xss = str_bytes (take (Suc i) xss) + str_bytes (drop (Suc i) xss)"
    by (metis append_take_drop_id str_bytes_def map_append sum_list_append)
  then show ?thesis using str_bytes_Suc [OF assms] by simp
qed

lemma strlen_ok:
  assumes str: "kstring m a xs" and nz: "0 \<notin> set xs"
  shows "strlen m a = Some (of_nat (length xs))"
proof -
  have "strlen_from m a (of_nat i) = Some (of_nat (length xs))" if "i \<le> length xs" for i
    using that
  proof (induction "length xs - i" arbitrary: i)
    case 0
    then show ?case using str by (subst strlen_from.simps) (simp add: kstring_def)
  next
    case (Suc x)
    then have i: "i < length xs" by simp
    with str nz have "m (a + of_nat i) \<noteq> 0" by (metis kstring_def nth_mem)
    moreover have "strlen_from m a (of_nat (Suc i)) = Some (of_nat (length xs))"
      by (rule Suc.hyps(1)) (use Suc.hyps(2) in simp_all)
    ultimately show ?case by (subst strlen_from.simps) (simp add: add.commute)
  qed
  from this [of 0] show ?thesis by (simp add: strlen_def)
qed

lemma count_strings_ok:
  assumes v: "kargs m v ps xss"
  shows "i \<le> length xss \<Longrightarrow> count_strings m v (of_nat i) z =
    Some (of_nat (length xss), z + of_nat (str_bytes (drop i xss)))"
proof (induction "length xss - i" arbitrary: i z)
  case 0
  then show ?case using v by (subst count_strings.simps) (simp add: kargs_def)
next
  case (Suc x)
  then have i: "i < length xss" by simp
  then have d: "drop i xss = xss ! i # drop (Suc i) xss" by (simp add: Cons_nth_drop_Suc)
  have p: "load64 m (v + 8 * of_nat i) = ps ! i" "ps ! i \<noteq> 0" "strlen m (ps ! i) = Some (of_nat (length (xss ! i)))"
    using v i strlen_ok by (auto simp: kargs_def)
  have "count_strings m v (of_nat (Suc i)) z' = Some (of_nat (length xss), z' + of_nat (str_bytes (drop (Suc i) xss)))" for z'
    by (rule Suc.hyps(1)) (use Suc.hyps(2) in simp_all)
  from this [of "z + (of_nat (length (xss ! i)) + 1)"] show ?case
    using p by (subst count_strings.simps) (simp add: d ac_simps)
qed

subsection \<open>Writing strings and pointers\<close>

text \<open>
  The stack page begins at \<open>a\<close>. String \<open>k\<close> lies \<open>off_of off xss k\<close> bytes below the end of the page, its
  pointer \<open>base - 8 * k\<close> bytes.
\<close>

definition off_of :: "nat \<Rightarrow> u8 list list \<Rightarrow> nat \<Rightarrow> nat" where
  "off_of off xss k = off - str_bytes (take k xss)"

definition put_ok :: "memory \<Rightarrow> u64 \<Rightarrow> nat \<Rightarrow> nat \<Rightarrow> u8 list list \<Rightarrow> nat \<Rightarrow> bool" where
  "put_ok m a base off xss k \<longleftrightarrow>
     load64 m (a + of_nat (4096 - base + 8 * k)) = user_stack_addr (of_nat (off_of off xss k)) \<and>
     kstring m (a + of_nat (4096 - off_of off xss k)) (xss ! k)"

text \<open>What the loop may write from string \<open>i\<close> on.\<close>

definition put_cells :: "u64 \<Rightarrow> nat \<Rightarrow> nat \<Rightarrow> u8 list list \<Rightarrow> nat \<Rightarrow> u64 set" where
  "put_cells a base off xss i =
     {x. 4096 - base + 8 * i \<le> unat (x - a) \<and> unat (x - a) < 4096 - base + 8 * length xss \<or>
         4096 - off_of off xss i \<le> unat (x - a) \<and> unat (x - a) < 4096 - off_of off xss (length xss)}"

lemma off_of_Suc: "i < length xss \<Longrightarrow> off_of off xss (Suc i) = off_of off xss i - (length (xss ! i) + 1)"
  by (simp add: off_of_def str_bytes_Suc)

lemma off_of_bounds:
  assumes "str_bytes xss + base \<le> off" and "i < length xss"
  shows "base + length (xss ! i) + 1 \<le> off_of off xss i" and "off_of off xss i \<le> off"
  using str_bytes_take [OF assms(2)] assms(1) by (simp_all add: off_of_def)

lemma off_of_antimono: "i \<le> j \<Longrightarrow> off_of off xss j \<le> off_of off xss i"
proof (induction "j - i" arbitrary: i)
  case (Suc x)
  then have "off_of off xss j \<le> off_of off xss (Suc i)" by simp
  also have "\<dots> \<le> off_of off xss i"
    using off_of_Suc [of i xss off] by (cases "i < length xss") (simp_all add: off_of_def)
  finally show ?case .
qed simp

text \<open>One round of the loop.\<close>

lemma put_string_step:
  assumes page: "\<forall>x\<in>area 0 a. \<not> x < SPLIT" and i: "i < length xss"
    and fit: "str_bytes xss + base \<le> off" "off \<le> 4096" "8 * length xss \<le> base"
    and src: "load64 m (v + 8 * of_nat i) = p" "span (v + 8 * of_nat i) 8 \<inter> area 0 a = {}"
    and str: "steady_string s (area 0 a) p (xss ! i)" and ag: "agree (- area 0 a) (mem s) m"
  obtains m' where
    "put_strings (of_nat i) (of_nat (length xss)) (of_nat base) (of_nat (off_of off xss i)) (a + PAGE_SIZE) v (s\<lparr>mem := m\<rparr>) =
       put_strings (of_nat (Suc i)) (of_nat (length xss)) (of_nat base) (of_nat (off_of off xss (Suc i))) (a + PAGE_SIZE) v (s\<lparr>mem := m'\<rparr>)"
    and "agree (- (put_cells a base off xss i - put_cells a base off xss (Suc i))) m m'" and "put_ok m' a base off xss i"
proof -
  let ?n = "length xss" and ?o = "off_of off xss i" and ?xs = "xss ! i"
  define ptr dest where defs: "ptr = a + of_nat (4096 - base + 8 * i)" "dest = a + of_nat (4096 - ?o)"
  note o = off_of_bounds [OF fit(1) i] and oS = off_of_Suc [OF i, of off]
  have n: "?n < 2 ^ 61" "base \<le> 4096" "?o \<le> 4096" using fit o by simp_all
  have cells: "a + PAGE_SIZE - of_nat base + 8 * of_nat i = ptr" "a + PAGE_SIZE - of_nat ?o = dest"
    unfolding defs using n by (simp_all add: of_nat_diff algebra_simps)
  have lt: "of_nat i < (of_nat ?n :: u64)" using i n by (simp add: word_less_nat_alt unat_of_nat)
  have sz: "unat (of_nat ?o :: u64) = ?o" using n by (simp add: unat_of_nat)
  have A: "x \<in> area 0 a \<longleftrightarrow> unat (x - a) < 4096" for x by (simp add: area_def span_iff)
  have P: "x \<in> span ptr 8 \<longleftrightarrow> 4096 - base + 8 * i \<le> unat (x - a) \<and> unat (x - a) < 4096 - base + 8 * i + 8" for x
    unfolding defs by (rule span_offset_iff) (use i n fit(3) in simp_all)
  have D: "x \<in> span dest k \<longleftrightarrow> 4096 - ?o \<le> unat (x - a) \<and> unat (x - a) < 4096 - ?o + k" if "k \<le> ?o" for x k
    unfolding defs by (rule span_offset_iff) (use n that in simp_all)
  define m1 where "m1 = store64 m ptr (user_stack_addr (of_nat ?o))"
  have m1: "agree (- span ptr 8) m m1" unfolding m1_def by (intro agree_sym [OF agree_store64]) blast
  have PA: "span ptr 8 \<subseteq> area 0 a" using i n fit(3) by (auto simp: P A)
  have ag1: "agree (- area 0 a) m m1" by (rule agree_mono [OF m1]) (use PA in blast)
  have p: "load64 m1 (v + 8 * of_nat i) = p"
    using agree_load64 [OF ag1, of "v + 8 * of_nat i"] src by (metis disjoint_eq_subset_Compl)
  have "\<exists>m'. strlcpy dest p (of_nat ?o) (s\<lparr>mem := m1\<rparr>) = Some (Inr (Some (of_nat (length ?xs)), s\<lparr>mem := m'\<rparr>)) \<and>
      agree (- span dest (Suc (length ?xs))) m1 m' \<and> kstring m' dest ?xs"
  proof (rule strlcpy_ok [OF str _ _ _ _ agree_trans [OF ag ag1]])
    show "length ?xs < unat (of_nat ?o :: u64)" using sz o(1) by simp
    show "0 <=s (of_nat ?o :: u64)" using sz n(3) by (simp add: nonneg_iff)
    show DA: "span dest (unat (of_nat ?o :: u64)) \<subseteq> area 0 a" unfolding sz using n(3) by (auto simp: D A)
    show "\<forall>j<of_nat ?o. \<not> dest + j < SPLIT"
      using DA page by (auto simp: span_iff word_less_nat_alt sz subset_iff)
  qed
  then obtain m' where m': "strlcpy dest p (of_nat ?o) (s\<lparr>mem := m1\<rparr>) = Some (Inr (Some (of_nat (length ?xs)), s\<lparr>mem := m'\<rparr>))"
    "agree (- span dest (Suc (length ?xs))) m1 m'" "kstring m' dest ?xs" by blast
  have next_off: "of_nat ?o - (of_nat (length ?xs) + 1) = (of_nat (off_of off xss (Suc i)) :: u64)"
    unfolding oS using o(1) by (simp add: of_nat_diff)
  have run: "put_strings (of_nat i) (of_nat ?n) (of_nat base) (of_nat ?o) (a + PAGE_SIZE) v (s\<lparr>mem := m\<rparr>) =
      put_strings (of_nat (Suc i)) (of_nat ?n) (of_nat base) (of_nat (off_of off xss (Suc i))) (a + PAGE_SIZE) v (s\<lparr>mem := m'\<rparr>)"
    by (subst put_strings.simps)
      (simp add: lt cells kthen_Inr kbind_Inr write_mem_def m1_def [symmetric] p m'(1) next_off add.commute [of 1] del: PAGE_SIZE_def)
  have C: "x \<in> put_cells a base off xss i - put_cells a base off xss (Suc i)"
    if "x \<in> span ptr 8 \<or> x \<in> span dest (Suc (length ?xs))" for x
  proof -
    have oS': "off_of off xss (Suc i) = ?o - (length ?xs + 1)" "off_of off xss ?n \<le> off_of off xss (Suc i)"
      using oS off_of_antimono [of "Suc i" ?n off xss] i by simp_all
    have "base \<le> off_of off xss ?n" using fit(1) by (simp add: off_of_def)
    with that oS' o n i fit(3) show ?thesis by (auto simp: P D put_cells_def)
  qed
  show ?thesis
  proof (rule that [OF run])
    have "agree (- (put_cells a base off xss i - put_cells a base off xss (Suc i))) m m1"
      "agree (- (put_cells a base off xss i - put_cells a base off xss (Suc i))) m1 m'"
      using C by (blast intro: agree_mono [OF m1] agree_mono [OF m'(2)])+
    then show "agree (- (put_cells a base off xss i - put_cells a base off xss (Suc i))) m m'" by (rule agree_trans)
    have "span ptr 8 \<subseteq> - span dest (Suc (length ?xs))" using o n i fit(3) by (auto simp: P D)
    from agree_load64 [OF m'(2) this] have "load64 m' ptr = user_stack_addr (of_nat ?o)" by (simp add: m1_def mem_simps)
    with m'(3) show "put_ok m' a base off xss i" unfolding put_ok_def defs by blast
  qed
qed

lemma put_ok_frame:
  assumes "put_ok m a base off xss k" and k: "k < length xss"
    and fit: "str_bytes xss + base \<le> off" "off \<le> 4096" "8 * length xss \<le> base" and ag: "agree A m m'"
    and sub: "\<And>x. 4096 - base + 8 * k \<le> unat (x - a) \<and> unat (x - a) < 4096 - base + 8 * k + 8 \<or>
        4096 - off_of off xss k \<le> unat (x - a) \<and> unat (x - a) < 4096 - off_of off xss k + Suc (length (xss ! k)) \<Longrightarrow> x \<in> A"
  shows "put_ok m' a base off xss k"
proof -
  note o = off_of_bounds [OF fit(1) k]
  have "span (a + of_nat (4096 - base + 8 * k)) 8 \<subseteq> A"
    using span_offset_iff [of "4096 - base + 8 * k" 8 _ a] k fit by (intro subsetI sub) auto
  from agree_load64 [OF ag this] have "load64 m' (a + of_nat (4096 - base + 8 * k)) = user_stack_addr (of_nat (off_of off xss k))"
    using assms(1) by (simp add: put_ok_def)
  moreover have "span (a + of_nat (4096 - off_of off xss k)) (Suc (length (xss ! k))) \<subseteq> A"
    using span_offset_iff [of "4096 - off_of off xss k" "Suc (length (xss ! k))" _ a] o fit by (intro subsetI sub) auto
  then have "kstring m' (a + of_nat (4096 - off_of off xss k)) (xss ! k)"
    using assms(1) o fit by (intro kstring_agree [OF _ agree_mono [OF ag]]) (auto simp: put_ok_def)
  ultimately show ?thesis by (simp add: put_ok_def)
qed

text \<open>The cells of a vector and of its strings.\<close>

definition kargs_cells :: "u64 \<Rightarrow> u64 list \<Rightarrow> u8 list list \<Rightarrow> u64 set" where
  "kargs_cells v ps xss = span v (8 * length xss + 8) \<union> (\<Union>k<length xss. span (ps ! k) (Suc (length (xss ! k))))"

definition kargs_kernel :: "u64 list \<Rightarrow> u8 list list \<Rightarrow> bool" where
  "kargs_kernel ps xss \<longleftrightarrow> (\<forall>k<length xss. \<forall>j\<le>length (xss ! k). \<not> ps ! k + of_nat j < SPLIT)"

lemma kargs_pointer_cells:
  assumes "k \<le> length xss" and "length xss < 2 ^ 60"
  shows "span (v + 8 * of_nat k) 8 \<subseteq> kargs_cells v ps xss"
proof -
  have "span (v + of_nat (8 * k)) 8 \<subseteq> span v (8 * length xss + 8)"
    using span_offset_iff [of "8 * k" 8 _ v] assms by (auto simp: span_iff)
  then show ?thesis by (auto simp: kargs_cells_def)
qed

lemma kargs_string_cells: "k < length xss \<Longrightarrow> span (ps ! k) (Suc (length (xss ! k))) \<subseteq> kargs_cells v ps xss"
  by (auto simp: kargs_cells_def)

lemma kargs_agree:
  assumes "kargs m v ps xss" and ag: "agree (kargs_cells v ps xss) m m'" and fit: "str_bytes xss < 2 ^ 60"
  shows "kargs m' v ps xss"
proof -
  have n: "length xss \<le> str_bytes xss" by (induction xss) simp_all
  have "load64 m' (v + 8 * of_nat k) = load64 m (v + 8 * of_nat k)" if "k \<le> length xss" for k
    using agree_load64 [OF ag kargs_pointer_cells [OF that]] n fit by simp
  moreover have "kstring m' (ps ! k) (xss ! k)" if k: "k < length xss" for k
  proof (rule kstring_agree [OF _ agree_mono [OF ag kargs_string_cells [OF k]]])
    show "kstring m (ps ! k) (xss ! k)" using assms(1) k by (simp add: kargs_def)
    show "length (xss ! k) < 2 ^ 63" using str_bytes_take [OF k] fit by simp
  qed
  ultimately show ?thesis using assms(1) by (simp add: kargs_def)
qed

lemma put_strings_ok:
  assumes page: "\<forall>x\<in>area 0 a. \<not> x < SPLIT" and fit: "str_bytes xss + base \<le> off" "off \<le> 4096" "8 * length xss \<le> base"
    and v: "kargs (mem s) v ps xss" "kargs_kernel ps xss" "kargs_cells v ps xss \<inter> area 0 a = {}"
  shows "i \<le> length xss \<Longrightarrow> agree (- area 0 a) (mem s) m \<Longrightarrow>
    \<exists>m'. put_strings (of_nat i) (of_nat (length xss)) (of_nat base) (of_nat (off_of off xss i)) (a + PAGE_SIZE) v (s\<lparr>mem := m\<rparr>)
        = Some (Inr (of_nat (off - str_bytes xss), s\<lparr>mem := m'\<rparr>)) \<and>
      agree (- put_cells a base off xss i) m m' \<and> (\<forall>k<length xss. i \<le> k \<longrightarrow> put_ok m' a base off xss k)"
proof (induction "length xss - i" arbitrary: i m)
  case 0
  then have "i = length xss" by simp
  then show ?case by (subst put_strings.simps) (auto simp: off_of_def intro: exI [of _ m])
next
  case (Suc x)
  let ?n = "length xss"
  have i: "i < ?n" using Suc.hyps(2) by simp
  have len: "length (xss ! k) < 2 ^ 64" if "k < ?n" for k using str_bytes_take [OF that] fit by simp
  have away: "x \<notin> area 0 a" if "x \<in> kargs_cells v ps xss" for x using that v(3) by blast
  have p: "span (v + 8 * of_nat i) 8 \<subseteq> kargs_cells v ps xss" by (rule kargs_pointer_cells) (use i fit in simp_all)
  have src: "span (v + 8 * of_nat i) 8 \<inter> area 0 a = {}" using p away by blast
  have "load64 (mem s) (v + 8 * of_nat i) = ps ! i" using v(1) i by (simp add: kargs_def)
  with agree_load64 [OF Suc.prems(2), of "v + 8 * of_nat i"] src
  have load: "load64 m (v + 8 * of_nat i) = ps ! i" by (metis disjoint_eq_subset_Compl)
  have str: "steady_string s (area 0 a) (ps ! i) (xss ! i)"
  proof (rule kernel_steady)
    show "kstring (mem s) (ps ! i) (xss ! i)" "0 \<notin> set (xss ! i)" using v(1) i by (simp_all add: kargs_def)
    show "\<forall>j\<le>length (xss ! i). \<not> ps ! i + of_nat j < SPLIT \<and> ps ! i + of_nat j \<notin> area 0 a"
      using v(2) i away subsetD [OF kargs_string_cells [OF i]] len [OF i] by (auto simp: kargs_kernel_def span_iff unat_of_nat)
  qed
  obtain m1 where step: "put_strings (of_nat i) (of_nat ?n) (of_nat base) (of_nat (off_of off xss i)) (a + PAGE_SIZE) v (s\<lparr>mem := m\<rparr>) =
       put_strings (of_nat (Suc i)) (of_nat ?n) (of_nat base) (of_nat (off_of off xss (Suc i))) (a + PAGE_SIZE) v (s\<lparr>mem := m1\<rparr>)"
    and m1: "agree (- (put_cells a base off xss i - put_cells a base off xss (Suc i))) m m1" "put_ok m1 a base off xss i"
    by (rule put_string_step [OF page i fit load src str Suc.prems(2)])
  have sub: "put_cells a base off xss (Suc i) \<subseteq> put_cells a base off xss i" "put_cells a base off xss i \<subseteq> area 0 a"
  proof -
    have "off_of off xss (Suc i) \<le> off_of off xss i" "off_of off xss ?n \<le> off" "base \<le> off_of off xss ?n"
      using off_of_antimono [of i "Suc i"] fit(1) by (simp_all add: off_of_def)
    then show "put_cells a base off xss (Suc i) \<subseteq> put_cells a base off xss i" "put_cells a base off xss i \<subseteq> area 0 a"
      using fit by (auto simp: put_cells_def area_def span_iff)
  qed
  have "agree (- area 0 a) m m1" by (rule agree_mono [OF m1(1)]) (use sub(2) in blast)
  from agree_trans [OF Suc.prems(2) this] have ag1: "agree (- area 0 a) (mem s) m1" .
  have "x = ?n - Suc i" "Suc i \<le> ?n" using Suc.hyps(2) by simp_all
  from Suc.hyps(1) [OF this ag1] obtain m' where
    m': "put_strings (of_nat (Suc i)) (of_nat ?n) (of_nat base) (of_nat (off_of off xss (Suc i))) (a + PAGE_SIZE) v (s\<lparr>mem := m1\<rparr>)
        = Some (Inr (of_nat (off - str_bytes xss), s\<lparr>mem := m'\<rparr>))"
      "agree (- put_cells a base off xss (Suc i)) m1 m'" "\<forall>k<?n. Suc i \<le> k \<longrightarrow> put_ok m' a base off xss k" by blast
  have "agree (- put_cells a base off xss i) m m'"
    by (rule agree_trans [OF agree_mono [OF m1(1)] agree_mono [OF m'(2)]]) (use sub(1) in blast)+
  moreover have "put_ok m' a base off xss i"
  proof (rule put_ok_frame [OF m1(2) i fit m'(2)])
    have "off_of off xss (Suc i) = off_of off xss i - (length (xss ! i) + 1)" "off_of off xss ?n = off - str_bytes xss"
      using off_of_Suc [OF i] by (simp_all add: off_of_def)
    then show "x \<in> - put_cells a base off xss (Suc i)"
      if "4096 - base + 8 * i \<le> unat (x - a) \<and> unat (x - a) < 4096 - base + 8 * i + 8 \<or>
        4096 - off_of off xss i \<le> unat (x - a) \<and> unat (x - a) < 4096 - off_of off xss i + Suc (length (xss ! i))" for x
      using that off_of_bounds [OF fit(1) i] i fit by (auto simp: put_cells_def)
  qed
  ultimately show ?case using step m'(1,3) by (metis Suc_leI le_neq_implies_less)
qed

subsection \<open>Both vectors\<close>

definition argument_bytes :: "u8 list list \<Rightarrow> u8 list list \<Rightarrow> nat" where
  "argument_bytes xss yss = str_bytes xss + str_bytes yss + 8 * (length xss + length yss + 2)"

text \<open>
  What the loops leave on the page \<open>a\<close>: strings and pointers of both vectors, in which \<open>envp\<close> begins
  at the end of \<open>argv\<close>, and the null pointers that nothing overwrote.
\<close>

definition vectors_placed :: "memory \<Rightarrow> memory \<Rightarrow> u64 \<Rightarrow> u8 list list \<Rightarrow> u8 list list \<Rightarrow> bool" where
  "vectors_placed m m' a xss yss \<longleftrightarrow>
     (\<forall>k<length xss. put_ok m' a (8 * (length xss + length yss + 2)) (argument_bytes xss yss) xss k) \<and>
     (\<forall>k<length yss. put_ok m' a (8 * (length yss + 2)) (argument_bytes xss yss - str_bytes xss) yss k) \<and>
     load64 m' (a + 4080) = load64 m (a + 4080)"

lemma put_vectors_ok:
  assumes page: "\<forall>x\<in>area 0 a. \<not> x < SPLIT" and fit: "argument_bytes xss yss \<le> 4096"
    and v: "kargs (mem s) v ps xss" "kargs_kernel ps xss" "kargs_cells v ps xss \<inter> area 0 a = {}"
    and w: "kargs (mem s) w qs yss" "kargs_kernel qs yss" "kargs_cells w qs yss \<inter> area 0 a = {}"
  defines "avo \<equiv> 8 * (length xss + length yss + 2)" and "evo \<equiv> 8 * (length yss + 2)"
  obtains m' where "kbind (put_strings 0 (of_nat (length xss)) (of_nat avo) (of_nat (argument_bytes xss yss)) (a + PAGE_SIZE) v)
      (\<lambda>off. put_strings 0 (of_nat (length yss)) (of_nat evo) off (a + PAGE_SIZE) w) s = Some (Inr (of_nat avo, s\<lparr>mem := m'\<rparr>))"
    and "agree (- area 0 a) (mem s) m'" and "vectors_placed (mem s) m' a xss yss"
proof -
  let ?b = "argument_bytes xss yss" and ?c = "argument_bytes xss yss - str_bytes xss"
  have b: "?b = str_bytes xss + str_bytes yss + avo" by (simp add: argument_bytes_def avo_def)
  have f: "str_bytes xss + avo \<le> ?b" "8 * length xss \<le> avo" by (simp_all add: b avo_def)
  have g: "str_bytes yss + evo \<le> ?c" "?c \<le> 4096" "8 * length yss \<le> evo"
    using fit by (simp_all add: b avo_def evo_def)
  have o: "off_of off zss 0 = off" for off zss by (simp add: off_of_def)
  have n: "off_of off zss (length zss) = off - str_bytes zss" for off zss by (simp add: off_of_def)
  obtain m1 where m1: "put_strings 0 (of_nat (length xss)) (of_nat avo) (of_nat ?b) (a + PAGE_SIZE) v s = Some (Inr (of_nat ?c, s\<lparr>mem := m1\<rparr>))"
    "agree (- put_cells a avo ?b xss 0) (mem s) m1" "\<forall>k<length xss. put_ok m1 a avo ?b xss k"
    using put_strings_ok [OF page f(1) fit f(2) v le0 agree_refl] by (auto simp: o)
  have C: "put_cells a avo ?b xss 0 \<subseteq> area 0 a" "put_cells a evo ?c yss 0 \<subseteq> area 0 a"
    using fit by (auto simp: put_cells_def area_def span_iff n o b avo_def evo_def)
  have ag1: "agree (- area 0 a) (mem s) m1" by (rule agree_mono [OF m1(2)]) (use C(1) in blast)
  obtain m2 where m2: "put_strings 0 (of_nat (length yss)) (of_nat evo) (of_nat ?c) (a + PAGE_SIZE) w (s\<lparr>mem := m1\<rparr>) =
      Some (Inr (of_nat avo, s\<lparr>mem := m2\<rparr>))"
    "agree (- put_cells a evo ?c yss 0) m1 m2" "\<forall>k<length yss. put_ok m2 a evo ?c yss k"
    using put_strings_ok [OF page g w le0 ag1] by (auto simp: o b)
  show ?thesis
  proof (rule that)
    show "kbind (put_strings 0 (of_nat (length xss)) (of_nat avo) (of_nat ?b) (a + PAGE_SIZE) v)
      (\<lambda>off. put_strings 0 (of_nat (length yss)) (of_nat evo) off (a + PAGE_SIZE) w) s = Some (Inr (of_nat avo, s\<lparr>mem := m2\<rparr>))"
      using m1(1) m2(1) by (simp add: kbind_Inr del: PAGE_SIZE_def)
    show "agree (- area 0 a) (mem s) m2"
      by (rule agree_trans [OF ag1 agree_mono [OF m2(2)]]) (use C(2) in blast)
    have "put_ok m2 a avo ?b xss k" if k: "k < length xss" for k
    proof (rule put_ok_frame [OF _ k f(1) fit f(2) m2(2)])
      show "put_ok m1 a avo ?b xss k" using m1(3) k by blast
      show "x \<in> - put_cells a evo ?c yss 0"
        if "4096 - avo + 8 * k \<le> unat (x - a) \<and> unat (x - a) < 4096 - avo + 8 * k + 8 \<or>
            4096 - off_of ?b xss k \<le> unat (x - a) \<and> unat (x - a) < 4096 - off_of ?b xss k + Suc (length (xss ! k))" for x
        using that str_bytes_take [OF k] k fit by (auto simp: put_cells_def n o off_of_def b avo_def evo_def)
    qed
    moreover have "load64 m2 (a + 4080) = load64 (mem s) (a + 4080)"
    proof -
      have "span (a + 4080) 8 \<subseteq> - put_cells a avo ?b xss 0" "span (a + 4080) 8 \<subseteq> - put_cells a evo ?c yss 0"
        using span_offset_iff [of 4080 8 _ a] fit by (auto simp: put_cells_def n o b avo_def evo_def)
      then show ?thesis using agree_load64 [OF m1(2)] agree_load64 [OF m2(2)] by metis
    qed
    ultimately show "vectors_placed (mem s) m2 a xss yss"
      using m2(3) by (simp add: vectors_placed_def avo_def evo_def del: PAGE_SIZE_def)
  qed
qed

subsection \<open>What the program finds\<close>

lemma stack_view:
  assumes "frame_at root (USERSTACK - PAGE_SIZE) fl a m" and "j < c" and "c \<le> 4096"
  shows "user_mem m root (USERSTACK - of_nat c + of_nat j) = m (a + of_nat (4096 - c) + of_nat j)"
proof -
  have "\<exists>pa. lookup m root (USERSTACK - PAGE_SIZE + of_nat (4096 - c + j)) = Some (pa, fl) \<and> VA_of pa = a + of_nat (4096 - c + j)"
    by (rule spec [OF assms(1) [unfolded frame_at_def], THEN mp]) (use assms(2,3) in simp)
  then have "user_mem m root (USERSTACK - PAGE_SIZE + of_nat (4096 - c + j)) = m (a + of_nat (4096 - c + j))"
    by (auto simp: user_mem_def)
  moreover have "USERSTACK - PAGE_SIZE + of_nat (4096 - c + j) = USERSTACK - of_nat c + of_nat j"
    "a + of_nat (4096 - c + j) = a + of_nat (4096 - c) + of_nat j" using assms(3) by (simp_all add: of_nat_diff)
  ultimately show ?thesis by (simp only:)
qed

lemma stack_view_load64:
  assumes "frame_at root (USERSTACK - PAGE_SIZE) fl a m" and "8 \<le> c" and "c \<le> 4096"
  shows "load64 (user_mem m root) (USERSTACK - of_nat c) = load64 m (a + of_nat (4096 - c))"
  unfolding load64_def by (rule load_le_offset) (use stack_view [OF assms(1)] assms(2,3) in simp)

lemma stack_view_string:
  assumes "frame_at root (USERSTACK - PAGE_SIZE) fl a m" and "kstring m (a + of_nat (4096 - c)) xs"
    and "length xs < c" and "c \<le> 4096"
  shows "kstring (user_mem m root) (USERSTACK - of_nat c) xs"
  using assms(2) stack_view [OF assms(1) _ assms(4)] assms(3) unfolding kstring_def by simp

text \<open>
  The program's view: \<open>xss\<close> behind the pointers at \<open>av\<close>, \<open>yss\<close> behind those at \<open>ev\<close>. The vector at
  \<open>ev\<close> ends in a null pointer; the entry of \<open>av\<close> behind the last string is the first of \<open>ev\<close>.
\<close>

definition user_args :: "memory \<Rightarrow> u64 \<Rightarrow> u64 \<Rightarrow> u8 list list \<Rightarrow> u8 list list \<Rightarrow> bool" where
  "user_args u av ev xss yss \<longleftrightarrow>
     (\<forall>k<length xss. load64 u (av + 8 * of_nat k) \<noteq> 0 \<and> kstring u (load64 u (av + 8 * of_nat k)) (xss ! k)) \<and>
     (\<forall>k<length yss. load64 u (ev + 8 * of_nat k) \<noteq> 0 \<and> kstring u (load64 u (ev + 8 * of_nat k)) (yss ! k)) \<and>
     load64 u (ev + 8 * of_nat (length yss)) = 0 \<and> av + 8 * of_nat (length xss) = ev"

lemma placed_view:
  assumes fr: "frame_at root (USERSTACK - PAGE_SIZE) fl a m'" and pl: "vectors_placed m m' a xss yss"
    and fit: "argument_bytes xss yss \<le> 4096" and z: "load64 m (a + 4080) = 0"
  shows "user_args (user_mem m' root) (user_stack_addr (of_nat (8 * (length xss + length yss + 2))))
     (user_stack_addr (of_nat (8 * (length yss + 2)))) xss yss"
proof -
  let ?avo = "8 * (length xss + length yss + 2)" and ?evo = "8 * (length yss + 2)" and ?b = "argument_bytes xss yss"
  have one: "load64 (user_mem m' root) (user_stack_addr (of_nat base) + 8 * of_nat k) \<noteq> 0 \<and>
      kstring (user_mem m' root) (load64 (user_mem m' root) (user_stack_addr (of_nat base) + 8 * of_nat k)) (zss ! k)"
    if ok: "put_ok m' a base off zss k" "k < length zss" "str_bytes zss + base \<le> off" "off \<le> 4096" "8 * length zss \<le> base"
    for base off zss k
  proof -
    note o = off_of_bounds [OF ok(3,2)]
    have av: "user_stack_addr (of_nat base) + 8 * of_nat k = USERSTACK - of_nat (base - 8 * k)"
      and c: "4096 - base + 8 * k = 4096 - (base - 8 * k)" "8 \<le> base - 8 * k" "base - 8 * k \<le> 4096"
      using ok(2-5) by (simp_all add: user_stack_addr_def of_nat_diff)
    from ok(1) have put: "load64 m' (a + of_nat (4096 - (base - 8 * k))) = USERSTACK - of_nat (off_of off zss k)"
        "kstring m' (a + of_nat (4096 - off_of off zss k)) (zss ! k)"
      unfolding put_ok_def user_stack_addr_def c(1) by blast+
    have "kstring (user_mem m' root) (USERSTACK - of_nat (off_of off zss k)) (zss ! k)"
      by (rule stack_view_string [OF fr put(2)]) (use o ok(4) in simp_all)
    moreover have "USERSTACK - of_nat (off_of off zss k) \<noteq> 0"
      using o ok(4) by (auto dest!: arg_cong [where f = unat] simp: unat_sub_if' unat_of_nat)
    ultimately show ?thesis unfolding av stack_view_load64 [OF fr c(2,3)] put(1) by blast
  qed
  have e: "user_stack_addr (of_nat ?evo) + 8 * of_nat (length yss) = USERSTACK - of_nat 16"
    "user_stack_addr (of_nat ?avo) + 8 * of_nat (length xss) = user_stack_addr (of_nat ?evo)"
    by (simp_all add: user_stack_addr_def)
  have "load64 (user_mem m' root) (USERSTACK - of_nat 16) = 0"
    using stack_view_load64 [OF fr, of 16] pl z by (simp add: vectors_placed_def)
  moreover have "load64 (user_mem m' root) (user_stack_addr (of_nat ?avo) + 8 * of_nat k) \<noteq> 0 \<and>
      kstring (user_mem m' root) (load64 (user_mem m' root) (user_stack_addr (of_nat ?avo) + 8 * of_nat k)) (xss ! k)"
    if k: "k < length xss" for k
  proof (rule one [OF _ k])
    show "put_ok m' a ?avo ?b xss k" using pl k unfolding vectors_placed_def by blast
  qed (use fit in \<open>simp_all add: argument_bytes_def\<close>)
  moreover have "load64 (user_mem m' root) (user_stack_addr (of_nat ?evo) + 8 * of_nat k) \<noteq> 0 \<and>
      kstring (user_mem m' root) (load64 (user_mem m' root) (user_stack_addr (of_nat ?evo) + 8 * of_nat k)) (yss ! k)"
    if k: "k < length yss" for k
  proof (rule one [OF _ k])
    show "put_ok m' a ?evo (?b - str_bytes xss) yss k" using pl k unfolding vectors_placed_def by blast
  qed (use fit in \<open>simp_all add: argument_bytes_def\<close>)
  ultimately show ?thesis unfolding user_args_def e by blast
qed

subsection \<open>task_init_elf\<close>

text \<open>The code behind \<open>load_elf\<close>, for \<open>x\<close> and \<open>y\<close> strings of \<open>z\<close> bytes.\<close>

lemma task_init_elf_call:
  fixes x y z :: u64
  assumes nz: "argv \<noteq> 0" "envp \<noteq> 0" "program \<noteq> 0" and load: "load_elf task program s = Some (Inr (0, t))"
    and cnt: "count_strings (mem t) argv 0 0 = Some (x, z1)" "count_strings (mem t) envp 0 z1 = Some (y, z)"
  shows "4096 < z + (x + y + 2) * 8 \<Longrightarrow> task_init_elf task program argv envp s = Some (Inl ''argv too big'')"
    and "\<not> 4096 < z + (x + y + 2) * 8 \<Longrightarrow> n_value (mem t) (l_last (mem t) (t_vm_areas task)) = ar \<Longrightarrow>
      area_loaded (mem t) ar (USERSTACK - PAGE_SIZE) 1 (fst (stack_rights ex)) \<Longrightarrow> stack_area (mem t) ar nd a \<Longrightarrow>
      kbind (put_strings 0 x ((x + y + 2) * 8) (z + (x + y + 2) * 8) (a + PAGE_SIZE) argv)
        (\<lambda>off. put_strings 0 y ((y + 2) * 8) off (a + PAGE_SIZE) envp) t = Some (Inr ((x + y + 2) * 8, u)) \<Longrightarrow>
      task_init_elf task program argv envp s = Some (Inr (0, u\<lparr>mem :=
        set_cpu_register (t_user_frame task) REG_SP (USERSTACK - (z + (x + y + 2) * 8 + 15) div 16 * 16)
       (set_cpu_register (t_user_frame task) REG_A2 (user_stack_addr ((y + 2) * 8))
       (set_cpu_register (t_user_frame task) REG_A1 (user_stack_addr ((x + y + 2) * 8))
       (set_cpu_register (t_user_frame task) REG_A0 x (mem u))))\<rparr>))"
proof -
  show "task_init_elf task program argv envp s = Some (Inl ''argv too big'')" if "4096 < z + (x + y + 2) * 8"
    unfolding task_init_elf_def
    using that nz load cnt by (simp add: kthen_Inr kbind_Inr kwalk_Some Let_def)
  have fl: "fst (stack_rights ex) AND VM_STACK \<noteq> 0" by (cases ex) (simp_all add: stack_rights_def)
  assume "\<not> 4096 < z + (x + y + 2) * 8" "n_value (mem t) (l_last (mem t) (t_vm_areas task)) = ar"
    "area_loaded (mem t) ar (USERSTACK - PAGE_SIZE) 1 (fst (stack_rights ex))" "stack_area (mem t) ar nd a"
    and run: "kbind (put_strings 0 x ((x + y + 2) * 8) (z + (x + y + 2) * 8) (a + PAGE_SIZE) argv)
        (\<lambda>off. put_strings 0 y ((y + 2) * 8) off (a + PAGE_SIZE) envp) t = Some (Inr ((x + y + 2) * 8, u))"
  moreover from run obtain off v where "put_strings 0 x ((x + y + 2) * 8) (z + (x + y + 2) * 8) (a + PAGE_SIZE) argv t = Some (Inr (off, v))"
    "put_strings 0 y ((y + 2) * 8) off (a + PAGE_SIZE) envp v = Some (Inr ((x + y + 2) * 8, u))"
    by (auto simp: kbind_def split: option.splits sum.splits)
  ultimately show "task_init_elf task program argv envp s = Some (Inr (0, u\<lparr>mem :=
        set_cpu_register (t_user_frame task) REG_SP (USERSTACK - (z + (x + y + 2) * 8 + 15) div 16 * 16)
       (set_cpu_register (t_user_frame task) REG_A2 (user_stack_addr ((y + 2) * 8))
       (set_cpu_register (t_user_frame task) REG_A1 (user_stack_addr ((x + y + 2) * 8))
       (set_cpu_register (t_user_frame task) REG_A0 x (mem u))))\<rparr>))"
    unfolding task_init_elf_def using nz load cnt fl
    by (simp add: kthen_Inr kbind_Inr kwalk_Some Let_def area_loaded_def stack_area_def write_mem_def)
qed

lemma round_up_16:
  assumes "b \<le> 4096"
  shows "(of_nat b + 15) div 16 * 16 = (of_nat ((b + 15) div 16 * 16) :: u64)"
proof -
  have u: "unat (of_nat b + 15 :: u64) = b + 15" using assms by (simp add: unat_word_ariths unat_of_nat)
  have "unat ((of_nat b + 15) div 16 :: u64) = (b + 15) div 16" by (simp add: unat_div_distrib u)
  from arg_cong [where f = "of_nat :: nat \<Rightarrow> u64", OF this] show ?thesis by simp
qed

definition arg_registers :: "u64 \<Rightarrow> u8 list list \<Rightarrow> u8 list list \<Rightarrow> memory \<Rightarrow> memory" where
  "arg_registers uf xss yss m =
     set_cpu_register uf REG_SP (USERSTACK - of_nat ((argument_bytes xss yss + 15) div 16 * 16))
    (set_cpu_register uf REG_A2 (user_stack_addr (of_nat (8 * (length yss + 2))))
    (set_cpu_register uf REG_A1 (user_stack_addr (of_nat (8 * (length xss + length yss + 2))))
    (set_cpu_register uf REG_A0 (of_nat (length xss)) m)))"

lemma arg_registers_ok:
  "agree (- span uf 264) m (arg_registers uf xss yss m)"
  "r < 32 \<Longrightarrow> r \<notin> {REG_SP, REG_A0, REG_A1, REG_A2} \<Longrightarrow> cpu_register (arg_registers uf xss yss m) uf r = cpu_register m uf r"
  "cpu_register (arg_registers uf xss yss m) uf REG_A0 = of_nat (length xss)"
  "cpu_register (arg_registers uf xss yss m) uf REG_A1 = user_stack_addr (of_nat (8 * (length xss + length yss + 2)))"
  "cpu_register (arg_registers uf xss yss m) uf REG_A2 = user_stack_addr (of_nat (8 * (length yss + 2)))"
  "cpu_register (arg_registers uf xss yss m) uf REG_SP = USERSTACK - of_nat ((argument_bytes xss yss + 15) div 16 * 16)"
  "cpu_pc (arg_registers uf xss yss m) uf = cpu_pc m uf"
proof -
  have r: "REG_SP < 32" "REG_A0 < 32" "REG_A1 < 32" "REG_A2 < 32"
    by (simp_all add: REG_SP_def REG_A0_def REG_A1_def REG_A2_def)
  have d: "REG_A0 \<noteq> REG_A1" "REG_A0 \<noteq> REG_A2" "REG_A0 \<noteq> REG_SP" "REG_A1 \<noteq> REG_A2" "REG_A1 \<noteq> REG_SP" "REG_A2 \<noteq> REG_SP"
    by (simp_all add: REG_SP_def REG_A0_def REG_A1_def REG_A2_def)
  note f = set_cpu_fields(1) [OF r(1)] set_cpu_fields(1) [OF r(2)] set_cpu_fields(1) [OF r(3)] set_cpu_fields(1) [OF r(4)]
  show "agree (- span uf 264) m (arg_registers uf xss yss m)" unfolding arg_registers_def
    by (rule agree_trans [OF agree_trans [OF set_cpu_frame(1) [OF r(2)] set_cpu_frame(1) [OF r(3)]]
          agree_trans [OF set_cpu_frame(1) [OF r(4)] set_cpu_frame(1) [OF r(1)]]])
  show "r < 32 \<Longrightarrow> r \<notin> {REG_SP, REG_A0, REG_A1, REG_A2} \<Longrightarrow> cpu_register (arg_registers uf xss yss m) uf r = cpu_register m uf r"
    by (simp add: arg_registers_def f)
  show "cpu_register (arg_registers uf xss yss m) uf REG_A0 = of_nat (length xss)"
    "cpu_register (arg_registers uf xss yss m) uf REG_A1 = user_stack_addr (of_nat (8 * (length xss + length yss + 2)))"
    "cpu_register (arg_registers uf xss yss m) uf REG_A2 = user_stack_addr (of_nat (8 * (length yss + 2)))"
    "cpu_register (arg_registers uf xss yss m) uf REG_SP = USERSTACK - of_nat ((argument_bytes xss yss + 15) div 16 * 16)"
    unfolding arg_registers_def by (simp_all add: f r d d [symmetric] del: of_nat_mult of_nat_add)
  show "cpu_pc (arg_registers uf xss yss m) uf = cpu_pc m uf"
    by (simp add: arg_registers_def set_cpu_fields(2) r)
qed

lemma task_init_elf_tail:
  assumes nz: "argv \<noteq> 0" "envp \<noteq> 0" "program \<noteq> 0" and load: "load_elf task program s = Some (Inr (0, t))"
    and v: "kargs (mem t) argv ps xss" "kargs_kernel ps xss" "kargs_cells argv ps xss \<inter> area 0 a = {}"
    and w: "kargs (mem t) envp qs yss" "kargs_kernel qs yss" "kargs_cells envp qs yss \<inter> area 0 a = {}"
    and ar: "n_value (mem t) (l_last (mem t) (t_vm_areas task)) = ar"
      "area_loaded (mem t) ar (USERSTACK - PAGE_SIZE) 1 (fst (stack_rights ex))" "stack_area (mem t) ar nd a"
  shows "argument_bytes xss yss < 2 ^ 60 \<Longrightarrow> 4096 < argument_bytes xss yss \<Longrightarrow>
      task_init_elf task program argv envp s = Some (Inl ''argv too big'')"
    and "argument_bytes xss yss \<le> 4096 \<Longrightarrow> \<exists>m.
      task_init_elf task program argv envp s = Some (Inr (0, t\<lparr>mem := arg_registers (t_user_frame task) xss yss m\<rparr>)) \<and>
      agree (- area 0 a) (mem t) m \<and> vectors_placed (mem t) m a xss yss"
proof -
  let ?b = "argument_bytes xss yss" and ?x = "of_nat (length xss) :: u64" and ?y = "of_nat (length yss) :: u64"
    and ?z = "of_nat (str_bytes xss + str_bytes yss) :: u64"
  have cnt: "count_strings (mem t) argv 0 0 = Some (?x, of_nat (str_bytes xss))"
    "count_strings (mem t) envp 0 (of_nat (str_bytes xss)) = Some (?y, ?z)"
    using count_strings_ok [OF v(1) le0] count_strings_ok [OF w(1) le0] by simp_all
  note call = task_init_elf_call [OF nz load cnt]
  have o: "(?x + ?y + 2) * 8 = of_nat (8 * (length xss + length yss + 2))" "(?y + 2) * 8 = of_nat (8 * (length yss + 2))" by simp_all
  have z: "?z + of_nat (8 * (length xss + length yss + 2)) = of_nat ?b" by (simp add: argument_bytes_def)
  show "task_init_elf task program argv envp s = Some (Inl ''argv too big'')" if "?b < 2 ^ 60" "4096 < ?b"
    by (rule call(1)) (use that in \<open>simp only: o z word_less_nat_alt unat_of_nat\<close>, simp)
  assume le: "?b \<le> 4096"
  have page: "\<forall>x\<in>area 0 a. \<not> x < SPLIT"
    using block_address(1) [of a "x - a" for x] ar(3) by (auto simp: stack_area_def area_def span_iff)
  obtain m where m: "kbind (put_strings 0 ?x (of_nat (8 * (length xss + length yss + 2))) (of_nat ?b) (a + PAGE_SIZE) argv)
      (\<lambda>off. put_strings 0 ?y (of_nat (8 * (length yss + 2))) off (a + PAGE_SIZE) envp) t =
        Some (Inr (of_nat (8 * (length xss + length yss + 2)), t\<lparr>mem := m\<rparr>))"
    and ag: "agree (- area 0 a) (mem t) m" and pl: "vectors_placed (mem t) m a xss yss"
    by (rule put_vectors_ok [OF page le v w])
  have small: "\<not> 4096 < ?z + (?x + ?y + 2) * 8"
    using le by (simp only: o z word_less_nat_alt unat_of_nat) simp
  have sp: "(of_nat ?b + 15) div 16 * 16 = (of_nat ((?b + 15) div 16 * 16) :: u64)"
    by (rule round_up_16 [OF le])
  from call(2) [OF small ar, of "t\<lparr>mem := m\<rparr>", unfolded o z, OF m]
  have "task_init_elf task program argv envp s = Some (Inr (0, t\<lparr>mem := arg_registers (t_user_frame task) xss yss m\<rparr>))"
    unfolding sp arg_registers_def by simp
  with ag pl show "\<exists>m. task_init_elf task program argv envp s = Some (Inr (0, t\<lparr>mem := arg_registers (t_user_frame task) xss yss m\<rparr>)) \<and>
      agree (- area 0 a) (mem t) m \<and> vectors_placed (mem t) m a xss yss" by blast
qed

lemma cpu_agree:
  assumes "agree (span uf 264) m m'"
  shows "r < 32 \<Longrightarrow> cpu_register m' uf r = cpu_register m uf r" and "cpu_pc m' uf = cpu_pc m uf"
proof -
  have "span (uf + 8 * of_nat r) 8 \<subseteq> span uf 264" if "r < 32"
    using that by (intro span_shift_subset) (simp add: unat_word_ariths unat_of_nat)
  then show "r < 32 \<Longrightarrow> cpu_register m' uf r = cpu_register m uf r"
    unfolding cpu_register_def using agree_load64 [OF assms] by metis
  have "span (uf + 256) 8 \<subseteq> span uf 264" by (rule span_shift_subset) simp
  from agree_load64 [OF assms this] show "cpu_pc m' uf = cpu_pc m uf" by (simp add: cpu_pc_def)
qed

lemma vectors_placed_frame:
  assumes pl: "vectors_placed m m' a xss yss" and ag: "agree (area 0 a) m' m''" and fit: "argument_bytes xss yss \<le> 4096"
  shows "vectors_placed m m'' a xss yss"
proof -
  let ?b = "argument_bytes xss yss"
  have put: "put_ok m'' a base off zss k" if "put_ok m' a base off zss k" "k < length zss"
    "str_bytes zss + base \<le> off" "off \<le> 4096" "8 * length zss \<le> base" for base off zss k
    by (rule put_ok_frame [OF that ag])
      (use that(2-5) off_of_bounds [OF that(3,2)] in \<open>auto simp: area_def span_iff\<close>)
  have "put_ok m'' a (8 * (length xss + length yss + 2)) ?b xss k" if k: "k < length xss" for k
    using pl k fit by (intro put) (auto simp: vectors_placed_def argument_bytes_def)
  moreover have "put_ok m'' a (8 * (length yss + 2)) (?b - str_bytes xss) yss k" if k: "k < length yss" for k
    using pl k fit by (intro put) (auto simp: vectors_placed_def argument_bytes_def)
  moreover have "span (a + 4080) 8 \<subseteq> area 0 a" unfolding area_def by (rule span_shift_subset) simp
  from agree_load64 [OF ag this] pl have "load64 m'' (a + 4080) = load64 m (a + 4080)" by (simp add: vectors_placed_def)
  ultimately show ?thesis unfolding vectors_placed_def by blast
qed

text \<open>What a program starts with.\<close>

definition program_started ::
  "memory \<Rightarrow> u64 \<Rightarrow> u64 \<Rightarrow> u64 \<Rightarrow> u64 list \<Rightarrow> u8 list list \<Rightarrow> u8 list list \<Rightarrow> memory \<Rightarrow> bool" where
  "program_started m program root uf hs xss yss m' \<longleftrightarrow>
     program_loaded m program root hs m' \<and> cpu_pc m' uf = e_entry m program \<and>
     cpu_register m' uf REG_A0 = of_nat (length xss) \<and>
     user_args (user_mem m' root) (cpu_register m' uf REG_A1) (cpu_register m' uf REG_A2) xss yss \<and>
     cpu_register m' uf REG_SP = USERSTACK - of_nat ((argument_bytes xss yss + 15) div 16 * 16) \<and>
     (\<forall>r<32. r \<notin> {REG_SP, REG_A0, REG_A1, REG_A2} \<longrightarrow> cpu_register m' uf r = 0)"

text \<open>From the image that \<open>load_elf\<close> left to the start of the program.\<close>

lemma start_program_ok:
  assumes inv: "image_inv root l Z F P xs ars t" and st: "stack_ready root l F P xs ar ex (mem t) a"
    and ld: "program_loaded m0 program root hs (mem t)"
    and hs: "\<forall>h\<in>set hs. p_type m0 h = PT_LOAD \<longrightarrow> (\<exists>lo. loadable m0 program Z lo h)"
    and uf: "span uf 264 \<subseteq> Z" "span uf 264 \<inter> area 0 a = {}" and ag: "agree (- area 0 a) (mem t) m"
    and regs: "\<forall>r<32. cpu_register (mem t) uf r = (if r = REG_SP then USERSTACK else 0)" "cpu_pc (mem t) uf = e_entry m0 program"
    and pl: "vectors_placed (mem t) m a xss yss" and fit: "argument_bytes xss yss \<le> 4096" and z: "load64 (mem t) (a + 4080) = 0"
  shows "image_inv root l Z F P xs ars (t\<lparr>mem := arg_registers uf xss yss m\<rparr>)"
    and "program_started m0 program root uf hs xss yss (arg_registers uf xss yss m)"
proof -
  let ?U = "area 0 a \<union> span uf 264" and ?m = "arg_registers uf xss yss m"
  note R = arg_registers_ok [where uf = uf and m = m and xss = xss and yss = yss]
  have agU: "agree (- ?U) (mem t) ?m"
    by (rule agree_trans [OF agree_mono [OF ag] agree_mono [OF R(1)]]) blast+
  have agF: "agree (span uf 264) (mem t) m" by (rule agree_mono [OF ag]) (use uf(2) in blast)
  have cut: "?U \<inter> image_cells l F P xs = {}"
  proof -
    have "area 0 a \<inter> image_cells l F P xs = {}" using st by (auto simp: stack_ready_def)
    moreover have "Z \<inter> image_cells l F P xs = {}" using inv by (simp add: image_inv_def)
    ultimately show ?thesis using uf(1) by blast
  qed
  note W = image_inv_write [OF inv agU cut]
  show "image_inv root l Z F P xs ars (t\<lparr>mem := ?m\<rparr>)" by (rule W(1))
  have "segment_seen m0 program root h ?m" if h: "h \<in> set hs" "p_type m0 h = PT_LOAD" for h
    unfolding segment_seen_def
  proof (intro allI impI)
    fix i
    assume i: "i < unat (p_memsz m0 h)"
    obtain lo where lo: "loadable m0 program Z lo h" using hs h by blast
    note b = segment_pages_below [OF lo i] segment_top_below(2) [OF lo]
    then have vpn: "va_vpn (p_vaddr m0 h + of_nat i) \<noteq> va_vpn (USERSTACK - PAGE_SIZE)"
      by (auto simp: va_vpn_def field_def)
    show "sees ?m root (p_vaddr m0 h + of_nat i) (fst (segment_flags (p_flags m0 h)))
        (if i < unat (p_filesz m0 h) then m0 (program + p_offset m0 h + of_nat i) else 0)"
    proof (rule W(3))
      show "sees (mem t) root (p_vaddr m0 h + of_nat i) (fst (segment_flags (p_flags m0 h)))
          (if i < unat (p_filesz m0 h) then m0 (program + p_offset m0 h + of_nat i) else 0)"
        using ld h i by (simp add: program_loaded_def segment_seen_def)
      show "\<forall>pa fl. lookup (mem t) root (p_vaddr m0 h + of_nat i) = Some (pa, fl) \<longrightarrow> VA_of pa \<notin> ?U"
      proof (intro allI impI)
        fix pa fl
        assume look: "lookup (mem t) root (p_vaddr m0 h + of_nat i) = Some (pa, fl)"
        have "\<forall>va pa fl. va < SPLIT \<longrightarrow> va_vpn va \<noteq> va_vpn (USERSTACK - PAGE_SIZE) \<longrightarrow> lookup (mem t) root va = Some (pa, fl) \<longrightarrow>
            VA_of pa \<notin> area 0 a" using st unfolding stack_ready_def by (elim conjE)
        then have "VA_of pa \<notin> area 0 a" using vpn b(1) look by blast
        moreover have "VA_of pa \<notin> Z" using image_inv_away [OF inv b(1) look] by blast
        ultimately show "VA_of pa \<notin> ?U" using uf(1) by blast
      qed
    qed
  qed
  moreover have "user_args (user_mem ?m root) (cpu_register ?m uf REG_A1) (cpu_register ?m uf REG_A2) xss yss"
    unfolding R(4,5)
  proof (rule placed_view [OF _ vectors_placed_frame [OF pl _ fit] fit z])
    show "frame_at root (USERSTACK - PAGE_SIZE) (snd (stack_rights ex)) a ?m"
      using st W(2) by (simp add: stack_ready_def frame_at_def)
    show "agree (area 0 a) m ?m" by (rule agree_mono [OF R(1)]) (use uf(2) in blast)
  qed
  moreover have "cpu_register ?m uf r = 0" if r: "r < 32" "r \<notin> {REG_SP, REG_A0, REG_A1, REG_A2}" for r
    using R(2) [OF r] cpu_agree(1) [OF agF r(1)] regs(1) r by simp
  moreover have "cpu_pc ?m uf = e_entry m0 program" using R(7) cpu_agree(2) [OF agF] regs(2) by simp
  ultimately show "program_started m0 program root uf hs xss yss ?m"
    by (simp add: program_started_def program_loaded_def R(3,6))
qed

lemma task_init_elf_ok:
  assumes inv: "image_inv root (t_vm_areas task) Z F P xs ars s" and root: "t_page_table (mem s) task = root"
    and elf: "e_machine (mem s) program = 0xf3" "span program 64 \<subseteq> Z"
    and hs: "hs = map (phdr_addr (mem s) program) [0..<unat (e_phnum (mem s) program)]"
    and ok: "program_ok (mem s) program Z lo hs" and below: "\<forall>a\<in>set ars. unat (area_va (mem s) a) \<le> lo * 4096"
    and lo: "lo * 4096 \<le> unat (USERSTACK - PAGE_SIZE)"
    and uf: "span (t_user_frame task) 264 \<subseteq> Z" "span (t_user_frame task) 264 \<inter> span program 64 = {}"
    and nz: "argv \<noteq> 0" "envp \<noteq> 0" "program \<noteq> 0"
    and v: "kargs (mem s) argv ps xss" "kargs_kernel ps xss" "kargs_cells argv ps xss \<subseteq> Z - span (t_user_frame task) 264"
    and w: "kargs (mem s) envp qs yss" "kargs_kernel qs yss" "kargs_cells envp qs yss \<subseteq> Z - span (t_user_frame task) 264"
    and small: "argument_bytes xss yss < 2 ^ 60"
  defines "need \<equiv> sum_list (map (segment_need (mem s)) hs) + 5"
  shows "covered need F \<and> task_init_elf task program argv envp s = Some (Inl ''out of memory'') \<or>
    4096 < argument_bytes xss yss \<and> task_init_elf task program argv envp s = Some (Inl ''argv too big'') \<or>
    argument_bytes xss yss \<le> 4096 \<and> (\<exists>t F' P' xs' ars'. task_init_elf task program argv envp s = Some (Inr (0, t)) \<and>
       image_inv root (t_vm_areas task) Z F' P' xs' ars' t \<and>
       program_started (mem s) program root (t_user_frame task) hs xss yss (mem t) \<and> same_rest s t)"
proof -
  let ?l = "t_vm_areas task" and ?uf = "t_user_frame task"
  from load_elf_ok [OF inv root elf hs ok below lo uf] show ?thesis
  proof (elim disjE exE conjE)
    assume "covered (sum_list (map (segment_need (mem s)) hs) + 5) F" "load_elf task program s = Some (Inl ''out of memory'')"
    then show ?thesis using nz by (simp add: task_init_elf_def kthen_Inr kbind_Inl need_def)
  next
    fix t F' P' xs' ars' n ar a
    assume t: "load_elf task program s = Some (Inr (0, t))" "image_inv root ?l Z F' P' (xs' @ [n]) (ars' @ [ar]) t"
      "program_loaded (mem s) program root hs (mem t)"
      and st: "stack_ready root ?l F' P' (xs' @ [n]) ar (fold (stack_exec (mem s)) hs False) (mem t) a"
      and a: "area 0 a \<subseteq> F" "\<forall>k<4096. mem t (a + of_nat k) = 0"
      and regs: "\<forall>r<32. cpu_register (mem t) ?uf r = (if r = REG_SP then USERSTACK else 0)"
        "cpu_pc (mem t) ?uf = e_entry (mem s) program"
      and ag: "agree (Z - span ?uf 264) (mem s) (mem t)" and rest: "same_rest s t"
    have Za: "Z \<inter> area 0 a = {}" using inv a(1) by (auto simp: image_inv_def image_cells_def)
    have fits: "str_bytes xss < 2 ^ 60" "str_bytes yss < 2 ^ 60" using small by (simp_all add: argument_bytes_def)
    have v': "kargs (mem t) argv ps xss" "kargs_cells argv ps xss \<inter> area 0 a = {}"
      using kargs_agree [OF v(1) agree_mono [OF ag v(3)] fits(1)] v(3) Za by blast+
    have w': "kargs (mem t) envp qs yss" "kargs_cells envp qs yss \<inter> area 0 a = {}"
      using kargs_agree [OF w(1) agree_mono [OF ag w(3)] fits(2)] w(3) Za by blast+
    obtain nd where nd: "area_loaded (mem t) ar (USERSTACK - PAGE_SIZE) 1 (fst (stack_rights (fold (stack_exec (mem s)) hs False)))"
      "stack_area (mem t) ar nd a"
      using st unfolding stack_ready_def by blast
    have last: "n_value (mem t) (l_last (mem t) ?l) = ar"
      using t(2) by (auto simp: image_inv_def vm_areas_def list_rep_def)
    note tail = task_init_elf_tail [OF nz t(1) v'(1) v(2) v'(2) w'(1) w(2) w'(2) last nd]
    show ?thesis
    proof (cases "argument_bytes xss yss \<le> 4096")
      case False
      then show ?thesis using tail(1) small by simp
    next
      case True
      obtain m where m: "task_init_elf task program argv envp s = Some (Inr (0, t\<lparr>mem := arg_registers ?uf xss yss m\<rparr>))"
        "agree (- area 0 a) (mem t) m" "vectors_placed (mem t) m a xss yss"
        using tail(2) [OF True] by blast
      have hs': "\<forall>h\<in>set hs. p_type (mem s) h = PT_LOAD \<longrightarrow> (\<exists>lo. loadable (mem s) program Z lo h)"
        using program_loadable [OF ok] by blast
      have ufa: "span ?uf 264 \<inter> area 0 a = {}" using uf(1) Za by blast
      have z: "load64 (mem t) (a + 4080) = 0"
      proof -
        have "mem t (a + 4080 + of_nat j) = 0" if "j < 8" for j
          using a(2) [rule_format, of "4080 + j"] that by (simp add: add.assoc)
        then have "load64 (mem t) (a + 4080) = load64 (\<lambda>_. 0) 0" unfolding load64_def
          by (intro load_le_offset) simp
        also have "\<dots> = 0" by (simp add: load64_def eval_nat_numeral)
        finally show ?thesis .
      qed
      note S = start_program_ok [OF t(2) st t(3) hs' uf(1) ufa m(2) regs m(3) True z]
      have "same_rest s (t\<lparr>mem := arg_registers ?uf xss yss m\<rparr>)" by (rule same_rest_trans [OF rest same_rest_upd(2)])
      moreover have "mem (t\<lparr>mem := arg_registers ?uf xss yss m\<rparr>) = arg_registers ?uf xss yss m" by simp
      ultimately show ?thesis using True m(1) S by metis
    qed
  qed
qed

end
