(* ===== verification/Start_Correct.thy ===== *)
theory Start_Correct
  imports Argv_Correct
begin

section \<open>Correctness of task_init_elf\<close>

text \<open>
  What \<open>task_init_elf\<close> guarantees to the program that it starts, the missing end of \<open>argv\<close>, the panic on
  large vectors, and the two programs on which the properties are applied.
\<close>

subsection \<open>The start of a program\<close>

text \<open>
  What \<open>task_init_elf\<close> is given: a task without areas at or above page \<open>lo\<close>, a RISC-V program whose
  segments the loader takes, and vectors of kernel strings, all apart from the user frame.
\<close>

definition exec_image ::
  "u64 \<Rightarrow> u64 \<Rightarrow> u64 \<Rightarrow> u64 set \<Rightarrow> u64 set \<Rightarrow> u64 set \<Rightarrow> u64 list \<Rightarrow> u64 list \<Rightarrow> nat \<Rightarrow> u64 list \<Rightarrow> 'a mm_state_scheme \<Rightarrow> bool" where
  "exec_image root task program Z F P xs ars lo hs s \<longleftrightarrow>
     image_inv root (t_vm_areas task) Z F P xs ars s \<and> t_page_table (mem s) task = root \<and>
     program \<noteq> 0 \<and> e_machine (mem s) program = 0xf3 \<and> span program 64 \<subseteq> Z \<and>
     hs = map (phdr_addr (mem s) program) [0..<unat (e_phnum (mem s) program)] \<and> program_ok (mem s) program Z lo hs \<and>
     (\<forall>a\<in>set ars. unat (area_va (mem s) a) \<le> lo * 4096) \<and> lo * 4096 \<le> unat (USERSTACK - PAGE_SIZE) \<and>
     span (t_user_frame task) 264 \<subseteq> Z \<and> span (t_user_frame task) 264 \<inter> span program 64 = {}"

definition exec_args :: "u64 \<Rightarrow> u64 set \<Rightarrow> u64 \<Rightarrow> u64 list \<Rightarrow> u8 list list \<Rightarrow> memory \<Rightarrow> bool" where
  "exec_args task Z v ps xss m \<longleftrightarrow>
     v \<noteq> 0 \<and> kargs m v ps xss \<and> kargs_kernel ps xss \<and> kargs_cells v ps xss \<subseteq> Z - span (t_user_frame task) 264"

definition exec_need :: "memory \<Rightarrow> u64 list \<Rightarrow> nat" where
  "exec_need m hs = sum_list (map (segment_need m) hs) + 5"

lemma exec_ok:
  assumes "exec_image root task program Z F P xs ars lo hs s" and "exec_args task Z argv ps xss (mem s)"
    and "exec_args task Z envp qs yss (mem s)" and "argument_bytes xss yss < 2 ^ 60"
  shows "covered (exec_need (mem s) hs) F \<and> task_init_elf task program argv envp s = Some (Inl ''out of memory'') \<or>
    4096 < argument_bytes xss yss \<and> task_init_elf task program argv envp s = Some (Inl ''argv too big'') \<or>
    argument_bytes xss yss \<le> 4096 \<and> (\<exists>t F' P' xs' ars'. task_init_elf task program argv envp s = Some (Inr (0, t)) \<and>
       image_inv root (t_vm_areas task) Z F' P' xs' ars' t \<and>
       program_started (mem s) program root (t_user_frame task) hs xss yss (mem t) \<and> same_rest s t)"
proof -
  note I = assms(1) [unfolded exec_image_def] and A = assms(2,3) [unfolded exec_args_def]
  show ?thesis unfolding exec_need_def
    by (rule task_init_elf_ok [where argv = argv and envp = envp and ps = ps and qs = qs]) (use I A assms(4) in blast)+
qed

text \<open>
  Property C1. \<open>task_init_elf\<close> on a program and on vectors that fit a page: either the memory does not
  suffice and the kernel panics, or the user finds every segment with its bytes and rights, the
  entry point in \<open>pc\<close>, \<open>argc\<close> in \<open>a0\<close>, the strings of \<open>argv\<close> and \<open>envp\<close> behind the pointers at \<open>a1\<close> and
  \<open>a2\<close>, an aligned stack pointer below them and zero in the other registers; the address space stays
  well formed, and nothing but memory changes.
\<close>

theorem task_init_elf_correct:
  assumes "exec_image root task program Z F P xs ars lo hs s" and "exec_args task Z argv ps xss (mem s)"
    and "exec_args task Z envp qs yss (mem s)" and "argument_bytes xss yss \<le> 4096"
  shows "covered (exec_need (mem s) hs) F \<and> task_init_elf task program argv envp s = Some (Inl ''out of memory'') \<or>
    (\<exists>t F' P' xs' ars'. task_init_elf task program argv envp s = Some (Inr (0, t)) \<and>
       image_inv root (t_vm_areas task) Z F' P' xs' ars' t \<and>
       program_started (mem s) program root (t_user_frame task) hs xss yss (mem t) \<and> same_rest s t)"
proof -
  from assms(4) have "argument_bytes xss yss < 2 ^ 60" "\<not> 4096 < argument_bytes xss yss" by simp_all
  with exec_ok [OF assms(1-3)] show ?thesis by blast
qed

text \<open>
  A program with one segment at \<open>0x3f00700000\<close>, and the vectors \<open>{"hi"}\<close> and \<open>{"A=1"}\<close> for it at
  \<open>0x3f00900000\<close> and \<open>0x3f00900010\<close>.
\<close>

definition exec_memory :: memory where
  "exec_memory x = (case map_of
    [(0x3f00700012, 0xf3), (0x3f00700018, 0x10), (0x3f0070001a, 0x01), (0x3f00700020, 64), (0x3f00700036, 56), (0x3f00700038, 1),
     (0x3f00700040, 1), (0x3f00700044, 5), (0x3f00700049, 1), (0x3f00700050, 0x10), (0x3f00700052, 0x01), (0x3f00700060, 1),
     (0x3f00700068, 2), (0x3f00700100, 42),
     (0x3f00900001, 1), (0x3f00900002, 0x90), (0x3f00900004, 0x3f), (0x3f00900011, 2), (0x3f00900012, 0x90), (0x3f00900014, 0x3f),
     (0x3f00900100, 104), (0x3f00900101, 105), (0x3f00900200, 65), (0x3f00900201, 61), (0x3f00900202, 49)] x of
      Some b \<Rightarrow> b | None \<Rightarrow> 0)"

lemma exec_memory_program:
  "e_machine exec_memory 0x3f00700000 = 0xf3" "e_entry exec_memory 0x3f00700000 = 0x10010" "e_phnum exec_memory 0x3f00700000 = 1"
  "phdr_addr exec_memory 0x3f00700000 0 = 0x3f00700040"
  by code_simp+

lemma exec_memory_segment:
  "p_type exec_memory 0x3f00700040 = PT_LOAD" "p_flags exec_memory 0x3f00700040 = 5" "p_offset exec_memory 0x3f00700040 = 0x100"
  "p_vaddr exec_memory 0x3f00700040 = 0x10010" "p_filesz exec_memory 0x3f00700040 = 1" "p_memsz exec_memory 0x3f00700040 = 2"
  by code_simp+

lemma exec_memory_args:
  "kargs exec_memory 0x3f00900000 [0x3f00900100] [[104, 105]]" "kargs exec_memory 0x3f00900010 [0x3f00900200] [[65, 61, 49]]"
proof -
  have "load64 exec_memory 0x3f00900000 = 0x3f00900100" "load64 exec_memory 0x3f00900008 = 0"
    "load64 exec_memory 0x3f00900010 = 0x3f00900200" "load64 exec_memory 0x3f00900018 = 0"
    "map exec_memory [0x3f00900100, 0x3f00900101, 0x3f00900102] = [104, 105, 0]"
    "map exec_memory [0x3f00900200, 0x3f00900201, 0x3f00900202, 0x3f00900203] = [65, 61, 49, 0]"
    by code_simp+
  then show "kargs exec_memory 0x3f00900000 [0x3f00900100] [[104, 105]]" "kargs exec_memory 0x3f00900010 [0x3f00900200] [[65, 61, 49]]"
    by (simp_all add: kargs_def kstring_def All_less_Suc)
qed

lemma kargs_cells_single: "kargs_cells v [p] [xs] = span v 16 \<union> span p (Suc (length xs))"
  unfolding kargs_cells_def by (simp add: lessThan_Suc del: UN_simps)

lemma kargs_kernel_single:
  assumes "SPLIT \<le> p" and "unat p + length xs < 2 ^ 64"
  shows "kargs_kernel [p] [xs]"
proof -
  have "\<not> p + of_nat j < SPLIT" if "j \<le> length xs" for j
  proof -
    have "unat (p + of_nat j) = unat p + j" by (rule file_addr [of _ "length xs"]) (use that assms(2) in simp_all)
    then show ?thesis using assms(1) by (simp add: word_less_nat_alt word_le_nat_alt)
  qed
  then show ?thesis by (simp add: kargs_kernel_def)
qed

lemma exec_program_space:
  assumes free: "agree initial_free (\<lambda>_. 0) m0"
    and m0: "agree (span 0x3f00700000 512) exec_memory m0" "agree (span 0x3f00800000 600) (\<lambda>_. 0) m0"
    and v: "kargs m0 v ps xss" "kargs_cells v ps xss \<subseteq> span 0x3f00900000 8192" "kargs_kernel ps xss" "v \<noteq> 0" "str_bytes xss < 4096"
    and w: "kargs m0 w qs yss" "kargs_cells w qs yss \<subseteq> span 0x3f00900000 8192" "kargs_kernel qs yss" "w \<noteq> 0" "str_bytes yss < 4096"
  obtains root Z and s :: cpu_state where "exec_image root 0x3f00800000 0x3f00700000 Z (initial_free - area 0 root) {root} [] [] 0 [0x3f00700040] s"
    and "exec_args 0x3f00800000 Z v ps xss (mem s)" and "exec_args 0x3f00800000 Z w qs yss (mem s)"
    and "\<not> covered (exec_need (mem s) [0x3f00700040]) (initial_free - area 0 root)"
    and "agree (span 0x3f00700000 512) exec_memory (mem s)"
proof -
  let ?task = "0x3f00800000 :: u64" and ?program = "0x3f00700000 :: u64" and ?h = "0x3f00700040 :: u64"
  let ?l = "t_vm_areas ?task" and ?Z = "span (t_user_frame ?task) 264 \<union> span ?program 512 \<union> span 0x3f00900000 8192"
  have l: "?l = 0x3f00800018" by (simp add: t_vm_areas_def)
  have out: "span ?task 600 \<inter> initial_free = {}" "span ?program 512 \<inter> initial_free = {}" "span 0x3f00900000 8192 \<inter> initial_free = {}"
    by (rule after_free_memory; simp)+
  have uf: "span (t_user_frame ?task) 264 \<subseteq> span ?task 600" unfolding t_user_frame_def by (rule span_shift_subset) simp
  have cell: "span (?task + 48) 8 \<subseteq> span ?task 600" "span ?l 16 \<subseteq> span ?task 600" unfolding t_vm_areas_def by (rule span_shift_subset; simp)+
  then have tab: "span (?task + 48) 8 \<inter> initial_free = {}" using out(1) by blast
  obtain root and t :: cpu_state where t: "area 0 root \<subseteq> initial_free"
    "pt_inv root (initial_free - area 0 root) {root} t" "agree (- (initial_free \<union> span (?task + 48) 8)) m0 (mem t)"
    "\<forall>va. lookup (mem t) root va = kernel_lookup va" "t_page_table (mem t) ?task = root"
    by (rule fresh_process [OF free tab])
  let ?m = "mem t" and ?F = "initial_free - area 0 root"
  have cut: "span (?task + 48) 8 \<inter> ?Z = {}" "span (?task + 48) 8 \<inter> span ?l 16 = {}" "?Z \<inter> span ?l 16 = {}"
    "(span ?program 512 \<union> span 0x3f00900000 8192) \<inter> span (t_user_frame ?task) 264 = {}"
    unfolding l t_user_frame_def by (auto simp: Int_Un_distrib Int_Un_distrib2 span_disjoint)
  have agZ: "agree ?Z m0 ?m" "agree (span ?l 16) m0 ?m"
    by (rule agree_mono [OF t(3)], use cut out uf cell in blast)+
  have agl: "agree (span ?l 16) (\<lambda>_. 0) ?m" by (rule agree_trans [OF agree_mono [OF m0(2) cell(2)] agZ(2)])
  have "load64 (\<lambda>_. 0) ?l = 0" "load64 (\<lambda>_. 0) (?l + 8) = 0" by (simp_all add: load64_def eval_nat_numeral)
  with agree_load64 [OF agl span_mono [of 8 16]] agree_load64 [OF agl span_shift_subset [of 8 8 16]]
  have "list_rep 0 ?m ?l []" by (simp add: list_rep_def separate_nodes_def l_first_def l_last_def l)
  then have "vm_areas ?F 0 ?m ?l [] []" using out(1) cell by (auto simp: vm_areas_def list_cells_def)
  moreover have out': "?Z \<inter> initial_free = {}" "span ?l 16 \<inter> initial_free = {}" using out uf cell by blast+
  moreover have "lookup ?m root va = None" if "va < SPLIT" for va using t(4) kernel_lookup_cases(3) [OF that] by simp
  ultimately have inv: "image_inv root ?l ?Z ?F {root} [] [] t"
    using t(2) t(1) cut(3) unfolding image_inv_def image_cells_def list_cells_def by auto
  have sub: "span ?program 64 \<subseteq> span ?program 512" "span ?h 48 \<subseteq> span ?program 512" "span 0x3f00700100 1 \<subseteq> span ?program 512"
    using span_mono [of 64 512 ?program] span_shift_subset [of 64 48 512 ?program] span_shift_subset [of 256 1 512 ?program] by simp_all
  then have subZ: "span ?program 64 \<subseteq> ?Z" "span ?h 48 \<subseteq> ?Z" "span 0x3f00700100 1 \<subseteq> ?Z" by blast+
  have prog: "agree (span ?program 512) exec_memory ?m" by (rule agree_trans [OF m0(1) agree_mono [OF agZ(1)]]) blast
  note hdr = elf_header_agree [OF agree_mono [OF prog sub(1)]] and seg = header_agree [OF prog sub(2)]
  have hs: "[?h] = map (phdr_addr ?m ?program) [0..<unat (e_phnum ?m ?program)]" by (simp add: hdr exec_memory_program)
  have ok: "program_ok ?m ?program ?Z 0 [?h]"
    using subZ by (simp add: seg exec_memory_segment loadable_def PF_R_def PF_W_def PF_X_def)
  have "exec_image root ?task ?program ?Z ?F {root} [] [] 0 [?h] t"
    using inv t(5) subZ(1) hs ok sub(1) cut(4) by (auto simp: exec_image_def hdr exec_memory_program)
  moreover have "exec_args ?task ?Z v ps xss (mem t)" "exec_args ?task ?Z w qs yss (mem t)"
  proof -
    have "agree (kargs_cells v ps xss) m0 ?m" "agree (kargs_cells w qs yss) m0 ?m"
      by (rule agree_mono [OF agZ(1)], use v(2) w(2) in blast)+
    then have "kargs ?m v ps xss" "kargs ?m w qs yss" using kargs_agree [OF v(1)] kargs_agree [OF w(1)] v(5) w(5) by simp_all
    then show "exec_args ?task ?Z v ps xss (mem t)" "exec_args ?task ?Z w qs yss (mem t)"
      using v(2-4) w(2-4) cut(4) unfolding exec_args_def by auto
  qed
  moreover have "exec_need (mem t) [?h] = 11"
    by (simp add: exec_need_def segment_need_def seg exec_memory_segment segment_pages_def)
  then have "\<not> covered (exec_need (mem t) [?h]) ?F" using enough_memory [of 11 root] by simp
  moreover have "agree (span ?program 512) exec_memory (mem t)" using prog by simp
  ultimately show ?thesis by (rule that)
qed

text \<open>Success on the small program.\<close>

lemma exec_memory_else:
  "agree initial_free (\<lambda>_. 0) exec_memory" "agree (span 0x3f00800000 600) (\<lambda>_. 0) exec_memory"
  by (auto simp: agree_def exec_memory_def initial_free_def span_iff split: option.split dest!: map_of_SomeD)

lemma small_exec:
  obtains root Z and s :: cpu_state where "exec_image root 0x3f00800000 0x3f00700000 Z (initial_free - area 0 root) {root} [] [] 0 [0x3f00700040] s"
    and "exec_args 0x3f00800000 Z 0x3f00900000 [0x3f00900100] [[104, 105]] (mem s)"
    and "exec_args 0x3f00800000 Z 0x3f00900010 [0x3f00900200] [[65, 61, 49]] (mem s)"
    and "\<not> covered (exec_need (mem s) [0x3f00700040]) (initial_free - area 0 root)"
    and "agree (span 0x3f00700000 512) exec_memory (mem s)"
proof -
  have sub: "span (0x3f00900000 + 0) 16 \<subseteq> span 0x3f00900000 8192" "span (0x3f00900000 + 16) 16 \<subseteq> span 0x3f00900000 8192"
    "span (0x3f00900000 + 0x100) (Suc (Suc (Suc 0))) \<subseteq> span 0x3f00900000 8192"
    "span (0x3f00900000 + 0x200) (Suc (Suc (Suc (Suc 0)))) \<subseteq> span 0x3f00900000 8192"
    by (rule span_shift_subset; simp)+
  have kernel: "kargs_kernel [0x3f00900100] [[104, 105]]" "kargs_kernel [0x3f00900200] [[65, 61, 49]]"
    by (rule kargs_kernel_single; simp)+
  show thesis
    by (rule exec_program_space [OF exec_memory_else(1) agree_refl exec_memory_else(2) exec_memory_args(1) _ kernel(1) _ _
          exec_memory_args(2) _ kernel(2) _ _ that]) (use sub in \<open>simp_all add: kargs_cells_single\<close>)
qed

lemma task_init_elf_correct_witness:
  "\<exists>root (s :: cpu_state) t a. task_init_elf 0x3f00800000 0x3f00700000 0x3f00900000 0x3f00900010 s = Some (Inr (0, t)) \<and>
    cpu_pc (mem t) 0x3f00800148 = 0x10010 \<and> cpu_register (mem t) 0x3f00800148 REG_A0 = 1 \<and>
    lookup (mem t) root 0x10010 = Some (a, 0x1b) \<and> mem t (VA_of a) = 42 \<and>
    kstring (user_mem (mem t) root) (load64 (user_mem (mem t) root) (cpu_register (mem t) 0x3f00800148 REG_A1)) [104, 105] \<and>
    kstring (user_mem (mem t) root) (load64 (user_mem (mem t) root) (cpu_register (mem t) 0x3f00800148 REG_A2)) [65, 61, 49]"
proof -
  obtain root Z and s :: cpu_state where
    s: "exec_image root 0x3f00800000 0x3f00700000 Z (initial_free - area 0 root) {root} [] [] 0 [0x3f00700040] s"
      "exec_args 0x3f00800000 Z 0x3f00900000 [0x3f00900100] [[104, 105]] (mem s)"
      "exec_args 0x3f00800000 Z 0x3f00900010 [0x3f00900200] [[65, 61, 49]] (mem s)"
    and enough: "\<not> covered (exec_need (mem s) [0x3f00700040]) (initial_free - area 0 root)"
    and m: "agree (span 0x3f00700000 512) exec_memory (mem s)" by (rule small_exec)
  have uf: "t_user_frame 0x3f00800000 = 0x3f00800148" by (simp add: t_user_frame_def)
  have "argument_bytes [[104, 105]] [[65, 61, 49 :: u8]] \<le> 4096" by (simp add: argument_bytes_def)
  from task_init_elf_correct [OF s this] enough obtain t where
    t: "task_init_elf 0x3f00800000 0x3f00700000 0x3f00900000 0x3f00900010 s = Some (Inr (0, t))"
      "program_started (mem s) 0x3f00700000 root 0x3f00800148 [0x3f00700040] [[104, 105]] [[65, 61, 49]] (mem t)"
    unfolding uf by blast
  have sub: "span 0x3f00700000 64 \<subseteq> span (0x3f00700000 :: u64) 512" "span 0x3f00700040 48 \<subseteq> span (0x3f00700000 :: u64) 512"
    using span_mono [of 64 512 "0x3f00700000 :: u64"] span_shift_subset [of "64 :: u64" 48 512 "0x3f00700000"] by simp_all
  have hdr: "e_entry (mem s) 0x3f00700000 = 0x10010" "p_type (mem s) 0x3f00700040 = PT_LOAD" "p_flags (mem s) 0x3f00700040 = 5"
    "p_offset (mem s) 0x3f00700040 = 0x100" "p_vaddr (mem s) 0x3f00700040 = 0x10010" "p_filesz (mem s) 0x3f00700040 = 1"
    "p_memsz (mem s) 0x3f00700040 = 2" "mem s 0x3f00700100 = 42"
  proof -
    have "exec_memory 0x3f00700100 = 42" by code_simp
    then show "mem s 0x3f00700100 = 42" using m by (simp add: agree_def span_iff)
  qed (use elf_header_agree(3) [OF agree_mono [OF m sub(1)]] header_agree [OF m sub(2)]
      exec_memory_program exec_memory_segment in simp_all)
  from t(2) have "segment_seen (mem s) 0x3f00700000 root 0x3f00700040 (mem t)"
    by (simp add: program_started_def program_loaded_def hdr)
  then have "sees (mem t) root 0x10010 0x1b 42"
    by (auto simp: segment_seen_def hdr segment_flags_def PF_R_def PF_W_def PF_X_def dest!: spec [of _ "0 :: nat"])
  then obtain a where "lookup (mem t) root 0x10010 = Some (a, 0x1b)" "mem t (VA_of a) = 42" by (auto simp: sees_def)
  moreover have "cpu_pc (mem t) 0x3f00800148 = 0x10010" "cpu_register (mem t) 0x3f00800148 REG_A0 = 1"
    "user_args (user_mem (mem t) root) (cpu_register (mem t) 0x3f00800148 REG_A1) (cpu_register (mem t) 0x3f00800148 REG_A2)
       [[104, 105]] [[65, 61, 49]]"
    using t(2) by (simp_all add: program_started_def hdr)
  ultimately show ?thesis using t(1) unfolding user_args_def by auto
qed

text \<open>
  Property C38. \<open>envp_off\<close> leaves no room for the null pointer behind \<open>argv\<close>: in a program that was
  started with an environment, \<open>argv[argc]\<close> is not null but points to the first string of the
  environment.
\<close>

theorem argv_runs_into_envp:
  assumes "exec_image root task program Z F P xs ars lo hs s" and "exec_args task Z argv ps xss (mem s)"
    and "exec_args task Z envp qs yss (mem s)" and "argument_bytes xss yss \<le> 4096" and "yss \<noteq> []"
    and "task_init_elf task program argv envp s = Some (Inr (0, t))"
  defines "u \<equiv> user_mem (mem t) root" and "frame \<equiv> t_user_frame task"
  shows "load64 u (cpu_register (mem t) frame REG_A1 + 8 * cpu_register (mem t) frame REG_A0) \<noteq> 0 \<and>
    kstring u (load64 u (cpu_register (mem t) frame REG_A1 + 8 * cpu_register (mem t) frame REG_A0)) (hd yss)"
proof -
  from assms(4) have "argument_bytes xss yss < 2 ^ 60" "\<not> 4096 < argument_bytes xss yss" by simp_all
  with exec_ok [OF assms(1-3)] assms(6) have "program_started (mem s) program root frame hs xss yss (mem t)"
    unfolding frame_def by auto
  then have args: "user_args u (cpu_register (mem t) frame REG_A1) (cpu_register (mem t) frame REG_A2) xss yss"
    and n: "cpu_register (mem t) frame REG_A0 = of_nat (length xss)" by (simp_all add: program_started_def u_def)
  then have eq: "cpu_register (mem t) frame REG_A1 + 8 * cpu_register (mem t) frame REG_A0 = cpu_register (mem t) frame REG_A2"
    by (simp add: user_args_def)
  have "0 < length yss" using assms(5) by simp
  with args have "load64 u (cpu_register (mem t) frame REG_A2 + 8 * of_nat 0) \<noteq> 0 \<and>
      kstring u (load64 u (cpu_register (mem t) frame REG_A2 + 8 * of_nat 0)) (yss ! 0)"
    unfolding user_args_def by blast
  then show "load64 u (cpu_register (mem t) frame REG_A1 + 8 * cpu_register (mem t) frame REG_A0) \<noteq> 0 \<and>
    kstring u (load64 u (cpu_register (mem t) frame REG_A1 + 8 * cpu_register (mem t) frame REG_A0)) (hd yss)"
    using assms(5) by (simp_all add: eq hd_conv_nth)
qed

lemma argv_runs_into_envp_witness:
  "\<exists>root (s :: cpu_state) t. task_init_elf 0x3f00800000 0x3f00700000 0x3f00900000 0x3f00900010 s = Some (Inr (0, t)) \<and>
    kstring (user_mem (mem t) root) (load64 (user_mem (mem t) root) (cpu_register (mem t) 0x3f00800148 REG_A1 +
      8 * cpu_register (mem t) 0x3f00800148 REG_A0)) [65, 61, 49]"
proof -
  obtain root Z and s :: cpu_state where
    s: "exec_image root 0x3f00800000 0x3f00700000 Z (initial_free - area 0 root) {root} [] [] 0 [0x3f00700040] s"
      "exec_args 0x3f00800000 Z 0x3f00900000 [0x3f00900100] [[104, 105]] (mem s)"
      "exec_args 0x3f00800000 Z 0x3f00900010 [0x3f00900200] [[65, 61, 49]] (mem s)"
    and enough: "\<not> covered (exec_need (mem s) [0x3f00700040]) (initial_free - area 0 root)" by (rule small_exec)
  have uf: "t_user_frame 0x3f00800000 = 0x3f00800148" by (simp add: t_user_frame_def)
  have fit: "argument_bytes [[104, 105]] [[65, 61, 49 :: u8]] \<le> 4096" by (simp add: argument_bytes_def)
  then have "argument_bytes [[104, 105]] [[65, 61, 49 :: u8]] < 2 ^ 60" by simp
  from exec_ok [OF s this] enough fit obtain t where
    t: "task_init_elf 0x3f00800000 0x3f00700000 0x3f00900000 0x3f00900010 s = Some (Inr (0, t))" by auto
  from argv_runs_into_envp [OF s fit _ t] t show ?thesis unfolding uf by auto
qed

text \<open>
  If both vectors together take more than a page, which the limit of 4080 bytes for each
  of them does not exclude, then \<open>task_init_elf\<close> does not return \<open>-E2BIG\<close>: the kernel panics.
\<close>

theorem task_init_elf_too_big:
  assumes "exec_image root task program Z F P xs ars lo hs s" and "exec_args task Z argv ps xss (mem s)"
    and "exec_args task Z envp qs yss (mem s)"
    and "4096 < argument_bytes xss yss" and "arg_off xss (length xss) \<le> 4080" and "arg_off yss (length yss) \<le> 4080"
  shows "task_init_elf task program argv envp s = Some (Inl ''argv too big'') \<or>
    covered (exec_need (mem s) hs) F \<and> task_init_elf task program argv envp s = Some (Inl ''out of memory'')"
proof -
  have "argument_bytes xss yss = arg_off xss (length xss) + arg_off yss (length yss)"
    by (simp add: argument_bytes_def arg_off_def str_bytes_def)
  then have "argument_bytes xss yss < 2 ^ 60" using assms(5,6) by simp
  with exec_ok [OF assms(1-3)] assms(4) show ?thesis by (meson not_less)
qed

text \<open>Three hundred empty strings as arguments, and the same as environment.\<close>

definition big_memory :: memory where
  "big_memory x = (if x - 0x3f00900000 < 2400 then [0, 0x10, 0x90, 0, 0x3f, 0, 0, 0] ! (unat (x - 0x3f00900000) mod 8)
     else if x - 0x3f00900000 < 8192 then 0 else exec_memory x)"

lemma big_memory_else:
  "agree initial_free (\<lambda>_. 0) big_memory" "agree (span 0x3f00800000 600) (\<lambda>_. 0) big_memory"
  "agree (span 0x3f00700000 512) exec_memory big_memory"
proof -
  have out: "big_memory x = exec_memory x" if "x \<notin> span 0x3f00900000 8192" for x
    using that by (simp add: big_memory_def span_iff word_less_nat_alt)
  have "span 0x3f00900000 8192 \<inter> initial_free = {}" by (rule after_free_memory; simp)
  moreover have "span 0x3f00900000 8192 \<inter> span (0x3f00800000 :: u64) 600 = {}" "span 0x3f00900000 8192 \<inter> span (0x3f00700000 :: u64) 512 = {}"
    by (rule span_disjoint; simp)+
  ultimately show "agree initial_free (\<lambda>_. 0) big_memory" "agree (span 0x3f00800000 600) (\<lambda>_. 0) big_memory"
    "agree (span 0x3f00700000 512) exec_memory big_memory"
    using exec_memory_else out unfolding agree_def by (metis disjoint_iff)+
qed

lemma big_memory_args: "kargs big_memory 0x3f00900000 (replicate 300 0x3f00901000) (replicate 300 [])"
proof -
  have byte: "big_memory (0x3f00900000 + 8 * of_nat i + of_nat j) = [0, 0x10, 0x90, 0, 0x3f, 0, 0, 0] ! j" if "i < 300" "j < 8" for i j :: nat
  proof -
    have u: "unat (8 * of_nat i + of_nat j :: u64) = 8 * i + j" using that by (simp add: unat_word_ariths unat_of_nat)
    have e: "0x3f00900000 + 8 * of_nat i + of_nat j - 0x3f00900000 = (8 * of_nat i + of_nat j :: u64)" by simp
    show ?thesis unfolding big_memory_def e using u that by (simp add: word_less_nat_alt)
  qed
  have "load64 big_memory (0x3f00900000 + 8 * of_nat i) = 0x3f00901000" if "i < 300" for i
  proof -
    have "load64 big_memory (0x3f00900000 + 8 * of_nat i) = load64 (\<lambda>x. [0, 0x10, 0x90, 0, 0x3f, 0, 0, 0] ! unat x) 0"
      unfolding load64_def by (rule load_le_offset) (use byte [OF that] in \<open>simp add: unat_of_nat\<close>)
    also have "\<dots> = 0x3f00901000" by code_simp
    finally show ?thesis .
  qed
  moreover have "load64 big_memory (0x3f00900000 + 2400) = 0"
  proof -
    have "load64 big_memory (0x3f00900000 + 2400) = load64 (\<lambda>_. 0) 0"
      unfolding load64_def by (rule load_le_offset) (auto simp: big_memory_def word_less_nat_alt unat_of_nat unat_word_ariths)
    then show ?thesis by (simp add: load64_def eval_nat_numeral)
  qed
  moreover have "big_memory 0x3f00901000 = 0" by (simp add: big_memory_def)
  ultimately show ?thesis by (simp add: kargs_def kstring_def)
qed

lemma task_init_elf_too_big_witness:
  "\<exists>s :: cpu_state. task_init_elf 0x3f00800000 0x3f00700000 0x3f00900000 0x3f00900000 s = Some (Inl ''argv too big'')"
proof -
  let ?v = "0x3f00900000 :: u64" and ?ps = "replicate 300 (0x3f00901000 :: u64)" and ?xss = "replicate 300 [] :: u8 list list"
  have sub: "span (0x3f00900000 + 0) 2408 \<subseteq> span ?v 8192" "span (0x3f00900000 + 0x1000) 1 \<subseteq> span ?v 8192"
    by (rule span_shift_subset; simp)+
  then have cells: "kargs_cells ?v ?ps ?xss \<subseteq> span ?v 8192" by (auto simp: kargs_cells_def)
  have kernel: "kargs_kernel ?ps ?xss" by (simp add: kargs_kernel_def)
  have bytes: "str_bytes ?xss = 300" by (simp add: str_bytes_def sum_list_replicate)
  obtain root Z and s :: cpu_state where
    s: "exec_image root 0x3f00800000 0x3f00700000 Z (initial_free - area 0 root) {root} [] [] 0 [0x3f00700040] s"
      "exec_args 0x3f00800000 Z ?v ?ps ?xss (mem s)" "exec_args 0x3f00800000 Z ?v ?ps ?xss (mem s)"
    and enough: "\<not> covered (exec_need (mem s) [0x3f00700040]) (initial_free - area 0 root)"
    by (rule exec_program_space [OF big_memory_else(1,3,2) big_memory_args cells kernel _ _ big_memory_args cells kernel])
      (use bytes in simp_all)
  have "4096 < argument_bytes ?xss ?xss" by (simp add: argument_bytes_def bytes)
  moreover have "arg_off ?xss (length ?xss) \<le> 4080" by (simp add: arg_off_def sum_list_replicate)
  ultimately show ?thesis using task_init_elf_too_big [OF s] enough by blast
qed

end
