(* ===== verification/Panic_Correct.thy ===== *)
theory Panic_Correct
  imports Panic Uart_Correct
begin

section \<open>Correctness of panics\<close>

text \<open>
  What reaches the serial port when the kernel panics. \<open>sends m cs\<close> composes like the printing
  functions do, for a device that becomes idle again and again.
\<close>

lemma pthen_Done: "m s = Some (Inr (Done (), t)) \<Longrightarrow> pthen m n s = n t"
  by (simp add: pthen_def kbind_Inr)

lemma pthen_DoneE:
  assumes "pthen m n s = Some (Inr (Done x, u))"
  obtains t where "m s = Some (Inr (Done (), t))" and "n t = Some (Inr (Done x, u))"
  using assms by (auto simp: pthen_def kbind_def split: option.splits sum.splits progress.splits)

text \<open>The device becomes idle again and again.\<close>

definition device_serves :: "'a uart_state_scheme \<Rightarrow> bool" where
  "device_serves s \<longleftrightarrow> (\<forall>k. \<exists>i\<ge>k. lsr s i AND LSR_TX_IDLE \<noteq> 0)"

lemma device_serves_skip: "device_serves s \<Longrightarrow> device_serves (skip_lsr j s)"
  unfolding device_serves_def skip_lsr_def
proof (intro allI)
  fix k assume "\<forall>k. \<exists>i\<ge>k. lsr s i AND LSR_TX_IDLE \<noteq> 0"
  then obtain i where "k + j \<le> i" "lsr s i AND LSR_TX_IDLE \<noteq> 0" by blast
  then show "\<exists>i\<ge>k. lsr (s\<lparr>lsr := \<lambda>i. lsr s (i + j)\<rparr>) i AND LSR_TX_IDLE \<noteq> 0"
    by (intro exI [of _ "i - j"]) auto
qed

lemma skip_lsr_skip: "skip_lsr j (skip_lsr k s) = skip_lsr (j + k) s"
  by (simp add: skip_lsr_def add.assoc)

lemma poll_idle_ok:
  "lsr s i AND LSR_TX_IDLE \<noteq> 0 \<Longrightarrow> \<exists>j. poll_idle s = Some (Inr ((), skip_lsr j s))"
proof (induction i arbitrary: s)
  case 0
  then show ?case by (subst poll_idle.simps) (simp add: skip_lsr_def exI [of _ 1])
next
  case (Suc i)
  show ?case
  proof (cases "lsr s 0 AND LSR_TX_IDLE = 0")
    case True
    then have "poll_idle s = poll_idle (skip_lsr 1 s)" by (subst poll_idle.simps) (simp add: skip_lsr_def)
    moreover have "lsr (skip_lsr 1 s) i AND LSR_TX_IDLE \<noteq> 0" using Suc.prems by (simp add: skip_lsr_def)
    from Suc.IH [OF this] obtain j where "poll_idle (skip_lsr 1 s) = Some (Inr ((), skip_lsr j (skip_lsr 1 s)))" by blast
    ultimately show ?thesis by (auto simp: skip_lsr_skip)
  next
    case False
    then show ?thesis by (subst poll_idle.simps) (simp add: skip_lsr_def exI [of _ 1])
  qed
qed

text \<open>Printing while the kernel is not, or no longer, initialised: \<open>sends m cs\<close> if \<open>m\<close> sends \<open>cs\<close>.\<close>

definition polling :: "'a uart_state_scheme \<Rightarrow> bool" where
  "polling s \<longleftrightarrow> \<not> panicked s \<and> \<not> kernel_initialized s \<and> device_serves s"

definition sends :: "('a uart_state_scheme, unit progress) kern \<Rightarrow> u8 list \<Rightarrow> bool" where
  "sends m cs \<longleftrightarrow> (\<forall>s. polling s \<longrightarrow> (\<exists>t. m s = Some (Inr (Done (), t)) \<and> polling t \<and>
     written t = written s @ map (\<lambda>c. (THR, c)) cs \<and> uart_out t = uart_out s))"

lemma sendsD:
  "sends m cs \<Longrightarrow> polling s \<Longrightarrow> \<exists>t. m s = Some (Inr (Done (), t)) \<and> polling t \<and>
     written t = written s @ map (\<lambda>c. (THR, c)) cs \<and> uart_out t = uart_out s"
  by (simp add: sends_def)

lemma sends_done: "sends (kreturn (Done ())) []"
  by (simp add: sends_def)

lemma sends_pthen: "sends m cs \<Longrightarrow> sends n ds \<Longrightarrow> sends (pthen m n) (cs @ ds)"
  unfolding sends_def
proof (intro allI impI)
  fix s :: "'a uart_state_scheme"
  assume m: "\<forall>s. polling s \<longrightarrow> (\<exists>t. m s = Some (Inr (Done (), t)) \<and> polling t \<and>
      written t = written s @ map (\<lambda>c. (THR, c)) cs \<and> uart_out t = uart_out s)"
    and n: "\<forall>s. polling s \<longrightarrow> (\<exists>t. n s = Some (Inr (Done (), t)) \<and> polling t \<and>
      written t = written s @ map (\<lambda>c. (THR, c)) ds \<and> uart_out t = uart_out s)" and s: "polling s"
  from m s obtain t where t: "m s = Some (Inr (Done (), t))" "polling t"
    "written t = written s @ map (\<lambda>c. (THR, c)) cs" "uart_out t = uart_out s" by blast
  from n t(2) obtain u where "n t = Some (Inr (Done (), u))" "polling u"
    "written u = written t @ map (\<lambda>c. (THR, c)) ds" "uart_out u = uart_out t" by blast
  with t show "\<exists>t. pthen m n s = Some (Inr (Done (), t)) \<and> polling t \<and>
      written t = written s @ map (\<lambda>c. (THR, c)) (cs @ ds) \<and> uart_out t = uart_out s"
    by (intro exI [of _ u]) (simp add: pthen_Done)
qed

lemma sends_uartputc: "sends (uartputc G c) [ucast c]"
  unfolding sends_def
proof (intro allI impI)
  fix s :: "'a uart_state_scheme"
  assume s: "polling s"
  then have up: "\<not> panicked s" "\<not> kernel_initialized s" by (simp_all add: polling_def)
  from s have "device_serves (skip_lsr 1 s)" by (simp add: polling_def device_serves_skip)
  then obtain i where "lsr (skip_lsr 1 s) i AND LSR_TX_IDLE \<noteq> 0" unfolding device_serves_def by blast
  from poll_idle_ok [OF this] obtain j where "poll_idle (skip_lsr 1 s) = Some (Inr ((), skip_lsr (j + 1) s))"
    by (auto simp: skip_lsr_skip)
  then have "uartputc G c s = Some (Inr (Done (), (skip_lsr (j + 1) s)\<lparr>written := written s @ [(THR, ucast c)]\<rparr>))"
    using up by (simp add: uartputc_def kbind_Inr kthen_Inr read_lsr_def write_reg_def skip_lsr_def)
  moreover have "polling ((skip_lsr (j + 1) s)\<lparr>written := written s @ [(THR, ucast c)]\<rparr>)"
    using s device_serves_skip [of s "j + 1"] by (simp add: polling_def skip_lsr_def device_serves_def)
  ultimately show "\<exists>t. uartputc G c s = Some (Inr (Done (), t)) \<and> polling t \<and>
      written t = written s @ map (\<lambda>c. (THR, c)) [ucast c] \<and> uart_out t = uart_out s"
    by (simp add: skip_lsr_def)
qed

lemma sends_console_put: "sends (console_put G cs) cs"
proof (induction cs)
  case Nil
  show ?case unfolding console_put.simps by (rule sends_done)
next
  case (Cons c cs)
  have "sends (uartputc G (ucast c)) [c]" using sends_uartputc [of G "ucast c"] by simp
  from sends_pthen [OF this Cons] show ?case by simp
qed

lemma sends_vprintk: "vprintk str args fmt = Some out \<Longrightarrow> sends (console_vprintk G str fmt args) out"
  using sends_console_put [of G out] by (simp add: sends_def console_vprintk_def kbind_Inr kwalk_def)

text \<open>The format of a panic.\<close>

lemma prints_string: "0 \<notin> set cs \<Longrightarrow> prints (cs @ 0 # rest) = Some cs"
  by (induction cs) (simp_all add: putchar_def)

lemma vprintk_char: "c \<noteq> 0 \<Longrightarrow> c \<noteq> 37 \<Longrightarrow> vprintk str args (c # cs) = map_option ((#) c) (vprintk str args cs)"
  by (cases "vprintk str args cs") (simp_all add: vprintk.simps(2) putchar_def)

lemma vprintk_string:
  "prints (str a) = Some out \<Longrightarrow> vprintk str (a # args) (37 # 115 # cs) = map_option ((@) out) (vprintk str args cs)"
  by (simp add: vprintk.simps(2) conversion.simps(2) isdigit_def)

lemma vprintk_decimal:
  assumes "a < 0x80000000"
  shows "vprintk str (a # args) (37 # 100 # cs) = map_option ((@) (0 # rev (digits 10 a))) (vprintk str args cs)"
proof -
  have a: "unat a < 0x80000000" using assms by (simp add: word_less_nat_alt)
  then have "take_bit 32 a = a" by (simp add: word_unat_eq_iff unsigned_take_bit_eq take_bit_nat_eq_self)
  moreover have "\<not> sint a < 0" "a \<noteq> 0x8000000000000000"
    using a by (auto simp: sint_neg_iff word_le_nat_alt)
  moreover have "pad_count (int (length (digits 10 a)) + of_bool False) 0 = 0" by (simp add: pad_count_def)
  ultimately show ?thesis using print_uint_Some [of 10 a 0 32 False]
    by (simp add: vprintk.simps(2) conversion.simps(2) isdigit_def number_def next_arg_def print_int_def P_HEX_def P_BIN_def
      P_UNSIGNED_def P_ZEROPAD_def)
qed

lemma vprintk_end: "vprintk str args (0 # cs) = Some []"
  by (simp add: vprintk.simps(2))

lemmas vprintk_parts = vprintk_char vprintk_string vprintk_decimal vprintk_end

lemma c_string_Cons: "c_string (ch # cs) = of_char ch # c_string cs" "c_string [] = [0]"
  by (simp_all add: c_string_def)

definition panic_text :: "u8 list \<Rightarrow> u64 \<Rightarrow> u8 list \<Rightarrow> u8 list \<Rightarrow> u8 list" where
  "panic_text file_name line func msg =
     map of_char ''kernel panic - '' @ file_name @ [58] @ (0 # rev (digits 10 line)) @ [58, 32] @ func @ [58, 32] @ msg @ [10]"

text \<open>
  Property C30. A panic prints its whole message, polling the device, even if the output buffer
  is in use or full; the message stands there as it was written, with the conversions in it
  not carried out, whatever arguments follow it. Afterwards no character is ever printed:
  \<open>uartputc\<close> does not return.
\<close>
theorem panic_prints:
  assumes s: "\<not> panicked s" "device_serves s" and line: "line < 0x80000000"
    and strs: "str f = file_name @ 0 # ra" "0 \<notin> set file_name" "str g = func @ 0 # rb" "0 \<notin> set func"
      "str p = msg @ 0 # rc" "0 \<notin> set msg"
  shows "\<exists>t. panic G str f line g (p # args) s = Some (Inr (Done (), t)) \<and>
    written t = written s @ map (\<lambda>c. (THR, c)) (panic_text file_name line func msg) \<and> uart_out t = uart_out s \<and>
    (\<forall>c. uartputc G c t = None)"
proof -
  let ?s0 = "s\<lparr>kernel_initialized := False\<rparr>"
  have fmt: "vprintk str [] (c_string ''kernel panic - '') = Some (map of_char ''kernel panic - '')"
    "vprintk str [] (c_string [CHR 0x0A]) = Some [10]"
    by (simp_all add: c_string_Cons vprintk_parts)
  have "vprintk str (f # line # g # p # args) (c_string ''%s:%d: %s: %s'') =
      Some (file_name @ [58] @ (0 # rev (digits 10 line)) @ [58, 32] @ func @ [58, 32] @ msg)"
    using strs prints_string line by (simp add: c_string_Cons vprintk_parts)
  note out = sends_pthen [OF sends_vprintk [OF fmt(1)] sends_pthen [OF sends_vprintk [OF this] sends_vprintk [OF fmt(2)]]]
  have "polling ?s0" using s by (simp add: polling_def device_serves_def)
  from sendsD [OF out this, of G G G] obtain t where
    t: "pthen (console_vprintk G str (c_string ''kernel panic - '') [])
        (pthen (console_vprintk G str (c_string ''%s:%d: %s: %s'') (f # line # g # p # args))
               (console_vprintk G str (c_string [CHR 0x0A]) [])) ?s0 = Some (Inr (Done (), t))"
      "written t = written s @ map (\<lambda>c. (THR, c)) (panic_text file_name line func msg)" "uart_out t = uart_out s"
    by (auto simp: panic_text_def)
  have "panic G str f line g (p # args) s = Some (Inr (Done (), t\<lparr>panicked := True\<rparr>))"
    using t(1) unfolding panic_def panic_stop_def console_printk_def
    by (elim pthen_DoneE) (simp add: kthen_Inr pthen_Done)
  moreover have "uartputc G c (t\<lparr>panicked := True\<rparr>) = None" for c by (simp add: uartputc_def kbind_Inr)
  ultimately show ?thesis using t(2,3) by (intro exI [of _ "t\<lparr>panicked := True\<rparr>"]) simp
qed

lemma panic_prints_witness:
  "\<exists>(s :: uart_state) t. panic two_symbols (\<lambda>p. if p = 1 then [109, 109, 46, 99, 0] else if p = 2 then [102, 0] else [37, 100, 0])
      1 53 2 [3, 9] s = Some (Inr (Done (), t)) \<and> ring_rep (uart_out s) [66] \<and> ring_rep (uart_out t) [66] \<and>
    written t = map (\<lambda>c. (THR, c)) (map of_char ''kernel panic - '' @
      [109, 109, 46, 99, 58, 0, 53, 51, 58, 32, 102, 58, 32, 37, 100, 10])"
proof -
  let ?s = "serial_on two_state [66] [] (\<lambda>i. if even i then 0 else 32)"
  let ?str = "\<lambda>p :: u64. if p = 1 then [109, 109, 46, 99, 0] else if p = 2 then [102, 0] else [37, 100, 0] :: u8 list"
  have serves: "device_serves ?s"
    unfolding device_serves_def
  proof
    fix k :: nat
    have "lsr ?s (2 * k + 1) AND LSR_TX_IDLE \<noteq> 0" by (simp add: LSR_TX_IDLE_def)
    then show "\<exists>i\<ge>k. lsr ?s i AND LSR_TX_IDLE \<noteq> 0" by (intro exI [of _ "2 * k + 1"]) simp
  qed
  have b: "ring_rep (uart_out ?s) [66]" by (simp add: filled_ring)
  have "digits 10 53 = [51, 53]" by (simp add: tab_def digits.simps [of 10 53] digits.simps [of 10 5])
  then have words: "panic_text [109, 109, 46, 99] 53 [102] [37, 100] =
      map of_char ''kernel panic - '' @ [109, 109, 46, 99, 58, 0, 53, 51, 58, 32, 102, 58, 32, 37, 100, 10]"
    by (simp add: panic_text_def)
  have "\<exists>t. panic two_symbols ?str 1 53 2 [3, 9] ?s = Some (Inr (Done (), t)) \<and>
      written t = written ?s @ map (\<lambda>c. (THR, c)) (panic_text [109, 109, 46, 99] 53 [102] [37, 100]) \<and>
      uart_out t = uart_out ?s \<and> (\<forall>c. uartputc two_symbols c t = None)"
    by (rule panic_prints [OF _ serves, where ra = "[]" and rb = "[]" and rc = "[]"]) simp_all
  then obtain t where "panic two_symbols ?str 1 53 2 [3, 9] ?s = Some (Inr (Done (), t))" "uart_out t = uart_out ?s"
    "written t = map (\<lambda>c. (THR, c)) (panic_text [109, 109, 46, 99] 53 [102] [37, 100])" by auto
  with b show ?thesis unfolding words by (intro exI [of _ ?s] exI [of _ t]) simp
qed

end
