(* ===== verification/Boot.thy ===== *)
theory Boot
  imports Panic Irq Elf
begin

section \<open>Starting the kernel (main.c, mm_init)\<close>

text \<open>
  What runs once, from \<open>start.S\<close> to the first task. \<open>main\<close> runs in machine mode up to \<open>mret\<close>, an
  assembly routine that changes the privilege mode and sets the timer (\<^verbatim>\<open>Context\<close>); \<open>init\<close> runs after it. The addresses that
  the linker and the compiler choose are the arguments: the early page table, the function
  \<open>init\<close>, and the places of the two argument vectors and of the literal ``init'' on \<open>init\<close>'s stack. The code
  is position-independent: \<open>main\<close> computes them as physical addresses, \<open>init\<close> as virtual ones.
\<close>

record boot_places =
  early_page_table :: u64
  init_function :: u64
  init_argv :: u64
  init_envp :: u64
  init_name :: u64

definition mm_init :: "symbols \<Rightarrow> boot_places \<Rightarrow> ('a uart_state_scheme, unit progress) kern" where
  "mm_init G P =
     pthen (console_printk G (\<lambda>_. []) (c_string (''Initializing memory management.'' @ [CHR 0x0A])) [])
    (kthen page_allocator_init
    (kbind (set_page (early_page_table P) 0 0 0) (\<lambda>_. kreturn (Done ()))))"

text \<open>The arguments of the first \<open>printk\<close> are literals, which \<open>banner\<close> finds under the numbers 1, 2 and 3.\<close>

definition banner :: "u64 \<Rightarrow> u8 list" where
  "banner p = (if p = 1 then c_string ''Brand'' else if p = 2 then c_string ''New'' else c_string ''World'')"

definition main :: "symbols \<Rightarrow> boot_places \<Rightarrow> ('a uart_state_scheme, unit progress) kern" where
  "main G P =
     kthen (uart_init G)
    (pthen (console_printk G banner (c_string (''Hello %s %s %s!'' @ [CHR 0x0A])) [1, 2, 3])
    (pthen (console_printk G (\<lambda>_. []) (c_string (''populating page table at %p'' @ [CHR 0x0A])) [early_page_table P])
    (kthen (establish_identical_mapping (early_page_table P))
           (console_printk G (\<lambda>_. []) (c_string (''Identity mapping established, entering S-mode'' @ [CHR 0x0A])) []))))"

text \<open>\<open>const char *argv[] = {"init", 0}\<close> and \<open>envp[] = {0}\<close>.\<close>

definition init_vectors :: "boot_places \<Rightarrow> memory \<Rightarrow> memory" where
  "init_vectors P m = store64 (store64 (store64 m (init_argv P) (init_name P)) (init_argv P + 8) 0) (init_envp P) 0"

text \<open>
  The messages are those with which \<open>irq_init\<close> and \<open>sched_init\<close> begin; their models (\<^verbatim>\<open>Irq\<close>, \<^verbatim>\<open>Sched\<close>) have the rest. The
  results of \<open>task_create\<close> and \<open>task_init_elf\<close> are not tested.
\<close>

definition init :: "symbols \<Rightarrow> boot_places \<Rightarrow> ('a irq_state_scheme, unit progress) kern" where
  "init G P =
     kthen (kmodify (\<lambda>s. s\<lparr>early := False\<rparr>))
    (pthen (console_printk G (\<lambda>_. []) (c_string (''After mret, kernel is at %p'' @ [CHR 0x0A])) [init_function P])
    (pthen (mm_init G P)
    (pthen (console_printk G (\<lambda>_. []) (c_string (''Initializing interrupts.'' @ [CHR 0x0A])) [])
    (kthen (irq_init G)
    (pthen (console_printk G (\<lambda>_. []) (c_string (''Initializing scheduler.'' @ [CHR 0x0A])) [])
    (kthen (sched_init G)
    (kbind (task_create G 0) (\<lambda>task.
     kthen (write_mem (init_vectors P))
    (kbind (task_init_elf task (VA_of 0x800f0000) (init_argv P) (init_envp P)) (\<lambda>_.
     kthen (kmodify (\<lambda>s. s\<lparr>kernel_initialized := True\<rparr>))
    (kbind (schedule G) (\<lambda>d. kreturn (Switch d)))))))))))))"

end
