(* ===== verification/Grow_Correct.thy ===== *)
theory Grow_Correct
  imports Load_Correct
begin

section \<open>Correctness of the growth of the stack\<close>

text \<open>
  A page fault below the stack: \<open>stack_fault\<close> maps pages of zeros down to the page of the fault.
\<close>

subsection \<open>One page\<close>

lemma pte_flags_all [simp]: "pte_flags_from_vm_flags f = 0x1f"
  using vm_flags_or [of f] by (simp add: pte_flags_from_vm_flags_def Let_def)

text \<open>The area grows by the page that is added: its new start and number of pages.\<close>

definition extend_area :: "u64 \<Rightarrow> memory \<Rightarrow> memory" where
  "extend_area ar m =
     (let m' = set_area_va ar (area_va m ar - PAGE_SIZE) m in set_area_n_pages ar (area_n_pages m' ar + 1) m')"

lemma extend_area_ok:
  "agree (- span ar 16) m (extend_area ar m)"
  "area_va (extend_area ar m) ar = area_va m ar - PAGE_SIZE"
  "area_n_pages (extend_area ar m) ar = area_n_pages m ar + 1"
proof -
  have d: "span ar 8 \<inter> span (ar + 8) 8 = {}" "span (ar + 8) 8 \<inter> span ar 8 = {}" by (rule span_disjoint_base span_disjoint; simp)+
  have sub: "span ar 8 \<subseteq> span ar 16" "span (ar + 8) 8 \<subseteq> span ar 16" by (rule span_mono span_shift_subset; simp)+
  let ?m = "set_area_va ar (area_va m ar - PAGE_SIZE) m"
  have "agree (- span ar 16) m ?m" "agree (- span ar 16) ?m (extend_area ar m)"
    using sub unfolding extend_area_def Let_def set_area_va_def set_area_n_pages_def
    by (blast intro: agree_sym [OF agree_store64])+
  then show "agree (- span ar 16) m (extend_area ar m)" by (rule agree_trans)
  show "area_va (extend_area ar m) ar = area_va m ar - PAGE_SIZE" "area_n_pages (extend_area ar m) ar = area_n_pages m ar + 1"
    using d by (simp_all add: extend_area_def Let_def set_area_va_def set_area_n_pages_def area_va_def area_n_pages_def mem_simps)
qed

lemma grow_page_call:
  "grow_page task ar = kbind (alloc_pages 0) (\<lambda>p. let a = address p in
     if a = 0 then kpanic ''stack autoexpand: out of memory''
     else kthen (kmodify (\<lambda>s. s\<lparr>mem := clear_page a (mem s)\<rparr>))
      (kbind (vm_area_add_page ar a) (\<lambda>err.
         if err \<noteq> 0 then kpanic ''stack autoexpand: vm_area_add_page''
         else kthen (kmodify (\<lambda>s. s\<lparr>mem := extend_area ar (mem s)\<rparr>))
          (kbind (kgets (\<lambda>s. (t_page_table (mem s) task, area_va (mem s) ar, PA (early s) a))) (\<lambda>(table, va, pa).
           kbind (set_page table va pa 0x1f) (\<lambda>err.
             if err \<noteq> 0 then kpanic ''stack autoexpand: set_page'' else kreturn ()))))))"
  by (rule ext) (simp add: grow_page_def Let_def split_def write_mem_def set_page_user_def extend_area_def kthen_Inr kbind_Inr
      kbind_def kthen_def split: option.split sum.split cong del: if_weak_cong)

text \<open>
  Tables, the area's list and free memory are well formed, before and after; the fields of the area
  and of the task lie in \<open>Z\<close>.
\<close>

definition grown ::
  "u64 \<Rightarrow> u64 \<Rightarrow> u64 set \<Rightarrow> u64 set \<Rightarrow> u64 set \<Rightarrow> u64 list \<Rightarrow> 'a mm_state_scheme \<Rightarrow> u64 set \<Rightarrow> u64 set \<Rightarrow> u64 list \<Rightarrow>
     'a mm_state_scheme \<Rightarrow> bool" where
  "grown root ar Z F P ns s F' P' ns' t \<longleftrightarrow>
     load_inv root ar Z F' P' ns' t \<and> F' \<subseteq> F \<and> used_by ar F' P' ns' \<subseteq> used_by ar F P ns \<and>
     agree (- (used_by ar F P ns \<union> span ar 16)) (mem s) (mem t) \<and> same_rest s t"

lemma grown_refl: "load_inv root ar Z F P ns s \<Longrightarrow> grown root ar Z F P ns s F P ns s"
  by (simp add: grown_def)

lemma grown_trans:
  assumes "grown root ar Z F P ns s F1 P1 ns1 t" and "grown root ar Z F1 P1 ns1 t F2 P2 ns2 u"
  shows "grown root ar Z F P ns s F2 P2 ns2 u"
proof -
  have "agree (- (used_by ar F P ns \<union> span ar 16)) (mem t) (mem u)"
    by (rule agree_mono [of "- (used_by ar F1 P1 ns1 \<union> span ar 16)"]) (use assms in \<open>auto simp: grown_def\<close>)
  moreover have "agree (- (used_by ar F P ns \<union> span ar 16)) (mem s) (mem t)" using assms(1) by (simp add: grown_def)
  ultimately have "agree (- (used_by ar F P ns \<union> span ar 16)) (mem s) (mem u)" by (rule agree_trans [rotated])
  moreover have "same_rest s u" using assms same_rest_trans [of s t u] by (simp add: grown_def)
  ultimately show ?thesis using assms unfolding grown_def by blast
qed

lemma grow_page_ok:
  assumes inv: "load_inv root ar Z F P ns s" and Z: "span ar 24 \<union> span (task + 48) 8 \<subseteq> Z" "span ar 24 \<inter> span (task + 48) 8 = {}"
    and root: "t_page_table (mem s) task = root" and va: "va = area_va (mem s) ar - PAGE_SIZE" "va_off va = 0" "unat va + 4096 \<le> 2 ^ 39"
  shows "covered 4 F \<and> grow_page task ar s = Some (Inl ''out of memory'') \<or>
    (\<exists>t a nd F' P'. grow_page task ar s = Some (Inr ((), t)) \<and> grown root ar Z F P ns s F' P' (ns @ [nd]) t \<and>
       area_va (mem t) ar = va \<and> area_n_pages (mem t) ar = area_n_pages (mem s) ar + 1 \<and> t_page_table (mem t) task = root \<and>
       map (n_value (mem t)) (ns @ [nd]) = map (n_value (mem s)) ns @ [a] \<and>
       area 0 a \<subseteq> F \<and> area 0 a \<inter> used_by ar F' P' (ns @ [nd]) = {} \<and>
       frame_at root va 0x1f a (mem t) \<and> (\<forall>k<4096. mem t (a + of_nat k) = 0) \<and>
       (\<forall>va'. va_vpn va' \<noteq> va_vpn va \<longrightarrow> lookup (mem t) root va' = lookup (mem s) root va') \<and>
       (\<forall>k. covered k F' \<longrightarrow> covered (k + 4) F))"
proof -
  let ?l = "area_pages ar" and ?run = "grow_page task ar s"
  obtain q where pt: "pt_inv root F P s" and rep: "list_rep q (mem s) ?l ns" and cells: "list_cells ?l ns \<inter> (F \<union> pages P) = {}"
    and ZU: "Z \<inter> used_by ar F P ns = {}" using inv by (auto simp: load_inv_def)
  note I = pt_invD [OF pt]
  have sub16: "span ar 16 \<subseteq> span ar 24" by (rule span_mono) simp
  with Z(1) have ar: "span ar 16 \<subseteq> Z" "span ar 24 \<subseteq> Z" "span (task + 48) 8 \<subseteq> Z" by auto
  from buddy.alloc_fill [OF I(1) clear_page_frame grow_page_call [of task ar]] show ?thesis
  proof (elim disjE exE conjE)
    assume "F = {}" "?run = Some (Inl ''out of memory'')"
    then show ?thesis using covered_empty by blast
  next
    fix a t1 m
    assume call: "?run = kbind (vm_area_add_page ar a) (\<lambda>err.
         if err \<noteq> 0 then kpanic ''stack autoexpand: vm_area_add_page''
         else kthen (kmodify (\<lambda>s. s\<lparr>mem := extend_area ar (mem s)\<rparr>))
          (kbind (kgets (\<lambda>s. (t_page_table (mem s) task, area_va (mem s) ar, PA (early s) a))) (\<lambda>(table, va, pa).
           kbind (set_page table va pa 0x1f) (\<lambda>err.
             if err \<noteq> 0 then kpanic ''stack autoexpand: set_page'' else kreturn ())))) t1"
      and A: "area_ok 0 a" "area 0 a \<subseteq> F" "allocator (F - area 0 a) t1" "mem t1 = clear_page a m"
        "agree (- F) (mem s) (mem t1)" "same_rest s t1"
    let ?F1 = "F - area 0 a"
    have zero: "\<forall>k<4096. mem t1 (a + of_nat k) = 0" by (simp add: A(4) clear_page_zero area_def span_iff unat_of_nat)
    have "agree (list_cells ?l ns) (mem s) (mem t1)" by (rule agree_mono [OF A(5)]) (use cells in blast)
    note R1 = list_rep_agree [OF this rep]
    have "agree (pages P) (mem s) (mem t1)" by (rule agree_mono [OF A(5)]) (use I(4) in blast)
    note pt1 = pt_inv_frame [OF pt A(3) Diff_subset this same_rest_early [OF A(6)]]
    have F1: "F \<subseteq> ?F1 \<union> pages {a}" by auto
    have "list_cells ?l ns \<inter> ?F1 = {}" using cells by blast
    from add_page_ok [OF A(3) R1(1) this, of a] show ?thesis
    proof (elim disjE exE conjE)
      assume "?F1 = {}" "vm_area_add_page ar a t1 = Some (Inl ''out of memory'')"
      moreover have "covered 4 F" by (rule covered_mono [OF covered_area, of F a]) (use \<open>?F1 = {}\<close> in auto)
      ultimately show ?thesis by (simp add: call kbind_Inl)
    next
      fix nd v
      let ?F2 = "?F1 - node_page nd"
      assume v: "vm_area_add_page ar a t1 = Some (Inr (0, v))" "node_page nd \<subseteq> ?F1" "span nd 32 \<subseteq> node_page nd"
        "allocator ?F2 v" "same_rest t1 v" "list_rep (if ns = [] then 0 else q) (mem v) ?l (ns @ [nd])"
        "map (n_value (mem v)) (ns @ [nd]) = map (n_value (mem t1)) ns @ [a]"
        "agree (- (?F1 \<union> list_cells ?l ns)) (mem t1) (mem v)"
      let ?w = "v\<lparr>mem := extend_area ar (mem v)\<rparr>"
      have lc: "list_cells ?l (ns @ [nd]) = list_cells ?l ns \<union> span nd 32" by (rule list_cells_snoc)
      have sv: "agree (- (F \<union> list_cells ?l ns)) (mem s) (mem v)"
        by (rule agree_trans [OF agree_mono [OF A(5)] agree_mono [OF v(8)]]) auto
      have out: "span ar 16 \<inter> (F \<union> pages P \<union> list_cells ?l (ns @ [nd])) = {}"
        using ar(1) ZU v(2,3) unfolding lc used_by_def by blast
      have vw: "agree B (mem v) (mem ?w)" if "span ar 16 \<inter> B = {}" for B
        using agree_mono [OF extend_area_ok(1) [of ar "mem v"], of B] that by auto
      have keep: "agree (span ar 24) (mem s) (mem v)" "agree (span (task + 48) 8) (mem s) (mem v)"
        by (rule agree_mono [OF sv], use ar ZU in \<open>auto simp: used_by_def\<close>)+
      have fields: "area_va (mem ?w) ar = va" "area_n_pages (mem ?w) ar = area_n_pages (mem s) ar + 1" "t_page_table (mem ?w) task = root"
      proof -
        have sub: "span ar 8 \<subseteq> span ar 24" "span (ar + 8) 8 \<subseteq> span ar 24" by (rule span_mono span_shift_subset; simp)+
        then have "area_va (mem v) ar = area_va (mem s) ar" "area_n_pages (mem v) ar = area_n_pages (mem s) ar"
          using agree_load64 [OF keep(1)] by (simp_all add: area_va_def area_n_pages_def)
        then show "area_va (mem ?w) ar = va" "area_n_pages (mem ?w) ar = area_n_pages (mem s) ar + 1"
          using va(1) by (simp_all add: extend_area_ok)
        have "span ar 16 \<inter> span (task + 48) 8 = {}" using Z(2) sub16 by blast
        from agree_load64 [OF vw [OF this]] agree_load64 [OF keep(2)] root
        show "t_page_table (mem ?w) task = root" by (simp add: t_page_table_def)
      qed
      have "agree (pages P) (mem t1) (mem v)" proof (rule agree_mono [OF v(8)])
        show "pages P \<subseteq> - (?F1 \<union> list_cells ?l ns)" using I(4) cells by blast
      qed
      note pt2 = pt_inv_frame [OF pt1(1) v(4) Diff_subset this same_rest_early [OF v(5)]]
      have dj: "span ar 16 \<inter> ?F2 = {}" "span ar 16 \<inter> pages P = {}" "span ar 16 \<inter> list_cells ?l (ns @ [nd]) = {}"
        using out by blast+
      have al: "allocator ?F2 ?w" by (rule buddy.holds_with [OF v(4)]) (use vw [OF dj(1)] in simp)
      note pt3 = pt_inv_frame [OF pt2(1) al order_refl vw [OF dj(2)], simplified]
      have look3: "lookup (mem ?w) root va' = lookup (mem s) root va'" for va' using pt3(2) pt2(2) pt1(2) by simp
      have lw: "agree (list_cells ?l (ns @ [nd])) (mem v) (mem ?w)" by (rule vw [OF dj(3)])
      note R3 = list_rep_agree [OF lw v(6)]
      have early: "\<not> early ?w" using pt3(1) by (simp add: pt_inv_def)
      have FB: "F \<subseteq> ?F2 \<union> pages {a, nd - 4}" by (auto simp: node_page_def)
      have cB: "card {a, nd - 4} \<le> 2" by (simp add: card_insert_if)
      have flags: "take_bit 8 (0x1f :: u32) = 0x1f" "(0x1f :: u32) AND PTE_VALID \<noteq> 0" "pte_is_leaf 0x1f"
        by (simp_all add: pte_is_leaf_def)
      have step: "?run = kbind (set_page root va (PA_of a) 0x1f) (\<lambda>err.
             if err \<noteq> 0 then kpanic ''stack autoexpand: set_page'' else kreturn ()) ?w"
        using v(1) early fields(1,3) by (simp add: call kbind_Inr kthen_Inr PA_def)
      from set_page_ok [OF pt3(1) va(2) pa_ram(2) [OF A(1)] flags] show ?thesis
      proof (elim disjE exE conjE)
        fix b assume b: "?F2 \<subseteq> area 0 b" "set_page root va (PA_of a) 0x1f ?w = Some (Inl ''out of memory'')"
        have "covered 4 F" by (rule covered_mono [OF covered_add [OF covered_area [OF b(1)] FB _ cB]]) simp_all
        then show ?thesis using b(2) by (simp add: step kbind_Inl)
      next
        fix t F3 P3 c d
        assume t: "set_page root va (PA_of a) 0x1f ?w = Some (Inr (0, t))" "pt_step root ?F2 P ?w F3 P3 t"
          "P3 \<subseteq> insert c (insert d P)"
          "\<forall>va'. lookup (mem t) root va' = (if va_vpn va' = va_vpn va
            then Some (leaf_pa 0 (pa_ppn (PA_of a)) va', 0x1f) else lookup (mem ?w) root va')"
        have st: "pt_inv root F3 P3 t" "P \<subseteq> P3" "pages (P3 - P) \<subseteq> ?F2" "F3 = ?F2 - pages (P3 - P)"
          "agree (- (?F2 \<union> pages P)) (mem ?w) (mem t)" "same_rest ?w t"
          using t(2) unfolding pt_step_def by blast+
        have P3: "pages P3 = pages P \<union> pages (P3 - P)" using st(2) by (metis Un_Diff_cancel pages_Un sup.absorb2)
        have Zc: "Z \<inter> F = {}" "Z \<inter> pages P = {}" "Z \<inter> list_cells ?l ns = {}" using ZU by (auto simp: used_by_def)
        have ac: "area 0 a \<inter> pages P = {}" "area 0 a \<inter> list_cells ?l ns = {}" "area 0 a \<inter> span ar 16 = {}"
          using A(2) I(4) cells ar(1) Zc(1) by blast+
        have fresh: "area 0 a \<inter> used_by ar F3 P3 (ns @ [nd]) = {}" "used_by ar F3 P3 (ns @ [nd]) \<subseteq> used_by ar F P ns"
          "list_cells ?l (ns @ [nd]) \<inter> (?F2 \<union> pages P) = {}" "list_cells ?l (ns @ [nd]) \<inter> (F3 \<union> pages P3) = {}"
          using ac A(2) v(2,3) st(3,4) I(4) cells unfolding used_by_def lc P3 by blast+
        have run: "?run = Some (Inr ((), t))" using t(1) by (simp add: step kbind_Inr)
        have "agree (list_cells ?l (ns @ [nd])) (mem ?w) (mem t)" by (rule agree_mono [OF st(5)]) (use fresh(3) in blast)
        note R4 = list_rep_agree [OF this R3(1)]
        have L: "load_inv root ar Z F3 P3 (ns @ [nd]) t"
          using st(1) R4(1) fresh(2,4) ZU unfolding load_inv_def by blast
        have st_agree: "agree (- (used_by ar F P ns \<union> span ar 16)) (mem s) (mem t)"
          by (rule agree_trans [OF agree_mono [OF sv] agree_trans [OF vw agree_mono [OF st(5)]]]) (auto simp: used_by_def)
        have rest: "same_rest s t"
          using same_rest_trans [OF A(6) same_rest_trans [OF v(5) same_rest_trans [OF same_rest_upd(2) st(6)]]] by simp
        have G: "grown root ar Z F P ns s F3 P3 (ns @ [nd]) t"
          using L st(4) fresh(2) st_agree rest unfolding grown_def by blast
        have wt: "agree B (mem ?w) (mem t)" if "B \<inter> (?F2 \<union> pages P) = {}" for B
          by (rule agree_mono [OF st(5)]) (use that in blast)
        have "agree (span ar 24) (mem ?w) (mem t)" "agree (span (task + 48) 8) (mem ?w) (mem t)"
          by (rule wt, use ar Zc(1,2) in blast)+
        then have same: "area_va (mem t) ar = va" "area_n_pages (mem t) ar = area_n_pages (mem s) ar + 1" "t_page_table (mem t) task = root"
          using fields agree_load64 [of "span ar 24" "mem ?w" "mem t" ar] agree_load64 [of "span ar 24" "mem ?w" "mem t" "ar + 8"]
            agree_load64 [of "span (task + 48) 8" "mem ?w" "mem t" "task + 48"] span_mono [of 8 24 ar] span_shift_subset [of 8 8 24 ar]
          by (simp_all add: area_va_def area_n_pages_def t_page_table_def)
        have vals: "map (n_value (mem t)) (ns @ [nd]) = map (n_value (mem s)) ns @ [a]" using R4(2) R3(2) v(7) R1(2) by simp
        have "agree (area 0 a) (mem t1) (mem v)" by (rule agree_mono [OF v(8)]) (use ac in blast)
        moreover have "agree (area 0 a) (mem v) (mem ?w)" by (rule vw) (use ac in blast)
        moreover have "agree (area 0 a) (mem ?w) (mem t)" by (rule wt) (use ac in blast)
        ultimately have "agree (area 0 a) (mem t1) (mem t)" by (meson agree_trans)
        then have zt: "\<forall>k<4096. mem t (a + of_nat k) = 0"
          using zero by (auto simp: agree_def area_def span_iff unat_of_nat)
        have fat: "frame_at root va 0x1f a (mem t)" by (rule frame_at_ok [OF A(1) va(2,3)]) (use t(4) in simp)
        have O: "\<forall>va'. va_vpn va' \<noteq> va_vpn va \<longrightarrow> lookup (mem t) root va' = lookup (mem s) root va'" using t(4) look3 by simp
        have cov: "\<forall>k. covered k F3 \<longrightarrow> covered (k + 4) F"
        proof (intro allI impI)
          fix k assume k: "covered k F3"
          have sub: "{a, nd - 4} \<union> (P3 - P) \<subseteq> {a, nd - 4, c, d}" using t(3) by blast
          have "card {a, nd - 4, c, d} \<le> 4" by (simp add: card_insert_if)
          with card_mono [OF _ sub] have "card ({a, nd - 4} \<union> (P3 - P)) \<le> 4" by simp
          moreover have "finite ({a, nd - 4} \<union> (P3 - P))" using sub by (rule finite_subset) simp
          moreover have "F \<subseteq> F3 \<union> pages ({a, nd - 4} \<union> (P3 - P))" using FB st(4) by auto
          ultimately show "covered (k + 4) F" by (intro covered_add [OF k])
        qed
        show ?thesis
          by (intro disjI2 exI conjI) (fact run G same vals A(2) fresh(1) fat zt O cov)+
      qed
    qed
  qed
qed

subsection \<open>All pages\<close>

lemma pages_mapped_snoc:
  assumes below: "pages_mapped root lo N fl (\<lambda>_. 0) S W m" and S: "S \<subseteq> T"
    and fr: "frame_at root (lo + of_nat (N * 4096)) fl a m" "\<forall>k<4096. m (a + of_nat k) = 0" "area 0 a \<subseteq> T" "area 0 a \<inter> W = {}"
  shows "pages_mapped root lo (Suc N) fl (\<lambda>_. 0) T W m"
  unfolding pages_mapped_def
proof (intro allI impI)
  fix d assume d: "d < Suc N * 4096"
  show "\<exists>pa. lookup m root (lo + of_nat d) = Some (pa, fl) \<and> m (VA_of pa) = 0 \<and> VA_of pa \<in> T \<and> VA_of pa \<notin> W"
  proof (cases "d < N * 4096")
    case True
    then show ?thesis using below S unfolding pages_mapped_def by blast
  next
    case False
    then obtain e where e: "d = N * 4096 + e" "e < 4096" using d by (auto dest: le_Suc_ex simp: not_less)
    have "pages_mapped root (lo + of_nat (N * 4096)) 1 fl (\<lambda>_. 0) T W m" by (rule page_mapped [OF fr(1,3,4,2)])
    then have "\<exists>pa. lookup m root (lo + of_nat (N * 4096) + of_nat e) = Some (pa, fl) \<and> m (VA_of pa) = 0 \<and> VA_of pa \<in> T \<and> VA_of pa \<notin> W"
      using e(2) unfolding pages_mapped_def by simp
    moreover have "lo + of_nat d = lo + of_nat (N * 4096) + of_nat e" by (simp add: e)
    ultimately show ?thesis by (simp only:)
  qed
qed

lemma grow_loop_ok:
  assumes Z: "span ar 24 \<union> span (task + 48) 8 \<subseteq> Z" "span ar 24 \<inter> span (task + 48) 8 = {}" and lo: "va_off lo = 0"
  shows "load_inv root ar Z F P ns s \<Longrightarrow> t_page_table (mem s) task = root \<Longrightarrow> area_va (mem s) ar = lo + of_nat (N * 4096) \<Longrightarrow>
    unat lo + N * 4096 \<le> 2 ^ 39 \<Longrightarrow>
    covered (4 * N) F \<and> grow_loop task ar lo s = Some (Inl ''out of memory'') \<or>
    (\<exists>t ns' F' P'. grow_loop task ar lo s = Some (Inr ((), t)) \<and> length ns' = N \<and> grown root ar Z F P ns s F' P' (ns @ ns') t \<and>
       area_va (mem t) ar = lo \<and> area_n_pages (mem t) ar = area_n_pages (mem s) ar + of_nat N \<and> t_page_table (mem t) task = root \<and>
       pages_mapped root lo N 0x1f (\<lambda>_. 0) F (used_by ar F' P' (ns @ ns')) (mem t) \<and>
       (\<forall>va. unat (va_vpn va) < unat lo div 4096 \<or> unat lo div 4096 + N \<le> unat (va_vpn va) \<longrightarrow>
          lookup (mem t) root va = lookup (mem s) root va) \<and>
       (\<forall>k. covered k F' \<longrightarrow> covered (k + 4 * N) F))"
proof (induction N arbitrary: F P ns s)
  case 0
  then have "grow_loop task ar lo s = Some (Inr ((), s))" by (subst grow_loop.simps) simp
  moreover have "pages_mapped root lo 0 0x1f (\<lambda>_. 0) F (used_by ar F P (ns @ [])) (mem s)" by (simp add: pages_mapped_def)
  moreover have "grown root ar Z F P ns s F P (ns @ []) s" using grown_refl [OF 0(1)] by simp
  ultimately show ?case using 0(2,3)
    by (intro disjI2 exI [of _ s] exI [of _ "[]"] exI [of _ F] exI [of _ P]) simp
next
  case (Suc N)
  let ?va = "lo + of_nat (N * 4096)"
  have av: "area_va (mem s) ar = lo + of_nat (Suc N * 4096)" by (rule Suc.prems(3))
  then have va: "?va = area_va (mem s) ar - PAGE_SIZE" by simp
  have u: "unat ?va = unat lo + N * 4096" "unat (lo + of_nat (Suc N * 4096)) = unat lo + Suc N * 4096"
    using Suc.prems(4) file_addr [of lo "Suc N * 4096" "N * 4096"] file_addr [of lo "Suc N * 4096" "Suc N * 4096"] by simp_all
  have off: "va_off ?va = 0" using lo unfolding va_off_0 u(1) by simp
  have lt: "lo < area_va (mem s) ar" unfolding av word_less_nat_alt u(2) by simp
  have top: "unat ?va + 4096 \<le> 2 ^ 39" using Suc.prems(4) u(1) by simp
  have step: "grow_loop task ar lo s = kbind (grow_page task ar) (\<lambda>_ t. grow_loop task ar lo t) s"
    using lt by (subst grow_loop.simps) simp
  from grow_page_ok [OF Suc.prems(1) Z Suc.prems(2) va off top] show ?case
  proof (elim disjE exE conjE)
    assume "covered 4 F" "grow_page task ar s = Some (Inl ''out of memory'')"
    moreover have "covered (4 * Suc N) F" by (rule covered_mono [OF \<open>covered 4 F\<close>]) simp
    ultimately show ?thesis by (simp add: step kbind_Inl)
  next
    fix t a nd F1 P1
    assume t: "grow_page task ar s = Some (Inr ((), t))" "grown root ar Z F P ns s F1 P1 (ns @ [nd]) t" "area_va (mem t) ar = ?va"
        "area_n_pages (mem t) ar = area_n_pages (mem s) ar + 1" "t_page_table (mem t) task = root"
      and a: "area 0 a \<subseteq> F" "area 0 a \<inter> used_by ar F1 P1 (ns @ [nd]) = {}" "frame_at root ?va 0x1f a (mem t)"
        "\<forall>k<4096. mem t (a + of_nat k) = 0"
      and o: "\<forall>va'. va_vpn va' \<noteq> va_vpn ?va \<longrightarrow> lookup (mem t) root va' = lookup (mem s) root va'"
      and cov: "\<forall>k. covered k F1 \<longrightarrow> covered (k + 4) F"
    have inv1: "load_inv root ar Z F1 P1 (ns @ [nd]) t" using t(2) by (simp add: grown_def)
    have run: "grow_loop task ar lo s = grow_loop task ar lo t" using t(1) by (simp add: step kbind_Inr)
    have le: "unat lo + N * 4096 \<le> 2 ^ 39" using Suc.prems(4) by simp
    from Suc.IH [OF inv1 t(5,3) le] show ?thesis
    proof (elim disjE exE conjE)
      assume "covered (4 * N) F1" "grow_loop task ar lo t = Some (Inl ''out of memory'')"
      moreover have "covered (4 * N + 4) F" using cov \<open>covered (4 * N) F1\<close> by blast
      ultimately show ?thesis by (simp add: run add.commute)
    next
      fix w ns' F2 P2
      assume w: "grow_loop task ar lo t = Some (Inr ((), w))" "length ns' = N" "grown root ar Z F1 P1 (ns @ [nd]) t F2 P2 ((ns @ [nd]) @ ns') w"
          "area_va (mem w) ar = lo" "area_n_pages (mem w) ar = area_n_pages (mem t) ar + of_nat N" "t_page_table (mem w) task = root"
        and pm: "pages_mapped root lo N 0x1f (\<lambda>_. 0) F1 (used_by ar F2 P2 ((ns @ [nd]) @ ns')) (mem w)"
        and o2: "\<forall>va. unat (va_vpn va) < unat lo div 4096 \<or> unat lo div 4096 + N \<le> unat (va_vpn va) \<longrightarrow>
          lookup (mem w) root va = lookup (mem t) root va"
        and cov2: "\<forall>k. covered k F2 \<longrightarrow> covered (k + 4 * N) F1"
      have g: "F1 \<subseteq> F" "used_by ar F2 P2 ((ns @ [nd]) @ ns') \<subseteq> used_by ar F1 P1 (ns @ [nd])"
        "agree (- (used_by ar F1 P1 (ns @ [nd]) \<union> span ar 16)) (mem t) (mem w)"
        using t(2) w(3) by (simp_all add: grown_def)
      have "span ar 16 \<inter> F = {}"
      proof -
        have "span ar 16 \<subseteq> Z" using Z(1) span_mono [of 16 24 ar] by auto
        moreover have "Z \<inter> F = {}" using Suc.prems(1) by (auto simp: load_inv_def used_by_def)
        ultimately show ?thesis by blast
      qed
      then have ag: "agree (area 0 a) (mem t) (mem w)" by (intro agree_mono [OF g(3)]) (use a(1,2) in blast)
      have vpn: "unat (va_vpn (?va + of_nat d)) = unat lo div 4096 + N" if "d < 4096" for d
      proof -
        obtain q where q: "unat lo = 4096 * q" using lo by (auto simp: va_off_0)
        have "unat (va_vpn (?va + of_nat d)) = (unat ?va + d) div 4096" by (rule vpn_of_offset [OF top that])
        also have "\<dots> = (d + (q + N) * 4096) div 4096" unfolding u(1) q by (simp add: algebra_simps)
        also have "\<dots> = unat lo div 4096 + N" using that unfolding q by (subst div_mult_self1) simp_all
        finally show ?thesis .
      qed
      have "frame_at root ?va 0x1f a (mem w)" using a(3) o2 vpn unfolding frame_at_def by simp
      moreover have "\<forall>k<4096. mem w (a + of_nat k) = 0"
        using a(4) ag by (auto simp: agree_def area_def span_iff unat_of_nat)
      moreover have "area 0 a \<inter> used_by ar F2 P2 ((ns @ [nd]) @ ns') = {}" using a(2) g(2) by blast
      ultimately have M: "pages_mapped root lo (Suc N) 0x1f (\<lambda>_. 0) F (used_by ar F2 P2 (ns @ nd # ns')) (mem w)"
        using pages_mapped_snoc [OF pm g(1) _ _ a(1)] by simp
      have G: "grown root ar Z F P ns s F2 P2 (ns @ nd # ns') w" using grown_trans [OF t(2) w(3)] by simp
      have O: "lookup (mem w) root va = lookup (mem s) root va"
        if "unat (va_vpn va) < unat lo div 4096 \<or> unat lo div 4096 + Suc N \<le> unat (va_vpn va)" for va
      proof -
        have "unat (va_vpn ?va) = unat lo div 4096 + N" using vpn [of 0] by simp
        then have "va_vpn va \<noteq> va_vpn ?va" using that by auto
        then show ?thesis using o o2 that by auto
      qed
      have C: "\<forall>k. covered k F2 \<longrightarrow> covered (k + 4 * Suc N) F"
        using cov cov2 by (metis add.assoc add.commute mult_Suc_right)
      have np: "area_n_pages (mem w) ar = area_n_pages (mem s) ar + of_nat (Suc N)" using w(5) t(4) by simp
      have run2: "grow_loop task ar lo s = Some (Inr ((), w))" using run w(1) by simp
      have len: "length (nd # ns') = Suc N" using w(2) by simp
      have O': "\<forall>va. unat (va_vpn va) < unat lo div 4096 \<or> unat lo div 4096 + Suc N \<le> unat (va_vpn va) \<longrightarrow>
          lookup (mem w) root va = lookup (mem s) root va" using O by blast
      show ?thesis by (intro disjI2 exI conjI) (fact run2 len G w(4) np w(6) M O' C)+
    qed
  qed
qed

subsection \<open>The page fault\<close>

lemma page_start: "(v :: u64) AND - 4096 = set_field 0 12 0 v"
proof -
  have e: "(- 4096 :: u64) = NOT (mask 12)" by (simp add: mask_eq_exp_minus_1)
  show ?thesis unfolding e by (intro bit_word_eqI) (auto simp: bit_set_field_iff bit_simps)
qed

lemma stack_fault_call:
  assumes rep: "list_rep q (mem s) (t_vm_areas task) xs" "map (n_value (mem s)) xs = us @ ar # vs"
    and us: "\<forall>u\<in>set us. \<not> vm_area_in (mem s) u (stval s) \<and> area_va (mem s) u \<le> stval s"
    and stack: "area_flags (mem s) ar AND VM_STACK \<noteq> 0" "stval s < area_va (mem s) ar" "area_va (mem s) ar \<le> USERSTACK" "ar \<noteq> 0"
    and va: "USERSTACKMIN \<le> stval s"
  shows "stack_fault task s = kthen (grow_loop task ar (set_field 0 12 0 (stval s))) (kreturn True) s"
proof -
  have notin: "\<not> vm_area_in (mem s) ar (stval s)" using stack(2) by (simp add: vm_area_in_def Let_def not_le)
  let ?hit = "\<lambda>n. vm_area_in (mem s) (n_value (mem s) n) (stval s) \<or> stval s < area_va (mem s) (n_value (mem s) n)"
  obtain ys n zs where xs: "xs = ys @ n # zs" "map (n_value (mem s)) ys = us" "n_value (mem s) n = ar"
    using rep(2) by (auto simp: map_eq_append_conv map_eq_Cons_conv)
  have "\<forall>y\<in>set ys. \<not> ?hit y"
  proof
    fix y assume "y \<in> set ys"
    then have "n_value (mem s) y \<in> set us" using xs(2) by auto
    then show "\<not> ?hit y" using us by (auto simp: not_less)
  qed
  then have "find ?hit xs = Some n" using stack(2) unfolding xs(1) by (induction ys) (simp_all add: xs(3))
  then have "vm_find_stack (mem s) (t_vm_areas task) (stval s) = Some ar"
    using rep(1) vm_find_stack_from_list [of "mem s" "t_vm_areas task" q _ xs "stval s"] notin stack(1)
    by (simp add: vm_find_stack_def list_rep_def xs(3))
  moreover have "stval s < USERSTACK" using stack(2,3) by (rule less_le_trans)
  ultimately show ?thesis using va stack(4) by (simp add: stack_fault_def kwalk_Some kbind_Inr page_start)
qed

text \<open>
  Property C14. A page fault between \<open>USERSTACKMIN\<close> and the area of the stack, whose address is in none
  of the areas before it: either memory runs out, which happens only if at most four pages for every
  new page are free, or the fault is handled, and the area begins with the page of the fault, counts the
  new pages and holds their frames; the user finds zeros there, with every right, behind all other
  addresses what was there before, and nothing but free memory, the tables, the list of frames and two
  fields of the area is written.
\<close>

theorem stack_fault_grows:
  assumes "list_rep q (mem s) (t_vm_areas task) xs" and "map (n_value (mem s)) xs = us @ ar # vs"
    and "\<forall>u\<in>set us. \<not> vm_area_in (mem s) u (stval s) \<and> area_va (mem s) u \<le> stval s"
    and "area_flags (mem s) ar AND VM_STACK \<noteq> 0" and "va_off (area_va (mem s) ar) = 0" and "ar \<noteq> 0"
    and "USERSTACKMIN \<le> stval s" and "stval s < area_va (mem s) ar" and "area_va (mem s) ar \<le> USERSTACK"
    and "load_inv root ar Z F P ns s" and "span ar 24 \<union> span (task + 48) 8 \<subseteq> Z" and "span ar 24 \<inter> span (task + 48) 8 = {}"
    and "t_page_table (mem s) task = root"
  defines "lo \<equiv> set_field 0 12 0 (stval s)" and "N \<equiv> unat (area_va (mem s) ar) div 4096 - unat (stval s) div 4096"
  shows "covered (4 * N) F \<and> stack_fault task s = Some (Inl ''out of memory'') \<or>
    (\<exists>t ns' F' P'. stack_fault task s = Some (Inr (True, t)) \<and> 0 < N \<and> length ns' = N \<and>
       load_inv root ar Z F' P' (ns @ ns') t \<and> area_va (mem t) ar = lo \<and> area_n_pages (mem t) ar = area_n_pages (mem s) ar + of_nat N \<and>
       pages_mapped root lo N 0x1f (\<lambda>_. 0) F (used_by ar F' P' (ns @ ns')) (mem t) \<and>
       (\<forall>va. unat (va_vpn va) < unat lo div 4096 \<or> unat (area_va (mem s) ar) div 4096 \<le> unat (va_vpn va) \<longrightarrow>
          lookup (mem t) root va = lookup (mem s) root va) \<and>
       agree (- (used_by ar F P ns \<union> span ar 16)) (mem s) (mem t) \<and> same_rest s t)"
proof -
  note call = stack_fault_call [OF assms(1-4,8,9,6,7), folded lo_def]
  have lo: "unat lo = unat (stval s) div 4096 * 4096" by (simp add: lo_def unat_clear_off)
  obtain p where p: "unat (area_va (mem s) ar) = 4096 * p" using assms(5) by (auto simp: va_off_0)
  have lt: "unat (stval s) < 4096 * p" "4096 * p \<le> 270314504192"
    using assms(8,9) by (simp_all add: word_less_nat_alt word_le_nat_alt p)
  then have N: "N = p - unat (stval s) div 4096" "unat (stval s) div 4096 < p" by (simp_all add: N_def p div_less_iff_less_mult mult.commute)
  have sum: "unat lo + N * 4096 = 4096 * p" using N by (simp add: lo algebra_simps)
  have av: "area_va (mem s) ar = lo + of_nat (N * 4096)"
    by (rule word_unat_eq_iff [THEN iffD2]) (use file_addr [of lo "N * 4096" "N * 4096"] sum lt(2) p in simp)
  have off: "va_off lo = 0" by (simp add: va_off_0 lo)
  have top: "unat lo + N * 4096 \<le> 2 ^ 39" using sum lt(2) by simp
  have end_page: "unat lo div 4096 + N = p" using N by (simp add: lo)
  from grow_loop_ok [OF assms(11,12) off assms(10,13) av top] show ?thesis
  proof (elim disjE exE conjE)
    assume "covered (4 * N) F" "grow_loop task ar lo s = Some (Inl ''out of memory'')"
    then show ?thesis by (simp add: call kthen_Inl)
  next
    fix t ns' F' P'
    assume t: "grow_loop task ar lo s = Some (Inr ((), t))" "length ns' = N" "grown root ar Z F P ns s F' P' (ns @ ns') t"
      "area_va (mem t) ar = lo" "area_n_pages (mem t) ar = area_n_pages (mem s) ar + of_nat N"
      "pages_mapped root lo N 0x1f (\<lambda>_. 0) F (used_by ar F' P' (ns @ ns')) (mem t)"
      "\<forall>va. unat (va_vpn va) < unat lo div 4096 \<or> unat lo div 4096 + N \<le> unat (va_vpn va) \<longrightarrow>
          lookup (mem t) root va = lookup (mem s) root va"
    have run: "stack_fault task s = Some (Inr (True, t))" using t(1) by (simp add: call kthen_Inr)
    have pos: "0 < N" using N by simp
    have e: "unat lo div 4096 + N = unat (area_va (mem s) ar) div 4096" using end_page by (simp add: p)
    note o = t(7) [unfolded e]
    have g: "load_inv root ar Z F' P' (ns @ ns') t" "agree (- (used_by ar F P ns \<union> span ar 16)) (mem s) (mem t)" "same_rest s t"
      using t(3) by (simp_all add: grown_def)
    show ?thesis by (intro disjI2 exI conjI) (fact run pos t(2) g(1) t(4-6) o g(2,3))+
  qed
qed

subsection \<open>A concrete stack\<close>

text \<open>
  A task at \<open>0x3f00800000\<close> with one area, at \<open>0x3f00900100\<close>: the page below \<open>USERSTACK\<close>, in the frame at
  \<open>0x3f00a00000\<close>.
\<close>

definition stack_memory :: memory where
  "stack_memory = store32 (words_at
     [(0x3f00800018, 0x3f00900000), (0x3f00800020, 0x3f00900000),
      (0x3f00900000, 0x3f00900100), (0x3f00900008, 0x3f00800018),
      (0x3f00900100, 0x3eeffff000), (0x3f00900108, 1), (0x3f00900118, 0x3f00900200), (0x3f00900120, 0x3f00900200),
      (0x3f00900200, 0x3f00a00000), (0x3f00900208, 0x3f00900118)]) 0x3f00900114 0x403"

lemma stack_memory_word:
  assumes "aligned 3 a" and "span 0x3f00900114 4 \<inter> span a 8 = {}"
  shows "load64 stack_memory a = (case map_of
     [(0x3f00800018, 0x3f00900000), (0x3f00800020, 0x3f00900000),
      (0x3f00900000, 0x3f00900100), (0x3f00900008, 0x3f00800018),
      (0x3f00900100, 0x3eeffff000), (0x3f00900108, 1), (0x3f00900118, 0x3f00900200), (0x3f00900120, 0x3f00900200),
      (0x3f00900200, 0x3f00a00000), (0x3f00900208, 0x3f00900118)] a of Some v \<Rightarrow> v | None \<Rightarrow> 0)"
  unfolding stack_memory_def load64_store32_other [OF assms(2)]
  by (rule load64_words_at [OF assms(1)]) (simp add: aligned_def take_bit_eq_mask mask_eq_exp_minus_1)

lemma stack_memory_fields:
  "map (l_first stack_memory) [0x3f00800018, 0x3f00900118] = [0x3f00900000, 0x3f00900200]"
  "map (l_last stack_memory) [0x3f00800018, 0x3f00900118] = [0x3f00900000, 0x3f00900200]"
  "map (n_value stack_memory) [0x3f00900000, 0x3f00900200] = [0x3f00900100, 0x3f00a00000]"
  "map (n_list stack_memory) [0x3f00900000, 0x3f00900200] = [0x3f00800018, 0x3f00900118]"
  "map (n_prev stack_memory) [0x3f00900000, 0x3f00900200] = [0, 0]" "map (n_next stack_memory) [0x3f00900000, 0x3f00900200] = [0, 0]"
  "area_va stack_memory 0x3f00900100 = 0x3eeffff000" "area_n_pages stack_memory 0x3f00900100 = 1"
  "area_flags stack_memory 0x3f00900100 = 0x403"
  by (simp_all add: l_first_def l_last_def n_value_def n_list_def n_prev_def n_next_def area_va_def area_n_pages_def
      stack_memory_word aligned_def take_bit_eq_mask mask_eq_exp_minus_1 span_disjoint)
    (simp add: area_flags_def stack_memory_def)

lemma stack_memory_lists:
  "list_rep 0 stack_memory 0x3f00800018 [0x3f00900000]" "list_rep 0 stack_memory 0x3f00900118 [0x3f00900200]"
  using stack_memory_fields by (simp_all add: list_rep_def separate_nodes_def off_list_def span_disjoint)

lemma stack_memory_free: "agree initial_free (\<lambda>_. 0) stack_memory"
proof -
  have "stack_memory x = 0" if "x \<in> initial_free" for x
  proof -
    have "x \<notin> span a n" if "KERN_PHYBASE + 0x400000 \<le> a" "unat a + n \<le> unat KERN_PHYSTOP" for a n
      using after_free_memory [OF that] \<open>x \<in> initial_free\<close> by blast
    then show ?thesis by (simp add: stack_memory_def store32_def store_le_outside words_at_outside)
  qed
  then show ?thesis by (simp add: agree_def)
qed

text \<open>The fault at \<open>0x3eefffd800\<close> adds the two pages from \<open>0x3eefffd000\<close> on.\<close>

lemma stack_fault_grows_witness:
  "\<exists>root (s :: cpu_state) t a. stval s = 0x3eefffd800 \<and> area_va (mem s) 0x3f00900100 = 0x3eeffff000 \<and>
     stack_fault 0x3f00800000 s = Some (Inr (True, t)) \<and>
     area_va (mem t) 0x3f00900100 = 0x3eefffd000 \<and> area_n_pages (mem t) 0x3f00900100 = 3 \<and>
     lookup (mem s) root 0x3eefffd800 = None \<and> lookup (mem t) root 0x3eefffd800 = Some (a, 0x1f) \<and> mem t (VA_of a) = 0"
proof -
  let ?task = "0x3f00800000 :: u64" and ?ar = "0x3f00900100 :: u64" and ?Z = "span 0x3f00900100 24 \<union> span (0x3f00800000 + 48) 8"
  let ?cells = "span (t_vm_areas ?task) 16 \<union> span 0x3f00900000 0x300"
  have l: "t_vm_areas ?task = 0x3f00800018" "area_pages ?ar = 0x3f00900118" by (simp_all add: t_vm_areas_def area_pages_def)
  have out: "?cells \<inter> initial_free = {}" "span (?task + 48) 8 \<inter> initial_free = {}"
    unfolding l Int_Un_distrib2 by (simp_all add: after_free_memory)
  obtain root and s :: cpu_state where s: "area 0 root \<subseteq> initial_free" "pt_inv root (initial_free - area 0 root) {root} s"
    "agree (- (initial_free \<union> span (?task + 48) 8)) stack_memory (mem s)" "\<forall>va. lookup (mem s) root va = kernel_lookup va"
    "t_page_table (mem s) ?task = root" "stval s = 0x3eefffd800"
    by (rule fresh_process [OF stack_memory_free out(2)])
  let ?F = "initial_free - area 0 root"
  have apart: "?cells \<inter> span (?task + 48) 8 = {}" unfolding l Int_Un_distrib2 by (simp add: span_disjoint)
  have ag: "agree ?cells stack_memory (mem s)" by (rule agree_mono [OF s(3)]) (use out(1) apart in blast)
  have sub: "span 0x3f00900000 32 \<subseteq> ?cells" "span ?ar 24 \<subseteq> ?cells" "span (area_pages ?ar) 16 \<subseteq> ?cells" "span 0x3f00900200 32 \<subseteq> ?cells"
    unfolding l using span_mono [of 32 768 "0x3f00900000 :: u64"] span_shift_subset [of "0x100 :: u64" 24 768 "0x3f00900000"]
      span_shift_subset [of "0x118 :: u64" 16 768 "0x3f00900000"] span_shift_subset [of "0x200 :: u64" 32 768 "0x3f00900000"] by auto
  have "agree (list_cells (t_vm_areas ?task) [0x3f00900000]) stack_memory (mem s)" "agree (list_cells (area_pages ?ar) [0x3f00900200]) stack_memory (mem s)"
    by (rule agree_mono [OF ag], use sub in \<open>simp add: list_cells_def\<close>)+
  then have areas: "list_rep 0 (mem s) (t_vm_areas ?task) [0x3f00900000]" "map (n_value (mem s)) [0x3f00900000] = [] @ ?ar # []"
    and pages: "list_rep 0 (mem s) (area_pages ?ar) [0x3f00900200]"
    using list_rep_agree [of _ _ stack_memory "mem s" 0] stack_memory_lists stack_memory_fields(3) unfolding l by simp_all
  have "span (?ar + 8) 8 \<subseteq> span ?ar 24" "span (?ar + 20) 4 \<subseteq> span ?ar 24" "span ?ar 8 \<subseteq> span ?ar 24" by (rule span_mono span_shift_subset; simp)+
  then have in_cells: "span (?ar + 8) 8 \<subseteq> ?cells" "span (?ar + 20) 4 \<subseteq> ?cells" "span ?ar 8 \<subseteq> ?cells" using sub(2) by blast+
  have fields: "area_va (mem s) ?ar = 0x3eeffff000" "area_n_pages (mem s) ?ar = 1" "area_flags (mem s) ?ar = 0x403"
    using agree_load64 [OF ag in_cells(1)] agree_load32 [OF ag in_cells(2)] agree_load64 [OF ag in_cells(3)] stack_memory_fields(7-9)
    by (simp_all add: area_va_def area_n_pages_def area_flags_def)
  have cut: "span ?ar 24 \<inter> span (?task + 48) 8 = {}" "?Z \<inter> list_cells (area_pages ?ar) [0x3f00900200] = {}"
    unfolding l list_cells_def by (simp_all add: Int_Un_distrib Int_Un_distrib2 span_disjoint)
  have free: "list_cells (area_pages ?ar) [0x3f00900200] \<inter> initial_free = {}" "?Z \<inter> initial_free = {}"
    using out sub unfolding list_cells_def by auto
  have inv: "load_inv root ?ar ?Z ?F {root} [0x3f00900200] s"
    using s(1,2) pages cut(2) free unfolding load_inv_def used_by_def by auto
  have low: "lookup (mem s) root 0x3eefffd800 = None" using s(4) kernel_lookup_cases(3) by simp
  have "\<forall>u\<in>set []. \<not> vm_area_in (mem s) u (stval s) \<and> area_va (mem s) u \<le> stval s" by simp
  note grows = stack_fault_grows [OF areas this _ _ _ _ _ _ inv order_refl cut(1) s(5), unfolded fields s(6)]
  have N: "unat (0x3eeffff000 :: u64) div 4096 - unat (0x3eefffd800 :: u64) div 4096 = 2" by simp
  have lo: "set_field 0 12 0 (0x3eefffd800 :: u64) = 0x3eefffd000" by (simp add: page_start [symmetric])
  have flags: "(0x403 :: u32) AND VM_STACK \<noteq> 0" "va_off (0x3eeffff000 :: u64) = 0" "USERSTACKMIN \<le> 0x3eefffd800"
     "(0x3eefffd800 :: u64) < 0x3eeffff000" "(0x3eeffff000 :: u64) \<le> USERSTACK" "(0x3f00900100 :: u64) \<noteq> 0"
    by (simp_all add: VM_STACK_def va_off_0)
  from grows [OF flags(1,2,6,3-5), unfolded N lo] enough_memory [of 8 root]
  obtain t ns' F' P' where t: "stack_fault ?task s = Some (Inr (True, t))" "area_va (mem t) ?ar = 0x3eefffd000" "area_n_pages (mem t) ?ar = 3"
    "pages_mapped root 0x3eefffd000 2 0x1f (\<lambda>_. 0) ?F (used_by ?ar F' P' ([0x3f00900200] @ ns')) (mem t)"
    by auto
  have "\<exists>pa. lookup (mem t) root (0x3eefffd000 + of_nat 2048) = Some (pa, 0x1f) \<and> mem t (VA_of pa) = 0"
    using t(4) unfolding pages_mapped_def by (auto dest!: spec [of _ 2048])
  then show ?thesis using s(6) fields(1) t(1-3) low by auto
qed

end
