(* ===== verification/Clone_Correct.thy ===== *)
theory Clone_Correct
  imports Grow_Correct
begin

section \<open>Correctness of vm_clone\<close>

text \<open>
  \<open>fork\<close> copies the address space: every page of every area of the parent gets a frame of its own,
  with the parent's bytes, in the page table of the child.
\<close>

lemma kbind_assoc: "kbind (kbind m f) g = kbind m (\<lambda>x. kbind (f x) g)"
  by (rule ext) (simp add: kbind_def split: option.split sum.split)

lemma kbind_kreturn: "kbind (kreturn x) f = f x"
  by (rule ext) (simp add: kbind_Inr)

subsection \<open>The window is closed again\<close>

text \<open>\<open>copy_from_user\<close> leaves everything but memory as it was, and the window for page faults closed.\<close>

definition rest_or_closed :: "'a cpu_state_scheme \<Rightarrow> 'a cpu_state_scheme \<Rightarrow> bool" where
  "rest_or_closed s t \<longleftrightarrow> same_rest s t \<or> same_rest (closed s) t"

lemma rest_closed: "same_rest s t \<Longrightarrow> rest_or_closed s (closed t)"
  unfolding rest_or_closed_def same_rest_def closed_def by (rule disjI2) (cases s; cases t; simp)

lemma rest_or_closed_same: "rest_or_closed s t \<Longrightarrow> same_rest s t \<or> same_rest (closed s) t"
  by (simp add: rest_or_closed_def)

lemma csrnc_twice: "n < 64 \<Longrightarrow> csrnc n (csrnc n x) = csrnc n x"
  by (rule bit_word_eqI) (simp add: bit_csrnc)

lemma closed_twice [simp]: "closed (closed s) = closed s"
  by (simp add: closed_def csrnc_twice)

lemma same_rest_closed: "same_rest s t \<Longrightarrow> same_rest (closed s) (closed t)"
  unfolding same_rest_def closed_def by (cases s; cases t; simp)

lemma rest_or_closed_trans: "rest_or_closed s t \<Longrightarrow> rest_or_closed t u \<Longrightarrow> rest_or_closed s u"
  unfolding rest_or_closed_def
  by (metis closed_twice same_rest_closed same_rest_trans)

lemma rest_or_closed_refl [simp]: "rest_or_closed s s"
  by (simp add: rest_or_closed_def)

lemma rest_or_closed_facts:
  assumes "rest_or_closed s t"
  shows "early t = early s" and "active_root t = active_root s"
proof -
  have e: "early (closed s) = early s" "satp (closed s) = satp s" by (simp_all add: closed_def)
  have "satp t = satp s" if "same_rest s t" for s :: "'a cpu_state_scheme"
    using that unfolding same_rest_def by (cases s; cases t; simp)
  with assms e same_rest_early [of s t] same_rest_early [of "closed s" t]
  show "early t = early s" "active_root t = active_root s" by (auto simp: rest_or_closed_def active_root_def)
qed

lemma rest_or_closed_regs:
  fixes s :: "'a sched_state_scheme"
  assumes "rest_or_closed s t"
  shows "kernel_regs t = kernel_regs s"
proof -
  have "kernel_regs t = kernel_regs u" if "same_rest u t" for u :: "'a sched_state_scheme"
    by (subst that [unfolded same_rest_def]) simp
  moreover have "kernel_regs (closed s) = kernel_regs s" by (simp add: closed_def)
  ultimately show ?thesis using assms unfolding rest_or_closed_def by metis
qed

lemma closed_pt_inv [simp]: "pt_inv root F P (closed s) \<longleftrightarrow> pt_inv root F P s"
  unfolding pt_inv_def by (simp add: closed_def) (simp flip: closed_def)

lemma closed_load_inv [simp]: "load_inv root ar Z F P xs (closed s) \<longleftrightarrow> load_inv root ar Z F P xs s"
  by (simp add: load_inv_def)

lemma closed_page_mapped [simp]:
  "page_mapped root ar Z fl va F P xs s a nd F' P' (closed t) \<longleftrightarrow> page_mapped root ar Z fl va F P xs s a nd F' P' t"
  by (simp add: page_mapped_def)

subsection \<open>The frame in page_fault_handler\<close>

text \<open>
  Every copy of a page stores the kernel's registers in \<open>page_fault_handler\<close> first. These are the same registers each time, so that
  the loops run as if the frame had been there from the beginning, in the state \<open>saved\<close>.
\<close>

lemma load_inv_outside:
  assumes inv: "load_inv root ar Z F P xs s" and ag: "agree (used_by ar F P xs) (mem s) m"
  shows "load_inv root ar Z F P xs (s\<lparr>mem := m\<rparr>)" and "lookup m root va = lookup (mem s) root va"
    and "map (n_value m) xs = map (n_value (mem s)) xs"
proof -
  obtain q where I: "pt_inv root F P s" "list_rep q (mem s) (area_pages ar) xs"
    "list_cells (area_pages ar) xs \<inter> (F \<union> pages P) = {}" "Z \<inter> used_by ar F P xs = {}" using inv by (auto simp: load_inv_def)
  let ?t = "s\<lparr>mem := m\<rparr>"
  have A: "agree F (mem s) (mem ?t)" "agree (pages P) (mem s) (mem ?t)" "agree (list_cells (area_pages ar) xs) (mem s) m"
    using agree_mono [OF ag] by (auto simp: used_by_def)
  have "allocator F s" using I(1) by (simp add: pt_inv_def)
  then have "allocator F ?t" by (rule allocator_frame [OF _ A(1)]) simp
  note T = pt_inv_frame [OF I(1) this order_refl A(2), simplified]
  note R = list_rep_agree(1,2) [OF A(3) I(2)]
  show "load_inv root ar Z F P xs ?t" using T(1) R(1) I(3,4) unfolding load_inv_def by auto
  show "lookup m root va = lookup (mem s) root va" "map (n_value m) xs = map (n_value (mem s)) xs" using T(2) R(2) by simp_all
qed

lemma agree_beside:
  assumes "agree (- U) m m'" and "agree (- H) m n" and "agree (- H) m' n'" and "agree H n n'"
  shows "agree (- U) n n'"
  using assms unfolding agree_def by (metis ComplI)

lemma page_mapped_beside:
  assumes one: "page_mapped root ar Z flags va F P xs s a nd F' P' t" and inv: "load_inv root ar Z F P xs s" and H: "H \<subseteq> Z"
    and m: "agree (- H) (mem s) m" "agree (- H) (mem t) m'" "agree H m m'"
  shows "page_mapped root ar Z flags va F P xs (s\<lparr>mem := m\<rparr>) a nd F' P' (t\<lparr>mem := m'\<rparr>)"
proof -
  have L: "load_inv root ar Z F' P' (xs @ [nd]) t" "agree (- used_by ar F P xs) (mem s) (mem t)"
    using one by (simp_all add: page_mapped_def)
  have "Z \<inter> used_by ar F P xs = {}" "Z \<inter> used_by ar F' P' (xs @ [nd]) = {}" using inv L(1) by (simp_all add: load_inv_def)
  then have A: "agree (used_by ar F P xs) (mem s) m" "agree (used_by ar F' P' (xs @ [nd])) (mem t) m'"
    using H by (intro agree_mono [OF m(1)] agree_mono [OF m(2)]; blast)+
  have "agree (- used_by ar F P xs) m m'" by (rule agree_beside [OF L(2) m])
  then show ?thesis using one load_inv_outside(2,3) [OF inv A(1)] load_inv_outside [OF L(1) A(2)] by (simp add: page_mapped_def)
qed

lemma area_ready_beside:
  assumes R: "area_ready root Z F P l xs ars s ar nd F' t" and inv: "image_inv root l Z F P xs ars s" and H: "H \<subseteq> Z"
    and m: "agree (- H) (mem s) m" "agree (- H) (mem t) m'" "agree H m m'"
  shows "area_ready root Z F P l xs ars (s\<lparr>mem := m\<rparr>) ar nd F' (t\<lparr>mem := m'\<rparr>)"
proof -
  obtain q where R: "F' \<subseteq> F" "vm_areas F' q (mem t) l (xs @ [nd]) (ars @ [ar])" "load_inv root ar Z F' P [] t"
    "(span ar 24 \<union> list_cells l (xs @ [nd])) \<inter> used_by ar F' P [] = {}"
    "\<forall>va. lookup (mem t) root va = lookup (mem s) root va" "agree (- (F \<union> list_cells l xs)) (mem s) (mem t)"
    "used_by ar F' P [] \<subseteq> F \<union> pages P" "span nd 32 \<union> span ar 40 \<subseteq> F" "same_rest s t" "\<forall>k. covered k F' \<longrightarrow> covered (k + 2) F"
    using R unfolding area_ready_def by blast
  have Z: "Z \<inter> image_cells l F P xs = {}" using inv by (simp add: image_inv_def)
  have "list_cells l (xs @ [nd]) \<subseteq> - H" using Z H R(8) unfolding list_cells_snoc image_cells_def by blast
  from vm_areas_frame [OF R(2) agree_mono [OF m(2) this] order_refl] have "vm_areas F' q m' l (xs @ [nd]) (ars @ [ar])" .
  moreover have "agree (used_by ar F' P []) (mem t) m'"
    by (rule agree_mono [OF m(2)]) (use R(3) H in \<open>auto simp: load_inv_def\<close>)
  note L = load_inv_outside [OF R(3) this]
  moreover have "lookup m root va = lookup (mem s) root va" for va
    by (rule image_inv_write(2) [OF inv m(1)]) (use Z H in blast)
  moreover have "agree (- (F \<union> list_cells l xs)) m m'" by (rule agree_beside [OF R(6) m])
  moreover have "same_rest (s\<lparr>mem := m\<rparr>) (t\<lparr>mem := m'\<rparr>)"
    unfolding same_rest_def by (subst R(9) [unfolded same_rest_def]) simp
  ultimately show ?thesis using R(1,4,5,7,8,10) unfolding area_ready_def by auto
qed

text \<open>After a step that leaves the frame and the registers alone, there is nothing more to store.\<close>

lemma saved_agree:
  assumes "kernel_regs t = kernel_regs s" and "agree B (mem s) (mem t)"
  shows "agree B (mem (saved G s)) (mem (saved G t))"
  using store_cpu_agree [OF assms(2)] unfolding saved_def assms(1) by simp

lemma saved_kept:
  assumes "agree (handler_span G) (mem s0) (mem t)" and "s0 = saved G s" and "rest_or_closed s t"
  shows "saved G t = t"
  using saved_again assms rest_or_closed_regs by blast

subsection \<open>The parent\<close>

text \<open>
  The parent's table is the active one; it and the frames of the pages that are copied lie in \<open>Z\<close>,
  which is not written.
\<close>

definition readable :: "memory \<Rightarrow> u64 \<Rightarrow> u64 set \<Rightarrow> u64 \<Rightarrow> bool" where
  "readable m root Z va \<longleftrightarrow>
     (\<exists>pa fl. lookup m root va = Some (pa, fl) \<and> fl AND PTE_READ \<noteq> 0 \<and> VA_of pa \<in> Z)"

definition parent_inv :: "u64 \<Rightarrow> u64 set \<Rightarrow> u64 set \<Rightarrow> memory \<Rightarrow> bool" where
  "parent_inv root Z Q m \<longleftrightarrow> ptable 2 m root Q \<and> pages Q \<subseteq> Z"

lemma parent_frame:
  assumes "parent_inv root Z Q m" and "agree Z m m'"
  shows "parent_inv root Z Q m'" and "lookup m' root va = lookup m root va"
    and "readable m' root Z va \<longleftrightarrow> readable m root Z va" and "readable m root Z va \<Longrightarrow> user_mem m' root va = user_mem m root va"
proof -
  have "agree (pages Q) m m'" by (rule agree_mono [OF assms(2)]) (use assms(1) in \<open>simp add: parent_inv_def\<close>)
  note F = ptable_frame [OF _ this, of 2 root]
  show "parent_inv root Z Q m'" and look: "lookup m' root va = lookup m root va"
    using assms(1) F by (simp_all add: parent_inv_def lookup_def)
  then show "readable m' root Z va \<longleftrightarrow> readable m root Z va" by (simp add: readable_def)
  show "user_mem m' root va = user_mem m root va" if "readable m root Z va"
    using that assms(2) look by (auto simp: readable_def user_mem_def agree_def)
qed

subsection \<open>One page\<close>

lemma add_page_then:
  "kbind (vm_area_add_page ar a) (\<lambda>err. if err \<noteq> 0 then n else f) =
     kbind (list_node_create a) (\<lambda>node. if node = 0 then n
       else kthen (kmodify (\<lambda>s. s\<lparr>mem := list_push (area_pages ar) node (mem s)\<rparr>)) f)"
  unfolding vm_area_add_page_def kthen_def kbind_assoc
  by (intro arg_cong [of _ _ "kbind (list_node_create a)"] ext) (simp add: ENOMEM_def kbind_assoc kbind_kreturn)

lemma clone_page_call:
  "vm_clone_page G ar task va flags = kbind (alloc_pages 0) (\<lambda>p. let a = address p in
     if a = 0 then kpanic ''out of memory''
     else kbind (vm_area_add_page ar a) (\<lambda>err.
       if err \<noteq> 0 then kpanic ''out of memory''
       else kbind (kgets (\<lambda>s. (t_page_table (mem s) task, PA (early s) a))) (\<lambda>(table, pa).
         kbind (set_page table va pa (flags OR PTE_USER)) (\<lambda>err.
           if err \<noteq> 0 then kpanic ''set_page'' else kthen (copy_from_user G a va PAGE_SIZE) (kreturn ())))))"
  unfolding vm_clone_page_def add_page_then Let_def t_page_table_def set_page_user_def by (rule refl)

lemma area_above_split:
  assumes "area_ok 0 a" and "j < 4096"
  shows "\<not> a + j < SPLIT"
proof -
  have "a + j \<in> area 0 a" using assms(2) by (simp add: area_def span_iff word_less_nat_alt)
  then have "a + j \<in> ram" using assms(1) by (auto simp: area_ok_def)
  then show ?thesis by (auto simp: ram_def word_le_nat_alt word_less_nat_alt)
qed

lemma clone_page_ok:
  assumes inv: "load_inv root ar Z F P xs s" and task: "t_page_table (mem s) task = root" "span (task + 48) 8 \<subseteq> Z"
    and parent: "parent_inv (active_root s) (Z - handler_span G) Q (mem s)" and H: "handler_span G \<subseteq> Z"
    and va: "va_off va = 0" "unat va + 4096 \<le> unat SPLIT"
    and rd: "\<forall>d<4096. readable (mem s) (active_root s) (Z - handler_span G) (va + of_nat d)"
  shows "covered 3 F \<and> vm_clone_page G ar task va 0x1f s = Some (Inl ''out of memory'') \<or>
    (\<exists>a nd F' P' t. vm_clone_page G ar task va 0x1f s = Some (Inr ((), t)) \<and> rest_or_closed s t \<and>
       page_mapped root ar Z 0x1f va F P xs (saved G s) a nd F' P' t \<and>
       (\<forall>k<4096. mem t (a + of_nat k) = user_mem (mem s) (active_root s) (va + of_nat k)))"
proof -
  let ?run = "vm_clone_page G ar task va 0x1f s"
  from page_added_ok [OF inv] show ?thesis
  proof (elim disjE exE conjE)
    assume "F = {}" "alloc_pages 0 s = Some (Inl ''out of memory'')"
    then show ?thesis using covered_empty by (simp add: clone_page_call kbind_Inl)
  next
    fix p t1
    assume "alloc_pages 0 s = Some (Inr (p, t1))" "address p \<noteq> 0" "F \<subseteq> area 0 (address p)"
      "vm_area_add_page ar (address p) t1 = Some (Inl ''out of memory'')"
    then show ?thesis
      using covered_mono [OF covered_area, of F "address p" 3] by (simp add: clone_page_call kbind_Inl kbind_Inr Let_def)
  next
    fix p t1 nd u
    assume t1: "alloc_pages 0 s = Some (Inr (p, t1))" "address p \<noteq> 0"
      and u: "vm_area_add_page ar (address p) t1 = Some (Inr (0, u))" "page_added root ar F P xs s (address p) nd u"
    let ?a = "address p"
    have U: "\<not> early u" "agree (- (F \<union> list_cells (area_pages ar) xs)) (mem s) (mem u)"
      using u(2) by (auto simp: page_added_def pt_inv_def)
    have ZU: "Z \<inter> used_by ar F P xs = {}" using inv by (simp add: load_inv_def)
    have "agree Z (mem s) (mem u)" by (rule agree_mono [OF U(2)]) (use ZU in \<open>auto simp: used_by_def\<close>)
    then have tab: "t_page_table (mem u) task = root" using task agree_load64 by (metis t_page_table_def)
    have call: "?run = kbind (set_page root va (PA_of ?a) 0x1f) (\<lambda>err.
           if err \<noteq> 0 then kpanic ''set_page'' else kthen (copy_from_user G ?a va PAGE_SIZE) (kreturn ())) u"
      using t1 u(1) U(1) tab by (simp add: clone_page_call kbind_Inr Let_def PA_def)
    have flags: "take_bit 8 (0x1f :: u32) = 0x1f" "(0x1f :: u32) AND PTE_VALID \<noteq> 0" "pte_is_leaf 0x1f"
      by (simp_all add: pte_is_leaf_def)
    from map_frame_ok [OF inv u(2) va(1) flags] show ?thesis
    proof (elim disjE exE conjE)
      assume "covered 3 F" "set_page root va (PA_of ?a) 0x1f u = Some (Inl ''out of memory'')"
      then show ?thesis by (simp add: call kbind_Inl)
    next
      fix t F3 P3
      assume t: "set_page root va (PA_of ?a) 0x1f u = Some (Inr (0, t))" "same_rest s t"
        "page_mapped root ar Z 0x1f va F P xs s ?a nd F3 P3 t"
      have T: "area_ok 0 ?a" "area 0 ?a \<subseteq> F" "agree (- used_by ar F P xs) (mem s) (mem t)"
        using t(3) by (simp_all add: page_mapped_def)
      have agZ: "agree Z (mem s) (mem t)" by (rule agree_mono [OF T(3)]) (use ZU in blast)
      have agY: "agree (Z - handler_span G) (mem s) (mem t)" by (rule agree_mono [OF agZ]) blast
      note pf = parent_frame [OF parent agY]
      have aZ: "area 0 ?a \<inter> Z = {}" using T(2) ZU by (auto simp: used_by_def)
      have ar: "active_root t = active_root s" "active_root (opened t) = active_root t"
        using rest_or_closed_facts(2) [of s t] t(2) by (simp_all add: rest_or_closed_def active_root_def opened_def)
      have cell: "\<exists>k\<in>Z - handler_span G. user_cell PTE_READ (opened t) (va + j) = Some k \<and> user_mem (mem s) (active_root s) (va + j) = mem t k"
        if j: "j < 4096" for j
      proof -
        have e: "of_nat (unat j) = j" "unat j < 4096" using j by (simp_all add: word_less_nat_alt)
        then have r: "readable (mem s) (active_root s) (Z - handler_span G) (va + j)" using rd by metis
        with pf(2) obtain pa fl where pa: "lookup (mem t) (active_root s) (va + j) = Some (pa, fl)" "fl AND PTE_READ \<noteq> 0"
          "VA_of pa \<in> Z - handler_span G" unfolding readable_def by metis
        have "user_mem (mem s) (active_root s) (va + j) = mem t (VA_of pa)"
          using pf(4) [OF r] pa(1) by (simp add: user_mem_def)
        then show ?thesis using pa ar by (simp add: user_cell_def)
      qed
      have "\<exists>r w. copy_from_user G ?a va 4096 t = Some (Inr (r, w)) \<and> w = closed (t\<lparr>mem := mem w\<rparr>) \<and>
          agree (- area 0 ?a) (mem (saved G t)) (mem w) \<and> (\<forall>k<4096. mem w (?a + of_nat k) = user_mem (mem s) (active_root s) (va + of_nat k))"
      proof -
        have tab: "ptable 2 (mem t) (active_root t) Q" "pages Q \<inter> (span ?a (unat (4096 :: u64)) \<union> handler_span G) = {}"
          using pf(1) aZ ar(1) by (auto simp: parent_inv_def area_def)
        have k: "\<forall>j<4096. \<not> ?a + j < SPLIT" using area_above_split [OF T(1)] by blast
        have fr: "\<forall>j<4096. \<forall>k. user_cell PTE_READ (opened t) (va + j) = Some k \<longrightarrow> k \<notin> span ?a (unat (4096 :: u64)) \<union> handler_span G"
          using cell aZ by (fastforce simp: area_def)
        have n: "0 <=s (4096 :: u64)" by (simp add: word_sle_eq)
        have acc: "access_ok va 4096" using va(2) by (simp add: access_ok_iff)
        have below: "va + j < SPLIT" if "j < 4096" for j using access_ok_below [OF acc that n] .
        have rd': "\<forall>j<4096. user_cell PTE_READ (opened t) (va + j) \<noteq> None" using cell by fastforce
        from copy_from_user_ok [OF tab(1) k tab(2) fr n] acc rd' obtain w where w: "copy_from_user G ?a va 4096 t = Some (Inr (0, w))"
          "\<forall>j<4096. vread (opened t) (va + j) = Some (mem w (?a + j))" "agree (- span ?a 4096) (mem (saved G t)) (mem w)"
          "w = closed (t\<lparr>mem := mem w\<rparr>)" by (auto simp: copy_leaves_def)
        have "mem w (?a + of_nat k) = user_mem (mem s) (active_root s) (va + of_nat k)" if "k < 4096" for k
        proof -
          have j: "(of_nat k :: u64) < 4096" using that by (simp add: word_less_nat_alt unat_of_nat)
          then show ?thesis using cell [OF j] w(2) below [OF j] by (fastforce simp: vread_def)
        qed
        with w show ?thesis by (auto simp: area_def)
      qed
      then obtain r w where w: "copy_from_user G ?a va 4096 t = Some (Inr (r, w))" "w = closed (t\<lparr>mem := mem w\<rparr>)"
        "agree (- area 0 ?a) (mem (saved G t)) (mem w)" "\<forall>k<4096. mem w (?a + of_nat k) = user_mem (mem s) (active_root s) (va + of_nat k)"
        by blast
      have run: "?run = Some (Inr ((), w))" using t(1) w(1) by (simp add: call kbind_Inr kthen_Inr)
      have "kernel_regs t = kernel_regs s" using rest_or_closed_regs [of s t] t(2) by (simp add: rest_or_closed_def)
      then have "agree (handler_span G) (mem (saved G s)) (mem (saved G t))"
        by (intro saved_agree agree_mono [OF agZ H])
      note b = page_mapped_beside [OF t(3) inv H saved_ok(3) saved_ok(3) this, folded saved_ok(2)]
      have "(saved G t)\<lparr>mem := mem w\<rparr> = t\<lparr>mem := mem w\<rparr>" by (subst saved_ok(2)) simp
      then have "page_mapped root ar Z 0x1f va F P xs (saved G s) ?a nd F3 P3 w"
        using page_mapped_fill [OF b w(3)] w(2) by (metis closed_page_mapped)
      moreover have "rest_or_closed s w"
        using rest_closed [of s "t\<lparr>mem := mem w\<rparr>"] same_rest_trans [OF t(2) same_rest_upd(2)] w(2) by metis
      ultimately show ?thesis using run w(4) by blast
    qed
  qed
qed

subsection \<open>The pages of an area\<close>

lemma loaded_cong:
  assumes "loaded root ar Z flags va b F P xs s fs ns F' P' t" and "\<forall>d<length fs * 4096. b d = b' d"
  shows "loaded root ar Z flags va b' F P xs s fs ns F' P' t"
proof -
  have "b (i * 4096 + k) = b' (i * 4096 + k)" if "i < length fs" "k < 4096" for i k
  proof -
    have "Suc i * 4096 \<le> length fs * 4096" using that(1) by (intro mult_le_mono1) simp
    then show ?thesis using assms(2) that(2) by simp
  qed
  then show ?thesis using assms(1) unfolding loaded_def by simp
qed

lemma clone_pages_ok:
  assumes Z: "span (task + 48) 8 \<subseteq> Z - handler_span G" "span src 40 \<subseteq> Z - handler_span G" and H: "handler_span G \<subseteq> Z"
  shows "load_inv root ar Z F P xs s \<Longrightarrow> parent_inv (active_root s) (Z - handler_span G) Q (mem s) \<Longrightarrow> t_page_table (mem s) task = root \<Longrightarrow>
    va_off va = 0 \<Longrightarrow> unat va + N * 4096 \<le> unat SPLIT \<Longrightarrow>
    \<forall>d<N * 4096. readable (mem s) (active_root s) (Z - handler_span G) (va + of_nat d) \<Longrightarrow> unat i + N = unat (area_n_pages (mem s) src) \<Longrightarrow>
    covered (4 * N) F \<and> vm_clone_pages G src ar task 0x1f i va s = Some (Inl ''out of memory'') \<or>
    (\<exists>s0 fs ns F' P' t. vm_clone_pages G src ar task 0x1f i va s = Some (Inr ((), t)) \<and> rest_or_closed s t \<and> length fs = N \<and>
       s0 \<in> {s, saved G s} \<and>
       loaded root ar Z 0x1f va (\<lambda>d. user_mem (mem s) (active_root s) (va + of_nat d)) F P xs s0 fs ns F' P' t)"
proof (induction N arbitrary: F P xs s i va)
  case 0
  then have run: "vm_clone_pages G src ar task 0x1f i va s = Some (Inr ((), s))"
    by (subst vm_clone_pages.simps) (simp add: word_less_nat_alt)
  show ?case
    by (intro disjI2, rule exI [of _ s], rule exI [of _ "[]"], rule exI [of _ "[]"], rule exI [of _ F], rule exI [of _ P], rule exI [of _ s])
      (use run loaded_nil [OF 0(1)] in simp)
next
  case (Suc N)
  let ?r = "active_root s" and ?run = "vm_clone_pages G src ar task 0x1f i va s"
  have i: "i < area_n_pages (mem s) src" "unat (i + 1) + N = unat (area_n_pages (mem s) src)"
  proof -
    show "i < area_n_pages (mem s) src" using Suc.prems(7) by (simp add: word_less_nat_alt)
    have "unat (i + 1) = unat i + 1" using Suc.prems(7) unsigned_less [where ?'a = nat, of "area_n_pages (mem s) src"]
      by (subst unat_add_lem [THEN iffD1]) simp_all
    then show "unat (i + 1) + N = unat (area_n_pages (mem s) src)" using Suc.prems(7) by simp
  qed
  then have step: "?run = kbind (vm_clone_page G ar task va 0x1f) (\<lambda>_ t. vm_clone_pages G src ar task 0x1f (i + 1) (va + PAGE_SIZE) t) s"
    by (subst vm_clone_pages.simps) simp
  have le: "unat va + 4096 \<le> unat SPLIT" using Suc.prems(5) by simp
  have rd: "\<forall>d<4096. readable (mem s) ?r (Z - handler_span G) (va + of_nat d)" using Suc.prems(6) by simp
  have Z1: "span (task + 48) 8 \<subseteq> Z" using Z(1) by blast
  from clone_page_ok [OF Suc.prems(1,3) Z1 Suc.prems(2) H Suc.prems(4) le rd] show ?case
  proof (elim disjE exE conjE)
    assume "covered 3 F" "vm_clone_page G ar task va 0x1f s = Some (Inl ''out of memory'')"
    then show ?thesis using covered_mono [of 3 F "4 * Suc N"] by (simp add: step kbind_Inl)
  next
    fix a nd F1 P1 t
    assume t: "vm_clone_page G ar task va 0x1f s = Some (Inr ((), t))" "rest_or_closed s t"
      "page_mapped root ar Z 0x1f va F P xs (saved G s) a nd F1 P1 t" "\<forall>k<4096. mem t (a + of_nat k) = user_mem (mem s) ?r (va + of_nat k)"
    note one = loaded_one [OF t(3,4)]
    have L: "load_inv root ar Z F1 P1 (xs @ [nd]) t" "agree (- used_by ar F P xs) (mem (saved G s)) (mem t)" "\<forall>k. covered k F1 \<longrightarrow> covered (k + 4) F"
      using t(3) by (simp_all add: page_mapped_def)
    have "Z \<inter> used_by ar F P xs = {}" using Suc.prems(1) by (simp add: load_inv_def)
    then have agS: "agree Z (mem (saved G s)) (mem t)" by (intro agree_mono [OF L(2)]) blast
    have agZ: "agree (Z - handler_span G) (mem s) (mem t)"
      by (rule agree_trans [OF agree_mono [OF saved_ok(3)] agree_mono [OF agS]]) blast+
    have "agree (handler_span G) (mem (saved G s)) (mem t)" by (rule agree_mono [OF agS H])
    then have idle: "saved G t = t" using saved_kept t(2) by blast
    note pf = parent_frame [OF Suc.prems(2) agZ]
    have ar: "active_root t = ?r" by (rule rest_or_closed_facts [OF t(2)])
    have P: "parent_inv (active_root t) (Z - handler_span G) Q (mem t)" "t_page_table (mem t) task = root"
      "area_n_pages (mem t) src = area_n_pages (mem s) src"
    proof -
      show "parent_inv (active_root t) (Z - handler_span G) Q (mem t)" using pf(1) ar by simp
      show "t_page_table (mem t) task = root" using agree_load64 [OF agZ Z(1)] Suc.prems(3) by (simp add: t_page_table_def)
      have "span (src + 8) 8 \<subseteq> Z - handler_span G" using span_shift_subset [of 8 8 40 src] Z(2) by auto
      from agree_load64 [OF agZ this] show "area_n_pages (mem t) src = area_n_pages (mem s) src" by (simp add: area_n_pages_def)
    qed
    have u: "unat (va + PAGE_SIZE) = unat va + 4096"
      using file_addr [of va "Suc N * 4096" 4096] Suc.prems(5) by simp
    have va1: "va_off (va + PAGE_SIZE) = 0" "unat (va + PAGE_SIZE) + N * 4096 \<le> unat SPLIT"
      using next_page_off [OF Suc.prems(4)] Suc.prems(5) u by simp_all
    have next_page: "va + PAGE_SIZE + of_nat d = va + of_nat (4096 + d)" for d by simp
    have rd1: "\<forall>d<N * 4096. readable (mem t) (active_root t) (Z - handler_span G) (va + PAGE_SIZE + of_nat d)"
      unfolding next_page ar pf(3) by (intro allI impI Suc.prems(6) [rule_format]) simp
    have n1: "unat (i + 1) + N = unat (area_n_pages (mem t) src)" using i(2) P(3) by simp
    have run: "?run = vm_clone_pages G src ar task 0x1f (i + 1) (va + PAGE_SIZE) t" using t(1) by (simp add: step kbind_Inr)
    from Suc.IH [OF L(1) P(1,2) va1 rd1 n1] show ?thesis
    proof (elim disjE exE conjE)
      assume "covered (4 * N) F1" "vm_clone_pages G src ar task 0x1f (i + 1) (va + PAGE_SIZE) t = Some (Inl ''out of memory'')"
      with L(3) run show ?thesis by (metis add.commute mult_Suc_right)
    next
      fix t0 fs ns F2 P2 w
      assume w: "vm_clone_pages G src ar task 0x1f (i + 1) (va + PAGE_SIZE) t = Some (Inr ((), w))" "rest_or_closed t w" "length fs = N"
        and base: "t0 \<in> {t, saved G t}"
        and load: "loaded root ar Z 0x1f (va + PAGE_SIZE) (\<lambda>d. user_mem (mem t) (active_root t) (va + PAGE_SIZE + of_nat d)) F1 P1 (xs @ [nd]) t0 fs ns F2 P2 w"
      have "t0 = t" using base idle by auto
      note load = load [unfolded this]
      have same: "user_mem (mem t) (active_root t) (va + PAGE_SIZE + of_nat d) = user_mem (mem s) ?r (va + of_nat (4096 + d))"
        if "d < N * 4096" for d
        unfolding next_page ar by (rule pf(4), rule Suc.prems(6) [rule_format]) (use that in simp)
      have "loaded root ar Z 0x1f (va + PAGE_SIZE) (\<lambda>d. user_mem (mem s) ?r (va + of_nat (4096 + d))) F1 P1 (xs @ [nd]) t fs ns F2 P2 w"
        by (rule loaded_cong [OF load]) (use same w(3) in simp)
      note all = loaded_cons [OF one this]
      have "?run = Some (Inr ((), w))" "length (a # fs) = Suc N" using run w(1,3) by simp_all
      with all rest_or_closed_trans [OF t(2) w(2)] show ?thesis by blast
    qed
  qed
qed

subsection \<open>One area\<close>

text \<open>A node of the free memory joins a list of areas.\<close>

lemma fresh_joinable:
  assumes "span n 32 \<subseteq> F" and "list_cells l xs \<inter> F = {}" and "n \<noteq> 0" and "n_next m n = 0"
  shows "joinable m l xs n"
proof -
  have "span n 32 \<inter> span x 32 = {}" if "x \<in> set xs" for x using that assms(1,2) unfolding list_cells_def by blast
  moreover have "off_list l n" using assms(1,2) unfolding off_list_def list_cells_def by blast
  moreover have "n \<notin> set xs" using calculation(1) span_self [of 32 n] by fastforce
  ultimately show ?thesis using assms(3,4) by (simp add: joinable_def apart_def)
qed

lemma push_area:
  assumes areas: "vm_areas F q m l xs ars" and n: "joinable m l xs n" "n_value m n = ar" "span n 32 \<inter> F = {}"
    and ar: "span ar 40 \<inter> (F \<union> list_cells l xs \<union> span n 32) = {}" "\<forall>a\<in>set ars. span a 40 \<inter> span n 32 = {}"
  shows "vm_areas F (if xs = [] then 0 else q) (list_push l n m) l (xs @ [n]) (ars @ [ar])"
    and "agree (- (list_cells l xs \<union> span n 32)) m (list_push l n m)"
proof -
  have V: "list_rep q m l xs" "map (n_value m) xs = ars" "list_cells l xs \<inter> F = {}"
    "\<forall>a\<in>set ars. span a 40 \<inter> (F \<union> list_cells l xs) = {}" using areas by (simp_all add: vm_areas_def)
  have "map (n_value (list_push l n m)) (xs @ [n]) = ars @ [ar]"
    using list_push_value [OF V(1) n(1)] V(2) n(2) by auto
  then show "vm_areas F (if xs = [] then 0 else q) (list_push l n m) l (xs @ [n]) (ars @ [ar])"
    using list_push_rep [OF V(1) n(1)] V(3,4) n(3) ar unfolding vm_areas_def list_cells_snoc by auto
  have "off_list l n" using n(1) by (simp add: joinable_def)
  from agree_mono [OF list_push_frame [OF V(1) this], of "- (list_cells l xs \<union> span n 32)"]
  show "agree (- (list_cells l xs \<union> span n 32)) m (list_push l n m)" by (auto simp: list_cells_def)
qed

text \<open>The copy of the area's structure.\<close>

definition area_copied :: "u64 \<Rightarrow> u64 \<Rightarrow> memory \<Rightarrow> memory" where
  "area_copied cp src m = list_init (area_pages cp) (set_area_refcount cp 1 (copy_bytes cp src 40 m))"

lemma copy_bytes_load:
  assumes "unat i + k \<le> n" and "n < 2 ^ 64"
  shows "load_le k (copy_bytes dest src n m) (dest + i) = load_le k m (src + i)"
proof (rule load_le_offset, intro allI impI)
  fix j assume j: "j < k"
  then have "unat (i + of_nat j) = unat i + j" using assms by (intro file_addr [of i k]) simp_all
  then show "copy_bytes dest src n m (dest + i + of_nat j) = m (src + i + of_nat j)"
    using assms(1) j by (simp add: copy_bytes_def span_iff add.assoc)
qed

lemma area_copied_ok:
  "area_loaded (area_copied cp src m) cp (area_va m src) (area_n_pages m src) (area_flags m src)"
  "l_first (area_copied cp src m) (area_pages cp) = 0" "l_last (area_copied cp src m) (area_pages cp) = 0"
  "agree (- span cp 40) m (area_copied cp src m)"
proof -
  let ?m = "copy_bytes cp src 40 m"
  note D = area_copied_def list_init_def set_first_def set_last_def set_area_refcount_def area_pages_def
  have "load64 ?m cp = load64 m src" "load64 ?m (cp + 8) = load64 m (src + 8)" "load32 ?m (cp + 20) = load32 m (src + 20)"
    using copy_bytes_load [of 0 8 40 cp src m] copy_bytes_load [of 8 8 40 cp src m] copy_bytes_load [of 20 4 40 cp src m]
    by (simp_all add: load64_def load32_def)
  then show "area_loaded (area_copied cp src m) cp (area_va m src) (area_n_pages m src) (area_flags m src)"
    "l_first (area_copied cp src m) (area_pages cp) = 0" "l_last (area_copied cp src m) (area_pages cp) = 0"
    by (simp_all add: D area_loaded_def area_va_def area_n_pages_def area_flags_def area_refcount_def l_first_def l_last_def
        load64_store64_other load64_store32_other load32_store64_other load32_store32_other
        span_disjoint_offsets span_disjoint_base add.assoc)
  have "span (cp + 16) 4 \<subseteq> span cp 40" "span (cp + 24) 16 \<subseteq> span cp 40" by (rule span_shift_subset; simp)+
  moreover have "span (cp + 24) 8 \<subseteq> span (cp + 24) 16" "span (cp + 24 + 8) 8 \<subseteq> span (cp + 24) 16" by (rule span_mono span_shift_subset; simp)+
  ultimately have sub: "span (cp + 16) 4 \<subseteq> span cp 40" "span (cp + 24) 8 \<subseteq> span cp 40" "span (cp + 24 + 8) 8 \<subseteq> span cp 40" by blast+
  have "agree (- span cp 40) m ?m" by (simp add: agree_def copy_bytes_def)
  have w: "agree (- span cp 40) x (store32 x (cp + 16) v)" "agree (- span cp 40) x (store64 x (cp + 24) y)"
    "agree (- span cp 40) x (store64 x (cp + 24 + 8) y)" for x v y
    using sub by (intro agree_sym [OF agree_store32] agree_sym [OF agree_store64]; blast)+
  show "agree (- span cp 40) m (area_copied cp src m)"
    unfolding D by (rule agree_trans [OF agree_trans [OF agree_trans [OF \<open>agree (- span cp 40) m ?m\<close> w(1)] w(3)] w(2)])
qed

lemma area_fields_agree:
  assumes "agree (span a 40) m m'"
  shows "area_va m' a = area_va m a" "area_n_pages m' a = area_n_pages m a" "area_flags m' a = area_flags m a"
proof -
  have "span a 8 \<subseteq> span a 40" "span (a + 8) 8 \<subseteq> span a 40" "span (a + 20) 4 \<subseteq> span a 40"
    by (rule span_mono span_shift_subset; simp)+
  with agree_load64 [OF assms] agree_load32 [OF assms]
  show "area_va m' a = area_va m a" "area_n_pages m' a = area_n_pages m a" "area_flags m' a = area_flags m a"
    by (simp_all add: area_va_def area_n_pages_def area_flags_def)
qed

lemma clone_ready_ok:
  assumes pt: "pt_inv root F P s" and areas: "vm_areas F q (mem s) (t_vm_areas task) xs ars"
    and lP: "list_cells (t_vm_areas task) xs \<inter> pages P = {}"
    and Z: "Z \<inter> (F \<union> pages P \<union> list_cells (t_vm_areas task) xs) = {}" and src: "span src 40 \<subseteq> Z"
  shows "covered 1 F \<and> vm_clone_area G task src s = Some (Inl ''out of memory'') \<or>
    (\<exists>cp nd F' u. vm_clone_area G task src s = vm_clone_pages G src cp task 0x1f 0 (area_va (mem s) src) u \<and>
       area_loaded (mem u) cp (area_va (mem s) src) (area_n_pages (mem s) src) (area_flags (mem s) src) \<and>
       area_ready root Z F P (t_vm_areas task) xs ars s cp nd F' u)"
proof -
  let ?l = "t_vm_areas task"
  note I = pt_invD [OF pt]
  have l: "task + 24 = ?l" by (simp add: t_vm_areas_def)
  have lF: "list_cells ?l xs \<inter> F = {}"
    and aF: "\<forall>a\<in>set ars. span a 40 \<inter> (F \<union> list_cells ?l xs) = {}" using areas by (auto simp: vm_areas_def)
  have "unat (40 :: u64) \<le> 4092" by simp
  from kmalloc_small [OF I(1) this] show ?thesis
  proof (elim disjE exE conjE)
    assume "F = {}" "kmalloc 40 s = Some (Inl ''out of memory'')"
    then show ?thesis using covered_empty by (simp add: vm_clone_area_def kbind_Inl)
  next
    fix a t1
    assume k: "kmalloc 40 s = Some (Inr (a + 4, t1))" "area_ok 0 a" "area 0 a \<subseteq> F"
      "allocator (F - area 0 a) t1" "agree (- F) (mem s) (mem t1)" "same_rest s t1"
    let ?cp = "a + 4" and ?F1 = "F - area 0 a"
    have sub: "span ?cp 40 \<subseteq> area 0 a" unfolding area_def by (rule span_shift_subset) simp
    have "?cp \<in> area 0 a" by (simp add: area_def span_iff)
    then have "?cp \<in> ram" using k(2) by (auto simp: area_ok_def)
    then have cp: "?cp \<noteq> 0" by (auto simp: ram_def)
    have "area_pages ?cp \<in> area 0 a" by (simp add: area_pages_def area_def span_iff)
    then have "area_pages ?cp \<in> ram" using k(2) by (auto simp: area_ok_def)
    then have cpl: "area_pages ?cp \<noteq> 0" by (auto simp: ram_def)
    have "agree (list_cells ?l xs) (mem s) (mem t1)" by (rule agree_mono [OF k(5)]) (use lF in blast)
    from vm_areas_frame [OF areas this Diff_subset] have areas1: "vm_areas ?F1 q (mem t1) ?l xs ars" .
    have "agree (pages P) (mem s) (mem t1)" by (rule agree_mono [OF k(5)]) (use I(4) in blast)
    note pt1 = pt_inv_frame [OF pt k(4) Diff_subset this same_rest_early [OF k(6)]]
    from list_node_create_ok [OF k(4), of ?cp] show ?thesis
    proof (elim disjE exE conjE)
      assume "?F1 = {}" "list_node_create ?cp t1 = Some (Inl ''out of memory'')"
      moreover from this(1) have "covered 1 F" by (intro covered_area [of F a]) auto
      ultimately show ?thesis using k(1) cp by (simp add: vm_clone_area_def kbind_Inl kbind_Inr)
    next
      fix nd t2
      let ?F2 = "?F1 - node_page nd"
      assume n: "list_node_create ?cp t1 = Some (Inr (nd, t2))" "nd \<noteq> 0" "node_page nd \<subseteq> ?F1"
        "allocator ?F2 t2" "agree (- ?F1) (mem t1) (mem t2)" "n_value (mem t2) nd = ?cp" "n_next (mem t2) nd = 0" "same_rest t1 t2"
      let ?m3 = "list_push ?l nd (mem t2)"
      let ?u = "t2\<lparr>mem := area_copied ?cp src ?m3\<rparr>"
      have nd: "span nd 32 \<subseteq> node_page nd" by (rule node_in_page)
      have "agree (list_cells ?l xs) (mem t1) (mem t2)" by (rule agree_mono [OF n(5)]) (use lF in blast)
      from vm_areas_frame [OF areas1 this Diff_subset] have areas2: "vm_areas ?F2 q (mem t2) ?l xs ars" .
      have "agree (pages P) (mem t1) (mem t2)" by (rule agree_mono [OF n(5)]) (use I(4) in blast)
      note pt2 = pt_inv_frame [OF pt1(1) n(4) Diff_subset this same_rest_early [OF n(8)]]
      have j: "joinable (mem t2) ?l xs nd" by (rule fresh_joinable [of _ F]) (use nd n(2,3,7) lF in blast)+
      have dj: "span nd 32 \<inter> ?F2 = {}" "span ?cp 40 \<inter> (?F2 \<union> list_cells ?l xs \<union> span nd 32) = {}"
        "\<forall>a\<in>set ars. span a 40 \<inter> span nd 32 = {}" using nd n(3) sub k(3) lF aF by blast+
      note push = push_area [OF areas2 j n(6) dj]
      note cpy = area_copied_ok [where cp = ?cp and src = src and m = ?m3]
      have agu: "agree (- (list_cells ?l xs \<union> span nd 32 \<union> span ?cp 40)) (mem t2) (mem ?u)"
        using agree_trans [OF agree_mono [OF push(2)] agree_mono [OF cpy(4)], of "- (list_cells ?l xs \<union> span nd 32 \<union> span ?cp 40)"] by auto
      have lc: "list_cells ?l (xs @ [nd]) = list_cells ?l xs \<union> span nd 32" by (rule list_cells_snoc)
      have cl: "list_cells (area_pages ?cp) [] = span (?cp + 24) 16" by (simp add: list_cells_def area_pages_def)
      have own: "span ?cp 24 \<subseteq> span ?cp 40" "span (?cp + 24) 16 \<subseteq> span ?cp 40" "span ?cp 24 \<inter> span (?cp + 24) 16 = {}"
        by (rule span_mono span_shift_subset span_disjoint_base; simp)+
      have ub: "used_by ?cp ?F2 P [] = ?F2 \<union> pages P \<union> span (?cp + 24) 16" by (simp add: used_by_def cl)
      have cut: "(list_cells ?l xs \<union> span nd 32 \<union> span ?cp 40) \<inter> ?F2 = {}" "(list_cells ?l xs \<union> span nd 32 \<union> span ?cp 40) \<inter> pages P = {}"
        using nd n(3) sub k(3) lF lP I(4) by blast+
      have "agree ?F2 (mem t2) (mem ?u)" "agree (pages P) (mem t2) (mem ?u)" by (rule agree_mono [OF agu]; use cut in blast)+
      moreover from this have "allocator ?F2 ?u" by (intro allocator_frame [OF n(4)]) simp_all
      ultimately have pt3: "pt_inv root ?F2 P ?u" "\<And>va. lookup (mem ?u) root va = lookup (mem t2) root va"
        using pt_inv_frame [OF pt2(1), of ?F2 ?u] by simp_all
      have agsu: "agree (- (F \<union> list_cells ?l xs)) (mem s) (mem ?u)"
        by (rule agree_trans [OF agree_mono [OF k(5)] agree_trans [OF agree_mono [OF n(5)] agree_mono [OF agu]]])
          (use nd n(3) sub k(3) in blast)+
      have srcs: "agree (span src 40) (mem s) (mem ?u)" by (rule agree_mono [OF agsu]) (use Z src in blast)
      have "span src 40 \<subseteq> - span ?cp 40" using Z src sub k(3) by blast
      from agree_mono [OF cpy(4) this] have "agree (span src 40) (mem ?u) ?m3" by (simp add: agree_sym)
      note f = area_fields_agree [OF srcs] area_fields_agree [OF this]
      have al: "area_loaded (mem ?u) ?cp (area_va (mem s) src) (area_n_pages (mem s) src) (area_flags (mem s) src)"
        using cpy(1) f by simp
      have rep: "list_rep 0 (mem ?u) (area_pages ?cp) []" using cpy(2,3) cpl by (simp add: list_rep_def separate_nodes_def)
      have A: "vm_areas ?F2 (if xs = [] then 0 else q) (mem ?u) ?l (xs @ [nd]) (ars @ [?cp])"
        by (rule vm_areas_frame [OF push(1) _ order_refl]) (use agree_mono [OF cpy(4)] dj(2) lc in auto)
      have pin: "span (?cp + 24) 16 \<subseteq> area 0 a" using own(2) sub by (rule order_trans)
      have c1: "span (?cp + 24) 16 \<inter> (?F2 \<union> pages P) = {}" using pin k(3) I(4) by blast
      have c2: "Z \<inter> (?F2 \<union> pages P \<union> span (?cp + 24) 16) = {}" using Z pin k(3) by blast
      have "load_inv root ?cp Z ?F2 P [] ?u"
        unfolding load_inv_def ub cl by (intro conjI exI [of _ 0]) (fact pt3(1) rep c1 c2)+
      moreover have "(span ?cp 24 \<union> list_cells ?l (xs @ [nd])) \<inter> used_by ?cp ?F2 P [] = {}"
      proof -
        have "(list_cells ?l xs \<union> span nd 32) \<inter> span (?cp + 24) 16 = {}" using dj(2) own(2) by blast
        moreover have "span ?cp 24 \<inter> ?F2 = {}" "span ?cp 24 \<inter> pages P = {}" using cut own(1) by blast+
        ultimately show ?thesis unfolding ub lc using cut own(3) by (simp add: Int_Un_distrib Int_Un_distrib2)
      qed
      moreover have "\<forall>va. lookup (mem ?u) root va = lookup (mem s) root va" using pt3(2) pt2(2) pt1(2) by simp
      moreover have "used_by ?cp ?F2 P [] \<subseteq> F \<union> pages P" unfolding ub using pin k(3) by blast
      moreover have "span nd 32 \<union> span ?cp 40 \<subseteq> F" using nd n(3) sub k(3) by blast
      moreover have "same_rest s ?u" using same_rest_trans [OF k(6) same_rest_trans [OF n(8) same_rest_upd(2)]] by simp
      moreover have "\<forall>k. covered k ?F2 \<longrightarrow> covered (k + 2) F"
        by (intro allI impI covered_add [of _ ?F2 F "{a, nd - 4}"]) (auto simp: node_page_def card_insert_if)
      ultimately have "area_ready root Z F P ?l xs ars s ?cp nd ?F2 ?u"
        using A agsu unfolding area_ready_def by blast
      moreover have "vm_clone_area G task src s = vm_clone_pages G src ?cp task 0x1f 0 (area_va (mem s) src) ?u"
        using k(1) n(1,2) cp f(1) by (simp add: vm_clone_area_def kbind_Inr kthen_Inr l area_copied_def)
      ultimately show ?thesis using al by blast
    qed
  qed
qed

text \<open>An area of the parent: page-aligned, below the kernel, and every page can be read.\<close>

definition source_area :: "u64 \<Rightarrow> u64 set \<Rightarrow> memory \<Rightarrow> u64 \<Rightarrow> bool" where
  "source_area r Z m src \<longleftrightarrow>
     span src 40 \<subseteq> Z \<and> va_off (area_va m src) = 0 \<and> unat (area_va m src) + unat (area_n_pages m src) * 4096 \<le> unat SPLIT \<and>
     (\<forall>d<unat (area_n_pages m src) * 4096. readable m r Z (area_va m src + of_nat d))"

text \<open>The child has one area more, and the parent's memory is as it was.\<close>

definition clone_step ::
  "u64 set \<Rightarrow> u64 \<Rightarrow> u64 \<Rightarrow> u64 set \<Rightarrow> u64 set \<Rightarrow> u64 set \<Rightarrow> u64 list \<Rightarrow> 'a cpu_state_scheme \<Rightarrow>
     u64 set \<Rightarrow> u64 set \<Rightarrow> u64 list \<Rightarrow> u64 list \<Rightarrow> 'a cpu_state_scheme \<Rightarrow> bool" where
  "clone_step H root l Z F P xs s F' P' xs' ars' t \<longleftrightarrow>
     image_inv root l Z F' P' xs' ars' t \<and> F' \<subseteq> F \<and> image_cells l F' P' xs' \<subseteq> image_cells l F P xs \<and>
     agree (- (image_cells l F P xs \<union> H)) (mem s) (mem t) \<and> rest_or_closed s t"

lemma clone_step_trans:
  assumes "clone_step H root l Z F P xs s F' P' xs' ars' t" and "clone_step H root l Z F' P' xs' t F'' P'' xs'' ars'' u"
  shows "clone_step H root l Z F P xs s F'' P'' xs'' ars'' u"
proof -
  have "agree (- (image_cells l F P xs \<union> H)) (mem s) (mem u)"
    by (rule agree_trans) (use assms in \<open>auto simp: clone_step_def elim: agree_mono\<close>)
  then show ?thesis using assms rest_or_closed_trans unfolding clone_step_def by blast
qed

lemma sees_frame:
  assumes "image_inv root l Z F P xs ars s" and "agree (- (image_cells l F P xs \<union> H)) (mem s) m'" and "H \<subseteq> Z"
    and "va < SPLIT" and "lookup m' root va = lookup (mem s) root va" and "sees (mem s) root va fl b"
  shows "sees m' root va fl b"
proof -
  obtain pa where pa: "lookup (mem s) root va = Some (pa, fl)" "mem s (VA_of pa) = b" using assms(6) by (auto simp: sees_def)
  then have "VA_of pa \<in> - (image_cells l F P xs \<union> H)" using assms(1,3,4) unfolding image_inv_def by blast
  then have "m' (VA_of pa) = b" using assms(2) pa(2) unfolding agree_def by metis
  with pa(1) assms(5) show ?thesis by (simp add: sees_def)
qed

lemma clone_area_ok:
  assumes inv: "image_inv root (t_vm_areas task) Z F P xs ars s" and task: "t_page_table (mem s) task = root" "span (task + 48) 8 \<subseteq> Z - handler_span G"
    and parent: "parent_inv (active_root s) (Z - handler_span G) Q (mem s)"
    and src: "source_area (active_root s) (Z - handler_span G) (mem s) src"
    and H: "handler_span G \<subseteq> Z" "\<forall>a\<in>set ars. span a 40 \<inter> handler_span G = {}"
  defines "va \<equiv> area_va (mem s) src" and "n \<equiv> area_n_pages (mem s) src" and "l \<equiv> t_vm_areas task"
  shows "covered (4 * unat n + 2) F \<and> vm_clone_area G task src s = Some (Inl ''out of memory'') \<or>
    (\<exists>t F' P' nd cp. vm_clone_area G task src s = Some (Inr ((), t)) \<and> clone_step (handler_span G) root l Z F P xs s F' P' (xs @ [nd]) (ars @ [cp]) t \<and>
       area_loaded (mem t) cp va n (area_flags (mem s) src) \<and> span cp 40 \<subseteq> F \<and>
       (\<forall>d<unat n * 4096. sees (mem t) root (va + of_nat d) 0x1f (user_mem (mem s) (active_root s) (va + of_nat d))) \<and>
       (\<forall>va'. (\<forall>i<unat n. va_vpn va' \<noteq> va_vpn (va + of_nat (i * 4096))) \<longrightarrow> lookup (mem t) root va' = lookup (mem s) root va') \<and>
       (\<forall>a\<in>set ars. agree (span a 40) (mem s) (mem t)) \<and> (\<forall>k. covered k F' \<longrightarrow> covered (k + (4 * unat n + 2)) F))"
proof -
  let ?N = "unat n" and ?r = "active_root s" and ?run = "vm_clone_area G task src s"
  obtain q where I: "pt_inv root F P s" "vm_areas F q (mem s) l xs ars" "list_cells l xs \<inter> pages P = {}"
    "Z \<inter> (F \<union> pages P \<union> list_cells l xs) = {}" using inv by (auto simp: image_inv_def image_cells_def l_def)
  have S: "span src 40 \<subseteq> Z - handler_span G" "va_off va = 0" "unat va + ?N * 4096 \<le> unat SPLIT" "\<forall>d<?N * 4096. readable (mem s) ?r (Z - handler_span G) (va + of_nat d)"
    using src by (simp_all add: source_area_def va_def n_def)
  then have SZ: "span src 40 \<subseteq> Z" by blast
  from clone_ready_ok [where G = G, OF I(1) I(2-4) [unfolded l_def] SZ] show ?thesis
  proof (elim disjE exE conjE)
    assume "covered 1 F" "?run = Some (Inl ''out of memory'')"
    then show ?thesis using covered_mono [of 1 F "4 * ?N + 2"] by simp
  next
    fix cp nd F1 u
    assume run: "?run = vm_clone_pages G src cp task 0x1f 0 (area_va (mem s) src) u"
      and al: "area_loaded (mem u) cp (area_va (mem s) src) (area_n_pages (mem s) src) (area_flags (mem s) src)"
      and R: "area_ready root Z F P (t_vm_areas task) xs ars s cp nd F1 u"
    have U: "load_inv root cp Z F1 P [] u" "agree (- (F \<union> list_cells l xs)) (mem s) (mem u)" "same_rest s u"
      "\<forall>k. covered k F1 \<longrightarrow> covered (k + 2) F" using R unfolding area_ready_def l_def by blast+
    have agZ: "agree Z (mem s) (mem u)" by (rule agree_mono [OF U(2)]) (use I(4) in blast)
    have agY: "agree (Z - handler_span G) (mem s) (mem u)" by (rule agree_mono [OF agZ]) blast
    have ru: "rest_or_closed s u" using U(3) by (simp add: rest_or_closed_def)
    have ar: "active_root u = ?r" by (rule rest_or_closed_facts [OF ru])
    note pf = parent_frame [OF parent agY]
    have pu: "parent_inv (active_root u) (Z - handler_span G) Q (mem u)" "t_page_table (mem u) task = root"
      using pf(1) ar agree_load64 [OF agY task(2)] task(1) by (simp_all add: t_page_table_def)
    have nu: "unat (0 :: u64) + ?N = unat (area_n_pages (mem u) src)"
      using area_fields_agree(2) [OF agree_mono [OF agY S(1)]] by (simp add: n_def)
    have rd: "\<forall>d<?N * 4096. readable (mem u) (active_root u) (Z - handler_span G) (va + of_nat d)" unfolding ar pf(3) by (rule S(4))
    from clone_pages_ok [OF task(2) S(1) H(1) U(1) pu S(2,3) rd nu] show ?thesis
    proof (elim disjE exE conjE)
      assume "covered (4 * ?N) F1" "vm_clone_pages G src cp task 0x1f 0 va u = Some (Inl ''out of memory'')"
      then show ?thesis using U(4) run by (auto simp: va_def)
    next
      fix u0 fs ns F' P' t
      assume t: "vm_clone_pages G src cp task 0x1f 0 va u = Some (Inr ((), t))" "rest_or_closed u t" "length fs = ?N"
        "u0 \<in> {u, saved G u}" "loaded root cp Z 0x1f va (\<lambda>d. user_mem (mem u) (active_root u) (va + of_nat d)) F1 P [] u0 fs ns F' P' t"
      have cut: "handler_span G \<inter> image_cells l F P xs = {}" using inv H(1) unfolding image_inv_def l_def by blast
      note W = image_inv_write [OF inv [folded l_def] saved_ok(3) cut, folded saved_ok(2)]
      obtain s0 where s0: "image_inv root l Z F P xs ars s0" "area_ready root Z F P l xs ars s0 cp nd F1 u0"
        "\<forall>va. lookup (mem s0) root va = lookup (mem s) root va" "agree (- handler_span G) (mem s) (mem s0)" "agree (span cp 24) (mem u) (mem u0)"
      proof (cases "u0 = u")
        case True
        then show thesis using that [of s] inv R by (simp add: l_def)
      next
        case False
        then have u0: "u0 = saved G u" using t(4) by blast
        have "agree (handler_span G) (mem (saved G s)) (mem (saved G u))"
          by (intro saved_agree rest_or_closed_regs ru agree_mono [OF agZ H(1)])
        from area_ready_beside [OF R inv H(1) saved_ok(3) saved_ok(3) this, folded saved_ok(2)]
        have "area_ready root Z F P l xs ars (saved G s) cp nd F1 u0" unfolding u0 l_def .
        moreover have "span cp 40 \<subseteq> F" using R unfolding area_ready_def by blast
        then have "span cp 24 \<inter> handler_span G = {}"
          using cut span_mono [of 24 40 cp] unfolding image_cells_def by fastforce
        then have "agree (span cp 24) (mem u) (mem u0)" unfolding u0 by (intro agree_mono [OF saved_ok(3)]) blast
        ultimately show thesis using that [of "saved G s"] W(1,2) saved_ok(3) by blast
      qed
      have top: "unat va + ?N * 4096 \<le> 2 ^ 39" using S(3) by simp
      note L = loaded_user [OF t(5,3) S(2) top]
      note A = area_filled [OF s0(2) L(2,1,3-7)]
      obtain q' where V: "vm_areas F' q' (mem t) l (xs @ [nd]) (ars @ [cp])" using A(3) by blast
      note B = image_inv_area [OF s0(1) A(1,2) V A(4-6,8-10) S(2) top]
      have lt: "area_loaded (mem t) cp va n (area_flags (mem s) src)" using al area_loaded_frame [OF agree_trans [OF s0(5) A(7)]] by (simp add: va_def n_def)
      have fr: "agree (- (image_cells l F P xs \<union> handler_span G)) (mem s) (mem t)"
        by (rule agree_trans [OF agree_mono [OF s0(4)] agree_mono [OF A(6)]]) (auto simp: image_cells_def)
      have cs: "clone_step (handler_span G) root l Z F P xs s F' P' (xs @ [nd]) (ars @ [cp]) t"
        using B(1,2) A(2) fr rest_or_closed_trans [OF ru t(2)] by (simp add: clone_step_def)
      have keep: "\<forall>a\<in>set ars. agree (span a 40) (mem s) (mem t)"
        using B(3) H(2) by (auto intro!: agree_trans [OF agree_mono [OF s0(4)]])
      have other: "\<forall>va'. (\<forall>i<?N. va_vpn va' \<noteq> va_vpn (va + of_nat (i * 4096))) \<longrightarrow> lookup (mem t) root va' = lookup (mem s) root va'"
        using A(5) s0(3) by simp
      have sn: "\<forall>d<?N * 4096. sees (mem t) root (va + of_nat d) 0x1f (user_mem (mem s) ?r (va + of_nat d))"
      proof (intro allI impI)
        fix d assume d: "d < ?N * 4096"
        then have "user_mem (mem u) (active_root u) (va + of_nat d) = user_mem (mem s) ?r (va + of_nat d)"
          using pf(4) S(4) unfolding ar by blast
        with A(4) d show "sees (mem t) root (va + of_nat d) 0x1f (user_mem (mem s) ?r (va + of_nat d))"
          unfolding pages_mapped_def sees_def by fastforce
      qed
      have run': "?run = Some (Inr ((), t))" using run t(1) by (simp add: va_def)
      have cpF: "span cp 40 \<subseteq> F" using A(9) by blast
      show ?thesis by (intro disjI2 exI conjI) (fact run' cs lt cpF sn other keep A(11))+
    qed
  qed
qed

subsection \<open>All areas\<close>

text \<open>The numbers of an area's pages.\<close>

definition area_vpns :: "memory \<Rightarrow> u64 \<Rightarrow> nat set" where
  "area_vpns m a = {unat (area_va m a) div 4096 ..< unat (area_va m a) div 4096 + unat (area_n_pages m a)}"

definition apart_areas :: "memory \<Rightarrow> u64 \<Rightarrow> u64 \<Rightarrow> bool" where
  "apart_areas m a b \<longleftrightarrow> area_vpns m a \<inter> area_vpns m b = {}"

definition clone_need :: "memory \<Rightarrow> u64 list \<Rightarrow> nat" where
  "clone_need m as = sum_list (map (\<lambda>a. 4 * unat (area_n_pages m a) + 2) as)"

text \<open>The child sees the bytes that the parent sees, in the pages of the area.\<close>

definition area_seen :: "memory \<Rightarrow> u64 \<Rightarrow> memory \<Rightarrow> u64 \<Rightarrow> u64 \<Rightarrow> bool" where
  "area_seen m r m' root a \<longleftrightarrow>
     (\<forall>d<unat (area_n_pages m a) * 4096. sees m' root (area_va m a + of_nat d) 0x1f (user_mem m r (area_va m a + of_nat d)))"

definition area_copy :: "memory \<Rightarrow> memory \<Rightarrow> u64 \<Rightarrow> u64 \<Rightarrow> bool" where
  "area_copy m m' b c \<longleftrightarrow> area_loaded m' c (area_va m b) (area_n_pages m b) (area_flags m b)"

lemma source_vpn:
  assumes "source_area r Z m b" and "d < unat (area_n_pages m b) * 4096"
  shows "unat (va_vpn (area_va m b + of_nat d)) \<in> area_vpns m b" and "area_va m b + of_nat d < SPLIT"
proof -
  have S: "va_off (area_va m b) = 0" "unat (area_va m b) + unat (area_n_pages m b) * 4096 \<le> unat SPLIT"
    using assms(1) by (simp_all add: source_area_def)
  obtain q where q: "unat (area_va m b) = 4096 * q" using S(1) by (auto simp: va_off_0)
  have le: "unat (area_va m b) + unat (area_n_pages m b) * 4096 \<le> 2 ^ 39" using S(2) by simp
  have "unat (va_vpn (area_va m b + of_nat d)) = (4096 * q + d) div 4096" using vpn_of_offset [OF le assms(2)] q by simp
  also have "\<dots> = q + d div 4096" by simp
  finally show "unat (va_vpn (area_va m b + of_nat d)) \<in> area_vpns m b"
    using assms(2) by (simp add: area_vpns_def q div_less_iff_less_mult)
  have "unat (area_va m b + of_nat d) = unat (area_va m b) + d" using le assms(2) by (intro file_addr [of _ "unat (area_n_pages m b) * 4096"]) simp_all
  then show "area_va m b + of_nat d < SPLIT" using S(2) assms(2) by (simp add: word_less_nat_alt)
qed

text \<open>The parent's areas stay as they are.\<close>

lemma source_agree:
  assumes parent: "parent_inv r Z Q m" and ag: "agree Z m m'" and src: "source_area r Z m b"
  shows "source_area r Z m' b" and "area_va m' b = area_va m b" and "area_n_pages m' b = area_n_pages m b"
    and "area_flags m' b = area_flags m b" and "area_vpns m' b = area_vpns m b"
    and "area_seen m' r u root b \<longleftrightarrow> area_seen m r u root b"
proof -
  have "agree (span b 40) m m'" by (rule agree_mono [OF ag]) (use src in \<open>simp add: source_area_def\<close>)
  note f = area_fields_agree [OF this]
  note pf = parent_frame [OF parent ag]
  show "area_va m' b = area_va m b" "area_n_pages m' b = area_n_pages m b" "area_flags m' b = area_flags m b"
    "area_vpns m' b = area_vpns m b" using f by (simp_all add: area_vpns_def)
  show "source_area r Z m' b" using src f pf(3) by (simp add: source_area_def)
  show "area_seen m' r u root b \<longleftrightarrow> area_seen m r u root b"
    using src pf(4) f by (simp add: area_seen_def source_area_def)
qed

lemma node_agree:
  assumes "agree Z m m'" and "span x 32 \<subseteq> Z"
  shows "n_value m' x = n_value m x" and "n_next m' x = n_next m x"
proof -
  have "span x 8 \<subseteq> span x 32" "span (x + 24) 8 \<subseteq> span x 32" by (rule span_mono span_shift_subset; simp)+
  with assms(2) have "span x 8 \<subseteq> Z" "span (x + 24) 8 \<subseteq> Z" by blast+
  with agree_load64 [OF assms(1)] show "n_value m' x = n_value m x" "n_next m' x = n_next m x"
    by (simp_all add: n_value_def n_next_def)
qed

lemma nexts_agree: "agree Z m m' \<Longrightarrow> (\<Union>x\<in>set xs. span x 32) \<subseteq> Z \<Longrightarrow> nexts m' xs \<longleftrightarrow> nexts m xs"
  by (induction xs) (auto simp: node_agree)

lemma clone_list_ok:
  assumes task: "span (task + 48) 8 \<subseteq> Z - handler_span G" and H: "handler_span G \<subseteq> Z"
  defines "l \<equiv> t_vm_areas task"
  shows "image_inv root l Z F P xs ars s \<Longrightarrow> t_page_table (mem s) task = root \<Longrightarrow> active_root s = r \<Longrightarrow>
    parent_inv r (Z - handler_span G) Q (mem s) \<Longrightarrow> nexts (mem s) ps \<Longrightarrow> (\<Union>x\<in>set ps. span x 32) \<subseteq> Z - handler_span G \<Longrightarrow> map (n_value (mem s)) ps = bs \<Longrightarrow>
    \<forall>b\<in>set bs. source_area r (Z - handler_span G) (mem s) b \<Longrightarrow> sorted_wrt (apart_areas (mem s)) bs \<Longrightarrow>
    \<forall>a\<in>set ars. span a 40 \<inter> handler_span G = {} \<Longrightarrow>
    covered (clone_need (mem s) bs) F \<and> list_foreach_from (vm_clone_area G task) (nhead ps) s = Some (Inl ''out of memory'') \<or>
    (\<exists>t F' P' ns cs. list_foreach_from (vm_clone_area G task) (nhead ps) s = Some (Inr ((), t)) \<and>
       clone_step (handler_span G) root l Z F P xs s F' P' (xs @ ns) (ars @ cs) t \<and> list_all2 (area_copy (mem s) (mem t)) bs cs \<and>
       (\<forall>c\<in>set cs. span c 40 \<subseteq> F) \<and>
       (\<forall>b\<in>set bs. area_seen (mem s) r (mem t) root b) \<and>
       (\<forall>va. (\<forall>b\<in>set bs. unat (va_vpn va) \<notin> area_vpns (mem s) b) \<longrightarrow> lookup (mem t) root va = lookup (mem s) root va) \<and>
       (\<forall>a\<in>set ars. agree (span a 40) (mem s) (mem t)) \<and> (\<forall>k. covered k F' \<longrightarrow> covered (k + clone_need (mem s) bs) F))"
proof (induction ps arbitrary: F P xs ars s bs)
  case Nil
  then have "list_foreach_from (vm_clone_area G task) (nhead []) s = Some (Inr ((), s))" by (simp add: list_foreach_from.simps)
  moreover have "clone_step (handler_span G) root l Z F P xs s F P (xs @ []) (ars @ []) s" using Nil by (simp add: clone_step_def)
  moreover have "\<forall>k. covered k F \<longrightarrow> covered (k + clone_need (mem s) bs) F" using Nil by (simp add: clone_need_def)
  moreover have "bs = []" using Nil by simp
  ultimately show ?case by (intro disjI2 exI [of _ s] exI [of _ F] exI [of _ P] exI [of _ "[]"] conjI) simp_all
next
  case (Cons x ps)
  obtain b bs' where bs: "bs = b # bs'" "n_value (mem s) x = b" "map (n_value (mem s)) ps = bs'" using Cons.prems(7) by auto
  let ?N = "unat (area_n_pages (mem s) b)" and ?va = "area_va (mem s) b" and ?f = "vm_clone_area G task"
  have x: "x \<noteq> 0" "n_next (mem s) x = nhead ps" "nexts (mem s) ps" using Cons.prems(5) by simp_all
  have src: "source_area r (Z - handler_span G) (mem s) b" "\<forall>b\<in>set bs'. source_area r (Z - handler_span G) (mem s) b" using Cons.prems(8) bs(1) by simp_all
  have srt: "\<forall>c\<in>set bs'. apart_areas (mem s) b c" "sorted_wrt (apart_areas (mem s)) bs'" using Cons.prems(9) bs(1) by simp_all
  have need: "clone_need (mem s) bs = 4 * ?N + 2 + clone_need (mem s) bs'" by (simp add: clone_need_def bs(1))
  have step: "list_foreach_from ?f (nhead (x # ps)) s = kbind (?f b) (\<lambda>_ t. list_foreach_from ?f (n_next (mem t) x) t) s"
    using x(1) bs(2) by (subst list_foreach_from.simps) (simp add: kbind_def)
  have par: "parent_inv (active_root s) (Z - handler_span G) Q (mem s)" "source_area (active_root s) (Z - handler_span G) (mem s) b"
    using Cons.prems(3,4) src(1) by simp_all
  from clone_area_ok [OF Cons.prems(1) [unfolded l_def] Cons.prems(2) task par H Cons.prems(10)] show ?case
  proof (elim disjE exE conjE)
    assume oom: "covered (4 * ?N + 2) F" "?f b s = Some (Inl ''out of memory'')"
    have "covered (clone_need (mem s) bs) F" by (rule covered_mono [OF oom(1)]) (simp add: need)
    moreover have "list_foreach_from ?f (nhead (x # ps)) s = Some (Inl ''out of memory'')" unfolding step using oom(2) by (rule kbind_Inl)
    ultimately show ?thesis by blast
  next
    fix t F1 P1 nd cp
    assume t: "?f b s = Some (Inr ((), t))" and cs1: "clone_step (handler_span G) root (t_vm_areas task) Z F P xs s F1 P1 (xs @ [nd]) (ars @ [cp]) t"
      and al: "area_loaded (mem t) cp ?va (area_n_pages (mem s) b) (area_flags (mem s) b)" and cpF: "span cp 40 \<subseteq> F"
      and seen: "\<forall>d<?N * 4096. sees (mem t) root (?va + of_nat d) 0x1f (user_mem (mem s) (active_root s) (?va + of_nat d))"
      and o1: "\<forall>va'. (\<forall>i<?N. va_vpn va' \<noteq> va_vpn (?va + of_nat (i * 4096))) \<longrightarrow> lookup (mem t) root va' = lookup (mem s) root va'"
      and keep: "\<forall>a\<in>set ars. agree (span a 40) (mem s) (mem t)" and cov1: "\<forall>k. covered k F1 \<longrightarrow> covered (k + (4 * ?N + 2)) F"
    note cs1 = cs1 [folded l_def]
    have T: "image_inv root l Z F1 P1 (xs @ [nd]) (ars @ [cp]) t" "rest_or_closed s t" using cs1 by (simp_all add: clone_step_def)
    have ZW: "Z \<inter> image_cells l F P xs = {}" using Cons.prems(1) by (simp add: image_inv_def)
    have agZ: "agree (Z - handler_span G) (mem s) (mem t)"
      by (rule agree_mono [of "- (image_cells l F P xs \<union> handler_span G)"]) (use cs1 ZW in \<open>auto simp: clone_step_def\<close>)
    note SA = source_agree [OF Cons.prems(4) agZ]
    have tab: "t_page_table (mem t) task = root" using agree_load64 [OF agZ task] Cons.prems(2) by (simp add: t_page_table_def)
    have ar: "active_root t = r" using rest_or_closed_facts(2) [OF T(2)] Cons.prems(3) by simp
    have pinv: "parent_inv r (Z - handler_span G) Q (mem t)" by (rule parent_frame [OF Cons.prems(4) agZ])
    have nodes: "nexts (mem t) ps" "map (n_value (mem t)) ps = bs'" "n_next (mem t) x = nhead ps"
    proof -
      have Z: "span x 32 \<subseteq> Z - handler_span G" "(\<Union>x\<in>set ps. span x 32) \<subseteq> Z - handler_span G" using Cons.prems(6) by auto
      show "nexts (mem t) ps" using nexts_agree [OF agZ Z(2)] x(3) by simp
      show "n_next (mem t) x = nhead ps" using node_agree(2) [OF agZ Z(1)] x(2) by simp
      have "n_value (mem t) y = n_value (mem s) y" if "y \<in> set ps" for y by (rule node_agree(1) [OF agZ]) (use that Z(2) in blast)
      then show "map (n_value (mem t)) ps = bs'" using bs(3) by (simp cong: map_cong)
    qed
    have ZP: "(\<Union>x\<in>set ps. span x 32) \<subseteq> Z - handler_span G" using Cons.prems(6) by auto
    have "span cp 40 \<inter> handler_span G = {}" using cpF ZW H unfolding image_cells_def by blast
    then have ars1: "\<forall>a\<in>set (ars @ [cp]). span a 40 \<inter> handler_span G = {}" using Cons.prems(10) by auto
    have src1: "\<forall>b\<in>set bs'. source_area r (Z - handler_span G) (mem t) b" using SA(1) src(2) by blast
    have srt1: "sorted_wrt (apart_areas (mem t)) bs'"
      using srt(2) by (rule sorted_wrt_mono_rel [rotated]) (use SA(5) src(2) in \<open>auto simp: apart_areas_def\<close>)
    have need1: "clone_need (mem t) bs' = clone_need (mem s) bs'"
      using SA(3) src(2) by (simp add: clone_need_def cong: map_cong)
    have run: "list_foreach_from ?f (nhead (x # ps)) s = list_foreach_from ?f (nhead ps) t"
      unfolding step by (subst kbind_Inr [of "?f b", OF t]) (simp only: nodes(3))
    from Cons.IH [OF T(1) tab ar pinv nodes(1) ZP nodes(2) src1 srt1 ars1] show ?thesis
    proof (elim disjE exE conjE)
      assume "covered (clone_need (mem t) bs') F1" "list_foreach_from ?f (nhead ps) t = Some (Inl ''out of memory'')"
      moreover from this(1) have "covered (clone_need (mem s) bs' + (4 * ?N + 2)) F" using cov1 need1 by metis
      ultimately show ?thesis using run need by (simp add: add.commute)
    next
      fix w F2 P2 ns cs
      assume w: "list_foreach_from ?f (nhead ps) t = Some (Inr ((), w))" "clone_step (handler_span G) root l Z F1 P1 (xs @ [nd]) t F2 P2 ((xs @ [nd]) @ ns) ((ars @ [cp]) @ cs) w"
        "list_all2 (area_copy (mem t) (mem w)) bs' cs" "\<forall>c\<in>set cs. span c 40 \<subseteq> F1" "\<forall>b\<in>set bs'. area_seen (mem t) r (mem w) root b"
        "\<forall>va. (\<forall>b\<in>set bs'. unat (va_vpn va) \<notin> area_vpns (mem t) b) \<longrightarrow> lookup (mem w) root va = lookup (mem t) root va"
        "\<forall>a\<in>set (ars @ [cp]). agree (span a 40) (mem t) (mem w)" "\<forall>k. covered k F2 \<longrightarrow> covered (k + clone_need (mem t) bs') F1"
      have run2: "list_foreach_from ?f (nhead (x # ps)) s = Some (Inr ((), w))" using run w(1) by simp
      have cs2: "clone_step (handler_span G) root l Z F P xs s F2 P2 (xs @ nd # ns) (ars @ cp # cs) w" using clone_step_trans [OF cs1 w(2)] by simp
      have copies: "list_all2 (area_copy (mem s) (mem w)) bs (cp # cs)"
      proof -
        have "agree (span cp 24) (mem t) (mem w)" by (rule agree_mono [of "span cp 40"]) (use w(7) span_mono [of 24 40] in auto)
        then have "area_copy (mem s) (mem w) b cp" using al area_loaded_frame by (simp add: area_copy_def)
        moreover have "list_all2 (area_copy (mem s) (mem w)) bs' cs"
          using w(3) by (rule list.rel_mono_strong) (use SA(2-4) src(2) in \<open>simp add: area_copy_def\<close>)
        ultimately show ?thesis by (simp add: bs(1))
      qed
      have "sees (mem w) root (?va + of_nat d) 0x1f (user_mem (mem s) r (?va + of_nat d))" if d: "d < ?N * 4096" for d
      proof -
        have "unat (va_vpn (?va + of_nat d)) \<notin> area_vpns (mem t) c" if "c \<in> set bs'" for c
          using source_vpn(1) [OF src(1) d] srt(1) that SA(5) src(2) unfolding apart_areas_def by fastforce
        then have look: "lookup (mem w) root (?va + of_nat d) = lookup (mem t) root (?va + of_nat d)" using w(6) by blast
        have "agree (- (image_cells l F1 P1 (xs @ [nd]) \<union> handler_span G)) (mem t) (mem w)" using w(2) by (simp add: clone_step_def)
        from sees_frame [OF T(1) this H source_vpn(2) [OF src(1) d] look] seen d Cons.prems(3) show ?thesis by simp
      qed
      then have seen2: "\<forall>b\<in>set bs. area_seen (mem s) r (mem w) root b"
        using w(5) SA(6) src(2) unfolding bs(1) by (simp add: area_seen_def)
      have same: "\<forall>va. (\<forall>b\<in>set bs. unat (va_vpn va) \<notin> area_vpns (mem s) b) \<longrightarrow> lookup (mem w) root va = lookup (mem s) root va"
      proof (intro allI impI)
        fix va assume va: "\<forall>b\<in>set bs. unat (va_vpn va) \<notin> area_vpns (mem s) b"
        then have "\<forall>c\<in>set bs'. unat (va_vpn va) \<notin> area_vpns (mem t) c" using SA(5) src(2) bs(1) by simp
        then have "lookup (mem w) root va = lookup (mem t) root va" using w(6) by blast
        moreover have "va_vpn va \<noteq> va_vpn (?va + of_nat (i * 4096))" if "i < ?N" for i
          using source_vpn(1) [OF src(1), of "i * 4096"] va that bs(1) by auto
        ultimately show "lookup (mem w) root va = lookup (mem s) root va" using o1 by simp
      qed
      have keep2: "\<forall>a\<in>set ars. agree (span a 40) (mem s) (mem w)" using keep w(7) by (auto intro: agree_trans)
      have cov2: "\<forall>k. covered k F2 \<longrightarrow> covered (k + clone_need (mem s) bs) F"
        using cov1 w(8) unfolding need need1 by (metis add.assoc add.commute)
      have "F1 \<subseteq> F" using cs1 by (simp add: clone_step_def)
      then have inF: "\<forall>c\<in>set (cp # cs). span c 40 \<subseteq> F" using w(4) cpF by auto
      show ?thesis by (intro disjI2 exI conjI) (fact run2 cs2 copies inF seen2 same keep2 cov2)+
    qed
  qed
qed

lemma vm_clone_ok:
  assumes "image_inv root (t_vm_areas task) Z F P [] [] s" and "t_page_table (mem s) task = root" and "span (task + 48) 8 \<subseteq> Z - handler_span G"
    and "active_root s = r" and "parent_inv r (Z - handler_span G) Q (mem s)" and "list_rep q (mem s) lp ps"
    and "list_cells lp ps \<subseteq> Z - handler_span G" and "map (n_value (mem s)) ps = bs"
    and "\<forall>b\<in>set bs. source_area r (Z - handler_span G) (mem s) b" and "sorted_wrt (apart_areas (mem s)) bs" and "handler_span G \<subseteq> Z"
  shows "covered (clone_need (mem s) bs) F \<and> vm_clone G lp task s = Some (Inl ''out of memory'') \<or>
    (\<exists>t F' P' ns cs. vm_clone G lp task s = Some (Inr (0, t)) \<and>
       clone_step (handler_span G) root (t_vm_areas task) Z F P [] s F' P' ns cs t \<and> list_all2 (area_copy (mem s) (mem t)) bs cs \<and>
       (\<forall>c\<in>set cs. span c 40 \<subseteq> F) \<and> (\<forall>k. covered k F' \<longrightarrow> covered (k + clone_need (mem s) bs) F) \<and>
       (\<forall>b\<in>set bs. area_seen (mem s) r (mem t) root b) \<and>
       (\<forall>va. (\<forall>b\<in>set bs. unat (va_vpn va) \<notin> area_vpns (mem s) b) \<longrightarrow> lookup (mem t) root va = lookup (mem s) root va))"
proof -
  have L: "nseg (mem s) lp q (l_first (mem s) lp) ps 0" using assms(6) by (simp add: list_rep_def)
  have "nexts (mem s) ps" "l_first (mem s) lp = nhead ps" using L by (rule nseg_nexts nseg_nhead)+
  then have run: "vm_clone G lp task s = kthen (list_foreach_from (vm_clone_area G task) (nhead ps)) (kreturn 0) s"
    by (simp add: vm_clone_def list_foreach_def kthen_def kbind_def)
  have none: "\<forall>a\<in>set []. span a 40 \<inter> handler_span G = {}" by simp
  have "(\<Union>x\<in>set ps. span x 32) \<subseteq> Z - handler_span G" using assms(7) by (auto simp: list_cells_def)
  from clone_list_ok [OF assms(3,11,1,2,4,5) \<open>nexts (mem s) ps\<close> this assms(8-10) none] show ?thesis
  proof (elim disjE exE conjE)
    assume "covered (clone_need (mem s) bs) F" "list_foreach_from (vm_clone_area G task) (nhead ps) s = Some (Inl ''out of memory'')"
    then show ?thesis by (simp add: run kthen_Inl)
  next
    fix t F' P' ns cs
    assume t: "list_foreach_from (vm_clone_area G task) (nhead ps) s = Some (Inr ((), t))"
      "clone_step (handler_span G) root (t_vm_areas task) Z F P [] s F' P' ([] @ ns) ([] @ cs) t" "list_all2 (area_copy (mem s) (mem t)) bs cs" "\<forall>c\<in>set cs. span c 40 \<subseteq> F"
      "\<forall>b\<in>set bs. area_seen (mem s) r (mem t) root b"
      "\<forall>va. (\<forall>b\<in>set bs. unat (va_vpn va) \<notin> area_vpns (mem s) b) \<longrightarrow> lookup (mem t) root va = lookup (mem s) root va"
      "\<forall>k. covered k F' \<longrightarrow> covered (k + clone_need (mem s) bs) F"
    have "vm_clone G lp task s = Some (Inr (0, t))" using t(1) by (simp add: run kthen_Inr)
    then show ?thesis using t(2-7) by auto
  qed
qed

end
