(* ===== verification/Fork_Correct.thy ===== *)
theory Fork_Correct
  imports Clone_Correct Exec_Correct
begin

section \<open>Correctness of fork\<close>

text \<open>
  A new task: its structure, its stack, its page table and its place in the run queue; and the system
  call \<open>fork\<close>, which copies the parent into it.
\<close>

subsection \<open>The structure of a new task\<close>

definition task_named :: "u64 \<Rightarrow> u64 \<Rightarrow> u64 \<Rightarrow> memory \<Rightarrow> memory" where
  "task_named task pid parent m = set_t_parent task parent (set_t_pid task pid m)"

definition task_set_up :: "symbols \<Rightarrow> u64 \<Rightarrow> u64 \<Rightarrow> memory \<Rightarrow> memory" where
  "task_set_up G task stack m = set_cpu_pc (t_kernel_frame task) (sym_task_entry G)
     (set_cpu_register (t_kernel_frame task) REG_A0 task
       (set_cpu_register (t_kernel_frame task) REG_SP (stack + PAGE_SIZE)
         (set_t_mode task MODE_SUPERVISOR (list_init (t_vm_areas task) m))))"

definition task_written :: "symbols \<Rightarrow> u64 \<Rightarrow> u64 \<Rightarrow> u64 \<Rightarrow> u64 \<Rightarrow> u64 \<Rightarrow> u64 \<Rightarrow> memory \<Rightarrow> memory" where
  "task_written G task pid parent stack table nd m = set_t_sched task nd (task_set_up G task stack
     (set_t_page_table task table (set_t_kernel_stack task stack (task_named task pid parent m))))"

text \<open>What is found in a new task: it runs \<open>task_entry\<close> on its own stack, in supervisor mode.\<close>

definition new_task :: "symbols \<Rightarrow> memory \<Rightarrow> u64 \<Rightarrow> u64 \<Rightarrow> u64 \<Rightarrow> u64 \<Rightarrow> u64 \<Rightarrow> u64 \<Rightarrow> bool" where
  "new_task G m task pid parent stack table nd \<longleftrightarrow>
     t_pid m task = pid \<and> t_parent m task = parent \<and> t_sched m task = nd \<and> t_kernel_stack m task = stack \<and>
     t_page_table m task = table \<and> t_mode m task = MODE_SUPERVISOR \<and>
     cpu_register m (t_kernel_frame task) REG_SP = stack + PAGE_SIZE \<and>
     cpu_register m (t_kernel_frame task) REG_A0 = task \<and> cpu_pc m (t_kernel_frame task) = sym_task_entry G"

lemma task_written_fields:
  "new_task G (task_written G task pid parent stack table nd m) task pid parent stack table nd"
  "l_first (task_written G task pid parent stack table nd m) (t_vm_areas task) = 0"
  "l_last (task_written G task pid parent stack table nd m) (t_vm_areas task) = 0"
  by (simp_all add: new_task_def task_written_def task_set_up_def task_named_def t_pid_def t_parent_def t_sched_def
      t_kernel_stack_def t_page_table_def t_mode_def cpu_register_def cpu_pc_def t_kernel_frame_def t_vm_areas_def
      set_t_pid_def set_t_parent_def set_t_sched_def set_t_kernel_stack_def set_t_page_table_def set_t_mode_def
      set_cpu_register_def set_cpu_pc_def list_init_def set_first_def set_last_def l_first_def l_last_def REG_SP_def REG_A0_def
      load64_store64_other load64_store32_other load32_store64_other span_disjoint_offsets span_disjoint_base add.assoc)

text \<open>The same stores on memories that agree.\<close>

lemma agree_store_cong:
  assumes "agree A m m'"
  shows "agree A (store64 m a v) (store64 m' a v)" and "agree A (store32 m a w) (store32 m' a w)"
proof -
  have "store_le n m a v x = store_le n m' a v x" if "n \<le> 8" "x \<in> A" for n v x
    using that assms by (cases "x \<in> span a n") (auto simp: store_le_outside agree_def intro: store_le_inside_eq)
  then show "agree A (store64 m a v) (store64 m' a v)" "agree A (store32 m a w) (store32 m' a w)"
    by (simp_all add: store64_def store32_def agree_def)
qed

lemmas task_defs = task_written_def task_set_up_def task_named_def t_kernel_frame_def t_vm_areas_def
  set_t_pid_def set_t_parent_def set_t_sched_def set_t_kernel_stack_def set_t_page_table_def set_t_mode_def
  set_cpu_register_def set_cpu_pc_def list_init_def set_first_def set_last_def

lemma task_step_cong:
  assumes "agree A m m'"
  shows "agree A (task_named task pid parent m) (task_named task pid parent m')"
    and "agree A (set_t_kernel_stack task stack m) (set_t_kernel_stack task stack m')"
    and "agree A (set_t_page_table task table m) (set_t_page_table task table m')"
    and "agree A (task_set_up G task stack m) (task_set_up G task stack m')"
    and "agree A (set_t_sched task nd m) (set_t_sched task nd m')"
  unfolding task_defs by (intro agree_store_cong assms)+

lemma task_step_frame:
  "agree (- span task 592) m (task_named task pid parent m)"
  "agree (- span task 592) m (set_t_kernel_stack task stack m)"
  "agree (- span task 592) m (set_t_page_table task table m)"
  "agree (- span task 592) m (task_set_up G task stack m)"
  "agree (- span task 592) m (set_t_sched task nd m)"
proof -
  have s8: "agree (- span task 592) m (store64 x (task + i) v)" if "agree (- span task 592) m x" "unat i + 8 \<le> 592" for x i v
    by (rule agree_trans [OF that(1) agree_sym [OF agree_store64]]) (use span_shift_subset [OF that(2), of task] in blast)
  have s4: "agree (- span task 592) m (store32 x (task + i) v)" if "agree (- span task 592) m x" "unat i + 4 \<le> 592" for x i v
    by (rule agree_trans [OF that(1) agree_sym [OF agree_store32]]) (use span_shift_subset [OF that(2), of task] in blast)
  have s0: "agree (- span task 592) m (store64 x task v)" if "agree (- span task 592) m x" for x v
    using s8 [OF that, of 0] by simp
  show "agree (- span task 592) m (task_named task pid parent m)" "agree (- span task 592) m (set_t_kernel_stack task stack m)"
    "agree (- span task 592) m (set_t_page_table task table m)" "agree (- span task 592) m (set_t_sched task nd m)"
    unfolding task_defs by (intro s0 s8 agree_refl; simp)+
  show "agree (- span task 592) m (task_set_up G task stack m)"
    unfolding task_defs add.assoc by (intro s8 s4 agree_refl; simp add: REG_SP_def REG_A0_def)
qed

subsection \<open>Joining the run queue\<close>

lemma task_init_sched_ok:
  assumes al: "allocator F s" and rep: "list_rep q (mem s) (sym_tasks G) ts" and cells: "list_cells (sym_tasks G) ts \<inter> F = {}"
    and task: "span task 592 \<inter> (F \<union> list_cells (sym_tasks G) ts) = {}"
  shows "F = {} \<and> task_init_sched G task s = Some (Inl ''out of memory'') \<or>
    (\<exists>nd t. task_init_sched G task s = Some (Inr (0, t)) \<and> node_page nd \<subseteq> F \<and> span nd 32 \<subseteq> node_page nd \<and> allocator (F - node_page nd) t \<and>
       list_rep (if ts = [] then 0 else q) (mem t) (sym_tasks G) (ts @ [nd]) \<and>
       map (n_value (mem t)) (ts @ [nd]) = map (n_value (mem s)) ts @ [task] \<and>
       agree (span task 592) (set_t_sched task nd (task_set_up G task (t_kernel_stack (mem s) task) (mem s))) (mem t) \<and>
       agree (- (F \<union> list_cells (sym_tasks G) ts \<union> span task 592)) (mem s) (mem t) \<and> same_rest s t)"
proof -
  let ?l = "sym_tasks G" and ?st = "t_kernel_stack (mem s) task" and ?run = "task_init_sched G task s"
  let ?s1 = "s\<lparr>mem := task_set_up G task ?st (mem s)\<rparr>"
  have stack: "t_kernel_stack (set_t_mode task v (list_init (t_vm_areas task) m)) task = t_kernel_stack m task" for v m
    by (simp add: t_kernel_stack_def set_t_mode_def list_init_def set_first_def set_last_def t_vm_areas_def
        load64_store64_other load64_store32_other span_disjoint_offsets add.assoc)
  have call: "?run = kbind (list_node_create task) (\<lambda>node. if node = 0 then kreturn (- ENOMEM)
      else kthen (write_mem (set_t_sched task node)) (kthen (write_mem (list_push ?l node)) (kreturn 0))) ?s1"
    using stack [of MODE_SUPERVISOR "mem s"] by (simp add: task_init_sched_def kthen_Inr write_mem_def task_set_up_def)
  have s1: "agree (- span task 592) (mem s) (mem ?s1)" using task_step_frame(4) by simp
  have tF: "span task 592 \<inter> F = {}" "span task 592 \<inter> list_cells ?l ts = {}" using task by blast+
  have "agree F (mem s) (mem ?s1)" by (rule agree_mono [OF s1]) (use tF in blast)
  from allocator_frame [OF al this] have al1: "allocator F ?s1" by simp
  have l1: "agree (list_cells ?l ts) (mem s) (mem ?s1)" by (rule agree_mono [OF s1]) (use tF in blast)
  note R1 = list_rep_agree [OF l1 rep]
  from list_node_create_ok [OF al1, of task] show ?thesis
  proof (elim disjE exE conjE)
    assume "F = {}" "list_node_create task ?s1 = Some (Inl ''out of memory'')"
    then show ?thesis unfolding call by (simp add: kbind_Inl)
  next
    fix nd t1
    assume n: "list_node_create task ?s1 = Some (Inr (nd, t1))" "nd \<noteq> 0" "node_page nd \<subseteq> F" "allocator (F - node_page nd) t1"
      "agree (- F) (mem ?s1) (mem t1)" "n_value (mem t1) nd = task" "n_next (mem t1) nd = 0" "same_rest ?s1 t1"
    let ?t2 = "t1\<lparr>mem := set_t_sched task nd (mem t1)\<rparr>"
    let ?t = "?t2\<lparr>mem := list_push ?l nd (mem ?t2)\<rparr>"
    have nd: "span nd 32 \<subseteq> node_page nd" by (rule node_in_page)
    have run: "?run = Some (Inr (0, ?t))" unfolding call using n(1,2) by (simp add: kbind_Inr kthen_Inr write_mem_def)
    have t2: "agree (- span task 592) (mem t1) (mem ?t2)" using task_step_frame(5) by simp
    have l2: "agree (list_cells ?l ts) (mem ?s1) (mem ?t2)"
      by (rule agree_trans [OF agree_mono [OF n(5)] agree_mono [OF t2]]) (use cells tF in blast)+
    note R2 = list_rep_agree [OF l2 R1(1)]
    have ndt: "agree (span nd 32) (mem t1) (mem ?t2)" by (rule agree_mono [OF t2]) (use nd n(3) tF in blast)
    note nv = node_agree [OF ndt order_refl]
    have j: "joinable (mem ?t2) ?l ts nd"
      by (rule fresh_joinable [of _ F]) (use nd n(2,3,7) cells nv in \<open>blast | simp\<close>)+
    note P = list_push_rep [OF R2(1) j] list_push_value [OF R2(1) j]
    have off: "off_list ?l nd" using j by (simp add: joinable_def)
    have push: "agree (- (list_cells ?l ts \<union> span nd 32)) (mem ?t2) (mem ?t)"
      using agree_mono [OF list_push_frame [OF R2(1) off], of "- (list_cells ?l ts \<union> span nd 32)"] by (auto simp: list_cells_def)
    have "agree (F - node_page nd) (mem t1) (mem ?t)"
      by (rule agree_trans [OF agree_mono [OF t2] agree_mono [OF push]]) (use tF nd cells in blast)+
    from allocator_frame [OF n(4) this] have "allocator (F - node_page nd) ?t" by simp
    moreover have "map (n_value (mem ?t)) (ts @ [nd]) = map (n_value (mem s)) ts @ [task]"
      using P(2) R2(2) R1(2) nv(1) n(6) by auto
    moreover have "agree (span task 592) (set_t_sched task nd (mem ?s1)) (mem ?t)"
    proof (rule agree_trans)
      have "agree (span task 592) (mem ?s1) (mem t1)" by (rule agree_mono [OF n(5)]) (use tF in blast)
      then show "agree (span task 592) (set_t_sched task nd (mem ?s1)) (mem ?t2)" using task_step_cong(5) by simp
      show "agree (span task 592) (mem ?t2) (mem ?t)" by (rule agree_mono [OF push]) (use tF nd n(3) in blast)
    qed
    moreover have "agree (- (F \<union> list_cells ?l ts \<union> span task 592)) (mem s) (mem ?t)"
      by (rule agree_trans [OF agree_mono [OF s1] agree_trans [OF agree_mono [OF n(5)] agree_trans [OF agree_mono [OF t2] agree_mono [OF push]]]])
        (use nd n(3) in blast)+
    moreover have "same_rest s ?t" using same_rest_trans [OF same_rest_trans [OF _ n(8)], of s ?t] by simp
    moreover have "list_rep (if ts = [] then 0 else q) (mem ?t) ?l (ts @ [nd])" using P(1) by simp
    ultimately show ?thesis using run n(3) nd by (intro disjI2 exI [of _ nd] exI [of _ ?t]) simp
  qed
qed


subsection \<open>The creation of a task\<close>

text \<open>The structure without the list of areas.\<close>

definition task_cells :: "u64 \<Rightarrow> u64 set" where
  "task_cells task = span task 24 \<union> span (task + 40) 552"

lemma task_cells_parts:
  "task_cells task \<subseteq> span task 592" "task_cells task \<inter> span (t_vm_areas task) 16 = {}" "span (task + 48) 8 \<subseteq> task_cells task"
  "span (t_user_frame task) 264 \<subseteq> task_cells task" "span task 24 \<union> span (task + 40) 288 \<subseteq> task_cells task"
  "(span task 24 \<union> span (task + 40) 288) \<inter> span (t_user_frame task) 264 = {}"
proof -
  have "span task 24 \<subseteq> span task 592" "span (task + 40) 552 \<subseteq> span task 592" by (rule span_mono span_shift_subset; simp)+
  then show "task_cells task \<subseteq> span task 592" by (simp add: task_cells_def)
  have "span (task + 40 + 8) 8 \<subseteq> span (task + 40) 552" "span (task + 40 + 288) 264 \<subseteq> span (task + 40) 552"
    by (rule span_shift_subset; simp)+
  then show "span (task + 48) 8 \<subseteq> task_cells task" "span (t_user_frame task) 264 \<subseteq> task_cells task"
    by (auto simp: task_cells_def t_user_frame_def add.assoc)
  show "span task 24 \<union> span (task + 40) 288 \<subseteq> task_cells task" using span_mono [of 288 552 "task + 40"] by (auto simp: task_cells_def)
  show "(span task 24 \<union> span (task + 40) 288) \<inter> span (t_user_frame task) 264 = {}"
    by (simp add: t_user_frame_def Int_Un_distrib2 span_disjoint_offsets span_disjoint_base)
  show "task_cells task \<inter> span (t_vm_areas task) 16 = {}"
    by (simp add: task_cells_def t_vm_areas_def Int_Un_distrib2 span_disjoint_offsets span_disjoint_base)
qed

lemma new_task_agree:
  assumes ag: "agree (span task 24 \<union> span (task + 40) 288) m m'" and new: "new_task G m task pid parent stack table nd"
  shows "new_task G m' task pid parent stack table nd"
proof -
  have l8: "load64 m' (task + i) = load64 m (task + i)" if "unat i + 8 \<le> 24 \<or> 40 \<le> unat i \<and> unat i + 8 \<le> 328" for i
  proof -
    have "span (task + 40 + (i - 40)) 8 \<subseteq> span (task + 40) 288" if "40 \<le> unat i \<and> unat i + 8 \<le> 328"
      by (rule span_shift_subset) (use that in \<open>simp add: unat_sub word_le_nat_alt; arith\<close>)
    then have "span (task + i) 8 \<subseteq> span task 24 \<union> span (task + 40) 288" using span_shift_subset [of i 8 24 task] that by auto
    then show ?thesis by (rule agree_load64 [OF ag, symmetric])
  qed
  have "span (task + 40 + 16) 4 \<subseteq> span (task + 40) 288" by (rule span_shift_subset) simp
  then have "span (task + 56) 4 \<subseteq> span task 24 \<union> span (task + 40) 288" by (auto simp: add.assoc)
  note l4 = agree_load32 [OF ag this, symmetric]
  have l0: "load64 m' task = load64 m task" using l8 [of 0] by simp
  show "new_task G m' task pid parent stack table nd"
    using new by (simp add: new_task_def t_pid_def t_parent_def t_sched_def t_kernel_stack_def t_page_table_def t_mode_def
        cpu_register_def cpu_pc_def t_kernel_frame_def REG_SP_def REG_A0_def add.assoc l8 l4 l0)
qed

lemma new_list_agree:
  assumes ag: "agree (span task 592) m m'" and list: "l_first m (t_vm_areas task) = 0" "l_last m (t_vm_areas task) = 0"
    and l: "t_vm_areas task \<noteq> 0"
  shows "list_rep 0 m' (t_vm_areas task) []"
proof -
  have "agree (list_cells (t_vm_areas task) []) m m'"
    by (rule agree_mono [OF ag]) (simp add: list_cells_def t_vm_areas_def span_shift_subset)
  moreover have "list_rep 0 m (t_vm_areas task) []" using list l by (simp add: list_rep_def separate_nodes_def)
  ultimately show ?thesis by (rule list_rep_agree)
qed

text \<open>
  The structure, the stack, the root of the page table and the node in the run queue are four pages of
  the free memory.
\<close>

definition created ::
  "symbols \<Rightarrow> u64 set \<Rightarrow> u64 list \<Rightarrow> u64 \<Rightarrow> 'a sched_state_scheme \<Rightarrow>
     u64 \<Rightarrow> u64 \<Rightarrow> u64 \<Rightarrow> u64 \<Rightarrow> u64 set \<Rightarrow> 'a sched_state_scheme \<Rightarrow> bool" where
  "created G F ts parent s task stack root nd F' t \<longleftrightarrow>
     area 0 (task - 4) \<union> area 0 stack \<union> area 0 root \<union> node_page nd \<subseteq> F \<and>
     F' = F - (area 0 (task - 4) \<union> area 0 stack \<union> area 0 root \<union> node_page nd) \<and>
     span task 592 \<subseteq> area 0 (task - 4) \<and> span nd 32 \<subseteq> node_page nd \<and> area 0 root \<inter> (area 0 (task - 4) \<union> node_page nd) = {} \<and>
     area 0 (task - 4) \<inter> node_page nd = {} \<and> task \<noteq> 0 \<and> \<not> IS_ERR task \<and>
     new_task G (mem t) task (next_task_id s) parent stack root nd \<and> list_rep 0 (mem t) (t_vm_areas task) [] \<and>
     pt_inv root F' {root} t \<and> (\<forall>va. lookup (mem t) root va = kernel_lookup va) \<and>
     (\<exists>q. list_rep q (mem t) (sym_tasks G) (ts @ [nd])) \<and>
     map (n_value (mem t)) (ts @ [nd]) = map (n_value (mem s)) ts @ [task] \<and>
     agree (- (F \<union> list_cells (sym_tasks G) ts)) (mem s) (mem t) \<and> same_rest (s\<lparr>next_task_id := next_task_id s + 1\<rparr>) t"

lemma task_block:
  assumes "area_ok 0 a"
  shows "span (a + 4) 592 \<subseteq> area 0 a" and "a + 4 \<noteq> 0" and "\<not> IS_ERR (a + 4)" and "t_vm_areas (a + 4) \<noteq> 0"
proof -
  show "span (a + 4) 592 \<subseteq> area 0 a" unfolding area_def by (rule span_shift_subset) simp
  have "area 0 a \<subseteq> ram" using assms by (simp add: area_ok_def)
  moreover have "a + 4 \<in> area 0 a" "a + 28 \<in> area 0 a" by (simp_all add: area_def span_iff)
  ultimately have r: "a + 4 \<in> ram" "a + 28 \<in> ram" by blast+
  then show "a + 4 \<noteq> 0" "t_vm_areas (a + 4) \<noteq> 0" by (auto simp: ram_def t_vm_areas_def add.assoc)
  from r(1) show "\<not> IS_ERR (a + 4)" by (auto simp: ram_def IS_ERR_def word_less_nat_alt sint_small)
qed

text \<open>The state before \<open>task_init_sched\<close>: three pages are taken, and the structure has its first five fields.\<close>

definition task_staffed ::
  "u64 set \<Rightarrow> u64 \<Rightarrow> 'a sched_state_scheme \<Rightarrow> u64 \<Rightarrow> u64 \<Rightarrow> u64 \<Rightarrow> 'a sched_state_scheme \<Rightarrow> bool" where
  "task_staffed F parent s task stack root t \<longleftrightarrow>
     (\<exists>a. task = a + 4 \<and> area_ok 0 a \<and> area 0 a \<subseteq> F \<and> area 0 stack \<subseteq> F - area 0 a \<and>
        area 0 root \<subseteq> F - area 0 a - area 0 stack \<and> pt_inv root (F - area 0 a - area 0 stack - area 0 root) {root} t) \<and>
     (\<exists>m. agree (span task 592)
        (set_t_page_table task root (set_t_kernel_stack task stack (task_named task (next_task_id s) parent m))) (mem t)) \<and>
     (\<forall>va. lookup (mem t) root va = kernel_lookup va) \<and>
     agree (- F) (mem s) (mem t) \<and> same_rest (s\<lparr>next_task_id := next_task_id s + 1\<rparr>) t"

lemma write_task_ok:
  assumes "allocator F s" and "span task 592 \<inter> F = {}" and "agree (- span task 592) (mem s) m"
  shows "allocator F (s\<lparr>mem := m\<rparr>)"
  by (rule allocator_frame [OF assms(1)]) (use agree_mono [OF assms(3), of F] assms(2) in auto)

lemma task_staffed_ok:
  assumes al: "allocator F s" and ne: "\<not> early s"
  shows "covered 2 F \<and> task_create G parent s = Some (Inl ''out of memory'') \<or>
    (\<exists>task stack root t k. task_staffed F parent s task stack root t \<and>
       task_create G parent s = kbind (task_init_sched G task) (\<lambda>ret. if ret \<noteq> 0 then k ret else kreturn task) t)"
proof -
  let ?pid = "next_task_id s" and ?run = "task_create G parent s"
  have "unat (592 :: u64) \<le> 4092" by simp
  from kmalloc_small [OF al this] show ?thesis
  proof (elim disjE exE conjE)
    assume "F = {}" "kmalloc 592 s = Some (Inl ''out of memory'')"
    then show ?thesis by (simp add: task_create_def kbind_Inl covered_empty)
  next
    fix a s1
    assume s1: "kmalloc 592 s = Some (Inr (a + 4, s1))" "area_ok 0 a" "area 0 a \<subseteq> F" "allocator (F - area 0 a) s1"
      "agree (- F) (mem s) (mem s1)" "same_rest s s1"
    let ?task = "a + 4" and ?F1 = "F - area 0 a"
    note blk = task_block [OF s1(2)]
    let ?S = "span ?task 592" and ?m1 = "task_named ?task ?pid parent (mem s1)"
    let ?u1 = "s1\<lparr>next_task_id := ?pid + 1, mem := ?m1\<rparr>"
    have id: "next_task_id s1 = ?pid" using s1(6) unfolding same_rest_def by (cases s; cases s1; simp)
    have f1: "agree (- ?S) (mem s1) ?m1" by (rule task_step_frame)
    have S: "?S \<inter> ?F1 = {}" using blk(1) by blast
    have al1: "allocator ?F1 ?u1"
      by (rule allocator_frame [OF s1(4)]) (use agree_mono [OF f1, of ?F1] S in auto)
    have r1: "same_rest (s\<lparr>next_task_id := ?pid + 1\<rparr>) ?u1"
      using s1(6) unfolding same_rest_def by (cases s; cases s1; simp)
    from buddy.alloc [OF al1] show ?thesis
    proof (elim disjE exE conjE)
      assume "?F1 = {}" "alloc_pages 0 ?u1 = Some (Inl ''out of memory'')"
      then show ?thesis using s1(1) blk(2) id covered_mono [OF covered_area, of F a 2]
        by (simp add: task_create_def kbind_Inr kthen_Inr write_mem_def task_named_def Let_def kbind_Inl)
    next
      fix p s2
      assume s2: "alloc_pages 0 ?u1 = Some (Inr (p, s2))" "area_ok 0 (address p)" "area 0 (address p) \<subseteq> ?F1"
        "allocator (?F1 - area 0 (address p)) s2" "agree (- ?F1) (mem ?u1) (mem s2)" "same_rest ?u1 s2"
      let ?stack = "address p" let ?F2 = "?F1 - area 0 ?stack"
      let ?m2 = "set_t_kernel_stack ?task ?stack (mem s2)" let ?u2 = "s2\<lparr>mem := ?m2\<rparr>"
      have g2: "agree (- ?F1) ?m1 (mem s2)" using s2(5) by simp
      have f2: "agree (- ?S) (mem s2) ?m2" by (rule task_step_frame)
      have al2: "allocator ?F2 ?u2" by (rule write_task_ok [OF s2(4) _ f2]) (use S in blast)
      have r2: "same_rest (s\<lparr>next_task_id := ?pid + 1\<rparr>) ?u2"
        by (rule same_rest_trans [OF same_rest_trans [OF r1 s2(6)]]) simp
      have early: "\<not> early ?u2" using same_rest_early [OF r2] ne by simp
      have a2: "agree ?S (set_t_kernel_stack ?task ?stack ?m1) ?m2"
        by (rule task_step_cong(2) [OF agree_mono [OF g2]]) (use S in blast)
      have o2: "agree (- F) (mem s) ?m2"
        by (rule agree_trans [OF s1(5) agree_trans [OF agree_mono [OF f1] agree_trans [OF agree_mono [OF g2] agree_mono [OF f2]]]])
          (use blk(1) s1(3) in blast)+
      from create_page_table_ok [OF al2 early] show ?thesis
      proof (elim disjE exE conjE)
        assume "?F2 = {}" and oom: "create_page_table ?u2 = Some (Inl ''out of memory'')"
        then have "F \<subseteq> area 0 ?stack \<union> pages {a}" by auto
        then have "covered (1 + 1) F" by (rule covered_add [OF covered_area [OF order_refl]]) simp_all
        moreover have "?run = Some (Inl ''out of memory'')" using s1(1) blk(2) id s2(1) area_ok_nonzero [OF s2(2)] oom
          by (simp add: task_create_def kbind_Inr kthen_Inr write_mem_def task_named_def Let_def kbind_Inl)
        ultimately show ?thesis by (simp only: one_add_one simp_thms)
      next
        fix root s3
        assume s3: "create_page_table ?u2 = Some (Inr (root, s3))" "area_ok 0 root" "area 0 root \<subseteq> ?F2"
          "pt_inv root (?F2 - area 0 root) {root} s3" "agree (- ?F2) (mem ?u2) (mem s3)" "same_rest ?u2 s3"
          "\<forall>va. lookup (mem s3) root va = kernel_lookup va"
        let ?m3 = "set_t_page_table ?task root (mem s3)" let ?t = "s3\<lparr>mem := ?m3\<rparr>"
        have g3: "agree (- ?F2) ?m2 (mem s3)" using s3(5) by simp
        have f3: "agree (- ?S) (mem s3) ?m3" by (rule task_step_frame)
        have al3: "allocator (?F2 - area 0 root) ?t" by (rule write_task_ok [OF pt_invD(1) [OF s3(4)] _ f3]) (use S in blast)
        have k: "agree (pages {root}) (mem s3) (mem ?t)" using agree_mono [OF f3, of "pages {root}"] s3(3) S by fastforce
        note pt3 = pt_inv_frame [OF s3(4) al3 order_refl k, simplified]
        have a3: "agree ?S (set_t_page_table ?task root (set_t_kernel_stack ?task ?stack ?m1)) ?m3"
          by (rule task_step_cong(3) [OF agree_trans [OF a2 agree_mono [OF g3]]]) (use S in blast)
        have o3: "agree (- F) (mem s) ?m3"
          by (rule agree_trans [OF o2 agree_trans [OF agree_mono [OF g3] agree_mono [OF f3]]])
            (use blk(1) s1(3) in blast)+
        have r3: "same_rest (s\<lparr>next_task_id := ?pid + 1\<rparr>) ?t" by (rule same_rest_trans [OF same_rest_trans [OF r2 s3(6)]]) simp
        have "task_staffed F parent s ?task ?stack root ?t"
          using s1(2,3) s2(3) s3(3,7) pt3 a3 o3 r3 unfolding task_staffed_def by auto
        moreover have "\<exists>k. ?run = kbind (task_init_sched G ?task) (\<lambda>ret. if ret \<noteq> 0 then k ret else kreturn ?task) ?t"
          using s1(1) blk(2) id s2(1) area_ok_nonzero [OF s2(2)] s3(1) area_ok_nonzero [OF s3(2)]
          by (simp add: task_create_def kbind_Inr kthen_Inr write_mem_def task_named_def Let_def) (rule exI, rule refl)
        ultimately show ?thesis by blast
      qed
    qed
  qed
qed

lemma task_create_ok:
  assumes al: "allocator F s" and ne: "\<not> early s" and rep: "list_rep q (mem s) (sym_tasks G) ts"
    and cells: "list_cells (sym_tasks G) ts \<inter> F = {}"
  shows "covered 3 F \<and> task_create G parent s = Some (Inl ''out of memory'') \<or>
    (\<exists>task stack root nd F' t. task_create G parent s = Some (Inr (task, t)) \<and> created G F ts parent s task stack root nd F' t)"
proof -
  let ?l = "sym_tasks G" and ?pid = "next_task_id s" and ?run = "task_create G parent s"
  from task_staffed_ok [OF al ne, of G parent] show ?thesis
  proof (elim disjE exE conjE)
    assume "covered 2 F" "?run = Some (Inl ''out of memory'')"
    then show ?thesis using covered_mono [of 2 F 3] by simp
  next
    fix task stack root u k
    assume st: "task_staffed F parent s task stack root u"
      and run: "?run = kbind (task_init_sched G task) (\<lambda>ret. if ret \<noteq> 0 then k ret else kreturn task) u"
    obtain a m where a: "task = a + 4" "area_ok 0 a" "area 0 a \<subseteq> F" "area 0 stack \<subseteq> F - area 0 a"
      "area 0 root \<subseteq> F - area 0 a - area 0 stack" "pt_inv root (F - area 0 a - area 0 stack - area 0 root) {root} u"
      "agree (span task 592) (set_t_page_table task root (set_t_kernel_stack task stack (task_named task ?pid parent m))) (mem u)"
      "\<forall>va. lookup (mem u) root va = kernel_lookup va" "agree (- F) (mem s) (mem u)"
      "same_rest (s\<lparr>next_task_id := ?pid + 1\<rparr>) u"
      using st unfolding task_staffed_def by blast
    let ?F3 = "F - area 0 a - area 0 stack - area 0 root" and ?S = "span task 592"
    note blk = task_block [OF a(2), folded a(1)]
    have l: "agree (list_cells ?l ts) (mem s) (mem u)" by (rule agree_mono [OF a(9)]) (use cells in blast)
    note R = list_rep_agree [OF l rep]
    have off: "list_cells ?l ts \<inter> ?F3 = {}" "?S \<inter> (?F3 \<union> list_cells ?l ts) = {}" using cells blk(1) a(3) by blast+
    have stack: "t_kernel_stack (mem u) task = stack"
      using agree_load64 [OF a(7) span_shift_subset [of 40 8 592 task]]
      by (simp add: t_kernel_stack_def set_t_page_table_def set_t_kernel_stack_def load64_store64_other span_disjoint_offsets add.assoc)
    from task_init_sched_ok [OF pt_invD(1) [OF a(6)] R(1) off] show ?thesis
    proof (elim disjE exE conjE)
      assume e: "?F3 = {}" "task_init_sched G task u = Some (Inl ''out of memory'')"
      then have "F \<subseteq> area 0 stack \<union> pages {a, root}" by auto
      moreover have "card {a, root} \<le> 2" by (simp add: card_insert_if)
      ultimately have "covered (1 + 2) F" by (intro covered_add [OF covered_area [OF order_refl]]) simp_all
      then have "covered 3 F" by (rule covered_mono) simp
      then show ?thesis using e(2) by (simp add: run kbind_Inl)
    next
      fix nd t
      assume t: "task_init_sched G task u = Some (Inr (0, t))" "node_page nd \<subseteq> ?F3" "span nd 32 \<subseteq> node_page nd"
        "allocator (?F3 - node_page nd) t" "list_rep (if ts = [] then 0 else q) (mem t) ?l (ts @ [nd])"
        "map (n_value (mem t)) (ts @ [nd]) = map (n_value (mem u)) ts @ [task]"
        "agree ?S (set_t_sched task nd (task_set_up G task (t_kernel_stack (mem u) task) (mem u))) (mem t)"
        "agree (- (?F3 \<union> list_cells ?l ts \<union> ?S)) (mem u) (mem t)" "same_rest u t"
      have "agree ?S (task_written G task ?pid parent stack root nd m) (mem t)"
        unfolding task_written_def
        by (rule agree_trans [OF task_step_cong(5) [OF task_step_cong(4) [OF a(7)]] t(7) [unfolded stack]])
      note ag592 = this
      have part: "span task 24 \<union> span (task + 40) 288 \<subseteq> ?S" using span_mono [of 24 592 task] span_shift_subset [of 40 288 592 task] by simp
      note new = new_task_agree [OF agree_mono [OF ag592 part] task_written_fields(1)] new_list_agree [OF ag592 task_written_fields(2,3) blk(4)]
      have "agree (pages {root}) (mem u) (mem t)" by (rule agree_mono [OF t(8)]) (use a(5) blk(1) cells a(3) in fastforce)
      note pt = pt_inv_frame [OF a(6) t(4) Diff_subset this same_rest_early [OF t(9)]]
      have "agree (- (F \<union> list_cells ?l ts)) (mem s) (mem t)"
        by (rule agree_trans [OF agree_mono [OF a(9)] agree_mono [OF t(8)]]) (use blk(1) a(3) in blast)+
      moreover have "same_rest (s\<lparr>next_task_id := ?pid + 1\<rparr>) t" by (rule same_rest_trans [OF a(10) t(9)])
      moreover have "F - (area 0 a \<union> area 0 stack \<union> area 0 root \<union> node_page nd) = ?F3 - node_page nd" by blast
      moreover have "map (n_value (mem t)) (ts @ [nd]) = map (n_value (mem s)) ts @ [task]" using t(6) R(2) by simp
      moreover have e4: "task - 4 = a" using a(1) by simp
      moreover have "area 0 a \<union> area 0 stack \<union> area 0 root \<union> node_page nd \<subseteq> F" "area 0 root \<inter> (area 0 a \<union> node_page nd) = {}"
        "area 0 a \<inter> node_page nd = {}" using a(3-5) t(2) by blast+
      moreover have "\<forall>va. lookup (mem t) root va = kernel_lookup va" using pt(2) a(8) by simp
      ultimately have "created G F ts parent s task stack root nd (?F3 - node_page nd) t"
        unfolding created_def e4 using blk(1-3) t(3) new pt(1) t(5) by (intro conjI exI) (assumption | simp)+
      moreover have "?run = Some (Inr (task, t))" unfolding run using t(1) by (simp add: kbind_Inr)
      ultimately show ?thesis by blast
    qed
  qed
qed


subsection \<open>The child\<close>

lemma created_image:
  assumes c: "created G F ts parent s task stack root nd F' t"
    and Z: "Z \<inter> F = {}" and cells: "list_cells (sym_tasks G) ts \<inter> F = {}"
  shows "image_inv root (t_vm_areas task) (Z \<union> task_cells task \<union> list_cells (sym_tasks G) (ts @ [nd])) F' {root} [] [] t"
proof -
  let ?l = "t_vm_areas task" and ?A = "area 0 (task - 4)"
  have C: "?A \<union> area 0 stack \<union> area 0 root \<union> node_page nd \<subseteq> F" "F' = F - (?A \<union> area 0 stack \<union> area 0 root \<union> node_page nd)"
    "span task 592 \<subseteq> ?A" "span nd 32 \<subseteq> node_page nd" "area 0 root \<inter> (?A \<union> node_page nd) = {}" "?A \<inter> node_page nd = {}"
    "list_rep 0 (mem t) ?l []" "pt_inv root F' {root} t" "\<forall>va. lookup (mem t) root va = kernel_lookup va"
    using c unfolding created_def by blast+
  have l: "list_cells ?l [] = span ?l 16" "span ?l 16 \<subseteq> ?A" "task_cells task \<subseteq> ?A" "task_cells task \<inter> span ?l 16 = {}"
    using C(3) task_cells_parts(1,2) span_shift_subset [of 24 16 592 task] unfolding t_vm_areas_def list_cells_def by auto
  have "vm_areas F' 0 (mem t) ?l [] []" using C(2,7) l(1,2) by (auto simp: vm_areas_def)
  moreover have "span ?l 16 \<inter> area 0 root = {}" using l(2) C(5) by blast
  moreover have "list_cells (sym_tasks G) (ts @ [nd]) \<inter> (F' \<union> area 0 root \<union> span ?l 16) = {}"
  proof -
    have "span nd 32 \<inter> (F' \<union> area 0 root \<union> span ?l 16) = {}" using C(2,4-6) l(2) by blast
    moreover have "list_cells (sym_tasks G) ts \<inter> (F' \<union> area 0 root \<union> span ?l 16) = {}" using C(1,2) l(2) cells by blast
    ultimately show ?thesis unfolding list_cells_snoc by blast
  qed
  moreover have "(Z \<union> task_cells task) \<inter> (F' \<union> area 0 root \<union> span ?l 16) = {}" using C(1,2,5) l(2-4) Z by blast
  ultimately show ?thesis using C(8,9) kernel_lookup_cases(3) l(1) unfolding image_inv_def image_cells_def by auto
qed

text \<open>The child may be written in its own structure while its address space stays as it is.\<close>

lemma image_inv_own:
  assumes inv: "image_inv root l Z F P xs ars s" and ag: "agree (- Z) (mem s) m"
  shows "image_inv root l Z F P xs ars (s\<lparr>mem := m\<rparr>)" and "lookup m root va = lookup (mem s) root va"
    and "va < SPLIT \<Longrightarrow> sees (mem s) root va fl b \<Longrightarrow> sees m root va fl b"
proof -
  have "Z \<inter> image_cells l F P xs = {}" using inv by (simp add: image_inv_def)
  note W = image_inv_write [OF inv ag this]
  show "image_inv root l Z F P xs ars (s\<lparr>mem := m\<rparr>)" "lookup m root va = lookup (mem s) root va" by (rule W)+
  assume va: "va < SPLIT" "sees (mem s) root va fl b"
  show "sees m root va fl b" by (rule W(3) [OF va(2)]) (use image_inv_away [OF inv va(1)] in blast)
qed

text \<open>The child's registers are the parent's, but \<open>a0\<close> is 0.\<close>

definition frame_forked :: "memory \<Rightarrow> u64 \<Rightarrow> memory \<Rightarrow> u64 \<Rightarrow> bool" where
  "frame_forked m parent m' child \<longleftrightarrow>
     cpu_pc m' (t_user_frame child) = cpu_pc m (t_user_frame parent) \<and>
     (\<forall>r<32. cpu_register m' (t_user_frame child) r = (if r = REG_A0 then 0 else cpu_register m (t_user_frame parent) r))"

definition child_written :: "u64 \<Rightarrow> u64 \<Rightarrow> memory \<Rightarrow> memory" where
  "child_written parent child m = set_cpu_register (t_user_frame child) REG_A0 0 (copy_cpu (t_user_frame child) (t_user_frame parent) m)"

lemma child_written_ok:
  "frame_forked m parent (child_written parent child m) child"
  "agree (- span (t_user_frame child) 264) m (child_written parent child m)"
proof -
  let ?c = "t_user_frame child" and ?p = "t_user_frame parent"
  let ?m = "copy_cpu ?c ?p m"
  have ld: "load64 ?m (?c + i) = load64 m (?p + i)" if "unat i + 8 \<le> 264" for i
    unfolding load64_def copy_cpu_def using copy_bytes_load [OF that, of ?c ?p m] by simp
  have r: "load64 (child_written parent child m) (?c + i) = load64 m (?p + i)"
    if "unat i + 8 \<le> 264" "span (?c + 80) 8 \<inter> span (?c + i) 8 = {}" for i
    unfolding child_written_def set_cpu_register_def using that by (simp add: REG_A0_def load64_store64_other ld)
  have "cpu_register (child_written parent child m) ?c r = (if r = REG_A0 then 0 else cpu_register m ?p r)" if "r < 32" for r
  proof (cases "r = REG_A0")
    case True
    then show ?thesis by (simp add: child_written_def set_cpu_register_def cpu_register_def)
  next
    case False
    have u: "unat (8 * of_nat r :: u64) = 8 * r" using that by (simp add: unat_word_ariths unat_of_nat)
    have "\<forall>r\<in>set [0..<32]. r \<noteq> 10 \<longrightarrow> 8 \<le> unat (8 * of_nat r - 80 :: u64) \<and> 8 \<le> unat (80 - 8 * of_nat r :: u64)"
      by (simp add: upt_rec)
    then have "span (?c + 80) 8 \<inter> span (?c + 8 * of_nat r) 8 = {}"
      using that False by (intro span_disjoint_offsets) (simp_all add: REG_A0_def)
    with False r [of "8 * of_nat r"] that u show ?thesis by (simp add: cpu_register_def)
  qed
  then show "frame_forked m parent (child_written parent child m) child"
    using r [of 256] by (simp add: frame_forked_def cpu_pc_def span_disjoint_offsets)
  have "span (?c + 80) 8 \<subseteq> span ?c 264" by (rule span_shift_subset) simp
  then have "agree (- span ?c 264) ?m (child_written parent child m)"
    unfolding child_written_def set_cpu_register_def REG_A0_def by (intro agree_sym [OF agree_store64]) auto
  then show "agree (- span ?c 264) m (child_written parent child m)" using agree_trans [OF copy_cpu_frame] by blast
qed

lemma fork_call:
  assumes "task_create G (current_task s) s = Some (Inr (child, t1))" and "\<not> IS_ERR child"
    and "vm_clone G (t_vm_areas (current_task s)) child t1 = Some (Inr (0, t2))"
  shows "sys_fork G s = Some (Inr (Done (t_pid (child_written (current_task s) child (mem t2)) child),
    t2\<lparr>mem := child_written (current_task s) child (mem t2)\<rparr>))"
  using assms by (simp add: sys_fork_def task_clone_def kbind_Inr kthen_Inr write_mem_def child_written_def)

lemma source_area_mono:
  assumes "source_area r Z m b" and "Z \<subseteq> Z'"
  shows "source_area r Z' m b"
proof -
  have "readable m r Z' va" if "readable m r Z va" for va using that assms(2) unfolding readable_def by blast
  with assms show ?thesis unfolding source_area_def by blast
qed

text \<open>
  A task that can be forked: its structure, its table, its areas and the frames of their pages lie in
  \<open>Z\<close>, apart from the free memory, the run queue and \<open>page_fault_handler\<close>; the areas are apart, and all their pages are there.
\<close>

definition forkable :: "symbols \<Rightarrow> u64 set \<Rightarrow> u64 set \<Rightarrow> u64 list \<Rightarrow> u64 \<Rightarrow> u64 list \<Rightarrow> 'a sched_state_scheme \<Rightarrow> bool" where
  "forkable G Z F ts r bs s \<longleftrightarrow>
     Z \<inter> (F \<union> list_cells (sym_tasks G) ts \<union> handler_span G) = {} \<and> active_root s = r \<and> (\<exists>Q. parent_inv r Z Q (mem s)) \<and>
     (\<exists>q ps. list_rep q (mem s) (t_vm_areas (current_task s)) ps \<and> list_cells (t_vm_areas (current_task s)) ps \<subseteq> Z \<and>
        map (n_value (mem s)) ps = bs) \<and>
     span (t_user_frame (current_task s)) 264 \<subseteq> Z \<and>
     (\<forall>b\<in>set bs. source_area r Z (mem s) b) \<and> sorted_wrt (apart_areas (mem s)) bs"

text \<open>The address space and the registers of the child.\<close>

definition forked ::
  "symbols \<Rightarrow> u64 set \<Rightarrow> u64 set \<Rightarrow> u64 list \<Rightarrow> u64 \<Rightarrow> u64 list \<Rightarrow> 'a sched_state_scheme \<Rightarrow> u64 \<Rightarrow> u64 \<Rightarrow> 'a sched_state_scheme \<Rightarrow> bool" where
  "forked G Z F ts r bs s child root t \<longleftrightarrow>
     (\<exists>F' P' ns cs. image_inv root (t_vm_areas child) Z F' P' ns cs t \<and> F' \<subseteq> F \<and> list_all2 (area_copy (mem s) (mem t)) bs cs) \<and>
     (\<forall>b\<in>set bs. area_seen (mem s) r (mem t) root b) \<and>
     (\<forall>va. (\<forall>b\<in>set bs. unat (va_vpn va) \<notin> area_vpns (mem s) b) \<longrightarrow> lookup (mem t) root va = kernel_lookup va) \<and>
     frame_forked (mem s) (current_task s) (mem t) child"

lemma forkable_created:
  assumes fk: "forkable G Z F ts r bs s" and c: "created G F ts parent s child stack root nd F' t"
  defines "Z' \<equiv> Z \<union> task_cells child \<union> list_cells (sym_tasks G) (ts @ [nd])"
  shows "agree Z (mem s) (mem t)" and "active_root t = r" and "\<exists>Q. parent_inv r Z' Q (mem t)"
    and "\<exists>q ps. list_rep q (mem t) (t_vm_areas (current_task s)) ps \<and> list_cells (t_vm_areas (current_task s)) ps \<subseteq> Z' \<and>
      map (n_value (mem t)) ps = bs"
    and "\<forall>b\<in>set bs. source_area r Z' (mem t) b" and "sorted_wrt (apart_areas (mem t)) bs"
    and "clone_need (mem t) bs = clone_need (mem s) bs"
    and "\<forall>b\<in>set bs. area_copy (mem t) m' b = area_copy (mem s) m' b \<and> area_vpns (mem t) b = area_vpns (mem s) b \<and>
      area_seen (mem t) r m' root' b = area_seen (mem s) r m' root' b"
proof -
  obtain Q q ps where P: "Z \<inter> (F \<union> list_cells (sym_tasks G) ts) = {}" "active_root s = r" "parent_inv r Z Q (mem s)"
    "list_rep q (mem s) (t_vm_areas (current_task s)) ps" "list_cells (t_vm_areas (current_task s)) ps \<subseteq> Z"
    "map (n_value (mem s)) ps = bs" "\<forall>b\<in>set bs. source_area r Z (mem s) b" "sorted_wrt (apart_areas (mem s)) bs"
    using fk unfolding forkable_def by blast
  have C: "agree (- (F \<union> list_cells (sym_tasks G) ts)) (mem s) (mem t)" "same_rest (s\<lparr>next_task_id := next_task_id s + 1\<rparr>) t"
    using c unfolding created_def by blast+
  show ag: "agree Z (mem s) (mem t)" by (rule agree_mono [OF C(1)]) (use P(1) in blast)
  have "rest_or_closed (s\<lparr>next_task_id := next_task_id s + 1\<rparr>) t" using C(2) by (simp add: rest_or_closed_def)
  from rest_or_closed_facts(2) [OF this] show "active_root t = r" using P(2) by (simp add: active_root_def)
  have Z: "Z \<subseteq> Z'" by (auto simp: Z'_def)
  show "\<exists>Q. parent_inv r Z' Q (mem t)" using parent_frame(1) [OF P(3) ag] Z unfolding parent_inv_def by blast
  have "agree (list_cells (t_vm_areas (current_task s)) ps) (mem s) (mem t)" by (rule agree_mono [OF ag P(5)])
  note R = list_rep_agree(1,2) [OF this P(4)]
  show "\<exists>q ps. list_rep q (mem t) (t_vm_areas (current_task s)) ps \<and> list_cells (t_vm_areas (current_task s)) ps \<subseteq> Z' \<and>
      map (n_value (mem t)) ps = bs" using R P(5,6) Z by blast
  note S = source_agree [OF P(3) ag]
  show "\<forall>b\<in>set bs. source_area r Z' (mem t) b" using P(7) S(1) source_area_mono [OF _ Z] by blast
  show "sorted_wrt (apart_areas (mem t)) bs"
    using P(8) by (rule sorted_wrt_mono_rel [rotated]) (use S(5) P(7) in \<open>auto simp: apart_areas_def\<close>)
  show "clone_need (mem t) bs = clone_need (mem s) bs" using S(3) P(7) by (simp add: clone_need_def cong: map_cong)
  show "\<forall>b\<in>set bs. area_copy (mem t) m' b = area_copy (mem s) m' b \<and> area_vpns (mem t) b = area_vpns (mem s) b \<and>
      area_seen (mem t) r m' root' b = area_seen (mem s) r m' root' b" using S(2-6) P(7) by (simp add: area_copy_def fun_eq_iff)
qed

lemma frame_forked_agree:
  assumes "agree (span (t_user_frame p) 264) m m2" and "frame_forked m2 p m' c"
  shows "frame_forked m p m' c"
proof -
  have l: "load64 m (t_user_frame p + i) = load64 m2 (t_user_frame p + i)" if "unat i + 8 \<le> 264" for i
    by (rule agree_load64 [OF assms(1) span_shift_subset [OF that]])
  have "cpu_register m (t_user_frame p) r = cpu_register m2 (t_user_frame p) r" if "r < 32" for r
    unfolding cpu_register_def by (rule l) (use that in \<open>simp add: unat_word_ariths unat_of_nat\<close>)
  then show ?thesis using assms(2) l [of 256] by (simp add: frame_forked_def cpu_pc_def)
qed

text \<open>The last step: the registers are written into the child.\<close>

lemma handler_apart:
  assumes c: "created G F ts parent s child stack root nd F' t" and H: "handler_span G \<inter> (F \<union> list_cells (sym_tasks G) ts) = {}"
  shows "handler_span G \<inter> (task_cells child \<union> list_cells (sym_tasks G) (ts @ [nd])) = {}"
proof -
  have "task_cells child \<subseteq> span child 592" by (rule task_cells_parts(1))
  moreover have "span child 592 \<subseteq> F" "span nd 32 \<subseteq> F" using c unfolding created_def by blast+
  ultimately show ?thesis using H unfolding list_cells_snoc by blast
qed

lemma fork_child_ok:
  assumes fk: "forkable G Z F ts r bs s" and c: "created G F ts (current_task s) s child stack root nd F1 t1"
    and cells: "list_cells (sym_tasks G) ts \<inter> F = {}" and H: "handler_span G \<inter> (F \<union> list_cells (sym_tasks G) ts) = {}"
    and step: "clone_step (handler_span G) root (t_vm_areas child)
      (Z \<union> handler_span G \<union> task_cells child \<union> list_cells (sym_tasks G) (ts @ [nd])) F1 {root} [] t1 F2 P2 ns cs t2"
    and copy: "list_all2 (area_copy (mem t1) (mem t2)) bs cs" "\<forall>c\<in>set cs. span c 40 \<subseteq> F1"
    and seen: "\<forall>b\<in>set bs. area_seen (mem t1) r (mem t2) root b"
    and others: "\<forall>va. (\<forall>b\<in>set bs. unat (va_vpn va) \<notin> area_vpns (mem t1) b) \<longrightarrow> lookup (mem t2) root va = lookup (mem t1) root va"
  defines "t \<equiv> t2\<lparr>mem := child_written (current_task s) child (mem t2)\<rparr>"
  shows "forked G Z F ts r bs s child root t" and "agree (task_cells child - span (t_user_frame child) 264) (mem t1) (mem t)"
    and "agree (list_cells (sym_tasks G) (ts @ [nd])) (mem t1) (mem t)"
    and "agree (- (F \<union> list_cells (sym_tasks G) ts \<union> handler_span G)) (mem s) (mem t)" and "rest_or_closed (s\<lparr>next_task_id := next_task_id s + 1\<rparr>) t"
proof -
  let ?l = "sym_tasks G" and ?p = "current_task s" and ?la = "t_vm_areas child" and ?W = "span (t_user_frame child) 264"
  let ?Z = "Z \<union> task_cells child \<union> list_cells ?l (ts @ [nd])" and ?H = "handler_span G" and ?m = "child_written ?p child (mem t2)"
  note K = forkable_created [OF fk c]
  let ?ZH = "Z \<union> ?H \<union> task_cells child \<union> list_cells ?l (ts @ [nd])"
  have ZF: "Z \<inter> F = {}" "span (t_user_frame ?p) 264 \<subseteq> Z" "Z \<inter> list_cells ?l ts = {}" "Z \<inter> ?H = {}" using fk unfolding forkable_def by blast+
  have C: "F1 \<subseteq> F" "\<forall>va. lookup (mem t1) root va = kernel_lookup va" "same_rest (s\<lparr>next_task_id := next_task_id s + 1\<rparr>) t1"
    "agree (- (F \<union> list_cells ?l ts)) (mem s) (mem t1)" "area 0 (child - 4) \<subseteq> F" "area 0 root \<subseteq> F"
    "span child 592 \<subseteq> area 0 (child - 4)" "area 0 (child - 4) \<inter> F1 = {}" "area 0 (child - 4) \<inter> span nd 32 = {}"
    using c unfolding created_def by blast+
  have "(Z \<union> ?H) \<inter> F = {}" using ZF(1) H by blast
  note inv = created_image [OF c this cells]
  have S: "image_inv root ?la ?ZH F2 P2 ns cs t2" "F2 \<subseteq> F1" "agree (- (image_cells ?la F1 {root} [] \<union> ?H)) (mem t1) (mem t2)" "rest_or_closed t1 t2"
    using step by (simp_all add: clone_step_def)
  have dis: "?ZH \<inter> image_cells ?la F1 {root} [] = {}" using inv by (simp add: image_inv_def)
  have in_F: "image_cells ?la F1 {root} [] \<subseteq> F"
    using C(1,5-7) span_shift_subset [of 24 16 592 child] by (auto simp: image_cells_def list_cells_def t_vm_areas_def)
  have out: "?Z \<inter> ?H = {}" using ZF(4) H handler_apart [OF c H] by blast
  have ag: "agree ?Z (mem t1) (mem t2)" by (rule agree_mono [OF S(3)]) (use dis out in blast)
  have W: "?W \<subseteq> task_cells child" "?W \<subseteq> F" "?W \<inter> F1 = {}" "?W \<inter> list_cells ?l (ts @ [nd]) = {}"
    using task_cells_parts(1,4) [of child] C(5,7-9) cells unfolding list_cells_snoc by blast+
  note w = child_written_ok(2) [of child "mem t2" ?p]
  have mt: "mem t = ?m" by (simp add: t_def)
  have wZ: "agree (- ?ZH) (mem t2) ?m" by (rule agree_mono [OF w]) (use W(1) in blast)
  note T = image_inv_own [OF S(1) wZ, folded t_def]
  have "image_inv root ?la Z F2 P2 ns cs t" using T(1) unfolding image_inv_def by blast
  moreover have "list_all2 (area_copy (mem s) ?m) bs cs"
  proof (rule list.rel_mono_strong [OF copy(1)])
    fix b k assume b: "b \<in> set bs" "k \<in> set cs" "area_copy (mem t1) (mem t2) b k"
    have "span k 24 \<subseteq> F1" using copy(2) b(2) span_mono [of 24 40 k] by auto
    then have "agree (span k 24) (mem t2) ?m" by (intro agree_mono [OF w]) (use W(3) in blast)
    then show "area_copy (mem s) ?m b k" using b K(8) area_loaded_frame by (simp add: area_copy_def)
  qed
  moreover have "\<forall>b\<in>set bs. area_seen (mem s) r ?m root b"
  proof
    fix b assume b: "b \<in> set bs"
    then have "area_seen (mem t1) r ?m root b"
      using seen K(5) T(3) source_vpn(2) [of r ?Z "mem t1" b] by (simp add: area_seen_def)
    then show "area_seen (mem s) r ?m root b" using K(8) b by simp
  qed
  moreover have "frame_forked (mem s) ?p ?m child"
  proof (rule frame_forked_agree [OF _ child_written_ok(1)])
    show "agree (span (t_user_frame ?p) 264) (mem s) (mem t2)"
      by (rule agree_trans [OF agree_mono [OF K(1)] agree_mono [OF ag]]) (use ZF(2) in blast)+
  qed
  moreover have "\<forall>va. (\<forall>b\<in>set bs. unat (va_vpn va) \<notin> area_vpns (mem s) b) \<longrightarrow> lookup ?m root va = kernel_lookup va"
    using others K(8) T(2) C(2) by simp
  moreover have "F2 \<subseteq> F" using S(2) C(1) by blast
  ultimately show "forked G Z F ts r bs s child root t" unfolding forked_def mt by blast
  show "agree (task_cells child - ?W) (mem t1) (mem t)" "agree (list_cells ?l (ts @ [nd])) (mem t1) (mem t)"
    unfolding mt by (rule agree_trans [OF agree_mono [OF ag] agree_mono [OF w]], blast, use W(4) in blast)+
  show "agree (- (F \<union> list_cells ?l ts \<union> ?H)) (mem s) (mem t)" unfolding mt
    by (rule agree_trans [OF agree_mono [OF C(4)] agree_trans [OF agree_mono [OF S(3)] agree_mono [OF w]]]) (use in_F W(2) in blast)+
  have "rest_or_closed (s\<lparr>next_task_id := next_task_id s + 1\<rparr>) t1" "rest_or_closed t2 t" using C(3) by (simp_all add: rest_or_closed_def t_def)
  then show "rest_or_closed (s\<lparr>next_task_id := next_task_id s + 1\<rparr>) t" using S(4) rest_or_closed_trans by blast
qed

subsection \<open>Fork\<close>

text \<open>
  Property C2. The system call \<open>fork\<close> of a task whose areas have all their pages, readable: either memory
  runs out, which happens only if the free memory fits in four pages for every page of the parent, two
  for every area and four more, or the parent gets the new identifier; the child is a new task that
  starts in the kernel's \<open>task_entry\<close> and is the last of the run queue; its registers are the parent's
  with \<open>a0 = 0\<close>; it has an area for each of the parent's and sees in it, through its own table and in its
  own frames, the parent's bytes; elsewhere its table has the kernel's mappings only; and no memory changes but the free memory, the run queue
  and \<open>page_fault_handler\<close>, where the copies of the pages store the kernel's registers, so that the parent is as it was.
\<close>

theorem fork_correct:
  assumes al: "allocator F s" and ne: "\<not> early s" and rep: "list_rep q (mem s) (sym_tasks G) ts"
    and cells: "list_cells (sym_tasks G) ts \<inter> F = {}" and fk: "forkable G Z F ts r bs s"
    and H: "handler_span G \<inter> (F \<union> list_cells (sym_tasks G) ts) = {}"
  shows "covered (clone_need (mem s) bs + 4) F \<and> sys_fork G s = Some (Inl ''out of memory'') \<or>
    (\<exists>child stack root nd t. sys_fork G s = Some (Inr (Done (next_task_id s), t)) \<and>
       new_task G (mem t) child (next_task_id s) (current_task s) stack root nd \<and>
       forked G Z F ts r bs s child root t \<and>
       (\<exists>q. list_rep q (mem t) (sym_tasks G) (ts @ [nd])) \<and>
       map (n_value (mem t)) (ts @ [nd]) = map (n_value (mem s)) ts @ [child] \<and>
       agree (- (F \<union> list_cells (sym_tasks G) ts \<union> handler_span G)) (mem s) (mem t) \<and> rest_or_closed (s\<lparr>next_task_id := next_task_id s + 1\<rparr>) t)"
proof -
  let ?l = "sym_tasks G" and ?p = "current_task s" and ?id = "next_task_id s"
  from task_create_ok [OF al ne rep cells, of ?p] show ?thesis
  proof (elim disjE exE conjE)
    assume "covered 3 F" "task_create G ?p s = Some (Inl ''out of memory'')"
    then show ?thesis using covered_mono [of 3 F "clone_need (mem s) bs + 4"]
      by (simp add: sys_fork_def task_clone_def kbind_Inl kbind_Inr)
  next
    fix child stack root nd F1 t1
    assume cr: "task_create G ?p s = Some (Inr (child, t1))" and c: "created G F ts ?p s child stack root nd F1 t1"
    let ?Z = "Z \<union> task_cells child \<union> list_cells ?l (ts @ [nd])" and ?la = "t_vm_areas child"
    note K = forkable_created [OF fk c]
    let ?ZH = "Z \<union> handler_span G \<union> task_cells child \<union> list_cells ?l (ts @ [nd])"
    have ZF: "Z \<inter> F = {}" "span (t_user_frame ?p) 264 \<subseteq> Z" "Z \<inter> handler_span G = {}" using fk unfolding forkable_def by blast+
    have cut: "?ZH - handler_span G = ?Z" using ZF(3) handler_apart [OF c H] by blast
    have C: "new_task G (mem t1) child ?id ?p stack root nd" "\<not> IS_ERR child" "F1 \<subseteq> F"
      "\<forall>va. lookup (mem t1) root va = kernel_lookup va" "same_rest (s\<lparr>next_task_id := ?id + 1\<rparr>) t1"
      "agree (- (F \<union> list_cells ?l ts)) (mem s) (mem t1)"
      "area 0 (child - 4) \<union> area 0 stack \<union> area 0 root \<union> node_page nd \<subseteq> F" "span child 592 \<subseteq> area 0 (child - 4)"
      "F1 = F - (area 0 (child - 4) \<union> area 0 stack \<union> area 0 root \<union> node_page nd)"
      "span nd 32 \<subseteq> node_page nd" "area 0 (child - 4) \<inter> node_page nd = {}"
      "\<exists>q. list_rep q (mem t1) ?l (ts @ [nd])" "map (n_value (mem t1)) (ts @ [nd]) = map (n_value (mem s)) ts @ [child]"
      using c unfolding created_def by blast+
    have "(Z \<union> handler_span G) \<inter> F = {}" using ZF(1) H by blast
    note inv = created_image [OF c this cells]
    have tab: "t_page_table (mem t1) child = root" using C(1) by (simp add: new_task_def)
    have own: "span (child + 48) 8 \<subseteq> ?Z" "handler_span G \<subseteq> ?ZH" using task_cells_parts(3) by blast+
    obtain Q q' ps where P: "parent_inv r ?Z Q (mem t1)" "list_rep q' (mem t1) (t_vm_areas ?p) ps"
      "list_cells (t_vm_areas ?p) ps \<subseteq> ?Z" "map (n_value (mem t1)) ps = bs" using K(3,4) by blast
    from vm_clone_ok [where G = G, unfolded cut, OF inv tab, unfolded cut, OF own(1) K(2) P K(5,6) own(2), unfolded K(7)] show ?thesis
    proof (elim disjE exE conjE)
      assume oom: "covered (clone_need (mem s) bs) F1" "vm_clone G (t_vm_areas ?p) child t1 = Some (Inl ''out of memory'')"
      have "card {child - 4, stack, root, nd - 4} \<le> 4" by (simp add: card_insert_if)
      then have "covered (clone_need (mem s) bs + 4) F"
        by (intro covered_add [OF oom(1), of F "{child - 4, stack, root, nd - 4}"]) (auto simp: C(9) node_page_def)
      then show ?thesis using oom(2) cr C(2) by (simp add: sys_fork_def task_clone_def kbind_Inl kbind_Inr)
    next
      fix t2 F2 P2 ns cs
      assume v: "vm_clone G (t_vm_areas ?p) child t1 = Some (Inr (0, t2))" "clone_step (handler_span G) root ?la ?ZH F1 {root} [] t1 F2 P2 ns cs t2"
        "list_all2 (area_copy (mem t1) (mem t2)) bs cs" "\<forall>c\<in>set cs. span c 40 \<subseteq> F1"
        "\<forall>b\<in>set bs. area_seen (mem t1) r (mem t2) root b"
        "\<forall>va. (\<forall>b\<in>set bs. unat (va_vpn va) \<notin> area_vpns (mem t1) b) \<longrightarrow> lookup (mem t2) root va = lookup (mem t1) root va"
      let ?t = "t2\<lparr>mem := child_written ?p child (mem t2)\<rparr>"
      note T = fork_child_ok [OF fk c cells H v(2-6)]
      have "agree (span child 24 \<union> span (child + 40) 288) (mem t1) (mem ?t)"
        by (rule agree_mono [OF T(2)]) (use task_cells_parts(5,6) [of child] in blast)
      note new = new_task_agree [OF this C(1)]
      have run: "sys_fork G s = Some (Inr (Done ?id, ?t))"
        using fork_call [OF cr C(2) v(1)] new by (simp add: new_task_def)
      obtain q2 where "list_rep q2 (mem t1) ?l (ts @ [nd])" using C(12) by blast
      note R = list_rep_agree(1,2) [OF T(3) this]
      have vals: "map (n_value (mem ?t)) (ts @ [nd]) = map (n_value (mem s)) ts @ [child]" using R(2) C(13) by simp
      show ?thesis by (intro disjI2 exI conjI) (fact run new T(1) R(1) vals T(4,5))+
    qed
  qed
qed


subsection \<open>A concrete parent\<close>

text \<open>
  The task of \<open>stack_memory\<close> as the running task: its one page is mapped, with a byte 42 in it, and the
  run queue, at \<open>0x3f00b00000\<close>, is empty.
\<close>

definition parent_memory :: memory where
  "parent_memory = stack_memory(0x3f00a00123 := 42)"

lemma parent_memory_agree: "agree (- span 0x3f00a00000 4096) stack_memory parent_memory" "agree initial_free (\<lambda>_. 0) parent_memory"
proof -
  have "0x3f00a00123 \<in> span (0x3f00a00000 :: u64) 4096" by (simp add: span_iff)
  then show ag: "agree (- span 0x3f00a00000 4096) stack_memory parent_memory" by (auto simp: agree_def parent_memory_def)
  have "span (0x3f00a00000 :: u64) 4096 \<inter> initial_free = {}" by (rule after_free_memory) simp_all
  then have "initial_free \<subseteq> - span 0x3f00a00000 4096" by blast
  then show "agree initial_free (\<lambda>_. 0) parent_memory" by (rule agree_trans [OF stack_memory_free agree_mono [OF ag]])
qed

definition sched_of :: "cpu_state \<Rightarrow> u64 \<Rightarrow> u64 \<Rightarrow> u64 \<Rightarrow> sched_state" where
  "sched_of s v node task = cpu_state.extend (s\<lparr>satp := v\<rparr>)
     \<lparr>next_task_id = 2, current_task_node = node, current_task = task, kernel_regs = replicate 32 0, sepc = 0\<rparr>"

lemma sched_of_fields [simp]:
  "mem (sched_of s v n k) = mem s" "buddy_pages (sched_of s v n k) = buddy_pages s" "early (sched_of s v n k) = early s"
  "next_task_id (sched_of s v n k) = 2" "current_task_node (sched_of s v n k) = n" "current_task (sched_of s v n k) = k"
  "active_root (sched_of s v n k) = active_root (s\<lparr>satp := v\<rparr>)"
  by (simp_all add: sched_of_def cpu_state.defs active_root_def)

lemma parent_table:
  obtains root Q F and s :: sched_state where "allocator F s" and "\<not> early s" and "active_root s = root" and "ptable 2 (mem s) root Q"
    and "pages Q \<inter> F = {}" and "pages Q \<subseteq> initial_free" and "F \<subseteq> initial_free" and "\<not> covered 10 F"
    and "agree (- (initial_free \<union> span 0x3f00800030 8)) parent_memory (mem s)" and "next_task_id s = 2" and "current_task s = 0x3f00800000"
    and "frame_at root 0x3eeffff000 0x1f 0x3f00a00000 (mem s)"
proof -
  have "span (0x3f00800000 + 48) 8 \<inter> initial_free = {}" by (rule after_free_memory) simp_all
  then obtain root and u :: cpu_state where u: "area 0 root \<subseteq> initial_free" "pt_inv root (initial_free - area 0 root) {root} u"
    "agree (- (initial_free \<union> span 0x3f00800030 8)) parent_memory (mem u)"
    by (rule fresh_process [OF parent_memory_agree(2)]) simp
  have a: "area_ok 0 0x3f00a00000" by (rule area_ok_compute) simp_all
  have va: "va_off (0x3eeffff000 :: u64) = 0" "unat (0x3eeffff000 :: u64) + 4096 \<le> 2 ^ 39" by (simp_all add: va_off_0)
  have fl: "take_bit 8 (0x1f :: u32) = 0x1f" "(0x1f :: u32) AND PTE_VALID \<noteq> 0" "pte_is_leaf 0x1f"
    by (simp_all add: pte_is_leaf_def)
  let ?F = "initial_free - area 0 root"
  have enough: "\<not> covered k ?F" if "k \<le> 700" for k by (rule enough_memory [OF that])
  from set_page_ok [OF u(2) va(1) pa_ram(2) [OF a] fl] show thesis
  proof (elim disjE exE conjE)
    fix b assume "?F \<subseteq> area 0 b"
    then show thesis using covered_area enough [of 1] by simp
  next
    fix t F P b c
    assume t: "pt_step root ?F {root} u F P t" "P \<subseteq> insert b (insert c {root})"
      "\<forall>va'. lookup (mem t) root va' = (if va_vpn va' = va_vpn 0x3eeffff000
        then Some (leaf_pa 0 (pa_ppn (PA_of 0x3f00a00000)) va', 0x1f) else lookup (mem u) root va')"
    have st: "pt_inv root F P t" "pages (P - {root}) \<subseteq> ?F" "F = ?F - pages (P - {root})" "agree (- (?F \<union> area 0 root)) (mem u) (mem t)"
      using t(1) unfolding pt_step_def by auto
    have "P - {root} \<subseteq> {b, c}" using t(2) by blast
    then have c2: "finite (P - {root})" "card (P - {root}) \<le> 2"
      using finite_subset card_mono [of "{b, c}" "P - {root}"] by (auto simp: card_insert_if split: if_splits)
    have "\<not> covered 10 F"
    proof
      assume "covered 10 F"
      then have "covered (10 + 2) ?F" by (rule covered_add) (use st(3) c2 in auto)
      then show False using enough [of 12] by simp
    qed
    moreover have "pages P \<subseteq> initial_free"
    proof -
      have "P \<subseteq> insert root (P - {root})" by blast
      from pages_mono [OF this] show ?thesis using st(2) u(1) unfolding pages_insert by blast
    qed
    moreover have early: "\<not> early t" and al: "allocator F t" and pt: "ptable 2 (mem t) root P" "pages P \<inter> F = {}"
      using st(1) by (simp_all add: pt_inv_def)
    moreover have "agree (- (initial_free \<union> span 0x3f00800030 8)) parent_memory (mem t)"
      by (rule agree_trans [OF u(3) agree_mono [OF st(4)]]) (use u(1) in blast)
    moreover have fr: "frame_at root 0x3eeffff000 0x1f 0x3f00a00000 (mem t)" by (rule frame_at_ok [OF a va]) (use t(3) in simp)
    moreover have "area_ok 0 root" using ptable_pages [OF pt(1)] by blast
    then obtain v where "active_root (t\<lparr>satp := v\<rparr>) = root" using write_satp_ok early by blast
    moreover have "allocator F (sched_of t v 0 0x3f00800000)" by (rule allocator_cong [OF _ _ al]) simp_all
    moreover have "F \<subseteq> initial_free" using st(3) by blast
    ultimately show thesis using that [of F "sched_of t v 0 0x3f00800000" root P] by simp
  qed
qed


lemma parent_forkable:
  assumes F: "F \<subseteq> initial_free" and root: "active_root s = root" "ptable 2 (mem s) root Q" "pages Q \<inter> F = {}" "pages Q \<subseteq> initial_free"
    and m: "agree (- (initial_free \<union> span 0x3f00800030 8)) parent_memory (mem s)" and cur: "current_task s = 0x3f00800000"
    and page: "frame_at root 0x3eeffff000 0x1f 0x3f00a00000 (mem s)" and G: "sym_tasks G = 0x3f00b00000"
    and H: "handler_span G = span 0x3f00b01000 264"
  shows "handler_span G \<inter> (F \<union> list_cells (sym_tasks G) []) = {}" and "forkable G (- (F \<union> span 0x3f00b00000 16 \<union> handler_span G)) F [] root [0x3f00900100] s" and "list_rep 0 (mem s) (sym_tasks G) []"
    and "list_cells (sym_tasks G) [] \<inter> F = {}" and "area_va (mem s) 0x3f00900100 = 0x3eeffff000" "area_n_pages (mem s) 0x3f00900100 = 1"
    and "user_mem (mem s) root 0x3eeffff123 = 42"
proof -
  let ?l = "t_vm_areas 0x3f00800000" and ?ar = "0x3f00900100 :: u64" and ?q = "span (0x3f00b00000 :: u64) 16" and ?fr = "span (0x3f00a00000 :: u64) 4096"
  let ?h = "span (0x3f00b01000 :: u64) 264"
  let ?cells = "span (0x3f00800018 :: u64) 16 \<union> span 0x3f00900000 0x300" and ?Z = "- (F \<union> span 0x3f00b00000 16 \<union> span 0x3f00b01000 264)" and ?uf = "span (0x3f00800148 :: u64) 264"
  have l: "?l = 0x3f00800018" by (simp add: t_vm_areas_def)
  have out: "?cells \<inter> initial_free = {}" "?fr \<inter> initial_free = {}" "?q \<inter> initial_free = {}" "?uf \<inter> initial_free = {}"
    unfolding Int_Un_distrib2 by (simp_all add: after_free_memory)
  have outh: "?h \<inter> initial_free = {}" by (rule after_free_memory) simp_all
  have dish: "?cells \<inter> ?h = {}" "?fr \<inter> ?h = {}" "?uf \<inter> ?h = {}" "?q \<inter> ?h = {}"
    unfolding Int_Un_distrib2 by (simp_all add: span_disjoint)
  show "handler_span G \<inter> (F \<union> list_cells (sym_tasks G) []) = {}"
    using outh F dish(4) unfolding H G list_cells_def by auto
  have dis: "?cells \<inter> (?q \<union> span 0x3f00800030 8 \<union> ?fr) = {}" "?fr \<inter> (?q \<union> span 0x3f00800030 8) = {}"
    "?q \<inter> (span 0x3f00800030 8 \<union> ?fr) = {}" "?uf \<inter> ?q = {}"
    unfolding Int_Un_distrib Int_Un_distrib2 by (simp_all add: span_disjoint)
  have ag: "agree (?cells \<union> ?q) stack_memory (mem s)"
    by (rule agree_trans [OF agree_mono [OF parent_memory_agree(1)] agree_mono [OF m]]) (use dis(1,3) out(1,3) in blast)+
  have inZ: "?cells \<subseteq> ?Z" using dis(1) dish(1) out(1) F by blast
  have frZ: "?fr \<subseteq> ?Z" using dis(3) dish(2) out(2) F by blast
  have ufZ: "?uf \<subseteq> ?Z" using dis(4) dish(3) out(4) F by blast
  note inZ = inZ frZ ufZ
  have sub: "span ?ar 40 \<subseteq> ?cells" "span 0x3f00900000 32 \<subseteq> ?cells"
    using span_shift_subset [of "0x100 :: u64" 40 768 "0x3f00900000"] span_mono [of 32 768 "0x3f00900000 :: u64"] by auto
  have "agree (span ?ar 40) stack_memory (mem s)" by (rule agree_mono [OF ag]) (use sub(1) in blast)
  note f = area_fields_agree [OF this, unfolded stack_memory_fields]
  show va: "area_va (mem s) ?ar = 0x3eeffff000" and n: "area_n_pages (mem s) ?ar = 1" using f by simp_all
  have lc: "list_cells ?l [0x3f00900000] \<subseteq> ?cells" using sub(2) unfolding l list_cells_def by auto
  have "agree (list_cells 0x3f00800018 [0x3f00900000]) stack_memory (mem s)" by (rule agree_mono [OF ag]) (use lc l in auto)
  note R = list_rep_agree(1,2) [OF this stack_memory_lists(1)]
  have list: "list_rep 0 (mem s) ?l [0x3f00900000]" "map (n_value (mem s)) [0x3f00900000] = [?ar]"
    using R stack_memory_fields(3) unfolding l by simp_all
  have rd: "readable (mem s) root ?Z (0x3eeffff000 + of_nat d)" if d: "d < 4096" for d
  proof -
    have "0x3f00a00000 + of_nat d \<in> ?fr" using d by (simp add: span_iff unat_of_nat)
    then show ?thesis using page d inZ(2) unfolding frame_at_def readable_def by fastforce
  qed
  have src: "\<forall>b\<in>set [?ar]. source_area root ?Z (mem s) b" using sub(1) inZ(1) va n rd by (auto simp: source_area_def va_off_0)
  have par: "parent_inv root ?Z Q (mem s)" using root(2-4) out(3) outh by (auto simp: parent_inv_def)
  have uf: "span (t_user_frame 0x3f00800000) 264 \<subseteq> ?Z" using inZ(3) by (simp add: t_user_frame_def)
  have lcZ: "list_cells ?l [0x3f00900000] \<subseteq> ?Z" using lc inZ(1) by blast
  have apart: "?Z \<inter> (F \<union> list_cells 0x3f00b00000 [] \<union> ?h) = {}" "sorted_wrt (apart_areas (mem s)) [?ar]" by (auto simp: list_cells_def)
  show "forkable G (- (F \<union> span 0x3f00b00000 16 \<union> handler_span G)) F [] root [?ar] s" unfolding forkable_def cur G H
    by (intro conjI exI) (fact apart root(1) par list lcZ uf src)+
  have "agree (list_cells 0x3f00b00000 []) stack_memory (mem s)" by (rule agree_mono [OF ag]) (simp add: list_cells_def)
  moreover have "list_rep 0 stack_memory 0x3f00b00000 []"
    by (simp add: list_rep_def separate_nodes_def l_first_def l_last_def stack_memory_word aligned_def take_bit_eq_mask mask_eq_exp_minus_1 span_disjoint)
  ultimately show "list_rep 0 (mem s) (sym_tasks G) []" unfolding G by (rule list_rep_agree(1))
  show "list_cells (sym_tasks G) [] \<inter> F = {}" using out(3) F unfolding G list_cells_def by auto
  obtain pa where "lookup (mem s) root 0x3eeffff123 = Some (pa, 0x1f)" "VA_of pa = 0x3f00a00123"
    using page unfolding frame_at_def by (auto dest!: spec [of _ "0x123 :: nat"])
  moreover have "agree ?fr parent_memory (mem s)" by (rule agree_mono [OF m]) (use out(2) dis(2) in blast)
  then have "mem s 0x3f00a00123 = parent_memory 0x3f00a00123" by (simp add: agree_def span_iff)
  ultimately show "user_mem (mem s) root 0x3eeffff123 = 42" by (simp add: user_mem_def parent_memory_def)
qed

text \<open>The child finds the byte 42 that the parent has in its page.\<close>

lemma fork_correct_witness:
  "\<exists>G (s :: sched_state) root t child. sys_fork G s = Some (Inr (Done 2, t)) \<and> current_task s = 0x3f00800000 \<and>
     t_pid (mem t) child = 2 \<and> t_parent (mem t) child = 0x3f00800000 \<and> cpu_register (mem t) (t_user_frame child) REG_A0 = 0 \<and>
     user_mem (mem s) root 0x3eeffff123 = 42 \<and> sees (mem t) (t_page_table (mem t) child) 0x3eeffff123 0x1f 42"
proof -
  let ?G = "\<lparr>sym_tasks = 0x3f00b00000, sym_wait_in = 0, sym_wait_out = 0, sym_trapframe = 0, sym_task_entry = 0,
    sym_setjmp_return = 0, sym_page_fault_handler = 0x3f00b01000, sym_trap_vector = 0, sym_fault_context = (\<lambda>regs _. (regs, 0)), sym_other_csr = (\<lambda>_. 0)\<rparr>" and ?ar = "0x3f00900100 :: u64"
  obtain root Q F and s :: sched_state where s: "allocator F s" "\<not> early s" "active_root s = root" "ptable 2 (mem s) root Q"
    "pages Q \<inter> F = {}" "pages Q \<subseteq> initial_free" "F \<subseteq> initial_free" "\<not> covered 10 F"
    "agree (- (initial_free \<union> span 0x3f00800030 8)) parent_memory (mem s)" "next_task_id s = 2" "current_task s = 0x3f00800000"
    "frame_at root 0x3eeffff000 0x1f 0x3f00a00000 (mem s)" by (rule parent_table)
  have G: "sym_tasks ?G = 0x3f00b00000" "handler_span ?G = span 0x3f00b01000 264" by (simp_all add: handler_span_def)
  note H = parent_forkable(1) [OF s(7,3-6,9,11,12) G]
  note P = parent_forkable(2-) [OF s(7,3-6,9,11,12) G]
  have "clone_need (mem s) [?ar] + 4 = 10" by (simp add: clone_need_def P(5))
  with fork_correct [OF s(1,2) P(2,3,1) H] s(8) obtain child stack nd root' t where
    t: "sys_fork ?G s = Some (Inr (Done 2, t))" "new_task ?G (mem t) child 2 0x3f00800000 stack root' nd"
      "forked ?G (- (F \<union> span 0x3f00b00000 16 \<union> handler_span ?G)) F [] root [?ar] s child root' t"
    unfolding s(10,11) by auto
  have "area_seen (mem s) root (mem t) root' ?ar" "cpu_register (mem t) (t_user_frame child) REG_A0 = 0"
    using t(3) by (simp_all add: forked_def frame_forked_def REG_A0_def)
  then have "sees (mem t) root' 0x3eeffff123 0x1f 42" using P(4-6) by (auto simp: area_seen_def dest!: spec [of _ "0x123 :: nat"])
  then show ?thesis using t(1,2) s(11) P(6) \<open>cpu_register (mem t) (t_user_frame child) REG_A0 = 0\<close>
    unfolding new_task_def by blast
qed

end
