(* ===== verification/Exit_Correct.thy ===== *)
theory Exit_Correct
  imports Fork_Correct
begin

section \<open>Correctness of exit\<close>

text \<open>
  The end of a task: its areas with their frames, its table, its stack, its node of the run queue and its
  structure go back to the allocator.
\<close>

subsection \<open>The areas of a task\<close>

type_synonym area_parts = "u64 \<times> u64 list \<times> u64 list"

text \<open>What belongs to an area: its frames, its block and the nodes of its list.\<close>

definition area_store :: "area_parts \<Rightarrow> u64 set" where
  "area_store A = (case A of (a, xs, ps) \<Rightarrow> pages (set ps) \<union> (\<Union>x\<in>set (a # xs). node_page x))"

definition last_reference :: "u64 set \<Rightarrow> memory \<Rightarrow> area_parts \<Rightarrow> bool" where
  "last_reference F m A \<longleftrightarrow> (case A of (a, xs, ps) \<Rightarrow>
     owned_area F m a xs ps \<and> area_refcount m a = 1 \<and> area_va m a mod PAGE_SIZE = 0)"

abbreviation stores :: "area_parts list \<Rightarrow> u64 set" where
  "stores As \<equiv> \<Union>A\<in>set As. area_store A"

abbreviation node_pages :: "u64 list \<Rightarrow> u64 set" where
  "node_pages xs \<equiv> \<Union>x\<in>set xs. node_page x"

definition apart_stores :: "area_parts list \<Rightarrow> bool" where
  "apart_stores As \<longleftrightarrow> sorted_wrt (\<lambda>A B. area_store A \<inter> area_store B = {}) As"

lemma last_reference_frame:
  assumes A: "last_reference F m A" and ag: "agree (area_store A) m m'" and F': "area_store A \<inter> F' = {}"
  shows "last_reference F' m' A"
proof -
  obtain a xs ps where e: "A = (a, xs, ps)" by (cases A) auto
  have o: "owned_area F m a xs ps" "area_refcount m a = 1" "area_va m a mod PAGE_SIZE = 0"
    using A by (simp_all add: last_reference_def e)
  note d = owned_areaD [OF o(1)]
  have sub: "(\<Union>x\<in>set (a # xs). node_page x) \<subseteq> area_store A" by (simp add: area_store_def e)
  obtain q where rep: "list_rep q m (area_pages a) xs" using o(1) by (auto simp: owned_area_def)
  have "agree (list_cells (area_pages a) xs) m m'" by (rule agree_mono [OF ag]) (use d(5) sub in blast)
  note R = list_rep_agree(1,2) [OF this rep]
  have h: "load32 m' (x - 4) = load32 m (x - 4)" if "x \<in> set (a # xs)" for x
  proof -
    have "span (x - 4) 4 \<subseteq> node_page x" unfolding node_page_def area_def by (rule span_mono) simp
    then have "span (x - 4) 4 \<subseteq> area_store A" using sub that by blast
    from agree_load32 [OF ag this] show ?thesis by simp
  qed
  have "owned_area F' m' a xs ps"
    using o(1) R h F' unfolding owned_area_def area_store_def e by auto
  moreover have "agree (span a 40) m m'" by (rule agree_mono [OF ag]) (use d(6) sub in auto)
  moreover have "span (a + 16) 4 \<subseteq> span a 40" by (rule span_shift_subset) simp
  ultimately show ?thesis
    using o(2,3) area_va_agree [of a m m'] agree_load32 [of "span a 40" m m' "a + 16"]
    by (simp add: last_reference_def e area_refcount_def)
qed

lemma last_reference_decref:
  assumes al: "allocator F s" and A: "last_reference F (mem s) A"
  shows "\<exists>t. vm_area_decref (fst A) s = Some (Inr ((), t)) \<and> allocator (F \<union> area_store A) t \<and>
    agree (- (F \<union> area_store A)) (mem s) (mem t) \<and> same_rest s t"
proof -
  obtain a xs ps where e: "A = (a, xs, ps)" by (cases A) auto
  then have o: "owned_area F (mem s) a xs ps" "area_refcount (mem s) a = 1" "area_va (mem s) a mod PAGE_SIZE = 0"
    using A by (simp_all add: last_reference_def)
  from vm_area_decref_ok [OF al o(1,3)] o(2) show ?thesis by (auto simp: e area_store_def Un_assoc)
qed

lemma decref_areas_ok:
  "allocator F s \<Longrightarrow> \<forall>A\<in>set As. last_reference F (mem s) A \<Longrightarrow> apart_stores As \<Longrightarrow>
   nexts (mem s) ns \<Longrightarrow> map (n_value (mem s)) ns = map fst As \<Longrightarrow> node_pages ns \<inter> (F \<union> stores As) = {} \<Longrightarrow>
   \<exists>t. list_foreach_from vm_area_decref (nhead ns) s = Some (Inr ((), t)) \<and> allocator (F \<union> stores As) t \<and>
     agree (- (F \<union> stores As)) (mem s) (mem t) \<and> same_rest s t"
proof (induction ns arbitrary: F s As)
  case Nil
  then show ?case by (simp add: list_foreach_from.simps)
next
  case (Cons n ns)
  obtain A As' where As: "As = A # As'" "n_value (mem s) n = fst A" "map (n_value (mem s)) ns = map fst As'"
    using Cons.prems(5) by auto
  have n: "n \<noteq> 0" "n_next (mem s) n = nhead ns" "nexts (mem s) ns" using Cons.prems(4) by simp_all
  have A: "last_reference F (mem s) A" "\<forall>B\<in>set As'. area_store A \<inter> area_store B = {}" "apart_stores As'"
    using Cons.prems(2,3) by (simp_all add: As(1) apart_stores_def)
  from last_reference_decref [OF Cons.prems(1) A(1)] obtain t where
    t: "vm_area_decref (fst A) s = Some (Inr ((), t))" "allocator (F \<union> area_store A) t"
      "agree (- (F \<union> area_store A)) (mem s) (mem t)" "same_rest s t" by blast
  have free: "node_pages (n # ns) \<subseteq> - (F \<union> area_store A)" using Cons.prems(6) unfolding As(1) by auto
  have kept: "n_value (mem t) x = n_value (mem s) x \<and> n_next (mem t) x = n_next (mem s) x" if "x \<in> set (n # ns)" for x
  proof -
    have "node_page x \<subseteq> - (F \<union> area_store A)" using free that by auto
    then have "span x 32 \<subseteq> - (F \<union> area_store A)" using node_in_page [of x] by blast
    from node_agree [OF t(3) this] show ?thesis by simp
  qed
  have "(\<Union>x\<in>set ns. span x 32) \<subseteq> - (F \<union> area_store A)" using free node_in_page by fastforce
  from nexts_agree [OF t(3) this] have nx: "nexts (mem t) ns" using n(3) by simp
  have vals: "map (n_value (mem t)) ns = map fst As'" using kept As(3) by (simp cong: map_cong)
  have refs: "\<forall>B\<in>set As'. last_reference (F \<union> area_store A) (mem t) B"
  proof
    fix B assume B: "B \<in> set As'"
    then have "last_reference F (mem s) B" "area_store A \<inter> area_store B = {}" using Cons.prems(2) A(2) by (simp_all add: As(1))
    moreover have "area_store B \<inter> F = {}"
      using \<open>last_reference F (mem s) B\<close> by (auto simp: last_reference_def owned_area_def area_store_def split: prod.splits)
    ultimately show "last_reference (F \<union> area_store A) (mem t) B"
      by (intro last_reference_frame [OF _ agree_mono [OF t(3)]]) blast+
  qed
  have "node_pages ns \<inter> (F \<union> area_store A \<union> stores As') = {}" using Cons.prems(6) unfolding As(1) by auto
  from Cons.IH [OF t(2) refs A(3) nx vals this] obtain u where
    u: "list_foreach_from vm_area_decref (nhead ns) t = Some (Inr ((), u))" "allocator (F \<union> area_store A \<union> stores As') u"
      "agree (- (F \<union> area_store A \<union> stores As')) (mem t) (mem u)" "same_rest t u" by blast
  have e: "F \<union> stores As = F \<union> area_store A \<union> stores As'" by (simp add: As(1) Un_assoc)
  have "list_foreach_from vm_area_decref (nhead (n # ns)) s = Some (Inr ((), u))"
    using n(1,2) As(2) t(1) u(1) kept by (subst nhead_simps, subst list_foreach_from.simps) (simp add: kbind_Inr)
  moreover have "agree (- (F \<union> stores As)) (mem s) (mem u)"
    unfolding e by (rule agree_trans [OF agree_mono [OF t(3)] u(3)]) blast
  ultimately show ?case using u(2) same_rest_trans [OF t(4) u(4)] unfolding e by blast
qed

lemma vm_decref_all_ok:
  assumes al: "allocator F s" and refs: "\<forall>A\<in>set As. last_reference F (mem s) A" "apart_stores As"
    and rep: "list_rep q (mem s) l ns" and vals: "map (n_value (mem s)) ns = map fst As"
    and own: "owned_nodes F (mem s) ns" and free: "node_pages ns \<inter> stores As = {}" and l: "span l 16 \<inter> (F \<union> stores As \<union> node_pages ns) = {}"
  shows "\<exists>t. vm_decref_all l s = Some (Inr ((), t)) \<and> allocator (F \<union> stores As \<union> node_pages ns) t \<and>
    agree (- (F \<union> stores As \<union> node_pages ns \<union> span l 16)) (mem s) (mem t) \<and> same_rest s t"
proof -
  have L: "nseg (mem s) l q (l_first (mem s) l) ns 0" using rep by (simp add: list_rep_def)
  have "nexts (mem s) ns" "l_first (mem s) l = nhead ns" using L by (rule nseg_nexts nseg_nhead)+
  have nF: "node_pages ns \<inter> (F \<union> stores As) = {}" using own free by (auto simp: owned_nodes_def)
  from decref_areas_ok [OF al refs \<open>nexts (mem s) ns\<close> vals this] obtain t where
    t: "list_foreach_from vm_area_decref (nhead ns) s = Some (Inr ((), t))" "allocator (F \<union> stores As) t"
      "agree (- (F \<union> stores As)) (mem s) (mem t)" "same_rest s t" by blast
  have "list_cells l ns \<subseteq> - (F \<union> stores As)" using l nF node_in_page unfolding list_cells_def by blast
  note R = list_rep_agree(1,2) [OF agree_mono [OF t(3) this] rep]
  have own': "owned_nodes (F \<union> stores As) (mem t) ns"
    unfolding owned_nodes_def
  proof (intro conjI ballI)
    show "distinct ns" using own by (simp add: owned_nodes_def)
    fix x assume x: "x \<in> set ns"
    show "area_ok 0 (x - 4)" using own x by (simp add: owned_nodes_def)
    show "node_page x \<inter> (F \<union> stores As) = {}" using nF x by blast
    have "span (x - 4) 4 \<subseteq> node_page x" unfolding node_page_def area_def by (rule span_mono) simp
    then have "span (x - 4) 4 \<subseteq> - (F \<union> stores As)" using nF x by blast
    from agree_load32 [OF t(3) this] show "load32 (mem t) (x - 4) = 0" using own x by (simp add: owned_nodes_def)
  qed
  from list_destroy_ok [OF t(2) R(1) own' l] obtain u where
    u: "list_destroy l t = Some (Inr ((), u))" "allocator (F \<union> stores As \<union> node_pages ns) u"
      "agree (- (F \<union> stores As \<union> node_pages ns \<union> span l 16)) (mem t) (mem u)" "same_rest t u" by blast
  have "vm_decref_all l s = Some (Inr ((), u))"
    using t(1) u(1) \<open>l_first (mem s) l = nhead ns\<close> by (simp add: vm_decref_all_def list_foreach_def kthen_Inr)
  moreover have "agree (- (F \<union> stores As \<union> node_pages ns \<union> span l 16)) (mem s) (mem u)"
    by (rule agree_trans [OF agree_mono [OF t(3)] u(3)]) blast
  ultimately show ?thesis using u(2) same_rest_trans [OF t(4) u(4)] by blast
qed

subsection \<open>The task\<close>

text \<open>
  A running task with everything that belongs to it: its block, the node \<open>nd\<close>, which is in no list while
  the task runs, the stack, the tables \<open>P\<close>, the nodes \<open>ns\<close> of its areas and the areas \<open>As\<close>, of which it has
  the last references. No page belongs to two of these.
\<close>

definition owned_task ::
  "u64 set \<Rightarrow> memory \<Rightarrow> u64 \<Rightarrow> u64 \<Rightarrow> u64 \<Rightarrow> u64 \<Rightarrow> u64 set \<Rightarrow> u64 list \<Rightarrow> area_parts list \<Rightarrow> bool" where
  "owned_task F m task nd stack root P ns As \<longleftrightarrow>
     sorted_wrt (\<lambda>A B. A \<inter> B = {}) [F, stores As, node_pages ns, node_page nd, pages P, area 0 stack, node_page task] \<and>
     t_sched m task = nd \<and> t_kernel_stack m task = stack \<and> t_page_table m task = root \<and> ptable 2 m root P \<and>
     area_ok 0 (task - 4) \<and> load32 m (task - 4) = 0 \<and> area_ok 0 (nd - 4) \<and> load32 m (nd - 4) = 0 \<and> n_list m nd = 0 \<and>
     area_ok 0 stack \<and> (\<exists>q. list_rep q m (t_vm_areas task) ns) \<and> map (n_value m) ns = map fst As \<and>
     owned_nodes F m ns \<and> (\<forall>A\<in>set As. last_reference F m A) \<and> apart_stores As"

definition task_store :: "u64 \<Rightarrow> u64 \<Rightarrow> u64 \<Rightarrow> u64 set \<Rightarrow> u64 list \<Rightarrow> area_parts list \<Rightarrow> u64 set" where
  "task_store task nd stack P ns As =
     stores As \<union> node_pages ns \<union> node_page nd \<union> pages P \<union> area 0 stack \<union> node_page task"

lemma block_header: "span (x - 4) 4 \<subseteq> node_page x"
  unfolding node_page_def area_def by (rule span_mono) simp

lemma block_span: "n \<le> 4092 \<Longrightarrow> span x n \<subseteq> node_page x"
  using span_shift_subset [of 4 n 4096 "x - 4"] by (simp add: node_page_def area_def)

lemma list_remove_unlinked: "n_list m nd = 0 \<Longrightarrow> list_remove nd m = m"
  by (simp add: list_remove_def)

lemma kfree_block:
  assumes "allocator F s" and "area_ok 0 (x - 4)" and "node_page x \<inter> F = {}" and "load32 (mem s) (x - 4) = 0"
  shows "\<exists>t. kfree x s = Some (Inr ((), t)) \<and> allocator (F \<union> node_page x) t \<and>
    agree (- (F \<union> node_page x)) (mem s) (mem t) \<and> same_rest s t"
  using kfree_releases [OF assms(1,2)] assms(3,4) by (auto simp: released_def node_page_def elim: agree_mono)

lemma task_destroy_sched_ok:
  assumes al: "allocator F s" and own: "owned_task F (mem s) task nd stack root P ns As"
  defines "S \<equiv> F \<union> stores As \<union> node_pages ns \<union> node_page nd"
  shows "\<exists>t. task_destroy_sched task s = Some (Inr ((), t)) \<and> allocator S t \<and>
    agree (- (S \<union> span (t_vm_areas task) 16)) (mem s) (mem t) \<and> same_rest s t"
proof -
  let ?l = "t_vm_areas task" and ?S1 = "F \<union> stores As \<union> node_pages ns"
  obtain q where T: "t_sched (mem s) task = nd" "area_ok 0 (nd - 4)" "load32 (mem s) (nd - 4) = 0" "n_list (mem s) nd = 0"
    "list_rep q (mem s) ?l ns" "map (n_value (mem s)) ns = map fst As" "owned_nodes F (mem s) ns"
    "\<forall>A\<in>set As. last_reference F (mem s) A" "apart_stores As"
    "sorted_wrt (\<lambda>A B. A \<inter> B = {}) [F, stores As, node_pages ns, node_page nd, pages P, area 0 stack, node_page task]"
    using own unfolding owned_task_def by blast
  have t: "span task 592 \<subseteq> node_page task" by (rule block_span) simp
  have l: "span ?l 16 \<subseteq> span task 592" unfolding t_vm_areas_def by (rule span_shift_subset) simp
  have dis: "node_pages ns \<inter> stores As = {}" "node_page task \<inter> (?S1 \<union> node_page nd) = {}" "node_page nd \<inter> ?S1 = {}" using T(10) by auto
  have "span ?l 16 \<inter> ?S1 = {}" using l t dis(2) by blast
  from vm_decref_all_ok [OF al T(8,9,5-7) dis(1) this] obtain t1 where
    t1: "vm_decref_all ?l s = Some (Inr ((), t1))" "allocator ?S1 t1" "agree (- (?S1 \<union> span ?l 16)) (mem s) (mem t1)" "same_rest s t1" by blast
  have ndp: "node_page nd \<subseteq> - (?S1 \<union> span ?l 16)" using dis(2,3) l t by blast
  have "span (task + 16) 8 \<subseteq> span task 592" by (rule span_shift_subset) simp
  moreover have "span (task + 16) 8 \<inter> span ?l 16 = {}" unfolding t_vm_areas_def by (rule span_disjoint_offsets) simp_all
  ultimately have "span (task + 16) 8 \<subseteq> - (?S1 \<union> span ?l 16)" using t dis(2) by blast
  then have sched: "t_sched (mem t1) task = nd" using agree_load64 [OF t1(3)] T(1) by (simp add: t_sched_def)
  have "span (nd + 8) 8 \<subseteq> span nd 32" by (rule span_shift_subset) simp
  then have "span (nd + 8) 8 \<subseteq> node_page nd" using node_in_page [of nd] by blast
  then have "span (nd + 8) 8 \<subseteq> - (?S1 \<union> span ?l 16)" using ndp by blast
  then have "n_list (mem t1) nd = 0" using agree_load64 [OF t1(3)] T(4) by (simp add: n_list_def)
  then have rm: "list_remove (t_sched (mem t1) task) (mem t1) = mem t1" by (simp add: sched list_remove_unlinked)
  have "span (nd - 4) 4 \<subseteq> - (?S1 \<union> span ?l 16)" using block_header ndp by blast
  from agree_load32 [OF t1(3) this] have "load32 (mem t1) (nd - 4) = 0" using T(3) by simp
  from kfree_block [OF t1(2) T(2) dis(3) this] obtain t2 where
    t2: "kfree nd t1 = Some (Inr ((), t2))" "allocator (?S1 \<union> node_page nd) t2" "agree (- (?S1 \<union> node_page nd)) (mem t1) (mem t2)" "same_rest t1 t2" by blast
  have "t1\<lparr>mem := mem t1\<rparr> = t1" by simp
  then have "task_destroy_sched task s = Some (Inr ((), t2))"
    using t1(1) t2(1) rm sched by (simp add: task_destroy_sched_def kthen_Inr kbind_Inr write_mem_def)
  moreover have "agree (- (S \<union> span ?l 16)) (mem s) (mem t2)" unfolding S_def
    by (rule agree_trans [OF agree_mono [OF t1(3)] agree_mono [OF t2(3)]]) blast+
  ultimately show ?thesis using t2(2) same_rest_trans [OF t1(4) t2(4)] unfolding S_def by blast
qed

lemma same_rest_current: "same_rest s t \<Longrightarrow> current_task t = current_task s"
  unfolding same_rest_def by (cases s; cases t; simp)

text \<open>The pages of a running task, up to the call of the scheduler.\<close>

lemma task_destroy_ok:
  assumes al: "allocator F s" and ne: "\<not> early s" and own: "owned_task F (mem s) task nd stack root P ns As"
    and pid: "t_pid (mem s) task \<noteq> 1" and cur: "current_task s = task"
  shows "\<exists>t. task_destroy G task s = kbind (schedule G) (\<lambda>d. kreturn (Switch d)) (t\<lparr>current_task := 0, current_task_node := 0\<rparr>) \<and>
    allocator (F \<union> task_store task nd stack P ns As) t \<and>
    agree (- (F \<union> task_store task nd stack P ns As)) (mem s) (mem t) \<and> same_rest s t"
proof -
  let ?l = "t_vm_areas task" and ?S1 = "F \<union> stores As \<union> node_pages ns \<union> node_page nd"
  let ?S2 = "?S1 \<union> pages P" let ?S3 = "?S2 \<union> area 0 stack" let ?S4 = "?S3 \<union> node_page task"
  have T: "t_kernel_stack (mem s) task = stack" "t_page_table (mem s) task = root" "ptable 2 (mem s) root P"
    "area_ok 0 (task - 4)" "load32 (mem s) (task - 4) = 0" "area_ok 0 stack"
    "sorted_wrt (\<lambda>A B. A \<inter> B = {}) [F, stores As, node_pages ns, node_page nd, pages P, area 0 stack, node_page task]"
    using own unfolding owned_task_def by blast+
  have dis: "pages P \<inter> ?S1 = {}" "area 0 stack \<inter> ?S2 = {}" "node_page task \<inter> ?S3 = {}" using T(7) by auto
  have t: "span task 592 \<subseteq> node_page task" by (rule block_span) simp
  have l: "span ?l 16 \<subseteq> node_page task" using t span_shift_subset [of 24 16 592 task] unfolding t_vm_areas_def by auto
  obtain t1 where t1: "task_destroy_sched task s = Some (Inr ((), t1))" "allocator ?S1 t1"
    "agree (- (?S1 \<union> span ?l 16)) (mem s) (mem t1)" "same_rest s t1" using task_destroy_sched_ok [OF al own] by blast
  have "agree (pages P) (mem s) (mem t1)" by (rule agree_mono [OF t1(3)]) (use dis(1,3) l in blast)
  from ptable_frame(1) [OF T(3) this] have pt: "pt_inv root ?S1 P t1"
    using t1(2) dis(1) ne same_rest_early [OF t1(4)] by (simp add: pt_inv_def)
  obtain t2 where t2: "destroy_page_table root t1 = Some (Inr ((), t2))" "allocator ?S2 t2" "agree (- ?S2) (mem t1) (mem t2)" "same_rest t1 t2"
    using destroy_page_table_ok [OF pt] by blast
  obtain t3 where t3: "free_pages \<lparr>address = stack, order = 0\<rparr> t2 = Some (Inr ((), t3))" "released 0 stack ?S2 t2 t3"
    using free_pages_ok [OF t2(2) T(6) dis(2)] by blast
  have r3: "allocator ?S3 t3" "agree (- ?S3) (mem t2) (mem t3)" "same_rest t2 t3"
    using t3(2) by (auto simp: released_def elim: agree_mono)
  have a3: "agree (- (?S3 \<union> span ?l 16)) (mem s) (mem t3)"
    by (rule agree_trans [OF agree_mono [OF t1(3)] agree_trans [OF agree_mono [OF t2(3)] agree_mono [OF r3(2)]]]) blast+
  have a2: "agree (- (?S3 \<union> span ?l 16)) (mem s) (mem t2)"
    by (rule agree_trans [OF agree_mono [OF t1(3)] agree_mono [OF t2(3)]]) blast+
  have keep: "span (task + 48) 8 \<subseteq> - (?S3 \<union> span ?l 16)" "span (task + 40) 8 \<subseteq> - (?S3 \<union> span ?l 16)"
  proof -
    have "span (task + 48) 8 \<subseteq> span task 592" "span (task + 40) 8 \<subseteq> span task 592" by (rule span_shift_subset; simp)+
    moreover have "span (task + 48) 8 \<inter> span ?l 16 = {}" "span (task + 40) 8 \<inter> span ?l 16 = {}"
      unfolding t_vm_areas_def by (rule span_disjoint_offsets; simp)+
    ultimately show "span (task + 48) 8 \<subseteq> - (?S3 \<union> span ?l 16)" "span (task + 40) 8 \<subseteq> - (?S3 \<union> span ?l 16)"
      using t dis(3) by blast+
  qed
  have "span (task - 4) 4 \<inter> span ?l 16 = {}" using span_disjoint [of 4 "task + 24" "task - 4" 16] by (simp add: t_vm_areas_def)
  then have "span (task - 4) 4 \<subseteq> - (?S3 \<union> span ?l 16)" using block_header dis(3) by blast
  from agree_load32 [OF a3 this] have "load32 (mem t3) (task - 4) = 0" using T(5) by simp
  from kfree_block [OF r3(1) T(4) dis(3) this] obtain t4 where
    t4: "kfree task t3 = Some (Inr ((), t4))" "allocator ?S4 t4" "agree (- ?S4) (mem t3) (mem t4)" "same_rest t3 t4" by blast
  have rest: "same_rest s t4" by (rule same_rest_trans [OF t1(4) same_rest_trans [OF t2(4) same_rest_trans [OF r3(3) t4(4)]]])
  have fields: "t_page_table (mem t1) task = root" "t_kernel_stack (mem t2) task = stack"
  proof -
    have "span (task + 48) 8 \<subseteq> - (?S1 \<union> span ?l 16)" using keep(1) by blast
    from agree_load64 [OF t1(3) this] agree_load64 [OF a2 keep(2)] T(1,2)
    show "t_page_table (mem t1) task = root" "t_kernel_stack (mem t2) task = stack" by (simp_all add: t_page_table_def t_kernel_stack_def)
  qed
  have "task_destroy G task s = kbind (schedule G) (\<lambda>d. kreturn (Switch d)) (t4\<lparr>current_task := 0, current_task_node := 0\<rparr>)"
    using pid cur t1(1) t2(1) t3(1) t4(1) fields same_rest_current [OF rest] by (simp add: task_destroy_def kthen_Inr kbind_Inr)
  moreover have "?S4 = F \<union> task_store task nd stack P ns As" by (auto simp: task_store_def)
  moreover have "agree (- ?S4) (mem s) (mem t4)"
    by (rule agree_trans [OF agree_mono [OF a3] t4(3)]) (use l in blast)
  ultimately show ?thesis using t4(2) rest by metis
qed

subsection \<open>The scheduler without the task\<close>

text \<open>The cells of the scheduler and of the other tasks.\<close>

definition other_cells :: "symbols \<Rightarrow> u64 set \<Rightarrow> u64 set \<Rightarrow> (u64 \<Rightarrow> u64) \<Rightarrow> u64 \<Rightarrow> u64 set" where
  "other_cells G gs N tk n = queue_cells (insert (sym_tasks G) gs) (N - {n}) \<union> span (sym_trapframe G) 264 \<union> (\<Union>k\<in>N - {n}. span (tk k) 592)"

lemma sched_inv_leave:
  assumes inv: "sched_inv G gs N tk A s" and run: "running A = Some n"
    and ag: "agree (other_cells G gs N tk n) (mem s) (mem t)"
    and eq: "early t = early s" "current_task_node t = 0" "current_task t = 0"
  shows "sched_inv G gs (N - {n}) tk (A\<lparr>running := None\<rparr>) t"
proof -
  let ?H = "insert (sym_tasks G) gs"
  note D = sched_invD(1-5) [OF inv]
  have sub: "queue_cells ?H (N - {n}) \<subseteq> queue_cells ?H N" by (auto simp: queue_cells_def)
  have obj: "task_objects G ?H (N - {n}) tk" using D(2) sub unfolding task_objects_def by blast
  have pl: "places ?H (N - {n})" using D(1) unfolding places_def by blast
  have "queues (mem s) ?H (N - {n}) (queue_of G A)"
    using D(3) sched_invD(10) [OF inv run] unfolding queues_def by blast
  then have "queues (mem t) ?H (N - {n}) (queue_of G A)"
    by (rule queues_frame) (rule agree_mono [OF ag], auto simp: other_cells_def)
  moreover have "queue_of G (A\<lparr>running := None\<rparr>) = queue_of G A" by (rule ext) (simp add: queue_of_def)
  moreover have "n_value (mem t) k = tk k \<and> task_ok (mem t) (tk k)" if k: "k \<in> N - {n}" for k
  proof
    have "span k 32 \<subseteq> other_cells G gs N tk n" using queue_node_cells [OF k] by (auto simp: other_cells_def)
    from node_agree(1) [OF ag this] show "n_value (mem t) k = tk k" using sched_invD(6) [OF inv] k by simp
    have "span (tk k) 60 \<subseteq> other_cells G gs N tk n" using k span_mono [of 60 592 "tk k"] by (auto simp: other_cells_def)
    from task_ok_frame(1) [OF agree_mono [OF ag this]] show "task_ok (mem t) (tk k)" using sched_invD(7) [OF inv] k by simp
  qed
  ultimately show ?thesis using pl obj D(4,5) sched_invD(8) [OF inv] eq by (simp add: sched_inv_def)
qed

text \<open>
  Property C3. \<open>exit\<close> of a thread other than init: every page that belongs to its task alone goes back to the
  allocator (the frames and blocks of its areas, its tables, stack, structure and node), the thread
  is gone from the scheduler, which goes on with the thread that has waited longest, or idles, and the
  memory of the other tasks stays as it is.
\<close>

theorem exit_correct:
  assumes inv: "sched_inv G gs N tk A s" and run: "running A = Some nd" and al: "allocator F s"
    and own: "owned_task F (mem s) (tk nd) nd stack root P ns As" and pid: "t_pid (mem s) (tk nd) \<noteq> 1"
    and apart: "(F \<union> task_store (tk nd) nd stack P ns As) \<inter> other_cells G gs N tk nd = {}"
  shows "\<exists>d t. sys_exit G s = Some (Inr (Switch d, t)) \<and> allocator (F \<union> task_store (tk nd) nd stack P ns As) t \<and>
    sched_inv G gs (N - {nd}) tk (pick (A\<lparr>running := None\<rparr>)) t \<and> dispatched G tk (pick (A\<lparr>running := None\<rparr>)) d t \<and>
    agree (- (F \<union> task_store (tk nd) nd stack P ns As \<union> queue_cells (insert (sym_tasks G) gs) (N - {nd}) \<union> span (sym_trapframe G) 264))
      (mem s) (mem t)"
proof -
  let ?S = "F \<union> task_store (tk nd) nd stack P ns As" and ?q = "queue_cells (insert (sym_tasks G) gs) (N - {nd}) \<union> span (sym_trapframe G) 264"
  have cur: "current_task s = tk nd" and ne: "\<not> early s" using sched_invD(8,10) [OF inv] run by simp_all
  obtain u where u: "task_destroy G (tk nd) s = kbind (schedule G) (\<lambda>d. kreturn (Switch d)) (u\<lparr>current_task := 0, current_task_node := 0\<rparr>)"
    "allocator ?S u" "agree (- ?S) (mem s) (mem u)" "same_rest s u"
    using task_destroy_ok [OF al ne own pid cur, of G] by blast
  let ?u = "u\<lparr>current_task := 0, current_task_node := 0\<rparr>"
  have "agree (other_cells G gs N tk nd) (mem s) (mem ?u)" using agree_mono [OF u(3), of "other_cells G gs N tk nd"] apart by auto
  from sched_inv_leave [OF inv run this] have inv': "sched_inv G gs (N - {nd}) tk (A\<lparr>running := None\<rparr>) ?u"
    using same_rest_early [OF u(4)] by simp
  have "running (A\<lparr>running := None\<rparr>) = None" by simp
  from do_schedule_ok [OF inv' this] obtain d t where t: "do_schedule G ?u = Some (Inr (d, t))"
    "sched_inv G gs (N - {nd}) tk (pick (A\<lparr>running := None\<rparr>)) t" "dispatched G tk (pick (A\<lparr>running := None\<rparr>)) d t"
    "agree (- ?q) (mem ?u) (mem t)" by blast
  have "sys_exit G s = Some (Inr (Switch d, t))"
    using u(1) t(1) cur by (simp add: sys_exit_def kbind_Inr schedule_def)
  moreover have "agree ?S (mem u) (mem t)" using agree_mono [OF t(4), of ?S] apart by (auto simp: other_cells_def)
  then have "allocator ?S t" by (rule allocator_frame [OF u(2)]) (use do_schedule_buddy [OF t(1)] in simp)
  moreover have "agree (- (?S \<union> ?q)) (mem s) (mem t)"
    using agree_mono [OF u(3), of "- (?S \<union> ?q)"] agree_mono [OF t(4), of "- (?S \<union> ?q)"] by (auto intro: agree_trans)
  ultimately show ?thesis using t(2,3) by (auto simp: Un_assoc)
qed


subsection \<open>A concrete task\<close>

text \<open>
  The task 2 with one area of one page. The blocks of \<open>kmalloc\<close> begin four bytes behind a page, so the
  words lie at these addresses plus 4: the structure, its node, the area's node, the area and its page's
  node; the stack is \<open>0x3f00802000\<close> and the frame \<open>0x3f00806000\<close>.
\<close>

definition exit_words :: "(u64 \<times> u64) list" where
  "exit_words =
     [(0x3f00800000, 2), (0x3f00800010, 0x3f00801004), (0x3f00800018, 0x3f00803004), (0x3f00800020, 0x3f00803004), (0x3f00800028, 0x3f00802000),
      (0x3f00801000, 0x3f00800004),
      (0x3f00803000, 0x3f00804004), (0x3f00803008, 0x3f0080001c),
      (0x3f00804000, 0x10000), (0x3f00804008, 1), (0x3f00804010, 1), (0x3f00804018, 0x3f00805004), (0x3f00804020, 0x3f00805004),
      (0x3f00805000, 0x3f00806000), (0x3f00805008, 0x3f0080401c)]"

definition exit_memory :: memory where
  "exit_memory x = words_at exit_words (x - 4)"

lemma exit_word:
  assumes "aligned 3 (a - 4)"
  shows "load64 exit_memory a = (case map_of exit_words (a - 4) of Some v \<Rightarrow> v | None \<Rightarrow> 0)"
proof -
  have "load64 exit_memory a = load64 (words_at exit_words) (a - 4)"
    unfolding load64_def by (rule load_le_offset) (simp add: exit_memory_def algebra_simps)
  also have "\<dots> = (case map_of exit_words (a - 4) of Some v \<Rightarrow> v | None \<Rightarrow> 0)"
    by (rule load64_words_at [OF assms]) (simp add: exit_words_def aligned_def take_bit_eq_mask mask_eq_exp_minus_1)
  finally show ?thesis .
qed

lemma exit_zero:
  assumes "\<forall>w\<in>set exit_words. span (a - 4) n \<inter> span (fst w) 8 = {}" and "x \<in> span a n"
  shows "exit_memory x = 0"
proof -
  have "x - 4 \<in> span (a - 4) n" using assms(2) by (simp add: span_iff)
  then show ?thesis unfolding exit_memory_def using assms(1) by (intro words_at_outside) blast
qed

lemma exit_header:
  assumes "\<forall>w\<in>set exit_words. span (a - 4) 4 \<inter> span (fst w) 8 = {}"
  shows "load32 exit_memory a = 0"
proof -
  have "agree (span a 4) exit_memory (\<lambda>_. 0)" using exit_zero [OF assms] by (simp add: agree_def)
  from agree_load32 [OF this order_refl] show ?thesis by (simp add: load32_low)
qed

lemmas exit_simps = exit_word exit_words_def aligned_def take_bit_eq_mask mask_eq_exp_minus_1

lemma exit_fields:
  "t_pid exit_memory 0x3f00800004 = 2" "t_sched exit_memory 0x3f00800004 = 0x3f00801004" "t_kernel_stack exit_memory 0x3f00800004 = 0x3f00802000"
  "t_mode exit_memory 0x3f00800004 = 0"
  "l_first exit_memory 0x3f0080001c = 0x3f00803004" "l_last exit_memory 0x3f0080001c = 0x3f00803004"
  "n_value exit_memory 0x3f00801004 = 0x3f00800004" "n_list exit_memory 0x3f00801004 = 0" "n_next exit_memory 0x3f00801004 = 0"
  "n_value exit_memory 0x3f00803004 = 0x3f00804004" "n_list exit_memory 0x3f00803004 = 0x3f0080001c"
  "n_prev exit_memory 0x3f00803004 = 0" "n_next exit_memory 0x3f00803004 = 0"
  "area_va exit_memory 0x3f00804004 = 0x10000" "area_refcount exit_memory 0x3f00804004 = 1"
  "l_first exit_memory 0x3f0080401c = 0x3f00805004" "l_last exit_memory 0x3f0080401c = 0x3f00805004"
  "n_value exit_memory 0x3f00805004 = 0x3f00806000" "n_list exit_memory 0x3f00805004 = 0x3f0080401c"
  "n_prev exit_memory 0x3f00805004 = 0" "n_next exit_memory 0x3f00805004 = 0"
  "l_first exit_memory 0x3f00b00004 = 0" "l_last exit_memory 0x3f00b00004 = 0"
  by (simp_all add: t_pid_def t_sched_def t_kernel_stack_def t_mode_def l_first_def l_last_def n_value_def n_list_def n_prev_def n_next_def
      area_va_def area_refcount_def load32_low exit_simps)


lemma exit_lists:
  "list_rep 0 exit_memory 0x3f0080001c [0x3f00803004]" "list_rep 0 exit_memory 0x3f0080401c [0x3f00805004]" "list_rep 0 exit_memory 0x3f00b00004 []"
  using exit_fields by (simp_all add: list_rep_def separate_nodes_def off_list_def span_disjoint)

lemma exit_free: "agree initial_free (\<lambda>_. 0) exit_memory"
proof -
  have "exit_memory x = 0" if "x \<in> initial_free" for x
  proof -
    have "x - 4 \<notin> span (fst w) 8" if w: "w \<in> set exit_words" for w
    proof
      assume "x - 4 \<in> span (fst w) 8"
      then have "x \<in> span (fst w + 4) 8" by (simp add: span_iff algebra_simps)
      moreover have "span (fst w + 4) 8 \<inter> initial_free = {}"
        using w by (auto simp: exit_words_def intro!: after_free_memory)
      ultimately show False using \<open>x \<in> initial_free\<close> by blast
    qed
    then show ?thesis unfolding exit_memory_def by (intro words_at_outside) blast
  qed
  then show ?thesis by (simp add: agree_def)
qed

lemma exit_header_zero:
  "load32 exit_memory 0x3f00800000 = 0" "load32 exit_memory 0x3f00801000 = 0" "load32 exit_memory 0x3f00803000 = 0"
  "load32 exit_memory 0x3f00804000 = 0" "load32 exit_memory 0x3f00805000 = 0"
  by (rule exit_header, simp add: exit_words_def span_disjoint)+

lemma exit_blocks:
  "area_ok 0 0x3f00800000" "area_ok 0 0x3f00801000" "area_ok 0 0x3f00802000" "area_ok 0 0x3f00803000" "area_ok 0 0x3f00804000"
  "area_ok 0 0x3f00805000" "area_ok 0 0x3f00806000"
  by (rule area_ok_compute; simp)+

lemma exit_pages_outside:
  "area 0 0x3f00800000 \<inter> initial_free = {}" "area 0 0x3f00801000 \<inter> initial_free = {}" "area 0 0x3f00802000 \<inter> initial_free = {}"
  "area 0 0x3f00803000 \<inter> initial_free = {}" "area 0 0x3f00804000 \<inter> initial_free = {}" "area 0 0x3f00805000 \<inter> initial_free = {}"
  "area 0 0x3f00806000 \<inter> initial_free = {}"
  unfolding area_def by (rule after_free_memory; simp)+

abbreviation exit_area :: area_parts where
  "exit_area \<equiv> (0x3f00804004, [0x3f00805004], [0x3f00806000])"

lemma exit_store: "area_store exit_area = area 0 0x3f00804000 \<union> area 0 0x3f00805000 \<union> area 0 0x3f00806000"
  by (auto simp: area_store_def node_page_def)

lemma exit_reference: "last_reference initial_free exit_memory exit_area"
proof -
  have "list_rep 0 exit_memory (area_pages 0x3f00804004) [0x3f00805004]" using exit_lists(2) by (simp add: area_pages_def)
  then show ?thesis using exit_fields exit_header_zero exit_blocks exit_pages_outside
    unfolding last_reference_def owned_area_def by (auto simp: node_page_def Int_Un_distrib2)
qed

text \<open>The memory outside of which the new table lies.\<close>

abbreviation exit_kept :: "u64 set" where
  "exit_kept \<equiv> - (initial_free \<union> span 0x3f00800034 8)"

lemma exit_cells:
  "span 0x3f00800004 48 \<subseteq> exit_kept" "span 0x3f0080003c 4 \<subseteq> exit_kept" "span 0x3f00800000 4 \<subseteq> exit_kept" "span 0x3f00b00004 16 \<subseteq> exit_kept"
  "area 0 0x3f00801000 \<subseteq> exit_kept" "area 0 0x3f00803000 \<subseteq> exit_kept" "area 0 0x3f00804000 \<subseteq> exit_kept"
  "area 0 0x3f00805000 \<subseteq> exit_kept" "area 0 0x3f00806000 \<subseteq> exit_kept"
proof -
  have k: "span x n \<subseteq> exit_kept" if "KERN_PHYBASE + 0x400000 \<le> x" "unat x + n \<le> unat KERN_PHYSTOP" "span x n \<inter> span 0x3f00800034 8 = {}" for x n
    using after_free_memory [OF that(1,2)] that(3) by blast
  show "span 0x3f00800004 48 \<subseteq> exit_kept" "span 0x3f0080003c 4 \<subseteq> exit_kept" "span 0x3f00800000 4 \<subseteq> exit_kept" "span 0x3f00b00004 16 \<subseteq> exit_kept"
    by (rule k; simp add: span_disjoint)+
  show "area 0 0x3f00801000 \<subseteq> exit_kept" "area 0 0x3f00803000 \<subseteq> exit_kept" "area 0 0x3f00804000 \<subseteq> exit_kept"
    "area 0 0x3f00805000 \<subseteq> exit_kept" "area 0 0x3f00806000 \<subseteq> exit_kept"
    unfolding area_def by (rule k; simp add: span_disjoint)+
qed


lemma exit_owned:
  assumes ag: "agree exit_kept exit_memory m" and root: "t_page_table m 0x3f00800004 = root" "ptable 2 m root {root}" "area 0 root \<subseteq> initial_free"
  shows "owned_task (initial_free - area 0 root) m 0x3f00800004 0x3f00801004 0x3f00802000 root {root} [0x3f00803004] [exit_area]"
    and "t_pid m 0x3f00800004 = 2" and "t_mode m 0x3f00800004 = 0" and "n_value m 0x3f00801004 = 0x3f00800004" and "n_next m 0x3f00801004 = 0"
    and "list_rep 0 m 0x3f00b00004 []"
proof -
  let ?F = "initial_free - area 0 root" and ?t = "0x3f00800004 :: u64"
  have f8: "load64 m (?t + i) = load64 exit_memory (?t + i)" if "unat i + 8 \<le> 48" for i
    using agree_load64 [OF agree_mono [OF ag exit_cells(1)] span_shift_subset [OF that]] by simp
  have f0: "load64 m ?t = load64 exit_memory ?t" using f8 [of 0] by simp
  have n: "n_value m 0x3f00801004 = 0x3f00800004" "n_next m 0x3f00801004 = 0" "n_list m 0x3f00801004 = 0" "n_value m 0x3f00803004 = 0x3f00804004"
  proof -
    have sub: "span 0x3f00801004 32 \<subseteq> exit_kept" "span 0x3f00803004 32 \<subseteq> exit_kept"
      by (rule order_trans [OF _ exit_cells(5)] order_trans [OF _ exit_cells(6)],
          use block_span [of 32 "0x3f00801004"] block_span [of 32 "0x3f00803004"] in \<open>simp add: node_page_def\<close>)+
    have "span (0x3f00801004 + 8) 8 \<subseteq> span (0x3f00801004 :: u64) 32" by (rule span_shift_subset) simp
    then have "span (0x3f00801004 + 8) 8 \<subseteq> exit_kept" using sub(1) by blast
    from agree_load64 [OF ag this] show "n_list m 0x3f00801004 = 0" using exit_fields(8) unfolding n_list_def by simp
    show "n_value m 0x3f00801004 = 0x3f00800004" "n_next m 0x3f00801004 = 0" "n_value m 0x3f00803004 = 0x3f00804004"
      using node_agree [OF ag sub(1)] node_agree [OF ag sub(2)] exit_fields by simp_all
  qed
  show "n_value m 0x3f00801004 = 0x3f00800004" "n_next m 0x3f00801004 = 0" by (fact n)+
  have hdr: "load32 m 0x3f00800000 = 0" "load32 m 0x3f00801000 = 0" "load32 m 0x3f00803000 = 0"
  proof -
    have "span 0x3f00801000 4 \<subseteq> exit_kept" "span 0x3f00803000 4 \<subseteq> exit_kept"
      by (rule order_trans [OF _ exit_cells(5)] order_trans [OF _ exit_cells(6)],
          use block_header [of "0x3f00801004"] block_header [of "0x3f00803004"] in \<open>simp add: node_page_def\<close>)+
    with agree_load32 [OF ag] exit_cells(3) exit_header_zero
    show "load32 m 0x3f00800000 = 0" "load32 m 0x3f00801000 = 0" "load32 m 0x3f00803000 = 0" by metis+
  qed
  have "agree (list_cells 0x3f0080001c [0x3f00803004]) exit_memory m"
  proof (rule agree_mono [OF ag])
    have "span (?t + 24) 16 \<subseteq> span ?t 48" by (rule span_shift_subset) simp
    then show "list_cells 0x3f0080001c [0x3f00803004] \<subseteq> exit_kept"
      using exit_cells(1,6) node_in_page [of "0x3f00803004"] by (auto simp: list_cells_def node_page_def)
  qed
  note areas = list_rep_agree(1) [OF this exit_lists(1)]
  have "agree (list_cells 0x3f00b00004 []) exit_memory m" by (rule agree_mono [OF ag]) (use exit_cells(4) in \<open>simp add: list_cells_def\<close>)
  from list_rep_agree(1) [OF this exit_lists(3)] show "list_rep 0 m 0x3f00b00004 []" .
  show "t_pid m ?t = 2" using f0 exit_fields(1) by (simp add: t_pid_def)
  show "t_mode m ?t = 0" using agree_load32 [OF ag exit_cells(2)] exit_fields(4) by (simp add: t_mode_def)
  have "last_reference ?F m exit_area"
    by (rule last_reference_frame [OF exit_reference agree_mono [OF ag]]) (use exit_cells exit_pages_outside exit_store in blast)+
  moreover have "owned_nodes ?F m [0x3f00803004]"
    using exit_blocks(4) exit_pages_outside(4) hdr(3) by (auto simp: owned_nodes_def node_page_def)
  moreover have "sorted_wrt (\<lambda>A B. A \<inter> B = {})
      [?F, stores [exit_area], node_pages [0x3f00803004], node_page 0x3f00801004, pages {root}, area 0 0x3f00802000, node_page ?t]"
  proof -
    let ?Xs = "[{0x3f00804000, 0x3f00805000, 0x3f00806000}, {0x3f00803000}, {0x3f00801000}, {root}, {0x3f00802000}, {0x3f00800000}]"
    have r: "root \<notin> {0x3f00800000, 0x3f00801000, 0x3f00802000, 0x3f00803000, 0x3f00804000, 0x3f00805000, 0x3f00806000}"
      using root(3) exit_pages_outside self_in_area [of root 0] by blast
    have "\<forall>X\<in>set ?Xs. \<forall>x\<in>X. area_ok 0 x" using exit_blocks ptable_pages [OF root(2)] by simp
    moreover have "sorted_wrt (\<lambda>X Y. X \<inter> Y = {}) ?Xs" using r by simp
    ultimately have "sorted_wrt (\<lambda>A B. A \<inter> B = {}) (map pages ?Xs)" by (rule apart_pages)
    moreover have "\<forall>X\<in>set ?Xs. ?F \<inter> pages X = {}" using exit_pages_outside by auto
    ultimately show ?thesis using exit_store by (simp add: node_page_def Un_assoc)
  qed
  ultimately show "owned_task ?F m ?t 0x3f00801004 0x3f00802000 root {root} [0x3f00803004] [exit_area]"
    using root(1,2) areas n hdr exit_blocks f8 [of 16] f8 [of 40] exit_fields(2,3) unfolding owned_task_def
    by (auto simp: t_sched_def t_kernel_stack_def t_vm_areas_def apart_stores_def)
qed


abbreviation exit_symbols :: symbols where
  "exit_symbols \<equiv> \<lparr>sym_tasks = 0x3f00b00004, sym_wait_in = 0, sym_wait_out = 0, sym_trapframe = 0x3f00c00000, sym_task_entry = 0,
    sym_setjmp_return = 0, sym_page_fault_handler = 0, sym_trap_vector = 0, sym_fault_context = (\<lambda>_ _. ([], 0)), sym_other_csr = (\<lambda>_. 0)\<rparr>"

lemma exit_process:
  obtains root and s :: sched_state where "allocator (initial_free - area 0 root) s" and "area 0 root \<subseteq> initial_free"
    and "owned_task (initial_free - area 0 root) (mem s) 0x3f00800004 0x3f00801004 0x3f00802000 root {root} [0x3f00803004] [exit_area]"
    and "t_pid (mem s) 0x3f00800004 = 2"
    and "sched_inv exit_symbols {} {0x3f00801004} (\<lambda>_. 0x3f00800004) \<lparr>ready = [], waiting = \<lambda>_. [], running = Some 0x3f00801004\<rparr> s"
proof -
  have "span (0x3f00800004 + 48) 8 \<inter> initial_free = {}" by (rule after_free_memory) simp_all
  then obtain root and u :: cpu_state where u: "area 0 root \<subseteq> initial_free" "pt_inv root (initial_free - area 0 root) {root} u"
    "agree exit_kept exit_memory (mem u)" "t_page_table (mem u) 0x3f00800004 = root"
    by (rule fresh_process [OF exit_free]) simp
  have pt: "ptable 2 (mem u) root {root}" "allocator (initial_free - area 0 root) u" "\<not> early u" using u(2) by (simp_all add: pt_inv_def)
  note E = exit_owned [OF u(3,4) pt(1) u(1)]
  let ?s = "sched_of u 0 0x3f00801004 0x3f00800004"
  have "area_ok 0 root" using pt(1) ptable_pages by blast
  then have ok: "task_ok (mem u) 0x3f00800004" using u(4) E(3) by (simp add: task_ok_def)
  have "sched_inv exit_symbols {} {0x3f00801004} (\<lambda>_. 0x3f00800004) \<lparr>ready = [], waiting = \<lambda>_. [], running = Some 0x3f00801004\<rparr> ?s"
    using E(4-6) ok pt(3) by (auto simp: sched_inv_def places_def off_list_def task_objects_def queue_cells_def queues_def queue_of_def
        span_disjoint Int_Un_distrib Int_Un_distrib2)
  moreover have "allocator (initial_free - area 0 root) ?s" by (rule allocator_cong [OF _ _ pt(2)]) simp_all
  ultimately show thesis using that [of root ?s] E(1,2) u(1) by simp
qed

lemma exit_correct_witness:
  "\<exists>(s :: sched_state) t F F'. allocator F s \<and> sys_exit exit_symbols s = Some (Inr (Switch Idle, t)) \<and> allocator F' t \<and>
     F \<subset> initial_free \<and> F' = initial_free \<union> area 0 0x3f00800000 \<union> area 0 0x3f00801000 \<union> area 0 0x3f00802000 \<union> area 0 0x3f00803000 \<union>
       area 0 0x3f00804000 \<union> area 0 0x3f00805000 \<union> area 0 0x3f00806000"
proof -
  let ?A = "\<lparr>ready = [], waiting = \<lambda>_. [], running = Some 0x3f00801004\<rparr> :: threads" and ?tk = "\<lambda>_ :: u64. 0x3f00800004 :: u64"
  obtain root and s :: sched_state where s: "allocator (initial_free - area 0 root) s" "area 0 root \<subseteq> initial_free"
    "owned_task (initial_free - area 0 root) (mem s) (?tk 0x3f00801004) 0x3f00801004 0x3f00802000 root {root} [0x3f00803004] [exit_area]"
    "t_pid (mem s) (?tk 0x3f00801004) = 2" "sched_inv exit_symbols {} {0x3f00801004} ?tk ?A s" by (rule exit_process)
  let ?S = "initial_free - area 0 root \<union> task_store (?tk 0x3f00801004) 0x3f00801004 0x3f00802000 {root} [0x3f00803004] [exit_area]"
  have S: "?S = initial_free \<union> area 0 0x3f00800000 \<union> area 0 0x3f00801000 \<union> area 0 0x3f00802000 \<union> area 0 0x3f00803000 \<union>
      area 0 0x3f00804000 \<union> area 0 0x3f00805000 \<union> area 0 0x3f00806000"
    using s(2) exit_store unfolding task_store_def by (auto simp: node_page_def)
  have o: "other_cells exit_symbols {} {0x3f00801004} ?tk 0x3f00801004 = span 0x3f00b00004 16 \<union> span 0x3f00c00000 264"
    by (simp add: other_cells_def queue_cells_def)
  have "initial_free \<inter> span 0x3f00b00004 16 = {}" "initial_free \<inter> span 0x3f00c00000 264 = {}"
    using after_free_memory [of "0x3f00b00004" 16] after_free_memory [of "0x3f00c00000" 264] by (simp_all add: Int_commute)
  then have apart: "?S \<inter> other_cells exit_symbols {} {0x3f00801004} ?tk 0x3f00801004 = {}"
    unfolding S o unfolding Int_Un_distrib Int_Un_distrib2 area_def by (simp add: span_disjoint)
  have "running ?A = Some 0x3f00801004" "t_pid (mem s) (?tk 0x3f00801004) \<noteq> 1" using s(4) by simp_all
  from exit_correct [OF s(5) this(1) s(1,3) this(2) apart] obtain d t where
    t: "sys_exit exit_symbols s = Some (Inr (Switch d, t))" "allocator ?S t"
      "dispatched exit_symbols ?tk (pick (?A\<lparr>running := None\<rparr>)) d t" by blast
  have "d = Idle" using t(3) by (simp add: dispatched_def pick_def)
  moreover have "root \<in> initial_free" using s(2) self_in_area by blast
  then have "initial_free - area 0 root \<subset> initial_free" using self_in_area [of root 0] by blast
  ultimately show ?thesis using s(1) t(1,2) S by metis
qed

end
