(* ===== verification/User_Test.thy ===== *)
theory User_Test
  imports User_Correct Panic
begin

section \<open>The user programs (user/test.c, user/test1.s, user/hello.c)\<close>

text \<open>
  \<^verbatim>\<open>test.c\<close> is the program that the kernel starts as its first process. It tells its parent from its child, prints its
  arguments, and goes on in one of three loops that never end. The instruction \<open>ecall\<close> is a parameter,
  as for the library; so are \<open>peek\<close>, the load of an \<open>int\<close> through a pointer, and the addresses of the two
  arrays that \<open>_start\<close> has on its stack.
\<close>

definition MAXN :: nat where "MAXN = 10010"

text \<open>\<open>fact\<close>, with the array \<open>dp\<close>; a store outside of the array has no meaning.\<close>

partial_function (option) fact :: "u32 \<Rightarrow> u32 list \<Rightarrow> (u32 \<times> u32 list) option" where
  "fact x dp =
     (if x = 0 then Some (0, dp)
      else Option.bind (fact (x - 1) dp) (\<lambda>(r, dp).
        let t = r + x in if unat x < MAXN then Some (t, dp[unat x := t]) else None))"

text \<open>The strings of \<open>argv\<close> come with their NULs; \<open>argc\<close> is their number when the kernel starts the program.\<close>

partial_function (option) test_args :: "'s ecall \<Rightarrow> u32 \<Rightarrow> u8 list list \<Rightarrow> u32 \<Rightarrow> 's \<Rightarrow> (unit \<times> 's) option" where
  "test_args ecall argc argv i s =
     (if i <s argc
      then if unat i < length argv
        then ubind (uthen (putstr ecall (c_string ''argv'')) (uthen (putint ecall i) (uthen (putstr ecall (c_string '': ''))
               (uthen (putstr ecall (argv ! unat i)) (user_putchar ecall 10)))))
             (\<lambda>_ t. test_args ecall argc argv (i + 1) t) s
        else None
      else Some ((), s))"

partial_function (option) yield_loop :: "'s ecall \<Rightarrow> 's \<Rightarrow> (unit \<times> 's) option" where
  "yield_loop ecall s = ubind (internal_syscall0 ecall 3) (\<lambda>_ t. yield_loop ecall t) s"

partial_function (option) pid_loop :: "'s ecall \<Rightarrow> 's \<Rightarrow> (unit \<times> 's) option" where
  "pid_loop ecall s = ubind (ubind (internal_syscall0 ecall 2) (\<lambda>p. putint ecall (ucast p))) (\<lambda>_ t. pid_loop ecall t) s"

text \<open>The output before the program branches; its result is the number that \<open>fork\<close> returned.\<close>

definition test_intro :: "'s ecall \<Rightarrow> u32 \<Rightarrow> u8 list list \<Rightarrow> ('s, u32) user" where
  "test_intro ecall argc argv =
     uthen (putstr ecall (c_string ''argc: ''))
    (uthen (putint ecall argc)
    (uthen (user_putchar ecall 10)
    (uthen (test_args ecall argc argv 0)
    (ubind (internal_syscall0 ecall 4) (\<lambda>fork_pid.
     uthen (putstr ecall (c_string ''pid: ''))
    (ubind (internal_syscall0 ecall 2) (\<lambda>pid.
     uthen (putint ecall (ucast pid))
    (uthen (user_putchar ecall 10)
    (uthen (putstr ecall (c_string ''fork: ''))
    (uthen (putint ecall (ucast fork_pid))
    (uthen (user_putchar ecall 10) (ureturn (ucast fork_pid)))))))))))))"

definition test_first :: "'s ecall \<Rightarrow> u64 \<Rightarrow> u64 \<Rightarrow> u8 list list \<Rightarrow> ('s, unit) user" where
  "test_first ecall new_argv new_envp argv =
     (if argv = [] \<or> hd argv = [] then (\<lambda>s. None)
      else
        uthen (if hd (hd argv) = 105
          then uthen (putstr ecall (c_string ''execve: ''))
              (uthen (ubind (internal_syscall3 ecall 6 0 new_argv new_envp) (\<lambda>r. putint ecall (ucast r)))
                (user_putchar ecall 10))
          else ureturn ())
        (uthen (user_putchar ecall 10) (yield_loop ecall)))"

text \<open>\<open>_start\<close>; what follows \<open>pid_loop\<close> is not reached.\<close>

definition test_start :: "'s ecall \<Rightarrow> (u64 \<Rightarrow> ('s, u32) user) \<Rightarrow> u64 \<Rightarrow> u64 \<Rightarrow> u32 \<Rightarrow> u8 list list \<Rightarrow> ('s, unit) user" where
  "test_start ecall peek new_argv new_envp argc argv =
     uthen (test_intro ecall argc argv)
    (uthen (ubind (internal_syscall0 ecall 2) (\<lambda>pid.
       if pid = 1 then test_first ecall new_argv new_envp argv
       else uthen (user_putchar ecall 10) (uthen (internal_syscall0 ecall 5) (ureturn ()))))
    (uthen (peek 0x114514)
    (uthen (pid_loop ecall)
    (uthen (ubind (getint ecall) (\<lambda>x. case fact x (replicate MAXN 0) of None \<Rightarrow> (\<lambda>s. None) | Some (r, _) \<Rightarrow> putint ecall r))
    (uthen (user_putchar ecall 10)
    (uthen (internal_syscall0 ecall 114514) (\<lambda>s. None)))))))"

text \<open>\<^verbatim>\<open>test1.s\<close> sends every character that it reads, plus its pid.\<close>

partial_function (option) test1_loop :: "'s ecall \<Rightarrow> u64 \<Rightarrow> 's \<Rightarrow> (unit \<times> 's) option" where
  "test1_loop ecall s0 s =
     ubind (ubind (ecall [REG_A7 \<mapsto> 0, REG_A0 \<mapsto> s0]) (\<lambda>a0. ecall [REG_A7 \<mapsto> 1, REG_A0 \<mapsto> a0 + s0])) (\<lambda>_ t. test1_loop ecall s0 t) s"

definition test1_start :: "'s ecall \<Rightarrow> ('s, unit) user" where
  "test1_start ecall = ubind (ecall [REG_A7 \<mapsto> 2]) (test1_loop ecall)"

text \<open>\<open>_start\<close> of \<^verbatim>\<open>hello.c\<close>, which ends in an empty loop.\<close>

definition hello_start :: "'s ecall \<Rightarrow> ('s, unit) user" where
  "hello_start ecall = uthen (hello_main ecall) (\<lambda>s. None)"

subsection \<open>What the programs do\<close>

text \<open>The loops never end, so the program is left by \<open>exit\<close>, \<open>execve\<close> or a fault only.\<close>

lemma yield_loop_forever: "yield_loop ecall s = None"
proof -
  have "yield_loop ecall s = Some r \<Longrightarrow> False" for r
    by (erule yield_loop.raw_induct [rotated]) (auto simp: ubind_def split: bind_splits)
  then show ?thesis by (cases "yield_loop ecall s") auto
qed

lemma pid_loop_forever: "pid_loop ecall s = None"
proof -
  have "pid_loop ecall s = Some r \<Longrightarrow> False" for r
    by (erule pid_loop.raw_induct [rotated]) (auto simp: ubind_def split: bind_splits)
  then show ?thesis by (cases "pid_loop ecall s") auto
qed

lemma test1_loop_forever: "test1_loop ecall s0 s = None"
proof -
  have "test1_loop ecall s0 s = Some r \<Longrightarrow> False" for r
    by (erule test1_loop.raw_induct [rotated]) (auto simp: ubind_def split: bind_splits)
  then show ?thesis by (cases "test1_loop ecall s0 s") auto
qed

lemma uthen_None: "\<forall>s. n s = None \<Longrightarrow> uthen m n s = None"
  by (simp add: uthen_def ubind_def split: bind_splits)

lemma test_start_forever: "test_start ecall peek new_argv new_envp argc argv s = None"
  unfolding test_start_def by (intro uthen_None allI) (simp add: uthen_def ubind_def pid_loop_forever split: bind_splits)

text \<open>In spite of its name, \<open>fact\<close> adds the numbers up to its argument.\<close>

lemma fact_sums:
  "unat x < MAXN \<Longrightarrow> length dp = MAXN \<Longrightarrow>
     \<exists>dp'. fact x dp = Some (of_nat (\<Sum>i\<le>unat x. i), dp') \<and> length dp' = MAXN \<and>
       (\<forall>i. 0 < i \<and> i \<le> unat x \<longrightarrow> dp' ! i = of_nat (\<Sum>j\<le>i. j))"
proof (induction "unat x" arbitrary: x)
  case 0
  then have "x = 0" by (simp add: unat_eq_zero)
  then show ?case using 0 by (simp add: fact.simps)
next
  case (Suc n)
  then have "x \<noteq> 0" by auto
  moreover from this have "unat (x - 1) = n" using Suc.hyps(2) by (simp add: unat_minus_one)
  ultimately have x: "x \<noteq> 0" "unat (x - 1) = n" by simp_all
  then obtain d where d: "fact (x - 1) dp = Some (of_nat (\<Sum>i\<le>n. i), d)" "length d = MAXN" "\<forall>i. 0 < i \<and> i \<le> n \<longrightarrow> d ! i = of_nat (\<Sum>j\<le>i. j)"
    using Suc.hyps(1) [of "x - 1"] Suc.prems Suc.hyps(2) by auto
  have sum: "of_nat (\<Sum>i\<le>n. i) + x = (of_nat (\<Sum>i\<le>unat x. i) :: u32)"
  proof -
    have "of_nat (unat x) = x" by simp
    then show ?thesis unfolding Suc.hyps(2) [symmetric] by simp
  qed
  then show ?case using x d Suc.prems Suc.hyps(2) [symmetric] by (subst fact.simps) (auto simp: nth_list_update le_Suc_eq)
qed

lemma int_less:
  assumes "unat (j :: u32) < 2 ^ 31" and "unat i < unat j"
  shows "i <s j"
proof -
  have s: "sint k = int (unat k)" if "unat (k :: u32) < 2 ^ 31" for k
  proof -
    have "uint k < 2 ^ 31" unfolding uint_nat using that of_nat_less_iff [of "unat k" "2 ^ 31", where ?'a = int] by simp
    moreover have "- (2 ^ 31) \<le> uint k" by (rule order_trans [of _ 0]) simp_all
    ultimately have "signed_take_bit 31 (uint k) = uint k" by (intro signed_take_bit_int_eq_self) simp_all
    then show ?thesis by (simp add: sint_uint)
  qed
  have "i < j" using assms(2) by (simp add: word_less_nat_alt)
  then show ?thesis using assms s [of i] s [of j] by (simp add: word_sless_alt word_less_def)
qed

text \<open>What is printed for every argument.\<close>

definition arg_line :: "u32 \<Rightarrow> u8 list \<Rightarrow> u8 list" where
  "arg_line i cs = map of_char ''argv'' @ int_chars i @ map of_char '': '' @ cs @ [10]"

context console
begin

lemma outputs_c_string: "\<forall>c\<in>set cs. of_char c \<noteq> (0 :: u8) \<Longrightarrow> outputs (putstr ecall (c_string cs)) () (map of_char cs)"
  unfolding c_string_def by (rule outputs_putstr) auto

lemma outputs_arg:
  assumes "0 \<notin> set cs"
  shows "outputs (uthen (putstr ecall (c_string ''argv'')) (uthen (putint ecall i) (uthen (putstr ecall (c_string '': ''))
    (uthen (putstr ecall (cs @ [0])) (user_putchar ecall 10))))) () (arg_line i cs)"
  unfolding arg_line_def
  by (rule outputs_then outputs_c_string outputs_putint outputs_putstr [OF assms] outputs_putchar | simp)+

lemma outputs_test_args:
  "length css = n \<Longrightarrow> unat i + n = unat argc \<Longrightarrow> unat argc < 2 ^ 31 \<Longrightarrow> \<forall>cs\<in>set css. 0 \<notin> set cs \<Longrightarrow>
     drop (unat i) argv = map (\<lambda>cs. cs @ [0]) css \<Longrightarrow>
     outputs (test_args ecall argc argv i) () (concat (map2 arg_line (map of_nat [unat i..<unat argc]) css))"
proof (induction n arbitrary: i css)
  case 0
  then have "i = argc" by (simp add: word_unat_eq_iff)
  then have "\<not> i <s argc" by simp
  then show ?case using 0 unfolding outputs_def by (subst test_args.simps) simp
next
  case (Suc n)
  obtain cs css' where c: "css = cs # css'" using Suc.prems(1) by (cases css) auto
  have lt: "i <s argc" using Suc.prems(2,3) by (intro int_less) simp_all
  have i: "unat (i + 1) = unat i + 1" using Suc.prems(2,3) by (simp add: unat_word_ariths)
  have a: "unat i < length argv" "argv ! unat i = cs @ [0]"
    using Suc.prems(5) unfolding c by (cases "unat i < length argv"; simp add: Cons_nth_drop_Suc [symmetric])+
  have d: "drop (unat (i + 1)) argv = map (\<lambda>cs. cs @ [0]) css'"
    using Suc.prems(5) unfolding c i by (simp add: drop_Suc [symmetric] tl_drop) (metis drop_Suc list.sel(3) tl_drop)
  have ih: "outputs (test_args ecall argc argv (i + 1)) () (concat (map2 arg_line (map of_nat [unat (i + 1)..<unat argc]) css'))"
    using Suc.prems c i d by (intro Suc.IH) simp_all
  have e: "test_args ecall argc argv i = uthen (uthen (putstr ecall (c_string ''argv'')) (uthen (putint ecall i) (uthen (putstr ecall (c_string '': ''))
      (uthen (putstr ecall (cs @ [0])) (user_putchar ecall 10))))) (test_args ecall argc argv (i + 1))"
    using lt a by (intro ext) (simp add: test_args.simps [of ecall argc argv i] uthen_def)
  have "map2 arg_line (map of_nat [unat i..<unat argc]) css = arg_line i cs # map2 arg_line (map of_nat [unat (i + 1)..<unat argc]) css'"
    using Suc.prems(2) by (simp add: c i upt_conv_Cons)
  with outputs_then [OF outputs_arg ih] Suc.prems(4) show ?case unfolding e c by simp
qed

end

end
