(* ===== verification/Constants.thy ===== *)
theory Constants
  imports Sched_Correct
begin

section \<open>The remaining constants (errno.h, riscv.h, memlayout.h)\<close>

text \<open>
  The error numbers, registers and device addresses of the headers, as tables and functions, and what the
  kernel relies on: that an error number survives the way through a pointer, that registers are saved
  apart, and that the regions of the address space stand in order below its end.
\<close>

subsection \<open>Error numbers\<close>

definition errno_table :: "(string \<times> int) list" where
  "errno_table =
     [(''EPERM'', 1), (''ENOENT'', 2), (''ESRCH'', 3), (''EINTR'', 4), (''EIO'', 5), (''ENXIO'', 6), (''E2BIG'', 7),
      (''ENOEXEC'', 8), (''EBADF'', 9), (''ECHILD'', 10), (''EAGAIN'', 11), (''ENOMEM'', 12), (''EACCES'', 13), (''EFAULT'', 14),
      (''ENOTBLK'', 15), (''EBUSY'', 16), (''EEXIST'', 17), (''EXDEV'', 18), (''ENODEV'', 19), (''ENOTDIR'', 20), (''EISDIR'', 21),
      (''EINVAL'', 22), (''ENFILE'', 23), (''EMFILE'', 24), (''ENOTTY'', 25), (''ETXTBSY'', 26), (''EFBIG'', 27), (''ENOSPC'', 28),
      (''ESPIPE'', 29), (''EROFS'', 30), (''EMLINK'', 31), (''EPIPE'', 32), (''EDOM'', 33), (''ERANGE'', 34), (''EDEADLK'', 35),
      (''ENAMETOOLONG'', 36), (''ENOLCK'', 37), (''ENOSYS'', 38)]"

lemma errno_table_consistent:
  "distinct (map fst errno_table)" "distinct (map snd errno_table)"
  "map (map_of errno_table) [''ENOENT'', ''E2BIG'', ''ENOMEM'', ''EFAULT'', ''EINVAL'', ''ENOSYS''] =
     map Some [ENOENT, E2BIG, ENOMEM, EFAULT, EINVAL, ENOSYS]"
  by (simp_all add: errno_table_def ENOENT_def E2BIG_def ENOMEM_def EFAULT_def EINVAL_def ENOSYS_def)

text \<open>An error pointer is told from every other pointer into the kernel's half, and gives its number back.\<close>

lemma errno_pointer:
  assumes "(name, e) \<in> set errno_table"
  shows "IS_ERR (ERR_PTR (of_int e))" and "sint (PTR_ERR (ERR_PTR (of_int e))) = - e"
proof -
  have "e \<in> {1..38}" using assms by (auto simp: errno_table_def)
  then have e: "0 < e" "e < 2 ^ 63" by simp_all
  then have "sint (- of_int e :: u64) = - e"
    by (simp add: signed_of_int flip: of_int_minus) (intro signed_take_bit_int_eq_self; simp)
  with e(1) show "IS_ERR (ERR_PTR (of_int e))" "sint (PTR_ERR (ERR_PTR (of_int e))) = - e"
    by (simp_all add: IS_ERR_def ERR_PTR_def PTR_ERR_def)
qed

subsection \<open>Registers\<close>

definition register_table :: "(string \<times> nat) list" where
  "register_table =
     [(''REG_ZERO'', 0), (''REG_RA'', 1), (''REG_SP'', 2), (''REG_GP'', 3), (''REG_TP'', 4), (''REG_T0'', 5), (''REG_T1'', 6), (''REG_T2'', 7),
      (''REG_S0'', 8), (''REG_S1'', 9), (''REG_A0'', 10), (''REG_A1'', 11), (''REG_A2'', 12), (''REG_A3'', 13), (''REG_A4'', 14), (''REG_A5'', 15),
      (''REG_A6'', 16), (''REG_A7'', 17), (''REG_S2'', 18), (''REG_S3'', 19), (''REG_S4'', 20), (''REG_S5'', 21), (''REG_S6'', 22), (''REG_S7'', 23),
      (''REG_S8'', 24), (''REG_S9'', 25), (''REG_S10'', 26), (''REG_S11'', 27), (''REG_T3'', 28), (''REG_T4'', 29), (''REG_T5'', 30), (''REG_T6'', 31)]"

lemma register_table_consistent:
  "distinct (map fst register_table)" "map snd register_table = [0..<32]"
  "map (map_of register_table) [''REG_SP'', ''REG_A0'', ''REG_A1'', ''REG_A2'', ''REG_A7''] = map Some [REG_SP, REG_A0, REG_A1, REG_A2, REG_A7]"
  by (simp_all add: register_table_def upt_rec REG_SP_def REG_A0_def REG_A1_def REG_A2_def REG_A7_def)

text \<open>A register that is written in a saved context leaves the other registers and \<open>pc\<close> as they are.\<close>

lemma register_spans:
  assumes "i < j" and "j \<le> 32"
  shows "span (c + 8 * of_nat i) 8 \<inter> span (c + 8 * of_nat j) 8 = {}"
proof -
  define n where "n = 8 * (j - i)"
  have n: "8 \<le> n" "n \<le> 256" using assms by (simp_all add: n_def)
  have "8 * j = 8 * i + n" using assms(1) by (simp add: n_def)
  then have "(of_nat (8 * j) :: u64) = of_nat (8 * i) + of_nat n" by (metis of_nat_add)
  then have d: "8 * of_nat j - 8 * of_nat i = (of_nat n :: u64)" "8 * of_nat i - 8 * of_nat j = - (of_nat n :: u64)" by simp_all
  have u: "unat (of_nat n :: u64) = n" using n(2) by (simp add: unat_of_nat)
  then have "(of_nat n :: u64) \<noteq> 0" using n(1) by auto
  then have "unat (- of_nat n :: u64) = 2 ^ 64 - n" using unat_neg_u64 u by simp
  then show ?thesis using n u by (intro span_disjoint_offsets) (simp_all add: d)
qed

lemma register_apart_pc: "r < 32 \<Longrightarrow> span (c + 8 * of_nat r) 8 \<inter> span (c + 256) 8 = {}"
  using register_spans [of r 32 c] by simp

lemma register_cells:
  assumes "r < 32" and "k < 32"
  shows "cpu_register (set_cpu_register c r v m) c k = (if k = r then v else cpu_register m c k)"
    and "cpu_pc (set_cpu_register c r v m) c = cpu_pc m c"
proof -
  show "cpu_register (set_cpu_register c r v m) c k = (if k = r then v else cpu_register m c k)"
  proof (cases "k = r")
    case False
    then have "span (c + 8 * of_nat r) 8 \<inter> span (c + 8 * of_nat k) 8 = {}"
      using register_spans [of r k c] register_spans [of k r c] assms by (cases "k < r") auto
    with False show ?thesis by (simp add: cpu_register_def set_cpu_register_def load64_store64_other)
  qed (simp add: cpu_register_def set_cpu_register_def)
  show "cpu_pc (set_cpu_register c r v m) c = cpu_pc m c"
    using register_apart_pc [OF assms(1)] by (simp add: cpu_pc_def set_cpu_register_def load64_store64_other)
qed

subsection \<open>Devices\<close>

definition VIRTIO0 :: u64 where "VIRTIO0 = 0x10001000"
definition VIRTIO0_IRQ :: u32 where "VIRTIO0_IRQ = 1"
definition CLINT :: u64 where "CLINT = 0x2000000"
definition CLINT_MTIMECMP :: "u64 \<Rightarrow> u64" where "CLINT_MTIMECMP hartid = CLINT + 0x4000 + 8 * hartid"
definition CLINT_MTIME :: u64 where "CLINT_MTIME = CLINT + 0xBFF8"
definition PLIC_PRIORITY :: u64 where "PLIC_PRIORITY = PLIC + 0x0"
definition PLIC_PENDING :: u64 where "PLIC_PENDING = PLIC + 0x1000"
definition PLIC_MENABLE :: "u64 \<Rightarrow> u64" where "PLIC_MENABLE hart = PLIC + 0x2000 + hart * 0x100"
definition PLIC_MPRIORITY :: "u64 \<Rightarrow> u64" where "PLIC_MPRIORITY hart = PLIC + 0x200000 + hart * 0x2000"
definition PLIC_MCLAIM :: "u64 \<Rightarrow> u64" where "PLIC_MCLAIM hart = PLIC + 0x200004 + hart * 0x2000"
definition MAXVA :: u64 where "MAXVA = push_bit (9 + 9 + 9 + 12 - 1) 1"

text \<open>The user's part, the kernel and the devices follow one another up to the end of the bottom half of Sv39.\<close>

lemma layout_fits: "SPLIT < KERNSTOP" "MMIOBASE = KERNSTOP" "MMIOSTOP \<le> MAXVA" "USERSTACKMIN < USERSTACK" "USERSTACK < SPLIT"
  by (simp_all add: MAXVA_def layout)

end
