(* ===== verification/Context.thy ===== *)
theory Context
  imports Constants
begin

section \<open>Assembly: traps, context switches, the timer (trap.S, start.S)\<close>

text \<open>
  The assembly files, instruction by instruction. A routine is the list of its instructions up to the one that leaves
  it; a state of the processor holds the registers (\<open>x0\<close> is zero), the program counter, the control and status
  registers with the value last written, the privilege (0 user, 1 supervisor, 3 machine) and the memory.
  \<open>sstatus\<close> is a view of \<open>mstatus\<close>, which holds the fields that \<open>sret\<close> and \<open>mret\<close> use. The addresses of
  symbols are arguments of the routines.
\<close>

subsection \<open>The processor\<close>

datatype csr = Sscratch | Sepc | Sip | Mscratch | Mepc | Mie | Mstatus | Mtvec | Medeleg | Mideleg | Pmpaddr0 | Pmpcfg0

record machine =
  gpr :: "nat \<Rightarrow> u64"
  pc :: u64
  ctl :: "csr \<Rightarrow> u64"
  privilege :: u64
  ram :: memory

datatype instr =
    Sd nat u64 nat
  | Ld nat u64 nat
  | Li nat u64
  | La nat u64
  | Add nat nat nat
  | Or nat nat nat
  | Csrw csr nat
  | Csrr nat csr
  | Jump u64
  | Call u64 u64
  | Ret
  | Sret
  | Mret

definition put_gpr :: "nat \<Rightarrow> u64 \<Rightarrow> machine \<Rightarrow> machine" where
  "put_gpr r v M = (if r = 0 then M else M\<lparr>gpr := (gpr M)(r := v)\<rparr>)"

text \<open>In \<open>sip\<close>, the supervisor's own interrupt (bit 1) can be written, the other bits belong to the devices.\<close>

definition put_csr :: "csr \<Rightarrow> u64 \<Rightarrow> machine \<Rightarrow> machine" where
  "put_csr c v M = M\<lparr>ctl := (ctl M)(c := (if c = Sip then put_bit 1 (bit v 1) (ctl M Sip) else v))\<rparr>"

fun exec :: "instr \<Rightarrow> machine \<Rightarrow> machine" where
  "exec (Sd r off b) M = M\<lparr>ram := store64 (ram M) (gpr M b + off) (gpr M r)\<rparr>"
| "exec (Ld r off b) M = put_gpr r (load64 (ram M) (gpr M b + off)) M"
| "exec (Li r v) M = put_gpr r v M"
| "exec (La r v) M = put_gpr r v M"
| "exec (Add r a b) M = put_gpr r (gpr M a + gpr M b) M"
| "exec (Or r a b) M = put_gpr r (gpr M a OR gpr M b) M"
| "exec (Csrw c r) M = put_csr c (gpr M r) M"
| "exec (Csrr r c) M = put_gpr r (ctl M c) M"
| "exec (Jump a) M = M\<lparr>pc := a\<rparr>"
| "exec (Call a back) M = (put_gpr 1 back M)\<lparr>pc := a\<rparr>"
| "exec Ret M = M\<lparr>pc := gpr M 1\<rparr>"
| "exec Sret M =
     (let v = ctl M Mstatus in
      M\<lparr>pc := ctl M Sepc, privilege := field 8 1 v,
        ctl := (ctl M)(Mstatus := set_field 8 1 0 (put_bit 5 True (put_bit 1 (bit v 5) v)))\<rparr>)"
| "exec Mret M =
     (let v = ctl M Mstatus in
      M\<lparr>pc := ctl M Mepc, privilege := field 11 2 v,
        ctl := (ctl M)(Mstatus := set_field 11 2 0 (put_bit 7 True (put_bit 3 (bit v 7) v)))\<rparr>)"

definition run :: "instr list \<Rightarrow> machine \<Rightarrow> machine" where
  "run code M = fold exec code M"

lemma run_simps [simp]:
  "run [] M = M" "run (i # code) M = run code (exec i M)" "run (code @ code') M = run code' (run code M)"
  by (simp_all add: run_def)

subsection \<open>Routines\<close>

text \<open>The rows of \<open>sd x, 8*x(base)\<close> and \<open>ld x, 8*x(base)\<close> that the routines share.\<close>

definition save_rows :: "nat list \<Rightarrow> nat \<Rightarrow> instr list" where
  "save_rows rs b = map (\<lambda>r. Sd r (8 * of_nat r) b) rs"
definition load_rows :: "nat list \<Rightarrow> nat \<Rightarrow> instr list" where
  "load_rows rs b = map (\<lambda>r. Ld r (8 * of_nat r) b) rs"

text \<open>The rows of a trap frame leave out \<open>x5\<close>, those of \<open>klongjmp\<close> \<open>x1\<close> and \<open>x10\<close>.\<close>

definition trap_rows :: "nat list" where "trap_rows = [1..<5] @ [6..<32]"
definition jump_rows :: "nat list" where "jump_rows = [2..<10] @ [11..<32]"

lemma rows [simp]: "set trap_rows = {1..<32} - {5}" "set jump_rows = {2..<32} - {10}"
  unfolding trap_rows_def jump_rows_def set_append set_upt by auto

definition ksetjmp_code :: "u64 \<Rightarrow> instr list" where
  "ksetjmp_code ret1 = save_rows [1..<32] 10 @ [La 5 ret1, Sd 5 256 10, Li 10 0, Ret]"

definition ret1_code :: "instr list" where
  "ret1_code = [Ld 1 8 10, Li 10 1, Ret]"

definition klongjmp_code :: "instr list" where
  "klongjmp_code = Ld 1 256 10 # load_rows jump_rows 10 @ [Ld 10 80 10, Ret]"

definition trap_vector_code :: "u64 \<Rightarrow> u64 \<Rightarrow> instr list" where
  "trap_vector_code trapframe handler =
     [Csrw Sscratch 5, La 5 trapframe] @ save_rows trap_rows 5 @
     [Csrr 6 Sscratch, Sd 6 40 5, Csrr 6 Sepc, Sd 6 256 5, Ld 2 264 5, Jump handler]"

definition kernel_to_user_code :: "u64 \<Rightarrow> instr list" where
  "kernel_to_user_code trapframe =
     [La 5 trapframe, Ld 6 256 5, Csrw Sepc 6, Ld 6 40 5, Csrw Sscratch 6] @
     load_rows trap_rows 5 @ [Csrr 5 Sscratch, Sret]"

definition start_code :: "u64 \<Rightarrow> u64 \<Rightarrow> u64 \<Rightarrow> instr list" where
  "start_code stack main_function back = [La 2 stack, Call main_function back]"

definition TIMER_INTERVAL :: u64 where "TIMER_INTERVAL = 1000000"

text \<open>The clock is read from memory: a load at \<open>CLINT_MTIME\<close> gives what the device shows at that moment.\<close>

definition mret_code :: "u64 \<Rightarrow> instr list" where
  "mret_code timervec =
     [Li 5 0x3fffffffffffff, Csrw Pmpaddr0 5, Li 5 0xf, Csrw Pmpcfg0 5,
      Li 5 (- 1), Csrw Medeleg 5, Csrw Mideleg 5,
      Li 5 CLINT_MTIME, Ld 5 0 5, Li 6 TIMER_INTERVAL, Add 6 6 5, Li 5 (CLINT_MTIMECMP 0), Sd 6 0 5,
      La 5 timervec, Csrw Mtvec 5, Li 5 0xa0, Csrw Mie 5,
      Csrr 5 Mstatus, Li 6 0x808, Or 5 5 6, Csrw Mstatus 5,
      Li 5 (KERNBASE - KERNPHY), Add 1 1 5, Csrw Mepc 1, Add 2 2 5, Mret]"

definition timervec_code :: "u64 \<Rightarrow> instr list" where
  "timervec_code timerscratch =
     [Csrw Mscratch 5, La 5 timerscratch, Sd 6 8 5, Csrr 6 Mscratch, Sd 6 0 5,
      Li 5 CLINT_MTIME, Ld 5 0 5, Li 6 TIMER_INTERVAL, Add 6 6 5, Li 5 (CLINT_MTIMECMP 0), Sd 6 0 5,
      Li 5 2, Csrw Sip 5, La 5 timerscratch, Ld 6 8 5, Ld 5 0 5, Mret]"

text \<open>\<open>spin\<close> jumps to itself.\<close>

partial_function (option) spin :: "u64 \<Rightarrow> machine \<Rightarrow> machine option" where
  "spin at M = spin at (exec (Jump at) M)"

lemma spin_never_returns: "spin at M = None"
proof (cases "spin at M")
  case (Some R)
  then have False by (rule spin.raw_induct [rotated])
  then show ?thesis ..
qed

subsection \<open>Rows of stores and loads\<close>

lemma gpr_put_gpr [simp]: "gpr (put_gpr r v M) k = (if k = r \<and> r \<noteq> 0 then v else gpr M k)"
  by (simp add: put_gpr_def)

lemma put_gpr_other [simp]:
  "pc (put_gpr r v M) = pc M" "ctl (put_gpr r v M) = ctl M" "privilege (put_gpr r v M) = privilege M" "ram (put_gpr r v M) = ram M"
  by (simp_all add: put_gpr_def)

lemma put_csr_other [simp]:
  "pc (put_csr c v M) = pc M" "gpr (put_csr c v M) = gpr M" "privilege (put_csr c v M) = privilege M" "ram (put_csr c v M) = ram M"
  "ctl (put_csr c v M) d = (if d = c then if c = Sip then put_bit 1 (bit v 1) (ctl M Sip) else v else ctl M d)"
  by (simp_all add: put_csr_def)

lemma run_save_rows:
  "run (save_rows rs b) M = M\<lparr>ram := fold (\<lambda>r. set_cpu_register (gpr M b) r (gpr M r)) rs (ram M)\<rparr>"
  by (induction rs arbitrary: M) (simp_all add: save_rows_def set_cpu_register_def)

lemma run_load_rows:
  assumes "b \<notin> set rs" and "0 \<notin> set rs"
  shows "gpr (run (load_rows rs b) M) k = (if k \<in> set rs then cpu_register (ram M) (gpr M b) k else gpr M k)"
    and "pc (run (load_rows rs b) M) = pc M" and "ctl (run (load_rows rs b) M) = ctl M"
    and "privilege (run (load_rows rs b) M) = privilege M" and "ram (run (load_rows rs b) M) = ram M"
  using assms by (induction rs arbitrary: M) (auto simp: load_rows_def cpu_register_def)

lemma saved_registers:
  assumes "\<forall>r\<in>set rs. r < 32" and "k < 32"
  shows "cpu_register (fold (\<lambda>r. set_cpu_register c r (f r)) rs m) c k = (if k \<in> set rs then f k else cpu_register m c k)"
  using assms by (induction rs arbitrary: m) (auto simp: register_cells)

lemma saved_pc:
  "k < 32 \<Longrightarrow> cpu_register (set_cpu_pc c v m) c k = cpu_register m c k"
  "cpu_pc (set_cpu_pc c v m) c = v"
  using register_apart_pc [of k c] by (simp_all add: cpu_register_def cpu_pc_def set_cpu_pc_def load64_store64_other Int_commute)

lemma agree_cpu:
  assumes "agree (span c 264) m m'"
  shows "k < 32 \<Longrightarrow> cpu_register m c k = cpu_register m' c k" and "cpu_pc m c = cpu_pc m' c"
proof -
  assume k: "k < 32"
  then have "unat (8 * of_nat k :: u64) = 8 * k" by (simp add: unat_word_ariths unat_of_nat)
  then have "span (c + 8 * of_nat k) 8 \<subseteq> span c 264" using k by (intro span_shift_subset) simp
  then show "cpu_register m c k = cpu_register m' c k" unfolding cpu_register_def by (rule agree_load64 [OF assms])
next
  show "cpu_pc m c = cpu_pc m' c"
    unfolding cpu_pc_def using agree_load64 [OF assms span_shift_subset [of 256 8 264]] by simp
qed

subsection \<open>Traps\<close>

text \<open>
  \<open>trap_vector\<close> saves the 31 registers and the program counter, loads the kernel's stack pointer and goes on in
  \<open>trap_handler\<close>; nothing but the frame changes. \<open>x5\<close> and \<open>x6\<close>, which it works with, are saved first.
\<close>

lemma trap_vector_run:
  defines "M' M tf h \<equiv> run (trap_vector_code tf h) M"
  shows "0 < k \<Longrightarrow> k < 32 \<Longrightarrow> cpu_register (ram (M' M tf h)) tf k = gpr M k"
    and "cpu_pc (ram (M' M tf h)) tf = ctl M Sepc"
    and "agree (- span tf 264) (ram M) (ram (M' M tf h))"
    and "gpr (M' M tf h) 2 = load64 (ram M) (tf + 264)" and "pc (M' M tf h) = h"
    and "privilege (M' M tf h) = privilege M" and "ctl (M' M tf h) Mstatus = ctl M Mstatus"
proof -
  let ?rs = trap_rows
  let ?m = "set_cpu_pc tf (ctl M Sepc) (set_cpu_register tf 5 (gpr M 5) (fold (\<lambda>r. set_cpu_register tf r (gpr M r)) ?rs (ram M)))"
  have f: "fold (\<lambda>r. set_cpu_register tf r (if r = 5 then tf else gpr M r)) ?rs = fold (\<lambda>r. set_cpu_register tf r (gpr M r)) ?rs"
    by (intro ext fold_cong) simp_all
  have r: "\<forall>r\<in>set ?rs. r < 32" by auto
  have m: "ram (M' M tf h) = ?m" and g: "gpr (M' M tf h) 2 = load64 ?m (tf + 264)"
    unfolding M'_def trap_vector_code_def
    by (simp_all add: run_save_rows f set_cpu_register_def [of tf 5] set_cpu_pc_def cong: if_cong)
  show "0 < k \<Longrightarrow> k < 32 \<Longrightarrow> cpu_register (ram (M' M tf h)) tf k = gpr M k"
    using r by (auto simp: m saved_pc register_cells saved_registers)
  show "cpu_pc (ram (M' M tf h)) tf = ctl M Sepc" by (simp add: m saved_pc)
  show a: "agree (- span tf 264) (ram M) (ram (M' M tf h))"
    unfolding m using agree_trans [OF agree_trans [OF set_cpu_registers_frame [OF r] set_cpu_frame(1)] set_cpu_frame(2)] by simp
  have "span (tf + 264) 8 \<subseteq> - span tf 264" using span_disjoint_base(1) [of 264 264 8 tf] by auto
  then show "gpr (M' M tf h) 2 = load64 (ram M) (tf + 264)"
    using agree_load64 [OF a] g m by simp
qed (simp_all add: M'_def trap_vector_code_def run_save_rows)

text \<open>\<open>_kernel_to_user\<close> loads them all, and leaves with \<open>sret\<close>.\<close>

lemma kernel_to_user_run:
  defines "M' M tf \<equiv> run (kernel_to_user_code tf) M"
  shows "0 < k \<Longrightarrow> k < 32 \<Longrightarrow> gpr (M' M tf) k = cpu_register (ram M) tf k"
    and "pc (M' M tf) = cpu_pc (ram M) tf" and "ram (M' M tf) = ram M" and "gpr (M' M tf) 0 = gpr M 0"
    and "privilege (M' M tf) = field 8 1 (ctl M Mstatus)"
    and "bit (ctl (M' M tf) Mstatus) 1 = bit (ctl M Mstatus) 5"
proof -
  show "0 < k \<Longrightarrow> k < 32 \<Longrightarrow> gpr (M' M tf) k = cpu_register (ram M) tf k"
    by (auto simp: M'_def kernel_to_user_code_def run_load_rows Let_def cpu_register_def)
qed (simp_all add: M'_def kernel_to_user_code_def run_load_rows Let_def cpu_pc_def bit_set_field_iff bit_put_bit)

text \<open>What a kernel stores in the frame in between is what the thread sees, so an untouched frame brings the thread back as it was.\<close>

lemma return_to_user_status:
  assumes "return_to_user s = Some (Inr (d, s'))"
  shows "field 8 1 (sstatus s') = 0" and "bit (sstatus s') 5" and "mem s' = mem s"
proof -
  have s': "s' = s\<lparr>sstatus := put_bit 5 True (put_bit 1 False (set_field 8 1 0 (sstatus s)))\<rparr>"
    using assms by (simp add: return_to_user_def read_sstatus_def write_sstatus_def kbind_Inr kthen_Inr)
  show "field 8 1 (sstatus s') = 0"
    by (rule bit_word_eqI) (simp add: s' bit_field_iff bit_put_bit bit_set_field_iff)
  show "bit (sstatus s') 5" "mem s' = mem s" by (simp_all add: s' bit_put_bit)
qed

text \<open>
  Property C11. \<open>trap_vector\<close> enters the handler with the kernel's stack pointer and changes no memory but
  the frame. When the handler leaves through \<open>return_to_user\<close> with the frame as it was saved, \<open>_kernel_to_user\<close> goes on in user mode,
  with interrupts enabled in \<open>sstatus\<close>, at the interrupted instruction with all 31 registers as they were.
\<close>

theorem trap_round_trip:
  assumes "M1 = run (trap_vector_code tf h) M"
    and "return_to_user s = Some (Inr (d, s'))" and "agree (span tf 264) (ram M1) (mem s)"
    and "ram M2 = mem s'" and "ctl M2 Mstatus = sstatus s'"
    and "M3 = run (kernel_to_user_code tf) M2"
  shows "pc M1 = h \<and> gpr M1 2 = load64 (ram M) (tf + 264) \<and> agree (- span tf 264) (ram M) (ram M1) \<and>
    (\<forall>k. 0 < k \<and> k < 32 \<longrightarrow> gpr M3 k = gpr M k) \<and> pc M3 = ctl M Sepc \<and> privilege M3 = 0 \<and>
    bit (ctl M3 Mstatus) 1 \<and> ram M3 = mem s"
proof -
  note st = return_to_user_status [OF assms(2)]
  have a: "agree (span tf 264) (ram M1) (ram M2)" using assms(3,4) st(3) by simp
  from agree_cpu [OF a] have "cpu_register (ram M2) tf k = cpu_register (ram M1) tf k" if "k < 32" for k using that by simp
  moreover have "cpu_pc (ram M2) tf = cpu_pc (ram M1) tf" using agree_cpu [OF a] by simp
  ultimately show ?thesis
    using st assms(1,4,5,6) by (simp add: trap_vector_run kernel_to_user_run kernel_to_user_run(6) [simplified])
qed

definition sample :: machine where
  "sample = \<lparr>gpr = \<lambda>r. 3 * of_nat r, pc = 0, ctl = \<lambda>_. 0x3f00001234, privilege = 0, ram = \<lambda>_. 0\<rparr>"

lemma sample_simps [simp]:
  "gpr sample r = 3 * of_nat r" "pc sample = 0" "ctl sample c = 0x3f00001234" "privilege sample = 0" "ram sample = (\<lambda>_. 0)"
  by (simp_all add: sample_def)

lemma trap_round_trip_witness:
  "let M1 = run (trap_vector_code 0x3f00001000 0x3f00002000) sample;
       M3 = run (kernel_to_user_code 0x3f00001000) (M1\<lparr>ctl := (ctl M1)(Mstatus := 32)\<rparr>)
   in gpr M3 7 = 21 \<and> pc M3 = 0x3f00001234 \<and> privilege M3 = 0"
proof -
  define M1 where "M1 = run (trap_vector_code 0x3f00001000 0x3f00002000) sample"
  define s :: cpu_state where
    "s = \<lparr>mem = ram M1, early = False, buddy_pages = [], satp = 0, sstatus = 0, sie = 0, sip = 0, scause = 0, stval = 0, may_page_fault = False\<rparr>"
  have "put_bit 5 True (put_bit 1 False (set_field 8 1 0 0)) = (32 :: u64)"
    by (simp add: put_bit_def set_field_def mask_numeral)
  then have r: "return_to_user s = Some (Inr (Enter_user, s\<lparr>sstatus := 32\<rparr>))"
    by (simp add: return_to_user_def read_sstatus_def write_sstatus_def kbind_Inr kthen_Inr s_def)
  define M2 where "M2 = M1\<lparr>ctl := (ctl M1)(Mstatus := 32)\<rparr>"
  have "agree (span 0x3f00001000 264) (ram M1) (mem s)" "ram M2 = mem (s\<lparr>sstatus := 32\<rparr>)" "ctl M2 Mstatus = sstatus (s\<lparr>sstatus := 32\<rparr>)"
    by (simp_all add: s_def M2_def)
  from trap_round_trip [OF M1_def r this refl] show ?thesis
    by (simp add: Let_def M1_def [symmetric] M2_def [symmetric])
qed

subsection \<open>Context switches\<close>

lemma ksetjmp_run:
  defines "M' M r1 \<equiv> run (ksetjmp_code r1) M"
  assumes "gpr M 10 = f"
  shows "ram (M' M r1) = set_cpu_pc f r1 (fold (\<lambda>r. set_cpu_register f r (gpr M r)) [1..<32] (ram M))"
    and "gpr (M' M r1) k = (if k = 10 then 0 else if k = 5 then r1 else gpr M k)" and "pc (M' M r1) = gpr M 1"
    and "privilege (M' M r1) = privilege M" and "ctl (M' M r1) = ctl M"
  using assms(2) by (simp_all add: M'_def ksetjmp_code_def run_save_rows set_cpu_pc_def del: upt_rec_numeral)

text \<open>
  Property C28. \<open>ksetjmp\<close> of \<open>trap.S\<close> implements the operation \<open>ksetjmp\<close> of the scheduler's model: the
  instructions leave the memory that the model describes, return 0, and keep every register but \<open>a0\<close> and \<open>t0\<close>.
\<close>

theorem ksetjmp_refines:
  assumes "kernel_regs s = map (gpr M) [0..<32]" and "ram M = mem s" and "gpr M REG_A0 = frame"
  shows "ksetjmp G frame s = Some (Inr ((), s\<lparr>mem := ram (run (ksetjmp_code (sym_setjmp_return G)) M)\<rparr>)) \<and>
    gpr (run (ksetjmp_code (sym_setjmp_return G)) M) REG_A0 = 0 \<and> pc (run (ksetjmp_code (sym_setjmp_return G)) M) = gpr M 1 \<and>
    (\<forall>k. k \<noteq> REG_A0 \<and> k \<noteq> 5 \<longrightarrow> gpr (run (ksetjmp_code (sym_setjmp_return G)) M) k = gpr M k)"
proof -
  have "fold (\<lambda>r. set_cpu_register frame r (if r = REG_A0 then frame else kernel_regs s ! r)) [1..<32] (mem s)
      = fold (\<lambda>r. set_cpu_register frame r (gpr M r)) [1..<32] (mem s)"
    using assms(1,3) by (intro fold_cong refl) (auto simp del: upt_rec_numeral)
  then show ?thesis
    using assms(2,3) by (simp add: ksetjmp_run ksetjmp_def store_cpu_def kmodify_apply REG_A0_def del: upt_rec_numeral)
qed

lemma ksetjmp_refines_witness:
  "\<exists>(s :: sched_state) G. ksetjmp G 30 s = Some (Inr ((), s\<lparr>mem := ram (run (ksetjmp_code (sym_setjmp_return G)) sample)\<rparr>))"
proof -
  obtain s :: sched_state where "kernel_regs s = map (gpr sample) [0..<32]" "ram sample = mem s"
    using sched_state.select_convs mm_state.select_convs by metis
  moreover have "gpr sample REG_A0 = 30" by (simp add: REG_A0_def)
  ultimately show ?thesis using ksetjmp_refines [of s sample 30] by blast
qed

text \<open>\<open>klongjmp\<close>, whose \<open>ret\<close> needs \<open>x1\<close>, leaves the \<open>pc\<close> of the frame there, not the saved \<open>x1\<close>.\<close>

lemma klongjmp_run:
  defines "M' M \<equiv> run klongjmp_code M"
  shows "1 < k \<Longrightarrow> k < 32 \<Longrightarrow> gpr (M' M) k = cpu_register (ram M) (gpr M 10) k"
    and "gpr (M' M) 1 = cpu_pc (ram M) (gpr M 10)" and "pc (M' M) = cpu_pc (ram M) (gpr M 10)"
    and "ram (M' M) = ram M" and "privilege (M' M) = privilege M" and "ctl (M' M) = ctl M" and "gpr (M' M) 0 = gpr M 0"
  by (auto simp: M'_def klongjmp_code_def run_load_rows cpu_pc_def cpu_register_def)

lemma ret1_run:
  defines "M' M \<equiv> run ret1_code M"
  shows "gpr (M' M) k = (if k = 10 then 1 else if k = 1 then cpu_register (ram M) (gpr M 10) 1 else gpr M k)"
    and "pc (M' M) = cpu_register (ram M) (gpr M 10) 1" and "ram (M' M) = ram M"
    and "privilege (M' M) = privilege M" and "ctl (M' M) = ctl M"
  by (simp_all add: M'_def ret1_code_def cpu_register_def)

text \<open>
  Property C12. \<open>ksetjmp\<close> returns 0 to its caller. When \<open>klongjmp\<close> is called on the frame later, with whatever
  registers, the caller is returned to a second time, with 1 and with its own registers, \<open>ra\<close> and \<open>sp\<close> included; the memory is
  that of the moment of \<open>klongjmp\<close>.
\<close>

theorem context_switch_round_trip:
  assumes "M1 = run (ksetjmp_code ret1) M" and "gpr M 10 = frame"
    and "agree (span frame 264) (ram M1) (ram M2)" and "gpr M2 10 = frame"
    and "M3 = run klongjmp_code M2" and "M4 = run ret1_code M3"
  shows "pc M1 = gpr M 1 \<and> gpr M1 10 = 0 \<and> agree (- span frame 264) (ram M) (ram M1) \<and> pc M3 = ret1 \<and>
    pc M4 = gpr M 1 \<and> gpr M4 10 = 1 \<and> (\<forall>k. 0 < k \<and> k < 32 \<and> k \<noteq> 10 \<longrightarrow> gpr M4 k = gpr M k) \<and> ram M4 = ram M2"
proof -
  have r: "\<forall>r\<in>set [1..<32]. r < 32" by simp
  have m: "ram M1 = set_cpu_pc frame ret1 (fold (\<lambda>r. set_cpu_register frame r (gpr M r)) [1..<32] (ram M))"
    using ksetjmp_run(1) assms(1,2) by simp
  have s: "cpu_register (ram M2) frame k = gpr M k" if "0 < k" "k < 32" for k
    using that r agree_cpu(1) [OF assms(3), of k] by (simp add: m saved_pc saved_registers del: upt_rec_numeral)
  have p: "cpu_pc (ram M2) frame = ret1" using agree_cpu(2) [OF assms(3)] by (simp add: m saved_pc)
  have "agree (- span frame 264) (ram M) (ram M1)"
    unfolding m by (rule agree_trans [OF set_cpu_registers_frame [OF r] set_cpu_frame(2)])
  then show ?thesis
    using assms(1,2,4,5,6) s p by (auto simp: ksetjmp_run klongjmp_run ret1_run)
qed

lemma context_switch_round_trip_witness:
  "let M1 = run (ksetjmp_code 0x3f00003000) sample; M2 = sample\<lparr>ram := ram M1\<rparr>; M4 = run ret1_code (run klongjmp_code M2)
   in pc M1 = 3 \<and> pc M4 = 3 \<and> gpr M4 10 = 1 \<and> gpr M4 2 = 6"
proof -
  define M2 where "M2 = sample\<lparr>ram := ram (run (ksetjmp_code 0x3f00003000) sample)\<rparr>"
  have "gpr sample 10 = 30" "agree (span 30 264) (ram (run (ksetjmp_code 0x3f00003000) sample)) (ram M2)" "gpr M2 10 = 30"
    by (simp_all add: M2_def)
  from context_switch_round_trip [OF refl this refl refl] show ?thesis
    by (simp add: Let_def M2_def [symmetric])
qed

text \<open>
  Property C35. Where \<open>trap_handler\<close> goes back to interrupted kernel code, it calls \<open>klongjmp\<close> on the
  trap frame. That continues at the interrupted instruction with the registers \<open>x2\<close> to \<open>x31\<close> as they were, but \<open>x1\<close>, the return
  address of the interrupted function, is overwritten with the address of the interrupted instruction.
\<close>

theorem kernel_interrupt_loses_ra:
  assumes "M1 = run (trap_vector_code tf h) M" and "agree (span tf 264) (ram M1) (ram M2)" and "gpr M2 10 = tf"
    and "M3 = run klongjmp_code M2"
  shows "pc M3 = ctl M Sepc \<and> gpr M3 1 = ctl M Sepc \<and> (\<forall>k. 1 < k \<and> k < 32 \<longrightarrow> gpr M3 k = gpr M k)"
  using assms(1,3,4) agree_cpu [OF agree_sym [OF assms(2)]] by (simp add: trap_vector_run klongjmp_run klongjmp_run(2) [simplified])

lemma kernel_interrupt_loses_ra_witness:
  "let M1 = run (trap_vector_code 0x3f00001000 0x3f00002000) sample; M3 = run klongjmp_code (M1\<lparr>gpr := (gpr M1)(10 := 0x3f00001000)\<rparr>)
   in gpr sample 1 = 3 \<and> gpr M3 1 = 0x3f00001234 \<and> gpr M3 2 = 6"
proof -
  define M1 where "M1 = run (trap_vector_code 0x3f00001000 0x3f00002000) sample"
  define M2 where "M2 = M1\<lparr>gpr := (gpr M1)(10 := 0x3f00001000)\<rparr>"
  have "agree (span 0x3f00001000 264) (ram M1) (ram M2)" "gpr M2 10 = 0x3f00001000" by (simp_all add: M2_def)
  from kernel_interrupt_loses_ra [OF M1_def this refl] show ?thesis
    by (simp add: Let_def M1_def [symmetric] M2_def [symmetric])
qed

subsection \<open>The timer and the way into supervisor mode\<close>

text \<open>
  Property C29. The machine-mode timer handler is invisible to what it interrupts: every register is as before, it goes back to
  the interrupted instruction and mode, and writes no memory but its scratch area and the next deadline, one interval
  after the clock. It leaves a supervisor software interrupt pending, which is the kernel's timer tick.
\<close>

theorem timervec_transparent:
  assumes "span ts 16 \<inter> span (CLINT_MTIMECMP 0) 8 = {}" and "span ts 16 \<inter> span CLINT_MTIME 8 = {}"
    and "M' = run (timervec_code ts) M"
  shows "gpr M' = gpr M \<and> pc M' = ctl M Mepc \<and> privilege M' = field 11 2 (ctl M Mstatus) \<and>
    load64 (ram M') (CLINT_MTIMECMP 0) = load64 (ram M) CLINT_MTIME + 1000000 \<and>
    agree (- (span ts 16 \<union> span (CLINT_MTIMECMP 0) 8)) (ram M) (ram M') \<and>
    (\<forall>n. bit (ctl M' Sip) n = (n = 1 \<or> bit (ctl M Sip) n)) \<and> (\<forall>c. c \<notin> {Sip, Mscratch, Mstatus} \<longrightarrow> ctl M' c = ctl M c)"
proof -
  let ?a = "CLINT_MTIMECMP 0" and ?m = "store64 (store64 (ram M) (ts + 8) (gpr M 6)) ts (gpr M 5)"
  have sub: "span ts 8 \<subseteq> span ts 16" "span (ts + 8) 8 \<subseteq> span ts 16"
    by (rule span_mono, simp, rule span_shift_subset, simp)
  have d: "span ts 8 \<inter> span (ts + 8) 8 = {}" by (rule span_disjoint_base) simp_all
  have t: "load64 ?m CLINT_MTIME = load64 (ram M) CLINT_MTIME"
  proof -
    have "span (ts + 8) 8 \<inter> span CLINT_MTIME 8 = {}" "span ts 8 \<inter> span CLINT_MTIME 8 = {}" using assms(2) sub by blast+
    then show ?thesis by (simp add: load64_store64_other)
  qed
  let ?m' = "store64 ?m ?a (load64 (ram M) CLINT_MTIME + 1000000)"
  have l: "load64 ?m' (ts + 8) = gpr M 6" "load64 ?m' ts = gpr M 5"
  proof -
    have "span ?a 8 \<inter> span (ts + 8) 8 = {}" "span ?a 8 \<inter> span ts 8 = {}" using assms(1) sub by blast+
    then show "load64 ?m' (ts + 8) = gpr M 6" "load64 ?m' ts = gpr M 5" using d by (simp_all add: load64_store64_other)
  qed
  have "agree (- (span ts 16 \<union> span ?a 8)) ?m' (ram M)"
    using sub by (intro agree_trans [OF agree_store64] agree_store64) blast+
  then have a: "agree (- (span ts 16 \<union> span ?a 8)) (ram M) ?m'" by (rule agree_sym)
  have m: "ram M' = ?m'"
    using t by (simp add: assms(3) timervec_code_def TIMER_INTERVAL_def Let_def add.commute)
  have "gpr M' = gpr M"
    using l by (intro ext) (simp add: assms(3) timervec_code_def TIMER_INTERVAL_def Let_def add.commute t)
  moreover have "pc M' = ctl M Mepc" "privilege M' = field 11 2 (ctl M Mstatus)"
    by (simp_all add: assms(3) timervec_code_def Let_def)
  moreover have "ctl M' Sip = put_bit 1 True (ctl M Sip)" "c \<notin> {Sip, Mscratch, Mstatus} \<Longrightarrow> ctl M' c = ctl M c" for c
    by (simp_all add: assms(3) timervec_code_def Let_def)
  ultimately show ?thesis using a by (auto simp: m bit_put_bit)
qed

lemma timervec_transparent_witness:
  "let M' = run (timervec_code 0x80003000) sample
   in gpr M' 5 = 15 \<and> gpr M' 6 = 18 \<and> pc M' = 0x3f00001234 \<and> load64 (ram M') 0x2004000 = 1000000"
proof -
  have "span 0x80003000 16 \<inter> span (CLINT_MTIMECMP 0) 8 = {}" "span 0x80003000 16 \<inter> span CLINT_MTIME 8 = {}"
    by (rule span_disjoint; simp add: CLINT_MTIMECMP_def CLINT_MTIME_def CLINT_def)+
  moreover have "load64 (\<lambda>_. 0) a = 0" for a by (rule load_zero)
  ultimately show ?thesis
    using timervec_transparent [of "0x80003000" "run (timervec_code 0x80003000) sample" sample]
    by (simp add: Let_def CLINT_MTIMECMP_def CLINT_def)
qed

text \<open>
  \<open>mret\<close> returns to its caller \<open>main\<close>, in supervisor mode and at the kernel's virtual addresses, when the higher bit of the previous
  privilege was clear; the timer is set and interrupts and exceptions are delegated.
\<close>

lemma mret_run:
  defines "M' M tv \<equiv> run (mret_code tv) M"
  assumes "\<not> bit (ctl M Mstatus) 12"
  shows "privilege (M' M tv) = 1" and "pc (M' M tv) = VA_of (gpr M 1)" and "gpr (M' M tv) 2 = VA_of (gpr M 2)"
    and "ctl (M' M tv) Mtvec = tv" and "ctl (M' M tv) Mie = 0xa0" and "ctl (M' M tv) Mideleg = - 1"
    and "ram (M' M tv) = store64 (ram M) (CLINT_MTIMECMP 0) (1000000 + load64 (ram M) CLINT_MTIME)"
proof -
  have "field 11 2 (ctl M Mstatus OR 0x808) = 1"
    by (rule bit_word_eqI) (use assms(2) in \<open>auto simp: bit_field_iff bit_simps less_Suc_eq numeral_2_eq_2\<close>)
  then show "privilege (M' M tv) = 1" by (simp add: M'_def mret_code_def Let_def)
qed (simp_all add: M'_def mret_code_def Let_def VA_of_def TIMER_INTERVAL_def)

end
