(* ===== verification/Spec2Isabelle.thy ===== *)
theory Spec2Isabelle
  imports Klist Printf Thread User_Access_Correct Vm_Correct Sched_Correct Irq_Correct Start_Correct Panic_Correct Boot
    User_Correct Grow_Correct Clone_Correct Fork_Correct Exit_Correct User_Test Context
begin

text \<open>
  A verification library for fakekernel, a small kernel for 64-bit RISC-V (\<^verbatim>\<open>src/kernel/\<close>) and
  the library of its user programs (\<^verbatim>\<open>src/user/\<close>).

  \<^bold>\<open>The program.\<close> \<^verbatim>\<open>main.c\<close> sets up memory and devices and creates the first task; from then on
  everything happens in traps. \<^verbatim>\<open>mm.c\<close> holds the buddy allocator, \<open>kmalloc\<close>, the Sv39 page tables and
  the copies from and to user memory; \<^verbatim>\<open>vm.c\<close> the areas of a process; \<^verbatim>\<open>list.h\<close> the intrusive lists on
  which areas, frames, run queue and wait groups live; \<^verbatim>\<open>sched.c\<close> the tasks and the scheduler;
  \<^verbatim>\<open>elf.c\<close> the loader; \<^verbatim>\<open>syscall.c\<close> the system calls; \<^verbatim>\<open>irq.c\<close> and \<^verbatim>\<open>uart.c\<close> the interrupts and the serial
  port; \<^verbatim>\<open>printf.c\<close> and \<^verbatim>\<open>panic.h\<close> the output.

  \<^bold>\<open>The model.\<close> The memory is one array of bytes, \<open>memory = u64 \<Rightarrow> u8\<close> (\<^verbatim>\<open>Memory\<close>), and every pointer
  access is a load or a store of 1, 4 or 8 bytes at the offset of its field, so that a free area, a
  page table, a list node and a task may alias as they do in the program. The state is a record
  that every component extends: \<open>mm_state\<close> (memory, \<open>early\<close>, \<open>buddy_pages\<close>; \<^verbatim>\<open>Buddy\<close>),
  \<open>cpu_state\<close> (control and status registers, \<open>may_page_fault\<close>; \<^verbatim>\<open>Riscv\<close>), \<open>sched_state\<close> (the
  current task, the registers of the running kernel code; \<^verbatim>\<open>Thread\<close>), \<open>uart_state\<close> (ring buffers and the
  serial port; \<^verbatim>\<open>Uart\<close>) and \<open>irq_state\<close> (the interrupt controller; \<^verbatim>\<open>Irq\<close>). A call has the type
  \<open>('s, 'a) kern = 's \<Rightarrow> (string + 'a \<times> 's) option\<close> (\<^verbatim>\<open>Prelude\<close>): \<open>None\<close> is a call that never ends, \<open>Inl\<close> a
  panic with its message, \<open>Inr\<close> a result and the next state. A function that switches to another
  thread and therefore does not return gives \<open>Switch d\<close>, where \<open>d\<close> names who runs next. Machine
  integers are words of their width, and wrap around; \<open>int\<close>, \<open>i64\<close> and \<open>size_t\<close> are compared as signed.

  \<^bold>\<open>Theories that model code.\<close>
  \<^item> \<^verbatim>\<open>Prelude\<close>, \<^verbatim>\<open>Memory\<close>: integer types and error pointers of \<^verbatim>\<open>type.h\<close>, \<^verbatim>\<open>errno.h\<close>, the kernel monad with
    its rules, loads and stores, \<open>span a n\<close> (the cells \<open>a, \<dots>, a + n - 1\<close>) and \<open>agree A m m'\<close>.
  \<^item> \<^verbatim>\<open>Layout\<close>, \<^verbatim>\<open>Riscv\<close>: \<^verbatim>\<open>memlayout.h\<close>, \<^verbatim>\<open>mmdefs.h\<close>, \<^verbatim>\<open>riscv.h\<close>; \<^verbatim>\<open>Constants\<close>: the tables of error numbers and
    registers, and the device addresses that the C code does not use.
  \<^item> \<^verbatim>\<open>Context\<close>: \<^verbatim>\<open>trap.S\<close> and \<^verbatim>\<open>start.S\<close> as lists of instructions, on the state of a processor.
  \<^item> \<^verbatim>\<open>Thread\<close>: the fields of \<open>struct task\<close> and \<open>struct cpu\<close>, what \<open>ksetjmp\<close> and \<open>trap_vector\<close> store, and \<open>page_fault\<close>, the
    way of a page fault of the kernel through \<open>trap_vector\<close> and \<open>kernel_trap\<close> to \<open>page_fault_handler\<close>.
  \<^item> \<^verbatim>\<open>Buddy\<close>, \<^verbatim>\<open>Paging\<close>, \<^verbatim>\<open>User_Access\<close>: \<^verbatim>\<open>mm.c\<close> and \<^verbatim>\<open>string.c\<close>; \<open>page_allocator_init\<close> to \<open>kfree\<close>,
    \<open>create_page_table\<close> to \<open>destroy_page_table\<close>, \<open>copy_from_user\<close> to \<open>user_copy_args\<close>.
  \<^item> \<^verbatim>\<open>Klist\<close>: \<^verbatim>\<open>list.h\<close>. \<^verbatim>\<open>Vm\<close>: \<^verbatim>\<open>vm.c\<close>. \<^verbatim>\<open>Sched\<close>: \<^verbatim>\<open>sched.c\<close>, and the growth of the stack.
  \<^item> \<^verbatim>\<open>Uart\<close>, \<^verbatim>\<open>Irq\<close>, \<^verbatim>\<open>Syscall\<close>: \<^verbatim>\<open>uart.c\<close>; \<^verbatim>\<open>irq.c\<close>; \<^verbatim>\<open>syscall.c\<close> and \<open>task_entry\<close>.
  \<^item> \<^verbatim>\<open>Elf\<close>: \<^verbatim>\<open>elf.c\<close>. \<^verbatim>\<open>Printf\<close>: \<^verbatim>\<open>printf.c\<close>. \<^verbatim>\<open>Panic\<close>: \<^verbatim>\<open>panic.h\<close>, and output by \<open>uartputc\<close>. \<^verbatim>\<open>Boot\<close>: \<^verbatim>\<open>main.c\<close>.
  \<^item> \<^verbatim>\<open>User_Lib\<close>: \<^verbatim>\<open>user/stdio.h\<close>, \<^verbatim>\<open>user/syscall.h\<close>, \<open>main\<close> of \<^verbatim>\<open>user/hello.c\<close>. \<^verbatim>\<open>User_Test\<close>: the programs
    \<^verbatim>\<open>user/test.c\<close>, \<^verbatim>\<open>user/test1.s\<close> and the rest of \<^verbatim>\<open>hello.c\<close>, and that they never return.

  \<^bold>\<open>Interfaces.\<close> The locales of \<^verbatim>\<open>Queue\<close> say what a first-in first-out queue promises; the intrusive lists
  and the two ring buffers of the serial port interpret them. The locale \<open>console\<close> (\<^verbatim>\<open>User_Lib\<close>)
  says what the user library expects of \<open>ecall\<close>; \<^verbatim>\<open>User_Correct\<close> interprets it on the model of the
  kernel, from the trap through \<open>task_entry\<close> and the driver to the return to user mode.

  \<^bold>\<open>What is shown.\<close>
  \<^item> \<^verbatim>\<open>Buddy_Correct\<close>: \<open>allocator F s\<close> (the free lists are well formed, coalesced, and hold exactly \<open>F\<close>)
    is established and kept; areas are aligned, disjoint and come back.
  \<^item> \<^verbatim>\<open>Paging_Correct\<close>: \<open>lookup\<close> is the walk of the hardware; \<open>ptable\<close> says that a table is a tree of
    disjoint pages. Mapping and unmapping change one translation, whatever superpages are split on
    the way, and tables are released completely.
  \<^item> \<^verbatim>\<open>User_Access_Correct\<close>: the copies write nothing but their destination and \<open>page_fault_handler\<close>, where their
    \<open>ksetjmp\<close> stores the registers, and, when they fault, what the trap writes: \<open>trapframe\<close>, the running task's \<open>kernel_frame\<close>,
    \<open>scause\<close>, \<open>stval\<close>, \<open>sepc\<close> and fields of \<open>sstatus\<close>. They close the page-fault window, and return pointers or error
    numbers that the caller can tell apart.
  \<^item> \<^verbatim>\<open>Vm_Correct\<close>, \<^verbatim>\<open>Elf_Correct\<close>, \<^verbatim>\<open>Load_Correct\<close>, \<^verbatim>\<open>Exec_Correct\<close>, \<^verbatim>\<open>Argv_Correct\<close>, \<^verbatim>\<open>Start_Correct\<close>: one page,
    one segment, all segments, the stack and registers, the argument vectors; together,
    \<open>task_init_elf\<close> builds the address space that the program's headers ask for. \<open>image_inv\<close> is the
    invariant that these steps hand on.
  \<^item> \<^verbatim>\<open>Grow_Correct\<close>, \<^verbatim>\<open>Clone_Correct\<close>, \<^verbatim>\<open>Fork_Correct\<close>, \<^verbatim>\<open>Exit_Correct\<close>: the life of a process. A page fault grows
    the stack; one page, one area, all areas are copied, and \<open>fork\<close> makes a task that sees the parent's
    bytes in its own frames; \<open>exit\<close> gives back what belongs to the task and goes on with the next thread.
  \<^item> \<^verbatim>\<open>Sched_Correct\<close>: the lists and tasks in memory refine an abstract scheduler on sequences of
    threads; threads are conserved and scheduled in turn.
  \<^item> \<^verbatim>\<open>Uart_Correct\<close>, \<^verbatim>\<open>Irq_Correct\<close>, \<^verbatim>\<open>Syscall_Correct\<close>: interrupts, wakeups, and traps from user mode
    back to user mode. \<open>page_fault_is_trap\<close> shows that \<open>page_fault\<close> is what \<open>trap_handler\<close> does. The relation \<open>resumes\<close> has
    the runs between two dispatches of a thread: events of the scheduler, and between them anything that other threads
    may do with the memory, the registers and the set of threads, as long as the thread's own \<open>struct task\<close> stays as it
    is and the scheduler's invariant holds.
  \<^item> \<^verbatim>\<open>Context\<close>: registers survive traps, context switches and timer interrupts; \<open>mret\<close> enters supervisor mode.
  \<^item> \<^verbatim>\<open>Printf\<close>, \<^verbatim>\<open>Panic_Correct\<close>, \<^verbatim>\<open>User_Correct\<close>: what is printed, by the kernel, in a panic and by user
    programs through the kernel.

  Some properties state what the code does against its intention, on the inputs where it does: a
  list that becomes cyclic, a leaked buffer, a panic that a user can cause, a missing end of
  \<open>argv\<close>.

  \<^bold>\<open>Loops and bounds.\<close> No definition uses fuel. Loops that count are \<open>function\<close>s with a measure;
  walks over lists and strings in memory, which end only on well-formed data, are
  \<open>partial_function (option)\<close>, and the properties show that they end. Devices are streams: what the
  next read of a status or data register returns is an argument, so that the properties hold for
  every device. Where memory can run out, the property says so: \<open>covered k F\<close> bounds the free memory
  by \<open>k\<close> pages, and the bound in each property is the number of pages that the call needs at most.

  \<^bold>\<open>Not modelled.\<close>
  \<^item> \<^verbatim>\<open>kernel.ld\<close>, the Makefiles: linker script and build; addresses of symbols are parameters (\<open>symbols\<close>,
    \<open>boot_places\<close>, and the arguments of the routines in \<^verbatim>\<open>Context\<close>).
  \<^item> the run of C code and assembly on one processor state: in the model of the C code, a trap starts with the frame
    saved, and a switch to another thread names the frame. The registers and the program counter of the compiled code at a
    page fault are a parameter (\<open>sym_fault_context\<close>), as is what it has in its registers when it calls \<open>ksetjmp\<close>
    (\<open>kernel_regs\<close>). \<open>trap_round_trip\<close>, \<open>ksetjmp_refines\<close> and
    \<open>context_switch_round_trip\<close> (\<^verbatim>\<open>Context\<close>) state what the assembly does on the other side of these interfaces.
  \<^item> \<open>schedule_stack\<close>, the stack on which the scheduler runs, and what \<open>alloc_pages\<close>, \<open>free_pages\<close> and the handlers in
    \<^verbatim>\<open>irq.c\<close> print just before they panic: a panic inside another call is its message, and what a panic prints is in \<^verbatim>\<open>Panic\<close>.
    The messages under \<open>DEBUG_\<close> macros, which the build does not define; of \<open>dump_buddy\<close>, which nothing calls, the model has the numbers.
  \<^item> the translation of the kernel's own accesses: the kernel's half maps the memory one to one
    (\<open>create_page_table_correct\<close>), so its accesses go to \<open>memory\<close> directly, and one outside the
    mapped memory does not fault in the model. Physical addresses are turned into these addresses
    (\<open>VA_of\<close>), also before the page table is switched on.
  \<^item> caches, the TLB (\<open>sfence.vma\<close> does nothing) and more than one hart; the kernel runs on one.
\<close>

end
